(* ===== verification/Agc_Prelude.thy ===== *)
theory Agc_Prelude
  imports Main "HOL-Library.Word" "HOL-Library.Monad_Syntax"
begin

text \<open>
  The vocabulary the component theories share: machine integers at the width
  the C code gives them, status codes (\<^verbatim>\<open>agc_status_t\<close> of
  \<^verbatim>\<open>src/src/include/agc_types.h\<close>), the case-insensitive string comparison of the
  C library, and small facts about lists and options.

  A C string is a \<^typ>\<open>string\<close> without its terminating NUL; a pointer that may be
  \<^verbatim>\<open>NULL\<close> is an \<open>option\<close>, or an address of type \<open>nat\<close> where \<open>0\<close> is \<^verbatim>\<open>NULL\<close>.
  In the theories that work on an explicit store the value \<^const>\<open>None\<close> of an
  operation stands for a run that dereferences a pointer outside the store or
  never returns.
\<close>

type_synonym addr = nat
type_synonym u8 = "8 word"
type_synonym u32 = "32 word"
type_synonym u64 = "64 word"

abbreviation (input) NULL :: addr where "NULL \<equiv> 0"

datatype agc_status =
    AGC_STATUS_SUCCESS | AGC_STATUS_FALSE | AGC_STATUS_TIMEOUT | AGC_STATUS_RESTART
  | AGC_STATUS_INTR | AGC_STATUS_NOTIMPL | AGC_STATUS_MEMERR | AGC_STATUS_NOOP
  | AGC_STATUS_RESAMPLE | AGC_STATUS_GENERR | AGC_STATUS_INUSE | AGC_STATUS_BREAK
  | AGC_STATUS_SOCKERR | AGC_STATUS_MORE_DATA | AGC_STATUS_NOTFOUND | AGC_STATUS_UNLOAD
  | AGC_STATUS_NOUNLOAD | AGC_STATUS_IGNORE | AGC_STATUS_TOO_SMALL | AGC_STATUS_FOUND
  | AGC_STATUS_CONTINUE | AGC_STATUS_TERM | AGC_STATUS_NOT_INITALIZED | AGC_STATUS_TOO_LATE
  | AGC_STATUS_XBREAK | AGC_STATUS_WINBREAK

named_theorems agc_heap \<open>reads and writes of the explicit stores\<close>
named_theorems agc_shape \<open>shape of the abstract trees and lists behind a store\<close>

text \<open>
  Sizes that the code keeps in an \<^verbatim>\<open>int\<close>: a number that is not in its range is an overflow.
\<close>

definition INT_MAX :: int where "INT_MAX = 2147483647"

definition fits :: "nat \<Rightarrow> bool" where
  "fits n \<longleftrightarrow> int n \<le> INT_MAX"

section \<open>The C library's string functions\<close>

definition c_tolower :: "char \<Rightarrow> char" where
  "c_tolower c =
     (if 65 \<le> (of_char c :: nat) \<and> (of_char c :: nat) \<le> 90
      then char_of ((of_char c :: nat) + 32) else c)"

definition strcasecmp_eq :: "string \<Rightarrow> string \<Rightarrow> bool" where
  "strcasecmp_eq s t \<longleftrightarrow> map c_tolower s = map c_tolower t"

lemma strcasecmp_eq_refl [simp]: "strcasecmp_eq s s"
  by (simp add: strcasecmp_eq_def)

lemma strcasecmp_eq_sym: "strcasecmp_eq s t \<longleftrightarrow> strcasecmp_eq t s"
  by (auto simp: strcasecmp_eq_def)

lemma strcasecmp_eq_trans:
  "strcasecmp_eq s t \<Longrightarrow> strcasecmp_eq t u \<Longrightarrow> strcasecmp_eq s u"
  by (simp add: strcasecmp_eq_def)

lemma strcasecmp_eq_length: "strcasecmp_eq s t \<Longrightarrow> length s = length t"
  unfolding strcasecmp_eq_def by (metis length_map)

section \<open>Lists and options\<close>

lemma distinct_middle [agc_shape]:
  "distinct (xs @ a # ys) \<longleftrightarrow> distinct (xs @ ys) \<and> a \<notin> set xs \<and> a \<notin> set ys"
  by auto

lemma bind_Some_iff:
  "Option.bind m f = Some y \<longleftrightarrow> (\<exists>x. m = Some x \<and> f x = Some y)"
  by (cases m) auto

section \<open>Machine integers\<close>

lemma unat_u32_less: "unat (x :: u32) < 4294967296"
proof -
  have "unat x < 2 ^ LENGTH(32)" by (rule unsigned_less)
  then show ?thesis by simp
qed

lemma unat_u32_Suc: "unat (x :: u32) < n \<Longrightarrow> n \<le> 4294967295 \<Longrightarrow> unat (x + 1) = Suc (unat x)"
  by (simp add: unat_word_ariths)

lemma unat_u32_pred: "(x :: u32) \<noteq> 0 \<Longrightarrow> unat (x - 1) = unat x - 1"
  by (subst unat_sub) (simp_all add: word_le_nat_alt Suc_le_eq unat_gt_0)

end
