(* ===== verification/Agc_Rbtree.thy ===== *)
theory Agc_Rbtree
  imports Agc_Prelude "HOL-Library.Tree"
begin

text \<open>
  The intrusive red-black tree of \<^verbatim>\<open>src/src/agc_rbtree.c\<close> and
  \<^verbatim>\<open>src/src/include/agc_rbtree.h\<close>, on an explicit store. A node is an address; the
  store keeps one function per field of \<^verbatim>\<open>struct agc_rbtree_node_s\<close> and the set of
  addresses that hold a node. Every read and write goes through an accessor that is
  \<^const>\<open>None\<close> outside that set, so an operation that returns \<^const>\<open>Some\<close> has
  dereferenced no stray pointer and has left all its loops.

  \<^verbatim>\<open>root\<close> is a pointer to \<^verbatim>\<open>tree->root\<close> in the C code: the model passes its
  contents and returns the new contents beside the store.
\<close>

section \<open>The store\<close>

record rbheap =
  alive :: "addr set"
  rkey :: "addr \<Rightarrow> u64"
  rleft :: "addr \<Rightarrow> addr"
  rright :: "addr \<Rightarrow> addr"
  rparent :: "addr \<Rightarrow> addr"
  rcolor :: "addr \<Rightarrow> u8"

definition rd :: "(rbheap \<Rightarrow> addr \<Rightarrow> 'a) \<Rightarrow> rbheap \<Rightarrow> addr \<Rightarrow> 'a option" where
  "rd field h a = (if a \<in> alive h then Some (field h a) else None)"

definition wr_left :: "rbheap \<Rightarrow> addr \<Rightarrow> addr \<Rightarrow> rbheap option" where
  "wr_left h a v = (if a \<in> alive h then Some (h\<lparr>rleft := (rleft h)(a := v)\<rparr>) else None)"

definition wr_right :: "rbheap \<Rightarrow> addr \<Rightarrow> addr \<Rightarrow> rbheap option" where
  "wr_right h a v = (if a \<in> alive h then Some (h\<lparr>rright := (rright h)(a := v)\<rparr>) else None)"

definition wr_parent :: "rbheap \<Rightarrow> addr \<Rightarrow> addr \<Rightarrow> rbheap option" where
  "wr_parent h a v = (if a \<in> alive h then Some (h\<lparr>rparent := (rparent h)(a := v)\<rparr>) else None)"

definition wr_key :: "rbheap \<Rightarrow> addr \<Rightarrow> u64 \<Rightarrow> rbheap option" where
  "wr_key h a v = (if a \<in> alive h then Some (h\<lparr>rkey := (rkey h)(a := v)\<rparr>) else None)"

definition wr_color :: "rbheap \<Rightarrow> addr \<Rightarrow> u8 \<Rightarrow> rbheap option" where
  "wr_color h a v = (if a \<in> alive h then Some (h\<lparr>rcolor := (rcolor h)(a := v)\<rparr>) else None)"

lemma rd_alive [agc_heap]: "a \<in> alive h \<Longrightarrow> rd field h a = Some (field h a)"
  by (simp add: rd_def)

lemma wr_alive [agc_heap]:
  "a \<in> alive h \<Longrightarrow> wr_left h a v = Some (h\<lparr>rleft := (rleft h)(a := v)\<rparr>)"
  "a \<in> alive h \<Longrightarrow> wr_right h a v = Some (h\<lparr>rright := (rright h)(a := v)\<rparr>)"
  "a \<in> alive h \<Longrightarrow> wr_parent h a v = Some (h\<lparr>rparent := (rparent h)(a := v)\<rparr>)"
  "a \<in> alive h \<Longrightarrow> wr_key h a k = Some (h\<lparr>rkey := (rkey h)(a := k)\<rparr>)"
  "a \<in> alive h \<Longrightarrow> wr_color h a c = Some (h\<lparr>rcolor := (rcolor h)(a := c)\<rparr>)"
  by (simp_all add: wr_left_def wr_right_def wr_parent_def wr_key_def wr_color_def)

section \<open>The colour macros\<close>

definition agc_rbt_red :: "rbheap \<Rightarrow> addr \<Rightarrow> rbheap option" where
  "agc_rbt_red h n = wr_color h n 1"

definition agc_rbt_black :: "rbheap \<Rightarrow> addr \<Rightarrow> rbheap option" where
  "agc_rbt_black h n = wr_color h n 0"

definition agc_rbt_is_red :: "rbheap \<Rightarrow> addr \<Rightarrow> bool option" where
  "agc_rbt_is_red h n = do { c \<leftarrow> rd rcolor h n; Some (c \<noteq> 0) }"

definition agc_rbt_is_black :: "rbheap \<Rightarrow> addr \<Rightarrow> bool option" where
  "agc_rbt_is_black h n = do { r \<leftarrow> agc_rbt_is_red h n; Some (\<not> r) }"

definition agc_rbt_copy_color :: "rbheap \<Rightarrow> addr \<Rightarrow> addr \<Rightarrow> rbheap option" where
  "agc_rbt_copy_color h n1 n2 = do { c \<leftarrow> rd rcolor h n2; wr_color h n1 c }"

section \<open>The tree and its initialisation\<close>

type_synonym rb_insert_func = "rbheap \<Rightarrow> addr \<Rightarrow> addr \<Rightarrow> addr \<Rightarrow> rbheap option"

record agc_rbtree =
  troot :: addr
  tsentinel :: addr
  tinsert :: rb_insert_func

definition agc_rbtree_init :: "rbheap \<Rightarrow> addr \<Rightarrow> rb_insert_func \<Rightarrow> (rbheap \<times> agc_rbtree) option" where
  "agc_rbtree_init h s i = do {
     h \<leftarrow> agc_rbt_black h s;
     Some (h, \<lparr>troot = s, tsentinel = s, tinsert = i\<rparr>)
   }"

section \<open>Rotations\<close>

definition agc_rbtree_left_rotate :: "rbheap \<Rightarrow> addr \<Rightarrow> addr \<Rightarrow> addr \<Rightarrow> (rbheap \<times> addr) option" where
  "agc_rbtree_left_rotate h root sentinel node = do {
     temp \<leftarrow> rd rright h node;
     tl \<leftarrow> rd rleft h temp;
     h \<leftarrow> wr_right h node tl;
     tl \<leftarrow> rd rleft h temp;
     h \<leftarrow> (if tl \<noteq> sentinel then wr_parent h tl node else Some h);
     np \<leftarrow> rd rparent h node;
     h \<leftarrow> wr_parent h temp np;
     (h, root) \<leftarrow>
       (if node = root then Some (h, temp)
        else do {
          np \<leftarrow> rd rparent h node;
          npl \<leftarrow> rd rleft h np;
          h \<leftarrow> (if node = npl then wr_left h np temp else wr_right h np temp);
          Some (h, root)
        });
     h \<leftarrow> wr_left h temp node;
     h \<leftarrow> wr_parent h node temp;
     Some (h, root)
   }"

definition agc_rbtree_right_rotate :: "rbheap \<Rightarrow> addr \<Rightarrow> addr \<Rightarrow> addr \<Rightarrow> (rbheap \<times> addr) option" where
  "agc_rbtree_right_rotate h root sentinel node = do {
     temp \<leftarrow> rd rleft h node;
     tr \<leftarrow> rd rright h temp;
     h \<leftarrow> wr_left h node tr;
     tr \<leftarrow> rd rright h temp;
     h \<leftarrow> (if tr \<noteq> sentinel then wr_parent h tr node else Some h);
     np \<leftarrow> rd rparent h node;
     h \<leftarrow> wr_parent h temp np;
     (h, root) \<leftarrow>
       (if node = root then Some (h, temp)
        else do {
          np \<leftarrow> rd rparent h node;
          npr \<leftarrow> rd rright h np;
          h \<leftarrow> (if node = npr then wr_right h np temp else wr_left h np temp);
          Some (h, root)
        });
     h \<leftarrow> wr_right h temp node;
     h \<leftarrow> wr_parent h node temp;
     Some (h, root)
   }"

section \<open>Insertion\<close>

text \<open>
  The two insertion functions differ only in the comparison that chooses the side:
  \<open>rb_insert_loop\<close> is their common text with that comparison as a parameter.
\<close>

partial_function (option) rb_descend ::
  "(u64 \<Rightarrow> u64 \<Rightarrow> bool) \<Rightarrow> rbheap \<Rightarrow> addr \<Rightarrow> addr \<Rightarrow> addr \<Rightarrow> (addr \<times> bool) option" where
  "rb_descend lt h temp node sentinel = do {
     nk \<leftarrow> rd rkey h node;
     tk \<leftarrow> rd rkey h temp;
     p \<leftarrow> (if lt nk tk then rd rleft h temp else rd rright h temp);
     (if p = sentinel then Some (temp, lt nk tk)
      else rb_descend lt h p node sentinel)
   }"

definition rb_insert_loop :: "(u64 \<Rightarrow> u64 \<Rightarrow> bool) \<Rightarrow> rb_insert_func" where
  "rb_insert_loop lt h temp node sentinel = do {
     (temp, go_left) \<leftarrow> rb_descend lt h temp node sentinel;
     h \<leftarrow> (if go_left then wr_left h temp node else wr_right h temp node);
     h \<leftarrow> wr_parent h node temp;
     h \<leftarrow> wr_left h node sentinel;
     h \<leftarrow> wr_right h node sentinel;
     agc_rbt_red h node
   }"

definition agc_rbtree_insert_value :: rb_insert_func where
  "agc_rbtree_insert_value = rb_insert_loop (\<lambda>nk tk. nk < tk)"

text \<open>The timer tree compares the signed difference of the keys.\<close>

definition timer_key_lt :: "u64 \<Rightarrow> u64 \<Rightarrow> bool" where
  "timer_key_lt nk tk \<longleftrightarrow> sint (nk - tk) < 0"

definition agc_rbtree_insert_timer_value :: rb_insert_func where
  "agc_rbtree_insert_timer_value = rb_insert_loop timer_key_lt"

text \<open>One pass through the body of the rebalancing loop: the next \<^verbatim>\<open>node\<close>.\<close>

definition rb_insert_body :: "rbheap \<Rightarrow> addr \<Rightarrow> addr \<Rightarrow> addr \<Rightarrow> (rbheap \<times> addr \<times> addr) option" where
  "rb_insert_body h root sentinel node = do {
     p \<leftarrow> rd rparent h node;
     g \<leftarrow> rd rparent h p;
     gl \<leftarrow> rd rleft h g;
     (if p = gl then do {
        temp \<leftarrow> rd rright h g;
        tred \<leftarrow> agc_rbt_is_red h temp;
        (if tred then do {
           h \<leftarrow> agc_rbt_black h p;
           h \<leftarrow> agc_rbt_black h temp;
           h \<leftarrow> agc_rbt_red h g;
           Some (h, root, g)
         } else do {
           pr \<leftarrow> rd rright h p;
           (h, root, node) \<leftarrow>
             (if node = pr then do {
                (h, root) \<leftarrow> agc_rbtree_left_rotate h root sentinel p;
                Some (h, root, p)
              } else Some (h, root, node));
           p \<leftarrow> rd rparent h node;
           h \<leftarrow> agc_rbt_black h p;
           g \<leftarrow> rd rparent h p;
           h \<leftarrow> agc_rbt_red h g;
           (h, root) \<leftarrow> agc_rbtree_right_rotate h root sentinel g;
           Some (h, root, node)
         })
      } else do {
        temp \<leftarrow> rd rleft h g;
        tred \<leftarrow> agc_rbt_is_red h temp;
        (if tred then do {
           h \<leftarrow> agc_rbt_black h p;
           h \<leftarrow> agc_rbt_black h temp;
           h \<leftarrow> agc_rbt_red h g;
           Some (h, root, g)
         } else do {
           pl \<leftarrow> rd rleft h p;
           (h, root, node) \<leftarrow>
             (if node = pl then do {
                (h, root) \<leftarrow> agc_rbtree_right_rotate h root sentinel p;
                Some (h, root, p)
              } else Some (h, root, node));
           p \<leftarrow> rd rparent h node;
           h \<leftarrow> agc_rbt_black h p;
           g \<leftarrow> rd rparent h p;
           h \<leftarrow> agc_rbt_red h g;
           (h, root) \<leftarrow> agc_rbtree_left_rotate h root sentinel g;
           Some (h, root, node)
         })
      })
   }"

partial_function (option) rb_insert_fixup ::
  "rbheap \<Rightarrow> addr \<Rightarrow> addr \<Rightarrow> addr \<Rightarrow> (rbheap \<times> addr) option" where
  "rb_insert_fixup h root sentinel node =
     (if node = root then Some (h, root)
      else do {
        p \<leftarrow> rd rparent h node;
        pred \<leftarrow> agc_rbt_is_red h p;
        (if pred then do {
           (h, root, node) \<leftarrow> rb_insert_body h root sentinel node;
           rb_insert_fixup h root sentinel node
         } else Some (h, root))
      })"

definition agc_rbtree_insert :: "rbheap \<Rightarrow> agc_rbtree \<Rightarrow> addr \<Rightarrow> (rbheap \<times> agc_rbtree) option" where
  "agc_rbtree_insert h tree node =
     (if troot tree = tsentinel tree then do {
        h \<leftarrow> wr_parent h node NULL;
        h \<leftarrow> wr_left h node (tsentinel tree);
        h \<leftarrow> wr_right h node (tsentinel tree);
        h \<leftarrow> agc_rbt_black h node;
        Some (h, tree\<lparr>troot := node\<rparr>)
      } else do {
        h \<leftarrow> tinsert tree h (troot tree) node (tsentinel tree);
        (h, root) \<leftarrow> rb_insert_fixup h (troot tree) (tsentinel tree) node;
        h \<leftarrow> agc_rbt_black h root;
        Some (h, tree\<lparr>troot := root\<rparr>)
      })"

section \<open>Minimum and successor\<close>

partial_function (option) agc_rbtree_min :: "rbheap \<Rightarrow> addr \<Rightarrow> addr \<Rightarrow> addr option" where
  "agc_rbtree_min h node sentinel = do {
     l \<leftarrow> rd rleft h node;
     (if l \<noteq> sentinel then agc_rbtree_min h l sentinel else Some node)
   }"

partial_function (option) rb_next_up :: "rbheap \<Rightarrow> addr \<Rightarrow> addr \<Rightarrow> addr option" where
  "rb_next_up h root node = do {
     parent \<leftarrow> rd rparent h node;
     (if node = root then Some NULL
      else do {
        pl \<leftarrow> rd rleft h parent;
        (if node = pl then Some parent else rb_next_up h root parent)
      })
   }"

definition agc_rbtree_next :: "rbheap \<Rightarrow> agc_rbtree \<Rightarrow> addr \<Rightarrow> addr option" where
  "agc_rbtree_next h tree node = do {
     r \<leftarrow> rd rright h node;
     (if r \<noteq> tsentinel tree then do {
        r \<leftarrow> rd rright h node;
        agc_rbtree_min h r (tsentinel tree)
      } else rb_next_up h (troot tree) node)
   }"

section \<open>Deletion\<close>

text \<open>
  The removal of a node: the first half of \<^verbatim>\<open>agc_rbtree_delete\<close>. The result is the
  store, the root and, when the fixup has to run, the node \<^verbatim>\<open>temp\<close> it starts from.
\<close>

definition rb_delete_pick :: "rbheap \<Rightarrow> addr \<Rightarrow> addr \<Rightarrow> (addr \<times> addr) option" where
  "rb_delete_pick h sentinel node = do {
     l \<leftarrow> rd rleft h node;
     (if l = sentinel then do {
        temp \<leftarrow> rd rright h node;
        Some (temp, node)
      } else do {
        r \<leftarrow> rd rright h node;
        (if r = sentinel then do {
           temp \<leftarrow> rd rleft h node;
           Some (temp, node)
         } else do {
           subst \<leftarrow> agc_rbtree_min h r sentinel;
           sl \<leftarrow> rd rleft h subst;
           (if sl \<noteq> sentinel then Some (sl, subst)
            else do {
              sr \<leftarrow> rd rright h subst;
              Some (sr, subst)
            })
         })
      })
   }"

definition rb_clear_node :: "rbheap \<Rightarrow> addr \<Rightarrow> rbheap option" where
  "rb_clear_node h node = do {
     h \<leftarrow> wr_left h node NULL;
     h \<leftarrow> wr_right h node NULL;
     h \<leftarrow> wr_parent h node NULL;
     wr_key h node 0
   }"

text \<open>Lines 195-216: \<^verbatim>\<open>subst\<close> takes the links and the colour of \<^verbatim>\<open>node\<close>.\<close>

definition rb_transplant ::
  "rbheap \<Rightarrow> addr \<Rightarrow> addr \<Rightarrow> addr \<Rightarrow> addr \<Rightarrow> (rbheap \<times> addr) option" where
  "rb_transplant h root sentinel node subst = do {
     nl \<leftarrow> rd rleft h node;
     h \<leftarrow> wr_left h subst nl;
     nr \<leftarrow> rd rright h node;
     h \<leftarrow> wr_right h subst nr;
     np \<leftarrow> rd rparent h node;
     h \<leftarrow> wr_parent h subst np;
     h \<leftarrow> agc_rbt_copy_color h subst node;
     (h, root) \<leftarrow>
       (if node = root then Some (h, subst)
        else do {
          np \<leftarrow> rd rparent h node;
          npl \<leftarrow> rd rleft h np;
          h \<leftarrow> (if node = npl then wr_left h np subst else wr_right h np subst);
          Some (h, root)
        });
     sl \<leftarrow> rd rleft h subst;
     h \<leftarrow> (if sl \<noteq> sentinel then wr_parent h sl subst else Some h);
     sr \<leftarrow> rd rright h subst;
     h \<leftarrow> (if sr \<noteq> sentinel then wr_parent h sr subst else Some h);
     Some (h, root)
   }"

definition rb_delete_unlink ::
  "rbheap \<Rightarrow> addr \<Rightarrow> addr \<Rightarrow> addr \<Rightarrow> (rbheap \<times> addr \<times> addr option) option" where
  "rb_delete_unlink h root sentinel node = do {
     (temp, subst) \<leftarrow> rb_delete_pick h sentinel node;
     (if subst = root then do {
        h \<leftarrow> agc_rbt_black h temp;
        h \<leftarrow> rb_clear_node h node;
        Some (h, temp, None)
      } else do {
        red \<leftarrow> agc_rbt_is_red h subst;
        sp \<leftarrow> rd rparent h subst;
        spl \<leftarrow> rd rleft h sp;
        h \<leftarrow> (if subst = spl then wr_left h sp temp else wr_right h sp temp);
        (h, root) \<leftarrow>
          (if subst = node then do {
             sp \<leftarrow> rd rparent h subst;
             h \<leftarrow> wr_parent h temp sp;
             Some (h, root)
           } else do {
             sp \<leftarrow> rd rparent h subst;
             h \<leftarrow> (if sp = node then wr_parent h temp subst else wr_parent h temp sp);
             rb_transplant h root sentinel node subst
           });
        h \<leftarrow> rb_clear_node h node;
        Some (h, root, if red then None else Some temp)
      })
   }"

text \<open>The test of lines 242 and 270, with the short circuit of \<^verbatim>\<open>&&\<close>.\<close>

definition rb_children_black :: "rbheap \<Rightarrow> addr \<Rightarrow> bool option" where
  "rb_children_black h w = do {
     wl \<leftarrow> rd rleft h w;
     wlb \<leftarrow> agc_rbt_is_black h wl;
     (if wlb then do {
        wr \<leftarrow> rd rright h w;
        agc_rbt_is_black h wr
      } else Some False)
   }"

text \<open>
  The two halves of the loop body, for a \<^verbatim>\<open>temp\<close> on the left: the sibling \<^verbatim>\<open>w\<close>, made
  black when it is red (lines 233 to 240), then the cases of a black sibling (242 to 258).
\<close>

definition rb_sibling_left :: "rbheap \<Rightarrow> addr \<Rightarrow> addr \<Rightarrow> addr \<Rightarrow> (rbheap \<times> addr \<times> addr) option" where
  "rb_sibling_left h root sentinel temp = do {
     p \<leftarrow> rd rparent h temp;
     w \<leftarrow> rd rright h p;
     wred \<leftarrow> agc_rbt_is_red h w;
     (if wred then do {
        h \<leftarrow> agc_rbt_black h w;
        p \<leftarrow> rd rparent h temp;
        h \<leftarrow> agc_rbt_red h p;
        (h, root) \<leftarrow> agc_rbtree_left_rotate h root sentinel p;
        p \<leftarrow> rd rparent h temp;
        w \<leftarrow> rd rright h p;
        Some (h, root, w)
      } else Some (h, root, w))
   }"

definition rb_fix_left ::
  "rbheap \<Rightarrow> addr \<Rightarrow> addr \<Rightarrow> addr \<Rightarrow> addr \<Rightarrow> (rbheap \<times> addr \<times> addr) option" where
  "rb_fix_left h root sentinel temp w = do {
     both \<leftarrow> rb_children_black h w;
     (if both then do {
        h \<leftarrow> agc_rbt_red h w;
        p \<leftarrow> rd rparent h temp;
        Some (h, root, p)
      } else do {
        outer \<leftarrow> rd rright h w;
        outerb \<leftarrow> agc_rbt_is_black h outer;
        (h, root, w) \<leftarrow>
          (if outerb then do {
             inner \<leftarrow> rd rleft h w;
             h \<leftarrow> agc_rbt_black h inner;
             h \<leftarrow> agc_rbt_red h w;
             (h, root) \<leftarrow> agc_rbtree_right_rotate h root sentinel w;
             p \<leftarrow> rd rparent h temp;
             w \<leftarrow> rd rright h p;
             Some (h, root, w)
           } else Some (h, root, w));
        p \<leftarrow> rd rparent h temp;
        h \<leftarrow> agc_rbt_copy_color h w p;
        h \<leftarrow> agc_rbt_black h p;
        outer \<leftarrow> rd rright h w;
        h \<leftarrow> agc_rbt_black h outer;
        (h, root) \<leftarrow> agc_rbtree_left_rotate h root sentinel p;
        Some (h, root, root)
      })
   }"

text \<open>The same for a \<^verbatim>\<open>temp\<close> on the right (lines 261 to 286).\<close>

definition rb_sibling_right :: "rbheap \<Rightarrow> addr \<Rightarrow> addr \<Rightarrow> addr \<Rightarrow> (rbheap \<times> addr \<times> addr) option" where
  "rb_sibling_right h root sentinel temp = do {
     p \<leftarrow> rd rparent h temp;
     w \<leftarrow> rd rleft h p;
     wred \<leftarrow> agc_rbt_is_red h w;
     (if wred then do {
        h \<leftarrow> agc_rbt_black h w;
        p \<leftarrow> rd rparent h temp;
        h \<leftarrow> agc_rbt_red h p;
        (h, root) \<leftarrow> agc_rbtree_right_rotate h root sentinel p;
        p \<leftarrow> rd rparent h temp;
        w \<leftarrow> rd rleft h p;
        Some (h, root, w)
      } else Some (h, root, w))
   }"

definition rb_fix_right ::
  "rbheap \<Rightarrow> addr \<Rightarrow> addr \<Rightarrow> addr \<Rightarrow> addr \<Rightarrow> (rbheap \<times> addr \<times> addr) option" where
  "rb_fix_right h root sentinel temp w = do {
     both \<leftarrow> rb_children_black h w;
     (if both then do {
        h \<leftarrow> agc_rbt_red h w;
        p \<leftarrow> rd rparent h temp;
        Some (h, root, p)
      } else do {
        outer \<leftarrow> rd rleft h w;
        outerb \<leftarrow> agc_rbt_is_black h outer;
        (h, root, w) \<leftarrow>
          (if outerb then do {
             inner \<leftarrow> rd rright h w;
             h \<leftarrow> agc_rbt_black h inner;
             h \<leftarrow> agc_rbt_red h w;
             (h, root) \<leftarrow> agc_rbtree_left_rotate h root sentinel w;
             p \<leftarrow> rd rparent h temp;
             w \<leftarrow> rd rleft h p;
             Some (h, root, w)
           } else Some (h, root, w));
        p \<leftarrow> rd rparent h temp;
        h \<leftarrow> agc_rbt_copy_color h w p;
        h \<leftarrow> agc_rbt_black h p;
        outer \<leftarrow> rd rleft h w;
        h \<leftarrow> agc_rbt_black h outer;
        (h, root) \<leftarrow> agc_rbtree_right_rotate h root sentinel p;
        Some (h, root, root)
      })
   }"

text \<open>One pass through the body of the deletion fixup loop: the next \<^verbatim>\<open>temp\<close>.\<close>

definition rb_delete_body :: "rbheap \<Rightarrow> addr \<Rightarrow> addr \<Rightarrow> addr \<Rightarrow> (rbheap \<times> addr \<times> addr) option" where
  "rb_delete_body h root sentinel temp = do {
     p \<leftarrow> rd rparent h temp;
     pl \<leftarrow> rd rleft h p;
     (if temp = pl then do {
        (h, root, w) \<leftarrow> rb_sibling_left h root sentinel temp;
        rb_fix_left h root sentinel temp w
      } else do {
        (h, root, w) \<leftarrow> rb_sibling_right h root sentinel temp;
        rb_fix_right h root sentinel temp w
      })
   }"

partial_function (option) rb_delete_fixup ::
  "rbheap \<Rightarrow> addr \<Rightarrow> addr \<Rightarrow> addr \<Rightarrow> (rbheap \<times> addr \<times> addr) option" where
  "rb_delete_fixup h root sentinel temp =
     (if temp = root then Some (h, root, temp)
      else do {
        black \<leftarrow> agc_rbt_is_black h temp;
        (if black then do {
           (h, root, temp) \<leftarrow> rb_delete_body h root sentinel temp;
           rb_delete_fixup h root sentinel temp
         } else Some (h, root, temp))
      })"

definition agc_rbtree_delete :: "rbheap \<Rightarrow> agc_rbtree \<Rightarrow> addr \<Rightarrow> (rbheap \<times> agc_rbtree) option" where
  "agc_rbtree_delete h tree node = do {
     (h, root, fix) \<leftarrow> rb_delete_unlink h (troot tree) (tsentinel tree) node;
     (case fix of
        None \<Rightarrow> Some (h, tree\<lparr>troot := root\<rparr>)
      | Some temp \<Rightarrow> do {
          (h, root, temp) \<leftarrow> rb_delete_fixup h root (tsentinel tree) temp;
          h \<leftarrow> agc_rbt_black h temp;
          Some (h, tree\<lparr>troot := root\<rparr>)
        })
   }"

end
