(* ===== verification/Agc_Rbtree_Shape.thy ===== *)
theory Agc_Rbtree_Shape
  imports Agc_Rbtree
begin

text \<open>
  The abstraction behind the red-black store. \<open>tree_at h s p par t\<close> says that the
  store holds, at pointer \<open>p\<close> and below the parent pointer \<open>par\<close>, exactly the tree of
  addresses \<open>t\<close>; a context (a list of frames, innermost first) is the tree around a
  focus, so that a loop that walks up the parent pointers is an induction on it.
  The colour invariants are stated over a colour function on addresses, once for trees
  and once for contexts, and compose through \<open>plug\<close>.
\<close>

section \<open>Trees and contexts in the store\<close>

primrec tree_at :: "rbheap \<Rightarrow> addr \<Rightarrow> addr \<Rightarrow> addr \<Rightarrow> addr tree \<Rightarrow> bool" where
  "tree_at h s p par \<langle>\<rangle> \<longleftrightarrow> p = s"
| "tree_at h s p par \<langle>l, a, r\<rangle> \<longleftrightarrow>
     p = a \<and> a \<in> alive h \<and> a \<noteq> s \<and> rparent h a = par \<and>
     tree_at h s (rleft h a) a l \<and> tree_at h s (rright h a) a r"

datatype frame = FL addr "addr tree" | FR "addr tree" addr

fun plug :: "frame list \<Rightarrow> addr tree \<Rightarrow> addr tree" where
  "plug [] t = t"
| "plug (FL a r # c) t = plug c \<langle>t, a, r\<rangle>"
| "plug (FR l a # c) t = plug c \<langle>l, a, t\<rangle>"

fun ctx_at :: "rbheap \<Rightarrow> addr \<Rightarrow> addr \<Rightarrow> addr \<Rightarrow> addr \<Rightarrow> frame list \<Rightarrow> bool" where
  "ctx_at h s root q par [] \<longleftrightarrow> q = root"
| "ctx_at h s root q par (FL a r # c) \<longleftrightarrow>
     par = a \<and> a \<in> alive h \<and> a \<noteq> s \<and> rleft h a = q \<and> tree_at h s (rright h a) a r \<and>
     ctx_at h s root a (rparent h a) c"
| "ctx_at h s root q par (FR l a # c) \<longleftrightarrow>
     par = a \<and> a \<in> alive h \<and> a \<noteq> s \<and> rright h a = q \<and> tree_at h s (rleft h a) a l \<and>
     ctx_at h s root a (rparent h a) c"

fun frame_node :: "frame \<Rightarrow> addr" where
  "frame_node (FL a r) = a"
| "frame_node (FR l a) = a"

fun frame_tree :: "frame \<Rightarrow> addr tree" where
  "frame_tree (FL a r) = r"
| "frame_tree (FR l a) = l"

definition frame_set :: "frame \<Rightarrow> addr set" where
  "frame_set f = insert (frame_node f) (set_tree (frame_tree f))"

fun ctx_set :: "frame list \<Rightarrow> addr set" where
  "ctx_set [] = {}"
| "ctx_set (f # c) = frame_set f \<union> ctx_set c"

fun pre :: "frame list \<Rightarrow> addr list" where
  "pre [] = []"
| "pre (FL a r # c) = pre c"
| "pre (FR l a # c) = pre c @ inorder l @ [a]"

fun post :: "frame list \<Rightarrow> addr list" where
  "post [] = []"
| "post (FL a r # c) = a # inorder r @ post c"
| "post (FR l a # c) = post c"

lemma frame_set_simps [simp, agc_shape]:
  "frame_set (FL a r) = insert a (set_tree r)"
  "frame_set (FR l a) = insert a (set_tree l)"
  by (simp_all add: frame_set_def)

lemma inorder_plug [agc_shape]: "inorder (plug c t) = pre c @ inorder t @ post c"
  by (induction c t rule: plug.induct) auto

lemma set_pre_post [agc_shape]: "set (pre c) \<union> set (post c) = ctx_set c"
  by (induction c rule: pre.induct) auto

lemma set_tree_plug [agc_shape]: "set_tree (plug c t) = ctx_set c \<union> set_tree t"
  by (induction c t rule: plug.induct) auto

lemma plug_append: "plug (c @ d) t = plug d (plug c t)"
  by (induction c t rule: plug.induct) auto

lemma plug_Leaf_iff: "plug c t = \<langle>\<rangle> \<longleftrightarrow> c = [] \<and> t = \<langle>\<rangle>"
  by (induction c t rule: plug.induct) auto

text \<open>What distinctness of the whole tree says about the focus and the context.\<close>

definition ctx_distinct :: "frame list \<Rightarrow> bool" where
  "ctx_distinct c \<longleftrightarrow> distinct (pre c @ post c)"

lemma distinct_plug [agc_shape]:
  "distinct (inorder (plug c t)) \<longleftrightarrow>
     distinct (inorder t) \<and> ctx_distinct c \<and> set_tree t \<inter> ctx_set c = {}"
  unfolding inorder_plug ctx_distinct_def
  using set_pre_post [of c] by auto

lemma ctx_distinct_simps [simp, agc_shape]:
  "ctx_distinct []"
  "ctx_distinct (FL a r # c) \<longleftrightarrow>
     distinct (inorder r) \<and> ctx_distinct c \<and> a \<notin> ctx_set c \<and> a \<notin> set_tree r \<and>
     set_tree r \<inter> ctx_set c = {}"
  "ctx_distinct (FR l a # c) \<longleftrightarrow>
     distinct (inorder l) \<and> ctx_distinct c \<and> a \<notin> ctx_set c \<and> a \<notin> set_tree l \<and>
     set_tree l \<inter> ctx_set c = {}"
  unfolding ctx_distinct_def using set_pre_post [of c] by auto

lemma tree_at_plug:
  "(\<exists>par. tree_at h s root par (plug c t)) \<longleftrightarrow>
     (\<exists>q par. ctx_at h s root q par c \<and> tree_at h s q par t)"
proof (induction c t rule: plug.induct)
  case (1 t)
  then show ?case by auto
next
  case (2 a r c t)
  then show ?case by auto
next
  case (3 l a c t)
  then show ?case by auto
qed

lemma tree_at_alive: "tree_at h s p par t \<Longrightarrow> set_tree t \<subseteq> alive h \<and> s \<notin> set_tree t"
proof (induction t arbitrary: p par)
  case (Node l a r)
  then show ?case
    using Node.IH(1) [of "rleft h a" a] Node.IH(2) [of "rright h a" a] by simp
qed simp

lemma ctx_at_alive: "ctx_at h s root q par c \<Longrightarrow> ctx_set c \<subseteq> alive h \<and> s \<notin> ctx_set c"
  by (induction h s root q par c rule: ctx_at.induct) (auto dest: tree_at_alive)

lemma tree_at_root: "tree_at h s p par t \<Longrightarrow> p = s \<longleftrightarrow> t = \<langle>\<rangle>"
  by (cases t) auto

lemma tree_at_root_in: "tree_at h s p par t \<Longrightarrow> p \<noteq> s \<Longrightarrow> p \<in> set_tree t"
  by (cases t) auto

lemma ctx_at_root_in: "ctx_at h s root q par c \<Longrightarrow> root = q \<and> c = [] \<or> root \<in> ctx_set c"
  by (induction h s root q par c rule: ctx_at.induct) auto

section \<open>Frame rules\<close>

definition same_on :: "addr set \<Rightarrow> rbheap \<Rightarrow> rbheap \<Rightarrow> bool" where
  "same_on A h h' \<longleftrightarrow> alive h' = alive h \<and>
     (\<forall>a \<in> A. rleft h' a = rleft h a \<and> rright h' a = rright h a \<and> rparent h' a = rparent h a)"

lemma same_on_mono: "same_on A h h' \<Longrightarrow> B \<subseteq> A \<Longrightarrow> same_on B h h'"
  by (auto simp: same_on_def)

lemma tree_at_frame: "tree_at h s p par t \<Longrightarrow> same_on (set_tree t) h h' \<Longrightarrow> tree_at h' s p par t"
  by (induction t arbitrary: p par) (auto simp: same_on_def)

lemma ctx_at_frame: "ctx_at h s root q par c \<Longrightarrow> same_on (ctx_set c) h h' \<Longrightarrow> ctx_at h' s root q par c"
proof (induction h s root q par c rule: ctx_at.induct)
  case (1 h s root q par)
  then show ?case by simp
next
  case (2 h s root q par a r c)
  then have "same_on (set_tree r) h h'" "same_on (ctx_set c) h h'"
    by (auto elim: same_on_mono)
  with 2 show ?case by (auto intro: tree_at_frame simp: same_on_def)
next
  case (3 h s root q par l a c)
  then have "same_on (set_tree l) h h'" "same_on (ctx_set c) h h'"
    by (auto elim: same_on_mono)
  with 3 show ?case by (auto intro: tree_at_frame simp: same_on_def)
qed

text \<open>Giving a subtree another parent: only the parent field of its root changes.\<close>

lemma tree_at_reparent:
  assumes "tree_at h s p par t" and "alive h' = alive h" and "distinct (inorder t)"
    and "\<forall>a \<in> set_tree t. rleft h' a = rleft h a \<and> rright h' a = rright h a \<and>
           rparent h' a = (if a = p then par' else rparent h a)"
  shows "tree_at h' s p par' t"
proof (cases t)
  case Leaf
  with assms show ?thesis by simp
next
  case (Node l a r)
  with assms have "tree_at h s (rleft h a) a l" "tree_at h s (rright h a) a r" "p = a"
    and "same_on (set_tree l) h h'" "same_on (set_tree r) h h'"
    by (auto simp: same_on_def)
  then have "tree_at h' s (rleft h a) a l" "tree_at h' s (rright h a) a r"
    by (auto intro: tree_at_frame)
  with Node assms \<open>p = a\<close> show ?thesis by auto
qed

text \<open>
  Hanging another subtree under a context: the child pointer of the innermost frame, or
  the root, is redirected.
\<close>

definition relinked :: "rbheap \<Rightarrow> rbheap \<Rightarrow> addr \<Rightarrow> frame list \<Rightarrow> addr \<Rightarrow> addr \<Rightarrow> bool" where
  "relinked h h' root c q' root' \<longleftrightarrow>
     (case c of
        [] \<Rightarrow> root' = q'
      | FL a r # _ \<Rightarrow> root' = root \<and> rleft h' a = q' \<and> rright h' a = rright h a \<and> rparent h' a = rparent h a
      | FR l a # _ \<Rightarrow> root' = root \<and> rright h' a = q' \<and> rleft h' a = rleft h a \<and> rparent h' a = rparent h a)"

lemma ctx_at_relink:
  assumes "ctx_at h s root q par c" and "ctx_distinct c"
    and "relinked h h' root c q' root'"
    and "alive h' = alive h"
    and "\<forall>f c'. c = f # c' \<longrightarrow> same_on (set_tree (frame_tree f) \<union> ctx_set c') h h'"
  shows "ctx_at h' s root' q' par c"
proof (cases c)
  case Nil
  with assms show ?thesis by (simp add: relinked_def)
next
  case (Cons f c')
  then have same: "same_on (set_tree (frame_tree f)) h h'" "same_on (ctx_set c') h h'"
    using assms(5) by (auto elim: same_on_mono)
  show ?thesis
    using assms(1-4) same Cons
    by (cases f) (auto simp: relinked_def intro: tree_at_frame ctx_at_frame)
qed

end
