(* ===== verification/Agc_Rbtree_Rotate.thy ===== *)
theory Agc_Rbtree_Rotate
  imports Agc_Rbtree_Shape
begin

text \<open>
  Rotations on the store. \<open>focus h s root c q t\<close> is the state of a loop that has walked
  to pointer \<open>q\<close>: the context \<open>c\<close> around it and the subtree \<open>t\<close> at it are in the store.
  Both rotations succeed where their pivot exists, keep every key and colour, and
  rearrange the subtree at the focus as the textbook does.
\<close>

definition focus :: "rbheap \<Rightarrow> addr \<Rightarrow> addr \<Rightarrow> frame list \<Rightarrow> addr \<Rightarrow> addr tree \<Rightarrow> bool" where
  "focus h s root c q t \<longleftrightarrow>
     ctx_at h s root q (rparent h q) c \<and> tree_at h s q (rparent h q) t \<and>
     distinct (inorder (plug c t)) \<and> s \<in> alive h"

definition same_data :: "rbheap \<Rightarrow> rbheap \<Rightarrow> bool" where
  "same_data h h' \<longleftrightarrow> alive h' = alive h \<and> rkey h' = rkey h \<and> rcolor h' = rcolor h"

lemma same_data_trans: "same_data h h' \<Longrightarrow> same_data h' h'' \<Longrightarrow> same_data h h''"
  by (simp add: same_data_def)

lemma focusI:
  assumes "ctx_at h s root q par c" "tree_at h s q par t" "rparent h q = par"
    "distinct (inorder (plug c t))" "s \<in> alive h"
  shows "focus h s root c q t"
  using assms by (simp add: focus_def)

lemma tree_at_focus:
  "tree_at h s p par t \<Longrightarrow> p \<noteq> s \<Longrightarrow> p \<in> set_tree t \<and> p \<in> alive h \<and> rparent h p = par"
  by (cases t) auto

fun ctx_top :: "frame list \<Rightarrow> addr set" where
  "ctx_top [] = {}"
| "ctx_top (f # c) = {frame_node f}"

lemma ctx_top_subset: "ctx_top c \<subseteq> ctx_set c"
  by (cases c) (auto simp: frame_set_def)

lemma ctx_distinct_top:
  "ctx_distinct (f # c) \<Longrightarrow> frame_node f \<notin> set_tree (frame_tree f) \<union> ctx_set c"
  by (cases f) auto

section \<open>What a rotation writes\<close>

text \<open>
  The effect of a rotation that lifts \<open>b\<close> over \<open>a\<close> and hands \<open>b\<close>'s inner child \<open>x\<close>
  to \<open>a\<close>, in terms of the fields it may touch.
\<close>

definition rot_frame :: "rbheap \<Rightarrow> rbheap \<Rightarrow> addr \<Rightarrow> frame list \<Rightarrow> addr \<Rightarrow> addr \<Rightarrow> addr \<Rightarrow> bool" where
  "rot_frame h h' s c a b x \<longleftrightarrow>
     same_data h h' \<and> rparent h' s = rparent h s \<and>
     rparent h' a = b \<and> rparent h' b = rparent h a \<and>
     (x \<noteq> s \<longrightarrow> rparent h' x = a \<and> rleft h' x = rleft h x \<and> rright h' x = rright h x) \<and>
     (\<forall>z. z \<notin> {a, b, x} \<union> ctx_top c \<longrightarrow>
        rleft h' z = rleft h z \<and> rright h' z = rright h z \<and> rparent h' z = rparent h z)"

lemmas rot_defs = agc_rbtree_left_rotate_def agc_rbtree_right_rotate_def
  rot_frame_def relinked_def same_data_def agc_heap

lemma ctx_side:
  assumes "ctx_at h s root q par (f # c)" and "q \<noteq> s" and "q \<notin> ctx_set (f # c)"
  shows "par = frame_node f" "par \<in> alive h" "par \<noteq> s" "q \<noteq> root"
    "rleft h par = q \<longleftrightarrow> (\<exists>a r. f = FL a r)" "rright h par = q \<longleftrightarrow> (\<exists>l a. f = FR l a)"
  using assms ctx_at_root_in [OF assms(1)]
  by (cases f; auto dest: tree_at_focus)+

lemma rotate_facts:
  assumes "focus h s root c a t" and "t = \<langle>l, a, \<langle>x, b, y\<rangle>\<rangle> \<or> t = \<langle>\<langle>x, b, y\<rangle>, a, l\<rangle>"
    and "tree_at h s i b j" and "j \<in> {x, y}"
  shows "a \<in> alive h" "b \<in> alive h" "s \<in> alive h" "a \<noteq> s" "b \<noteq> s" "a \<noteq> b"
    "i \<noteq> s \<Longrightarrow> i \<in> alive h" "i \<noteq> s \<Longrightarrow> i \<noteq> a" "i \<noteq> s \<Longrightarrow> i \<noteq> b" "i \<noteq> s \<Longrightarrow> i \<notin> ctx_set c"
    "a \<notin> ctx_set c" "b \<notin> ctx_set c" "s \<notin> ctx_set c" "ctx_at h s root a (rparent h a) c"
proof -
  from assms(1,2) show "a \<in> alive h" "b \<in> alive h" "s \<in> alive h" "a \<noteq> s" "b \<noteq> s" "a \<noteq> b"
    "a \<notin> ctx_set c" "b \<notin> ctx_set c" and c: "ctx_at h s root a (rparent h a) c"
    by (auto simp: focus_def distinct_plug)
  from ctx_at_alive [OF c] show "s \<notin> ctx_set c" by simp
  have j: "a \<notin> set_tree j" "b \<notin> set_tree j" "set_tree j \<inter> ctx_set c = {}"
    using assms(1,2,4) by (auto simp: focus_def distinct_plug)
  show "i \<noteq> s \<Longrightarrow> i \<in> alive h" "i \<noteq> s \<Longrightarrow> i \<noteq> a" "i \<noteq> s \<Longrightarrow> i \<noteq> b" "i \<noteq> s \<Longrightarrow> i \<notin> ctx_set c"
    using tree_at_focus [OF assms(3)] j by auto
qed

lemma left_rotate_writes:
  assumes "focus h s root c a \<langle>l, a, \<langle>x, b, y\<rangle>\<rangle>"
  shows "\<exists>h' root'. agc_rbtree_left_rotate h root s a = Some (h', root') \<and>
     rot_frame h h' s c a b (rleft h b) \<and> relinked h h' root c b root' \<and>
     rleft h' a = rleft h a \<and> rright h' a = rleft h b \<and>
     rleft h' b = a \<and> rright h' b = rright h b"
proof -
  let ?x = "rleft h b"
  from assms have t: "rright h a = b" "rparent h b = a" "tree_at h s ?x b x"
    by (auto simp: focus_def)
  note f = rotate_facts [OF assms disjI1 [OF refl] t(3) insertI1]
  note g = f(1-13) not_sym [OF f(4)] not_sym [OF f(5)] not_sym [OF f(6)] not_sym [OF f(8)] not_sym [OF f(9)]
  show ?thesis
  proof (cases c)
    case Nil
    with f(14) have "a = root" by simp
    with Nil g t(1,2) show ?thesis
      by (cases "?x = s") (simp_all add: rot_defs)
  next
    case (Cons u c')
    define p where "p = rparent h a"
    note side = ctx_side [OF f(14) [unfolded Cons] f(4) f(11) [unfolded Cons], folded p_def]
    have ne: "p \<noteq> a" "p \<noteq> b" "?x \<noteq> s \<Longrightarrow> p \<noteq> ?x"
      using side(1) f(10-12) Cons by (auto simp: frame_set_def)
    note ne' = ne ne [THEN not_sym]
    show ?thesis
      using side ne' g t(1,2) p_def [symmetric] Cons
      by (cases u; cases "?x = s") (simp_all add: rot_defs)
  qed
qed

lemma right_rotate_writes:
  assumes "focus h s root c a \<langle>\<langle>x, b, y\<rangle>, a, r\<rangle>"
  shows "\<exists>h' root'. agc_rbtree_right_rotate h root s a = Some (h', root') \<and>
     rot_frame h h' s c a b (rright h b) \<and> relinked h h' root c b root' \<and>
     rright h' a = rright h a \<and> rleft h' a = rright h b \<and>
     rright h' b = a \<and> rleft h' b = rleft h b"
proof -
  let ?y = "rright h b"
  from assms have t: "rleft h a = b" "rparent h b = a" "tree_at h s ?y b y"
    by (auto simp: focus_def)
  note f = rotate_facts [OF assms disjI2 [OF refl] t(3) insertI2 [OF singletonI]]
  note g = f(1-13) not_sym [OF f(4)] not_sym [OF f(5)] not_sym [OF f(6)] not_sym [OF f(8)] not_sym [OF f(9)]
  show ?thesis
  proof (cases c)
    case Nil
    with f(14) have "a = root" by simp
    with Nil g t(1,2) show ?thesis
      by (cases "?y = s") (simp_all add: rot_defs)
  next
    case (Cons u c')
    define p where "p = rparent h a"
    note side = ctx_side [OF f(14) [unfolded Cons] f(4) f(11) [unfolded Cons], folded p_def]
    have ne: "p \<noteq> a" "p \<noteq> b" "?y \<noteq> s \<Longrightarrow> p \<noteq> ?y"
      using side(1) f(10-12) Cons by (auto simp: frame_set_def)
    note ne' = ne ne [THEN not_sym]
    show ?thesis
      using side ne' g t(1,2) p_def [symmetric] Cons
      by (cases u; cases "?y = s") (simp_all add: rot_defs)
  qed
qed

section \<open>What a rotation does to the tree\<close>

lemma rot_frame_other:
  "rot_frame h h' s c a b x \<Longrightarrow> z \<notin> {a, b, x} \<union> ctx_top c \<Longrightarrow>
     rleft h' z = rleft h z \<and> rright h' z = rright h z \<and> rparent h' z = rparent h z"
  by (simp add: rot_frame_def)

lemma rot_frame_inner:
  "rot_frame h h' s c a b x \<Longrightarrow> x \<noteq> s \<Longrightarrow>
     rparent h' x = a \<and> rleft h' x = rleft h x \<and> rright h' x = rright h x"
  by (simp add: rot_frame_def)

lemma rot_frame_alive: "rot_frame h h' s c a b x \<Longrightarrow> alive h' = alive h"
  by (simp add: rot_frame_def same_data_def)

lemma rot_same_on:
  "rot_frame h h' s c a b x \<Longrightarrow> A \<inter> ({a, b, x} \<union> ctx_top c) = {} \<Longrightarrow> same_on A h h'"
  unfolding same_on_def using rot_frame_alive rot_frame_other by (metis disjoint_iff)

lemma rot_inner:
  assumes "rot_frame h h' s c a b x" "tree_at h s x b t" "distinct (inorder t)"
    "set_tree t \<inter> ({a, b} \<union> ctx_top c) = {}"
  shows "tree_at h' s x a t"
proof (cases "x = s")
  case True
  with assms(2) show ?thesis by (cases t) auto
next
  case False
  have "rleft h' z = rleft h z \<and> rright h' z = rright h z \<and>
      rparent h' z = (if z = x then a else rparent h z)" if "z \<in> set_tree t" for z
  proof (cases "z = x")
    case True
    with rot_frame_inner [OF assms(1) False] show ?thesis by simp
  next
    case neq: False
    with assms(4) that have "z \<notin> {a, b, x} \<union> ctx_top c" by auto
    with rot_frame_other [OF assms(1)] neq show ?thesis by simp
  qed
  moreover have "alive h' = alive h" by (rule rot_frame_alive [OF assms(1)])
  ultimately show ?thesis by (intro tree_at_reparent [OF assms(2) _ assms(3)]) simp_all
qed

lemma rot_ctx:
  assumes "rot_frame h h' s c a b x" "relinked h h' root c b root'"
    "ctx_at h s root a par c" "ctx_distinct c"
    "ctx_set c \<inter> {a, b} = {}" "x \<noteq> s \<Longrightarrow> x \<notin> ctx_set c"
  shows "ctx_at h' s root' b par c"
proof (rule ctx_at_relink [OF assms(3,4,2)])
  show "alive h' = alive h" by (rule rot_frame_alive [OF assms(1)])
  show "\<forall>f c'. c = f # c' \<longrightarrow> same_on (set_tree (frame_tree f) \<union> ctx_set c') h h'"
  proof (intro allI impI)
    fix f c' assume c: "c = f # c'"
    have "s \<notin> ctx_set c" using ctx_at_alive [OF assms(3)] by simp
    then have "x \<notin> ctx_set c" using assms(6) by auto
    then have "(set_tree (frame_tree f) \<union> ctx_set c') \<inter> ({a, b, x} \<union> ctx_top c) = {}"
      using assms(4,5) c ctx_distinct_top [of f c'] by (auto simp: frame_set_def)
    with assms(1) show "same_on (set_tree (frame_tree f) \<union> ctx_set c') h h'"
      by (rule rot_same_on)
  qed
qed

text \<open>What the loops use: a rotation at the focus succeeds and turns the subtree.\<close>

definition rot_kept :: "rbheap \<Rightarrow> rbheap \<Rightarrow> addr \<Rightarrow> bool" where
  "rot_kept h h' s \<longleftrightarrow> same_data h h' \<and> rparent h' s = rparent h s"

lemma left_rotate_focus:
  assumes "focus h s root c a \<langle>l, a, \<langle>x, b, y\<rangle>\<rangle>"
  shows "\<exists>h' root'. agc_rbtree_left_rotate h root s a = Some (h', root') \<and>
     focus h' s root' c b \<langle>\<langle>l, a, x\<rangle>, b, y\<rangle> \<and> rot_kept h h' s"
proof -
  from left_rotate_writes [OF assms] obtain h' root' where
    ev: "agc_rbtree_left_rotate h root s a = Some (h', root')" and
    fr: "rot_frame h h' s c a b (rleft h b)" and re: "relinked h h' root c b root'" and
    fl: "rleft h' a = rleft h a" "rright h' a = rleft h b" "rleft h' b = a" "rright h' b = rright h b"
    by blast
  from assms have t: "tree_at h s (rleft h a) a l" "tree_at h s (rleft h b) b x"
      "tree_at h s (rright h b) b y"
    and d: "distinct (inorder (plug c \<langle>l, a, \<langle>x, b, y\<rangle>\<rangle>))" by (auto simp: focus_def)
  note f = rotate_facts [OF assms disjI1 [OF refl] t(2) insertI1]
  have top: "ctx_top c \<subseteq> ctx_set c" by (rule ctx_top_subset)
  have xi: "rleft h b = s \<or> rleft h b \<in> set_tree x" using tree_at_focus [OF t(2)] by auto
  have ds: "ctx_distinct c" "ctx_set c \<inter> {a, b} = {}"
    "set_tree l \<inter> ({a, b, rleft h b} \<union> ctx_top c) = {}"
    "set_tree y \<inter> ({a, b, rleft h b} \<union> ctx_top c) = {}"
    "set_tree x \<inter> ({a, b} \<union> ctx_top c) = {}" "distinct (inorder x)"
    using d top xi tree_at_alive [OF t(1)] tree_at_alive [OF t(3)] by (auto simp: distinct_plug)
  have "ctx_at h' s root' b (rparent h' b) c"
    using rot_ctx [OF fr re f(14) ds(1,2)] f(10) fr by (simp add: rot_frame_def)
  moreover have "tree_at h' s b (rparent h' b) \<langle>\<langle>l, a, x\<rangle>, b, y\<rangle>"
    using tree_at_frame [OF t(1) rot_same_on [OF fr ds(3)]] rot_inner [OF fr t(2) ds(6,5)]
      tree_at_frame [OF t(3) rot_same_on [OF fr ds(4)]] fl f(1-5) fr
    by (simp add: rot_frame_def same_data_def)
  moreover have "distinct (inorder (plug c \<langle>\<langle>l, a, x\<rangle>, b, y\<rangle>))"
    using d by (simp add: inorder_plug)
  ultimately show ?thesis
    using ev fr f(3) by (auto simp: focus_def rot_kept_def rot_frame_def same_data_def)
qed

lemma right_rotate_focus:
  assumes "focus h s root c a \<langle>\<langle>x, b, y\<rangle>, a, r\<rangle>"
  shows "\<exists>h' root'. agc_rbtree_right_rotate h root s a = Some (h', root') \<and>
     focus h' s root' c b \<langle>x, b, \<langle>y, a, r\<rangle>\<rangle> \<and> rot_kept h h' s"
proof -
  from right_rotate_writes [OF assms] obtain h' root' where
    ev: "agc_rbtree_right_rotate h root s a = Some (h', root')" and
    fr: "rot_frame h h' s c a b (rright h b)" and re: "relinked h h' root c b root'" and
    fl: "rright h' a = rright h a" "rleft h' a = rright h b" "rright h' b = a" "rleft h' b = rleft h b"
    by blast
  from assms have t: "tree_at h s (rright h a) a r" "tree_at h s (rright h b) b y"
      "tree_at h s (rleft h b) b x"
    and d: "distinct (inorder (plug c \<langle>\<langle>x, b, y\<rangle>, a, r\<rangle>))" by (auto simp: focus_def)
  note f = rotate_facts [OF assms disjI2 [OF refl] t(2) insertI2 [OF singletonI]]
  have top: "ctx_top c \<subseteq> ctx_set c" by (rule ctx_top_subset)
  have yi: "rright h b = s \<or> rright h b \<in> set_tree y" using tree_at_focus [OF t(2)] by auto
  have ds: "ctx_distinct c" "ctx_set c \<inter> {a, b} = {}"
    "set_tree r \<inter> ({a, b, rright h b} \<union> ctx_top c) = {}"
    "set_tree x \<inter> ({a, b, rright h b} \<union> ctx_top c) = {}"
    "set_tree y \<inter> ({a, b} \<union> ctx_top c) = {}" "distinct (inorder y)"
    using d top yi tree_at_alive [OF t(1)] tree_at_alive [OF t(3)] by (auto simp: distinct_plug)
  have "ctx_at h' s root' b (rparent h' b) c"
    using rot_ctx [OF fr re f(14) ds(1,2)] f(10) fr by (simp add: rot_frame_def)
  moreover have "tree_at h' s b (rparent h' b) \<langle>x, b, \<langle>y, a, r\<rangle>\<rangle>"
    using tree_at_frame [OF t(1) rot_same_on [OF fr ds(3)]] rot_inner [OF fr t(2) ds(6,5)]
      tree_at_frame [OF t(3) rot_same_on [OF fr ds(4)]] fl f(1-5) fr
    by (simp add: rot_frame_def same_data_def)
  moreover have "distinct (inorder (plug c \<langle>x, b, \<langle>y, a, r\<rangle>\<rangle>))"
    using d by (simp add: inorder_plug)
  ultimately show ?thesis
    using ev fr f(3) by (auto simp: focus_def rot_kept_def rot_frame_def same_data_def)
qed

end
