(* ===== verification/Agc_Rbtree_Color.thy ===== *)
theory Agc_Rbtree_Color
  imports Agc_Rbtree_Rotate
begin

text \<open>
  The red-black invariants over a colour function, for trees and for contexts, and the
  rules that move the focus of a loop up and down the store.
\<close>

section \<open>Colour and black height\<close>

definition red_in :: "rbheap \<Rightarrow> addr \<Rightarrow> bool" where
  "red_in h a \<longleftrightarrow> rcolor h a \<noteq> 0"

primrec bh :: "(addr \<Rightarrow> bool) \<Rightarrow> addr tree \<Rightarrow> nat" where
  "bh red \<langle>\<rangle> = 0"
| "bh red \<langle>l, a, r\<rangle> = (if red a then bh red l else Suc (bh red l))"

primrec bal :: "(addr \<Rightarrow> bool) \<Rightarrow> addr tree \<Rightarrow> bool" where
  "bal red \<langle>\<rangle> \<longleftrightarrow> True"
| "bal red \<langle>l, a, r\<rangle> \<longleftrightarrow> bh red l = bh red r \<and> bal red l \<and> bal red r"

primrec top_red :: "(addr \<Rightarrow> bool) \<Rightarrow> addr tree \<Rightarrow> bool" where
  "top_red red \<langle>\<rangle> \<longleftrightarrow> False"
| "top_red red \<langle>l, a, r\<rangle> \<longleftrightarrow> red a"

primrec col_ok :: "(addr \<Rightarrow> bool) \<Rightarrow> addr tree \<Rightarrow> bool" where
  "col_ok red \<langle>\<rangle> \<longleftrightarrow> True"
| "col_ok red \<langle>l, a, r\<rangle> \<longleftrightarrow>
     (red a \<longrightarrow> \<not> top_red red l \<and> \<not> top_red red r) \<and> col_ok red l \<and> col_ok red r"

fun ctop_red :: "(addr \<Rightarrow> bool) \<Rightarrow> frame list \<Rightarrow> bool" where
  "ctop_red red [] \<longleftrightarrow> False"
| "ctop_red red (f # c) \<longleftrightarrow> red (frame_node f)"

fun cbal :: "(addr \<Rightarrow> bool) \<Rightarrow> frame list \<Rightarrow> nat \<Rightarrow> bool" where
  "cbal red [] n \<longleftrightarrow> True"
| "cbal red (f # c) n \<longleftrightarrow>
     bal red (frame_tree f) \<and> bh red (frame_tree f) = n \<and>
     cbal red c (if red (frame_node f) then n else Suc n)"

fun ccol :: "(addr \<Rightarrow> bool) \<Rightarrow> frame list \<Rightarrow> bool" where
  "ccol red [] \<longleftrightarrow> True"
| "ccol red (f # c) \<longleftrightarrow>
     col_ok red (frame_tree f) \<and>
     (red (frame_node f) \<longrightarrow> \<not> top_red red (frame_tree f) \<and> \<not> ctop_red red c) \<and> ccol red c"

definition croot_black :: "(addr \<Rightarrow> bool) \<Rightarrow> frame list \<Rightarrow> bool" where
  "croot_black red c \<longleftrightarrow> (c \<noteq> [] \<longrightarrow> \<not> red (frame_node (last c)))"

lemma croot_black_simps [simp]:
  "croot_black red []"
  "croot_black red [f] \<longleftrightarrow> \<not> red (frame_node f)"
  "croot_black red (f # g # c) \<longleftrightarrow> croot_black red (g # c)"
  by (auto simp: croot_black_def)

lemma croot_black_tl: "croot_black red (f # c) \<Longrightarrow> croot_black red c"
  by (cases c) auto

lemma bal_plug: "bal red (plug c t) \<longleftrightarrow> bal red t \<and> cbal red c (bh red t)"
  by (induction c t rule: plug.induct) auto

lemma col_plug:
  "col_ok red (plug c t) \<longleftrightarrow> col_ok red t \<and> ccol red c \<and> (ctop_red red c \<longrightarrow> \<not> top_red red t)"
  by (induction c t rule: plug.induct) auto

lemma top_red_plug:
  "top_red red (plug c t) \<longleftrightarrow> (if c = [] then top_red red t else red (frame_node (last c)))"
  by (induction c t rule: plug.induct) auto

text \<open>Recolouring a node outside a tree or a context changes nothing there.\<close>

lemma recolor_tree [simp]:
  assumes "a \<notin> set_tree t"
  shows "bh (red(a := v)) t = bh red t" "bal (red(a := v)) t = bal red t"
    "top_red (red(a := v)) t = top_red red t" "col_ok (red(a := v)) t = col_ok red t"
proof -
  have b: "bh (red(a := v)) t = bh red t" if "a \<notin> set_tree t" for t using that by (induction t) auto
  have u: "top_red (red(a := v)) t = top_red red t" if "a \<notin> set_tree t" for t using that by (cases t) auto
  show "bal (red(a := v)) t = bal red t" using assms by (induction t) (auto simp: b)
  show "col_ok (red(a := v)) t = col_ok red t" using assms by (induction t) (auto simp: u)
  show "bh (red(a := v)) t = bh red t" "top_red (red(a := v)) t = top_red red t"
    using assms by (simp_all add: b u)
qed

lemma recolor_ctx [simp]:
  assumes "a \<notin> ctx_set c"
  shows "cbal (red(a := v)) c n = cbal red c n" "ccol (red(a := v)) c = ccol red c"
    "ctop_red (red(a := v)) c = ctop_red red c" "croot_black (red(a := v)) c = croot_black red c"
proof -
  have fr: "a \<noteq> frame_node f" "a \<notin> set_tree (frame_tree f)" if "a \<notin> frame_set f" for f
    using that by (auto simp: frame_set_def)
  have t: "ctop_red (red(a := v)) c = ctop_red red c" if "a \<notin> ctx_set c" for c
    using that by (cases c) (auto simp: frame_set_def)
  show "cbal (red(a := v)) c n = cbal red c n"
    using assms by (induction c arbitrary: n) (use fr in auto)
  show "ccol (red(a := v)) c = ccol red c"
    using assms by (induction c) (use fr t in auto)
  show "croot_black (red(a := v)) c = croot_black red c"
    using assms by (induction c rule: induct_list012) (use fr in auto)
  show "ctop_red (red(a := v)) c = ctop_red red c" using assms by (rule t)
qed

section \<open>Colours in the store\<close>

lemma red_in_recolor [simp]:
  "red_in (h\<lparr>rcolor := f(a := c)\<rparr>) = (red_in (h\<lparr>rcolor := f\<rparr>))(a := c \<noteq> 0)"
  "red_in (h\<lparr>rcolor := rcolor h\<rparr>) = red_in h"
  by (rule ext, simp add: red_in_def)+

lemma tree_at_recolor [simp]: "tree_at (h\<lparr>rcolor := f\<rparr>) s p par t = tree_at h s p par t"
  by (induction t arbitrary: p par) auto

lemma ctx_at_recolor [simp]: "ctx_at (h\<lparr>rcolor := f\<rparr>) s root q par c = ctx_at h s root q par c"
  by (induction h s root q par c rule: ctx_at.induct) auto

lemma focus_recolor [simp]: "focus (h\<lparr>rcolor := f\<rparr>) s root c q t = focus h s root c q t"
  by (simp add: focus_def)

lemma same_data_red_in: "same_data h h' \<Longrightarrow> red_in h' = red_in h"
  by (rule ext) (simp add: same_data_def red_in_def)

lemma top_red_ptr: "tree_at h s q par t \<Longrightarrow> \<not> red_in h s \<Longrightarrow> red_in h q \<longleftrightarrow> top_red (red_in h) t"
  by (cases t) auto

lemma color_macros [agc_heap]:
  "a \<in> alive h \<Longrightarrow> agc_rbt_red h a = Some (h\<lparr>rcolor := (rcolor h)(a := 1)\<rparr>)"
  "a \<in> alive h \<Longrightarrow> agc_rbt_black h a = Some (h\<lparr>rcolor := (rcolor h)(a := 0)\<rparr>)"
  "a \<in> alive h \<Longrightarrow> agc_rbt_is_red h a = Some (red_in h a)"
  "a \<in> alive h \<Longrightarrow> agc_rbt_is_black h a = Some (\<not> red_in h a)"
  "a \<in> alive h \<Longrightarrow> b \<in> alive h \<Longrightarrow>
     agc_rbt_copy_color h a b = Some (h\<lparr>rcolor := (rcolor h)(a := rcolor h b)\<rparr>)"
  by (simp_all add: agc_rbt_red_def agc_rbt_black_def agc_rbt_is_red_def agc_rbt_is_black_def
      agc_rbt_copy_color_def red_in_def agc_heap)

section \<open>Moving the focus\<close>

lemma focus_upL:
  "focus h s root (FL a r # c) q t \<Longrightarrow>
     focus h s root c a \<langle>t, a, r\<rangle> \<and> rparent h q = a \<and> rleft h a = q"
  by (auto simp: focus_def)

lemma focus_upR:
  "focus h s root (FR l a # c) q t \<Longrightarrow>
     focus h s root c a \<langle>l, a, t\<rangle> \<and> rparent h q = a \<and> rright h a = q"
  by (auto simp: focus_def)

lemma focus_downL:
  "focus h s root c a \<langle>t, a, r\<rangle> \<Longrightarrow> t \<noteq> \<langle>\<rangle> \<or> rparent h s = a \<Longrightarrow>
     focus h s root (FL a r # c) (rleft h a) t"
  by (cases t) (auto simp: focus_def)

lemma focus_downR:
  "focus h s root c a \<langle>l, a, t\<rangle> \<Longrightarrow> t \<noteq> \<langle>\<rangle> \<or> rparent h s = a \<Longrightarrow>
     focus h s root (FR l a # c) (rright h a) t"
  by (cases t) (auto simp: focus_def)

lemma focus_node:
  assumes "focus h s root c q \<langle>l, a, r\<rangle>"
  shows "q = a" "a \<in> alive h" "a \<noteq> s" "s \<in> alive h"
    "tree_at h s (rleft h a) a l" "tree_at h s (rright h a) a r" "ctx_at h s root a (rparent h a) c"
    "a \<notin> set_tree l" "a \<notin> set_tree r" "a \<notin> ctx_set c" "set_tree l \<inter> set_tree r = {}"
    "set_tree l \<inter> ctx_set c = {}" "set_tree r \<inter> ctx_set c = {}"
    "distinct (inorder l)" "distinct (inorder r)" "ctx_distinct c"
proof -
  from assms have d: "distinct (inorder \<langle>l, a, r\<rangle>)" "ctx_distinct c" "set_tree \<langle>l, a, r\<rangle> \<inter> ctx_set c = {}"
    by (simp_all add: focus_def distinct_plug)
  then show "a \<notin> set_tree l" "a \<notin> set_tree r" "a \<notin> ctx_set c" "set_tree l \<inter> set_tree r = {}"
    "set_tree l \<inter> ctx_set c = {}" "set_tree r \<inter> ctx_set c = {}"
    "distinct (inorder l)" "distinct (inorder r)" "ctx_distinct c" by auto
  from assms have q: "q = a" by (simp only: focus_def tree_at.simps)
  from assms show "a \<in> alive h" "a \<noteq> s" "s \<in> alive h"
    "tree_at h s (rleft h a) a l" "tree_at h s (rright h a) a r" "ctx_at h s root a (rparent h a) c"
    unfolding q by (simp_all add: focus_def)
  show "q = a" by (rule q)
qed

lemma focus_whole: "focus h s root c q t \<Longrightarrow> \<exists>par. tree_at h s root par (plug c t)"
  using tree_at_plug unfolding focus_def by blast

lemma tree_child_alive: "tree_at h s p par t \<Longrightarrow> s \<in> alive h \<Longrightarrow> p \<in> alive h"
  by (cases t) auto

end
