(* ===== verification/Agc_Rbtree_Insert.thy ===== *)
theory Agc_Rbtree_Insert
  imports Agc_Rbtree_Color
begin

text \<open>
  Insertion: the rebalancing loop ends, dereferences only nodes of the tree and restores
  the red-black invariants without changing the in-order sequence of the nodes.
\<close>

section \<open>The invariant of the rebalancing loop\<close>

text \<open>The focus is red; everything else is a red-black tree with a black root.\<close>

definition ins_inv :: "rbheap \<Rightarrow> addr \<Rightarrow> addr \<Rightarrow> frame list \<Rightarrow> addr \<Rightarrow> addr tree \<Rightarrow> bool" where
  "ins_inv h s root c n t \<longleftrightarrow>
     focus h s root c n t \<and> \<not> red_in h s \<and> top_red (red_in h) t \<and>
     col_ok (red_in h) t \<and> bal (red_in h) t \<and>
     cbal (red_in h) c (bh (red_in h) t) \<and> ccol (red_in h) c \<and> croot_black (red_in h) c"

definition kept :: "rbheap \<Rightarrow> rbheap \<Rightarrow> bool" where
  "kept h h' \<longleftrightarrow> alive h' = alive h \<and> rkey h' = rkey h"

lemma kept_refl [simp]: "kept h h"
  by (simp add: kept_def)

lemma kept_trans: "kept h h' \<Longrightarrow> kept h' h'' \<Longrightarrow> kept h h''"
  by (simp add: kept_def)

lemma kept_recolor: "kept (h\<lparr>rcolor := f\<rparr>) h' \<longleftrightarrow> kept h h'" "kept h (h'\<lparr>rcolor := f\<rparr>) \<longleftrightarrow> kept h h'"
  by (simp_all add: kept_def)

lemma rot_kept_kept: "rot_kept h h' s \<Longrightarrow> kept h h'"
  by (simp add: rot_kept_def same_data_def kept_def)

lemma rot_kept_red: "rot_kept h h' s \<Longrightarrow> red_in h' = red_in h"
  by (simp add: rot_kept_def same_data_red_in)

section \<open>Recolouring: the uncle is red\<close>

definition ins_col :: "(addr \<Rightarrow> bool) \<Rightarrow> frame list \<Rightarrow> addr tree \<Rightarrow> bool" where
  "ins_col red c t \<longleftrightarrow> top_red red t \<and> col_ok red t \<and> bal red t \<and>
     cbal red c (bh red t) \<and> ccol red c \<and> croot_black red c"

lemma ins_inv_col: "ins_inv h s root c n t \<longleftrightarrow> focus h s root c n t \<and> \<not> red_in h s \<and> ins_col (red_in h) c t"
  by (auto simp: ins_inv_def ins_col_def)

lemma ins_col_recolor:
  assumes "ins_col red (f # k # c) t" and "distinct (inorder (plug (f # k # c) t))"
    and "red (frame_node f)" and "frame_tree k = \<langle>ul, b, ur\<rangle>" and "red b"
  shows "ins_col (red(frame_node f := False, b := False, frame_node k := True)) c (plug [f, k] t)"
proof -
  let ?p = "frame_node f" and ?g = "frame_node k" and ?x = "frame_tree f"
  have d: "?p \<notin> set_tree t" "b \<notin> set_tree t" "?g \<notin> set_tree t"
    "?p \<notin> set_tree ?x" "b \<notin> set_tree ?x" "?g \<notin> set_tree ?x" "?p \<noteq> b" "?p \<noteq> ?g" "b \<noteq> ?g"
    "?p \<notin> set_tree ul" "b \<notin> set_tree ul" "?g \<notin> set_tree ul"
    "?p \<notin> set_tree ur" "b \<notin> set_tree ur" "?g \<notin> set_tree ur"
    "?p \<notin> ctx_set c" "b \<notin> ctx_set c" "?g \<notin> ctx_set c"
    using assms(2,4) by (cases f; cases k; auto simp: distinct_plug)+
  have "croot_black red c"
    using assms(1) croot_black_tl unfolding ins_col_def by blast
  then show ?thesis
    using assms(1,3,4,5) d by (cases f; cases k) (auto simp: ins_col_def)
qed

lemma plug_pair: "plug [f, k] t = plug [k] (plug [f] t)"
  by (cases f; cases k) auto

text \<open>The pointers around the focus, two levels up.\<close>

lemma focus_up1:
  "focus h s root (f # c) q t \<Longrightarrow> focus h s root c (frame_node f) (plug [f] t) \<and> rparent h q = frame_node f"
  by (cases f) (auto dest: focus_upL focus_upR)

lemma plug1_node: "\<exists>l r. plug [f] t = \<langle>l, frame_node f, r\<rangle>"
  by (cases f) auto

lemma focus_alive: "focus h s root c q t \<Longrightarrow> q \<in> alive h"
  by (cases t) (auto simp: focus_def)

lemma focus_root_iff: "focus h s root c q \<langle>l, a, r\<rangle> \<Longrightarrow> a = root \<longleftrightarrow> c = []"
  using focus_node(7,10) [of h s root c q l a r] ctx_at_root_in [of h s root a "rparent h a" c]
  by (cases c) auto

lemma grandparent:
  assumes "focus h s root (f # k # c) n t"
  defines "p \<equiv> frame_node f" and "g \<equiv> frame_node k"
  shows "focus h s root (k # c) p (plug [f] t)" "focus h s root c g (plug [k] (plug [f] t))"
    "rparent h n = p" "rparent h p = g" "n \<in> alive h" "p \<in> alive h" "g \<in> alive h" "s \<in> alive h"
    "p \<noteq> s" "g \<noteq> s" "p \<noteq> g"
proof -
  from focus_up1 [OF assms(1)] show fp: "focus h s root (k # c) p (plug [f] t)" and "rparent h n = p"
    by (simp_all add: p_def)
  from focus_up1 [OF fp] show fg: "focus h s root c g (plug [k] (plug [f] t))" and "rparent h p = g"
    by (simp_all add: g_def)
  show "n \<in> alive h" "p \<in> alive h" "g \<in> alive h"
    using focus_alive [OF assms(1)] focus_alive [OF fp] focus_alive [OF fg] .
  show "s \<in> alive h" using assms(1) by (simp add: focus_def)
  from plug1_node [of f t] obtain l r where pl: "plug [f] t = \<langle>l, p, r\<rangle>" by (auto simp: p_def)
  from plug1_node [of k "plug [f] t"] obtain l' r' where gl: "plug [k] (plug [f] t) = \<langle>l', g, r'\<rangle>"
    by (auto simp: g_def)
  show "p \<noteq> s" using focus_node(3) [OF fp [unfolded pl]] .
  show "g \<noteq> s" using focus_node(3) [OF fg [unfolded gl]] .
  show "p \<noteq> g" using focus_node(10) [OF fp [unfolded pl]] by (auto simp: g_def frame_set_def)
qed

fun sibling_ptr :: "rbheap \<Rightarrow> frame \<Rightarrow> addr" where
  "sibling_ptr h (FL a r) = rright h a"
| "sibling_ptr h (FR l a) = rleft h a"

text \<open>The branch of the loop body is the side the parent hangs on.\<close>

lemma side_of_parent:
  assumes "focus h s root (f # k # c) n t"
  defines "p \<equiv> frame_node f" and "g \<equiv> frame_node k"
  shows "rleft h g = p \<longleftrightarrow> (\<exists>u. k = FL g u)" "tree_at h s (sibling_ptr h k) g (frame_tree k)"
proof -
  note P = grandparent [OF assms(1), folded p_def g_def]
  have c: "ctx_at h s root p (rparent h p) (k # c)" using P(1) by (simp add: focus_def)
  from plug1_node [of f t] obtain l r where pl: "plug [f] t = \<langle>l, p, r\<rangle>" by (auto simp: p_def)
  from ctx_side(5) [OF c P(9) focus_node(10) [OF P(1) [unfolded pl]]] P(4)
  show "rleft h g = p \<longleftrightarrow> (\<exists>u. k = FL g u)" by (auto simp: g_def)
  from c show "tree_at h s (sibling_ptr h k) g (frame_tree k)"
    by (cases k) (simp_all add: g_def)
qed

lemma insert_recolor:
  assumes "ins_inv h s root (f # k # c) n t"
    and "red_in h (frame_node f)" and "top_red (red_in h) (frame_tree k)"
  shows "\<exists>h'. rb_insert_body h root s n = Some (h', root, frame_node k) \<and>
     ins_inv h' s root c (frame_node k) (plug [f, k] t) \<and> kept h h'"
proof -
  let ?p = "frame_node f" and ?g = "frame_node k"
  from assms(3) obtain ul b ur where u: "frame_tree k = \<langle>ul, b, ur\<rangle>" by (cases "frame_tree k") auto
  have fn: "focus h s root (f # k # c) n t" and ns: "\<not> red_in h s" using assms(1) by (simp_all add: ins_inv_def)
  note P = grandparent [OF fn]
  note S = side_of_parent [OF fn]
  have b: "sibling_ptr h k = b" "b \<in> alive h" and bs: "b \<noteq> s"
    using S(2) u by auto
  let ?h = "h\<lparr>rcolor := (rcolor h)(?p := 0, b := 0, ?g := 1)\<rparr>"
  have "red_in h b" using assms(3) u by simp
  then have "rb_insert_body h root s n = Some (?h, root, ?g)"
    using P(3-8) S(1) b by (cases k) (simp_all add: rb_insert_body_def agc_heap)
  moreover have "ins_inv ?h s root c ?g (plug [f, k] t)"
    using ins_col_recolor [of "red_in h" f k c t ul b ur] assms fn P(2,9,10) bs ns u
    by (simp add: ins_inv_col focus_def plug_pair)
  ultimately show ?thesis by (auto simp: kept_def)
qed

section \<open>Rotating: the uncle is black\<close>

lemma ins_col_rot:
  assumes "ins_col red (f # k # c) t" and "distinct (inorder (plug (f # k # c) t))"
    and "red (frame_node f)" and "\<not> top_red red (frame_tree k)"
  shows "f = FL p x \<Longrightarrow> k = FL g u \<Longrightarrow> ins_col (red(p := False, g := True)) (FL p \<langle>x, g, u\<rangle> # c) t"
    "f = FR x p \<Longrightarrow> k = FR u g \<Longrightarrow> ins_col (red(p := False, g := True)) (FR \<langle>u, g, x\<rangle> p # c) t"
    "f = FR x p \<Longrightarrow> k = FL g u \<Longrightarrow> t = \<langle>l, n, r\<rangle> \<Longrightarrow>
       ins_col (red(n := False, g := True)) (FL n \<langle>r, g, u\<rangle> # c) \<langle>x, p, l\<rangle>"
    "f = FL p x \<Longrightarrow> k = FR u g \<Longrightarrow> t = \<langle>l, n, r\<rangle> \<Longrightarrow>
       ins_col (red(n := False, g := True)) (FR \<langle>u, g, l\<rangle> n # c) \<langle>r, p, x\<rangle>"
proof -
  let ?p = "frame_node f" and ?g = "frame_node k" and ?x = "frame_tree f" and ?u = "frame_tree k"
  have d: "?p \<notin> set_tree t" "?g \<notin> set_tree t" "?p \<notin> set_tree ?x" "?g \<notin> set_tree ?x" "?p \<noteq> ?g"
    "?p \<notin> set_tree ?u" "?g \<notin> set_tree ?u" "?p \<notin> ctx_set c" "?g \<notin> ctx_set c"
    "set_tree t \<inter> set_tree ?x = {}" "set_tree t \<inter> set_tree ?u = {}" "set_tree t \<inter> ctx_set c = {}"
    "distinct (inorder t)"
    using assms(2) by (cases f; cases k; auto simp: distinct_plug)+
  have r: "croot_black red (k # c)" using assms(1) croot_black_tl unfolding ins_col_def by blast
  have c': "croot_black red' (f' # c)" if "\<not> red' (frame_node f')" "croot_black red' c" for red' f'
    using that by (cases c) auto
  note cr = croot_black_tl [OF r] c'
  show "f = FL p x \<Longrightarrow> k = FL g u \<Longrightarrow> ins_col (red(p := False, g := True)) (FL p \<langle>x, g, u\<rangle> # c) t"
    "f = FR x p \<Longrightarrow> k = FR u g \<Longrightarrow> ins_col (red(p := False, g := True)) (FR \<langle>u, g, x\<rangle> p # c) t"
    using assms(1,3,4) d cr by (auto simp: ins_col_def)
  show "f = FR x p \<Longrightarrow> k = FL g u \<Longrightarrow> t = \<langle>l, n, r\<rangle> \<Longrightarrow>
       ins_col (red(n := False, g := True)) (FL n \<langle>r, g, u\<rangle> # c) \<langle>x, p, l\<rangle>"
    "f = FL p x \<Longrightarrow> k = FR u g \<Longrightarrow> t = \<langle>l, n, r\<rangle> \<Longrightarrow>
       ins_col (red(n := False, g := True)) (FR \<langle>u, g, l\<rangle> n # c) \<langle>r, p, x\<rangle>"
    using assms(1,3,4) d cr by (auto simp: ins_col_def)
qed

lemma outer_side:
  assumes "focus h s root (f # c) n t" and "t = \<langle>l, n, r\<rangle>"
  shows "rleft h (frame_node f) = n \<longleftrightarrow> (\<exists>a r. f = FL a r)"
    "rright h (frame_node f) = n \<longleftrightarrow> (\<exists>l a. f = FR l a)"
proof -
  note N = focus_node [OF assms(1) [unfolded assms(2)]]
  from ctx_side [OF N(7) N(3) N(10)]
  show "rleft h (frame_node f) = n \<longleftrightarrow> (\<exists>a r. f = FL a r)"
    "rright h (frame_node f) = n \<longleftrightarrow> (\<exists>l a. f = FR l a)" by simp_all
qed

lemma insert_rotLL:
  assumes "ins_inv h s root (FL p x # FL g u # c) n \<langle>l, n, r\<rangle>"
    and "red_in h p" and "\<not> top_red (red_in h) u"
  shows "\<exists>h' root'. rb_insert_body h root s n = Some (h', root', n) \<and>
     ins_inv h' s root' (FL p \<langle>x, g, u\<rangle> # c) n \<langle>l, n, r\<rangle> \<and> \<not> red_in h' p \<and> kept h h'"
proof -
  let ?t = "\<langle>l, n, r\<rangle>"
  have fn: "focus h s root (FL p x # FL g u # c) n ?t" and ns: "\<not> red_in h s"
    and col: "ins_col (red_in h) (FL p x # FL g u # c) ?t"
    using assms(1) by (simp_all add: ins_inv_col)
  note P = grandparent [OF fn, simplified]
  note S = side_of_parent [OF fn, simplified]
  note O = outer_side [OF fn refl, simplified]
  let ?h1 = "h\<lparr>rcolor := (rcolor h)(p := 0, g := 1)\<rparr>"
  have "focus ?h1 s root c g \<langle>\<langle>?t, p, x\<rangle>, g, u\<rangle>" using P(2) by simp
  from right_rotate_focus [OF this] obtain h2 root2 where
    ev: "agc_rbtree_right_rotate ?h1 root s g = Some (h2, root2)" and
    f2: "focus h2 s root2 c p \<langle>?t, p, \<langle>x, g, u\<rangle>\<rangle>" and k2: "rot_kept ?h1 h2 s" by blast
  have "\<not> red_in h (rright h g)" using top_red_ptr [OF S(2) ns] assms(3) by simp
  then have "rb_insert_body h root s n = Some (h2, root2, n)"
    using P(3-8,11) S(1) O ev tree_child_alive [OF S(2) P(8)] by (simp add: rb_insert_body_def agc_heap)
  moreover have "focus h2 s root2 (FL p \<langle>x, g, u\<rangle> # c) n ?t"
    using focus_downL [OF f2] focus_node(5) [OF f2] by simp
  moreover have "red_in h2 = (red_in h)(p := False, g := True)"
    using rot_kept_red [OF k2] by simp
  moreover have "distinct (inorder (plug (FL p x # FL g u # c) ?t))" using fn by (simp add: focus_def)
  ultimately show ?thesis
    using ins_col_rot(1) [OF col] assms(2,3) ns P(9-11) rot_kept_kept [OF k2]
    by (auto simp: ins_inv_col kept_recolor)
qed

lemma insert_rotRR:
  assumes "ins_inv h s root (FR x p # FR u g # c) n \<langle>l, n, r\<rangle>"
    and "red_in h p" and "\<not> top_red (red_in h) u"
  shows "\<exists>h' root'. rb_insert_body h root s n = Some (h', root', n) \<and>
     ins_inv h' s root' (FR \<langle>u, g, x\<rangle> p # c) n \<langle>l, n, r\<rangle> \<and> \<not> red_in h' p \<and> kept h h'"
proof -
  let ?t = "\<langle>l, n, r\<rangle>"
  have fn: "focus h s root (FR x p # FR u g # c) n ?t" and ns: "\<not> red_in h s"
    and col: "ins_col (red_in h) (FR x p # FR u g # c) ?t"
    using assms(1) by (simp_all add: ins_inv_col)
  note P = grandparent [OF fn, simplified]
  note S = side_of_parent [OF fn, simplified]
  note O = outer_side [OF fn refl, simplified]
  let ?h1 = "h\<lparr>rcolor := (rcolor h)(p := 0, g := 1)\<rparr>"
  have "focus ?h1 s root c g \<langle>u, g, \<langle>x, p, ?t\<rangle>\<rangle>" using P(2) by simp
  from left_rotate_focus [OF this] obtain h2 root2 where
    ev: "agc_rbtree_left_rotate ?h1 root s g = Some (h2, root2)" and
    f2: "focus h2 s root2 c p \<langle>\<langle>u, g, x\<rangle>, p, ?t\<rangle>" and k2: "rot_kept ?h1 h2 s" by blast
  have "\<not> red_in h (rleft h g)" using top_red_ptr [OF S(2) ns] assms(3) by simp
  then have "rb_insert_body h root s n = Some (h2, root2, n)"
    using P(3-8,11) S(1) O ev tree_child_alive [OF S(2) P(8)] by (simp add: rb_insert_body_def agc_heap)
  moreover have "focus h2 s root2 (FR \<langle>u, g, x\<rangle> p # c) n ?t"
    using focus_downR [OF f2] focus_node(6) [OF f2] by simp
  moreover have "red_in h2 = (red_in h)(p := False, g := True)"
    using rot_kept_red [OF k2] by simp
  moreover have "distinct (inorder (plug (FR x p # FR u g # c) ?t))" using fn by (simp add: focus_def)
  ultimately show ?thesis
    using ins_col_rot(2) [OF col] assms(2,3) ns P(9-11) rot_kept_kept [OF k2]
    by (auto simp: ins_inv_col kept_recolor)
qed

lemma insert_rotLR:
  assumes "ins_inv h s root (FR x p # FL g u # c) n \<langle>l, n, r\<rangle>"
    and "red_in h p" and "\<not> top_red (red_in h) u"
  shows "\<exists>h' root'. rb_insert_body h root s n = Some (h', root', p) \<and>
     ins_inv h' s root' (FL n \<langle>r, g, u\<rangle> # c) p \<langle>x, p, l\<rangle> \<and> \<not> red_in h' n \<and> kept h h'"
proof -
  let ?t = "\<langle>l, n, r\<rangle>"
  have fn: "focus h s root (FR x p # FL g u # c) n ?t" and ns: "\<not> red_in h s"
    and col: "ins_col (red_in h) (FR x p # FL g u # c) ?t"
    using assms(1) by (simp_all add: ins_inv_col)
  note P = grandparent [OF fn, simplified]
  note S = side_of_parent [OF fn, simplified]
  note O = outer_side [OF fn refl, simplified]
  from left_rotate_focus [OF P(1)] obtain h1 root1 where
    ev1: "agc_rbtree_left_rotate h root s p = Some (h1, root1)" and
    f1: "focus h1 s root1 (FL g u # c) n \<langle>\<langle>x, p, l\<rangle>, n, r\<rangle>" and k1: "rot_kept h h1 s" by blast
  have fp: "focus h1 s root1 (FL n r # FL g u # c) p \<langle>x, p, l\<rangle>"
    using focus_downL [OF f1] focus_node(5) [OF f1] by simp
  note Q = grandparent [OF fp, simplified]
  let ?h2 = "h1\<lparr>rcolor := (rcolor h1)(n := 0, g := 1)\<rparr>"
  have "focus ?h2 s root1 c g \<langle>\<langle>\<langle>x, p, l\<rangle>, n, r\<rangle>, g, u\<rangle>" using Q(2) by simp
  from right_rotate_focus [OF this] obtain h3 root3 where
    ev3: "agc_rbtree_right_rotate ?h2 root1 s g = Some (h3, root3)" and
    f3: "focus h3 s root3 c n \<langle>\<langle>x, p, l\<rangle>, n, \<langle>r, g, u\<rangle>\<rangle>" and k3: "rot_kept ?h2 h3 s" by blast
  have "\<not> red_in h (rright h g)" using top_red_ptr [OF S(2) ns] assms(3) by simp
  then have "rb_insert_body h root s n = Some (h3, root3, p)"
    using P(3-8,11) S(1) O ev1 ev3 Q(3-8,11) tree_child_alive [OF S(2) P(8)]
    by (simp add: rb_insert_body_def agc_heap)
  moreover have "focus h3 s root3 (FL n \<langle>r, g, u\<rangle> # c) p \<langle>x, p, l\<rangle>"
    using focus_downL [OF f3] focus_node(5) [OF f3] by simp
  moreover have "red_in h3 = (red_in h)(n := False, g := True)"
    using rot_kept_red [OF k3] rot_kept_red [OF k1] by simp
  moreover have "distinct (inorder (plug (FR x p # FL g u # c) ?t))" using fn by (simp add: focus_def)
  moreover have "kept h h3"
    using kept_trans [OF rot_kept_kept [OF k1]] rot_kept_kept [OF k3] by (simp add: kept_recolor)
  ultimately show ?thesis
    using ins_col_rot(3) [OF col] assms(2,3) ns Q(9-11)
    by (auto simp: ins_inv_col)
qed

lemma insert_rotRL:
  assumes "ins_inv h s root (FL p x # FR u g # c) n \<langle>l, n, r\<rangle>"
    and "red_in h p" and "\<not> top_red (red_in h) u"
  shows "\<exists>h' root'. rb_insert_body h root s n = Some (h', root', p) \<and>
     ins_inv h' s root' (FR \<langle>u, g, l\<rangle> n # c) p \<langle>r, p, x\<rangle> \<and> \<not> red_in h' n \<and> kept h h'"
proof -
  let ?t = "\<langle>l, n, r\<rangle>"
  have fn: "focus h s root (FL p x # FR u g # c) n ?t" and ns: "\<not> red_in h s"
    and col: "ins_col (red_in h) (FL p x # FR u g # c) ?t"
    using assms(1) by (simp_all add: ins_inv_col)
  note P = grandparent [OF fn, simplified]
  note S = side_of_parent [OF fn, simplified]
  note O = outer_side [OF fn refl, simplified]
  from right_rotate_focus [OF P(1)] obtain h1 root1 where
    ev1: "agc_rbtree_right_rotate h root s p = Some (h1, root1)" and
    f1: "focus h1 s root1 (FR u g # c) n \<langle>l, n, \<langle>r, p, x\<rangle>\<rangle>" and k1: "rot_kept h h1 s" by blast
  have fp: "focus h1 s root1 (FR l n # FR u g # c) p \<langle>r, p, x\<rangle>"
    using focus_downR [OF f1] focus_node(6) [OF f1] by simp
  note Q = grandparent [OF fp, simplified]
  let ?h2 = "h1\<lparr>rcolor := (rcolor h1)(n := 0, g := 1)\<rparr>"
  have "focus ?h2 s root1 c g \<langle>u, g, \<langle>l, n, \<langle>r, p, x\<rangle>\<rangle>\<rangle>" using Q(2) by simp
  from left_rotate_focus [OF this] obtain h3 root3 where
    ev3: "agc_rbtree_left_rotate ?h2 root1 s g = Some (h3, root3)" and
    f3: "focus h3 s root3 c n \<langle>\<langle>u, g, l\<rangle>, n, \<langle>r, p, x\<rangle>\<rangle>" and k3: "rot_kept ?h2 h3 s" by blast
  have "\<not> red_in h (rleft h g)" using top_red_ptr [OF S(2) ns] assms(3) by simp
  then have "rb_insert_body h root s n = Some (h3, root3, p)"
    using P(3-8,11) S(1) O ev1 ev3 Q(3-8,11) tree_child_alive [OF S(2) P(8)]
    by (simp add: rb_insert_body_def agc_heap)
  moreover have "focus h3 s root3 (FR \<langle>u, g, l\<rangle> n # c) p \<langle>r, p, x\<rangle>"
    using focus_downR [OF f3] focus_node(6) [OF f3] by simp
  moreover have "red_in h3 = (red_in h)(n := False, g := True)"
    using rot_kept_red [OF k3] rot_kept_red [OF k1] by simp
  moreover have "distinct (inorder (plug (FL p x # FR u g # c) ?t))" using fn by (simp add: focus_def)
  moreover have "kept h h3"
    using kept_trans [OF rot_kept_kept [OF k1]] rot_kept_kept [OF k3] by (simp add: kept_recolor)
  ultimately show ?thesis
    using ins_col_rot(4) [OF col] assms(2,3) ns Q(9-11)
    by (auto simp: ins_inv_col)
qed

section \<open>The loop\<close>

lemma insert_body_step:
  assumes "ins_inv h s root c n t" and "ctop_red (red_in h) c"
  shows "\<exists>h' root' n' c' t'. rb_insert_body h root s n = Some (h', root', n') \<and>
     ins_inv h' s root' c' n' t' \<and> kept h h' \<and> length c' < length c \<and>
     inorder (plug c' t') = inorder (plug c t)"
proof -
  from assms obtain l r where t: "t = \<langle>l, n, r\<rangle>"
    by (cases t) (auto simp: ins_inv_def focus_def)
  from assms(2) obtain f c1 where c1: "c = f # c1" by (cases c) auto
  with assms obtain k c2 where c: "c = f # k # c2"
    by (cases c1) (auto simp: ins_inv_def)
  from assms(2) c have red: "red_in h (frame_node f)" by simp
  show ?thesis
  proof (cases "top_red (red_in h) (frame_tree k)")
    case True
    have "inorder (plug c2 (plug [f, k] t)) = inorder (plug c t)" "length c2 < length c"
      using plug_append [of "[f, k]" c2 t] c by simp_all
    with insert_recolor [OF assms(1) [unfolded c] red True] show ?thesis by blast
  next
    case False
    note I = assms(1) [unfolded c t]
    show ?thesis
    proof (cases f; cases k)
      fix p x g u assume fk: "f = FL p x" "k = FL g u"
      from insert_rotLL [OF I [unfolded fk]] red False fk show ?thesis
        by (force simp: c t inorder_plug)
    next
      fix p x g u assume fk: "f = FL p x" "k = FR u g"
      from insert_rotRL [OF I [unfolded fk]] red False fk show ?thesis
        by (force simp: c t inorder_plug)
    next
      fix p x g u assume fk: "f = FR x p" "k = FL g u"
      from insert_rotLR [OF I [unfolded fk]] red False fk show ?thesis
        by (force simp: c t inorder_plug)
    next
      fix p x g u assume fk: "f = FR x p" "k = FR u g"
      from insert_rotRR [OF I [unfolded fk]] red False fk show ?thesis
        by (force simp: c t inorder_plug)
    qed
  qed
qed

lemma insert_fixup_ends:
  "ins_inv h s root c n t \<Longrightarrow>
     \<exists>h' root' n' c' t'. rb_insert_fixup h root s n = Some (h', root') \<and>
       ins_inv h' s root' c' n' t' \<and> \<not> ctop_red (red_in h') c' \<and> kept h h' \<and>
       inorder (plug c' t') = inorder (plug c t)"
proof (induction "length c" arbitrary: h root c n t rule: less_induct)
  case less
  have f: "focus h s root c n t" using less.prems by (simp add: ins_inv_def)
  have na: "n \<in> alive h" by (rule focus_alive [OF f])
  from less.prems obtain l r where t: "t = \<langle>l, n, r\<rangle>"
    by (cases t) (auto simp: ins_inv_def focus_def)
  have root: "n = root \<longleftrightarrow> c = []" by (rule focus_root_iff [OF f [unfolded t]])
  show ?case
  proof (cases "ctop_red (red_in h) c")
    case True
    then obtain k c' where c: "c = k # c'" by (cases c) auto
    have p: "rparent h n = frame_node k" "frame_node k \<in> alive h"
      using focus_up1 [OF f [unfolded c]] focus_alive by blast+
    from insert_body_step [OF less.prems True] obtain h1 root1 n1 c1 t1 where
      ev: "rb_insert_body h root s n = Some (h1, root1, n1)" and
      inv: "ins_inv h1 s root1 c1 n1 t1" "kept h h1" "length c1 < length c"
      and io: "inorder (plug c1 t1) = inorder (plug c t)" by blast
    have "rb_insert_fixup h root s n = rb_insert_fixup h1 root1 s n1"
      using root c True p na ev by (subst rb_insert_fixup.simps) (simp add: agc_heap)
    with less.hyps [OF inv(3,1)] io kept_trans [OF inv(2)] show ?thesis by force
  next
    case False
    have "rb_insert_fixup h root s n = Some (h, root)"
    proof (cases c)
      case Nil
      with root show ?thesis by (subst rb_insert_fixup.simps) simp
    next
      case (Cons k c')
      have p: "rparent h n = frame_node k" "frame_node k \<in> alive h"
        using focus_up1 [OF f [unfolded Cons]] focus_alive by blast+
      with Cons False root na show ?thesis
        by (subst rb_insert_fixup.simps) (simp add: agc_heap)
    qed
    with less.prems False show ?thesis by force
  qed
qed

end
