(* ===== verification/Agc_Rbtree_Order.thy ===== *)
theory Agc_Rbtree_Order
  imports Agc_Rbtree_Insert
begin

text \<open>
  The contract of the tree's insertion function and its two providers. A key order is
  total on every set of keys the client keeps in one tree; the plain order of
  \<^verbatim>\<open>agc_rbtree_insert_value\<close> is so on every set, the signed difference of
  \<^verbatim>\<open>agc_rbtree_insert_timer_value\<close> on every set inside a window of half the key space,
  which is what the comment in the code relies on.
\<close>

section \<open>Well-formed trees\<close>

definition rb_wf :: "rbheap \<Rightarrow> agc_rbtree \<Rightarrow> addr tree \<Rightarrow> bool" where
  "rb_wf h tr t \<longleftrightarrow>
     tsentinel tr \<in> alive h \<and> NULL \<notin> alive h \<and>
     tree_at h (tsentinel tr) (troot tr) (rparent h (troot tr)) t \<and>
     distinct (inorder t) \<and> \<not> red_in h (tsentinel tr) \<and>
     \<not> top_red (red_in h) t \<and> col_ok (red_in h) t \<and> bal (red_in h) t"

definition ordered :: "(u64 \<Rightarrow> u64 \<Rightarrow> bool) \<Rightarrow> rbheap \<Rightarrow> addr list \<Rightarrow> bool" where
  "ordered lt h as \<longleftrightarrow> sorted_wrt (\<lambda>a b. \<not> lt (rkey h b) (rkey h a)) as"

lemma ordered_append:
  "ordered lt h (xs @ ys) \<longleftrightarrow> ordered lt h xs \<and> ordered lt h ys \<and>
     (\<forall>x \<in> set xs. \<forall>y \<in> set ys. \<not> lt (rkey h y) (rkey h x))"
  by (simp add: ordered_def sorted_wrt_append)

lemma ordered_Cons:
  "ordered lt h (x # ys) \<longleftrightarrow> ordered lt h ys \<and> (\<forall>y \<in> set ys. \<not> lt (rkey h y) (rkey h x))"
  by (auto simp: ordered_def)

lemma ordered_kept: "kept h h' \<Longrightarrow> ordered lt h' as \<longleftrightarrow> ordered lt h as"
  by (simp add: ordered_def kept_def)

section \<open>The descent\<close>

fun went :: "(u64 \<Rightarrow> u64 \<Rightarrow> bool) \<Rightarrow> rbheap \<Rightarrow> u64 \<Rightarrow> frame \<Rightarrow> bool" where
  "went lt h k (FL a r) \<longleftrightarrow> lt k (rkey h a)"
| "went lt h k (FR l a) \<longleftrightarrow> \<not> lt k (rkey h a)"

fun is_FL :: "frame \<Rightarrow> bool" where
  "is_FL (FL a r) \<longleftrightarrow> True"
| "is_FL (FR l a) \<longleftrightarrow> False"

lemma rb_descend_path:
  "tree_at h s temp par t \<Longrightarrow> t \<noteq> \<langle>\<rangle> \<Longrightarrow> n \<in> alive h \<Longrightarrow>
     \<exists>f cs. rb_descend lt h temp n s = Some (frame_node f, is_FL f) \<and>
       plug (f # cs) \<langle>\<rangle> = t \<and> (\<forall>g \<in> set (f # cs). went lt h (rkey h n) g)"
proof (induction t arbitrary: temp par)
  case Leaf
  then show ?case by simp
next
  case (Node l a r)
  let ?k = "rkey h n"
  from Node.prems have a: "temp = a" "a \<in> alive h" "a \<noteq> s"
    "tree_at h s (rleft h a) a l" "tree_at h s (rright h a) a r" by auto
  show ?case
  proof (cases "lt ?k (rkey h a)")
    case True
    show ?thesis
    proof (cases "l = \<langle>\<rangle>")
      case leaf: True
      with True a Node.prems(3) have "rb_descend lt h temp n s = Some (a, True)"
        by (subst rb_descend.simps) (simp add: agc_heap)
      with True leaf show ?thesis by (intro exI [of _ "FL a r"] exI [of _ "[]"]) simp
    next
      case False
      from Node.IH(1) [OF a(4) False Node.prems(3)] obtain f cs where
        ev: "rb_descend lt h (rleft h a) n s = Some (frame_node f, is_FL f)" and
        pl: "plug (f # cs) \<langle>\<rangle> = l" and we: "\<forall>g \<in> set (f # cs). went lt h ?k g" by blast
      have "rb_descend lt h temp n s = Some (frame_node f, is_FL f)"
        using True False a ev Node.prems(3) tree_at_root [OF a(4)]
        by (subst rb_descend.simps) (simp add: agc_heap)
      moreover have "plug (f # cs @ [FL a r]) \<langle>\<rangle> = \<langle>l, a, r\<rangle>"
        using pl plug_append [of "f # cs" "[FL a r]" "\<langle>\<rangle>"] by simp
      ultimately show ?thesis using we True by (intro exI [of _ f] exI [of _ "cs @ [FL a r]"]) auto
    qed
  next
    case ge: False
    show ?thesis
    proof (cases "r = \<langle>\<rangle>")
      case leaf: True
      with ge a Node.prems(3) have "rb_descend lt h temp n s = Some (a, False)"
        by (subst rb_descend.simps) (simp add: agc_heap)
      with ge leaf show ?thesis by (intro exI [of _ "FR l a"] exI [of _ "[]"]) simp
    next
      case False
      from Node.IH(2) [OF a(5) False Node.prems(3)] obtain f cs where
        ev: "rb_descend lt h (rright h a) n s = Some (frame_node f, is_FL f)" and
        pl: "plug (f # cs) \<langle>\<rangle> = r" and we: "\<forall>g \<in> set (f # cs). went lt h ?k g" by blast
      have "rb_descend lt h temp n s = Some (frame_node f, is_FL f)"
        using ge False a ev Node.prems(3) tree_at_root [OF a(5)]
        by (subst rb_descend.simps) (simp add: agc_heap)
      moreover have "plug (f # cs @ [FR l a]) \<langle>\<rangle> = \<langle>l, a, r\<rangle>"
        using pl plug_append [of "f # cs" "[FR l a]" "\<langle>\<rangle>"] by simp
      ultimately show ?thesis using we ge by (intro exI [of _ f] exI [of _ "cs @ [FR l a]"]) auto
    qed
  qed
qed

text \<open>Linking the new node below the place the descent found.\<close>

lemma rb_link_focus:
  assumes "ctx_at h s root s par (f # cs)" and "distinct (inorder (plug (f # cs) \<langle>\<rangle>))"
    and "n \<in> alive h" "n \<noteq> s" "n \<notin> ctx_set (f # cs)" "s \<in> alive h"
    and "rb_descend lt h root n s = Some (frame_node f, is_FL f)"
  shows "\<exists>h'. rb_insert_loop lt h root n s = Some h' \<and>
     focus h' s root (f # cs) n \<langle>\<langle>\<rangle>, n, \<langle>\<rangle>\<rangle> \<and> red_in h' = (red_in h)(n := True) \<and> kept h h'"
proof -
  let ?p = "frame_node f"
  from assms(1) have p: "?p \<in> alive h" by (cases f) auto
  have np: "n \<noteq> ?p" using assms(5) by (auto simp: frame_set_def)
  let ?h = "h\<lparr>rleft := (if is_FL f then (rleft h)(?p := n) else rleft h)(n := s),
      rright := (if is_FL f then rright h else (rright h)(?p := n))(n := s),
      rparent := (rparent h)(n := ?p), rcolor := (rcolor h)(n := 1)\<rparr>"
  have "rb_insert_loop lt h root n s = Some ?h"
    using assms(3,7) p np by (cases f) (simp_all add: rb_insert_loop_def agc_heap)
  moreover have "ctx_at ?h s root n ?p (f # cs)"
  proof (rule ctx_at_relink [where h = h and q = s and root = root])
    show "ctx_at h s root s ?p (f # cs)" using assms(1) by (cases f) simp_all
    show d: "ctx_distinct (f # cs)" using assms(2) unfolding distinct_plug by simp
    show "relinked h ?h root (f # cs) n root"
      using np by (cases f) (simp_all add: relinked_def)
    show "\<forall>f' c'. f # cs = f' # c' \<longrightarrow> same_on (set_tree (frame_tree f') \<union> ctx_set c') h ?h"
      using ctx_distinct_top [OF d] assms(5) by (auto simp: same_on_def frame_set_def)
  qed simp
  moreover have "distinct (inorder (plug (f # cs) \<langle>\<langle>\<rangle>, n, \<langle>\<rangle>\<rangle>))"
    using assms(2,5) by (simp add: distinct_plug)
  moreover have "red_in ?h = (red_in h)(n := True)" by (rule ext) (simp add: red_in_def)
  ultimately show ?thesis using assms(3,4,6) np
    by (intro exI [of _ ?h]) (simp add: focus_def kept_def)
qed

section \<open>Insertion, for any comparison\<close>

lemma wf_paint_root:
  assumes "tree_at h s root par t" "distinct (inorder t)" "s \<in> alive h" "NULL \<notin> alive h"
    "\<not> red_in h s" "col_ok (red_in h) t" "bal (red_in h) t" "t \<noteq> \<langle>\<rangle>"
  shows "\<exists>h'. agc_rbt_black h root = Some h' \<and> kept h h' \<and>
     rb_wf h' \<lparr>troot = root, tsentinel = s, tinsert = i\<rparr> t"
proof -
  from assms(8) obtain l a r where t: "t = \<langle>l, a, r\<rangle>" by (cases t) auto
  with assms(1) have a: "root = a" "a \<in> alive h" "a \<noteq> s" "rparent h a = par" by auto
  let ?h = "h\<lparr>rcolor := (rcolor h)(a := 0)\<rparr>"
  have "agc_rbt_black h root = Some ?h" using a by (simp add: agc_heap)
  moreover have "rb_wf ?h \<lparr>troot = root, tsentinel = s, tinsert = i\<rparr> t"
    using assms(1-7) a unfolding t rb_wf_def by simp
  ultimately show ?thesis by (intro exI [of _ ?h]) (simp add: kept_def)
qed

lemma rb_insert_any:
  assumes "rb_wf h tr t" "tinsert tr = rb_insert_loop lt"
    and "n \<in> alive h" "n \<noteq> tsentinel tr" "n \<notin> set_tree t"
  shows "\<exists>h' tr' t' c. agc_rbtree_insert h tr n = Some (h', tr') \<and> rb_wf h' tr' t' \<and> kept h h' \<and>
     tsentinel tr' = tsentinel tr \<and> tinsert tr' = tinsert tr \<and>
     plug c \<langle>\<rangle> = t \<and> (\<forall>g \<in> set c. went lt h (rkey h n) g) \<and> inorder t' = pre c @ n # post c"
proof -
  let ?s = "tsentinel tr" and ?root = "troot tr"
  from assms(1) have wf: "?s \<in> alive h" "NULL \<notin> alive h" "distinct (inorder t)" "\<not> red_in h ?s"
    "\<not> top_red (red_in h) t" "col_ok (red_in h) t" "bal (red_in h) t"
    and tr: "tree_at h ?s ?root (rparent h ?root) t" by (auto simp: rb_wf_def)
  have eta: "tr\<lparr>troot := r\<rparr> = \<lparr>troot = r, tsentinel = ?s, tinsert = tinsert tr\<rparr>" for r by (cases tr) simp
  show ?thesis
  proof (cases "t = \<langle>\<rangle>")
    case True
    let ?h = "h\<lparr>rparent := (rparent h)(n := NULL), rleft := (rleft h)(n := ?s),
        rright := (rright h)(n := ?s), rcolor := (rcolor h)(n := 0)\<rparr>"
    have "red_in ?h = (red_in h)(n := False)" by (rule ext) (simp add: red_in_def)
    then have "rb_wf ?h (tr\<lparr>troot := n\<rparr>) \<langle>\<langle>\<rangle>, n, \<langle>\<rangle>\<rangle>"
      using wf assms(3,4) by (simp add: rb_wf_def)
    moreover have "agc_rbtree_insert h tr n = Some (?h, tr\<lparr>troot := n\<rparr>)"
      using True tr assms(3) by (simp add: agc_rbtree_insert_def agc_heap)
    ultimately show ?thesis using True
      by (intro exI [of _ ?h] exI [of _ "tr\<lparr>troot := n\<rparr>"] exI [of _ "\<langle>\<langle>\<rangle>, n, \<langle>\<rangle>\<rangle>"] exI [of _ "[]"])
        (simp add: kept_def)
  next
    case False
    from rb_descend_path [OF tr False assms(3)] obtain f cs where
      de: "rb_descend lt h ?root n ?s = Some (frame_node f, is_FL f)" and
      pl: "plug (f # cs) \<langle>\<rangle> = t" and we: "\<forall>g \<in> set (f # cs). went lt h (rkey h n) g" by blast
    from tr tree_at_plug [of h ?s ?root "f # cs" "\<langle>\<rangle>"] pl obtain par where
      cx: "ctx_at h ?s ?root ?s par (f # cs)" by auto
    have nc: "n \<notin> ctx_set (f # cs)" using assms(5) pl set_tree_plug [of "f # cs" "\<langle>\<rangle>"] by simp
    from rb_link_focus [OF cx wf(3) [folded pl] assms(3,4) nc wf(1) de] obtain h1 where
      li: "rb_insert_loop lt h ?root n ?s = Some h1" and
      f1: "focus h1 ?s ?root (f # cs) n \<langle>\<langle>\<rangle>, n, \<langle>\<rangle>\<rangle>" and
      r1: "red_in h1 = (red_in h)(n := True)" and k1: "kept h h1" by blast
    have "cbal (red_in h) (f # cs) 0" "ccol (red_in h) (f # cs)" "croot_black (red_in h) (f # cs)"
      using wf(5-7) [folded pl] unfolding bal_plug col_plug top_red_plug croot_black_def by simp_all
    then have "cbal (red_in h1) (f # cs) 0" "ccol (red_in h1) (f # cs)" "croot_black (red_in h1) (f # cs)"
      unfolding r1 recolor_ctx [OF nc] .
    then have "ins_inv h1 ?s ?root (f # cs) n \<langle>\<langle>\<rangle>, n, \<langle>\<rangle>\<rangle>"
      using f1 r1 wf(4) assms(4) by (simp add: ins_inv_def del: cbal.simps ccol.simps)
    from insert_fixup_ends [OF this] obtain h2 root2 n2 c2 t2 where
      fx: "rb_insert_fixup h1 ?root ?s n = Some (h2, root2)" and
      inv: "ins_inv h2 ?s root2 c2 n2 t2" "\<not> ctop_red (red_in h2) c2" and
      k2: "kept h1 h2" and io: "inorder (plug c2 t2) = inorder (plug (f # cs) \<langle>\<langle>\<rangle>, n, \<langle>\<rangle>\<rangle>)" by blast
    let ?t = "plug c2 t2"
    from inv have fo: "focus h2 ?s root2 c2 n2 t2" and s2: "\<not> red_in h2 ?s"
      and col: "col_ok (red_in h2) ?t" "bal (red_in h2) ?t"
      by (auto simp: ins_inv_def bal_plug col_plug)
    from focus_whole [OF fo] obtain par' where t2: "tree_at h2 ?s root2 par' ?t" by blast
    have al: "alive h2 = alive h" using kept_trans [OF k1 k2] by (simp add: kept_def)
    have "?t \<noteq> \<langle>\<rangle>" using inv(1) by (auto simp: ins_inv_def plug_Leaf_iff)
    with wf_paint_root [OF t2 _ _ _ s2 col, of "tinsert tr"] fo wf(1,2) al obtain h3 where
      bl: "agc_rbt_black h2 root2 = Some h3" and k3: "kept h2 h3" and
      w3: "rb_wf h3 \<lparr>troot = root2, tsentinel = ?s, tinsert = tinsert tr\<rparr> ?t"
      by (auto simp: focus_def)
    have "agc_rbtree_insert h tr n = Some (h3, tr\<lparr>troot := root2\<rparr>)"
      using False tr li fx bl assms(2) tree_at_root [OF tr] by (simp add: agc_rbtree_insert_def)
    moreover have "inorder ?t = pre (f # cs) @ n # post (f # cs)"
      using io inorder_plug [of "f # cs" "\<langle>\<langle>\<rangle>, n, \<langle>\<rangle>\<rangle>"] by simp
    ultimately show ?thesis
      using w3 pl we kept_trans [OF kept_trans [OF k1 k2] k3] unfolding eta [symmetric] by fastforce
  qed
qed

section \<open>The contract of a key order\<close>

locale key_order =
  fixes lt :: "u64 \<Rightarrow> u64 \<Rightarrow> bool" and window :: "u64 set \<Rightarrow> bool"
  assumes lt_irrefl: "\<not> lt k k"
    and lt_trans: "window K \<Longrightarrow> {a, b, c} \<subseteq> K \<Longrightarrow> lt a b \<Longrightarrow> lt b c \<Longrightarrow> lt a c"
    and lt_total: "window K \<Longrightarrow> {a, b} \<subseteq> K \<Longrightarrow> a \<noteq> b \<Longrightarrow> lt a b \<or> lt b a"
begin

lemma le_trans:
  assumes "window K" "{a, b, c} \<subseteq> K" "\<not> lt b a" "\<not> lt c b"
  shows "\<not> lt c a"
  using assms lt_trans [of K c a b] lt_total [of K a b] lt_irrefl by auto

lemma lt_asym: "window K \<Longrightarrow> {a, b} \<subseteq> K \<Longrightarrow> lt a b \<Longrightarrow> \<not> lt b a"
  using lt_trans [of K a b a] lt_irrefl by auto

text \<open>The path of the descent separates the smaller nodes from the larger ones.\<close>

lemma path_splits:
  assumes "ordered lt h (inorder (plug c t))" and "\<forall>g \<in> set c. went lt h k g"
    and "window K" "k \<in> K" "rkey h ` ctx_set c \<subseteq> K"
  shows "(\<forall>a \<in> set (pre c). \<not> lt k (rkey h a)) \<and> (\<forall>a \<in> set (post c). \<not> lt (rkey h a) k)"
  using assms
proof (induction c t rule: plug.induct)
  case (1 t)
  then show ?case by simp
next
  case (2 a r c t)
  have a: "\<not> lt (rkey h a) k" using lt_asym [OF 2(4)] 2(3,5,6) by auto
  have "\<not> lt (rkey h x) k" if "x \<in> set_tree r" for x
  proof (rule le_trans [OF 2(4) _ a])
    show "{k, rkey h a, rkey h x} \<subseteq> K" using 2(5,6) that by auto
    show "\<not> lt (rkey h x) (rkey h a)"
      using 2(2) that by (auto simp: inorder_plug ordered_append ordered_Cons)
  qed
  with a 2 show ?case by auto
next
  case (3 l a c t)
  have a: "\<not> lt k (rkey h a)" using 3(3) by simp
  have "\<not> lt k (rkey h x)" if "x \<in> set_tree l" for x
  proof (rule le_trans [OF 3(4) _ _ a])
    show "{rkey h x, rkey h a, k} \<subseteq> K" using 3(5,6) that by auto
    show "\<not> lt (rkey h a) (rkey h x)"
      using 3(2) that by (auto simp: inorder_plug ordered_append ordered_Cons)
  qed
  with a 3 show ?case by auto
qed

lemma insert_ordered:
  assumes "rb_wf h tr t" "tinsert tr = rb_insert_loop lt"
    and "n \<in> alive h" "n \<noteq> tsentinel tr" "n \<notin> set_tree t"
    and "ordered lt h (inorder t)" "window (rkey h ` insert n (set_tree t))"
  shows "\<exists>h' tr' t' xs ys. agc_rbtree_insert h tr n = Some (h', tr') \<and> rb_wf h' tr' t' \<and> kept h h' \<and>
     tsentinel tr' = tsentinel tr \<and> tinsert tr' = tinsert tr \<and>
     inorder t = xs @ ys \<and> inorder t' = xs @ n # ys \<and> ordered lt h' (inorder t')"
proof -
  from rb_insert_any [OF assms(1-5)] obtain h' tr' t' c where
    r: "agc_rbtree_insert h tr n = Some (h', tr')" "rb_wf h' tr' t'" "kept h h'"
       "tsentinel tr' = tsentinel tr" "tinsert tr' = tinsert tr" and
    c: "plug c \<langle>\<rangle> = t" "\<forall>g \<in> set c. went lt h (rkey h n) g" and
    io: "inorder t' = pre c @ n # post c" by blast
  have io0: "inorder t = pre c @ post c" using inorder_plug [of c "\<langle>\<rangle>"] c(1) by simp
  have "rkey h ` ctx_set c \<subseteq> rkey h ` insert n (set_tree t)"
    using set_tree_plug [of c "\<langle>\<rangle>"] c(1) by auto
  from path_splits [OF assms(6) [folded c(1)] c(2) assms(7) _ this]
  have "(\<forall>a \<in> set (pre c). \<not> lt (rkey h n) (rkey h a)) \<and> (\<forall>a \<in> set (post c). \<not> lt (rkey h a) (rkey h n))"
    by simp
  with assms(6) have "ordered lt h (pre c @ n # post c)"
    unfolding io0 by (auto simp: ordered_append ordered_Cons)
  then have "ordered lt h' (inorder t')" using io ordered_kept [OF r(3)] by simp
  with r io io0 show ?thesis by blast
qed

end

section \<open>The two orders of the code\<close>

definition any_window :: "u64 set \<Rightarrow> bool" where
  "any_window K \<longleftrightarrow> True"

definition half_window :: "u64 set \<Rightarrow> bool" where
  "half_window K \<longleftrightarrow> (\<exists>base. \<forall>k \<in> K. unat (k - base) < 2 ^ 63)"

interpretation plain_order: key_order "\<lambda>nk tk :: u64. nk < tk" any_window
  by unfold_locales auto

lemma sint_diff_neg:
  fixes p q :: u64
  assumes "unat p < 2 ^ 63" "unat q < 2 ^ 63"
  shows "sint (p - q) < 0 \<longleftrightarrow> unat p < unat q"
proof -
  from assms have "int (unat p) < int (2 ^ 63)" "int (unat q) < int (2 ^ 63)"
    by (simp_all only: of_nat_less_iff)
  then have bd: "uint p < 2 ^ 63" "uint q < 2 ^ 63" "0 \<le> uint p" "0 \<le> uint q"
    by simp_all
  have "sint (p - q) = signed_take_bit 63 (uint p - uint q)"
    unfolding word_sub_wi sint_sbintrunc' by simp
  also have "\<dots> = uint p - uint q"
    using bd by (intro signed_take_bit_int_eq_self) linarith+
  finally have "sint (p - q) < 0 \<longleftrightarrow> uint p < uint q" by simp
  then show ?thesis by (simp add: word_less_def [symmetric] word_less_nat_alt)
qed

lemma timer_key_lt_window:
  assumes "unat (a - base) < 2 ^ 63" "unat (b - base) < 2 ^ 63"
  shows "timer_key_lt a b \<longleftrightarrow> unat (a - base) < unat (b - base)"
proof -
  have "a - b = (a - base) - (b - base)" by simp
  with sint_diff_neg [OF assms] show ?thesis by (simp only: timer_key_lt_def)
qed

interpretation timer_order: key_order timer_key_lt half_window
proof unfold_locales
  show "\<not> timer_key_lt k k" for k by (simp add: timer_key_lt_def)
next
  fix K a b c
  assume "half_window K" and K: "{a, b, c} \<subseteq> K" and "timer_key_lt a b" "timer_key_lt b c"
  then obtain base where "\<forall>k \<in> K. unat (k - base) < 2 ^ 63" by (auto simp: half_window_def)
  with K \<open>timer_key_lt a b\<close> \<open>timer_key_lt b c\<close> show "timer_key_lt a c"
    by (simp add: timer_key_lt_window [where base = base])
next
  fix K a b
  assume "half_window K" and K: "{a, b} \<subseteq> K" and "a \<noteq> b"
  then obtain base where w: "\<forall>k \<in> K. unat (k - base) < 2 ^ 63" by (auto simp: half_window_def)
  have "unat (a - base) \<noteq> unat (b - base)" using \<open>a \<noteq> b\<close> by (simp flip: word_unat_eq_iff)
  with w K show "timer_key_lt a b \<or> timer_key_lt b a"
    by (simp add: timer_key_lt_window [where base = base]) linarith
qed

end
