(* ===== verification/Agc_Rbtree_Walk.thy ===== *)
theory Agc_Rbtree_Walk
  imports Agc_Rbtree_Order
begin

text \<open>
  Minimum and successor: both walks end, and they return the first node of the in-order
  sequence and the node after the given one.
\<close>

lemma rb_min_path:
  "tree_at h s p par t \<Longrightarrow> t \<noteq> \<langle>\<rangle> \<Longrightarrow>
     \<exists>m r cs. agc_rbtree_min h p s = Some m \<and> plug cs \<langle>\<langle>\<rangle>, m, r\<rangle> = t \<and> (\<forall>f \<in> set cs. is_FL f)"
proof (induction t arbitrary: p par)
  case Leaf
  then show ?case by simp
next
  case (Node l a r)
  from Node.prems have a: "p = a" "a \<in> alive h" "a \<noteq> s" "tree_at h s (rleft h a) a l" by auto
  show ?case
  proof (cases "l = \<langle>\<rangle>")
    case True
    with a have "agc_rbtree_min h p s = Some a"
      by (subst agc_rbtree_min.simps) (simp add: agc_heap)
    with True show ?thesis by (intro exI [of _ a] exI [of _ r] exI [of _ "[]"]) simp
  next
    case False
    from Node.IH(1) [OF a(4) False] obtain m r' cs where
      ev: "agc_rbtree_min h (rleft h a) s = Some m" and
      pl: "plug cs \<langle>\<langle>\<rangle>, m, r'\<rangle> = l" and fl: "\<forall>f \<in> set cs. is_FL f" by blast
    have "agc_rbtree_min h p s = Some m"
      using a ev False tree_at_root [OF a(4)] by (subst agc_rbtree_min.simps) (simp add: agc_heap)
    moreover have "plug (cs @ [FL a r]) \<langle>\<langle>\<rangle>, m, r'\<rangle> = \<langle>l, a, r\<rangle>"
      using pl by (simp add: plug_append)
    ultimately show ?thesis using fl
      by (intro exI [of _ m] exI [of _ r'] exI [of _ "cs @ [FL a r]"]) auto
  qed
qed

lemma pre_left_path: "\<forall>f \<in> set cs. is_FL f \<Longrightarrow> pre cs = []"
proof (induction cs)
  case (Cons f cs)
  then show ?case by (cases f) auto
qed simp

lemma rb_min_inorder:
  assumes "tree_at h s p par t" "t \<noteq> \<langle>\<rangle>"
  shows "agc_rbtree_min h p s = Some (hd (inorder t))"
proof -
  from rb_min_path [OF assms] obtain m r cs where
    m: "agc_rbtree_min h p s = Some m" "plug cs \<langle>\<langle>\<rangle>, m, r\<rangle> = t" "\<forall>f \<in> set cs. is_FL f" by blast
  have "inorder t = m # inorder r @ post cs"
    using m(2) inorder_plug [of cs "\<langle>\<langle>\<rangle>, m, r\<rangle>"] pre_left_path [OF m(3)] by simp
  with m(1) show ?thesis by simp
qed

lemma zipper_ex: "a \<in> set_tree t \<Longrightarrow> \<exists>c l r. t = plug c \<langle>l, a, r\<rangle>"
proof (induction t)
  case (Node l b r)
  consider "a = b" | "a \<in> set_tree l" | "a \<in> set_tree r" using Node.prems by auto
  then show ?case
  proof cases
    case 1
    then show ?thesis by (intro exI [of _ "[]"]) auto
  next
    case 2
    then obtain c l' r' where "l = plug c \<langle>l', a, r'\<rangle>" using Node.IH(1) by blast
    then have "\<langle>l, b, r\<rangle> = plug (c @ [FL b r]) \<langle>l', a, r'\<rangle>" by (simp add: plug_append)
    then show ?thesis by blast
  next
    case 3
    then obtain c l' r' where "r = plug c \<langle>l', a, r'\<rangle>" using Node.IH(2) by blast
    then have "\<langle>l, b, r\<rangle> = plug (c @ [FR l b]) \<langle>l', a, r'\<rangle>" by (simp add: plug_append)
    then show ?thesis by blast
  qed
qed simp

lemma wf_focus:
  assumes "rb_wf h tr (plug c \<langle>l, a, r\<rangle>)"
  shows "focus h (tsentinel tr) (troot tr) c a \<langle>l, a, r\<rangle>"
proof -
  from assms tree_at_plug [of h "tsentinel tr" "troot tr" c "\<langle>l, a, r\<rangle>"] obtain q par where
    "ctx_at h (tsentinel tr) (troot tr) q par c" "tree_at h (tsentinel tr) q par \<langle>l, a, r\<rangle>"
    by (auto simp: rb_wf_def)
  moreover from this(2) have "q = a" "rparent h a = par" by simp_all
  ultimately show ?thesis using assms by (intro focusI) (auto simp: rb_wf_def)
qed

lemma rb_next_up_post:
  "focus h s root c q \<langle>l, a, r\<rangle> \<Longrightarrow>
     rb_next_up h root q = Some (case post c of [] \<Rightarrow> NULL | x # _ \<Rightarrow> x)"
proof (induction c arbitrary: q l a r)
  case Nil
  then show ?case
    using focus_root_iff [OF Nil] focus_node(1,2) [OF Nil]
    by (subst rb_next_up.simps) (simp add: agc_heap)
next
  case (Cons f c)
  note N = focus_node [OF Cons.prems]
  note U = focus_up1 [OF Cons.prems]
  have qr: "q \<noteq> root" using focus_root_iff [OF Cons.prems] N(1) by simp
  have fa: "frame_node f \<in> alive h" using U focus_alive by blast
  note O = outer_side [OF Cons.prems [unfolded N(1)] refl]
  show ?case
  proof (cases f)
    case (FL b r')
    then show ?thesis using qr fa N(1,2) U O(1)
      by (subst rb_next_up.simps) (simp add: agc_heap)
  next
    case (FR l' b)
    then have "rb_next_up h root q = rb_next_up h root b"
      using qr fa N(1,2) U O(1) by (subst rb_next_up.simps) (simp add: agc_heap)
    also have "\<dots> = Some (case post c of [] \<Rightarrow> NULL | x # _ \<Rightarrow> x)"
      using Cons.IH [of b l' b "\<langle>l, a, r\<rangle>"] U FR by simp
    finally show ?thesis using FR by simp
  qed
qed

lemma rb_next_inorder:
  assumes "rb_wf h tr t" "inorder t = xs @ a # ys"
  shows "agc_rbtree_next h tr a = Some (case ys of [] \<Rightarrow> NULL | y # _ \<Rightarrow> y)"
proof -
  let ?s = "tsentinel tr"
  have "a \<in> set_tree t" using assms(2) by (simp flip: set_inorder)
  then obtain c l r where t: "t = plug c \<langle>l, a, r\<rangle>" using zipper_ex by blast
  have f: "focus h ?s (troot tr) c a \<langle>l, a, r\<rangle>" using wf_focus assms(1) t by simp
  note N = focus_node [OF f]
  have "xs @ a # ys = (pre c @ inorder l) @ a # (inorder r @ post c)"
    using assms(2) t by (simp add: inorder_plug)
  moreover have "distinct (xs @ a # ys)" using assms by (simp add: rb_wf_def)
  ultimately have ys: "ys = inorder r @ post c"
    by (metis append_Cons_eq_iff distinct_middle)
  show ?thesis
  proof (cases "r = \<langle>\<rangle>")
    case True
    then show ?thesis using N ys rb_next_up_post [OF f]
      by (simp add: agc_rbtree_next_def agc_heap)
  next
    case False
    then have "agc_rbtree_next h tr a = Some (hd (inorder r))"
      using N tree_at_root [OF N(6)] rb_min_inorder [OF N(6) False]
      by (simp add: agc_rbtree_next_def agc_heap)
    with False ys show ?thesis by (cases "inorder r") auto
  qed
qed

end
