(* ===== verification/Agc_Rbtree_Unlink.thy ===== *)
theory Agc_Rbtree_Unlink
  imports Agc_Rbtree_Walk
begin

text \<open>
  The first half of deletion: the node leaves the tree, its in-order successor takes
  its place where it has two children, and \<^verbatim>\<open>temp\<close> is the focus the fixup starts from.
  Where \<^verbatim>\<open>temp\<close> is the sentinel its parent field is part of the state.
\<close>

section \<open>Transplanting the successor\<close>

lemma focus_child:
  assumes "ctx_at h s root a (rparent h a) c" "a \<noteq> s" "a \<notin> ctx_set c" "c = f # c'"
  shows "rparent h a = frame_node f" "frame_node f \<in> alive h" "a \<noteq> root" "frame_node f \<noteq> s"
    "rleft h (frame_node f) = a \<longleftrightarrow> is_FL f"
  using ctx_side [OF assms(1) [unfolded assms(4)] assms(2) assms(3) [unfolded assms(4)]]
  by (cases f; simp)+

text \<open>What \<open>rb_transplant\<close> writes, given the links of the node it replaces.\<close>

lemma transplant_writes:
  assumes "ctx_at h s root a (rparent h a) c" "a \<noteq> s" "a \<notin> ctx_set c" "m \<notin> ctx_set c"
    and "a \<in> alive h" "m \<in> alive h" "m \<noteq> a" "m \<noteq> s" "s \<in> alive h"
    and "rleft h a \<in> alive h" "rright h a \<in> alive h"
    and "rleft h a \<notin> insert m (insert a (ctx_set c))" "rright h a \<notin> insert m (insert a (ctx_set c))"
  shows "\<exists>h' root'. rb_transplant h root s a m = Some (h', root') \<and>
     relinked h h' root c m root' \<and> alive h' = alive h \<and> rkey h' = rkey h \<and>
     rcolor h' = (rcolor h)(m := rcolor h a) \<and>
     rleft h' m = rleft h a \<and> rright h' m = rright h a \<and> rparent h' m = rparent h a \<and>
     rparent h' s = rparent h s \<and>
     (rleft h a \<noteq> s \<longrightarrow> rparent h' (rleft h a) = m) \<and> (rright h a \<noteq> s \<longrightarrow> rparent h' (rright h a) = m) \<and>
     (\<forall>z. z \<notin> insert m (ctx_top c) \<longrightarrow> rleft h' z = rleft h z \<and> rright h' z = rright h z) \<and>
     (\<forall>z. z \<notin> {m, rleft h a, rright h a} \<longrightarrow> rparent h' z = rparent h z)"
proof (cases c)
  case Nil
  have "m \<noteq> rleft h a" "m \<noteq> rright h a" using assms(12,13) by auto
  moreover from Nil assms(1) have "a = root" by simp
  ultimately show ?thesis
    using Nil assms(2-13)
    by (cases "rleft h a = s"; cases "rright h a = s")
      (simp_all add: rb_transplant_def relinked_def agc_heap)
next
  case (Cons f c')
  define p where "p = frame_node f"
  note F = focus_child [OF assms(1-3) Cons, folded p_def]
  have ne: "m \<noteq> rleft h a" "m \<noteq> rright h a" "p \<noteq> a" "p \<noteq> m" "p \<noteq> rleft h a" "p \<noteq> rright h a"
    using assms(3,4,12,13) Cons by (auto simp: p_def frame_set_def)
  show ?thesis
    using F ne ne [THEN not_sym] assms(2-13) p_def Cons
    by (cases f; cases "rleft h a = s"; cases "rright h a = s")
      (simp_all add: rb_transplant_def relinked_def agc_heap)
qed

lemma transplant_focus:
  assumes "ctx_at h s root a (rparent h a) c" "tree_at h s (rleft h a) a l" "tree_at h s (rright h a) px r"
    and "a \<in> alive h" "a \<noteq> s" "s \<in> alive h" "m \<in> alive h" "m \<noteq> s" "m \<noteq> a"
    and d: "distinct (inorder (plug c \<langle>l, a, r\<rangle>))" "m \<notin> set_tree (plug c \<langle>l, a, r\<rangle>)"
  shows "\<exists>h' root'. rb_transplant h root s a m = Some (h', root') \<and>
     focus h' s root' c m \<langle>l, m, r\<rangle> \<and> rparent h' s = rparent h s \<and>
     kept h h' \<and> rcolor h' = (rcolor h)(m := rcolor h a)"
proof -
  have D: "ctx_distinct c" "a \<notin> ctx_set c" "m \<notin> ctx_set c" "set_tree l \<inter> insert m (insert a (ctx_set c)) = {}"
    "set_tree r \<inter> insert m (insert a (ctx_set c)) = {}" "set_tree l \<inter> set_tree r = {}"
    "distinct (inorder l)" "distinct (inorder r)"
    using d assms(9) by (auto simp: distinct_plug set_tree_plug)
  have lp: "rleft h a = s \<or> rleft h a \<in> set_tree l" "rright h a = s \<or> rright h a \<in> set_tree r"
    using tree_at_focus [OF assms(2)] tree_at_focus [OF assms(3)] by auto
  have sc: "s \<notin> ctx_set c" "s \<notin> set_tree l" "s \<notin> set_tree r"
    using ctx_at_alive [OF assms(1)] tree_at_alive [OF assms(2)] tree_at_alive [OF assms(3)] by auto
  have top: "ctx_top c \<subseteq> ctx_set c" by (rule ctx_top_subset)
  have ptr: "rleft h a \<notin> insert m (insert a (ctx_set c))" "rright h a \<notin> insert m (insert a (ctx_set c))"
    using lp D(4,5) sc assms(5,8) by auto
  have al: "rleft h a \<in> alive h" "rright h a \<in> alive h"
    using tree_child_alive assms(2,3,6) by blast+
  from transplant_writes [OF assms(1,5) D(2,3) assms(4,7,9,8,6) al ptr] obtain h' root' where
    ev: "rb_transplant h root s a m = Some (h', root')" and re: "relinked h h' root c m root'" and
    da: "alive h' = alive h" "rkey h' = rkey h" "rcolor h' = (rcolor h)(m := rcolor h a)" and
    fi: "rleft h' m = rleft h a" "rright h' m = rright h a" "rparent h' m = rparent h a" "rparent h' s = rparent h s" and
    ch: "rleft h a \<noteq> s \<longrightarrow> rparent h' (rleft h a) = m" "rright h a \<noteq> s \<longrightarrow> rparent h' (rright h a) = m" and
    lr: "\<forall>z. z \<notin> insert m (ctx_top c) \<longrightarrow> rleft h' z = rleft h z \<and> rright h' z = rright h z" and
    pa: "\<forall>z. z \<notin> {m, rleft h a, rright h a} \<longrightarrow> rparent h' z = rparent h z" by blast
  have "tree_at h' s (rleft h a) m l"
  proof (rule tree_at_reparent [OF assms(2) da(1) D(7)], intro ballI)
    fix z assume z: "z \<in> set_tree l"
    then have "z \<notin> insert m (ctx_top c)" "z \<noteq> rright h a" using D(4,6) top lp(2) sc(2) by auto
    then show "rleft h' z = rleft h z \<and> rright h' z = rright h z \<and>
        rparent h' z = (if z = rleft h a then m else rparent h z)"
      using lr pa ch(1) z sc(2) by (cases "z = rleft h a") auto
  qed
  moreover have "tree_at h' s (rright h a) m r"
  proof (rule tree_at_reparent [OF assms(3) da(1) D(8)], intro ballI)
    fix z assume z: "z \<in> set_tree r"
    then have "z \<notin> insert m (ctx_top c)" "z \<noteq> rleft h a" using D(5,6) top lp(1) sc(3) by auto
    then show "rleft h' z = rleft h z \<and> rright h' z = rright h z \<and>
        rparent h' z = (if z = rright h a then m else rparent h z)"
      using lr pa ch(2) z sc(3) by (cases "z = rright h a") auto
  qed
  moreover have "ctx_at h' s root' m (rparent h a) c"
  proof (rule ctx_at_relink [OF assms(1) D(1) re da(1)], intro allI impI)
    fix f c' assume c: "c = f # c'"
    have "z \<notin> insert m (ctx_top c) \<and> z \<notin> {m, rleft h a, rright h a}"
      if "z \<in> set_tree (frame_tree f) \<union> ctx_set c'" for z
      using that D(1,3) ptr c ctx_distinct_top [of f c'] by (auto simp: frame_set_def)
    then show "same_on (set_tree (frame_tree f) \<union> ctx_set c') h h'"
      using lr pa da(1) unfolding same_on_def by blast
  qed
  moreover have "distinct (inorder (plug c \<langle>l, m, r\<rangle>))"
    using D d(2) by (auto simp: distinct_plug)
  ultimately have "focus h' s root' c m \<langle>l, m, r\<rangle>"
    using fi da(1) assms(6-8) by (simp add: focus_def)
  with ev fi(4) da show ?thesis by (auto simp: kept_def)
qed

section \<open>Descending and forgetting\<close>

lemma focus_down_path:
  assumes "focus h s root c q (plug cs t)" "cs \<noteq> []"
    and "t = \<langle>\<rangle> \<Longrightarrow> rparent h s = frame_node (hd cs)" and "tree_at h' s p par t"
  shows "focus h s root (cs @ c) p t"
  using assms
proof (induction cs arbitrary: t p par h')
  case (Cons f cs)
  have d: "distinct (inorder (plug (f # cs @ c) t))"
    using Cons.prems(1) by (simp add: focus_def plug_append flip: append_Cons)
  from Cons.prems(1) have s: "s \<in> alive h" by (simp add: focus_def)
  have "\<exists>q'. focus h s root (cs @ c) q' (plug [f] t) \<and> q' = frame_node f"
  proof (cases "cs = []")
    case True
    then have "focus h s root c q (plug [f] t)" using Cons.prems(1) by simp
    moreover from this have "q = frame_node f" using plug1_node [of f t] focus_node(1) by fastforce
    ultimately show ?thesis using True by simp
  next
    case False
    have pl: "plug (f # cs) t = plug cs (plug [f] t)" using plug_append [of "[f]" cs t] by simp
    obtain l r where n: "plug [f] t = \<langle>l, frame_node f, r\<rangle>" using plug1_node by blast
    have "\<exists>h'' par'. tree_at h'' s (frame_node f) par' (plug [f] t)"
    proof -
      have "s \<notin> set_tree (plug (f # cs) t)" "set_tree (plug (f # cs) t) \<subseteq> alive h"
        using Cons.prems(1) tree_at_alive unfolding focus_def by blast+
      then show ?thesis
        using Cons.prems(1) tree_at_plug [of h s q cs "plug [f] t"] n unfolding focus_def pl
        by (metis tree_at.simps(2))
    qed
    then show ?thesis using Cons.IH [OF _ False] Cons.prems(1) n unfolding pl by fastforce
  qed
  then have f: "focus h s root (cs @ c) (frame_node f) (plug [f] t)" by blast
  have p: "t = \<langle>\<rangle> \<Longrightarrow> p = s" "t \<noteq> \<langle>\<rangle> \<Longrightarrow> \<exists>l r. t = \<langle>l, p, r\<rangle>"
    using Cons.prems(4) by (cases t; auto)+
  show ?case
  proof (cases f)
    case (FL a r)
    then have "focus h s root (FL a r # cs @ c) (rleft h a) t"
      using f Cons.prems(3) by (intro focus_downL) auto
    moreover have "rleft h a = p"
      using focus_node(5) [of h s root "cs @ c" a t a r] f p FL by (cases t) auto
    ultimately show ?thesis using FL by simp
  next
    case (FR l a)
    then have "focus h s root (FR l a # cs @ c) (rright h a) t"
      using f Cons.prems(3) by (intro focus_downR) auto
    moreover have "rright h a = p"
      using focus_node(6) [of h s root "cs @ c" a l a t] f p FR by (cases t) auto
    ultimately show ?thesis using FR by simp
  qed
qed simp

lemma focus_frame:
  assumes "focus h s root c q t" "same_on (ctx_set c \<union> set_tree t) h h'" "rparent h' q = rparent h q"
  shows "focus h' s root c q t"
proof -
  have "same_on (ctx_set c) h h'" "same_on (set_tree t) h h'" "alive h' = alive h"
    using assms(2) by (auto simp: same_on_def)
  then show ?thesis using assms(1,3) ctx_at_frame tree_at_frame unfolding focus_def by metis
qed

lemma clear_node_writes:
  "a \<in> alive h \<Longrightarrow> \<exists>h'. rb_clear_node h a = Some h' \<and> alive h' = alive h \<and>
     rcolor h' = rcolor h \<and> rkey h' = (rkey h)(a := 0) \<and>
     (\<forall>z. z \<noteq> a \<longrightarrow> rleft h' z = rleft h z \<and> rright h' z = rright h z \<and> rparent h' z = rparent h z)"
  by (simp add: rb_clear_node_def agc_heap)

lemma clear_node_focus:
  assumes "focus h s root c q t" "a \<in> alive h" "a \<notin> set_tree (plug c t)" "a \<noteq> s"
  shows "\<exists>h'. rb_clear_node h a = Some h' \<and> focus h' s root c q t \<and> alive h' = alive h \<and>
     rcolor h' = rcolor h \<and> rkey h' = (rkey h)(a := 0)"
proof -
  from clear_node_writes [OF assms(2)] obtain h' where
    h': "rb_clear_node h a = Some h'" "alive h' = alive h" "rcolor h' = rcolor h" "rkey h' = (rkey h)(a := 0)"
    and o: "\<forall>z. z \<noteq> a \<longrightarrow> rleft h' z = rleft h z \<and> rright h' z = rright h z \<and> rparent h' z = rparent h z"
    by blast
  have q: "q \<noteq> a"
    using assms(1,3,4) tree_at_focus [of h s q "rparent h q" t] by (auto simp: focus_def set_tree_plug)
  have "same_on (ctx_set c \<union> set_tree t) h h'"
    using o h'(2) assms(3) by (auto simp: same_on_def set_tree_plug)
  with focus_frame [OF assms(1)] o q h' show ?thesis by blast
qed

end
