(* ===== verification/Agc_Rbtree_Remove.thy ===== *)
theory Agc_Rbtree_Remove
  imports Agc_Rbtree_Unlink
begin

text \<open>
  The first half of deletion as a whole: \<open>rb_delete_unlink\<close> succeeds on every node of a
  well-formed tree and leaves a tree without it that is balanced except, when the node
  taken out was black, for one missing black node above the focus.
\<close>

section \<open>Hanging a subtree below a frame\<close>

definition hang :: "rbheap \<Rightarrow> frame \<Rightarrow> addr \<Rightarrow> addr \<Rightarrow> rbheap" where
  "hang h f q par = h\<lparr>
     rleft := (if is_FL f then (rleft h)(frame_node f := q) else rleft h),
     rright := (if is_FL f then rright h else (rright h)(frame_node f := q)),
     rparent := (rparent h)(q := par)\<rparr>"

lemma hang_fields [simp]:
  "alive (hang h f q par) = alive h" "rkey (hang h f q par) = rkey h" "rcolor (hang h f q par) = rcolor h"
  "z \<noteq> frame_node f \<Longrightarrow> rleft (hang h f q par) z = rleft h z"
  "z \<noteq> frame_node f \<Longrightarrow> rright (hang h f q par) z = rright h z"
  "rparent (hang h f q par) q = par"
  "z \<noteq> q \<Longrightarrow> rparent (hang h f q par) z = rparent h z"
  by (simp_all add: hang_def)

lemma hang_same_on: "frame_node f \<notin> A \<Longrightarrow> q \<notin> A \<Longrightarrow> same_on A h (hang h f q par)"
  by (auto simp: same_on_def hang_def)

lemma hang_tree:
  assumes "tree_at h s q px t" "distinct (inorder t)" "frame_node f \<notin> set_tree t"
  shows "tree_at (hang h f q par) s q par t"
proof (rule tree_at_reparent [OF assms(1) _ assms(2)], simp, intro ballI)
  fix z assume "z \<in> set_tree t"
  with assms(3) have "z \<noteq> frame_node f" by auto
  then show "rleft (hang h f q par) z = rleft h z \<and> rright (hang h f q par) z = rright h z \<and>
      rparent (hang h f q par) z = (if z = q then par else rparent h z)" by simp
qed

lemma ptr_outside:
  "tree_at h s q par t \<Longrightarrow> s \<notin> A \<Longrightarrow> set_tree t \<inter> A = {} \<Longrightarrow> q \<notin> A"
  using tree_at_root_in by fastforce

lemma hang_focus:
  assumes "ctx_at h s root q0 par (f # c)" "tree_at h s q px t" "distinct (inorder (plug (f # c) t))" "s \<in> alive h"
  shows "focus (hang h f q (frame_node f)) s root (f # c) q t"
proof -
  let ?h = "hang h f q (frame_node f)"
  have D: "distinct (inorder t)" "ctx_distinct (f # c)" "set_tree t \<inter> ctx_set (f # c) = {}"
    using assms(3) unfolding distinct_plug by simp_all
  have "s \<notin> ctx_set (f # c)" using ctx_at_alive [OF assms(1)] by simp
  from ptr_outside [OF assms(2) this D(3)] have qo: "q \<notin> ctx_set (f # c)" .
  then have qf: "q \<noteq> frame_node f" by (auto simp: frame_set_def)
  have par: "par = frame_node f" using assms(1) by (cases f) simp_all
  have "ctx_at ?h s root q (frame_node f) (f # c)"
  proof (rule ctx_at_relink [OF assms(1) [unfolded par] D(2)])
    show "relinked h ?h root (f # c) q root"
      using qf by (cases f) (simp_all add: relinked_def hang_def)
    show "\<forall>f' c'. f # c = f' # c' \<longrightarrow> same_on (set_tree (frame_tree f') \<union> ctx_set c') h ?h"
      using ctx_distinct_top [OF D(2)] qo by (auto simp: frame_set_def intro!: hang_same_on)
  qed simp
  moreover have "tree_at ?h s q (frame_node f) t"
    using D(3) by (intro hang_tree [OF assms(2) D(1)]) (auto simp: frame_set_def)
  ultimately show ?thesis using assms(3,4) by (intro focusI) simp_all
qed

section \<open>A node with at most one child\<close>

lemma pick_one:
  assumes "focus h s root c a \<langle>l, a, r\<rangle>" "l = \<langle>\<rangle> \<or> r = \<langle>\<rangle>"
  shows "\<exists>q t. rb_delete_pick h s a = Some (q, a) \<and> tree_at h s q a t \<and>
     inorder t = inorder l @ inorder r \<and> t \<in> {l, r}"
proof -
  note N = focus_node [OF assms(1)]
  show ?thesis
  proof (cases "l = \<langle>\<rangle>")
    case True
    then have "rb_delete_pick h s a = Some (rright h a, a)"
      using N by (simp add: rb_delete_pick_def agc_heap)
    with True N(6) show ?thesis by auto
  next
    case False
    then have "rb_delete_pick h s a = Some (rleft h a, a)" "r = \<langle>\<rangle>"
      using N assms(2) tree_at_root [OF N(5)] tree_at_root [OF N(6)]
      by (auto simp: rb_delete_pick_def agc_heap)
    with N(5) show ?thesis by auto
  qed
qed


lemma unlink_one:
  assumes "focus h s root (f # c) a \<langle>l, a, r\<rangle>" "l = \<langle>\<rangle> \<or> r = \<langle>\<rangle>"
  shows "\<exists>h' q t. rb_delete_unlink h root s a = Some (h', root, if red_in h a then None else Some q) \<and>
     focus h' s root (f # c) q t \<and> alive h' = alive h \<and> rcolor h' = rcolor h \<and> rkey h' = (rkey h)(a := 0) \<and>
     inorder t = inorder l @ inorder r \<and> t \<in> {l, r}"
proof -
  note N = focus_node [OF assms(1)]
  from pick_one [OF assms] obtain q t where
    pk: "rb_delete_pick h s a = Some (q, a)" and t: "tree_at h s q a t" "inorder t = inorder l @ inorder r" "t \<in> {l, r}"
    by blast
  let ?h = "hang h f q (frame_node f)"
  have sub: "set_tree t \<subseteq> set_tree l \<union> set_tree r" using t(3) by auto
  have "distinct (inorder (plug (f # c) t))"
    using N(11-16) t(3) unfolding distinct_plug by auto
  from hang_focus [OF N(7) t(1) this N(4)] have fo: "focus ?h s root (f # c) q t" .
  have na: "a \<notin> set_tree (plug (f # c) t)" using N(8-10) sub unfolding set_tree_plug by auto
  from clear_node_focus [OF fo _ na N(3)] N(2) obtain h' where
    cl: "rb_clear_node ?h a = Some h'" "focus h' s root (f # c) q t" "alive h' = alive h"
    "rcolor h' = rcolor h" "rkey h' = (rkey h)(a := 0)" by auto
  have p: "rparent h a = frame_node f" "frame_node f \<in> alive h" "a \<noteq> root"
    "rleft h (frame_node f) = a \<longleftrightarrow> is_FL f"
    using focus_child [OF N(7,3,10) refl] by simp_all
  have q: "q \<in> alive h" using tree_child_alive [OF t(1) N(4)] .
  have "rb_delete_unlink h root s a = Some (h', root, if red_in h a then None else Some q)"
    using pk p q N(2) cl(1) by (cases f) (auto simp: rb_delete_unlink_def agc_heap hang_def)
  with cl t show ?thesis by blast
qed

lemma unlink_root_one:
  assumes "focus h s root [] a \<langle>l, a, r\<rangle>" "l = \<langle>\<rangle> \<or> r = \<langle>\<rangle>"
  shows "\<exists>h' q t. rb_delete_unlink h root s a = Some (h', q, None) \<and>
     tree_at h' s q a t \<and> alive h' = alive h \<and> rcolor h' = (rcolor h)(q := 0) \<and> rkey h' = (rkey h)(a := 0) \<and>
     rparent h' s = rparent h s \<and> inorder t = inorder l @ inorder r \<and> t \<in> {l, r}"
proof -
  note N = focus_node [OF assms(1)]
  from pick_one [OF assms] obtain q t where
    pk: "rb_delete_pick h s a = Some (q, a)" and t: "tree_at h s q a t" "inorder t = inorder l @ inorder r" "t \<in> {l, r}"
    by blast
  let ?h = "h\<lparr>rcolor := (rcolor h)(q := 0)\<rparr>"
  have a: "a \<in> alive ?h" using N(2) by simp
  from clear_node_writes [OF a] obtain h' where
    cl: "rb_clear_node ?h a = Some h'" "alive h' = alive h" "rcolor h' = rcolor ?h" "rkey h' = (rkey h)(a := 0)"
    "\<forall>z. z \<noteq> a \<longrightarrow> rleft h' z = rleft h z \<and> rright h' z = rright h z \<and> rparent h' z = rparent h z" by auto
  have "same_on (set_tree t) h h'" using cl(2,5) N(8,9) t(3) by (auto simp: same_on_def)
  then have "tree_at h' s q a t" by (rule tree_at_frame [OF t(1)])
  moreover have "a = root" using N(7) by simp
  then have "rb_delete_unlink h root s a = Some (h', q, None)"
    using pk cl(1) tree_child_alive [OF t(1) N(4)] by (simp add: rb_delete_unlink_def agc_heap)
  ultimately show ?thesis using cl t N(3) by auto
qed

section \<open>A node with two children\<close>

lemma ctx_set_append [simp]: "ctx_set (c @ d) = ctx_set c \<union> ctx_set d"
  by (induction c) auto

lemma swap_ctx:
  fixes R :: "addr \<Rightarrow> bool"
  assumes "m \<noteq> a" "m \<notin> ctx_set cs" "m \<notin> set_tree l" "m \<notin> ctx_set c"
  defines "R' \<equiv> R(m := R a)"
  shows "cbal R' (cs @ FR l m # c) n \<longleftrightarrow> cbal R (cs @ FR l a # c) n"
    "ctop_red R' (cs @ FR l m # c) \<longleftrightarrow> ctop_red R (cs @ FR l a # c)"
    "ccol R' (cs @ FR l m # c) \<longleftrightarrow> ccol R (cs @ FR l a # c)"
    "croot_black R' (cs @ FR l m # c) \<longleftrightarrow> croot_black R (cs @ FR l a # c)"
proof -
  have t: "ctop_red R' (cs @ FR l m # c) \<longleftrightarrow> ctop_red R (cs @ FR l a # c)" if "m \<notin> ctx_set cs" for cs
    using that by (cases cs) (auto simp: R'_def frame_set_def)
  show "ctop_red R' (cs @ FR l m # c) \<longleftrightarrow> ctop_red R (cs @ FR l a # c)" using assms(2) by (rule t)
  have fr: "m \<noteq> frame_node f" "m \<notin> set_tree (frame_tree f)" if "m \<notin> frame_set f" for f
    using that by (auto simp: frame_set_def)
  show "cbal R' (cs @ FR l m # c) n \<longleftrightarrow> cbal R (cs @ FR l a # c) n"
    using assms(2) by (induction cs arbitrary: n) (use assms(3,4) fr in \<open>auto simp: R'_def\<close>)
  show "ccol R' (cs @ FR l m # c) \<longleftrightarrow> ccol R (cs @ FR l a # c)"
    using assms(2) by (induction cs) (use assms(3,4) fr t in \<open>auto simp: R'_def\<close>)
  show "croot_black R' (cs @ FR l m # c) \<longleftrightarrow> croot_black R (cs @ FR l a # c)"
    using assms(4) by (cases c rule: rev_cases) (auto simp: R'_def croot_black_def frame_set_def)
qed


text \<open>The in-order successor of a node with two children, as a focus of its own.\<close>

lemma successor_focus:
  assumes "focus h s root c a \<langle>l, a, r\<rangle>" "r = plug cs \<langle>\<langle>\<rangle>, m, mr\<rangle>"
  shows "focus h s root (cs @ FR l a # c) m \<langle>\<langle>\<rangle>, m, mr\<rangle>"
    "\<exists>par. ctx_at h s (rright h a) m par cs"
proof -
  note N = focus_node [OF assms(1)]
  have "\<exists>q par. ctx_at h s (rright h a) q par cs \<and> tree_at h s q par \<langle>\<langle>\<rangle>, m, mr\<rangle>"
    using tree_at_plug N(6) unfolding assms(2) by blast
  then obtain par where p: "ctx_at h s (rright h a) m par cs" "tree_at h s m par \<langle>\<langle>\<rangle>, m, mr\<rangle>" by auto
  then show "\<exists>par. ctx_at h s (rright h a) m par cs" by blast
  have "focus h s root c a (plug (cs @ [FR l a]) \<langle>\<langle>\<rangle>, m, mr\<rangle>)"
    using assms by (simp add: plug_append)
  from focus_down_path [OF this _ _ p(2)] show "focus h s root (cs @ FR l a # c) m \<langle>\<langle>\<rangle>, m, mr\<rangle>" by simp
qed

lemma hang_successor:
  assumes "focus h s root c a \<langle>l, a, r\<rangle>" "r = plug cs \<langle>\<langle>\<rangle>, m, mr\<rangle>"
  defines "F \<equiv> hd (cs @ [FR l a])" and "q \<equiv> rright h m"
  defines "h1 \<equiv> hang h F q (if cs = [] then m else frame_node F)"
  shows "ctx_at h1 s root a (rparent h1 a) c" "tree_at h1 s (rleft h1 a) a l"
    "\<exists>px. tree_at h1 s (rright h1 a) px (plug cs mr)" "mr = \<langle>\<rangle> \<Longrightarrow> rparent h1 s = frame_node (hd (cs @ [FR l m]))"
proof -
  note N = focus_node [OF assms(1)]
  note M = focus_node [OF successor_focus(1) [OF assms(1,2)]]
  from successor_focus(2) [OF assms(1,2)] obtain par where cp: "ctx_at h s (rright h a) m par cs" by blast
  have tq: "tree_at h s q m mr" using M(6) by (simp add: q_def)
  have sc: "s \<notin> ctx_set c" "s \<notin> set_tree l" using ctx_at_alive [OF N(7)] tree_at_alive [OF N(5)] by simp_all
  have rs: "set_tree r = ctx_set cs \<union> insert m (set_tree mr)" unfolding assms(2) set_tree_plug by auto
  have qo: "q \<notin> ctx_set c" "q \<notin> set_tree l" "q \<noteq> a"
    using ptr_outside [OF tq, of "ctx_set c"] ptr_outside [OF tq, of "set_tree l"] ptr_outside [OF tq, of "{a}"]
      sc N(3,9,11,13) rs by auto
  have F: "cs = [] \<Longrightarrow> F = FR l a" "cs \<noteq> [] \<Longrightarrow> frame_node F \<in> ctx_set cs" "cs \<noteq> [] \<Longrightarrow> \<exists>cs'. cs = F # cs'"
    by (cases cs; auto simp: F_def frame_set_def)+
  have Fo: "frame_node F \<notin> ctx_set c" "frame_node F \<notin> set_tree l" "cs \<noteq> [] \<Longrightarrow> frame_node F \<noteq> a"
    using F N(8-13) rs by (cases "cs = []"; auto)+
  have pa: "rparent h1 a = rparent h a" using qo(3) by (simp add: h1_def)
  have la: "rleft h1 a = rleft h a" using F(1) Fo(3) by (cases "cs = []") (auto simp: h1_def hang_def)
  show "ctx_at h1 s root a (rparent h1 a) c"
    using ctx_at_frame [OF N(7)] hang_same_on [OF Fo(1) qo(1)] pa by (simp add: h1_def)
  show "tree_at h1 s (rleft h1 a) a l"
    using tree_at_frame [OF N(5)] hang_same_on [OF Fo(2) qo(2)] la by (simp add: h1_def)
  show "mr = \<langle>\<rangle> \<Longrightarrow> rparent h1 s = frame_node (hd (cs @ [FR l m]))"
    using tq by (cases cs) (simp_all add: h1_def F_def)
  have d: "distinct (inorder (plug cs mr))" "distinct (inorder mr)"
    using N(15) M(14,15) unfolding assms(2) distinct_plug by auto
  show "\<exists>px. tree_at h1 s (rright h1 a) px (plug cs mr)"
  proof (cases "cs = []")
    case True
    have "tree_at (hang h F q m) s q m mr"
      using F(1) [OF True] N(9) rs by (intro hang_tree [OF tq d(2)]) simp
    with True F(1) show ?thesis by (auto simp: h1_def hang_def)
  next
    case False
    then obtain cs' where c': "cs = F # cs'" using F(3) by blast
    have "focus h1 s (rright h a) cs q mr"
      using hang_focus [OF cp [unfolded c'] tq d(1) [unfolded c'] N(4)] c' by (simp add: h1_def)
    from focus_whole [OF this] Fo(3) [OF False] show ?thesis by (simp add: h1_def)
  qed
qed

lemma unlink_two:
  assumes "focus h s root c a \<langle>l, a, r\<rangle>" "l \<noteq> \<langle>\<rangle>" "r \<noteq> \<langle>\<rangle>"
  shows "\<exists>h' root' q cs m mr. rb_delete_unlink h root s a = Some (h', root', if red_in h m then None else Some q) \<and>
     r = plug cs \<langle>\<langle>\<rangle>, m, mr\<rangle> \<and> (\<forall>f \<in> set cs. is_FL f) \<and> focus h' s root' (cs @ FR l m # c) q mr \<and> alive h' = alive h \<and>
     rcolor h' = (rcolor h)(m := rcolor h a) \<and> rkey h' = (rkey h)(a := 0)"
proof -
  note N = focus_node [OF assms(1)]
  from rb_min_path [OF N(6) assms(3)] obtain m mr cs where
    mn: "agc_rbtree_min h (rright h a) s = Some m" and r: "r = plug cs \<langle>\<langle>\<rangle>, m, mr\<rangle>" and fl: "\<forall>f \<in> set cs. is_FL f" by blast
  note fm = successor_focus(1) [OF assms(1) r]
  note M = focus_node [OF fm]
  define F q where "F = hd (cs @ [FR l a])" and "q = rright h m"
  define h1 where "h1 = hang h F q (if cs = [] then m else frame_node F)"
  note H = hang_successor [OF assms(1) r, folded F_def q_def, folded h1_def]
  have rs: "set_tree r = ctx_set cs \<union> insert m (set_tree mr)" unfolding r set_tree_plug by auto
  have ma: "m \<noteq> a" using N(9) rs by auto
  obtain C where FC: "cs @ FR l a # c = F # C" by (cases cs) (simp_all add: F_def)
  have p: "rparent h m = frame_node F" "frame_node F \<in> alive h" "m \<noteq> root"
    "rleft h (frame_node F) = m \<longleftrightarrow> is_FL F" using focus_child [OF M(7,3,10) FC] by simp_all
  have fa: "frame_node F = a \<longleftrightarrow> cs = []" using N(9) rs by (cases cs) (auto simp: F_def frame_set_def)
  have tq: "tree_at h s q m mr" using M(6) by (simp add: q_def)
  have qa: "q \<in> alive h" using tree_child_alive [OF tq N(4)] .
  have d0: "distinct (inorder (plug c \<langle>l, a, r\<rangle>))" using assms(1) by (simp add: focus_def)
  have d: "distinct (inorder (plug c \<langle>l, a, plug cs mr\<rangle>))" "m \<notin> set_tree (plug c \<langle>l, a, plug cs mr\<rangle>)"
    using d0 ma unfolding r distinct_plug set_tree_plug by (auto simp: inorder_plug set_tree_plug set_pre_post [symmetric])
  obtain px where H3: "tree_at h1 s (rright h1 a) px (plug cs mr)" using H(3) by blast
  have al: "a \<in> alive h1" "s \<in> alive h1" "m \<in> alive h1" using N(2,4) M(2) by (simp_all add: h1_def)
  from transplant_focus [OF H(1,2) H3 al(1) N(3) al(2,3) M(3) ma d] obtain h2 root' where
    tp: "rb_transplant h1 root s a m = Some (h2, root')" and f2: "focus h2 s root' c m \<langle>l, m, plug cs mr\<rangle>"
    and k2: "rparent h2 s = rparent h1 s" "kept h1 h2" "rcolor h2 = (rcolor h1)(m := rcolor h1 a)" by blast
  have "focus h2 s root' ((cs @ [FR l m]) @ c) q mr"
    using f2 H(4) k2(1) tq by (intro focus_down_path [where par = m and h' = h]) (simp_all add: plug_append)
  then have fq: "focus h2 s root' (cs @ FR l m # c) q mr" by simp
  have "a \<notin> set_tree (plug (cs @ FR l m # c) mr)"
    using d0 ma N(8-10) rs unfolding set_tree_plug by auto
  from clear_node_focus [OF fq _ this N(3)] k2(2) N(2) obtain h' where
    cl: "rb_clear_node h2 a = Some h'" "focus h' s root' (cs @ FR l m # c) q mr" "alive h' = alive h"
    "rcolor h' = rcolor h2" "rkey h' = (rkey h)(a := 0)" by (auto simp: kept_def h1_def)
  have "rb_delete_unlink h root s a = Some (h', root', if red_in h m then None else Some q)"
  proof -
    have pk: "rb_delete_pick h s a = Some (q, m)"
      using N mn M tree_at_root [OF N(5)] tree_at_root [OF N(6)] assms(2,3)
      by (simp add: rb_delete_pick_def agc_heap q_def)
    show ?thesis
      using pk p qa M(2) tp cl(1) fa ma
      by (cases F; cases "cs = []") (simp_all add: rb_delete_unlink_def agc_heap h1_def hang_def)
  qed
  with cl r fl k2 show ?thesis by (auto simp: h1_def)
qed

end
