(* ===== verification/Agc_Rbtree_Delete.thy ===== *)
theory Agc_Rbtree_Delete
  imports Agc_Rbtree_Remove
begin

text \<open>
  The second half of deletion: the fixup loop ends, dereferences only nodes of the tree
  and moves the missing black node up until the tree is red-black again. The sentinel may
  be the focus, so its parent field is followed through every rotation.
\<close>

section \<open>The invariant of the fixup loop\<close>

text \<open>
  One black node is missing on the paths through the focus; the focus itself may be red
  below a red parent, since the loop paints it black on the way out.
\<close>

definition del_col :: "(addr \<Rightarrow> bool) \<Rightarrow> frame list \<Rightarrow> addr \<Rightarrow> addr tree \<Rightarrow> bool" where
  "del_col R c q t \<longleftrightarrow> col_ok (R(q := False)) t \<and> bal R t \<and> cbal R c (Suc (bh R t)) \<and> ccol R c \<and> croot_black R c"

definition del_inv :: "rbheap \<Rightarrow> addr \<Rightarrow> addr \<Rightarrow> frame list \<Rightarrow> addr \<Rightarrow> addr tree \<Rightarrow> bool" where
  "del_inv h s root c q t \<longleftrightarrow> focus h s root c q t \<and> \<not> red_in h s \<and> del_col (red_in h) c q t"

lemma tree_at_cases: "tree_at h s q par t \<Longrightarrow> t = \<langle>\<rangle> \<and> q = s \<or> (\<exists>l r. t = \<langle>l, q, r\<rangle>)"
  by (cases t) auto

lemma focus_ptr: "focus h s root c q t \<Longrightarrow> t = \<langle>\<rangle> \<and> q = s \<or> (\<exists>l r. t = \<langle>l, q, r\<rangle>)"
  unfolding focus_def using tree_at_cases by blast

lemma bh_pos_node: "0 < bh R t \<Longrightarrow> \<exists>l a r. t = \<langle>l, a, r\<rangle>"
  by (cases t) auto

lemma col_ok_paint: "col_ok R t \<Longrightarrow> distinct (inorder t) \<Longrightarrow> t = \<langle>\<rangle> \<or> (\<exists>l r. t = \<langle>l, q, r\<rangle>) \<Longrightarrow> col_ok (R(q := False)) t"
  by (cases t) auto

lemma recolor_under: "a \<notin> set_tree t \<Longrightarrow> col_ok (R(a := v, q := b)) t = col_ok (R(q := b)) t"
proof (cases "q = a")
  case False
  assume "a \<notin> set_tree t"
  with False show ?thesis using fun_upd_twist [of a q R v b] by simp
qed simp

lemma focus_whole_root:
  assumes "focus h s root c a \<langle>l, a, r\<rangle>"
  shows "focus h s root [] root (plug c \<langle>l, a, r\<rangle>)"
proof -
  from focus_whole [OF assms] obtain par where t: "tree_at h s root par (plug c \<langle>l, a, r\<rangle>)" by blast
  have "plug c \<langle>l, a, r\<rangle> \<noteq> \<langle>\<rangle>" by (simp add: plug_Leaf_iff)
  then have "rparent h root = par" using t by (cases "plug c \<langle>l, a, r\<rangle>") auto
  with t assms show ?thesis by (simp add: focus_def)
qed

text \<open>Nothing is missing any more: the whole tree is red-black.\<close>

definition del_good :: "(addr \<Rightarrow> bool) \<Rightarrow> frame list \<Rightarrow> addr tree \<Rightarrow> bool" where
  "del_good R c t \<longleftrightarrow> col_ok R t \<and> bal R t \<and> cbal R c (bh R t) \<and> ccol R c \<and> (ctop_red R c \<longrightarrow> \<not> top_red R t)"

lemma del_good_plug: "del_good R c t \<longleftrightarrow> col_ok R (plug c t) \<and> bal R (plug c t)"
  unfolding del_good_def bal_plug col_plug by blast

lemma del_done:
  assumes "focus h s root c a \<langle>l, a, r\<rangle>" "\<not> red_in h s" "del_good (red_in h) c \<langle>l, a, r\<rangle>"
  shows "del_inv h s root [] root (plug c \<langle>l, a, r\<rangle>)"
proof -
  let ?t = "plug c \<langle>l, a, r\<rangle>"
  have f: "focus h s root [] root ?t" by (rule focus_whole_root [OF assms(1)])
  then have d: "distinct (inorder ?t)" by (simp add: focus_def)
  have g: "col_ok (red_in h) ?t" "bal (red_in h) ?t" using assms(3) unfolding del_good_plug by simp_all
  from col_ok_paint [OF g(1) d] focus_ptr [OF f] have "col_ok ((red_in h)(root := False)) ?t" by blast
  then show ?thesis using f g(2) assms(2) by (simp add: del_inv_def del_col_def)
qed

section \<open>The focus is a left child\<close>

lemma focus_into_left:
  assumes "focus h s root (FL p r # c) q t" "focus h' s root' c' p \<langle>t, p, r'\<rangle>" "rparent h' s = rparent h s"
  shows "focus h' s root' (FL p r' # c') q t"
proof -
  have q: "rparent h q = p" "tree_at h s q (rparent h q) t" using assms(1) by (simp add: focus_def, simp only: focus_def)
  have "focus h' s root' (FL p r' # c') (rleft h' p) t"
    using focus_downL [OF assms(2)] q assms(3) by (cases t) auto
  moreover have "tree_at h' s (rleft h' p) p t" using focus_node(5) [OF assms(2)] .
  then have "rleft h' p = q" using q(2) by (cases t) auto
  ultimately show ?thesis by simp
qed

lemma del_col_sibling_left:
  assumes "del_col R (FL p \<langle>wl, w, wr\<rangle> # c) q t" "R w" "distinct (inorder (plug (FL p \<langle>wl, w, wr\<rangle> # c) t))"
  shows "\<not> R p" "\<not> top_red R wl" "\<exists>x y z. wl = \<langle>x, y, z\<rangle>"
    "del_col (R(w := False, p := True)) (FL p wl # FL w wr # c) q t"
proof -
  have d: "p \<notin> set_tree t" "w \<notin> set_tree t" "p \<notin> set_tree wl" "w \<notin> set_tree wl" "p \<notin> set_tree wr"
    "w \<notin> set_tree wr" "p \<noteq> w" "p \<notin> ctx_set c" "w \<notin> ctx_set c"
    using assms(3) unfolding distinct_plug by auto
  show "\<not> R p" "\<not> top_red R wl" using assms(1,2) by (auto simp: del_col_def)
  show "\<exists>x y z. wl = \<langle>x, y, z\<rangle>"
    using assms(1,2) by (intro bh_pos_node [of R]) (auto simp: del_col_def)
  have cr: "croot_black R c" using assms(1) croot_black_tl unfolding del_col_def by blast
  have "croot_black (R(w := False, p := True)) (FL p wl # FL w wr # c)"
    using d cr by (cases c) auto
  moreover have "col_ok ((R(w := False, p := True))(q := False)) t"
    using assms(1) d by (simp add: del_col_def recolor_under)
  ultimately show "del_col (R(w := False, p := True)) (FL p wl # FL w wr # c) q t"
    using assms(1,2) d by (auto simp: del_col_def)
qed

lemma delete_sibling_left:
  assumes "del_inv h s root (FL p r # c) q t" "\<not> red_in h q"
  shows "\<exists>h' root' wl w wr c'. rb_sibling_left h root s q = Some (h', root', w) \<and>
     del_inv h' s root' (FL p \<langle>wl, w, wr\<rangle> # c') q t \<and> \<not> red_in h' w \<and> \<not> red_in h' q \<and> kept h h' \<and>
     inorder (plug (FL p \<langle>wl, w, wr\<rangle> # c') t) = inorder (plug (FL p r # c) t) \<and>
     (c' = c \<or> red_in h' p)"
proof -
  let ?R = "red_in h"
  have fo: "focus h s root (FL p r # c) q t" and ns: "\<not> ?R s" and co: "del_col ?R (FL p r # c) q t"
    using assms(1) by (simp_all add: del_inv_def)
  have "0 < bh ?R r" using co by (simp add: del_col_def)
  then obtain wl0 w wr where "r = \<langle>wl0, w, wr\<rangle>" using bh_pos_node by blast
  then obtain wl wr where r: "r = \<langle>wl, w, wr\<rangle>" by blast
  note U = focus_upL [OF fo [unfolded r]]
  note N = focus_node [OF conjunct1 [OF U]]
  have pq: "rparent h q = p" "rright h p = w" "w \<in> alive h" "q \<in> alive h" "w \<noteq> s" "w \<noteq> p"
    using U N(5,6) N(8,9) focus_alive [OF fo] by auto
  show ?thesis
  proof (cases "?R w")
    case False
    then have "rb_sibling_left h root s q = Some (h, root, w)"
      using pq N(2) by (simp add: rb_sibling_left_def agc_heap)
    with False assms r show ?thesis by (metis kept_refl)
  next
    case True
    have di: "distinct (inorder (plug (FL p \<langle>wl, w, wr\<rangle> # c) t))" using fo r by (simp add: focus_def)
    note C = del_col_sibling_left [OF co [unfolded r] True di]
    from C(3) obtain x y z where wl: "wl = \<langle>x, y, z\<rangle>" by blast
    let ?h = "h\<lparr>rcolor := (rcolor h)(w := 0, p := 1)\<rparr>"
    have "focus ?h s root c p \<langle>t, p, \<langle>wl, w, wr\<rangle>\<rangle>" using U by simp
    from left_rotate_focus [OF this] obtain h2 root2 where
      ev: "agc_rbtree_left_rotate ?h root s p = Some (h2, root2)" and
      f2: "focus h2 s root2 c w \<langle>\<langle>t, p, wl\<rangle>, w, wr\<rangle>" and k2: "rot_kept ?h h2 s" by blast
    have sp: "rparent h2 s = rparent h s" using k2 by (simp add: rot_kept_def)
    have f2p: "focus h2 s root2 (FL w wr # c) p \<langle>t, p, wl\<rangle>"
      using focus_downL [OF f2] focus_node(5) [OF f2] by simp
    have f3: "focus h2 s root2 (FL p wl # FL w wr # c) q t"
      by (rule focus_into_left [OF fo f2p sp])
    have R2: "red_in h2 = ?R(w := False, p := True)" using rot_kept_red [OF k2] by simp
    note M = focus_node [OF f2p]
    have yp: "rright h2 p = y" "y \<noteq> w" "y \<noteq> p" using M(6) M(8,9) focus_node(8,9) [OF f2] wl by auto
    have "rb_sibling_left h root s q = Some (h2, root2, y)"
      using pq N(2) True ev focus_alive [OF f3] M(2) focus_upL [OF f3] yp
      by (simp add: rb_sibling_left_def agc_heap)
    moreover have "del_inv h2 s root2 (FL p \<langle>x, y, z\<rangle> # FL w wr # c) q t"
      using f3 C(4) R2 ns pq(5) N(3) wl by (simp add: del_inv_def)
    moreover have "q \<noteq> p" using focus_ptr [OF fo] N(3,8,9) by auto
    then have "\<not> red_in h2 y" "red_in h2 p" "\<not> red_in h2 q" using C(2) yp R2 wl assms(2) by simp_all
    moreover have "kept h h2" using rot_kept_kept [OF k2] by (simp add: kept_recolor)
    moreover have "inorder (plug (FL p \<langle>x, y, z\<rangle> # FL w wr # c) t) = inorder (plug (FL p r # c) t)"
      unfolding r wl by (simp add: inorder_plug)
    ultimately show ?thesis by metis
  qed
qed

lemma del_col_fix_left:
  assumes "del_col R (FL p \<langle>wl, w, wr\<rangle> # c) q t" "\<not> R w" "\<not> R q" "t = \<langle>\<rangle> \<or> (\<exists>l r. t = \<langle>l, q, r\<rangle>)"
    "distinct (inorder (plug (FL p \<langle>wl, w, wr\<rangle> # c) t))"
  shows "\<not> top_red R wl \<Longrightarrow> \<not> top_red R wr \<Longrightarrow> del_col (R(w := True)) c p \<langle>t, p, \<langle>wl, w, wr\<rangle>\<rangle>"
    "wr = \<langle>a, b, e\<rangle> \<Longrightarrow> R b \<Longrightarrow> del_good (R(w := R p, p := False, b := False)) c \<langle>\<langle>t, p, wl\<rangle>, w, wr\<rangle>"
    "wl = \<langle>x, y, z\<rangle> \<Longrightarrow> R y \<Longrightarrow> \<not> top_red R wr \<Longrightarrow>
       del_good (R(y := R p, p := False, w := False)) c \<langle>\<langle>t, p, x\<rangle>, y, \<langle>z, w, wr\<rangle>\<rangle>"
proof -
  have d: "p \<notin> set_tree t" "w \<notin> set_tree t" "p \<notin> set_tree wl" "w \<notin> set_tree wl" "p \<notin> set_tree wr"
    "w \<notin> set_tree wr" "p \<noteq> w" "p \<notin> ctx_set c" "w \<notin> ctx_set c" "set_tree wl \<inter> set_tree t = {}" "set_tree wr \<inter> set_tree t = {}"
    "set_tree wl \<inter> set_tree wr = {}" "set_tree wl \<inter> ctx_set c = {}" "set_tree wr \<inter> ctx_set c = {}"
    "distinct (inorder wl)" "distinct (inorder wr)"
    using assms(5) unfolding distinct_plug by auto
  have "R(q := False) = R" using assms(3) by (intro ext) simp
  then have t: "col_ok R t" "\<not> top_red R t" using assms(1,3,4) by (auto simp: del_col_def)
  have cr: "croot_black R c" using assms(1) croot_black_tl unfolding del_col_def by blast
  show "del_col (R(w := True)) c p \<langle>t, p, \<langle>wl, w, wr\<rangle>\<rangle>" if "\<not> top_red R wl" "\<not> top_red R wr"
    using assms(1,2) that d t cr by (cases "R p") (auto simp: del_col_def)
  show "del_good (R(w := R p, p := False, b := False)) c \<langle>\<langle>t, p, wl\<rangle>, w, wr\<rangle>" if "wr = \<langle>a, b, e\<rangle>" "R b"
    using assms(1,2) that d t by (auto simp: del_col_def del_good_def)
  show "del_good (R(y := R p, p := False, w := False)) c \<langle>\<langle>t, p, x\<rangle>, y, \<langle>z, w, wr\<rangle>\<rangle>"
    if "wl = \<langle>x, y, z\<rangle>" "R y" "\<not> top_red R wr"
    using assms(1,2) that d t by (auto simp: del_col_def del_good_def)
qed

lemma delete_fix_left:
  assumes "del_inv h s root (FL p \<langle>wl, w, wr\<rangle> # c) q t" "\<not> red_in h w" "\<not> red_in h q"
  shows "\<exists>h' root' q' c' t'. rb_fix_left h root s q w = Some (h', root', q') \<and>
     del_inv h' s root' c' q' t' \<and> kept h h' \<and> inorder (plug c' t') = inorder (plug (FL p \<langle>wl, w, wr\<rangle> # c) t) \<and>
     (c' = [] \<or> c' = c \<and> q' = p \<and> (red_in h p \<longrightarrow> red_in h' p))"
proof -
  let ?R = "red_in h"
  have fo: "focus h s root (FL p \<langle>wl, w, wr\<rangle> # c) q t" and ns: "\<not> ?R s" and co: "del_col ?R (FL p \<langle>wl, w, wr\<rangle> # c) q t"
    using assms(1) by (simp_all add: del_inv_def)
  have di: "distinct (inorder (plug (FL p \<langle>wl, w, wr\<rangle> # c) t))" using fo by (simp add: focus_def)
  have qt: "t = \<langle>\<rangle> \<or> (\<exists>l r. t = \<langle>l, q, r\<rangle>)" using focus_ptr [OF fo] by blast
  note C = del_col_fix_left [OF co assms(2,3) qt di]
  note U = conjunct1 [OF focus_upL [OF fo]]
  note N = focus_node [OF U]
  have fw: "focus h s root (FR t p # c) w \<langle>wl, w, wr\<rangle>"
    using focus_downR [OF U] N(6) by simp
  note W = focus_node [OF fw]
  have pq: "rparent h q = p" "q \<in> alive h" "w \<noteq> p" "p \<noteq> w"
    using focus_upL [OF fo] focus_alive [OF fo] N(8,9) by auto
  have ch: "rleft h w \<in> alive h" "rright h w \<in> alive h" using W(5,6) tree_child_alive [OF _ N(4)] by blast+
  have cred: "?R (rleft h w) \<longleftrightarrow> top_red ?R wl" "?R (rright h w) \<longleftrightarrow> top_red ?R wr"
    using top_red_ptr [OF W(5) ns] top_red_ptr [OF W(6) ns] by simp_all
  have both: "rb_children_black h w = Some (\<not> top_red ?R wl \<and> \<not> top_red ?R wr)"
    using ch W(2) cred by (auto simp: rb_children_black_def agc_heap)
  consider (black) "\<not> top_red ?R wl" "\<not> top_red ?R wr" | (outer) "top_red ?R wr" | (inner) "top_red ?R wl" "\<not> top_red ?R wr"
    by blast
  then show ?thesis
  proof cases
    case black
    let ?h = "h\<lparr>rcolor := (rcolor h)(w := 1)\<rparr>"
    have "rb_fix_left h root s q w = Some (?h, root, p)"
      using black both W(2) pq by (simp add: rb_fix_left_def agc_heap)
    moreover have "del_inv ?h s root c p \<langle>t, p, \<langle>wl, w, wr\<rangle>\<rangle>"
      using U C(1) [OF black] ns W(3) by (simp add: del_inv_def)
    ultimately show ?thesis by (fastforce simp: kept_recolor inorder_plug)
  next
    case outer
    then obtain a b e where wr: "wr = \<langle>a, b, e\<rangle>" by (cases wr) auto
    have b: "rright h w = b" "b \<in> alive h" "b \<noteq> w" "b \<noteq> p" "b \<noteq> s" "?R b"
      using W(6,8,9) N(8,9) wr outer by auto
    let ?h = "h\<lparr>rcolor := (rcolor h)(w := rcolor h p, p := 0, b := 0)\<rparr>"
    have Rh: "red_in ?h = ?R(w := ?R p, p := False, b := False)"
      by (rule ext) (simp add: red_in_def)
    have "focus ?h s root c p \<langle>t, p, \<langle>wl, w, wr\<rangle>\<rangle>" using U by simp
    from left_rotate_focus [OF this] obtain h2 root2 where
      ev: "agc_rbtree_left_rotate ?h root s p = Some (h2, root2)" and
      f2: "focus h2 s root2 c w \<langle>\<langle>t, p, wl\<rangle>, w, wr\<rangle>" and k2: "rot_kept ?h h2 s" by blast
    have R2: "red_in h2 = ?R(w := ?R p, p := False, b := False)" using rot_kept_red [OF k2] Rh by simp
    have "rb_fix_left h root s q w = Some (h2, root2, root2)"
      using outer both cred b pq W(2) N(2) ch ev by (simp add: rb_fix_left_def agc_heap)
    moreover have "del_inv h2 s root2 [] root2 (plug c \<langle>\<langle>t, p, wl\<rangle>, w, wr\<rangle>)"
      using del_done [OF f2] C(2) [OF wr b(6)] R2 ns b(5) W(3) N(3) by simp
    moreover have "kept h h2" using rot_kept_kept [OF k2] by (simp add: kept_recolor)
    ultimately show ?thesis by (fastforce simp: inorder_plug)
  next
    case inner
    then obtain x y z where wl: "wl = \<langle>x, y, z\<rangle>" by (cases wl) auto
    have y: "rleft h w = y" "y \<in> alive h" "y \<noteq> w" "y \<noteq> p" "y \<noteq> s" "?R y"
      using W(5,8,9) N(8,9) wl inner by auto
    let ?h1 = "h\<lparr>rcolor := (rcolor h)(y := 0, w := 1)\<rparr>"
    have "focus ?h1 s root (FR t p # c) w \<langle>\<langle>x, y, z\<rangle>, w, wr\<rangle>" using fw wl by simp
    from right_rotate_focus [OF this] obtain h2 root2 where
      ev2: "agc_rbtree_right_rotate ?h1 root s w = Some (h2, root2)" and
      f2: "focus h2 s root2 (FR t p # c) y \<langle>x, y, \<langle>z, w, wr\<rangle>\<rangle>" and k2: "rot_kept ?h1 h2 s" by blast
    note U2 = focus_upR [OF f2]
    note Y = focus_node [OF f2]
    have sp: "rparent h2 s = rparent h s" using k2 by (simp add: rot_kept_def)
    have fq: "focus h2 s root2 (FL p \<langle>x, y, \<langle>z, w, wr\<rangle>\<rangle> # c) q t"
      by (rule focus_into_left [OF fo conjunct1 [OF U2] sp])
    have q2: "rparent h2 q = p" "q \<in> alive h2" "p \<in> alive h2" "rright h2 p = y" "y \<in> alive h2"
      "rright h2 y = w" "w \<in> alive h2"
      using focus_upL [OF fq] focus_alive [OF fq] U2 focus_alive [OF conjunct1 [OF U2]] Y by auto
    let ?h3 = "h2\<lparr>rcolor := (rcolor h2)(y := rcolor h2 p, p := 0, w := 0)\<rparr>"
    have c2: "rcolor h2 = (rcolor h)(y := 0, w := 1)" using k2 by (simp add: rot_kept_def same_data_def)
    have Rh: "red_in ?h3 = ?R(y := ?R p, p := False, w := False)"
      using y(3,4) pq(3,4) by (intro ext) (simp add: red_in_def c2)
    have "focus ?h3 s root2 c p \<langle>t, p, \<langle>x, y, \<langle>z, w, wr\<rangle>\<rangle>\<rangle>" using U2 by simp
    from left_rotate_focus [OF this] obtain h4 root4 where
      ev4: "agc_rbtree_left_rotate ?h3 root2 s p = Some (h4, root4)" and
      f4: "focus h4 s root4 c y \<langle>\<langle>t, p, x\<rangle>, y, \<langle>z, w, wr\<rangle>\<rangle>" and k4: "rot_kept ?h3 h4 s" by blast
    have R4: "red_in h4 = ?R(y := ?R p, p := False, w := False)" using rot_kept_red [OF k4] Rh by simp
    have "rb_fix_left h root s q w = Some (h4, root4, root4)"
      using inner both cred y pq W(2) N(2) ch ev2 ev4 q2 by (simp add: rb_fix_left_def agc_heap)
    moreover have "del_inv h4 s root4 [] root4 (plug c \<langle>\<langle>t, p, x\<rangle>, y, \<langle>z, w, wr\<rangle>\<rangle>)"
      using del_done [OF f4] C(3) [OF wl y(6) inner(2)] R4 ns y(5) W(3) N(3) by simp
    moreover have "kept h h4"
      using kept_trans [OF rot_kept_kept [OF k2]] rot_kept_kept [OF k4] by (simp add: kept_recolor)
    ultimately show ?thesis unfolding wl by (fastforce simp: inorder_plug)
  qed
qed

section \<open>The focus is a right child\<close>

lemma focus_into_right:
  assumes "focus h s root (FR r p # c) q t" "focus h' s root' c' p \<langle>r', p, t\<rangle>" "rparent h' s = rparent h s"
  shows "focus h' s root' (FR r' p # c') q t"
proof -
  have q: "rparent h q = p" "tree_at h s q (rparent h q) t" using assms(1) by (simp add: focus_def, simp only: focus_def)
  have "focus h' s root' (FR r' p # c') (rright h' p) t"
    using focus_downR [OF assms(2)] q assms(3) by (cases t) auto
  moreover have "tree_at h' s (rright h' p) p t" using focus_node(6) [OF assms(2)] .
  then have "rright h' p = q" using q(2) by (cases t) auto
  ultimately show ?thesis by simp
qed

lemma del_col_sibling_right:
  assumes "del_col R (FR \<langle>wr, w, wl\<rangle> p # c) q t" "R w" "distinct (inorder (plug (FR \<langle>wr, w, wl\<rangle> p # c) t))"
  shows "\<not> R p" "\<not> top_red R wl" "\<exists>x y z. wl = \<langle>x, y, z\<rangle>"
    "del_col (R(w := False, p := True)) (FR wl p # FR wr w # c) q t"
proof -
  have d: "p \<notin> set_tree t" "w \<notin> set_tree t" "p \<notin> set_tree wl" "w \<notin> set_tree wl" "p \<notin> set_tree wr"
    "w \<notin> set_tree wr" "p \<noteq> w" "p \<notin> ctx_set c" "w \<notin> ctx_set c"
    using assms(3) unfolding distinct_plug by auto
  show "\<not> R p" "\<not> top_red R wl" using assms(1,2) by (auto simp: del_col_def)
  show "\<exists>x y z. wl = \<langle>x, y, z\<rangle>"
    using assms(1,2) by (intro bh_pos_node [of R]) (auto simp: del_col_def)
  have cr: "croot_black R c" using assms(1) croot_black_tl unfolding del_col_def by blast
  have "croot_black (R(w := False, p := True)) (FR wl p # FR wr w # c)"
    using d cr by (cases c) auto
  moreover have "col_ok ((R(w := False, p := True))(q := False)) t"
    using assms(1) d by (simp add: del_col_def recolor_under)
  ultimately show "del_col (R(w := False, p := True)) (FR wl p # FR wr w # c) q t"
    using assms(1,2) d by (auto simp: del_col_def)
qed

lemma delete_sibling_right:
  assumes "del_inv h s root (FR r p # c) q t" "\<not> red_in h q"
  shows "\<exists>h' root' wl w wr c'. rb_sibling_right h root s q = Some (h', root', w) \<and>
     del_inv h' s root' (FR \<langle>wr, w, wl\<rangle> p # c') q t \<and> \<not> red_in h' w \<and> \<not> red_in h' q \<and> kept h h' \<and>
     inorder (plug (FR \<langle>wr, w, wl\<rangle> p # c') t) = inorder (plug (FR r p # c) t) \<and>
     (c' = c \<or> red_in h' p)"
proof -
  let ?R = "red_in h"
  have fo: "focus h s root (FR r p # c) q t" and ns: "\<not> ?R s" and co: "del_col ?R (FR r p # c) q t"
    using assms(1) by (simp_all add: del_inv_def)
  have "0 < bh ?R r" using co by (simp add: del_col_def)
  then obtain wl0 w wr where "r = \<langle>wl0, w, wr\<rangle>" using bh_pos_node by blast
  then obtain wl wr where r: "r = \<langle>wr, w, wl\<rangle>" by blast
  note U = focus_upR [OF fo [unfolded r]]
  note N = focus_node [OF conjunct1 [OF U]]
  have pq: "rparent h q = p" "rleft h p = w" "w \<in> alive h" "q \<in> alive h" "w \<noteq> s" "w \<noteq> p"
    using U N(5,6) N(8,9) focus_alive [OF fo] by auto
  show ?thesis
  proof (cases "?R w")
    case False
    then have "rb_sibling_right h root s q = Some (h, root, w)"
      using pq N(2) by (simp add: rb_sibling_right_def agc_heap)
    with False assms r show ?thesis by (metis kept_refl)
  next
    case True
    have di: "distinct (inorder (plug (FR \<langle>wr, w, wl\<rangle> p # c) t))" using fo r by (simp add: focus_def)
    note C = del_col_sibling_right [OF co [unfolded r] True di]
    from C(3) obtain x y z where wl: "wl = \<langle>x, y, z\<rangle>" by blast
    let ?h = "h\<lparr>rcolor := (rcolor h)(w := 0, p := 1)\<rparr>"
    have "focus ?h s root c p \<langle>\<langle>wr, w, wl\<rangle>, p, t\<rangle>" using U by simp
    from right_rotate_focus [OF this] obtain h2 root2 where
      ev: "agc_rbtree_right_rotate ?h root s p = Some (h2, root2)" and
      f2: "focus h2 s root2 c w \<langle>wr, w, \<langle>wl, p, t\<rangle>\<rangle>" and k2: "rot_kept ?h h2 s" by blast
    have sp: "rparent h2 s = rparent h s" using k2 by (simp add: rot_kept_def)
    have f2p: "focus h2 s root2 (FR wr w # c) p \<langle>wl, p, t\<rangle>"
      using focus_downR [OF f2] focus_node(6) [OF f2] by simp
    have f3: "focus h2 s root2 (FR wl p # FR wr w # c) q t"
      by (rule focus_into_right [OF fo f2p sp])
    have R2: "red_in h2 = ?R(w := False, p := True)" using rot_kept_red [OF k2] by simp
    note M = focus_node [OF f2p]
    have yp: "rleft h2 p = y" "y \<noteq> w" "y \<noteq> p" using M(5) M(8,9) focus_node(8,9) [OF f2] wl by auto
    have "rb_sibling_right h root s q = Some (h2, root2, y)"
      using pq N(2) True ev focus_alive [OF f3] M(2) focus_upR [OF f3] yp
      by (simp add: rb_sibling_right_def agc_heap)
    moreover have "del_inv h2 s root2 (FR \<langle>x, y, z\<rangle> p # FR wr w # c) q t"
      using f3 C(4) R2 ns pq(5) N(3) wl by (simp add: del_inv_def)
    moreover have "q \<noteq> p" using focus_ptr [OF fo] N(3,8,9) by auto
    then have "\<not> red_in h2 y" "red_in h2 p" "\<not> red_in h2 q" using C(2) yp R2 wl assms(2) by simp_all
    moreover have "kept h h2" using rot_kept_kept [OF k2] by (simp add: kept_recolor)
    moreover have "inorder (plug (FR \<langle>x, y, z\<rangle> p # FR wr w # c) t) = inorder (plug (FR r p # c) t)"
      unfolding r wl by (simp add: inorder_plug)
    ultimately show ?thesis by metis
  qed
qed

lemma del_col_fix_right:
  assumes "del_col R (FR \<langle>wr, w, wl\<rangle> p # c) q t" "\<not> R w" "\<not> R q" "t = \<langle>\<rangle> \<or> (\<exists>l r. t = \<langle>l, q, r\<rangle>)"
    "distinct (inorder (plug (FR \<langle>wr, w, wl\<rangle> p # c) t))"
  shows "\<not> top_red R wl \<Longrightarrow> \<not> top_red R wr \<Longrightarrow> del_col (R(w := True)) c p \<langle>\<langle>wr, w, wl\<rangle>, p, t\<rangle>"
    "wr = \<langle>a, b, e\<rangle> \<Longrightarrow> R b \<Longrightarrow> del_good (R(w := R p, p := False, b := False)) c \<langle>wr, w, \<langle>wl, p, t\<rangle>\<rangle>"
    "wl = \<langle>z, y, x\<rangle> \<Longrightarrow> R y \<Longrightarrow> \<not> top_red R wr \<Longrightarrow>
       del_good (R(y := R p, p := False, w := False)) c \<langle>\<langle>wr, w, z\<rangle>, y, \<langle>x, p, t\<rangle>\<rangle>"
proof -
  have d: "p \<notin> set_tree t" "w \<notin> set_tree t" "p \<notin> set_tree wl" "w \<notin> set_tree wl" "p \<notin> set_tree wr"
    "w \<notin> set_tree wr" "p \<noteq> w" "p \<notin> ctx_set c" "w \<notin> ctx_set c" "set_tree wl \<inter> set_tree t = {}" "set_tree wr \<inter> set_tree t = {}"
    "set_tree wl \<inter> set_tree wr = {}" "set_tree wl \<inter> ctx_set c = {}" "set_tree wr \<inter> ctx_set c = {}"
    "distinct (inorder wl)" "distinct (inorder wr)"
    using assms(5) unfolding distinct_plug by auto
  have "R(q := False) = R" using assms(3) by (intro ext) simp
  then have t: "col_ok R t" "\<not> top_red R t" using assms(1,3,4) by (auto simp: del_col_def)
  have cr: "croot_black R c" using assms(1) croot_black_tl unfolding del_col_def by blast
  show "del_col (R(w := True)) c p \<langle>\<langle>wr, w, wl\<rangle>, p, t\<rangle>" if "\<not> top_red R wl" "\<not> top_red R wr"
    using assms(1,2) that d t cr by (cases "R p") (auto simp: del_col_def)
  show "del_good (R(w := R p, p := False, b := False)) c \<langle>wr, w, \<langle>wl, p, t\<rangle>\<rangle>" if "wr = \<langle>a, b, e\<rangle>" "R b"
    using assms(1,2) that d t by (auto simp: del_col_def del_good_def)
  show "del_good (R(y := R p, p := False, w := False)) c \<langle>\<langle>wr, w, z\<rangle>, y, \<langle>x, p, t\<rangle>\<rangle>"
    if "wl = \<langle>z, y, x\<rangle>" "R y" "\<not> top_red R wr"
    using assms(1,2) that d t by (auto simp: del_col_def del_good_def)
qed

lemma delete_fix_right:
  assumes "del_inv h s root (FR \<langle>wr, w, wl\<rangle> p # c) q t" "\<not> red_in h w" "\<not> red_in h q"
  shows "\<exists>h' root' q' c' t'. rb_fix_right h root s q w = Some (h', root', q') \<and>
     del_inv h' s root' c' q' t' \<and> kept h h' \<and> inorder (plug c' t') = inorder (plug (FR \<langle>wr, w, wl\<rangle> p # c) t) \<and>
     (c' = [] \<or> c' = c \<and> q' = p \<and> (red_in h p \<longrightarrow> red_in h' p))"
proof -
  let ?R = "red_in h"
  have fo: "focus h s root (FR \<langle>wr, w, wl\<rangle> p # c) q t" and ns: "\<not> ?R s" and co: "del_col ?R (FR \<langle>wr, w, wl\<rangle> p # c) q t"
    using assms(1) by (simp_all add: del_inv_def)
  have di: "distinct (inorder (plug (FR \<langle>wr, w, wl\<rangle> p # c) t))" using fo by (simp add: focus_def)
  have qt: "t = \<langle>\<rangle> \<or> (\<exists>l r. t = \<langle>l, q, r\<rangle>)" using focus_ptr [OF fo] by blast
  note C = del_col_fix_right [OF co assms(2,3) qt di]
  note U = conjunct1 [OF focus_upR [OF fo]]
  note N = focus_node [OF U]
  have fw: "focus h s root (FL p t # c) w \<langle>wr, w, wl\<rangle>"
    using focus_downL [OF U] N(5) by simp
  note W = focus_node [OF fw]
  have pq: "rparent h q = p" "q \<in> alive h" "w \<noteq> p" "p \<noteq> w"
    using focus_upR [OF fo] focus_alive [OF fo] N(8,9) by auto
  have ch: "rleft h w \<in> alive h" "rright h w \<in> alive h" using W(5,6) tree_child_alive [OF _ N(4)] by blast+
  have cred: "?R (rright h w) \<longleftrightarrow> top_red ?R wl" "?R (rleft h w) \<longleftrightarrow> top_red ?R wr"
    using top_red_ptr [OF W(6) ns] top_red_ptr [OF W(5) ns] by simp_all
  have both: "rb_children_black h w = Some (\<not> top_red ?R wl \<and> \<not> top_red ?R wr)"
    using ch W(2) cred by (auto simp: rb_children_black_def agc_heap)
  consider (black) "\<not> top_red ?R wl" "\<not> top_red ?R wr" | (outer) "top_red ?R wr" | (inner) "top_red ?R wl" "\<not> top_red ?R wr"
    by blast
  then show ?thesis
  proof cases
    case black
    let ?h = "h\<lparr>rcolor := (rcolor h)(w := 1)\<rparr>"
    have "rb_fix_right h root s q w = Some (?h, root, p)"
      using black both W(2) pq by (simp add: rb_fix_right_def agc_heap)
    moreover have "del_inv ?h s root c p \<langle>\<langle>wr, w, wl\<rangle>, p, t\<rangle>"
      using U C(1) [OF black] ns W(3) by (simp add: del_inv_def)
    ultimately show ?thesis by (fastforce simp: kept_recolor inorder_plug)
  next
    case outer
    then obtain a b e where wr: "wr = \<langle>a, b, e\<rangle>" by (cases wr) auto
    have b: "rleft h w = b" "b \<in> alive h" "b \<noteq> w" "b \<noteq> p" "b \<noteq> s" "?R b"
      using W(5,8,9) N(8,9) wr outer by auto
    let ?h = "h\<lparr>rcolor := (rcolor h)(w := rcolor h p, p := 0, b := 0)\<rparr>"
    have Rh: "red_in ?h = ?R(w := ?R p, p := False, b := False)"
      by (rule ext) (simp add: red_in_def)
    have "focus ?h s root c p \<langle>\<langle>wr, w, wl\<rangle>, p, t\<rangle>" using U by simp
    from right_rotate_focus [OF this] obtain h2 root2 where
      ev: "agc_rbtree_right_rotate ?h root s p = Some (h2, root2)" and
      f2: "focus h2 s root2 c w \<langle>wr, w, \<langle>wl, p, t\<rangle>\<rangle>" and k2: "rot_kept ?h h2 s" by blast
    have R2: "red_in h2 = ?R(w := ?R p, p := False, b := False)" using rot_kept_red [OF k2] Rh by simp
    have "rb_fix_right h root s q w = Some (h2, root2, root2)"
      using outer both cred b pq W(2) N(2) ch ev by (simp add: rb_fix_right_def agc_heap)
    moreover have "del_inv h2 s root2 [] root2 (plug c \<langle>wr, w, \<langle>wl, p, t\<rangle>\<rangle>)"
      using del_done [OF f2] C(2) [OF wr b(6)] R2 ns b(5) W(3) N(3) by simp
    moreover have "kept h h2" using rot_kept_kept [OF k2] by (simp add: kept_recolor)
    ultimately show ?thesis by (fastforce simp: inorder_plug)
  next
    case inner
    then obtain x y z where wl: "wl = \<langle>z, y, x\<rangle>" by (cases wl) auto
    have y: "rright h w = y" "y \<in> alive h" "y \<noteq> w" "y \<noteq> p" "y \<noteq> s" "?R y"
      using W(6,8,9) N(8,9) wl inner by auto
    let ?h1 = "h\<lparr>rcolor := (rcolor h)(y := 0, w := 1)\<rparr>"
    have "focus ?h1 s root (FL p t # c) w \<langle>wr, w, \<langle>z, y, x\<rangle>\<rangle>" using fw wl by simp
    from left_rotate_focus [OF this] obtain h2 root2 where
      ev2: "agc_rbtree_left_rotate ?h1 root s w = Some (h2, root2)" and
      f2: "focus h2 s root2 (FL p t # c) y \<langle>\<langle>wr, w, z\<rangle>, y, x\<rangle>" and k2: "rot_kept ?h1 h2 s" by blast
    note U2 = focus_upL [OF f2]
    note Y = focus_node [OF f2]
    have sp: "rparent h2 s = rparent h s" using k2 by (simp add: rot_kept_def)
    have fq: "focus h2 s root2 (FR \<langle>\<langle>wr, w, z\<rangle>, y, x\<rangle> p # c) q t"
      by (rule focus_into_right [OF fo conjunct1 [OF U2] sp])
    have q2: "rparent h2 q = p" "q \<in> alive h2" "p \<in> alive h2" "rleft h2 p = y" "y \<in> alive h2"
      "rleft h2 y = w" "w \<in> alive h2"
      using focus_upR [OF fq] focus_alive [OF fq] U2 focus_alive [OF conjunct1 [OF U2]] Y by auto
    let ?h3 = "h2\<lparr>rcolor := (rcolor h2)(y := rcolor h2 p, p := 0, w := 0)\<rparr>"
    have c2: "rcolor h2 = (rcolor h)(y := 0, w := 1)" using k2 by (simp add: rot_kept_def same_data_def)
    have Rh: "red_in ?h3 = ?R(y := ?R p, p := False, w := False)"
      using y(3,4) pq(3,4) by (intro ext) (simp add: red_in_def c2)
    have "focus ?h3 s root2 c p \<langle>\<langle>\<langle>wr, w, z\<rangle>, y, x\<rangle>, p, t\<rangle>" using U2 by simp
    from right_rotate_focus [OF this] obtain h4 root4 where
      ev4: "agc_rbtree_right_rotate ?h3 root2 s p = Some (h4, root4)" and
      f4: "focus h4 s root4 c y \<langle>\<langle>wr, w, z\<rangle>, y, \<langle>x, p, t\<rangle>\<rangle>" and k4: "rot_kept ?h3 h4 s" by blast
    have R4: "red_in h4 = ?R(y := ?R p, p := False, w := False)" using rot_kept_red [OF k4] Rh by simp
    have "rb_fix_right h root s q w = Some (h4, root4, root4)"
      using inner both cred y pq W(2) N(2) ch ev2 ev4 q2 by (simp add: rb_fix_right_def agc_heap)
    moreover have "del_inv h4 s root4 [] root4 (plug c \<langle>\<langle>wr, w, z\<rangle>, y, \<langle>x, p, t\<rangle>\<rangle>)"
      using del_done [OF f4] C(3) [OF wl y(6) inner(2)] R4 ns y(5) W(3) N(3) by simp
    moreover have "kept h h4"
      using kept_trans [OF rot_kept_kept [OF k2]] rot_kept_kept [OF k4] by (simp add: kept_recolor)
    ultimately show ?thesis unfolding wl by (fastforce simp: inorder_plug)
  qed
qed

section \<open>The loop\<close>

lemma focus_root_any: "focus h s root c q t \<Longrightarrow> q = root \<longleftrightarrow> c = []"
proof -
  assume f: "focus h s root c q t"
  then have c: "ctx_at h s root q (rparent h q) c" by (simp add: focus_def)
  have "q \<notin> ctx_set c"
    using focus_ptr [OF f] f ctx_at_alive [OF c] by (auto simp: focus_def distinct_plug)
  then show ?thesis using ctx_at_root_in [OF c] c by (cases c) auto
qed

lemma delete_body_left:
  assumes "del_inv h s root (FL p r # c) q t"
  shows "rb_delete_body h root s q = do { (h, root, w) \<leftarrow> rb_sibling_left h root s q; rb_fix_left h root s q w }"
proof -
  have f: "focus h s root (FL p r # c) q t" using assms by (simp add: del_inv_def)
  have "rparent h q = p" "rleft h p = q" "p \<in> alive h" "q \<in> alive h"
    using focus_upL [OF f] focus_alive [OF f] focus_node(2) by blast+
  then show ?thesis by (simp add: rb_delete_body_def agc_heap)
qed

lemma delete_body_right:
  assumes "del_inv h s root (FR l p # c) q t"
  shows "rb_delete_body h root s q = do { (h, root, w) \<leftarrow> rb_sibling_right h root s q; rb_fix_right h root s q w }"
proof -
  have f: "focus h s root (FR l p # c) q t" and b: "0 < bh (red_in h) l"
    using assms by (simp_all add: del_inv_def del_col_def)
  note U = focus_upR [OF f]
  note N = focus_node [OF conjunct1 [OF U]]
  from b obtain x y z where l: "l = \<langle>x, y, z\<rangle>" using bh_pos_node by blast
  have "rleft h p = y" "y \<in> set_tree l" "y \<noteq> s" using N(5) l by auto
  then have "q \<noteq> rleft h p" using focus_ptr [OF f] N(11) by auto
  with U N(2) focus_alive [OF f] show ?thesis by (simp add: rb_delete_body_def agc_heap)
qed

lemma delete_body_step:
  assumes "del_inv h s root c q t" "c \<noteq> []" "\<not> red_in h q"
  shows "\<exists>h' root' q' c' t'. rb_delete_body h root s q = Some (h', root', q') \<and>
     del_inv h' s root' c' q' t' \<and> kept h h' \<and> inorder (plug c' t') = inorder (plug c t) \<and>
     (if red_in h' q' then 0 else length c') < length c"
proof -
  from assms(2) obtain f c0 where c: "c = f # c0" by (cases c) auto
  show ?thesis
  proof (cases f)
    case (FL p r)
    note I = assms(1) [unfolded c FL]
    from delete_sibling_left [OF I assms(3)] obtain h1 root1 wl w wr c1 where
      e1: "rb_sibling_left h root s q = Some (h1, root1, w)" and i1: "del_inv h1 s root1 (FL p \<langle>wl, w, wr\<rangle> # c1) q t"
      and b1: "\<not> red_in h1 w" "\<not> red_in h1 q" "kept h h1" and m1: "c1 = c0 \<or> red_in h1 p"
      and o1: "inorder (plug (FL p \<langle>wl, w, wr\<rangle> # c1) t) = inorder (plug (FL p r # c0) t)" by blast
    from delete_fix_left [OF i1 b1(1,2)] obtain h2 root2 q2 c2 t2 where
      e2: "rb_fix_left h1 root1 s q w = Some (h2, root2, q2)" and i2: "del_inv h2 s root2 c2 q2 t2" "kept h1 h2"
      and o2: "inorder (plug c2 t2) = inorder (plug (FL p \<langle>wl, w, wr\<rangle> # c1) t)"
      and m2: "c2 = [] \<or> c2 = c1 \<and> q2 = p \<and> (red_in h1 p \<longrightarrow> red_in h2 p)" by blast
    have "rb_delete_body h root s q = Some (h2, root2, q2)" using delete_body_left [OF I] e1 e2 by simp
    moreover have "(if red_in h2 q2 then 0 else length c2) < length c" using m1 m2 c by auto
    ultimately show ?thesis using i2 o1 o2 kept_trans [OF b1(3) i2(2)] c FL by metis
  next
    case (FR l p)
    note I = assms(1) [unfolded c FR]
    from delete_sibling_right [OF I assms(3)] obtain h1 root1 wl w wr c1 where
      e1: "rb_sibling_right h root s q = Some (h1, root1, w)" and i1: "del_inv h1 s root1 (FR \<langle>wr, w, wl\<rangle> p # c1) q t"
      and b1: "\<not> red_in h1 w" "\<not> red_in h1 q" "kept h h1" and m1: "c1 = c0 \<or> red_in h1 p"
      and o1: "inorder (plug (FR \<langle>wr, w, wl\<rangle> p # c1) t) = inorder (plug (FR l p # c0) t)" by blast
    from delete_fix_right [OF i1 b1(1,2)] obtain h2 root2 q2 c2 t2 where
      e2: "rb_fix_right h1 root1 s q w = Some (h2, root2, q2)" and i2: "del_inv h2 s root2 c2 q2 t2" "kept h1 h2"
      and o2: "inorder (plug c2 t2) = inorder (plug (FR \<langle>wr, w, wl\<rangle> p # c1) t)"
      and m2: "c2 = [] \<or> c2 = c1 \<and> q2 = p \<and> (red_in h1 p \<longrightarrow> red_in h2 p)" by blast
    have "rb_delete_body h root s q = Some (h2, root2, q2)" using delete_body_right [OF I] e1 e2 by simp
    moreover have "(if red_in h2 q2 then 0 else length c2) < length c" using m1 m2 c by auto
    ultimately show ?thesis using i2 o1 o2 kept_trans [OF b1(3) i2(2)] c FR by metis
  qed
qed

lemma delete_fixup_ends:
  "del_inv h s root c q t \<Longrightarrow>
     \<exists>h' root' q' c' t'. rb_delete_fixup h root s q = Some (h', root', q') \<and> del_inv h' s root' c' q' t' \<and>
       (c' = [] \<or> red_in h' q') \<and> kept h h' \<and> inorder (plug c' t') = inorder (plug c t)"
proof (induction "if red_in h q then 0 else length c" arbitrary: h root c q t rule: less_induct)
  case less
  have f: "focus h s root c q t" using less.prems by (simp add: del_inv_def)
  note qa = focus_alive [OF f]
  note root = focus_root_any [OF f]
  show ?case
  proof (cases "c = [] \<or> red_in h q")
    case True
    then have "rb_delete_fixup h root s q = Some (h, root, q)"
      using root qa by (subst rb_delete_fixup.simps) (auto simp: agc_heap)
    with True less.prems show ?thesis by (metis kept_refl)
  next
    case False
    then have nc: "c \<noteq> []" "\<not> red_in h q" by auto
    from delete_body_step [OF less.prems nc] obtain h1 root1 q1 c1 t1 where
      ev: "rb_delete_body h root s q = Some (h1, root1, q1)" and
      inv: "del_inv h1 s root1 c1 q1 t1" "kept h h1" and io: "inorder (plug c1 t1) = inorder (plug c t)"
      and ms: "(if red_in h1 q1 then 0 else length c1) < length c" by blast
    have "rb_delete_fixup h root s q = rb_delete_fixup h1 root1 s q1"
      using root nc qa ev by (subst rb_delete_fixup.simps) (simp add: agc_heap)
    moreover have "(if red_in h1 q1 then 0 else length c1) < (if red_in h q then 0 else length c)"
      using ms nc(2) by simp
    from less.hyps [OF this inv(1)] obtain h' root' q' c' t' where
      "rb_delete_fixup h1 root1 s q1 = Some (h', root', q')" "del_inv h' s root' c' q' t'" "c' = [] \<or> red_in h' q'"
      "kept h1 h'" "inorder (plug c' t') = inorder (plug c1 t1)" by blast
    ultimately show ?thesis using io kept_trans [OF inv(2)] by metis
  qed
qed

lemma delete_exit:
  assumes "del_inv h s root c q t" "c = [] \<or> red_in h q" "NULL \<notin> alive h"
  shows "\<exists>h'. agc_rbt_black h q = Some h' \<and> kept h h' \<and>
     rb_wf h' \<lparr>troot = root, tsentinel = s, tinsert = i\<rparr> (plug c t)"
proof -
  let ?R = "red_in h" and ?h = "h\<lparr>rcolor := (rcolor h)(q := 0)\<rparr>"
  have f: "focus h s root c q t" and ns: "\<not> ?R s" and co: "del_col ?R c q t"
    using assms(1) by (simp_all add: del_inv_def)
  have pt: "agc_rbt_black h q = Some ?h" using focus_alive [OF f] by (simp add: agc_heap)
  have s: "s \<in> alive h" "distinct (inorder (plug c t))" using f by (simp_all add: focus_def)
  from focus_ptr [OF f] have "rb_wf ?h \<lparr>troot = root, tsentinel = s, tinsert = i\<rparr> (plug c t)"
  proof (elim disjE conjE exE)
    assume "t = \<langle>\<rangle>" "q = s"
    with assms(2) ns have "c = []" by auto
    then show ?thesis using f \<open>t = \<langle>\<rangle>\<close> \<open>q = s\<close> s assms(3) by (simp add: rb_wf_def focus_def)
  next
    fix l r assume t: "t = \<langle>l, q, r\<rangle>"
    note N = focus_node [OF f [unfolded t]]
    have "focus h s root [] root (plug c t)" using focus_whole_root f t by simp
    then have tr: "tree_at h s root (rparent h root) (plug c t)" by (simp add: focus_def)
    have "del_good (?R(q := False)) c t"
      using co assms(2) N(8-10) unfolding t del_good_def del_col_def by auto
    then have "col_ok (?R(q := False)) (plug c t)" "bal (?R(q := False)) (plug c t)"
      unfolding del_good_plug by simp_all
    moreover have "\<not> top_red (?R(q := False)) (plug c t)"
      using co N(10) unfolding top_red_plug by (simp add: t del_col_def croot_black_def)
    ultimately show ?thesis using tr s ns assms(3) N(3) by (simp add: rb_wf_def)
  qed
  with pt show ?thesis by (auto simp: kept_def)
qed

section \<open>Deletion as a whole\<close>

lemma wf_parts:
  assumes "rb_wf h tr (plug c \<langle>l, a, r\<rangle>)"
  shows "col_ok (red_in h) \<langle>l, a, r\<rangle>" "bal (red_in h) \<langle>l, a, r\<rangle>" "ccol (red_in h) c" "croot_black (red_in h) c"
    "cbal (red_in h) c (bh (red_in h) \<langle>l, a, r\<rangle>)" "ctop_red (red_in h) c \<longrightarrow> \<not> red_in h a"
    "c = [] \<Longrightarrow> \<not> red_in h a"
  using assms unfolding rb_wf_def bal_plug col_plug top_red_plug croot_black_def by (auto split: if_splits)

text \<open>The state after the node has left the tree: \<open>wasred\<close> says whether the node taken out was red.\<close>

definition unlinked :: "rbheap \<Rightarrow> addr \<Rightarrow> addr \<Rightarrow> frame list \<Rightarrow> addr \<Rightarrow> addr tree \<Rightarrow> bool \<Rightarrow> bool" where
  "unlinked h s root c q t wasred \<longleftrightarrow> focus h s root c q t \<and> \<not> red_in h s \<and>
     (if wasred then del_good (red_in h) c t else del_col (red_in h) c q t) \<and> c \<noteq> [] \<and> croot_black (red_in h) c"

lemma unlink_two_inv:
  assumes "rb_wf h tr (plug c \<langle>l, a, r\<rangle>)" "l \<noteq> \<langle>\<rangle>" "r \<noteq> \<langle>\<rangle>"
  shows "\<exists>h' root' C q t wasred. rb_delete_unlink h (troot tr) (tsentinel tr) a = Some (h', root', if wasred then None else Some q) \<and>
     unlinked h' (tsentinel tr) root' C q t wasred \<and> alive h' = alive h \<and> rkey h' = (rkey h)(a := 0) \<and>
     inorder (plug C t) = pre c @ inorder l @ inorder r @ post c"
proof -
  note f = wf_focus [OF assms(1)]
  note P = wf_parts [OF assms(1)]
  from unlink_two [OF f assms(2,3)] obtain h' root' q cs m mr where
    ev: "rb_delete_unlink h (troot tr) (tsentinel tr) a = Some (h', root', if red_in h m then None else Some q)" and
    r: "r = plug cs \<langle>\<langle>\<rangle>, m, mr\<rangle>" and fl: "\<forall>f \<in> set cs. is_FL f" and f': "focus h' (tsentinel tr) root' (cs @ FR l m # c) q mr" and
    da: "alive h' = alive h" "rcolor h' = (rcolor h)(m := rcolor h a)" "rkey h' = (rkey h)(a := 0)" by blast
  let ?R = "red_in h" and ?C = "cs @ FR l a # c"
  note M = focus_node [OF successor_focus(1) [OF f r]]
  have R': "red_in h' = ?R(m := ?R a)" by (rule ext) (simp add: red_in_def da(2))
  have m: "m \<noteq> a" "m \<notin> ctx_set cs" "m \<notin> set_tree l" "m \<notin> ctx_set c" using M(10) by auto
  note S = swap_ctx [OF m, of ?R, folded R']
  have "rb_wf h tr (plug ?C \<langle>\<langle>\<rangle>, m, mr\<rangle>)" using assms(1) r by (simp add: plug_append)
  note Q = wf_parts [OF this]
  have sm: "\<not> red_in h' (tsentinel tr)" using assms(1) M(3) by (simp add: R' rb_wf_def)
  have g: "del_good (red_in h') (cs @ FR l m # c) mr" if "?R m"
    using Q that M(9) unfolding del_good_def S by (auto simp: R')
  have "mr = \<langle>\<rangle> \<or> (\<exists>l r. mr = \<langle>l, q, r\<rangle>)" using focus_ptr [OF f'] by blast
  with M(9,15) Q(1) have "col_ok ((red_in h')(q := False)) mr"
    by (intro col_ok_paint) (simp_all add: R')
  then have "del_col (red_in h') (cs @ FR l m # c) q mr" if "\<not> ?R m"
    using Q that M(9) unfolding del_col_def S by (auto simp: R')
  with g f' sm Q(4) S(4) have "unlinked h' (tsentinel tr) root' (cs @ FR l m # c) q mr (?R m)"
    by (simp add: unlinked_def)
  moreover have "inorder (plug (cs @ FR l m # c) mr) = pre c @ inorder l @ inorder r @ post c"
  proof -
    have "pre cs = []" by (rule pre_left_path [OF fl])
    then show ?thesis unfolding r by (simp add: plug_append inorder_plug)
  qed
  ultimately show ?thesis using ev da by blast
qed

lemma unlink_one_inv:
  assumes "rb_wf h tr (plug (f # c) \<langle>l, a, r\<rangle>)" "l = \<langle>\<rangle> \<or> r = \<langle>\<rangle>"
  shows "\<exists>h' root' C q t wasred. rb_delete_unlink h (troot tr) (tsentinel tr) a = Some (h', root', if wasred then None else Some q) \<and>
     unlinked h' (tsentinel tr) root' C q t wasred \<and> alive h' = alive h \<and> rkey h' = (rkey h)(a := 0) \<and>
     inorder (plug C t) = pre (f # c) @ inorder l @ inorder r @ post (f # c)"
proof -
  note fo = wf_focus [OF assms(1)]
  note P = wf_parts [OF assms(1)]
  note N = focus_node [OF fo]
  from unlink_one [OF fo assms(2)] obtain h' q t where
    ev: "rb_delete_unlink h (troot tr) (tsentinel tr) a = Some (h', troot tr, if red_in h a then None else Some q)" and
    f': "focus h' (tsentinel tr) (troot tr) (f # c) q t" and
    da: "alive h' = alive h" "rcolor h' = rcolor h" "rkey h' = (rkey h)(a := 0)" and
    t: "inorder t = inorder l @ inorder r" "t \<in> {l, r}" by blast
  have R': "red_in h' = red_in h" by (rule ext) (simp add: red_in_def da(2))
  have k: "col_ok (red_in h) t" "bal (red_in h) t" "distinct (inorder t)" "bh (red_in h) t = bh (red_in h) l"
    "red_in h a \<longrightarrow> \<not> top_red (red_in h) t"
    using P(1,2) N(14,15) t(2) by auto
  have pt: "t = \<langle>\<rangle> \<or> (\<exists>l r. t = \<langle>l, q, r\<rangle>)" using focus_ptr [OF f'] by blast
  have "unlinked h' (tsentinel tr) (troot tr) (f # c) q t (red_in h a)"
    using f' P(3-6) k col_ok_paint [OF k(1,3) pt] assms(1)
    unfolding unlinked_def del_good_def del_col_def R'
    by (cases "red_in h a") (simp_all add: rb_wf_def del: cbal.simps ccol.simps)
  moreover have "inorder (plug (f # c) t) = pre (f # c) @ inorder l @ inorder r @ post (f # c)"
    by (simp only: inorder_plug t(1) append_assoc)
  ultimately show ?thesis using ev da by blast
qed

lemma unlink_root_wf:
  assumes "rb_wf h tr \<langle>l, a, r\<rangle>" "l = \<langle>\<rangle> \<or> r = \<langle>\<rangle>"
  shows "\<exists>h' q t. rb_delete_unlink h (troot tr) (tsentinel tr) a = Some (h', q, None) \<and>
     rb_wf h' (tr\<lparr>troot := q\<rparr>) t \<and> alive h' = alive h \<and> rkey h' = (rkey h)(a := 0) \<and> inorder t = inorder l @ inorder r"
proof -
  have w: "rb_wf h tr (plug [] \<langle>l, a, r\<rangle>)" using assms(1) by simp
  note fo = wf_focus [OF w]
  note P = wf_parts [OF w]
  note N = focus_node [OF fo]
  from unlink_root_one [OF fo assms(2)] obtain h' q t where
    ev: "rb_delete_unlink h (troot tr) (tsentinel tr) a = Some (h', q, None)" and
    t': "tree_at h' (tsentinel tr) q a t" and
    da: "alive h' = alive h" "rcolor h' = (rcolor h)(q := 0)" "rkey h' = (rkey h)(a := 0)" and
    t: "inorder t = inorder l @ inorder r" "t \<in> {l, r}" by blast
  have R': "red_in h' = (red_in h)(q := False)" by (rule ext) (simp add: red_in_def da(2))
  have k: "col_ok (red_in h) t" "bal (red_in h) t" "distinct (inorder t)"
    using P(1,2) N(14,15) t(2) by auto
  from tree_at_cases [OF t'] have "rb_wf h' (tr\<lparr>troot := q\<rparr>) t"
  proof (elim disjE conjE exE)
    assume "t = \<langle>\<rangle>" "q = tsentinel tr"
    then show ?thesis using assms(1) da(1) R' by (simp add: rb_wf_def)
  next
    fix x y assume ty: "t = \<langle>x, q, y\<rangle>"
    then have "rparent h' q = a" "q \<noteq> tsentinel tr" using t' by simp_all
    then show ?thesis using t' k assms(1) da(1) ty unfolding rb_wf_def R' by auto
  qed
  with ev da t show ?thesis by blast
qed

lemma unlinked_finish:
  assumes "rb_delete_unlink h (troot tr) (tsentinel tr) a = Some (h1, root1, if wasred then None else Some q)"
    "unlinked h1 (tsentinel tr) root1 C q t wasred" "alive h1 = alive h" "rkey h1 = (rkey h)(a := 0)" "NULL \<notin> alive h"
  shows "\<exists>h' tr' t'. agc_rbtree_delete h tr a = Some (h', tr') \<and> rb_wf h' tr' t' \<and> inorder t' = inorder (plug C t) \<and>
     alive h' = alive h \<and> rkey h' = (rkey h)(a := 0) \<and> tsentinel tr' = tsentinel tr \<and> tinsert tr' = tinsert tr"
proof (cases wasred)
  case True
  then have f: "focus h1 (tsentinel tr) root1 C q t" and g: "del_good (red_in h1) C t" and s: "\<not> red_in h1 (tsentinel tr)"
    and c: "C \<noteq> []" "croot_black (red_in h1) C" using assms(2) by (simp_all add: unlinked_def)
  from focus_whole [OF f] obtain par where tr: "tree_at h1 (tsentinel tr) root1 par (plug C t)" by blast
  have "rparent h1 root1 = par" using tr c(1) by (cases "plug C t") (auto simp: plug_Leaf_iff)
  then have "rb_wf h1 (tr\<lparr>troot := root1\<rparr>) (plug C t)"
    using f g s c tr assms(3,5) unfolding del_good_plug
    by (simp add: rb_wf_def focus_def top_red_plug croot_black_def)
  with True assms(1,3,4) show ?thesis by (fastforce simp: agc_rbtree_delete_def)
next
  case False
  then have "del_inv h1 (tsentinel tr) root1 C q t" using assms(2) by (simp add: unlinked_def del_inv_def)
  from delete_fixup_ends [OF this] obtain h2 root2 q2 c2 t2 where
    fx: "rb_delete_fixup h1 root1 (tsentinel tr) q = Some (h2, root2, q2)" and
    i2: "del_inv h2 (tsentinel tr) root2 c2 q2 t2" "c2 = [] \<or> red_in h2 q2" "kept h1 h2"
    and io: "inorder (plug c2 t2) = inorder (plug C t)" by blast
  have "NULL \<notin> alive h2" using i2(3) assms(3,5) by (simp add: kept_def)
  from delete_exit [OF i2(1,2) this, of "tinsert tr"] obtain h3 where
    bl: "agc_rbt_black h2 q2 = Some h3" and k3: "kept h2 h3" and
    w: "rb_wf h3 \<lparr>troot = root2, tsentinel = tsentinel tr, tinsert = tinsert tr\<rparr> (plug c2 t2)" by blast
  have eta: "\<lparr>troot = root2, tsentinel = tsentinel tr, tinsert = tinsert tr\<rparr> = tr\<lparr>troot := root2\<rparr>" by (cases tr) simp
  have "agc_rbtree_delete h tr a = Some (h3, tr\<lparr>troot := root2\<rparr>)"
    using False assms(1) fx bl by (simp add: agc_rbtree_delete_def)
  moreover have "alive h3 = alive h" "rkey h3 = (rkey h)(a := 0)"
    using kept_trans [OF i2(3) k3] assms(3,4) by (simp_all add: kept_def)
  ultimately show ?thesis using w io unfolding eta by fastforce
qed

lemma rb_delete_any:
  assumes "rb_wf h tr t" "a \<in> set_tree t"
  shows "\<exists>h' tr' t'. agc_rbtree_delete h tr a = Some (h', tr') \<and> rb_wf h' tr' t' \<and>
     inorder t' = remove1 a (inorder t) \<and> alive h' = alive h \<and> rkey h' = (rkey h)(a := 0) \<and>
     tsentinel tr' = tsentinel tr \<and> tinsert tr' = tinsert tr"
proof -
  from zipper_ex [OF assms(2)] obtain c l r where t: "t = plug c \<langle>l, a, r\<rangle>" by blast
  note w = assms(1) [unfolded t]
  note N = focus_node [OF wf_focus [OF w]]
  have "a \<notin> set (pre c)" using N(10) set_pre_post [of c] by auto
  then have io: "remove1 a (inorder t) = pre c @ inorder l @ inorder r @ post c"
    using N(8) by (simp add: t inorder_plug remove1_append)
  have nul: "NULL \<notin> alive h" using assms(1) by (simp add: rb_wf_def)
  consider (two) "l \<noteq> \<langle>\<rangle>" "r \<noteq> \<langle>\<rangle>" | (one) f c' where "c = f # c'" "l = \<langle>\<rangle> \<or> r = \<langle>\<rangle>" | (top) "c = []" "l = \<langle>\<rangle> \<or> r = \<langle>\<rangle>"
    by (cases c) auto
  then show ?thesis
  proof cases
    case two
    from unlink_two_inv [OF w two] unlinked_finish nul io show ?thesis by metis
  next
    case one
    from unlink_one_inv [OF w [unfolded one(1)] one(2)] unlinked_finish nul io one(1) show ?thesis by metis
  next
    case top
    have "rb_wf h tr \<langle>l, a, r\<rangle>" using w top(1) by simp
    from unlink_root_wf [OF this top(2)] obtain h' q t' where
      u: "rb_delete_unlink h (troot tr) (tsentinel tr) a = Some (h', q, None)" "rb_wf h' (tr\<lparr>troot := q\<rparr>) t'"
      "alive h' = alive h" "rkey h' = (rkey h)(a := 0)" "inorder t' = inorder l @ inorder r" by blast
    have "agc_rbtree_delete h tr a = Some (h', tr\<lparr>troot := q\<rparr>)" using u(1) by (simp add: agc_rbtree_delete_def)
    with u io top(1) show ?thesis by fastforce
  qed
qed

end
