(* ===== verification/Agc_Rbtree_Spec.thy ===== *)
theory Agc_Rbtree_Spec
  imports Agc_Rbtree_Delete "HOL-Library.Multiset"
begin

text \<open>
  The contract of the tree for its clients, as a locale over an abstract sequence of
  nodes, and the two trees of the code as its providers. The client lemma proved once in
  the locale is that removing the first node again and again returns the nodes in key
  order; it is what the timer thread does.
\<close>

section \<open>An ordered store of nodes\<close>

text \<open>Insert a list of nodes; take the first node out a number of times.\<close>

fun fill :: "('st \<Rightarrow> addr \<Rightarrow> 'st option) \<Rightarrow> 'st \<Rightarrow> addr list \<Rightarrow> 'st option" where
  "fill ins st [] = Some st"
| "fill ins st (n # ns) = do { st \<leftarrow> ins st n; fill ins st ns }"

fun drain :: "('st \<Rightarrow> addr option) \<Rightarrow> ('st \<Rightarrow> addr \<Rightarrow> 'st option) \<Rightarrow> nat \<Rightarrow> 'st \<Rightarrow> addr list option" where
  "drain first del 0 st = Some []"
| "drain first del (Suc k) st =
     do { a \<leftarrow> first st; st \<leftarrow> del st a; as \<leftarrow> drain first del k st; Some (a # as) }"

locale ordered_store =
  fixes holds :: "'st \<Rightarrow> addr list \<Rightarrow> bool" and key :: "'st \<Rightarrow> addr \<Rightarrow> u64" and cell :: "'st \<Rightarrow> addr \<Rightarrow> bool"
    and ins :: "'st \<Rightarrow> addr \<Rightarrow> 'st option" and del :: "'st \<Rightarrow> addr \<Rightarrow> 'st option" and first :: "'st \<Rightarrow> addr option"
    and lt :: "u64 \<Rightarrow> u64 \<Rightarrow> bool" and window :: "u64 set \<Rightarrow> bool"
  assumes ins_ok: "holds st xs \<Longrightarrow> cell st n \<Longrightarrow> n \<notin> set xs \<Longrightarrow> window (key st ` insert n (set xs)) \<Longrightarrow>
      \<exists>st' ys zs. ins st n = Some st' \<and> xs = ys @ zs \<and> holds st' (ys @ n # zs) \<and> key st' = key st \<and> cell st' = cell st"
    and del_ok: "holds st xs \<Longrightarrow> a \<in> set xs \<Longrightarrow>
      \<exists>st'. del st a = Some st' \<and> holds st' (remove1 a xs) \<and> key st' = (key st)(a := 0) \<and> cell st' = cell st"
    and first_ok: "holds st xs \<Longrightarrow> xs \<noteq> [] \<Longrightarrow> first st = Some (hd xs)"
    and holds_sorted: "holds st xs \<Longrightarrow> distinct xs \<and> sorted_wrt (\<lambda>a b. \<not> lt (key st b) (key st a)) xs"
begin

lemma drain_holds: "holds st xs \<Longrightarrow> drain first del (length xs) st = Some xs"
proof (induction xs arbitrary: st)
  case (Cons a xs)
  have "first st = Some a" using first_ok [OF Cons.prems] by simp
  moreover from del_ok [OF Cons.prems, of a] obtain st' where "del st a = Some st'" "holds st' xs" by auto
  ultimately show ?case using Cons.IH by simp
qed simp

lemma fill_holds:
  "holds st xs \<Longrightarrow> \<forall>n \<in> set ns. cell st n \<Longrightarrow> distinct ns \<Longrightarrow> set ns \<inter> set xs = {} \<Longrightarrow>
     (\<And>K. K \<subseteq> key st ` (set ns \<union> set xs) \<Longrightarrow> window K) \<Longrightarrow>
     \<exists>st' ys. fill ins st ns = Some st' \<and> holds st' ys \<and> mset ys = mset ns + mset xs \<and> key st' = key st \<and> cell st' = cell st"
proof (induction ns arbitrary: st xs)
  case Nil
  then show ?case by (intro exI [of _ st] exI [of _ xs]) simp
next
  case (Cons n ns)
  have "window (key st ` insert n (set xs))" by (rule Cons.prems(5)) auto
  moreover have "cell st n" "n \<notin> set xs" using Cons.prems(2,4) by simp_all
  ultimately obtain st1 us vs where
    i: "ins st n = Some st1" "xs = us @ vs" "holds st1 (us @ n # vs)" "key st1 = key st" "cell st1 = cell st"
    using ins_ok [OF Cons.prems(1)] by blast
  have "\<exists>st' ys. fill ins st1 ns = Some st' \<and> holds st' ys \<and> mset ys = mset ns + mset (us @ n # vs) \<and> key st' = key st1 \<and> cell st' = cell st1"
  proof (rule Cons.IH [OF i(3)])
    show "window K" if "K \<subseteq> key st1 ` (set ns \<union> set (us @ n # vs))" for K
      using that i(2,4) Cons.prems(5) [of K] by auto
  qed (use Cons.prems i in auto)
  with i show ?case by auto
qed

lemma fill_drain:
  assumes "holds st []" "\<forall>n \<in> set ns. cell st n" "distinct ns" "\<And>K. K \<subseteq> key st ` set ns \<Longrightarrow> window K"
  shows "\<exists>st' ys. fill ins st ns = Some st' \<and> drain first del (length ns) st' = Some ys \<and> mset ys = mset ns \<and>
     sorted_wrt (\<lambda>a b. \<not> lt (key st b) (key st a)) ys"
proof -
  from fill_holds [OF assms(1-3)] assms(4) obtain st' ys where
    f: "fill ins st ns = Some st'" "holds st' ys" "mset ys = mset ns" "key st' = key st" by auto
  have "length ns = length ys" using f(3) by (metis size_mset)
  with f drain_holds [OF f(2)] holds_sorted [OF f(2)] show ?thesis by auto
qed

end

section \<open>The trees of the code\<close>

definition rb_holds :: "(u64 \<Rightarrow> u64 \<Rightarrow> bool) \<Rightarrow> rbheap \<times> agc_rbtree \<Rightarrow> addr list \<Rightarrow> bool" where
  "rb_holds lt st xs \<longleftrightarrow> (\<exists>t. rb_wf (fst st) (snd st) t \<and> inorder t = xs) \<and>
     tinsert (snd st) = rb_insert_loop lt \<and> ordered lt (fst st) xs"

definition rb_key :: "rbheap \<times> agc_rbtree \<Rightarrow> addr \<Rightarrow> u64" where
  "rb_key st = rkey (fst st)"

definition rb_cell :: "rbheap \<times> agc_rbtree \<Rightarrow> addr \<Rightarrow> bool" where
  "rb_cell st a \<longleftrightarrow> a \<in> alive (fst st) \<and> a \<noteq> tsentinel (snd st)"

definition rb_ins :: "rbheap \<times> agc_rbtree \<Rightarrow> addr \<Rightarrow> (rbheap \<times> agc_rbtree) option" where
  "rb_ins st n = agc_rbtree_insert (fst st) (snd st) n"

definition rb_del :: "rbheap \<times> agc_rbtree \<Rightarrow> addr \<Rightarrow> (rbheap \<times> agc_rbtree) option" where
  "rb_del st n = agc_rbtree_delete (fst st) (snd st) n"

definition rb_first :: "rbheap \<times> agc_rbtree \<Rightarrow> addr option" where
  "rb_first st = agc_rbtree_min (fst st) (troot (snd st)) (tsentinel (snd st))"

lemmas rb_store_defs = rb_holds_def rb_key_def rb_cell_def rb_ins_def rb_del_def rb_first_def

lemma ordered_remove1: "ordered lt h xs \<Longrightarrow> ordered lt h (remove1 a xs)"
proof (induction xs)
  case (Cons x xs)
  then show ?case using set_remove1_subset [of a xs] by (auto simp: ordered_Cons)
qed simp

lemma ordered_key_away: "a \<notin> set xs \<Longrightarrow> rkey h' = (rkey h)(a := k) \<Longrightarrow> ordered lt h' xs \<longleftrightarrow> ordered lt h xs"
  unfolding ordered_def by (induction xs) auto

lemma rb_del_law:
  assumes "rb_holds lt st xs" "a \<in> set xs"
  shows "\<exists>st'. rb_del st a = Some st' \<and> rb_holds lt st' (remove1 a xs) \<and> rb_key st' = (rb_key st)(a := 0) \<and>
     rb_cell st' = rb_cell st"
proof -
  obtain h tr where st: "st = (h, tr)" by (cases st)
  from assms obtain t where t: "rb_wf h tr t" "inorder t = xs" and o: "tinsert tr = rb_insert_loop lt" "ordered lt h xs"
    by (auto simp: rb_holds_def st)
  have "a \<in> set_tree t" using assms(2) t(2) by (simp flip: set_inorder)
  from rb_delete_any [OF t(1) this] obtain h' tr' t' where
    d: "agc_rbtree_delete h tr a = Some (h', tr')" "rb_wf h' tr' t'" "inorder t' = remove1 a xs"
    "alive h' = alive h" "rkey h' = (rkey h)(a := 0)" "tsentinel tr' = tsentinel tr" "tinsert tr' = tinsert tr"
    using t(2) by auto
  have "distinct xs" using t by (auto simp: rb_wf_def)
  then have "ordered lt h' (remove1 a xs)"
    using ordered_remove1 [OF o(2)] by (subst ordered_key_away [OF _ d(5)]) simp_all
  with d o show ?thesis by (auto simp: rb_store_defs st fun_eq_iff)
qed

lemma rb_first_law: "rb_holds lt st xs \<Longrightarrow> xs \<noteq> [] \<Longrightarrow> rb_first st = Some (hd xs)"
  using rb_min_inorder by (auto simp: rb_store_defs rb_wf_def)

lemma rb_sorted_law: "rb_holds lt st xs \<Longrightarrow> distinct xs \<and> sorted_wrt (\<lambda>a b. \<not> lt (rb_key st b) (rb_key st a)) xs"
  by (auto simp: rb_store_defs rb_wf_def ordered_def)

context key_order
begin

lemma rb_ins_law:
  assumes "rb_holds lt st xs" "rb_cell st n" "n \<notin> set xs" "window (rb_key st ` insert n (set xs))"
  shows "\<exists>st' ys zs. rb_ins st n = Some st' \<and> xs = ys @ zs \<and> rb_holds lt st' (ys @ n # zs) \<and>
     rb_key st' = rb_key st \<and> rb_cell st' = rb_cell st"
proof -
  obtain h tr where st: "st = (h, tr)" by (cases st)
  from assms obtain t where t: "rb_wf h tr t" "inorder t = xs" "tinsert tr = rb_insert_loop lt" "ordered lt h xs"
    by (auto simp: rb_holds_def st)
  have s: "set_tree t = set xs" using t(2) by (metis set_inorder)
  have n: "n \<in> alive h" "n \<noteq> tsentinel tr" "n \<notin> set_tree t" "window (rkey h ` insert n (set_tree t))"
    using assms(2-4) by (simp_all add: rb_cell_def rb_key_def st s)
  from insert_ordered [OF t(1,3) n(1-3) t(4) [folded t(2)] n(4)] obtain h' tr' t' ys zs where
    "agc_rbtree_insert h tr n = Some (h', tr')" "rb_wf h' tr' t'" "kept h h'"
    "tsentinel tr' = tsentinel tr" "tinsert tr' = tinsert tr" "xs = ys @ zs" "inorder t' = ys @ n # zs"
    "ordered lt h' (inorder t')" unfolding t(2) by blast
  with t(3) show ?thesis by (auto simp: rb_store_defs st kept_def fun_eq_iff)
qed

sublocale store: ordered_store "rb_holds lt" rb_key rb_cell rb_ins rb_del rb_first lt window
  by unfold_locales (use rb_ins_law rb_del_law rb_first_law rb_sorted_law in blast)+

end


section \<open>Balance\<close>

lemma bh_size: "bal R t \<Longrightarrow> 2 ^ bh R t \<le> size1 t"
  by (induction t) (auto simp: size1_size)

lemma height_bh: "bal R t \<Longrightarrow> col_ok R t \<Longrightarrow> height t \<le> 2 * bh R t + (if top_red R t then 1 else 0)"
  by (induction t) (auto split: if_splits)

lemma wf_height:
  assumes "rb_wf h tr t"
  shows "2 ^ height t \<le> size1 t ^ 2"
proof -
  from assms have "height t \<le> 2 * bh (red_in h) t" "(2::nat) ^ bh (red_in h) t \<le> size1 t"
    using height_bh bh_size unfolding rb_wf_def by fastforce+
  then have "(2::nat) ^ height t \<le> 2 ^ (2 * bh (red_in h) t)" by (simp add: power_increasing)
  also have "\<dots> = (2 ^ bh (red_in h) t) ^ 2" by (metis mult.commute power_mult)
  also have "\<dots> \<le> size1 t ^ 2" using \<open>(2::nat) ^ bh (red_in h) t \<le> size1 t\<close> by (rule power_mono) simp
  finally show ?thesis .
qed

text \<open>The two loops that walk down the tree, with a bound on their turns.\<close>

fun descend_turns :: "(u64 \<Rightarrow> u64 \<Rightarrow> bool) \<Rightarrow> nat \<Rightarrow> rbheap \<Rightarrow> addr \<Rightarrow> addr \<Rightarrow> addr \<Rightarrow> (addr \<times> bool) option" where
  "descend_turns lt 0 h temp node sentinel = None"
| "descend_turns lt (Suc k) h temp node sentinel = do {
     nk \<leftarrow> rd rkey h node;
     tk \<leftarrow> rd rkey h temp;
     p \<leftarrow> (if lt nk tk then rd rleft h temp else rd rright h temp);
     (if p = sentinel then Some (temp, lt nk tk) else descend_turns lt k h p node sentinel)
   }"

fun min_turns :: "nat \<Rightarrow> rbheap \<Rightarrow> addr \<Rightarrow> addr \<Rightarrow> addr option" where
  "min_turns 0 h node sentinel = None"
| "min_turns (Suc k) h node sentinel = do {
     l \<leftarrow> rd rleft h node;
     (if l \<noteq> sentinel then min_turns k h l sentinel else Some node)
   }"

lemma tree_at_end: "tree_at h s p par t \<Longrightarrow> p = s \<longleftrightarrow> t = \<langle>\<rangle>"
  by (cases t) auto

lemma descend_within:
  "tree_at h s p par t \<Longrightarrow> t \<noteq> \<langle>\<rangle> \<Longrightarrow> n \<in> alive h \<Longrightarrow> height t \<le> k \<Longrightarrow>
     \<exists>x. rb_descend lt h p n s = Some x \<and> descend_turns lt k h p n s = Some x"
proof (induction t arbitrary: p par k)
  case (Node l a r)
  then obtain j where j: "k = Suc j" "height l \<le> j" "height r \<le> j" by (cases k) auto
  have c: "tree_at h s (rleft h a) a l" "tree_at h s (rright h a) a r" and a: "p = a" "a \<in> alive h" using Node.prems(1) by auto
  note e = tree_at_end [OF c(1)] tree_at_end [OF c(2)]
  show ?case
  proof (cases "lt (rkey h n) (rkey h a)")
    case True
    with Node.IH(1) [OF c(1) _ Node.prems(3) j(2)] e(1) a Node.prems(3) show ?thesis
      by (cases "l = \<langle>\<rangle>") (auto simp: rb_descend.simps [of lt h a] agc_heap j(1))
  next
    case False
    with Node.IH(2) [OF c(2) _ Node.prems(3) j(3)] e(2) a Node.prems(3) show ?thesis
      by (cases "r = \<langle>\<rangle>") (auto simp: rb_descend.simps [of lt h a] agc_heap j(1))
  qed
qed simp

lemma min_within:
  "tree_at h s p par t \<Longrightarrow> t \<noteq> \<langle>\<rangle> \<Longrightarrow> height t \<le> k \<Longrightarrow> \<exists>x. agc_rbtree_min h p s = Some x \<and> min_turns k h p s = Some x"
proof (induction t arbitrary: p par k)
  case (Node l a r)
  then obtain j where j: "k = Suc j" "height l \<le> j" by (cases k) auto
  have c: "tree_at h s (rleft h a) a l" and a: "p = a" "a \<in> alive h" using Node.prems(1) by auto
  with Node.IH(1) [OF c _ j(2)] tree_at_end [OF c] show ?case
    by (cases "l = \<langle>\<rangle>") (simp_all add: agc_rbtree_min.simps [of h a] agc_heap j(1))
qed simp

section \<open>Properties\<close>

text \<open>A store to try the properties on: nodes 2 and 4 around 3, the sentinel at 9, a free node at 5.\<close>

definition demo_heap :: rbheap where
  "demo_heap = \<lparr>alive = {2, 3, 4, 5, 9}, rkey = (\<lambda>a. of_nat a), rleft = (\<lambda>_. 9)(3 := 2),
     rright = (\<lambda>_. 9)(3 := 4), rparent = (\<lambda>_. 3)(3 := 0), rcolor = (\<lambda>_. 0)(2 := 1, 4 := 1)\<rparr>"

definition demo_tree :: "rb_insert_func \<Rightarrow> agc_rbtree" where
  "demo_tree i = \<lparr>troot = 3, tsentinel = 9, tinsert = i\<rparr>"

lemma demo_wf: "rb_wf demo_heap (demo_tree i) \<langle>\<langle>\<langle>\<rangle>, 2, \<langle>\<rangle>\<rangle>, 3, \<langle>\<langle>\<rangle>, 4, \<langle>\<rangle>\<rangle>\<rangle>"
  by (simp add: rb_wf_def demo_heap_def demo_tree_def red_in_def)

text \<open>
  C1: \<^verbatim>\<open>agc_rbtree_delete\<close> on a node of a well-formed tree returns, having touched only
  nodes of the tree; the tree is again a red-black tree, its in-order sequence is the old
  one without the node, the key of the removed node is cleared and no other key changes.
\<close>

theorem agc_rbtree_delete_correct:
  assumes "rb_wf h tr t" "a \<in> set_tree t"
  shows "\<exists>h' tr' t'. agc_rbtree_delete h tr a = Some (h', tr') \<and> rb_wf h' tr' t' \<and>
     inorder t' = remove1 a (inorder t) \<and> alive h' = alive h \<and> rkey h' = (rkey h)(a := 0) \<and>
     tsentinel tr' = tsentinel tr \<and> tinsert tr' = tinsert tr"
  by (rule rb_delete_any [OF assms])

theorem agc_rbtree_delete_correct_witness:
  "\<exists>h' tr' t'. agc_rbtree_delete demo_heap (demo_tree agc_rbtree_insert_value) 3 = Some (h', tr') \<and>
     rb_wf h' tr' t' \<and> inorder t' = [2, 4]"
  using agc_rbtree_delete_correct [OF demo_wf, of 3] by fastforce

text \<open>
  C2: \<^verbatim>\<open>agc_rbtree_insert\<close> with \<^verbatim>\<open>agc_rbtree_insert_timer_value\<close> keeps the tree red-black
  and its nodes in the order of the signed key difference, wrap-around included, as long
  as all keys lie in one window of half the key space.
\<close>

theorem agc_rbtree_insert_timer_correct:
  assumes "rb_wf h tr t" "tinsert tr = agc_rbtree_insert_timer_value"
    and "n \<in> alive h" "n \<noteq> tsentinel tr" "n \<notin> set_tree t"
    and "ordered timer_key_lt h (inorder t)" "half_window (rkey h ` insert n (set_tree t))"
  shows "\<exists>h' tr' t' xs ys. agc_rbtree_insert h tr n = Some (h', tr') \<and> rb_wf h' tr' t' \<and>
     alive h' = alive h \<and> rkey h' = rkey h \<and> tsentinel tr' = tsentinel tr \<and> tinsert tr' = tinsert tr \<and>
     inorder t = xs @ ys \<and> inorder t' = xs @ n # ys \<and> ordered timer_key_lt h' (inorder t')"
  using timer_order.insert_ordered [OF assms(1) assms(2) [unfolded agc_rbtree_insert_timer_value_def] assms(3-7)]
  unfolding kept_def by blast

lemma demo_window: "half_window (rkey demo_heap ` insert 5 {2, 3, 4})"
  unfolding half_window_def by (intro exI [of _ 0]) (simp add: demo_heap_def)

theorem agc_rbtree_insert_timer_correct_witness:
  "\<exists>h' tr' t'. agc_rbtree_insert demo_heap (demo_tree agc_rbtree_insert_timer_value) 5 = Some (h', tr') \<and>
     rb_wf h' tr' t' \<and> ordered timer_key_lt h' (inorder t') \<and> set_tree t' = {2, 3, 4, 5}"
proof -
  let ?t = "\<langle>\<langle>\<langle>\<rangle>, 2, \<langle>\<rangle>\<rangle>, 3, \<langle>\<langle>\<rangle>, 4, \<langle>\<rangle>\<rangle>\<rangle> :: addr tree"
  have "ordered timer_key_lt demo_heap (inorder ?t)"
    by (simp add: ordered_def demo_heap_def timer_key_lt_def)
  moreover have "half_window (rkey demo_heap ` insert 5 (set_tree ?t))" using demo_window by (simp add: insert_commute)
  ultimately obtain h' tr' t' xs ys where
    r: "agc_rbtree_insert demo_heap (demo_tree agc_rbtree_insert_timer_value) 5 = Some (h', tr')" "rb_wf h' tr' t'"
    "inorder ?t = xs @ ys" "inorder t' = xs @ 5 # ys" "ordered timer_key_lt h' (inorder t')"
    using agc_rbtree_insert_timer_correct [OF demo_wf, of agc_rbtree_insert_timer_value 5]
    by (fastforce simp: demo_heap_def demo_tree_def)
  have "set_tree t' = insert 5 (set (xs @ ys))" using r(4) by (simp flip: set_inorder)
  also have "\<dots> = {2, 3, 4, 5}" unfolding r(3) [symmetric] by auto
  finally show ?thesis using r by blast
qed

lemma plain_path:
  fixes k :: u64
  assumes "ordered (\<lambda>nk tk. nk < tk) h (pre c @ post c)" "\<forall>g \<in> set c. went (\<lambda>nk tk. nk < tk) h k g"
  shows "(\<forall>x \<in> set (pre c). rkey h x \<le> k) \<and> (\<forall>y \<in> set (post c). k < rkey h y)"
  using assms
proof (induction c)
  case (Cons f c)
  show ?case
  proof (cases f)
    case (FL a r)
    with Cons.prems have a: "k < rkey h a" "\<forall>y \<in> set (inorder r). rkey h a \<le> rkey h y"
      and o: "ordered (\<lambda>nk tk. nk < tk) h (pre c @ post c)"
      by (auto simp: ordered_append ordered_Cons not_less)
    from Cons.IH [OF o] Cons.prems(2) a FL show ?thesis by (auto intro: less_le_trans)
  next
    case (FR l a)
    with Cons.prems have a: "rkey h a \<le> k" "\<forall>y \<in> set (inorder l). rkey h y \<le> rkey h a"
      and o: "ordered (\<lambda>nk tk. nk < tk) h (pre c @ post c)"
      by (auto simp: ordered_append ordered_Cons not_less)
    from Cons.IH [OF o] Cons.prems(2) a FR show ?thesis by (auto intro: order_trans)
  qed
qed simp

text \<open>
  \<^verbatim>\<open>agc_rbtree_insert\<close> with \<^verbatim>\<open>agc_rbtree_insert_value\<close> keeps the tree red-black and
  sorted by unsigned key; the new node stands after the nodes with an equal key.
\<close>

theorem agc_rbtree_insert_correct:
  assumes "rb_wf h tr t" "tinsert tr = agc_rbtree_insert_value"
    and "n \<in> alive h" "n \<noteq> tsentinel tr" "n \<notin> set_tree t" "sorted (map (rkey h) (inorder t))"
  shows "\<exists>h' tr' t' xs ys. agc_rbtree_insert h tr n = Some (h', tr') \<and> rb_wf h' tr' t' \<and>
     alive h' = alive h \<and> rkey h' = rkey h \<and> tsentinel tr' = tsentinel tr \<and> tinsert tr' = tinsert tr \<and>
     inorder t = xs @ ys \<and> inorder t' = xs @ n # ys \<and> sorted (map (rkey h') (inorder t')) \<and>
     (\<forall>y \<in> set ys. rkey h n < rkey h y)"
proof -
  let ?lt = "\<lambda>nk tk :: u64. nk < tk"
  have srt: "ordered ?lt h as \<longleftrightarrow> sorted (map (rkey h) as)" for h as
    by (induction as) (auto simp: ordered_def not_less)
  have tr: "tinsert tr = rb_insert_loop ?lt" using assms(2) by (simp add: agc_rbtree_insert_value_def)
  from rb_insert_any [OF assms(1) tr assms(3-5)] obtain h' tr' t' c where
    r: "agc_rbtree_insert h tr n = Some (h', tr')" "rb_wf h' tr' t'" "kept h h'"
       "tsentinel tr' = tsentinel tr" "tinsert tr' = tinsert tr" and
    c: "plug c \<langle>\<rangle> = t" "\<forall>g \<in> set c. went ?lt h (rkey h n) g" and
    io: "inorder t' = pre c @ n # post c" by blast
  have io0: "inorder t = pre c @ post c" using inorder_plug [of c "\<langle>\<rangle>"] c(1) by simp
  have o: "ordered ?lt h (pre c @ post c)" using assms(6) io0 srt by simp
  have *: "(\<forall>x \<in> set (pre c). rkey h x \<le> rkey h n) \<and> (\<forall>y \<in> set (post c). rkey h n < rkey h y)"
    by (rule plain_path [OF o c(2)])
  then have "ordered ?lt h (pre c @ n # post c)"
    using o by (auto simp: ordered_append ordered_Cons not_less)
  then have "sorted (map (rkey h') (inorder t'))" using io r(3) srt by (simp add: kept_def)
  with r io io0 * show ?thesis unfolding kept_def by blast
qed

theorem agc_rbtree_insert_correct_witness:
  "\<exists>h' tr' t'. agc_rbtree_insert demo_heap (demo_tree agc_rbtree_insert_value) 5 = Some (h', tr') \<and>
     rb_wf h' tr' t' \<and> sorted (map (rkey h') (inorder t')) \<and> length (inorder t') = 4"
proof -
  let ?t = "\<langle>\<langle>\<langle>\<rangle>, 2, \<langle>\<rangle>\<rangle>, 3, \<langle>\<langle>\<rangle>, 4, \<langle>\<rangle>\<rangle>\<rangle> :: addr tree"
  have "sorted (map (rkey demo_heap) (inorder ?t))" by (simp add: demo_heap_def)
  then obtain h' tr' t' xs ys where
    r: "agc_rbtree_insert demo_heap (demo_tree agc_rbtree_insert_value) 5 = Some (h', tr')" "rb_wf h' tr' t'"
    "inorder ?t = xs @ ys" "inorder t' = xs @ 5 # ys" "sorted (map (rkey h') (inorder t'))"
    using agc_rbtree_insert_correct [OF demo_wf, of agc_rbtree_insert_value 5]
    by (fastforce simp: demo_heap_def demo_tree_def)
  have "length (inorder t') = Suc (length (inorder ?t))" unfolding r(3,4) by simp
  then have "length (inorder t') = 4" by simp
  with r show ?thesis by blast
qed

text \<open>
  \<^verbatim>\<open>agc_rbtree_next\<close> returns for every node of a well-formed tree: the next node of the
  in-order sequence, and \<^verbatim>\<open>NULL\<close> exactly at the last one.
\<close>

theorem agc_rbtree_next_correct:
  assumes "rb_wf h tr t" "inorder t = xs @ a # ys"
  shows "agc_rbtree_next h tr a = Some (case ys of [] \<Rightarrow> NULL | y # _ \<Rightarrow> y)"
  by (rule rb_next_inorder [OF assms])

theorem agc_rbtree_next_correct_witness:
  "agc_rbtree_next demo_heap (demo_tree agc_rbtree_insert_value) 2 = Some 3 \<and>
   agc_rbtree_next demo_heap (demo_tree agc_rbtree_insert_value) 4 = Some NULL"
  using agc_rbtree_next_correct [OF demo_wf, of "[]" 2 "[3, 4]"] agc_rbtree_next_correct [OF demo_wf, of "[2, 3]" 4 "[]"]
  by simp

text \<open>
  C32: inserting nodes into an empty timer tree and then removing the minimum again and
  again returns exactly those nodes, in the order of their deadlines.
\<close>

theorem rb_timer_fill_drain:
  assumes "rb_wf h tr \<langle>\<rangle>" "tinsert tr = agc_rbtree_insert_timer_value" "distinct ns"
    and "set ns \<subseteq> alive h - {tsentinel tr}" "half_window (rkey h ` set ns)"
  shows "\<exists>st ys. fill rb_ins (h, tr) ns = Some st \<and> drain rb_first rb_del (length ns) st = Some ys \<and>
     mset ys = mset ns \<and> sorted_wrt (\<lambda>a b. \<not> timer_key_lt (rkey h b) (rkey h a)) ys"
proof -
  have "rb_holds timer_key_lt (h, tr) []"
    using assms(1,2) by (auto simp: rb_holds_def ordered_def agc_rbtree_insert_timer_value_def)
  moreover have "half_window K" if "K \<subseteq> rb_key (h, tr) ` set ns" for K
    using assms(5) that unfolding half_window_def rb_key_def by fastforce
  moreover have "\<forall>n \<in> set ns. rb_cell (h, tr) n" using assms(4) by (auto simp: rb_cell_def)
  ultimately show ?thesis
    using timer_order.store.fill_drain [of "(h, tr)" ns] assms(3) unfolding rb_key_def by simp
qed

definition demo_empty :: rbheap where
  "demo_empty = demo_heap\<lparr>rkey := (\<lambda>_. 0)(2 := 30, 3 := - 10, 4 := 20)\<rparr>"

theorem rb_timer_fill_drain_witness:
  "\<exists>st ys. fill rb_ins (demo_empty, \<lparr>troot = 9, tsentinel = 9, tinsert = agc_rbtree_insert_timer_value\<rparr>) [2, 3, 4] = Some st \<and>
     drain rb_first rb_del 3 st = Some ys \<and> mset ys = mset [2, 3, 4]"
proof -
  let ?tr = "\<lparr>troot = 9, tsentinel = 9, tinsert = agc_rbtree_insert_timer_value\<rparr>"
  have "rb_wf demo_empty ?tr \<langle>\<rangle>" by (simp add: rb_wf_def demo_empty_def demo_heap_def red_in_def)
  moreover have "half_window (rkey demo_empty ` set [2, 3, 4])"
    unfolding half_window_def by (intro exI [of _ "- 10"]) (simp add: demo_empty_def)
  moreover have "set [2, 3, 4] \<subseteq> alive demo_empty - {tsentinel ?tr}" by (simp add: demo_empty_def demo_heap_def)
  moreover have "distinct [2, 3, 4 :: addr]" "tinsert ?tr = agc_rbtree_insert_timer_value" by simp_all
  ultimately have "\<exists>st ys. fill rb_ins (demo_empty, ?tr) [2, 3, 4] = Some st \<and>
      drain rb_first rb_del (length [2, 3, 4 :: addr]) st = Some ys \<and> mset ys = mset [2, 3, 4] \<and>
      sorted_wrt (\<lambda>a b. \<not> timer_key_lt (rkey demo_empty b) (rkey demo_empty a)) ys"
    by (intro rb_timer_fill_drain)
  moreover have "length [2, 3, 4 :: addr] = 3" by simp
  ultimately show ?thesis by (metis (no_types, lifting))
qed

text \<open>
  C34: the walks down the tree are logarithmic. After any number of nodes has been inserted into an empty
  timer tree, in any order of their keys, the walk with which the next insertion finds its place and the walk to the first
  timer return after \<open>k\<close> turns of their loops, where \<open>2 ^ k\<close> is at most the square of the number of nodes plus one.
\<close>

theorem rb_timer_walks_logarithmic:
  assumes "rb_wf h tr \<langle>\<rangle>" "tinsert tr = agc_rbtree_insert_timer_value" "distinct ns" "ns \<noteq> []"
    and "set ns \<subseteq> alive h - {tsentinel tr}" "half_window (rkey h ` set ns)" "n \<in> alive h - {tsentinel tr}"
  shows "\<exists>h' tr' k p q. fill rb_ins (h, tr) ns = Some (h', tr') \<and> 2 ^ k \<le> (length ns + 1) ^ 2 \<and>
     rb_descend timer_key_lt h' (troot tr') n (tsentinel tr') = Some p \<and> descend_turns timer_key_lt k h' (troot tr') n (tsentinel tr') = Some p \<and>
     agc_rbtree_min h' (troot tr') (tsentinel tr') = Some q \<and> min_turns k h' (troot tr') (tsentinel tr') = Some q"
proof -
  have "rb_holds timer_key_lt (h, tr) []"
    using assms(1,2) by (auto simp: rb_holds_def ordered_def agc_rbtree_insert_timer_value_def)
  moreover have "half_window K" if "K \<subseteq> rb_key (h, tr) ` (set ns \<union> set [])" for K
    using assms(6) that unfolding half_window_def rb_key_def by fastforce
  moreover have "\<forall>n \<in> set ns. rb_cell (h, tr) n" using assms(5) by (auto simp: rb_cell_def)
  ultimately have "\<exists>st ys. fill rb_ins (h, tr) ns = Some st \<and> rb_holds timer_key_lt st ys \<and> mset ys = mset ns + mset [] \<and>
      rb_key st = rb_key (h, tr) \<and> rb_cell st = rb_cell (h, tr)"
    using assms(3) by (intro timer_order.store.fill_holds) simp_all
  then obtain h' tr' ys where f: "fill rb_ins (h, tr) ns = Some (h', tr')" "rb_holds timer_key_lt (h', tr') ys" "mset ys = mset ns"
    "rb_cell (h', tr') = rb_cell (h, tr)" by auto
  from f(2) obtain t where t: "rb_wf h' tr' t" "inorder t = ys" by (auto simp: rb_holds_def)
  have "size t = length ns" using t(2) f(3) by (metis length_inorder size_mset)
  then have k: "2 ^ height t \<le> (length ns + 1) ^ 2" "t \<noteq> \<langle>\<rangle>" using wf_height [OF t(1)] assms(4) by (auto simp: size1_size)
  have "rb_cell (h', tr') n" using assms(7) by (simp add: f(4) rb_cell_def)
  then have tr: "tree_at h' (tsentinel tr') (troot tr') (rparent h' (troot tr')) t" "n \<in> alive h'"
    using t(1) by (simp_all add: rb_wf_def rb_cell_def)
  from descend_within [OF tr(1) k(2) tr(2) order_refl, of timer_key_lt] min_within [OF tr(1) k(2) order_refl] f(1) k(1)
  show ?thesis by blast
qed

theorem rb_timer_walks_logarithmic_witness:
  "\<exists>h' tr' k. fill rb_ins (demo_empty, \<lparr>troot = 9, tsentinel = 9, tinsert = agc_rbtree_insert_timer_value\<rparr>) [2, 3, 4] = Some (h', tr') \<and>
     2 ^ k \<le> (16 :: nat) \<and> descend_turns timer_key_lt k h' (troot tr') 5 (tsentinel tr') \<noteq> None"
proof -
  let ?tr = "\<lparr>troot = 9, tsentinel = 9, tinsert = agc_rbtree_insert_timer_value\<rparr>"
  have "rb_wf demo_empty ?tr \<langle>\<rangle>" by (simp add: rb_wf_def demo_empty_def demo_heap_def red_in_def)
  moreover have "half_window (rkey demo_empty ` set [2, 3, 4])"
    unfolding half_window_def by (intro exI [of _ "- 10"]) (simp add: demo_empty_def)
  moreover have "set [2, 3, 4] \<subseteq> alive demo_empty - {tsentinel ?tr}" "5 \<in> alive demo_empty - {tsentinel ?tr}"
    by (simp_all add: demo_empty_def demo_heap_def)
  moreover have "distinct [2, 3, 4 :: addr]" "[2, 3, 4 :: addr] \<noteq> []" "tinsert ?tr = agc_rbtree_insert_timer_value" by simp_all
  ultimately obtain h' tr' k p where r: "fill rb_ins (demo_empty, ?tr) [2, 3, 4] = Some (h', tr')" "2 ^ k \<le> (length [2, 3, 4 :: addr] + 1) ^ 2"
    "descend_turns timer_key_lt k h' (troot tr') 5 (tsentinel tr') = Some p"
    using rb_timer_walks_logarithmic [of demo_empty ?tr "[2, 3, 4]" 5] by metis
  have "2 ^ k \<le> (16 :: nat)" using r(2) by (simp add: power2_eq_square)
  with r(1,3) show ?thesis by blast
qed

end
