(* ===== verification/Agc_Rbtree_Frame.thy ===== *)
theory Agc_Rbtree_Frame
  imports Agc_Rbtree_Delete
begin

text \<open>
  What \<^verbatim>\<open>agc_rbtree_delete\<close> leaves in the node that it removes: its links are cleared, and the loop that
  rebalances the tree does not write them again. A run of the loop in a store without the node is
  the same run in the store with it, and such a run cannot write the node.
\<close>

section \<open>Runs in a larger store\<close>

text \<open>The same store with more nodes, and since the beginning nothing was written outside of the nodes it has.\<close>

definition wider :: "addr set \<Rightarrow> rbheap \<Rightarrow> rbheap \<Rightarrow> rbheap \<Rightarrow> bool" where
  "wider B h0 h h' \<longleftrightarrow> h' = h\<lparr>alive := B\<rparr> \<and> alive h = alive h0 \<and> alive h0 \<subseteq> B \<and>
     (\<forall>z. z \<notin> alive h0 \<longrightarrow> rleft h z = rleft h0 z \<and> rright h z = rright h0 z)"

definition tracks :: "('a \<Rightarrow> 'b \<Rightarrow> bool) \<Rightarrow> 'a option \<Rightarrow> 'b option \<Rightarrow> bool" where
  "tracks R m m' \<longleftrightarrow> (\<forall>x. m = Some x \<longrightarrow> (\<exists>x'. m' = Some x' \<and> R x x'))"

lemma tracks_bind:
  "tracks R m m' \<Longrightarrow> (\<And>x x'. R x x' \<Longrightarrow> tracks S (f x) (f' x')) \<Longrightarrow> tracks S (m \<bind> f) (m' \<bind> f')"
  by (cases m) (auto simp: tracks_def)

lemma tracks_eq:
  "tracks (=) m m' \<Longrightarrow> (\<And>x. tracks S (f x) (f' x)) \<Longrightarrow> tracks S (m \<bind> f) (m' \<bind> f')"
  by (erule tracks_bind) auto

lemma tracks_heap:
  "tracks (wider B h0) m m' \<Longrightarrow> (\<And>h h'. wider B h0 h h' \<Longrightarrow> tracks S (f h) (f' h')) \<Longrightarrow> tracks S (m \<bind> f) (m' \<bind> f')"
  by (rule tracks_bind)

lemma tracks_pair:
  "tracks (rel_prod (wider B h0) (=)) m m' \<Longrightarrow> (\<And>h h' r. wider B h0 h h' \<Longrightarrow> tracks S (f h r) (f' h' r)) \<Longrightarrow>
   tracks S (m \<bind> (\<lambda>(h, r). f h r)) (m' \<bind> (\<lambda>(h, r). f' h r))"
  by (erule tracks_bind) auto

lemma tracks_triple:
  "tracks (rel_prod (wider B h0) (=)) m m' \<Longrightarrow> (\<And>h h' r w. wider B h0 h h' \<Longrightarrow> tracks S (f h r w) (f' h' r w)) \<Longrightarrow>
   tracks S (m \<bind> (\<lambda>(h, r, w). f h r w)) (m' \<bind> (\<lambda>(h, r, w). f' h r w))"
  by (erule tracks_bind) auto

lemma tracks_if: "(c \<Longrightarrow> tracks R a a') \<Longrightarrow> (\<not> c \<Longrightarrow> tracks R b b') \<Longrightarrow> tracks R (if c then a else b) (if c then a' else b')"
  by simp

lemma tracks_return:
  "wider B h0 h h' \<Longrightarrow> tracks (wider B h0) (Some h) (Some h')"
  "wider B h0 h h' \<Longrightarrow> tracks (rel_prod (wider B h0) (=)) (Some (h, r)) (Some (h', r))"
  "tracks (=) (Some x) (Some x)"
  by (simp_all add: tracks_def)

lemma tracks_read:
  assumes "wider B h0 h h'"
  shows "tracks (=) (rd rleft h a) (rd rleft h' a)" "tracks (=) (rd rright h a) (rd rright h' a)"
    "tracks (=) (rd rparent h a) (rd rparent h' a)" "tracks (=) (rd rcolor h a) (rd rcolor h' a)"
  using assms by (auto simp: tracks_def wider_def rd_def split: if_splits)

lemma tracks_write:
  assumes "wider B h0 h h'"
  shows "tracks (wider B h0) (wr_left h a v) (wr_left h' a v)" "tracks (wider B h0) (wr_right h a v) (wr_right h' a v)"
    "tracks (wider B h0) (wr_parent h a v) (wr_parent h' a v)" "tracks (wider B h0) (wr_color h a c) (wr_color h' a c)"
  using assms by (auto simp: tracks_def wider_def wr_left_def wr_right_def wr_parent_def wr_color_def split: if_splits)

lemma tracks_colour:
  assumes "wider B h0 h h'"
  shows "tracks (wider B h0) (agc_rbt_red h a) (agc_rbt_red h' a)" "tracks (wider B h0) (agc_rbt_black h a) (agc_rbt_black h' a)"
    "tracks (=) (agc_rbt_is_red h a) (agc_rbt_is_red h' a)" "tracks (=) (agc_rbt_is_black h a) (agc_rbt_is_black h' a)"
    "tracks (wider B h0) (agc_rbt_copy_color h a b) (agc_rbt_copy_color h' a b)"
  unfolding agc_rbt_red_def agc_rbt_black_def agc_rbt_is_red_def agc_rbt_is_black_def agc_rbt_copy_color_def
  by (rule tracks_write tracks_eq tracks_read tracks_return assms)+

lemmas tracks_steps = tracks_read tracks_write tracks_colour tracks_return tracks_triple tracks_pair
  tracks_heap tracks_eq [where 'a = addr] tracks_eq [where 'a = bool] tracks_if

section \<open>The loop\<close>

lemma tracks_rotate:
  assumes "wider B h0 h h'"
  shows "tracks (rel_prod (wider B h0) (=)) (agc_rbtree_left_rotate h root s n) (agc_rbtree_left_rotate h' root s n)"
    "tracks (rel_prod (wider B h0) (=)) (agc_rbtree_right_rotate h root s n) (agc_rbtree_right_rotate h' root s n)"
  unfolding agc_rbtree_left_rotate_def agc_rbtree_right_rotate_def
  by (rule assms tracks_steps | assumption)+

lemma tracks_children:
  assumes "wider B h0 h h'"
  shows "tracks (=) (rb_children_black h w) (rb_children_black h' w)"
  unfolding rb_children_black_def by (rule assms tracks_steps | assumption)+

lemma tracks_sibling:
  assumes "wider B h0 h h'"
  shows "tracks (rel_prod (wider B h0) (=)) (rb_sibling_left h root s n) (rb_sibling_left h' root s n)"
    "tracks (rel_prod (wider B h0) (=)) (rb_sibling_right h root s n) (rb_sibling_right h' root s n)"
  unfolding rb_sibling_left_def rb_sibling_right_def
  by (rule assms tracks_rotate tracks_steps | assumption)+

lemma tracks_fix:
  assumes "wider B h0 h h'"
  shows "tracks (rel_prod (wider B h0) (=)) (rb_fix_left h root s n w) (rb_fix_left h' root s n w)"
    "tracks (rel_prod (wider B h0) (=)) (rb_fix_right h root s n w) (rb_fix_right h' root s n w)"
  unfolding rb_fix_left_def rb_fix_right_def
  by (rule assms tracks_rotate tracks_children tracks_steps | assumption)+

lemma tracks_body:
  assumes "wider B h0 h h'"
  shows "tracks (rel_prod (wider B h0) (=)) (rb_delete_body h root s n) (rb_delete_body h' root s n)"
  unfolding rb_delete_body_def
  by (rule assms tracks_sibling tracks_fix tracks_steps | assumption)+

lemma tracks_fixup:
  assumes "wider B h0 h h'"
  shows "tracks (rel_prod (wider B h0) (=)) (rb_delete_fixup h root s n) (rb_delete_fixup h' root s n)"
proof -
  let ?P = "\<lambda>h root s n y. \<forall>h'. wider B h0 h h' \<longrightarrow> (\<exists>y'. rb_delete_fixup h' root s n = Some y' \<and> rel_prod (wider B h0) (=) y y')"
  have "?P h root s n y" if "rb_delete_fixup h root s n = Some y" for y
  proof (rule rb_delete_fixup.raw_induct [of ?P, OF _ that])
    fix f h root s n y
    assume a: "\<And>h root s n y. f h root s n = Some y \<Longrightarrow> ?P h root s n y"
      and b: "(if n = root then Some (h, root, n)
         else do { black \<leftarrow> agc_rbt_is_black h n;
           (if black then do { (h, root, n) \<leftarrow> rb_delete_body h root s n; f h root s n } else Some (h, root, n)) }) = Some y"
        (is "?m = _")
    have IH: "tracks (rel_prod (wider B h0) (=)) (f g root s n) (rb_delete_fixup g' root s n)" if "wider B h0 g g'" for g g' root s n
      using a that unfolding tracks_def by blast
    have "tracks (rel_prod (wider B h0) (=)) ?m (rb_delete_fixup h' root s n)" if "wider B h0 h h'" for h'
      by (subst rb_delete_fixup.simps) (rule that IH tracks_body tracks_steps | assumption)+
    with b show "?P h root s n y" by (simp only: tracks_def) blast
  qed
  with assms show ?thesis by (auto simp: tracks_def)
qed

section \<open>The removed node\<close>

lemma tree_at_without: "tree_at h s p par t \<Longrightarrow> a \<notin> set_tree t \<Longrightarrow> tree_at (h\<lparr>alive := alive h - {a}\<rparr>) s p par t"
  by (induction t arbitrary: p par) auto

lemma ctx_at_without: "ctx_at h s root q par c \<Longrightarrow> a \<notin> ctx_set c \<Longrightarrow> ctx_at (h\<lparr>alive := alive h - {a}\<rparr>) s root q par c"
  by (induction h s root q par c rule: ctx_at.induct) (auto simp: tree_at_without)

lemma del_inv_without:
  assumes "del_inv h s root c q t" "a \<notin> set_tree (plug c t)" "a \<noteq> s"
  shows "del_inv (h\<lparr>alive := alive h - {a}\<rparr>) s root c q t"
proof -
  have "red_in (h\<lparr>alive := alive h - {a}\<rparr>) = red_in h" by (rule ext) (simp add: red_in_def)
  then show ?thesis using assms tree_at_without [of h s q "rparent h q" t a] ctx_at_without [of h s root q "rparent h q" c a]
    by (auto simp: del_inv_def focus_def set_tree_plug)
qed

lemma fixup_unwritten:
  assumes "del_inv h s root c q t" "a \<notin> set_tree (plug c t)" "a \<noteq> s" "rb_delete_fixup h root s q = Some (h', root', q')"
  shows "rleft h' a = rleft h a \<and> rright h' a = rright h a"
proof -
  let ?g = "h\<lparr>alive := alive h - {a}\<rparr>"
  from delete_fixup_ends [OF del_inv_without [OF assms(1-3)]] obtain g' r p where
    g: "rb_delete_fixup ?g root s q = Some (g', r, p)" by blast
  have "wider (alive h) ?g ?g h" by (auto simp: wider_def)
  from tracks_fixup [OF this, of root s q] g assms(4) have "wider (alive h) ?g g' h'" by (auto simp: tracks_def)
  then show ?thesis by (auto simp: wider_def)
qed

lemma clear_links: "rb_clear_node h a = Some h' \<Longrightarrow> rleft h' a = NULL \<and> rright h' a = NULL"
  by (auto simp: rb_clear_node_def bind_Some_iff wr_left_def wr_right_def wr_parent_def wr_key_def split: if_splits)

lemma unlink_clears:
  "rb_delete_unlink h root s a = Some (h', root', f) \<Longrightarrow> rleft h' a = NULL \<and> rright h' a = NULL"
  unfolding rb_delete_unlink_def by (auto simp: bind_Some_iff split: if_splits dest!: clear_links)

lemma black_links: "agc_rbt_black h a = Some h' \<Longrightarrow> rleft h' = rleft h \<and> rright h' = rright h"
  by (auto simp: agc_rbt_black_def wr_color_def split: if_splits)

lemma unlinked_cleared:
  assumes "rb_delete_unlink h (troot tr) (tsentinel tr) a = Some (h1, root1, if wasred then None else Some q)"
    "unlinked h1 (tsentinel tr) root1 C q t wasred" "a \<notin> set_tree (plug C t)" "a \<noteq> tsentinel tr"
    "agc_rbtree_delete h tr a = Some (h', tr')"
  shows "rleft h' a = NULL \<and> rright h' a = NULL"
proof (cases wasred)
  case True
  with assms(1,5) unlink_clears [OF assms(1)] show ?thesis by (auto simp: agc_rbtree_delete_def)
next
  case False
  then have i: "del_inv h1 (tsentinel tr) root1 C q t" using assms(2) by (simp add: unlinked_def del_inv_def)
  from False assms(1,5) obtain h2 root2 q2 where
    "rb_delete_fixup h1 root1 (tsentinel tr) q = Some (h2, root2, q2)" "agc_rbt_black h2 q2 = Some h'"
    by (auto simp: agc_rbtree_delete_def bind_Some_iff)
  with fixup_unwritten [OF i assms(3,4)] black_links unlink_clears [OF assms(1)] show ?thesis by metis
qed

text \<open>The removed node holds null pointers afterwards.\<close>

lemma delete_cleared:
  assumes "rb_wf h tr t" "a \<in> set_tree t" "agc_rbtree_delete h tr a = Some (h', tr')"
  shows "rleft h' a = NULL \<and> rright h' a = NULL"
proof -
  from zipper_ex [OF assms(2)] obtain c l r where t: "t = plug c \<langle>l, a, r\<rangle>" by blast
  note w = assms(1) [unfolded t]
  note N = focus_node [OF wf_focus [OF w]]
  have "distinct (inorder t)" using assms(1) by (simp add: rb_wf_def)
  then have out: "a \<notin> set (pre c @ inorder l @ inorder r @ post c)" by (simp add: t inorder_plug)
  have s: "a \<noteq> tsentinel tr" using assms(1,2) N by (metis focus_node)
  consider (two) "l \<noteq> \<langle>\<rangle>" "r \<noteq> \<langle>\<rangle>" | (one) f c' where "c = f # c'" "l = \<langle>\<rangle> \<or> r = \<langle>\<rangle>" | (top) "c = []" "l = \<langle>\<rangle> \<or> r = \<langle>\<rangle>"
    by (cases c) auto
  then show ?thesis
  proof cases
    case two
    from unlink_two_inv [OF w two] obtain h1 root1 C q u wasred where
      "rb_delete_unlink h (troot tr) (tsentinel tr) a = Some (h1, root1, if wasred then None else Some q)"
      "unlinked h1 (tsentinel tr) root1 C q u wasred" "inorder (plug C u) = pre c @ inorder l @ inorder r @ post c" by blast
    with unlinked_cleared out s assms(3) show ?thesis by (metis set_inorder)
  next
    case one
    from unlink_one_inv [OF w [unfolded one(1)] one(2)] obtain h1 root1 C q u wasred where
      "rb_delete_unlink h (troot tr) (tsentinel tr) a = Some (h1, root1, if wasred then None else Some q)"
      "unlinked h1 (tsentinel tr) root1 C q u wasred" "inorder (plug C u) = pre c @ inorder l @ inorder r @ post c"
      unfolding one(1) by blast
    with unlinked_cleared out s assms(3) show ?thesis by (metis set_inorder)
  next
    case top
    have "rb_wf h tr \<langle>l, a, r\<rangle>" using w top(1) by simp
    from unlink_root_wf [OF this top(2)] obtain h1 q where u: "rb_delete_unlink h (troot tr) (tsentinel tr) a = Some (h1, q, None)" by blast
    with assms(3) unlink_clears [OF u] show ?thesis by (simp add: agc_rbtree_delete_def)
  qed
qed

end
