(* ===== verification/Agc_Event_Headers.thy ===== *)
theory Agc_Event_Headers
  imports Agc_Prelude
begin

text \<open>
  Events and their header lists (\<^verbatim>\<open>src/src/agc_event.c\<close>, \<^verbatim>\<open>src/src/include/agc_event.h\<close>).
  The headers of an event are a singly linked list with a pointer to its last node, on an
  explicit store: \<^const>\<open>None\<close> is a dereference of a header that is not allocated, a free
  of one that is already free, or a loop that never ends. The address \<^verbatim>\<open>malloc\<close> returns is
  an argument.
\<close>

section \<open>Events\<close>

record agc_event =
  event_id :: int
  source_id :: u32
  debug_id :: int
  headers :: addr
  last_header :: addr
  event_context :: addr
  fast :: addr
  body :: "string option"
  call_back :: addr
  timer_set :: bool

definition agc_event_create :: "int \<Rightarrow> u32 \<Rightarrow> agc_event" where
  "agc_event_create eid src = \<lparr>event_id = eid, source_id = src, debug_id = 0, headers = NULL, last_header = NULL,
     event_context = NULL, fast = NULL, body = None, call_back = NULL, timer_set = False\<rparr>"

definition agc_event_set_id :: "agc_event \<Rightarrow> int \<Rightarrow> agc_event" where
  "agc_event_set_id ev eid = ev\<lparr>event_id := eid\<rparr>"

definition agc_event_create_callback :: "u32 \<Rightarrow> addr \<Rightarrow> addr \<Rightarrow> agc_event" where
  "agc_event_create_callback src data callback =
     (agc_event_create 0 src)\<lparr>call_back := callback, event_context := data\<rparr>"

definition agc_event_set_body :: "agc_event \<Rightarrow> string option \<Rightarrow> agc_status \<times> agc_event" where
  "agc_event_set_body ev b = (case b of None \<Rightarrow> (AGC_STATUS_GENERR, ev)
     | Some s \<Rightarrow> (AGC_STATUS_SUCCESS, ev\<lparr>body := Some s\<rparr>))"

text \<open>The formatted text is the argument; \<^const>\<open>None\<close> is a failing \<^verbatim>\<open>agc_vasprintf\<close>.\<close>

definition agc_event_add_body :: "agc_event \<Rightarrow> string option option \<Rightarrow> agc_status \<times> agc_event" where
  "agc_event_add_body ev fmt = (case fmt of Some (Some data) \<Rightarrow> (AGC_STATUS_SUCCESS, ev\<lparr>body := Some data\<rparr>)
     | _ \<Rightarrow> (AGC_STATUS_GENERR, ev))"

definition agc_event_get_body :: "agc_event option \<Rightarrow> string option" where
  "agc_event_get_body ev = (case ev of None \<Rightarrow> None | Some ev \<Rightarrow> body ev)"

section \<open>The store of headers\<close>

record hheap =
  hlive :: "addr set"
  hname :: "addr \<Rightarrow> string"
  hvalue :: "addr \<Rightarrow> string option"
  hnext :: "addr \<Rightarrow> addr"

definition new_header :: "hheap \<Rightarrow> addr \<Rightarrow> string \<Rightarrow> hheap" where
  "new_header h a name = h\<lparr>hlive := insert a (hlive h), hname := (hname h)(a := name),
     hvalue := (hvalue h)(a := None), hnext := (hnext h)(a := NULL)\<rparr>"

definition free_header :: "hheap \<Rightarrow> addr \<Rightarrow> hheap" where
  "free_header h a = h\<lparr>hlive := hlive h - {a}\<rparr>"

definition set_next :: "hheap \<Rightarrow> addr \<Rightarrow> addr \<Rightarrow> hheap option" where
  "set_next h a n = (if a \<in> hlive h then Some (h\<lparr>hnext := (hnext h)(a := n)\<rparr>) else None)"

section \<open>Looking a header up\<close>

partial_function (option) header_search :: "hheap \<Rightarrow> addr \<Rightarrow> string \<Rightarrow> addr option" where
  "header_search h hp name =
     (if hp = NULL then Some NULL
      else if hp \<notin> hlive h then None
      else if strcasecmp_eq (hname h hp) name then Some hp
      else header_search h (hnext h hp) name)"

definition agc_event_get_header_ptr :: "hheap \<Rightarrow> agc_event \<Rightarrow> string option \<Rightarrow> addr option" where
  "agc_event_get_header_ptr h ev header_name =
     (case header_name of None \<Rightarrow> Some NULL | Some name \<Rightarrow> header_search h (headers ev) name)"

definition agc_event_get_header :: "hheap \<Rightarrow> agc_event \<Rightarrow> string option \<Rightarrow> string option option" where
  "agc_event_get_header h ev header_name = do {
     hp \<leftarrow> agc_event_get_header_ptr h ev header_name;
     Some (if hp \<noteq> NULL then hvalue h hp else None)
   }"

section \<open>Adding a header\<close>

text \<open>The common tail of the two functions: the header goes behind \<^verbatim>\<open>last_header\<close>.\<close>

definition link_header :: "hheap \<Rightarrow> agc_event \<Rightarrow> addr \<Rightarrow> (hheap \<times> agc_event) option" where
  "link_header h ev header =
     (if last_header ev \<noteq> NULL then do {
        h \<leftarrow> set_next h (last_header ev) header;
        Some (h, ev\<lparr>last_header := header\<rparr>)
      } else do {
        h \<leftarrow> set_next h header NULL;
        Some (h, ev\<lparr>headers := header, last_header := header\<rparr>)
      })"

definition agc_event_base_add_header ::
  "hheap \<Rightarrow> agc_event \<Rightarrow> addr \<Rightarrow> string \<Rightarrow> string \<Rightarrow> (hheap \<times> agc_event) option" where
  "agc_event_base_add_header h ev a header_name data = do {
     hp \<leftarrow> agc_event_get_header_ptr h ev (Some header_name);
     let header = (if hp = NULL then a else hp);
     let h = (if hp = NULL then new_header h a header_name else h);
     let h = h\<lparr>hvalue := (hvalue h)(header := Some data)\<rparr>;
     link_header h ev header
   }"

definition agc_event_base_add_header_nocheck ::
  "hheap \<Rightarrow> agc_event \<Rightarrow> addr \<Rightarrow> string \<Rightarrow> string \<Rightarrow> (hheap \<times> agc_event) option" where
  "agc_event_base_add_header_nocheck h ev a header_name data = do {
     let h = new_header h a header_name;
     let h = h\<lparr>hvalue := (hvalue h)(a := Some data)\<rparr>;
     link_header h ev a
   }"

text \<open>
  The entry points: formatted data for \<^verbatim>\<open>agc_event_add_header\<close> and
  \<^verbatim>\<open>agc_event_add_header_repeatcheck\<close>, a string for \<^verbatim>\<open>agc_event_add_header_string\<close>.
\<close>

definition agc_event_add_header ::
  "hheap \<Rightarrow> agc_event \<Rightarrow> addr \<Rightarrow> string \<Rightarrow> string option \<Rightarrow> (agc_status \<times> hheap \<times> agc_event) option" where
  "agc_event_add_header h ev a header_name fmt = (case fmt of
     None \<Rightarrow> Some (AGC_STATUS_MEMERR, h, ev)
   | Some data \<Rightarrow> do { r \<leftarrow> agc_event_base_add_header_nocheck h ev a header_name data; Some (AGC_STATUS_SUCCESS, r) })"

definition agc_event_add_header_repeatcheck ::
  "hheap \<Rightarrow> agc_event \<Rightarrow> addr \<Rightarrow> string \<Rightarrow> string option \<Rightarrow> (agc_status \<times> hheap \<times> agc_event) option" where
  "agc_event_add_header_repeatcheck h ev a header_name fmt = (case fmt of
     None \<Rightarrow> Some (AGC_STATUS_MEMERR, h, ev)
   | Some data \<Rightarrow> do { r \<leftarrow> agc_event_base_add_header h ev a header_name data; Some (AGC_STATUS_SUCCESS, r) })"

definition agc_event_add_header_string ::
  "hheap \<Rightarrow> agc_event \<Rightarrow> addr \<Rightarrow> string \<Rightarrow> string option \<Rightarrow> (agc_status \<times> hheap \<times> agc_event) option" where
  "agc_event_add_header_string h ev a header_name data = (case data of
     None \<Rightarrow> Some (AGC_STATUS_GENERR, h, ev)
   | Some data \<Rightarrow> do { r \<leftarrow> agc_event_base_add_header h ev a header_name data; Some (AGC_STATUS_SUCCESS, r) })"

section \<open>Deleting headers, destroying and copying events\<close>

partial_function (option) del_header_loop ::
  "hheap \<Rightarrow> agc_event \<Rightarrow> string \<Rightarrow> addr \<Rightarrow> addr \<Rightarrow> (hheap \<times> agc_event) option" where
  "del_header_loop h ev header_name lp tp =
     (if tp = NULL then Some (h, ev)
      else if tp \<notin> hlive h then None
      else (let hp = tp; tp = hnext h hp in
        if strcasecmp_eq header_name (hname h hp) then do {
          (h, ev) \<leftarrow> (if lp \<noteq> NULL then do { h \<leftarrow> set_next h lp (hnext h hp); Some (h, ev) }
                     else Some (h, ev\<lparr>headers := hnext h hp\<rparr>));
          let ev = (if hp = last_header ev \<or> hnext h hp = NULL then ev\<lparr>last_header := lp\<rparr> else ev);
          del_header_loop (free_header h hp) ev header_name lp tp
        } else del_header_loop h ev header_name hp tp))"

definition agc_event_del_header :: "hheap \<Rightarrow> agc_event \<Rightarrow> string \<Rightarrow> (hheap \<times> agc_event) option" where
  "agc_event_del_header h ev header_name = del_header_loop h ev header_name NULL (headers ev)"

partial_function (option) destroy_loop :: "hheap \<Rightarrow> addr \<Rightarrow> hheap option" where
  "destroy_loop h hp =
     (if hp = NULL then Some h
      else if hp \<notin> hlive h then None
      else destroy_loop (free_header h hp) (hnext h hp))"

definition agc_event_destroy :: "hheap \<Rightarrow> agc_event option \<Rightarrow> hheap option" where
  "agc_event_destroy h ev = (case ev of None \<Rightarrow> Some h | Some ep \<Rightarrow> destroy_loop h (headers ep))"

text \<open>The list \<open>as\<close> holds the addresses the allocations of the copy return.\<close>

partial_function (option) dup_loop ::
  "hheap \<Rightarrow> agc_event \<Rightarrow> addr list \<Rightarrow> addr \<Rightarrow> (hheap \<times> agc_event) option" where
  "dup_loop h ev as hp =
     (if hp = NULL then Some (h, ev)
      else if hp \<notin> hlive h then None
      else do {
        (_, h, ev) \<leftarrow> agc_event_add_header_string h ev (hd as) (hname h hp) (hvalue h hp);
        dup_loop h ev (tl as) (hnext h hp)
      })"

definition agc_event_dup :: "hheap \<Rightarrow> agc_event \<Rightarrow> addr list \<Rightarrow> (hheap \<times> agc_event) option" where
  "agc_event_dup h todup as = do {
     (h, ev) \<leftarrow> dup_loop h (agc_event_create (event_id todup) (source_id todup)) as (headers todup);
     Some (h, case body todup of None \<Rightarrow> ev | Some b \<Rightarrow> ev\<lparr>body := Some b\<rparr>)
   }"

section \<open>The list behind the pointers\<close>

primrec hchain :: "hheap \<Rightarrow> addr \<Rightarrow> addr list \<Rightarrow> addr \<Rightarrow> bool" where
  "hchain h p [] q \<longleftrightarrow> p = q"
| "hchain h p (x # xs) q \<longleftrightarrow> p = x \<and> x \<noteq> NULL \<and> x \<in> hlive h \<and> hchain h (hnext h x) xs q"

definition event_ok :: "hheap \<Rightarrow> agc_event \<Rightarrow> addr list \<Rightarrow> bool" where
  "event_ok h ev xs \<longleftrightarrow> hchain h (headers ev) xs NULL \<and> distinct xs \<and>
     last_header ev = (if xs = [] then NULL else last xs)"

definition kvs :: "hheap \<Rightarrow> addr list \<Rightarrow> (string \<times> string option) list" where
  "kvs h xs = map (\<lambda>x. (hname h x, hvalue h x)) xs"

definition lookup :: "string \<Rightarrow> (string \<times> string option) list \<Rightarrow> string option" where
  "lookup name kv = (case find (\<lambda>(n, v). strcasecmp_eq n name) kv of None \<Rightarrow> None | Some (n, v) \<Rightarrow> v)"

lemma hchain_append: "hchain h p (xs @ ys) q \<longleftrightarrow> (\<exists>r. hchain h p xs r \<and> hchain h r ys q)"
  by (induction xs arbitrary: p) auto

lemma hchain_live: "hchain h p xs q \<Longrightarrow> set xs \<subseteq> hlive h \<and> NULL \<notin> set xs"
  by (induction xs arbitrary: p) auto

lemma hchain_cong:
  "hchain h p xs q \<Longrightarrow> set xs \<subseteq> hlive h' \<Longrightarrow> (\<And>x. x \<in> set xs \<Longrightarrow> hnext h' x = hnext h x) \<Longrightarrow> hchain h' p xs q"
  by (induction xs arbitrary: p) auto

lemma hchain_last:
  assumes "hchain h p (xs @ [x]) q" "distinct (xs @ [x])" "hlive h \<subseteq> hlive h'" "hnext h' = (hnext h)(x := r)"
  shows "hchain h' p (xs @ [x]) r"
proof -
  from assms(1) have c: "hchain h p xs x" "x \<noteq> NULL" "x \<in> hlive h" by (auto simp: hchain_append)
  have "hchain h' p xs x"
    by (rule hchain_cong [OF c(1)]) (use hchain_live [OF c(1)] assms(2-4) in auto)
  with c assms(3,4) show ?thesis by (auto simp: hchain_append)
qed

end
