(* ===== verification/Agc_Queue.thy ===== *)
theory Agc_Queue
  imports Agc_Prelude
begin

text \<open>
  The bounded queue between the threads: \<^verbatim>\<open>src/libs/apr-util/misc/apr_queue.c\<close> and its
  wrappers in \<^verbatim>\<open>src/src/agc_apr.c\<close>. The ring buffer keeps its counters as 32-bit words;
  reading or writing a slot outside the buffer is \<^const>\<open>None\<close>.

  The mutex makes each locked section one step. A call that waits on a condition variable
  is split at the wait: its first half leaves the thread blocked, its second half runs
  when the thread wakes, for whatever reason it wakes. The calls of the thread library
  are taken to succeed.
\<close>

section \<open>The ring buffer\<close>

datatype apr_status = APR_SUCCESS | APR_EOF | APR_EINTR | APR_EAGAIN

record apr_queue =
  qdata :: "addr list"
  qnelts :: u32
  qin :: u32
  qout :: u32
  qbounds :: u32
  full_waiters :: u32
  empty_waiters :: u32
  terminated :: bool

definition apr_queue_full :: "apr_queue \<Rightarrow> bool" where
  "apr_queue_full q \<longleftrightarrow> qnelts q = qbounds q"

definition apr_queue_empty :: "apr_queue \<Rightarrow> bool" where
  "apr_queue_empty q \<longleftrightarrow> qnelts q = 0"

definition apr_queue_create :: "u32 \<Rightarrow> apr_queue" where
  "apr_queue_create queue_capacity = \<lparr>qdata = replicate (unat queue_capacity) NULL, qnelts = 0, qin = 0, qout = 0,
     qbounds = queue_capacity, full_waiters = 0, empty_waiters = 0, terminated = False\<rparr>"

definition queue_wrap :: "apr_queue \<Rightarrow> u32 \<Rightarrow> u32" where
  "queue_wrap q i = (if i \<ge> qbounds q then i - qbounds q else i)"

text \<open>The common tail of the pushing and of the popping operations.\<close>

definition queue_put :: "apr_queue \<Rightarrow> addr \<Rightarrow> apr_queue option" where
  "queue_put q d =
     (if unat (qin q) < length (qdata q)
      then Some (q\<lparr>qdata := (qdata q)[unat (qin q) := d], qin := queue_wrap q (qin q + 1), qnelts := qnelts q + 1\<rparr>)
      else None)"

definition queue_take :: "apr_queue \<Rightarrow> (addr \<times> apr_queue) option" where
  "queue_take q =
     (if unat (qout q) < length (qdata q)
      then Some (qdata q ! unat (qout q), q\<lparr>qnelts := qnelts q - 1, qout := queue_wrap q (qout q + 1)\<rparr>)
      else None)"

section \<open>The operations that do not block\<close>

text \<open>
  Each is one step: the test of \<^verbatim>\<open>terminated\<close>, which the code makes before it takes the mutex, and the locked section behind it. A queue that is
  terminated between the two is seen as one that was terminated after the call.
\<close>

definition apr_queue_trypush :: "apr_queue \<Rightarrow> addr \<Rightarrow> (apr_status \<times> apr_queue) option" where
  "apr_queue_trypush q d =
     (if terminated q then Some (APR_EOF, q)
      else if apr_queue_full q then Some (APR_EAGAIN, q)
      else do { q \<leftarrow> queue_put q d; Some (APR_SUCCESS, q) })"

definition apr_queue_trypop :: "apr_queue \<Rightarrow> (apr_status \<times> addr option \<times> apr_queue) option" where
  "apr_queue_trypop q =
     (if terminated q then Some (APR_EOF, None, q)
      else if apr_queue_empty q then Some (APR_EAGAIN, None, q)
      else do { (d, q) \<leftarrow> queue_take q; Some (APR_SUCCESS, Some d, q) })"

definition apr_queue_size :: "apr_queue \<Rightarrow> u32" where
  "apr_queue_size q = qnelts q"

definition apr_queue_term :: "apr_queue \<Rightarrow> apr_queue" where
  "apr_queue_term q = q\<lparr>terminated := True\<rparr>"

section \<open>The operations that block\<close>

text \<open>
  \<open>Ret\<close> is a return, \<open>Blocked\<close> the wait on the condition variable. The \<open>enter\<close> half is
  the locked section up to the wait; the unlocked test of \<^verbatim>\<open>terminated\<close> before it is a
  step of the thread.
\<close>

datatype 'r qcall = Ret 'r | Blocked

definition apr_queue_push_enter :: "apr_queue \<Rightarrow> addr \<Rightarrow> (apr_status qcall \<times> apr_queue) option" where
  "apr_queue_push_enter q d =
     (if apr_queue_full q
      then (if \<not> terminated q then Some (Blocked, q\<lparr>full_waiters := full_waiters q + 1\<rparr>) else Some (Ret APR_EOF, q))
      else do { q \<leftarrow> queue_put q d; Some (Ret APR_SUCCESS, q) })"

definition apr_queue_push_wake :: "apr_queue \<Rightarrow> addr \<Rightarrow> (apr_status \<times> apr_queue) option" where
  "apr_queue_push_wake q d =
     (let q = q\<lparr>full_waiters := full_waiters q - 1\<rparr> in
      if apr_queue_full q then Some (if terminated q then APR_EOF else APR_EINTR, q)
      else do { q \<leftarrow> queue_put q d; Some (APR_SUCCESS, q) })"

definition apr_queue_pop_enter :: "apr_queue \<Rightarrow> ((apr_status \<times> addr option) qcall \<times> apr_queue) option" where
  "apr_queue_pop_enter q =
     (if apr_queue_empty q
      then (if \<not> terminated q then Some (Blocked, q\<lparr>empty_waiters := empty_waiters q + 1\<rparr>)
            else Some (Ret (APR_EOF, None), q))
      else do { (d, q) \<leftarrow> queue_take q; Some (Ret (APR_SUCCESS, Some d), q) })"

definition apr_queue_pop_wake :: "apr_queue \<Rightarrow> ((apr_status \<times> addr option) \<times> apr_queue) option" where
  "apr_queue_pop_wake q =
     (let q = q\<lparr>empty_waiters := empty_waiters q - 1\<rparr> in
      if apr_queue_empty q then Some ((if terminated q then APR_EOF else APR_EINTR, None), q)
      else do { (d, q) \<leftarrow> queue_take q; Some ((APR_SUCCESS, Some d), q) })"

section \<open>The sequence in the buffer\<close>

definition qwf :: "apr_queue \<Rightarrow> bool" where
  "qwf q \<longleftrightarrow> length (qdata q) = unat (qbounds q) \<and> qnelts q \<le> qbounds q \<and>
     (qbounds q \<noteq> 0 \<longrightarrow> qin q < qbounds q \<and> qout q < qbounds q \<and>
        unat (qin q) = (unat (qout q) + unat (qnelts q)) mod unat (qbounds q))"

definition contents :: "apr_queue \<Rightarrow> addr list" where
  "contents q = map (\<lambda>i. qdata q ! ((unat (qout q) + i) mod unat (qbounds q))) [0 ..< unat (qnelts q)]"

lemma queue_wrap_unat:
  assumes "i < qbounds q"
  shows "unat (queue_wrap q (i + 1)) = (unat i + 1) mod unat (qbounds q)" "queue_wrap q (i + 1) < qbounds q"
proof -
  have lt: "unat i < unat (qbounds q)" using assms by (simp add: word_less_nat_alt)
  have u: "unat (i + 1) = unat i + 1"
    using unat_u32_Suc [OF lt] unat_u32_less [of "qbounds q"] by simp
  show eq: "unat (queue_wrap q (i + 1)) = (unat i + 1) mod unat (qbounds q)"
  proof (cases "unat i + 1 = unat (qbounds q)")
    case True
    then have "i + 1 = qbounds q" using u by (simp add: word_unat_eq_iff)
    with True show ?thesis by (simp add: queue_wrap_def)
  next
    case False
    with u lt have "\<not> i + 1 \<ge> qbounds q" by (simp add: word_le_nat_alt)
    with False u lt show ?thesis by (simp add: queue_wrap_def)
  qed
  show "queue_wrap q (i + 1) < qbounds q"
    using lt unfolding word_less_nat_alt eq by (intro mod_less_divisor) linarith
qed

lemma queue_put_ok:
  assumes "qwf q" "\<not> apr_queue_full q"
  shows "\<exists>q'. queue_put q d = Some q' \<and> qwf q' \<and> contents q' = contents q @ [d] \<and> terminated q' = terminated q \<and>
     qbounds q' = qbounds q \<and> full_waiters q' = full_waiters q \<and> empty_waiters q' = empty_waiters q"
proof -
  let ?b = "unat (qbounds q)" and ?o = "unat (qout q)" and ?n = "unat (qnelts q)"
  have n: "?n < ?b" using assms by (simp add: qwf_def apr_queue_full_def word_le_nat_alt word_unat_eq_iff)
  then have b0: "qbounds q \<noteq> 0" by auto
  with assms(1) have w: "length (qdata q) = ?b" "qin q < qbounds q" "qout q < qbounds q"
    "unat (qin q) = (?o + ?n) mod ?b" by (simp_all add: qwf_def)
  have un: "unat (qnelts q + 1) = Suc ?n"
    using unat_u32_Suc [OF n] unat_u32_less [of "qbounds q"] by simp
  let ?q = "q\<lparr>qdata := (qdata q)[unat (qin q) := d], qin := queue_wrap q (qin q + 1), qnelts := qnelts q + 1\<rparr>"
  have put: "queue_put q d = Some ?q" using w by (simp add: queue_put_def word_less_nat_alt)
  have "unat (queue_wrap q (qin q + 1)) = (?o + Suc ?n) mod ?b"
    unfolding queue_wrap_unat [OF w(2)] w(4) by (simp add: mod_simps)
  then have wf: "qwf ?q"
    using w b0 queue_wrap_unat [OF w(2)] n un by (simp add: qwf_def word_le_nat_alt)
  have neq: "(?o + i) mod ?b \<noteq> unat (qin q)" if "i < ?n" for i
  proof
    assume "(?o + i) mod ?b = unat (qin q)"
    then have "(?o + i) mod ?b = (?o + ?n) mod ?b" using w(4) by simp
    then have "?b dvd ?n - i" using that by (metis add_diff_cancel_left less_imp_le mod_eq_dvd_iff_nat nat_add_left_cancel_le)
    then show False using that n by (auto dest: dvd_imp_le)
  qed
  have old: "(qdata q)[unat (qin q) := d] ! ((?o + i) mod ?b) = qdata q ! ((?o + i) mod ?b)" if "i < ?n" for i
    using neq [OF that] by simp
  have "(qdata q)[unat (qin q) := d] ! ((?o + ?n) mod ?b) = d"
    using w(1,2) unfolding w(4) [symmetric] by (simp add: word_less_nat_alt)
  then have "contents ?q = contents q @ [d]"
    unfolding contents_def using un old by (simp cong: map_cong)
  with put wf show ?thesis by auto
qed

lemma queue_take_ok:
  assumes "qwf q" "\<not> apr_queue_empty q"
  shows "\<exists>q'. queue_take q = Some (hd (contents q), q') \<and> qwf q' \<and> contents q = hd (contents q) # contents q' \<and>
     terminated q' = terminated q \<and> qbounds q' = qbounds q \<and> full_waiters q' = full_waiters q \<and> empty_waiters q' = empty_waiters q"
proof -
  let ?b = "unat (qbounds q)" and ?o = "unat (qout q)" and ?n = "unat (qnelts q)"
  have n: "0 < ?n" "?n \<le> ?b" using assms by (auto simp: qwf_def apr_queue_empty_def word_le_nat_alt word_unat_eq_iff)
  then have b0: "qbounds q \<noteq> 0" by auto
  with assms(1) have w: "length (qdata q) = ?b" "qin q < qbounds q" "qout q < qbounds q"
    "unat (qin q) = (?o + ?n) mod ?b" by (simp_all add: qwf_def)
  have un: "unat (qnelts q - 1) = ?n - 1" using n(1) by (intro unat_u32_pred) auto
  let ?q = "q\<lparr>qnelts := qnelts q - 1, qout := queue_wrap q (qout q + 1)\<rparr>"
  have take: "queue_take q = Some (qdata q ! ?o, ?q)" using w by (simp add: queue_take_def word_less_nat_alt)
  have "(unat (queue_wrap q (qout q + 1)) + (?n - 1)) mod ?b = (?o + ?n) mod ?b"
  proof -
    obtain k where "?n = Suc k" using n(1) by (cases ?n) auto
    then show ?thesis unfolding queue_wrap_unat [OF w(3)] by (simp add: mod_simps)
  qed
  then have wf: "qwf ?q"
    using w b0 queue_wrap_unat [OF w(3)] n un by (simp add: qwf_def word_le_nat_alt)
  have "[0 ..< ?n] = 0 # map Suc [0 ..< ?n - 1]" using n(1) by (cases ?n) (simp_all add: map_Suc_upt upt_conv_Cons)
  moreover have "(unat (queue_wrap q (qout q + 1)) + i) mod ?b = (?o + Suc i) mod ?b" for i
    unfolding queue_wrap_unat [OF w(3)] by (simp add: mod_simps)
  ultimately have c: "contents q = qdata q ! ?o # contents ?q"
    unfolding contents_def using un w(3) by (simp add: word_less_nat_alt)
  from take wf c show ?thesis by auto
qed

end
