(* ===== verification/Agc_Queue_Threads.thy ===== *)
theory Agc_Queue_Threads
  imports Agc_Queue
begin

text \<open>
  The queue under concurrent threads. Each step is one locked section of
  \<^verbatim>\<open>apr_queue.c\<close>, an unlocked test, or a wake-up of a waiting thread; wake-ups may come at
  any time, so the result covers signals, broadcasts and spurious ones. The loop of
  \<^verbatim>\<open>agc_queue_push\<close> that retries on \<^verbatim>\<open>APR_EINTR\<close> is part of the thread's control state.
  The logs record what was handed over: \<open>sent\<close> in the order of the successful pushes,
  \<open>got\<close> in the order of the successful pops.
\<close>

section \<open>The contract of a bounded queue\<close>

fun push_all :: "('q \<Rightarrow> addr \<Rightarrow> (apr_status \<times> 'q) option) \<Rightarrow> 'q \<Rightarrow> addr list \<Rightarrow> 'q option" where
  "push_all push q [] = Some q"
| "push_all push q (d # ds) = do { (r, q) \<leftarrow> push q d; if r = APR_SUCCESS then push_all push q ds else None }"

fun pop_all :: "('q \<Rightarrow> (apr_status \<times> addr option \<times> 'q) option) \<Rightarrow> nat \<Rightarrow> 'q \<Rightarrow> (addr list \<times> 'q) option" where
  "pop_all pop 0 q = Some ([], q)"
| "pop_all pop (Suc n) q = do {
     (r, d, q) \<leftarrow> pop q;
     d \<leftarrow> d;
     (ds, q) \<leftarrow> pop_all pop n q;
     if r = APR_SUCCESS then Some (d # ds, q) else None }"

locale bounded_fifo =
  fixes wf :: "'q \<Rightarrow> bool" and items :: "'q \<Rightarrow> addr list" and cap :: "'q \<Rightarrow> nat" and closed :: "'q \<Rightarrow> bool"
    and push :: "'q \<Rightarrow> addr \<Rightarrow> (apr_status \<times> 'q) option" and pop :: "'q \<Rightarrow> (apr_status \<times> addr option \<times> 'q) option"
  assumes bounded: "wf q \<Longrightarrow> length (items q) \<le> cap q"
    and push_closed: "wf q \<Longrightarrow> closed q \<Longrightarrow> push q d = Some (APR_EOF, q)"
    and push_full: "wf q \<Longrightarrow> \<not> closed q \<Longrightarrow> length (items q) = cap q \<Longrightarrow> push q d = Some (APR_EAGAIN, q)"
    and push_ok: "wf q \<Longrightarrow> \<not> closed q \<Longrightarrow> length (items q) < cap q \<Longrightarrow>
      \<exists>q'. push q d = Some (APR_SUCCESS, q') \<and> wf q' \<and> items q' = items q @ [d] \<and> cap q' = cap q \<and> \<not> closed q'"
    and pop_closed: "wf q \<Longrightarrow> closed q \<Longrightarrow> pop q = Some (APR_EOF, None, q)"
    and pop_empty: "wf q \<Longrightarrow> \<not> closed q \<Longrightarrow> items q = [] \<Longrightarrow> pop q = Some (APR_EAGAIN, None, q)"
    and pop_ok: "wf q \<Longrightarrow> \<not> closed q \<Longrightarrow> items q = d # ds \<Longrightarrow>
      \<exists>q'. pop q = Some (APR_SUCCESS, Some d, q') \<and> wf q' \<and> items q' = ds \<and> cap q' = cap q \<and> \<not> closed q'"
begin

lemma push_all_items:
  "wf q \<Longrightarrow> \<not> closed q \<Longrightarrow> length (items q) + length ds \<le> cap q \<Longrightarrow>
     \<exists>q'. push_all push q ds = Some q' \<and> wf q' \<and> items q' = items q @ ds \<and> cap q' = cap q \<and> \<not> closed q'"
proof (induction ds arbitrary: q)
  case (Cons d ds)
  from push_ok [of q d] Cons.prems obtain q' where
    q': "push q d = Some (APR_SUCCESS, q')" "wf q'" "items q' = items q @ [d]" "cap q' = cap q" "\<not> closed q'" by auto
  from Cons.IH [of q'] q' Cons.prems show ?case by auto
qed auto

lemma pop_all_items:
  "wf q \<Longrightarrow> \<not> closed q \<Longrightarrow> n \<le> length (items q) \<Longrightarrow>
     \<exists>q'. pop_all pop n q = Some (take n (items q), q') \<and> wf q' \<and> items q' = drop n (items q) \<and> cap q' = cap q \<and> \<not> closed q'"
proof (induction n arbitrary: q)
  case (Suc n)
  then obtain d ds where it: "items q = d # ds" by (cases "items q") auto
  from pop_ok [OF Suc.prems(1,2) it] obtain q' where
    q': "pop q = Some (APR_SUCCESS, Some d, q')" "wf q'" "items q' = ds" "cap q' = cap q" "\<not> closed q'" by auto
  from Suc.IH [of q'] q' Suc.prems(3) it show ?case by auto
qed auto

text \<open>What goes in comes out, in the same order.\<close>

lemma push_pop_all:
  assumes "wf q" "\<not> closed q" "items q = []" "length ds \<le> cap q"
  shows "\<exists>q' q''. push_all push q ds = Some q' \<and> pop_all pop (length ds) q' = Some (ds, q'') \<and> items q'' = []"
proof -
  from push_all_items [of q ds] assms obtain q' where
    q': "push_all push q ds = Some q'" "wf q'" "items q' = ds" "\<not> closed q'" by auto
  from pop_all_items [of q' "length ds"] q' show ?thesis by auto
qed

end

lemma contents_length: "length (contents q) = unat (qnelts q)"
  by (simp add: contents_def)

lemma queue_full_iff: "apr_queue_full q \<longleftrightarrow> length (contents q) = unat (qbounds q)"
  by (simp add: apr_queue_full_def contents_length word_unat_eq_iff)

lemma queue_empty_iff: "apr_queue_empty q \<longleftrightarrow> contents q = []"
  by (simp add: apr_queue_empty_def contents_def word_unat_eq_iff)

lemma queue_create_wf: "qwf (apr_queue_create n)" "contents (apr_queue_create n) = []"
  "\<not> terminated (apr_queue_create n)" "qbounds (apr_queue_create n) = n"
  by (auto simp: apr_queue_create_def qwf_def contents_def word_neq_0_conv)

interpretation apr_fifo: bounded_fifo qwf contents "\<lambda>q. unat (qbounds q)" terminated apr_queue_trypush apr_queue_trypop
proof unfold_locales
  fix q d assume q: "qwf q"
  show "length (contents q) \<le> unat (qbounds q)" using q by (simp add: contents_length qwf_def word_le_nat_alt)
  show "apr_queue_trypush q d = Some (APR_EOF, q)" if "terminated q" using that by (simp add: apr_queue_trypush_def)
  show "apr_queue_trypop q = Some (APR_EOF, None, q)" if "terminated q" using that by (simp add: apr_queue_trypop_def)
  show "apr_queue_trypush q d = Some (APR_EAGAIN, q)" if "\<not> terminated q" "length (contents q) = unat (qbounds q)"
    using that by (simp add: apr_queue_trypush_def queue_full_iff)
  show "apr_queue_trypop q = Some (APR_EAGAIN, None, q)" if "\<not> terminated q" "contents q = []"
    using that by (simp add: apr_queue_trypop_def queue_empty_iff)
  show "\<exists>q'. apr_queue_trypush q d = Some (APR_SUCCESS, q') \<and> qwf q' \<and> contents q' = contents q @ [d] \<and>
      unat (qbounds q') = unat (qbounds q) \<and> \<not> terminated q'"
    if "\<not> terminated q" "length (contents q) < unat (qbounds q)"
    using queue_put_ok [OF q, of d] that by (auto simp: apr_queue_trypush_def queue_full_iff)
  show "\<exists>q'. apr_queue_trypop q = Some (APR_SUCCESS, Some x, q') \<and> qwf q' \<and> contents q' = xs \<and>
      unat (qbounds q') = unat (qbounds q) \<and> \<not> terminated q'"
    if "\<not> terminated q" "contents q = x # xs" for x xs
    using queue_take_ok [OF q] that by (auto simp: apr_queue_trypop_def queue_empty_iff)
qed

section \<open>Threads\<close>

datatype qpc = Idle | PushStart addr | PushLock addr | PushWait addr | PopStart | PopLock | PopWait

record qsys =
  sq :: apr_queue
  spc :: "nat \<Rightarrow> qpc"
  sent :: "addr list"
  got :: "addr list"

text \<open>What a thread does with the result of its call.\<close>

definition push_returns :: "qsys \<Rightarrow> nat \<Rightarrow> addr \<Rightarrow> apr_status \<Rightarrow> apr_queue \<Rightarrow> qsys" where
  "push_returns s t d r q = s\<lparr>sq := q, spc := (spc s)(t := if r = APR_EINTR then PushStart d else Idle),
     sent := sent s @ (if r = APR_SUCCESS then [d] else [])\<rparr>"

definition pop_returns :: "qsys \<Rightarrow> nat \<Rightarrow> addr option \<Rightarrow> apr_queue \<Rightarrow> qsys" where
  "pop_returns s t d q = s\<lparr>sq := q, spc := (spc s)(t := Idle), got := got s @ (case d of None \<Rightarrow> [] | Some d \<Rightarrow> [d])\<rparr>"

inductive qstep :: "qsys \<Rightarrow> qsys \<Rightarrow> bool" where
  call_push: "spc s t = Idle \<Longrightarrow> qstep s (s\<lparr>spc := (spc s)(t := PushStart d)\<rparr>)"
| push_eof: "spc s t = PushStart d \<Longrightarrow> terminated (sq s) \<Longrightarrow> qstep s (s\<lparr>spc := (spc s)(t := Idle)\<rparr>)"
| push_go: "spc s t = PushStart d \<Longrightarrow> \<not> terminated (sq s) \<Longrightarrow> qstep s (s\<lparr>spc := (spc s)(t := PushLock d)\<rparr>)"
| push_lock: "spc s t = PushLock d \<Longrightarrow> apr_queue_push_enter (sq s) d = Some (Ret r, q) \<Longrightarrow> qstep s (push_returns s t d r q)"
| push_block: "spc s t = PushLock d \<Longrightarrow> apr_queue_push_enter (sq s) d = Some (Blocked, q) \<Longrightarrow>
    qstep s (s\<lparr>sq := q, spc := (spc s)(t := PushWait d)\<rparr>)"
| push_wake: "spc s t = PushWait d \<Longrightarrow> apr_queue_push_wake (sq s) d = Some (r, q) \<Longrightarrow> qstep s (push_returns s t d r q)"
| call_pop: "spc s t = Idle \<Longrightarrow> qstep s (s\<lparr>spc := (spc s)(t := PopStart)\<rparr>)"
| pop_eof: "spc s t = PopStart \<Longrightarrow> terminated (sq s) \<Longrightarrow> qstep s (s\<lparr>spc := (spc s)(t := Idle)\<rparr>)"
| pop_go: "spc s t = PopStart \<Longrightarrow> \<not> terminated (sq s) \<Longrightarrow> qstep s (s\<lparr>spc := (spc s)(t := PopLock)\<rparr>)"
| pop_lock: "spc s t = PopLock \<Longrightarrow> apr_queue_pop_enter (sq s) = Some (Ret (r, d), q) \<Longrightarrow> qstep s (pop_returns s t d q)"
| pop_block: "spc s t = PopLock \<Longrightarrow> apr_queue_pop_enter (sq s) = Some (Blocked, q) \<Longrightarrow>
    qstep s (s\<lparr>sq := q, spc := (spc s)(t := PopWait)\<rparr>)"
| pop_wake: "spc s t = PopWait \<Longrightarrow> apr_queue_pop_wake (sq s) = Some ((r, d), q) \<Longrightarrow> qstep s (pop_returns s t d q)"
| try_push: "spc s t = Idle \<Longrightarrow> apr_queue_trypush (sq s) d = Some (r, q) \<Longrightarrow> qstep s (push_returns s t d r q)"
| try_pop: "spc s t = Idle \<Longrightarrow> apr_queue_trypop (sq s) = Some (r, d, q) \<Longrightarrow> qstep s (pop_returns s t d q)"
| terminate: "spc s t = Idle \<Longrightarrow> qstep s (s\<lparr>sq := apr_queue_term (sq s)\<rparr>)"

definition qinit :: "u32 \<Rightarrow> qsys" where
  "qinit n = \<lparr>sq = apr_queue_create n, spc = (\<lambda>_. Idle), sent = [], got = []\<rparr>"

definition qreach :: "u32 \<Rightarrow> qsys \<Rightarrow> bool" where
  "qreach n s \<longleftrightarrow> qstep\<^sup>*\<^sup>* (qinit n) s"

section \<open>The invariant of the threads\<close>

definition push_waiting :: "qsys \<Rightarrow> nat set" where
  "push_waiting s = {t. \<exists>d. spc s t = PushWait d}"

definition pop_waiting :: "qsys \<Rightarrow> nat set" where
  "pop_waiting s = {t. spc s t = PopWait}"

definition qinv :: "u32 \<Rightarrow> qsys \<Rightarrow> bool" where
  "qinv n s \<longleftrightarrow> qwf (sq s) \<and> qbounds (sq s) = n \<and> sent s = got s @ contents (sq s) \<and>
     finite (push_waiting s) \<and> full_waiters (sq s) = of_nat (card (push_waiting s)) \<and>
     finite (pop_waiting s) \<and> empty_waiters (sq s) = of_nat (card (pop_waiting s))"

lemma waiting_simps [simp]:
  "push_waiting (s\<lparr>sq := q\<rparr>) = push_waiting s" "pop_waiting (s\<lparr>sq := q\<rparr>) = pop_waiting s"
  "push_waiting (s\<lparr>sent := l\<rparr>) = push_waiting s" "pop_waiting (s\<lparr>sent := l\<rparr>) = pop_waiting s"
  "push_waiting (s\<lparr>got := l\<rparr>) = push_waiting s" "pop_waiting (s\<lparr>got := l\<rparr>) = pop_waiting s"
  "push_waiting (s\<lparr>spc := (spc s')(t := p)\<rparr>) =
     (if \<exists>d. p = PushWait d then insert t (push_waiting s') else push_waiting s' - {t})"
  "pop_waiting (s\<lparr>spc := (spc s')(t := p)\<rparr>) = (if p = PopWait then insert t (pop_waiting s') else pop_waiting s' - {t})"
  by (auto simp: push_waiting_def pop_waiting_def)

lemma qwf_waiters [simp]:
  "qwf (q\<lparr>full_waiters := w\<rparr>) = qwf q" "contents (q\<lparr>full_waiters := w\<rparr>) = contents q"
  "qwf (q\<lparr>empty_waiters := w\<rparr>) = qwf q" "contents (q\<lparr>empty_waiters := w\<rparr>) = contents q"
  "qwf (q\<lparr>terminated := b\<rparr>) = qwf q" "contents (q\<lparr>terminated := b\<rparr>) = contents q"
  "apr_queue_full (q\<lparr>full_waiters := w\<rparr>) = apr_queue_full q" "apr_queue_empty (q\<lparr>empty_waiters := w\<rparr>) = apr_queue_empty q"
  by (auto simp: qwf_def contents_def apr_queue_full_def apr_queue_empty_def)

text \<open>Each locked section, as the change it makes to the contents.\<close>

lemma push_enter_effect:
  assumes "qwf q" "apr_queue_push_enter q d = Some (c, q')"
  shows "qwf q' \<and> qbounds q' = qbounds q \<and> empty_waiters q' = empty_waiters q \<and>
     contents q' = contents q @ (if c = Ret APR_SUCCESS then [d] else []) \<and>
     full_waiters q' = (if c = Blocked then full_waiters q + 1 else full_waiters q)"
  using assms queue_put_ok [OF assms(1), of d] by (auto simp: apr_queue_push_enter_def split: if_splits)

lemma push_wake_effect:
  assumes "qwf q" "apr_queue_push_wake q d = Some (r, q')"
  shows "qwf q' \<and> qbounds q' = qbounds q \<and> empty_waiters q' = empty_waiters q \<and>
     contents q' = contents q @ (if r = APR_SUCCESS then [d] else []) \<and> full_waiters q' = full_waiters q - 1"
  using assms queue_put_ok [of "q\<lparr>full_waiters := full_waiters q - 1\<rparr>" d]
  by (auto simp: apr_queue_push_wake_def Let_def split: if_splits)

lemma pop_enter_effect:
  assumes "qwf q" "apr_queue_pop_enter q = Some (c, q')"
  shows "qwf q' \<and> qbounds q' = qbounds q \<and> full_waiters q' = full_waiters q \<and>
     contents q = (case c of Ret (r, Some d) \<Rightarrow> [d] | _ \<Rightarrow> []) @ contents q' \<and>
     empty_waiters q' = (if c = Blocked then empty_waiters q + 1 else empty_waiters q)"
proof (cases "apr_queue_empty q")
  case True
  then show ?thesis using assms by (auto simp: apr_queue_pop_enter_def split: if_splits)
next
  case False
  from queue_take_ok [OF assms(1) False] obtain q1 where
    t: "queue_take q = Some (hd (contents q), q1)" "qwf q1" "contents q = hd (contents q) # contents q1"
      "qbounds q1 = qbounds q" "full_waiters q1 = full_waiters q" "empty_waiters q1 = empty_waiters q" by auto
  then have "c = Ret (APR_SUCCESS, Some (hd (contents q)))" "q' = q1"
    using False assms(2) by (auto simp: apr_queue_pop_enter_def)
  with t show ?thesis by simp
qed

lemma pop_wake_effect:
  assumes "qwf q" "apr_queue_pop_wake q = Some ((r, d), q')"
  shows "qwf q' \<and> qbounds q' = qbounds q \<and> full_waiters q' = full_waiters q \<and>
     contents q = (case d of Some d \<Rightarrow> [d] | None \<Rightarrow> []) @ contents q' \<and> empty_waiters q' = empty_waiters q - 1"
proof -
  let ?q = "q\<lparr>empty_waiters := empty_waiters q - 1\<rparr>"
  show ?thesis
  proof (cases "apr_queue_empty q")
    case True
    then show ?thesis using assms by (auto simp: apr_queue_pop_wake_def Let_def)
  next
    case False
    from queue_take_ok [of ?q] False assms(1) obtain q1 where
      t: "queue_take ?q = Some (hd (contents q), q1)" "qwf q1" "contents q = hd (contents q) # contents q1"
        "qbounds q1 = qbounds q" "full_waiters q1 = full_waiters q" "empty_waiters q1 = empty_waiters q - 1" by auto
    then have "d = Some (hd (contents q))" "q' = q1"
      using False assms(2) by (auto simp: apr_queue_pop_wake_def Let_def)
    with t show ?thesis by simp
  qed
qed


lemma trypush_effect:
  assumes "qwf q" "apr_queue_trypush q d = Some (r, q')"
  shows "qwf q' \<and> qbounds q' = qbounds q \<and> empty_waiters q' = empty_waiters q \<and>
     contents q' = contents q @ (if r = APR_SUCCESS then [d] else []) \<and> full_waiters q' = full_waiters q"
  using assms queue_put_ok [OF assms(1), of d] by (auto simp: apr_queue_trypush_def split: if_splits)

lemma trypop_effect:
  assumes "qwf q" "apr_queue_trypop q = Some (r, d, q')"
  shows "qwf q' \<and> qbounds q' = qbounds q \<and> full_waiters q' = full_waiters q \<and>
     contents q = (case d of Some d \<Rightarrow> [d] | None \<Rightarrow> []) @ contents q' \<and> empty_waiters q' = empty_waiters q"
proof (cases "terminated q \<or> apr_queue_empty q")
  case True
  then show ?thesis using assms by (auto simp: apr_queue_trypop_def split: if_splits)
next
  case False
  from queue_take_ok [of q] False assms(1) obtain q1 where
    t: "queue_take q = Some (hd (contents q), q1)" "qwf q1" "contents q = hd (contents q) # contents q1"
      "qbounds q1 = qbounds q" "full_waiters q1 = full_waiters q" "empty_waiters q1 = empty_waiters q" by auto
  then have "d = Some (hd (contents q))" "q' = q1"
    using False assms(2) by (auto simp: apr_queue_trypop_def)
  with t show ?thesis by simp
qed

lemma card_leave: "finite A \<Longrightarrow> t \<in> A \<Longrightarrow> (of_nat (card (A - {t})) :: u32) = of_nat (card A) - 1"
  using card.remove [of A t] by simp

lemma not_waiting:
  "(\<And>d. spc s t \<noteq> PushWait d) \<Longrightarrow> push_waiting s - {t} = push_waiting s"
  "spc s t \<noteq> PopWait \<Longrightarrow> pop_waiting s - {t} = pop_waiting s"
  "spc s t = PushWait d \<Longrightarrow> t \<in> push_waiting s" "spc s t = PopWait \<Longrightarrow> t \<in> pop_waiting s"
  "(\<And>d. spc s t \<noteq> PushWait d) \<Longrightarrow> t \<notin> push_waiting s" "spc s t \<noteq> PopWait \<Longrightarrow> t \<notin> pop_waiting s"
  by (auto simp: push_waiting_def pop_waiting_def)

lemma qinv_push_returns:
  assumes "qinv n s" "qwf q" "qbounds q = n" "empty_waiters q = empty_waiters (sq s)" "spc s t \<noteq> PopWait"
    and "contents q = contents (sq s) @ (if r = APR_SUCCESS then [d] else [])"
    and "full_waiters q = of_nat (card (push_waiting s - {t}))"
  shows "qinv n (push_returns s t d r q)"
  using assms not_waiting(2) [OF assms(5)] by (auto simp: qinv_def push_returns_def)

lemma qinv_pop_returns:
  assumes "qinv n s" "qwf q" "qbounds q = n" "full_waiters q = full_waiters (sq s)" "\<And>e. spc s t \<noteq> PushWait e"
    and "contents (sq s) = (case d of Some d \<Rightarrow> [d] | None \<Rightarrow> []) @ contents q"
    and "empty_waiters q = of_nat (card (pop_waiting s - {t}))"
  shows "qinv n (pop_returns s t d q)"
  using assms not_waiting(1) [OF assms(5)] by (auto simp: qinv_def pop_returns_def split: option.splits)

lemma qstep_qinv: "qstep s s' \<Longrightarrow> qinv n s \<Longrightarrow> qinv n s'"
proof (induction rule: qstep.induct)
  case (push_lock s t d r q)
  then show ?case
    using push_enter_effect [of "sq s" d "Ret r" q] not_waiting(1) [of s t]
    by (intro qinv_push_returns) (auto simp: qinv_def)
next
  case (push_block s t d q)
  then show ?case
    using push_enter_effect [of "sq s" d Blocked q] not_waiting(5,6,2) [of s t] by (auto simp: qinv_def)
next
  case (push_wake s t d r q)
  then show ?case
    using push_wake_effect [of "sq s" d r q] not_waiting(3) [of s t] card_leave [of "push_waiting s" t]
    by (intro qinv_push_returns) (auto simp: qinv_def)
next
  case (pop_lock s t r d q)
  then show ?case
    using pop_enter_effect [of "sq s" "Ret (r, d)" q] not_waiting(2) [of s t]
    by (intro qinv_pop_returns) (auto simp: qinv_def split: option.splits)
next
  case (pop_block s t q)
  then show ?case
    using pop_enter_effect [of "sq s" Blocked q] not_waiting(5,6,1) [of s t] by (auto simp: qinv_def)
next
  case (pop_wake s t r d q)
  then show ?case
    using pop_wake_effect [of "sq s" r d q] not_waiting(4) [of s t] card_leave [of "pop_waiting s" t]
    by (intro qinv_pop_returns) (auto simp: qinv_def)
next
  case (try_push s t d r q)
  then show ?case
    using trypush_effect [of "sq s" d r q] not_waiting(1) [of s t]
    by (intro qinv_push_returns) (auto simp: qinv_def)
next
  case (try_pop s t r d q)
  then show ?case
    using trypop_effect [of "sq s" r d q] not_waiting(2) [of s t]
    by (intro qinv_pop_returns) (auto simp: qinv_def)
next
  case (terminate s t)
  then show ?case by (simp add: qinv_def apr_queue_term_def)
qed (use not_waiting in \<open>simp_all add: qinv_def\<close>)

lemma qreach_qinv:
  assumes "qreach n s"
  shows "qinv n s"
proof -
  have "qinv n (qinit n)"
    using queue_create_wf by (simp add: qinv_def qinit_def push_waiting_def pop_waiting_def apr_queue_create_def)
  moreover have "qstep\<^sup>*\<^sup>* (qinit n) s \<Longrightarrow> qinv n (qinit n) \<Longrightarrow> qinv n s"
    by (induction rule: rtranclp_induct) (auto dest: qstep_qinv)
  ultimately show ?thesis using assms by (simp add: qreach_def)
qed

lemma queue_total:
  assumes "qwf q"
  shows "apr_queue_push_enter q d \<noteq> None" "apr_queue_push_wake q d \<noteq> None" "apr_queue_pop_enter q \<noteq> None"
    "apr_queue_pop_wake q \<noteq> None" "apr_queue_trypush q d \<noteq> None" "apr_queue_trypop q \<noteq> None"
proof -
  show "apr_queue_push_enter q d \<noteq> None" "apr_queue_trypush q d \<noteq> None"
    using queue_put_ok [OF assms, of d] by (auto simp: apr_queue_push_enter_def apr_queue_trypush_def)
  show "apr_queue_pop_enter q \<noteq> None" "apr_queue_trypop q \<noteq> None"
    using queue_take_ok [OF assms] by (auto simp: apr_queue_pop_enter_def apr_queue_trypop_def)
  show "apr_queue_push_wake q d \<noteq> None"
    using queue_put_ok [of "q\<lparr>full_waiters := full_waiters q - 1\<rparr>" d] assms
    by (auto simp: apr_queue_push_wake_def Let_def)
  show "apr_queue_pop_wake q \<noteq> None"
    using queue_take_ok [of "q\<lparr>empty_waiters := empty_waiters q - 1\<rparr>"] assms
    by (auto simp: apr_queue_pop_wake_def Let_def)
qed

section \<open>Properties\<close>

text \<open>
  C3: in every reachable state of the threads, what has been pushed is what has been
  popped followed by what is in the buffer: the queue neither loses, duplicates nor
  reorders an element, and never holds more than its capacity.
\<close>

theorem apr_queue_fifo:
  assumes "qreach n s"
  shows "sent s = got s @ contents (sq s) \<and> length (contents (sq s)) \<le> unat n"
proof -
  have "qinv n s" by (rule qreach_qinv [OF assms])
  then show ?thesis using apr_fifo.bounded [of "sq s"] by (auto simp: qinv_def)
qed

lemma qreach_one_push: "qreach 2 (push_returns (qinit 2) 0 7 APR_SUCCESS
    ((apr_queue_create 2)\<lparr>qdata := [7, 0], qin := 1, qnelts := 1\<rparr>))"
proof -
  have "replicate 2 0 = [0, 0 :: addr]" by (simp add: numeral_2_eq_2)
  moreover have "\<not> (2 :: u32) \<le> 1" by (simp add: word_le_nat_alt)
  ultimately have "apr_queue_trypush (sq (qinit 2)) 7 = Some (APR_SUCCESS, (apr_queue_create 2)\<lparr>qdata := [7, 0], qin := 1, qnelts := 1\<rparr>)"
    by (simp add: apr_queue_trypush_def qinit_def apr_queue_create_def apr_queue_full_def queue_put_def queue_wrap_def)
  moreover have "spc (qinit 2) 0 = Idle" by (simp add: qinit_def)
  ultimately show ?thesis unfolding qreach_def by (intro r_into_rtranclp try_push)
qed

theorem apr_queue_fifo_witness:
  "\<exists>s. qreach 2 s \<and> sent s = [7] \<and> sent s = got s @ contents (sq s) \<and> length (contents (sq s)) \<le> 2"
  using apr_queue_fifo [OF qreach_one_push] qreach_one_push
  by (intro exI conjI) (auto simp: push_returns_def qinit_def)

text \<open>
  C33: no operation of a reachable state accesses a slot outside the buffer, and the two
  waiter counts are the numbers of threads blocked in a push and in a pop.
\<close>

theorem apr_queue_safe:
  assumes "qreach n s"
  shows "apr_queue_push_enter (sq s) d \<noteq> None \<and> apr_queue_push_wake (sq s) d \<noteq> None \<and>
     apr_queue_pop_enter (sq s) \<noteq> None \<and> apr_queue_pop_wake (sq s) \<noteq> None \<and>
     apr_queue_trypush (sq s) d \<noteq> None \<and> apr_queue_trypop (sq s) \<noteq> None \<and>
     full_waiters (sq s) = of_nat (card {t. \<exists>d. spc s t = PushWait d}) \<and>
     empty_waiters (sq s) = of_nat (card {t. spc s t = PopWait})"
proof -
  have inv: "qinv n s" by (rule qreach_qinv [OF assms])
  then have w: "qwf (sq s)" by (simp add: qinv_def)
  show ?thesis using queue_total [OF w] inv by (simp add: qinv_def push_waiting_def pop_waiting_def)
qed

theorem apr_queue_safe_witness: "\<exists>s. qreach 2 s \<and> sent s = [7] \<and> apr_queue_pop_enter (sq s) \<noteq> None"
  using apr_queue_safe [OF qreach_one_push] qreach_one_push
  by (intro exI conjI) (auto simp: push_returns_def qinit_def)

text \<open>
  A sequence of values pushed into an empty open queue that has room for it comes out
  of as many pops unchanged, and the queue is empty again.
\<close>

theorem apr_queue_roundtrip:
  assumes "qwf q" "\<not> terminated q" "contents q = []" "length ds \<le> unat (qbounds q)"
  shows "\<exists>q' q''. push_all apr_queue_trypush q ds = Some q' \<and>
     pop_all apr_queue_trypop (length ds) q' = Some (ds, q'') \<and> contents q'' = []"
  by (rule apr_fifo.push_pop_all [OF assms])

theorem apr_queue_roundtrip_witness:
  "\<exists>q' q''. push_all apr_queue_trypush (apr_queue_create 3) [5, 6, 7] = Some q' \<and>
     pop_all apr_queue_trypop (length [5, 6, 7 :: addr]) q' = Some ([5, 6, 7], q'') \<and> contents q'' = []"
  by (rule apr_queue_roundtrip [OF queue_create_wf(1,3,2)]) (simp add: queue_create_wf)

end
