(* ===== verification/Agc_Event.thy ===== *)
theory Agc_Event
  imports Agc_Event_Headers Agc_Queue_Threads
begin

text \<open>
  The event system of \<^verbatim>\<open>src/src/agc_event.c\<close>: the table of event names, the subscriber
  lists, source ids, the dispatch queues and their threads, and the pools of preallocated
  (``fast'') events. An array is a list read and written with the C index, and an index
  outside it is \<^const>\<open>None\<close>. A callback is a function pointer: calling it appends the
  pointer and its argument to a log; what the callback itself does are further steps.
\<close>

section \<open>State\<close>

definition EVENT_ID_LIMIT :: int where "EVENT_ID_LIMIT = 1024"
definition EVENT_ID_ALL :: int where "EVENT_ID_ALL = 0"
definition EVENT_FAST_TYPE_Invalid :: int where "EVENT_FAST_TYPE_Invalid = 27"
definition DISPATCH_QUEUE_LIMIT :: u32 where "DISPATCH_QUEUE_LIMIT = 10000"

definition EVENT_ID_IS_INVALID :: "int \<Rightarrow> bool" where
  "EVENT_ID_IS_INVALID x \<longleftrightarrow> x = EVENT_ID_ALL \<or> x \<ge> EVENT_ID_LIMIT"

lemmas event_consts = EVENT_ID_LIMIT_def EVENT_ID_ALL_def EVENT_FAST_TYPE_Invalid_def DISPATCH_QUEUE_LIMIT_def

definition arr_get :: "'a list \<Rightarrow> int \<Rightarrow> 'a option" where
  "arr_get xs i = (if 0 \<le> i \<and> nat i < length xs then Some (xs ! nat i) else None)"

definition arr_set :: "'a list \<Rightarrow> int \<Rightarrow> 'a \<Rightarrow> 'a list option" where
  "arr_set xs i v = (if 0 \<le> i \<and> nat i < length xs then Some (xs[nat i := v]) else None)"

record ev_node =
  node_addr :: addr
  node_id :: string
  node_event :: int
  node_callback :: addr

record fast_node =
  ftype :: int
  fheader_numbers :: int
  fheaders :: "addr list"
  fname_cap :: "nat list"
  fvalue_cap :: "nat list"
  fbody_cap :: nat

record evsys =
  running :: bool
  max_dispatcher :: u32
  thread_count :: int
  queue_running :: "bool list"
  event_source_id :: u32
  event_templates :: "string option list"
  event_nodes :: "ev_node list list"
  dispatch_queues :: "apr_queue list"
  fast_queues :: "apr_queue option list"
  events :: "addr \<Rightarrow> agc_event option"
  fast_nodes :: "addr \<Rightarrow> fast_node option"
  hstore :: hheap
  calls :: "(addr \<times> addr) list"

section \<open>Names and sources\<close>

definition init_ids :: "string option list" where
  "init_ids = [Some ''all'', Some ''esl'', Some ''api_res'', Some ''sig2media'', Some ''media2sig'', Some ''om_cmd''] @
     replicate 1018 None"

definition agc_event_alloc_source :: "evsys \<Rightarrow> u32 \<times> evsys" where
  "agc_event_alloc_source s =
     (let source_id = event_source_id s + 1 in
      (source_id, s\<lparr>event_source_id := if source_id = - 1 then 0 else source_id\<rparr>))"

definition agc_event_register :: "evsys \<Rightarrow> int \<Rightarrow> string \<Rightarrow> (agc_status \<times> evsys) option" where
  "agc_event_register s eid name =
     (if EVENT_ID_IS_INVALID eid then Some (AGC_STATUS_GENERR, s)
      else do {
        old \<leftarrow> arr_get (event_templates s) eid;
        (if old \<noteq> None then Some (AGC_STATUS_GENERR, s)
         else do {
           ts \<leftarrow> arr_set (event_templates s) eid (Some name);
           Some (AGC_STATUS_SUCCESS, s\<lparr>event_templates := ts\<rparr>)
         })
      })"

fun template_search :: "string option list \<Rightarrow> int \<Rightarrow> string \<Rightarrow> int option" where
  "template_search [] i name = None"
| "template_search (t # ts) i name =
     (case t of None \<Rightarrow> template_search ts (i + 1) name
      | Some n \<Rightarrow> if strcasecmp_eq name n then Some i else template_search ts (i + 1) name)"

definition agc_event_get_id :: "evsys \<Rightarrow> string option \<Rightarrow> agc_status \<times> int option" where
  "agc_event_get_id s event_name = (case event_name of
     None \<Rightarrow> (AGC_STATUS_GENERR, None)
   | Some name \<Rightarrow> (case template_search (event_templates s) 0 name of
        None \<Rightarrow> (AGC_STATUS_GENERR, None)
      | Some i \<Rightarrow> (AGC_STATUS_SUCCESS, Some i)))"

definition agc_event_get_name :: "evsys \<Rightarrow> int \<Rightarrow> string option option" where
  "agc_event_get_name s eid =
     (if EVENT_ID_IS_INVALID eid then Some None else arr_get (event_templates s) eid)"

section \<open>Subscribers\<close>

definition agc_event_bind_removable :: "evsys \<Rightarrow> string \<Rightarrow> int \<Rightarrow> addr \<Rightarrow> addr \<Rightarrow> (agc_status \<times> evsys) option" where
  "agc_event_bind_removable s name eid callback a =
     (if eid > EVENT_ID_LIMIT then Some (AGC_STATUS_GENERR, s)
      else do {
        let node = \<lparr>node_addr = a, node_id = name, node_event = eid, node_callback = callback\<rparr>;
        ns \<leftarrow> arr_get (event_nodes s) eid;
        nodes \<leftarrow> arr_set (event_nodes s) eid (node # ns);
        Some (AGC_STATUS_SUCCESS, s\<lparr>event_nodes := nodes\<rparr>)
      })"

definition agc_event_bind :: "evsys \<Rightarrow> string \<Rightarrow> int \<Rightarrow> addr \<Rightarrow> addr \<Rightarrow> (agc_status \<times> evsys) option" where
  "agc_event_bind s name eid callback a = agc_event_bind_removable s name eid callback a"

fun remove_first :: "('a \<Rightarrow> bool) \<Rightarrow> 'a list \<Rightarrow> 'a list" where
  "remove_first P [] = []"
| "remove_first P (x # xs) = (if P x then xs else x # remove_first P xs)"

text \<open>The handle the caller keeps is the node itself; \<^const>\<open>None\<close> is a \<^verbatim>\<open>NULL\<close> handle.\<close>

definition agc_event_unbind :: "evsys \<Rightarrow> ev_node option \<Rightarrow> (agc_status \<times> evsys) option" where
  "agc_event_unbind s node = (case node of
     None \<Rightarrow> Some (AGC_STATUS_GENERR, s)
   | Some n \<Rightarrow> do {
       ns \<leftarrow> arr_get (event_nodes s) (node_event n);
       nodes \<leftarrow> arr_set (event_nodes s) (node_event n) (remove_first (\<lambda>m. node_addr m = node_addr n) ns);
       Some (if \<exists>m \<in> set ns. node_addr m = node_addr n
             then (AGC_STATUS_SUCCESS, s\<lparr>event_nodes := nodes\<rparr>) else (AGC_STATUS_FALSE, s))
     })"

definition agc_event_unbind_callback :: "evsys \<Rightarrow> addr \<Rightarrow> agc_status \<times> evsys" where
  "agc_event_unbind_callback s callback =
     (if \<exists>ns \<in> set (event_nodes s). \<exists>n \<in> set ns. node_callback n = callback
      then AGC_STATUS_SUCCESS else AGC_STATUS_FALSE,
      s\<lparr>event_nodes := map (remove_first (\<lambda>n. node_callback n = callback)) (event_nodes s)\<rparr>)"

section \<open>Fast events\<close>

definition agc_event_fast_release :: "evsys \<Rightarrow> addr \<Rightarrow> (agc_status \<times> evsys) option" where
  "agc_event_fast_release s e =
     (if e = NULL then Some (AGC_STATUS_FALSE, s)
      else do {
        ev \<leftarrow> events s e;
        (if fast ev = NULL then Some (AGC_STATUS_FALSE, s)
         else do {
           f \<leftarrow> fast_nodes s (fast ev);
           fq \<leftarrow> arr_get (fast_queues s) (ftype f);
           q \<leftarrow> fq;
           (_, q) \<leftarrow> apr_queue_trypush q e;
           fqs \<leftarrow> arr_set (fast_queues s) (ftype f) (Some q);
           Some (AGC_STATUS_SUCCESS, s\<lparr>fast_queues := fqs\<rparr>)
         })
      })"

definition agc_event_fast_alloc :: "evsys \<Rightarrow> int \<Rightarrow> (agc_status \<times> addr option \<times> evsys) option" where
  "agc_event_fast_alloc s ty =
     (if ty \<ge> EVENT_FAST_TYPE_Invalid then Some (AGC_STATUS_GENERR, None, s)
      else do {
        fq \<leftarrow> arr_get (fast_queues s) ty;
        (case fq of
           None \<Rightarrow> Some (AGC_STATUS_GENERR, None, s)
         | Some q \<Rightarrow> do {
             (r, pop, q) \<leftarrow> apr_queue_trypop q;
             fqs \<leftarrow> arr_set (fast_queues s) ty (Some q);
             Some (if r = APR_SUCCESS then (AGC_STATUS_SUCCESS, pop, s\<lparr>fast_queues := fqs\<rparr>)
                   else (AGC_STATUS_GENERR, None, s))
           })
      })"

definition agc_event_fast_create_callback :: "evsys \<Rightarrow> addr \<Rightarrow> addr \<Rightarrow> (agc_status \<times> addr option \<times> evsys) option" where
  "agc_event_fast_create_callback s data callback = do {
     (r, e, s) \<leftarrow> agc_event_fast_alloc s 0;
     (if r \<noteq> AGC_STATUS_SUCCESS then Some (AGC_STATUS_GENERR, None, s)
      else do {
        e \<leftarrow> e;
        ev \<leftarrow> events s e;
        Some (AGC_STATUS_SUCCESS, Some e, s\<lparr>events := (events s)(e := Some (ev\<lparr>call_back := callback, event_context := data\<rparr>))\<rparr>)
      })
   }"

section \<open>Firing and delivering\<close>

text \<open>
  \<^verbatim>\<open>agc_event_fire\<close>: \<open>rnd\<close> is the value \<^verbatim>\<open>rand()\<close> returns. A full queue blocks the
  caller; when it wakes it tries again, as \<^verbatim>\<open>agc_queue_push\<close> does. The third component is
  the queue the event went to.
\<close>

definition agc_random :: "nat \<Rightarrow> int \<Rightarrow> int" where
  "agc_random rnd bound = int rnd mod bound"

definition fire_index :: "evsys \<Rightarrow> u32 \<Rightarrow> nat \<Rightarrow> int" where
  "fire_index s src rnd =
     (if src \<noteq> 0 then uint (src mod max_dispatcher s) else agc_random rnd (uint (max_dispatcher s)))"

definition agc_event_fire :: "evsys \<Rightarrow> addr \<Rightarrow> nat \<Rightarrow> (agc_status qcall \<times> evsys \<times> int option) option" where
  "agc_event_fire s e rnd =
     (if e = NULL then Some (Ret AGC_STATUS_GENERR, s, None)
      else do {
        ev \<leftarrow> events s e;
        (if \<not> running s then do {
           h \<leftarrow> agc_event_destroy (hstore s) (Some ev);
           Some (Ret AGC_STATUS_SUCCESS, s\<lparr>hstore := h, events := (events s)(e := Some (ev\<lparr>body := None\<rparr>))\<rparr>, None)
         } else do {
           let i = fire_index s (source_id ev) rnd;
           q \<leftarrow> arr_get (dispatch_queues s) i;
           (if terminated q then Some (Ret AGC_STATUS_SUCCESS, s, None)
            else do {
              (c, q) \<leftarrow> apr_queue_push_enter q e;
              qs \<leftarrow> arr_set (dispatch_queues s) i q;
              (case c of
                 Ret r \<Rightarrow> Some (Ret AGC_STATUS_SUCCESS, s\<lparr>dispatch_queues := qs\<rparr>, if r = APR_SUCCESS then Some i else None)
               | Blocked \<Rightarrow> Some (Blocked, s\<lparr>dispatch_queues := qs\<rparr>, None))
            })
         })
      })"

text \<open>Lines 765 to 790: the callback of the event, or the subscribers of its id and of all events.\<close>

definition deliver_calls :: "evsys \<Rightarrow> addr \<Rightarrow> agc_event \<Rightarrow> (addr \<times> addr) list option" where
  "deliver_calls s e ev =
     (if \<not> running s then Some []
      else if call_back ev \<noteq> NULL then Some [(call_back ev, event_context ev)]
      else do {
        ns \<leftarrow> arr_get (event_nodes s) (event_id ev);
        all \<leftarrow> arr_get (event_nodes s) EVENT_ID_ALL;
        Some (map (\<lambda>n. (node_callback n, e)) (ns @ all))
      })"

definition agc_event_deliver :: "evsys \<Rightarrow> addr \<Rightarrow> evsys option" where
  "agc_event_deliver s e = do {
     ev \<leftarrow> events s e;
     cs \<leftarrow> deliver_calls s e ev;
     let s = s\<lparr>calls := calls s @ cs\<rparr>;
     (if fast ev \<noteq> NULL then do {
        (_, s) \<leftarrow> agc_event_fast_release s e;
        Some s
      } else do {
        h \<leftarrow> agc_event_destroy (hstore s) (Some ev);
        Some (s\<lparr>hstore := h, events := (events s)(e := Some (ev\<lparr>body := None\<rparr>))\<rparr>)
      })
   }"

text \<open>One pass of \<^verbatim>\<open>agc_event_dispatch_thread\<close> on queue \<open>i\<close>.\<close>

datatype dispatched = Ended | Waited | Delivered addr

definition agc_event_dispatch_once :: "evsys \<Rightarrow> nat \<Rightarrow> (dispatched \<times> evsys) option" where
  "agc_event_dispatch_once s i =
     (if \<not> running s then Some (Ended, s)
      else do {
        q \<leftarrow> arr_get (dispatch_queues s) (int i);
        (r, pop, q) \<leftarrow> apr_queue_trypop q;
        (if r \<noteq> APR_SUCCESS then Some (Waited, s)
         else do {
           e \<leftarrow> pop;
           qs \<leftarrow> arr_set (dispatch_queues s) (int i) q;
           let s = s\<lparr>dispatch_queues := qs\<rparr>;
           (if e = NULL then Some (Ended, s)
            else do { s \<leftarrow> agc_event_deliver s e; Some (Delivered e, s) })
         })
      })"

definition dispatch_thread_start :: "evsys \<Rightarrow> nat \<Rightarrow> evsys option" where
  "dispatch_thread_start s i = do {
     qr \<leftarrow> arr_set (queue_running s) (int i) True;
     Some (s\<lparr>queue_running := qr, thread_count := thread_count s + 1\<rparr>)
   }"

definition dispatch_thread_end :: "evsys \<Rightarrow> nat \<Rightarrow> evsys option" where
  "dispatch_thread_end s i = do {
     qr \<leftarrow> arr_set (queue_running s) (int i) False;
     Some (s\<lparr>queue_running := qr, thread_count := thread_count s - 1\<rparr>)
   }"

end
