(* ===== verification/Agc_Event_Dispatch.thy ===== *)
theory Agc_Event_Dispatch
  imports Agc_Event "HOL-Library.Sublist"
begin

text \<open>
  The dispatch queues under all interleavings of firing threads and dispatch threads. The
  logs record, with the queue, what was pushed (and the event's source) and what was taken
  out for delivery. A caller that found its queue full waits in \<open>blocked\<close>, and goes through
  \<open>retrying\<close> when it was interrupted, as the loop in \<^verbatim>\<open>agc_queue_push\<close> does.
\<close>

section \<open>Arrays\<close>

lemma arr_get_Some: "arr_get xs i = Some v \<longleftrightarrow> 0 \<le> i \<and> nat i < length xs \<and> v = xs ! nat i"
  by (auto simp: arr_get_def)

lemma arr_set_Some: "arr_set xs i v = Some ys \<longleftrightarrow> 0 \<le> i \<and> nat i < length xs \<and> ys = xs[nat i := v]"
  by (auto simp: arr_set_def)

lemma arr_get_int [simp]: "arr_get xs (int n) = (if n < length xs then Some (xs ! n) else None)"
  by (simp add: arr_get_def)

lemma arr_set_int [simp]: "arr_set xs (int n) v = (if n < length xs then Some (xs[n := v]) else None)"
  by (simp add: arr_set_def)

section \<open>The system of threads\<close>

record dsys =
  es :: evsys
  fired :: "(nat \<times> addr \<times> u32) list"
  taken :: "(nat \<times> addr) list"
  blocked :: "(nat \<times> addr \<times> u32) list"
  retrying :: "(nat \<times> addr \<times> u32) list"

definition with_queue :: "dsys \<Rightarrow> nat \<Rightarrow> apr_queue \<Rightarrow> dsys" where
  "with_queue d i q = d\<lparr>es := (es d)\<lparr>dispatch_queues := (dispatch_queues (es d))[i := q]\<rparr>\<rparr>"

inductive dstep :: "dsys \<Rightarrow> dsys \<Rightarrow> bool" where
  fire_queued: "events (es d) e = Some ev \<Longrightarrow> agc_event_fire (es d) e rnd = Some (Ret r, s, Some i) \<Longrightarrow>
    dstep d (d\<lparr>es := s, fired := fired d @ [(nat i, e, source_id ev)]\<rparr>)"
| fire_dropped: "agc_event_fire (es d) e rnd = Some (Ret r, s, None) \<Longrightarrow> dstep d (d\<lparr>es := s\<rparr>)"
| fire_blocked: "events (es d) e = Some ev \<Longrightarrow> agc_event_fire (es d) e rnd = Some (Blocked, s, None) \<Longrightarrow>
    dstep d (d\<lparr>es := s, blocked := (nat (fire_index (es d) (source_id ev) rnd), e, source_id ev) # blocked d\<rparr>)"
| wake_queued: "(i, e, src) \<in> set (blocked d) \<Longrightarrow> apr_queue_push_wake (dispatch_queues (es d) ! i) e = Some (APR_SUCCESS, q) \<Longrightarrow>
    dstep d ((with_queue d i q)\<lparr>fired := fired d @ [(i, e, src)], blocked := remove1 (i, e, src) (blocked d)\<rparr>)"
| wake_intr: "(i, e, src) \<in> set (blocked d) \<Longrightarrow> apr_queue_push_wake (dispatch_queues (es d) ! i) e = Some (APR_EINTR, q) \<Longrightarrow>
    dstep d ((with_queue d i q)\<lparr>blocked := remove1 (i, e, src) (blocked d), retrying := (i, e, src) # retrying d\<rparr>)"
| wake_eof: "(i, e, src) \<in> set (blocked d) \<Longrightarrow> apr_queue_push_wake (dispatch_queues (es d) ! i) e = Some (APR_EOF, q) \<Longrightarrow>
    dstep d ((with_queue d i q)\<lparr>blocked := remove1 (i, e, src) (blocked d)\<rparr>)"
| retry_queued: "(i, e, src) \<in> set (retrying d) \<Longrightarrow> \<not> terminated (dispatch_queues (es d) ! i) \<Longrightarrow>
    apr_queue_push_enter (dispatch_queues (es d) ! i) e = Some (Ret APR_SUCCESS, q) \<Longrightarrow>
    dstep d ((with_queue d i q)\<lparr>fired := fired d @ [(i, e, src)], retrying := remove1 (i, e, src) (retrying d)\<rparr>)"
| retry_blocked: "(i, e, src) \<in> set (retrying d) \<Longrightarrow> \<not> terminated (dispatch_queues (es d) ! i) \<Longrightarrow>
    apr_queue_push_enter (dispatch_queues (es d) ! i) e = Some (Blocked, q) \<Longrightarrow>
    dstep d ((with_queue d i q)\<lparr>blocked := (i, e, src) # blocked d, retrying := remove1 (i, e, src) (retrying d)\<rparr>)"
| retry_eof: "(i, e, src) \<in> set (retrying d) \<Longrightarrow> terminated (dispatch_queues (es d) ! i) \<Longrightarrow>
    dstep d (d\<lparr>retrying := remove1 (i, e, src) (retrying d)\<rparr>)"
| dispatch: "agc_event_dispatch_once (es d) i = Some (Delivered e, s) \<Longrightarrow> dstep d (d\<lparr>es := s, taken := taken d @ [(i, e)]\<rparr>)"
| dispatch_idle: "agc_event_dispatch_once (es d) i = Some (Waited, s) \<Longrightarrow> dstep d (d\<lparr>es := s\<rparr>)"
| dispatch_end: "\<not> running (es d) \<Longrightarrow> agc_event_dispatch_once (es d) i = Some (Ended, s) \<Longrightarrow> dstep d (d\<lparr>es := s\<rparr>)"
| other: "dispatch_queues s = dispatch_queues (es d) \<Longrightarrow> max_dispatcher s = max_dispatcher (es d) \<Longrightarrow> dstep d (d\<lparr>es := s\<rparr>)"

definition dinit :: "evsys \<Rightarrow> dsys" where
  "dinit s = \<lparr>es = s, fired = [], taken = [], blocked = [], retrying = []\<rparr>"

definition fresh_queues :: "evsys \<Rightarrow> bool" where
  "fresh_queues s \<longleftrightarrow> max_dispatcher s \<noteq> 0 \<and>
     dispatch_queues s = replicate (unat (max_dispatcher s)) (apr_queue_create DISPATCH_QUEUE_LIMIT)"

definition on_queue :: "nat \<Rightarrow> (nat \<times> 'a) list \<Rightarrow> 'a list" where
  "on_queue i l = map snd (filter (\<lambda>x. fst x = i) l)"

lemma on_queue_simps [simp]:
  "on_queue i [] = []" "on_queue i (l @ m) = on_queue i l @ on_queue i m"
  "on_queue i [(j, x)] = (if i = j then [x] else [])"
  by (auto simp: on_queue_def)

definition home :: "nat \<Rightarrow> (nat \<times> addr \<times> u32) \<Rightarrow> bool" where
  "home n x \<longleftrightarrow> (case x of (i, e, src) \<Rightarrow> i < n \<and> (src \<noteq> 0 \<longrightarrow> i = unat src mod n))"

definition dinv :: "nat \<Rightarrow> dsys \<Rightarrow> bool" where
  "dinv n d \<longleftrightarrow> n \<noteq> 0 \<and> unat (max_dispatcher (es d)) = n \<and> length (dispatch_queues (es d)) = n \<and>
     (\<forall>i < n. qwf (dispatch_queues (es d) ! i) \<and>
        map fst (on_queue i (fired d)) = on_queue i (taken d) @ contents (dispatch_queues (es d) ! i)) \<and>
     (\<forall>x \<in> set (fired d) \<union> set (blocked d) \<union> set (retrying d). home n x)"

section \<open>What firing and dispatching do to the queues\<close>

lemma fire_index_home:
  assumes "unat (max_dispatcher s) = n" "n \<noteq> 0"
  shows "0 \<le> fire_index s src rnd" "home n (nat (fire_index s src rnd), e, src)"
proof -
  have "uint (max_dispatcher s) = int n" using assms(1) by (metis uint_nat)
  moreover have "nat (uint (src mod max_dispatcher s)) = unat src mod n"
    using assms(1) by (simp add: unat_mod)
  moreover have "nat (int rnd mod int n) < n" using assms(2) by (metis nat_int of_nat_mod mod_less_divisor neq0_conv)
  ultimately show "0 \<le> fire_index s src rnd" "home n (nat (fire_index s src rnd), e, src)"
    using assms(2) by (auto simp: fire_index_def agc_random_def home_def simp flip: of_nat_mod)
qed

text \<open>A call to fire leaves the queues alone or is one entry into the queue of the event.\<close>

lemma fire_effect:
  assumes "agc_event_fire s e rnd = Some (c, s', io)"
  shows "max_dispatcher s' = max_dispatcher s \<and>
     (dispatch_queues s' = dispatch_queues s \<and> io = None \<and> c \<noteq> Blocked \<or>
      (\<exists>ev i r q'. events s e = Some ev \<and> i = nat (fire_index s (source_id ev) rnd) \<and> i < length (dispatch_queues s) \<and>
         0 \<le> fire_index s (source_id ev) rnd \<and>
         apr_queue_push_enter (dispatch_queues s ! i) e = Some (r, q') \<and> dispatch_queues s' = (dispatch_queues s)[i := q'] \<and>
         (c = Blocked \<longleftrightarrow> r = Blocked) \<and>
         io = (if r = Ret APR_SUCCESS then Some (fire_index s (source_id ev) rnd) else None)))"
proof (cases "e = NULL")
  case True
  then show ?thesis using assms by (auto simp: agc_event_fire_def)
next
  case False
  with assms obtain ev where ev: "events s e = Some ev" by (auto simp: agc_event_fire_def bind_Some_iff)
  define i where "i = fire_index s (source_id ev) rnd"
  show ?thesis
  proof (cases "\<not> running s \<or> (\<exists>q. arr_get (dispatch_queues s) i = Some q \<and> terminated q)")
    case True
    then show ?thesis using assms False ev
      by (cases "running s") (auto simp: agc_event_fire_def bind_Some_iff i_def Let_def)
  next
    case open_: False
    with assms False ev obtain q where q: "arr_get (dispatch_queues s) i = Some q" "\<not> terminated q"
      by (auto simp: agc_event_fire_def bind_Some_iff i_def Let_def)
    with assms False ev open_ obtain r q' where r: "apr_queue_push_enter q e = Some (r, q')"
      by (auto simp: agc_event_fire_def bind_Some_iff i_def Let_def)
    have b: "0 \<le> i" "nat i < length (dispatch_queues s)" "q = dispatch_queues s ! nat i"
      using q(1) by (simp_all add: arr_get_Some)
    have "dispatch_queues s' = (dispatch_queues s)[nat i := q'] \<and> max_dispatcher s' = max_dispatcher s \<and>
        (c = Blocked \<longleftrightarrow> r = Blocked) \<and> io = (if r = Ret APR_SUCCESS then Some i else None)"
      using assms False ev open_ q r b
      by (cases r) (auto simp: agc_event_fire_def Let_def i_def [symmetric] arr_set_def split: if_splits)
    with ev r b show ?thesis unfolding i_def by blast
  qed
qed

lemma release_queues:
  "agc_event_fast_release s e = Some (r, s') \<Longrightarrow> dispatch_queues s' = dispatch_queues s \<and> max_dispatcher s' = max_dispatcher s"
  by (auto simp: agc_event_fast_release_def bind_Some_iff split: if_splits)

lemma deliver_queues:
  "agc_event_deliver s e = Some s' \<Longrightarrow> dispatch_queues s' = dispatch_queues s \<and> max_dispatcher s' = max_dispatcher s"
  by (auto simp: agc_event_deliver_def bind_Some_iff Let_def dest!: release_queues split: if_splits)

lemma dispatch_effect:
  assumes "agc_event_dispatch_once s i = Some (r, s')"
  shows "max_dispatcher s' = max_dispatcher s \<and>
     (case r of
        Delivered e \<Rightarrow> i < length (dispatch_queues s) \<and> (\<exists>q'. apr_queue_trypop (dispatch_queues s ! i) = Some (APR_SUCCESS, Some e, q') \<and>
          dispatch_queues s' = (dispatch_queues s)[i := q'])
      | Waited \<Rightarrow> dispatch_queues s' = dispatch_queues s
      | Ended \<Rightarrow> \<not> running s \<longrightarrow> dispatch_queues s' = dispatch_queues s)"
  using assms
  by (auto simp: agc_event_dispatch_once_def bind_Some_iff Let_def split: if_splits dest!: deliver_queues)

section \<open>The invariant\<close>

lemma dinv_push:
  assumes "dinv n d" "i < n" "dispatch_queues s = (dispatch_queues (es d))[i := q]" "max_dispatcher s = max_dispatcher (es d)"
    and "qwf q" "contents q = contents (dispatch_queues (es d) ! i) @ map fst l"
    and "\<forall>x \<in> set l. home n (i, x)" "\<forall>x \<in> set b \<union> set r. home n x"
  shows "dinv n (d\<lparr>es := s, fired := fired d @ map (Pair i) l, blocked := b, retrying := r\<rparr>)"
proof -
  have oq: "on_queue j (map (Pair i) l) = (if j = i then l else [])" for j
    by (induction l) (auto simp: on_queue_def)
  show ?thesis using assms oq by (auto simp: dinv_def nth_list_update)
qed

lemma dinv_take:
  assumes "dinv n d" "i < n" "dispatch_queues s = (dispatch_queues (es d))[i := q]" "max_dispatcher s = max_dispatcher (es d)"
    and "qwf q" "contents (dispatch_queues (es d) ! i) = e # contents q"
  shows "dinv n (d\<lparr>es := s, taken := taken d @ [(i, e)]\<rparr>)"
  using assms by (auto simp: dinv_def nth_list_update)

lemma dinv_same:
  assumes "dinv n d" "dispatch_queues s = dispatch_queues (es d)" "max_dispatcher s = max_dispatcher (es d)"
    and "\<forall>x \<in> set b \<union> set r. home n x"
  shows "dinv n (d\<lparr>es := s, blocked := b, retrying := r\<rparr>)"
  using assms by (auto simp: dinv_def)

lemma dinv_facts:
  assumes "dinv n d"
  shows "n \<noteq> 0" "unat (max_dispatcher (es d)) = n" "length (dispatch_queues (es d)) = n"
    "i < n \<Longrightarrow> qwf (dispatch_queues (es d) ! i)" "\<forall>x \<in> set (blocked d) \<union> set (retrying d). home n x"
    "(i, e, src) \<in> set (blocked d) \<union> set (retrying d) \<Longrightarrow> i < n"
  using assms by (auto simp: dinv_def home_def)

text \<open>A step that enters one queue, whatever the outcome of the push.\<close>

lemma dinv_enter:
  assumes "dinv n d" "i < n" "apr_queue_push_enter (dispatch_queues (es d) ! i) e = Some (c, q)"
    and "dispatch_queues s = (dispatch_queues (es d))[i := q]" "max_dispatcher s = max_dispatcher (es d)"
    and "home n (i, e, src)" "\<forall>x \<in> set b \<union> set r. home n x"
  shows "dinv n (d\<lparr>es := s, fired := fired d @ (if c = Ret APR_SUCCESS then [(i, e, src)] else []), blocked := b, retrying := r\<rparr>)"
proof -
  have E: "qwf q" "contents q = contents (dispatch_queues (es d) ! i) @ (if c = Ret APR_SUCCESS then [e] else [])"
    using push_enter_effect [OF dinv_facts(4) [OF assms(1,2)] assms(3)] by simp_all
  show ?thesis
    using dinv_push [OF assms(1,2,4,5) E(1), of "if c = Ret APR_SUCCESS then [(e, src)] else []" b r] E(2) assms(6,7)
    by (simp split: if_splits)
qed

lemma dinv_wake:
  assumes "dinv n d" "i < n" "apr_queue_push_wake (dispatch_queues (es d) ! i) e = Some (c, q)"
    and "dispatch_queues s = (dispatch_queues (es d))[i := q]" "max_dispatcher s = max_dispatcher (es d)"
    and "home n (i, e, src)" "\<forall>x \<in> set b \<union> set r. home n x"
  shows "dinv n (d\<lparr>es := s, fired := fired d @ (if c = APR_SUCCESS then [(i, e, src)] else []), blocked := b, retrying := r\<rparr>)"
proof -
  have E: "qwf q" "contents q = contents (dispatch_queues (es d) ! i) @ (if c = APR_SUCCESS then [e] else [])"
    using push_wake_effect [OF dinv_facts(4) [OF assms(1,2)] assms(3)] by simp_all
  show ?thesis
    using dinv_push [OF assms(1,2,4,5) E(1), of "if c = APR_SUCCESS then [(e, src)] else []" b r] E(2) assms(6,7)
    by (simp split: if_splits)
qed

lemma dinv_fire:
  assumes "dinv n d" "agc_event_fire (es d) e rnd = Some (c, s, io)" "events (es d) e = Some ev"
  defines "i \<equiv> fire_index (es d) (source_id ev) rnd"
  shows "dinv n (d\<lparr>es := s, fired := fired d @ (if io = None then [] else [(nat i, e, source_id ev)]),
      blocked := (if c = Blocked then (nat i, e, source_id ev) # blocked d else blocked d), retrying := retrying d\<rparr>)"
    "io \<noteq> None \<Longrightarrow> io = Some i"
proof -
  note F = dinv_facts [OF assms(1)]
  note H = fire_index_home [OF F(2,1), of "source_id ev" rnd, folded i_def]
  consider (none) "dispatch_queues s = dispatch_queues (es d)" "max_dispatcher s = max_dispatcher (es d)" "io = None" "c \<noteq> Blocked"
    | (enter) r q' where "nat i < length (dispatch_queues (es d))"
      "apr_queue_push_enter (dispatch_queues (es d) ! nat i) e = Some (r, q')" "max_dispatcher s = max_dispatcher (es d)"
      "dispatch_queues s = (dispatch_queues (es d))[nat i := q']" "c = Blocked \<longleftrightarrow> r = Blocked"
      "io = (if r = Ret APR_SUCCESS then Some i else None)"
    using fire_effect [OF assms(2)] assms(3) unfolding i_def by auto
  then show "dinv n (d\<lparr>es := s, fired := fired d @ (if io = None then [] else [(nat i, e, source_id ev)]),
      blocked := (if c = Blocked then (nat i, e, source_id ev) # blocked d else blocked d), retrying := retrying d\<rparr>)"
  proof cases
    case none
    then show ?thesis using dinv_same [OF assms(1) none(1,2) F(5)] by simp
  next
    case enter
    then have "nat i < n" using F(3) by simp
    from dinv_enter [OF assms(1) this enter(2,4,3) H(2), of "if c = Blocked then (nat i, e, source_id ev) # blocked d else blocked d" "retrying d"]
      enter(6) F(5) H(2) show ?thesis by (auto split: if_splits)
  qed
  show "io \<noteq> None \<Longrightarrow> io = Some i"
    using fire_effect [OF assms(2)] assms(3) unfolding i_def by (auto split: if_splits)
qed

lemma dsys_same [simp]:
  "d\<lparr>es := a, fired := f, blocked := b, retrying := retrying d\<rparr> = d\<lparr>es := a, fired := f, blocked := b\<rparr>"
  "d\<lparr>es := a, fired := f, blocked := blocked d, retrying := r\<rparr> = d\<lparr>es := a, fired := f, retrying := r\<rparr>"
  "d\<lparr>es := a, fired := f, blocked := blocked d\<rparr> = d\<lparr>es := a, fired := f\<rparr>"
  "d\<lparr>es := a, fired := fired d, blocked := b, retrying := r\<rparr> = d\<lparr>es := a, blocked := b, retrying := r\<rparr>"
  "d\<lparr>es := a, fired := fired d, blocked := b\<rparr> = d\<lparr>es := a, blocked := b\<rparr>"
  "d\<lparr>es := a, fired := fired d, retrying := r\<rparr> = d\<lparr>es := a, retrying := r\<rparr>"
  "d\<lparr>es := a, fired := fired d\<rparr> = d\<lparr>es := a\<rparr>"
  "d\<lparr>es := a, blocked := b, retrying := retrying d\<rparr> = d\<lparr>es := a, blocked := b\<rparr>"
  "d\<lparr>es := a, blocked := blocked d\<rparr> = d\<lparr>es := a\<rparr>"
  by (cases d; simp)+

lemma home_mem: "dinv n d \<Longrightarrow> x \<in> set (blocked d) \<union> set (retrying d) \<Longrightarrow> home n x"
  using dinv_facts(5) by blast

lemma set_remove1_home: "\<forall>x \<in> set xs. home n x \<Longrightarrow> \<forall>x \<in> set (remove1 y xs). home n x"
  using set_remove1_subset [of y xs] by blast

lemma dstep_dinv: "dstep d d' \<Longrightarrow> dinv n d \<Longrightarrow> dinv n d'"
proof (induction rule: dstep.induct)
  case (fire_queued d e ev rnd r s i)
  then show ?case using dinv_fire [of n d e rnd "Ret r" s "Some i" ev] by simp
next
  case (fire_dropped d e rnd r s)
  show ?case
  proof (cases "events (es d) e")
    case None
    then show ?thesis
      using fire_effect [OF fire_dropped(1)] dinv_same [OF fire_dropped(2), of s "blocked d" "retrying d"] dinv_facts(5) [OF fire_dropped(2)]
      by auto
  next
    case (Some ev)
    then show ?thesis using dinv_fire(1) [OF fire_dropped(2,1), of ev] by simp
  qed
next
  case (fire_blocked d e ev rnd s)
  then show ?case using dinv_fire(1) [of n d e rnd Blocked s None ev] by simp
next
  case (wake_queued i e src d q)
  note H = dinv_facts(5) [OF wake_queued(3)] dinv_facts(6) [OF wake_queued(3), of i e src]
  from dinv_wake [OF wake_queued(3) _ wake_queued(2), of _ src "remove1 (i, e, src) (blocked d)" "retrying d"]
  show ?case using H wake_queued(1) set_remove1_home [of "blocked d" n] by (simp add: with_queue_def ball_Un)
next
  case (wake_intr i e src d q)
  note H = dinv_facts(5) [OF wake_intr(3)] dinv_facts(6) [OF wake_intr(3), of i e src]
  from dinv_wake [OF wake_intr(3) _ wake_intr(2), of _ src "remove1 (i, e, src) (blocked d)" "(i, e, src) # retrying d"]
  show ?case using H wake_intr(1) set_remove1_home [of "blocked d" n] by (simp add: with_queue_def ball_Un)
next
  case (wake_eof i e src d q)
  note H = dinv_facts(5) [OF wake_eof(3)] dinv_facts(6) [OF wake_eof(3), of i e src]
  from dinv_wake [OF wake_eof(3) _ wake_eof(2), of _ src "remove1 (i, e, src) (blocked d)" "retrying d"]
  show ?case using H wake_eof(1) set_remove1_home [of "blocked d" n] by (simp add: with_queue_def ball_Un)
next
  case (retry_queued i e src d q)
  note H = dinv_facts(5) [OF retry_queued(4)] dinv_facts(6) [OF retry_queued(4), of i e src]
  from dinv_enter [OF retry_queued(4) _ retry_queued(3), of _ src "blocked d" "remove1 (i, e, src) (retrying d)"]
  show ?case using H retry_queued(1) set_remove1_home [of "retrying d" n] by (simp add: with_queue_def ball_Un)
next
  case (retry_blocked i e src d q)
  note H = dinv_facts(5) [OF retry_blocked(4)] dinv_facts(6) [OF retry_blocked(4), of i e src]
  from dinv_enter [OF retry_blocked(4) _ retry_blocked(3), of _ src "(i, e, src) # blocked d" "remove1 (i, e, src) (retrying d)"]
  show ?case using H retry_blocked(1) set_remove1_home [of "retrying d" n] by (simp add: with_queue_def ball_Un)
next
  case (retry_eof i e src d)
  have "\<forall>x \<in> set (remove1 (i, e, src) (retrying d)). home n x"
    using dinv_facts(5) [OF retry_eof(3)] by (intro set_remove1_home) blast
  with retry_eof(3) show ?case by (auto simp: dinv_def)
next
  case (dispatch d i e s)
  from dispatch_effect [OF dispatch(1)] obtain q where q: "i < length (dispatch_queues (es d))"
    "apr_queue_trypop (dispatch_queues (es d) ! i) = Some (APR_SUCCESS, Some e, q)"
    "dispatch_queues s = (dispatch_queues (es d))[i := q]" "max_dispatcher s = max_dispatcher (es d)" by auto
  have "i < n" using q(1) dinv_facts(3) [OF dispatch(2)] by simp
  from dinv_take [OF dispatch(2) this q(3,4)] trypop_effect [OF dinv_facts(4) [OF dispatch(2) this] q(2)]
  show ?case by simp
next
  case (dispatch_idle d i s)
  then show ?case
    using dispatch_effect [OF dispatch_idle(1)] dinv_same [of n d s "blocked d" "retrying d"] dinv_facts(5) [of n d] by simp
next
  case (dispatch_end d i s)
  then show ?case
    using dispatch_effect [OF dispatch_end(2)] dinv_same [of n d s "blocked d" "retrying d"] dinv_facts(5) [of n d] by simp
next
  case (other s d)
  then show ?case using dinv_same [of n d s "blocked d" "retrying d"] dinv_facts(5) [of n d] by simp
qed

lemma dreach_dinv:
  assumes "fresh_queues s" "dstep\<^sup>*\<^sup>* (dinit s) d"
  shows "dinv (unat (max_dispatcher s)) d"
proof -
  have "unat (max_dispatcher s) \<noteq> 0" using assms(1) by (simp add: fresh_queues_def unat_gt_0)
  then have "dinv (unat (max_dispatcher s)) (dinit s)"
    using assms(1) queue_create_wf by (simp add: dinv_def dinit_def fresh_queues_def)
  moreover have "dstep\<^sup>*\<^sup>* (dinit s) d \<Longrightarrow> dinv (unat (max_dispatcher s)) (dinit s) \<Longrightarrow> dinv (unat (max_dispatcher s)) d"
    by (induction rule: rtranclp_induct) (auto dest: dstep_dinv)
  ultimately show ?thesis using assms(2) by blast
qed

section \<open>Properties\<close>

text \<open>
  C4: whatever the interleaving of firing and dispatching threads, each dispatch queue
  hands events over in the order they were fired into it, none lost or duplicated, and
  all events of one source go through one queue: the events of a source are handled in
  the order they were fired.
\<close>

theorem agc_event_dispatch_fifo:
  assumes "fresh_queues s" "dstep\<^sup>*\<^sup>* (dinit s) d" "i < unat (max_dispatcher s)"
  shows "map fst (on_queue i (fired d)) = on_queue i (taken d) @ contents (dispatch_queues (es d) ! i) \<and>
     (\<forall>(j, e, src) \<in> set (fired d). src \<noteq> 0 \<longrightarrow> j = unat src mod unat (max_dispatcher s))"
  using dreach_dinv [OF assms(1,2)] assms(3) by (fastforce simp: dinv_def home_def)

text \<open>A system with three dispatch queues and one event of source 5 at address 7.\<close>

definition demo_sys :: evsys where
  "demo_sys = \<lparr>running = True, max_dispatcher = 3, thread_count = 0, queue_running = [False, False, False],
     event_source_id = 0, event_templates = init_ids, event_nodes = replicate 1024 [],
     dispatch_queues = replicate 3 (apr_queue_create DISPATCH_QUEUE_LIMIT), fast_queues = replicate 27 None,
     events = [7 \<mapsto> agc_event_create 3 5], fast_nodes = Map.empty,
     hstore = \<lparr>hlive = {}, hname = (\<lambda>_. []), hvalue = (\<lambda>_. None), hnext = (\<lambda>_. 0)\<rparr>, calls = []\<rparr>"

lemma demo_sys_fresh: "fresh_queues demo_sys" "running demo_sys" "events demo_sys 7 = Some (agc_event_create 3 5)"
  "fire_index demo_sys 5 r = 2"
  by (simp_all add: demo_sys_def fresh_queues_def fire_index_def)

lemma push_enter_create:
  "\<exists>q. apr_queue_push_enter (apr_queue_create DISPATCH_QUEUE_LIMIT) e = Some (Ret APR_SUCCESS, q)"
  using queue_put_ok [OF queue_create_wf(1), of DISPATCH_QUEUE_LIMIT e]
  by (auto simp: apr_queue_push_enter_def apr_queue_full_def apr_queue_create_def DISPATCH_QUEUE_LIMIT_def)

lemma demo_fire: "\<exists>s. agc_event_fire demo_sys 7 0 = Some (Ret AGC_STATUS_SUCCESS, s, Some 2)"
proof -
  obtain q where q: "apr_queue_push_enter (apr_queue_create DISPATCH_QUEUE_LIMIT) 7 = Some (Ret APR_SUCCESS, q)"
    using push_enter_create by blast
  have "arr_get (dispatch_queues demo_sys) 2 = Some (apr_queue_create DISPATCH_QUEUE_LIMIT)"
    by (simp add: arr_get_def demo_sys_def)
  moreover have "\<exists>qs. arr_set (dispatch_queues demo_sys) 2 q = Some qs" by (simp add: arr_set_def demo_sys_def)
  ultimately show ?thesis
    using demo_sys_fresh q queue_create_wf(3) by (auto simp: agc_event_fire_def Let_def agc_event_create_def)
qed

theorem agc_event_dispatch_fifo_witness:
  "\<exists>d. dstep\<^sup>*\<^sup>* (dinit demo_sys) d \<and> fired d = [(2, 7, 5)] \<and>
     map fst (on_queue 2 (fired d)) = on_queue 2 (taken d) @ contents (dispatch_queues (es d) ! 2)"
proof -
  from demo_fire obtain s where f: "agc_event_fire demo_sys 7 0 = Some (Ret AGC_STATUS_SUCCESS, s, Some 2)" by blast
  let ?d = "(dinit demo_sys)\<lparr>es := s, fired := [(2, 7, 5)]\<rparr>"
  have "dstep (dinit demo_sys) ((dinit demo_sys)\<lparr>es := s, fired := fired (dinit demo_sys) @ [(nat 2, 7, source_id (agc_event_create 3 5))]\<rparr>)"
    by (rule fire_queued) (use f demo_sys_fresh in \<open>simp_all add: dinit_def\<close>)
  then have "dstep\<^sup>*\<^sup>* (dinit demo_sys) ?d" by (simp add: dinit_def agc_event_create_def)
  with agc_event_dispatch_fifo [OF demo_sys_fresh(1) this, of 2] show ?thesis
    by (intro exI [of _ ?d]) (simp add: demo_sys_def)
qed

end
