(* ===== verification/Agc_Event_Header_Laws.thy ===== *)
theory Agc_Event_Header_Laws
  imports Agc_Event_Headers
begin

text \<open>
  What the header operations do to the list of headers: lookup, append, deletion,
  destruction and copying on a well-formed event, and what happens when a header that is
  already there is added again.
\<close>

section \<open>Lookup\<close>

lemma header_search_chain:
  "hchain h p xs NULL \<Longrightarrow>
     header_search h p name = Some (case find (\<lambda>x. strcasecmp_eq (hname h x) name) xs of None \<Rightarrow> NULL | Some x \<Rightarrow> x)"
proof (induction xs arbitrary: p)
  case Nil
  then show ?case by (subst header_search.simps) simp
next
  case (Cons x xs)
  then show ?case by (subst header_search.simps) auto
qed

lemma find_cong_kvs:
  "lookup name (kvs h xs) = (case find (\<lambda>x. strcasecmp_eq (hname h x) name) xs of None \<Rightarrow> None | Some x \<Rightarrow> hvalue h x)"
  by (induction xs) (auto simp: lookup_def kvs_def)

lemma find_in: "find P xs = Some x \<Longrightarrow> x \<in> set xs \<and> P x"
  by (induction xs) (auto split: if_splits)

lemma find_none: "find P xs = None \<longleftrightarrow> (\<forall>x \<in> set xs. \<not> P x)"
  by (induction xs) auto

lemma get_header_lookup:
  assumes "event_ok h ev xs"
  shows "agc_event_get_header h ev (Some name) = Some (lookup name (kvs h xs))"
proof -
  have c: "hchain h (headers ev) xs NULL" using assms by (simp add: event_ok_def)
  have "NULL \<notin> set xs" using hchain_live [OF c] by simp
  then show ?thesis
    using find_in [of "\<lambda>x. strcasecmp_eq (hname h x) name" xs]
    unfolding agc_event_get_header_def agc_event_get_header_ptr_def find_cong_kvs
    by (auto simp: header_search_chain [OF c] split: option.splits)
qed

section \<open>Appending\<close>

text \<open>What an operation on one event leaves alone: the headers outside its list.\<close>

definition outside_same :: "addr set \<Rightarrow> hheap \<Rightarrow> hheap \<Rightarrow> bool" where
  "outside_same A h h' \<longleftrightarrow> (\<forall>x. x \<notin> A \<longrightarrow>
     hname h' x = hname h x \<and> hvalue h' x = hvalue h x \<and> hnext h' x = hnext h x \<and> (x \<in> hlive h' \<longleftrightarrow> x \<in> hlive h))"

lemma outside_same_refl: "outside_same A h h"
  by (simp add: outside_same_def)

lemma outside_same_trans: "outside_same A h h' \<Longrightarrow> outside_same B h' h'' \<Longrightarrow> outside_same (A \<union> B) h h''"
  by (auto simp: outside_same_def)

lemma outside_same_mono: "outside_same A h h' \<Longrightarrow> A \<subseteq> B \<Longrightarrow> outside_same B h h'"
  by (auto simp: outside_same_def)

lemma outside_chain: "hchain h p xs q \<Longrightarrow> outside_same A h h' \<Longrightarrow> set xs \<inter> A = {} \<Longrightarrow> hchain h' p xs q"
  using hchain_live [of h p xs q] by (auto simp: outside_same_def intro!: hchain_cong [of h p xs q h'])

lemma outside_event: "event_ok h ev xs \<Longrightarrow> outside_same A h h' \<Longrightarrow> set xs \<inter> A = {} \<Longrightarrow> event_ok h' ev xs"
  by (auto simp: event_ok_def intro: outside_chain)

lemma outside_kvs: "outside_same A h h' \<Longrightarrow> set xs \<inter> A = {} \<Longrightarrow> kvs h' xs = kvs h xs"
  by (auto simp: outside_same_def kvs_def)

text \<open>What an added header changes of the event: only its list.\<close>

definition same_event :: "agc_event \<Rightarrow> agc_event \<Rightarrow> bool" where
  "same_event ev ev' \<longleftrightarrow> ev' = ev\<lparr>headers := headers ev', last_header := last_header ev'\<rparr>"

lemma same_event_refl [simp]: "same_event ev ev"
  by (simp add: same_event_def)

lemma same_event_trans: "same_event ev ev' \<Longrightarrow> same_event ev' ev'' \<Longrightarrow> same_event ev ev''"
  unfolding same_event_def by (metis agc_event.surjective agc_event.update_convs(4,5))

lemma same_event_fields:
  "same_event ev ev' \<Longrightarrow> event_id ev' = event_id ev \<and> source_id ev' = source_id ev \<and> debug_id ev' = debug_id ev \<and>
     event_context ev' = event_context ev \<and> fast ev' = fast ev \<and> body ev' = body ev \<and> call_back ev' = call_back ev \<and>
     timer_set ev' = timer_set ev"
  unfolding same_event_def by (cases ev; cases ev') simp

lemma append_header:
  assumes "event_ok h ev xs" "a \<notin> hlive h" "a \<noteq> NULL"
  shows "\<exists>h' ev'. agc_event_base_add_header_nocheck h ev a name data = Some (h', ev') \<and>
     event_ok h' ev' (xs @ [a]) \<and> kvs h' (xs @ [a]) = kvs h xs @ [(name, Some data)] \<and>
     hlive h' = insert a (hlive h) \<and> outside_same (insert a (set xs)) h h' \<and> same_event ev ev'"
proof -
  have c: "hchain h (headers ev) xs NULL" and d: "distinct xs"
    and l: "last_header ev = (if xs = [] then NULL else last xs)" using assms(1) by (simp_all add: event_ok_def)
  have live: "set xs \<subseteq> hlive h" "NULL \<notin> set xs" "a \<notin> set xs" using hchain_live [OF c] assms(2) by auto
  let ?h1 = "(new_header h a name)\<lparr>hvalue := (hvalue (new_header h a name))(a := Some data)\<rparr>"
  show ?thesis
  proof (cases xs rule: rev_cases)
    case Nil
    let ?h2 = "?h1\<lparr>hnext := (hnext ?h1)(a := NULL)\<rparr>" and ?ev = "ev\<lparr>headers := a, last_header := a\<rparr>"
    have "agc_event_base_add_header_nocheck h ev a name data = Some (?h2, ?ev)"
      using Nil l by (simp add: agc_event_base_add_header_nocheck_def link_header_def set_next_def new_header_def)
    moreover have "event_ok ?h2 ?ev [a]" using assms(3) by (simp add: event_ok_def new_header_def)
    ultimately show ?thesis using Nil
      by (auto simp: kvs_def outside_same_def same_event_def new_header_def)
  next
    case (snoc ys x)
    let ?h2 = "?h1\<lparr>hnext := (hnext ?h1)(x := a)\<rparr>" and ?ev = "ev\<lparr>last_header := a\<rparr>"
    have x: "x \<noteq> NULL" "x \<in> hlive h" "last_header ev = x" "x \<noteq> a" using snoc live l by auto
    then have "agc_event_base_add_header_nocheck h ev a name data = Some (?h2, ?ev)"
      by (simp add: agc_event_base_add_header_nocheck_def link_header_def set_next_def new_header_def)
    moreover have "hchain (?h2\<lparr>hnext := (hnext h)(x := a)\<rparr>) (headers ev) (ys @ [x]) a"
      by (rule hchain_last [OF c [unfolded snoc] d [unfolded snoc]]) (auto simp: new_header_def)
    then have "hchain ?h2 (headers ev) (ys @ [x]) a"
      by (rule hchain_cong) (use live snoc in \<open>auto simp: new_header_def\<close>)
    then have "event_ok ?h2 ?ev (xs @ [a])"
      using snoc d live assms(3) x by (auto simp: event_ok_def hchain_append new_header_def)
    moreover have "kvs ?h2 (xs @ [a]) = kvs h xs @ [(name, Some data)]"
      using live by (auto simp: kvs_def new_header_def)
    ultimately show ?thesis using snoc
      by (auto simp: outside_same_def same_event_def new_header_def)
  qed
qed

text \<open>Adding with the check is the same, when the name is new.\<close>

lemma add_header_new:
  assumes "event_ok h ev xs" "\<forall>x \<in> set xs. \<not> strcasecmp_eq (hname h x) name"
  shows "agc_event_base_add_header h ev a name data = agc_event_base_add_header_nocheck h ev a name data"
proof -
  have c: "hchain h (headers ev) xs NULL" using assms(1) by (simp add: event_ok_def)
  have "find (\<lambda>x. strcasecmp_eq (hname h x) name) xs = None" using assms(2) by (simp add: find_none)
  then have "agc_event_get_header_ptr h ev (Some name) = Some NULL"
    using header_search_chain [OF c] by (simp add: agc_event_get_header_ptr_def)
  then show ?thesis
    by (simp add: agc_event_base_add_header_def agc_event_base_add_header_nocheck_def)
qed

section \<open>Adding a header that is there\<close>

lemma header_search_cycle:
  assumes "header_search h p name = Some r"
    and "\<forall>x \<in> S. x \<noteq> NULL \<and> x \<in> hlive h \<and> \<not> strcasecmp_eq (hname h x) name \<and> hnext h x \<in> S"
  shows "p \<notin> S"
proof -
  have "(\<forall>x \<in> S. x \<noteq> NULL \<and> x \<in> hlive h \<and> \<not> strcasecmp_eq (hname h x) name \<and> hnext h x \<in> S) \<longrightarrow> p \<notin> S"
    by (rule header_search.raw_induct [OF _ assms(1), where P = "\<lambda>h p name r.
        (\<forall>x \<in> S. x \<noteq> NULL \<and> x \<in> hlive h \<and> \<not> strcasecmp_eq (hname h x) name \<and> hnext h x \<in> S) \<longrightarrow> p \<notin> S"])
      (fastforce split: if_splits)
  with assms(2) show ?thesis by blast
qed

lemma destroy_cycle:
  assumes "destroy_loop h p = Some r" and "\<forall>x \<in> S. x \<noteq> NULL \<and> hnext h x \<in> S"
  shows "p \<notin> S"
proof -
  have "(\<forall>x \<in> S. x \<noteq> NULL \<and> hnext h x \<in> S) \<longrightarrow> p \<notin> S"
    by (rule destroy_loop.raw_induct [OF _ assms(1), where P = "\<lambda>h p r. (\<forall>x \<in> S. x \<noteq> NULL \<and> hnext h x \<in> S) \<longrightarrow> p \<notin> S"])
      (fastforce simp: free_header_def split: if_splits)
  with assms(2) show ?thesis by blast
qed

lemma hchain_next: "hchain h p xs NULL \<Longrightarrow> x \<in> set xs \<Longrightarrow> x \<noteq> last xs \<Longrightarrow> hnext h x \<in> set xs"
proof (induction xs arbitrary: p)
  case (Cons y ys)
  then show ?case by (cases ys) auto
qed simp

lemma add_header_again:
  assumes "event_ok h ev xs" "x \<in> set xs" "strcasecmp_eq (hname h x) name"
  shows "\<exists>h' ev'. agc_event_base_add_header h ev a name data = Some (h', ev') \<and> headers ev' = headers ev \<and>
     headers ev \<in> set xs \<and> hlive h' = hlive h \<and> hname h' = hname h \<and> (\<forall>y \<in> set xs. y \<noteq> NULL \<and> hnext h' y \<in> set xs)"
proof -
  have c: "hchain h (headers ev) xs NULL" and l: "last_header ev = last xs"
    using assms(1,2) by (auto simp: event_ok_def)
  have ne: "xs \<noteq> []" using assms(2) by auto
  have live: "set xs \<subseteq> hlive h" "NULL \<notin> set xs" using hchain_live [OF c] by auto
  obtain p where f: "find (\<lambda>x. strcasecmp_eq (hname h x) name) xs = Some p"
    using assms(2,3) find_none [of _ xs] by fastforce
  have p: "p \<in> set xs" "p \<noteq> NULL" using find_in [OF f] live(2) by metis+
  have lx: "last xs \<in> set xs" "last xs \<noteq> NULL" using ne live(2) by (metis last_in_set)+
  let ?h = "h\<lparr>hvalue := (hvalue h)(p := Some data), hnext := (hnext h)(last xs := p)\<rparr>"
  have ptr: "agc_event_get_header_ptr h ev (Some name) = Some p"
    using header_search_chain [OF c] f by (simp add: agc_event_get_header_ptr_def)
  have "last xs \<in> hlive h" using lx live by auto
  then have "agc_event_base_add_header h ev a name data = Some (?h, ev\<lparr>last_header := p\<rparr>)"
    using ptr p l lx by (simp add: agc_event_base_add_header_def link_header_def set_next_def)
  moreover have "headers ev \<in> set xs" using c ne by (cases xs) auto
  moreover have "hnext ?h y \<in> set xs" if "y \<in> set xs" for y
    using hchain_next [OF c that] p by simp
  moreover have "y \<noteq> NULL" if "y \<in> set xs" for y using live(2) that by metis
  ultimately show ?thesis by (intro exI [of _ ?h] exI [of _ "ev\<lparr>last_header := p\<rparr>"]) simp
qed

section \<open>Deleting\<close>

lemma del_loop_chain:
  "hchain h (headers ev) (ps @ ts) NULL \<Longrightarrow> distinct (ps @ ts) \<Longrightarrow>
   last_header ev = (if ps @ ts = [] then NULL else last (ps @ ts)) \<Longrightarrow>
   lp = (if ps = [] then NULL else last ps) \<Longrightarrow> tp = (if ts = [] then NULL else hd ts) \<Longrightarrow>
   \<exists>h' ev'. del_header_loop h ev name lp tp = Some (h', ev') \<and>
     event_ok h' ev' (ps @ filter (\<lambda>x. \<not> strcasecmp_eq name (hname h x)) ts) \<and>
     hlive h' = hlive h - {x \<in> set ts. strcasecmp_eq name (hname h x)} \<and>
     hname h' = hname h \<and> hvalue h' = hvalue h \<and> same_event ev ev'"
proof (induction ts arbitrary: h ev ps lp tp)
  case Nil
  then have "del_header_loop h ev name lp tp = Some (h, ev)" by (subst del_header_loop.simps) simp
  with Nil show ?case by (auto simp: event_ok_def)
next
  case (Cons t ts)
  have t: "tp = t" "t \<noteq> NULL" "t \<in> hlive h" using Cons.prems(1,5) by (auto simp: hchain_append)
  have nx: "hnext h t = (if ts = [] then NULL else hd ts)"
    using Cons.prems(1) by (cases ts) (auto simp: hchain_append)
  show ?case
  proof (cases "strcasecmp_eq name (hname h t)")
    case False
    then have "del_header_loop h ev name lp tp = del_header_loop h ev name t (hnext h t)"
      using t by (subst del_header_loop.simps) (simp add: Let_def)
    with Cons.IH [of h ev "ps @ [t]" t "hnext h t"] Cons.prems nx False show ?thesis by auto
  next
    case True
    define ev1 where "ev1 = (if ps = [] then ev\<lparr>headers := hnext h t\<rparr> else ev)"
    define ev2 where "ev2 = (if t = last_header ev1 \<or> hnext h t = NULL then ev1\<lparr>last_header := lp\<rparr> else ev1)"
    define h1 where "h1 = (if ps = [] then h else h\<lparr>hnext := (hnext h)(last ps := hnext h t)\<rparr>)"
    have "ps \<noteq> [] \<longrightarrow> last ps \<in> hlive h \<and> last ps \<noteq> t \<and> last ps \<noteq> NULL"
      using Cons.prems(2) hchain_live [OF Cons.prems(1)] last_in_set [of ps]
      by (metis Un_iff disjoint_iff distinct_append in_mono list.set_intros(1) set_append)
    then have lp: "lp = NULL \<longleftrightarrow> ps = []" "ps \<noteq> [] \<longrightarrow> lp = last ps \<and> last ps \<in> hlive h \<and> last ps \<noteq> t"
      using Cons.prems(4) by (auto split: if_splits)
    have e: "del_header_loop h ev name lp tp = del_header_loop (free_header h1 t) ev2 name lp (hnext h t)"
      using t lp True
      by (subst del_header_loop.simps) (auto simp: Let_def set_next_def h1_def ev1_def ev2_def)
    have c1: "hchain h1 (headers ev1) (ps @ ts) NULL"
    proof (cases ps rule: rev_cases)
      case Nil
      then show ?thesis using Cons.prems(1) by (simp add: h1_def ev1_def)
    next
      case (snoc qs q)
      have c: "hchain h (headers ev) (qs @ [q]) t" "hchain h (hnext h t) ts NULL"
        using Cons.prems(1) snoc by (auto simp: hchain_append)
      have d: "distinct (qs @ [q])" "q \<notin> set ts" using Cons.prems(2) snoc by auto
      have h1: "h1 = h\<lparr>hnext := (hnext h)(q := hnext h t)\<rparr>" using snoc by (simp add: h1_def)
      have "hchain h1 (headers ev) (qs @ [q]) (hnext h t)"
        by (rule hchain_last [OF c(1) d(1)]) (simp_all add: h1)
      moreover have "hchain h1 (hnext h t) ts NULL"
        by (rule hchain_cong [OF c(2)]) (use d(2) hchain_live [OF c(2)] in \<open>auto simp: h1\<close>)
      moreover have "headers ev1 = headers ev" using snoc by (simp add: ev1_def)
      ultimately show ?thesis unfolding snoc hchain_append [of _ _ "qs @ [q]"] by auto
    qed
    have "hchain (free_header h1 t) (headers ev2) (ps @ ts) NULL"
      using c1 by (rule_tac hchain_cong [where h = h1])
        (use Cons.prems(2) hchain_live [OF c1] in \<open>auto simp: free_header_def ev2_def\<close>)
    moreover have "last_header ev2 = (if ps @ ts = [] then NULL else last (ps @ ts))"
    proof (cases "ts = []")
      case True
      then show ?thesis using nx Cons.prems(4) by (simp add: ev2_def)
    next
      case False
      then have m: "last ts \<in> set ts" "hd ts \<in> set ts" by simp_all
      have "hd ts \<noteq> NULL"
      proof
        assume "hd ts = NULL"
        with m(2) show False using hchain_live [OF Cons.prems(1)] by simp
      qed
      with m False have "last ts \<noteq> t" "hnext h t \<noteq> NULL" using Cons.prems(2) nx by auto
      then show ?thesis using Cons.prems(3) False by (auto simp: ev2_def ev1_def)
    qed
    moreover have "same_event ev ev2" by (auto simp: same_event_def ev2_def ev1_def)
    ultimately show ?thesis
      using Cons.IH [of "free_header h1 t" ev2 ps lp "hnext h t"] Cons.prems(2,4) nx True e
      by (auto simp: free_header_def h1_def intro: same_event_trans)
  qed
qed

lemma del_header_filter:
  assumes "event_ok h ev xs"
  shows "\<exists>h' ev'. agc_event_del_header h ev name = Some (h', ev') \<and>
     event_ok h' ev' (filter (\<lambda>x. \<not> strcasecmp_eq name (hname h x)) xs) \<and>
     hlive h' = hlive h - {x \<in> set xs. strcasecmp_eq name (hname h x)} \<and>
     hname h' = hname h \<and> hvalue h' = hvalue h \<and> same_event ev ev'"
proof -
  have c: "hchain h (headers ev) ([] @ xs) NULL" "distinct ([] @ xs)"
    "last_header ev = (if [] @ xs = [] then NULL else last ([] @ xs))" using assms by (simp_all add: event_ok_def)
  have "headers ev = (if xs = [] then NULL else hd xs)" using c(1) by (cases xs) auto
  from del_loop_chain [OF c refl this, of name] show ?thesis by (simp add: agc_event_del_header_def)
qed

lemma lookup_filter:
  "lookup name (filter (\<lambda>(n, v). \<not> strcasecmp_eq name n) kv) = None"
  by (induction kv) (auto simp: lookup_def strcasecmp_eq_sym)

section \<open>Destroying and copying\<close>

lemma destroy_chain:
  "hchain h p xs NULL \<Longrightarrow> distinct xs \<Longrightarrow> \<exists>h'. destroy_loop h p = Some h' \<and> hlive h' = hlive h - set xs \<and>
     hname h' = hname h \<and> hvalue h' = hvalue h \<and> hnext h' = hnext h"
proof (induction xs arbitrary: h p)
  case Nil
  then show ?case by (subst destroy_loop.simps) simp
next
  case (Cons x xs)
  have x: "p = x" "x \<noteq> NULL" "x \<in> hlive h" "hchain h (hnext h x) xs NULL" using Cons.prems by auto
  have "hchain (free_header h x) (hnext h x) xs NULL"
    by (rule hchain_cong [OF x(4)]) (use hchain_live [OF x(4)] Cons.prems(2) in \<open>auto simp: free_header_def\<close>)
  from Cons.IH [OF this] Cons.prems(2) x(1-3) show ?case
    by (subst destroy_loop.simps) (auto simp: free_header_def)
qed

definition names_distinct :: "hheap \<Rightarrow> addr list \<Rightarrow> bool" where
  "names_distinct h xs \<longleftrightarrow> sorted_wrt (\<lambda>x y. \<not> strcasecmp_eq (hname h x) (hname h y)) xs"

lemma names_distinct_cong:
  "(\<And>z. z \<in> set xs \<Longrightarrow> hname h1 z = hname h z) \<Longrightarrow> names_distinct h1 xs \<longleftrightarrow> names_distinct h xs"
  unfolding names_distinct_def by (induction xs) auto

lemma dup_loop_copies:
  "hchain h p rest NULL \<Longrightarrow> event_ok h ev ys \<Longrightarrow> kvs h ys = kvs h pre \<Longrightarrow> names_distinct h (pre @ rest) \<Longrightarrow>
   \<forall>x \<in> set rest. hvalue h x \<noteq> None \<Longrightarrow> set ys \<inter> set (pre @ rest) = {} \<Longrightarrow> set pre \<subseteq> hlive h \<Longrightarrow>
   length as = length rest \<Longrightarrow> distinct as \<Longrightarrow> NULL \<notin> set as \<Longrightarrow> set as \<inter> hlive h = {} \<Longrightarrow>
   \<exists>h' ev'. dup_loop h ev as p = Some (h', ev') \<and> event_ok h' ev' (ys @ as) \<and> kvs h' (ys @ as) = kvs h (pre @ rest) \<and>
     outside_same (set ys \<union> set as) h h' \<and> same_event ev ev'"
proof (induction rest arbitrary: h p ev ys pre as)
  case Nil
  then have "dup_loop h ev as p = Some (h, ev)" by (subst dup_loop.simps) simp
  with Nil show ?case by (simp add: outside_same_refl)
next
  case (Cons x rest)
  from Cons.prems(8) obtain a as' where as: "as = a # as'" by (cases as) auto
  have x: "p = x" "x \<noteq> NULL" "x \<in> hlive h" "hchain h (hnext h x) rest NULL" using Cons.prems(1) by auto
  obtain v where v: "hvalue h x = Some v" using Cons.prems(5) by auto
  have new: "\<forall>y \<in> set ys. \<not> strcasecmp_eq (hname h y) (hname h x)"
  proof
    fix y assume "y \<in> set ys"
    then have "(hname h y, hvalue h y) \<in> set (kvs h pre)"
      unfolding Cons.prems(3) [symmetric] by (auto simp: kvs_def)
    then show "\<not> strcasecmp_eq (hname h y) (hname h x)"
      using Cons.prems(4) by (auto simp: kvs_def names_distinct_def sorted_wrt_append)
  qed
  have a: "a \<notin> hlive h" "a \<noteq> NULL" using Cons.prems(10,11) as by auto
  from append_header [OF Cons.prems(2) a, of "hname h x" v] add_header_new [OF Cons.prems(2) new, of a v]
  obtain h1 ev1 where ad: "agc_event_base_add_header h ev a (hname h x) v = Some (h1, ev1)" and
    ok: "event_ok h1 ev1 (ys @ [a])" "kvs h1 (ys @ [a]) = kvs h ys @ [(hname h x, Some v)]"
    "hlive h1 = insert a (hlive h)" "outside_same (insert a (set ys)) h h1" "same_event ev ev1" by auto
  have live: "set rest \<subseteq> hlive h" using hchain_live [OF x(4)] by simp
  have dis: "set (pre @ x # rest) \<inter> insert a (set ys) = {}"
    using Cons.prems(6,7) a(1) live x(3) by auto
  have same: "hname h1 z = hname h z" "hvalue h1 z = hvalue h z" "hnext h1 z = hnext h z"
    if "z \<in> set (pre @ x # rest)" for z
    using ok(4) dis that unfolding outside_same_def by blast+
  have "\<exists>h' ev'. dup_loop h1 ev1 as' (hnext h x) = Some (h', ev') \<and> event_ok h' ev' ((ys @ [a]) @ as') \<and>
     kvs h' ((ys @ [a]) @ as') = kvs h1 ((pre @ [x]) @ rest) \<and>
     outside_same (set (ys @ [a]) \<union> set as') h1 h' \<and> same_event ev1 ev'"
  proof (rule Cons.IH)
    show "hchain h1 (hnext h x) rest NULL" using outside_chain [OF x(4) ok(4)] dis by auto
    show "kvs h1 (ys @ [a]) = kvs h1 (pre @ [x])"
    proof -
      have "kvs h1 (pre @ [x]) = kvs h (pre @ [x])" using same by (auto simp: kvs_def)
      then show ?thesis unfolding ok(2) Cons.prems(3) by (simp add: kvs_def v)
    qed
    show "names_distinct h1 ((pre @ [x]) @ rest)"
      using Cons.prems(4) names_distinct_cong [of "pre @ x # rest" h1 h] same(1) by simp
  qed (use ok Cons.prems as dis same x(3) in auto)
  moreover have "dup_loop h ev as p = dup_loop h1 ev1 as' (hnext h x)"
    using x v ad same(3) [of x] as by (subst dup_loop.simps) (simp add: agc_event_add_header_string_def)
  moreover have "kvs h1 ((pre @ [x]) @ rest) = kvs h (pre @ x # rest)" using same by (auto simp: kvs_def)
  ultimately show ?case
    using outside_same_trans [OF ok(4)] same_event_trans [OF ok(5)] as by (fastforce intro: outside_same_mono)
qed

section \<open>Properties\<close>

text \<open>A store with one header, for the witnesses.\<close>

definition demo_headers :: hheap where
  "demo_headers = \<lparr>hlive = {1, 2}, hname = (\<lambda>_. ''uuid'')(2 := ''code''), hvalue = (\<lambda>_. Some ''7''), hnext = (\<lambda>_. 0)(1 := 2)\<rparr>"

definition demo_event :: agc_event where
  "demo_event = (agc_event_create 3 1)\<lparr>headers := 1, last_header := 2\<rparr>"

lemma demo_event_ok: "event_ok demo_headers demo_event [1, 2]"
  by (simp add: event_ok_def demo_headers_def demo_event_def)

lemma demo_names:
  "strcasecmp_eq ''uuid'' ''UUID''" "\<not> strcasecmp_eq ''code'' ''UUID''" "\<not> strcasecmp_eq ''uuid'' ''CODE''"
  "strcasecmp_eq ''code'' ''CODE''" "\<not> strcasecmp_eq ''uuid'' ''desc''" "\<not> strcasecmp_eq ''code'' ''desc''"
  "\<not> strcasecmp_eq ''uuid'' ''code''" "strcasecmp_eq ''UUID'' ''uuid''" "\<not> strcasecmp_eq ''UUID'' ''code''"
  by code_simp+

text \<open>
  On an event whose header list is well formed, \<^verbatim>\<open>agc_event_get_header\<close> returns, with
  the value of the first header whose name matches up to case and \<^verbatim>\<open>NULL\<close> without one.
\<close>

theorem agc_event_get_header_correct:
  assumes "event_ok h ev xs"
  shows "agc_event_get_header h ev (Some name) = Some (lookup name (kvs h xs))"
  by (rule get_header_lookup [OF assms])

theorem agc_event_get_header_correct_witness:
  "agc_event_get_header demo_headers demo_event (Some ''CODE'') = Some (Some ''7'')"
  using agc_event_get_header_correct [OF demo_event_ok, of "''CODE''"]
  by (simp add: lookup_def kvs_def demo_headers_def demo_names)

text \<open>
  Adding a header whose name the event does not have appends it, with or without
  the check for a repeated name; the list stays well formed and other headers, of this and
  of other events, keep their names and values.
\<close>

theorem agc_event_add_header_correct:
  assumes "event_ok h ev xs" "\<forall>x \<in> set xs. \<not> strcasecmp_eq (hname h x) name" "a \<notin> hlive h" "a \<noteq> NULL"
  shows "\<exists>h' ev'. agc_event_add_header_string h ev a name (Some data) = Some (AGC_STATUS_SUCCESS, h', ev') \<and>
     agc_event_add_header h ev a name (Some data) = Some (AGC_STATUS_SUCCESS, h', ev') \<and>
     event_ok h' ev' (xs @ [a]) \<and> kvs h' (xs @ [a]) = kvs h xs @ [(name, Some data)] \<and>
     agc_event_get_header h' ev' (Some name) = Some (Some data) \<and>
     hlive h' = insert a (hlive h) \<and> outside_same (insert a (set xs)) h h' \<and> same_event ev ev'"
proof -
  from append_header [OF assms(1,3,4), of name data] obtain h' ev' where
    r: "agc_event_base_add_header_nocheck h ev a name data = Some (h', ev')"
    "event_ok h' ev' (xs @ [a])" "kvs h' (xs @ [a]) = kvs h xs @ [(name, Some data)]"
    "hlive h' = insert a (hlive h)" "outside_same (insert a (set xs)) h h'" "same_event ev ev'" by blast
  have "lookup name (kvs h xs @ [(name, Some data)]) = Some data"
    using assms(2) by (induction xs) (auto simp: lookup_def kvs_def)
  with r get_header_lookup [OF r(2), of name] add_header_new [OF assms(1,2), of a data] show ?thesis
    by (simp add: agc_event_add_header_string_def agc_event_add_header_def)
qed

theorem agc_event_add_header_correct_witness:
  "\<exists>h' ev'. agc_event_add_header_string demo_headers demo_event 3 ''desc'' (Some ''ok'') = Some (AGC_STATUS_SUCCESS, h', ev') \<and>
     event_ok h' ev' [1, 2, 3] \<and> agc_event_get_header h' ev' (Some ''desc'') = Some (Some ''ok'')"
proof -
  have "\<forall>x \<in> set [1, 2]. \<not> strcasecmp_eq (hname demo_headers x) ''desc''"
    by (simp add: demo_headers_def demo_names)
  from agc_event_add_header_correct [OF demo_event_ok this, of 3 "''ok''"] show ?thesis
    by (auto simp: demo_headers_def)
qed

text \<open>
  Adding a header whose name the event already has leaves the list cyclic: from then
  on the search for any name the event does not have never returns, and destroying the
  event frees a header twice.
\<close>

theorem agc_event_add_header_repeated:
  assumes "event_ok h ev xs" "x \<in> set xs" "strcasecmp_eq (hname h x) name"
  shows "\<exists>h' ev'. agc_event_add_header_string h ev a name (Some data) = Some (AGC_STATUS_SUCCESS, h', ev') \<and>
     (\<forall>other. (\<forall>y \<in> set xs. \<not> strcasecmp_eq (hname h y) other) \<longrightarrow> agc_event_get_header h' ev' (Some other) = None) \<and>
     agc_event_destroy h' (Some ev') = None"
proof -
  from add_header_again [OF assms] obtain h' ev' where
    r: "agc_event_base_add_header h ev a name data = Some (h', ev')" "headers ev' \<in> set xs" "hlive h' = hlive h"
    "hname h' = hname h" "\<forall>y \<in> set xs. y \<noteq> NULL \<and> hnext h' y \<in> set xs" by metis
  have live: "set xs \<subseteq> hlive h" using assms(1) hchain_live [of h "headers ev" xs NULL] by (simp add: event_ok_def)
  have "header_search h' (headers ev') other = None" if "\<forall>y \<in> set xs. \<not> strcasecmp_eq (hname h y) other" for other
  proof (rule ccontr)
    assume "header_search h' (headers ev') other \<noteq> None"
    then obtain v where "header_search h' (headers ev') other = Some v" by blast
    from header_search_cycle [OF this, of "set xs"] r live that show False by auto
  qed
  moreover have "destroy_loop h' (headers ev') = None"
    using destroy_cycle [of h' "headers ev'" _ "set xs"] r(2,5) by (cases "destroy_loop h' (headers ev')") auto
  ultimately show ?thesis
    using r(1) by (auto simp: agc_event_add_header_string_def agc_event_get_header_def agc_event_get_header_ptr_def agc_event_destroy_def)
qed

theorem agc_event_add_header_repeated_witness:
  "\<exists>h' ev'. agc_event_add_header_string demo_headers demo_event 3 ''UUID'' (Some ''8'') = Some (AGC_STATUS_SUCCESS, h', ev') \<and>
     agc_event_get_header h' ev' (Some ''desc'') = None \<and> agc_event_destroy h' (Some ev') = None"
proof -
  have m: "strcasecmp_eq (hname demo_headers 1) ''UUID''"
    by (simp add: demo_headers_def demo_names)
  have "\<forall>y \<in> set [1, 2]. \<not> strcasecmp_eq (hname demo_headers y) ''desc''"
    by (simp add: demo_headers_def demo_names)
  with agc_event_add_header_repeated [OF demo_event_ok _ m, of 3 "''8''"] show ?thesis by auto
qed

text \<open>
  \<^verbatim>\<open>agc_event_del_header\<close> removes and frees exactly the headers whose name matches,
  every one of them, and leaves a well-formed list in which the name is no longer found.
\<close>

theorem agc_event_del_header_correct:
  assumes "event_ok h ev xs"
  shows "\<exists>h' ev' ys. agc_event_del_header h ev name = Some (h', ev') \<and> event_ok h' ev' ys \<and>
     kvs h' ys = filter (\<lambda>(n, v). \<not> strcasecmp_eq name n) (kvs h xs) \<and>
     hlive h' = hlive h - {x \<in> set xs. strcasecmp_eq name (hname h x)} \<and>
     agc_event_get_header h' ev' (Some name) = Some None \<and> same_event ev ev'"
proof -
  from del_header_filter [OF assms, of name] obtain h' ev' where
    r: "agc_event_del_header h ev name = Some (h', ev')" "event_ok h' ev' (filter (\<lambda>x. \<not> strcasecmp_eq name (hname h x)) xs)"
    "hlive h' = hlive h - {x \<in> set xs. strcasecmp_eq name (hname h x)}" "hname h' = hname h" "hvalue h' = hvalue h" "same_event ev ev'"
    by blast
  have k: "kvs h' (filter (\<lambda>x. \<not> strcasecmp_eq name (hname h x)) xs) = filter (\<lambda>(n, v). \<not> strcasecmp_eq name n) (kvs h xs)"
    using r(4,5) by (simp add: kvs_def filter_map o_def)
  with r get_header_lookup [OF r(2), of name] lookup_filter [of name "kvs h xs"] show ?thesis by auto
qed

theorem agc_event_del_header_correct_witness:
  "\<exists>h' ev' ys. agc_event_del_header demo_headers demo_event ''UUID'' = Some (h', ev') \<and> event_ok h' ev' ys \<and>
     kvs h' ys = [(''code'', Some ''7'')]"
proof -
  have "filter (\<lambda>(n, v). \<not> strcasecmp_eq ''UUID'' n) (kvs demo_headers [1, 2]) = [(''code'', Some ''7'')]"
    by (simp add: kvs_def demo_headers_def demo_names)
  with agc_event_del_header_correct [OF demo_event_ok, of "''UUID''"] show ?thesis by auto
qed

text \<open>
  A copy made by \<^verbatim>\<open>agc_event_dup\<close> of an event whose header names are pairwise
  different has the same id, source, body and headers in the same order, on cells of its
  own, and the original is unchanged; destroying the copy frees exactly those cells.
\<close>

theorem agc_event_dup_correct:
  assumes "event_ok h ev xs" "names_distinct h xs" "\<forall>x \<in> set xs. hvalue h x \<noteq> None"
    and "length as = length xs" "distinct as" "NULL \<notin> set as" "set as \<inter> hlive h = {}"
  shows "\<exists>h' ev'. agc_event_dup h ev as = Some (h', ev') \<and> event_ok h' ev' as \<and> kvs h' as = kvs h xs \<and>
     event_id ev' = event_id ev \<and> source_id ev' = source_id ev \<and> body ev' = body ev \<and>
     event_ok h' ev xs \<and> kvs h' xs = kvs h xs \<and>
     (\<exists>h''. agc_event_destroy h' (Some ev') = Some h'' \<and> hlive h'' = hlive h' - set as)"
proof -
  let ?e = "agc_event_create (event_id ev) (source_id ev)"
  have c: "hchain h (headers ev) xs NULL" using assms(1) by (simp add: event_ok_def)
  have e: "event_ok h ?e []" by (simp add: event_ok_def agc_event_create_def)
  have "\<exists>h' ev'. dup_loop h ?e as (headers ev) = Some (h', ev') \<and> event_ok h' ev' ([] @ as) \<and> kvs h' ([] @ as) = kvs h ([] @ xs) \<and>
     outside_same (set [] \<union> set as) h h' \<and> same_event ?e ev'"
    by (rule dup_loop_copies [OF c e]) (use assms in \<open>auto simp: kvs_def\<close>)
  then obtain h' ev' where r: "dup_loop h ?e as (headers ev) = Some (h', ev')" "event_ok h' ev' as" "kvs h' as = kvs h xs"
    "outside_same (set as) h h'" "same_event ?e ev'" by auto
  let ?ev = "case body ev of None \<Rightarrow> ev' | Some b \<Rightarrow> ev'\<lparr>body := Some b\<rparr>"
  have s: "event_id ?ev = event_id ev" "source_id ?ev = source_id ev" "body ?ev = body ev" "headers ?ev = headers ev'"
    "last_header ?ev = last_header ev'"
    using same_event_fields [OF r(5)] by (simp_all add: agc_event_create_def split: option.splits)
  have dis: "set xs \<inter> set as = {}" using hchain_live [OF c] assms(7) by auto
  have "event_ok h' ?ev as" using r(2) s(4,5) by (simp add: event_ok_def)
  moreover from this destroy_chain [of h' "headers ?ev" as]
  have "\<exists>h''. agc_event_destroy h' (Some ?ev) = Some h'' \<and> hlive h'' = hlive h' - set as"
    by (auto simp: event_ok_def agc_event_destroy_def)
  ultimately show ?thesis
    using r s outside_event [OF assms(1) r(4) dis] outside_kvs [OF r(4) dis] by (simp add: agc_event_dup_def)
qed

theorem agc_event_dup_correct_witness:
  "\<exists>h' ev'. agc_event_dup demo_headers demo_event [5, 6] = Some (h', ev') \<and> event_ok h' ev' [5, 6] \<and>
     kvs h' [5, 6] = [(''uuid'', Some ''7''), (''code'', Some ''7'')]"
proof -
  have "names_distinct demo_headers [1, 2]"
    by (simp add: names_distinct_def demo_headers_def demo_names)
  moreover have "kvs demo_headers [1, 2] = [(''uuid'', Some ''7''), (''code'', Some ''7'')]"
    by (simp add: kvs_def demo_headers_def)
  ultimately show ?thesis
    using agc_event_dup_correct [OF demo_event_ok, of "[5, 6]"] by (auto simp: demo_headers_def)
qed

end
