(* ===== verification/Agc_Text.thy ===== *)
theory Agc_Text
  imports Agc_Prelude
begin

text \<open>
  The C library's conversions between text and integers that the sources use: the
  \<^verbatim>\<open>%d\<close> and \<^verbatim>\<open>%u\<close> conversions of the printf family and \<^verbatim>\<open>atoi\<close>, which is
  \<^verbatim>\<open>strtol\<close> in base 10 cut to 32 bits.
\<close>

definition digit :: "nat \<Rightarrow> char" where
  "digit n = char_of (48 + n)"

definition is_digit :: "char \<Rightarrow> bool" where
  "is_digit c \<longleftrightarrow> 48 \<le> (of_char c :: nat) \<and> (of_char c :: nat) \<le> 57"

definition digit_val :: "char \<Rightarrow> nat" where
  "digit_val c = of_char c - 48"

definition is_space :: "char \<Rightarrow> bool" where
  "is_space c \<longleftrightarrow> (of_char c :: nat) = 32 \<or> 9 \<le> (of_char c :: nat) \<and> (of_char c :: nat) \<le> 13"

fun nat_str :: "nat \<Rightarrow> string" where
  "nat_str n = (if n < 10 then [digit n] else nat_str (n div 10) @ [digit (n mod 10)])"

declare nat_str.simps [simp del]

definition int_str :: "int \<Rightarrow> string" where
  "int_str i = (if i < 0 then CHR 0x2D # nat_str (nat (- i)) else nat_str (nat i))"

fun digits_val :: "nat \<Rightarrow> string \<Rightarrow> nat" where
  "digits_val acc [] = acc"
| "digits_val acc (c # cs) = (if is_digit c then digits_val (acc * 10 + digit_val c) cs else acc)"

definition to_int32 :: "int \<Rightarrow> int" where
  "to_int32 i = signed_take_bit 31 i"

definition strtol10 :: "string \<Rightarrow> int" where
  "strtol10 s =
     (let s = dropWhile is_space s;
          v = (case s of [] \<Rightarrow> 0
             | c # cs \<Rightarrow> if c = CHR 0x2D then - int (digits_val 0 cs) else if c = CHR 0x2B then int (digits_val 0 cs)
                        else int (digits_val 0 s))
      in max (- (2 ^ 63)) (min (2 ^ 63 - 1) v))"

definition c_atoi :: "string \<Rightarrow> int" where
  "c_atoi s = to_int32 (strtol10 s)"

lemma digit_of_char [simp]: "n < 10 \<Longrightarrow> (of_char (digit n) :: nat) = 48 + n"
  by (simp add: digit_def)

lemma digit_facts [simp]:
  assumes "n < 10"
  shows "is_digit (digit n)" "digit_val (digit n) = n" "\<not> is_space (digit n)"
    "digit n \<noteq> CHR 0x2D" "digit n \<noteq> CHR 0x2B"
proof -
  note d = digit_of_char [OF assms]
  show "is_digit (digit n)" "digit_val (digit n) = n" "\<not> is_space (digit n)"
    using assms d by (simp_all add: is_digit_def digit_val_def is_space_def)
  show "digit n \<noteq> CHR 0x2D" "digit n \<noteq> CHR 0x2B" using d by auto
qed

lemma digits_val_append:
  "\<forall>c \<in> set cs. is_digit c \<Longrightarrow> digits_val acc (cs @ ds) = digits_val (digits_val acc cs) ds"
  by (induction cs arbitrary: acc) auto

lemma nat_str_digits: "\<forall>c \<in> set (nat_str n). is_digit c"
proof (induction n rule: nat_str.induct)
  case (1 n)
  then show ?case by (subst nat_str.simps) auto
qed

lemma nat_str_ne: "nat_str n \<noteq> []"
  by (subst nat_str.simps) simp

lemma digits_val_nat_str: "digits_val 0 (nat_str n) = n"
proof (induction n rule: nat_str.induct)
  case (1 n)
  show ?case
  proof (cases "n < 10")
    case True
    then show ?thesis by (subst nat_str.simps) simp
  next
    case False
    have "digits_val 0 (nat_str (n div 10) @ [digit (n mod 10)]) = n div 10 * 10 + n mod 10"
      using 1 [OF False] digits_val_append [OF nat_str_digits] by simp
    with False show ?thesis by (subst nat_str.simps) simp
  qed
qed

lemma nat_str_hd: "is_digit (hd (nat_str n))"
  using nat_str_digits [of n] nat_str_ne [of n] by auto

lemma is_digit_facts: "is_digit c \<Longrightarrow> \<not> is_space c \<and> c \<noteq> CHR 0x2D \<and> c \<noteq> CHR 0x2B"
  by (auto simp: is_digit_def is_space_def)

lemma strtol10_int_str:
  assumes "- (2 ^ 63) \<le> i" "i < 2 ^ 63"
  shows "strtol10 (int_str i) = i"
proof (cases "i < 0")
  case True
  then have "strtol10 (int_str i) = max (- (2 ^ 63)) (min (2 ^ 63 - 1) i)"
    using digits_val_nat_str [of "nat (- i)"] by (simp add: strtol10_def int_str_def is_space_def)
  with assms show ?thesis by simp
next
  case False
  obtain c cs where c: "nat_str (nat i) = c # cs" using nat_str_ne by (cases "nat_str (nat i)") auto
  have "is_digit c" using nat_str_hd [of "nat i"] c by simp
  then have "strtol10 (int_str i) = max (- (2 ^ 63)) (min (2 ^ 63 - 1) i)"
    using digits_val_nat_str [of "nat i"] c False by (simp add: strtol10_def int_str_def is_digit_facts)
  with assms show ?thesis by simp
qed

text \<open>Printing an \<^verbatim>\<open>int\<close> and reading it back.\<close>

lemma atoi_int_str:
  assumes "- (2 ^ 31) \<le> i" "i < 2 ^ 31"
  shows "c_atoi (int_str i) = i"
proof -
  have "strtol10 (int_str i) = i" using assms by (intro strtol10_int_str) simp_all
  moreover have "signed_take_bit 31 i = i" using assms by (intro signed_take_bit_int_eq_self) simp_all
  ultimately show ?thesis by (simp add: c_atoi_def to_int32_def)
qed

lemma nat_str_length: "n < 10 ^ k \<Longrightarrow> 0 < k \<Longrightarrow> length (nat_str n) \<le> k"
proof (induction k arbitrary: n)
  case (Suc k)
  show ?case
  proof (cases "n < 10")
    case True
    then show ?thesis by (subst nat_str.simps) simp
  next
    case False
    have "n div 10 < 10 ^ k" using Suc.prems(1) by (simp add: div_less_iff_less_mult mult.commute)
    moreover have "0 < k" using Suc.prems(1) False by (cases k) simp_all
    ultimately have "n div 10 < 10 ^ k" "0 < k" .
    with Suc.IH [of "n div 10"] False show ?thesis by (subst nat_str.simps) simp
  qed
qed simp

lemma int_str_length:
  assumes "- (2 ^ 31) \<le> i" "i < 2 ^ 31"
  shows "length (int_str i) \<le> 11"
proof -
  have "length (nat_str (nat (abs i))) \<le> 10" by (rule nat_str_length) (use assms in auto)
  then show ?thesis by (auto simp: int_str_def)
qed

end
