(* ===== verification/Agc_Event_Fast.thy ===== *)
theory Agc_Event_Fast
  imports Agc_Event_Dispatch Agc_Event_Header_Laws Agc_Text
begin

text \<open>
  The preallocated events of \<^verbatim>\<open>agc_event.c\<close>: creation in one block of memory, the pools
  and the access to the headers by index. The block gives every header a fixed room for
  its name and its value; a \<^verbatim>\<open>strcpy\<close> or \<^verbatim>\<open>sprintf\<close> that does not fit is \<^const>\<open>None\<close>.
\<close>

section \<open>Creation\<close>

definition fast_add_header :: "hheap \<Rightarrow> agc_event \<Rightarrow> addr \<Rightarrow> (hheap \<times> agc_event) option" where
  "fast_add_header h ev header =
     (if last_header ev \<noteq> NULL then do {
        h \<leftarrow> set_next h (last_header ev) header;
        Some (h, ev\<lparr>last_header := header\<rparr>)
      } else Some (h, ev\<lparr>headers := header, last_header := header\<rparr>))"

text \<open>A header of the zeroed block: empty name and value, no successor.\<close>

definition zero_header :: "hheap \<Rightarrow> addr \<Rightarrow> hheap" where
  "zero_header h a = h\<lparr>hlive := insert a (hlive h), hname := (hname h)(a := []),
     hvalue := (hvalue h)(a := Some []), hnext := (hnext h)(a := NULL)\<rparr>"

fun fast_link :: "hheap \<Rightarrow> agc_event \<Rightarrow> addr list \<Rightarrow> (hheap \<times> agc_event) option" where
  "fast_link h ev [] = Some (h, ev)"
| "fast_link h ev (a # as) = do { (h, ev) \<leftarrow> fast_add_header (zero_header h a) ev a; fast_link h ev as }"

definition strcpy_name :: "hheap \<Rightarrow> addr \<Rightarrow> nat \<Rightarrow> string \<Rightarrow> hheap option" where
  "strcpy_name h a room s = (if length s < room then Some (h\<lparr>hname := (hname h)(a := s)\<rparr>) else None)"

definition strcpy_value :: "hheap \<Rightarrow> addr \<Rightarrow> nat \<Rightarrow> string \<Rightarrow> hheap option" where
  "strcpy_value h a room s = (if length s < room then Some (h\<lparr>hvalue := (hvalue h)(a := Some s)\<rparr>) else None)"

definition fast_event_create ::
  "evsys \<Rightarrow> int \<Rightarrow> int \<Rightarrow> string list \<Rightarrow> nat list \<Rightarrow> nat \<Rightarrow> addr \<Rightarrow> addr \<Rightarrow> addr list \<Rightarrow> evsys option" where
  "fast_event_create s ty eid names valuelengths bodylength a f as = do {
     let ev = (agc_event_create eid 0)\<lparr>fast := f\<rparr>;
     (h, ev) \<leftarrow> fast_link (hstore s) ev as;
     let ev = (if bodylength > 0 then ev\<lparr>body := Some []\<rparr> else ev);
     let fnode = \<lparr>ftype = ty, fheader_numbers = int (length names), fheaders = as,
                  fname_cap = map (\<lambda>n. length n + 1) names, fvalue_cap = valuelengths, fbody_cap = bodylength\<rparr>;
     h \<leftarrow> (if names \<noteq> [] then do {
             h \<leftarrow> strcpy_name h (hd as) (hd (fname_cap fnode)) ''_t'';
             strcpy_value h (hd as) (hd valuelengths) (int_str ty)
           } else Some h);
     Some (s\<lparr>hstore := h, events := (events s)(a := Some ev), fast_nodes := (fast_nodes s)(f := Some fnode)\<rparr>)
   }"

fun fast_fill ::
  "evsys \<Rightarrow> int \<Rightarrow> int \<Rightarrow> string list \<Rightarrow> nat list \<Rightarrow> nat \<Rightarrow> apr_queue \<Rightarrow> (addr \<times> addr \<times> addr list) list \<Rightarrow>
     (agc_status \<times> evsys \<times> apr_queue) option" where
  "fast_fill s ty eid names lens bodylength q [] = Some (AGC_STATUS_SUCCESS, s, q)"
| "fast_fill s ty eid names lens bodylength q ((a, f, as) # mem) = do {
     s \<leftarrow> fast_event_create s ty eid names lens bodylength a f as;
     (r, q) \<leftarrow> apr_queue_trypush q a;
     (if r \<noteq> APR_SUCCESS then Some (AGC_STATUS_GENERR, s, q)
      else fast_fill s ty eid names lens bodylength q mem)
   }"

text \<open>
  \<open>mem\<close> holds, for each of the \<^verbatim>\<open>capacity\<close> events, the addresses of the event, of its block
  and of the headers in the block.
\<close>

definition agc_event_fast_initial ::
  "evsys \<Rightarrow> int \<Rightarrow> int \<Rightarrow> string list \<Rightarrow> nat list \<Rightarrow> nat \<Rightarrow> (addr \<times> addr \<times> addr list) list \<Rightarrow> (agc_status \<times> evsys) option" where
  "agc_event_fast_initial s ty eid names lens bodylength mem =
     (if ty \<ge> EVENT_FAST_TYPE_Invalid then Some (AGC_STATUS_GENERR, s)
      else do {
        fq \<leftarrow> arr_get (fast_queues s) ty;
        (if fq \<noteq> None then Some (AGC_STATUS_GENERR, s)
         else do {
           (r, s, q) \<leftarrow> fast_fill s ty eid names lens bodylength (apr_queue_create (of_nat (length mem + 10))) mem;
           fqs \<leftarrow> arr_set (fast_queues s) ty (Some q);
           Some (r, s\<lparr>fast_queues := fqs\<rparr>)
         })
      })"

section \<open>Access by index\<close>

definition fast_get_header :: "evsys \<Rightarrow> addr \<Rightarrow> int \<Rightarrow> (addr \<times> nat \<times> nat) option option" where
  "fast_get_header s e idx =
     (if e = NULL then Some None
      else do {
        ev \<leftarrow> events s e;
        (if fast ev = NULL then Some None
         else do {
           f \<leftarrow> fast_nodes s (fast ev);
           (if idx \<ge> fheader_numbers f then Some None
            else do {
              a \<leftarrow> arr_get (fheaders f) idx;
              nc \<leftarrow> arr_get (fname_cap f) idx;
              vc \<leftarrow> arr_get (fvalue_cap f) idx;
              Some (if a = NULL then None else Some (a, nc, vc))
            })
         })
      })"

text \<open>
  The common text of \<^verbatim>\<open>agc_event_fast_set_strheader\<close>, \<^verbatim>\<open>_intheader\<close> and \<^verbatim>\<open>_uintheader\<close>:
  they differ in how the value becomes text.
\<close>

definition fast_set_header :: "evsys \<Rightarrow> addr \<Rightarrow> int \<Rightarrow> string \<Rightarrow> string \<Rightarrow> (agc_status \<times> evsys) option" where
  "fast_set_header s e idx name value = do {
     hd \<leftarrow> fast_get_header s e idx;
     (case hd of
        None \<Rightarrow> Some (AGC_STATUS_GENERR, s)
      | Some (a, nc, vc) \<Rightarrow> do {
          h \<leftarrow> strcpy_name (hstore s) a nc name;
          h \<leftarrow> strcpy_value h a vc value;
          Some (AGC_STATUS_SUCCESS, s\<lparr>hstore := h\<rparr>)
        })
   }"

definition agc_event_fast_set_strheader :: "evsys \<Rightarrow> addr \<Rightarrow> int \<Rightarrow> string \<Rightarrow> string \<Rightarrow> (agc_status \<times> evsys) option" where
  "agc_event_fast_set_strheader s e idx name value = fast_set_header s e idx name value"

definition agc_event_fast_set_intheader :: "evsys \<Rightarrow> addr \<Rightarrow> int \<Rightarrow> string \<Rightarrow> int \<Rightarrow> (agc_status \<times> evsys) option" where
  "agc_event_fast_set_intheader s e idx name value = fast_set_header s e idx name (int_str value)"

definition agc_event_fast_set_uintheader :: "evsys \<Rightarrow> addr \<Rightarrow> int \<Rightarrow> string \<Rightarrow> u32 \<Rightarrow> (agc_status \<times> evsys) option" where
  "agc_event_fast_set_uintheader s e idx name value = fast_set_header s e idx name (nat_str (unat value))"

definition agc_event_fast_get_type :: "evsys \<Rightarrow> addr \<Rightarrow> (agc_status \<times> int option) option" where
  "agc_event_fast_get_type s e = do {
     hd \<leftarrow> fast_get_header s e 0;
     (case hd of
        None \<Rightarrow> Some (AGC_STATUS_GENERR, None)
      | Some (a, _, _) \<Rightarrow> do { v \<leftarrow> hvalue (hstore s) a; Some (AGC_STATUS_SUCCESS, Some (c_atoi v)) })
   }"

definition agc_event_fast_set_body :: "evsys \<Rightarrow> addr \<Rightarrow> string \<Rightarrow> nat \<Rightarrow> (agc_status \<times> evsys) option" where
  "agc_event_fast_set_body s e content len =
     (if e = NULL then Some (AGC_STATUS_FALSE, s)
      else do {
        ev \<leftarrow> events s e;
        (case body ev of
           None \<Rightarrow> Some (AGC_STATUS_FALSE, s)
         | Some old \<Rightarrow> do {
             f \<leftarrow> fast_nodes s (fast ev);
             (if len \<le> fbody_cap f \<and> len \<le> length content
              then Some (AGC_STATUS_SUCCESS, s\<lparr>events := (events s)(e := Some (ev\<lparr>body := Some (take len content @ drop len old)\<rparr>))\<rparr>)
              else None)
           })
      })"

section \<open>What creation builds\<close>

lemma fast_link_ok:
  "event_ok h ev xs \<Longrightarrow> distinct as \<Longrightarrow> NULL \<notin> set as \<Longrightarrow> set as \<inter> hlive h = {} \<Longrightarrow>
     \<exists>h' ev'. fast_link h ev as = Some (h', ev') \<and> event_ok h' ev' (xs @ as) \<and> hlive h' = hlive h \<union> set as \<and> same_event ev ev' \<and>
       (\<forall>x. x \<notin> set as \<longrightarrow> hname h' x = hname h x \<and> hvalue h' x = hvalue h x) \<and>
       (\<forall>x \<in> set as. hname h' x = [] \<and> hvalue h' x = Some [])"
proof (induction as arbitrary: h ev xs)
  case Nil
  then show ?case by simp
next
  case (Cons a as)
  have c: "hchain h (headers ev) xs NULL" and d: "distinct xs" and l: "last_header ev = (if xs = [] then NULL else last xs)"
    using Cons.prems(1) by (simp_all add: event_ok_def)
  have live: "set xs \<subseteq> hlive h" "NULL \<notin> set xs" "a \<notin> set xs" "a \<noteq> NULL" using hchain_live [OF c] Cons.prems by auto
  have "\<exists>h1 ev1. fast_add_header (zero_header h a) ev a = Some (h1, ev1) \<and> event_ok h1 ev1 (xs @ [a]) \<and> same_event ev ev1 \<and>
      hlive h1 = insert a (hlive h) \<and> hname h1 = (hname h)(a := []) \<and> hvalue h1 = (hvalue h)(a := Some [])"
  proof (cases xs rule: rev_cases)
    case Nil
    then show ?thesis using l live
      by (auto simp: fast_add_header_def zero_header_def event_ok_def same_event_def)
  next
    case (snoc ys x)
    have x: "x \<in> hlive h" "x \<noteq> a" using snoc live by auto
    have x0: "x \<noteq> NULL" using snoc live(2) by auto
    let ?h = "(zero_header h a)\<lparr>hnext := (hnext (zero_header h a))(x := a)\<rparr>"
    have "hchain (?h\<lparr>hnext := (hnext h)(x := a)\<rparr>) (headers ev) (ys @ [x]) a"
      by (rule hchain_last [OF c [unfolded snoc] d [unfolded snoc]]) (auto simp: zero_header_def)
    then have "hchain ?h (headers ev) (ys @ [x]) a"
      by (rule hchain_cong) (use live snoc in \<open>auto simp: zero_header_def\<close>)
    then have "event_ok ?h (ev\<lparr>last_header := a\<rparr>) (xs @ [a])"
      using snoc d live x by (auto simp: event_ok_def hchain_append zero_header_def)
    moreover have "last_header ev = x" using snoc l by simp
    then have "fast_add_header (zero_header h a) ev a = Some (?h, ev\<lparr>last_header := a\<rparr>)"
      using x x0 by (simp add: fast_add_header_def set_next_def zero_header_def)
    ultimately show ?thesis by (auto simp: same_event_def zero_header_def)
  qed
  then obtain h1 ev1 where h1: "fast_add_header (zero_header h a) ev a = Some (h1, ev1)" "event_ok h1 ev1 (xs @ [a])"
    "same_event ev ev1" "hlive h1 = insert a (hlive h)" "hname h1 = (hname h)(a := [])" "hvalue h1 = (hvalue h)(a := Some [])" by blast
  from Cons.IH [OF h1(2)] Cons.prems h1(4) obtain h2 ev2 where h2: "fast_link h1 ev1 as = Some (h2, ev2)"
    "event_ok h2 ev2 ((xs @ [a]) @ as)" "hlive h2 = hlive h1 \<union> set as" "same_event ev1 ev2"
    "\<forall>x. x \<notin> set as \<longrightarrow> hname h2 x = hname h1 x \<and> hvalue h2 x = hvalue h1 x"
    "\<forall>x \<in> set as. hname h2 x = [] \<and> hvalue h2 x = Some []" by auto
  with h1 Cons.prems(2) show ?case by (auto intro: same_event_trans)
qed


definition fast_room :: "int \<Rightarrow> string list \<Rightarrow> nat list \<Rightarrow> bool" where
  "fast_room ty names lens \<longleftrightarrow> length lens = length names \<and>
     (names \<noteq> [] \<longrightarrow> 2 \<le> length (hd names) \<and> length (int_str ty) < hd lens)"

lemma event_ok_copy:
  "event_ok h ev xs \<Longrightarrow> hlive h' = hlive h \<Longrightarrow> hnext h' = hnext h \<Longrightarrow> event_ok h' ev xs"
  using hchain_cong [of h "headers ev" xs NULL h'] hchain_live [of h "headers ev" xs NULL] by (auto simp: event_ok_def)

lemma fast_event_create_ok:
  assumes "fast_room ty names lens" "length as = length names" "distinct as" "NULL \<notin> set as" "set as \<inter> hlive (hstore s) = {}"
  shows "\<exists>s' ev. fast_event_create s ty eid names lens blen a f as = Some s' \<and>
     events s' = (events s)(a := Some ev) \<and> event_ok (hstore s') ev as \<and> event_id ev = eid \<and> source_id ev = 0 \<and> fast ev = f \<and>
     call_back ev = NULL \<and> body ev = (if blen > 0 then Some [] else None) \<and>
     fast_nodes s' = (fast_nodes s)(f := Some \<lparr>ftype = ty, fheader_numbers = int (length names), fheaders = as,
       fname_cap = map (\<lambda>n. length n + 1) names, fvalue_cap = lens, fbody_cap = blen\<rparr>) \<and>
     hlive (hstore s') = hlive (hstore s) \<union> set as \<and> (names \<noteq> [] \<longrightarrow> hvalue (hstore s') (hd as) = Some (int_str ty)) \<and>
     fast_queues s' = fast_queues s"
proof -
  let ?ev = "(agc_event_create eid 0)\<lparr>fast := f\<rparr>"
  have e: "event_ok (hstore s) ?ev []" by (simp add: event_ok_def agc_event_create_def)
  from fast_link_ok [OF e assms(3-5)] obtain h ev where
    l: "fast_link (hstore s) ?ev as = Some (h, ev)" "event_ok h ev as" "hlive h = hlive (hstore s) \<union> set as" "same_event ?ev ev" by auto
  note F = same_event_fields [OF l(4)]
  let ?ev2 = "if blen > 0 then ev\<lparr>body := Some []\<rparr> else ev"
  have ok2: "event_ok h ?ev2 as" using l(2) by (cases "blen > 0") (auto simp: event_ok_def)
  show ?thesis
  proof (cases "names = []")
    case True
    then show ?thesis using l F ok2 by (auto simp: fast_event_create_def Let_def agc_event_create_def)
  next
    case False
    let ?h = "h\<lparr>hname := (hname h)(hd as := ''_t''), hvalue := (hvalue h)(hd as := Some (int_str ty))\<rparr>"
    let ?s = "s\<lparr>hstore := ?h, events := (events s)(a := Some ?ev2),
        fast_nodes := (fast_nodes s)(f := Some \<lparr>ftype = ty, fheader_numbers = int (length names), fheaders = as,
       fname_cap = map (\<lambda>n. length n + 1) names, fvalue_cap = lens, fbody_cap = blen\<rparr>)\<rparr>"
    have "hd (map (\<lambda>n. length n + 1) names) = length (hd names) + 1" using False by (cases names) auto
    then have "strcpy_name h (hd as) (hd (map (\<lambda>n. length n + 1) names)) ''_t'' = Some (h\<lparr>hname := (hname h)(hd as := ''_t'')\<rparr>)"
      using assms(1) False by (simp add: strcpy_name_def fast_room_def)
    moreover have "strcpy_value (h\<lparr>hname := (hname h)(hd as := ''_t'')\<rparr>) (hd as) (hd lens) (int_str ty) = Some ?h"
      using assms(1) False by (simp add: strcpy_value_def fast_room_def)
    ultimately have "fast_event_create s ty eid names lens blen a f as = Some ?s"
      using False l(1) by (simp add: fast_event_create_def Let_def)
    moreover have "event_ok ?h ?ev2 as" by (rule event_ok_copy [OF ok2]) simp_all
    ultimately show ?thesis using F l(3)
      by (intro exI [of _ ?s] exI [of _ ?ev2]) (simp add: agc_event_create_def)
  qed
qed

definition mem_ok :: "evsys \<Rightarrow> string list \<Rightarrow> (addr \<times> addr \<times> addr list) list \<Rightarrow> bool" where
  "mem_ok s names mem \<longleftrightarrow> (let as = concat (map (snd \<circ> snd) mem) in
     distinct as \<and> NULL \<notin> set as \<and> set as \<inter> hlive (hstore s) = {} \<and> (\<forall>(a, f, as) \<in> set mem. length as = length names))"

lemma fast_fill_ok:
  "fast_room ty names lens \<Longrightarrow> mem_ok s names mem \<Longrightarrow> qwf q \<Longrightarrow> \<not> terminated q \<Longrightarrow>
   length (contents q) + length mem \<le> unat (qbounds q) \<Longrightarrow>
   \<exists>s' q'. fast_fill s ty eid names lens blen q mem = Some (AGC_STATUS_SUCCESS, s', q') \<and> qwf q' \<and> \<not> terminated q' \<and>
     contents q' = contents q @ map fst mem \<and> fast_queues s' = fast_queues s"
proof (induction mem arbitrary: s q)
  case Nil
  then show ?case by simp
next
  case (Cons m mem)
  obtain a f as where m: "m = (a, f, as)" by (cases m)
  have as: "length as = length names" "distinct as" "NULL \<notin> set as" "set as \<inter> hlive (hstore s) = {}"
    using Cons.prems(2) m by (auto simp: mem_ok_def Let_def)
  from fast_event_create_ok [OF Cons.prems(1) as] obtain s1 where
    s1: "fast_event_create s ty eid names lens blen a f as = Some s1" "hlive (hstore s1) = hlive (hstore s) \<union> set as"
    "fast_queues s1 = fast_queues s" by blast
  from apr_fifo.push_ok [OF Cons.prems(3,4), of a] Cons.prems(5) obtain q1 where
    q1: "apr_queue_trypush q a = Some (APR_SUCCESS, q1)" "qwf q1" "contents q1 = contents q @ [a]"
    "unat (qbounds q1) = unat (qbounds q)" "\<not> terminated q1" by auto
  have "mem_ok s1 names mem" using Cons.prems(2) m s1(2) by (auto simp: mem_ok_def Let_def)
  from Cons.IH [OF Cons.prems(1) this q1(2,5)] Cons.prems(5) q1 s1 m show ?case by auto
qed

lemma fast_fill_rest:
  "fast_fill s ty eid names lens blen q mem = Some (r, s', q') \<Longrightarrow>
     running s' = running s \<and> max_dispatcher s' = max_dispatcher s \<and> dispatch_queues s' = dispatch_queues s \<and>
     queue_running s' = queue_running s \<and> thread_count s' = thread_count s \<and> event_templates s' = event_templates s"
proof (induction mem arbitrary: s q)
  case (Cons m mem)
  obtain a f as where m: "m = (a, f, as)" by (cases m)
  with Cons.prems obtain s1 q1 where s1: "fast_event_create s ty eid names lens blen a f as = Some s1"
    and k: "s' = s1 \<or> fast_fill s1 ty eid names lens blen q1 mem = Some (r, s', q')"
    by (auto simp: bind_Some_iff split: if_splits)
  have "running s1 = running s \<and> max_dispatcher s1 = max_dispatcher s \<and> dispatch_queues s1 = dispatch_queues s \<and>
     queue_running s1 = queue_running s \<and> thread_count s1 = thread_count s \<and> event_templates s1 = event_templates s"
    using s1 by (auto simp: fast_event_create_def Let_def bind_Some_iff)
  with k Cons.IH show ?case by auto
qed simp

lemma fast_initial_ok:
  assumes "0 \<le> ty" "ty < EVENT_FAST_TYPE_Invalid" "length (fast_queues s) = 27" "fast_queues s ! nat ty = None"
    and "fast_room ty names lens" "mem_ok s names mem" "length mem + 10 < 2 ^ 32"
  shows "\<exists>s' q. agc_event_fast_initial s ty eid names lens blen mem = Some (AGC_STATUS_SUCCESS, s') \<and>
     fast_queues s' = (fast_queues s)[nat ty := Some q] \<and> qwf q \<and> \<not> terminated q \<and> contents q = map fst mem \<and>
     running s' = running s \<and> max_dispatcher s' = max_dispatcher s \<and> dispatch_queues s' = dispatch_queues s \<and>
     queue_running s' = queue_running s \<and> thread_count s' = thread_count s \<and> event_templates s' = event_templates s"
proof -
  let ?q = "apr_queue_create (of_nat (length mem + 10))"
  have b: "unat (qbounds ?q) = length mem + 10"
    unfolding queue_create_wf unat_of_nat using assms(7) by (intro mod_less) simp
  have "\<exists>s' q'. fast_fill s ty eid names lens blen ?q mem = Some (AGC_STATUS_SUCCESS, s', q') \<and> qwf q' \<and> \<not> terminated q' \<and>
     contents q' = contents ?q @ map fst mem \<and> fast_queues s' = fast_queues s"
    by (rule fast_fill_ok [OF assms(5,6) queue_create_wf(1,3)]) (use b in \<open>simp add: queue_create_wf(2)\<close>)
  then obtain s1 q where
    f: "fast_fill s ty eid names lens blen ?q mem = Some (AGC_STATUS_SUCCESS, s1, q)" "qwf q" "\<not> terminated q"
    "contents q = map fst mem" "fast_queues s1 = fast_queues s" by (auto simp: queue_create_wf(2))
  have "nat ty < 27" using assms(1,2) by (simp add: EVENT_FAST_TYPE_Invalid_def)
  with f fast_fill_rest [OF f(1)] assms show ?thesis
    by (auto simp: agc_event_fast_initial_def arr_get_def arr_set_def)
qed

section \<open>Properties\<close>

text \<open>
  Setting up the pool of a fast event type that is not set up yet succeeds and leaves
  all its events in the pool, in order: the queue has room for ten more than it is given,
  so no push of the loop can fail.
\<close>

theorem agc_event_fast_initial_correct:
  assumes "0 \<le> ty" "ty < EVENT_FAST_TYPE_Invalid" "length (fast_queues s) = 27" "fast_queues s ! nat ty = None"
    and "fast_room ty names lens" "mem_ok s names mem" "length mem + 10 < 2 ^ 32"
  shows "\<exists>s' q. agc_event_fast_initial s ty eid names lens blen mem = Some (AGC_STATUS_SUCCESS, s') \<and>
     fast_queues s' = (fast_queues s)[nat ty := Some q] \<and> qwf q \<and> \<not> terminated q \<and> contents q = map fst mem"
  using fast_initial_ok [OF assms] by blast

theorem agc_event_fast_initial_correct_witness:
  "\<exists>s' q. agc_event_fast_initial demo_sys 1 3 [''_t''] [8] 0 [(20, 21, [22]), (30, 31, [32])] = Some (AGC_STATUS_SUCCESS, s') \<and>
     fast_queues s' ! 1 = Some q \<and> contents q = [20, 30]"
proof -
  have "fast_room 1 [''_t''] [8]" by (simp add: fast_room_def int_str_def nat_str.simps)
  moreover have "mem_ok demo_sys [''_t''] [(20, 21, [22]), (30, 31, [32])]" by (simp add: mem_ok_def demo_sys_def)
  ultimately obtain s' q where
    "agc_event_fast_initial demo_sys 1 3 [''_t''] [8] 0 [(20, 21, [22]), (30, 31, [32])] = Some (AGC_STATUS_SUCCESS, s')"
    "fast_queues s' = (fast_queues demo_sys)[nat 1 := Some q]" "contents q = map fst [(20, 21, [22]), (30, 31, [32])]"
    using agc_event_fast_initial_correct [of 1 demo_sys "[''_t'']" "[8]" "[(20, 21, [22]), (30, 31, [32])]" 3 0]
    by (auto simp: EVENT_FAST_TYPE_Invalid_def demo_sys_def)
  then show ?thesis by (simp add: demo_sys_def)
qed

text \<open>
  Taking an event from a pool gives the oldest one; giving it back puts it behind the
  others, so no event of a pool is ever in use twice or lost.
\<close>

theorem agc_event_fast_alloc_release:
  assumes "0 \<le> ty" "ty < EVENT_FAST_TYPE_Invalid" "length (fast_queues s) = 27" "fast_queues s ! nat ty = Some q"
    and "qwf q" "\<not> terminated q" "contents q = e # rest" "e \<noteq> NULL"
    and "events s e = Some ev" "fast ev \<noteq> NULL" "fast_nodes s (fast ev) = Some f" "ftype f = ty"
  shows "\<exists>s1 q1 s2 q2. agc_event_fast_alloc s ty = Some (AGC_STATUS_SUCCESS, Some e, s1) \<and>
     s1 = s\<lparr>fast_queues := (fast_queues s)[nat ty := Some q1]\<rparr> \<and> contents q1 = rest \<and>
     agc_event_fast_release s1 e = Some (AGC_STATUS_SUCCESS, s2) \<and>
     s2 = s\<lparr>fast_queues := (fast_queues s)[nat ty := Some q2]\<rparr> \<and> contents q2 = rest @ [e] \<and> qwf q2 \<and> \<not> terminated q2"
proof -
  have n: "nat ty < 27" using assms(1,2) by (simp add: EVENT_FAST_TYPE_Invalid_def)
  from apr_fifo.pop_ok [OF assms(5-7)] obtain q1 where
    q1: "apr_queue_trypop q = Some (APR_SUCCESS, Some e, q1)" "qwf q1" "contents q1 = rest"
    "unat (qbounds q1) = unat (qbounds q)" "\<not> terminated q1" by blast
  have "length (contents q1) < unat (qbounds q1)" using apr_fifo.bounded [OF assms(5)] assms(7) q1 by simp
  from apr_fifo.push_ok [OF q1(2,5) this, of e] obtain q2 where
    q2: "apr_queue_trypush q1 e = Some (APR_SUCCESS, q2)" "qwf q2" "contents q2 = rest @ [e]" "\<not> terminated q2"
    using q1(3) by auto
  let ?s1 = "s\<lparr>fast_queues := (fast_queues s)[nat ty := Some q1]\<rparr>"
  let ?s2 = "s\<lparr>fast_queues := (fast_queues s)[nat ty := Some q2]\<rparr>"
  have "agc_event_fast_alloc s ty = Some (AGC_STATUS_SUCCESS, Some e, ?s1)"
    using assms(1-4) n q1(1) by (simp add: agc_event_fast_alloc_def arr_get_def arr_set_def)
  moreover have "agc_event_fast_release ?s1 e = Some (AGC_STATUS_SUCCESS, ?s2)"
    using assms n q2(1) by (simp add: agc_event_fast_release_def arr_get_def arr_set_def)
  ultimately show ?thesis using q1 q2 by blast
qed

definition demo_pool :: evsys where
  "demo_pool = demo_sys\<lparr>fast_queues := (replicate 27 None)[1 := Some ((apr_queue_create 2)\<lparr>qdata := [7, 0], qin := 1, qnelts := 1\<rparr>)],
     events := [7 \<mapsto> (agc_event_create 3 0)\<lparr>fast := 9\<rparr>],
     fast_nodes := [9 \<mapsto> \<lparr>ftype = 1, fheader_numbers = 0, fheaders = [], fname_cap = [], fvalue_cap = [], fbody_cap = 0\<rparr>]\<rparr>"

theorem agc_event_fast_alloc_release_witness:
  "\<exists>s1 s2 q2. agc_event_fast_alloc demo_pool 1 = Some (AGC_STATUS_SUCCESS, Some 7, s1) \<and>
     agc_event_fast_release s1 7 = Some (AGC_STATUS_SUCCESS, s2) \<and> fast_queues s2 ! 1 = Some q2 \<and> contents q2 = [7]"
proof -
  let ?q = "(apr_queue_create 2)\<lparr>qdata := [7, 0], qin := 1, qnelts := 1\<rparr>"
  have w: "qwf ?q" "contents ?q = [7]" "\<not> terminated ?q"
    by (simp_all add: qwf_def contents_def apr_queue_create_def word_less_nat_alt word_le_nat_alt)
  have p: "length (fast_queues demo_pool) = 27" "fast_queues demo_pool ! nat 1 = Some ?q"
    "events demo_pool 7 = Some ((agc_event_create 3 0)\<lparr>fast := 9\<rparr>)"
    "fast_nodes demo_pool 9 = Some \<lparr>ftype = 1, fheader_numbers = 0, fheaders = [], fname_cap = [], fvalue_cap = [], fbody_cap = 0\<rparr>"
    by (simp_all add: demo_pool_def)
  obtain s1 s2 q2 where "agc_event_fast_alloc demo_pool 1 = Some (AGC_STATUS_SUCCESS, Some 7, s1)"
    "agc_event_fast_release s1 7 = Some (AGC_STATUS_SUCCESS, s2)"
    "s2 = demo_pool\<lparr>fast_queues := (fast_queues demo_pool)[nat 1 := Some q2]\<rparr>" "contents q2 = [] @ [7]"
    using agc_event_fast_alloc_release [OF _ _ p(1,2) w(1,3,2) _ p(3)] p(4) by (auto simp: EVENT_FAST_TYPE_Invalid_def)
  with p(1) show ?thesis by auto
qed

text \<open>
  A fast event with at least one header carries its type in the first one:
  \<^verbatim>\<open>agc_event_fast_get_type\<close> on a new event reads back the type it was created with.
\<close>

theorem agc_event_fast_type_roundtrip:
  assumes "fast_room ty names lens" "names \<noteq> []" "length as = length names" "distinct as" "NULL \<notin> set as"
    and "set as \<inter> hlive (hstore s) = {}" "a \<noteq> NULL" "f \<noteq> NULL" "- (2 ^ 31) \<le> ty" "ty < 2 ^ 31"
  shows "\<exists>s'. fast_event_create s ty eid names lens blen a f as = Some s' \<and>
     agc_event_fast_get_type s' a = Some (AGC_STATUS_SUCCESS, Some ty)"
proof -
  from fast_event_create_ok [OF assms(1,3-6), of eid blen a f] obtain s' ev where
    c: "fast_event_create s ty eid names lens blen a f as = Some s'" "events s' = (events s)(a := Some ev)" "fast ev = f"
    "fast_nodes s' = (fast_nodes s)(f := Some \<lparr>ftype = ty, fheader_numbers = int (length names), fheaders = as,
       fname_cap = map (\<lambda>n. length n + 1) names, fvalue_cap = lens, fbody_cap = blen\<rparr>)"
    "hvalue (hstore s') (hd as) = Some (int_str ty)" using assms(2) by auto
  have ne: "as \<noteq> []" "lens \<noteq> []" using assms(1-3) by (auto simp: fast_room_def)
  then have "hd as \<in> set as" by simp
  then have "hd as \<noteq> NULL" using assms(5) by metis
  then have "fast_get_header s' a 0 = Some (Some (hd as, length (hd names) + 1, hd lens))"
    using c ne assms(2,7,8) by (simp add: fast_get_header_def arr_get_def hd_conv_nth)
  then show ?thesis
    using c(1,5) atoi_int_str [OF assms(9,10)] by (simp add: agc_event_fast_get_type_def)
qed

theorem agc_event_fast_type_roundtrip_witness:
  "\<exists>s'. fast_event_create demo_sys 12 3 [''_t'', ''uuid''] [8, 40] 0 20 21 [22, 23] = Some s' \<and>
     agc_event_fast_get_type s' 20 = Some (AGC_STATUS_SUCCESS, Some 12)"
proof -
  have "fast_room 12 [''_t'', ''uuid''] [8, 40]" by (simp add: fast_room_def int_str_def nat_str.simps)
  from agc_event_fast_type_roundtrip [OF this, of "[22, 23]" demo_sys 20 21 3 0] show ?thesis by (simp add: demo_sys_def)
qed

end
