(* ===== verification/Agc_Event_Registry.thy ===== *)
theory Agc_Event_Registry
  imports Agc_Event_Fast
begin

text \<open>
  Start-up and shutdown of the event system, and the correctness of its tables: source
  ids, event names, subscribers and the delivery to them.
\<close>

section \<open>Start-up and shutdown\<close>

fun start_threads :: "evsys \<Rightarrow> nat list \<Rightarrow> evsys option" where
  "start_threads s [] = Some s"
| "start_threads s (i # ix) = do { s \<leftarrow> dispatch_thread_start s i; start_threads s ix }"

definition init_max :: "u32 \<Rightarrow> u32" where
  "init_max cpu_count = (let m = 2 * cpu_count + 1 in if m < 2 then 2 else m)"

definition agc_event_init :: "u32 \<Rightarrow> hheap \<Rightarrow> (addr \<times> addr \<times> addr list) list \<Rightarrow> (agc_status \<times> evsys) option" where
  "agc_event_init cpu_count h mem = do {
     let m = init_max cpu_count;
     let s = \<lparr>running = True, max_dispatcher = m, thread_count = 0, queue_running = replicate (unat m) False,
              event_source_id = 0, event_templates = init_ids, event_nodes = replicate 1024 [],
              dispatch_queues = replicate (unat m) (apr_queue_create DISPATCH_QUEUE_LIMIT),
              fast_queues = replicate 27 None, events = Map.empty, fast_nodes = Map.empty, hstore = h, calls = []\<rparr>;
     s \<leftarrow> start_threads s [0 ..< unat m];
     (r, s) \<leftarrow> agc_event_fast_initial s 0 0 [] [] 0 mem;
     Some (if r \<noteq> AGC_STATUS_SUCCESS then AGC_STATUS_FALSE else AGC_STATUS_SUCCESS, s)
   }"

text \<open>
  The wait of \<^verbatim>\<open>agc_event_shutdown\<close>, on the values of the thread count the loop observes;
  the result is how many of them it looks at.
\<close>

fun shutdown_wait :: "nat \<Rightarrow> int \<Rightarrow> int list \<Rightarrow> nat" where
  "shutdown_wait x prev [] = 0"
| "shutdown_wait x prev [c] = 0"
| "shutdown_wait x prev (c # c' # cs) =
     (if x < 100 \<and> c \<noteq> 0 then Suc (shutdown_wait (if c' = prev then Suc x else x) c' (c' # cs)) else 0)"

definition agc_event_shutdown :: "evsys \<Rightarrow> agc_status \<times> evsys" where
  "agc_event_shutdown s = (AGC_STATUS_SUCCESS, s\<lparr>running := False\<rparr>)"

section \<open>Sources\<close>

fun alloc_sources :: "nat \<Rightarrow> evsys \<Rightarrow> u32 list" where
  "alloc_sources 0 s = []"
| "alloc_sources (Suc n) s = (let (i, s') = agc_event_alloc_source s in i # alloc_sources n s')"

lemma alloc_source_step:
  assumes "unat (event_source_id s) < 4294967295"
  shows "unat (fst (agc_event_alloc_source s)) = Suc (unat (event_source_id s))"
    "unat (event_source_id (snd (agc_event_alloc_source s))) = Suc (unat (event_source_id s)) mod 4294967295"
proof -
  let ?c = "event_source_id s"
  have u: "unat (?c + 1) = Suc (unat ?c)" using unat_u32_Suc [OF assms] by simp
  show "unat (fst (agc_event_alloc_source s)) = Suc (unat ?c)" using u by (simp add: agc_event_alloc_source_def Let_def)
  have m: "unat (- 1 :: u32) = 4294967295" by (simp add: unsigned_minus_1_eq_mask mask_eq_exp_minus_1)
  show "unat (event_source_id (snd (agc_event_alloc_source s))) = Suc (unat ?c) mod 4294967295"
  proof (cases "?c + 1 = - 1")
    case True
    then have "Suc (unat ?c) = 4294967295" using u m by metis
    then show ?thesis using True by (simp add: agc_event_alloc_source_def Let_def)
  next
    case False
    then have "Suc (unat ?c) \<noteq> 4294967295" using u m by (metis word_unat_eq_iff)
    then have "Suc (unat ?c) < 4294967295" using assms by simp
    then show ?thesis using False u by (simp add: agc_event_alloc_source_def Let_def)
  qed
qed

lemma alloc_sources_nth:
  "unat (event_source_id s) < 4294967295 \<Longrightarrow> k < n \<Longrightarrow>
     unat (alloc_sources n s ! k) = (unat (event_source_id s) + k) mod 4294967295 + 1"
proof (induction n arbitrary: s k)
  case (Suc n)
  let ?s = "snd (agc_event_alloc_source s)"
  note A = alloc_source_step [OF Suc.prems(1)]
  show ?case
  proof (cases k)
    case 0
    then show ?thesis using A(1) Suc.prems(1) by (simp add: case_prod_beta Let_def)
  next
    case (Suc j)
    have "unat (event_source_id ?s) < 4294967295" using A(2) by simp
    from Suc.IH [OF this, of j] Suc.prems(2) Suc A(2) show ?thesis
      by (simp add: case_prod_beta Let_def mod_simps)
  qed
qed simp

section \<open>Names\<close>

definition named :: "string option list \<Rightarrow> string \<Rightarrow> nat \<Rightarrow> bool" where
  "named ts name k \<longleftrightarrow> k < length ts \<and> (\<exists>n. ts ! k = Some n \<and> strcasecmp_eq name n)"

lemma template_search_spec:
  "case template_search ts i name of
     None \<Rightarrow> \<forall>k. \<not> named ts name k
   | Some j \<Rightarrow> \<exists>k. j = i + int k \<and> named ts name k \<and> (\<forall>k' < k. \<not> named ts name k')"
proof (induction ts arbitrary: i)
  case Nil
  then show ?case by (simp add: named_def)
next
  case (Cons t ts)
  have 0: "named (t # ts) name 0 \<longleftrightarrow> (\<exists>n. t = Some n \<and> strcasecmp_eq name n)"
    and S: "named (t # ts) name (Suc k) \<longleftrightarrow> named ts name k" for k
    by (auto simp: named_def)
  show ?case
  proof (cases "named (t # ts) name 0")
    case True
    then show ?thesis using 0 by auto
  next
    case False
    then have e: "template_search (t # ts) i name = template_search ts (i + 1) name" using 0 by (auto split: option.splits)
    show ?thesis
    proof (cases "template_search ts (i + 1) name")
      case None
      then have "\<not> named (t # ts) name k" for k using Cons [of "i + 1"] False S by (cases k) auto
      then show ?thesis using e None by simp
    next
      case (Some j)
      then obtain k where k: "j = i + 1 + int k" "named ts name k" "\<forall>k' < k. \<not> named ts name k'" using Cons [of "i + 1"] by auto
      then have "\<forall>k' < Suc k. \<not> named (t # ts) name k'" using False S by (auto simp: less_Suc_eq_0_disj)
      then show ?thesis using e Some k S by (auto intro!: exI [of _ "Suc k"])
    qed
  qed
qed

section \<open>Properties\<close>

text \<open>
  Source ids: the \<open>k\<close>-th id allocated after start-up is \<open>k mod (2\<^sup>3\<^sup>2 - 1) + 1\<close>: it is
  never the null source, and no id comes back before all \<open>2\<^sup>3\<^sup>2 - 1\<close> have been used.
\<close>

theorem agc_event_alloc_source_correct:
  assumes "event_source_id s = 0" "k < n"
  shows "unat (alloc_sources n s ! k) = k mod 4294967295 + 1 \<and> alloc_sources n s ! k \<noteq> 0"
proof -
  have "unat (alloc_sources n s ! k) = k mod 4294967295 + 1" using alloc_sources_nth [of s k n] assms by simp
  then show ?thesis by (auto simp: word_unat_eq_iff)
qed

theorem agc_event_alloc_source_correct_witness:
  "unat (alloc_sources 3 demo_sys ! 2) = 3 \<and> alloc_sources 3 demo_sys ! 2 \<noteq> 0"
  using agc_event_alloc_source_correct [of demo_sys 2 3] by (simp add: demo_sys_def)

text \<open>
  Registering an event name under a valid id that is free succeeds, and the name is
  then found both ways: by the id, and from any spelling of the name, under the smallest
  id whose name matches; the other ids keep their names.
\<close>

theorem agc_event_register_correct:
  assumes "length (event_templates s) = 1024" "0 < eid" "eid < EVENT_ID_LIMIT" "event_templates s ! nat eid = None"
    and "strcasecmp_eq query name"
  shows "\<exists>s' j. agc_event_register s eid name = Some (AGC_STATUS_SUCCESS, s') \<and>
     agc_event_get_name s' eid = Some (Some name) \<and>
     (\<forall>k. k \<noteq> eid \<longrightarrow> agc_event_get_name s' k = agc_event_get_name s k) \<and>
     agc_event_get_id s' (Some query) = (AGC_STATUS_SUCCESS, Some j) \<and> 0 \<le> j \<and> j \<le> eid \<and>
     named (event_templates s') query (nat j)"
proof -
  let ?s = "s\<lparr>event_templates := (event_templates s)[nat eid := Some name]\<rparr>"
  have n: "nat eid < 1024" "\<not> EVENT_ID_IS_INVALID eid" using assms(2,3) by (auto simp: event_consts EVENT_ID_IS_INVALID_def)
  then have r: "agc_event_register s eid name = Some (AGC_STATUS_SUCCESS, ?s)"
    using assms(1,2,4) by (simp add: agc_event_register_def arr_get_def arr_set_def)
  have g: "agc_event_get_name ?s eid = Some (Some name)"
    using n assms(1,2) by (simp add: agc_event_get_name_def arr_get_def)
  have o: "agc_event_get_name ?s k = agc_event_get_name s k" if "k \<noteq> eid" for k
    using that assms(2) by (auto simp: agc_event_get_name_def arr_get_def nth_list_update)
  have "named (event_templates ?s) query (nat eid)" using n assms(1,5) by (simp add: named_def)
  with template_search_spec [of "event_templates ?s" query 0] obtain k where
    k: "template_search (event_templates ?s) 0 query = Some (int k)" "named (event_templates ?s) query k" "k \<le> nat eid"
    by (cases "template_search (event_templates ?s) 0 query") (auto, metis not_le_imp_less)
  then have "agc_event_get_id ?s (Some query) = (AGC_STATUS_SUCCESS, Some (int k))" by (simp add: agc_event_get_id_def)
  with r g o k assms(2) show ?thesis by (intro exI [of _ ?s] exI [of _ "int k"]) auto
qed

theorem agc_event_register_correct_witness:
  "\<exists>s' j. agc_event_register demo_sys 7 ''alarm'' = Some (AGC_STATUS_SUCCESS, s') \<and>
     agc_event_get_name s' 7 = Some (Some ''alarm'') \<and> agc_event_get_id s' (Some ''ALARM'') = (AGC_STATUS_SUCCESS, Some j) \<and> j \<le> 7"
proof -
  have "length (event_templates demo_sys) = 1024" "event_templates demo_sys ! nat 7 = None" "strcasecmp_eq ''ALARM'' ''alarm''"
    by (simp add: demo_sys_def init_ids_def, simp add: demo_sys_def init_ids_def nth_append, code_simp)
  from agc_event_register_correct [OF this(1) _ _ this(2,3)] show ?thesis by (auto simp: EVENT_ID_LIMIT_def)
qed

text \<open>
  The checks of event ids are incomplete. An id of 1024 passes the test of
  \<^verbatim>\<open>agc_event_bind_removable\<close> and a negative id passes those of \<^verbatim>\<open>agc_event_register\<close>,
  \<^verbatim>\<open>agc_event_get_name\<close> and \<^verbatim>\<open>agc_event_bind_removable\<close>: all of them then access the
  table outside its bounds.
\<close>

theorem event_id_checks_incomplete:
  assumes "length (event_templates s) = 1024" "length (event_nodes s) = 1024" "eid < 0"
  shows "agc_event_bind_removable s name 1024 callback a = None \<and> agc_event_bind_removable s name eid callback a = None \<and>
     agc_event_register s eid name = None \<and> agc_event_get_name s eid = None"
  using assms by (simp add: agc_event_bind_removable_def agc_event_register_def agc_event_get_name_def arr_get_def
      event_consts EVENT_ID_IS_INVALID_def)

theorem event_id_checks_incomplete_witness: "agc_event_bind_removable demo_sys ''mod'' 1024 99 50 = None"
  using event_id_checks_incomplete [of demo_sys "- 1"] by (simp add: demo_sys_def init_ids_def)

section \<open>Subscribers\<close>

definition bindings :: "evsys \<Rightarrow> int \<Rightarrow> addr list" where
  "bindings s eid = map node_callback (event_nodes s ! nat eid)"

text \<open>
  Delivering an event without a callback of its own calls the subscribers of its id,
  the latest first, then the subscribers of all events, each once with the event. An event
  with a callback calls only that, with its context. Without a running system nothing is
  called.
\<close>

theorem agc_event_deliver_calls:
  assumes "agc_event_deliver s e = Some s'" "events s e = Some ev" "length (event_nodes s) = 1024"
    and "0 \<le> event_id ev" "event_id ev < EVENT_ID_LIMIT"
  shows "calls s' = calls s @
     (if \<not> running s then []
      else if call_back ev \<noteq> NULL then [(call_back ev, event_context ev)]
      else map (\<lambda>c. (c, e)) (bindings s (event_id ev) @ bindings s 0))"
proof -
  from assms(1,2) obtain cs where cs: "deliver_calls s e ev = Some cs" and c: "calls s' = calls s @ cs"
    by (auto simp: agc_event_deliver_def bind_Some_iff Let_def agc_event_fast_release_def split: if_splits)
  have "nat (event_id ev) < 1024" using assms(4,5) by (simp add: EVENT_ID_LIMIT_def)
  with cs assms(3,4) have "cs = (if \<not> running s then []
      else if call_back ev \<noteq> NULL then [(call_back ev, event_context ev)]
      else map (\<lambda>c. (c, e)) (bindings s (event_id ev) @ bindings s 0))"
    by (auto simp: deliver_calls_def arr_get_def bindings_def EVENT_ID_ALL_def split: if_splits)
  with c show ?thesis by simp
qed

definition demo_bound :: evsys where
  "demo_bound = demo_sys\<lparr>event_nodes := (replicate 1024 [])[0 := [\<lparr>node_addr = 60, node_id = ''log'', node_event = 0, node_callback = 90\<rparr>],
     3 := [\<lparr>node_addr = 61, node_id = ''a'', node_event = 3, node_callback = 91\<rparr>]]\<rparr>"

theorem agc_event_deliver_calls_witness:
  "\<exists>s'. agc_event_deliver demo_bound 7 = Some s' \<and> calls s' = [(91, 7), (90, 7)]"
proof -
  have "destroy_loop (hstore demo_bound) 0 = Some (hstore demo_bound)" by (subst destroy_loop.simps) simp
  then obtain s' where "agc_event_deliver demo_bound 7 = Some s'"
    by (auto simp: agc_event_deliver_def demo_bound_def demo_sys_def agc_event_create_def deliver_calls_def arr_get_def
        EVENT_ID_ALL_def agc_event_destroy_def)
  with agc_event_deliver_calls [OF this] show ?thesis
    by (auto simp: demo_bound_def demo_sys_def agc_event_create_def EVENT_ID_LIMIT_def bindings_def)
qed

text \<open>
  Binding a callback puts it in front of the subscribers of the event id, and
  unbinding the node it returned restores the table, whatever else is bound.
\<close>

theorem agc_event_bind_unbind:
  fixes callback a :: addr and name :: string
  assumes "length (event_nodes s) = 1024" "0 \<le> eid" "eid < EVENT_ID_LIMIT"
  defines "node \<equiv> \<lparr>node_addr = a, node_id = name, node_event = eid, node_callback = callback\<rparr>"
  shows "\<exists>s'. agc_event_bind_removable s name eid callback a = Some (AGC_STATUS_SUCCESS, s') \<and>
     bindings s' eid = callback # bindings s eid \<and> (\<forall>k. 0 \<le> k \<longrightarrow> k \<noteq> eid \<longrightarrow> bindings s' k = bindings s k) \<and>
     agc_event_unbind s' (Some node) = Some (AGC_STATUS_SUCCESS, s)"
proof -
  let ?s = "s\<lparr>event_nodes := (event_nodes s)[nat eid := node # event_nodes s ! nat eid]\<rparr>"
  have n: "nat eid < 1024" "eid \<le> 1024" using assms(2,3) by (simp_all add: EVENT_ID_LIMIT_def)
  then have "agc_event_bind_removable s name eid callback a = Some (AGC_STATUS_SUCCESS, ?s)"
    using assms(1,2) by (simp add: agc_event_bind_removable_def arr_get_def arr_set_def Let_def EVENT_ID_LIMIT_def node_def)
  moreover have "bindings ?s eid = callback # bindings s eid" using n assms(1) by (simp add: bindings_def node_def)
  moreover have "bindings ?s k = bindings s k" if "0 \<le> k" "k \<noteq> eid" for k
    using that assms(2) by (auto simp: bindings_def nth_list_update)
  moreover have "agc_event_unbind ?s (Some node) = Some (AGC_STATUS_SUCCESS, s)"
    using n assms(1,2) by (cases s) (simp add: agc_event_unbind_def arr_get_def arr_set_def node_def)
  ultimately show ?thesis by blast
qed

theorem agc_event_bind_unbind_witness:
  "\<exists>s'. agc_event_bind_removable demo_bound ''b'' 3 92 70 = Some (AGC_STATUS_SUCCESS, s') \<and> bindings s' 3 = [92, 91] \<and>
     agc_event_unbind s' (Some \<lparr>node_addr = 70, node_id = ''b'', node_event = 3, node_callback = 92\<rparr>) = Some (AGC_STATUS_SUCCESS, demo_bound)"
  using agc_event_bind_unbind [where s = demo_bound and eid = 3 and a = 70 and name = "''b''" and callback = 92]
  by (auto simp: EVENT_ID_LIMIT_def bindings_def demo_bound_def demo_sys_def)

lemma remove_first_count:
  "count_list (map f (remove_first (\<lambda>x. f x = c) xs)) c = count_list (map f xs) c - 1"
  "d \<noteq> c \<Longrightarrow> filter (\<lambda>y. y = d) (map f (remove_first (\<lambda>x. f x = c) xs)) = filter (\<lambda>y. y = d) (map f xs)"
  by (induction xs) (auto simp: Suc_leI)

text \<open>
  \<^verbatim>\<open>agc_event_unbind_callback\<close> takes one binding of the callback out of the subscribers
  of each event id; a callback bound more than once to an id stays bound to it.
\<close>

theorem agc_event_unbind_callback_once:
  assumes "agc_event_unbind_callback s callback = (r, s')" "0 \<le> eid" "nat eid < length (event_nodes s)"
  shows "count_list (bindings s' eid) callback = count_list (bindings s eid) callback - 1 \<and>
     (\<forall>other. other \<noteq> callback \<longrightarrow> filter (\<lambda>c. c = other) (bindings s' eid) = filter (\<lambda>c. c = other) (bindings s eid)) \<and>
     (r = AGC_STATUS_SUCCESS \<longleftrightarrow> (\<exists>k < length (event_nodes s). callback \<in> set (bindings s (int k))))"
proof -
  have s': "s' = s\<lparr>event_nodes := map (remove_first (\<lambda>n. node_callback n = callback)) (event_nodes s)\<rparr>"
    and r: "r = (if \<exists>ns \<in> set (event_nodes s). \<exists>n \<in> set ns. node_callback n = callback then AGC_STATUS_SUCCESS else AGC_STATUS_FALSE)"
    using assms(1) by (auto simp: agc_event_unbind_callback_def)
  have b: "bindings s' eid = map node_callback (remove_first (\<lambda>n. node_callback n = callback) (event_nodes s ! nat eid))"
    using assms(3) by (simp add: s' bindings_def)
  have "(\<exists>ns \<in> set (event_nodes s). \<exists>n \<in> set ns. node_callback n = callback) \<longleftrightarrow>
      (\<exists>k < length (event_nodes s). callback \<in> set (bindings s (int k)))"
  proof -
    have "(\<exists>ns \<in> set (event_nodes s). callback \<in> node_callback ` set ns) \<longleftrightarrow>
        (\<exists>k < length (event_nodes s). callback \<in> node_callback ` set (event_nodes s ! k))"
      by (metis in_set_conv_nth)
    then show ?thesis by (auto simp: bindings_def image_iff)
  qed
  with r remove_first_count [where f = node_callback and c = callback and xs = "event_nodes s ! nat eid"] show ?thesis
    unfolding b by (auto simp: bindings_def)
qed

theorem agc_event_unbind_callback_once_witness:
  "\<exists>s r s'. agc_event_unbind_callback s 91 = (r, s') \<and> bindings s 3 = [91, 91] \<and> count_list (bindings s' 3) 91 = 1"
proof -
  let ?n = "\<lparr>node_addr = 61, node_id = ''a'', node_event = 3, node_callback = 91\<rparr>"
  let ?s = "demo_sys\<lparr>event_nodes := (replicate 1024 [])[3 := [?n, ?n]]\<rparr>"
  obtain r s' where u: "agc_event_unbind_callback ?s 91 = (r, s')" by (cases "agc_event_unbind_callback ?s 91")
  have "bindings ?s 3 = [91, 91]" by (simp add: bindings_def)
  with agc_event_unbind_callback_once [OF u, of 3] u show ?thesis
    by (intro exI [of _ ?s] exI [of _ r] exI [of _ s']) simp
qed

section \<open>Start-up\<close>

lemma start_threads_ok:
  "\<forall>i \<in> set ix. i < length (queue_running s) \<Longrightarrow> \<exists>s'. start_threads s ix = Some s' \<and>
     s' = s\<lparr>queue_running := queue_running s', thread_count := thread_count s + int (length ix)\<rparr> \<and>
     length (queue_running s') = length (queue_running s) \<and>
     (\<forall>i < length (queue_running s). queue_running s' ! i = (i \<in> set ix \<or> queue_running s ! i))"
proof (induction ix arbitrary: s)
  case Nil
  then show ?case by simp
next
  case (Cons i ix)
  let ?s = "s\<lparr>queue_running := (queue_running s)[i := True], thread_count := thread_count s + 1\<rparr>"
  from Cons.IH [of ?s] Cons.prems obtain s' where s': "start_threads ?s ix = Some s'"
    "s' = ?s\<lparr>queue_running := queue_running s', thread_count := thread_count ?s + int (length ix)\<rparr>"
    "length (queue_running s') = length (queue_running s)"
    "\<forall>j < length (queue_running s). queue_running s' ! j = (j \<in> set ix \<or> (queue_running s)[i := True] ! j)" by auto
  have "s' = s\<lparr>queue_running := queue_running s', thread_count := thread_count s + int (length (i # ix))\<rparr>"
    by (subst s'(2)) simp
  with s' Cons.prems show ?case by (auto simp: dispatch_thread_start_def nth_list_update)
qed

text \<open>
  Starting the event system with room for the callback pool succeeds: every dispatch
  queue is empty and has its thread, and the built-in names are registered.
\<close>

theorem agc_event_init_correct:
  assumes "mem_ok \<lparr>running = True, max_dispatcher = 0, thread_count = 0, queue_running = [], event_source_id = 0,
      event_templates = [], event_nodes = [], dispatch_queues = [], fast_queues = [], events = Map.empty,
      fast_nodes = Map.empty, hstore = h, calls = []\<rparr> [] mem" "length mem = 1000"
  shows "\<exists>s q. agc_event_init cpu h mem = Some (AGC_STATUS_SUCCESS, s) \<and> fresh_queues s \<and> running s \<and>
     2 \<le> unat (max_dispatcher s) \<and> queue_running s = replicate (unat (max_dispatcher s)) True \<and>
     thread_count s = uint (max_dispatcher s) \<and> event_templates s = init_ids \<and>
     fast_queues s ! 0 = Some q \<and> contents q = map fst mem"
proof -
  define m where "m = init_max cpu"
  have m2: "2 \<le> unat m" unfolding m_def init_max_def Let_def by (auto simp: word_less_nat_alt)
  define s0 where "s0 = \<lparr>running = True, max_dispatcher = m, thread_count = 0, queue_running = replicate (unat m) False,
              event_source_id = 0, event_templates = init_ids, event_nodes = replicate 1024 [],
              dispatch_queues = replicate (unat m) (apr_queue_create DISPATCH_QUEUE_LIMIT),
              fast_queues = replicate 27 None, events = Map.empty, fast_nodes = Map.empty, hstore = h, calls = []\<rparr>"
  have "\<forall>i \<in> set [0 ..< unat m]. i < length (queue_running s0)" by (simp add: s0_def)
  from start_threads_ok [OF this] obtain s1 where s1: "start_threads s0 [0 ..< unat m] = Some s1"
    "s1 = s0\<lparr>queue_running := queue_running s1, thread_count := thread_count s0 + int (length [0 ..< unat m])\<rparr>"
    "length (queue_running s1) = unat m" "\<forall>i < unat m. queue_running s1 ! i" by (auto simp: s0_def)
  have qr: "queue_running s1 = replicate (unat m) True" using s1(3,4) by (auto intro: nth_equalityI)
  have f1: "length (fast_queues s1) = 27" "fast_queues s1 ! nat 0 = None" "mem_ok s1 [] mem"
    using assms(1) by (subst s1(2), simp add: s0_def mem_ok_def)+
  from fast_initial_ok [of 0 s1 "[]" "[]" mem 0 0] f1 assms(2) obtain s2 q where
    s2: "agc_event_fast_initial s1 0 0 [] [] 0 mem = Some (AGC_STATUS_SUCCESS, s2)"
    "fast_queues s2 = (fast_queues s1)[nat 0 := Some q]" "contents q = map fst mem"
    "running s2 = running s1" "max_dispatcher s2 = max_dispatcher s1" "dispatch_queues s2 = dispatch_queues s1"
    "queue_running s2 = queue_running s1" "thread_count s2 = thread_count s1" "event_templates s2 = event_templates s1"
    by (auto simp: EVENT_FAST_TYPE_Invalid_def fast_room_def)
  have e: "agc_event_init cpu h mem = Some (AGC_STATUS_SUCCESS, s2)"
    using s1(1) s2(1) by (simp add: agc_event_init_def Let_def m_def [symmetric] s0_def)
  have p: "running s1" "max_dispatcher s1 = m" "dispatch_queues s1 = replicate (unat m) (apr_queue_create DISPATCH_QUEUE_LIMIT)"
    "event_templates s1 = init_ids" "thread_count s1 = int (unat m)"
    by (subst s1(2), simp add: s0_def)+
  have "m \<noteq> 0" using m2 by auto
  with e p m2 qr s2 f1(1) show ?thesis by (intro exI [of _ s2] exI [of _ q]) (simp add: fresh_queues_def)
qed

theorem agc_event_init_correct_witness:
  "\<exists>mem s. length mem = 1000 \<and> agc_event_init 4 \<lparr>hlive = {}, hname = (\<lambda>_. []), hvalue = (\<lambda>_. None), hnext = (\<lambda>_. 0)\<rparr> mem =
     Some (AGC_STATUS_SUCCESS, s) \<and> fresh_queues s"
proof -
  let ?mem = "map (\<lambda>i. (1000 + i, 5000 + i, [])) [0 ..< 1000] :: (addr \<times> addr \<times> addr list) list"
  let ?h = "\<lparr>hlive = {}, hname = (\<lambda>_. []), hvalue = (\<lambda>_. None), hnext = (\<lambda>_. 0)\<rparr> :: hheap"
  have c: "concat (map (\<lambda>i :: nat. [] :: addr list) xs) = []" for xs by (induction xs) auto
  have "\<exists>s q. agc_event_init 4 ?h ?mem = Some (AGC_STATUS_SUCCESS, s) \<and> fresh_queues s \<and> running s \<and>
     2 \<le> unat (max_dispatcher s) \<and> queue_running s = replicate (unat (max_dispatcher s)) True \<and>
     thread_count s = uint (max_dispatcher s) \<and> event_templates s = init_ids \<and>
     fast_queues s ! 0 = Some q \<and> contents q = map fst ?mem"
    by (rule agc_event_init_correct) (simp_all add: mem_ok_def comp_def c)
  moreover have "length ?mem = 1000" by simp
  ultimately show ?thesis by blast
qed

end
