(* ===== verification/Agc_Timer.thy ===== *)
theory Agc_Timer
  imports Agc_Rbtree_Spec Agc_Rbtree_Frame Agc_Event_Registry
begin

text \<open>
  The timers of \<^verbatim>\<open>src/src/agc_timer.c\<close>, on the red-black tree and the event system. The
  timer node is a field of the event, so a node and its event have one address here, and
  \<^verbatim>\<open>offsetof\<close> is the identity. The time \<^verbatim>\<open>agc_time_now\<close> returns, in microseconds, is an
  argument; deadlines are milliseconds in a 64-bit word and may wrap.
\<close>

section \<open>State and operations\<close>

record tsys =
  theap :: rbheap
  ttree :: agc_rbtree
  evs :: evsys
  current_time :: nat
  timer_running :: bool

definition agc_timer_init :: "rbheap \<Rightarrow> addr \<Rightarrow> evsys \<Rightarrow> (agc_status \<times> tsys) option" where
  "agc_timer_init h sentinel ev = do {
     (h, tr) \<leftarrow> agc_rbtree_init h sentinel agc_rbtree_insert_timer_value;
     Some (AGC_STATUS_SUCCESS, \<lparr>theap = h, ttree = tr, evs = ev, current_time = 0, timer_running = True\<rparr>)
   }"

definition agc_timer_shutdown :: "tsys \<Rightarrow> agc_status \<times> tsys" where
  "agc_timer_shutdown s = (AGC_STATUS_SUCCESS, s\<lparr>timer_running := False\<rparr>)"

definition agc_timer_del_timer :: "tsys \<Rightarrow> addr \<Rightarrow> tsys option" where
  "agc_timer_del_timer s e = do {
     (h, tr) \<leftarrow> agc_rbtree_delete (theap s) (ttree s) e;
     Some (s\<lparr>theap := h, ttree := tr\<rparr>)
   }"

definition set_timer_flag :: "evsys \<Rightarrow> addr \<Rightarrow> bool \<Rightarrow> evsys option" where
  "set_timer_flag s e b = do { ev \<leftarrow> events s e; Some (s\<lparr>events := (events s)(e := Some (ev\<lparr>timer_set := b\<rparr>))\<rparr>) }"

definition current_ms :: "nat \<Rightarrow> u64" where
  "current_ms now = of_nat (now div 1000)"

definition agc_timer_add_timer :: "tsys \<Rightarrow> addr \<Rightarrow> u64 \<Rightarrow> nat \<Rightarrow> tsys option" where
  "agc_timer_add_timer s e timer now = do {
     let s = s\<lparr>current_time := now\<rparr>;
     let key = current_ms now + timer;
     ev \<leftarrow> events (evs s) e;
     s \<leftarrow> (if timer_set ev then agc_timer_del_timer s e else Some s);
     h \<leftarrow> wr_key (theap s) e key;
     (h, tr) \<leftarrow> agc_rbtree_insert h (ttree s) e;
     ev \<leftarrow> set_timer_flag (evs s) e True;
     Some (s\<lparr>theap := h, ttree := tr, evs := ev\<rparr>)
   }"

definition agc_timer_curtime :: "tsys \<Rightarrow> nat \<Rightarrow> nat \<times> tsys" where
  "agc_timer_curtime s now =
     (let s = (if current_time s = 0 then s\<lparr>current_time := now\<rparr> else s) in (current_time s, s))"

text \<open>One pass of the loop of \<^verbatim>\<open>agc_timer_dispatch_timer\<close>; \<open>Fired\<close> carries the result of the fire.\<close>

datatype timer_pass = Stopped | Slept | Fired addr "agc_status qcall" "int option"

definition agc_timer_dispatch_pass :: "tsys \<Rightarrow> nat \<Rightarrow> nat \<Rightarrow> (timer_pass \<times> tsys) option" where
  "agc_timer_dispatch_pass s now rnd =
     (let s = s\<lparr>current_time := now\<rparr> in
      if \<not> timer_running s then Some (Stopped, s)
      else if troot (ttree s) = tsentinel (ttree s) then Some (Slept, s)
      else do {
        node \<leftarrow> agc_rbtree_min (theap s) (troot (ttree s)) (tsentinel (ttree s));
        key \<leftarrow> rd rkey (theap s) node;
        (if sint (key - current_ms now) > 0 then Some (Slept, s)
         else do {
           ev \<leftarrow> set_timer_flag (evs s) node False;
           (h, tr) \<leftarrow> agc_rbtree_delete (theap s) (ttree s) node;
           (c, ev, io) \<leftarrow> agc_event_fire ev node rnd;
           Some (Fired node c io, s\<lparr>theap := h, ttree := tr, evs := ev\<rparr>)
         })
      })"

section \<open>The armed timers\<close>

definition armed :: "tsys \<Rightarrow> addr set" where
  "armed s = {e. \<exists>ev. events (evs s) e = Some ev \<and> timer_set ev}"

definition timer_ok :: "tsys \<Rightarrow> addr list \<Rightarrow> bool" where
  "timer_ok s xs \<longleftrightarrow> rb_holds timer_key_lt (theap s, ttree s) xs \<and> set xs = armed s \<and>
     dom (events (evs s)) \<subseteq> alive (theap s) - {tsentinel (ttree s)}"

lemma timer_ok_store: "timer_ok s xs \<Longrightarrow> rb_holds timer_key_lt (theap s, ttree s) xs"
  by (simp add: timer_ok_def)

lemma timer_holds_alive: "rb_holds lt (h, tr) xs \<Longrightarrow> set xs \<subseteq> alive h \<and> tsentinel tr \<notin> set xs \<and> distinct xs"
  using tree_at_alive by (fastforce simp: rb_holds_def rb_wf_def simp flip: set_inorder)

lemma timer_root: "rb_holds lt (h, tr) xs \<Longrightarrow> troot tr = tsentinel tr \<longleftrightarrow> xs = []"
proof -
  assume "rb_holds lt (h, tr) xs"
  then obtain t where t: "rb_wf h tr t" "inorder t = xs" by (auto simp: rb_holds_def)
  then have "troot tr = tsentinel tr \<longleftrightarrow> t = \<langle>\<rangle>" using tree_at_root unfolding rb_wf_def by blast
  with t(2) show ?thesis by (cases t) auto
qed

text \<open>Changing the key of a node that is not in the tree.\<close>

lemma holds_rekey:
  assumes "rb_holds lt (h, tr) xs" "e \<notin> set xs"
  shows "rb_holds lt (h\<lparr>rkey := (rkey h)(e := k)\<rparr>, tr) xs"
proof -
  let ?h = "h\<lparr>rkey := (rkey h)(e := k)\<rparr>"
  have t: "tree_at ?h s p par t = tree_at h s p par t" for s p par t
    by (induction t arbitrary: p par) auto
  have r: "red_in ?h = red_in h" by (rule ext) (simp add: red_in_def)
  have "rb_wf ?h tr t = rb_wf h tr t" for t by (simp add: rb_wf_def t r)
  then show ?thesis
    using assms ordered_key_away [OF assms(2), of ?h h k lt] by (simp add: rb_holds_def)
qed

lemma flag_events:
  assumes "events s e = Some ev"
  shows "\<exists>s'. set_timer_flag s e b = Some s' \<and> s' = s\<lparr>events := (events s)(e := Some (ev\<lparr>timer_set := b\<rparr>))\<rparr>"
  using assms by (simp add: set_timer_flag_def)

text \<open>The deadlines of the armed timers and the new one, in one window of half the key space.\<close>

definition deadlines_ok :: "tsys \<Rightarrow> addr list \<Rightarrow> addr \<Rightarrow> u64 \<Rightarrow> bool" where
  "deadlines_ok s xs e key \<longleftrightarrow> half_window (insert key (rkey (theap s) ` (set xs - {e})))"

lemma add_fresh:
  assumes "rb_holds timer_key_lt (h, tr) xs" "e \<in> alive h" "e \<noteq> tsentinel tr" "e \<notin> set xs"
    and "half_window (insert key (rkey h ` set xs))"
  shows "\<exists>h' tr' ys zs. agc_rbtree_insert (h\<lparr>rkey := (rkey h)(e := key)\<rparr>) tr e = Some (h', tr') \<and> xs = ys @ zs \<and>
     rb_holds timer_key_lt (h', tr') (ys @ e # zs) \<and> rkey h' = (rkey h)(e := key) \<and> alive h' = alive h \<and>
     tsentinel tr' = tsentinel tr"
proof -
  let ?h = "h\<lparr>rkey := (rkey h)(e := key)\<rparr>"
  from holds_rekey [OF assms(1,4)] obtain t where
    t: "rb_wf ?h tr t" "inorder t = xs" "tinsert tr = rb_insert_loop timer_key_lt" "ordered timer_key_lt ?h xs"
    by (auto simp: rb_holds_def)
  have s: "set_tree t = set xs" using t(2) by (metis set_inorder)
  have "rkey ?h ` insert e (set xs) = insert key (rkey h ` set xs)" using assms(4) by (auto simp: image_iff)
  then have w: "half_window (rkey ?h ` insert e (set_tree t))" using assms(5) s by simp
  have n: "e \<in> alive ?h" "e \<notin> set_tree t" using assms(2,4) s by simp_all
  from timer_order.insert_ordered [OF t(1,3) n(1) assms(3) n(2) t(4) [folded t(2)] w] obtain h' tr' t' ys zs where
    "agc_rbtree_insert ?h tr e = Some (h', tr')" "rb_wf h' tr' t'" "kept ?h h'"
    "tsentinel tr' = tsentinel tr" "tinsert tr' = tinsert tr" "xs = ys @ zs" "inorder t' = ys @ e # zs"
    "ordered timer_key_lt h' (inorder t')" unfolding t(2) by blast
  with t(3) show ?thesis by (auto simp: rb_holds_def kept_def)
qed

lemma del_armed:
  assumes "rb_holds timer_key_lt (h, tr) xs" "e \<in> set xs"
  shows "\<exists>h' tr'. agc_rbtree_delete h tr e = Some (h', tr') \<and> rb_holds timer_key_lt (h', tr') (remove1 e xs) \<and>
     rkey h' = (rkey h)(e := 0) \<and> alive h' = alive h \<and> tsentinel tr' = tsentinel tr"
proof -
  from assms obtain t where t: "rb_wf h tr t" "inorder t = xs" and o: "tinsert tr = rb_insert_loop timer_key_lt"
    "ordered timer_key_lt h xs" by (auto simp: rb_holds_def)
  have "e \<in> set_tree t" using assms(2) t(2) by (simp flip: set_inorder)
  from rb_delete_any [OF t(1) this] obtain h' tr' t' where
    d: "agc_rbtree_delete h tr e = Some (h', tr')" "rb_wf h' tr' t'" "inorder t' = remove1 e xs"
    "alive h' = alive h" "rkey h' = (rkey h)(e := 0)" "tsentinel tr' = tsentinel tr" "tinsert tr' = tinsert tr"
    using t(2) by auto
  have "distinct xs" using t by (auto simp: rb_wf_def)
  then have "ordered timer_key_lt h' (remove1 e xs)"
    using ordered_remove1 [OF o(2)] by (subst ordered_key_away [OF _ d(5)]) simp_all
  with d o(1) show ?thesis by (auto simp: rb_holds_def)
qed

section \<open>Firing on open queues\<close>

definition queues_open :: "evsys \<Rightarrow> bool" where
  "queues_open v \<longleftrightarrow> running v \<and> max_dispatcher v \<noteq> 0 \<and> length (dispatch_queues v) = unat (max_dispatcher v) \<and>
     (\<forall>q \<in> set (dispatch_queues v). qwf q \<and> \<not> terminated q)"

lemma fire_open:
  assumes "queues_open v" "events v e = Some ev" "e \<noteq> NULL"
  shows "\<exists>c q io i. agc_event_fire v e rnd = Some (c, v\<lparr>dispatch_queues := (dispatch_queues v)[i := q]\<rparr>, io) \<and>
     i < length (dispatch_queues v) \<and>
     (c = Blocked \<and> contents q = contents (dispatch_queues v ! i) \<or>
      c = Ret AGC_STATUS_SUCCESS \<and> contents q = contents (dispatch_queues v ! i) @ [e])"
proof -
  let ?f = "fire_index v (source_id ev) rnd"
  have "unat (max_dispatcher v) \<noteq> 0" using assms(1) by (simp add: queues_open_def unat_gt_0)
  from fire_index_home [OF refl this] have f: "0 \<le> ?f" "nat ?f < length (dispatch_queues v)"
    using assms(1) by (auto simp: home_def queues_open_def)
  let ?q = "dispatch_queues v ! nat ?f"
  have q: "qwf ?q" "\<not> terminated ?q" using f(2) assms(1) by (simp_all add: queues_open_def)
  have g: "arr_get (dispatch_queues v) ?f = Some ?q" using f by (simp add: arr_get_def)
  have st: "arr_set (dispatch_queues v) ?f q' = Some ((dispatch_queues v)[nat ?f := q'])" for q'
    using f by (simp add: arr_set_def)
  note simps = agc_event_fire_def assms(2,3) g st q(2) Let_def apr_queue_push_enter_def
  have r: "running v" using assms(1) by (simp add: queues_open_def)
  show ?thesis
  proof (cases "apr_queue_full ?q")
    case True
    show ?thesis
      by (rule exI [of _ Blocked], rule exI [of _ "?q\<lparr>full_waiters := full_waiters ?q + 1\<rparr>"],
        rule exI [of _ None], rule exI [of _ "nat ?f"]) (use f r True in \<open>simp add: simps contents_def\<close>)
  next
    case False
    from queue_put_ok [OF q(1) this] obtain q' where
      "queue_put ?q e = Some q'" "contents q' = contents ?q @ [e]" by blast
    with False f r show ?thesis
      by (intro exI [of _ "Ret AGC_STATUS_SUCCESS"] exI [of _ q'] exI [of _ "Some ?f"] exI [of _ "nat ?f"])
        (simp add: simps)
  qed
qed

section \<open>Due timers\<close>

definition due :: "nat \<Rightarrow> u64 \<Rightarrow> bool" where
  "due now key \<longleftrightarrow> \<not> 0 < sint (key - current_ms now)"

lemma due_window:
  assumes "unat (key - base) < 2 ^ 63" "unat (current_ms now - base) < 2 ^ 63"
  shows "due now key \<longleftrightarrow> unat (key - base) \<le> unat (current_ms now - base)"
proof -
  let ?a = "key - base" and ?b = "current_ms now - base"
  have d: "key - current_ms now = ?a - ?b" by simp
  have "sint (?a - ?b) = 0 \<longleftrightarrow> ?a = ?b" by (metis eq_iff_diff_eq_0 signed_0 signed_word_eqI sint_0)
  then have "0 < sint (?a - ?b) \<longleftrightarrow> \<not> sint (?a - ?b) < 0 \<and> ?a \<noteq> ?b" by linarith
  also have "\<dots> \<longleftrightarrow> unat ?b < unat ?a"
    using sint_diff_neg [OF assms] by (metis linorder_neqE_nat order_less_asym word_unat_eq_iff)
  finally show ?thesis unfolding due_def d not_less [symmetric, of "unat ?a"] by (rule arg_cong [where f = Not])
qed

lemma due_first:
  assumes "rb_holds timer_key_lt (h, tr) (e # xs)" "half_window (insert (current_ms now) (rkey h ` set (e # xs)))"
    and "a \<in> set (e # xs)" "due now (rkey h a)"
  shows "due now (rkey h e)"
proof (cases "a = e")
  case False
  from assms(2) obtain base where
    w: "unat (current_ms now - base) < 2 ^ 63" "\<forall>x \<in> set (e # xs). unat (rkey h x - base) < 2 ^ 63"
    by (auto simp: half_window_def)
  have "\<not> timer_key_lt (rkey h a) (rkey h e)"
    using timer_order.store.holds_sorted [OF assms(1)] assms(3) False by (auto simp: rb_key_def)
  then have "unat (rkey h e - base) \<le> unat (rkey h a - base)"
    using w(2) [THEN bspec, OF assms(3)] w(2) by (subst (asm) timer_key_lt_window [where base = base]) (simp_all add: not_less)
  moreover have "unat (rkey h a - base) \<le> unat (current_ms now - base)"
    using assms(4) w(1) w(2) [THEN bspec, OF assms(3)] by (subst (asm) due_window [where base = base]) simp_all
  ultimately show ?thesis using w by (subst due_window [where base = base]) simp_all
qed (use assms(4) in simp)

section \<open>Properties\<close>

text \<open>A system to try the properties on: event 7, armed or not, the sentinel at 9.\<close>

definition demo_timers :: "bool \<Rightarrow> tsys" where
  "demo_timers on = \<lparr>theap = \<lparr>alive = {7, 9}, rkey = (\<lambda>_. 0)(7 := 105), rleft = (\<lambda>_. 9), rright = (\<lambda>_. 9),
     rparent = (\<lambda>_. 0), rcolor = (\<lambda>_. 0)\<rparr>, ttree = \<lparr>troot = if on then 7 else 9, tsentinel = 9, tinsert = agc_rbtree_insert_timer_value\<rparr>,
     evs = demo_sys\<lparr>events := [7 \<mapsto> (agc_event_create 3 5)\<lparr>timer_set := on\<rparr>]\<rparr>, current_time = 0, timer_running = True\<rparr>"

lemma demo_timers_ok: "timer_ok (demo_timers on) (if on then [7] else [])"
proof -
  have "rb_wf (theap (demo_timers on)) (ttree (demo_timers on)) (if on then \<langle>\<langle>\<rangle>, 7, \<langle>\<rangle>\<rangle> else \<langle>\<rangle>)"
    by (simp add: rb_wf_def demo_timers_def red_in_def)
  moreover have "inorder (if on then \<langle>\<langle>\<rangle>, 7, \<langle>\<rangle>\<rangle> else \<langle>\<rangle>) = (if on then [7] else [] :: addr list)" by simp
  moreover have "tinsert (ttree (demo_timers on)) = rb_insert_loop timer_key_lt"
    by (simp add: demo_timers_def agc_rbtree_insert_timer_value_def)
  ultimately have "rb_holds timer_key_lt (theap (demo_timers on), ttree (demo_timers on)) (if on then [7] else [])"
    unfolding rb_holds_def fst_conv snd_conv by (auto simp: ordered_def)
  moreover have "set (if on then [7] else []) = armed (demo_timers on)"
    by (auto simp: armed_def demo_timers_def split: if_splits)
  ultimately show ?thesis by (simp add: timer_ok_def demo_timers_def)
qed

text \<open>
  C6: \<^verbatim>\<open>agc_timer_add_timer\<close> arms an event or moves the deadline of an armed one: it returns,
  the event is in the tree exactly once, at the place of its new deadline, every other timer
  keeps its place and its deadline, and the armed events are again exactly those in the tree.
\<close>

theorem agc_timer_add_timer_correct:
  assumes "timer_ok s xs" "e \<in> dom (events (evs s))" "deadlines_ok s xs e (current_ms now + timer)"
  shows "\<exists>s' ys zs. agc_timer_add_timer s e timer now = Some s' \<and> remove1 e xs = ys @ zs \<and>
     timer_ok s' (ys @ e # zs) \<and> rkey (theap s') e = current_ms now + timer \<and>
     (\<forall>a. a \<noteq> e \<longrightarrow> rkey (theap s') a = rkey (theap s) a) \<and> current_time s' = now"
proof -
  obtain ev where ev: "events (evs s) e = Some ev" using assms(2) by auto
  let ?key = "current_ms now + timer"
  let ?s = "s\<lparr>current_time := now\<rparr>"
  from assms(1) have t: "rb_holds timer_key_lt (theap s, ttree s) xs" "set xs = armed s"
    "dom (events (evs s)) \<subseteq> alive (theap s) - {tsentinel (ttree s)}" by (simp_all add: timer_ok_def)
  have in_xs: "e \<in> set xs \<longleftrightarrow> timer_set ev" using ev t(2) by (simp add: armed_def)
  have "\<exists>h tr. (if timer_set ev then agc_timer_del_timer ?s e else Some ?s) = Some (?s\<lparr>theap := h, ttree := tr\<rparr>) \<and>
      rb_holds timer_key_lt (h, tr) (remove1 e xs) \<and> (\<forall>a. a \<noteq> e \<longrightarrow> rkey h a = rkey (theap s) a) \<and>
      alive h = alive (theap s) \<and> tsentinel tr = tsentinel (ttree s)"
  proof (cases "timer_set ev")
    case True
    with del_armed [OF t(1), of e] in_xs show ?thesis by (fastforce simp: agc_timer_del_timer_def)
  next
    case False
    with t(1) in_xs show ?thesis
      by (intro exI [of _ "theap s"] exI [of _ "ttree s"]) (simp add: remove1_idem)
  qed
  then obtain h tr where
    d: "(if timer_set ev then agc_timer_del_timer ?s e else Some ?s) = Some (?s\<lparr>theap := h, ttree := tr\<rparr>)"
    "rb_holds timer_key_lt (h, tr) (remove1 e xs)" "\<forall>a. a \<noteq> e \<longrightarrow> rkey h a = rkey (theap s) a"
    "alive h = alive (theap s)" "tsentinel tr = tsentinel (ttree s)" by blast
  have dist: "distinct xs" using timer_holds_alive [OF t(1)] by simp
  have m: "set (remove1 e xs) = set xs - {e}" "e \<notin> set (remove1 e xs)" using dist by simp_all
  have cell: "e \<in> alive h" "e \<noteq> tsentinel tr" using t(3) assms(2) d(4,5) by auto
  have "rkey h ` set (remove1 e xs) = rkey (theap s) ` (set xs - {e})" using d(3) m by (auto intro!: image_cong)
  then have "half_window (insert ?key (rkey h ` set (remove1 e xs)))" using assms(3) by (simp add: deadlines_ok_def)
  from add_fresh [OF d(2) cell m(2) this] obtain h' tr' ys zs where
    i: "agc_rbtree_insert (h\<lparr>rkey := (rkey h)(e := ?key)\<rparr>) tr e = Some (h', tr')" "remove1 e xs = ys @ zs"
    "rb_holds timer_key_lt (h', tr') (ys @ e # zs)" "rkey h' = (rkey h)(e := ?key)" "alive h' = alive h"
    "tsentinel tr' = tsentinel tr" by blast
  define s' where "s' = s\<lparr>current_time := now, theap := h', ttree := tr',
    evs := (evs s)\<lparr>events := (events (evs s))(e := Some (ev\<lparr>timer_set := True\<rparr>))\<rparr>\<rparr>"
  have "agc_timer_add_timer s e timer now = Some s'"
    using d(1) i(1) cell ev by (simp add: agc_timer_add_timer_def wr_key_def set_timer_flag_def s'_def)
  moreover have "set (ys @ e # zs) = armed s'"
    using i(2) m(1) t(2) by (auto simp: armed_def s'_def)
  then have "timer_ok s' (ys @ e # zs)" using i d t(3) cell by (auto simp: timer_ok_def s'_def)
  ultimately show ?thesis using i d(3) by (auto simp: s'_def)
qed

theorem agc_timer_add_timer_correct_witness:
  "\<exists>s'. agc_timer_add_timer (demo_timers False) 7 100 5000 = Some s' \<and> timer_ok s' [7] \<and> rkey (theap s') 7 = 105"
proof -
  have "half_window {current_ms 5000 + 100}" by (auto simp: half_window_def intro!: exI [of _ "current_ms 5000 + 100"])
  then have "deadlines_ok (demo_timers False) [] 7 (current_ms 5000 + 100)" by (simp add: deadlines_ok_def)
  moreover have "7 \<in> dom (events (evs (demo_timers False)))" by (simp add: demo_timers_def)
  ultimately show ?thesis
    using agc_timer_add_timer_correct [OF demo_timers_ok [of False, simplified]] by (fastforce simp: current_ms_def)
qed

text \<open>
  C5: a pass of the timer thread fires a timer exactly when one is due: with no due timer it
  leaves the state alone and sleeps; otherwise it takes the earliest deadline out of the tree,
  clears its flag and fires that event, and the other timers stay armed. No timer fires before
  its deadline, and none is lost.
\<close>

theorem agc_timer_dispatch_correct:
  assumes "timer_ok s xs" "timer_running s" "half_window (insert (current_ms now) (rkey (theap s) ` set xs))"
    and "queues_open (evs s)"
  shows "if \<exists>a \<in> set xs. due now (rkey (theap s) a)
     then \<exists>c io i s'. agc_timer_dispatch_pass s now rnd = Some (Fired (hd xs) c io, s') \<and> timer_ok s' (tl xs) \<and>
       due now (rkey (theap s) (hd xs)) \<and> (\<forall>a \<in> set (tl xs). rkey (theap s') a = rkey (theap s) a) \<and>
       (c = Blocked \<or> contents (dispatch_queues (evs s') ! i) = contents (dispatch_queues (evs s) ! i) @ [hd xs])
     else agc_timer_dispatch_pass s now rnd = Some (Slept, s\<lparr>current_time := now\<rparr>)"
proof (cases xs)
  case Nil
  then show ?thesis using assms(1,2) timer_root
    by (fastforce simp: timer_ok_def agc_timer_dispatch_pass_def Let_def)
next
  case (Cons e ys)
  from assms(1) have t: "rb_holds timer_key_lt (theap s, ttree s) xs" "set xs = armed s"
    "dom (events (evs s)) \<subseteq> alive (theap s) - {tsentinel (ttree s)}" by (simp_all add: timer_ok_def)
  have root: "troot (ttree s) \<noteq> tsentinel (ttree s)" using timer_root [OF t(1)] Cons by simp
  have min: "agc_rbtree_min (theap s) (troot (ttree s)) (tsentinel (ttree s)) = Some e"
    using rb_first_law [OF t(1)] Cons by (simp add: rb_first_def)
  have al: "e \<in> alive (theap s)" "e \<notin> set ys" using timer_holds_alive [OF t(1)] Cons by auto
  have nn: "e \<noteq> NULL" using al(1) t(1) by (metis fst_conv rb_holds_def rb_wf_def)
  obtain ev where ev: "events (evs s) e = Some ev" using t(2) Cons by (auto simp: armed_def)
  note pass = agc_timer_dispatch_pass_def Let_def root min rd_def al(1) set_timer_flag_def ev due_def
  show ?thesis
  proof (cases "due now (rkey (theap s) e)")
    case False
    then have "\<not> (\<exists>a \<in> set xs. due now (rkey (theap s) a))"
      using due_first [OF t(1) [unfolded Cons] assms(3) [unfolded Cons]] unfolding Cons by blast
    then show ?thesis using False assms(2) by (simp add: pass)
  next
    case True
    from del_armed [OF t(1), of e] Cons obtain h tr where
      d: "agc_rbtree_delete (theap s) (ttree s) e = Some (h, tr)" "rb_holds timer_key_lt (h, tr) ys"
      "rkey h = (rkey (theap s))(e := 0)" "alive h = alive (theap s)" "tsentinel tr = tsentinel (ttree s)" by auto
    let ?v = "(evs s)\<lparr>events := (events (evs s))(e := Some (ev\<lparr>timer_set := False\<rparr>))\<rparr>"
    have "queues_open ?v" "events ?v e = Some (ev\<lparr>timer_set := False\<rparr>)"
      using assms(4) by (simp_all add: queues_open_def)
    from fire_open [OF this nn, of rnd] obtain c q io i where
      f: "agc_event_fire ?v e rnd = Some (c, ?v\<lparr>dispatch_queues := (dispatch_queues (evs s))[i := q]\<rparr>, io)"
      "i < length (dispatch_queues (evs s))"
      "c = Blocked \<or> contents q = contents (dispatch_queues (evs s) ! i) @ [e]" by auto
    define s' where "s' = s\<lparr>current_time := now, theap := h, ttree := tr,
      evs := ?v\<lparr>dispatch_queues := (dispatch_queues (evs s))[i := q]\<rparr>\<rparr>"
    have p: "agc_timer_dispatch_pass s now rnd = Some (Fired e c io, s')"
      using True assms(2) d(1) f(1) by (simp add: pass s'_def)
    have "set ys = armed s'" using t(2) Cons al(2) by (auto simp: armed_def s'_def)
    then have "timer_ok s' ys" using d t(3) ev by (auto simp: timer_ok_def s'_def)
    moreover have "\<forall>a \<in> set ys. rkey (theap s') a = rkey (theap s) a" using d(3) al(2) by (auto simp: s'_def)
    ultimately have "\<exists>c io i s'. agc_timer_dispatch_pass s now rnd = Some (Fired (hd xs) c io, s') \<and> timer_ok s' (tl xs) \<and>
       due now (rkey (theap s) (hd xs)) \<and> (\<forall>a \<in> set (tl xs). rkey (theap s') a = rkey (theap s) a) \<and>
       (c = Blocked \<or> contents (dispatch_queues (evs s') ! i) = contents (dispatch_queues (evs s) ! i) @ [hd xs])"
      using Cons p True f(2,3) by (intro exI [of _ c] exI [of _ io] exI [of _ i] exI [of _ s']) (auto simp: s'_def)
    then show ?thesis using Cons True by simp
  qed
qed

theorem agc_timer_dispatch_correct_witness:
  "\<exists>c io s'. agc_timer_dispatch_pass (demo_timers True) 200000 0 = Some (Fired 7 c io, s') \<and> timer_ok s' []"
proof -
  let ?s = "demo_timers True"
  have w: "half_window (insert (current_ms 200000) (rkey (theap ?s) ` set [7]))"
    unfolding half_window_def by (intro exI [of _ 0]) (simp add: demo_timers_def current_ms_def)
  have o: "queues_open (evs ?s)"
    using queue_create_wf by (auto simp: queues_open_def demo_timers_def demo_sys_def)
  have "\<exists>a \<in> set [7]. due 200000 (rkey (theap ?s) a)" by (simp add: due_def demo_timers_def current_ms_def)
  moreover have "timer_running ?s" by (simp add: demo_timers_def)
  ultimately show ?thesis
    using agc_timer_dispatch_correct [OF demo_timers_ok [of True, simplified] _ w o, of 0] by auto
qed

text \<open>
  C35: \<^verbatim>\<open>agc_timer_del_timer\<close> takes an armed timer out of the tree, whatever other timers are armed, but leaves its flag
  \<^verbatim>\<open>timer_set\<close> as it was, so arming the event again deletes a node that is no longer in the tree: its links
  are cleared, and the second deletion reads through \<^verbatim>\<open>NULL\<close>.
\<close>

theorem agc_timer_del_timer_then_add:
  assumes "timer_ok s xs" "e \<in> set xs"
  shows "\<exists>s'. agc_timer_del_timer s e = Some s' \<and> e \<in> armed s' \<and> rb_holds timer_key_lt (theap s', ttree s') (remove1 e xs) \<and>
     agc_timer_add_timer s' e timer now = None"
proof -
  from assms obtain t where t: "rb_wf (theap s) (ttree s) t" "inorder t = xs" and a: "e \<in> armed s"
    and o: "rb_holds timer_key_lt (theap s, ttree s) xs"
    by (auto simp: timer_ok_def rb_holds_def)
  have w: "e \<in> alive (theap s)" "NULL \<notin> alive (theap s)" "tsentinel (ttree s) \<in> alive (theap s)"
    using t(1) timer_holds_alive [OF o] assms(2) by (auto simp: rb_wf_def)
  from del_armed [OF o assms(2)] obtain h tr where
    d: "agc_rbtree_delete (theap s) (ttree s) e = Some (h, tr)" "rb_holds timer_key_lt (h, tr) (remove1 e xs)"
    "alive h = alive (theap s)" "tsentinel tr = tsentinel (ttree s)" by auto
  have "e \<in> set_tree t" using assms(2) t(2) by (simp flip: set_inorder)
  note c = delete_cleared [OF t(1) this d(1)]
  have "agc_rbtree_delete h tr e = None"
  proof -
    have "tsentinel tr \<noteq> NULL" using w(2,3) d(4) by metis
    moreover have "agc_rbtree_min h NULL (tsentinel tr) = None"
      by (subst agc_rbtree_min.simps) (use w(2) d(3) in \<open>simp add: rd_def\<close>)
    ultimately show ?thesis
      using c w(1) d(3) by (simp add: agc_rbtree_delete_def rb_delete_unlink_def rb_delete_pick_def rd_def)
  qed
  moreover obtain ev where "events (evs s) e = Some ev" "timer_set ev" using a by (auto simp: armed_def)
  ultimately show ?thesis using d
    by (auto simp: agc_timer_del_timer_def agc_timer_add_timer_def armed_def)
qed

theorem agc_timer_del_timer_then_add_witness:
  "\<exists>s'. agc_timer_del_timer (demo_timers True) 7 = Some s' \<and> agc_timer_add_timer s' 7 100 5000 = None"
  using agc_timer_del_timer_then_add [OF demo_timers_ok [of True, simplified], of 7] by auto

end
