(* ===== verification/Agc_Json.thy ===== *)
theory Agc_Json
  imports Agc_Text
begin

text \<open>
  The JSON reader and writer of \<^verbatim>\<open>src/src/agc_json.c\<close>. An item is its fields and the
  list of its children (the \<^verbatim>\<open>next\<close>/\<^verbatim>\<open>prev\<close> chain from \<^verbatim>\<open>child\<close>). A C string is a list
  without its terminator: looking at the end of the list is reading the \<^verbatim>\<open>NUL\<close>, reading
  past the end is \<open>Fault\<close>, and so are writing past a buffer and an overflow of an \<^verbatim>\<open>int\<close>, in which the code counts the
  characters of strings, the entries of arrays and objects, the depth of nesting and exponents.
  \<open>Zero\<close> is the null pointer the functions return on failure, \<open>Unfinished\<close> a reader that has used up its fuel. Allocation succeeds,
  and sizes of type \<^verbatim>\<open>size_t\<close> do not overflow.

  The arithmetic of \<^verbatim>\<open>double\<close> and the \<^verbatim>\<open>%f\<close> conversions of the C library are the fields of
  the parameter \<open>fp\<close>; what the code does with their results is here.
\<close>

section \<open>Items\<close>

record 'd fp =
  fp_zero :: 'd
  fp_digit :: "'d \<Rightarrow> nat \<Rightarrow> 'd"
  fp_scale :: "bool \<Rightarrow> 'd \<Rightarrow> int \<Rightarrow> 'd"
  fp_trunc :: "'d \<Rightarrow> int"
  fp_of_int :: "int \<Rightarrow> 'd"
  fp_near_int :: "'d \<Rightarrow> int \<Rightarrow> bool"
  fp_whole :: "'d \<Rightarrow> bool"
  fp_extreme :: "'d \<Rightarrow> bool"
  fp_fmt_0f :: "'d \<Rightarrow> string"
  fp_fmt_e :: "'d \<Rightarrow> string"
  fp_fmt_f :: "'d \<Rightarrow> string"

definition cJSON_False :: int where "cJSON_False = 0"
definition cJSON_True :: int where "cJSON_True = 1"
definition cJSON_NULL :: int where "cJSON_NULL = 2"
definition cJSON_Number :: int where "cJSON_Number = 3"
definition cJSON_String :: int where "cJSON_String = 4"
definition cJSON_Array :: int where "cJSON_Array = 5"
definition cJSON_Object :: int where "cJSON_Object = 6"
definition cJSON_IsReference :: int where "cJSON_IsReference = 256"

lemmas json_types = cJSON_False_def cJSON_True_def cJSON_NULL_def cJSON_Number_def cJSON_String_def
  cJSON_Array_def cJSON_Object_def

record 'd jnode =
  jtype :: int
  valuestring :: "string option"
  valueint :: int
  valuedouble :: 'd
  jname :: "string option"

datatype 'd cjson = CJ (node: "'d jnode") (child: "'d cjson list")

datatype 'a cres = Val 'a | Zero | Fault | Unfinished

fun cbind :: "'a cres \<Rightarrow> ('a \<Rightarrow> 'b cres) \<Rightarrow> 'b cres" where
  "cbind (Val x) f = f x"
| "cbind Zero f = Zero"
| "cbind Fault f = Fault"
| "cbind Unfinished f = Unfinished"

definition cJSON_strcasecmp_eq :: "string option \<Rightarrow> string option \<Rightarrow> bool" where
  "cJSON_strcasecmp_eq s1 s2 = (case s1 of None \<Rightarrow> s2 = None
     | Some a \<Rightarrow> (case s2 of None \<Rightarrow> False | Some b \<Rightarrow> strcasecmp_eq a b))"

definition cJSON_strdup :: "string option \<Rightarrow> string" where
  "cJSON_strdup s = (case s of None \<Rightarrow> [] | Some s \<Rightarrow> s)"

definition cJSON_New_Item :: "'d fp \<Rightarrow> 'd jnode" where
  "cJSON_New_Item f = \<lparr>jtype = 0, valuestring = None, valueint = 0, valuedouble = fp_zero f, jname = None\<rparr>"

section \<open>Strings\<close>

definition is_hexdigit :: "char \<Rightarrow> bool" where
  "is_hexdigit c \<longleftrightarrow> (let n = (of_char c :: nat) in
     48 \<le> n \<and> n \<le> 57 \<or> 97 \<le> n \<and> n \<le> 102 \<or> 65 \<le> n \<and> n \<le> 70)"

definition hex_val :: "char \<Rightarrow> nat" where
  "hex_val c = (let n = (of_char c :: nat) in
     if n \<le> 57 then n - 48 else if n \<le> 70 then n - 55 else n - 87)"

definition scan_unicode :: "string \<Rightarrow> u32 option" where
  "scan_unicode s = (case s of
     a # b # c # d # _ \<Rightarrow>
       if is_hexdigit a \<and> is_hexdigit b \<and> is_hexdigit c \<and> is_hexdigit d
       then Some (of_nat (((hex_val a * 16 + hex_val b) * 16 + hex_val c) * 16 + hex_val d)) else None
   | _ \<Rightarrow> None)"

text \<open>The bytes the fall-through switch stores, from the last one back.\<close>

definition byte_of :: "u32 \<Rightarrow> char" where
  "byte_of w = char_of (unat w)"

definition utf8_tail :: "u32 \<Rightarrow> char" where
  "utf8_tail uc = byte_of (and (or uc 0x80) 0xBF)"

definition utf8_encode :: "u32 \<Rightarrow> string" where
  "utf8_encode uc =
     (if uc < 0x80 then [byte_of uc]
      else if uc < 0x800 then [byte_of (or (drop_bit 6 uc) 0xC0), utf8_tail uc]
      else if uc < 0x10000 then
        [byte_of (or (drop_bit 12 uc) 0xE0), utf8_tail (drop_bit 6 uc), utf8_tail uc]
      else [byte_of (or (drop_bit 18 uc) 0xF0), utf8_tail (drop_bit 12 uc), utf8_tail (drop_bit 6 uc), utf8_tail uc])"

definition surrogates :: "u32 \<Rightarrow> u32 \<Rightarrow> u32" where
  "surrogates uc uc2 = or (or 0x10000 (push_bit 10 (and uc 0x3FF))) (and uc2 0x3FF)"

text \<open>The text after \<^verbatim>\<open>\u\<close>: the bytes written and the text the loop goes on with.\<close>

definition unescape_u :: "string \<Rightarrow> string \<times> string" where
  "unescape_u s = (case scan_unicode s of
     None \<Rightarrow> ([], s)
   | Some uc \<Rightarrow>
       (let r = drop 4 s in
        if 0xDC00 \<le> uc \<and> uc \<le> 0xDFFF \<or> uc = 0 then ([], r)
        else if 0xD800 \<le> uc \<and> uc \<le> 0xDBFF then
          (case r of
             c # d # r2 \<Rightarrow>
               if c \<noteq> CHR 0x5C \<or> d \<noteq> CHR ''u'' then ([], r)
               else (case scan_unicode r2 of
                  None \<Rightarrow> ([], r)
                | Some uc2 \<Rightarrow>
                    if uc2 < 0xDC00 \<or> uc2 > 0xDFFF then ([], drop 4 r2)
                    else (utf8_encode (surrogates uc uc2), drop 4 r2))
           | _ \<Rightarrow> ([], r))
        else (utf8_encode uc, r)))"

definition unescape_simple :: "char \<Rightarrow> char" where
  "unescape_simple e = (if e = CHR ''b'' then CHR 0x08 else if e = CHR ''f'' then CHR 0x0C
     else if e = CHR ''n'' then CHR 0x0A else if e = CHR ''r'' then CHR 0x0D
     else if e = CHR ''t'' then CHR 0x09 else e)"

lemma scan_unicode_Some:
  assumes "scan_unicode s = Some uc"
  shows "\<exists>p. length p = 4 \<and> (\<forall>c \<in> set p. is_hexdigit c) \<and> s = p @ drop 4 s"
proof -
  from assms obtain a b c d r where "s = a # b # c # d # r" "is_hexdigit a" "is_hexdigit b" "is_hexdigit c" "is_hexdigit d"
    by (auto simp: scan_unicode_def split: list.splits if_splits)
  then show ?thesis by (intro exI [of _ "[a, b, c, d]"]) simp
qed

lemma utf8_encode_length: "length (utf8_encode uc) \<le> 4"
  by (simp add: utf8_encode_def)

text \<open>The part of the text an escape consumes.\<close>

lemma unescape_u_shape:
  assumes "unescape_u s = (b, t)"
  shows "b = [] \<and> t = s \<or>
     (\<exists>p. length p = 4 \<and> (\<forall>c \<in> set p. is_hexdigit c) \<and> s = p @ t \<and> length b \<le> 4) \<or>
     (\<exists>p q. length p = 4 \<and> length q = 4 \<and> (\<forall>c \<in> set p \<union> set q. is_hexdigit c) \<and>
        s = p @ CHR 0x5C # CHR ''u'' # q @ t \<and> length b \<le> 4)"
proof (cases "scan_unicode s")
  case None
  with assms show ?thesis by (simp add: unescape_u_def)
next
  case (Some uc)
  from scan_unicode_Some [OF this] obtain p where p: "length p = 4" "\<forall>c \<in> set p. is_hexdigit c" "s = p @ drop 4 s" by blast
  define r where "r = drop 4 s"
  have s: "s = p @ r" using p(3) r_def by simp
  have "t = r \<and> length b \<le> 4 \<or> (\<exists>r2 uc2. r = CHR 0x5C # CHR ''u'' # r2 \<and> scan_unicode r2 = Some uc2 \<and> t = drop 4 r2 \<and> length b \<le> 4)"
    using assms Some unfolding unescape_u_def Let_def r_def [symmetric]
    by (auto simp: utf8_encode_length split: if_split_asm list.split_asm option.split_asm)
  then show ?thesis
  proof (elim disjE exE conjE)
    assume "t = r" "length b \<le> 4"
    with p(1,2) s show ?thesis by blast
  next
    fix r2 uc2
    assume r: "r = CHR 0x5C # CHR ''u'' # r2" "scan_unicode r2 = Some uc2" "t = drop 4 r2" "length b \<le> 4"
    from scan_unicode_Some [OF r(2)] obtain q where q: "length q = 4" "\<forall>c \<in> set q. is_hexdigit c" "r2 = q @ t"
      using r(3) by blast
    have "s = p @ CHR 0x5C # CHR ''u'' # q @ t" unfolding s r(1) q(3) ..
    with p(1,2) q(1,2) r(4) show ?thesis by blast
  qed
qed

lemma unescape_u_length: "unescape_u s = (b, t) \<Longrightarrow> length t \<le> length s"
  using unescape_u_shape [of s b t] by auto

text \<open>The writing loop of \<^verbatim>\<open>parse_string\<close>: what it writes and where it stops.\<close>

function unescape :: "string \<Rightarrow> string \<times> string" where
  "unescape s = (case s of
     [] \<Rightarrow> ([], [])
   | c # r \<Rightarrow>
       if c = CHR 0x22 then ([], s)
       else if c \<noteq> CHR 0x5C then (let (out, t) = unescape r in (c # out, t))
       else (case r of
          [] \<Rightarrow> ([CHR 0x00], [])
        | e # r' \<Rightarrow>
            if e = CHR ''u'' then
              (let (b, t) = unescape_u r'; (out, t) = unescape t in (b @ out, t))
            else (let (out, t) = unescape r' in (unescape_simple e # out, t))))"
  by pat_completeness auto
termination
  by (relation "measure length") (auto simp: less_Suc_eq_le dest!: unescape_u_length [OF sym] intro: le_SucI)

declare unescape.simps [simp del]

text \<open>The first loop of \<^verbatim>\<open>parse_string\<close> computes the size of the buffer.\<close>

fun scan_length :: "string \<Rightarrow> nat cres" where
  "scan_length [] = Val 0"
| "scan_length [c] = (if c = CHR 0x22 then Val 0 else if c = CHR 0x5C then Fault else Val 1)"
| "scan_length (c # d # r) =
     (if c = CHR 0x22 then Val 0
      else if c = CHR 0x5C then cbind (scan_length r) (\<lambda>n. Val (Suc n))
      else cbind (scan_length (d # r)) (\<lambda>n. Val (Suc n)))"

definition parse_string :: "'d jnode \<Rightarrow> string \<Rightarrow> ('d jnode \<times> string) cres" where
  "parse_string item str = (case str of
     [] \<Rightarrow> Zero
   | q # s \<Rightarrow>
       if q \<noteq> CHR 0x22 then Zero
       else cbind (scan_length s) (\<lambda>len.
         let (out, r) = unescape s in
         if \<not> fits (len + 1) \<or> len < length out then Fault
         else Val (item\<lparr>valuestring := Some out, jtype := cJSON_String\<rparr>,
                   case r of [] \<Rightarrow> [] | c # r' \<Rightarrow> if c = CHR 0x22 then r' else r)))"

definition hex_digit :: "nat \<Rightarrow> char" where
  "hex_digit n = (if n < 10 then char_of (48 + n) else char_of (87 + n))"

definition print_char :: "char \<Rightarrow> string" where
  "print_char c =
     (if 31 < (of_char c :: nat) \<and> c \<noteq> CHR 0x22 \<and> c \<noteq> CHR 0x5C then [c]
      else CHR 0x5C # (if c = CHR 0x5C then [CHR 0x5C] else if c = CHR 0x22 then [CHR 0x22]
        else if c = CHR 0x08 then ''b'' else if c = CHR 0x0C then ''f'' else if c = CHR 0x0A then ''n''
        else if c = CHR 0x0D then ''r'' else if c = CHR 0x09 then ''t''
        else [CHR ''u'', CHR ''0'', CHR ''0'', hex_digit (of_char c div 16), hex_digit (of_char c mod 16)]))"

definition print_string_size :: "string \<Rightarrow> nat" where
  "print_string_size s = sum_list (map (\<lambda>c.
     if c \<in> {CHR 0x22, CHR 0x5C, CHR 0x08, CHR 0x0C, CHR 0x0A, CHR 0x0D, CHR 0x09} then 2
     else if (of_char c :: nat) < 32 then 6 else 1) s)"

definition print_string_ptr :: "string option \<Rightarrow> string cres" where
  "print_string_ptr str = (case str of
     None \<Rightarrow> Val (cJSON_strdup (Some []))
   | Some s \<Rightarrow>
       (let out = CHR 0x22 # concat (map print_char s) @ [CHR 0x22] in
        if \<not> fits (print_string_size s + 3) \<or> print_string_size s + 3 < Suc (length out) then Fault else Val out))"

section \<open>Numbers\<close>

definition starts :: "(char \<Rightarrow> bool) \<Rightarrow> string \<Rightarrow> bool" where
  "starts P s \<longleftrightarrow> (case s of [] \<Rightarrow> False | c # _ \<Rightarrow> P c)"

fun number_digits :: "('d \<Rightarrow> nat \<Rightarrow> 'd) \<Rightarrow> 'd \<Rightarrow> string \<Rightarrow> 'd \<times> nat \<times> string" where
  "number_digits step n [] = (n, 0, [])"
| "number_digits step n (c # s) =
     (if is_digit c then (let (n, k, s) = number_digits step (step n (digit_val c)) s in (n, Suc k, s)) else (n, 0, c # s))"

definition number_skip :: "char \<Rightarrow> string \<Rightarrow> string" where
  "number_skip c num = (if starts (\<lambda>d. d = c) num then tl num else num)"

definition number_int :: "'d fp \<Rightarrow> 'd \<Rightarrow> string \<Rightarrow> 'd \<times> string" where
  "number_int f n num =
     (if starts (\<lambda>c. is_digit c \<and> c \<noteq> CHR ''0'') num
      then (let (n, _, num) = number_digits (fp_digit f) n num in (n, num)) else (n, num))"

definition number_frac :: "'d fp \<Rightarrow> 'd \<Rightarrow> string \<Rightarrow> 'd \<times> nat \<times> string" where
  "number_frac f n num =
     (if starts (\<lambda>c. c = CHR ''.'') num \<and> starts is_digit (tl num)
      then number_digits (fp_digit f) n (tl num) else (n, 0, num))"

text \<open>The value of the exponent only grows from digit to digit, so it overflows on the way if and only if it is too large at the end.\<close>

definition number_exp :: "string \<Rightarrow> (int \<times> string) cres" where
  "number_exp num =
     (if starts (\<lambda>c. c = CHR ''e'' \<or> c = CHR ''E'') num
      then (let num = tl num;
                neg = starts (\<lambda>c. c = CHR 0x2D) num;
                num = (if starts (\<lambda>c. c = CHR 0x2B \<or> c = CHR 0x2D) num then tl num else num);
                (sub, _, num) = number_digits (\<lambda>a d. a * 10 + d) (0::nat) num
            in if fits sub then Val (if neg then - int sub else int sub, num) else Fault)
      else Val (0, num))"

definition parse_number :: "'d fp \<Rightarrow> 'd jnode \<Rightarrow> string \<Rightarrow> ('d jnode \<times> string) cres" where
  "parse_number f item num =
     (let neg = starts (\<lambda>c. c = CHR 0x2D) num;
          (n, num) = number_int f (fp_zero f) (number_skip (CHR ''0'') (number_skip (CHR 0x2D) num));
          (n, scale, num) = number_frac f n num
      in cbind (number_exp num) (\<lambda>(subscale, num).
           let d = fp_scale f neg n (- int scale + subscale)
           in Val (item\<lparr>valuedouble := d, valueint := fp_trunc f d, jtype := cJSON_Number\<rparr>, num)))"

definition print_number :: "'d fp \<Rightarrow> 'd jnode \<Rightarrow> string cres" where
  "print_number f item =
     (let d = valuedouble item in
      if fp_near_int f d (valueint item)
      then (let s = int_str (valueint item) in if 21 < Suc (length s) then Fault else Val s)
      else (let s = (if fp_whole f d then fp_fmt_0f f d else if fp_extreme f d then fp_fmt_e f d else fp_fmt_f f d) in
            if 64 < Suc (length s) then Fault else Val s))"

section \<open>Values\<close>

definition skip :: "string \<Rightarrow> string" where
  "skip s = dropWhile (\<lambda>c. c \<noteq> CHR 0x00 \<and> (of_char c :: nat) \<le> 32) s"

text \<open>
  The readers recurse on a fuel argument; \<open>Unfinished\<close> is what they return without fuel, and
  twice the length of the text is enough fuel (\<open>parse_value_total\<close>).
\<close>

fun parse_value :: "'d fp \<Rightarrow> nat \<Rightarrow> 'd jnode \<Rightarrow> string \<Rightarrow> ('d cjson \<times> string) cres"
and parse_elements :: "'d fp \<Rightarrow> nat \<Rightarrow> string \<Rightarrow> ('d cjson list \<times> string) cres"
and parse_members :: "'d fp \<Rightarrow> nat \<Rightarrow> string \<Rightarrow> ('d cjson list \<times> string) cres" where
  "parse_value f 0 item v = Unfinished"
| "parse_value f (Suc n) item v =
     (if take 4 v = ''null'' then Val (CJ (item\<lparr>jtype := cJSON_NULL\<rparr>) [], drop 4 v)
      else if take 5 v = ''false'' then Val (CJ (item\<lparr>jtype := cJSON_False\<rparr>) [], drop 5 v)
      else if take 4 v = ''true'' then Val (CJ (item\<lparr>jtype := cJSON_True, valueint := 1\<rparr>) [], drop 4 v)
      else (case v of
        [] \<Rightarrow> Zero
      | c # r \<Rightarrow>
          if c = CHR 0x22 then cbind (parse_string item v) (\<lambda>(item, r). Val (CJ item [], r))
          else if c = CHR 0x2D \<or> is_digit c then cbind (parse_number f item v) (\<lambda>(item, r). Val (CJ item [], r))
          else if c = CHR 0x5B then
            (let item = item\<lparr>jtype := cJSON_Array\<rparr>; r = skip r in
             if starts (\<lambda>c. c = CHR 0x5D) r then Val (CJ item [], tl r)
             else cbind (parse_elements f n r) (\<lambda>(cs, r). Val (CJ item cs, r)))
          else if c = CHR 0x7B then
            (let item = item\<lparr>jtype := cJSON_Object\<rparr>; r = skip r in
             if starts (\<lambda>c. c = CHR 0x7D) r then Val (CJ item [], tl r)
             else cbind (parse_members f n r) (\<lambda>(cs, r). Val (CJ item cs, r)))
          else Zero))"
| "parse_elements f 0 v = Unfinished"
| "parse_elements f (Suc n) v =
     cbind (parse_value f n (cJSON_New_Item f) (skip v)) (\<lambda>(c, r).
       let r = skip r in
       if starts (\<lambda>c. c = CHR 0x2C) r then cbind (parse_elements f n (tl r)) (\<lambda>(cs, r). Val (c # cs, r))
       else if starts (\<lambda>c. c = CHR 0x5D) r then Val ([c], tl r) else Zero)"
| "parse_members f 0 v = Unfinished"
| "parse_members f (Suc n) v =
     cbind (parse_string (cJSON_New_Item f) (skip v)) (\<lambda>(item, r).
       let r = skip r; item = item\<lparr>jname := valuestring item, valuestring := None\<rparr> in
       if \<not> starts (\<lambda>c. c = CHR 0x3A) r then Zero
       else cbind (parse_value f n item (skip (tl r))) (\<lambda>(c, r).
         let r = skip r in
         if starts (\<lambda>c. c = CHR 0x2C) r then cbind (parse_members f n (tl r)) (\<lambda>(cs, r). Val (c # cs, r))
         else if starts (\<lambda>c. c = CHR 0x7D) r then Val ([c], tl r) else Zero))"

definition cJSON_Parse :: "'d fp \<Rightarrow> string \<Rightarrow> 'd cjson cres" where
  "cJSON_Parse f value =
     cbind (parse_value f (2 * length value + 2) (cJSON_New_Item f) (skip value)) (\<lambda>(c, _). Val c)"

section \<open>Printing\<close>

text \<open>
  \<^verbatim>\<open>print_array\<close> and \<^verbatim>\<open>print_object\<close> first print every entry, then size the buffer, then
  compose it. An array stops at the first entry that cannot be printed, an object goes on.
\<close>

fun cboth :: "'a cres \<Rightarrow> 'b cres \<Rightarrow> ('a \<times> 'b) cres" where
  "cboth (Val x) (Val y) = Val (x, y)"
| "cboth Unfinished _ = Unfinished"
| "cboth _ Unfinished = Unfinished"
| "cboth Fault _ = Fault"
| "cboth _ Fault = Fault"
| "cboth _ _ = Zero"

fun compose_array :: "bool \<Rightarrow> string list \<Rightarrow> string" where
  "compose_array fmt [] = []"
| "compose_array fmt [e] = e"
| "compose_array fmt (e # es) = e @ '','' @ (if fmt then '' '' else []) @ compose_array fmt es"

definition array_size :: "bool \<Rightarrow> string list \<Rightarrow> nat" where
  "array_size fmt es = 5 + sum_list (map (\<lambda>e. length e + 2 + (if fmt then 1 else 0)) es)"

definition finish_array :: "bool \<Rightarrow> string list \<Rightarrow> string cres" where
  "finish_array fmt es =
     (let out = ''['' @ compose_array fmt es @ '']'' in
      if array_size fmt es < Suc (length out) then Fault else Val out)"

definition tabs :: "bool \<Rightarrow> nat \<Rightarrow> string" where
  "tabs fmt k = (if fmt then replicate k (CHR 0x09) else [])"

definition newline :: "bool \<Rightarrow> string" where
  "newline fmt = (if fmt then [CHR 0x0A] else [])"

fun compose_object :: "bool \<Rightarrow> nat \<Rightarrow> (string \<times> string) list \<Rightarrow> string" where
  "compose_object fmt depth [] = []"
| "compose_object fmt depth ((name, entry) # es) =
     tabs fmt depth @ name @ '':'' @ tabs fmt 1 @ entry @ (if es = [] then [] else '','') @ newline fmt @
     compose_object fmt depth es"

definition object_size :: "bool \<Rightarrow> nat \<Rightarrow> (string \<times> string) list \<Rightarrow> nat" where
  "object_size fmt depth es = 7 + (if fmt then depth else 0) +
     sum_list (map (\<lambda>(name, entry). length entry + length name + 2 + (if fmt then 2 + depth else 0)) es)"

definition finish_object :: "bool \<Rightarrow> nat \<Rightarrow> (string \<times> string) list \<Rightarrow> string cres" where
  "finish_object fmt depth es =
     (let out = ''{'' @ newline fmt @ compose_object fmt depth es @ tabs fmt (depth - 1) @ ''}'' in
      if object_size fmt depth es < Suc (length out) then Fault else Val out)"

fun print_value :: "'d fp \<Rightarrow> 'd cjson \<Rightarrow> nat \<Rightarrow> bool \<Rightarrow> string cres"
and print_elements :: "'d fp \<Rightarrow> 'd cjson list \<Rightarrow> nat \<Rightarrow> bool \<Rightarrow> string list cres"
and print_members :: "'d fp \<Rightarrow> 'd cjson list \<Rightarrow> nat \<Rightarrow> bool \<Rightarrow> (string \<times> string) list cres" where
  "print_value f (CJ item cs) depth fmt =
     (let t = jtype item mod 256 in
      if t = cJSON_NULL then Val (cJSON_strdup (Some ''null''))
      else if t = cJSON_False then Val (cJSON_strdup (Some ''false''))
      else if t = cJSON_True then Val (cJSON_strdup (Some ''true''))
      else if t = cJSON_Number then print_number f item
      else if t = cJSON_String then print_string_ptr (valuestring item)
      else if t = cJSON_Array then if \<not> fits (length cs) \<or> \<not> fits (Suc depth) then Fault else cbind (print_elements f cs (Suc depth) fmt) (finish_array fmt)
      else if t = cJSON_Object then if \<not> fits (length cs) \<or> \<not> fits (Suc depth + (if fmt then 2 else 0)) then Fault else cbind (print_members f cs (Suc depth) fmt) (finish_object fmt (Suc depth))
      else Zero)"
| "print_elements f [] depth fmt = Val []"
| "print_elements f (c # cs) depth fmt =
     cbind (print_value f c depth fmt) (\<lambda>e. cbind (print_elements f cs depth fmt) (\<lambda>es. Val (e # es)))"
| "print_members f [] depth fmt = Val []"
| "print_members f (c # cs) depth fmt =
     cbind (cboth (cboth (print_string_ptr (jname (node c))) (print_value f c depth fmt)) (print_members f cs depth fmt))
       (\<lambda>(e, es). Val (e # es))"

definition cJSON_Print :: "'d fp \<Rightarrow> 'd cjson \<Rightarrow> string cres" where
  "cJSON_Print f item = print_value f item 0 True"

definition cJSON_PrintUnformatted :: "'d fp \<Rightarrow> 'd cjson \<Rightarrow> string cres" where
  "cJSON_PrintUnformatted f item = print_value f item 0 False"

section \<open>Building and taking apart\<close>

text \<open>
  An index is an \<^verbatim>\<open>int\<close>; the loops stop at once for a negative one, so it means the first child.
\<close>

definition cJSON_GetArraySize :: "'d cjson \<Rightarrow> int" where
  "cJSON_GetArraySize array = int (length (child array))"

definition cJSON_GetArrayItem :: "'d cjson \<Rightarrow> int \<Rightarrow> 'd cjson option" where
  "cJSON_GetArrayItem array item =
     (if nat item < length (child array) then Some (child array ! nat item) else None)"

definition named_item :: "string \<Rightarrow> 'd cjson \<Rightarrow> bool" where
  "named_item s c \<longleftrightarrow> cJSON_strcasecmp_eq (jname (node c)) (Some s)"

fun index_of :: "('a \<Rightarrow> bool) \<Rightarrow> 'a list \<Rightarrow> nat option" where
  "index_of P [] = None"
| "index_of P (x # xs) = (if P x then Some 0 else map_option Suc (index_of P xs))"

definition cJSON_GetObjectItem :: "'d cjson \<Rightarrow> string \<Rightarrow> 'd cjson option" where
  "cJSON_GetObjectItem obj s = List.find (named_item s) (child obj)"

definition cJSON_GetObjectCstr :: "'d cjson \<Rightarrow> string \<Rightarrow> string option" where
  "cJSON_GetObjectCstr obj s = (case cJSON_GetObjectItem obj s of
     None \<Rightarrow> None
   | Some cj \<Rightarrow> if jtype (node cj) \<noteq> cJSON_String then None else valuestring (node cj))"

definition cJSON_AddItemToArray :: "'d cjson \<Rightarrow> 'd cjson option \<Rightarrow> 'd cjson" where
  "cJSON_AddItemToArray array item = (case item of None \<Rightarrow> array
     | Some it \<Rightarrow> CJ (node array) (child array @ [it]))"

definition cJSON_AddItemToObject :: "'d cjson \<Rightarrow> string option \<Rightarrow> 'd cjson option \<Rightarrow> 'd cjson" where
  "cJSON_AddItemToObject obj s item = (case item of None \<Rightarrow> obj
     | Some it \<Rightarrow> cJSON_AddItemToArray obj (Some (CJ ((node it)\<lparr>jname := Some (cJSON_strdup s)\<rparr>) (child it))))"

definition cJSON_DetachItemFromArray :: "'d cjson \<Rightarrow> int \<Rightarrow> 'd cjson option \<times> 'd cjson" where
  "cJSON_DetachItemFromArray array which =
     (let i = nat which; cs = child array in
      if i < length cs then (Some (cs ! i), CJ (node array) (take i cs @ drop (Suc i) cs)) else (None, array))"

definition cJSON_DeleteItemFromArray :: "'d cjson \<Rightarrow> int \<Rightarrow> 'd cjson" where
  "cJSON_DeleteItemFromArray array which = snd (cJSON_DetachItemFromArray array which)"

definition cJSON_DetachItemFromObject :: "'d cjson \<Rightarrow> string \<Rightarrow> 'd cjson option \<times> 'd cjson" where
  "cJSON_DetachItemFromObject obj s = (case index_of (named_item s) (child obj) of
     None \<Rightarrow> (None, obj) | Some i \<Rightarrow> cJSON_DetachItemFromArray obj (int i))"

definition cJSON_DeleteItemFromObject :: "'d cjson \<Rightarrow> string \<Rightarrow> 'd cjson" where
  "cJSON_DeleteItemFromObject obj s = snd (cJSON_DetachItemFromObject obj s)"

definition cJSON_ReplaceItemInArray :: "'d cjson \<Rightarrow> int \<Rightarrow> 'd cjson \<Rightarrow> 'd cjson" where
  "cJSON_ReplaceItemInArray array which newitem =
     (let i = nat which in if i < length (child array) then CJ (node array) ((child array)[i := newitem]) else array)"

definition cJSON_ReplaceItemInObject :: "'d cjson \<Rightarrow> string \<Rightarrow> 'd cjson \<Rightarrow> 'd cjson" where
  "cJSON_ReplaceItemInObject obj s newitem = (case index_of (named_item s) (child obj) of
     None \<Rightarrow> obj
   | Some i \<Rightarrow> cJSON_ReplaceItemInArray obj (int i) (CJ ((node newitem)\<lparr>jname := Some (cJSON_strdup (Some s))\<rparr>) (child newitem)))"

definition create_typed :: "'d fp \<Rightarrow> int \<Rightarrow> 'd cjson" where
  "create_typed f t = CJ ((cJSON_New_Item f)\<lparr>jtype := t\<rparr>) []"

definition cJSON_CreateNull :: "'d fp \<Rightarrow> 'd cjson" where
  "cJSON_CreateNull f = create_typed f cJSON_NULL"

definition cJSON_CreateTrue :: "'d fp \<Rightarrow> 'd cjson" where
  "cJSON_CreateTrue f = create_typed f cJSON_True"

definition cJSON_CreateFalse :: "'d fp \<Rightarrow> 'd cjson" where
  "cJSON_CreateFalse f = create_typed f cJSON_False"

definition cJSON_CreateBool :: "'d fp \<Rightarrow> int \<Rightarrow> 'd cjson" where
  "cJSON_CreateBool f b = create_typed f (if b \<noteq> 0 then cJSON_True else cJSON_False)"

definition cJSON_CreateNumber :: "'d fp \<Rightarrow> 'd \<Rightarrow> 'd cjson" where
  "cJSON_CreateNumber f num =
     CJ ((cJSON_New_Item f)\<lparr>jtype := cJSON_Number, valuedouble := num, valueint := fp_trunc f num\<rparr>) []"

definition cJSON_CreateString :: "'d fp \<Rightarrow> string option \<Rightarrow> 'd cjson" where
  "cJSON_CreateString f s = CJ ((cJSON_New_Item f)\<lparr>jtype := cJSON_String, valuestring := Some (cJSON_strdup s)\<rparr>) []"

definition cJSON_CreateArray :: "'d fp \<Rightarrow> 'd cjson" where
  "cJSON_CreateArray f = create_typed f cJSON_Array"

definition cJSON_CreateObject :: "'d fp \<Rightarrow> 'd cjson" where
  "cJSON_CreateObject f = create_typed f cJSON_Object"

definition cJSON_CreateIntArray :: "'d fp \<Rightarrow> int list \<Rightarrow> 'd cjson" where
  "cJSON_CreateIntArray f numbers =
     CJ (node (cJSON_CreateArray f)) (map (\<lambda>n. cJSON_CreateNumber f (fp_of_int f n)) numbers)"

definition cJSON_CreateDoubleArray :: "'d fp \<Rightarrow> 'd list \<Rightarrow> 'd cjson" where
  "cJSON_CreateDoubleArray f numbers = CJ (node (cJSON_CreateArray f)) (map (cJSON_CreateNumber f) numbers)"

definition cJSON_CreateStringArray :: "'d fp \<Rightarrow> string list \<Rightarrow> 'd cjson" where
  "cJSON_CreateStringArray f strings =
     CJ (node (cJSON_CreateArray f)) (map (\<lambda>s. cJSON_CreateString f (Some s)) strings)"

definition clear_reference :: "int \<Rightarrow> int" where
  "clear_reference t = (if t div 256 mod 2 = 1 then t - cJSON_IsReference else t)"

fun cJSON_Duplicate :: "'d cjson \<Rightarrow> bool \<Rightarrow> 'd cjson" where
  "cJSON_Duplicate (CJ item cs) recurse =
     CJ (item\<lparr>jtype := clear_reference (jtype item)\<rparr>) (if recurse then map (\<lambda>c. cJSON_Duplicate c True) cs else [])"

end
