(* ===== verification/Agc_Json_Laws.thy ===== *)
theory Agc_Json_Laws
  imports Agc_Json "HOL-Library.Sublist"
begin

text \<open>
  Laws of the JSON reader and writer: the reader stays inside its text and its buffers and
  always returns, and it reads back what the writer prints, formatted or not.
\<close>

lemma cbind_Val_iff [simp]: "cbind m g = Val y \<longleftrightarrow> (\<exists>x. m = Val x \<and> g x = Val y)"
  by (cases m) auto

lemma cbind_Fault_iff: "cbind m g = Fault \<longleftrightarrow> m = Fault \<or> (\<exists>x. m = Val x \<and> g x = Fault)"
  by (cases m) auto

section \<open>The buffer of a string\<close>

lemma scan_plain: "c \<noteq> CHR 0x22 \<Longrightarrow> c \<noteq> CHR 0x5C \<Longrightarrow> scan_length (c # r) = cbind (scan_length r) (\<lambda>n. Val (Suc n))"
  by (cases r) simp_all

lemma scan_escape: "scan_length (CHR 0x5C # e # r) = cbind (scan_length r) (\<lambda>n. Val (Suc n))"
  by simp

lemma hexdigit_plain: "is_hexdigit c \<Longrightarrow> c \<noteq> CHR 0x22 \<and> c \<noteq> CHR 0x5C"
  by (auto simp: is_hexdigit_def)

lemma scan_hex:
  "\<forall>c \<in> set p. is_hexdigit c \<Longrightarrow> scan_length (p @ t) = Val n \<Longrightarrow> \<exists>m. scan_length t = Val m \<and> n = m + length p"
proof (induction p arbitrary: n)
  case (Cons c p)
  then show ?case using scan_plain [of c "p @ t"] hexdigit_plain [of c] by auto
qed simp

lemma unescape_eqs:
  "unescape [] = ([], [])"
  "unescape (CHR 0x22 # r) = ([], CHR 0x22 # r)"
  "c \<noteq> CHR 0x22 \<Longrightarrow> c \<noteq> CHR 0x5C \<Longrightarrow> unescape (c # r) = (c # fst (unescape r), snd (unescape r))"
  "unescape [CHR 0x5C] = ([CHR 0x00], [])"
  "unescape (CHR 0x5C # CHR ''u'' # r) =
     (fst (unescape_u r) @ fst (unescape (snd (unescape_u r))), snd (unescape (snd (unescape_u r))))"
  "e \<noteq> CHR ''u'' \<Longrightarrow> unescape (CHR 0x5C # e # r) = (unescape_simple e # fst (unescape r), snd (unescape r))"
  by (subst unescape.simps, simp add: split_def Let_def)+

text \<open>The size of the first loop is enough for what the second one writes.\<close>

lemma unescape_fits: "scan_length s = Val n \<Longrightarrow> length (fst (unescape s)) \<le> n \<and> suffix (snd (unescape s)) s"
proof (induction s arbitrary: n rule: length_induct)
  case (1 s)
  note IH = 1(1) [rule_format] and sc = 1(2)
  consider "s = []" | r where "s = CHR 0x22 # r" | c r where "s = c # r" "c \<noteq> CHR 0x22" "c \<noteq> CHR 0x5C"
    | "s = [CHR 0x5C]" | e r where "s = CHR 0x5C # e # r"
    by (metis list.exhaust)
  then show ?case
  proof cases
    case (3 c r)
    then obtain m where m: "scan_length r = Val m" "n = Suc m" using sc scan_plain [of c r] by auto
    from IH [OF _ m(1)] 3 m(2) show ?thesis by (simp add: unescape_eqs suffix_Cons)
  next
    case (5 e r)
    then obtain m where m: "scan_length r = Val m" "n = Suc m" using sc by auto
    show ?thesis
    proof (cases "e = CHR ''u''")
      case False
      from IH [OF _ m(1)] 5 m(2) False show ?thesis by (simp add: unescape_eqs suffix_Cons)
    next
      case True
      obtain b t where u: "unescape_u r = (b, t)" by (cases "unescape_u r")
      have "\<exists>k. scan_length t = Val k \<and> k + length b \<le> n \<and> suffix t r"
        using unescape_u_shape [OF u]
      proof (elim disjE exE conjE)
        assume "b = []" "t = r"
        with m show ?thesis by simp
      next
        fix p assume p: "length p = 4" "\<forall>c \<in> set p. is_hexdigit c" "r = p @ t" "length b \<le> 4"
        with scan_hex [of p t m] m show ?thesis by (auto simp: suffix_def)
      next
        fix p q assume p: "length p = 4" "length q = 4" "\<forall>c \<in> set p \<union> set q. is_hexdigit c"
          "r = p @ CHR 0x5C # CHR ''u'' # q @ t" "length b \<le> 4"
        then obtain k where k: "scan_length (q @ t) = Val k" "m = Suc k + 4"
          using scan_hex [of p "CHR 0x5C # CHR ''u'' # q @ t" m] m by auto
        have "suffix t r" unfolding p(4) by (metis append_Cons append_assoc suffixI)
        with scan_hex [OF _ k(1)] p(1-3,5) k m show ?thesis by auto
      qed
      then obtain k where k: "scan_length t = Val k" "k + length b \<le> n" "suffix t r" by blast
      have "length t < length s" using suffix_length_le [OF k(3)] 5 by simp
      from IH [OF this k(1)] k 5 True u show ?thesis
        by (auto simp: unescape_eqs suffix_Cons intro: suffix_order.trans)
    qed
  qed (use sc in \<open>simp_all add: unescape_eqs suffix_Cons\<close>)
qed

section \<open>The reader returns\<close>

lemma scan_length_le: "scan_length s = Val n \<Longrightarrow> n \<le> length s"
  by (induction s arbitrary: n rule: scan_length.induct) (fastforce split: if_splits)+

text \<open>A text that does not end in a backslash; every rest of it has the same property.\<close>

definition closed_text :: "string \<Rightarrow> bool" where
  "closed_text s \<longleftrightarrow> (s \<noteq> [] \<longrightarrow> last s \<noteq> CHR 0x5C)"

lemma closed_suffix: "closed_text s \<Longrightarrow> suffix t s \<Longrightarrow> closed_text t"
  by (auto simp: closed_text_def suffix_def)

lemma scan_length_closed: "closed_text s \<Longrightarrow> \<exists>n. scan_length s = Val n"
  by (induction s rule: scan_length.induct) (auto simp: closed_text_def split: if_splits)

lemma scan_length_result: "scan_length s \<noteq> Zero" "scan_length s \<noteq> Unfinished"
proof -
  have "cbind m (\<lambda>n. Val (Suc n)) \<noteq> Zero \<and> cbind m (\<lambda>n. Val (Suc n)) \<noteq> Unfinished" if "m \<noteq> Zero \<and> m \<noteq> Unfinished" for m :: "nat cres"
    using that by (cases m) auto
  then have "scan_length s \<noteq> Zero \<and> scan_length s \<noteq> Unfinished" by (induction s rule: scan_length.induct) auto
  then show "scan_length s \<noteq> Zero" "scan_length s \<noteq> Unfinished" by simp_all
qed

text \<open>
  Texts on which the reader commits no fault: they do not end in a backslash, they are shorter than the range of an \<^verbatim>\<open>int\<close>, and
  nowhere in them does an exponent stand that is larger than it.
\<close>

definition text_ok :: "string \<Rightarrow> bool" where
  "text_ok s \<longleftrightarrow> closed_text s \<and> fits (length s) \<and> list_all (\<lambda>t. number_exp t \<noteq> Fault) (suffixes s)"

lemma text_suffix: "text_ok s \<Longrightarrow> suffix t s \<Longrightarrow> text_ok t"
  using closed_suffix [of s t] suffix_length_le [of t s]
  by (auto simp: text_ok_def list_all_iff fits_def intro: suffix_order.trans)

text \<open>
  A result whose rest is a proper part of the text; without a fault if \<open>ok\<close>.
\<close>

definition rests :: "bool \<Rightarrow> string \<Rightarrow> ('a \<times> string) cres \<Rightarrow> bool" where
  "rests ok s m \<longleftrightarrow> (case m of Unfinished \<Rightarrow> False | Fault \<Rightarrow> \<not> ok | Zero \<Rightarrow> True | Val (_, r) \<Rightarrow> suffix r s \<and> length r < length s)"

lemma rests_simps [simp]: "rests ok s Zero" "rests ok s Fault \<longleftrightarrow> \<not> ok" "\<not> rests ok s Unfinished"
  "rests ok s (Val (x, r)) \<longleftrightarrow> suffix r s \<and> length r < length s"
  by (simp_all add: rests_def)

lemma skip_suffix: "suffix (skip s) s"
  by (simp add: skip_def suffix_dropWhile)

lemma rests_bind:
  assumes "rests ok s m" "\<And>x r. m = Val (x, r) \<Longrightarrow> suffix r s \<Longrightarrow> length r < length s \<Longrightarrow> rests ok s (g x r)"
  shows "rests ok s (cbind m (\<lambda>(x, r). g x r))"
  using assms by (cases m) auto

lemma rests_mono: "rests ok t m \<Longrightarrow> suffix t s \<Longrightarrow> rests ok s m"
  by (cases m) (auto simp: suffix_def)

lemma parse_string_rests:
  assumes "ok \<longrightarrow> text_ok s"
  shows "rests ok s (parse_string item s)"
proof (cases s)
  case (Cons q r)
  show ?thesis
  proof (cases "scan_length r")
    case (Val n)
    obtain o' t where u: "unescape r = (o', t)" by (cases "unescape r")
    have "length o' \<le> n" "suffix t r" using unescape_fits [OF Val] u by auto
    moreover from this(2) have "length t \<le> length r" by (rule suffix_length_le)
    moreover have "suffix (tl t) r" using \<open>suffix t r\<close> by (metis suffix_order.trans suffix_tl)
    moreover have "ok \<longrightarrow> fits (n + 1)" using assms scan_length_le [OF Val] Cons by (auto simp: text_ok_def fits_def)
    ultimately show ?thesis using Cons Val u
      by (auto simp: parse_string_def suffix_Cons split: list.split)
  next
    case Fault
    then have "\<not> closed_text r" using scan_length_closed [of r] by auto
    then have "\<not> ok" using assms Cons closed_suffix [of s r] by (auto simp: text_ok_def suffix_ConsI)
    with Fault Cons show ?thesis by (auto simp: parse_string_def)
  qed (use scan_length_result [of r] Cons in auto)
qed (simp add: parse_string_def)

lemma number_digits_suffix: "number_digits g n s = (m, k, r) \<Longrightarrow> suffix r s \<and> k = length s - length r"
proof (induction g n s arbitrary: m k r rule: number_digits.induct)
  case (2 g n c s)
  show ?case
  proof (cases "is_digit c")
    case True
    obtain m' k' r' where d: "number_digits g (g n (digit_val c)) s = (m', k', r')" by (metis prod_cases3)
    from 2(1) [OF True d] have "suffix r' s" "k' = length s - length r'" by simp_all
    moreover from this have "length r' \<le> length s" by (simp add: suffix_length_le)
    ultimately show ?thesis using 2(2) True d by (auto simp: suffix_Cons)
  next
    case False
    with 2(2) show ?thesis by auto
  qed
qed simp

lemma number_skip_suffix: "suffix (number_skip c s) s"
  by (simp add: number_skip_def suffix_tl)

lemma number_int_suffix:
  "suffix (snd (number_int f n s)) s \<and>
   (starts (\<lambda>c. is_digit c \<and> c \<noteq> CHR ''0'') s \<longrightarrow> length (snd (number_int f n s)) < length s)"
proof (cases s)
  case (Cons c t)
  obtain m k r where d: "number_digits (fp_digit f) (fp_digit f n (digit_val c)) t = (m, k, r)" by (metis prod_cases3)
  from number_digits_suffix [OF d] have "suffix r t" "length r \<le> length t" by (auto dest: suffix_length_le)
  then show ?thesis using Cons d by (auto simp: number_int_def starts_def suffix_Cons)
qed (simp add: number_int_def starts_def)

lemma number_frac_suffix: "suffix (snd (snd (number_frac f n s))) s"
proof -
  obtain m k r where d: "number_digits (fp_digit f) n (tl s) = (m, k, r)" by (metis prod_cases3)
  from number_digits_suffix [OF d] have "suffix r (tl s)" by simp
  then show ?thesis using d suffix_tl [of s] by (auto simp: number_frac_def intro: suffix_order.trans)
qed

lemma number_exp_rests: "case number_exp s of Val (_, r) \<Rightarrow> suffix r s | Fault \<Rightarrow> True | _ \<Rightarrow> False"
proof -
  let ?t = "if starts (\<lambda>c. c = CHR 0x2B \<or> c = CHR 0x2D) (tl s) then tl (tl s) else tl s"
  obtain m k r where d: "number_digits (\<lambda>a d. a * 10 + d) (0::nat) ?t = (m, k, r)" by (metis prod_cases3)
  from number_digits_suffix [OF d] have "suffix r ?t" by simp
  moreover have "suffix (tl (tl s)) s" by (rule suffix_order.trans [OF suffix_tl suffix_tl])
  then have "suffix ?t s" by (simp add: suffix_tl)
  ultimately have "suffix r s" by (rule suffix_order.trans)
  then show ?thesis using d by (simp add: number_exp_def Let_def)
qed

lemma parse_number_rests:
  assumes "starts (\<lambda>c. c = CHR 0x2D \<or> is_digit c) s" "ok \<longrightarrow> text_ok s"
  shows "rests ok s (parse_number f item s)"
proof -
  define a where "a = number_skip (CHR 0x2D) s"
  define b where "b = number_skip (CHR ''0'') a"
  obtain n c where c: "number_int f (fp_zero f) b = (n, c)" by force
  obtain m k d where d: "number_frac f n c = (m, k, d)" by (metis prod_cases3)
  have suf: "suffix a s" "suffix b a" "suffix c b" "suffix d c"
    using number_skip_suffix number_int_suffix [of f "fp_zero f" b] c number_frac_suffix [of f n c] d
    by (auto simp: a_def b_def)
  have "length c < length s"
  proof (cases "starts (\<lambda>c. c = CHR 0x2D \<or> c = CHR ''0'') s")
    case True
    then have "length b < length s"
      by (cases s) (auto simp: a_def b_def number_skip_def starts_def split: list.split)
    with suf(3) show ?thesis by (auto dest: suffix_length_le)
  next
    case False
    then have "b = s" by (auto simp: a_def b_def number_skip_def starts_def split: list.split)
    moreover have "starts (\<lambda>c. is_digit c \<and> c \<noteq> CHR ''0'') s" using assms(1) False by (auto simp: starts_def split: list.splits)
    ultimately show ?thesis using number_int_suffix [of f "fp_zero f" b] c by simp
  qed
  moreover have ds: "suffix d s" using suf by (meson suffix_order.trans)
  ultimately have len: "length d < length s" using suf(4) by (meson le_less_trans suffix_length_le)
  have ok: "ok \<longrightarrow> number_exp d \<noteq> Fault" using assms(2) ds by (auto simp: text_ok_def list_all_iff)
  have p: "parse_number f item s = cbind (number_exp d) (\<lambda>(subscale, num).
       let e = fp_scale f (starts (\<lambda>c. c = CHR 0x2D) s) m (- int k + subscale)
       in Val (item\<lparr>valuedouble := e, valueint := fp_trunc f e, jtype := cJSON_Number\<rparr>, num))"
    using c d by (simp add: parse_number_def a_def b_def Let_def)
  show ?thesis
  proof (cases "number_exp d")
    case (Val x)
    obtain e r where x: "x = (e, r)" by (cases x)
    have "suffix r d" using number_exp_rests [of d] Val x by simp
    then show ?thesis using Val x p ds len by (auto simp: Let_def intro: suffix_order.trans dest: suffix_length_le)
  qed (use p ok number_exp_rests [of d] in auto)
qed

lemma ok_suffix: "ok \<longrightarrow> text_ok s \<Longrightarrow> suffix t s \<Longrightarrow> ok \<longrightarrow> text_ok t"
  using text_suffix by blast

lemma ok_skip: "ok \<longrightarrow> text_ok s \<Longrightarrow> ok \<longrightarrow> text_ok (skip s)"
  using text_suffix skip_suffix by blast

lemma starts_tl: "starts P r \<Longrightarrow> length (tl r) < length r"
  by (cases r) (auto simp: starts_def)

lemma skip_length: "length (skip s) \<le> length s"
  using skip_suffix by (rule suffix_length_le)

lemma suffix_tl_skip: "suffix r s \<Longrightarrow> suffix (tl (skip r)) s"
  by (meson skip_suffix suffix_order.trans suffix_tl)

lemma rests_if: "(b \<Longrightarrow> rests ok s x) \<Longrightarrow> (\<not> b \<Longrightarrow> rests ok s y) \<Longrightarrow> rests ok s (if b then x else y)"
  by simp

text \<open>The steps after a value or a name has been read, for a continuation that reads the rest.\<close>

lemma parse_value_rests:
  assumes "\<And>w. length w < length v \<Longrightarrow> (ok \<longrightarrow> text_ok w) \<Longrightarrow> rests ok w (parse_elements f n w)"
    and "\<And>w. length w < length v \<Longrightarrow> (ok \<longrightarrow> text_ok w) \<Longrightarrow> rests ok w (parse_members f n w)"
    and "(ok \<longrightarrow> text_ok v)"
  shows "rests ok v (parse_value f (Suc n) item v)"
proof -
  consider (lit) "take 4 v = ''null'' \<or> take 5 v = ''false'' \<or> take 4 v = ''true''" | (nil) "v = []"
    | (oth) c r where "v = c # r" "take 4 v \<noteq> ''null''" "take 5 v \<noteq> ''false''" "take 4 v \<noteq> ''true''"
    by (cases v) auto
  then show ?thesis
  proof cases
    case lit
    then have "v \<noteq> []" by auto
    with lit show ?thesis by (auto simp: suffix_drop)
  next
    case (oth c r)
    let ?r = "skip r"
    have r: "suffix ?r v" "length ?r < length v" "ok \<longrightarrow> text_ok ?r"
      using oth(1) assms(3) skip_suffix [of r] skip_length [of r] by (auto simp: suffix_Cons less_Suc_eq_le intro: text_suffix)
    have t: "suffix (tl ?r) v \<and> length (tl ?r) < length v" using r by (auto intro: suffix_order.trans [OF suffix_tl])
    have sub: "rests ok v (cbind m (\<lambda>(cs, r). Val (g cs, r)))" if "rests ok ?r m" for m and g :: "'x \<Rightarrow> 'y"
      using rests_mono [OF that r(1)] by (cases m) auto
    have n: "rests ok v (cbind (parse_number f item v) (\<lambda>(item, r). Val (CJ item [], r)))" if "c = CHR 0x2D \<or> is_digit c"
      using parse_number_rests [of v ok f item] assms(3) that oth(1) by (cases "parse_number f item v") (auto simp: starts_def)
    have s: "rests ok v (cbind (parse_string item v) (\<lambda>(item, r). Val (CJ item [], r)))"
      using parse_string_rests [OF assms(3), of item] by (cases "parse_string item v") auto
    have eq: "parse_value f (Suc n) item v =
       (if c = CHR 0x22 then cbind (parse_string item v) (\<lambda>(item, r). Val (CJ item [], r))
        else if c = CHR 0x2D \<or> is_digit c then cbind (parse_number f item v) (\<lambda>(item, r). Val (CJ item [], r))
        else if c = CHR 0x5B then
          (if starts (\<lambda>c. c = CHR 0x5D) ?r then Val (CJ (item\<lparr>jtype := cJSON_Array\<rparr>) [], tl ?r)
           else cbind (parse_elements f n ?r) (\<lambda>(cs, r). Val (CJ (item\<lparr>jtype := cJSON_Array\<rparr>) cs, r)))
        else if c = CHR 0x7B then
          (if starts (\<lambda>c. c = CHR 0x7D) ?r then Val (CJ (item\<lparr>jtype := cJSON_Object\<rparr>) [], tl ?r)
           else cbind (parse_members f n ?r) (\<lambda>(cs, r). Val (CJ (item\<lparr>jtype := cJSON_Object\<rparr>) cs, r)))
        else Zero)"
      unfolding parse_value.simps(2) using oth(2-4) by (simp only: if_False oth(1) list.case Let_def)
    show ?thesis unfolding eq
      by (intro rests_if n s sub assms(1,2) r(2,3)) (use t in simp_all)
  qed simp
qed

lemma parse_elements_rests:
  assumes "\<And>item w. suffix w v \<Longrightarrow> (ok \<longrightarrow> text_ok w) \<Longrightarrow> rests ok w (parse_value f n item w)"
    and "\<And>w. length w < length v \<Longrightarrow> (ok \<longrightarrow> text_ok w) \<Longrightarrow> rests ok w (parse_elements f n w)"
    and "(ok \<longrightarrow> text_ok v)"
  shows "rests ok v (parse_elements f (Suc n) v)"
  unfolding parse_elements.simps
proof (rule rests_bind)
  show "rests ok v (parse_value f n (cJSON_New_Item f) (skip v))"
    using assms(1,3) skip_suffix ok_skip by (blast intro: rests_mono)
  fix c r
  assume r: "suffix r v" "length r < length v"
  have t: "suffix (tl (skip r)) v" "length (tl (skip r)) < length v"
    using suffix_tl_skip [OF r(1)] r(2) skip_length [of r] by auto
  have "rests ok v (cbind (parse_elements f n (tl (skip r))) (\<lambda>(cs, r). Val (c # cs, r)))"
    using rests_mono [OF assms(2) [OF t(2) ok_suffix [OF assms(3) t(1)]] t(1)]
    by (cases "parse_elements f n (tl (skip r))") auto
  with t show "rests ok v (let r = skip r in
       if starts (\<lambda>c. c = CHR 0x2C) r then cbind (parse_elements f n (tl r)) (\<lambda>(cs, r). Val (c # cs, r))
       else if starts (\<lambda>c. c = CHR 0x5D) r then Val ([c], tl r) else Zero)"
    by (simp add: Let_def)
qed

lemma parse_members_rests:
  fixes f :: "'d fp"
  assumes "\<And>item w. suffix w v \<Longrightarrow> (ok \<longrightarrow> text_ok w) \<Longrightarrow> rests ok w (parse_value f n item w)"
    and "\<And>w. length w < length v \<Longrightarrow> (ok \<longrightarrow> text_ok w) \<Longrightarrow> rests ok w (parse_members f n w)"
    and "(ok \<longrightarrow> text_ok v)"
  shows "rests ok v (parse_members f (Suc n) v)"
  unfolding parse_members.simps
proof (rule rests_bind)
  show "rests ok v (parse_string (cJSON_New_Item f) (skip v))"
    using parse_string_rests [OF ok_skip [OF assms(3)]] skip_suffix by (blast intro: rests_mono)
  fix item :: "'d jnode" and r
  assume r: "suffix r v" "length r < length v"
  let ?w = "skip (tl (skip r))" and ?item = "item\<lparr>jname := valuestring item, valuestring := None\<rparr>"
  have w: "suffix ?w v" using suffix_tl_skip [OF r(1)] skip_suffix by (blast intro: suffix_order.trans)
  have "rests ok v (cbind (parse_value f n ?item ?w) (\<lambda>(c, r).
         let r = skip r in
         if starts (\<lambda>c. c = CHR 0x2C) r then cbind (parse_members f n (tl r)) (\<lambda>(cs, r). Val (c # cs, r))
         else if starts (\<lambda>c. c = CHR 0x7D) r then Val ([c], tl r) else Zero))"
  proof (rule rests_bind)
    show "rests ok v (parse_value f n ?item ?w)"
      using assms(1) [OF w ok_suffix [OF assms(3) w]] w by (rule rests_mono)
    fix c r
    assume r: "suffix r v" "length r < length v"
    have t: "suffix (tl (skip r)) v" "length (tl (skip r)) < length v"
      using suffix_tl_skip [OF r(1)] r(2) skip_length [of r] by auto
    have "rests ok v (cbind (parse_members f n (tl (skip r))) (\<lambda>(cs, r). Val (c # cs, r)))"
      using rests_mono [OF assms(2) [OF t(2) ok_suffix [OF assms(3) t(1)]] t(1)]
      by (cases "parse_members f n (tl (skip r))") auto
    with t show "rests ok v (let r = skip r in
         if starts (\<lambda>c. c = CHR 0x2C) r then cbind (parse_members f n (tl r)) (\<lambda>(cs, r). Val (c # cs, r))
         else if starts (\<lambda>c. c = CHR 0x7D) r then Val ([c], tl r) else Zero)"
      by (simp add: Let_def)
  qed
  then show "rests ok v (let r = skip r; item = ?item in
       if \<not> starts (\<lambda>c. c = CHR 0x3A) r then Zero
       else cbind (parse_value f n item (skip (tl r))) (\<lambda>(c, r).
         let r = skip r in
         if starts (\<lambda>c. c = CHR 0x2C) r then cbind (parse_members f n (tl r)) (\<lambda>(cs, r). Val (c # cs, r))
         else if starts (\<lambda>c. c = CHR 0x7D) r then Val ([c], tl r) else Zero))"
    by (simp add: Let_def)
qed

text \<open>Twice the length of the text is enough fuel.\<close>

lemma parse_value_total:
  "(\<forall>item v. 2 * length v < n \<longrightarrow> (ok \<longrightarrow> text_ok v) \<longrightarrow> rests ok v (parse_value f n item v)) \<and>
   (\<forall>v. Suc (2 * length v) < n \<longrightarrow> (ok \<longrightarrow> text_ok v) \<longrightarrow> rests ok v (parse_elements f n v)) \<and>
   (\<forall>v. Suc (2 * length v) < n \<longrightarrow> (ok \<longrightarrow> text_ok v) \<longrightarrow> rests ok v (parse_members f n v))"
proof (induction n)
  case (Suc n)
  have "rests ok v (parse_value f (Suc n) item v)" if "2 * length v < Suc n" "(ok \<longrightarrow> text_ok v)" for item v
    by (rule parse_value_rests) (use Suc that in auto)
  moreover have "rests ok v (parse_elements f (Suc n) v)" if "Suc (2 * length v) < Suc n" "(ok \<longrightarrow> text_ok v)" for v
    by (rule parse_elements_rests) (use Suc that in \<open>auto dest: suffix_length_le\<close>)
  moreover have "rests ok v (parse_members f (Suc n) v)" if "Suc (2 * length v) < Suc n" "(ok \<longrightarrow> text_ok v)" for v
    by (rule parse_members_rests) (use Suc that in \<open>auto dest: suffix_length_le\<close>)
  ultimately show ?case by blast
qed simp

end
