(* ===== verification/Agc_Json_Roundtrip.thy ===== *)
theory Agc_Json_Roundtrip
  imports Agc_Json_Laws
begin

text \<open>
  The abstract JSON values behind the items, and the round trip: what the writer prints for
  an item, formatted or not, the reader reads back as an item with the same value.
\<close>

section \<open>Values\<close>

datatype jval = JNull | JBool bool | JInt int | JStr string | JArr "jval list" | JObj "(string \<times> jval) list"

fun jval_of :: "'d fp \<Rightarrow> 'd cjson \<Rightarrow> jval option"
and jvals_of :: "'d fp \<Rightarrow> 'd cjson list \<Rightarrow> jval list option"
and jmembers_of :: "'d fp \<Rightarrow> 'd cjson list \<Rightarrow> (string \<times> jval) list option" where
  "jval_of f (CJ it cs) =
     (if jtype it = cJSON_NULL then Some JNull
      else if jtype it = cJSON_False then Some (JBool False)
      else if jtype it = cJSON_True then Some (JBool True)
      else if jtype it = cJSON_Number then
        (if valuedouble it = fp_of_int f (valueint it) \<and> - (2 ^ 31) \<le> valueint it \<and> valueint it < 2 ^ 31
         then Some (JInt (valueint it)) else None)
      else if jtype it = cJSON_String then
        (case valuestring it of Some s \<Rightarrow> if CHR 0x00 \<in> set s then None else Some (JStr s) | None \<Rightarrow> None)
      else if jtype it = cJSON_Array then map_option JArr (jvals_of f cs)
      else if jtype it = cJSON_Object then map_option JObj (jmembers_of f cs)
      else None)"
| "jvals_of f [] = Some []"
| "jvals_of f (c # cs) = do { v \<leftarrow> jval_of f c; vs \<leftarrow> jvals_of f cs; Some (v # vs) }"
| "jmembers_of f [] = Some []"
| "jmembers_of f (c # cs) =
     (case jname (node c) of
        None \<Rightarrow> None
      | Some k \<Rightarrow> if CHR 0x00 \<in> set k then None
                  else do { v \<leftarrow> jval_of f c; ms \<leftarrow> jmembers_of f cs; Some ((k, v) # ms) })"

text \<open>
  What the arithmetic of \<^verbatim>\<open>double\<close> promises for integers of 32 bits: they are represented
  exactly, adding a digit to one is exact, and converting back truncates to the integer.
\<close>

definition fp_exact :: "'d fp \<Rightarrow> bool" where
  "fp_exact f \<longleftrightarrow> fp_zero f = fp_of_int f 0 \<and>
     (\<forall>n d. n * 10 + d \<le> 2 ^ 31 \<longrightarrow> fp_digit f (fp_of_int f (int n)) d = fp_of_int f (int (n * 10 + d))) \<and>
     (\<forall>n. n \<le> 2 ^ 31 \<longrightarrow> fp_scale f False (fp_of_int f (int n)) 0 = fp_of_int f (int n)) \<and>
     (\<forall>n. 0 < n \<longrightarrow> n \<le> 2 ^ 31 \<longrightarrow> fp_scale f True (fp_of_int f (int n)) 0 = fp_of_int f (- int n)) \<and>
     (\<forall>i. - (2 ^ 31) \<le> i \<longrightarrow> i < 2 ^ 31 \<longrightarrow> fp_trunc f (fp_of_int f i) = i \<and> fp_near_int f (fp_of_int f i) i)"

lemma fp_exactD:
  assumes "fp_exact f"
  shows "fp_zero f = fp_of_int f 0"
    "n * 10 + d \<le> 2 ^ 31 \<Longrightarrow> fp_digit f (fp_of_int f (int n)) d = fp_of_int f (int (n * 10 + d))"
    "n \<le> 2 ^ 31 \<Longrightarrow> fp_scale f False (fp_of_int f (int n)) 0 = fp_of_int f (int n)"
    "0 < n \<Longrightarrow> n \<le> 2 ^ 31 \<Longrightarrow> fp_scale f True (fp_of_int f (int n)) 0 = fp_of_int f (- int n)"
    "- (2 ^ 31) \<le> i \<Longrightarrow> i < 2 ^ 31 \<Longrightarrow> fp_trunc f (fp_of_int f i) = i"
    "- (2 ^ 31) \<le> i \<Longrightarrow> i < 2 ^ 31 \<Longrightarrow> fp_near_int f (fp_of_int f i) i"
  using assms unfolding fp_exact_def by blast+

text \<open>
  Items that are small enough to be printed: neither the size of a string or a name nor the number of entries nor the depth of nesting
  overflows an \<^verbatim>\<open>int\<close>.
\<close>

definition string_fits :: "string option \<Rightarrow> bool" where
  "string_fits s \<longleftrightarrow> (case s of None \<Rightarrow> True | Some s \<Rightarrow> fits (print_string_size s + 3))"

fun item_fits :: "nat \<Rightarrow> 'd cjson \<Rightarrow> bool" where
  "item_fits depth (CJ it cs) \<longleftrightarrow> string_fits (valuestring it) \<and> fits (length cs) \<and> fits (depth + 3) \<and>
     (\<forall>c \<in> set cs. string_fits (jname (node c)) \<and> item_fits (Suc depth) c)"

section \<open>Strings\<close>

lemma print_char_length:
  "length (print_char c) = (if c \<in> {CHR 0x22, CHR 0x5C, CHR 0x08, CHR 0x0C, CHR 0x0A, CHR 0x0D, CHR 0x09} then 2
     else if (of_char c :: nat) < 32 then 6 else 1)"
  by (simp add: print_char_def)

lemma print_string_fits: "length (concat (map print_char s)) = print_string_size s"
  by (induction s) (simp_all add: print_string_size_def print_char_length del: insert_iff)

lemma print_string_Val: "string_fits (Some s) \<Longrightarrow> print_string_ptr (Some s) = Val (CHR 0x22 # concat (map print_char s) @ [CHR 0x22])"
  by (simp add: print_string_ptr_def print_string_fits string_fits_def Let_def)

lemma hex_digit_facts: "k < 16 \<Longrightarrow> is_hexdigit (hex_digit k) \<and> hex_val (hex_digit k) = k"
  by (auto simp: hex_digit_def is_hexdigit_def hex_val_def Let_def)

lemma unescape_u_control:
  assumes "n < 32" "n \<noteq> 0"
  shows "unescape_u (CHR ''0'' # CHR ''0'' # hex_digit (n div 16) # hex_digit (n mod 16) # t) = ([char_of n], t)"
proof -
  have h: "is_hexdigit (CHR ''0'')" "hex_val (CHR ''0'') = 0" by (simp_all add: is_hexdigit_def hex_val_def)
  have "n div 16 < 16" "n mod 16 < 16" using assms by simp_all
  then have "scan_unicode (CHR ''0'' # CHR ''0'' # hex_digit (n div 16) # hex_digit (n mod 16) # t) = Some (of_nat n)"
    using hex_digit_facts h by (simp add: scan_unicode_def mult.commute)
  moreover have "unat (of_nat n :: u32) = n" using assms by (simp add: unat_of_nat)
  moreover from this have "(of_nat n :: u32) \<noteq> 0" using assms by (metis unat_0)
  ultimately show ?thesis using assms
    by (simp add: unescape_u_def Let_def word_le_nat_alt word_less_nat_alt utf8_encode_def byte_of_def)
qed

lemma print_char_cases:
  assumes "c \<noteq> CHR 0x00"
  obtains (plain) "print_char c = [c]" "c \<noteq> CHR 0x22" "c \<noteq> CHR 0x5C"
    | (escape) e where "print_char c = [CHR 0x5C, e]" "e \<noteq> CHR ''u''" "unescape_simple e = c"
    | (control) n where "print_char c = CHR 0x5C # CHR ''u'' # CHR ''0'' # CHR ''0'' # [hex_digit (n div 16), hex_digit (n mod 16)]"
        "n < 32" "n \<noteq> 0" "c = char_of n"
proof -
  have z: "char_of (0 :: nat) = CHR 0x00" by (simp add: char_of_def)
  consider "31 < (of_char c :: nat)" "c \<noteq> CHR 0x22" "c \<noteq> CHR 0x5C"
    | "c \<in> {CHR 0x22, CHR 0x5C, CHR 0x08, CHR 0x0C, CHR 0x0A, CHR 0x0D, CHR 0x09}"
    | "c \<notin> {CHR 0x22, CHR 0x5C, CHR 0x08, CHR 0x0C, CHR 0x0A, CHR 0x0D, CHR 0x09}" "(of_char c :: nat) < 32"
    by fastforce
  then show thesis
  proof cases
    case 1
    then show thesis by (intro plain) (simp_all add: print_char_def)
  next
    case 2
    then have "\<exists>e. print_char c = [CHR 0x5C, e] \<and> e \<noteq> CHR ''u'' \<and> unescape_simple e = c"
      by (auto simp: print_char_def unescape_simple_def)
    then show thesis using escape by blast
  next
    case 3
    have "(of_char c :: nat) \<noteq> 0" using assms z by (metis char_of_char)
    with 3 show thesis by (intro control [of "of_char c"]) (simp_all add: print_char_def)
  qed
qed

lemma unescape_print_char:
  assumes "c \<noteq> CHR 0x00"
  shows "unescape (print_char c @ t) = (c # fst (unescape t), snd (unescape t))"
  using assms
proof (cases c rule: print_char_cases)
  case (control n)
  then show ?thesis using unescape_u_control [of n t] by (simp add: unescape_eqs)
qed (simp_all add: unescape_eqs)

lemma scan_print_char:
  "c \<noteq> CHR 0x00 \<Longrightarrow> \<exists>k. k \<le> length (print_char c) \<and> scan_length (print_char c @ t) = cbind (scan_length t) (\<lambda>n. Val (n + k))"
proof -
  have h: "scan_length (p @ t) = cbind (scan_length t) (\<lambda>n. Val (n + length p))" if "\<forall>c \<in> set p. is_hexdigit c" for p
    using that
  proof (induction p)
    case Nil
    then show ?case by (cases "scan_length t") simp_all
  next
    case (Cons c p)
    then show ?case using scan_plain [of c "p @ t"] hexdigit_plain [of c] by (cases "scan_length t") simp_all
  qed
  assume "c \<noteq> CHR 0x00"
  then show ?thesis
  proof (cases c rule: print_char_cases)
    case plain
    then show ?thesis using scan_plain [of c t] by (intro exI [of _ 1]) simp
  next
    case (escape e)
    then show ?thesis by (intro exI [of _ 1]) simp
  next
    case (control n)
    have "is_hexdigit (CHR ''0'')" by (simp add: is_hexdigit_def)
    moreover have "n div 16 < 16" "n mod 16 < 16" using control(2) by (simp_all add: div_less_iff_less_mult)
    ultimately have "\<forall>c \<in> set [CHR ''0'', CHR ''0'', hex_digit (n div 16), hex_digit (n mod 16)]. is_hexdigit c"
      using hex_digit_facts by simp
    from h [OF this] show ?thesis unfolding control(1) by (intro exI [of _ 5]) (cases "scan_length t"; simp)
  qed
qed

lemma unescape_print:
  "CHR 0x00 \<notin> set s \<Longrightarrow> unescape (concat (map print_char s) @ CHR 0x22 # r) = (s, CHR 0x22 # r)"
proof (induction s)
  case (Cons c s)
  then have "c \<noteq> CHR 0x00" by auto
  with Cons unescape_print_char [OF this, of "concat (map print_char s) @ CHR 0x22 # r"] show ?case by simp
qed (simp add: unescape_eqs)

lemma scan_print:
  "CHR 0x00 \<notin> set s \<Longrightarrow> \<exists>n. scan_length (concat (map print_char s) @ CHR 0x22 # r) = Val n \<and> n \<le> print_string_size s"
proof (induction s)
  case Nil
  then show ?case by (cases r) simp_all
next
  case (Cons c s)
  then obtain n where n: "scan_length (concat (map print_char s) @ CHR 0x22 # r) = Val n" "n \<le> print_string_size s" by auto
  from Cons.prems scan_print_char [of c "concat (map print_char s) @ CHR 0x22 # r"] n(1) obtain k where
    "k \<le> length (print_char c)" "scan_length (concat (map print_char (c # s)) @ CHR 0x22 # r) = Val (n + k)" by auto
  with n(2) show ?case using print_string_fits [of "c # s"] print_string_fits [of s] by (intro exI [of _ "n + k"]) simp
qed

lemma parse_print_string:
  assumes "CHR 0x00 \<notin> set s" "string_fits (Some s)"
  shows "parse_string item (CHR 0x22 # concat (map print_char s) @ CHR 0x22 # r) =
     Val (item\<lparr>valuestring := Some s, jtype := cJSON_String\<rparr>, r)"
proof -
  from scan_print [OF assms(1)] obtain n where
    n: "scan_length (concat (map print_char s) @ CHR 0x22 # r) = Val n" "n \<le> print_string_size s" by blast
  have "fits (n + 1)" using assms(2) n(2) by (simp add: string_fits_def fits_def)
  with unescape_fits [OF n(1)] unescape_print [OF assms(1)] n(1) show ?thesis by (simp add: parse_string_def)
qed

section \<open>Numbers\<close>

definition stops :: "string \<Rightarrow> bool" where
  "stops r \<longleftrightarrow> \<not> starts (\<lambda>c. is_digit c \<or> c = CHR ''.'' \<or> c = CHR ''e'' \<or> c = CHR ''E'') r"

lemma number_digits_all:
  assumes "\<forall>c \<in> set cs. is_digit c" "\<not> starts is_digit r"
  shows "number_digits g a (cs @ r) = (foldl (\<lambda>a c. g a (digit_val c)) a cs, length cs, r)"
  using assms by (induction cs arbitrary: a) (auto simp: starts_def split: list.splits)

lemma digits_val_ge: "\<forall>c \<in> set cs. is_digit c \<Longrightarrow> a \<le> digits_val a cs"
proof (induction cs arbitrary: a)
  case (Cons c cs)
  have "a \<le> a * 10 + digit_val c" by simp
  also have "\<dots> \<le> digits_val (a * 10 + digit_val c) cs" using Cons by simp
  finally show ?case using Cons.prems by simp
qed simp

lemma fp_digits:
  assumes "fp_exact f" "\<forall>c \<in> set cs. is_digit c" "digits_val a cs \<le> 2 ^ 31"
  shows "foldl (\<lambda>a c. fp_digit f a (digit_val c)) (fp_of_int f (int a)) cs = fp_of_int f (int (digits_val a cs))"
  using assms(2,3)
proof (induction cs arbitrary: a)
  case (Cons c cs)
  have "a * 10 + digit_val c \<le> 2 ^ 31" using digits_val_ge [of cs "a * 10 + digit_val c"] Cons.prems by simp
  then have "fp_digit f (fp_of_int f (int a)) (digit_val c) = fp_of_int f (int (a * 10 + digit_val c))"
    by (rule fp_exactD(2) [OF assms(1)])
  with Cons.IH [of "a * 10 + digit_val c"] Cons.prems show ?case by (simp del: of_nat_add of_nat_mult)
qed simp

lemma nat_str_hd_nonzero: "0 < n \<Longrightarrow> hd (nat_str n) \<noteq> CHR ''0''"
proof (induction n rule: nat_str.induct)
  case (1 n)
  show ?case
  proof (cases "n < 10")
    case True
    have "digit n \<noteq> CHR ''0''"
    proof
      assume "digit n = CHR ''0''"
      then have "(of_char (digit n) :: nat) = 48" by simp
      with digit_of_char [OF True] 1(2) show False by simp
    qed
    with True show ?thesis by (subst nat_str.simps) simp
  next
    case False
    with 1 show ?thesis by (subst nat_str.simps) (simp add: nat_str_ne)
  qed
qed

lemma parse_nat_str:
  assumes "fp_exact f" "stops r" "n \<le> 2 ^ 31"
  shows "number_int f (fp_zero f) (number_skip (CHR ''0'') (nat_str n @ r)) = (fp_of_int f (int n), r)"
proof (cases "n = 0")
  case True
  have "digit 0 = CHR ''0''" by code_simp
  then have "nat_str 0 = [CHR ''0'']" by (subst nat_str.simps) simp
  with True assms(2) fp_exactD(1) [OF assms(1)] show ?thesis
    by (auto simp: number_skip_def number_int_def stops_def starts_def split: list.splits)
next
  case False
  obtain c cs where c: "nat_str n = c # cs" using nat_str_ne by (cases "nat_str n") auto
  have d: "is_digit c" "c \<noteq> CHR ''0''" using nat_str_hd [of n] nat_str_hd_nonzero [of n] False c by simp_all
  have ns: "\<not> starts is_digit r" using assms(2) by (auto simp: stops_def starts_def split: list.splits)
  have "foldl (\<lambda>a c. fp_digit f a (digit_val c)) (fp_of_int f 0) (nat_str n) = fp_of_int f (int n)"
    using fp_digits [OF assms(1) nat_str_digits, of 0 n] assms(3) by (simp add: digits_val_nat_str)
  then have "number_digits (fp_digit f) (fp_zero f) (nat_str n @ r) = (fp_of_int f (int n), length (nat_str n), r)"
    using number_digits_all [OF nat_str_digits ns, of "fp_digit f" "fp_of_int f 0" n]
    by (simp only: fp_exactD(1) [OF assms(1)])
  with d c show ?thesis by (simp add: number_skip_def number_int_def starts_def)
qed

lemma parse_print_number:
  assumes "fp_exact f" "stops r" "- (2 ^ 31) \<le> i" "i < 2 ^ 31"
  shows "parse_number f item (int_str i @ r) =
     Val (item\<lparr>valuedouble := fp_of_int f i, valueint := i, jtype := cJSON_Number\<rparr>, r)"
proof -
  let ?n = "nat (abs i)"
  have n: "?n \<le> 2 ^ 31" using assms(3,4) by simp
  have hd: "\<not> starts (\<lambda>c. c = CHR 0x2D) (nat_str ?n @ r)"
    using nat_str_ne [of ?n] nat_str_hd [of ?n] is_digit_facts by (cases "nat_str ?n") (auto simp: starts_def)
  have sg: "starts (\<lambda>c. c = CHR 0x2D) (int_str i @ r) \<longleftrightarrow> i < 0"
    "number_skip (CHR 0x2D) (int_str i @ r) = nat_str ?n @ r"
    using hd by (auto simp: int_str_def number_skip_def starts_def)
  have "number_frac f (fp_of_int f (int ?n)) r = (fp_of_int f (int ?n), 0, r)" "number_exp r = Val (0, r)"
    using assms(2) by (auto simp: number_frac_def number_exp_def stops_def starts_def split: list.splits)
  moreover have "fp_scale f (i < 0) (fp_of_int f (int ?n)) 0 = fp_of_int f i"
  proof (cases "i < 0")
    case True
    then have "0 < ?n" "- int ?n = i" by simp_all
    with True n fp_exactD(4) [OF assms(1), of ?n] show ?thesis by simp
  next
    case False
    then have "int ?n = i" "\<not> i < 0" by simp_all
    with n fp_exactD(3) [OF assms(1), of ?n] show ?thesis by (simp only: if_False)
  qed
  moreover have "fp_trunc f (fp_of_int f i) = i" by (rule fp_exactD(5) [OF assms(1,3,4)])
  ultimately show ?thesis
    using parse_nat_str [OF assms(1,2) n] sg by (simp add: parse_number_def Let_def)
qed

lemma print_number_Val:
  assumes "fp_exact f" "valuedouble it = fp_of_int f (valueint it)" "- (2 ^ 31) \<le> valueint it" "valueint it < 2 ^ 31"
  shows "print_number f it = Val (int_str (valueint it))"
proof -
  have "length (nat_str (nat (abs (valueint it)))) \<le> 10" by (rule nat_str_length) (use assms(3,4) in auto)
  then have "length (int_str (valueint it)) \<le> 11" by (auto simp: int_str_def)
  with assms(2) fp_exactD(6) [OF assms(1,3,4)] show ?thesis by (simp add: print_number_def Let_def)
qed

section \<open>White space\<close>

definition blank :: "string \<Rightarrow> bool" where
  "blank w \<longleftrightarrow> (\<forall>c \<in> set w. c \<noteq> CHR 0x00 \<and> (of_char c :: nat) \<le> 32)"

definition vstart :: "char \<Rightarrow> bool" where
  "vstart c \<longleftrightarrow> 32 < (of_char c :: nat) \<and> c \<noteq> CHR 0x5D \<and> c \<noteq> CHR 0x7D"

lemma skip_blank: "blank w \<Longrightarrow> skip (w @ s) = skip s"
  by (induction w) (auto simp: blank_def skip_def)

lemma skip_text: "32 < (of_char c :: nat) \<Longrightarrow> skip (c # s) = c # s"
  by (simp add: skip_def)

lemma skip_vstart: "starts vstart s \<Longrightarrow> skip (s @ r) = s @ r"
  by (cases s) (auto simp: starts_def vstart_def skip_def)

lemma blank_layout [simp]: "blank (tabs fmt k)" "blank (newline fmt)" "blank []"
  by (auto simp: blank_def tabs_def newline_def)

lemma blank_append [simp]: "blank (v @ w) \<longleftrightarrow> blank v \<and> blank w"
  by (auto simp: blank_def)

lemma stops_blank: "blank w \<Longrightarrow> stops (w @ CHR 0x7D # r)"
proof (cases w)
  case Nil
  then show ?thesis by (simp add: stops_def starts_def is_digit_def)
next
  case (Cons c v)
  assume "blank w"
  then have "(of_char c :: nat) \<le> 32" using Cons by (simp add: blank_def)
  moreover from this have "c \<noteq> CHR ''.''" "c \<noteq> CHR ''e''" "c \<noteq> CHR ''E''" by (intro notI, simp)+
  ultimately show ?thesis by (simp add: Cons stops_def starts_def is_digit_def)
qed

lemma stops_chars [simp]: "stops (CHR 0x2C # r)" "stops (CHR 0x5D # r)" "stops (CHR 0x7D # r)" "stops []"
  by (auto simp: stops_def starts_def is_digit_def)

section \<open>Arrays and objects\<close>

definition reads_back :: "'d fp \<Rightarrow> 'd cjson \<Rightarrow> jval \<Rightarrow> string \<Rightarrow> bool" where
  "reads_back f c v s \<longleftrightarrow> starts vstart s \<and>
     (\<forall>item rest n. stops rest \<longrightarrow> 2 * length (s @ rest) < n \<longrightarrow>
        (\<exists>c'. parse_value f n item (s @ rest) = Val (c', rest) \<and> jval_of f c' = Some v \<and> jname (node c') = jname item))"

lemma reads_backD:
  assumes "reads_back f c v s" "stops rest" "2 * length (s @ rest) < n"
  obtains c' where "parse_value f n item (s @ rest) = Val (c', rest)" "jval_of f c' = Some v" "jname (node c') = jname item"
  using assms unfolding reads_back_def by blast

lemma array_fits: "length (compose_array fmt es) \<le> sum_list (map (\<lambda>e. length e + 2 + (if fmt then 1 else 0)) es)"
  by (induction fmt es rule: compose_array.induct) auto

lemma finish_array_Val: "finish_array fmt es = Val (''['' @ compose_array fmt es @ '']'')"
  using array_fits [of fmt es] by (simp add: finish_array_def array_size_def Let_def)

lemma object_fits: "length (compose_object fmt d es) \<le>
   sum_list (map (\<lambda>(name, entry). length entry + length name + 2 + (if fmt then 2 + d else 0)) es)"
  by (induction fmt d es rule: compose_object.induct) (auto simp: tabs_def newline_def)

lemma finish_object_Val:
  "finish_object fmt d es = Val (''{'' @ newline fmt @ compose_object fmt d es @ tabs fmt (d - 1) @ ''}'')"
  using object_fits [of fmt d es] by (cases fmt) (simp_all add: finish_object_def object_size_def Let_def newline_def tabs_def)

lemma starts_append: "starts P s \<Longrightarrow> starts P (s @ t)"
  by (cases s) (auto simp: starts_def)

lemma print_elements_back:
  assumes "\<And>c v. c \<in> set cs \<Longrightarrow> jval_of f c = Some v \<Longrightarrow> \<exists>s. print_value f c depth fmt = Val s \<and> reads_back f c v s"
    and "jvals_of f cs = Some vs" "cs \<noteq> []"
  shows "\<exists>es. print_elements f cs depth fmt = Val es \<and> starts vstart (compose_array fmt es) \<and> es \<noteq> [] \<and>
     (\<forall>rest n. Suc (2 * length (compose_array fmt es @ CHR 0x5D # rest)) < n \<longrightarrow>
        (\<exists>cs'. parse_elements f n (compose_array fmt es @ CHR 0x5D # rest) = Val (cs', rest) \<and> jvals_of f cs' = Some vs))"
  using assms
proof (induction cs arbitrary: vs)
  case (Cons c cs)
  from Cons.prems(2) obtain v us where v: "jval_of f c = Some v" "jvals_of f cs = Some us" "vs = v # us"
    by (auto simp: bind_Some_iff)
  from Cons.prems(1) [OF _ v(1)] obtain s where s: "print_value f c depth fmt = Val s" "reads_back f c v s" by auto
  have st: "starts vstart s" using s(2) by (simp add: reads_back_def)
  show ?case
  proof (cases "cs = []")
    case True
    have "\<exists>cs'. parse_elements f n (s @ CHR 0x5D # rest) = Val (cs', rest) \<and> jvals_of f cs' = Some [v]"
      if n: "Suc (2 * length (s @ CHR 0x5D # rest)) < n" for rest n
    proof -
      from n obtain m where m: "n = Suc m" "2 * length (s @ CHR 0x5D # rest) < m" by (cases n) auto
      from reads_backD [OF s(2) _ m(2)] obtain c' where
        "parse_value f m (cJSON_New_Item f) (s @ CHR 0x5D # rest) = Val (c', CHR 0x5D # rest)" "jval_of f c' = Some v"
        using stops_chars(2) by blast
      then show ?thesis by (simp add: m(1) skip_vstart [OF st] skip_text starts_def)
    qed
    then show ?thesis using s(1) v st True by (intro exI [of _ "[s]"]) simp
  next
    case False
    from Cons.IH [OF Cons.prems(1) v(2) False] obtain es where
      e: "print_elements f cs depth fmt = Val es" "es \<noteq> []" "starts vstart (compose_array fmt es)" and
      p: "\<And>rest n. Suc (2 * length (compose_array fmt es @ CHR 0x5D # rest)) < n \<Longrightarrow>
        \<exists>cs'. parse_elements f n (compose_array fmt es @ CHR 0x5D # rest) = Val (cs', rest) \<and> jvals_of f cs' = Some us"
      by auto
    let ?b = "if fmt then '' '' else []"
    have c: "compose_array fmt (s # es) = s @ CHR 0x2C # ?b @ compose_array fmt es" using e(2) by (cases es) simp_all
    have "\<exists>cs'. parse_elements f n (compose_array fmt (s # es) @ CHR 0x5D # rest) = Val (cs', rest) \<and>
        jvals_of f cs' = Some (v # us)"
      if n: "Suc (2 * length (compose_array fmt (s # es) @ CHR 0x5D # rest)) < n" for rest n
    proof -
      let ?t = "?b @ compose_array fmt es @ CHR 0x5D # rest"
      from n obtain m where m: "n = Suc m" "2 * length (s @ CHR 0x2C # ?t) < m" by (cases n) (auto simp: c)
      from reads_backD [OF s(2) _ m(2)] obtain c' where
        c': "parse_value f m (cJSON_New_Item f) (s @ CHR 0x2C # ?t) = Val (c', CHR 0x2C # ?t)" "jval_of f c' = Some v"
        using stops_chars(1) by blast
      have "blank ?b" by (simp add: blank_def)
      then have sk: "parse_elements f m ?t = parse_elements f m (compose_array fmt es @ CHR 0x5D # rest)"
        by (cases m) (simp_all add: skip_blank)
      obtain cs' where "parse_elements f m ?t = Val (cs', rest)" "jvals_of f cs' = Some us"
        using p [of rest m] m(2) unfolding sk by auto
      with c' show ?thesis by (simp add: m(1) c skip_vstart [OF st] skip_text starts_def)
    qed
    then show ?thesis using s(1) v e c st by (intro exI [of _ "s # es"]) (simp add: starts_append)
  qed
qed simp

lemma parse_members_blank: "blank w \<Longrightarrow> parse_members f n (w @ t) = parse_members f n t"
  by (cases n) (simp_all add: skip_blank)

text \<open>One member, for any text that follows its value.\<close>

lemma parse_member:
  assumes "CHR 0x00 \<notin> set k" "reads_back f c v s" "stops t"
    and "2 * length (s @ t) < n" "blank w" "blank u" "string_fits (Some k)"
  shows "\<exists>c'. jname (node c') = Some k \<and> jval_of f c' = Some v \<and>
     parse_members f (Suc n) (w @ (CHR 0x22 # concat (map print_char k) @ [CHR 0x22]) @ CHR 0x3A # u @ s @ t) =
       (let r = skip t in
        if starts (\<lambda>c. c = CHR 0x2C) r then cbind (parse_members f n (tl r)) (\<lambda>(cs, r). Val (c' # cs, r))
        else if starts (\<lambda>c. c = CHR 0x7D) r then Val ([c'], tl r) else Zero)"
proof -
  let ?t = "CHR 0x3A # u @ s @ t"
  let ?item = "(cJSON_New_Item f)\<lparr>valuestring := Some k, jtype := cJSON_String\<rparr>"
  let ?it = "?item\<lparr>jname := Some k, valuestring := None\<rparr>"
  have st: "starts vstart s" using assms(2) by (simp add: reads_back_def)
  from reads_backD [OF assms(2-4)] obtain c' where
    c': "parse_value f n ?it (s @ t) = Val (c', t)" "jval_of f c' = Some v" "jname (node c') = Some k"
    by (metis (no_types, lifting) jnode.select_convs(5) jnode.surjective jnode.update_convs(2,5))
  have "skip (w @ (CHR 0x22 # concat (map print_char k) @ [CHR 0x22]) @ ?t) = CHR 0x22 # concat (map print_char k) @ CHR 0x22 # ?t"
    using skip_blank [OF assms(5)] skip_text [of "CHR 0x22"] by simp
  moreover have "skip ?t = ?t" "skip (u @ s @ t) = s @ t"
    using skip_text [of "CHR 0x3A"] skip_blank [OF assms(6)] skip_vstart [OF st] by simp_all
  ultimately show ?thesis using c' parse_print_string [OF assms(1,7), of "cJSON_New_Item f" ?t]
    by (intro exI [of _ c']) (simp add: starts_def)
qed

lemma print_members_back:
  assumes "\<And>c v. c \<in> set cs \<Longrightarrow> jval_of f c = Some v \<Longrightarrow> \<exists>s. print_value f c depth fmt = Val s \<and> reads_back f c v s"
    and "jmembers_of f cs = Some ms" "cs \<noteq> []" "\<forall>c \<in> set cs. string_fits (jname (node c))"
  shows "\<exists>es. print_members f cs depth fmt = Val es \<and> es \<noteq> [] \<and>
     (\<exists>r. compose_object fmt depth es = tabs fmt depth @ CHR 0x22 # r) \<and>
     (\<forall>w rest n. blank w \<longrightarrow> Suc (2 * length (compose_object fmt depth es @ w @ CHR 0x7D # rest)) < n \<longrightarrow>
        (\<exists>cs'. parse_members f n (compose_object fmt depth es @ w @ CHR 0x7D # rest) = Val (cs', rest) \<and>
           jmembers_of f cs' = Some ms))"
  using assms
proof (induction cs arbitrary: ms)
  case (Cons c cs)
  from Cons.prems(2) obtain k v us where
    k: "jname (node c) = Some k" "CHR 0x00 \<notin> set k" and v: "jval_of f c = Some v" "jmembers_of f cs = Some us" "ms = (k, v) # us"
    by (auto simp: bind_Some_iff split: option.splits if_splits)
  from Cons.prems(1) [OF _ v(1)] obtain s where s: "print_value f c depth fmt = Val s" "reads_back f c v s" by auto
  let ?q = "CHR 0x22 # concat (map print_char k) @ [CHR 0x22]"
  have kf: "string_fits (Some k)" using Cons.prems(4) k(1) by simp
  have pq: "print_string_ptr (jname (node c)) = Val ?q" using k(1) print_string_Val [OF kf] by simp
  show ?case
  proof (cases "cs = []")
    case True
    have co: "compose_object fmt depth [(?q, s)] = tabs fmt depth @ ?q @ CHR 0x3A # tabs fmt 1 @ s @ newline fmt" by simp
    have "\<exists>cs'. parse_members f n (compose_object fmt depth [(?q, s)] @ w @ CHR 0x7D # rest) = Val (cs', rest) \<and>
        jmembers_of f cs' = Some [(k, v)]"
      if w: "blank w" and n: "Suc (2 * length (compose_object fmt depth [(?q, s)] @ w @ CHR 0x7D # rest)) < n" for w rest n
    proof -
      let ?t = "newline fmt @ w @ CHR 0x7D # rest"
      from n obtain m where m: "n = Suc m" "2 * length (s @ ?t) < m" by (cases n) auto
      have b: "blank (newline fmt @ w)" using w by simp
      have t: "stops ?t" "skip ?t = CHR 0x7D # rest"
        using stops_blank [OF b] skip_blank [OF b] skip_text [of "CHR 0x7D"] by simp_all
      from parse_member [OF k(2) s(2) t(1) m(2) blank_layout(1) blank_layout(1) kf] obtain c' where
        "jname (node c') = Some k" "jval_of f c' = Some v"
        "parse_members f (Suc m) (tabs fmt depth @ ?q @ CHR 0x3A # tabs fmt 1 @ s @ ?t) =
          (let r = skip ?t in
           if starts (\<lambda>c. c = CHR 0x2C) r then cbind (parse_members f m (tl r)) (\<lambda>(cs, r). Val (c' # cs, r))
           else if starts (\<lambda>c. c = CHR 0x7D) r then Val ([c'], tl r) else Zero)" by blast
      then show ?thesis using k(2)
        by (intro exI [of _ "[c']"]) (simp add: m(1) co t(2) starts_def del: parse_members.simps)
    qed
    then show ?thesis using s(1) v pq True by (intro exI [of _ "[(?q, s)]"]) simp
  next
    case False
    have "\<forall>c \<in> set cs. string_fits (jname (node c))" using Cons.prems(4) by simp
    from Cons.IH [OF Cons.prems(1) v(2) False this] obtain es where
      e: "print_members f cs depth fmt = Val es" "es \<noteq> []" and
      p: "\<And>w rest n. blank w \<Longrightarrow> Suc (2 * length (compose_object fmt depth es @ w @ CHR 0x7D # rest)) < n \<Longrightarrow>
        \<exists>cs'. parse_members f n (compose_object fmt depth es @ w @ CHR 0x7D # rest) = Val (cs', rest) \<and>
          jmembers_of f cs' = Some us" by auto
    have co: "compose_object fmt depth ((?q, s) # es) =
        tabs fmt depth @ ?q @ CHR 0x3A # tabs fmt 1 @ s @ CHR 0x2C # newline fmt @ compose_object fmt depth es"
      using e(2) by simp
    have "\<exists>cs'. parse_members f n (compose_object fmt depth ((?q, s) # es) @ w @ CHR 0x7D # rest) = Val (cs', rest) \<and>
        jmembers_of f cs' = Some ((k, v) # us)"
      if w: "blank w" and n: "Suc (2 * length (compose_object fmt depth ((?q, s) # es) @ w @ CHR 0x7D # rest)) < n" for w rest n
    proof -
      let ?u = "newline fmt @ compose_object fmt depth es @ w @ CHR 0x7D # rest"
      from n obtain m where m: "n = Suc m" "2 * length (s @ CHR 0x2C # ?u) < m"
        "Suc (2 * length (compose_object fmt depth es @ w @ CHR 0x7D # rest)) < m" by (cases n) (auto simp: co)
      from parse_member [OF k(2) s(2) stops_chars(1) m(2) blank_layout(1) blank_layout(1) kf] obtain c' where
        c': "jname (node c') = Some k" "jval_of f c' = Some v"
        "parse_members f (Suc m) (tabs fmt depth @ ?q @ CHR 0x3A # tabs fmt 1 @ s @ CHR 0x2C # ?u) =
          (let r = skip (CHR 0x2C # ?u) in
           if starts (\<lambda>c. c = CHR 0x2C) r then cbind (parse_members f m (tl r)) (\<lambda>(cs, r). Val (c' # cs, r))
           else if starts (\<lambda>c. c = CHR 0x7D) r then Val ([c'], tl r) else Zero)" by blast
      have sk: "parse_members f m ?u = parse_members f m (compose_object fmt depth es @ w @ CHR 0x7D # rest)"
        by (rule parse_members_blank [OF blank_layout(2)])
      obtain cs' where "parse_members f m ?u = Val (cs', rest)" "jmembers_of f cs' = Some us"
        using p [OF w m(3)] unfolding sk by blast
      then show ?thesis using c' k(2) unfolding co
        by (intro exI [of _ "c' # cs'"]) (simp add: m(1) skip_text starts_def del: parse_members.simps)
    qed
    then show ?thesis using s(1) v e pq co by (intro exI [of _ "(?q, s) # es"]) simp
  qed
qed simp

section \<open>Every value\<close>

lemma reads_back_leaf:
  assumes "starts vstart s"
    and "\<And>item rest n. stops rest \<Longrightarrow> \<exists>c'. parse_value f (Suc n) item (s @ rest) = Val (c', rest) \<and>
       jval_of f c' = Some v \<and> jname (node c') = jname item"
  shows "reads_back f c v s"
  unfolding reads_back_def using assms by (metis gr0_implies_Suc gr_implies_not_zero not_gr0)

lemma literal_back:
  assumes "s \<in> {''null'', ''false'', ''true''}"
  shows "starts vstart s" "\<exists>it. parse_value f (Suc n) item (s @ rest) = Val (CJ it [], rest) \<and> jname it = jname item \<and>
     jtype it = (if s = ''null'' then cJSON_NULL else if s = ''false'' then cJSON_False else cJSON_True)"
  using assms by (elim insertE emptyE; simp add: starts_def vstart_def json_types)+

lemma string_back:
  assumes "CHR 0x00 \<notin> set s" "string_fits (Some s)"
  shows "reads_back f c (JStr s) (CHR 0x22 # concat (map print_char s) @ [CHR 0x22])"
proof (rule reads_back_leaf)
  show "starts vstart (CHR 0x22 # concat (map print_char s) @ [CHR 0x22])" by (simp add: starts_def vstart_def)
  fix item :: "'a jnode" and rest n
  show "\<exists>c'. parse_value f (Suc n) item ((CHR 0x22 # concat (map print_char s) @ [CHR 0x22]) @ rest) = Val (c', rest) \<and>
      jval_of f c' = Some (JStr s) \<and> jname (node c') = jname item"
    using parse_print_string [OF assms, of item rest] assms by (simp add: json_types)
qed

lemma int_str_start: "\<exists>d ds. int_str i = d # ds \<and> (d = CHR 0x2D \<or> is_digit d)"
  using nat_str_ne nat_str_hd by (metis int_str_def list.collapse)

lemma number_back:
  assumes "fp_exact f" "- (2 ^ 31) \<le> i" "i < 2 ^ 31"
  shows "reads_back f c (JInt i) (int_str i)"
proof (rule reads_back_leaf)
  obtain d ds where d: "int_str i = d # ds" "d = CHR 0x2D \<or> is_digit d" using int_str_start by blast
  have ne: "d \<noteq> CHR 0x22" "d \<noteq> CHR ''n''" "d \<noteq> CHR ''f''" "d \<noteq> CHR ''t''" using d(2) by (auto simp: is_digit_def)
  show "starts vstart (int_str i)" using d by (auto simp: starts_def vstart_def is_digit_def)
  fix item :: "'a jnode" and rest :: string and n
  assume "stops rest"
  from parse_print_number [OF assms(1) this assms(2,3), of item] d ne assms(2,3)
  show "\<exists>c'. parse_value f (Suc n) item (int_str i @ rest) = Val (c', rest) \<and> jval_of f c' = Some (JInt i) \<and>
      jname (node c') = jname item"
    by (simp add: json_types)
qed

lemma array_back:
  assumes "\<And>c v. c \<in> set cs \<Longrightarrow> jval_of f c = Some v \<Longrightarrow> \<exists>s. print_value f c (Suc depth) fmt = Val s \<and> reads_back f c v s"
    and "jvals_of f cs = Some vs"
  shows "\<exists>s. cbind (print_elements f cs (Suc depth) fmt) (finish_array fmt) = Val s \<and> reads_back f c (JArr vs) s"
proof (cases "cs = []")
  case True
  have "reads_back f c (JArr vs) ''[]''"
    by (rule reads_back_leaf) (use assms(2) True in \<open>auto simp: starts_def vstart_def json_types skip_text is_digit_def\<close>)
  with True show ?thesis by (simp add: finish_array_Val)
next
  case False
  from print_elements_back [OF assms False] obtain es where
    e: "print_elements f cs (Suc depth) fmt = Val es" "starts vstart (compose_array fmt es)" and
    p: "\<And>rest n. Suc (2 * length (compose_array fmt es @ CHR 0x5D # rest)) < n \<Longrightarrow>
      \<exists>cs'. parse_elements f n (compose_array fmt es @ CHR 0x5D # rest) = Val (cs', rest) \<and> jvals_of f cs' = Some vs" by blast
  let ?s = "''['' @ compose_array fmt es @ '']''"
  have "reads_back f c (JArr vs) ?s"
    unfolding reads_back_def
  proof (intro conjI allI impI)
    show "starts vstart ?s" by (simp add: starts_def vstart_def)
    fix item :: "'a jnode" and rest n
    assume n: "2 * length (?s @ rest) < n"
    then obtain m where m: "n = Suc m" "Suc (2 * length (compose_array fmt es @ CHR 0x5D # rest)) < m" by (cases n) auto
    from p [OF m(2)] obtain cs' where
      cs': "parse_elements f m (compose_array fmt es @ CHR 0x5D # rest) = Val (cs', rest)" "jvals_of f cs' = Some vs" by blast
    have "\<not> starts (\<lambda>c. c = CHR 0x5D) (compose_array fmt es @ CHR 0x5D # rest)"
      using e(2) by (cases "compose_array fmt es") (auto simp: starts_def vstart_def)
    then show "\<exists>c'. parse_value f n item (?s @ rest) = Val (c', rest) \<and> jval_of f c' = Some (JArr vs) \<and> jname (node c') = jname item"
      using cs' skip_vstart [OF e(2)] by (simp add: m(1) json_types is_digit_def)
  qed
  with e(1) show ?thesis by (simp add: finish_array_Val)
qed

lemma object_back:
  assumes "\<And>c v. c \<in> set cs \<Longrightarrow> jval_of f c = Some v \<Longrightarrow> \<exists>s. print_value f c (Suc depth) fmt = Val s \<and> reads_back f c v s"
    and "jmembers_of f cs = Some ms" "\<forall>c \<in> set cs. string_fits (jname (node c))"
  shows "\<exists>s. cbind (print_members f cs (Suc depth) fmt) (finish_object fmt (Suc depth)) = Val s \<and> reads_back f c (JObj ms) s"
proof (cases "cs = []")
  case True
  let ?s = "''{'' @ newline fmt @ tabs fmt depth @ ''}''"
  have "skip (newline fmt @ tabs fmt depth @ CHR 0x7D # rest) = CHR 0x7D # rest" for rest
    using skip_blank [of "newline fmt @ tabs fmt depth"] by (simp add: skip_text)
  then have "reads_back f c (JObj ms) ?s"
    by (intro reads_back_leaf) (use assms(2) True in \<open>auto simp: starts_def vstart_def json_types is_digit_def\<close>)
  with True show ?thesis by (simp add: finish_object_Val)
next
  case False
  from print_members_back [OF assms(1,2) False assms(3)] obtain es r where
    e: "print_members f cs (Suc depth) fmt = Val es" "compose_object fmt (Suc depth) es = tabs fmt (Suc depth) @ CHR 0x22 # r" and
    p: "\<And>w rest n. blank w \<Longrightarrow> Suc (2 * length (compose_object fmt (Suc depth) es @ w @ CHR 0x7D # rest)) < n \<Longrightarrow>
      \<exists>cs'. parse_members f n (compose_object fmt (Suc depth) es @ w @ CHR 0x7D # rest) = Val (cs', rest) \<and>
        jmembers_of f cs' = Some ms" by blast
  let ?s = "''{'' @ newline fmt @ compose_object fmt (Suc depth) es @ tabs fmt depth @ ''}''"
  have "reads_back f c (JObj ms) ?s"
    unfolding reads_back_def
  proof (intro conjI allI impI)
    show "starts vstart ?s" by (simp add: starts_def vstart_def)
    fix item :: "'a jnode" and rest n
    let ?t = "compose_object fmt (Suc depth) es @ tabs fmt depth @ CHR 0x7D # rest"
    assume n: "2 * length (?s @ rest) < n"
    then obtain m where m: "n = Suc m" "Suc (2 * length ?t) < m" by (cases n) auto
    from p [OF blank_layout(1) m(2)] obtain cs' where
      cs': "parse_members f m ?t = Val (cs', rest)" "jmembers_of f cs' = Some ms" by blast
    have sk: "skip (newline fmt @ ?t) = CHR 0x22 # r @ tabs fmt depth @ CHR 0x7D # rest"
      using skip_blank [of "newline fmt @ tabs fmt (Suc depth)"] by (simp add: e(2) skip_text)
    have "parse_members f m (CHR 0x22 # r @ tabs fmt depth @ CHR 0x7D # rest) = Val (cs', rest)"
      using cs'(1) parse_members_blank [OF blank_layout(1), of f m fmt "Suc depth"]
      by (simp only: e(2) append_assoc append_Cons)
    then show "\<exists>c'. parse_value f n item (?s @ rest) = Val (c', rest) \<and> jval_of f c' = Some (JObj ms) \<and> jname (node c') = jname item"
      using cs'(2) sk by (simp add: m(1) json_types is_digit_def starts_def)
  qed
  with e(1) show ?thesis by (simp add: finish_object_Val)
qed

lemma print_value_back:
  assumes "fp_exact f"
  shows "jval_of f c = Some v \<Longrightarrow> item_fits depth c \<Longrightarrow> \<exists>s. print_value f c depth fmt = Val s \<and> reads_back f c v s"
proof (induction c arbitrary: v depth)
  case (CJ it cs)
  have lit: "reads_back f c v s" if "s \<in> {''null'', ''false'', ''true''}"
    "v = (if s = ''null'' then JNull else JBool (s = ''true''))" for s c v
  proof (rule reads_back_leaf)
    show "starts vstart s" using that(1) by (rule literal_back(1))
    fix item :: "'a jnode" and rest n
    show "\<exists>c'. parse_value f (Suc n) item (s @ rest) = Val (c', rest) \<and> jval_of f c' = Some v \<and> jname (node c') = jname item"
      using literal_back(2) [OF that(1), of f n item rest] that by (auto simp: json_types)
  qed
  have lits: "reads_back f c JNull ''null''" "reads_back f c (JBool False) ''false''" "reads_back f c (JBool True) ''true''" for c
    by (rule lit; simp)+
  have IH: "\<exists>s. print_value f c (Suc depth) fmt = Val s \<and> reads_back f c v s" if "c \<in> set cs" "jval_of f c = Some v" for c v
    using CJ.IH [OF that, of "Suc depth"] CJ.prems(2) that(1) by auto
  have fit: "string_fits (valuestring it)" "fits (length cs)" "fits (Suc depth)" "fits (Suc depth + 2)" "\<forall>c \<in> set cs. string_fits (jname (node c))"
    using CJ.prems(2) by (auto simp: fits_def)
  consider "jtype it = cJSON_NULL" | "jtype it = cJSON_False" | "jtype it = cJSON_True" | "jtype it = cJSON_Number"
    | "jtype it = cJSON_String" | "jtype it = cJSON_Array" | "jtype it = cJSON_Object"
    using CJ.prems(1) by (auto split: if_splits)
  then show ?case
  proof cases
    case 4
    with CJ.prems(1) have "valuedouble it = fp_of_int f (valueint it)" "- (2 ^ 31) \<le> valueint it" "valueint it < 2 ^ 31"
      "v = JInt (valueint it)" by (auto simp: json_types split: if_splits)
    with 4 print_number_Val [OF assms] number_back [OF assms] show ?thesis by (simp add: json_types)
  next
    case 5
    with CJ.prems(1) obtain s where "valuestring it = Some s" "CHR 0x00 \<notin> set s" "v = JStr s"
      by (auto simp: json_types split: if_splits option.splits)
    with 5 fit(1) string_back [of s f "CJ it cs"] print_string_Val [of s] show ?thesis by (simp add: json_types)
  next
    case 6
    with CJ.prems(1) obtain vs where "jvals_of f cs = Some vs" "v = JArr vs" by (auto simp: json_types)
    moreover from this(1) have "\<exists>s. cbind (print_elements f cs (Suc depth) fmt) (finish_array fmt) = Val s \<and> reads_back f (CJ it cs) (JArr vs) s"
      by (rule array_back [rotated]) (use IH in blast)
    ultimately show ?thesis using 6 fit(2,3) by (simp add: json_types)
  next
    case 7
    with CJ.prems(1) obtain ms where "jmembers_of f cs = Some ms" "v = JObj ms" by (auto simp: json_types)
    moreover from this(1) have "\<exists>s. cbind (print_members f cs (Suc depth) fmt) (finish_object fmt (Suc depth)) = Val s \<and>
        reads_back f (CJ it cs) (JObj ms) s" by (intro object_back [OF IH _ fit(5)])
    ultimately show ?thesis using 7 fit(2-4) by (simp add: json_types)
  qed (use CJ.prems(1) lits in \<open>auto simp: json_types cJSON_strdup_def\<close>)
qed

lemma print_parse:
  assumes "fp_exact f" "jval_of f c = Some v" "item_fits 0 c"
  shows "\<exists>s c'. print_value f c 0 fmt = Val s \<and> cJSON_Parse f s = Val c' \<and> jval_of f c' = Some v"
proof -
  from print_value_back [OF assms, of fmt] obtain s where s: "print_value f c 0 fmt = Val s" "reads_back f c v s" by blast
  then have "skip s = s" using skip_vstart [of s "[]"] by (simp add: reads_back_def)
  moreover from reads_backD [OF s(2) stops_chars(4), of "2 * length s + 2"] obtain c' where
    "parse_value f (2 * length s + 2) (cJSON_New_Item f) s = Val (c', [])" "jval_of f c' = Some v"
    by (metis add_2_eq_Suc' append_Nil2 less_SucI lessI)
  ultimately show ?thesis using s(1)
    by (intro exI [of _ s] exI [of _ c']) (simp add: cJSON_Parse_def del: parse_value.simps)
qed

section \<open>Properties\<close>

text \<open>
  C37: \<^verbatim>\<open>cJSON_Parse\<close> ends on every text: its recursion is not deeper than twice the length of the text. It commits no fault on a text that does not
  end in a backslash, is shorter than the range of an \<^verbatim>\<open>int\<close> and has no exponent that is larger: then it neither reads past the end of the text nor
  writes past the buffers it allocates for strings.
\<close>

theorem cJSON_Parse_total: "cJSON_Parse f s \<noteq> Unfinished \<and> (text_ok s \<longrightarrow> cJSON_Parse f s \<noteq> Fault)"
proof -
  have "2 * length (skip s) < 2 * length s + 2" using skip_length [of s] by simp
  then have "rests (text_ok s) (skip s) (parse_value f (2 * length s + 2) (cJSON_New_Item f) (skip s))"
    using parse_value_total [of "2 * length s + 2" "text_ok s" f] ok_skip [of "text_ok s" s] by blast
  then show ?thesis
    by (cases "parse_value f (2 * length s + 2) (cJSON_New_Item f) (skip s)") (auto simp: cJSON_Parse_def)
qed

text \<open>An instance of the arithmetic to try the properties on: integers in place of doubles.\<close>

definition demo_fp :: "int fp" where
  "demo_fp = \<lparr>fp_zero = 0, fp_digit = (\<lambda>n d. n * 10 + int d), fp_scale = (\<lambda>neg n e. (if neg then - n else n) * 10 ^ nat e),
     fp_trunc = id, fp_of_int = id, fp_near_int = (\<lambda>d i. d = i \<and> - (2 ^ 31) \<le> d \<and> d < 2 ^ 31), fp_whole = (\<lambda>_. True),
     fp_extreme = (\<lambda>_. False), fp_fmt_0f = int_str, fp_fmt_e = int_str, fp_fmt_f = int_str\<rparr>"

lemma demo_fp_exact: "fp_exact demo_fp"
  by (auto simp: fp_exact_def demo_fp_def)

theorem cJSON_Parse_total_witness: "cJSON_Parse demo_fp ''[1e9]'' \<noteq> Fault"
proof -
  have "text_ok ''[1e9]''" by code_simp
  then show ?thesis using cJSON_Parse_total [of demo_fp "''[1e9]''"] by blast
qed

text \<open>
  C36: an item of nulls, truth values, strings, arrays, objects and numbers that are integers of 32 bits, printed with or without formatting, is read back
  as an item with the same value, if no size that the writer counts overflows an \<^verbatim>\<open>int\<close>; the buffers of the writer are large enough.
\<close>

theorem cJSON_roundtrip:
  assumes "fp_exact f" "jval_of f c = Some v" "item_fits 0 c"
  shows "\<exists>s t c1 c2. cJSON_PrintUnformatted f c = Val s \<and> cJSON_Parse f s = Val c1 \<and> jval_of f c1 = Some v \<and>
     cJSON_Print f c = Val t \<and> cJSON_Parse f t = Val c2 \<and> jval_of f c2 = Some v"
  using print_parse [OF assms, of True] print_parse [OF assms, of False]
  unfolding cJSON_Print_def cJSON_PrintUnformatted_def by blast

definition demo_item :: "int cjson" where
  "demo_item = cJSON_AddItemToObject (cJSON_AddItemToObject (cJSON_CreateObject demo_fp) (Some ''n'') (Some (cJSON_CreateNumber demo_fp 42)))
     (Some ''s'') (Some (cJSON_CreateString demo_fp (Some [CHR 0x0A])))"

theorem cJSON_roundtrip_witness:
  "\<exists>s c. cJSON_PrintUnformatted demo_fp demo_item = Val s \<and> cJSON_Parse demo_fp s = Val c \<and>
     jval_of demo_fp c = Some (JObj [(''n'', JInt 42), (''s'', JStr [CHR 0x0A])])"
proof -
  have "jval_of demo_fp demo_item = Some (JObj [(''n'', JInt 42), (''s'', JStr [CHR 0x0A])])"
    by (simp add: demo_item_def cJSON_AddItemToObject_def cJSON_AddItemToArray_def cJSON_CreateObject_def create_typed_def
        cJSON_CreateNumber_def cJSON_CreateString_def cJSON_New_Item_def json_types demo_fp_def cJSON_strdup_def)
  moreover have "item_fits 0 demo_item" by code_simp
  ultimately show ?thesis using cJSON_roundtrip [OF demo_fp_exact] by blast
qed

text \<open>
  A text that ends in a backslash inside a string makes the first loop of
  \<^verbatim>\<open>parse_string\<close> step over the terminator and read past the end of the text.
\<close>

theorem parse_string_overread:
  assumes "\<forall>c \<in> set s. c \<noteq> CHR 0x22 \<and> c \<noteq> CHR 0x5C"
  shows "parse_string item (CHR 0x22 # s @ [CHR 0x5C]) = Fault"
proof -
  have "scan_length (s @ [CHR 0x5C]) = Fault" using assms by (induction s) (simp_all add: scan_plain)
  then show ?thesis by (simp add: parse_string_def)
qed

theorem parse_string_overread_witness: "parse_string (cJSON_New_Item demo_fp) [CHR 0x22, CHR ''a'', CHR 0x5C] = Fault"
  using parse_string_overread [of "''a''"] by simp

text \<open>
  C39: a UTF-16 surrogate pair is decoded to its code point exactly when the sixth bit of the
  first half is clear; otherwise the bit-or with \<^verbatim>\<open>0x10000\<close> loses the carry and the text
  gets another character.
\<close>

theorem surrogates_correct_iff: "surrogates uc uc2 = 0x10000 + push_bit 10 (and uc 0x3FF) + and uc2 0x3FF \<longleftrightarrow> \<not> bit uc 6"
proof -
  let ?h = "push_bit 10 (and uc 0x3FF)" and ?l = "and uc2 0x3FF"
  have m: "(0x3FF :: u32) = mask 10" "(0x10000 :: u32) = 2 ^ 16" by (simp_all add: mask_eq_exp_minus_1)
  have "and ?h ?l = 0" by (rule bit_eqI) (auto simp: m bit_simps)
  then have hl: "or ?h ?l = ?h + ?l" by (simp add: disjunctive_add_eq_or)
  have s: "surrogates uc uc2 = or 0x10000 (or ?h ?l)" by (simp add: surrogates_def or.assoc)
  have g: "or (2 ^ k) x = x" if "bit x k" for x :: u32 and k
    by (rule bit_eqI) (use that in \<open>auto simp: bit_or_iff bit_exp_iff\<close>)
  have g': "and (2 ^ k) x = 0" if "\<not> bit x k" for x :: u32 and k
    by (rule bit_eqI) (use that in \<open>auto simp: bit_and_iff bit_exp_iff\<close>)
  have b: "bit (or ?h ?l) 16 \<longleftrightarrow> bit uc 6" unfolding m(1) by (simp add: bit_or_iff bit_push_bit_iff bit_and_iff bit_mask_iff)
  show ?thesis
  proof (cases "bit uc 6")
    case True
    then have "or 0x10000 (or ?h ?l) = or ?h ?l" unfolding m(2) by (intro g b [THEN iffD2])
    then have "surrogates uc uc2 = ?h + ?l" using s hl by simp
    then show ?thesis using True by (simp add: add.assoc)
  next
    case False
    then have "and 0x10000 (or ?h ?l) = 0" unfolding m(2) by (intro g' notI) (simp only: b)
    then have "surrogates uc uc2 = 0x10000 + or ?h ?l" using s by (simp add: disjunctive_add_eq_or)
    then show ?thesis using False hl by (simp add: add.assoc)
  qed
qed

end
