(* ===== verification/Agc_Event_Json.thy ===== *)
theory Agc_Event_Json
  imports Agc_Json_Roundtrip Agc_Event Agc_Event_Header_Laws
begin

text \<open>
  Events as JSON texts (\<^verbatim>\<open>agc_event_serialize_json_obj\<close>, \<^verbatim>\<open>agc_event_serialize_json\<close> and
  \<^verbatim>\<open>agc_event_create_json\<close> of \<^verbatim>\<open>src/src/agc_event.c\<close>), on the header lists and the JSON reader
  and writer. \<^const>\<open>None\<close> is a fault or a run that never returns; the addresses the allocations
  of headers return are an argument.
\<close>

section \<open>Operations\<close>

definition add_string :: "'d fp \<Rightarrow> 'd cjson \<Rightarrow> string \<Rightarrow> string option \<Rightarrow> 'd cjson" where
  "add_string f cj name value = cJSON_AddItemToObject cj (Some name) (Some (cJSON_CreateString f value))"

partial_function (option) json_headers :: "'d fp \<Rightarrow> hheap \<Rightarrow> 'd cjson \<Rightarrow> addr \<Rightarrow> 'd cjson option" where
  "json_headers f h cj hp =
     (if hp = NULL then Some cj
      else if hp \<notin> hlive h then None
      else json_headers f h (add_string f cj (hname h hp) (hvalue h hp)) (hnext h hp))"

definition agc_event_serialize_json_obj :: "'d fp \<Rightarrow> string option list \<Rightarrow> hheap \<Rightarrow> agc_event \<Rightarrow> 'd cjson option" where
  "agc_event_serialize_json_obj f templates h ev = do {
     cj \<leftarrow> json_headers f h (cJSON_CreateObject f) (headers ev);
     let cj = add_string f cj ''_id'' (Some (int_str (event_id ev)));
     t \<leftarrow> arr_get templates (event_id ev);
     let cj = (case t of None \<Rightarrow> cj | Some name \<Rightarrow> add_string f cj ''_name'' (Some name));
     Some (case body ev of
        None \<Rightarrow> cj
      | Some b \<Rightarrow> add_string f (add_string f cj ''_length'' (Some (int_str (to_int32 (int (length b)))))) ''_body'' (Some b))
   }"

definition agc_event_serialize_json ::
  "'d fp \<Rightarrow> string option list \<Rightarrow> hheap \<Rightarrow> agc_event \<Rightarrow> (agc_status \<times> string option) option" where
  "agc_event_serialize_json f templates h ev = do {
     cj \<leftarrow> agc_event_serialize_json_obj f templates h ev;
     (case cJSON_PrintUnformatted f cj of
        Val s \<Rightarrow> Some (AGC_STATUS_SUCCESS, Some s)
      | Zero \<Rightarrow> Some (AGC_STATUS_SUCCESS, None)
      | _ \<Rightarrow> None)
   }"

text \<open>The loop of \<^verbatim>\<open>agc_event_create_json\<close> over the members; it gives up at an invalid id.\<close>

fun create_members :: "hheap \<Rightarrow> agc_event \<Rightarrow> addr list \<Rightarrow> 'd cjson list \<Rightarrow> (hheap \<times> agc_event option) option" where
  "create_members h ev as [] = Some (h, Some ev)"
| "create_members h ev as (c # cs) =
     (case (jname (node c), valuestring (node c)) of
        (Some name, Some value) \<Rightarrow>
          if strcasecmp_eq name ''_body'' then create_members h (snd (agc_event_set_body ev (Some value))) as cs
          else if strcasecmp_eq name ''_id'' then
            (let eid = c_atoi value in
             if EVENT_ID_IS_INVALID eid then do { h \<leftarrow> agc_event_destroy h (Some ev); Some (h, None) }
             else create_members h (agc_event_set_id ev eid) as cs)
          else do {
            (_, h, ev) \<leftarrow> agc_event_add_header_string h ev (hd as) name (Some value);
            create_members h ev (tl as) cs
          }
      | _ \<Rightarrow> create_members h ev as cs)"

definition agc_event_create_json ::
  "'d fp \<Rightarrow> hheap \<Rightarrow> addr list \<Rightarrow> string \<Rightarrow> (agc_status \<times> hheap \<times> agc_event option) option" where
  "agc_event_create_json f h as json = (case cJSON_Parse f json of
     Fault \<Rightarrow> None
   | Unfinished \<Rightarrow> None
   | Zero \<Rightarrow> Some (AGC_STATUS_FALSE, h, None)
   | Val cj \<Rightarrow> do {
       (h, new_event) \<leftarrow> create_members h (agc_event_create 0 0) as (child cj);
       (case new_event of
          None \<Rightarrow> Some (AGC_STATUS_FALSE, h, None)
        | Some ev \<Rightarrow>
            if EVENT_ID_IS_INVALID (event_id ev)
            then do { h \<leftarrow> agc_event_destroy h (Some ev); Some (AGC_STATUS_FALSE, h, None) }
            else Some (AGC_STATUS_SUCCESS, h, Some ev))
     })"

section \<open>The members of an event's text\<close>

type_synonym fields = "(string \<times> string) list"

definition string_members :: "'d cjson list \<Rightarrow> fields \<Rightarrow> bool" where
  "string_members cs kv \<longleftrightarrow> map (\<lambda>c. (jname (node c), valuestring (node c))) cs = map (\<lambda>(k, v). (Some k, Some v)) kv"

lemma string_members_Cons:
  "string_members (c # cs) kv \<longleftrightarrow> (\<exists>k v kv'. kv = (k, v) # kv' \<and> jname (node c) = Some k \<and> valuestring (node c) = Some v \<and> string_members cs kv')"
  by (cases kv) (auto simp: string_members_def)

lemma string_members_append:
  "string_members cs (kv @ kv') \<Longrightarrow> \<exists>as bs. cs = as @ bs \<and> string_members as kv \<and> string_members bs kv'"
  unfolding string_members_def map_append map_eq_append_conv by metis

definition text_fields :: "fields \<Rightarrow> bool" where
  "text_fields kv \<longleftrightarrow> (\<forall>(k, v) \<in> set kv. CHR 0x00 \<notin> set k \<and> CHR 0x00 \<notin> set v)"

lemma jmembers_strings:
  "jmembers_of f cs = Some (map (\<lambda>(k, v). (k, JStr v)) kv) \<Longrightarrow> string_members cs kv"
proof (induction cs arbitrary: kv)
  case Nil
  then show ?case by (simp add: string_members_def)
next
  case (Cons c cs)
  obtain it ds where c: "c = CJ it ds" by (cases c)
  from Cons.prems obtain k j ms where
    k: "jname it = Some k" "jval_of f c = Some j" "jmembers_of f cs = Some ms" "map (\<lambda>(k, v). (k, JStr v)) kv = (k, j) # ms"
    by (auto simp: bind_Some_iff c split: option.splits if_splits)
  then obtain v kv' where kv: "kv = (k, v) # kv'" "j = JStr v" "ms = map (\<lambda>(k, v). (k, JStr v)) kv'"
    by (cases kv) auto
  from k(2) kv(2) have "valuestring it = Some v" by (auto simp: c split: if_splits option.splits)
  with Cons.IH [of kv'] k kv c show ?case by (auto simp: string_members_Cons)
qed

definition object_of :: "'d fp \<Rightarrow> fields \<Rightarrow> 'd cjson" where
  "object_of f kv = foldl (\<lambda>cj (k, v). add_string f cj k (Some v)) (cJSON_CreateObject f) kv"

lemma object_of_snoc: "add_string f (object_of f kv) k (Some v) = object_of f (kv @ [(k, v)])"
  by (simp add: object_of_def)

lemma object_of_children:
  "object_of f kv = CJ (node (cJSON_CreateObject f))
     (map (\<lambda>(k, v). CJ ((node (cJSON_CreateString f (Some v)))\<lparr>jname := Some k\<rparr>) []) kv)"
proof (induction kv rule: rev_induct)
  case Nil
  then show ?case by (simp add: object_of_def cJSON_CreateObject_def create_typed_def)
next
  case (snoc p kv)
  obtain k v where "p = (k, v)" by (cases p)
  with snoc show ?case
    by (simp flip: object_of_snoc) (simp add: add_string_def cJSON_AddItemToObject_def cJSON_AddItemToArray_def
      cJSON_CreateString_def cJSON_strdup_def)
qed

lemma object_of_value:
  assumes "text_fields kv"
  shows "jval_of f (object_of f kv) = Some (JObj (map (\<lambda>(k, v). (k, JStr v)) kv))"
proof -
  have "jmembers_of f (map (\<lambda>(k, v). CJ ((node (cJSON_CreateString f (Some v)))\<lparr>jname := Some k\<rparr>) []) kv) =
      Some (map (\<lambda>(k, v). (k, JStr v)) kv)"
    using assms by (induction kv) (auto simp: text_fields_def cJSON_CreateString_def cJSON_strdup_def json_types)
  then show ?thesis by (simp add: object_of_children cJSON_CreateObject_def create_typed_def json_types)
qed

text \<open>The sizes of the names and values and the number of the members do not overflow an \<^verbatim>\<open>int\<close>.\<close>

definition fields_fit :: "fields \<Rightarrow> bool" where
  "fields_fit kv \<longleftrightarrow> fits (length kv) \<and> (\<forall>(k, v) \<in> set kv. string_fits (Some k) \<and> string_fits (Some v))"

lemma object_of_fits: "fields_fit kv \<Longrightarrow> item_fits 0 (object_of f kv)"
  by (auto simp: fields_fit_def object_of_children cJSON_CreateObject_def create_typed_def cJSON_CreateString_def cJSON_New_Item_def
      cJSON_strdup_def string_fits_def fits_def INT_MAX_def)

section \<open>Reading the members back\<close>

definition apart :: "string list \<Rightarrow> bool" where
  "apart names \<longleftrightarrow> sorted_wrt (\<lambda>a b. \<not> strcasecmp_eq a b) names"

definition plain_name :: "string \<Rightarrow> bool" where
  "plain_name n \<longleftrightarrow> \<not> strcasecmp_eq n ''_body'' \<and> \<not> strcasecmp_eq n ''_id''"

abbreviation values_of :: "fields \<Rightarrow> (string \<times> string option) list" where
  "values_of kv \<equiv> map (\<lambda>(k, v). (k, Some v)) kv"

text \<open>Members with ordinary names become headers, in their order.\<close>

lemma create_headers:
  "string_members cs kv \<Longrightarrow> event_ok h ev ys \<Longrightarrow> \<forall>(k, v) \<in> set kv. plain_name k \<Longrightarrow>
   apart (map fst (kvs h ys) @ map fst kv) \<Longrightarrow>
   length as = length kv \<Longrightarrow> distinct as \<Longrightarrow> NULL \<notin> set as \<Longrightarrow> set as \<inter> hlive h = {} \<Longrightarrow>
   \<exists>h' ev'. (\<forall>bs ds. create_members h ev (as @ bs) (cs @ ds) = create_members h' ev' bs ds) \<and>
     event_ok h' ev' (ys @ as) \<and> kvs h' (ys @ as) = kvs h ys @ values_of kv \<and> hlive h' = hlive h \<union> set as \<and>
     outside_same (set ys \<union> set as) h h' \<and> same_event ev ev'"
proof (induction cs arbitrary: kv h ev ys as)
  case Nil
  then have "kv = []" "as = []" by (simp_all add: string_members_def)
  with Nil show ?case by (intro exI [of _ h] exI [of _ ev]) (simp add: outside_same_refl)
next
  case (Cons c cs)
  from Cons.prems(1) obtain k v kv' where
    kv: "kv = (k, v) # kv'" "jname (node c) = Some k" "valuestring (node c) = Some v" "string_members cs kv'"
    by (auto simp: string_members_Cons)
  from Cons.prems(5) kv(1) obtain a as' where as: "as = a # as'" by (cases as) auto
  have a: "a \<notin> hlive h" "a \<noteq> NULL" using Cons.prems(7,8) as by auto
  have pk: "plain_name k" using Cons.prems(3) kv(1) by auto
  have new: "\<forall>y \<in> set ys. \<not> strcasecmp_eq (hname h y) k"
    using Cons.prems(4) kv(1) by (auto simp: apart_def sorted_wrt_append kvs_def)
  from append_header [OF Cons.prems(2) a, of k v] add_header_new [OF Cons.prems(2) new, of a v]
  obtain h1 ev1 where ad: "agc_event_base_add_header h ev a k v = Some (h1, ev1)" and
    ok: "event_ok h1 ev1 (ys @ [a])" "kvs h1 (ys @ [a]) = kvs h ys @ [(k, Some v)]"
    "hlive h1 = insert a (hlive h)" "outside_same (insert a (set ys)) h h1" "same_event ev ev1" by auto
  have step: "create_members h ev (a # bs) (c # ds) = create_members h1 ev1 bs ds" for bs ds
    using kv(2,3) pk ad by (simp add: plain_name_def agc_event_add_header_string_def)
  have "\<exists>h' ev'. (\<forall>bs ds. create_members h1 ev1 (as' @ bs) (cs @ ds) = create_members h' ev' bs ds) \<and>
     event_ok h' ev' ((ys @ [a]) @ as') \<and> kvs h' ((ys @ [a]) @ as') = kvs h1 (ys @ [a]) @ values_of kv' \<and>
     hlive h' = hlive h1 \<union> set as' \<and> outside_same (set (ys @ [a]) \<union> set as') h1 h' \<and> same_event ev1 ev'"
    by (rule Cons.IH [OF kv(4) ok(1)]) (use Cons.prems kv(1) as ok(2,3) in \<open>auto simp: apart_def\<close>)
  then obtain h' ev' where
    r: "\<And>bs ds. create_members h1 ev1 (as' @ bs) (cs @ ds) = create_members h' ev' bs ds"
    "event_ok h' ev' (ys @ as)" "kvs h' (ys @ as) = kvs h ys @ values_of kv"
    "hlive h' = hlive h \<union> set as" "outside_same (set ys \<union> set as) h1 h'" "same_event ev1 ev'"
    using ok(2,3) kv(1) as by (auto simp: insert_commute)
  have "outside_same (set ys \<union> set as) h h'"
    using outside_same_trans [OF ok(4) r(5)] as by (auto elim: outside_same_mono)
  then show ?case using r step same_event_trans [OF ok(5) r(6)] as
    by (intro exI [of _ h'] exI [of _ ev']) simp
qed

lemma json_headers_fields:
  "hchain h p xs NULL \<Longrightarrow> kvs h xs = values_of kv' \<Longrightarrow>
     json_headers f h (object_of f kv) p = Some (object_of f (kv @ kv'))"
proof (induction xs arbitrary: p kv kv')
  case Nil
  then show ?case by (subst json_headers.simps) (simp add: kvs_def)
next
  case (Cons x xs)
  then obtain v ms where "hvalue h x = Some v" "kv' = (hname h x, v) # ms" "kvs h xs = values_of ms"
    by (cases kv') (auto simp: kvs_def)
  with Cons show ?case by (subst json_headers.simps) (simp add: object_of_snoc)
qed

text \<open>The fields of the text of an event.\<close>

definition id_fields :: "agc_event \<Rightarrow> fields" where
  "id_fields ev = [(''_id'', int_str (event_id ev))]"

definition extra_fields :: "string option \<Rightarrow> agc_event \<Rightarrow> fields" where
  "extra_fields t ev = (case t of None \<Rightarrow> [] | Some name \<Rightarrow> [(''_name'', name)]) @
     (case body ev of None \<Rightarrow> [] | Some b \<Rightarrow> [(''_length'', int_str (to_int32 (int (length b))))])"

definition body_fields :: "agc_event \<Rightarrow> fields" where
  "body_fields ev = (case body ev of None \<Rightarrow> [] | Some b \<Rightarrow> [(''_body'', b)])"

lemma serialize_fields:
  assumes "event_ok h ev xs" "kvs h xs = values_of kv" "arr_get templates (event_id ev) = Some t"
  shows "agc_event_serialize_json_obj f templates h ev =
     Some (object_of f (kv @ id_fields ev @ extra_fields t ev @ body_fields ev))"
proof -
  have "json_headers f h (object_of f []) (headers ev) = Some (object_of f ([] @ kv))"
    by (rule json_headers_fields) (use assms in \<open>auto simp: event_ok_def\<close>)
  moreover have "object_of f [] = cJSON_CreateObject f" by (simp add: object_of_def)
  ultimately show ?thesis using assms(3)
    by (simp add: agc_event_serialize_json_obj_def object_of_snoc id_fields_def extra_fields_def body_fields_def
        split: option.split)
qed

lemma int_str_text: "CHR 0x00 \<notin> set (int_str i)"
proof -
  have "\<forall>c \<in> set (nat_str n). c \<noteq> CHR 0x00" for n using nat_str_digits [of n] by (auto simp: is_digit_def)
  then show ?thesis by (auto simp: int_str_def)
qed

lemma reserved_names:
  "strcasecmp_eq ''_id'' ''_id''" "\<not> strcasecmp_eq ''_id'' ''_body''" "strcasecmp_eq ''_body'' ''_body''"
  "plain_name ''_name''" "plain_name ''_length''"
  by code_simp+

lemma extra_plain: "\<forall>(k, v) \<in> set (extra_fields t ev). plain_name k"
  by (auto simp: extra_fields_def reserved_names split: option.splits)

text \<open>All the members of an event's text, read back.\<close>

lemma create_fields:
  assumes "string_members cs (kv @ id_fields ev @ extra_fields t ev @ body_fields ev)"
    and "0 < event_id ev" "event_id ev < EVENT_ID_LIMIT" "\<forall>(k, v) \<in> set kv. plain_name k"
    and "apart (map fst (kv @ extra_fields t ev))" "length as = length (kv @ extra_fields t ev)"
    and "distinct as" "NULL \<notin> set as" "set as \<inter> hlive h = {}"
  shows "\<exists>h' ev'. create_members h (agc_event_create 0 0) as cs = Some (h', Some ev') \<and>
     event_id ev' = event_id ev \<and> body ev' = body ev \<and> event_ok h' ev' as \<and>
     kvs h' as = values_of (kv @ extra_fields t ev) \<and> outside_same (set as) h h'"
proof -
  let ?e = "agc_event_create 0 0" and ?id = "event_id ev"
  from assms(1) obtain cs1 cs2 cs3 cs4 where cs: "cs = cs1 @ cs2 @ cs3 @ cs4" "string_members cs1 kv"
    "string_members cs2 (id_fields ev)" "string_members cs3 (extra_fields t ev)" "string_members cs4 (body_fields ev)"
    by (metis string_members_append)
  define as1 as2 where "as1 = take (length kv) as" and "as2 = drop (length kv) as"
  have as: "as = as1 @ as2" "length as1 = length kv" "length as2 = length (extra_fields t ev)"
    using assms(6) by (simp_all add: as1_def as2_def)
  have e0: "event_ok h ?e []" by (simp add: event_ok_def agc_event_create_def)
  have "\<exists>h1 ev1. (\<forall>bs ds. create_members h ?e (as1 @ bs) (cs1 @ ds) = create_members h1 ev1 bs ds) \<and>
     event_ok h1 ev1 ([] @ as1) \<and> kvs h1 ([] @ as1) = kvs h [] @ values_of kv \<and> hlive h1 = hlive h \<union> set as1 \<and>
     outside_same (set [] \<union> set as1) h h1 \<and> same_event ?e ev1"
    by (rule create_headers [OF cs(2) e0]) (use assms(4,5,7-9) as in \<open>auto simp: apart_def sorted_wrt_append kvs_def\<close>)
  then obtain h1 ev1 where
    p1: "\<And>bs ds. create_members h ?e (as1 @ bs) (cs1 @ ds) = create_members h1 ev1 bs ds" and
    ok1: "event_ok h1 ev1 as1" "kvs h1 as1 = values_of kv" "hlive h1 = hlive h \<union> set as1" "outside_same (set as1) h h1"
      "same_event ?e ev1" by (auto simp: kvs_def)
  let ?ev1 = "agc_event_set_id ev1 ?id"
  have "c_atoi (int_str ?id) = ?id" by (rule atoi_int_str) (use assms(2,3) in \<open>simp_all add: EVENT_ID_LIMIT_def\<close>)
  moreover have "\<not> EVENT_ID_IS_INVALID ?id" using assms(2,3) by (simp add: EVENT_ID_IS_INVALID_def EVENT_ID_ALL_def)
  moreover from cs(3) obtain c where "cs2 = [c]" "jname (node c) = Some ''_id''" "valuestring (node c) = Some (int_str ?id)"
    by (cases cs2) (auto simp: id_fields_def string_members_def)
  ultimately have p2: "create_members h1 ev1 bs (cs2 @ ds) = create_members h1 ?ev1 bs ds" for bs ds
    by (simp add: reserved_names)
  have e1: "event_ok h1 ?ev1 as1" using ok1(1) by (simp add: event_ok_def agc_event_set_id_def)
  have "\<exists>h2 ev2. (\<forall>bs ds. create_members h1 ?ev1 (as2 @ bs) (cs3 @ ds) = create_members h2 ev2 bs ds) \<and>
     event_ok h2 ev2 (as1 @ as2) \<and> kvs h2 (as1 @ as2) = kvs h1 as1 @ values_of (extra_fields t ev) \<and>
     hlive h2 = hlive h1 \<union> set as2 \<and> outside_same (set as1 \<union> set as2) h1 h2 \<and> same_event ?ev1 ev2"
    by (rule create_headers [OF cs(4) e1 extra_plain]) (use assms(5,7-9) as ok1(2,3) in \<open>auto simp: comp_def split_def\<close>)
  then obtain h2 ev2 where
    p3: "\<And>bs ds. create_members h1 ?ev1 (as2 @ bs) (cs3 @ ds) = create_members h2 ev2 bs ds" and
    ok2: "event_ok h2 ev2 as" "kvs h2 as = values_of (kv @ extra_fields t ev)" "outside_same (set as) h1 h2" "same_event ?ev1 ev2"
    using ok1(2) as by auto
  have f: "event_id ev2 = ?id" "body ev2 = None"
    using same_event_fields [OF ok2(4)] same_event_fields [OF ok1(5)] by (simp_all add: agc_event_set_id_def agc_event_create_def)
  have "create_members h ?e (as1 @ as2 @ []) (cs1 @ cs2 @ cs3 @ cs4) = create_members h2 ev2 [] cs4"
    by (simp only: p1 p2 p3)
  moreover have "create_members h2 ev2 [] cs4 = Some (h2, Some (ev2\<lparr>body := body ev\<rparr>))"
  proof (cases "body ev")
    case None
    with cs(5) f(2) show ?thesis by (simp add: body_fields_def string_members_def)
  next
    case (Some b)
    with cs(5) obtain c where "cs4 = [c]" "jname (node c) = Some ''_body''" "valuestring (node c) = Some b"
      by (cases cs4) (auto simp: body_fields_def string_members_def)
    with Some show ?thesis by (simp add: reserved_names agc_event_set_body_def)
  qed
  ultimately have "create_members h ?e as cs = Some (h2, Some (ev2\<lparr>body := body ev\<rparr>))" using as(1) cs(1) by simp
  moreover have "event_ok h2 (ev2\<lparr>body := body ev\<rparr>) as" using ok2(1) by (simp add: event_ok_def)
  moreover have "outside_same (set as) h h2" using outside_same_trans [OF ok1(4) ok2(3)] as(1) by (auto elim: outside_same_mono)
  ultimately show ?thesis using f ok2(2) by auto
qed

section \<open>Properties\<close>

text \<open>
  C38: an event written as JSON and read back is an event with the same id and body and the
  same headers in the same order, followed by the headers \<^verbatim>\<open>_name\<close> and \<^verbatim>\<open>_length\<close> the writer
  adds; the original event is untouched. The names of the headers are pairwise different,
  also from the ones the writer adds, and no size that the writer counts overflows an \<^verbatim>\<open>int\<close>.
\<close>

theorem agc_event_json_roundtrip:
  assumes "fp_exact f" "event_ok h ev xs" "kvs h xs = values_of kv" "arr_get templates (event_id ev) = Some t"
    and "0 < event_id ev" "event_id ev < EVENT_ID_LIMIT" "\<forall>(k, v) \<in> set kv. plain_name k"
    and "apart (map fst (kv @ extra_fields t ev))" "text_fields (kv @ extra_fields t ev @ body_fields ev)"
    and "fields_fit (kv @ id_fields ev @ extra_fields t ev @ body_fields ev)"
    and "length as = length (kv @ extra_fields t ev)" "distinct as" "NULL \<notin> set as" "set as \<inter> hlive h = {}"
  shows "\<exists>s h' ev'. agc_event_serialize_json f templates h ev = Some (AGC_STATUS_SUCCESS, Some s) \<and>
     agc_event_create_json f h as s = Some (AGC_STATUS_SUCCESS, h', Some ev') \<and>
     event_id ev' = event_id ev \<and> body ev' = body ev \<and> event_ok h' ev' as \<and>
     kvs h' as = values_of (kv @ extra_fields t ev) \<and> event_ok h' ev xs \<and> kvs h' xs = kvs h xs"
proof -
  let ?all = "kv @ id_fields ev @ extra_fields t ev @ body_fields ev"
  have "text_fields ?all" using assms(9) int_str_text reserved_names
    by (auto simp: text_fields_def id_fields_def)
  from print_parse [OF assms(1) object_of_value [OF this] object_of_fits [OF assms(10)], of False] obtain s c' where
    s: "cJSON_PrintUnformatted f (object_of f ?all) = Val s" "cJSON_Parse f s = Val c'"
    "jval_of f c' = Some (JObj (map (\<lambda>(k, v). (k, JStr v)) ?all))" unfolding cJSON_PrintUnformatted_def by blast
  obtain it cs where c': "c' = CJ it cs" by (cases c')
  from s(3) have "jmembers_of f cs = Some (map (\<lambda>(k, v). (k, JStr v)) ?all)" by (auto simp: c' split: if_splits option.splits)
  then have "string_members cs ?all" by (rule jmembers_strings)
  from create_fields [OF this assms(5-8,11-14)] obtain h' ev' where
    r: "create_members h (agc_event_create 0 0) as cs = Some (h', Some ev')" "event_id ev' = event_id ev" "body ev' = body ev"
    "event_ok h' ev' as" "kvs h' as = values_of (kv @ extra_fields t ev)" "outside_same (set as) h h'" by blast
  have "\<not> EVENT_ID_IS_INVALID (event_id ev')"
    using assms(5,6) r(2) by (simp add: EVENT_ID_IS_INVALID_def EVENT_ID_ALL_def)
  then have "agc_event_create_json f h as s = Some (AGC_STATUS_SUCCESS, h', Some ev')"
    using s(2) r(1) by (simp add: agc_event_create_json_def c')
  moreover have "agc_event_serialize_json f templates h ev = Some (AGC_STATUS_SUCCESS, Some s)"
    using serialize_fields [OF assms(2-4), of f] s(1) by (simp add: agc_event_serialize_json_def)
  moreover have "set xs \<inter> set as = {}"
    using hchain_live [of h "headers ev" xs NULL] assms(2,14) by (auto simp: event_ok_def)
  ultimately show ?thesis using r outside_event [OF assms(2) r(6)] outside_kvs [OF r(6)] by blast
qed

theorem agc_event_json_roundtrip_witness:
  "\<exists>s h' ev'. agc_event_serialize_json demo_fp (replicate 1024 None) demo_headers demo_event = Some (AGC_STATUS_SUCCESS, Some s) \<and>
     agc_event_create_json demo_fp demo_headers [5, 6] s = Some (AGC_STATUS_SUCCESS, h', Some ev') \<and> event_id ev' = 3 \<and>
     kvs h' [5, 6] = [(''uuid'', Some ''7''), (''code'', Some ''7'')]"
proof -
  let ?kv = "[(''uuid'', ''7''), (''code'', ''7'')]"
  have "extra_fields None demo_event = []" "body_fields demo_event = []"
    by (simp_all add: extra_fields_def body_fields_def demo_event_def agc_event_create_def)
  moreover have "event_id demo_event = 3" by (simp add: demo_event_def agc_event_create_def)
  moreover have "kvs demo_headers [1, 2] = values_of ?kv" by (simp add: kvs_def demo_headers_def)
  moreover have "\<forall>(k, v) \<in> set ?kv. plain_name k" by code_simp
  moreover have "apart (map fst ?kv)" using demo_names by (simp add: apart_def)
  moreover have "text_fields ?kv" by (simp add: text_fields_def)
  moreover have "fields_fit (?kv @ id_fields demo_event)" by code_simp
  moreover have "arr_get (replicate 1024 None) (3::int) = Some (None :: string option)" by (simp add: arr_get_def)
  ultimately show ?thesis
    using agc_event_json_roundtrip [OF demo_fp_exact demo_event_ok, of ?kv "replicate 1024 None" None "[5, 6]"]
    by (fastforce simp: EVENT_ID_LIMIT_def demo_headers_def)
qed

text \<open>
  \<^verbatim>\<open>agc_event_create_json\<close> rejects a JSON text whose members are strings without an
  \<^verbatim>\<open>_id\<close>, and frees every header it had made of them.
\<close>

theorem agc_event_create_json_rejects:
  assumes "cJSON_Parse f s = Val cj" "string_members (child cj) kv" "\<forall>(k, v) \<in> set kv. plain_name k" "apart (map fst kv)"
    and "length as = length kv" "distinct as" "NULL \<notin> set as" "set as \<inter> hlive h = {}"
  shows "\<exists>h'. agc_event_create_json f h as s = Some (AGC_STATUS_FALSE, h', None) \<and> hlive h' = hlive h"
proof -
  let ?e = "agc_event_create 0 0"
  have e0: "event_ok h ?e []" by (simp add: event_ok_def agc_event_create_def)
  have "\<exists>h1 ev1. (\<forall>bs ds. create_members h ?e (as @ bs) (child cj @ ds) = create_members h1 ev1 bs ds) \<and>
     event_ok h1 ev1 ([] @ as) \<and> kvs h1 ([] @ as) = kvs h [] @ values_of kv \<and> hlive h1 = hlive h \<union> set as \<and>
     outside_same (set [] \<union> set as) h h1 \<and> same_event ?e ev1"
    by (rule create_headers [OF assms(2) e0 assms(3)]) (use assms(4-8) in \<open>auto simp: kvs_def\<close>)
  then obtain h1 ev1 where
    p: "\<And>bs ds. create_members h ?e (as @ bs) (child cj @ ds) = create_members h1 ev1 bs ds" and
    ok: "event_ok h1 ev1 as" "hlive h1 = hlive h \<union> set as" "same_event ?e ev1" by auto
  have m: "create_members h ?e as (child cj) = Some (h1, Some ev1)" using p [of "[]" "[]"] by simp
  have "EVENT_ID_IS_INVALID (event_id ev1)"
    using same_event_fields [OF ok(3)] by (simp add: EVENT_ID_IS_INVALID_def EVENT_ID_ALL_def agc_event_create_def)
  moreover obtain h2 where "destroy_loop h1 (headers ev1) = Some h2" "hlive h2 = hlive h1 - set as"
    using destroy_chain [of h1 "headers ev1" as] ok(1) by (auto simp: event_ok_def)
  moreover have "hlive h1 - set as = hlive h" using ok(2) assms(8) by auto
  ultimately show ?thesis using assms(1) m by (simp add: agc_event_create_json_def agc_event_destroy_def)
qed

theorem agc_event_create_json_rejects_witness:
  "\<exists>h'. agc_event_create_json demo_fp demo_headers [] ''{}'' = Some (AGC_STATUS_FALSE, h', None) \<and> hlive h' = {1, 2}"
proof -
  have "cJSON_Parse demo_fp ''{}'' = Val (cJSON_CreateObject demo_fp)"
    by (simp add: cJSON_Parse_def skip_def numeral_eq_Suc is_digit_def starts_def cJSON_CreateObject_def create_typed_def)
  moreover have "string_members (child (cJSON_CreateObject demo_fp)) []"
    by (simp add: string_members_def cJSON_CreateObject_def create_typed_def)
  ultimately show ?thesis
    using agc_event_create_json_rejects [of demo_fp "''{}''" "cJSON_CreateObject demo_fp" "[]" "[]" demo_headers]
    by (simp add: apart_def demo_headers_def)
qed

end
