(* ===== verification/Agc_Utils.thy ===== *)
theory Agc_Utils
  imports Agc_Json_Laws
begin

text \<open>
  The string helpers of \<^verbatim>\<open>src/src/agc_utils.c\<close> and \<^verbatim>\<open>src/src/include/agc_utils.h\<close>: base names,
  numbers, the splitter of command lines with its quotes and escapes, and the case
  conversions that work on several bytes at a time. Reading past the end of a string is
  \<open>Fault\<close>.
\<close>

section \<open>Operations\<close>

text \<open>One round of \<^verbatim>\<open>agc_cut_path\<close>: step behind every occurrence of a delimiter.\<close>

fun cut_after :: "char \<Rightarrow> string \<Rightarrow> string \<Rightarrow> string" where
  "cut_after d ret [] = ret"
| "cut_after d ret (c # p) = (if c = d then cut_after d p p else cut_after d ret p)"

definition agc_cut_path :: "string option \<Rightarrow> string option" where
  "agc_cut_path inp = (case inp of None \<Rightarrow> None
     | Some s \<Rightarrow> Some (cut_after (CHR 0x5C) (cut_after (CHR ''/'') s s) s))"

definition agc_is_number :: "string \<Rightarrow> bool" where
  "agc_is_number s =
     (let s = (if starts (\<lambda>c. c = CHR 0x2D \<or> c = CHR 0x2B) s then tl s else s) in
      list_all (\<lambda>c. c = CHR ''.'' \<or> is_digit c) s)"

definition agc_atoui :: "string \<Rightarrow> u32" where
  "agc_atoui s = (let tmp = strtol10 s in if tmp < 0 then 0 else of_int tmp)"

definition unescape_char :: "char \<Rightarrow> char" where
  "unescape_char e = (if e = CHR ''n'' then CHR 0x0A else if e = CHR ''r'' then CHR 0x0D
     else if e = CHR ''t'' then CHR 0x09 else if e = CHR ''s'' then CHR '' '' else e)"

definition is_escape :: "char \<Rightarrow> char \<Rightarrow> bool" where
  "is_escape delim e \<longleftrightarrow> e = CHR 0x27 \<or> e = CHR 0x22 \<or> delim \<noteq> CHR 0x00 \<and> e = delim \<or> e = CHR 0x5C"

text \<open>
  The copying loop of \<^verbatim>\<open>cleanup_separated_string\<close>: \<open>out\<close> is what has been written, \<open>end\<close> the
  length it is cut to.
\<close>

fun cleanup_loop :: "char \<Rightarrow> bool \<Rightarrow> string \<Rightarrow> nat option \<Rightarrow> string \<Rightarrow> string" where
  "cleanup_loop delim inside out fin [] = (case fin of None \<Rightarrow> out | Some n \<Rightarrow> take n out)"
| "cleanup_loop delim inside out fin [c] =
     (if c = CHR 0x27 \<and> inside then cleanup_loop delim False out fin []
      else cleanup_loop delim inside (out @ [c]) (if c \<noteq> CHR '' '' \<or> inside then Some (Suc (length out)) else fin) [])"
| "cleanup_loop delim inside out fin (c # e # r) =
     (if c = CHR 0x5C \<and> is_escape delim e then cleanup_loop delim inside (out @ [e]) (Some (Suc (length out))) r
      else if c = CHR 0x5C \<and> unescape_char e \<noteq> e
      then cleanup_loop delim inside (out @ [unescape_char e]) (Some (Suc (length out))) r
      else if c = CHR 0x27 \<and> (inside \<or> CHR 0x27 \<in> set (e # r))
      then cleanup_loop delim (\<not> inside) out (if \<not> inside then Some (length out) else fin) (e # r)
      else cleanup_loop delim inside (out @ [c]) (if c \<noteq> CHR '' '' \<or> inside then Some (Suc (length out)) else fin) (e # r))"

definition cleanup_separated_string :: "string \<Rightarrow> char \<Rightarrow> string" where
  "cleanup_separated_string s delim = cleanup_loop delim False [] None (dropWhile (\<lambda>c. c = CHR '' '') s)"

text \<open>
  The tokenizers return the tokens as they are cut; \<open>k\<close> is the number of free slots of the
  array and \<open>cur\<close> the text of the current token. With no free slot the token is the rest.
\<close>

fun find_delim_char :: "char \<Rightarrow> nat \<Rightarrow> bool \<Rightarrow> string \<Rightarrow> string \<Rightarrow> string list cres" where
  "find_delim_char delim k inside cur [] = Val [cur]"
| "find_delim_char delim 0 inside cur (c # r) = Val [cur @ c # r]"
| "find_delim_char delim (Suc k) inside cur (c # r) =
     (if c = CHR 0x5C then
        (case r of [] \<Rightarrow> Fault | e # r' \<Rightarrow> find_delim_char delim (Suc k) inside (cur @ [c, e]) r')
      else if c = CHR 0x27 \<and> (inside \<or> CHR 0x27 \<in> set r) then find_delim_char delim (Suc k) (\<not> inside) (cur @ [c]) r
      else if c = delim \<and> \<not> inside then
        cbind (if r = [] then Val [] else find_delim_char delim k inside [] r) (\<lambda>ts. Val (cur # ts))
      else find_delim_char delim (Suc k) inside (cur @ [c]) r)"

definition separate_string_char_delim :: "string \<Rightarrow> char \<Rightarrow> nat \<Rightarrow> string list cres" where
  "separate_string_char_delim buf delim arraylen =
     cbind (if buf = [] \<or> arraylen = 0 then Val [] else find_delim_char delim (arraylen - 1) False [] buf)
       (\<lambda>ts. Val (map (\<lambda>t. cleanup_separated_string t delim) ts))"

fun find_delim_blank :: "nat \<Rightarrow> bool \<Rightarrow> bool \<Rightarrow> string \<Rightarrow> string \<Rightarrow> string list cres" where
  "find_delim_blank k initial inside cur [] = Val [cur]"
| "find_delim_blank 0 initial inside cur (c # r) = Val [cur @ c # r]"
| "find_delim_blank (Suc k) initial inside cur (c # r) =
     (if initial \<and> c = CHR '' '' then find_delim_blank (Suc k) True inside (cur @ [c]) r
      else if c = CHR 0x5C then
        (case r of [] \<Rightarrow> Fault | e # r' \<Rightarrow> find_delim_blank (Suc k) False inside (cur @ [c, e]) r')
      else if c = CHR 0x27 then find_delim_blank (Suc k) False (\<not> inside) (cur @ [c]) r
      else if c = CHR '' '' \<and> \<not> inside then
        (let r = dropWhile (\<lambda>c. c = CHR '' '') r in
         cbind (if r = [] then Val [] else find_delim_blank k True inside [] r) (\<lambda>ts. Val (cur # ts)))
      else find_delim_blank (Suc k) False inside (cur @ [c]) r)"

definition separate_string_blank_delim :: "string \<Rightarrow> nat \<Rightarrow> string list cres" where
  "separate_string_blank_delim buf arraylen =
     cbind (if buf = [] \<or> arraylen = 0 then Val [] else find_delim_blank (arraylen - 1) True False [] buf)
       (\<lambda>ts. Val (map (\<lambda>t. cleanup_separated_string t (CHR 0x00)) ts))"

definition agc_separate_string :: "string option \<Rightarrow> char \<Rightarrow> nat \<Rightarrow> string list cres" where
  "agc_separate_string buf delim arraylen = (case buf of
     None \<Rightarrow> Val []
   | Some buf \<Rightarrow>
       if arraylen = 0 then Val []
       else (let (buf, delim) =
               (case buf of
                  a # b # d # x # r \<Rightarrow> if a = CHR ''^'' \<and> b = CHR ''^'' then (x # r, d) else (buf, delim)
                | _ \<Rightarrow> (buf, delim))
             in if delim = CHR '' '' then separate_string_blank_delim buf arraylen
                else separate_string_char_delim buf delim arraylen))"

definition zstr :: "string option \<Rightarrow> bool" where
  "zstr s \<longleftrightarrow> (case s of None \<Rightarrow> True | Some s \<Rightarrow> s = [])"

definition agc_true :: "string option \<Rightarrow> bool" where
  "agc_true expr \<longleftrightarrow> (case expr of None \<Rightarrow> False
     | Some s \<Rightarrow> list_ex (strcasecmp_eq s) [''yes'', ''on'', ''true'', ''t'', ''enabled'', ''active'', ''allow''] \<or>
                agc_is_number s \<and> c_atoi s \<noteq> 0)"

section \<open>Case conversion, four and eight bytes at a time\<close>

definition agc_toupper :: "u32 \<Rightarrow> u32" where
  "agc_toupper eax =
     (let ebx = and 0x7f7f7f7f eax + 0x05050505;
          ebx = and 0x7f7f7f7f ebx + 0x1a1a1a1a;
          ebx = and (drop_bit 2 (and ebx (not eax))) 0x20202020
      in eax - ebx)"

definition agc_tolower :: "u32 \<Rightarrow> u32" where
  "agc_tolower eax =
     (let ebx = and 0x7f7f7f7f eax + 0x25252525;
          ebx = and 0x7f7f7f7f ebx + 0x1a1a1a1a;
          ebx = and (drop_bit 2 (and ebx (not eax))) 0x20202020
      in eax + ebx)"

definition agc_toupper64 :: "u64 \<Rightarrow> u64" where
  "agc_toupper64 eax =
     (let ebx = and 0x7f7f7f7f7f7f7f7f eax + 0x0505050505050505;
          ebx = and 0x7f7f7f7f7f7f7f7f ebx + 0x1a1a1a1a1a1a1a1a;
          ebx = and (drop_bit 2 (and ebx (not eax))) 0x2020202020202020
      in eax - ebx)"

definition agc_tolower64 :: "u64 \<Rightarrow> u64" where
  "agc_tolower64 eax =
     (let ebx = and 0x7f7f7f7f7f7f7f7f eax + 0x2525252525252525;
          ebx = and 0x7f7f7f7f7f7f7f7f ebx + 0x1a1a1a1a1a1a1a1a;
          ebx = and (drop_bit 2 (and ebx (not eax))) 0x2020202020202020
      in eax + ebx)"

text \<open>Eight bytes of the string as a little-endian word, and back.\<close>

fun join_bytes :: "char list \<Rightarrow> int" where
  "join_bytes [] = 0"
| "join_bytes (c # cs) = of_char c + 256 * join_bytes cs"

fun split_bytes :: "nat \<Rightarrow> int \<Rightarrow> char list" where
  "split_bytes 0 w = []"
| "split_bytes (Suc n) w = char_of (w mod 256) # split_bytes n (w div 256)"

text \<open>The value of a \<^verbatim>\<open>char\<close> is sign-extended when it is passed as \<^verbatim>\<open>uint32_t\<close>.\<close>

definition char_arg :: "char \<Rightarrow> u32" where
  "char_arg c = (if (of_char c :: nat) < 128 then of_char c else of_char c - 256)"

function convert_max :: "(u64 \<Rightarrow> u64) \<Rightarrow> (u32 \<Rightarrow> u32) \<Rightarrow> string \<Rightarrow> string" where
  "convert_max f64 f32 s =
     (if 8 < length s then split_bytes 8 (uint (f64 (word_of_int (join_bytes (take 8 s))))) @ convert_max f64 f32 (drop 8 s)
      else map (\<lambda>c. char_of (unat (f32 (char_arg c)))) s)"
  by pat_completeness auto
termination by (relation "measure (\<lambda>(_, _, s). length s)") auto

declare convert_max.simps [simp del]

definition agc_toupper_max :: "string \<Rightarrow> string" where
  "agc_toupper_max s = convert_max agc_toupper64 agc_toupper s"

definition agc_tolower_max :: "string \<Rightarrow> string" where
  "agc_tolower_max s = convert_max agc_tolower64 agc_tolower s"

end
