(* ===== verification/Agc_Utils_Laws.thy ===== *)
theory Agc_Utils_Laws
  imports Agc_Utils
begin

text \<open>
  Laws of the string helpers: the word-at-a-time case conversions change exactly the letters,
  byte by byte, and the splitter takes apart what was joined with a delimiter.
\<close>

section \<open>Arithmetic on bytes packed into one integer\<close>

abbreviation cat8 :: "int \<Rightarrow> int \<Rightarrow> int" where
  "cat8 b x \<equiv> concat_bit 8 b x"

lemma cat8_eq: "0 \<le> b \<Longrightarrow> b < 256 \<Longrightarrow> cat8 b x = b + 256 * x"
  by (simp add: concat_bit_eq take_bit_int_eq_self push_bit_eq_mult)

lemma cat8_and: "and (cat8 b x) (cat8 c y) = cat8 (and b c) (and x y)"
  by (rule bit_eqI) (auto simp: bit_concat_bit_iff bit_and_iff)

lemma cat8_not: "not (cat8 b x) = cat8 (not b) (not x)"
  by (rule bit_eqI) (auto simp: bit_concat_bit_iff bit_not_iff)

lemma cat8_add: "0 \<le> b \<Longrightarrow> 0 \<le> c \<Longrightarrow> b + c < 256 \<Longrightarrow> cat8 b x + cat8 c y = cat8 (b + c) (x + y)"
  by (simp add: cat8_eq)

lemma cat8_diff: "0 \<le> c \<Longrightarrow> c \<le> b \<Longrightarrow> b < 256 \<Longrightarrow> cat8 b x - cat8 c y = cat8 (b - c) (x - y)"
  by (simp add: cat8_eq)

lemma cat8_shift: "and (drop_bit 2 (cat8 b x)) (cat8 0x20 y) = cat8 (and (drop_bit 2 b) 0x20) (and (drop_bit 2 x) y)"
proof (rule bit_eqI)
  fix n
  have "bit (0x20 :: int) n \<longleftrightarrow> n = 5" using bit_exp_iff [of 5 n, where ?'a = int] by simp
  then show "bit (and (drop_bit 2 (cat8 b x)) (cat8 0x20 y)) n = bit (cat8 (and (drop_bit 2 b) 0x20) (and (drop_bit 2 x) y)) n"
  proof (cases "n < 8")
    case False
    then have "Suc (Suc n) - 8 = Suc (Suc (n - 8))" by simp
    with False show ?thesis by (simp add: bit_concat_bit_iff bit_and_iff bit_drop_bit_eq)
  qed (use \<open>bit 0x20 n \<longleftrightarrow> n = 5\<close> in \<open>auto simp: bit_concat_bit_iff bit_and_iff bit_drop_bit_eq\<close>)
qed

text \<open>The constant with the same byte everywhere.\<close>

fun spread :: "nat \<Rightarrow> int \<Rightarrow> int" where
  "spread 0 c = 0"
| "spread (Suc n) c = cat8 c (spread n c)"

definition case_mask :: "int \<Rightarrow> int \<Rightarrow> int \<Rightarrow> int \<Rightarrow> int \<Rightarrow> int" where
  "case_mask m k a s x = and (drop_bit 2 (and (and m (and m x + k) + a) (not x))) s"

lemma case_mask_step:
  assumes "0 \<le> k" "k < 128"
  shows "case_mask (cat8 0x7f m) (cat8 k k') (cat8 0x1a a) (cat8 0x20 s) (cat8 b x) =
     cat8 (case_mask 0x7f k 0x1a 0x20 b) (case_mask m k' a s x)"
proof -
  have a: "0 \<le> and 0x7f y" "and 0x7f y \<le> 0x7f" for y :: int by simp_all
  have "and (cat8 0x7f m) (cat8 b x) + cat8 k k' = cat8 (and 0x7f b + k) (and m x + k')"
    unfolding cat8_and by (rule cat8_add) (use a [of b] assms in linarith)+
  moreover have "and (cat8 0x7f m) (cat8 c y) + cat8 0x1a a = cat8 (and 0x7f c + 0x1a) (and m y + a)" for c y
    unfolding cat8_and by (rule cat8_add) (use a [of c] in linarith)+
  ultimately show ?thesis by (simp only: case_mask_def cat8_not cat8_and cat8_shift)
qed

lemma byte_upper: "\<forall>c :: char. case_mask 0x7f 5 0x1a 0x20 (of_char c) = (if 97 \<le> (of_char c :: int) \<and> (of_char c :: int) \<le> 122 then 32 else 0)"
  by code_simp

lemma byte_lower: "\<forall>c :: char. case_mask 0x7f 0x25 0x1a 0x20 (of_char c) = (if 65 \<le> (of_char c :: int) \<and> (of_char c :: int) \<le> 90 then 32 else 0)"
  by code_simp

section \<open>The case conversions\<close>

definition c_toupper :: "char \<Rightarrow> char" where
  "c_toupper c =
     (if 97 \<le> (of_char c :: nat) \<and> (of_char c :: nat) \<le> 122 then char_of ((of_char c :: nat) - 32) else c)"

lemma of_char_bounds: "0 \<le> (of_char c :: int)" "(of_char c :: int) < 256"
proof -
  have "(of_char c :: nat) < 256" by (rule nat_of_char_less_256)
  then show "0 \<le> (of_char c :: int)" "(of_char c :: int) < 256"
    by (metis of_nat_0_le_iff of_nat_of_char, metis of_nat_less_iff of_nat_numeral of_nat_of_char)
qed

lemma join_Cons: "join_bytes (c # cs) = cat8 (of_char c) (join_bytes cs)"
  by (simp add: cat8_eq of_char_bounds)

lemma join_bounds: "0 \<le> join_bytes cs \<and> join_bytes cs < 256 ^ length cs"
proof (induction cs)
  case (Cons c cs)
  have "join_bytes (c # cs) < 256 + 256 * join_bytes cs" using of_char_bounds(2) [of c] by simp
  also have "\<dots> \<le> 256 * 256 ^ length cs" using Cons by (simp add: int_one_le_iff_zero_less add_le_imp_le_diff)
  finally show ?case using Cons of_char_bounds(1) [of c] by simp
qed simp

lemma split_join: "split_bytes (length cs) (join_bytes cs) = cs"
proof (induction cs)
  case (Cons c cs)
  have "join_bytes (c # cs) mod 256 = of_char c" "join_bytes (c # cs) div 256 = join_bytes cs"
    using of_char_bounds [of c] by simp_all
  with Cons show ?case by simp
qed simp

lemma of_char_int: "(of_char c :: int) = int (of_char c)"
  by (rule of_nat_of_char [symmetric])

lemma of_char_toupper:
  "(of_char (c_toupper c) :: int) = of_char c - (if 97 \<le> (of_char c :: int) \<and> (of_char c :: int) \<le> 122 then 32 else 0)"
proof -
  let ?n = "of_char c :: nat"
  have "(of_char (c_toupper c) :: nat) = ?n - (if 97 \<le> ?n \<and> ?n \<le> 122 then 32 else 0)"
    using nat_of_char_less_256 [of c] by (auto simp: c_toupper_def)
  then show ?thesis unfolding of_char_int by (auto simp del: of_nat_of_char)
qed

lemma of_char_tolower:
  "(of_char (c_tolower c) :: int) = of_char c + (if 65 \<le> (of_char c :: int) \<and> (of_char c :: int) \<le> 90 then 32 else 0)"
proof -
  let ?n = "of_char c :: nat"
  have "(of_char (c_tolower c) :: nat) = ?n + (if 65 \<le> ?n \<and> ?n \<le> 90 then 32 else 0)"
    by (simp add: c_tolower_def)
  then show ?thesis unfolding of_char_int by (auto simp del: of_nat_of_char)
qed

abbreviation spread_mask :: "nat \<Rightarrow> int \<Rightarrow> int \<Rightarrow> int" where
  "spread_mask n k x \<equiv> case_mask (spread n 0x7f) (spread n k) (spread n 0x1a) (spread n 0x20) x"

lemma upper_bytes: "length cs = n \<Longrightarrow> join_bytes cs - spread_mask n 5 (join_bytes cs) = join_bytes (map c_toupper cs)"
proof (induction cs arbitrary: n)
  case Nil
  then show ?case by (simp add: case_mask_def)
next
  case (Cons c cs)
  then obtain m where m: "n = Suc m" "length cs = m" by (cases n) auto
  let ?e = "case_mask 0x7f 5 0x1a 0x20 (of_char c)"
  have e: "of_char (c_toupper c) = of_char c - ?e" "0 \<le> ?e" "?e \<le> of_char c"
    using byte_upper of_char_toupper of_char_bounds(1) [of c] by (auto split: if_splits)
  have "join_bytes (c # cs) - spread_mask n 5 (join_bytes (c # cs)) =
      cat8 (of_char c) (join_bytes cs) - cat8 ?e (spread_mask m 5 (join_bytes cs))"
    unfolding m(1) spread.simps join_Cons by (simp only: case_mask_step)
  also have "\<dots> = cat8 (of_char c - ?e) (join_bytes cs - spread_mask m 5 (join_bytes cs))"
    using e of_char_bounds [of c] by (intro cat8_diff) auto
  also have "\<dots> = join_bytes (map c_toupper (c # cs))"
    using Cons.IH [OF m(2)] unfolding list.map join_Cons e(1) by simp
  finally show ?case .
qed

lemma lower_bytes: "length cs = n \<Longrightarrow> join_bytes cs + spread_mask n 0x25 (join_bytes cs) = join_bytes (map c_tolower cs)"
proof (induction cs arbitrary: n)
  case Nil
  then show ?case by (simp add: case_mask_def)
next
  case (Cons c cs)
  then obtain m where m: "n = Suc m" "length cs = m" by (cases n) auto
  let ?e = "case_mask 0x7f 0x25 0x1a 0x20 (of_char c)"
  have e: "of_char (c_tolower c) = of_char c + ?e" "0 \<le> ?e"
    using byte_lower of_char_tolower by (auto split: if_splits)
  have "join_bytes (c # cs) + spread_mask n 0x25 (join_bytes (c # cs)) =
      cat8 (of_char c) (join_bytes cs) + cat8 ?e (spread_mask m 0x25 (join_bytes cs))"
    unfolding m(1) spread.simps join_Cons by (simp only: case_mask_step)
  also have "\<dots> = cat8 (of_char c + ?e) (join_bytes cs + spread_mask m 0x25 (join_bytes cs))"
    using e of_char_bounds [of c] of_char_bounds [of "c_tolower c"] by (intro cat8_add) auto
  also have "\<dots> = join_bytes (map c_tolower (c # cs))"
    using Cons.IH [OF m(2)] unfolding list.map join_Cons e(1) by simp
  finally show ?case .
qed

lemma spread_words:
  "spread 8 0x7f = 0x7f7f7f7f7f7f7f7f" "spread 8 5 = 0x0505050505050505" "spread 8 0x25 = 0x2525252525252525"
  "spread 8 0x1a = 0x1a1a1a1a1a1a1a1a" "spread 8 0x20 = 0x2020202020202020"
  "spread 4 0x7f = 0x7f7f7f7f" "spread 4 5 = 0x05050505" "spread 4 0x25 = 0x25252525"
  "spread 4 0x1a = 0x1a1a1a1a" "spread 4 0x20 = 0x20202020"
  by code_simp+

lemma drop_bit_of_int:
  assumes "0 \<le> t" "t < 2 ^ LENGTH('a::len)"
  shows "drop_bit 2 (of_int t :: 'a word) = of_int (drop_bit 2 t)"
proof (rule word_uint_eqI)
  have "uint (of_int t :: 'a word) = t" using assms by (simp add: uint_word_of_int_eq take_bit_int_eq_self)
  moreover have "0 \<le> drop_bit 2 t" "drop_bit 2 t < 2 ^ LENGTH('a)"
    using assms by (simp_all add: drop_bit_eq_div)
  ultimately show "uint (drop_bit 2 (of_int t :: 'a word)) = uint (of_int (drop_bit 2 t) :: 'a word)"
    by (simp add: unsigned_drop_bit_eq uint_word_of_int_eq take_bit_int_eq_self)
qed

lemma case_mask_word:
  fixes m k a s x :: int
  assumes "0 \<le> m" "0 \<le> a" "m + a < 2 ^ LENGTH('a::len)"
  shows "and (drop_bit 2 (and (and (of_int m) (and (of_int m) (of_int x) + of_int k) + of_int a) (not (of_int x)))) (of_int s) =
     (of_int (case_mask m k a s x) :: 'a word)"
proof -
  let ?t = "and (and m (and m x + k) + a) (not x)"
  have b: "0 \<le> and m (and m x + k)" "and m (and m x + k) \<le> m" using assms(1) by (simp_all add: AND_upper1)
  then have "0 \<le> ?t" "?t \<le> and m (and m x + k) + a" using assms(2) by (simp_all add: AND_upper1)
  then have "drop_bit 2 (of_int ?t :: 'a word) = of_int (drop_bit 2 ?t)" using b assms by (intro drop_bit_of_int) linarith+
  then show ?thesis by (simp add: case_mask_def of_int_and_eq of_int_not_eq)
qed

lemma toupper64_word: "agc_toupper64 (of_int x) = of_int (x - spread_mask 8 5 x)"
  using case_mask_word [of "spread 8 0x7f" "spread 8 0x1a" x "spread 8 5" "spread 8 0x20", where ?'a = 64]
  by (simp add: agc_toupper64_def spread_words)

lemma tolower64_word: "agc_tolower64 (of_int x) = of_int (x + spread_mask 8 0x25 x)"
  using case_mask_word [of "spread 8 0x7f" "spread 8 0x1a" x "spread 8 0x25" "spread 8 0x20", where ?'a = 64]
  by (simp add: agc_tolower64_def spread_words)

lemma toupper_word: "agc_toupper (of_int x) = of_int (x - spread_mask 4 5 x)"
  using case_mask_word [of "spread 4 0x7f" "spread 4 0x1a" x "spread 4 5" "spread 4 0x20", where ?'a = 32]
  by (simp add: agc_toupper_def spread_words)

lemma tolower_word: "agc_tolower (of_int x) = of_int (x + spread_mask 4 0x25 x)"
  using case_mask_word [of "spread 4 0x7f" "spread 4 0x1a" x "spread 4 0x25" "spread 4 0x20", where ?'a = 32]
  by (simp add: agc_tolower_def spread_words)

lemma word8_bytes:
  assumes "length cs = 8"
  shows "split_bytes 8 (uint (of_int (join_bytes cs) :: u64)) = cs"
proof -
  have "0 \<le> join_bytes cs" "join_bytes cs < 2 ^ 64" using join_bounds [of cs] assms by simp_all
  then have "uint (of_int (join_bytes cs) :: u64) = join_bytes cs" by (simp add: uint_word_of_int_eq take_bit_int_eq_self)
  then show ?thesis using split_join [of cs] assms by simp
qed

lemma char_arg_word: "\<exists>z. char_arg c = of_int (join_bytes [c, z, z, z])"
proof (cases "(of_char c :: nat) < 128")
  case True
  have "(of_char (CHR 0x00) :: int) = 0" by simp
  with True show ?thesis by (intro exI [of _ "CHR 0x00"]) (simp add: char_arg_def of_int_of_char)
next
  case False
  have "(of_char (CHR 0xFF) :: int) = 255" by simp
  with False show ?thesis by (intro exI [of _ "CHR 0xFF"]) (simp add: char_arg_def of_int_of_char)
qed

lemma first_byte: "char_of (unat (of_int (join_bytes (c # cs)) :: u32)) = c"
proof -
  let ?w = "of_int (join_bytes (c # cs)) :: u32"
  have "join_bytes (c # cs) mod 256 = of_char c" using of_char_bounds [of c] by simp
  moreover have "uint ?w mod 256 = join_bytes (c # cs) mod 256"
    unfolding uint_word_of_int_eq take_bit_eq_mod by (rule mod_mod_cancel) simp
  ultimately have "uint ?w mod 256 = of_char c" by simp
  then have "unat ?w mod 256 = of_char c"
    by (metis (mono_tags) of_char_int nat_int nat_mod_distrib nat_numeral uint_ge_0 unat_eq_nat_uint zero_le_numeral)
  then show ?thesis by (metis char_of_char char_of_mod_256)
qed

lemma upper_char: "char_of (unat (agc_toupper (char_arg c))) = c_toupper c"
proof -
  obtain z where z: "char_arg c = of_int (join_bytes [c, z, z, z])" using char_arg_word by blast
  have "length [c, z, z, z] = 4" by simp
  from upper_bytes [OF this] have "agc_toupper (char_arg c) = of_int (join_bytes (map c_toupper [c, z, z, z]))"
    unfolding z toupper_word by (rule arg_cong)
  then show ?thesis unfolding list.map by (simp only: first_byte)
qed

lemma lower_char: "char_of (unat (agc_tolower (char_arg c))) = c_tolower c"
proof -
  obtain z where z: "char_arg c = of_int (join_bytes [c, z, z, z])" using char_arg_word by blast
  have "length [c, z, z, z] = 4" by simp
  from lower_bytes [OF this] have "agc_tolower (char_arg c) = of_int (join_bytes (map c_tolower [c, z, z, z]))"
    unfolding z tolower_word by (rule arg_cong)
  then show ?thesis unfolding list.map by (simp only: first_byte)
qed

lemma convert_max_map:
  assumes "\<And>cs. length cs = 8 \<Longrightarrow> f64 (of_int (join_bytes cs)) = of_int (join_bytes (map g cs))"
    and "\<And>c. char_of (unat (f32 (char_arg c))) = g c"
  shows "convert_max f64 f32 s = map g s"
proof (induction s rule: length_induct)
  case (1 s)
  show ?case
  proof (cases "8 < length s")
    case True
    then have "split_bytes 8 (uint (f64 (of_int (join_bytes (take 8 s))))) = map g (take 8 s)"
      using assms(1) [of "take 8 s"] word8_bytes [of "map g (take 8 s)"] by simp
    moreover have "convert_max f64 f32 (drop 8 s) = map g (drop 8 s)" using 1 True by simp
    ultimately show ?thesis using True by (subst convert_max.simps) (simp flip: map_append)
  next
    case False
    then show ?thesis using assms(2) by (subst convert_max.simps) simp
  qed
qed

section \<open>The splitter\<close>

text \<open>A field the splitter and the clean-up leave alone.\<close>

definition plain_char :: "char \<Rightarrow> char \<Rightarrow> bool" where
  "plain_char d c \<longleftrightarrow> c \<noteq> d \<and> c \<noteq> CHR 0x5C \<and> c \<noteq> CHR 0x27"

definition field_ok :: "char \<Rightarrow> string \<Rightarrow> bool" where
  "field_ok d t \<longleftrightarrow> (\<forall>c \<in> set t. plain_char d c) \<and> (t \<noteq> [] \<longrightarrow> hd t \<noteq> CHR '' '' \<and> last t \<noteq> CHR '' '')"

lemma cleanup_plain:
  assumes "\<forall>c \<in> set s. c \<noteq> CHR 0x5C \<and> c \<noteq> CHR 0x27" "s \<noteq> []" "last s \<noteq> CHR '' ''"
  shows "cleanup_loop d False out fin s = out @ s"
  using assms
proof (induction s arbitrary: out fin)
  case (Cons c s)
  then show ?case by (cases s) auto
qed simp

lemma cleanup_field: "field_ok d t \<Longrightarrow> cleanup_separated_string t d' = t"
proof (cases t)
  case (Cons c s)
  assume "field_ok d t"
  moreover from this have "dropWhile (\<lambda>c. c = CHR '' '') t = t" using Cons by (simp add: field_ok_def)
  ultimately show ?thesis using cleanup_plain [of t d' "[]" None] Cons
    by (simp add: cleanup_separated_string_def field_ok_def plain_char_def)
qed (simp add: cleanup_separated_string_def)

fun join_fields :: "char \<Rightarrow> string list \<Rightarrow> string" where
  "join_fields d [] = []"
| "join_fields d [t] = t"
| "join_fields d (t # ts) = t @ d # join_fields d ts"

lemma find_delim_plain:
  "\<forall>c \<in> set t. plain_char d c \<Longrightarrow> find_delim_char d (Suc k) False cur (t @ r) = find_delim_char d (Suc k) False (cur @ t) r"
  by (induction t arbitrary: cur) (auto simp: plain_char_def)

lemma join_ne: "ts \<noteq> [] \<Longrightarrow> last ts \<noteq> [] \<Longrightarrow> join_fields d ts \<noteq> []"
  by (induction d ts rule: join_fields.induct) auto

lemma find_delim_join:
  assumes "d \<noteq> CHR 0x5C" "d \<noteq> CHR 0x27" "\<forall>u \<in> set (t # ts). \<forall>c \<in> set u. plain_char d c" "last (t # ts) \<noteq> []" "length ts \<le> k"
  shows "find_delim_char d k False cur (join_fields d (t # ts)) = Val ((cur @ t) # ts)"
  using assms(3-5)
proof (induction ts arbitrary: t cur k)
  case Nil
  show ?case
  proof (cases k)
    case 0
    then show ?thesis by (cases t) simp_all
  next
    case (Suc j)
    then show ?thesis using find_delim_plain [of t d j cur "[]"] Nil by simp
  qed
next
  case (Cons u us)
  then obtain j where j: "k = Suc j" "length us \<le> j" by (cases k) auto
  have "find_delim_char d k False cur (t @ d # join_fields d (u # us)) =
      find_delim_char d k False (cur @ t) (d # join_fields d (u # us))"
    using Cons.prems(1) unfolding j(1) by (intro find_delim_plain) simp
  moreover have "find_delim_char d j False [] (join_fields d (u # us)) = Val (([] @ u) # us)"
    by (rule Cons.IH) (use Cons.prems j in simp_all)
  moreover have "join_fields d (u # us) \<noteq> []" using Cons.prems(2) by (intro join_ne) simp_all
  ultimately show ?case using assms(1,2) j(1) by simp
qed

text \<open>A text that does not end in a backslash is never read past its end.\<close>

lemma separate_char_joined:
  assumes "d \<notin> {CHR '' '', CHR 0x5C, CHR 0x27}" "\<forall>t \<in> set ts. field_ok d t" "ts \<noteq> []" "last ts \<noteq> []" "length ts \<le> n"
  shows "separate_string_char_delim (join_fields d ts) d n = Val ts"
proof -
  obtain t us where ts: "ts = t # us" using assms(3) by (cases ts) auto
  have "find_delim_char d (n - 1) False [] (join_fields d ts) = Val ([] @ t # us)"
    using find_delim_join [of d t us "n - 1" "[]"] assms ts by (auto simp: field_ok_def)
  moreover have "map (\<lambda>t. cleanup_separated_string t d) ts = ts" using assms(2) by (auto intro: map_idI cleanup_field)
  moreover have "n \<noteq> 0" using assms(5) ts by auto
  ultimately show ?thesis using join_ne [OF assms(3,4)] ts by (simp add: separate_string_char_delim_def)
qed

lemma separate_joined:
  assumes "d \<notin> {CHR '' '', CHR 0x5C, CHR 0x27}" "\<forall>t \<in> set ts. field_ok d t" "ts \<noteq> []" "last ts \<noteq> []" "length ts \<le> n"
    and "take 2 (join_fields d ts) \<noteq> ''^^''"
  shows "agc_separate_string (Some (join_fields d ts)) d n = Val ts"
proof -
  have "n \<noteq> 0" using assms(3,5) by (cases ts) auto
  then show ?thesis using separate_char_joined [OF assms(1-5)] assms(1,6)
    by (auto simp: agc_separate_string_def split: list.split)
qed

lemma find_delim_char_safe:
  "closed_text s \<Longrightarrow> \<exists>ts. find_delim_char d k inside cur s = Val ts \<and> length ts \<le> Suc k"
proof (induction d k inside cur s rule: find_delim_char.induct)
  case (3 d k inside cur c r)
  have r: "closed_text r" "r \<noteq> [] \<Longrightarrow> closed_text (tl r)" "c = CHR 0x5C \<Longrightarrow> r \<noteq> []"
    using 3(5) by (auto simp: closed_text_def split: if_splits) (cases r; auto)
  show ?case
    using 3(1-4) r by (cases r) (auto simp del: find_delim_char.simps simp add: find_delim_char.simps(3) le_SucI)
qed auto

lemma find_delim_blank_safe:
  "closed_text s \<Longrightarrow> \<exists>ts. find_delim_blank k initial inside cur s = Val ts \<and> length ts \<le> Suc k"
proof (induction k initial inside cur s rule: find_delim_blank.induct)
  case (3 k initial inside cur c r)
  have r: "closed_text r" "r \<noteq> [] \<Longrightarrow> closed_text (tl r)" "c = CHR 0x5C \<Longrightarrow> r \<noteq> []"
    using 3(6) by (auto simp: closed_text_def split: if_splits) (cases r; auto)
  have d: "closed_text (dropWhile (\<lambda>c. c = CHR '' '') r)" using closed_suffix [OF r(1)] suffix_dropWhile by blast
  let ?r = "dropWhile (\<lambda>c. c = CHR '' '') r"
  have cut: "\<exists>ts. cbind (if ?r = [] then Val [] else find_delim_blank k True inside [] ?r) (\<lambda>ts. Val (cur # ts)) = Val ts \<and>
      length ts \<le> Suc (Suc k)" if "\<not> (initial \<and> c = CHR '' '')" "c \<noteq> CHR 0x5C" "c \<noteq> CHR 0x27" "c = CHR '' '' \<and> \<not> inside"
  proof (cases "?r = []")
    case False
    with 3(4) [OF that refl False d] show ?thesis by fastforce
  qed simp
  show ?case
  proof (cases "c = CHR '' '' \<and> \<not> inside \<and> \<not> initial")
    case True
    then have eq: "find_delim_blank (Suc k) initial inside cur (c # r) =
        cbind (if ?r = [] then Val [] else find_delim_blank k True inside [] ?r) (\<lambda>ts. Val (cur # ts))"
      by (simp add: Let_def)
    show ?thesis unfolding eq by (rule cut) (use True in simp_all)
  next
    case False
    with 3(1-3,5) r show ?thesis
      by (cases r) (auto simp del: find_delim_blank.simps simp add: find_delim_blank.simps(3))
  qed
qed auto

section \<open>Properties\<close>

text \<open>
  \<^verbatim>\<open>agc_toupper_max\<close> and \<^verbatim>\<open>agc_tolower_max\<close>, which work on eight bytes at a time, convert
  every byte of the string as \<^verbatim>\<open>toupper\<close> and \<^verbatim>\<open>tolower\<close> do: no carry crosses a byte, bytes
  that are no letters, above 127 too, stay as they are.
\<close>

theorem agc_case_max_correct:
  "agc_toupper_max s = map c_toupper s \<and> agc_tolower_max s = map c_tolower s"
proof
  show "agc_toupper_max s = map c_toupper s" unfolding agc_toupper_max_def
    by (rule convert_max_map) (simp_all only: toupper64_word upper_bytes upper_char)
  show "agc_tolower_max s = map c_tolower s" unfolding agc_tolower_max_def
    by (rule convert_max_map) (simp_all only: tolower64_word lower_bytes lower_char)
qed

text \<open>
  \<^verbatim>\<open>agc_separate_string\<close> takes a text apart into the fields it was joined from, with the
  delimiter given as an argument or in a \<^verbatim>\<open>^^\<close> prefix: fields without delimiter, quote and
  backslash and without blanks at their ends, the last one not empty, and no more of them
  than the array has room for.
\<close>

theorem agc_separate_string_roundtrip:
  assumes "d \<notin> {CHR '' '', CHR 0x5C, CHR 0x27}" "\<forall>t \<in> set ts. field_ok d t" "ts \<noteq> []" "last ts \<noteq> []" "length ts \<le> n"
  shows "(take 2 (join_fields d ts) \<noteq> ''^^'' \<longrightarrow> agc_separate_string (Some (join_fields d ts)) d n = Val ts) \<and>
     agc_separate_string (Some (''^^'' @ d # join_fields d ts)) e n = Val ts"
proof
  obtain x r where x: "join_fields d ts = x # r" using join_ne [OF assms(3,4)] by (cases "join_fields d ts") auto
  have "n \<noteq> 0" using assms(3,5) by (cases ts) auto
  with assms(1) separate_char_joined [OF assms] show "agc_separate_string (Some (''^^'' @ d # join_fields d ts)) e n = Val ts"
    by (simp add: agc_separate_string_def x)
qed (use separate_joined [OF assms] in blast)

theorem agc_separate_string_roundtrip_witness:
  "agc_separate_string (Some ''^^:ab::c'') (CHR '','') 5 = Val [''ab'', [], ''c'']"
  using agc_separate_string_roundtrip [of "CHR '':''" "[''ab'', [], ''c'']" 5 "CHR '',''"]
  by (simp add: field_ok_def plain_char_def)

text \<open>
  On a text that does not end in a backslash \<^verbatim>\<open>agc_separate_string\<close> stays inside the text
  and inside the array; a text whose only backslash is its last character makes it step over
  the terminator as long as the array has a free slot.
\<close>

theorem agc_separate_string_bounds:
  "(closed_text s \<longrightarrow> (\<exists>ts. agc_separate_string (Some s) d n = Val ts \<and> length ts \<le> n)) \<and>
   (d \<notin> {CHR '' '', CHR 0x5C} \<longrightarrow> (\<forall>c \<in> set s. plain_char d c \<and> c \<noteq> CHR ''^'') \<longrightarrow>
     agc_separate_string (Some (s @ [CHR 0x5C])) d (Suc (Suc n)) = Fault)"
proof (intro conjI impI)
  assume c: "closed_text s"
  show "\<exists>ts. agc_separate_string (Some s) d n = Val ts \<and> length ts \<le> n"
  proof (cases n)
    case (Suc k)
    have "\<exists>ts. separate_string_char_delim u e n = Val ts \<and> length ts \<le> n" if "closed_text u" for u e
      using find_delim_char_safe [OF that, of e k False "[]"] Suc by (auto simp: separate_string_char_delim_def)
    moreover have "\<exists>ts. separate_string_blank_delim u n = Val ts \<and> length ts \<le> n" if "closed_text u" for u
      using find_delim_blank_safe [OF that, of k True False "[]"] Suc by (auto simp: separate_string_blank_delim_def)
    moreover have "closed_text (drop 3 s)" using closed_suffix [OF c] suffix_drop by blast
    ultimately show ?thesis using c Suc by (auto simp: agc_separate_string_def split: list.split)
  qed (simp add: agc_separate_string_def)
next
  assume d: "d \<notin> {CHR '' '', CHR 0x5C}" and s: "\<forall>c \<in> set s. plain_char d c \<and> c \<noteq> CHR ''^''"
  have "find_delim_char d (Suc n) False [] (s @ [CHR 0x5C]) = Fault"
    using find_delim_plain [of s d n "[]" "[CHR 0x5C]"] s by simp
  then have "separate_string_char_delim (s @ [CHR 0x5C]) d (Suc (Suc n)) = Fault" by (simp add: separate_string_char_delim_def)
  moreover have "\<not> starts (\<lambda>c. c = CHR ''^'') (s @ [CHR 0x5C])" using s by (cases s) (auto simp: starts_def)
  ultimately show "agc_separate_string (Some (s @ [CHR 0x5C])) d (Suc (Suc n)) = Fault"
    using d by (auto simp: agc_separate_string_def starts_def split: list.split)
qed

theorem agc_separate_string_bounds_witness:
  "(\<exists>ts. agc_separate_string (Some ''a b'') (CHR '' '') 5 = Val ts \<and> length ts \<le> 5) \<and>
   agc_separate_string (Some (''a'' @ [CHR 0x5C])) (CHR '','') 2 = Fault"
  using agc_separate_string_bounds [of "''a b''" "CHR '' ''" 5] agc_separate_string_bounds [of "''a''" "CHR '',''" 0]
  by (simp add: closed_text_def plain_char_def numeral_2_eq_2)

end
