(* ===== verification/Agc_Api.thy ===== *)
theory Agc_Api
  imports Agc_Utils_Laws
begin

text \<open>
  Commands (\<^verbatim>\<open>src/src/agc_api.c\<close>): the registry of command functions, the growing output
  stream a command writes to, and the interpreter of command lines. A registered function
  is the argument of the registration, as a function on its argument, its stream and the
  rest of the program's state; it may fault. Both streams and command lines are followed
  byte by byte: \<^const>\<open>None\<close> is an access outside a buffer or through \<^verbatim>\<open>NULL\<close>.

  What \<^verbatim>\<open>realloc\<close> answers is the parameter \<open>alloc_env\<close>: which sizes it can give, and the bytes a
  new block holds. The text that \<^verbatim>\<open>agc_vmprintf\<close> formats is an argument of the write function.
\<close>

section \<open>Streams\<close>

record alloc_env =
  alloc_ok :: "nat \<Rightarrow> bool"
  alloc_junk :: "nat \<Rightarrow> char"

definition c_realloc :: "alloc_env \<Rightarrow> char list \<Rightarrow> nat \<Rightarrow> char list option" where
  "c_realloc env buf n =
     (if alloc_ok env n then Some (take n buf @ map (alloc_junk env) [length buf ..< n]) else None)"

definition put_bytes :: "char list \<Rightarrow> nat \<Rightarrow> char list \<Rightarrow> char list option" where
  "put_bytes buf off bs =
     (if off + length bs \<le> length buf then Some (take off buf @ bs @ drop (off + length bs) buf) else None)"

definition c_strlen :: "char list \<Rightarrow> nat option" where
  "c_strlen buf = (if CHR 0x00 \<in> set buf then Some (length (takeWhile (\<lambda>c. c \<noteq> CHR 0x00) buf)) else None)"

text \<open>\<open>sdata\<close> is the allocated block, \<open>send\<close> the offset of \<^verbatim>\<open>end\<close> in it.\<close>

record agc_stream =
  sdata :: "char list"
  send :: nat
  data_size :: nat
  data_len :: nat
  alloc_len :: nat
  alloc_chunk :: nat
  suuid :: "string option"

definition AGC_CMD_CHUNK_LEN :: nat where "AGC_CMD_CHUNK_LEN = 1024"

definition agc_api_stand_stream :: agc_stream where
  "agc_api_stand_stream =
     \<lparr>sdata = replicate AGC_CMD_CHUNK_LEN (CHR 0x00), send = 0, data_size = AGC_CMD_CHUNK_LEN, data_len = 0,
      alloc_len = AGC_CMD_CHUNK_LEN, alloc_chunk = AGC_CMD_CHUNK_LEN, suuid = None\<rparr>"

text \<open>The growing of the block in \<^verbatim>\<open>agc_api_stream_write\<close>; \<^const>\<open>None\<close> when \<^verbatim>\<open>realloc\<close> fails.\<close>

definition stream_grow :: "alloc_env \<Rightarrow> agc_stream \<Rightarrow> nat \<Rightarrow> agc_stream option" where
  "stream_grow env h need =
     (if data_size h - data_len h < need \<and> alloc_len h \<noteq> 0
      then (let new_len = data_size h + need + alloc_chunk h in
            map_option (\<lambda>new_data. h\<lparr>data_size := new_len, alloc_len := new_len, sdata := new_data, send := data_len h\<rparr>)
              (c_realloc env (sdata h) new_len))
      else Some h)"

definition agc_api_stream_write ::
  "alloc_env \<Rightarrow> agc_stream \<Rightarrow> string option \<Rightarrow> (agc_status \<times> agc_stream) option" where
  "agc_api_stream_write env h text =
     (if data_size h \<le> data_len h then Some (AGC_STATUS_FALSE, h)
      else (case text of
        None \<Rightarrow> Some (AGC_STATUS_FALSE, h)
      | Some data \<Rightarrow>
          (let need = length data + 1 in
           case stream_grow env h need of
             None \<Rightarrow> Some (AGC_STATUS_FALSE, h)
           | Some h \<Rightarrow>
               if data_size h - data_len h < need then Some (AGC_STATUS_FALSE, h)
               else do {
                 buf \<leftarrow> put_bytes (sdata h) (send h) (data @ [CHR 0x00]);
                 n \<leftarrow> c_strlen buf;
                 Some (AGC_STATUS_SUCCESS, h\<lparr>sdata := buf, data_len := n, send := n\<rparr>)
               })))"

definition agc_api_stream_raw_write ::
  "alloc_env \<Rightarrow> agc_stream \<Rightarrow> char list \<Rightarrow> (agc_status \<times> agc_stream) option" where
  "agc_api_stream_raw_write env h data =
     (let need = data_len h + length data;
          grown = (if data_size h \<le> need
                   then (let need = need + alloc_chunk h in
                         map_option (\<lambda>new_data. h\<lparr>sdata := new_data, data_size := need\<rparr>) (c_realloc env (sdata h) need))
                   else Some h)
      in case grown of
           None \<Rightarrow> Some (AGC_STATUS_MEMERR, h)
         | Some h \<Rightarrow> do {
             buf \<leftarrow> put_bytes (sdata h) (data_len h) data;
             let n = data_len h + length data;
             buf \<leftarrow> put_bytes buf n [CHR 0x00];
             Some (AGC_STATUS_SUCCESS, h\<lparr>sdata := buf, data_len := n, send := n\<rparr>)
           })"

section \<open>The registry\<close>

type_synonym 's api_func = "string option \<Rightarrow> agc_stream \<Rightarrow> 's \<Rightarrow> (agc_status \<times> agc_stream \<times> 's) option"

record 's agc_api =
  api_name :: string
  api_desc :: "string option"
  api_syntax :: "string option"
  api_function :: "'s api_func"

definition agc_api_register ::
  "'s agc_api list \<Rightarrow> string option \<Rightarrow> string option \<Rightarrow> string option \<Rightarrow> 's api_func option \<Rightarrow> agc_status \<times> 's agc_api list" where
  "agc_api_register apis name desc syntax func = (case (name, func) of
     (Some n, Some f) \<Rightarrow>
       (AGC_STATUS_SUCCESS, \<lparr>api_name = n, api_desc = desc, api_syntax = syntax, api_function = f\<rparr> # apis)
   | _ \<Rightarrow> (AGC_STATUS_FALSE, apis))"

fun agc_api_find :: "'s agc_api list \<Rightarrow> string \<Rightarrow> 's agc_api option" where
  "agc_api_find [] cmd = None"
| "agc_api_find (api # apis) cmd = (if strcasecmp_eq (api_name api) cmd then Some api else agc_api_find apis cmd)"

section \<open>Running commands\<close>

definition INVALID_COMMAND :: string where
  "INVALID_COMMAND = ''INVALID COMMAND!'' @ [CHR 0x0A]"

definition COMMAND_ERROR :: string where
  "COMMAND_ERROR = ''COMMAND RETURN ERROR!'' @ [CHR 0x0A]"

definition agc_api_execute ::
  "alloc_env \<Rightarrow> 's agc_api list \<Rightarrow> string option \<Rightarrow> string option \<Rightarrow> agc_stream \<Rightarrow> 's \<Rightarrow> (agc_status \<times> agc_stream \<times> 's) option" where
  "agc_api_execute env apis cmd arg stream s =
     (case Option.bind cmd (agc_api_find apis) of
        Some api \<Rightarrow> do {
          (status, stream, s) \<leftarrow> api_function api arg stream s;
          if status \<noteq> AGC_STATUS_SUCCESS
          then do { (_, stream) \<leftarrow> agc_api_stream_write env stream (Some COMMAND_ERROR); Some (status, stream, s) }
          else Some (status, stream, s)
        }
      | None \<Rightarrow> do {
          (_, stream) \<leftarrow> agc_api_stream_write env stream (Some INVALID_COMMAND);
          Some (AGC_STATUS_FALSE, stream, s)
        })"

text \<open>\<^verbatim>\<open>strchr\<close> and the overwriting of what it finds by \<^verbatim>\<open>NUL\<close>.\<close>

definition cut_first :: "char \<Rightarrow> string \<Rightarrow> string \<times> string option" where
  "cut_first c s = (takeWhile (\<lambda>x. x \<noteq> c) s, case dropWhile (\<lambda>x. x \<noteq> c) s of [] \<Rightarrow> None | _ # r \<Rightarrow> Some r)"

definition cut_line :: "string \<Rightarrow> string" where
  "cut_line s = (if CHR 0x0D \<in> set s then fst (cut_first (CHR 0x0D) s) else fst (cut_first (CHR 0x0A) s))"

text \<open>
  The second \<^verbatim>\<open>strchr\<close> of \<^verbatim>\<open>parse_and_exec\<close> is called on the result of the first one before
  that is compared with \<^verbatim>\<open>NULL\<close>.
\<close>

definition parse_and_exec ::
  "alloc_env \<Rightarrow> 's agc_api list \<Rightarrow> string option \<Rightarrow> 's \<Rightarrow> (agc_status \<times> 's) option" where
  "parse_and_exec env apis xcmd s = (case xcmd of
     None \<Rightarrow> Some (AGC_STATUS_FALSE, s)
   | Some x \<Rightarrow>
       (let (uuid, cmd) = cut_first (CHR '' '') (cut_line x) in
        case cmd of
          None \<Rightarrow> None
        | Some cmd \<Rightarrow>
            (let (cmd, arg) = cut_first (CHR '' '') cmd in do {
               (_, _, s) \<leftarrow> agc_api_execute env apis (Some cmd) arg (agc_api_stand_stream\<lparr>suuid := Some uuid\<rparr>) s;
               Some (AGC_STATUS_SUCCESS, s)
             })))"

fun exec_each :: "alloc_env \<Rightarrow> 's agc_api list \<Rightarrow> string list \<Rightarrow> 's \<Rightarrow> 's option" where
  "exec_each env apis [] s = Some s"
| "exec_each env apis (x # xs) s = do {
     (_, s) \<leftarrow> parse_and_exec env apis (Some x) s;
     exec_each env apis xs s
   }"

definition agc_parse_execute :: "alloc_env \<Rightarrow> 's agc_api list \<Rightarrow> string option \<Rightarrow> 's \<Rightarrow> 's option" where
  "agc_parse_execute env apis xcmd s = (case xcmd of
     None \<Rightarrow> Some s
   | Some x \<Rightarrow>
       (case agc_separate_string (Some x) (CHR 0x3B) 100 of
          Val argv \<Rightarrow> exec_each env apis argv s
        | _ \<Rightarrow> None))"

end
