(* ===== verification/Agc_Api_Laws.thy ===== *)
theory Agc_Api_Laws
  imports Agc_Api
begin

text \<open>
  What the command component promises. A stream is a text that grows: both write functions
  append to it, whatever the block that holds it, and the locale \<open>text_sink\<close> carries that to
  sequences of writes. The registry is a map in which the latest registration of a name,
  up to case, wins. A command line runs its commands in order, each with its own argument.
\<close>

section \<open>Streams as texts\<close>

definition stream_wf :: "agc_stream \<Rightarrow> bool" where
  "stream_wf h \<longleftrightarrow> length (sdata h) = data_size h \<and> data_len h < data_size h \<and> send h = data_len h \<and>
     sdata h ! data_len h = CHR 0x00 \<and> CHR 0x00 \<notin> set (take (data_len h) (sdata h)) \<and>
     alloc_len h \<noteq> 0 \<and> alloc_chunk h \<noteq> 0"

definition stream_text :: "agc_stream \<Rightarrow> string" where
  "stream_text h = take (data_len h) (sdata h)"

definition c_text :: "string \<Rightarrow> bool" where
  "c_text t \<longleftrightarrow> CHR 0x00 \<notin> set t"

lemma stand_stream_wf: "stream_wf (agc_api_stand_stream\<lparr>suuid := u\<rparr>)" "stream_text (agc_api_stand_stream\<lparr>suuid := u\<rparr>) = []"
  by (simp_all add: stream_wf_def stream_text_def agc_api_stand_stream_def AGC_CMD_CHUNK_LEN_def)

lemma put_text:
  assumes "length buf = n" "k + length t < n" "CHR 0x00 \<notin> set (take k buf)" "c_text t"
  shows "\<exists>buf'. put_bytes buf k (t @ [CHR 0x00]) = Some buf' \<and> length buf' = n \<and> c_strlen buf' = Some (k + length t) \<and>
    take (k + length t) buf' = take k buf @ t \<and> buf' ! (k + length t) = CHR 0x00"
proof -
  define buf' where "buf' = (take k buf @ t) @ CHR 0x00 # drop (Suc (k + length t)) buf"
  have k: "length (take k buf @ t) = k + length t" using assms(1,2) by simp
  have no0: "\<forall>c \<in> set (take k buf @ t). c \<noteq> CHR 0x00" using assms(3,4) by (auto simp: c_text_def)
  have "put_bytes buf k (t @ [CHR 0x00]) = Some buf'" using assms(1,2) by (simp add: put_bytes_def buf'_def)
  moreover have "length buf' = n" using assms(1,2) k by (simp add: buf'_def)
  moreover have "c_strlen buf' = Some (k + length t)"
    using no0 k unfolding c_strlen_def buf'_def by (subst takeWhile_append2) auto
  moreover have "take (k + length t) buf' = take k buf @ t" "buf' ! (k + length t) = CHR 0x00"
    using append_eq_conv_conj [of "take k buf @ t" "CHR 0x00 # drop (Suc (k + length t)) buf" buf']
      nth_append_length [of "take k buf @ t" "CHR 0x00" "drop (Suc (k + length t)) buf"] k by (simp_all add: buf'_def)
  ultimately show ?thesis by blast
qed

lemma grow_wf:
  assumes "stream_wf h" "\<forall>n. alloc_ok env n"
  shows "\<exists>g. stream_grow env h (Suc k) = Some g \<and> stream_wf g \<and> stream_text g = stream_text h \<and>
    data_len g = data_len h \<and> data_len h + k < data_size g \<and> suuid g = suuid h"
proof (cases "data_size h - data_len h < Suc k")
  case True
  with assms show ?thesis
    by (auto simp: stream_grow_def c_realloc_def stream_wf_def stream_text_def Let_def nth_append)
next
  case False
  with assms show ?thesis by (auto simp: stream_grow_def stream_wf_def)
qed

lemma stream_write_appends:
  assumes "stream_wf h" "\<forall>n. alloc_ok env n" "c_text t"
  shows "\<exists>h'. agc_api_stream_write env h (Some t) = Some (AGC_STATUS_SUCCESS, h') \<and> stream_wf h' \<and>
    stream_text h' = stream_text h @ t \<and> suuid h' = suuid h"
proof -
  obtain g where g: "stream_grow env h (Suc (length t)) = Some g" "stream_wf g" "stream_text g = stream_text h"
    "data_len g = data_len h" "data_len h + length t < data_size g" "suuid g = suuid h"
    using grow_wf [OF assms(1,2)] by blast
  obtain buf where b: "put_bytes (sdata g) (data_len g) (t @ [CHR 0x00]) = Some buf" "length buf = data_size g"
    "c_strlen buf = Some (data_len g + length t)"
    "take (data_len g + length t) buf = take (data_len g) (sdata g) @ t" "buf ! (data_len g + length t) = CHR 0x00"
    using put_text [of "sdata g" "data_size g" "data_len g" t] g(2,4,5) assms(3) by (auto simp: stream_wf_def)
  have "agc_api_stream_write env h (Some t) =
      Some (AGC_STATUS_SUCCESS, g\<lparr>sdata := buf, data_len := data_len g + length t, send := data_len g + length t\<rparr>)"
    using assms(1) g b(1,3) by (auto simp: agc_api_stream_write_def stream_wf_def Let_def)
  moreover have "stream_wf (g\<lparr>sdata := buf, data_len := data_len g + length t, send := data_len g + length t\<rparr>)"
    using g b assms(3) by (auto simp: stream_wf_def c_text_def)
  ultimately show ?thesis using b(4) g(3,6) by (simp add: stream_text_def)
qed

lemma put_twice:
  assumes "length buf = n" "k + length t < n"
  shows "\<exists>b1. put_bytes buf k t = Some b1 \<and> put_bytes b1 (k + length t) [CHR 0x00] = put_bytes buf k (t @ [CHR 0x00])"
  using assms by (simp add: put_bytes_def min_def Suc_diff_le)

lemma raw_write_appends:
  assumes "stream_wf h" "\<forall>n. alloc_ok env n" "c_text t"
  shows "\<exists>h'. agc_api_stream_raw_write env h t = Some (AGC_STATUS_SUCCESS, h') \<and> stream_wf h' \<and>
    stream_text h' = stream_text h @ t \<and> suuid h' = suuid h"
proof -
  define need where "need = data_len h + length t"
  define g where "g = (if data_size h \<le> need
     then h\<lparr>sdata := take (need + alloc_chunk h) (sdata h) @ map (alloc_junk env) [length (sdata h) ..< need + alloc_chunk h],
            data_size := need + alloc_chunk h\<rparr> else h)"
  have g: "stream_wf g" "data_len g = data_len h" "take (data_len g) (sdata g) = stream_text h" "need < data_size g"
    "suuid g = suuid h"
    using assms(1) by (auto simp: g_def need_def stream_wf_def stream_text_def nth_append)
  obtain buf where b: "put_bytes (sdata g) (data_len g) (t @ [CHR 0x00]) = Some buf" "length buf = data_size g"
    "take (data_len g + length t) buf = take (data_len g) (sdata g) @ t" "buf ! (data_len g + length t) = CHR 0x00"
    using put_text [of "sdata g" "data_size g" "data_len g" t] g assms(3) by (auto simp: stream_wf_def need_def)
  obtain b1 where b1: "put_bytes (sdata g) (data_len g) t = Some b1" "put_bytes b1 (data_len g + length t) [CHR 0x00] = Some buf"
    using put_twice [of "sdata g" "data_size g" "data_len g" t] g b(1) by (auto simp: stream_wf_def need_def)
  have "agc_api_stream_raw_write env h t =
      Some (AGC_STATUS_SUCCESS, g\<lparr>sdata := buf, data_len := data_len g + length t, send := data_len g + length t\<rparr>)"
    using assms(2) b1 unfolding agc_api_stream_raw_write_def need_def [symmetric]
    by (cases "data_size h \<le> need") (simp_all add: g_def c_realloc_def Let_def)
  moreover have "stream_wf (g\<lparr>sdata := buf, data_len := data_len g + length t, send := data_len g + length t\<rparr>)"
    using g b assms(3) by (auto simp: stream_wf_def c_text_def need_def)
  ultimately show ?thesis using b(3) g(3,5) by (simp add: stream_text_def)
qed

text \<open>A sink that appends what it is given, and a run of writes to it.\<close>

fun run_puts :: "('h \<Rightarrow> 'p \<Rightarrow> (agc_status \<times> 'h) option) \<Rightarrow> 'h \<Rightarrow> 'p list \<Rightarrow> (agc_status list \<times> 'h) option" where
  "run_puts put h [] = Some ([], h)"
| "run_puts put h (p # ps) = do {
     (r, h) \<leftarrow> put h p;
     (rs, h) \<leftarrow> run_puts put h ps;
     Some (r # rs, h)
   }"

locale text_sink =
  fixes put :: "'h \<Rightarrow> 'p \<Rightarrow> (agc_status \<times> 'h) option"
    and ptext :: "'p \<Rightarrow> string"
    and wf :: "'h \<Rightarrow> bool"
    and content :: "'h \<Rightarrow> string"
  assumes put_ok: "wf h \<Longrightarrow> c_text (ptext p) \<Longrightarrow>
    \<exists>h'. put h p = Some (AGC_STATUS_SUCCESS, h') \<and> wf h' \<and> content h' = content h @ ptext p"
begin

lemma run_ok:
  assumes "wf h" "\<forall>p \<in> set ps. c_text (ptext p)"
  shows "\<exists>h'. run_puts put h ps = Some (replicate (length ps) AGC_STATUS_SUCCESS, h') \<and> wf h' \<and>
    content h' = content h @ concat (map ptext ps)"
  using assms
proof (induction ps arbitrary: h)
  case (Cons p ps)
  obtain h1 where h1: "put h p = Some (AGC_STATUS_SUCCESS, h1)" "wf h1" "content h1 = content h @ ptext p"
    using put_ok [of h p] Cons.prems by auto
  obtain h2 where "run_puts put h1 ps = Some (replicate (length ps) AGC_STATUS_SUCCESS, h2)" "wf h2"
    "content h2 = content h1 @ concat (map ptext ps)"
    using Cons.IH [OF h1(2)] Cons.prems(2) by auto
  with h1 show ?case by auto
qed simp

end

datatype stream_op = Write string | Raw_write string

fun op_text :: "stream_op \<Rightarrow> string" where
  "op_text (Write t) = t"
| "op_text (Raw_write t) = t"

fun run_op :: "alloc_env \<Rightarrow> agc_stream \<Rightarrow> stream_op \<Rightarrow> (agc_status \<times> agc_stream) option" where
  "run_op env h (Write t) = agc_api_stream_write env h (Some t)"
| "run_op env h (Raw_write t) = agc_api_stream_raw_write env h t"

interpretation api_stream: text_sink "run_op env" op_text "\<lambda>h. stream_wf h \<and> (\<forall>n. alloc_ok env n)" stream_text for env
proof unfold_locales
  fix h p assume h: "stream_wf h \<and> (\<forall>n. alloc_ok env n)" "c_text (op_text p)"
  show "\<exists>h'. run_op env h p = Some (AGC_STATUS_SUCCESS, h') \<and> (stream_wf h' \<and> (\<forall>n. alloc_ok env n)) \<and>
      stream_text h' = stream_text h @ op_text p"
  proof (cases p)
    case (Write t)
    with h show ?thesis using stream_write_appends [of h env t] by auto
  next
    case (Raw_write t)
    with h show ?thesis using raw_write_appends [of h env t] by auto
  qed
qed

section \<open>The registry\<close>

lemma find_name: "agc_api_find apis cmd = Some api \<Longrightarrow> strcasecmp_eq (api_name api) cmd \<and> api \<in> set apis"
  by (induction apis) (auto split: if_splits)

lemma find_cong: "strcasecmp_eq c d \<Longrightarrow> agc_api_find apis c = agc_api_find apis d"
  by (induction apis) (auto simp: strcasecmp_eq_def)

section \<open>Command lines\<close>

lemma cut_first_join: "c \<notin> set a \<Longrightarrow> cut_first c (a @ c # b) = (a, Some b)"
  unfolding cut_first_def by (subst takeWhile_append2, force, subst dropWhile_append2, force) simp

lemma cut_first_none: "c \<notin> set a \<Longrightarrow> cut_first c a = (a, None)"
proof -
  assume "c \<notin> set a"
  then have "takeWhile (\<lambda>x. x \<noteq> c) a = a" and d: "dropWhile (\<lambda>x. x \<noteq> c) a = []"
    by (auto simp: takeWhile_eq_all_conv dropWhile_eq_Nil_conv)
  then show ?thesis unfolding cut_first_def d by simp
qed

lemma cut_line_plain: "CHR 0x0D \<notin> set s \<Longrightarrow> CHR 0x0A \<notin> set s \<Longrightarrow> cut_line s = s"
  by (simp add: cut_line_def cut_first_none)

text \<open>A command: the id of the caller, the name, and the argument.\<close>

type_synonym command = "string \<times> string \<times> string option"

fun command_line :: "command \<Rightarrow> string" where
  "command_line (uuid, cmd, arg) = uuid @ CHR '' '' # cmd @ (case arg of None \<Rightarrow> [] | Some a \<Rightarrow> CHR '' '' # a)"

definition word_ok :: "string \<Rightarrow> bool" where
  "word_ok w \<longleftrightarrow> w \<noteq> [] \<and> set w \<inter> {CHR '' '', CHR 0x0A, CHR 0x0D, CHR 0x27, CHR 0x5C, CHR 0x3B, CHR ''^''} = {}"

text \<open>An argument may hold blanks, but not at its ends: the splitter strips those.\<close>

definition arg_ok :: "string \<Rightarrow> bool" where
  "arg_ok a \<longleftrightarrow> a \<noteq> [] \<and> hd a \<noteq> CHR '' '' \<and> last a \<noteq> CHR '' '' \<and>
     set a \<inter> {CHR 0x0A, CHR 0x0D, CHR 0x27, CHR 0x5C, CHR 0x3B} = {}"

fun command_ok :: "command \<Rightarrow> bool" where
  "command_ok (uuid, cmd, arg) \<longleftrightarrow> word_ok uuid \<and> word_ok cmd \<and> (case arg of None \<Rightarrow> True | Some a \<Rightarrow> arg_ok a)"

text \<open>A function that keeps the stream it writes to in order.\<close>

definition func_ok :: "'s api_func \<Rightarrow> bool" where
  "func_ok f \<longleftrightarrow> (\<forall>arg st s r st' s'. stream_wf st \<longrightarrow> f arg st s = Some (r, st', s') \<longrightarrow> stream_wf st')"

text \<open>What a list of commands is to do: the function of each one on its own argument, in turn.\<close>

fun run_commands :: "'s agc_api list \<Rightarrow> command list \<Rightarrow> 's \<Rightarrow> 's option" where
  "run_commands apis [] s = Some s"
| "run_commands apis ((uuid, cmd, arg) # cs) s =
     (case agc_api_find apis cmd of
        None \<Rightarrow> run_commands apis cs s
      | Some api \<Rightarrow> do {
          (_, _, s) \<leftarrow> api_function api arg (agc_api_stand_stream\<lparr>suuid := Some uuid\<rparr>) s;
          run_commands apis cs s
        })"

lemma message_text: "c_text COMMAND_ERROR" "c_text INVALID_COMMAND"
  by code_simp+

lemma execute_state:
  assumes "\<forall>n. alloc_ok env n" "stream_wf st" "\<forall>api \<in> set apis. func_ok (api_function api)"
  shows "map_option (\<lambda>(_, _, s). s) (agc_api_execute env apis (Some cmd) arg st s) =
    (case agc_api_find apis cmd of None \<Rightarrow> Some s
     | Some api \<Rightarrow> map_option (\<lambda>(_, _, s). s) (api_function api arg st s))"
proof (cases "agc_api_find apis cmd")
  case None
  then show ?thesis using stream_write_appends [OF assms(2,1) message_text(2)] by (auto simp: agc_api_execute_def)
next
  case (Some api)
  then have f: "func_ok (api_function api)" using assms(3) find_name by blast
  show ?thesis
  proof (cases "api_function api arg st s")
    case None
    with Some show ?thesis by (simp add: agc_api_execute_def)
  next
    case (Some x)
    obtain r st' s' where x: "api_function api arg st s = Some (r, st', s')" using Some by (cases x) auto
    have "stream_wf st'" using f x assms(2) unfolding func_ok_def by blast
    from stream_write_appends [OF this assms(1) message_text(1)] obtain h where
      "agc_api_stream_write env st' (Some COMMAND_ERROR) = Some (AGC_STATUS_SUCCESS, h)" by blast
    then show ?thesis using x \<open>agc_api_find apis cmd = Some api\<close> by (simp add: agc_api_execute_def)
  qed
qed

lemma parse_and_exec_command:
  assumes "\<forall>n. alloc_ok env n" "\<forall>api \<in> set apis. func_ok (api_function api)" "command_ok (uuid, cmd, arg)"
  shows "map_option snd (parse_and_exec env apis (Some (command_line (uuid, cmd, arg))) s) = run_commands apis [(uuid, cmd, arg)] s"
proof -
  let ?st = "agc_api_stand_stream\<lparr>suuid := Some uuid\<rparr>"
  have "CHR 0x0D \<notin> set (command_line (uuid, cmd, arg))" "CHR 0x0A \<notin> set (command_line (uuid, cmd, arg))"
    using assms(3) by (auto simp: word_ok_def arg_ok_def split: option.splits)
  then have l: "cut_line (command_line (uuid, cmd, arg)) = command_line (uuid, cmd, arg)" by (rule cut_line_plain)
  have u: "CHR '' '' \<notin> set uuid" and c: "CHR '' '' \<notin> set cmd" using assms(3) by (auto simp: word_ok_def)
  have "cut_first (CHR '' '') (cmd @ (case arg of None \<Rightarrow> [] | Some a \<Rightarrow> CHR '' '' # a)) = (cmd, arg)"
    using cut_first_join [OF c] cut_first_none [OF c] by (auto split: option.splits)
  then have "parse_and_exec env apis (Some (command_line (uuid, cmd, arg))) s =
      Option.bind (agc_api_execute env apis (Some cmd) arg ?st s) (\<lambda>(_, _, s). Some (AGC_STATUS_SUCCESS, s))"
    using cut_first_join [OF u] l by (simp add: parse_and_exec_def Let_def)
  moreover have "run_commands apis [(uuid, cmd, arg)] s =
      map_option (\<lambda>(_, _, s). s) (agc_api_execute env apis (Some cmd) arg ?st s)"
    unfolding execute_state [OF assms(1) stand_stream_wf(1) assms(2)]
    by (auto split: option.splits bind_splits)
  ultimately show ?thesis by (cases "agc_api_execute env apis (Some cmd) arg ?st s") auto
qed

lemma run_commands_Cons: "run_commands apis (c # cs) s = Option.bind (run_commands apis [c] s) (run_commands apis cs)"
  by (cases c) (auto split: option.splits bind_splits)

lemma exec_each_commands:
  assumes "\<forall>n. alloc_ok env n" "\<forall>api \<in> set apis. func_ok (api_function api)" "\<forall>c \<in> set cs. command_ok c"
  shows "exec_each env apis (map command_line cs) s = run_commands apis cs s"
  using assms(3)
proof (induction cs arbitrary: s)
  case (Cons c cs)
  obtain uuid cmd arg where c: "c = (uuid, cmd, arg)" by (cases c)
  have e: "run_commands apis [c] s = map_option snd (parse_and_exec env apis (Some (command_line c)) s)"
    using parse_and_exec_command [OF assms(1,2)] Cons.prems by (simp add: c del: command_line.simps command_ok.simps run_commands.simps)
  show ?case unfolding run_commands_Cons [of apis c cs] e
    using Cons by (cases "parse_and_exec env apis (Some (command_line c)) s") (auto simp: split_def)
qed simp

lemma command_field: "command_ok c \<Longrightarrow> field_ok (CHR 0x3B) (command_line c) \<and> command_line c \<noteq> [] \<and> hd (command_line c) \<noteq> CHR ''^''"
proof -
  assume c: "command_ok c"
  obtain uuid cmd arg where e: "c = (uuid, cmd, arg)" by (cases c)
  obtain x u where u: "uuid = x # u" using c e by (cases uuid) (auto simp: word_ok_def)
  have "last (command_line c) \<noteq> CHR '' ''" using c unfolding e
    by (cases arg) (auto simp: word_ok_def arg_ok_def disjoint_iff)
  moreover have "\<forall>x \<in> set (command_line c). plain_char (CHR 0x3B) x" using c unfolding e
    by (auto simp: plain_char_def word_ok_def arg_ok_def split: option.splits)
  ultimately show ?thesis using c e u by (auto simp: field_ok_def word_ok_def)
qed

section \<open>Properties\<close>

text \<open>
  C11: as long as memory can be had, a stream holds exactly the texts written to it, in order,
  whichever of the two write functions each one went through, and stays a terminated string
  inside its block.
\<close>

theorem agc_api_stream_appends:
  assumes "stream_wf h" "\<forall>n. alloc_ok env n" "\<forall>p \<in> set ps. c_text (op_text p)"
  shows "\<exists>h'. run_puts (run_op env) h ps = Some (replicate (length ps) AGC_STATUS_SUCCESS, h') \<and> stream_wf h' \<and>
    stream_text h' = stream_text h @ concat (map op_text ps)"
  using api_stream.run_ok [of h env ps] assms by blast

theorem agc_api_stream_appends_witness:
  "\<exists>h'. run_puts (run_op \<lparr>alloc_ok = \<lambda>_. True, alloc_junk = \<lambda>_. CHR ''x''\<rparr>) agc_api_stand_stream [Write ''ab'', Raw_write ''c''] =
     Some ([AGC_STATUS_SUCCESS, AGC_STATUS_SUCCESS], h') \<and> stream_wf h' \<and> stream_text h' = ''abc''"
proof -
  let ?env = "\<lparr>alloc_ok = \<lambda>_. True, alloc_junk = \<lambda>_. CHR ''x''\<rparr>"
  have w: "stream_wf agc_api_stand_stream" "stream_text agc_api_stand_stream = []"
    by (simp_all add: stream_wf_def stream_text_def agc_api_stand_stream_def AGC_CMD_CHUNK_LEN_def)
  have "\<forall>p \<in> set [Write ''ab'', Raw_write ''c'']. c_text (op_text p)" by (simp add: c_text_def)
  from agc_api_stream_appends [OF w(1) _ this, of ?env] w(2) show ?thesis by (simp add: numeral_2_eq_2)
qed

text \<open>
  The registry is a map from names, up to case, to functions. After a registration the
  name finds the new entry, whatever was registered under it before, and every other name
  finds what it found; without a name or a function nothing is registered. Executing a
  command calls the function that is found; the stream gets a message when there is none or
  when it reports a failure.
\<close>

theorem agc_api_execute_correct:
  fixes apis :: "'s agc_api list"
  assumes "\<forall>n. alloc_ok env n" "stream_wf st"
    and "agc_api_register apis (Some name) desc syntax (Some f) = (r, apis')"
    and "f arg st s = Some (q, st', s')" "stream_wf st'"
  shows "r = AGC_STATUS_SUCCESS \<and>
    (\<forall>cmd. agc_api_find apis' cmd = (if strcasecmp_eq name cmd
       then Some \<lparr>api_name = name, api_desc = desc, api_syntax = syntax, api_function = f\<rparr> else agc_api_find apis cmd)) \<and>
    (\<forall>cmd. strcasecmp_eq name cmd \<longrightarrow> (\<exists>st''. agc_api_execute env apis' (Some cmd) arg st s = Some (q, st'', s') \<and>
       (if q = AGC_STATUS_SUCCESS then st'' = st' else stream_text st'' = stream_text st' @ COMMAND_ERROR))) \<and>
    (\<forall>cmd. agc_api_find apis' cmd = None \<longrightarrow> (\<exists>st''. agc_api_execute env apis' (Some cmd) arg st s = Some (AGC_STATUS_FALSE, st'', s) \<and>
       stream_text st'' = stream_text st @ INVALID_COMMAND)) \<and>
    agc_api_register apis None desc syntax (Some f) = (AGC_STATUS_FALSE, apis) \<and>
    agc_api_register apis (Some name) desc syntax None = (AGC_STATUS_FALSE, apis)"
proof (intro conjI allI impI)
  let ?api = "\<lparr>api_name = name, api_desc = desc, api_syntax = syntax, api_function = f\<rparr>"
  have a: "r = AGC_STATUS_SUCCESS" "apis' = ?api # apis" using assms(3) by (auto simp: agc_api_register_def)
  show "r = AGC_STATUS_SUCCESS" by (rule a)
  show "agc_api_find apis' cmd = (if strcasecmp_eq name cmd then Some ?api else agc_api_find apis cmd)" for cmd by (simp add: a)
  show "\<exists>st''. agc_api_execute env apis' (Some cmd) arg st s = Some (q, st'', s') \<and>
       (if q = AGC_STATUS_SUCCESS then st'' = st' else stream_text st'' = stream_text st' @ COMMAND_ERROR)"
    if "strcasecmp_eq name cmd" for cmd
    using stream_write_appends [OF assms(5,1) message_text(1)] that assms(4) by (auto simp: agc_api_execute_def a)
  show "\<exists>st''. agc_api_execute env apis' (Some cmd) arg st s = Some (AGC_STATUS_FALSE, st'', s) \<and>
       stream_text st'' = stream_text st @ INVALID_COMMAND" if "agc_api_find apis' cmd = None" for cmd
    using stream_write_appends [OF assms(2,1) message_text(2)] that by (auto simp: agc_api_execute_def)
qed (simp_all add: agc_api_register_def)

theorem agc_api_execute_correct_witness:
  "\<exists>st''. agc_api_execute \<lparr>alloc_ok = \<lambda>_. True, alloc_junk = \<lambda>_. CHR ''x''\<rparr>
     (snd (agc_api_register [] (Some ''Show'') None None (Some (\<lambda>arg st n. Some (AGC_STATUS_GENERR, st, Suc n)))))
     (Some ''SHOW'') None agc_api_stand_stream (7::nat) = Some (AGC_STATUS_GENERR, st'', 8) \<and>
   stream_text st'' = COMMAND_ERROR"
proof -
  let ?f = "\<lambda>arg st n. Some (AGC_STATUS_GENERR, st, Suc n)"
  have w: "stream_wf agc_api_stand_stream" "stream_text agc_api_stand_stream = []"
    by (simp_all add: stream_wf_def stream_text_def agc_api_stand_stream_def AGC_CMD_CHUNK_LEN_def)
  have "strcasecmp_eq ''Show'' ''SHOW''" by code_simp
  with agc_api_execute_correct [of "\<lparr>alloc_ok = \<lambda>_. True, alloc_junk = \<lambda>_. CHR ''x''\<rparr>" agc_api_stand_stream "[]" "''Show''" None None ?f
      _ _ None "7::nat" AGC_STATUS_GENERR agc_api_stand_stream 8] w
  show ?thesis by (auto simp: agc_api_register_def)
qed

text \<open>
  C10: a command line of up to a hundred commands, separated by semicolons, runs the function of
  each command it finds on that command's own argument and under its own id, in the order of
  the line; unknown commands change nothing. A command without a blank makes the
  interpreter read through \<^verbatim>\<open>NULL\<close>.
\<close>

theorem agc_parse_execute_correct:
  assumes "\<forall>n. alloc_ok env n" "\<forall>api \<in> set apis. func_ok (api_function api)"
    and "\<forall>c \<in> set cs. command_ok c" "cs \<noteq> []" "length cs \<le> 100" "word_ok w"
  shows "agc_parse_execute env apis (Some (join_fields (CHR 0x3B) (map command_line cs))) s = run_commands apis cs s \<and>
    agc_parse_execute env apis (Some w) s = None"
proof
  let ?l = "join_fields (CHR 0x3B) (map command_line cs)"
  obtain c cs' where cs: "cs = c # cs'" using assms(4) by (cases cs) auto
  have "command_ok (last cs)" using assms(3,4) by simp
  have l: "last (map command_line cs) \<noteq> []"
    using command_field [OF \<open>command_ok (last cs)\<close>] assms(4) by (simp add: last_map)
  have c: "field_ok (CHR 0x3B) (command_line c)" "command_line c \<noteq> []" "hd (command_line c) \<noteq> CHR ''^''"
    using command_field assms(3) cs by auto
  obtain x r where x: "command_line c = x # r" "x \<noteq> CHR ''^''" using c by (cases "command_line c") auto
  have "take 2 ?l \<noteq> ''^^''" using x by (cases cs') (auto simp: cs)
  then have "agc_separate_string (Some ?l) (CHR 0x3B) 100 = Val (map command_line cs)"
    using command_field assms(3-5) l by (intro separate_joined) auto
  then show "agc_parse_execute env apis (Some ?l) s = run_commands apis cs s"
    using exec_each_commands [OF assms(1-3)] by (simp add: agc_parse_execute_def)
  have w: "CHR '' '' \<notin> set w" "CHR 0x0D \<notin> set w" "CHR 0x0A \<notin> set w" "w \<noteq> []" using assms(6) by (auto simp: word_ok_def)
  have "field_ok (CHR 0x3B) w" using assms(6) by (auto simp: field_ok_def word_ok_def plain_char_def dest: last_in_set hd_in_set)
  moreover have "take 2 w \<noteq> ''^^''" using assms(6) by (cases w) (auto simp: word_ok_def)
  ultimately have "agc_separate_string (Some w) (CHR 0x3B) 100 = Val [w]"
    using separate_joined [of "CHR 0x3B" "[w]" 100] w(4) by simp
  then show "agc_parse_execute env apis (Some w) s = None"
    using cut_first_none [OF w(1)] cut_line_plain [OF w(2,3)] by (simp add: agc_parse_execute_def parse_and_exec_def)
qed

theorem agc_parse_execute_correct_witness:
  "agc_parse_execute \<lparr>alloc_ok = \<lambda>_. True, alloc_junk = \<lambda>_. CHR ''x''\<rparr>
     [\<lparr>api_name = ''add'', api_desc = None, api_syntax = None, api_function = \<lambda>arg st xs. Some (AGC_STATUS_SUCCESS, st, (suuid st, arg) # xs)\<rparr>]
     (Some ''7 ADD a b;8 add'') [] = Some [(Some ''8'', None), (Some ''7'', Some ''a b'')]"
proof -
  let ?env = "\<lparr>alloc_ok = \<lambda>_. True, alloc_junk = \<lambda>_. CHR ''x''\<rparr>"
  let ?apis = "[\<lparr>api_name = ''add'', api_desc = None, api_syntax = None, api_function = \<lambda>arg st xs. Some (AGC_STATUS_SUCCESS, st, (suuid st, arg) # xs)\<rparr>]"
  let ?cs = "[(''7'', ''ADD'', Some ''a b''), (''8'', ''add'', None)]"
  have "strcasecmp_eq ''add'' ''ADD''" by code_simp
  then have "run_commands ?apis ?cs [] = Some [(Some ''8'', None), (Some ''7'', Some ''a b'')]"
    by (simp add: agc_api_stand_stream_def)
  moreover have "\<forall>c \<in> set ?cs. command_ok c" "word_ok ''w''" by (simp_all add: word_ok_def arg_ok_def)
  ultimately show ?thesis
    using agc_parse_execute_correct [of ?env ?apis ?cs "''w''" "[]"] by (simp add: func_ok_def)
qed

end
