(* ===== verification/Agc_Sql.thy ===== *)
theory Agc_Sql
  imports Agc_Api_Laws
begin

text \<open>
  The pool of database handles and the execution of SQL texts (\<^verbatim>\<open>src/src/agc_sql.c\<close>). Handles
  are addresses; a handle's mutex is a nested mutex, its owner and depth are fields of the
  handle. Each function that locks \<^verbatim>\<open>dbh_mutex\<close> is one atomic step of the calling thread, an
  argument of the definitions. What the ODBC layer answers is a parameter.
\<close>

section \<open>State\<close>

record sql_handle =
  db_handle :: "nat option"
  last_used :: int
  mutex_owner :: "nat option"
  mutex_count :: nat
  thread_hash :: u64
  creator :: string
  last_user :: string
  use_count :: u32
  total_used_count :: u64

record sql_pool =
  hnd :: "nat \<Rightarrow> sql_handle"
  handle_pool :: "nat list"
  total_handles :: u32
  total_used_handles :: u32

record sql_config =
  max_db_handles :: u32
  db_handle_timeout :: u32

definition HANDLE_NAME_LEN :: nat where "HANDLE_NAME_LEN = 256"

text \<open>The default values of \<^verbatim>\<open>src/src/agc_core.c\<close>.\<close>

definition default_config :: sql_config where
  "default_config = \<lparr>max_db_handles = 50, db_handle_timeout = 5000000\<rparr>"

text \<open>
  A nested mutex of the thread library: the owner may lock it again, up to the largest depth
  an unsigned counter holds, and an unlock by another thread is refused.
\<close>

definition mutex_trylock :: "nat \<Rightarrow> sql_handle \<Rightarrow> bool" where
  "mutex_trylock t h \<longleftrightarrow> mutex_count h = 0 \<or> mutex_owner h = Some t \<and> mutex_count h < 4294967295"

definition mutex_take :: "nat \<Rightarrow> sql_handle \<Rightarrow> sql_handle" where
  "mutex_take t h = h\<lparr>mutex_owner := Some t, mutex_count := Suc (mutex_count h)\<rparr>"

definition mutex_unlock :: "nat \<Rightarrow> sql_handle \<Rightarrow> sql_handle" where
  "mutex_unlock t h =
     (if mutex_owner h = Some t \<and> mutex_count h \<noteq> 0
      then h\<lparr>mutex_owner := (if mutex_count h = 1 then None else Some t), mutex_count := mutex_count h - 1\<rparr> else h)"

section \<open>Getting and releasing handles\<close>

definition agc_ci_hashfunc_default :: "string \<Rightarrow> u32" where
  "agc_ci_hashfunc_default key = foldl (\<lambda>hash p. hash * 33 + of_nat (of_char (c_tolower p))) 0 key"

definition thread_str :: "nat \<Rightarrow> string" where
  "thread_str self = ''thread='' @ [CHR 0x22] @ nat_str self @ [CHR 0x22]"

definition callsite_str :: "string \<Rightarrow> int \<Rightarrow> string" where
  "callsite_str file line = take (HANDLE_NAME_LEN - 2) (file @ '':'' @ int_str line)"

definition set_name :: "string \<Rightarrow> string" where
  "set_name s = take (HANDLE_NAME_LEN - 1) s"

definition create_handle :: sql_handle where
  "create_handle = \<lparr>db_handle = None, last_used = 0, mutex_owner = None, mutex_count = 0, thread_hash = 0,
     creator = [], last_user = [], use_count = 0, total_used_count = 0\<rparr>"

definition agc_sql_start :: sql_pool where
  "agc_sql_start = \<lparr>hnd = (\<lambda>_. create_handle), handle_pool = [], total_handles = 0, total_used_handles = 0\<rparr>"

definition add_handle :: "nat \<Rightarrow> nat \<Rightarrow> sql_handle \<Rightarrow> string \<Rightarrow> sql_pool \<Rightarrow> sql_pool" where
  "add_handle t dbh h callsite p =
     p\<lparr>hnd := (hnd p)(dbh := mutex_take t (h\<lparr>creator := set_name callsite,
          thread_hash := ucast (agc_ci_hashfunc_default (thread_str t)),
          use_count := use_count h + 1, total_used_count := total_used_count h + 1\<rparr>)),
       total_used_handles := total_used_handles p + 1, handle_pool := dbh # handle_pool p,
       total_handles := total_handles p + 1\<rparr>"

text \<open>\<^verbatim>\<open>del_handle\<close> unlinks a handle; nothing in the program calls it.\<close>

definition del_handle :: "nat \<Rightarrow> sql_pool \<Rightarrow> sql_pool" where
  "del_handle dbh p =
     (if dbh \<in> set (handle_pool p)
      then p\<lparr>handle_pool := remove1 dbh (handle_pool p), total_handles := total_handles p - 1\<rparr> else p)"

definition free_by_hash :: "nat \<Rightarrow> u64 \<Rightarrow> sql_handle \<Rightarrow> bool" where
  "free_by_hash t hash h \<longleftrightarrow> thread_hash h = hash \<and> use_count h = 0 \<and> mutex_trylock t h"

definition pick_handle :: "nat \<Rightarrow> u64 \<Rightarrow> sql_pool \<Rightarrow> nat option" where
  "pick_handle t hash p =
     (case List.find (\<lambda>d. free_by_hash t hash (hnd p d)) (handle_pool p) of
        Some d \<Rightarrow> Some d
      | None \<Rightarrow> List.find (\<lambda>d. mutex_trylock t (hnd p d)) (handle_pool p))"

definition get_freehandle :: "nat \<Rightarrow> string \<Rightarrow> sql_pool \<Rightarrow> nat option \<times> sql_pool" where
  "get_freehandle t user p =
     (let hash = ucast (agc_ci_hashfunc_default (thread_str t)) in
      case pick_handle t hash p of
        None \<Rightarrow> (None, p)
      | Some r \<Rightarrow>
          (let h = mutex_take t (hnd p r);
               h = h\<lparr>use_count := use_count h + 1, total_used_count := total_used_count h + 1,
                     thread_hash := hash, last_user := set_name user\<rparr>
           in (Some r, p\<lparr>hnd := (hnd p)(r := h), total_used_handles := total_used_handles p + 1\<rparr>)))"

text \<open>One test of the waiting loop of \<^verbatim>\<open>_agc_sql_get_handle\<close>; \<open>waiting\<close> after the first round.\<close>

datatype wait_result = Go | Again | Give_up

definition sql_wait :: "sql_config \<Rightarrow> bool \<Rightarrow> sql_pool \<Rightarrow> wait_result" where
  "sql_wait cfg waiting p =
     (if max_db_handles cfg \<noteq> 0 \<and> total_handles p \<ge> max_db_handles cfg \<and> total_used_handles p \<ge> total_handles p
      then if \<not> waiting \<and> db_handle_timeout cfg \<noteq> 0 \<and> 100000 > db_handle_timeout cfg then Give_up else Again
      else Go)"

text \<open>
  What the ODBC layer answers to a new handle: \<open>odbc_new\<close> is the handle or \<^verbatim>\<open>NULL\<close>, \<open>odbc_ok\<close>
  whether it connects. Without a handle the code goes on and stores \<^verbatim>\<open>NULL\<close>.
\<close>

record odbc_env =
  odbc_new :: "nat option"
  odbc_ok :: bool

text \<open>
  \<^verbatim>\<open>_agc_sql_get_handle\<close> behind its waiting loop, for a caller that no other thread disturbs:
  \<open>a\<close> is the address of a new handle, \<open>now\<close> the time.
\<close>

definition agc_sql_get_handle ::
  "odbc_env \<Rightarrow> nat \<Rightarrow> nat \<Rightarrow> int \<Rightarrow> string \<Rightarrow> int \<Rightarrow> sql_pool \<Rightarrow> agc_status \<times> nat option \<times> sql_pool" where
  "agc_sql_get_handle env t a now file line p =
     (let (r, p) = get_freehandle t (callsite_str file line) p;
          touch = (\<lambda>d p. p\<lparr>hnd := (hnd p)(d := (hnd p d)\<lparr>last_used := now\<rparr>)\<rparr>)
      in case r of
           Some d \<Rightarrow> (AGC_STATUS_SUCCESS, Some d, touch d p)
         | None \<Rightarrow>
             if odbc_new env \<noteq> None \<and> \<not> odbc_ok env then (AGC_STATUS_FALSE, None, p)
             else (AGC_STATUS_SUCCESS, Some a,
                   touch a (add_handle t a (create_handle\<lparr>db_handle := odbc_new env\<rparr>) (callsite_str file line) p)))"

definition agc_sql_release_handle :: "nat \<Rightarrow> int \<Rightarrow> nat \<Rightarrow> sql_pool \<Rightarrow> sql_pool" where
  "agc_sql_release_handle t now dbh p =
     (let h = (hnd p dbh)\<lparr>last_used := now\<rparr>;
          h = (if use_count h \<noteq> 0
               then (let h = h\<lparr>use_count := use_count h - 1\<rparr> in if use_count h = 0 then h\<lparr>thread_hash := 1\<rparr> else h)
               else h)
      in p\<lparr>hnd := (hnd p)(dbh := mutex_unlock t h), total_used_handles := total_used_handles p - 1\<rparr>)"

section \<open>Executing texts\<close>

text \<open>
  The database: a state, and what \<^verbatim>\<open>agc_odbc_handle_exec\<close> does to it: the status, the error
  message if any. \<open>want\<close> tells whether the caller passes a place for the message.
\<close>

type_synonym 's database = "'s \<Rightarrow> string \<Rightarrow> agc_status \<times> string option \<times> 's"

definition execute_sql_real :: "'s database \<Rightarrow> bool \<Rightarrow> 's \<Rightarrow> string \<Rightarrow> agc_status \<times> string option \<times> 's" where
  "execute_sql_real db want s sql = (let (status, errmsg, s) = db s sql in (status, if want then errmsg else None, s))"

definition AGC_MAX_SQL_LEN :: nat where "AGC_MAX_SQL_LEN = 32768"

text \<open>The search for a statement's end, backwards from \<open>p\<close>; \<open>r\<close> is the text from \<open>s\<close> on.\<close>

fun sql_boundary :: "string \<Rightarrow> nat \<Rightarrow> nat option" where
  "sql_boundary r 0 = None"
| "sql_boundary r (Suc p) = (if r ! Suc p = CHR 0x0A \<and> r ! p = CHR 0x3B then Some (Suc p) else sql_boundary r p)"

lemma sql_boundary_Some: "sql_boundary r p = Some q \<Longrightarrow> 0 < q \<and> q \<le> p \<and> r ! q = CHR 0x0A \<and> r ! (q - 1) = CHR 0x3B"
  by (induction p) (auto split: if_splits)

function sql_loop :: "'s database \<Rightarrow> bool \<Rightarrow> agc_status \<Rightarrow> string option \<Rightarrow> 's \<Rightarrow> string \<Rightarrow> agc_status \<times> string option \<times> 's" where
  "sql_loop db want status err s r =
     (if length r < 2 then (status, err, s)
      else (case sql_boundary r (min AGC_MAX_SQL_LEN (length r - 1)) of
              None \<Rightarrow> (status, err, s)
            | Some p \<Rightarrow>
                (let (status, err, s) = execute_sql_real db want s (take (p - 1) r) in
                 if status \<noteq> AGC_STATUS_SUCCESS \<or> err \<noteq> None then (status, err, s)
                 else sql_loop db want status err s (drop (Suc p) r))))"
  by pat_completeness auto
termination
  by (relation "measure (\<lambda>(_, _, _, _, _, r). length r)") (auto dest!: sql_boundary_Some)

declare sql_loop.simps [simp del]

definition agc_sql_execute_sql :: "'s database \<Rightarrow> bool \<Rightarrow> string option \<Rightarrow> 's \<Rightarrow> string \<Rightarrow> agc_status \<times> string option \<times> 's" where
  "agc_sql_execute_sql db want err s sql =
     (if length sql < AGC_MAX_SQL_LEN then execute_sql_real db want s sql
      else sql_loop db want AGC_STATUS_FALSE err s sql)"

text \<open>\<^verbatim>\<open>agc_sql_execute_sql_callback\<close> and its variant with an error callback.\<close>

definition agc_sql_execute_sql_callback :: "'s database \<Rightarrow> bool \<Rightarrow> 's \<Rightarrow> string \<Rightarrow> agc_status \<times> string option \<times> 's" where
  "agc_sql_execute_sql_callback cb want s sql = (let (status, errmsg, s) = cb s sql in (status, if want then errmsg else None, s))"

definition agc_sql_execute_sql_callback_err ::
  "'s database \<Rightarrow> (string \<Rightarrow> 's \<Rightarrow> 's) \<Rightarrow> bool \<Rightarrow> 's \<Rightarrow> string \<Rightarrow> agc_status \<times> string option \<times> 's" where
  "agc_sql_execute_sql_callback_err cb err_callback want s sql =
     (let (status, err, s) = agc_sql_execute_sql_callback cb want s sql in
      (status, err, case err of None \<Rightarrow> s | Some m \<Rightarrow> err_callback m s))"

text \<open>The loop of \<^verbatim>\<open>agc_sql_persistant_execute\<close> over the remaining tries.\<close>

fun persist_loop :: "'s database \<Rightarrow> string \<Rightarrow> nat \<Rightarrow> 's \<Rightarrow> agc_status \<times> 's" where
  "persist_loop db sql 0 s = (AGC_STATUS_FALSE, s)"
| "persist_loop db sql (Suc n) s =
     (let (_, errmsg, s) = execute_sql_real db True s sql in
      if errmsg \<noteq> None then persist_loop db sql n s else (AGC_STATUS_SUCCESS, s))"

definition agc_sql_persistant_execute :: "'s database \<Rightarrow> string \<Rightarrow> u32 \<Rightarrow> 's \<Rightarrow> agc_status \<times> 's" where
  "agc_sql_persistant_execute db sql retries s = persist_loop db sql (unat (if retries = 0 then 1000 else retries)) s"

end
