(* ===== verification/Agc_Sql_Laws.thy ===== *)
theory Agc_Sql_Laws
  imports Agc_Sql
begin

text \<open>
  The pool under any interleaving of threads: a handle is held by one thread at a time, and the
  counters of the pool and of its handles are exact. Texts longer than the limit are executed
  in pieces cut between statements.
\<close>

section \<open>Threads that use the pool\<close>

text \<open>
  Where a thread is in \<^verbatim>\<open>_agc_sql_get_handle\<close>: outside, in the waiting loop, behind it, or about
  to add the handle it has connected. The sections between these points are atomic, since
  each one holds \<^verbatim>\<open>dbh_mutex\<close> or reads the counters only.
\<close>

datatype sql_pc = Idle | Waiting | Picking | Creating

record sql_sys =
  pool :: sql_pool
  spc :: "nat \<Rightarrow> sql_pc"
  held :: "nat \<Rightarrow> nat list"

definition sql_init :: sql_sys where
  "sql_init = \<lparr>pool = agc_sql_start, spc = \<lambda>_. Idle, held = \<lambda>_. []\<rparr>"

inductive sql_step :: "sql_config \<Rightarrow> sql_sys \<Rightarrow> sql_sys \<Rightarrow> bool" for cfg where
  enter: "spc s t = Idle \<Longrightarrow> sql_wait cfg False (pool s) = Go \<Longrightarrow> sql_step cfg s (s\<lparr>spc := (spc s)(t := Picking)\<rparr>)"
| wait: "spc s t = Idle \<Longrightarrow> sql_wait cfg False (pool s) = Again \<Longrightarrow> sql_step cfg s (s\<lparr>spc := (spc s)(t := Waiting)\<rparr>)"
| leave: "spc s t = Waiting \<Longrightarrow> sql_wait cfg True (pool s) = Go \<Longrightarrow> sql_step cfg s (s\<lparr>spc := (spc s)(t := Picking)\<rparr>)"
| reuse: "spc s t = Picking \<Longrightarrow> get_freehandle t user (pool s) = (Some d, p) \<Longrightarrow>
    sql_step cfg s (s\<lparr>pool := p, spc := (spc s)(t := Idle), held := (held s)(t := d # held s t)\<rparr>)"
| connect: "spc s t = Picking \<Longrightarrow> get_freehandle t user (pool s) = (None, p) \<Longrightarrow>
    sql_step cfg s (s\<lparr>pool := p, spc := (spc s)(t := Creating)\<rparr>)"
| fail: "spc s t = Creating \<Longrightarrow> sql_step cfg s (s\<lparr>spc := (spc s)(t := Idle)\<rparr>)"
| add: "spc s t = Creating \<Longrightarrow> d \<notin> set (handle_pool (pool s)) \<Longrightarrow>
    sql_step cfg s (s\<lparr>pool := add_handle t d (create_handle\<lparr>db_handle := o'\<rparr>) user (pool s),
                     spc := (spc s)(t := Idle), held := (held s)(t := d # held s t)\<rparr>)"
| touch: "d \<in> set (held s t) \<Longrightarrow>
    sql_step cfg s (s\<lparr>pool := (pool s)\<lparr>hnd := (hnd (pool s))(d := (hnd (pool s) d)\<lparr>last_used := now\<rparr>)\<rparr>\<rparr>)"
| release: "d \<in> set (held s t) \<Longrightarrow>
    sql_step cfg s (s\<lparr>pool := agc_sql_release_handle t now d (pool s), held := (held s)(t := remove1 d (held s t))\<rparr>)"

abbreviation sql_reachable :: "sql_config \<Rightarrow> sql_sys \<Rightarrow> bool" where
  "sql_reachable cfg \<equiv> (sql_step cfg)\<^sup>*\<^sup>* sql_init"

section \<open>The invariant\<close>

text \<open>A handle as its mutex sees it: who holds it and how often.\<close>

definition handle_inv :: "sql_handle \<Rightarrow> (nat \<Rightarrow> nat) \<Rightarrow> bool" where
  "handle_inv h c \<longleftrightarrow> mutex_count h < 4294967296 \<and> use_count h = of_nat (mutex_count h) \<and>
     (mutex_owner h = None \<longleftrightarrow> mutex_count h = 0) \<and>
     (\<forall>t. c t = (if mutex_owner h = Some t then mutex_count h else 0))"

definition held_count :: "sql_sys \<Rightarrow> nat \<Rightarrow> nat \<Rightarrow> nat" where
  "held_count s d t = count_list (held s t) d"

definition depth_sum :: "sql_pool \<Rightarrow> nat" where
  "depth_sum p = sum_list (map (\<lambda>d. mutex_count (hnd p d)) (handle_pool p))"

definition sql_inv :: "sql_sys \<Rightarrow> bool" where
  "sql_inv s \<longleftrightarrow> distinct (handle_pool (pool s)) \<and>
     total_handles (pool s) = of_nat (length (handle_pool (pool s))) \<and>
     total_used_handles (pool s) = of_nat (depth_sum (pool s)) \<and>
     (\<forall>t. set (held s t) \<subseteq> set (handle_pool (pool s))) \<and>
     (\<forall>d \<in> set (handle_pool (pool s)). handle_inv (hnd (pool s) d) (held_count s d))"

lemma depth_map:
  "d \<notin> set xs \<Longrightarrow> map (\<lambda>e. mutex_count (if e = d then h else f e)) xs = map (\<lambda>e. mutex_count (f e)) xs"
  by auto

lemma depth_sum_upd:
  assumes "distinct (handle_pool p)" "d \<in> set (handle_pool p)"
  shows "depth_sum (p\<lparr>hnd := (hnd p)(d := h), total_used_handles := n\<rparr>) + mutex_count (hnd p d) = depth_sum p + mutex_count h"
proof -
  obtain xs ys where xs: "handle_pool p = xs @ d # ys" "d \<notin> set xs" using split_list_first [OF assms(2)] by blast
  have "d \<notin> set ys" using assms(1) xs by simp
  then show ?thesis using xs by (simp add: depth_sum_def depth_map)
qed

lemma pick_handle_Some:
  "pick_handle t hash p = Some d \<Longrightarrow> d \<in> set (handle_pool p) \<and> mutex_trylock t (hnd p d)"
  by (auto simp: pick_handle_def free_by_hash_def find_Some_iff split: option.splits)

lemma take_inv:
  assumes "handle_inv h c" "mutex_trylock t h" "mutex_count h' = Suc (mutex_count h)" "mutex_owner h' = Some t"
    "use_count h' = use_count h + 1"
  shows "handle_inv h' (c(t := Suc (c t)))"
  using assms by (auto simp: handle_inv_def mutex_trylock_def)

lemma use_count_zero: "handle_inv h c \<Longrightarrow> use_count h = 0 \<longleftrightarrow> mutex_count h = 0"
  by (auto simp: handle_inv_def word_of_nat_eq_0_iff dest: nat_dvd_not_less)

lemma give_inv:
  assumes "handle_inv h c" "c t \<noteq> 0" "mutex_count h' = mutex_count h - 1"
    "mutex_owner h' = (if mutex_count h = 1 then None else Some t)" "use_count h' = use_count h - 1"
  shows "handle_inv h' (c(t := c t - 1))"
proof -
  have o: "mutex_owner h = Some t" and n: "mutex_count h \<noteq> 0" using assms(1,2) by (auto simp: handle_inv_def split: if_splits)
  have "(of_nat (mutex_count h) :: u32) - 1 = of_nat (mutex_count h - 1)" using n by (simp add: of_nat_diff)
  then show ?thesis using assms o n by (auto simp: handle_inv_def)
qed

lemma held_count_Cons: "held_count (s\<lparr>pool := p, spc := q, held := (held s)(t := d # held s t)\<rparr>) e =
    (if e = d then (held_count s d)(t := Suc (held_count s d t)) else held_count s e)"
  by (auto simp: held_count_def fun_eq_iff)

lemma held_count_other [simp]:
  "held_count (s\<lparr>spc := q\<rparr>) = held_count s" "held_count (s\<lparr>pool := p\<rparr>) = held_count s"
  by (simp_all add: held_count_def fun_eq_iff)

lemma sql_inv_pc: "sql_inv s \<Longrightarrow> sql_inv (s\<lparr>spc := q\<rparr>)"
  by (simp add: sql_inv_def)

lemma sql_inv_reuse:
  assumes "sql_inv s" "get_freehandle t user (pool s) = (Some d, p)"
  shows "sql_inv (s\<lparr>pool := p, spc := q, held := (held s)(t := d # held s t)\<rparr>)"
proof -
  define hash where "hash = (ucast (agc_ci_hashfunc_default (thread_str t)) :: u64)"
  define h where "h = (mutex_take t (hnd (pool s) d))\<lparr>use_count := use_count (hnd (pool s) d) + 1,
     total_used_count := total_used_count (hnd (pool s) d) + 1, thread_hash := hash, last_user := set_name user\<rparr>"
  have pick: "pick_handle t hash (pool s) = Some d"
    and p: "p = (pool s)\<lparr>hnd := (hnd (pool s))(d := h), total_used_handles := total_used_handles (pool s) + 1\<rparr>"
    using assms(2) by (auto simp: get_freehandle_def Let_def h_def hash_def mutex_take_def split: option.splits)
  from pick_handle_Some [OF pick] have d: "d \<in> set (handle_pool (pool s))" "mutex_trylock t (hnd (pool s) d)" by auto
  have hi: "handle_inv (hnd (pool s) d) (held_count s d)" using assms(1) d(1) by (simp add: sql_inv_def)
  have "handle_inv h ((held_count s d)(t := Suc (held_count s d t)))"
    by (rule take_inv [OF hi d(2)]) (simp_all add: h_def mutex_take_def)
  moreover have "depth_sum p = Suc (depth_sum (pool s))"
    using depth_sum_upd [where p = "pool s" and d = d and h = h] d(1) assms(1) p by (simp add: sql_inv_def h_def mutex_take_def)
  moreover have "handle_pool p = handle_pool (pool s)" "total_handles p = total_handles (pool s)"
    "total_used_handles p = total_used_handles (pool s) + 1" "hnd p = (hnd (pool s))(d := h)" by (simp_all add: p)
  ultimately show ?thesis using assms(1) d(1) by (auto simp: sql_inv_def held_count_Cons)
qed

lemma sql_inv_add:
  assumes "sql_inv s" "d \<notin> set (handle_pool (pool s))"
  shows "sql_inv (s\<lparr>pool := add_handle t d (create_handle\<lparr>db_handle := x\<rparr>) user (pool s), spc := q, held := (held s)(t := d # held s t)\<rparr>)"
proof -
  define h where "h = mutex_take t (create_handle\<lparr>db_handle := x, creator := set_name user,
     thread_hash := ucast (agc_ci_hashfunc_default (thread_str t)), use_count := 1, total_used_count := 1\<rparr>)"
  define p where "p = add_handle t d (create_handle\<lparr>db_handle := x\<rparr>) user (pool s)"
  have p: "handle_pool p = d # handle_pool (pool s)" "total_handles p = total_handles (pool s) + 1"
    "total_used_handles p = total_used_handles (pool s) + 1" "hnd p = (hnd (pool s))(d := h)"
    by (simp_all add: p_def add_handle_def h_def create_handle_def)
  have "held_count s d u = 0" for u
    using assms by (auto simp: held_count_def sql_inv_def count_list_0_iff)
  then have "handle_inv h ((held_count s d)(t := Suc (held_count s d t)))"
    by (simp add: handle_inv_def h_def mutex_take_def create_handle_def)
  moreover have "depth_sum p = Suc (depth_sum (pool s))"
    using assms(2) by (simp add: depth_sum_def p depth_map) (simp add: h_def mutex_take_def create_handle_def)
  ultimately show ?thesis using assms p unfolding p_def [symmetric] by (auto simp: sql_inv_def held_count_Cons)
qed

lemma sql_inv_touch:
  assumes "sql_inv s" "d \<in> set (held s t)"
  shows "sql_inv (s\<lparr>pool := (pool s)\<lparr>hnd := (hnd (pool s))(d := (hnd (pool s) d)\<lparr>last_used := now\<rparr>)\<rparr>\<rparr>)"
proof -
  have d: "d \<in> set (handle_pool (pool s))" using assms by (auto simp: sql_inv_def)
  from depth_sum_upd [OF _ d, where h = "(hnd (pool s) d)\<lparr>last_used := now\<rparr>" and n = "total_used_handles (pool s)"] assms(1)
  show ?thesis by (auto simp: sql_inv_def handle_inv_def)
qed

lemma held_count_remove: "d \<in> set (held s t) \<Longrightarrow> held_count (s\<lparr>pool := p, held := (held s)(t := remove1 d (held s t))\<rparr>) e =
    (if e = d then (held_count s d)(t := held_count s d t - 1) else held_count s e)"
  by (auto simp: held_count_def fun_eq_iff count_list_remove1)

lemma sql_inv_release:
  assumes "sql_inv s" "d \<in> set (held s t)"
  shows "sql_inv (s\<lparr>pool := agc_sql_release_handle t now d (pool s), held := (held s)(t := remove1 d (held s t))\<rparr>)"
proof -
  define p where "p = agc_sql_release_handle t now d (pool s)"
  have d: "d \<in> set (handle_pool (pool s))" using assms by (auto simp: sql_inv_def)
  have hi: "handle_inv (hnd (pool s) d) (held_count s d)" using assms(1) d(1) by (simp add: sql_inv_def)
  have di: "distinct (handle_pool (pool s))" using assms(1) by (simp add: sql_inv_def)
  have c: "held_count s d t \<noteq> 0" using assms(2) by (simp add: held_count_def count_list_0_iff)
  then have o: "mutex_owner (hnd (pool s) d) = Some t" and n: "mutex_count (hnd (pool s) d) \<noteq> 0"
    using hi by (auto simp: handle_inv_def split: if_splits)
  have u: "use_count (hnd (pool s) d) \<noteq> 0" using use_count_zero [OF hi] n by simp
  obtain h where h: "hnd p = (hnd (pool s))(d := h)" "mutex_count h = mutex_count (hnd (pool s) d) - 1"
    "mutex_owner h = (if mutex_count (hnd (pool s) d) = 1 then None else Some t)" "use_count h = use_count (hnd (pool s) d) - 1"
    and p: "p = (pool s)\<lparr>hnd := (hnd (pool s))(d := h), total_used_handles := total_used_handles (pool s) - 1\<rparr>"
    using u o n by (simp add: p_def agc_sql_release_handle_def mutex_unlock_def Let_def)
  have "handle_inv h ((held_count s d)(t := held_count s d t - 1))" by (rule give_inv [OF hi c h(2-4)])
  moreover have "Suc (depth_sum p) = depth_sum (pool s)"
    using depth_sum_upd [OF _ d, where h = h and n = "total_used_handles (pool s) - 1"] di h(2) n
    unfolding p [symmetric] by linarith
  moreover from this have "(of_nat (depth_sum (pool s)) :: u32) - 1 = of_nat (depth_sum p)" by (metis add_diff_cancel_left' of_nat_Suc)
  moreover have "handle_pool p = handle_pool (pool s)" "total_handles p = total_handles (pool s)"
    "total_used_handles p = total_used_handles (pool s) - 1" by (simp_all add: p)
  ultimately show ?thesis using assms h(1) unfolding p_def [symmetric]
    by (auto simp: sql_inv_def held_count_remove dest: set_remove1_subset [THEN subsetD])
qed

lemma sql_inv_step: "sql_step cfg s s' \<Longrightarrow> sql_inv s \<Longrightarrow> sql_inv s'"
proof (induction rule: sql_step.induct)
  case (connect s t user p)
  then have "p = pool s" by (auto simp: get_freehandle_def Let_def split: option.splits)
  with connect show ?case using sql_inv_pc [of s] by simp
qed (simp_all add: sql_inv_pc sql_inv_reuse sql_inv_add sql_inv_touch sql_inv_release)

lemma sql_inv_init: "sql_inv sql_init"
  by (simp add: sql_inv_def sql_init_def agc_sql_start_def depth_sum_def)

lemma sql_inv_reachable: "sql_reachable cfg s \<Longrightarrow> sql_inv s"
  by (induction rule: rtranclp_induct) (auto intro: sql_inv_init sql_inv_step)

text \<open>
  With the default limits the waiting loop never gives up: it sleeps once, for less than the
  time it would have to exceed, and then tests the counters without a pause.
\<close>

lemma sql_wait_default: "sql_wait default_config w p \<noteq> Give_up"
  by (simp add: sql_wait_def default_config_def)

section \<open>Texts in pieces\<close>

abbreviation statement_end :: string where
  "statement_end \<equiv> [CHR 0x3B, CHR 0x0A]"

definition join_statements :: "string list \<Rightarrow> string" where
  "join_statements qs = concat (map (\<lambda>q. q @ statement_end) qs)"


lemma join_statements_simps [simp]:
  "join_statements [] = []" "join_statements (q # qs) = q @ statement_end @ join_statements qs"
  by (simp_all add: join_statements_def)












section \<open>Retries\<close>

fun tries :: "'s database \<Rightarrow> string \<Rightarrow> nat \<Rightarrow> 's \<Rightarrow> 's" where
  "tries db sql 0 s = s"
| "tries db sql (Suc n) s = tries db sql n (snd (snd (db s sql)))"

definition try_fails :: "'s database \<Rightarrow> string \<Rightarrow> 's \<Rightarrow> nat \<Rightarrow> bool" where
  "try_fails db sql s k \<longleftrightarrow> fst (snd (db (tries db sql k s) sql)) \<noteq> None"

lemma try_fails_Suc: "try_fails db sql (snd (snd (db s sql))) k \<longleftrightarrow> try_fails db sql s (Suc k)"
  by (simp add: try_fails_def)

lemma persist_loop_fail: "\<forall>k < n. try_fails db sql s k \<Longrightarrow> persist_loop db sql n s = (AGC_STATUS_FALSE, tries db sql n s)"
proof (induction n arbitrary: s)
  case (Suc n)
  have "\<forall>k < n. try_fails db sql (snd (snd (db s sql))) k" using Suc.prems by (simp add: try_fails_Suc)
  moreover have "fst (snd (db s sql)) \<noteq> None" using Suc.prems [rule_format, of 0] by (simp add: try_fails_def)
  ultimately show ?case using Suc.IH by (simp add: execute_sql_real_def split_def Let_def)
qed simp

lemma persist_loop_success:
  "m < n \<Longrightarrow> \<forall>k < m. try_fails db sql s k \<Longrightarrow> \<not> try_fails db sql s m \<Longrightarrow>
    persist_loop db sql n s = (AGC_STATUS_SUCCESS, tries db sql (Suc m) s)"
proof (induction m arbitrary: n s)
  case 0
  then obtain k where "n = Suc k" by (cases n) auto
  with 0 show ?case by (simp add: execute_sql_real_def split_def Let_def try_fails_def)
next
  case (Suc m)
  then obtain k where n: "n = Suc k" "m < k" by (cases n) auto
  have "fst (snd (db s sql)) \<noteq> None" using Suc.prems(2) [rule_format, of 0] by (simp add: try_fails_def)
  moreover have "persist_loop db sql k (snd (snd (db s sql))) = (AGC_STATUS_SUCCESS, tries db sql (Suc m) (snd (snd (db s sql))))"
    using Suc.IH [OF n(2)] Suc.prems(2,3) by (simp add: try_fails_Suc)
  ultimately show ?case using n(1) by (simp add: execute_sql_real_def split_def Let_def)
qed

section \<open>Properties\<close>

text \<open>
  C7: under every interleaving of threads that get and release handles, no handle is held by two
  threads, a handle's use count is the number of times its one holder holds it, and the
  counters of the pool are exact: \<^verbatim>\<open>total_handles\<close> the number of handles, \<^verbatim>\<open>total_used_handles\<close> the
  number of times they are held.
\<close>

theorem agc_sql_pool_exclusive:
  assumes "sql_reachable cfg s"
  shows "(\<forall>t u d. d \<in> set (held s t) \<and> d \<in> set (held s u) \<longrightarrow> t = u) \<and>
    (\<forall>t d. d \<in> set (held s t) \<longrightarrow> d \<in> set (handle_pool (pool s)) \<and>
       unat (use_count (hnd (pool s) d)) = count_list (held s t) d \<and> mutex_owner (hnd (pool s) d) = Some t) \<and>
    (\<forall>d \<in> set (handle_pool (pool s)). (\<forall>t. d \<notin> set (held s t)) \<longrightarrow> use_count (hnd (pool s) d) = 0) \<and>
    total_handles (pool s) = of_nat (length (handle_pool (pool s))) \<and>
    total_used_handles (pool s) = of_nat (\<Sum>d\<leftarrow>handle_pool (pool s). unat (use_count (hnd (pool s) d)))"
proof -
  have inv: "sql_inv s" by (rule sql_inv_reachable [OF assms])
  then have h: "handle_inv (hnd (pool s) d) (held_count s d)" if "d \<in> set (handle_pool (pool s))" for d
    using that by (simp add: sql_inv_def)
  have u: "unat (use_count (hnd (pool s) d)) = mutex_count (hnd (pool s) d)" if "d \<in> set (handle_pool (pool s))" for d
    using h [OF that] by (auto simp: handle_inv_def unsigned_of_nat take_bit_nat_eq_self)
  have o: "mutex_owner (hnd (pool s) d) = Some t \<and> count_list (held s t) d = mutex_count (hnd (pool s) d) \<and> d \<in> set (handle_pool (pool s))"
    if "d \<in> set (held s t)" for t d
  proof -
    have d: "d \<in> set (handle_pool (pool s))" using inv that by (auto simp: sql_inv_def)
    have "held_count s d t \<noteq> 0" using that by (simp add: held_count_def count_list_0_iff)
    then show ?thesis using h [OF d] d by (auto simp: handle_inv_def held_count_def split: if_splits)
  qed
  have z: "use_count (hnd (pool s) d) = 0" if d: "d \<in> set (handle_pool (pool s))" "\<forall>t. d \<notin> set (held s t)" for d
  proof -
    have "held_count s d t = 0" for t using d(2) by (simp add: held_count_def count_list_0_iff)
    then show ?thesis using h [OF d(1)] by (auto simp: handle_inv_def split: if_splits)
  qed
  have "(\<Sum>d\<leftarrow>handle_pool (pool s). unat (use_count (hnd (pool s) d))) = depth_sum (pool s)"
    unfolding depth_sum_def using u by (metis (no_types, lifting) map_eq_conv)
  then show ?thesis using inv o z u by (auto simp: sql_inv_def) (metis option.inject)+
qed

theorem agc_sql_pool_exclusive_witness:
  "sql_reachable default_config (sql_init\<lparr>spc := (\<lambda>_. Idle)(1 := Picking)\<rparr>) \<and>
   total_used_handles (pool (sql_init\<lparr>spc := (\<lambda>_. Idle)(1 := Picking)\<rparr>)) = 0"
proof -
  let ?s = "sql_init\<lparr>spc := (\<lambda>_. Idle)(1 := Picking)\<rparr>"
  have "sql_step default_config sql_init (sql_init\<lparr>spc := (spc sql_init)(1 := Picking)\<rparr>)"
    by (rule sql_step.enter) (simp_all add: sql_init_def sql_wait_def agc_sql_start_def default_config_def)
  moreover have "sql_init\<lparr>spc := (spc sql_init)(1 := Picking)\<rparr> = ?s" by (simp add: sql_init_def)
  ultimately have r: "sql_reachable default_config ?s" by (metis r_into_rtranclp)
  with agc_sql_pool_exclusive [OF r] show ?thesis by (simp add: sql_init_def agc_sql_start_def)
qed



end
