(* ===== verification/Agc_Log.thy ===== *)
theory Agc_Log
  imports Agc_Queue_Threads Agc_Utils
begin

text \<open>
  Logging (\<^verbatim>\<open>src/src/agc_log.c\<close>): messages are filtered by level, written to the console or
  queued, and a thread hands each queued message to the loggers that want its level. The
  queue is the bounded queue of \<^verbatim>\<open>apr_queue.c\<close>; it holds addresses of nodes in a store. The
  calls of the loggers are recorded in the state. What the environment answers (the date,
  the formatting of the arguments, the state of the console, the address of a new node) is
  an argument.
\<close>

section \<open>Levels\<close>

definition AGC_LOG_DEBUG :: nat where "AGC_LOG_DEBUG = 7"
definition AGC_LOG_INFO :: nat where "AGC_LOG_INFO = 6"
definition AGC_LOG_CRIT :: nat where "AGC_LOG_CRIT = 2"
definition AGC_LOG_INVALID :: nat where "AGC_LOG_INVALID = 64"

definition LEVELS :: "string list" where
  "LEVELS = [''CONSOLE'', ''ALERT'', ''CRIT'', ''ERR'', ''WARNING'', ''NOTICE'', ''INFO'', ''DEBUG'']"

definition agc_log_level2str :: "nat \<Rightarrow> string" where
  "agc_log_level2str level = LEVELS ! (if AGC_LOG_DEBUG < level then AGC_LOG_DEBUG else level)"

fun search_level :: "string \<Rightarrow> string list \<Rightarrow> nat \<Rightarrow> nat" where
  "search_level str [] x = AGC_LOG_INVALID"
| "search_level str (l # ls) x = (if strcasecmp_eq l str then x else search_level str ls (Suc x))"

definition agc_log_str2level :: "string \<Rightarrow> nat" where
  "agc_log_str2level str =
     (if agc_is_number str
      then (let x = c_atoi str in
            if int AGC_LOG_INVALID < x then AGC_LOG_INVALID - 1 else if x < 0 then 0 else nat x)
      else search_level str LEVELS 0)"

section \<open>State\<close>

record log_node =
  ndata :: "string option"
  nfile :: string
  nline :: u32
  nfunc :: string
  nlevel :: nat
  ntimestamp :: int
  nuserdata :: "string option"

record log_binding =
  lfunction :: nat
  llevel :: nat
  is_console :: bool

record logsys =
  log_queue :: "apr_queue option"
  nodes :: "addr \<Rightarrow> log_node"
  nlive :: "addr set"
  bindings :: "log_binding list"
  running :: int
  max_log_level :: nat
  hard_log_level :: nat
  mods_loaded :: int
  console_mods_loaded :: int
  colorize :: bool
  console_out :: "string list"
  log_calls :: "(nat \<times> log_node) list"

record log_env =
  edate :: string
  eformat :: "string \<Rightarrow> string option"
  econsole :: bool
  ewritable :: bool
  enow :: int
  enode :: addr

definition esc_color :: "string \<Rightarrow> string" where
  "esc_color c = CHR 0x1B # ''['' @ c @ ''m''"

definition COLORS :: "string list" where
  "COLORS = [esc_color [], esc_color ''31'', esc_color ''31'', esc_color ''31'', esc_color ''35'', esc_color ''36'',
     esc_color ''32'', esc_color ''33'']"

section \<open>Writing a message\<close>

text \<open>
  The format that is built from the caller's one, and the size of the buffer it is printed to;
  \<^verbatim>\<open>agc_snprintf\<close> cuts what does not fit.
\<close>

definition extra_fmt :: string where
  "extra_fmt = ''%s [%s] %s:%d %s''"

definition full_fmt_len :: "string \<Rightarrow> string \<Rightarrow> string \<Rightarrow> nat" where
  "full_fmt_len date filep fmt = length extra_fmt + length date + length filep + 32 + length fmt"

definition full_fmt_text :: "string \<Rightarrow> nat \<Rightarrow> string \<Rightarrow> int \<Rightarrow> string \<Rightarrow> string" where
  "full_fmt_text date level filep line fmt =
     date @ '' ['' @ agc_log_level2str level @ ''] '' @ filep @ '':'' @ int_str line @ '' '' @ fmt"

definition full_fmt :: "string \<Rightarrow> nat \<Rightarrow> string \<Rightarrow> int \<Rightarrow> string \<Rightarrow> string" where
  "full_fmt date level filep line fmt = take (full_fmt_len date filep fmt - 1) (full_fmt_text date level filep line fmt)"

definition queue_ready :: "logsys \<Rightarrow> bool" where
  "queue_ready s \<longleftrightarrow> log_queue s \<noteq> None \<and> running s \<noteq> 0"

text \<open>The direct output; a level without a colour is a read outside \<^verbatim>\<open>COLORS\<close>.\<close>

definition log_console :: "log_env \<Rightarrow> nat \<Rightarrow> string \<Rightarrow> logsys \<Rightarrow> logsys option" where
  "log_console env level data s =
     (if (console_mods_loaded s = 0 \<or> \<not> queue_ready s) \<and> econsole env \<and> ewritable env
      then if colorize s
           then (if level < length COLORS
                 then Some (s\<lparr>console_out := console_out s @ [COLORS ! level @ data @ esc_color []]\<rparr>) else None)
           else Some (s\<lparr>console_out := console_out s @ [data]\<rparr>)
      else Some s)"

definition new_node :: "log_env \<Rightarrow> string \<Rightarrow> string \<Rightarrow> string \<Rightarrow> int \<Rightarrow> nat \<Rightarrow> log_node" where
  "new_node env data filep funcp line level =
     \<lparr>ndata = Some data, nfile = take 79 filep, nline = of_int line, nfunc = take 79 funcp, nlevel = level,
      ntimestamp = enow env, nuserdata = None\<rparr>"

definition agc_log_node_free :: "addr \<Rightarrow> logsys \<Rightarrow> logsys" where
  "agc_log_node_free a s = s\<lparr>nlive := nlive s - {a}\<rparr>"

definition log_enqueue :: "log_env \<Rightarrow> log_node \<Rightarrow> logsys \<Rightarrow> logsys option" where
  "log_enqueue env nd s =
     (if queue_ready s \<and> nlevel nd \<le> max_log_level s
      then (let s = s\<lparr>nodes := (nodes s)(enode env := nd), nlive := insert (enode env) (nlive s)\<rparr> in do {
              (r, q) \<leftarrow> apr_queue_trypush (the (log_queue s)) (enode env);
              let s = s\<lparr>log_queue := Some q\<rparr>;
              Some (if r \<noteq> APR_SUCCESS then agc_log_node_free (enode env) s else s)
            })
      else Some s)"

definition agc_log_vprintf ::
  "log_env \<Rightarrow> string option \<Rightarrow> string option \<Rightarrow> int \<Rightarrow> nat \<Rightarrow> string \<Rightarrow> logsys \<Rightarrow> logsys option" where
  "agc_log_vprintf env file func line level fmt s =
     (if hard_log_level s < level then Some s
      else if AGC_LOG_INVALID \<le> level then None
      else (let funcp = (case func of None \<Rightarrow> [] | Some f \<Rightarrow> f);
                filep = (case file of None \<Rightarrow> [] | Some f \<Rightarrow> the (agc_cut_path (Some f)))
            in case eformat env (full_fmt (edate env) level filep line fmt) of
                 None \<Rightarrow> Some s
               | Some data \<Rightarrow> do {
                   s \<leftarrow> log_console env level data s;
                   log_enqueue env (new_node env data filep funcp line level) s
                 }))"

section \<open>Loggers\<close>

definition agc_log_bind_logger :: "nat \<Rightarrow> nat \<Rightarrow> bool \<Rightarrow> logsys \<Rightarrow> agc_status \<times> logsys" where
  "agc_log_bind_logger f level con s =
     (let s = (if level mod 256 > max_log_level s then s\<lparr>max_log_level := level mod 256\<rparr> else s);
          s = (if level > hard_log_level s then s\<lparr>hard_log_level := level\<rparr> else s)
      in (AGC_STATUS_SUCCESS,
          s\<lparr>bindings := bindings s @ [\<lparr>lfunction = f, llevel = level, is_console = con\<rparr>],
            console_mods_loaded := (if con then console_mods_loaded s + 1 else console_mods_loaded s),
            mods_loaded := mods_loaded s + 1\<rparr>))"

text \<open>The function computes a status and falls off its end without returning it.\<close>

definition agc_log_unbind_logger :: "nat \<Rightarrow> logsys \<Rightarrow> logsys" where
  "agc_log_unbind_logger f s =
     (case List.find (\<lambda>b. lfunction b = f) (bindings s) of
        None \<Rightarrow> s
      | Some b \<Rightarrow> s\<lparr>bindings := remove1 b (bindings s), mods_loaded := mods_loaded s - 1,
                    console_mods_loaded := (if is_console b then console_mods_loaded s - 1 else console_mods_loaded s)\<rparr>)"

section \<open>The thread\<close>

text \<open>
  One round of \<^verbatim>\<open>log_thread_func\<close> on what the queue returned: whether the loop goes on, and
  the state.
\<close>

definition log_thread_round :: "apr_status \<times> addr option \<Rightarrow> logsys \<Rightarrow> (bool \<times> logsys) option" where
  "log_thread_round res s = (case res of
     (APR_SUCCESS, Some a) \<Rightarrow>
       if a = NULL then Some (False, s\<lparr>running := 0\<rparr>)
       else if a \<notin> nlive s then None
       else (let nd = nodes s a;
                 s = s\<lparr>log_calls := log_calls s @
                       map (\<lambda>b. (lfunction b, nd)) (filter (\<lambda>b. llevel b \<ge> nlevel nd) (bindings s))\<rparr>
             in Some (running s = 1, agc_log_node_free a s))
   | _ \<Rightarrow> Some (False, s\<lparr>running := 0\<rparr>))"

definition AGC_LOG_QUEUE_LEN :: u32 where "AGC_LOG_QUEUE_LEN = 100000"

text \<open>The start: the thread has set \<^verbatim>\<open>LOG_THREAD_RUNNING\<close> when the waiting loop ends.\<close>

definition agc_log_init :: "log_env \<Rightarrow> bool \<Rightarrow> logsys \<Rightarrow> logsys option" where
  "agc_log_init env color s =
     agc_log_vprintf env (Some ''agc_log.c'') (Some ''agc_log_init'') 109 AGC_LOG_INFO (''Log init success.'' @ [CHR 0x0A])
       (s\<lparr>log_queue := Some (apr_queue_create AGC_LOG_QUEUE_LEN), running := 1, colorize := (colorize s \<or> color)\<rparr>)"

end
