(* ===== verification/Agc_Log_Laws.thy ===== *)
theory Agc_Log_Laws
  imports Agc_Log
begin

text \<open>
  What logging promises: the level filters never hold back a message that a bound logger asks
  for, every queued message reaches exactly the loggers that want its level, in the order of
  the messages and of the bindings, and its node is freed; the format buffer always fits.
\<close>

section \<open>The invariant of the bindings\<close>

definition log_inv :: "logsys \<Rightarrow> bool" where
  "log_inv s \<longleftrightarrow> (\<forall>b \<in> set (bindings s). llevel b < 256 \<longrightarrow> llevel b \<le> max_log_level s \<and> llevel b \<le> hard_log_level s) \<and>
     mods_loaded s = int (length (bindings s)) \<and>
     console_mods_loaded s = int (length (filter is_console (bindings s)))"

lemma bind_inv: "log_inv s \<Longrightarrow> log_inv (snd (agc_log_bind_logger f level con s))"
  by (fastforce simp: log_inv_def agc_log_bind_logger_def Let_def)

lemma length_remove1_found: "x \<in> set xs \<Longrightarrow> int (length (remove1 x xs)) = int (length xs) - 1"
  by (cases "length xs") (auto simp: length_remove1)

lemma filter_remove1_found:
  "x \<in> set xs \<Longrightarrow> int (length (filter P (remove1 x xs))) = int (length (filter P xs)) - (if P x then 1 else 0)"
  by (induction xs) auto

lemma unbind_inv: "log_inv s \<Longrightarrow> log_inv (agc_log_unbind_logger f s)"
proof (cases "List.find (\<lambda>b. lfunction b = f) (bindings s)")
  case (Some b)
  then have "b \<in> set (bindings s)" by (auto simp: find_Some_iff)
  moreover assume "log_inv s"
  ultimately show ?thesis using Some
    by (auto simp: log_inv_def agc_log_unbind_logger_def length_remove1_found filter_remove1_found dest: notin_set_remove1 [rotated])
qed (simp add: agc_log_unbind_logger_def)

lemma console_keeps:
  assumes "log_console env level data s = Some s'"
  shows "s' = s\<lparr>console_out := console_out s'\<rparr>"
  using assms by (auto simp: log_console_def split: if_splits)

lemma enqueue_keeps:
  assumes "log_enqueue env nd s = Some s'"
  shows "bindings s' = bindings s \<and> max_log_level s' = max_log_level s \<and> hard_log_level s' = hard_log_level s \<and>
    mods_loaded s' = mods_loaded s \<and> console_mods_loaded s' = console_mods_loaded s \<and> log_calls s' = log_calls s \<and>
    running s' = running s \<and> colorize s' = colorize s"
  using assms by (auto simp: log_enqueue_def agc_log_node_free_def Let_def bind_Some_iff split: if_splits)

lemma vprintf_keeps:
  assumes "agc_log_vprintf env file func line level fmt s = Some s'"
  shows "bindings s' = bindings s \<and> max_log_level s' = max_log_level s \<and> hard_log_level s' = hard_log_level s \<and>
    mods_loaded s' = mods_loaded s \<and> console_mods_loaded s' = console_mods_loaded s \<and> log_calls s' = log_calls s \<and>
    running s' = running s \<and> colorize s' = colorize s"
proof (cases "s' = s")
  case False
  with assms obtain s1 nd data where c: "log_console env level data s = Some s1" and e: "log_enqueue env nd s1 = Some s'"
    by (auto simp: agc_log_vprintf_def Let_def bind_Some_iff split: if_splits option.splits)
  obtain o' where "s1 = s\<lparr>console_out := o'\<rparr>" using console_keeps [OF c] by blast
  then show ?thesis using enqueue_keeps [OF e] by simp
qed simp

lemma round_inv: "log_inv s \<Longrightarrow> log_thread_round r s = Some (b, s') \<Longrightarrow> log_inv s'"
  by (cases r) (auto simp: log_inv_def log_thread_round_def agc_log_node_free_def Let_def split: apr_status.splits option.splits if_splits)

section \<open>One message\<close>

record log_msg =
  mfile :: "string option"
  mfunc :: "string option"
  mline :: int
  mlevel :: nat
  mfmt :: string

definition msg_file :: "log_msg \<Rightarrow> string" where
  "msg_file m = (case mfile m of None \<Rightarrow> [] | Some f \<Rightarrow> the (agc_cut_path (Some f)))"

text \<open>The text a message is formatted to, and the node it is queued in.\<close>

definition msg_data :: "log_env \<Rightarrow> log_msg \<Rightarrow> string option" where
  "msg_data env m = eformat env (full_fmt (edate env) (mlevel m) (msg_file m) (mline m) (mfmt m))"

definition msg_node :: "log_env \<Rightarrow> log_msg \<Rightarrow> log_node" where
  "msg_node env m = new_node env (the (msg_data env m)) (msg_file m) (case mfunc m of None \<Rightarrow> [] | Some f \<Rightarrow> f) (mline m) (mlevel m)"

definition log_msg :: "log_env \<Rightarrow> log_msg \<Rightarrow> logsys \<Rightarrow> logsys option" where
  "log_msg env m s = agc_log_vprintf env (mfile m) (mfunc m) (mline m) (mlevel m) (mfmt m) s"

text \<open>A message some logger wants, and a system that takes messages.\<close>

definition wanted :: "logsys \<Rightarrow> log_env \<Rightarrow> log_msg \<Rightarrow> bool" where
  "wanted s env m \<longleftrightarrow> mlevel m < length COLORS \<and> (\<exists>b \<in> set (bindings s). llevel b < 256 \<and> mlevel m \<le> llevel b) \<and>
     msg_data env m \<noteq> None \<and> enode env \<noteq> NULL"

definition log_ready :: "logsys \<Rightarrow> apr_queue \<Rightarrow> bool" where
  "log_ready s q \<longleftrightarrow> log_inv s \<and> log_queue s = Some q \<and> running s = 1 \<and> qwf q \<and> \<not> terminated q"

lemma trypush_room:
  assumes "qwf q" "\<not> terminated q" "length (contents q) < unat (qbounds q)"
  shows "\<exists>q'. apr_queue_trypush q a = Some (APR_SUCCESS, q') \<and> qwf q' \<and> contents q' = contents q @ [a] \<and>
    \<not> terminated q' \<and> qbounds q' = qbounds q"
  using queue_put_ok [OF assms(1), of a] assms(2,3) by (auto simp: apr_queue_trypush_def queue_full_iff)

lemma log_msg_queued:
  assumes "log_ready s q" "wanted s env m" "length (contents q) < unat (qbounds q)"
  shows "\<exists>s' q'. log_msg env m s = Some s' \<and> log_ready s' q' \<and> contents q' = contents q @ [enode env] \<and>
    qbounds q' = qbounds q \<and> nodes s' = (nodes s)(enode env := msg_node env m) \<and> nlive s' = insert (enode env) (nlive s) \<and>
    bindings s' = bindings s \<and> log_calls s' = log_calls s"
proof -
  have r: "log_inv s" "log_queue s = Some q" "running s = 1" "qwf q" "\<not> terminated q" using assms(1) by (auto simp: log_ready_def)
  obtain b where b: "b \<in> set (bindings s)" "llevel b < 256" "mlevel m \<le> llevel b" using assms(2) by (auto simp: wanted_def)
  then have lv: "mlevel m \<le> max_log_level s" "mlevel m \<le> hard_log_level s" using r(1) by (fastforce simp: log_inv_def)+
  have l8: "mlevel m < length COLORS" "mlevel m < AGC_LOG_INVALID"
    using assms(2) by (auto simp: wanted_def COLORS_def AGC_LOG_INVALID_def)
  obtain data where d: "msg_data env m = Some data" using assms(2) by (auto simp: wanted_def)
  obtain s1 where c: "log_console env (mlevel m) data s = Some s1" using l8(1)
    by (cases "log_console env (mlevel m) data s") (auto simp: log_console_def split: if_splits)
  from console_keeps [OF this] obtain o' where s1: "s1 = s\<lparr>console_out := o'\<rparr>" by blast
  from trypush_room [OF r(4,5) assms(3)] obtain q' where q': "apr_queue_trypush q (enode env) = Some (APR_SUCCESS, q')" "qwf q'"
    "contents q' = contents q @ [enode env]" "\<not> terminated q'" "qbounds q' = qbounds q" by blast
  let ?s = "s1\<lparr>nodes := (nodes s)(enode env := msg_node env m), nlive := insert (enode env) (nlive s), log_queue := Some q'\<rparr>"
  have "log_enqueue env (msg_node env m) s1 = Some ?s"
    using q'(1) lv(1) r(2,3) by (simp add: log_enqueue_def queue_ready_def s1 msg_node_def new_node_def Let_def)
  then have "log_msg env m s = Some ?s"
    using lv(2) l8(2) c d unfolding log_msg_def agc_log_vprintf_def
    by (simp add: msg_data_def msg_node_def msg_file_def Let_def not_less not_le)
  moreover have "log_ready ?s q'" using r q' by (simp add: log_ready_def log_inv_def s1)
  ultimately show ?thesis using q' s1 by (intro exI [of _ ?s] exI [of _ q']) simp
qed

section \<open>Runs\<close>

fun log_all :: "(log_env \<times> log_msg) list \<Rightarrow> logsys \<Rightarrow> logsys option" where
  "log_all [] s = Some s"
| "log_all ((env, m) # ms) s = do { s \<leftarrow> log_msg env m s; log_all ms s }"

text \<open>The thread on a queue that is not empty: it pops and runs a round.\<close>

fun log_drain :: "nat \<Rightarrow> logsys \<Rightarrow> logsys option" where
  "log_drain 0 s = Some s"
| "log_drain (Suc n) s = do {
     q \<leftarrow> log_queue s;
     (c, q) \<leftarrow> apr_queue_pop_enter q;
     (case c of
        Blocked \<Rightarrow> None
      | Ret r \<Rightarrow> do {
          (_, s) \<leftarrow> log_thread_round r (s\<lparr>log_queue := Some q\<rparr>);
          log_drain n s
        })
   }"

definition calls_for :: "log_binding list \<Rightarrow> log_node \<Rightarrow> (nat \<times> log_node) list" where
  "calls_for bs nd = map (\<lambda>b. (lfunction b, nd)) (filter (\<lambda>b. nlevel nd \<le> llevel b) bs)"

lemma log_all_queued:
  assumes "log_ready s q" "\<forall>(env, m) \<in> set ms. wanted s env m" "length (contents q) + length ms \<le> unat (qbounds q)"
    "distinct (map (\<lambda>(env, m). enode env) ms)"
  shows "\<exists>s' q'. log_all ms s = Some s' \<and> log_ready s' q' \<and> contents q' = contents q @ map (\<lambda>(env, m). enode env) ms \<and>
    (\<forall>(env, m) \<in> set ms. nodes s' (enode env) = msg_node env m) \<and>
    nlive s' = nlive s \<union> set (map (\<lambda>(env, m). enode env) ms) \<and> bindings s' = bindings s \<and> log_calls s' = log_calls s \<and>
    (\<forall>a. a \<notin> set (map (\<lambda>(env, m). enode env) ms) \<longrightarrow> nodes s' a = nodes s a)"
  using assms
proof (induction ms arbitrary: s q)
  case (Cons em ms)
  obtain env m where em: "em = (env, m)" by (cases em)
  from log_msg_queued [of s q env m] Cons.prems em obtain s1 q1 where
    s1: "log_msg env m s = Some s1" "log_ready s1 q1" "contents q1 = contents q @ [enode env]" "qbounds q1 = qbounds q"
    "nodes s1 = (nodes s)(enode env := msg_node env m)" "nlive s1 = insert (enode env) (nlive s)" "bindings s1 = bindings s"
    "log_calls s1 = log_calls s" by auto
  have "\<forall>(env, m) \<in> set ms. wanted s1 env m" using Cons.prems(2) s1(7) by (auto simp: wanted_def)
  from Cons.IH [OF s1(2) this] Cons.prems(3,4) s1(3,4) obtain s2 q2 where
    "log_all ms s1 = Some s2" "log_ready s2 q2" "contents q2 = contents q1 @ map (\<lambda>(env, m). enode env) ms"
    "\<forall>(env, m) \<in> set ms. nodes s2 (enode env) = msg_node env m"
    "nlive s2 = nlive s1 \<union> set (map (\<lambda>(env, m). enode env) ms)" "bindings s2 = bindings s1" "log_calls s2 = log_calls s1"
    "\<forall>a. a \<notin> set (map (\<lambda>(env, m). enode env) ms) \<longrightarrow> nodes s2 a = nodes s1 a"
    by auto
  with s1 em Cons.prems(4) show ?case by (intro exI [of _ s2] exI [of _ q2]) auto
qed auto

lemma pop_enter_ready:
  assumes "qwf q" "contents q = a # as"
  shows "\<exists>q'. apr_queue_pop_enter q = Some (Ret (APR_SUCCESS, Some a), q') \<and> qwf q' \<and> contents q' = as \<and> terminated q' = terminated q"
  using queue_take_ok [OF assms(1)] assms(2) by (auto simp: apr_queue_pop_enter_def queue_empty_iff)

lemma log_drain_calls:
  assumes "log_ready s q" "contents q = as" "set as \<subseteq> nlive s" "NULL \<notin> set as" "distinct as"
  shows "\<exists>s' q'. log_drain (length as) s = Some s' \<and> log_ready s' q' \<and> contents q' = [] \<and> nlive s' = nlive s - set as \<and>
    log_calls s' = log_calls s @ concat (map (\<lambda>a. calls_for (bindings s) (nodes s a)) as)"
  using assms
proof (induction as arbitrary: s q)
  case (Cons a as)
  from pop_enter_ready [of q a as] Cons.prems(1,2) obtain q1 where
    q1: "apr_queue_pop_enter q = Some (Ret (APR_SUCCESS, Some a), q1)" "qwf q1" "contents q1 = as" "\<not> terminated q1"
    by (auto simp: log_ready_def)
  let ?s = "s\<lparr>log_queue := Some q1, log_calls := log_calls s @ calls_for (bindings s) (nodes s a), nlive := nlive s - {a}\<rparr>"
  have a: "a \<noteq> NULL" "a \<in> nlive s" using Cons.prems(3,4) by auto
  then have r: "log_thread_round (APR_SUCCESS, Some a) (s\<lparr>log_queue := Some q1\<rparr>) = Some (running s = 1, ?s)"
    by (simp add: log_thread_round_def agc_log_node_free_def calls_for_def Let_def)
  have "log_ready ?s q1" using Cons.prems(1) q1 by (simp add: log_ready_def log_inv_def)
  from Cons.IH [OF this q1(3)] Cons.prems(3-5) obtain s2 q2 where
    "log_drain (length as) ?s = Some s2" "log_ready s2 q2" "contents q2 = []" "nlive s2 = nlive ?s - set as"
    "log_calls s2 = log_calls ?s @ concat (map (\<lambda>a. calls_for (bindings ?s) (nodes ?s a)) as)" by auto
  moreover have "log_drain (length (a # as)) s = log_drain (length as) ?s"
    using Cons.prems(1) q1(1) r by (simp add: log_ready_def)
  ultimately show ?case by auto
qed auto

section \<open>The format buffer\<close>

lemma level2str_length: "length (agc_log_level2str l) \<le> 7"
proof -
  have "\<forall>k < 8. length (LEVELS ! k) \<le> 7" by code_simp
  then show ?thesis by (simp add: agc_log_level2str_def AGC_LOG_DEBUG_def)
qed

section \<open>Properties\<close>

text \<open>
  C9: messages that some bound logger asks for, as many as the queue has room for, pass the
  level filters and are queued; the thread then calls for each message, in the order they
  were written, exactly the loggers whose level admits it, in the order they were bound, and
  frees every node.
\<close>

theorem agc_log_delivers:
  assumes "log_ready s q" "contents q = []" "\<forall>(env, m) \<in> set ms. wanted s env m" "length ms \<le> unat (qbounds q)"
    "distinct (map (\<lambda>(env, m). enode env) ms)" "\<forall>(env, m) \<in> set ms. enode env \<notin> nlive s"
  shows "\<exists>s1 s2 q2. log_all ms s = Some s1 \<and> log_drain (length ms) s1 = Some s2 \<and> log_ready s2 q2 \<and> contents q2 = [] \<and>
    nlive s2 = nlive s \<and> log_calls s2 = log_calls s @ concat (map (\<lambda>(env, m). calls_for (bindings s) (msg_node env m)) ms)"
proof -
  let ?as = "map (\<lambda>(env, m). enode env) ms"
  from log_all_queued [OF assms(1,3)] assms(2,4,5) obtain s1 q1 where s1: "log_all ms s = Some s1" "log_ready s1 q1"
    "contents q1 = ?as" "\<forall>(env, m) \<in> set ms. nodes s1 (enode env) = msg_node env m" "nlive s1 = nlive s \<union> set ?as"
    "bindings s1 = bindings s" "log_calls s1 = log_calls s" by auto
  have "NULL \<notin> set ?as" using assms(3) by (auto simp: wanted_def)
  from log_drain_calls [OF s1(2,3) _ this assms(5)] s1(5) obtain s2 q2 where s2: "log_drain (length ms) s1 = Some s2"
    "log_ready s2 q2" "contents q2 = []" "nlive s2 = nlive s1 - set ?as"
    "log_calls s2 = log_calls s1 @ concat (map (\<lambda>a. calls_for (bindings s1) (nodes s1 a)) ?as)" by auto
  have m: "map (\<lambda>a. calls_for (bindings s1) (nodes s1 a)) ?as = map (\<lambda>(env, m). calls_for (bindings s) (msg_node env m)) ms"
    using s1(4,6) by auto
  have "nlive s2 = nlive s" using s2(4) s1(5) assms(6) by auto
  with s1(1) s2(1-3) s2(5) [unfolded m s1(7)] show ?thesis by blast
qed

definition demo_log :: logsys where
  "demo_log = \<lparr>log_queue = Some (apr_queue_create 2), nodes = \<lambda>_. \<lparr>ndata = None, nfile = [], nline = 0, nfunc = [], nlevel = 0,
     ntimestamp = 0, nuserdata = None\<rparr>, nlive = {}, bindings = [\<lparr>lfunction = 1, llevel = 7, is_console = True\<rparr>],
     running = 1, max_log_level = 7, hard_log_level = 7, mods_loaded = 1, console_mods_loaded = 1, colorize = False,
     console_out = [], log_calls = []\<rparr>"

definition demo_env :: log_env where
  "demo_env = \<lparr>edate = ''now'', eformat = Some, econsole = True, ewritable = True, enow = 5, enode = 9\<rparr>"

definition demo_msg :: log_msg where
  "demo_msg = \<lparr>mfile = Some ''a/b.c'', mfunc = None, mline = 3, mlevel = 6, mfmt = ''up''\<rparr>"

theorem agc_log_delivers_witness:
  "\<exists>s1 s2 q2. log_all [(demo_env, demo_msg)] demo_log = Some s1 \<and> log_drain 1 s1 = Some s2 \<and> log_ready s2 q2 \<and> contents q2 = [] \<and>
    nlive s2 = {} \<and> log_calls s2 = [(1, msg_node demo_env demo_msg)]"
proof -
  have r: "log_ready demo_log (apr_queue_create 2)"
    using queue_create_wf [of 2] by (simp add: log_ready_def log_inv_def demo_log_def)
  have w: "\<forall>(env, m) \<in> set [(demo_env, demo_msg)]. wanted demo_log env m"
    by (simp add: wanted_def demo_log_def demo_env_def demo_msg_def COLORS_def msg_data_def)
  have b: "length [(demo_env, demo_msg)] \<le> unat (qbounds (apr_queue_create 2))" by (simp add: queue_create_wf)
  have c: "calls_for (bindings demo_log) (msg_node demo_env demo_msg) = [(1, msg_node demo_env demo_msg)]"
    by (simp add: calls_for_def demo_log_def demo_msg_def msg_node_def new_node_def)
  from agc_log_delivers [OF r queue_create_wf(2) w b] c show ?thesis by (simp add: demo_log_def)
qed

text \<open>
  Binding and unbinding loggers, writing messages and the rounds of the thread keep the
  bookkeeping of the loggers: the two level limits are never below the level of a bound
  logger, so neither filter holds back what it asks for, and the counters of loggers and
  of console loggers are exact.
\<close>

theorem agc_log_bindings_invariant:
  assumes "log_inv s"
  shows "log_inv (snd (agc_log_bind_logger f level con s)) \<and> log_inv (agc_log_unbind_logger f s) \<and>
    (\<forall>s'. agc_log_vprintf env file func line lv fmt s = Some s' \<longrightarrow> log_inv s') \<and>
    (\<forall>b s'. log_thread_round r s = Some (b, s') \<longrightarrow> log_inv s') \<and>
    (\<forall>b \<in> set (bindings s). \<forall>l. llevel b < 256 \<and> l \<le> llevel b \<longrightarrow> l \<le> max_log_level s \<and> l \<le> hard_log_level s)"
proof (intro conjI allI impI)
  show "log_inv (snd (agc_log_bind_logger f level con s))" "log_inv (agc_log_unbind_logger f s)"
    using assms by (simp_all add: bind_inv unbind_inv)
  show "log_inv s'" if "agc_log_vprintf env file func line lv fmt s = Some s'" for s'
    using vprintf_keeps [OF that] assms by (simp add: log_inv_def)
  show "log_inv s'" if "log_thread_round r s = Some (b, s')" for b s'
    by (rule round_inv [OF assms that])
qed (use assms in \<open>auto simp: log_inv_def intro: order_trans\<close>)

theorem agc_log_bindings_invariant_witness:
  "log_inv demo_log \<and> log_inv (snd (agc_log_bind_logger 4 5 False demo_log)) \<and> log_inv (agc_log_unbind_logger 1 demo_log)"
proof -
  have "log_inv demo_log" by (simp add: log_inv_def demo_log_def)
  from agc_log_bindings_invariant [OF this, of 4 5 False] agc_log_bindings_invariant [OF this, of 1 5 False] this
  show ?thesis by blast
qed

text \<open>
  The buffer that \<^verbatim>\<open>agc_log_vprintf\<close> allocates holds the whole prefix and format for every line
  number of an \<^verbatim>\<open>int\<close>: nothing is cut off.
\<close>

theorem agc_log_format_fits:
  assumes "- (2 ^ 31) \<le> line" "line < 2 ^ 31"
  shows "full_fmt date level filep line fmt = full_fmt_text date level filep line fmt"
  using int_str_length [OF assms] level2str_length [of level]
  by (simp add: full_fmt_def full_fmt_text_def full_fmt_len_def extra_fmt_def)

theorem agc_log_format_fits_witness:
  "full_fmt ''d'' 3 ''f.c'' (- 2147483648) ''x'' = ''d [ERR] f.c:'' @ int_str (- 2147483648) @ '' x''"
  using agc_log_format_fits [of "- 2147483648" "''d''" 3 "''f.c''" "''x''"]
  by (simp add: full_fmt_text_def agc_log_level2str_def LEVELS_def AGC_LOG_DEBUG_def numeral_3_eq_3)

end
