(* ===== verification/Agc_Module.thy ===== *)
theory Agc_Module
  imports Agc_Utils
begin

text \<open>
  Loadable modules (\<^verbatim>\<open>src/src/agc_module.c\<close> and \<^verbatim>\<open>src/src/agc_dso.c\<close>): the interpreter of the
  tokens of \<^verbatim>\<open>modules.yml\<close>, the loading of a library with its function table, the table of
  modules and the threads that run them. The YAML scanner is represented by the tokens it
  returns, the dynamic linker and the functions of the modules by the parameter \<open>dl_env\<close>;
  the \<open>k\<close>-th attempt to open a library may answer differently from the others.
  \<^const>\<open>None\<close> is a run that never returns, that writes outside a buffer, or that aborts.
\<close>

section \<open>Libraries\<close>

record mod_table =
  api_version :: int
  tload :: nat
  truntime :: "nat option"
  tshutdown :: "nat option"

record dl_env =
  dl_open :: "string \<Rightarrow> bool \<Rightarrow> nat \<Rightarrow> nat option"
  dl_sym :: "nat \<Rightarrow> string \<Rightarrow> mod_table option"
  dl_error :: "string option"
  dl_load :: "nat \<Rightarrow> agc_status \<times> string option"
  mod_dir :: string

definition agc_dso_open :: "dl_env \<Rightarrow> string \<Rightarrow> bool \<Rightarrow> nat \<Rightarrow> nat option \<times> string option" where
  "agc_dso_open env path global k =
     (case dl_open env path global k of
        None \<Rightarrow> (None, Some (case dl_error env of None \<Rightarrow> ''Unknown error'' | Some e \<Rightarrow> e))
      | Some lib \<Rightarrow> (Some lib, None))"

definition agc_dso_data_sym :: "dl_env \<Rightarrow> nat \<Rightarrow> string \<Rightarrow> mod_table option" where
  "agc_dso_data_sym env lib symbol = (case dl_sym env lib symbol of None \<Rightarrow> dl_sym env lib symbol | Some a \<Rightarrow> Some a)"

section \<open>Loading one module\<close>

record agc_module =
  mod_key :: "string option"
  mod_filename :: string
  mod_perm :: int
  mod_interface :: string
  mod_lib :: nat
  load_func :: nat
  runtime_func :: "nat option"
  shutdown_func :: "nat option"

type_synonym modules = "string \<rightharpoonup> agc_module"

definition AGC_API_VERSION :: int where "AGC_API_VERSION = 1"

text \<open>
  The loop around the opening of a library; its counter \<^verbatim>\<open>loading_times\<close> is never changed, so it
  goes on until an attempt succeeds.
\<close>

partial_function (option) dso_loop :: "dl_env \<Rightarrow> string \<Rightarrow> string \<Rightarrow> bool \<Rightarrow> nat \<Rightarrow> (nat \<times> mod_table) option" where
  "dso_loop env path name global k =
     (case agc_dso_open env path global k of
        (Some dso, None) \<Rightarrow>
          (case agc_dso_data_sym env dso name of
             Some table \<Rightarrow> Some (dso, table)
           | None \<Rightarrow> dso_loop env path name global (Suc k))
      | _ \<Rightarrow> dso_loop env path name global (Suc k))"

text \<open>The checks of the second loop: the module, or the reason why it is not loaded.\<close>

definition check_module :: "dl_env \<Rightarrow> string \<Rightarrow> nat \<Rightarrow> mod_table \<Rightarrow> string + agc_module" where
  "check_module env path dso table =
     (if api_version table \<noteq> AGC_API_VERSION then Inl ''load an old module''
      else (case dl_load env (tload table) of
              (status, iface) \<Rightarrow>
                if status \<noteq> AGC_STATUS_SUCCESS \<and> status \<noteq> AGC_STATUS_NOUNLOAD then Inl ''load function returned an error''
                else (case iface of
                        None \<Rightarrow> Inl ''failed to initialize''
                      | Some name \<Rightarrow>
                          Inr \<lparr>mod_key = None, mod_filename = path, mod_perm = (if status = AGC_STATUS_NOUNLOAD then 1 else 0),
                               mod_interface = name, mod_lib = dso, load_func = tload table,
                               runtime_func = truntime table, shutdown_func = tshutdown table\<rparr>)))"

definition agc_loadable_module_loadmodule :: "dl_env \<Rightarrow> string \<Rightarrow> string \<Rightarrow> bool \<Rightarrow> (agc_status \<times> agc_module option) option" where
  "agc_loadable_module_loadmodule env path filename global = do {
     (dso, table) \<leftarrow> dso_loop env path (filename @ ''_module_interface'') global 0;
     Some (case check_module env path dso table of
        Inl err \<Rightarrow> (AGC_STATUS_GENERR, None)
      | Inr m \<Rightarrow> (AGC_STATUS_SUCCESS, Some m))
   }"

definition agc_loadable_module_processmodule :: "string \<Rightarrow> agc_module \<Rightarrow> modules \<Rightarrow> agc_status \<times> modules" where
  "agc_loadable_module_processmodule key m mods = (AGC_STATUS_SUCCESS, mods(key \<mapsto> m\<lparr>mod_key := Some key\<rparr>))"

definition module_path :: "dl_env \<Rightarrow> string \<Rightarrow> string \<Rightarrow> string" where
  "module_path env dir fname =
     (let locate = (if zstr (Some dir) then mod_dir env else dir);
          len = length locate + length fname + 8
      in take (len - 1) (locate @ ''/'' @ fname @ ''.so''))"

definition agc_loadable_module_loadfile :: "dl_env \<Rightarrow> string \<Rightarrow> string \<Rightarrow> bool \<Rightarrow> modules \<Rightarrow> (agc_status \<times> modules) option" where
  "agc_loadable_module_loadfile env dir fname global mods =
     (if mods fname \<noteq> None then Some (AGC_STATUS_SUCCESS, mods)
      else do {
        (status, new_module) \<leftarrow> agc_loadable_module_loadmodule env (module_path env dir fname) fname global;
        Some (case new_module of
           None \<Rightarrow> (status, mods)
         | Some m \<Rightarrow> agc_loadable_module_processmodule fname m mods)
      })"

section \<open>The file of modules\<close>

datatype yaml_token = Key | Value | Scalar string | Block_entry | Block_end | Stream_end | Other_token

text \<open>
  Where \<^verbatim>\<open>datap\<close> points to; the buffers are 64, 256 and 16 bytes long, and \<^verbatim>\<open>strcpy\<close> does not
  look at that.
\<close>

datatype field = Name | Path | Global

record mod_config =
  iskey :: bool
  in_modules :: bool
  new_module :: bool
  cfg_name :: string
  cfg_path :: string
  cfg_global :: string
  datap :: "field option"
  module_count :: int

definition config_start :: mod_config where
  "config_start = \<lparr>iskey = False, in_modules = False, new_module = False, cfg_name = [], cfg_path = [], cfg_global = [],
     datap = None, module_count = 0\<rparr>"

definition config_key :: "string \<Rightarrow> mod_config \<Rightarrow> mod_config" where
  "config_key v c =
     (if v = ''modules'' then c\<lparr>in_modules := True, datap := None\<rparr>
      else if v = ''name'' then c\<lparr>datap := Some Name\<rparr>
      else if v = ''path'' then c\<lparr>datap := Some Path\<rparr>
      else if v = ''global'' then c\<lparr>datap := Some Global\<rparr>
      else c\<lparr>in_modules := False, datap := None\<rparr>)"

definition config_value :: "string \<Rightarrow> mod_config \<Rightarrow> mod_config option" where
  "config_value v c = (case datap c of
     None \<Rightarrow> Some c
   | Some Name \<Rightarrow> if 64 < Suc (length v) then None else Some (c\<lparr>cfg_name := v\<rparr>)
   | Some Path \<Rightarrow> if 256 < Suc (length v) then None else Some (c\<lparr>cfg_path := v\<rparr>)
   | Some Global \<Rightarrow> if 16 < Suc (length v) then None else Some (c\<lparr>cfg_global := v\<rparr>))"

definition module_token :: "dl_env \<Rightarrow> yaml_token \<Rightarrow> mod_config \<times> modules \<Rightarrow> (mod_config \<times> modules) option" where
  "module_token env t st = (case st of (c, mods) \<Rightarrow>
     (case t of
        Key \<Rightarrow> Some (c\<lparr>iskey := True\<rparr>, mods)
      | Value \<Rightarrow> Some (c\<lparr>iskey := False\<rparr>, mods)
      | Scalar v \<Rightarrow>
          if iskey c then Some (config_key v c, mods) else do { c \<leftarrow> config_value v c; Some (c, mods) }
      | Block_entry \<Rightarrow>
          Some (if in_modules c then c\<lparr>new_module := True, cfg_path := [], cfg_name := [], cfg_global := []\<rparr> else c, mods)
      | Block_end \<Rightarrow>
          if in_modules c \<and> new_module c
          then do {
            (status, mods) \<leftarrow> agc_loadable_module_loadfile env (cfg_path c) (cfg_name c) (agc_true (Some (cfg_global c))) mods;
            if status \<noteq> AGC_STATUS_SUCCESS then None
            else Some (c\<lparr>module_count := module_count c + 1, new_module := False\<rparr>, mods)
          }
          else Some (c, mods)
      | _ \<Rightarrow> Some (c, mods)))"

text \<open>The tokens up to the end of the stream, or up to the error that ends the scanner.\<close>

fun module_tokens :: "dl_env \<Rightarrow> yaml_token list \<Rightarrow> mod_config \<times> modules \<Rightarrow> (mod_config \<times> modules) option" where
  "module_tokens env [] st = Some st"
| "module_tokens env (t # ts) st = do {
     st \<leftarrow> module_token env t st;
     if t = Stream_end then Some st else module_tokens env ts st
   }"

text \<open>The modules that get a thread; the order of the hash table is not modelled.\<close>

definition agc_loadable_module_runtime :: "modules \<Rightarrow> string set" where
  "agc_loadable_module_runtime mods = {k. \<exists>m. mods k = Some m \<and> runtime_func m \<noteq> None}"

definition agc_loadable_module_init :: "dl_env \<Rightarrow> yaml_token list \<Rightarrow> (agc_status \<times> modules \<times> string set) option" where
  "agc_loadable_module_init env tokens = do {
     (c, mods) \<leftarrow> module_tokens env tokens (config_start, Map.empty);
     Some (if module_count c = 0 then (AGC_STATUS_GENERR, mods, {})
           else (AGC_STATUS_SUCCESS, mods, agc_loadable_module_runtime mods))
   }"

section \<open>Running a module\<close>

text \<open>
  The thread of a module: \<open>run k\<close> is what the \<open>k\<close>-th call of its runtime function returns,
  \<open>shut k\<close> the flag \<^verbatim>\<open>shutting_down\<close> before it. The result is the number of calls.
\<close>

partial_function (option) module_exec :: "(nat \<Rightarrow> agc_status) \<Rightarrow> (nat \<Rightarrow> bool) \<Rightarrow> agc_status \<Rightarrow> nat \<Rightarrow> nat option" where
  "module_exec run shut status k =
     (if status \<noteq> AGC_STATUS_TERM \<and> \<not> shut k then module_exec run shut (run k) (Suc k) else Some k)"

definition agc_loadable_module_exec :: "(nat \<Rightarrow> agc_status) \<Rightarrow> (nat \<Rightarrow> bool) \<Rightarrow> nat option" where
  "agc_loadable_module_exec run shut = module_exec run shut AGC_STATUS_SUCCESS 0"

end
