(* ===== verification/Agc_Module_Laws.thy ===== *)
theory Agc_Module_Laws
  imports Agc_Module
begin

text \<open>
  A file of modules loads exactly the modules it lists; loading one module returns exactly when
  some attempt to open its library succeeds; a module's thread restarts its runtime function
  until that reports the end.
\<close>

section \<open>Opening a library\<close>

definition opens :: "dl_env \<Rightarrow> string \<Rightarrow> string \<Rightarrow> bool \<Rightarrow> nat \<Rightarrow> (nat \<times> mod_table) option" where
  "opens env path name global k = do {
     dso \<leftarrow> dl_open env path global k;
     table \<leftarrow> dl_sym env dso name;
     Some (dso, table)
   }"

lemma dso_body:
  "(case agc_dso_open env path global k of
      (Some dso, None) \<Rightarrow> (case agc_dso_data_sym env dso name of Some table \<Rightarrow> Some (dso, table) | None \<Rightarrow> x)
    | _ \<Rightarrow> x) = (case opens env path name global k of Some r \<Rightarrow> Some r | None \<Rightarrow> x)"
  by (cases "dl_open env path global k")
    (auto simp: opens_def agc_dso_open_def agc_dso_data_sym_def split: option.splits bind_splits)

lemma dso_loop_step:
  "dso_loop env path name global k =
     (case opens env path name global k of Some r \<Rightarrow> Some r | None \<Rightarrow> dso_loop env path name global (Suc k))"
  by (subst dso_loop.simps) (rule dso_body)

lemma dso_loop_returns:
  "\<forall>j < n. opens env path name global (k + j) = None \<Longrightarrow> opens env path name global (k + n) = Some r \<Longrightarrow>
     dso_loop env path name global k = Some r"
proof (induction n arbitrary: k)
  case (Suc n)
  have "opens env path name global k = None" using Suc.prems(1) [rule_format, of 0] by simp
  moreover have "\<forall>j < n. opens env path name global (Suc k + j) = None"
    using Suc.prems(1) by (metis Suc_less_eq add_Suc_right add_Suc)
  ultimately show ?case using Suc.IH [of "Suc k"] Suc.prems(2) by (subst dso_loop_step) simp
qed (simp add: dso_loop_step)

lemma dso_loop_found:
  assumes "dso_loop env path name global k = Some r"
  shows "\<exists>j. opens env path name global j = Some r"
  by (rule dso_loop.raw_induct [OF _ assms, where P = "\<lambda>env path name global k r. \<exists>j. opens env path name global j = Some r"])
    (unfold dso_body, auto split: option.splits)

lemma dso_loop_iff: "(\<exists>r. dso_loop env path name global 0 = Some r) \<longleftrightarrow> (\<exists>k. opens env path name global k \<noteq> None)"
proof
  assume "\<exists>k. opens env path name global k \<noteq> None"
  then obtain k where k: "opens env path name global k \<noteq> None" "\<forall>j < k. opens env path name global j = None"
    using exists_least_iff [of "\<lambda>k. opens env path name global k \<noteq> None"] by blast
  then obtain r where "opens env path name global k = Some r" by blast
  then have "dso_loop env path name global 0 = Some r" using dso_loop_returns [where k = 0 and n = k and r = r] k(2) by simp
  then show "\<exists>r. dso_loop env path name global 0 = Some r" ..
qed (use dso_loop_found in blast)

section \<open>The tokens of a file\<close>

fun field_key :: "field \<Rightarrow> string" where
  "field_key Name = ''name''"
| "field_key Path = ''path''"
| "field_key Global = ''global''"

fun field_size :: "field \<Rightarrow> nat" where
  "field_size Name = 64"
| "field_size Path = 256"
| "field_size Global = 16"

type_synonym entry = "(field \<times> string) list"

definition field_tokens :: "field \<times> string \<Rightarrow> yaml_token list" where
  "field_tokens fv = [Key, Scalar (field_key (fst fv)), Value, Scalar (snd fv)]"

definition entry_tokens :: "entry \<Rightarrow> yaml_token list" where
  "entry_tokens fs = Block_entry # Other_token # concat (map field_tokens fs) @ [Block_end]"

definition file_tokens :: "entry list \<Rightarrow> yaml_token list" where
  "file_tokens es = [Other_token, Other_token, Key, Scalar ''modules'', Value, Other_token] @
     concat (map entry_tokens es) @ [Block_end, Block_end, Stream_end]"

definition entry_fits :: "entry \<Rightarrow> bool" where
  "entry_fits fs \<longleftrightarrow> (\<forall>(f, v) \<in> set fs. length v < field_size f)"

text \<open>The value a field of an entry ends up with.\<close>

definition field_value :: "entry \<Rightarrow> field \<Rightarrow> string" where
  "field_value fs f = foldl (\<lambda>acc (g, v). if g = f then v else acc) [] fs"

fun cfg_field :: "mod_config \<Rightarrow> field \<Rightarrow> string" where
  "cfg_field c Name = cfg_name c"
| "cfg_field c Path = cfg_path c"
| "cfg_field c Global = cfg_global c"

lemma module_tokens_append:
  "Stream_end \<notin> set ts \<Longrightarrow> module_tokens env (ts @ us) st = Option.bind (module_tokens env ts st) (module_tokens env us)"
  by (induction ts arbitrary: st) (auto split: bind_splits)

lemma all_field: "(\<forall>g. P g) \<longleftrightarrow> P Name \<and> P Path \<and> P Global"
  by (metis field.exhaust)

lemma field_tokens_set:
  assumes "length v < field_size f"
  shows "\<exists>c'. module_tokens env (field_tokens (f, v)) (c, mods) = Some (c', mods) \<and>
    (\<forall>g. cfg_field c' g = (if g = f then v else cfg_field c g)) \<and>
    in_modules c' = in_modules c \<and> new_module c' = new_module c \<and> module_count c' = module_count c"
proof (cases f)
  case Name
  then show ?thesis using assms by (auto simp: field_tokens_def module_token_def config_key_def config_value_def all_field)
next
  case Path
  then show ?thesis using assms by (auto simp: field_tokens_def module_token_def config_key_def config_value_def all_field)
next
  case Global
  then show ?thesis using assms by (auto simp: field_tokens_def module_token_def config_key_def config_value_def all_field)
qed

lemma field_value_snoc: "field_value (fs @ [(f, v)]) g = (if f = g then v else field_value fs g)"
  by (simp add: field_value_def)

lemma tokens_plain: "Stream_end \<notin> set (concat (map field_tokens fs))" "Stream_end \<notin> set (entry_tokens fs)"
  by (auto simp: field_tokens_def entry_tokens_def)

lemma fields_set:
  assumes "entry_fits fs" "\<forall>g. cfg_field c g = []"
  shows "\<exists>c'. module_tokens env (concat (map field_tokens fs)) (c, mods) = Some (c', mods) \<and>
    (\<forall>g. cfg_field c' g = field_value fs g) \<and>
    in_modules c' = in_modules c \<and> new_module c' = new_module c \<and> module_count c' = module_count c"
  using assms(1)
proof (induction fs rule: rev_induct)
  case Nil
  then show ?case using assms(2) by (simp add: field_value_def)
next
  case (snoc fv fs)
  obtain f v where fv: "fv = (f, v)" by (cases fv)
  have fits: "entry_fits fs" "length v < field_size f" using snoc.prems by (auto simp: entry_fits_def fv)
  from snoc.IH [OF fits(1)] obtain c1 where c1: "module_tokens env (concat (map field_tokens fs)) (c, mods) = Some (c1, mods)"
    "\<forall>g. cfg_field c1 g = field_value fs g" "in_modules c1 = in_modules c" "new_module c1 = new_module c" "module_count c1 = module_count c"
    by blast
  from field_tokens_set [OF fits(2), of env c1 mods] obtain c2 where
    c2: "module_tokens env (field_tokens (f, v)) (c1, mods) = Some (c2, mods)" "\<forall>g. cfg_field c2 g = (if g = f then v else cfg_field c1 g)"
    "in_modules c2 = in_modules c1" "new_module c2 = new_module c1" "module_count c2 = module_count c1" by blast
  have "module_tokens env (concat (map field_tokens (fs @ [fv]))) (c, mods) = Some (c2, mods)"
    using module_tokens_append [OF tokens_plain(1), of env fs "field_tokens fv"] c1(1) c2(1) fv by simp
  then show ?case using c1 c2 by (intro exI [of _ c2]) (auto simp: fv field_value_snoc)
qed

text \<open>What loading an entry of the file gives.\<close>

definition entry_loads :: "dl_env \<Rightarrow> entry \<Rightarrow> agc_module \<Rightarrow> bool" where
  "entry_loads env fs m \<longleftrightarrow>
     agc_loadable_module_loadmodule env (module_path env (field_value fs Path) (field_value fs Name)) (field_value fs Name)
       (agc_true (Some (field_value fs Global))) = Some (AGC_STATUS_SUCCESS, Some m)"

lemma entry_set:
  assumes "entry_fits fs" "entry_loads env fs m" "in_modules c" "mods (field_value fs Name) = None"
  shows "\<exists>c'. module_tokens env (entry_tokens fs) (c, mods) =
      Some (c', mods(field_value fs Name \<mapsto> m\<lparr>mod_key := Some (field_value fs Name)\<rparr>)) \<and>
    in_modules c' \<and> \<not> new_module c' \<and> module_count c' = module_count c + 1"
proof -
  let ?c = "c\<lparr>new_module := True, cfg_path := [], cfg_name := [], cfg_global := []\<rparr>"
  have "\<forall>g. cfg_field ?c g = []" by (simp add: all_field)
  from fields_set [OF assms(1) this, of env mods] obtain c1 where
    c1: "module_tokens env (concat (map field_tokens fs)) (?c, mods) = Some (c1, mods)" "\<forall>g. cfg_field c1 g = field_value fs g"
    "in_modules c1" "new_module c1" "module_count c1 = module_count c" using assms(3) by auto
  have f: "cfg_name c1 = field_value fs Name" "cfg_path c1 = field_value fs Path" "cfg_global c1 = field_value fs Global"
    using c1(2) by (simp_all add: all_field)
  have "agc_loadable_module_loadfile env (cfg_path c1) (cfg_name c1) (agc_true (Some (cfg_global c1))) mods =
      Some (AGC_STATUS_SUCCESS, mods(field_value fs Name \<mapsto> m\<lparr>mod_key := Some (field_value fs Name)\<rparr>))"
    using assms(2,4) by (simp add: f agc_loadable_module_loadfile_def agc_loadable_module_processmodule_def entry_loads_def)
  then have "module_tokens env [Block_end] (c1, mods) =
      Some (c1\<lparr>module_count := module_count c1 + 1, new_module := False\<rparr>, mods(field_value fs Name \<mapsto> m\<lparr>mod_key := Some (field_value fs Name)\<rparr>))"
    using c1(3,4) by (simp add: module_token_def)
  then show ?thesis using c1 assms(3) module_tokens_append [OF tokens_plain(1), of env fs "[Block_end]"]
    by (simp add: entry_tokens_def module_token_def)
qed

text \<open>The table that a list of entries and the modules they load gives.\<close>

definition module_table :: "(entry \<times> agc_module) list \<Rightarrow> modules" where
  "module_table es = map_of (map (\<lambda>(fs, m). (field_value fs Name, m\<lparr>mod_key := Some (field_value fs Name)\<rparr>)) es)"

lemma module_table_simps:
  "module_table [] = Map.empty"
  "module_table ((fs, m) # es) = (module_table es)(field_value fs Name \<mapsto> m\<lparr>mod_key := Some (field_value fs Name)\<rparr>)"
  by (simp_all add: module_table_def)

lemma dom_module_table: "dom (module_table es) = (\<lambda>(fs, m). field_value fs Name) ` set es"
  by (simp add: module_table_def dom_map_of_conv_image_fst image_image split_def)

lemma entries_set:
  assumes "\<forall>(fs, m) \<in> set es. entry_fits fs \<and> entry_loads env fs m" "distinct (map (\<lambda>(fs, m). field_value fs Name) es)"
    "dom mods \<inter> (\<lambda>(fs, m). field_value fs Name) ` set es = {}" "in_modules c" "\<not> new_module c"
  shows "\<exists>c'. module_tokens env (concat (map (\<lambda>(fs, m). entry_tokens fs) es)) (c, mods) = Some (c', mods ++ module_table es) \<and>
    in_modules c' \<and> \<not> new_module c' \<and> module_count c' = module_count c + int (length es)"
  using assms
proof (induction es arbitrary: c mods)
  case (Cons e es)
  obtain fs m where e: "e = (fs, m)" by (cases e)
  let ?n = "field_value fs Name"
  define mods1 where "mods1 = mods(?n \<mapsto> m\<lparr>mod_key := Some ?n\<rparr>)"
  have p: "\<forall>(fs, m) \<in> set es. entry_fits fs \<and> entry_loads env fs m" "distinct (map (\<lambda>(fs, m). field_value fs Name) es)"
    "?n \<notin> (\<lambda>(fs, m). field_value fs Name) ` set es" "mods ?n = None"
    using Cons.prems(1-3) e by auto
  from entry_set [of fs env m c mods] Cons.prems(1,4) p(4) e obtain c1 where
    c1: "module_tokens env (entry_tokens fs) (c, mods) = Some (c1, mods1)" "in_modules c1" "\<not> new_module c1"
    "module_count c1 = module_count c + 1" by (auto simp: mods1_def)
  have "dom mods1 \<inter> (\<lambda>(fs, m). field_value fs Name) ` set es = {}" using Cons.prems(3) p(3) e by (auto simp: mods1_def)
  from Cons.IH [OF p(1,2) this c1(2,3)] obtain c2 where
    c2: "module_tokens env (concat (map (\<lambda>(fs, m). entry_tokens fs) es)) (c1, mods1) = Some (c2, mods1 ++ module_table es)" "in_modules c2"
    "\<not> new_module c2" "module_count c2 = module_count c1 + int (length es)" by blast
  have "mods1 ++ module_table es = mods ++ module_table (e # es)"
    using p(3) by (simp add: mods1_def e module_table_simps map_add_upd_left dom_module_table)
  then show ?case using module_tokens_append [OF tokens_plain(2)] c1 c2 e by (intro exI [of _ c2]) simp
qed (simp add: module_table_def)

section \<open>The thread of a module\<close>

lemma module_exec_ends:
  "\<forall>j < n. run (k + j) \<noteq> AGC_STATUS_TERM \<and> \<not> shut (k + j) \<Longrightarrow> \<not> shut (k + n) \<Longrightarrow> run (k + n) = AGC_STATUS_TERM \<Longrightarrow>
     status \<noteq> AGC_STATUS_TERM \<Longrightarrow> module_exec run shut status k = Some (Suc (k + n))"
proof (induction n arbitrary: k status)
  case 0
  then show ?case by (simp add: module_exec.simps [of run shut status k] module_exec.simps [of run shut AGC_STATUS_TERM])
next
  case (Suc n)
  have "run k \<noteq> AGC_STATUS_TERM" "\<not> shut k" using Suc.prems(1) [rule_format, of 0] by simp_all
  moreover have "\<forall>j < n. run (Suc k + j) \<noteq> AGC_STATUS_TERM \<and> \<not> shut (Suc k + j)"
    using Suc.prems(1) by (metis Suc_less_eq add_Suc_right add_Suc)
  then have "module_exec run shut (run k) (Suc k) = Some (Suc (Suc k + n))"
    using Suc.IH [of "Suc k" "run k"] Suc.prems(2,3) calculation(1) by simp
  ultimately show ?case using Suc.prems(4) by (simp add: module_exec.simps [of run shut status k])
qed

section \<open>Properties\<close>

text \<open>
  A file that lists modules with different names, with fields in any order and short enough
  for the buffers, loads exactly these modules, each from its own path with its own flag, and
  starts a thread for those that have a runtime function. A file that lists none is an error.
\<close>

theorem agc_loadable_module_init_correct:
  assumes "\<forall>(fs, m) \<in> set es. entry_fits fs \<and> entry_loads env fs m" "distinct (map (\<lambda>(fs, m). field_value fs Name) es)"
  shows "agc_loadable_module_init env (file_tokens (map fst es)) =
    (if es = [] then Some (AGC_STATUS_GENERR, Map.empty, {})
     else Some (AGC_STATUS_SUCCESS, module_table es, {k. \<exists>m. module_table es k = Some m \<and> runtime_func m \<noteq> None}))"
proof -
  let ?c = "config_start\<lparr>in_modules := True\<rparr>"
  have "dom Map.empty \<inter> (\<lambda>(fs, m). field_value fs Name) ` set es = {}" "in_modules ?c" "\<not> new_module ?c"
    by (simp_all add: config_start_def)
  from entries_set [OF assms this] obtain c where
    c: "module_tokens env (concat (map (\<lambda>(fs, m). entry_tokens fs) es)) (?c, Map.empty) = Some (c, module_table es)"
    "in_modules c" "\<not> new_module c" "module_count c = int (length es)" by (auto simp: config_start_def)
  have m: "concat (map entry_tokens (map fst es)) = concat (map (\<lambda>(fs, m). entry_tokens fs) es)" by (induction es) auto
  have n: "Stream_end \<notin> set (concat (map (\<lambda>(fs, m). entry_tokens fs) es))" using tokens_plain(2) by auto
  have "module_tokens env [Other_token, Other_token, Key, Scalar ''modules'', Value, Other_token] (config_start, Map.empty) = Some (?c, Map.empty)"
    by (simp add: module_token_def config_key_def config_start_def)
  moreover have "module_tokens env [Block_end, Block_end, Stream_end] (c, module_table es) = Some (c, module_table es)"
    using c(3) by (simp add: module_token_def)
  ultimately have "module_tokens env (file_tokens (map fst es)) (config_start, Map.empty) = Some (c, module_table es)"
    unfolding file_tokens_def m by (subst module_tokens_append, simp, subst bind_eq_Some_conv, intro exI [of _ "(?c, Map.empty)"])
      (simp add: module_tokens_append [OF n] c(1))
  then show ?thesis using c(4) by (auto simp: agc_loadable_module_init_def agc_loadable_module_runtime_def module_table_simps)
qed

definition demo_dl :: dl_env where
  "demo_dl = \<lparr>dl_open = \<lambda>path g k. if k = 0 then None else Some 4,
     dl_sym = \<lambda>_ _. Some \<lparr>api_version = 1, tload = 5, truntime = Some 6, tshutdown = None\<rparr>,
     dl_error = None, dl_load = \<lambda>_. (AGC_STATUS_SUCCESS, Some ''log''), mod_dir = ''/mods''\<rparr>"

definition demo_module :: agc_module where
  "demo_module = \<lparr>mod_key = None, mod_filename = ''logger/mod_log.so'', mod_perm = 0, mod_interface = ''log'', mod_lib = 4,
     load_func = 5, runtime_func = Some 6, shutdown_func = None\<rparr>"

theorem agc_loadable_module_init_correct_witness:
  "agc_loadable_module_init demo_dl (file_tokens [[(Path, ''logger''), (Name, ''mod_log'')]]) =
     Some (AGC_STATUS_SUCCESS, [''mod_log'' \<mapsto> demo_module\<lparr>mod_key := Some ''mod_log''\<rparr>], {''mod_log''})"
proof -
  let ?fs = "[(Path, ''logger''), (Name, ''mod_log'')]"
  have "dso_loop demo_dl ''logger/mod_log.so'' ''mod_log_module_interface'' False 0 =
      Some (4, \<lparr>api_version = 1, tload = 5, truntime = Some 6, tshutdown = None\<rparr>)"
    by (simp add: dso_loop_step [of _ _ _ _ 0] dso_loop_step [of _ _ _ _ "Suc 0"] opens_def demo_dl_def)
  moreover have "\<not> agc_true (Some [])" by code_simp
  ultimately have "entry_loads demo_dl ?fs demo_module"
    by (simp add: entry_loads_def field_value_def module_path_def zstr_def agc_loadable_module_loadmodule_def check_module_def
        demo_module_def AGC_API_VERSION_def) (simp add: demo_dl_def)
  then show ?thesis using agc_loadable_module_init_correct [of "[(?fs, demo_module)]" demo_dl]
    by (simp add: entry_fits_def field_value_def module_table_def demo_module_def)
qed

text \<open>
  C40: loading a module returns exactly when some attempt to open its library, with its function
  table, succeeds: when none does, the loop that is meant to try twice never ends.
\<close>

theorem agc_loadable_module_loadmodule_returns:
  "(\<exists>r. agc_loadable_module_loadmodule env path filename global = Some r) \<longleftrightarrow>
   (\<exists>k dso table. dl_open env path global k = Some dso \<and> dl_sym env dso (filename @ ''_module_interface'') = Some table)"
proof -
  have "(\<exists>r. agc_loadable_module_loadmodule env path filename global = Some r) \<longleftrightarrow>
      (\<exists>r. dso_loop env path (filename @ ''_module_interface'') global 0 = Some r)"
    by (auto simp: agc_loadable_module_loadmodule_def bind_Some_iff)
  also have "\<dots> \<longleftrightarrow> (\<exists>k. opens env path (filename @ ''_module_interface'') global k \<noteq> None)" by (rule dso_loop_iff)
  finally show ?thesis by (simp add: opens_def bind_Some_iff)
qed

end
