(* ===== verification/Agc_Connection.thy ===== *)
theory Agc_Connection
  imports Agc_Prelude
begin

text \<open>
  Connections and the registered driver (\<^verbatim>\<open>src/src/agc_connection.c\<close>, \<^verbatim>\<open>src/src/agc_driver.c\<close>). Memory
  pools, sockets and callbacks are opaque numbers; a socket address is its bytes. Pool
  allocation asserts its success, so the tests of its result never fail.
\<close>

section \<open>Connections\<close>

record agc_listening =
  lfd :: int
  lsockaddr :: "char list"
  laddrlen :: nat
  lhandler :: nat
  lpool :: nat

record agc_routine =
  read_handle :: "nat option"
  write_handle :: "nat option"
  err_handle :: "nat option"

record agc_connection =
  ccontext :: "nat option"
  croutine :: agc_routine
  cfd :: int
  clistening :: "agc_listening option"
  cpool :: nat
  csockaddr :: "char list"
  caddrlen :: nat
  cid :: int

definition LIMIT_CONNECTIONS :: int where "LIMIT_CONNECTIONS = 1000000"

text \<open>\<^verbatim>\<open>next_id\<close> under its mutex: the id and the new value of \<^verbatim>\<open>genid\<close>.\<close>

definition next_id :: "int \<Rightarrow> int \<times> int" where
  "next_id genid = (let genid = (if LIMIT_CONNECTIONS < genid then 0 else genid) in (genid, genid + 1))"

text \<open>\<^verbatim>\<open>memcpy\<close> of the address; \<^const>\<open>None\<close> when it reads behind the caller's bytes.\<close>

definition copy_addr :: "char list \<Rightarrow> nat \<Rightarrow> char list option" where
  "copy_addr addr addrlen = (if addrlen \<le> length addr then Some (take addrlen addr) else None)"

definition agc_conn_create_listening :: "int \<Rightarrow> char list \<Rightarrow> nat \<Rightarrow> nat \<Rightarrow> nat \<Rightarrow> agc_listening option" where
  "agc_conn_create_listening s addr addrlen pool handler = do {
     sa \<leftarrow> copy_addr addr addrlen;
     Some \<lparr>lfd = s, lsockaddr = sa, laddrlen = addrlen, lhandler = handler, lpool = pool\<rparr>
   }"

definition agc_conn_create_connection ::
  "int \<Rightarrow> int \<Rightarrow> char list \<Rightarrow> nat \<Rightarrow> nat \<Rightarrow> nat option \<Rightarrow> nat option \<Rightarrow> nat option \<Rightarrow> nat option \<Rightarrow> (agc_connection \<times> int) option" where
  "agc_conn_create_connection genid s addr addrlen pool context rd wr err = do {
     let (i, genid) = next_id genid;
     sa \<leftarrow> copy_addr addr addrlen;
     Some (\<lparr>ccontext = context, croutine = \<lparr>read_handle = rd, write_handle = wr, err_handle = err\<rparr>, cfd = s, clistening = None,
            cpool = pool, csockaddr = sa, caddrlen = addrlen, cid = i\<rparr>, genid)
   }"

definition agc_conn_get_connection :: "int \<Rightarrow> agc_listening \<Rightarrow> agc_connection option \<times> int" where
  "agc_conn_get_connection genid l =
     (if lfd l = - 1 then (None, genid)
      else (let (i, genid) = next_id genid in
            (Some \<lparr>ccontext = None, croutine = \<lparr>read_handle = None, write_handle = None, err_handle = None\<rparr>, cfd = lfd l,
                   clistening = Some l, cpool = lpool l, csockaddr = lsockaddr l, caddrlen = laddrlen l, cid = i\<rparr>, genid)))"

section \<open>The driver\<close>

text \<open>The actions of the registered driver, on the driver's own state.\<close>

record 's routine_actions =
  act_add :: "agc_connection \<Rightarrow> u32 \<Rightarrow> 's \<Rightarrow> agc_status \<times> 's"
  act_del :: "agc_connection \<Rightarrow> u32 \<Rightarrow> 's \<Rightarrow> agc_status \<times> 's"
  act_add_conn :: "agc_connection \<Rightarrow> 's \<Rightarrow> agc_status \<times> 's"
  act_del_conn :: "agc_connection \<Rightarrow> 's \<Rightarrow> agc_status \<times> 's"

definition agc_diver_register_routine :: "'s routine_actions \<Rightarrow> 's routine_actions option" where
  "agc_diver_register_routine routines = Some routines"

definition agc_diver_add_connection :: "'s routine_actions option \<Rightarrow> agc_connection \<Rightarrow> 's \<Rightarrow> agc_status \<times> 's" where
  "agc_diver_add_connection routine c s = (case routine of None \<Rightarrow> (AGC_STATUS_GENERR, s) | Some r \<Rightarrow> act_add_conn r c s)"

definition agc_diver_del_connection :: "'s routine_actions option \<Rightarrow> agc_connection \<Rightarrow> 's \<Rightarrow> agc_status \<times> 's" where
  "agc_diver_del_connection routine c s = (case routine of None \<Rightarrow> (AGC_STATUS_GENERR, s) | Some r \<Rightarrow> act_del_conn r c s)"

definition agc_diver_add_event :: "'s routine_actions option \<Rightarrow> agc_connection \<Rightarrow> u32 \<Rightarrow> 's \<Rightarrow> agc_status \<times> 's" where
  "agc_diver_add_event routine c event s = (case routine of None \<Rightarrow> (AGC_STATUS_GENERR, s) | Some r \<Rightarrow> act_add r c event s)"

definition agc_diver_del_event :: "'s routine_actions option \<Rightarrow> agc_connection \<Rightarrow> u32 \<Rightarrow> 's \<Rightarrow> agc_status \<times> 's" where
  "agc_diver_del_event routine c event s = (case routine of None \<Rightarrow> (AGC_STATUS_GENERR, s) | Some r \<Rightarrow> act_del r c event s)"

section \<open>Ids\<close>

text \<open>Connections made one after the other from a list of requests.\<close>

record conn_request =
  rq_fd :: int
  rq_addr :: "char list"
  rq_context :: "nat option"

fun create_all :: "int \<Rightarrow> conn_request list \<Rightarrow> (agc_connection list \<times> int) option" where
  "create_all genid [] = Some ([], genid)"
| "create_all genid (r # rs) = do {
     (c, genid) \<leftarrow> agc_conn_create_connection genid (rq_fd r) (rq_addr r) (length (rq_addr r)) 0 (rq_context r) None None None;
     (cs, genid) \<leftarrow> create_all genid rs;
     Some (c # cs, genid)
   }"

definition id_range :: "int \<Rightarrow> bool" where
  "id_range g \<longleftrightarrow> 0 \<le> g \<and> g \<le> LIMIT_CONNECTIONS + 1"

text \<open>The id of the \<open>k\<close>-th connection from a counter at \<open>g\<close>.\<close>

definition nth_id :: "int \<Rightarrow> nat \<Rightarrow> int" where
  "nth_id g k = (g + int k) mod (LIMIT_CONNECTIONS + 1)"

lemma next_id_nth:
  assumes "id_range g"
  shows "\<exists>g'. next_id g = (nth_id g 0, g') \<and> id_range g' \<and> (\<forall>k. nth_id g' k = nth_id g (Suc k))"
proof (cases "LIMIT_CONNECTIONS < g")
  case True
  then have "g = LIMIT_CONNECTIONS + 1" using assms by (simp add: id_range_def)
  moreover have "nth_id (LIMIT_CONNECTIONS + 1) (Suc k) = nth_id 1 k" for k
    unfolding nth_id_def using mod_add_self1 [of "LIMIT_CONNECTIONS + 1" "1 + int k"] by (simp add: algebra_simps)
  ultimately show ?thesis using True by (simp add: next_id_def id_range_def) (simp add: nth_id_def LIMIT_CONNECTIONS_def)
next
  case False
  then show ?thesis using assms by (auto simp: next_id_def nth_id_def id_range_def algebra_simps LIMIT_CONNECTIONS_def)
qed

lemma create_all_ids:
  "id_range g \<Longrightarrow> \<exists>cs g'. create_all g rs = Some (cs, g') \<and> id_range g' \<and> map cid cs = map (nth_id g) [0 ..< length rs] \<and>
     map cfd cs = map rq_fd rs \<and> map csockaddr cs = map rq_addr rs \<and> map ccontext cs = map rq_context rs"
proof (induction rs arbitrary: g)
  case (Cons r rs)
  from next_id_nth [OF Cons.prems] obtain g1 where g1: "next_id g = (nth_id g 0, g1)" "id_range g1" "\<forall>k. nth_id g1 k = nth_id g (Suc k)"
    by blast
  from Cons.IH [OF g1(2)] obtain cs g2 where "create_all g1 rs = Some (cs, g2)" "id_range g2" "map cid cs = map (nth_id g1) [0 ..< length rs]"
    "map cfd cs = map rq_fd rs" "map csockaddr cs = map rq_addr rs" "map ccontext cs = map rq_context rs" by blast
  moreover have "map (nth_id g) [0 ..< length (r # rs)] = nth_id g 0 # map (nth_id g1) [0 ..< length rs]"
    using g1(3) by (simp add: upt_conv_Cons map_Suc_upt [symmetric] del: upt_Suc)
  ultimately show ?case using g1(1) by (simp add: agc_conn_create_connection_def copy_addr_def)
qed simp

text \<open>
  Every connection gets an id between 0 and the limit, and any million of connections that
  follow each other, wherever the counter stands, have different ones; each keeps the socket,
  address and context it was made with.
\<close>

theorem agc_conn_ids_distinct:
  assumes "id_range genid" "length rs \<le> 1000001"
  shows "\<exists>cs genid'. create_all genid rs = Some (cs, genid') \<and> id_range genid' \<and> distinct (map cid cs) \<and>
    (\<forall>c \<in> set cs. 0 \<le> cid c \<and> cid c \<le> LIMIT_CONNECTIONS) \<and>
    map cfd cs = map rq_fd rs \<and> map csockaddr cs = map rq_addr rs \<and> map ccontext cs = map rq_context rs"
proof -
  from create_all_ids [OF assms(1)] obtain cs g' where cs: "create_all genid rs = Some (cs, g')" "id_range g'"
    "map cid cs = map (nth_id genid) [0 ..< length rs]"
    "map cfd cs = map rq_fd rs" "map csockaddr cs = map rq_addr rs" "map ccontext cs = map rq_context rs" by blast
  have "inj_on (nth_id genid) {0 ..< length rs}"
  proof (rule inj_onI)
    fix i j assume i: "i \<in> {0 ..< length rs}" "j \<in> {0 ..< length rs}" "nth_id genid i = nth_id genid j"
    then have "(1000001 :: int) dvd int i - int j"
      by (simp add: nth_id_def LIMIT_CONNECTIONS_def mod_eq_dvd_iff)
    moreover have "\<bar>int i - int j\<bar> < 1000001" using i assms(2) by auto
    ultimately show "i = j" using zdvd_imp_le [of 1000001 "\<bar>int i - int j\<bar>"] by fastforce
  qed
  then have "distinct (map cid cs)" unfolding cs(3) by (simp add: distinct_map)
  moreover have "0 \<le> cid c \<and> cid c \<le> LIMIT_CONNECTIONS" if "c \<in> set cs" for c
  proof -
    have "cid c \<in> set (map (nth_id genid) [0 ..< length rs])" using that cs(3) by (metis image_eqI image_set)
    then show ?thesis by (auto simp: nth_id_def LIMIT_CONNECTIONS_def)
  qed
  ultimately show ?thesis using cs by blast
qed

theorem agc_conn_ids_distinct_witness:
  "\<exists>cs genid'. create_all 1000001 [\<lparr>rq_fd = 3, rq_addr = ''a'', rq_context = None\<rparr>, \<lparr>rq_fd = 4, rq_addr = ''b'', rq_context = Some 1\<rparr>] =
     Some (cs, genid') \<and> distinct (map cid cs) \<and> map cfd cs = [3, 4]"
  using agc_conn_ids_distinct [of 1000001 "[\<lparr>rq_fd = 3, rq_addr = ''a'', rq_context = None\<rparr>, \<lparr>rq_fd = 4, rq_addr = ''b'', rq_context = Some 1\<rparr>]"]
  by (auto simp: id_range_def LIMIT_CONNECTIONS_def)

end
