(* ===== verification/Agc_Eventsocket.thy ===== *)
theory Agc_Eventsocket
  imports Agc_Event_Json Agc_Api_Laws Agc_Module
begin

text \<open>
  The module through which clients follow events and run commands over TCP
  (\<^verbatim>\<open>src/src/mod/eventhandlers/mod_eventsocket\<close>): the framing of the packets a client sends, their
  headers and bodies, the commands, the list of connections and the delivery of events to the
  queues of the connections that subscribed to them.

  What arrives on a socket is a list of segments, with an \<open>Idle\<close> for each read that finds nothing;
  its end stands for the end of the connection, an error, or the shutdown of the module, which the
  code treats alike. The bytes handed to \<^verbatim>\<open>agc_socket_send\<close> are appended to \<open>sock_out\<close>. Allocations
  succeed, as the code asserts, and the addresses of new headers and events are arguments.
  \<^const>\<open>None\<close> is an access outside a buffer or a loop that never ends. The read lock of a connection
  is never taken for writing, so that taking it succeeds, and \<^verbatim>\<open>listener.ready\<close> stays set once the module
  listens, so that the threads of connections always find it so.
\<close>

abbreviation (input) CR :: char where "CR \<equiv> CHR 0x0D"
abbreviation (input) LF :: char where "LF \<equiv> CHR 0x0A"
abbreviation (input) NUL :: char where "NUL \<equiv> CHR 0x00"

definition EVTSKT_BLOCK_LEN :: nat where "EVTSKT_BLOCK_LEN = 2048"
definition EVTSKT_MAX_LEN :: nat where "EVTSKT_MAX_LEN = 10485760"
definition EVENT_ID_EVENTSOCKET :: int where "EVENT_ID_EVENTSOCKET = 1"
definition MAX_QUEUE_LEN :: u32 where "MAX_QUEUE_LEN = 100000"

section \<open>Sockets and connections\<close>

datatype rx = Arrive string | Idle

datatype rx_answer = Bytes string | Break | Gone

fun sock_recv :: "rx list \<Rightarrow> nat \<Rightarrow> rx_answer \<times> rx list" where
  "sock_recv [] n = (Gone, [])"
| "sock_recv (Idle # r) n = (Break, r)"
| "sock_recv (Arrive bs # r) n = (if bs = [] then sock_recv r n else (Bytes (take n bs), Arrive (drop n bs) # r))"

fun rx_size :: "rx list \<Rightarrow> nat" where
  "rx_size [] = 0"
| "rx_size (Idle # r) = Suc (rx_size r)"
| "rx_size (Arrive bs # r) = length bs + rx_size r"

lemma sock_recv_size:
  "sock_recv rx n = (a, rx') \<Longrightarrow> a \<noteq> Gone \<Longrightarrow> 0 < n \<Longrightarrow> rx_size rx' < rx_size rx"
  by (induction rx n rule: sock_recv.induct) (auto split: if_splits)

record event_connect =
  sock_open :: bool
  sock_in :: "rx list"
  sock_out :: string
  event_queue :: apr_queue
  has_event :: bool
  is_running :: bool
  event_list :: "bool list"

text \<open>
  What the code hands to \<^verbatim>\<open>agc_socket_send\<close>. Its callers do not look at the answer; the model takes a peer that accepts every text
  whole, so that what a connection has sent is the text of all calls.
\<close>

definition sock_send :: "event_connect \<Rightarrow> string \<Rightarrow> event_connect" where
  "sock_send c bs = c\<lparr>sock_out := sock_out c @ bs\<rparr>"

text \<open>The text a C function sees in a buffer, and what fits into one of \<open>n\<close> bytes.\<close>

definition c_str :: "string \<Rightarrow> string" where
  "c_str s = takeWhile (\<lambda>c. c \<noteq> NUL) s"

definition c_snprintf :: "nat \<Rightarrow> string \<Rightarrow> string" where
  "c_snprintf n s = take (n - 1) s"

definition strip_cr :: "string \<Rightarrow> string" where
  "strip_cr s = (if CR \<in> set s then takeWhile (\<lambda>c. c \<noteq> CR) s else takeWhile (\<lambda>c. c \<noteq> LF) s)"

section \<open>Headers and body of a packet\<close>

text \<open>Where the loop over the lines goes on: behind the line and all line ends that follow.\<close>

definition next_line :: "string \<Rightarrow> string option" where
  "next_line cur =
     (let r = (if CR \<in> set cur then dropWhile (\<lambda>c. c \<noteq> CR) cur else dropWhile (\<lambda>c. c \<noteq> LF) cur)
      in if r = [] then None else Some (dropWhile (\<lambda>c. c = CR \<or> c = LF) r))"

lemma line_rest_shorter:
  "dropWhile (\<lambda>c. c \<noteq> x) cur \<noteq> [] \<Longrightarrow> P x \<Longrightarrow> length (dropWhile P (dropWhile (\<lambda>c. c \<noteq> x) cur)) < length cur"
proof (induction cur)
  case (Cons a cur)
  then show ?case using length_dropWhile_le [of P cur] by (auto split: if_splits)
qed simp

lemma next_line_shorter: "next_line cur = Some r \<Longrightarrow> length r < length cur"
  using line_rest_shorter [of CR cur "\<lambda>c. c = CR \<or> c = LF"] line_rest_shorter [of LF cur "\<lambda>c. c = CR \<or> c = LF"]
  unfolding next_line_def Let_def by (auto split: if_splits)

text \<open>The inner reading loop; the first result is \<^const>\<open>None\<close> when the connection ends in it.\<close>

function read_body :: "rx list \<Rightarrow> nat \<Rightarrow> string \<Rightarrow> string option \<times> rx list" where
  "read_body rx clen p =
     (if clen = 0 then (Some p, rx)
      else (case sock_recv rx clen of
        (Gone, rx) \<Rightarrow> (None, rx)
      | (Break, rx) \<Rightarrow> read_body rx clen p
      | (Bytes bs, rx) \<Rightarrow> read_body rx (clen - length bs) (p @ bs)))"
  by pat_completeness auto
termination
  by (relation "measure (\<lambda>(rx, clen, p). rx_size rx)")
    (auto dest!: sock_recv_size [OF sym])

declare read_body.simps [simp del]

text \<open>One header line: the flag is false when the connection ends while the body is read.\<close>

definition header_line ::
  "hheap \<Rightarrow> agc_event \<Rightarrow> addr list \<Rightarrow> rx list \<Rightarrow> string \<Rightarrow> (bool \<times> hheap \<times> agc_event \<times> addr list \<times> rx list) option" where
  "header_line h ev as rx cur =
     (let line = strip_cr cur in
      if line = [] then Some (True, h, ev, as, rx)
      else (case cut_first (CHR '':'') line of
        (var, None) \<Rightarrow> Some (True, h, ev, as, rx)
      | (var, Some val) \<Rightarrow>
          (let val = dropWhile (\<lambda>c. c = CHR '' '') val in do {
             (_, h, ev) \<leftarrow> agc_event_add_header_string h ev (hd as) var (Some val);
             let clen = c_atoi val;
             if strcasecmp_eq var ''content-length'' \<and> clen > 0
             then (if clen + 1 \<ge> 2 ^ 31 then None
                   else (case read_body rx (nat clen) [] of
                     (None, rx) \<Rightarrow> Some (False, h, ev, tl as, rx)
                   | (Some b, rx) \<Rightarrow> Some (True, h, snd (agc_event_add_body ev (Some (Some (c_str b)))), tl as, rx)))
             else Some (True, h, ev, tl as, rx)
           })))"

function header_lines ::
  "hheap \<Rightarrow> agc_event \<Rightarrow> addr list \<Rightarrow> rx list \<Rightarrow> string option \<Rightarrow> (agc_status \<times> hheap \<times> agc_event \<times> addr list \<times> rx list) option" where
  "header_lines h ev as rx None = Some (AGC_STATUS_SUCCESS, h, ev, as, rx)"
| "header_lines h ev as rx (Some cur) = do {
     (ok, h, ev, as, rx) \<leftarrow> header_line h ev as rx cur;
     if ok then header_lines h ev as rx (next_line cur) else Some (AGC_STATUS_FALSE, h, ev, as, rx)
   }"
  by pat_completeness auto
termination
  by (relation "measure (\<lambda>(h, ev, as, rx, cur). case cur of None \<Rightarrow> 0 | Some c \<Rightarrow> Suc (length c))")
    (auto dest: next_line_shorter split: option.splits)

text \<open>A complete packet: the first header, \<^verbatim>\<open>command\<close>, holds the whole text.\<close>

definition parse_packet ::
  "hheap \<Rightarrow> addr list \<Rightarrow> rx list \<Rightarrow> string \<Rightarrow> (agc_status \<times> hheap \<times> agc_event \<times> addr list \<times> rx list) option" where
  "parse_packet h as rx mbuf = do {
     (_, h, ev) \<leftarrow> agc_event_add_header_string h (agc_event_create EVENT_ID_EVENTSOCKET 0) (hd as) ''command'' (Some mbuf);
     header_lines h ev (tl as) rx (next_line mbuf)
   }"

section \<open>Reading packets\<close>

record packet =
  mbuf :: string
  buf_len :: nat
  crcount :: nat

definition new_packet :: packet where
  "new_packet = \<lparr>mbuf = [], buf_len = EVTSKT_BLOCK_LEN, crcount = 0\<rparr>"

definition grow_packet :: "packet \<Rightarrow> packet" where
  "grow_packet p = (if length (mbuf p) = buf_len p - 1 then p\<lparr>buf_len := buf_len p + EVTSKT_BLOCK_LEN\<rparr> else p)"

datatype progress = Skipped | More | Complete

text \<open>A byte is stored at \<^verbatim>\<open>ptr\<close>; a byte that ends the packet needs the terminator behind it.\<close>

definition packet_byte :: "packet \<Rightarrow> char \<Rightarrow> (progress \<times> packet) option" where
  "packet_byte p c =
     (if length (mbuf p) \<ge> buf_len p then None
      else (let p = p\<lparr>mbuf := mbuf p @ [c]\<rparr> in
        if hd (mbuf p) = CR \<or> hd (mbuf p) = LF then Some (Skipped, p\<lparr>mbuf := []\<rparr>)
        else (let n = (if c = LF then crcount p + 1 else if c \<noteq> CR then 0 else crcount p);
                  p = p\<lparr>crcount := if length (mbuf p) \<ge> EVTSKT_MAX_LEN then 2 else n\<rparr>
              in if crcount p \<noteq> 2 then Some (More, p)
                 else if length (mbuf p) < buf_len p then Some (Complete, p)
                 else None)))"

text \<open>Events waiting for the client are sent, as long as no packet has begun.\<close>

definition event_header :: "nat \<Rightarrow> string" where
  "event_header len = c_snprintf 512
     (''Content-Length: '' @ int_str (to_int32 (int len)) @ [LF] @ ''Content-Type: text/event-json'' @ [LF, LF])"

partial_function (option) send_events :: "'d fp \<Rightarrow> evsys \<Rightarrow> event_connect \<Rightarrow> (evsys \<times> event_connect) option" where
  "send_events f s c = do {
     (_, popped, q) \<leftarrow> apr_queue_trypop (event_queue c);
     (case popped of
        None \<Rightarrow> Some (s, c\<lparr>event_queue := q\<rparr>)
      | Some e \<Rightarrow> do {
          pevent \<leftarrow> events s e;
          (_, ebuf) \<leftarrow> agc_event_serialize_json f (event_templates s) (hstore s) pevent;
          ebuf \<leftarrow> ebuf;
          h \<leftarrow> agc_event_destroy (hstore s) (Some pevent);
          send_events f (s\<lparr>hstore := h\<rparr>) (sock_send (c\<lparr>event_queue := q\<rparr>) (event_header (length ebuf) @ ebuf))
        })
   }"

definition send_pending :: "'d fp \<Rightarrow> packet \<Rightarrow> evsys \<Rightarrow> event_connect \<Rightarrow> (evsys \<times> event_connect) option" where
  "send_pending f p s c = (if (mbuf p = [] \<or> hd (mbuf p) = NUL) \<and> has_event c then send_events f s c else Some (s, c))"

function read_loop ::
  "'d fp \<Rightarrow> addr list \<Rightarrow> evsys \<Rightarrow> event_connect \<Rightarrow> packet \<Rightarrow> rx list \<Rightarrow>
     (agc_status \<times> agc_event option \<times> addr list \<times> evsys \<times> event_connect) option" where
  "read_loop f as s c p rx =
     (let p = grow_packet p in
      case sock_recv rx 1 of
        (Gone, rx) \<Rightarrow> Some (AGC_STATUS_FALSE, None, as, s, c\<lparr>sock_in := rx\<rparr>)
      | (Break, rx) \<Rightarrow> do { (s, c) \<leftarrow> send_pending f p s c; read_loop f as s c p rx }
      | (Bytes bs, rx) \<Rightarrow> do {
          (r, p) \<leftarrow> packet_byte p (hd bs);
          (case r of
             Skipped \<Rightarrow> read_loop f as s c p rx
           | More \<Rightarrow> do { (s, c) \<leftarrow> send_pending f p s c; read_loop f as s c p rx }
           | Complete \<Rightarrow> do {
               (st, h, ev, as, rx) \<leftarrow> parse_packet (hstore s) as rx (c_str (mbuf p));
               Some (st, Some ev, as, s\<lparr>hstore := h\<rparr>, c\<lparr>sock_in := rx\<rparr>)
             })
        })"
  by pat_completeness auto
termination
  by (relation "measure (\<lambda>(f, as, s, c, p, rx). rx_size rx)")
    (auto dest!: sock_recv_size [OF sym])

declare read_loop.simps [simp del]

definition read_packet ::
  "'d fp \<Rightarrow> addr list \<Rightarrow> evsys \<Rightarrow> event_connect \<Rightarrow> (agc_status \<times> agc_event option \<times> addr list \<times> evsys \<times> event_connect) option" where
  "read_packet f as s c = read_loop f as s c new_packet (sock_in c)"

section \<open>Commands\<close>

definition strncasecmp_eq :: "string \<Rightarrow> string \<Rightarrow> nat \<Rightarrow> bool" where
  "strncasecmp_eq s t n \<longleftrightarrow> strcasecmp_eq (take n s) (take n t)"

definition api_header :: "nat \<Rightarrow> string" where
  "api_header rlen = c_snprintf 1024
     (''Content-Type: api/response'' @ [LF] @ ''Content-Length: '' @ int_str (to_int32 (int rlen)) @ [LF, LF])"

text \<open>The functions of commands run on the event system and on the rest of the program's state.\<close>

definition api_exec ::
  "alloc_env \<Rightarrow> (evsys \<times> 'x) agc_api list \<Rightarrow> event_connect \<Rightarrow> string \<Rightarrow> string option \<Rightarrow> evsys \<times> 'x \<Rightarrow>
     (event_connect \<times> evsys \<times> 'x) option" where
  "api_exec env apis c api_cmd arg st =
     (if \<not> is_running c then Some (c, st)
      else do {
        (status, stream, st) \<leftarrow> agc_api_execute env apis (Some api_cmd) arg agc_api_stand_stream st;
        reply \<leftarrow> (if status = AGC_STATUS_SUCCESS then do { n \<leftarrow> c_strlen (sdata stream); Some (take n (sdata stream)) }
                 else Some (''-ERR '' @ api_cmd @ '' Command not found!'' @ [LF]));
        let reply = (if reply = [] then ''-ERR no reply'' @ [LF] else reply);
        Some (sock_send (sock_send c (api_header (length reply))) reply, st)
      })"

text \<open>The loop over the names behind \<^verbatim>\<open>event\<close>; it counts those that are known.\<close>

definition rest_len :: "string option \<Rightarrow> nat" where
  "rest_len r = (case r of None \<Rightarrow> 0 | Some c \<Rightarrow> Suc (length c))"

lemma cut_first_shorter: "cut_first x cur = (name, r) \<Longrightarrow> rest_len r < rest_len (Some cur)"
proof -
  assume "cut_first x cur = (name, r)"
  moreover have "length (dropWhile (\<lambda>y. y \<noteq> x) cur) \<le> length cur" by (rule length_dropWhile_le)
  ultimately show ?thesis by (auto simp: cut_first_def rest_len_def split: list.splits)
qed

function subscribe :: "evsys \<Rightarrow> bool list \<Rightarrow> nat \<Rightarrow> string option \<Rightarrow> (bool list \<times> nat) option" where
  "subscribe s el key_count None = Some (el, key_count)"
| "subscribe s el key_count (Some cur) =
     (case cut_first (CHR '' '') cur of (name, nxt) \<Rightarrow>
        (case agc_event_get_id s (Some name) of (status, i) \<Rightarrow>
           if status \<noteq> AGC_STATUS_SUCCESS then subscribe s el key_count nxt
           else do {
             event_id \<leftarrow> i;
             el \<leftarrow> (if event_id = EVENT_ID_ALL then Some (replicate (nat EVENT_ID_LIMIT) True)
                   else arr_set el event_id True);
             subscribe s el (Suc key_count) nxt
           }))"
  by pat_completeness auto
termination
  by (relation "measure (\<lambda>(s, el, k, cur). rest_len cur)") (auto dest!: cut_first_shorter [OF sym])

text \<open>
  \<^verbatim>\<open>strdup\<close> of the header \<^verbatim>\<open>command\<close>, then one of \<^verbatim>\<open>exit\<close>, \<^verbatim>\<open>api\<close> and \<^verbatim>\<open>event\<close>; anything else
  is ignored. The reply, the event that is left, and the states.
\<close>

definition parse_command ::
  "alloc_env \<Rightarrow> (evsys \<times> 'x) agc_api list \<Rightarrow> event_connect \<Rightarrow> agc_event option \<Rightarrow> evsys \<times> 'x \<Rightarrow>
     (agc_status \<times> string \<times> agc_event option \<times> event_connect \<times> evsys \<times> 'x) option" where
  "parse_command env apis c event st = do {
     cmd_header \<leftarrow> (case event of None \<Rightarrow> Some None | Some e \<Rightarrow> agc_event_get_header (hstore (fst st)) e (Some ''command''));
     (case cmd_header of
        None \<Rightarrow> Some (AGC_STATUS_SUCCESS, c_snprintf 512 ''-ERR command parse error.'', event, c\<lparr>is_running := False\<rparr>, st)
      | Some cmd \<Rightarrow>
          if strncasecmp_eq cmd ''exit'' 4 \<or> strncasecmp_eq cmd ''...'' 3
          then Some (AGC_STATUS_SUCCESS, c_snprintf 512 ''+OK bye'', event, c\<lparr>is_running := False\<rparr>, st)
          else if strncasecmp_eq cmd ''api '' 4
          then (case cut_first (CHR '' '') (strip_cr (drop 4 cmd)) of (api_cmd, arg) \<Rightarrow> do {
                  (c, s, x) \<leftarrow> api_exec env apis c api_cmd arg st;
                  h \<leftarrow> agc_event_destroy (hstore s) event;
                  Some (AGC_STATUS_SUCCESS, [], None, c, s\<lparr>hstore := h\<rparr>, x)
                })
          else if strncasecmp_eq cmd ''event'' 5
          then (let c = c\<lparr>event_list := replicate (nat EVENT_ID_LIMIT) False\<rparr> in do {
                  (el, key_count) \<leftarrow> subscribe (fst st) (event_list c) 0 (snd (cut_first (CHR '' '') (drop 5 (strip_cr cmd))));
                  Some (if key_count = 0
                        then (AGC_STATUS_SUCCESS, c_snprintf 512 ''-ERR no keywords supplied'', event, c\<lparr>event_list := el, has_event := False\<rparr>, st)
                        else (AGC_STATUS_SUCCESS, c_snprintf 512 ''+OK'', event, c\<lparr>event_list := el, has_event := True\<rparr>, st))
                })
          else Some (AGC_STATUS_SUCCESS, [], event, c, st))
   }"

section \<open>The thread of a connection\<close>

definition send_reply :: "event_connect \<Rightarrow> string \<Rightarrow> event_connect" where
  "send_reply c reply =
     (case reply of
        [] \<Rightarrow> c
      | r # rs \<Rightarrow>
          sock_send c (c_snprintf 1024
            (if r = CHR ''~'' then ''Content-Type: command/reply'' @ [LF] @ rs
             else ''Content-Type: command/reply'' @ [LF] @ ''Reply-Text: '' @ reply @ [LF, LF])))"

text \<open>One round of the loop of \<^verbatim>\<open>connection_run\<close>; the flag says whether it goes on.\<close>

definition connection_round ::
  "'d fp \<Rightarrow> alloc_env \<Rightarrow> (evsys \<times> 'x) agc_api list \<Rightarrow> addr list \<Rightarrow> event_connect \<Rightarrow> evsys \<times> 'x \<Rightarrow>
     (bool \<times> agc_event option \<times> addr list \<times> event_connect \<times> evsys \<times> 'x) option" where
  "connection_round f env apis as c st = do {
     (status, revent, as, s, c) \<leftarrow> read_packet f as (fst st) c;
     if status \<noteq> AGC_STATUS_SUCCESS then Some (False, revent, as, c, s, snd st)
     else if revent = None then Some (True, revent, as, c, s, snd st)
     else do {
       (status, reply, revent, c, s, x) \<leftarrow> parse_command env apis c revent (s, snd st);
       if status \<noteq> AGC_STATUS_SUCCESS then Some (False, revent, as, c\<lparr>is_running := False\<rparr>, s, x)
       else do {
         h \<leftarrow> agc_event_destroy (hstore s) revent;
         Some (True, None, as, send_reply c reply, s\<lparr>hstore := h\<rparr>, x)
       }
     }
   }"

partial_function (option) connection_loop ::
  "'d fp \<Rightarrow> alloc_env \<Rightarrow> (evsys \<times> 'x) agc_api list \<Rightarrow> addr list \<Rightarrow> event_connect \<Rightarrow> evsys \<times> 'x \<Rightarrow>
     (agc_event option \<times> event_connect \<times> evsys \<times> 'x) option" where
  "connection_loop f env apis as c st =
     (if \<not> is_running c then Some (None, c, st)
      else do {
        (go, revent, as, c, st) \<leftarrow> connection_round f env apis as c st;
        if go then connection_loop f env apis as c st else Some (revent, c, st)
      })"

text \<open>\<^verbatim>\<open>len\<close> of the first send, and its status, are the answer of the socket.\<close>

definition send_disconnect :: "event_connect \<Rightarrow> string \<Rightarrow> agc_status \<times> nat \<Rightarrow> event_connect" where
  "send_disconnect c message answer =
     (let message = (if message = [] then ''Disconnected.'' @ [LF] else message);
          disco_buf = c_snprintf 512 (''Content-Type: text/disconnect-notice'' @ [LF] @ ''Content-Length: '' @
            int_str (to_int32 (int (length message))) @ [LF, LF])
      in if \<not> sock_open c then c
         else (let c = sock_send c (take (snd answer) disco_buf) in
               if fst answer = AGC_STATUS_SUCCESS \<and> snd answer > 0 then sock_send c message else c))"

section \<open>The connections\<close>

record listener =
  ready :: bool
  connections :: "addr list"
  conns :: "addr \<Rightarrow> event_connect option"
  threads :: int
  profile_done :: bool
  profile_ip :: string
  profile_port :: "16 word"

definition close_socket :: "event_connect \<Rightarrow> event_connect" where
  "close_socket c = c\<lparr>sock_open := False\<rparr>"

definition release_connection :: "addr \<Rightarrow> listener \<Rightarrow> listener" where
  "release_connection a l = l\<lparr>conns := (conns l)(a := None)\<rparr>"

definition new_connection :: "rx list \<Rightarrow> event_connect" where
  "new_connection rx = \<lparr>sock_open = True, sock_in = rx, sock_out = [], event_queue = apr_queue_create MAX_QUEUE_LEN,
     has_event = False, is_running = False, event_list = replicate (nat EVENT_ID_LIMIT) False\<rparr>"

definition add_conn :: "addr \<Rightarrow> listener \<Rightarrow> listener" where
  "add_conn a l = l\<lparr>connections := a # connections l\<rparr>"

definition remove_conn :: "addr \<Rightarrow> listener \<Rightarrow> listener" where
  "remove_conn a l = l\<lparr>connections := remove1 a (connections l)\<rparr>"

text \<open>The beginning and the end of \<^verbatim>\<open>connection_run\<close>, around its loop.\<close>

definition connection_start :: "addr \<Rightarrow> listener \<Rightarrow> listener option" where
  "connection_start a l = do {
     c \<leftarrow> conns l a;
     Some (add_conn a (l\<lparr>threads := threads l + 1, conns := (conns l)(a \<mapsto> c\<lparr>is_running := True\<rparr>)\<rparr>))
   }"

definition connection_end :: "addr \<Rightarrow> agc_event option \<Rightarrow> agc_status \<times> nat \<Rightarrow> evsys \<Rightarrow> listener \<Rightarrow> (evsys \<times> listener) option" where
  "connection_end a revent answer s l = do {
     h \<leftarrow> agc_event_destroy (hstore s) revent;
     c \<leftarrow> conns l a;
     let c = send_disconnect c (''Disconnected, goodbye.'' @ [LF]) answer;
     let l = remove_conn a (l\<lparr>conns := (conns l)(a \<mapsto> close_socket c)\<rparr>);
     let l = release_connection a l;
     Some (s\<lparr>hstore := h\<rparr>, l\<lparr>threads := threads l - 1\<rparr>)
   }"

text \<open>
  \<open>handle_event\<close> offers a copy of the event to every connection that subscribed to it. The list
  \<open>news\<close> holds, for each copy, the address of the event and those of its headers.
\<close>

fun handle_conns ::
  "agc_event \<Rightarrow> (addr \<times> addr list) list \<Rightarrow> addr list \<Rightarrow> evsys \<Rightarrow> (addr \<Rightarrow> event_connect option) \<Rightarrow>
     (evsys \<times> (addr \<Rightarrow> event_connect option)) option" where
  "handle_conns ev news [] s cs = Some (s, cs)"
| "handle_conns ev news (a # as) s cs = do {
     c \<leftarrow> cs a;
     wanted \<leftarrow> (if has_event c then arr_get (event_list c) (event_id ev) else Some False);
     if \<not> wanted then handle_conns ev news as s cs
     else do {
       let (e, hs) = hd news;
       (h, clone) \<leftarrow> agc_event_dup (hstore s) ev hs;
       let s = s\<lparr>hstore := h, events := (events s)(e \<mapsto> clone)\<rparr>;
       (status, q) \<leftarrow> apr_queue_trypush (event_queue c) e;
       if status = APR_SUCCESS
       then handle_conns ev (tl news) as s (cs(a \<mapsto> c\<lparr>event_queue := q\<rparr>))
       else do {
         h \<leftarrow> agc_event_destroy (hstore s) (Some clone);
         handle_conns ev (tl news) as (s\<lparr>hstore := h\<rparr>) cs
       }
     }
   }"

definition handle_event :: "agc_event \<Rightarrow> (addr \<times> addr list) list \<Rightarrow> evsys \<Rightarrow> listener \<Rightarrow> (evsys \<times> listener) option" where
  "handle_event ev news s l =
     (if \<not> ready l then Some (s, l)
      else do {
        (s, cs) \<leftarrow> handle_conns ev news (connections l) s (conns l);
        Some (s, l\<lparr>conns := cs\<rparr>)
      })"

text \<open>\<open>answer\<close> is what the socket of each connection says to the notice.\<close>

definition kill_connection :: "(addr \<Rightarrow> agc_status \<times> nat) \<Rightarrow> addr \<Rightarrow> event_connect \<Rightarrow> event_connect" where
  "kill_connection answer a c =
     (send_disconnect c (''The system is being shut down.'' @ [LF]) (answer a))\<lparr>is_running := False\<rparr>"

fun kill_loop :: "(addr \<Rightarrow> agc_status \<times> nat) \<Rightarrow> addr list \<Rightarrow> (addr \<Rightarrow> event_connect option) \<Rightarrow> (addr \<Rightarrow> event_connect option) option" where
  "kill_loop answer [] cs = Some cs"
| "kill_loop answer (a # as) cs = do {
     c \<leftarrow> cs a;
     kill_loop answer as (cs(a \<mapsto> kill_connection answer a c))
   }"

definition kill_connections :: "(addr \<Rightarrow> agc_status \<times> nat) \<Rightarrow> listener \<Rightarrow> listener option" where
  "kill_connections answer l = do { cs \<leftarrow> kill_loop answer (connections l) (conns l); Some (l\<lparr>conns := cs\<rparr>) }"

section \<open>Configuration, start and stop\<close>

datatype eventsocket_key = EVENTSOCKET_KEY_IP | EVENTSOCKET_KEY_PORT | EVENTSOCKET_KEY_UNKOWN

record socket_config =
  sc_iskey :: bool
  sc_keytype :: eventsocket_key
  sc_ip :: string
  sc_port :: "16 word"

text \<open>\<^verbatim>\<open>strcpy\<close> into the 64 bytes of \<^verbatim>\<open>profile.ip\<close>; an unknown key leaves \<^verbatim>\<open>keytype\<close> as it was.\<close>

definition config_token :: "yaml_token \<Rightarrow> socket_config \<Rightarrow> socket_config option" where
  "config_token t c = (case t of
     Key \<Rightarrow> Some (c\<lparr>sc_iskey := True\<rparr>)
   | Value \<Rightarrow> Some (c\<lparr>sc_iskey := False\<rparr>)
   | Scalar v \<Rightarrow>
       if sc_iskey c
       then Some (if v = ''ip'' then c\<lparr>sc_keytype := EVENTSOCKET_KEY_IP\<rparr>
                  else if v = ''port'' then c\<lparr>sc_keytype := EVENTSOCKET_KEY_PORT\<rparr> else c)
       else (case sc_keytype c of
               EVENTSOCKET_KEY_IP \<Rightarrow> if 64 < Suc (length v) then None else Some (c\<lparr>sc_ip := v\<rparr>)
             | EVENTSOCKET_KEY_PORT \<Rightarrow> Some (c\<lparr>sc_port := ucast (agc_atoui v)\<rparr>)
             | EVENTSOCKET_KEY_UNKOWN \<Rightarrow> Some c)
   | _ \<Rightarrow> Some c)"

text \<open>The tokens up to the end of the stream; their end before it is an error of the scanner.\<close>

fun config_tokens :: "yaml_token list \<Rightarrow> socket_config \<Rightarrow> (bool \<times> socket_config) option" where
  "config_tokens [] c = Some (True, c)"
| "config_tokens (t # ts) c = do {
     c \<leftarrow> config_token t c;
     if t = Stream_end then Some (False, c) else config_tokens ts c
   }"

definition load_configuration :: "yaml_token list \<Rightarrow> listener \<Rightarrow> (agc_status \<times> listener) option" where
  "load_configuration ts l = do {
     (err, c) \<leftarrow> config_tokens ts \<lparr>sc_iskey = False, sc_keytype = EVENTSOCKET_KEY_UNKOWN, sc_ip = [], sc_port = 0\<rparr>;
     Some (if err then AGC_STATUS_GENERR else AGC_STATUS_SUCCESS,
           l\<lparr>profile_ip := sc_ip c, profile_port := sc_port c, profile_done := False, threads := 0\<rparr>)
   }"

definition mod_eventsocket_load :: "yaml_token list \<Rightarrow> addr \<Rightarrow> addr \<Rightarrow> evsys \<Rightarrow> listener \<Rightarrow> (agc_status \<times> evsys \<times> listener) option" where
  "mod_eventsocket_load ts handler a s l = do {
     (status, l) \<leftarrow> load_configuration ts l;
     if status \<noteq> AGC_STATUS_SUCCESS then Some (AGC_STATUS_GENERR, s, l)
     else do {
       let l = l\<lparr>ready := False, connections := []\<rparr>;
       (status, s) \<leftarrow> agc_event_bind_removable s ''eventsocket'' EVENT_ID_ALL handler a;
       Some (if status \<noteq> AGC_STATUS_SUCCESS then AGC_STATUS_GENERR else AGC_STATUS_SUCCESS, s, l)
     }
   }"

end
