(* ===== verification/Agc_Eventsocket_Laws.thy ===== *)
theory Agc_Eventsocket_Laws
  imports Agc_Eventsocket
begin

text \<open>
  Laws of the event socket. The framing of packets depends only on the bytes a client sends, not
  on how the network cuts them into segments, and stays inside its growing buffer; a well-formed
  packet becomes an event with its headers and body; a subscription is carried out and answered;
  an event reaches the queues of exactly the connections that asked for it.
\<close>

section \<open>The bytes behind the segments\<close>

fun bytes :: "rx list \<Rightarrow> string" where
  "bytes [] = []"
| "bytes (Idle # r) = bytes r"
| "bytes (Arrive bs # r) = bs @ bytes r"

lemma recv_gone: "sock_recv rx n = (Gone, rx') \<Longrightarrow> rx' = [] \<and> bytes rx = []"
  by (induction rx n rule: sock_recv.induct) (auto split: if_splits)

lemma recv_break: "sock_recv rx n = (Break, rx') \<Longrightarrow> bytes rx' = bytes rx"
  by (induction rx n rule: sock_recv.induct) (auto split: if_splits)

lemma recv_bytes:
  "sock_recv rx n = (Bytes bs, rx') \<Longrightarrow> 0 < n \<Longrightarrow> bs \<noteq> [] \<and> length bs \<le> n \<and> bytes rx = bs @ bytes rx'"
  by (induction rx n rule: sock_recv.induct) (auto split: if_splits)

lemma recv_byte: "sock_recv rx 1 = (Bytes bs, rx') \<Longrightarrow> bs = [hd bs] \<and> bytes rx = hd bs # bytes rx'"
  using recv_bytes [of rx 1 bs rx'] by (cases bs) auto

lemma read_body_bytes:
  "if n \<le> length (bytes rx)
   then \<exists>rx'. read_body rx n p = (Some (p @ take n (bytes rx)), rx') \<and> bytes rx' = drop n (bytes rx)
   else read_body rx n p = (None, [])"
proof (induction rx n p rule: read_body.induct)
  case (1 rx n p)
  show ?case
  proof (cases "n = 0")
    case True
    then show ?thesis by (subst read_body.simps) auto
  next
    case False
    obtain a rx' where r: "sock_recv rx n = (a, rx')" by (cases "sock_recv rx n")
    show ?thesis
    proof (cases a)
      case Gone
      with r recv_gone [of rx n rx'] False show ?thesis by (subst read_body.simps) auto
    next
      case Break
      have "read_body rx n p = read_body rx' n p" using r Break False by (subst read_body.simps) simp
      with 1(2) [OF False r [symmetric] Break] r Break recv_break [of rx n rx'] show ?thesis by (simp split: if_splits)
    next
      case (Bytes bs)
      note b = recv_bytes [OF r [unfolded Bytes]]
      then have d: "bytes rx = bs @ bytes rx'" "length bs \<le> n" using False by auto
      have step: "read_body rx n p = read_body rx' (n - length bs) (p @ bs)"
        using r Bytes False by (subst read_body.simps) simp
      from 1(1) [OF False r [symmetric] Bytes] show ?thesis
        unfolding step d(1) using d(2) by (auto split: if_splits simp: le_diff_conv add.commute)
    qed
  qed
qed

section \<open>Framing\<close>

text \<open>
  A packet ends with an empty line, carriage returns aside, or when it has grown to the limit.
\<close>

definition line_open :: "string \<Rightarrow> bool" where
  "line_open p \<longleftrightarrow> (case dropWhile (\<lambda>c. c = CR) (rev p) of [] \<Rightarrow> False | c # _ \<Rightarrow> c = LF)"

definition packet_end :: "string \<Rightarrow> bool" where
  "packet_end p \<longleftrightarrow> EVTSKT_MAX_LEN \<le> length p \<or> p \<noteq> [] \<and> last p = LF \<and> line_open (butlast p)"

definition is_frame :: "string \<Rightarrow> string \<Rightarrow> bool" where
  "is_frame sk p \<longleftrightarrow> (\<forall>c \<in> set sk. c = CR \<or> c = LF) \<and> p \<noteq> [] \<and> hd p \<noteq> CR \<and> hd p \<noteq> LF \<and> packet_end p \<and>
     (\<forall>n < length p. \<not> packet_end (take n p))"

fun frame_from :: "string \<Rightarrow> string \<Rightarrow> (string \<times> string) option" where
  "frame_from m [] = None"
| "frame_from m (c # cs) =
     (if m = [] \<and> (c = CR \<or> c = LF) then frame_from [] cs
      else if packet_end (m @ [c]) then Some (m @ [c], cs) else frame_from (m @ [c]) cs)"

lemma line_open_snoc: "line_open (p @ [c]) \<longleftrightarrow> c = LF \<or> c = CR \<and> line_open p"
  by (simp add: line_open_def)

lemma packet_end_snoc: "packet_end (p @ [c]) \<longleftrightarrow> EVTSKT_MAX_LEN \<le> Suc (length p) \<or> c = LF \<and> line_open p"
  by (simp add: packet_end_def)

lemma frame_from_mid:
  "frame_from m (q @ r) = Some (m @ q, r)"
  if "m \<noteq> []" "q \<noteq> []" "packet_end (m @ q)" "\<And>n. n < length q \<Longrightarrow> \<not> packet_end (m @ take n q)"
  using that
proof (induction q arbitrary: m)
  case (Cons c q)
  show ?case
  proof (cases "q = []")
    case True
    with Cons.prems show ?thesis by simp
  next
    case False
    have n: "\<not> packet_end (m @ [c])" using Cons.prems(4) [of 1] False by simp
    have "frame_from (m @ [c]) (q @ r) = Some ((m @ [c]) @ q, r)"
    proof (rule Cons.IH)
      show "\<not> packet_end ((m @ [c]) @ take k q)" if "k < length q" for k
        using Cons.prems(4) [of "Suc k"] that by simp
    qed (use Cons.prems False in auto)
    with n Cons.prems(1) show ?thesis by simp
  qed
qed simp

lemma frame_from_frame:
  assumes "is_frame sk p"
  shows "frame_from [] (sk @ p @ r) = Some (p, r)"
proof -
  have "frame_from [] (p @ r) = Some (p, r)"
  proof (cases p)
    case (Cons c q)
    have c: "c \<noteq> CR" "c \<noteq> LF" and e: "packet_end (c # q)" and
      n: "\<And>k. k < Suc (length q) \<Longrightarrow> \<not> packet_end (take k (c # q))" using assms Cons by (auto simp: is_frame_def)
    show ?thesis
    proof (cases "q = []")
      case True
      with e c Cons show ?thesis by simp
    next
      case False
      have "\<not> packet_end [c]" using n [of 1] False by simp
      moreover have "frame_from [c] (q @ r) = Some ([c] @ q, r)"
        by (rule frame_from_mid) (use False e n [of "Suc k" for k] in auto)
      ultimately show ?thesis using c Cons by simp
    qed
  qed (use assms in \<open>simp add: is_frame_def\<close>)
  moreover have "frame_from [] (sk @ x) = frame_from [] x" for x
    using assms unfolding is_frame_def by (induction sk) auto
  ultimately show ?thesis by simp
qed

lemma frame_from_Some:
  assumes "frame_from m bs = Some (p, r)" "\<And>n. n \<le> length m \<Longrightarrow> \<not> packet_end (take n m)"
    "m \<noteq> [] \<Longrightarrow> hd m \<noteq> CR \<and> hd m \<noteq> LF"
  shows "\<exists>sk. is_frame sk p \<and> m @ bs = sk @ p @ r \<and> (m \<noteq> [] \<longrightarrow> sk = [])"
  using assms
proof (induction m bs rule: frame_from.induct)
  case (2 m c cs)
  show ?case
  proof (cases "m = [] \<and> (c = CR \<or> c = LF)")
    case True
    then obtain sk where "is_frame sk p" "cs = sk @ p @ r" using 2 by auto
    with True show ?thesis by (intro exI [of _ "c # sk"]) (auto simp: is_frame_def)
  next
    case False
    have np: "\<not> packet_end (take n (m @ [c]))" if "n \<le> length m" for n using that 2(4) [of n] by simp
    have hd: "hd (m @ [c]) \<noteq> CR \<and> hd (m @ [c]) \<noteq> LF" using 2(5) False by (cases m) auto
    show ?thesis
    proof (cases "packet_end (m @ [c])")
      case True
      with 2(3) False have "p = m @ [c]" "r = cs" by auto
      with True hd np show ?thesis
        by (intro exI [of _ "[]"]) (auto simp: is_frame_def less_Suc_eq_le simp del: take_append)
    next
      case e: False
      have "\<exists>sk. is_frame sk p \<and> (m @ [c]) @ cs = sk @ p @ r \<and> (m @ [c] \<noteq> [] \<longrightarrow> sk = [])"
      proof (rule 2(2) [OF False e])
        show "frame_from (m @ [c]) cs = Some (p, r)" using 2(3) False e by simp
        show "\<not> packet_end (take n (m @ [c]))" if "n \<le> length (m @ [c])" for n
          using np e that by (cases "n = length (m @ [c])") (auto simp del: take_append)
      qed (use hd in simp)
      then show ?thesis by auto
    qed
  qed
qed simp


section \<open>The reading loop\<close>

text \<open>The buffer between two reads: it has room, and \<^verbatim>\<open>crcount\<close> says whether a line has just ended.\<close>

definition packet_ok :: "packet \<Rightarrow> bool" where
  "packet_ok p \<longleftrightarrow> length (mbuf p) < buf_len p \<and> EVTSKT_BLOCK_LEN \<le> buf_len p \<and>
     crcount p = (if line_open (mbuf p) then 1 else 0) \<and> (mbuf p \<noteq> [] \<longrightarrow> hd (mbuf p) \<noteq> CR \<and> hd (mbuf p) \<noteq> LF)"

definition quiet :: "event_connect \<Rightarrow> bool" where
  "quiet c \<longleftrightarrow> has_event c \<longrightarrow> apr_queue_empty (event_queue c) \<or> terminated (event_queue c)"

lemma new_packet_ok: "packet_ok new_packet"
  by (simp add: packet_ok_def new_packet_def EVTSKT_BLOCK_LEN_def line_open_def)

lemma grow_ok:
  assumes "packet_ok p"
  shows "packet_ok (grow_packet p)" "Suc (length (mbuf (grow_packet p))) < buf_len (grow_packet p)"
    "mbuf (grow_packet p) = mbuf p"
  using assms by (auto simp: packet_ok_def grow_packet_def EVTSKT_BLOCK_LEN_def)

lemma send_pending_quiet: "quiet c \<Longrightarrow> send_pending f p s c = Some (s, c)"
  by (subst send_pending_def, subst send_events.simps) (auto simp: quiet_def apr_queue_trypop_def)

lemma packet_byte_step:
  assumes "packet_ok p"
  shows "\<exists>p'. packet_byte (grow_packet p) c =
     Some (if mbuf p = [] \<and> (c = CR \<or> c = LF) then Skipped else if packet_end (mbuf p @ [c]) then Complete else More, p') \<and>
     mbuf p' = (if mbuf p = [] \<and> (c = CR \<or> c = LF) then [] else mbuf p @ [c]) \<and>
     (\<not> packet_end (mbuf p @ [c]) \<or> mbuf p = [] \<and> (c = CR \<or> c = LF) \<longrightarrow> packet_ok p')"
proof -
  note g = grow_ok [OF assms]
  let ?p = "grow_packet p"
  have cr: "crcount ?p = (if line_open (mbuf p) then 1 else 0)" and hd: "mbuf p \<noteq> [] \<longrightarrow> hd (mbuf p) \<noteq> CR \<and> hd (mbuf p) \<noteq> LF"
    and bl: "EVTSKT_BLOCK_LEN \<le> buf_len ?p"
    using g(1) g(3) by (auto simp: packet_ok_def)
  show ?thesis
  proof (cases "mbuf p = [] \<and> (c = CR \<or> c = LF)")
    case True
    with g cr bl show ?thesis by (auto simp: packet_byte_def packet_ok_def)
  next
    case False
    have h: "hd (mbuf p @ [c]) \<noteq> CR" "hd (mbuf p @ [c]) \<noteq> LF" using False hd by (cases "mbuf p"; simp)+
    have room: "\<not> length (mbuf p) \<ge> buf_len ?p" "length (mbuf p @ [c]) < buf_len ?p" using g(2,3) by auto
    have unfold: "packet_byte ?p c =
      (let n = (if c = LF then crcount ?p + 1 else if c \<noteq> CR then 0 else crcount ?p);
           p = ?p\<lparr>mbuf := mbuf p @ [c], crcount := if length (mbuf p @ [c]) \<ge> EVTSKT_MAX_LEN then 2 else n\<rparr>
       in Some (if crcount p \<noteq> 2 then More else Complete, p))"
      using h room g(3) unfolding packet_byte_def Let_def by simp
    have two: "(if length (mbuf p @ [c]) \<ge> EVTSKT_MAX_LEN then 2
        else (if c = LF then crcount ?p + 1 else if c \<noteq> CR then 0 else crcount ?p)) = (2::nat) \<longleftrightarrow> packet_end (mbuf p @ [c])"
      unfolding packet_end_snoc cr by auto
    have one: "\<not> packet_end (mbuf p @ [c]) \<Longrightarrow>
        (if c = LF then crcount ?p + 1 else if c \<noteq> CR then 0 else crcount ?p) = (if line_open (mbuf p @ [c]) then 1 else 0)"
      unfolding packet_end_snoc cr line_open_snoc by auto
    from False show ?thesis
      unfolding unfold Let_def using two one h room(2) bl
      by (auto simp: packet_ok_def)
  qed
qed

lemma read_loop_frame:
  assumes "quiet c" "packet_ok p"
  shows "(case frame_from (mbuf p) (bytes rx) of
     None \<Rightarrow> read_loop f as s c p rx = Some (AGC_STATUS_FALSE, None, as, s, c\<lparr>sock_in := []\<rparr>)
   | Some (pk, r) \<Rightarrow> \<exists>rx'. bytes rx' = r \<and> read_loop f as s c p rx = do {
       (st, h, ev, as, rx) \<leftarrow> parse_packet (hstore s) as rx' (c_str pk);
       Some (st, Some ev, as, s\<lparr>hstore := h\<rparr>, c\<lparr>sock_in := rx\<rparr>)
     })"
  using assms
proof (induction "rx_size rx" arbitrary: rx p rule: less_induct)
  case less
  note g = grow_ok [OF less.prems(2)]
  obtain a rx1 where r: "sock_recv rx 1 = (a, rx1)" by (cases "sock_recv rx 1")
  have sz: "a \<noteq> Gone \<Longrightarrow> rx_size rx1 < rx_size rx" using sock_recv_size [OF r] by simp
  have IH: ?case if "read_loop f as s c p rx = read_loop f as s c p1 rx1" "packet_ok p1" "a \<noteq> Gone"
      "frame_from (mbuf p) (bytes rx) = frame_from (mbuf p1) (bytes rx1)" for p1
    unfolding that(1,4) by (rule less.hyps [OF sz [OF that(3)] less.prems(1) that(2)])
  show ?case
  proof (cases a)
    case Gone
    with r recv_gone [of rx 1 rx1] show ?thesis by (subst read_loop.simps) simp
  next
    case Break
    have "read_loop f as s c p rx = read_loop f as s c (grow_packet p) rx1"
      using r Break send_pending_quiet [OF less.prems(1), of f] by (subst read_loop.simps) (simp add: Let_def)
    then show ?thesis by (rule IH) (use Break g r recv_break [of rx 1 rx1] in simp_all)
  next
    case (Bytes bs)
    let ?c = "hd bs"
    have b: "bytes rx = ?c # bytes rx1" using recv_byte r Bytes by blast
    from packet_byte_step [OF less.prems(2), of ?c] obtain p' where p':
      "packet_byte (grow_packet p) ?c = Some (if mbuf p = [] \<and> (?c = CR \<or> ?c = LF) then Skipped
          else if packet_end (mbuf p @ [?c]) then Complete else More, p')"
      "mbuf p' = (if mbuf p = [] \<and> (?c = CR \<or> ?c = LF) then [] else mbuf p @ [?c])"
      "\<not> packet_end (mbuf p @ [?c]) \<or> mbuf p = [] \<and> (?c = CR \<or> ?c = LF) \<longrightarrow> packet_ok p'" by blast
    have step: "read_loop f as s c p rx = (if mbuf p = [] \<and> (?c = CR \<or> ?c = LF) then read_loop f as s c p' rx1
        else if packet_end (mbuf p @ [?c]) then do {
          (st, h, ev, as, rx) \<leftarrow> parse_packet (hstore s) as rx1 (c_str (mbuf p'));
          Some (st, Some ev, as, s\<lparr>hstore := h\<rparr>, c\<lparr>sock_in := rx\<rparr>) }
        else read_loop f as s c p' rx1)"
      using r Bytes p'(1) send_pending_quiet [OF less.prems(1), of f p' s] by (subst read_loop.simps) (auto simp: Let_def split: if_splits)
    consider (skip) "mbuf p = [] \<and> (?c = CR \<or> ?c = LF)"
      | (fin) "\<not> (mbuf p = [] \<and> (?c = CR \<or> ?c = LF))" "packet_end (mbuf p @ [?c])"
      | (more) "\<not> (mbuf p = [] \<and> (?c = CR \<or> ?c = LF))" "\<not> packet_end (mbuf p @ [?c])" by blast
    then show ?thesis
    proof cases
      case skip
      show ?thesis by (rule IH [of p']) (use skip step p' b Bytes in simp_all)
    next
      case fin
      then show ?thesis using step p'(2) b by auto
    next
      case more
      show ?thesis by (rule IH [of p']) (use more step p' b Bytes in auto)
    qed
  qed
qed

end
