(* ===== verification/Agc_Eventsocket_Packets.thy ===== *)
theory Agc_Eventsocket_Packets
  imports Agc_Eventsocket_Laws Agc_Event_Registry
begin

text \<open>
  Requests of a client of the event socket: the text of a request, with its headers and body, is
  read back as an event with exactly these, however the network cuts it into segments. A request
  with a repeated header name makes the list of headers cyclic and the thread of the connection
  never returns.
\<close>

section \<open>Requests\<close>

type_synonym request = "string \<times> fields \<times> string option"

definition line_text :: "string \<Rightarrow> bool" where
  "line_text l \<longleftrightarrow> CR \<notin> set l \<and> LF \<notin> set l \<and> NUL \<notin> set l"

definition header_ok :: "string \<times> string \<Rightarrow> bool" where
  "header_ok p \<longleftrightarrow> (case p of (n, v) \<Rightarrow> n \<noteq> [] \<and> line_text n \<and> CHR '':'' \<notin> set n \<and> line_text v \<and> (v = [] \<or> hd v \<noteq> CHR '' ''))"

definition header_text :: "fields \<Rightarrow> string" where
  "header_text hs = concat (map (\<lambda>(n, v). n @ '': '' @ v @ [LF]) hs)"

definition packet_text :: "string \<Rightarrow> fields \<Rightarrow> string" where
  "packet_text cmd hs = cmd @ LF # header_text hs @ [LF]"

definition length_fields :: "string option \<Rightarrow> fields" where
  "length_fields b = (case b of None \<Rightarrow> [] | Some t \<Rightarrow> [(''Content-Length'', nat_str (length t))])"

fun request_head :: "request \<Rightarrow> string" where
  "request_head (cmd, hs, b) = packet_text cmd (hs @ length_fields b)"

fun request_text :: "request \<Rightarrow> string" where
  "request_text (cmd, hs, b) = request_head (cmd, hs, b) @ (case b of None \<Rightarrow> [] | Some t \<Rightarrow> t)"

fun request_ok :: "request \<Rightarrow> bool" where
  "request_ok (cmd, hs, b) \<longleftrightarrow> cmd \<noteq> [] \<and> line_text cmd \<and> (\<forall>p \<in> set hs. header_ok p) \<and>
     length (request_head (cmd, hs, b)) \<le> EVTSKT_MAX_LEN \<and>
     apart (''command'' # ''Content-Length'' # map fst hs) \<and>
     (case b of None \<Rightarrow> True | Some t \<Rightarrow> t \<noteq> [] \<and> NUL \<notin> set t \<and> length t < 2 ^ 31 - 1)"

lemma header_text_simps [simp]:
  "header_text [] = []" "header_text ((n, v) # hs) = n @ '': '' @ v @ LF # header_text hs"
  by (simp_all add: header_text_def)

lemma header_text_append: "header_text (hs @ ks) = header_text hs @ header_text ks"
  by (simp add: header_text_def)

section \<open>The frame of a request\<close>

lemma frame_from_chars:
  "line_text l \<Longrightarrow> length m + length l < EVTSKT_MAX_LEN \<Longrightarrow> frame_from m (l @ r) = frame_from (m @ l) r"
proof (induction l arbitrary: m)
  case (Cons c l)
  then have "\<not> packet_end (m @ [c])" "c \<noteq> CR" "c \<noteq> LF" by (auto simp: packet_end_snoc line_text_def)
  with Cons.IH [of "m @ [c]"] Cons.prems show ?case by (simp add: line_text_def)
qed simp

lemma line_open_text: "l \<noteq> [] \<Longrightarrow> line_text l \<Longrightarrow> \<not> line_open (m @ l)"
  by (cases l rule: rev_cases) (auto simp: line_open_snoc line_text_def simp flip: append_assoc)

lemma frame_from_line:
  assumes "line_text l" "l \<noteq> []" "length m + length l + 1 < EVTSKT_MAX_LEN"
  shows "frame_from m (l @ LF # r) = frame_from (m @ l @ [LF]) r"
proof -
  have "\<not> packet_end ((m @ l) @ [LF])"
    unfolding packet_end_snoc using assms line_open_text [of l m] by simp
  with frame_from_chars [of l m "LF # r"] assms show ?thesis by simp
qed

lemma header_line_text: "header_ok (n, v) \<Longrightarrow> line_text (n @ '': '' @ v)"
  by (auto simp: header_ok_def line_text_def)

lemma frame_from_headers:
  "\<forall>p \<in> set hs. header_ok p \<Longrightarrow> length m + length (header_text hs) < EVTSKT_MAX_LEN \<Longrightarrow>
     frame_from m (header_text hs @ r) = frame_from (m @ header_text hs) r"
proof (induction hs arbitrary: m)
  case (Cons p hs)
  obtain n v where p: "p = (n, v)" by (cases p)
  have "frame_from m ((n @ '': '' @ v) @ LF # header_text hs @ r) = frame_from (m @ (n @ '': '' @ v) @ [LF]) (header_text hs @ r)"
    by (rule frame_from_line) (use Cons.prems p header_line_text [of n v] in auto)
  with Cons.IH [of "m @ (n @ '': '' @ v) @ [LF]"] Cons.prems p show ?case by simp
qed simp

lemma frame_packet_text:
  assumes "cmd \<noteq> []" "line_text cmd" "\<forall>p \<in> set hs. header_ok p" "length (packet_text cmd hs) \<le> EVTSKT_MAX_LEN"
  shows "frame_from [] (packet_text cmd hs @ r) = Some (packet_text cmd hs, r)"
proof -
  let ?m = "cmd @ [LF]" and ?t = "header_text hs"
  have len: "length cmd + length ?t + 2 \<le> EVTSKT_MAX_LEN" using assms(4) by (simp add: packet_text_def)
  have "frame_from [] (cmd @ LF # ?t @ LF # r) = frame_from ?m (?t @ LF # r)"
    using frame_from_line [OF assms(2,1), of "[]"] len by simp
  also have "\<dots> = frame_from (?m @ ?t) (LF # r)" by (rule frame_from_headers) (use assms len in auto)
  also have "\<dots> = Some (?m @ ?t @ [LF], r)"
  proof -
    have "line_open (?m @ ?t)"
    proof (cases hs rule: rev_cases)
      case Nil
      then show ?thesis by (simp add: line_open_snoc)
    next
      case (snoc ks p)
      then obtain n v where "hs = ks @ [(n, v)]" by (cases p) auto
      then have "?m @ ?t = (?m @ header_text ks @ n @ '': '' @ v) @ [LF]" by (simp add: header_text_append)
      then show ?thesis by (simp only: line_open_snoc) simp
    qed
    then have "packet_end ((?m @ ?t) @ [LF])" unfolding packet_end_snoc by simp
    then show ?thesis by simp
  qed
  finally show ?thesis by (simp add: packet_text_def)
qed

section \<open>The headers of a request\<close>

lemma no_cr: "CR \<notin> set s \<Longrightarrow> strip_cr s = takeWhile (\<lambda>c. c \<noteq> LF) s"
  "CR \<notin> set s \<Longrightarrow> next_line s = (let r = dropWhile (\<lambda>c. c \<noteq> LF) s in if r = [] then None else Some (dropWhile (\<lambda>c. c = CR \<or> c = LF) r))"
  by (simp_all add: strip_cr_def next_line_def)

lemma strip_cr_line: "line_text l \<Longrightarrow> CR \<notin> set r \<Longrightarrow> strip_cr (l @ LF # r) = l"
proof -
  assume l: "line_text l" and "CR \<notin> set r"
  then have "strip_cr (l @ LF # r) = takeWhile (\<lambda>c. c \<noteq> LF) (l @ LF # r)" by (intro no_cr) (auto simp: line_text_def)
  also have "\<dots> = l" using l by (subst takeWhile_append2) (auto simp: line_text_def)
  finally show ?thesis .
qed

lemma next_line_line: "line_text l \<Longrightarrow> CR \<notin> set r \<Longrightarrow> next_line (l @ LF # r) = Some (dropWhile (\<lambda>c. c = CR \<or> c = LF) r)"
proof -
  assume l: "line_text l" and "CR \<notin> set r"
  then have "next_line (l @ LF # r) = (let r' = dropWhile (\<lambda>c. c \<noteq> LF) (l @ LF # r) in
      if r' = [] then None else Some (dropWhile (\<lambda>c. c = CR \<or> c = LF) r'))" by (intro no_cr) (auto simp: line_text_def)
  moreover have "dropWhile (\<lambda>c. c \<noteq> LF) (l @ LF # r) = LF # r"
    using l by (subst dropWhile_append2) (auto simp: line_text_def)
  ultimately show ?thesis by simp
qed

lemma headers_no_cr: "\<forall>p \<in> set hs. header_ok p \<Longrightarrow> CR \<notin> set (header_text hs) \<and> NUL \<notin> set (header_text hs)"
  by (induction hs) (auto simp: header_ok_def line_text_def)

text \<open>Where the loop over the lines stands before the headers \<open>hs\<close>.\<close>

definition lines_of :: "fields \<Rightarrow> string" where
  "lines_of hs = (if hs = [] then [] else header_text hs @ [LF])"

lemma lines_of_next:
  assumes "line_text l" "\<forall>p \<in> set hs. header_ok p"
  shows "next_line (l @ LF # header_text hs @ [LF]) = Some (lines_of hs)"
proof -
  have "next_line (l @ LF # header_text hs @ [LF]) = Some (dropWhile (\<lambda>c. c = CR \<or> c = LF) (header_text hs @ [LF]))"
    using next_line_line [OF assms(1)] headers_no_cr [OF assms(2)] by auto
  also have "dropWhile (\<lambda>c. c = CR \<or> c = LF) (header_text hs @ [LF]) = lines_of hs"
  proof (cases hs)
    case (Cons p ks)
    obtain n v where p: "p = (n, v)" by (cases p)
    have "header_ok (n, v)" using assms(2) Cons p by simp
    then obtain c cs where "n = c # cs" "c \<noteq> CR" "c \<noteq> LF" by (cases n) (auto simp: header_ok_def line_text_def)
    with Cons p show ?thesis by (simp add: lines_of_def)
  qed (simp add: lines_of_def)
  finally show ?thesis .
qed

definition clen :: "string \<times> string \<Rightarrow> nat" where
  "clen p = (if strcasecmp_eq (fst p) ''content-length'' then nat (c_atoi (snd p)) else 0)"

lemma header_value: "v = [] \<or> hd v \<noteq> CHR '' '' \<Longrightarrow> dropWhile (\<lambda>c. c = CHR '' '') (CHR '' '' # v) = v"
  by (cases v) auto

lemma header_line_unfold:
  assumes "header_ok (n, v)" "CR \<notin> set r"
  shows "header_line h ev as rx (n @ '': '' @ v @ LF # r) = do {
     (_, h, ev) \<leftarrow> agc_event_add_header_string h ev (hd as) n (Some v);
     if clen (n, v) = 0 then Some (True, h, ev, tl as, rx)
     else if 2 ^ 31 \<le> clen (n, v) + 1 then None
     else (case read_body rx (clen (n, v)) [] of
         (None, rx) \<Rightarrow> Some (False, h, ev, tl as, rx)
       | (Some b, rx) \<Rightarrow> Some (True, h, ev\<lparr>body := Some (c_str b)\<rparr>, tl as, rx))
   }"
proof -
  have "strip_cr ((n @ '': '' @ v) @ LF # r) = n @ '': '' @ v"
    by (rule strip_cr_line [OF header_line_text [OF assms(1)] assms(2)])
  then have s: "strip_cr (n @ CHR '':'' # CHR '' '' # v @ LF # r) = n @ CHR '':'' # CHR '' '' # v" by simp
  have c: "cut_first (CHR '':'') (n @ CHR '':'' # CHR '' '' # v) = (n, Some (CHR '' '' # v))"
    using assms(1) by (intro cut_first_join) (simp add: header_ok_def)
  have d: "dropWhile (\<lambda>c. c = CHR '' '') (CHR '' '' # v) = v" using assms(1) by (intro header_value) (simp add: header_ok_def)
  have k: "(strcasecmp_eq n ''content-length'' \<and> c_atoi v > 0) = (clen (n, v) \<noteq> 0)"
    "strcasecmp_eq n ''content-length'' \<and> c_atoi v > 0 \<Longrightarrow> nat (c_atoi v) = clen (n, v) \<and> c_atoi v = int (clen (n, v))"
    by (auto simp: clen_def)
  show ?thesis
    by (cases "agc_event_add_header_string h ev (hd as) n (Some v)")
      (use s c d k in \<open>auto simp: header_line_def Let_def agc_event_add_body_def simp del: dropWhile.simps split: prod.split option.split\<close>)
qed

lemma header_line_ok:
  assumes "event_ok h ev ys" "a \<notin> hlive h" "a \<noteq> NULL" "\<forall>y \<in> set ys. \<not> strcasecmp_eq (hname h y) n"
    and "header_ok (n, v)" "CR \<notin> set r" "clen (n, v) \<le> length (bytes rx)" "clen (n, v) < 2 ^ 31 - 1"
  shows "\<exists>h' ev' rx'. header_line h ev (a # as) rx (n @ '': '' @ v @ LF # r) = Some (True, h', ev', as, rx') \<and>
     event_ok h' ev' (ys @ [a]) \<and> kvs h' (ys @ [a]) = kvs h ys @ [(n, Some v)] \<and> hlive h' = insert a (hlive h) \<and>
     outside_same (insert a (set ys)) h h' \<and> bytes rx' = drop (clen (n, v)) (bytes rx) \<and>
     body ev' = (if clen (n, v) = 0 then body ev else Some (c_str (take (clen (n, v)) (bytes rx)))) \<and>
     event_id ev' = event_id ev \<and> source_id ev' = source_id ev"
proof -
  from append_header [OF assms(1-3), of n v] add_header_new [OF assms(1,4), of a v]
  obtain h1 ev1 where ad: "agc_event_base_add_header h ev a n v = Some (h1, ev1)" and
    ok: "event_ok h1 ev1 (ys @ [a])" "kvs h1 (ys @ [a]) = kvs h ys @ [(n, Some v)]"
    "hlive h1 = insert a (hlive h)" "outside_same (insert a (set ys)) h h1" "same_event ev ev1" by auto
  note se = same_event_fields [OF ok(5)]
  note line = header_line_unfold [OF assms(5,6), of h ev "a # as" rx]
  show ?thesis
  proof (cases "clen (n, v) = 0")
    case True
    then show ?thesis using line ad ok se by (auto simp: agc_event_add_header_string_def)
  next
    case False
    from read_body_bytes [of "clen (n, v)" rx "[]"] assms(7) obtain rx' where
      "read_body rx (clen (n, v)) [] = (Some (take (clen (n, v)) (bytes rx)), rx')" "bytes rx' = drop (clen (n, v)) (bytes rx)"
      by auto
    then show ?thesis using line ad ok se False assms(8) by (auto simp: agc_event_add_header_string_def event_ok_def)
  qed
qed

fun body_after :: "string option \<Rightarrow> string \<Rightarrow> fields \<Rightarrow> string option" where
  "body_after b bs [] = b"
| "body_after b bs (p # hs) =
     body_after (if clen p = 0 then b else Some (c_str (take (clen p) bs))) (drop (clen p) bs) hs"

lemma header_lines_prefix:
  "\<forall>p \<in> set hs. header_ok p \<and> clen p < 2 ^ 31 - 1 \<Longrightarrow> event_ok h ev ys \<Longrightarrow>
   apart (map fst (kvs h ys) @ map fst hs) \<Longrightarrow> sum_list (map clen hs) \<le> length (bytes rx) \<Longrightarrow>
   length as = length hs \<Longrightarrow> distinct as \<Longrightarrow> NULL \<notin> set as \<Longrightarrow> set as \<inter> hlive h = {} \<Longrightarrow> \<forall>p \<in> set ls. header_ok p \<Longrightarrow>
   \<exists>h' ev' rx'. header_lines h ev (as @ bs) rx (Some (lines_of (hs @ ls))) = header_lines h' ev' bs rx' (Some (lines_of ls)) \<and>
     event_ok h' ev' (ys @ as) \<and> kvs h' (ys @ as) = kvs h ys @ values_of hs \<and> hlive h' = hlive h \<union> set as \<and>
     outside_same (set ys \<union> set as) h h' \<and> bytes rx' = drop (sum_list (map clen hs)) (bytes rx) \<and>
     body ev' = body_after (body ev) (bytes rx) hs \<and> event_id ev' = event_id ev \<and> source_id ev' = source_id ev"
proof (induction hs arbitrary: h ev ys as rx)
  case Nil
  then show ?case by (intro exI [of _ h] exI [of _ ev] exI [of _ rx]) (simp add: outside_same_refl)
next
  case (Cons p hs)
  obtain n v where p: "p = (n, v)" by (cases p)
  from Cons.prems(5) obtain a as' where as: "as = a # as'" by (cases as) auto
  have a: "a \<notin> hlive h" "a \<noteq> NULL" using Cons.prems(7,8) as by auto
  have hk: "header_ok (n, v)" "clen (n, v) < 2 ^ 31 - 1" using Cons.prems(1) p by auto
  have hks: "\<forall>q \<in> set (hs @ ls). header_ok q" using Cons.prems(1,9) by auto
  have new: "\<forall>y \<in> set ys. \<not> strcasecmp_eq (hname h y) n"
    using Cons.prems(3) p by (auto simp: apart_def sorted_wrt_append kvs_def)
  have ncr: "CR \<notin> set (header_text (hs @ ls) @ [LF])" using headers_no_cr [OF hks] by auto
  have le: "clen (n, v) \<le> length (bytes rx)" using Cons.prems(4) p by simp
  from header_line_ok [OF Cons.prems(2) a new hk(1) ncr le hk(2), of "as' @ bs"] obtain h1 ev1 rx1 where
    l: "header_line h ev (as @ bs) rx (n @ '': '' @ v @ LF # header_text (hs @ ls) @ [LF]) = Some (True, h1, ev1, as' @ bs, rx1)" and
    ok: "event_ok h1 ev1 (ys @ [a])" "kvs h1 (ys @ [a]) = kvs h ys @ [(n, Some v)]" "hlive h1 = insert a (hlive h)"
      "outside_same (insert a (set ys)) h h1" and
    b1: "bytes rx1 = drop (clen (n, v)) (bytes rx)" and
    f1: "body ev1 = (if clen (n, v) = 0 then body ev else Some (c_str (take (clen (n, v)) (bytes rx))))"
      "event_id ev1 = event_id ev" "source_id ev1 = source_id ev" using as by auto
  have lo: "lines_of (p # hs @ ls) = n @ '': '' @ v @ LF # header_text (hs @ ls) @ [LF]" by (simp add: lines_of_def p)
  have "next_line (lines_of (p # hs @ ls)) = Some (lines_of (hs @ ls))"
    using lines_of_next [OF header_line_text [OF hk(1)] hks] lo by simp
  with l have step: "header_lines h ev (as @ bs) rx (Some (lines_of (p # hs @ ls))) = header_lines h1 ev1 (as' @ bs) rx1 (Some (lines_of (hs @ ls)))"
    unfolding lo by simp
  have "\<exists>h' ev' rx'. header_lines h1 ev1 (as' @ bs) rx1 (Some (lines_of (hs @ ls))) = header_lines h' ev' bs rx' (Some (lines_of ls)) \<and>
     event_ok h' ev' ((ys @ [a]) @ as') \<and> kvs h' ((ys @ [a]) @ as') = kvs h1 (ys @ [a]) @ values_of hs \<and>
     hlive h' = hlive h1 \<union> set as' \<and> outside_same (set (ys @ [a]) \<union> set as') h1 h' \<and>
     bytes rx' = drop (sum_list (map clen hs)) (bytes rx1) \<and>
     body ev' = body_after (body ev1) (bytes rx1) hs \<and> event_id ev' = event_id ev1 \<and> source_id ev' = source_id ev1"
    by (rule Cons.IH [OF _ ok(1)]) (use Cons.prems p as ok(2,3) b1 in \<open>auto simp: apart_def\<close>)
  then obtain h' ev' rx' where
    r: "header_lines h1 ev1 (as' @ bs) rx1 (Some (lines_of (hs @ ls))) = header_lines h' ev' bs rx' (Some (lines_of ls))"
    "event_ok h' ev' (ys @ as)" "kvs h' (ys @ as) = kvs h ys @ values_of (p # hs)" "hlive h' = hlive h \<union> set as"
    "outside_same (set ys \<union> set as) h1 h'" "bytes rx' = drop (sum_list (map clen hs)) (bytes rx1)"
    "body ev' = body_after (body ev1) (bytes rx1) hs" "event_id ev' = event_id ev" "source_id ev' = source_id ev"
    using ok(2,3) p as f1(2,3) by (auto simp: insert_commute)
  have "outside_same (set ys \<union> set as) h h'"
    using outside_same_trans [OF ok(4) r(5)] as by (auto elim: outside_same_mono)
  moreover have "bytes rx' = drop (sum_list (map clen (p # hs))) (bytes rx)" using r(6) b1 p by (simp add: add.commute)
  moreover have "body ev' = body_after (body ev) (bytes rx) (p # hs)" using r(7) f1(1) b1 p by simp
  ultimately show ?case using r step by (intro exI [of _ h'] exI [of _ ev'] exI [of _ rx']) simp
qed

lemma header_lines_end: "header_lines h ev as rx (Some (lines_of [])) = Some (AGC_STATUS_SUCCESS, h, ev, as, rx)"
  by (simp add: lines_of_def header_line_def strip_cr_def next_line_def)

text \<open>A packet as a whole: its first header is the text itself.\<close>

lemma parse_packet_prefix:
  assumes "line_text cmd" "\<forall>p \<in> set hs. header_ok p \<and> clen p < 2 ^ 31 - 1" "apart (''command'' # map fst hs)"
    and "sum_list (map clen hs) \<le> length (bytes rx)"
    and "length as = Suc (length hs)" "distinct as" "NULL \<notin> set as" "set as \<inter> hlive h = {}" "\<forall>p \<in> set ls. header_ok p"
  shows "\<exists>h' ev' rx'. parse_packet h (as @ bs) rx (packet_text cmd (hs @ ls)) = header_lines h' ev' bs rx' (Some (lines_of ls)) \<and>
     event_ok h' ev' as \<and> kvs h' as = (''command'', Some (packet_text cmd (hs @ ls))) # values_of hs \<and> hlive h' = hlive h \<union> set as \<and>
     outside_same (set as) h h' \<and> bytes rx' = drop (sum_list (map clen hs)) (bytes rx) \<and>
     body ev' = body_after None (bytes rx) hs \<and> event_id ev' = EVENT_ID_EVENTSOCKET \<and> source_id ev' = 0"
proof -
  let ?e = "agc_event_create EVENT_ID_EVENTSOCKET 0" and ?t = "packet_text cmd (hs @ ls)"
  from assms(5) obtain a as' where as: "as = a # as'" by (cases as) auto
  have e0: "event_ok h ?e []" by (simp add: event_ok_def agc_event_create_def)
  have a: "a \<notin> hlive h" "a \<noteq> NULL" using assms(7,8) as by auto
  from append_header [OF e0 a, of "''command''" ?t] add_header_new [OF e0, of "''command''" a ?t]
  obtain h1 ev1 where ad: "agc_event_base_add_header h ?e a ''command'' ?t = Some (h1, ev1)" and
    ok: "event_ok h1 ev1 [a]" "kvs h1 [a] = [(''command'', Some ?t)]"
      "hlive h1 = insert a (hlive h)" "outside_same {a} h h1" "same_event ?e ev1" by (auto simp: kvs_def)
  have "next_line ?t = Some (lines_of (hs @ ls))"
    unfolding packet_text_def by (rule lines_of_next) (use assms in auto)
  then have step: "parse_packet h (as @ bs) rx ?t = header_lines h1 ev1 (as' @ bs) rx (Some (lines_of (hs @ ls)))"
    using ad as by (simp add: parse_packet_def agc_event_add_header_string_def)
  have "\<exists>h' ev' rx'. header_lines h1 ev1 (as' @ bs) rx (Some (lines_of (hs @ ls))) = header_lines h' ev' bs rx' (Some (lines_of ls)) \<and>
     event_ok h' ev' ([a] @ as') \<and> kvs h' ([a] @ as') = kvs h1 [a] @ values_of hs \<and> hlive h' = hlive h1 \<union> set as' \<and>
     outside_same (set [a] \<union> set as') h1 h' \<and> bytes rx' = drop (sum_list (map clen hs)) (bytes rx) \<and>
     body ev' = body_after (body ev1) (bytes rx) hs \<and> event_id ev' = event_id ev1 \<and> source_id ev' = source_id ev1"
    by (rule header_lines_prefix [OF assms(2) ok(1)]) (use ok(2,3) assms(3-9) as in \<open>auto simp: apart_def\<close>)
  then obtain h' ev' rx' where
    r: "header_lines h1 ev1 (as' @ bs) rx (Some (lines_of (hs @ ls))) = header_lines h' ev' bs rx' (Some (lines_of ls))"
    "event_ok h' ev' as" "kvs h' as = (''command'', Some ?t) # values_of hs" "hlive h' = hlive h1 \<union> set as'"
    "outside_same (set as) h1 h'" "bytes rx' = drop (sum_list (map clen hs)) (bytes rx)"
    "body ev' = body_after (body ev1) (bytes rx) hs" "event_id ev' = event_id ev1" "source_id ev' = source_id ev1"
    using ok(2) as by auto
  have "outside_same (set as) h h'" using outside_same_trans [OF ok(4) r(5)] as by (auto elim: outside_same_mono)
  then show ?thesis using r step ok(3) same_event_fields [OF ok(5)] as
    by (intro exI [of _ h'] exI [of _ ev'] exI [of _ rx']) (simp add: agc_event_create_def)
qed

lemma parse_packet_ok:
  assumes "line_text cmd" "\<forall>p \<in> set hs. header_ok p \<and> clen p < 2 ^ 31 - 1" "apart (''command'' # map fst hs)"
    and "sum_list (map clen hs) \<le> length (bytes rx)"
    and "length as = Suc (length hs)" "distinct as" "NULL \<notin> set as" "set as \<inter> hlive h = {}"
  shows "\<exists>h' ev' rx'. parse_packet h (as @ bs) rx (packet_text cmd hs) = Some (AGC_STATUS_SUCCESS, h', ev', bs, rx') \<and>
     event_ok h' ev' as \<and> kvs h' as = (''command'', Some (packet_text cmd hs)) # values_of hs \<and> hlive h' = hlive h \<union> set as \<and>
     outside_same (set as) h h' \<and> bytes rx' = drop (sum_list (map clen hs)) (bytes rx) \<and>
     body ev' = body_after None (bytes rx) hs \<and> event_id ev' = EVENT_ID_EVENTSOCKET \<and> source_id ev' = 0"
  using parse_packet_prefix [OF assms, of "[]" bs] unfolding append_Nil2 header_lines_end by simp

section \<open>Reading a request\<close>

lemma content_length_name: "strcasecmp_eq ''Content-Length'' ''content-length''"
  by code_simp

lemma digits_plain: "\<forall>c \<in> set t. is_digit c \<Longrightarrow> line_text t \<and> CHR '' '' \<notin> set t"
  by (auto simp: line_text_def is_digit_def)

lemma length_field_ok: "header_ok (''Content-Length'', nat_str k)"
proof -
  have d: "line_text (nat_str k)" "CHR '' '' \<notin> set (nat_str k)" using digits_plain [OF nat_str_digits] by auto
  then have "nat_str k = [] \<or> hd (nat_str k) \<noteq> CHR '' ''" by (metis hd_in_set)
  with d show ?thesis by (simp add: header_ok_def line_text_def)
qed

lemma clen_length_field: "k < 2 ^ 31 \<Longrightarrow> clen (''Content-Length'', nat_str k) = k"
  using atoi_int_str [of "int k"] content_length_name by (simp add: clen_def int_str_def)

lemma clen_other:
  assumes "\<not> strcasecmp_eq ''Content-Length'' n"
  shows "clen (n, v) = 0"
proof -
  have "\<not> strcasecmp_eq n ''content-length''"
  proof
    assume "strcasecmp_eq n ''content-length''"
    then have "strcasecmp_eq ''content-length'' n" by (rule iffD1 [OF strcasecmp_eq_sym])
    with assms strcasecmp_eq_trans [OF content_length_name] show False by blast
  qed
  then show ?thesis by (simp add: clen_def)
qed

lemma body_after_other: "\<forall>p \<in> set hs. clen p = 0 \<Longrightarrow> body_after b bs (hs @ ks) = body_after b bs ks"
  by (induction hs) auto

lemma c_str_text: "NUL \<notin> set t \<Longrightarrow> c_str t = t"
  by (auto simp: c_str_def takeWhile_eq_all_conv)

lemma apart_sym: "apart (n # ns) \<Longrightarrow> apart (ns @ [n])"
  unfolding apart_def by (simp add: sorted_wrt_append) (meson strcasecmp_eq_sym)

lemma request_fields:
  assumes "request_ok (cmd, hs, b)"
  defines "ks \<equiv> hs @ length_fields b"
  shows "\<forall>p \<in> set ks. header_ok p \<and> clen p < 2 ^ 31 - 1" "apart (''command'' # map fst ks)"
    "sum_list (map clen ks) = length (case b of None \<Rightarrow> [] | Some t \<Rightarrow> t)"
    "body_after None ((case b of None \<Rightarrow> [] | Some t \<Rightarrow> t) @ rest) ks = b"
    "NUL \<notin> set (packet_text cmd ks)"
proof -
  have z: "\<forall>p \<in> set hs. clen p = 0"
    using assms(1) clen_other by (fastforce simp: apart_def)
  have l: "\<forall>t. b = Some t \<longrightarrow> length t < 2 ^ 31 - 1 \<and> t \<noteq> [] \<and> NUL \<notin> set t"
    using assms(1) by (auto split: option.splits)
  have lf: "length_fields b = [] \<or> (\<exists>t. b = Some t \<and> length_fields b = [(''Content-Length'', nat_str (length t))])"
    by (auto simp: length_fields_def split: option.splits)
  show "\<forall>p \<in> set ks. header_ok p \<and> clen p < 2 ^ 31 - 1"
    using assms(1) lf z l length_field_ok clen_length_field by (auto simp: ks_def)
  then have "NUL \<notin> set (header_text ks)" by (simp add: headers_no_cr)
  then show "NUL \<notin> set (packet_text cmd ks)" using assms(1) by (auto simp: packet_text_def line_text_def)
  have ap: "apart (''command'' # ''Content-Length'' # map fst hs)" using assms(1) by simp
  then have "apart (''command'' # map fst hs @ [''Content-Length''])"
    using apart_sym [of "''Content-Length''" "map fst hs"] by (auto simp: apart_def)
  then show "apart (''command'' # map fst ks)"
    using ap lf unfolding ks_def by (auto simp: apart_def)
  have "map clen hs = replicate (length hs) 0" using z by (intro replicate_eqI) auto
  then show "sum_list (map clen ks) = length (case b of None \<Rightarrow> [] | Some t \<Rightarrow> t)"
    using l clen_length_field by (auto simp: ks_def length_fields_def sum_list_replicate split: option.splits)
  show "body_after None ((case b of None \<Rightarrow> [] | Some t \<Rightarrow> t) @ rest) ks = b"
    using l clen_length_field c_str_text unfolding ks_def body_after_other [OF z]
    by (auto simp: length_fields_def split: option.splits)
qed

lemma read_request:
  assumes "request_ok (cmd, hs, b)" "quiet c" "bytes (sock_in c) = request_text (cmd, hs, b) @ rest"
    and "length as = Suc (length (hs @ length_fields b))" "distinct as" "NULL \<notin> set as" "set as \<inter> hlive (hstore s) = {}"
  shows "\<exists>h' ev' rx'. read_packet f (as @ bs) s c = Some (AGC_STATUS_SUCCESS, Some ev', bs, s\<lparr>hstore := h'\<rparr>, c\<lparr>sock_in := rx'\<rparr>) \<and>
     bytes rx' = rest \<and> event_ok h' ev' as \<and>
     kvs h' as = (''command'', Some (request_head (cmd, hs, b))) # values_of (hs @ length_fields b) \<and>
     body ev' = b \<and> event_id ev' = EVENT_ID_EVENTSOCKET \<and> hlive h' = hlive (hstore s) \<union> set as \<and> outside_same (set as) (hstore s) h'"
proof -
  let ?ks = "hs @ length_fields b" and ?t = "case b of None \<Rightarrow> [] | Some t \<Rightarrow> t"
  note rf = request_fields [OF assms(1)]
  have cmd: "cmd \<noteq> []" "line_text cmd" "length (packet_text cmd ?ks) \<le> EVTSKT_MAX_LEN" using assms(1) by auto
  have "frame_from [] (packet_text cmd ?ks @ ?t @ rest) = Some (packet_text cmd ?ks, ?t @ rest)"
    by (rule frame_packet_text) (use cmd rf(1) in auto)
  then have "frame_from (mbuf new_packet) (bytes (sock_in c)) = Some (packet_text cmd ?ks, ?t @ rest)"
    using assms(3) by (simp add: new_packet_def)
  with read_loop_frame [OF assms(2) new_packet_ok, where rx = "sock_in c" and f = f and as = "as @ bs" and s = s] obtain rx1 where
    rx1: "bytes rx1 = ?t @ rest" "read_packet f (as @ bs) s c = do {
       (st, h, ev, as, rx) \<leftarrow> parse_packet (hstore s) (as @ bs) rx1 (packet_text cmd ?ks);
       Some (st, Some ev, as, s\<lparr>hstore := h\<rparr>, c\<lparr>sock_in := rx\<rparr>) }"
    using c_str_text [OF rf(5)] by (auto simp: read_packet_def)
  have "sum_list (map clen ?ks) \<le> length (bytes rx1)" unfolding rf(3) rx1(1) by simp
  from parse_packet_ok [OF cmd(2) rf(1,2) this assms(4-7)] obtain h' ev' rx' where
    r: "parse_packet (hstore s) (as @ bs) rx1 (packet_text cmd ?ks) = Some (AGC_STATUS_SUCCESS, h', ev', bs, rx')"
    "event_ok h' ev' as" "kvs h' as = (''command'', Some (packet_text cmd ?ks)) # values_of ?ks"
    "hlive h' = hlive (hstore s) \<union> set as" "outside_same (set as) (hstore s) h'"
    "bytes rx' = drop (sum_list (map clen ?ks)) (bytes rx1)" "body ev' = body_after None (bytes rx1) ?ks"
    "event_id ev' = EVENT_ID_EVENTSOCKET" by blast
  have "bytes rx' = rest" using r(6) unfolding rf(3) rx1(1) by simp
  moreover have "body ev' = b" using r(7) rf(4) unfolding rx1(1) by simp
  ultimately show ?thesis using r rx1(2) by (intro exI [of _ h'] exI [of _ ev'] exI [of _ rx']) simp
qed

end
