(* ===== verification/Agc_Eventsocket_Session.thy ===== *)
theory Agc_Eventsocket_Session
  imports Agc_Eventsocket_Packets
begin

text \<open>
  What a client sees of the event socket: a subscription selects exactly the named events and is
  confirmed; a command is run and its output returned with its length; a request with a repeated
  header name makes the list of headers cyclic, and the thread of the connection does not survive it.
\<close>

section \<open>Subscriptions\<close>

fun blanks :: "string list \<Rightarrow> string" where
  "blanks [] = []"
| "blanks [w] = w"
| "blanks (w # ws) = w @ CHR '' '' # blanks ws"

definition event_of :: "evsys \<Rightarrow> string \<Rightarrow> int option" where
  "event_of s w = snd (agc_event_get_id s (Some w))"

definition selected :: "evsys \<Rightarrow> string list \<Rightarrow> int \<Rightarrow> bool" where
  "selected s ws i \<longleftrightarrow> (\<exists>w \<in> set ws. event_of s w = Some i \<or> event_of s w = Some EVENT_ID_ALL)"

lemma get_id_cases:
  "agc_event_get_id s (Some w) = (if event_of s w = None then (AGC_STATUS_GENERR, None) else (AGC_STATUS_SUCCESS, event_of s w))"
  by (auto simp: event_of_def agc_event_get_id_def split: option.splits)

lemma event_of_range: "event_of s w = Some i \<Longrightarrow> 0 \<le> i \<and> nat i < length (event_templates s)"
  using template_search_spec [where ts = "event_templates s" and i = 0 and name = w]
  by (auto simp: event_of_def agc_event_get_id_def named_def split: option.splits)

definition pick :: "evsys \<Rightarrow> string \<Rightarrow> bool list \<Rightarrow> bool list" where
  "pick s w el = (case event_of s w of None \<Rightarrow> el
     | Some i \<Rightarrow> if i = EVENT_ID_ALL then replicate (nat EVENT_ID_LIMIT) True else el[nat i := True])"

lemma pick_length: "length el = 1024 \<Longrightarrow> length (pick s w el) = 1024"
  by (simp add: pick_def EVENT_ID_LIMIT_def split: option.split)

lemma pick_nth:
  "length el = 1024 \<Longrightarrow> length (event_templates s) = 1024 \<Longrightarrow> i < 1024 \<Longrightarrow> pick s w el ! i \<longleftrightarrow> el ! i \<or> event_of s w = Some (int i) \<or> event_of s w = Some EVENT_ID_ALL"
  using event_of_range [of s w]
  by (auto simp: pick_def EVENT_ID_LIMIT_def EVENT_ID_ALL_def nth_list_update split: option.split)

lemma subscribe_step:
  assumes "length el = 1024" "length (event_templates s) = 1024" "cut_first (CHR '' '') cur = (w, r)"
  shows "subscribe s el k (Some cur) = subscribe s (pick s w el) (if event_of s w = None then k else Suc k) r"
proof (cases "event_of s w")
  case None
  then show ?thesis using assms(3) by (simp add: get_id_cases pick_def)
next
  case (Some i)
  then show ?thesis using assms event_of_range [OF Some]
    by (auto simp: get_id_cases pick_def arr_set_def)
qed

lemma subscribe_words:
  "ws \<noteq> [] \<Longrightarrow> \<forall>w \<in> set ws. CHR '' '' \<notin> set w \<Longrightarrow> length el = 1024 \<Longrightarrow> length (event_templates s) = 1024 \<Longrightarrow>
   \<exists>el' k'. subscribe s el k (Some (blanks ws)) = Some (el', k') \<and> length el' = 1024 \<and>
     (\<forall>i < 1024. el' ! i \<longleftrightarrow> el ! i \<or> selected s ws (int i)) \<and>
     (k' = 0 \<longleftrightarrow> k = 0 \<and> (\<forall>w \<in> set ws. event_of s w = None))"
proof (induction ws arbitrary: el k rule: blanks.induct)
  case (2 w)
  then have "cut_first (CHR '' '') (blanks [w]) = (w, None)" by (simp add: cut_first_none)
  from subscribe_step [OF 2(3,4) this, of k] show ?case
    using pick_length [OF 2(3)] pick_nth [OF 2(3,4)] by (simp add: selected_def)
next
  case (3 w w' ws)
  have "cut_first (CHR '' '') (blanks (w # w' # ws)) = (w, Some (blanks (w' # ws)))"
    using 3(3) by (simp add: cut_first_join)
  from subscribe_step [OF 3(4,5) this, of k] 3(1) [of "pick s w el" "if event_of s w = None then k else Suc k"]
  show ?case
    using 3(3-5) pick_length [OF 3(4)] pick_nth [OF 3(4,5)] by (auto simp: selected_def split: if_splits)
qed simp

section \<open>Sending and receiving in one round\<close>

lemma strip_cr_packet: "line_text l \<Longrightarrow> \<forall>p \<in> set hs. header_ok p \<Longrightarrow> strip_cr (l @ LF # header_text hs @ [LF]) = l"
  using headers_no_cr [of hs] by (intro strip_cr_line) auto

lemma take_command: "length t = n \<Longrightarrow> strncasecmp_eq (t @ x) u n = strcasecmp_eq t (take n u)"
  by (simp add: strncasecmp_eq_def)

lemma event_command:
  "\<not> strncasecmp_eq (''event '' @ x) ''exit'' 4" "\<not> strncasecmp_eq (''event '' @ x) ''...'' 3"
  "\<not> strncasecmp_eq (''event '' @ x) ''api '' 4" "strncasecmp_eq (''event '' @ x) ''event'' 5"
  by (simp_all add: strncasecmp_eq_def strcasecmp_eq_def c_tolower_def)

lemma api_command:
  "\<not> strncasecmp_eq (''api '' @ x) ''exit'' 4" "\<not> strncasecmp_eq (''api '' @ x) ''...'' 3" "strncasecmp_eq (''api '' @ x) ''api '' 4"
  by (simp_all add: strncasecmp_eq_def strcasecmp_eq_def c_tolower_def)

lemma event_cleared:
  assumes "event_ok h' ev as" "hlive h' = hlive h \<union> set as" "set as \<inter> hlive h = {}"
  shows "\<exists>h''. agc_event_destroy h' (Some ev) = Some h'' \<and> hlive h'' = hlive h"
  using destroy_chain [of h' "headers ev" as] assms by (auto simp: event_ok_def agc_event_destroy_def)

lemma get_command:
  assumes "event_ok h ev as" "kvs h as = (''command'', Some t) # kv"
  shows "agc_event_get_header h ev (Some ''command'') = Some (Some t)"
  using get_header_lookup [OF assms(1)] assms(2) by (simp add: lookup_def)

text \<open>The first half of a round: the request has become an event, and \<^verbatim>\<open>parse_command\<close> gets it.\<close>

lemma round_request:
  assumes "request_ok (cmd, hs, b)" "quiet c" "bytes (sock_in c) = request_text (cmd, hs, b) @ rest"
    and "length as = Suc (length (hs @ length_fields b))" "distinct as" "NULL \<notin> set as" "set as \<inter> hlive (hstore s) = {}"
  obtains h' ev' rx' where "bytes rx' = rest" "event_ok h' ev' as" "hlive h' = hlive (hstore s) \<union> set as"
    "agc_event_get_header h' ev' (Some ''command'') = Some (Some (cmd @ LF # header_text (hs @ length_fields b) @ [LF]))"
    "connection_round f env apis (as @ bs) c (s, x) = do {
       (status, reply, revent, c, s, x) \<leftarrow> parse_command env apis (c\<lparr>sock_in := rx'\<rparr>) (Some ev') (s\<lparr>hstore := h'\<rparr>, x);
       if status \<noteq> AGC_STATUS_SUCCESS then Some (False, revent, bs, c\<lparr>is_running := False\<rparr>, s, x)
       else do {
         h \<leftarrow> agc_event_destroy (hstore s) revent;
         Some (True, None, bs, send_reply c reply, s\<lparr>hstore := h\<rparr>, x)
       } }"
proof -
  from read_request [OF assms, of f bs] obtain h' ev' rx' where
    r: "read_packet f (as @ bs) s c = Some (AGC_STATUS_SUCCESS, Some ev', bs, s\<lparr>hstore := h'\<rparr>, c\<lparr>sock_in := rx'\<rparr>)"
    "bytes rx' = rest" "event_ok h' ev' as"
    "kvs h' as = (''command'', Some (request_head (cmd, hs, b))) # values_of (hs @ length_fields b)"
    "hlive h' = hlive (hstore s) \<union> set as" by blast
  show ?thesis
    by (rule that [of rx' h' ev']) (use r get_command [OF r(3,4)] in \<open>auto simp: packet_text_def connection_round_def\<close>)
qed

lemma round_subscribe:
  assumes "request_ok (''event '' @ blanks ws, hs, b)" "quiet c"
    and "bytes (sock_in c) = request_text (''event '' @ blanks ws, hs, b) @ rest"
    and "length as = Suc (length (hs @ length_fields b))" "distinct as" "NULL \<notin> set as" "set as \<inter> hlive (hstore s) = {}"
    and "ws \<noteq> []" "\<forall>w \<in> set ws. CHR '' '' \<notin> set w" "length (event_templates s) = 1024"
  shows "\<exists>c' h'. connection_round f env apis (as @ bs) c (s, x) = Some (True, None, bs, c', s\<lparr>hstore := h'\<rparr>, x) \<and>
     bytes (sock_in c') = rest \<and> hlive h' = hlive (hstore s) \<and> length (event_list c') = 1024 \<and>
     (\<forall>i < 1024. event_list c' ! i \<longleftrightarrow> selected s ws (int i)) \<and>
     (has_event c' \<longleftrightarrow> (\<exists>w \<in> set ws. event_of s w \<noteq> None)) \<and> event_queue c' = event_queue c \<and> is_running c' = is_running c \<and>
     sock_out c' = sock_out c @ ''Content-Type: command/reply'' @ [LF] @ ''Reply-Text: '' @
       (if \<exists>w \<in> set ws. event_of s w \<noteq> None then ''+OK'' else ''-ERR no keywords supplied'') @ [LF, LF]"
proof -
  let ?cmd = "''event '' @ blanks ws" and ?ks = "hs @ length_fields b"
  from round_request [OF assms(1-7), of f env apis bs x] obtain h' ev' rx' where
    r: "bytes rx' = rest" "event_ok h' ev' as" "hlive h' = hlive (hstore s) \<union> set as"
    "agc_event_get_header h' ev' (Some ''command'') = Some (Some (?cmd @ LF # header_text ?ks @ [LF]))"
    "connection_round f env apis (as @ bs) c (s, x) = do {
       (status, reply, revent, c, s, x) \<leftarrow> parse_command env apis (c\<lparr>sock_in := rx'\<rparr>) (Some ev') (s\<lparr>hstore := h'\<rparr>, x);
       if status \<noteq> AGC_STATUS_SUCCESS then Some (False, revent, bs, c\<lparr>is_running := False\<rparr>, s, x)
       else do {
         h \<leftarrow> agc_event_destroy (hstore s) revent;
         Some (True, None, bs, send_reply c reply, s\<lparr>hstore := h\<rparr>, x)
       } }" by blast
  let ?s = "s\<lparr>hstore := h'\<rparr>" and ?t = "?cmd @ LF # header_text ?ks @ [LF]"
  have "line_text ?cmd" using assms(1) by simp
  then have strip: "strip_cr ?t = ?cmd" by (rule strip_cr_packet) (use request_fields(1) [OF assms(1)] in blast)
  have rest: "snd (cut_first (CHR '' '') (drop 5 (strip_cr ?t))) = Some (blanks ws)"
    unfolding strip using cut_first_join [of "CHR '' ''" "[]" "blanks ws"] by simp
  have e: "event_of ?s w = event_of s w" for w by (simp add: event_of_def agc_event_get_id_def)
  then have sel: "selected ?s ws i = selected s ws i" for i by (simp add: selected_def)
  from subscribe_words [OF assms(8,9), of "replicate (nat EVENT_ID_LIMIT) False" ?s 0] assms(10) obtain el k where
    k: "subscribe ?s (replicate (nat EVENT_ID_LIMIT) False) 0 (Some (blanks ws)) = Some (el, k)" "length el = 1024"
    "\<forall>i < 1024. el ! i \<longleftrightarrow> selected s ws (int i)" "k = 0 \<longleftrightarrow> (\<forall>w \<in> set ws. event_of s w = None)"
    by (auto simp: e sel EVENT_ID_LIMIT_def)
  note cmds = event_command [of "blanks ws @ LF # header_text ?ks @ [LF]"]
  have p: "parse_command env apis (c\<lparr>sock_in := rx'\<rparr>) (Some ev') (?s, x) =
     Some (AGC_STATUS_SUCCESS, if k = 0 then ''-ERR no keywords supplied'' else ''+OK'', Some ev',
       c\<lparr>sock_in := rx', event_list := el, has_event := (k \<noteq> 0)\<rparr>, ?s, x)"
    using cmds rest k(1) r(4) unfolding parse_command_def by (simp add: c_snprintf_def Let_def del: subscribe.simps)
  from event_cleared [OF r(2,3) assms(7)] obtain h'' where
    d: "agc_event_destroy h' (Some ev') = Some h''" "hlive h'' = hlive (hstore s)" by blast
  show ?thesis
    using p d r(1,5) k(2-4) by (auto simp: send_reply_def sock_send_def c_snprintf_def)
qed

section \<open>Commands\<close>

definition api_line :: "string \<Rightarrow> string option \<Rightarrow> string" where
  "api_line cmd arg = cmd @ (case arg of None \<Rightarrow> [] | Some a \<Rightarrow> CHR '' '' # a)"

lemma cut_api_line: "CHR '' '' \<notin> set cmd \<Longrightarrow> cut_first (CHR '' '') (api_line cmd arg) = (cmd, arg)"
  by (cases arg) (simp_all add: api_line_def cut_first_join cut_first_none)

lemma api_header_text:
  assumes "k < 2 ^ 31"
  shows "api_header k = ''Content-Type: api/response'' @ [LF] @ ''Content-Length: '' @ nat_str k @ [LF, LF]"
proof -
  have "to_int32 (int k) = int k" using assms by (simp add: to_int32_def signed_take_bit_int_eq_self)
  moreover have "length (nat_str k) \<le> 10" using assms by (intro nat_str_length) auto
  ultimately show ?thesis by (simp add: api_header_def c_snprintf_def int_str_def)
qed

lemma stream_strlen: "stream_wf st \<Longrightarrow> c_strlen (sdata st) = Some (data_len st)"
proof -
  assume wf: "stream_wf st"
  let ?p = "take (data_len st) (sdata st)"
  have d: "sdata st = ?p @ NUL # drop (Suc (data_len st)) (sdata st)"
    using wf id_take_nth_drop [of "data_len st" "sdata st"] by (simp add: stream_wf_def)
  have "takeWhile (\<lambda>c. c \<noteq> NUL) (?p @ NUL # drop (Suc (data_len st)) (sdata st)) = ?p"
    using wf by (subst takeWhile_append2) (auto simp: stream_wf_def)
  then have "takeWhile (\<lambda>c. c \<noteq> NUL) (sdata st) = ?p" using d by simp
  moreover have "NUL \<in> set (sdata st)" by (subst d) simp
  ultimately show ?thesis using wf by (simp add: c_strlen_def stream_wf_def)
qed

lemma round_api:
  assumes "request_ok (''api '' @ api_line cmd arg, hs, b)" "quiet c"
    and "bytes (sock_in c) = request_text (''api '' @ api_line cmd arg, hs, b) @ rest"
    and "length as = Suc (length (hs @ length_fields b))" "distinct as" "NULL \<notin> set as" "set as \<inter> hlive (hstore s) = {}"
    and "is_running c" "CHR '' '' \<notin> set cmd" "agc_api_find apis cmd = Some api"
    and "\<And>s. api_function api arg agc_api_stand_stream (s, x) = Some (AGC_STATUS_SUCCESS, st, (s, x'))"
    and "stream_wf st" "stream_text st \<noteq> []" "length (stream_text st) < 2 ^ 31"
  shows "\<exists>c' h'. connection_round f env apis (as @ bs) c (s, x) = Some (True, None, bs, c', s\<lparr>hstore := h'\<rparr>, x') \<and>
     bytes (sock_in c') = rest \<and> hlive h' = hlive (hstore s) \<and>
     sock_out c' = sock_out c @ ''Content-Type: api/response'' @ [LF] @ ''Content-Length: '' @
       nat_str (length (stream_text st)) @ [LF, LF] @ stream_text st"
proof -
  let ?cmd = "''api '' @ api_line cmd arg" and ?ks = "hs @ length_fields b"
  from round_request [OF assms(1-7), of f env apis bs x] obtain h' ev' rx' where
    r: "bytes rx' = rest" "event_ok h' ev' as" "hlive h' = hlive (hstore s) \<union> set as"
    "agc_event_get_header h' ev' (Some ''command'') = Some (Some (?cmd @ LF # header_text ?ks @ [LF]))"
    "connection_round f env apis (as @ bs) c (s, x) = do {
       (status, reply, revent, c, s, x) \<leftarrow> parse_command env apis (c\<lparr>sock_in := rx'\<rparr>) (Some ev') (s\<lparr>hstore := h'\<rparr>, x);
       if status \<noteq> AGC_STATUS_SUCCESS then Some (False, revent, bs, c\<lparr>is_running := False\<rparr>, s, x)
       else do {
         h \<leftarrow> agc_event_destroy (hstore s) revent;
         Some (True, None, bs, send_reply c reply, s\<lparr>hstore := h\<rparr>, x)
       } }" by blast
  let ?s = "s\<lparr>hstore := h'\<rparr>" and ?t = "?cmd @ LF # header_text ?ks @ [LF]"
  have lt: "line_text (api_line cmd arg)" using assms(1) by (simp add: line_text_def)
  have "strip_cr (api_line cmd arg @ LF # header_text ?ks @ [LF]) = api_line cmd arg"
    by (rule strip_cr_packet [OF lt]) (use request_fields(1) [OF assms(1)] in blast)
  then have cut: "cut_first (CHR '' '') (strip_cr (drop 4 ?t)) = (cmd, arg)"
    using cut_api_line [OF assms(9)] by simp
  have "take (data_len st) (sdata st) = stream_text st" by (simp add: stream_text_def)
  then have ex: "api_exec env apis (c\<lparr>sock_in := rx'\<rparr>) cmd arg (?s, x) =
     Some (c\<lparr>sock_in := rx', sock_out := sock_out c @ api_header (length (stream_text st)) @ stream_text st\<rparr>, ?s, x')"
    using assms(8,10,11,13) stream_strlen [OF assms(12)]
    by (simp add: api_exec_def agc_api_execute_def sock_send_def Let_def del: take_eq_Nil take_eq_Nil2)
  from event_cleared [OF r(2,3) assms(7)] obtain h'' where
    d: "agc_event_destroy h' (Some ev') = Some h''" "hlive h'' = hlive (hstore s)" by blast
  note cmds = api_command [of "api_line cmd arg @ LF # header_text ?ks @ [LF]"]
  have p: "parse_command env apis (c\<lparr>sock_in := rx'\<rparr>) (Some ev') (?s, x) = Some (AGC_STATUS_SUCCESS, [], None,
      c\<lparr>sock_in := rx', sock_out := sock_out c @ api_header (length (stream_text st)) @ stream_text st\<rparr>, s\<lparr>hstore := h''\<rparr>, x')"
    using cmds cut ex d(1) r(4) unfolding parse_command_def by simp
  show ?thesis
    using p d(2) r(1,5) api_header_text [OF assms(14)] by (auto simp: send_reply_def agc_event_destroy_def)
qed

section \<open>Repeated header names\<close>

text \<open>A list of headers that runs back into itself, within the set \<open>S\<close> of its cells.\<close>

definition cyclic :: "hheap \<Rightarrow> agc_event \<Rightarrow> addr set \<Rightarrow> bool" where
  "cyclic h ev S \<longleftrightarrow> headers ev \<in> S \<and> last_header ev \<in> S \<and> (\<forall>y \<in> S. y \<noteq> NULL \<and> y \<in> hlive h \<and> hnext h y \<in> S)"

lemma header_search_in:
  assumes "header_search h p name = Some r" "\<forall>y \<in> S. y \<noteq> NULL \<and> hnext h y \<in> S" "p \<in> S"
  shows "r \<in> S"
proof -
  have "(\<forall>y \<in> S. y \<noteq> NULL \<and> hnext h y \<in> S) \<longrightarrow> p \<in> S \<longrightarrow> r \<in> S"
    by (rule header_search.raw_induct [OF _ assms(1), where P = "\<lambda>h p name r.
        (\<forall>y \<in> S. y \<noteq> NULL \<and> hnext h y \<in> S) \<longrightarrow> p \<in> S \<longrightarrow> r \<in> S"])
      (fastforce split: if_splits)
  with assms show ?thesis by blast
qed

lemma relink_cyclic:
  assumes "agc_event_get_header_ptr h ev (Some n) = Some hp" "hp \<in> S" "headers ev \<in> S" "last_header ev \<in> S"
    and "\<forall>y \<in> S. y \<noteq> NULL \<and> y \<in> hlive h \<and> (y = last_header ev \<or> hnext h y \<in> S)"
  shows "\<exists>h' ev'. agc_event_base_add_header h ev a n v = Some (h', ev') \<and> cyclic h' ev' S \<and> body ev' = body ev"
proof -
  have "hp \<noteq> NULL" "last_header ev \<noteq> NULL" "last_header ev \<in> hlive h" using assms(2,4,5) by auto
  then have "agc_event_base_add_header h ev a n v =
      Some (h\<lparr>hvalue := (hvalue h)(hp := Some v), hnext := (hnext h)(last_header ev := hp)\<rparr>, ev\<lparr>last_header := hp\<rparr>)"
    using assms(1) by (simp add: agc_event_base_add_header_def link_header_def set_next_def)
  then show ?thesis using assms(2-5) by (auto simp: cyclic_def)
qed

lemma cyclic_add:
  assumes "cyclic h ev S" "agc_event_add_header_string h ev a n (Some v) = Some (st, h', ev')"
  shows "cyclic h' ev' S"
proof -
  have b: "agc_event_base_add_header h ev a n v = Some (h', ev')"
    using assms(2) by (auto simp: agc_event_add_header_string_def bind_Some_iff)
  then obtain hp where hp: "agc_event_get_header_ptr h ev (Some n) = Some hp"
    by (auto simp: agc_event_base_add_header_def bind_Some_iff)
  then have "hp \<in> S"
    using assms(1) by (intro header_search_in [of h "headers ev" n hp S]) (auto simp: agc_event_get_header_ptr_def cyclic_def)
  from relink_cyclic [OF hp this, of a v] assms(1) b show ?thesis by (auto simp: cyclic_def)
qed

lemma cyclic_body: "cyclic h (ev\<lparr>body := b\<rparr>) S = cyclic h ev S"
  by (simp add: cyclic_def)

lemma cyclic_line:
  assumes "header_line h ev as rx cur = Some (ok, h', ev', as', rx')" "cyclic h ev S"
  shows "cyclic h' ev' S"
  using assms cyclic_add [OF assms(2)] unfolding header_line_def Let_def
  by (auto simp: bind_Some_iff agc_event_add_body_def cyclic_body split: if_splits prod.splits option.splits)

lemma cyclic_lines:
  "header_lines h ev as rx cur = Some (st, h', ev', as', rx') \<Longrightarrow> cyclic h ev S \<Longrightarrow> cyclic h' ev' S"
proof (induction h ev as rx cur rule: header_lines.induct)
  case (2 h ev as rx cur)
  from 2(2) obtain ok h1 ev1 as1 rx1 where
    l: "header_line h ev as rx cur = Some (ok, h1, ev1, as1, rx1)" and
    r: "(if ok then header_lines h1 ev1 as1 rx1 (next_line cur) else Some (AGC_STATUS_FALSE, h1, ev1, as1, rx1)) = Some (st, h', ev', as', rx')"
    by (auto simp: bind_Some_iff)
  have "cyclic h1 ev1 S" by (rule cyclic_line [OF l 2(3)])
  with r 2(1) [OF l] show ?case by (auto split: if_splits)
qed simp

lemma cyclic_destroy: "cyclic h ev S \<Longrightarrow> agc_event_destroy h (Some ev) = None"
  using destroy_cycle [of h "headers ev" _ S] by (cases "destroy_loop h (headers ev)") (auto simp: cyclic_def agc_event_destroy_def)

text \<open>The header that repeats a name closes the cycle.\<close>

lemma repeated_cyclic:
  assumes "event_ok h ev as" "m \<in> fst ` set (kvs h as)" "strcasecmp_eq m n"
    and "agc_event_add_header_string h ev a n (Some v) = Some (st, h', ev')"
  shows "cyclic h' ev' (set as)"
proof -
  have c: "hchain h (headers ev) as NULL" and ne: "as \<noteq> []" using assms(1,2) by (auto simp: event_ok_def kvs_def)
  have l: "last_header ev = last as" using assms(1) ne by (simp add: event_ok_def)
  have live: "set as \<subseteq> hlive h" "NULL \<notin> set as" using hchain_live [OF c] by auto
  obtain p where f: "find (\<lambda>x. strcasecmp_eq (hname h x) n) as = Some p"
    using assms(2,3) find_none [of _ as] by (fastforce simp: kvs_def)
  have ptr: "agc_event_get_header_ptr h ev (Some n) = Some p"
    using header_search_chain [OF c] f by (simp add: agc_event_get_header_ptr_def)
  have hd: "headers ev \<in> set as" using c ne by (cases as) auto
  have "\<forall>y \<in> set as. y \<noteq> NULL \<and> y \<in> hlive h \<and> (y = last_header ev \<or> hnext h y \<in> set as)"
  proof
    fix y assume y: "y \<in> set as"
    then show "y \<noteq> NULL \<and> y \<in> hlive h \<and> (y = last_header ev \<or> hnext h y \<in> set as)"
      using live l hchain_next [OF c y] by (metis subsetD)
  qed
  from relink_cyclic [OF ptr _ hd _ this, of a v] find_in [OF f] last_in_set [OF ne] l assms(4)
  show ?thesis by (auto simp: agc_event_add_header_string_def)
qed

lemma lines_status:
  "\<forall>p \<in> set ls. header_ok p \<and> clen p = 0 \<Longrightarrow> header_lines h ev as rx (Some (lines_of ls)) = Some (st, h', ev', as', rx') \<Longrightarrow>
     st = AGC_STATUS_SUCCESS"
proof (induction ls arbitrary: h ev as rx)
  case Nil
  then show ?case unfolding header_lines_end by simp
next
  case (Cons p ls)
  obtain n v where p: "p = (n, v)" by (cases p)
  have hk: "header_ok (n, v)" "clen (n, v) = 0" "\<forall>q \<in> set ls. header_ok q" using Cons.prems(1) p by auto
  have lo: "lines_of (p # ls) = n @ '': '' @ v @ LF # header_text ls @ [LF]" by (simp add: lines_of_def p)
  have "next_line (lines_of (p # ls)) = Some (lines_of ls)"
    using lines_of_next [OF header_line_text [OF hk(1)] hk(3)] lo by simp
  then obtain h1 ev1 as1 rx1 where "header_lines h1 ev1 as1 rx1 (Some (lines_of ls)) = Some (st, h', ev', as', rx')"
    using Cons.prems(2) header_line_unfold [OF hk(1), of "header_text ls @ [LF]" h ev as rx] headers_no_cr [OF hk(3)] hk(2)
    unfolding lo by (auto simp: bind_Some_iff)
  with Cons show ?case by auto
qed

lemma lines_repeated:
  assumes "event_ok h ev as" "m \<in> fst ` set (kvs h as)" "strcasecmp_eq m n" "\<forall>p \<in> set ((n, v) # ls). header_ok p"
    and "header_lines h ev bs rx (Some (lines_of ((n, v) # ls))) = Some (st, h', ev', as', rx')"
  shows "cyclic h' ev' (set as)"
proof -
  have hk: "header_ok (n, v)" "\<forall>q \<in> set ls. header_ok q" using assms(4) by auto
  have lo: "lines_of ((n, v) # ls) = n @ '': '' @ v @ LF # header_text ls @ [LF]" by (simp add: lines_of_def)
  have nl: "next_line (lines_of ((n, v) # ls)) = Some (lines_of ls)"
    using lines_of_next [OF header_line_text [OF hk(1)] hk(2)] lo by simp
  have ncr: "CR \<notin> set (header_text ls @ [LF])" using headers_no_cr [OF hk(2)] by auto
  from assms(5) obtain ok h1 ev1 as1 rx1 where
    l: "header_line h ev bs rx (lines_of ((n, v) # ls)) = Some (ok, h1, ev1, as1, rx1)" and
    r: "(if ok then header_lines h1 ev1 as1 rx1 (Some (lines_of ls)) else Some (AGC_STATUS_FALSE, h1, ev1, as1, rx1)) = Some (st, h', ev', as', rx')"
    unfolding header_lines.simps nl by (auto simp: bind_Some_iff)
  from l obtain st1 ev0 where a: "agc_event_add_header_string h ev (hd bs) n (Some v) = Some (st1, h1, ev0)"
    "ev1 = ev0 \<or> (\<exists>b. ev1 = ev0\<lparr>body := Some b\<rparr>)"
    unfolding lo header_line_unfold [OF hk(1) ncr]
    by (auto simp: bind_Some_iff split: if_splits prod.splits option.splits)
  have "cyclic h1 ev0 (set as)" by (rule repeated_cyclic [OF assms(1-3) a(1)])
  then have "cyclic h1 ev1 (set as)" using a(2) cyclic_body by metis
  then show ?thesis using r cyclic_lines [of h1 ev1 as1 rx1 "Some (lines_of ls)"] by (auto split: if_splits)
qed

text \<open>Commands that leave the headers of events alone.\<close>

definition keeps_headers :: "(evsys \<times> 'x) agc_api list \<Rightarrow> bool" where
  "keeps_headers apis \<longleftrightarrow> (\<forall>api \<in> set apis. \<forall>arg st s x r. api_function api arg st (s, x) = Some r \<longrightarrow> hstore (fst (snd (snd r))) = hstore s)"

lemma api_exec_keeps:
  assumes "keeps_headers apis" "api_exec env apis c cmd arg (s, x) = Some (c', s', x')"
  shows "hstore s' = hstore s"
proof (cases "agc_api_find apis cmd")
  case None
  then show ?thesis using assms(2) by (auto simp: api_exec_def agc_api_execute_def bind_Some_iff split: if_splits)
next
  case (Some api)
  then have "api \<in> set apis" using find_name by blast
  then have k: "\<And>arg st r. api_function api arg st (s, x) = Some r \<Longrightarrow> hstore (fst (snd (snd r))) = hstore s"
    using assms(1) unfolding keeps_headers_def by blast
  show ?thesis using assms(2) Some
    by (auto simp: api_exec_def agc_api_execute_def bind_Some_iff dest!: k split: if_splits)
qed

lemma cyclic_command:
  assumes "cyclic (hstore s) ev S" "keeps_headers apis" "parse_command env apis c (Some ev) (s, x) = Some (st, reply, revent, c', s', x')"
  shows "revent = Some ev \<and> st = AGC_STATUS_SUCCESS \<and> hstore s' = hstore s"
  using assms(3) cyclic_destroy [OF assms(1)] api_exec_keeps [OF assms(2)]
  unfolding parse_command_def
  by (auto simp: bind_Some_iff Let_def split: if_splits option.splits prod.splits)

lemma round_repeated:
  assumes "cmd \<noteq> []" "line_text cmd" "\<forall>p \<in> set (ks @ (n, v) # ls). header_ok p \<and> clen p = 0"
    and "apart (''command'' # map fst ks)" "m \<in> set (''command'' # map fst ks)" "strcasecmp_eq m n"
    and "length (packet_text cmd (ks @ (n, v) # ls)) \<le> EVTSKT_MAX_LEN"
    and "quiet c" "bytes (sock_in c) = packet_text cmd (ks @ (n, v) # ls) @ rest" "keeps_headers apis"
    and "length as = Suc (length ks)" "distinct as" "NULL \<notin> set as" "set as \<inter> hlive (hstore s) = {}"
  shows "connection_round f env apis (as @ bs) c (s, x) = None"
proof (rule ccontr)
  let ?hs = "ks @ (n, v) # ls"
  assume "connection_round f env apis (as @ bs) c (s, x) \<noteq> None"
  then obtain r where r: "connection_round f env apis (as @ bs) c (s, x) = Some r" by blast
  have hk: "\<forall>p \<in> set ?hs. header_ok p" "\<forall>p \<in> set ks. header_ok p \<and> clen p < 2 ^ 31 - 1" using assms(3) by auto
  have fr: "frame_from [] (packet_text cmd ?hs @ rest) = Some (packet_text cmd ?hs, rest)"
    by (rule frame_packet_text [OF assms(1,2) hk(1) assms(7)])
  have nul: "NUL \<notin> set (packet_text cmd ?hs)"
    using assms(2) headers_no_cr [OF hk(1)] by (auto simp: packet_text_def line_text_def)
  from read_loop_frame [OF assms(8) new_packet_ok, where rx = "sock_in c" and f = f and as = "as @ bs" and s = s] fr assms(9)
  obtain rx1 where
    rd: "read_packet f (as @ bs) s c = do {
       (st, h, ev, as, rx) \<leftarrow> parse_packet (hstore s) (as @ bs) rx1 (packet_text cmd ?hs);
       Some (st, Some ev, as, s\<lparr>hstore := h\<rparr>, c\<lparr>sock_in := rx\<rparr>) }"
    using c_str_text [OF nul] by (auto simp: read_packet_def new_packet_def)
  have z: "sum_list (map clen ks) \<le> length (bytes rx1)"
  proof -
    have "map clen ks = replicate (length ks) 0" using assms(3) by (intro replicate_eqI) auto
    then show ?thesis by (simp add: sum_list_replicate)
  qed
  have lsk: "\<forall>p \<in> set ((n, v) # ls). header_ok p" using hk(1) by auto
  from parse_packet_prefix [OF assms(2) hk(2) assms(4) z assms(11-14) lsk, of bs] obtain h' ev' rx' where
    pp: "parse_packet (hstore s) (as @ bs) rx1 (packet_text cmd ?hs) = header_lines h' ev' bs rx' (Some (lines_of ((n, v) # ls)))"
    "event_ok h' ev' as" "kvs h' as = (''command'', Some (packet_text cmd ?hs)) # values_of ks" by blast
  have mem: "m \<in> fst ` set (kvs h' as)" using assms(5) unfolding pp(3) by force
  from r rd pp(1) obtain st h2 ev2 as2 rx2 where
    h2: "header_lines h' ev' bs rx' (Some (lines_of ((n, v) # ls))) = Some (st, h2, ev2, as2, rx2)"
    unfolding connection_round_def by (auto simp: bind_Some_iff)
  have cy: "cyclic h2 ev2 (set as)" by (rule lines_repeated [OF pp(2) mem assms(6) lsk h2])
  have "st = AGC_STATUS_SUCCESS" by (rule lines_status [OF _ h2]) (use assms(3) in auto)
  then have "read_packet f (as @ bs) s c = Some (AGC_STATUS_SUCCESS, Some ev2, as2, s\<lparr>hstore := h2\<rparr>, c\<lparr>sock_in := rx2\<rparr>)"
    unfolding rd pp(1) h2 by simp
  with r obtain st' reply revent c' s' x' where
    pc: "parse_command env apis (c\<lparr>sock_in := rx2\<rparr>) (Some ev2) (s\<lparr>hstore := h2\<rparr>, x) = Some (st', reply, revent, c', s', x')" and
    d: "st' = AGC_STATUS_SUCCESS \<Longrightarrow> agc_event_destroy (hstore s') revent \<noteq> None"
    unfolding connection_round_def by (auto simp: bind_Some_iff split: if_splits)
  have cy': "cyclic (hstore (s\<lparr>hstore := h2\<rparr>)) ev2 (set as)" using cy by simp
  from cyclic_command [OF cy' assms(10) pc] d cyclic_destroy [OF cy] show False by simp
qed

section \<open>Properties\<close>

lemma packet_end_Nil: "\<not> packet_end []"
  by (simp add: packet_end_def EVTSKT_MAX_LEN_def)

lemma packet_text_frame:
  assumes "cmd \<noteq> []" "line_text cmd" "\<forall>p \<in> set hs. header_ok p" "length (packet_text cmd hs) \<le> EVTSKT_MAX_LEN"
  shows "is_frame [] (packet_text cmd hs)"
  using frame_from_Some [of "[]" "packet_text cmd hs" "packet_text cmd hs" "[]"] frame_packet_text [OF assms, of "[]"] packet_end_Nil
  by auto

text \<open>A connection for the examples, on which the given segments arrive.\<close>

definition demo_conn :: "rx list \<Rightarrow> event_connect" where
  "demo_conn rx = (new_connection rx)\<lparr>is_running := True\<rparr>"

definition demo_segments :: "rx list" where
  "demo_segments = [Idle, Arrive ''eve'', Idle, Arrive ''nt esl'', Arrive [LF, LF], Arrive ''x'']"

lemma demo_conn_simps [simp]:
  "sock_in (demo_conn rx) = rx" "quiet (demo_conn rx)" "sock_out (demo_conn rx) = []" "is_running (demo_conn rx)"
  by (simp_all add: demo_conn_def new_connection_def quiet_def)

lemma demo_bytes: "bytes demo_segments = request_text (''event esl'', [], None) @ ''x''"
  by (simp add: demo_segments_def packet_text_def length_fields_def)

lemma demo_request: "request_ok (''event esl'', [], None)"
  by (simp add: line_text_def packet_text_def length_fields_def EVTSKT_MAX_LEN_def apart_def strcasecmp_eq_def c_tolower_def)

lemma demo_sys_facts: "length (event_templates demo_sys) = 1024" "hlive (hstore demo_sys) = {}"
  by (simp_all add: demo_sys_def init_ids_def)

text \<open>
  C29: packets are framed by their bytes alone, however these arrive in segments and with whatever
  pauses, and within the growing buffer: leading line ends are skipped, and the packet is the
  shortest text behind them that ends with an empty line, carriage returns aside, or has reached
  \<^verbatim>\<open>EVTSKT_MAX_LEN\<close>. It is handed to the parser together with everything behind it; when the
  connection ends before a packet is complete, \<^verbatim>\<open>read_packet\<close> fails and makes no event.
\<close>

theorem read_packet_framing:
  assumes "quiet c"
  shows "(\<forall>sk p r. bytes (sock_in c) = sk @ p @ r \<and> is_frame sk p \<longrightarrow>
      (\<exists>rx'. bytes rx' = r \<and> read_packet f as s c = do {
         (st, h, ev, as, rx) \<leftarrow> parse_packet (hstore s) as rx' (c_str p);
         Some (st, Some ev, as, s\<lparr>hstore := h\<rparr>, c\<lparr>sock_in := rx\<rparr>) })) \<and>
    ((\<nexists>sk p r. bytes (sock_in c) = sk @ p @ r \<and> is_frame sk p) \<longrightarrow>
      read_packet f as s c = Some (AGC_STATUS_FALSE, None, as, s, c\<lparr>sock_in := []\<rparr>))"
proof (intro conjI allI impI)
  note L = read_loop_frame [OF assms new_packet_ok, where rx = "sock_in c" and f = f and as = as and s = s]
  have m: "mbuf new_packet = []" by (simp add: new_packet_def)
  show "\<exists>rx'. bytes rx' = r \<and> read_packet f as s c = do {
         (st, h, ev, as, rx) \<leftarrow> parse_packet (hstore s) as rx' (c_str p);
         Some (st, Some ev, as, s\<lparr>hstore := h\<rparr>, c\<lparr>sock_in := rx\<rparr>) }"
    if "bytes (sock_in c) = sk @ p @ r \<and> is_frame sk p" for sk p r
    using L frame_from_frame [of sk p r] that unfolding m read_packet_def by simp
  show "read_packet f as s c = Some (AGC_STATUS_FALSE, None, as, s, c\<lparr>sock_in := []\<rparr>)"
    if n: "\<nexists>sk p r. bytes (sock_in c) = sk @ p @ r \<and> is_frame sk p"
  proof -
    have "frame_from [] (bytes (sock_in c)) = None"
      using n frame_from_Some [of "[]" "bytes (sock_in c)"] packet_end_Nil
      by (cases "frame_from [] (bytes (sock_in c))") fastforce+
    with L show ?thesis unfolding m read_packet_def by simp
  qed
qed

theorem read_packet_framing_witness:
  "\<exists>rx'. bytes rx' = ''x'' \<and> read_packet demo_fp [1] demo_sys (demo_conn demo_segments) = do {
     (st, h, ev, as, rx) \<leftarrow> parse_packet (hstore demo_sys) [1] rx' (c_str (packet_text ''event esl'' []));
     Some (st, Some ev, as, demo_sys\<lparr>hstore := h\<rparr>, (demo_conn demo_segments)\<lparr>sock_in := rx\<rparr>) }"
proof -
  have "is_frame [] (packet_text ''event esl'' [])"
    by (rule packet_text_frame) (simp_all add: line_text_def packet_text_def EVTSKT_MAX_LEN_def)
  moreover have "bytes (sock_in (demo_conn demo_segments)) = [] @ packet_text ''event esl'' [] @ ''x''"
    using demo_bytes by (simp add: length_fields_def)
  moreover have "quiet (demo_conn demo_segments)" by simp
  ultimately show ?thesis using read_packet_framing [of "demo_conn demo_segments" demo_fp "[1]" demo_sys] by blast
qed

text \<open>
  C30: what a client encodes as a request, a command line with headers and a body, is read back as an
  event of the socket's own id with exactly these headers in order, behind the header \<^verbatim>\<open>command\<close>
  that holds the head of the request and with that of the length of the body, and with that body; the bytes behind the request are left
  for the next one, and the other headers of the store are untouched. The names of the headers are pairwise different, also from these two.
\<close>

theorem eventsocket_request_roundtrip:
  assumes "request_ok (cmd, hs, b)" "quiet c" "bytes (sock_in c) = request_text (cmd, hs, b) @ rest"
    and "length as = Suc (length (hs @ length_fields b))" "distinct as" "NULL \<notin> set as" "set as \<inter> hlive (hstore s) = {}"
  shows "\<exists>h' ev' rx'. read_packet f (as @ bs) s c = Some (AGC_STATUS_SUCCESS, Some ev', bs, s\<lparr>hstore := h'\<rparr>, c\<lparr>sock_in := rx'\<rparr>) \<and>
     bytes rx' = rest \<and> event_ok h' ev' as \<and>
     kvs h' as = (''command'', Some (request_head (cmd, hs, b))) # values_of (hs @ length_fields b) \<and>
     body ev' = b \<and> event_id ev' = EVENT_ID_EVENTSOCKET \<and> hlive h' = hlive (hstore s) \<union> set as \<and> outside_same (set as) (hstore s) h'"
  by (rule read_request [OF assms])

lemma demo_id: "\<not> strcasecmp_eq ''command'' ''ID''" "strcasecmp_eq ''id'' ''ID''"
  by code_simp+

theorem eventsocket_request_roundtrip_witness:
  "\<exists>h' ev' rx'. read_packet demo_fp [1, 2, 3] demo_sys (demo_conn [Arrive (''sendmsg'' @ [LF] @ ''id: 7'' @ [LF] @ ''Cont''),
       Idle, Arrive (''ent-Length: 2'' @ [LF, LF]), Arrive ''h'', Idle, Arrive ''i'']) =
       Some (AGC_STATUS_SUCCESS, Some ev', [], demo_sys\<lparr>hstore := h'\<rparr>, rx') \<and> body ev' = Some ''hi'' \<and>
     lookup ''ID'' (kvs h' [1, 2, 3]) = Some ''7''"
proof -
  let ?c = "demo_conn [Arrive (''sendmsg'' @ [LF] @ ''id: 7'' @ [LF] @ ''Cont''), Idle, Arrive (''ent-Length: 2'' @ [LF, LF]),
    Arrive ''h'', Idle, Arrive ''i'']" and ?r = "(''sendmsg'', [(''id'', ''7'')], Some ''hi'') :: request"
  have n: "nat_str (Suc (Suc 0)) = ''2''" by code_simp
  have "request_ok ?r"
    by (simp add: n line_text_def packet_text_def header_ok_def length_fields_def EVTSKT_MAX_LEN_def apart_def strcasecmp_eq_def c_tolower_def)
  moreover have "bytes (sock_in ?c) = request_text ?r @ []" by (simp add: n packet_text_def length_fields_def)
  moreover have "lookup ''ID'' ((''command'', Some (request_head ?r)) # values_of ([(''id'', ''7'')] @ length_fields (Some ''hi''))) = Some ''7''"
    by (simp add: lookup_def demo_id)
  ultimately show ?thesis
    using eventsocket_request_roundtrip [of "''sendmsg''" "[(''id'', ''7'')]" "Some ''hi''" ?c "[]" "[1, 2, 3]" demo_sys demo_fp "[]"] demo_sys_facts(2)
    by (fastforce simp: length_fields_def)
qed

text \<open>
  C31: a subscription, as the thread of a connection carries it out in one round. Whatever the
  segments the request arrives in, the connection then follows exactly the events named (all of
  them when the name of all events is among the names), what it followed before is forgotten, the
  answer says whether any name was known, and no header of the request stays allocated. The names of the headers of the request
  are pairwise different, also from \<^verbatim>\<open>command\<close> and \<^verbatim>\<open>Content-Length\<close>, and the socket takes the answer.
\<close>

theorem eventsocket_subscribe:
  assumes "request_ok (''event '' @ blanks ws, hs, b)" "quiet c"
    and "bytes (sock_in c) = request_text (''event '' @ blanks ws, hs, b) @ rest"
    and "length as = Suc (length (hs @ length_fields b))" "distinct as" "NULL \<notin> set as" "set as \<inter> hlive (hstore s) = {}"
    and "ws \<noteq> []" "\<forall>w \<in> set ws. CHR '' '' \<notin> set w" "length (event_templates s) = 1024"
  shows "\<exists>c' h'. connection_round f env apis (as @ bs) c (s, x) = Some (True, None, bs, c', s\<lparr>hstore := h'\<rparr>, x) \<and>
     bytes (sock_in c') = rest \<and> hlive h' = hlive (hstore s) \<and> length (event_list c') = 1024 \<and>
     (\<forall>i < 1024. event_list c' ! i \<longleftrightarrow> selected s ws (int i)) \<and>
     (has_event c' \<longleftrightarrow> (\<exists>w \<in> set ws. event_of s w \<noteq> None)) \<and> event_queue c' = event_queue c \<and> is_running c' = is_running c \<and>
     sock_out c' = sock_out c @ ''Content-Type: command/reply'' @ [LF] @ ''Reply-Text: '' @
       (if \<exists>w \<in> set ws. event_of s w \<noteq> None then ''+OK'' else ''-ERR no keywords supplied'') @ [LF, LF]"
  by (rule round_subscribe [OF assms])

lemma demo_esl: "event_of demo_sys ''esl'' = Some 1"
  by (simp add: event_of_def agc_event_get_id_def demo_sys_def init_ids_def strcasecmp_eq_def c_tolower_def)

theorem eventsocket_subscribe_witness:
  "\<exists>c' h'. connection_round demo_fp \<lparr>alloc_ok = \<lambda>_. True, alloc_junk = \<lambda>_. NUL\<rparr> [] [1] (demo_conn demo_segments) (demo_sys, ()) =
       Some (True, None, [], c', demo_sys\<lparr>hstore := h'\<rparr>, ()) \<and>
     event_list c' ! 1 \<and> \<not> event_list c' ! 3 \<and> has_event c' \<and>
     sock_out c' = ''Content-Type: command/reply'' @ [LF] @ ''Reply-Text: +OK'' @ [LF, LF]"
proof -
  have "request_ok (''event '' @ blanks [''esl''], [], None)" using demo_request by simp
  moreover have "bytes (sock_in (demo_conn demo_segments)) = request_text (''event '' @ blanks [''esl''], [], None) @ ''x''"
    using demo_bytes by simp
  moreover have "length [1] = Suc (length ([] @ length_fields None))" "set [1] \<inter> hlive (hstore demo_sys) = {}"
    by (simp_all add: length_fields_def demo_sys_facts)
  moreover note demo_sys_facts(1)
  ultimately obtain c' h' where
    r: "connection_round demo_fp \<lparr>alloc_ok = \<lambda>_. True, alloc_junk = \<lambda>_. NUL\<rparr> [] ([1] @ []) (demo_conn demo_segments) (demo_sys, ()) =
       Some (True, None, [], c', demo_sys\<lparr>hstore := h'\<rparr>, ())"
    "\<forall>i < 1024. event_list c' ! i \<longleftrightarrow> selected demo_sys [''esl''] (int i)"
    "has_event c' \<longleftrightarrow> (\<exists>w \<in> set [''esl'']. event_of demo_sys w \<noteq> None)"
    "sock_out c' = sock_out (demo_conn demo_segments) @ ''Content-Type: command/reply'' @ [LF] @ ''Reply-Text: '' @
       (if \<exists>w \<in> set [''esl'']. event_of demo_sys w \<noteq> None then ''+OK'' else ''-ERR no keywords supplied'') @ [LF, LF]"
    using eventsocket_subscribe [of "[''esl'']" "[]" None "demo_conn demo_segments" "''x''" "[1]" demo_sys demo_fp
        "\<lparr>alloc_ok = \<lambda>_. True, alloc_junk = \<lambda>_. NUL\<rparr>" "[]" "[]" "()"] demo_conn_simps(2) [of demo_segments]
    by force
  have "event_list c' ! 1" "\<not> event_list c' ! 3"
    using r(2) [rule_format, of 1] r(2) [rule_format, of 3] by (simp_all add: selected_def demo_esl EVENT_ID_ALL_def)
  with r show ?thesis by (intro exI [of _ c'] exI [of _ h']) (simp add: demo_esl)
qed

text \<open>
  A command that a client sends with \<^verbatim>\<open>api\<close> is found by its name and run on its argument, and
  what it wrote to its stream is sent back behind a header with exactly its length.
\<close>

theorem eventsocket_api_reply:
  assumes "request_ok (''api '' @ api_line cmd arg, hs, b)" "quiet c"
    and "bytes (sock_in c) = request_text (''api '' @ api_line cmd arg, hs, b) @ rest"
    and "length as = Suc (length (hs @ length_fields b))" "distinct as" "NULL \<notin> set as" "set as \<inter> hlive (hstore s) = {}"
    and "is_running c" "CHR '' '' \<notin> set cmd" "agc_api_find apis cmd = Some api"
    and "\<And>s. api_function api arg agc_api_stand_stream (s, x) = Some (AGC_STATUS_SUCCESS, st, (s, x'))"
    and "stream_wf st" "stream_text st \<noteq> []" "length (stream_text st) < 2 ^ 31"
  shows "\<exists>c' h'. connection_round f env apis (as @ bs) c (s, x) = Some (True, None, bs, c', s\<lparr>hstore := h'\<rparr>, x') \<and>
     bytes (sock_in c') = rest \<and> hlive h' = hlive (hstore s) \<and>
     sock_out c' = sock_out c @ ''Content-Type: api/response'' @ [LF] @ ''Content-Length: '' @
       nat_str (length (stream_text st)) @ [LF, LF] @ stream_text st"
  by (rule round_api [OF assms])

text \<open>The command of the example answers with a fixed text.\<close>

definition demo_stream :: agc_stream where
  "demo_stream = \<lparr>sdata = ''up'' @ [NUL, NUL], send = 2, data_size = 4, data_len = 2, alloc_len = 4, alloc_chunk = 4, suuid = None\<rparr>"

definition demo_status :: "(evsys \<times> nat) agc_api" where
  "demo_status = \<lparr>api_name = ''status'', api_desc = None, api_syntax = None,
     api_function = (\<lambda>arg _ (s, n). Some (AGC_STATUS_SUCCESS, demo_stream, (s, n + 1)))\<rparr>"

theorem eventsocket_api_reply_witness:
  "\<exists>c' h'. connection_round demo_fp \<lparr>alloc_ok = \<lambda>_. True, alloc_junk = \<lambda>_. NUL\<rparr> [demo_status] [1]
       (demo_conn [Arrive ''api STATUS'', Arrive [LF], Idle, Arrive [LF]]) (demo_sys, 0) =
       Some (True, None, [], c', demo_sys\<lparr>hstore := h'\<rparr>, 1) \<and>
     sock_out c' = ''Content-Type: api/response'' @ [LF] @ ''Content-Length: 2'' @ [LF, LF] @ ''up''"
proof -
  let ?c = "demo_conn [Arrive ''api STATUS'', Arrive [LF], Idle, Arrive [LF]]"
  have n: "nat_str (Suc (Suc 0)) = ''2''" by code_simp
  have "request_ok (''api '' @ api_line ''STATUS'' None, [], None)"
    by (simp add: api_line_def line_text_def packet_text_def length_fields_def EVTSKT_MAX_LEN_def apart_def strcasecmp_eq_def c_tolower_def)
  moreover have "bytes (sock_in ?c) = request_text (''api '' @ api_line ''STATUS'' None, [], None) @ []"
    by (simp add: api_line_def packet_text_def length_fields_def)
  moreover have "strcasecmp_eq ''status'' ''STATUS''" by code_simp
  then have "agc_api_find [demo_status] ''STATUS'' = Some demo_status" by (simp add: demo_status_def)
  moreover have "api_function demo_status None agc_api_stand_stream (s, 0) = Some (AGC_STATUS_SUCCESS, demo_stream, (s, 1))" for s
    by (simp add: demo_status_def)
  moreover have "stream_wf demo_stream" "stream_text demo_stream = ''up''"
    by (simp_all add: stream_wf_def stream_text_def demo_stream_def)
  moreover have "length [1] = Suc (length ([] @ length_fields None))" "set [1] \<inter> hlive (hstore demo_sys) = {}"
    by (simp_all add: length_fields_def demo_sys_facts)
  ultimately obtain c' h' where
    "connection_round demo_fp \<lparr>alloc_ok = \<lambda>_. True, alloc_junk = \<lambda>_. NUL\<rparr> [demo_status] ([1] @ []) ?c (demo_sys, 0) =
       Some (True, None, [], c', demo_sys\<lparr>hstore := h'\<rparr>, 1)"
    "sock_out c' = sock_out ?c @ ''Content-Type: api/response'' @ [LF] @ ''Content-Length: '' @
       nat_str (length (stream_text demo_stream)) @ [LF, LF] @ stream_text demo_stream"
    using eventsocket_api_reply [of "''STATUS''" None "[]" None ?c "[]" "[1]" demo_sys "[demo_status]" demo_status 0 demo_stream 1 demo_fp
        "\<lparr>alloc_ok = \<lambda>_. True, alloc_junk = \<lambda>_. NUL\<rparr>" "[]"] demo_conn_simps(2,4) [of "[Arrive ''api STATUS'', Arrive [LF], Idle, Arrive [LF]]"]
    by force
  then show ?thesis using \<open>stream_text demo_stream = ''up''\<close>
    by (intro exI [of _ c'] exI [of _ h']) (simp add: n)
qed

text \<open>
  A request that repeats the name of a header, in any spelling, or that has a header named
  \<^verbatim>\<open>command\<close>, ends the thread of the connection: the headers of its event form a cycle, the round
  either never returns or frees a header twice. Commands are taken to leave the headers of events alone.
\<close>

theorem eventsocket_repeated_header:
  assumes "cmd \<noteq> []" "line_text cmd" "\<forall>p \<in> set (ks @ (n, v) # ls). header_ok p \<and> clen p = 0"
    and "apart (''command'' # map fst ks)" "m \<in> set (''command'' # map fst ks)" "strcasecmp_eq m n"
    and "length (packet_text cmd (ks @ (n, v) # ls)) \<le> EVTSKT_MAX_LEN"
    and "quiet c" "bytes (sock_in c) = packet_text cmd (ks @ (n, v) # ls) @ rest" "keeps_headers apis"
    and "length as = Suc (length ks)" "distinct as" "NULL \<notin> set as" "set as \<inter> hlive (hstore s) = {}"
  shows "connection_round f env apis (as @ bs) c (s, x) = None"
  by (rule round_repeated [OF assms])

theorem eventsocket_repeated_header_witness:
  "connection_round demo_fp \<lparr>alloc_ok = \<lambda>_. True, alloc_junk = \<lambda>_. NUL\<rparr> [] [1, 2, 3]
     (demo_conn [Arrive (''event all'' @ [LF] @ ''Id: 1'' @ [LF] @ ''id: 2'' @ [LF, LF])]) (demo_sys, ()) = None"
proof -
  let ?c = "demo_conn [Arrive (''event all'' @ [LF] @ ''Id: 1'' @ [LF] @ ''id: 2'' @ [LF, LF])]"
  have "\<forall>p \<in> set ([(''Id'', ''1'')] @ (''id'', ''2'') # []). header_ok p \<and> clen p = 0"
    by (simp add: header_ok_def line_text_def clen_def strcasecmp_eq_def c_tolower_def)
  moreover have "apart (''command'' # map fst [(''Id'', ''1'')])" by (simp add: apart_def strcasecmp_eq_def)
  moreover have "strcasecmp_eq ''Id'' ''id''" by code_simp
  moreover have "bytes (sock_in ?c) = packet_text ''event all'' ([(''Id'', ''1'')] @ (''id'', ''2'') # []) @ []"
    by (simp add: packet_text_def)
  moreover have "length (packet_text ''event all'' ([(''Id'', ''1'')] @ (''id'', ''2'') # [])) \<le> EVTSKT_MAX_LEN"
    by (simp add: packet_text_def EVTSKT_MAX_LEN_def)
  moreover have "keeps_headers ([] :: (evsys \<times> unit) agc_api list)" "line_text ''event all''"
    by (simp_all add: keeps_headers_def line_text_def)
  ultimately show ?thesis
    using eventsocket_repeated_header [of "''event all''" "[(''Id'', ''1'')]" "''id''" "''2''" "[]" "''Id''" ?c "[]" "[]" "[1, 2]" demo_sys demo_fp
        "\<lparr>alloc_ok = \<lambda>_. True, alloc_junk = \<lambda>_. NUL\<rparr>" "[3]" "()"] demo_sys_facts
    by simp
qed

end
