(* ===== verification/Agc_Eventsocket_Delivery.thy ===== *)
theory Agc_Eventsocket_Delivery
  imports Agc_Eventsocket_Session
begin

text \<open>
  From an event to the sockets: every connection that asked for the event, and has room in its
  queue, gets a copy of its own; the copies a connection finds in its queue are sent as JSON texts,
  in order and each with its length, and freed.
\<close>

section \<open>Copies\<close>

lemma dup_ok:
  assumes "event_ok h ev xs" "names_distinct h xs" "\<forall>x \<in> set xs. hvalue h x \<noteq> None"
    and "length as = length xs" "distinct as" "NULL \<notin> set as" "set as \<inter> hlive h = {}"
  shows "\<exists>h' ev'. agc_event_dup h ev as = Some (h', ev') \<and> event_ok h' ev' as \<and> kvs h' as = kvs h xs \<and>
     event_id ev' = event_id ev \<and> source_id ev' = source_id ev \<and> body ev' = body ev \<and>
     outside_same (set as) h h' \<and> hlive h' = hlive h \<union> set as"
proof -
  let ?e = "agc_event_create (event_id ev) (source_id ev)"
  have c: "hchain h (headers ev) xs NULL" using assms(1) by (simp add: event_ok_def)
  have e: "event_ok h ?e []" by (simp add: event_ok_def agc_event_create_def)
  have "\<exists>h' ev'. dup_loop h ?e as (headers ev) = Some (h', ev') \<and> event_ok h' ev' ([] @ as) \<and> kvs h' ([] @ as) = kvs h ([] @ xs) \<and>
     outside_same (set [] \<union> set as) h h' \<and> same_event ?e ev'"
    by (rule dup_loop_copies [OF c e]) (use assms in \<open>auto simp: kvs_def\<close>)
  then obtain h' ev' where r: "dup_loop h ?e as (headers ev) = Some (h', ev')" "event_ok h' ev' as" "kvs h' as = kvs h xs"
    "outside_same (set as) h h'" "same_event ?e ev'" by auto
  have "set as \<subseteq> hlive h'" using r(2) hchain_live [of h' "headers ev'" as NULL] by (simp add: event_ok_def)
  with r(4) have "hlive h' = hlive h \<union> set as" using assms(7) unfolding outside_same_def by blast
  with r same_event_fields [OF r(5)] show ?thesis
    by (auto simp: agc_event_dup_def agc_event_create_def event_ok_def split: option.splits)
qed

lemma drop_copy:
  assumes "event_ok h1 ev' as" "outside_same (set as) h h1" "hlive h1 = hlive h \<union> set as" "set as \<inter> hlive h = {}"
  shows "\<exists>h2. agc_event_destroy h1 (Some ev') = Some h2 \<and> hlive h2 = hlive h \<and> outside_same (set as) h h2"
proof -
  from destroy_chain [of h1 "headers ev'" as] assms(1) obtain h2 where
    d: "destroy_loop h1 (headers ev') = Some h2" "hlive h2 = hlive h1 - set as"
      "hname h2 = hname h1" "hvalue h2 = hvalue h1" "hnext h2 = hnext h1" by (auto simp: event_ok_def)
  have "hlive h2 = hlive h" using d(2) assms(3,4) by auto
  moreover have "outside_same (set as) h h2" using d assms(2) unfolding outside_same_def by simp
  ultimately show ?thesis using d(1) by (simp add: agc_event_destroy_def)
qed

section \<open>Who gets a copy\<close>

definition wants :: "(addr \<Rightarrow> event_connect option) \<Rightarrow> agc_event \<Rightarrow> addr \<Rightarrow> bool" where
  "wants cs ev a = (case cs a of None \<Rightarrow> False | Some c \<Rightarrow> has_event c \<and> event_list c ! nat (event_id ev))"

definition accepts :: "(addr \<Rightarrow> event_connect option) \<Rightarrow> addr \<Rightarrow> bool" where
  "accepts cs a = (case cs a of None \<Rightarrow> False | Some c \<Rightarrow> \<not> terminated (event_queue c) \<and> \<not> apr_queue_full (event_queue c))"

definition copies ::
  "(addr \<Rightarrow> event_connect option) \<Rightarrow> agc_event \<Rightarrow> (addr \<times> addr list) list \<Rightarrow> addr list \<Rightarrow> (addr \<times> addr \<times> addr list) list" where
  "copies cs ev news as = filter (\<lambda>(a, _). accepts cs a) (zip (filter (wants cs ev) as) news)"

definition cells :: "(addr \<times> addr list) list \<Rightarrow> addr set" where
  "cells news = (\<Union>n \<in> set news. set (snd n))"

text \<open>The addresses the allocator answers with: all different, none in use.\<close>

definition news_ok :: "(addr \<times> addr list) list \<Rightarrow> evsys \<Rightarrow> nat \<Rightarrow> bool" where
  "news_ok news s n \<longleftrightarrow> distinct (map fst news) \<and> distinct (concat (map snd news)) \<and> (\<forall>(e, hs) \<in> set news. length hs = n) \<and>
     NULL \<notin> cells news \<and> cells news \<inter> hlive (hstore s) = {}"

definition conn_ok :: "event_connect \<Rightarrow> bool" where
  "conn_ok c \<longleftrightarrow> qwf (event_queue c) \<and> length (event_list c) = 1024"

definition copy_at :: "evsys \<Rightarrow> agc_event \<Rightarrow> (string \<times> string option) list \<Rightarrow> addr \<Rightarrow> addr list \<Rightarrow> bool" where
  "copy_at s ev kv e hs \<longleftrightarrow> (\<exists>clone. events s e = Some clone \<and> event_ok (hstore s) clone hs \<and> kvs (hstore s) hs = kv \<and>
     event_id clone = event_id ev \<and> source_id clone = source_id ev \<and> body clone = body ev)"

lemma copies_cong:
  assumes "\<And>a. a \<in> set as \<Longrightarrow> cs' a = cs a"
  shows "copies cs' ev news as = copies cs ev news as"
proof -
  have "wants cs' ev a = wants cs ev a" if "a \<in> set as" for a using assms [OF that] by (simp add: wants_def)
  then have w: "filter (wants cs' ev) as = filter (wants cs ev) as" by (rule filter_cong [OF refl])
  have "accepts cs' a = accepts cs a" if "(a, x) \<in> set (zip (filter (wants cs ev) as) news)" for a x
    using assms [of a] set_zip_leftD [OF that] by (simp add: accepts_def)
  then show ?thesis unfolding copies_def w by (intro filter_cong [OF refl]) force
qed

lemma copies_Cons:
  "copies cs ev news (a # as) = (if \<not> wants cs ev a then copies cs ev news as
     else case news of [] \<Rightarrow> [] | n # ns \<Rightarrow> (if accepts cs a then [(a, n)] else []) @ copies cs ev ns as)"
  by (cases news) (auto simp: copies_def)

lemma copies_subset: "(a, e, hs) \<in> set (copies cs ev news as) \<Longrightarrow> a \<in> set as \<and> (e, hs) \<in> set news \<and> wants cs ev a \<and> accepts cs a"
  by (auto simp: copies_def dest: set_zip_leftD set_zip_rightD)

lemma cells_Cons: "cells ((e, hs) # news) = set hs \<union> cells news"
  by (simp add: cells_def)

lemma copy_at_frame:
  assumes "copy_at s ev kv e hs" "events s' e = events s e" "outside_same A (hstore s) (hstore s')" "set hs \<inter> A = {}"
  shows "copy_at s' ev kv e hs"
  using assms outside_event [OF _ assms(3,4)] outside_kvs [OF assms(3,4)] by (auto simp: copy_at_def)

section \<open>Delivery to the queues\<close>

text \<open>The headers the event and its copies stand on, and what the copying of one of them needs.\<close>

definition source_ok :: "evsys \<Rightarrow> agc_event \<Rightarrow> addr list \<Rightarrow> bool" where
  "source_ok s ev xs \<longleftrightarrow> event_ok (hstore s) ev xs \<and> names_distinct (hstore s) xs \<and> (\<forall>x \<in> set xs. hvalue (hstore s) x \<noteq> None) \<and>
     0 \<le> event_id ev \<and> event_id ev < EVENT_ID_LIMIT"

lemma source_frame:
  assumes "source_ok s ev xs" "outside_same A (hstore s) (hstore s')" "A \<inter> hlive (hstore s) = {}"
  shows "source_ok s' ev xs" "kvs (hstore s') xs = kvs (hstore s) xs"
proof -
  have "set xs \<subseteq> hlive (hstore s)"
    using assms(1) hchain_live [of "hstore s" "headers ev" xs NULL] by (simp add: source_ok_def event_ok_def)
  then have d: "set xs \<inter> A = {}" using assms(3) by blast
  then have "hname (hstore s') x = hname (hstore s) x \<and> hvalue (hstore s') x = hvalue (hstore s) x" if "x \<in> set xs" for x
    using assms(2) that unfolding outside_same_def by blast
  then show "source_ok s' ev xs"
    using assms(1) outside_event [OF _ assms(2) d] names_distinct_cong [of xs "hstore s'" "hstore s"] by (auto simp: source_ok_def)
  show "kvs (hstore s') xs = kvs (hstore s) xs" by (rule outside_kvs [OF assms(2) d])
qed

lemma handle_one:
  assumes "cs a = Some c" "conn_ok c" "wants cs ev a" "source_ok s ev xs"
    and "length hs = length xs" "distinct hs" "NULL \<notin> set hs" "set hs \<inter> hlive (hstore s) = {}"
  obtains s1 cs1 where "\<And>as ns. handle_conns ev ((e, hs) # ns) (a # as) s cs = handle_conns ev ns as s1 cs1"
    "outside_same (set hs) (hstore s) (hstore s1)" "\<And>b. b \<noteq> e \<Longrightarrow> events s1 b = events s b"
    "s1 = s\<lparr>hstore := hstore s1, events := events s1\<rparr>"
    "hlive (hstore s1) = hlive (hstore s) \<union> (if accepts cs a then set hs else {})"
    "accepts cs a \<Longrightarrow> copy_at s1 ev (kvs (hstore s) xs) e hs \<and>
       (\<exists>q. cs1 = cs(a \<mapsto> c\<lparr>event_queue := q\<rparr>) \<and> qwf q \<and> contents q = contents (event_queue c) @ [e])"
    "\<not> accepts cs a \<Longrightarrow> cs1 = cs"
proof -
  have so: "event_ok (hstore s) ev xs" "names_distinct (hstore s) xs" "\<forall>x \<in> set xs. hvalue (hstore s) x \<noteq> None"
    "0 \<le> event_id ev" "event_id ev < 1024" using assms(4) by (auto simp: source_ok_def EVENT_ID_LIMIT_def)
  from dup_ok [OF so(1-3) assms(5-8)] obtain h1 clone where
    d: "agc_event_dup (hstore s) ev hs = Some (h1, clone)" "event_ok h1 clone hs" "kvs h1 hs = kvs (hstore s) xs"
      "event_id clone = event_id ev" "source_id clone = source_id ev" "body clone = body ev"
      "outside_same (set hs) (hstore s) h1" "hlive h1 = hlive (hstore s) \<union> set hs" by blast
  have w: "has_event c" "arr_get (event_list c) (event_id ev) = Some True"
    using assms(1-3) so(4,5) by (auto simp: wants_def arr_get_def conn_ok_def)
  have qw: "qwf (event_queue c)" using assms(2) by (simp add: conn_ok_def)
  let ?s = "s\<lparr>hstore := h1, events := (events s)(e \<mapsto> clone)\<rparr>"
  show ?thesis
  proof (cases "accepts cs a")
    case True
    then have ac: "\<not> terminated (event_queue c)" "\<not> apr_queue_full (event_queue c)" using assms(1) by (auto simp: accepts_def)
    from queue_put_ok [OF qw ac(2), of e] obtain q where
      q: "queue_put (event_queue c) e = Some q" "qwf q" "contents q = contents (event_queue c) @ [e]" by blast
    then have "apr_queue_trypush (event_queue c) e = Some (APR_SUCCESS, q)" using ac by (simp add: apr_queue_trypush_def)
    then show ?thesis using True assms(1) w d q
      by (intro that [of ?s "cs(a \<mapsto> c\<lparr>event_queue := q\<rparr>)"]) (auto simp: copy_at_def)
  next
    case False
    then have "\<exists>st. st \<noteq> APR_SUCCESS \<and> apr_queue_trypush (event_queue c) e = Some (st, event_queue c)"
      using assms(1) by (auto simp: accepts_def apr_queue_trypush_def)
    then obtain st where st: "st \<noteq> APR_SUCCESS" "apr_queue_trypush (event_queue c) e = Some (st, event_queue c)" by blast
    from drop_copy [OF d(2,7,8) assms(8)] obtain h2 where
      h2: "agc_event_destroy h1 (Some clone) = Some h2" "hlive h2 = hlive (hstore s)" "outside_same (set hs) (hstore s) h2" by blast
    show ?thesis using False assms(1) w d(1) st h2
      by (intro that [of "?s\<lparr>hstore := h2\<rparr>" cs]) auto
  qed
qed

lemma handle_conns_ok:
  "distinct as \<Longrightarrow> \<forall>a \<in> set as. \<exists>c. cs a = Some c \<and> conn_ok c \<Longrightarrow> source_ok s ev xs \<Longrightarrow> news_ok news s (length xs) \<Longrightarrow>
   length as \<le> length news \<Longrightarrow>
   \<exists>s' cs'. handle_conns ev news as s cs = Some (s', cs') \<and>
     (\<forall>(a, e, hs) \<in> set (copies cs ev news as). copy_at s' ev (kvs (hstore s) xs) e hs \<and>
        (\<exists>c q. cs a = Some c \<and> cs' a = Some (c\<lparr>event_queue := q\<rparr>) \<and> qwf q \<and> contents q = contents (event_queue c) @ [e])) \<and>
     (\<forall>a. a \<notin> fst ` set (copies cs ev news as) \<longrightarrow> cs' a = cs a) \<and>
     hlive (hstore s') = hlive (hstore s) \<union> (\<Union>(a, e, hs) \<in> set (copies cs ev news as). set hs) \<and>
     outside_same (cells news) (hstore s) (hstore s') \<and> (\<forall>e. e \<notin> fst ` set news \<longrightarrow> events s' e = events s e) \<and>
     s' = s\<lparr>hstore := hstore s', events := events s'\<rparr>"
proof (induction as arbitrary: news s cs)
  case Nil
  then show ?case by (simp add: copies_def outside_same_refl)
next
  case (Cons a as)
  from Cons.prems(2) obtain c where c: "cs a = Some c" "conn_ok c" by auto
  show ?case
  proof (cases "wants cs ev a")
    case False
    have "arr_get (event_list c) (event_id ev) = Some (event_list c ! nat (event_id ev))"
      using c(2) Cons.prems(3) by (auto simp: arr_get_def conn_ok_def source_ok_def EVENT_ID_LIMIT_def)
    then have "handle_conns ev news (a # as) s cs = handle_conns ev news as s cs"
      using c False by (simp add: wants_def)
    moreover have "copies cs ev news (a # as) = copies cs ev news as" using False by (simp add: copies_Cons)
    ultimately show ?thesis using Cons.IH [of cs s news] Cons.prems by simp
  next
    case w: True
    from Cons.prems(5) obtain e hs ns where n: "news = (e, hs) # ns" by (cases news) auto
    have hs: "length hs = length xs" "distinct hs" "NULL \<notin> set hs" "set hs \<inter> hlive (hstore s) = {}" "set hs \<inter> cells ns = {}"
      "e \<notin> fst ` set ns"
      using Cons.prems(4) n by (auto simp: news_ok_def cells_def)
    from handle_one [OF c w Cons.prems(3) hs(1-4), of e] obtain s1 cs1 where
      o: "\<And>as ns. handle_conns ev ((e, hs) # ns) (a # as) s cs = handle_conns ev ns as s1 cs1"
      "outside_same (set hs) (hstore s) (hstore s1)" "\<And>b. b \<noteq> e \<Longrightarrow> events s1 b = events s b"
      "s1 = s\<lparr>hstore := hstore s1, events := events s1\<rparr>"
      "hlive (hstore s1) = hlive (hstore s) \<union> (if accepts cs a then set hs else {})"
      "accepts cs a \<Longrightarrow> copy_at s1 ev (kvs (hstore s) xs) e hs \<and>
         (\<exists>q. cs1 = cs(a \<mapsto> c\<lparr>event_queue := q\<rparr>) \<and> qwf q \<and> contents q = contents (event_queue c) @ [e])"
      "\<not> accepts cs a \<Longrightarrow> cs1 = cs" by blast
    have same: "cs1 b = cs b" if "b \<noteq> a" for b using o(6,7) that by (cases "accepts cs a") auto
    have cc: "copies cs1 ev ns as = copies cs ev ns as"
      by (rule copies_cong, rule same) (use Cons.prems(1) in auto)
    note sf = source_frame [OF Cons.prems(3) o(2) hs(4)]
    have ds: "distinct as" "length as \<le> length ns" using Cons.prems(1,5) n by auto
    have as_ok: "\<forall>b \<in> set as. \<exists>c. cs1 b = Some c \<and> conn_ok c"
    proof
      fix b assume "b \<in> set as"
      then have "b \<noteq> a" "\<exists>c. cs b = Some c \<and> conn_ok c" using Cons.prems(1,2) by auto
      then show "\<exists>c. cs1 b = Some c \<and> conn_ok c" using same by simp
    qed
    have nok: "news_ok ns s1 (length xs)"
      using Cons.prems(4) n hs(5) o(5) by (auto simp: news_ok_def cells_Cons split: if_splits)
    from Cons.IH [OF ds(1) as_ok sf(1) nok ds(2)] obtain s' cs' where
      r: "handle_conns ev ns as s1 cs1 = Some (s', cs')"
      "\<forall>(a, e, hs) \<in> set (copies cs ev ns as). copy_at s' ev (kvs (hstore s) xs) e hs \<and>
          (\<exists>c q. cs1 a = Some c \<and> cs' a = Some (c\<lparr>event_queue := q\<rparr>) \<and> qwf q \<and> contents q = contents (event_queue c) @ [e])"
      "\<forall>a. a \<notin> fst ` set (copies cs ev ns as) \<longrightarrow> cs' a = cs1 a"
      "hlive (hstore s') = hlive (hstore s1) \<union> (\<Union>(a, e, hs) \<in> set (copies cs ev ns as). set hs)"
      "outside_same (cells ns) (hstore s1) (hstore s')" "\<forall>e. e \<notin> fst ` set ns \<longrightarrow> events s' e = events s1 e"
      "s' = s1\<lparr>hstore := hstore s', events := events s'\<rparr>"
      unfolding cc sf(2) by blast
    have na: "a \<notin> fst ` set (copies cs ev ns as)" using Cons.prems(1) copies_subset by fastforce
    have cp: "copies cs ev news (a # as) = (if accepts cs a then [(a, e, hs)] else []) @ copies cs ev ns as"
      using w n by (simp add: copies_Cons)
    have later: "\<forall>(b, e, hs) \<in> set (copies cs ev ns as). copy_at s' ev (kvs (hstore s) xs) e hs \<and>
        (\<exists>c q. cs b = Some c \<and> cs' b = Some (c\<lparr>event_queue := q\<rparr>) \<and> qwf q \<and> contents q = contents (event_queue c) @ [e])"
    proof safe
      fix b e' hs' assume m: "(b, e', hs') \<in> set (copies cs ev ns as)"
      then have "b \<noteq> a" using na by force
      with r(2) m same show "copy_at s' ev (kvs (hstore s) xs) e' hs'"
        "\<exists>c q. cs b = Some c \<and> cs' b = Some (c\<lparr>event_queue := q\<rparr>) \<and> qwf q \<and> contents q = contents (event_queue c) @ [e']" by fastforce+
    qed
    have first: "copy_at s' ev (kvs (hstore s) xs) e hs \<and>
        (\<exists>c q. cs a = Some c \<and> cs' a = Some (c\<lparr>event_queue := q\<rparr>) \<and> qwf q \<and> contents q = contents (event_queue c) @ [e])" if "accepts cs a"
    proof -
      from o(6) [OF that] obtain q where q: "copy_at s1 ev (kvs (hstore s) xs) e hs" "cs1 = cs(a \<mapsto> c\<lparr>event_queue := q\<rparr>)" "qwf q"
        "contents q = contents (event_queue c) @ [e]" by blast
      have "copy_at s' ev (kvs (hstore s) xs) e hs"
        by (rule copy_at_frame [OF q(1) _ r(5) hs(5)]) (use r(6) hs(6) in blast)
      then show ?thesis using q c(1) r(3) na by auto
    qed
    have "outside_same (cells news) (hstore s) (hstore s')"
      using outside_same_trans [OF o(2) r(5)] n by (simp add: cells_Cons)
    moreover have "cs' b = cs b" if "b \<notin> fst ` set (copies cs ev news (a # as))" for b
    proof (cases "accepts cs a")
      case True
      with that r(3) same [of b] cp show ?thesis by auto
    next
      case False
      with that r(3) o(7) cp show ?thesis by simp
    qed
    moreover have "s' = s\<lparr>hstore := hstore s', events := events s'\<rparr>"
      by (subst r(7), subst o(4)) simp
    moreover have "\<forall>b. b \<notin> fst ` set news \<longrightarrow> events s' b = events s b" using r(6) o(3) n by auto
    moreover have "hlive (hstore s') = hlive (hstore s) \<union> (\<Union>(a, e, hs) \<in> set (copies cs ev news (a # as)). set hs)"
      unfolding r(4) o(5) cp by (auto split: if_splits)
    moreover have "\<forall>(a, e, hs) \<in> set (copies cs ev news (a # as)). copy_at s' ev (kvs (hstore s) xs) e hs \<and>
        (\<exists>c q. cs a = Some c \<and> cs' a = Some (c\<lparr>event_queue := q\<rparr>) \<and> qwf q \<and> contents q = contents (event_queue c) @ [e])"
      using later first unfolding cp by (auto split: if_splits)
    ultimately show ?thesis using r(1) o(1) n by (intro exI [of _ s'] exI [of _ cs']) simp
  qed
qed

section \<open>From the queue to the socket\<close>

text \<open>An event in a queue: its address, the cells of its headers and its JSON text.\<close>

definition queued_event :: "'d fp \<Rightarrow> evsys \<Rightarrow> addr \<times> addr list \<times> string \<Rightarrow> bool" where
  "queued_event f s p \<longleftrightarrow> (case p of (e, xs, t) \<Rightarrow> \<exists>ev kv name. events s e = Some ev \<and> event_ok (hstore s) ev xs \<and>
     kvs (hstore s) xs = values_of kv \<and> arr_get (event_templates s) (event_id ev) = Some name \<and>
     cJSON_PrintUnformatted f (object_of f (kv @ id_fields ev @ extra_fields name ev @ body_fields ev)) = Val t)"

definition frames :: "(addr \<times> addr list \<times> string) list \<Rightarrow> string" where
  "frames qs = concat (map (\<lambda>(e, xs, t). event_header (length t) @ t) qs)"

lemma event_header_text:
  "event_header k = ''Content-Length: '' @ int_str (to_int32 (int k)) @ [LF] @ ''Content-Type: text/event-json'' @ [LF, LF]"
proof -
  have "length (int_str (to_int32 (int k))) \<le> 11"
    using signed_take_bit_int_greater_eq_minus_exp [of 31 "int k"] signed_take_bit_int_less_exp [of 31 "int k"]
    by (intro int_str_length) (simp_all add: to_int32_def)
  then show ?thesis by (simp add: event_header_def c_snprintf_def)
qed

lemma queued_frame:
  assumes "queued_event f s (e, xs, t)" "outside_same A (hstore s) h" "set xs \<inter> A = {}"
  shows "queued_event f (s\<lparr>hstore := h\<rparr>) (e, xs, t)"
  using assms(1) outside_event [OF _ assms(2,3)] outside_kvs [OF assms(2,3)] unfolding queued_event_def by fastforce

lemma send_events_all:
  "contents (event_queue c) = map fst qs \<Longrightarrow> qwf (event_queue c) \<Longrightarrow> \<not> terminated (event_queue c) \<Longrightarrow>
   \<forall>p \<in> set qs. queued_event f s p \<Longrightarrow> distinct (concat (map (fst \<circ> snd) qs)) \<Longrightarrow>
   \<exists>h' q'. send_events f s c = Some (s\<lparr>hstore := h'\<rparr>, c\<lparr>event_queue := q', sock_out := sock_out c @ frames qs\<rparr>) \<and>
     contents q' = [] \<and> qwf q' \<and> hlive h' = hlive (hstore s) - (\<Union>p \<in> set qs. set (fst (snd p)))"
proof (induction qs arbitrary: s c)
  case Nil
  then have "apr_queue_empty (event_queue c)" by (simp add: contents_def apr_queue_empty_def unat_eq_zero)
  then have "send_events f s c = Some (s, c)" using Nil by (subst send_events.simps) (simp add: apr_queue_trypop_def)
  then show ?case using Nil by (intro exI [of _ "hstore s"] exI [of _ "event_queue c"]) (simp add: frames_def)
next
  case (Cons p qs)
  obtain e xs t where p: "p = (e, xs, t)" by (cases p)
  have "\<not> apr_queue_empty (event_queue c)" using Cons.prems(1) by (auto simp: contents_def apr_queue_empty_def)
  from queue_take_ok [OF Cons.prems(2) this] Cons.prems(1) p obtain q where
    q: "queue_take (event_queue c) = Some (e, q)" "qwf q" "contents q = map fst qs" "\<not> terminated q"
    using Cons.prems(3) by auto
  from Cons.prems(4) p obtain ev kv name where
    ev: "events s e = Some ev" "event_ok (hstore s) ev xs" "kvs (hstore s) xs = values_of kv"
      "arr_get (event_templates s) (event_id ev) = Some name"
      "cJSON_PrintUnformatted f (object_of f (kv @ id_fields ev @ extra_fields name ev @ body_fields ev)) = Val t"
    by (auto simp: queued_event_def)
  have js: "agc_event_serialize_json f (event_templates s) (hstore s) ev = Some (AGC_STATUS_SUCCESS, Some t)"
    using serialize_fields [OF ev(2-4), of f] ev(5) by (simp add: agc_event_serialize_json_def)
  from destroy_chain [of "hstore s" "headers ev" xs] ev(2) obtain h where
    h: "destroy_loop (hstore s) (headers ev) = Some h" "hlive h = hlive (hstore s) - set xs"
      "hname h = hname (hstore s)" "hvalue h = hvalue (hstore s)" "hnext h = hnext (hstore s)" by (auto simp: event_ok_def)
  have out: "outside_same (set xs) (hstore s) h" using h by (auto simp: outside_same_def)
  let ?c = "sock_send (c\<lparr>event_queue := q\<rparr>) (event_header (length t) @ t)"
  have step: "send_events f s c = send_events f (s\<lparr>hstore := h\<rparr>) ?c"
    using Cons.prems(3) \<open>\<not> apr_queue_empty (event_queue c)\<close> q(1) ev(1) js h(1)
    by (subst send_events.simps) (simp add: apr_queue_trypop_def agc_event_destroy_def)
  have "\<forall>p \<in> set qs. queued_event f (s\<lparr>hstore := h\<rparr>) p"
  proof
    fix r assume r: "r \<in> set qs"
    obtain e' xs' t' where r': "r = (e', xs', t')" by (cases r)
    have "set xs' \<inter> set xs = {}" using Cons.prems(5) p r r' by force
    with queued_frame [OF _ out, of f e' xs' t'] Cons.prems(4) r r' show "queued_event f (s\<lparr>hstore := h\<rparr>) r" by auto
  qed
  from Cons.IH [OF _ _ _ this, of ?c] Cons.prems(5) q obtain h' q' where
    "send_events f (s\<lparr>hstore := h\<rparr>) ?c = Some (s\<lparr>hstore := h'\<rparr>, ?c\<lparr>event_queue := q', sock_out := sock_out ?c @ frames qs\<rparr>)"
    "contents q' = []" "qwf q'" "hlive h' = hlive h - (\<Union>p \<in> set qs. set (fst (snd p)))"
    by (auto simp: sock_send_def)
  with step h(2) p show ?case
    by (intro exI [of _ h'] exI [of _ q']) (auto simp: sock_send_def frames_def)
qed

section \<open>Properties\<close>

text \<open>
  C28: an event that is delivered to the module reaches, as a separate copy with the same id, source,
  headers and body, the end of the queue of every listed connection that follows its id and has
  room, and changes no other connection; the headers of a copy for a queue that is full or terminated are freed
  again, so that exactly the headers of the delivered copies stay allocated; the event itself is unchanged. The event structure of a
  copy that is not delivered is not freed by the code.
\<close>

theorem eventsocket_delivers:
  assumes "ready l" "distinct (connections l)" "\<forall>a \<in> set (connections l). \<exists>c. conns l a = Some c \<and> conn_ok c"
    and "source_ok s ev xs" "news_ok news s (length xs)" "length (connections l) \<le> length news"
  shows "\<exists>s' l'. handle_event ev news s l = Some (s', l') \<and>
     (\<forall>(a, e, hs) \<in> set (copies (conns l) ev news (connections l)). copy_at s' ev (kvs (hstore s) xs) e hs \<and>
        (\<exists>c q. conns l a = Some c \<and> conns l' a = Some (c\<lparr>event_queue := q\<rparr>) \<and> qwf q \<and> contents q = contents (event_queue c) @ [e])) \<and>
     fst ` set (copies (conns l) ev news (connections l)) = {a \<in> set (connections l). wants (conns l) ev a \<and> accepts (conns l) a} \<and>
     (\<forall>a. a \<notin> fst ` set (copies (conns l) ev news (connections l)) \<longrightarrow> conns l' a = conns l a) \<and>
     hlive (hstore s') = hlive (hstore s) \<union> (\<Union>(a, e, hs) \<in> set (copies (conns l) ev news (connections l)). set hs) \<and>
     source_ok s' ev xs \<and> kvs (hstore s') xs = kvs (hstore s) xs \<and> l' = l\<lparr>conns := conns l'\<rparr>"
proof -
  let ?cp = "copies (conns l) ev news (connections l)"
  from handle_conns_ok [OF assms(2-6)] obtain s' cs' where
    r: "handle_conns ev news (connections l) s (conns l) = Some (s', cs')"
    "\<forall>(a, e, hs) \<in> set ?cp. copy_at s' ev (kvs (hstore s) xs) e hs \<and>
        (\<exists>c q. conns l a = Some c \<and> cs' a = Some (c\<lparr>event_queue := q\<rparr>) \<and> qwf q \<and> contents q = contents (event_queue c) @ [e])"
    "\<forall>a. a \<notin> fst ` set ?cp \<longrightarrow> cs' a = conns l a"
    "hlive (hstore s') = hlive (hstore s) \<union> (\<Union>(a, e, hs) \<in> set ?cp. set hs)"
    "outside_same (cells news) (hstore s) (hstore s')" by blast
  have cl: "cells news \<inter> hlive (hstore s) = {}" using assms(5) by (simp add: news_ok_def)
  have len: "length (filter (wants (conns l) ev) (connections l)) \<le> length news"
    using assms(6) length_filter_le [of "wants (conns l) ev" "connections l"] by linarith
  have "fst ` set ?cp = {a \<in> set (connections l). wants (conns l) ev a \<and> accepts (conns l) a}"
  proof (intro equalityI subsetI)
    fix a assume "a \<in> {a \<in> set (connections l). wants (conns l) ev a \<and> accepts (conns l) a}"
    then have a: "a \<in> set (filter (wants (conns l) ev) (connections l))" "accepts (conns l) a" by auto
    then obtain i where i: "i < length (filter (wants (conns l) ev) (connections l))" "filter (wants (conns l) ev) (connections l) ! i = a"
      unfolding in_set_conv_nth by blast
    then have "(a, news ! i) \<in> set (zip (filter (wants (conns l) ev) (connections l)) news)"
      using len by (force simp: set_zip)
    then show "a \<in> fst ` set ?cp" using a(2) unfolding copies_def by force
  qed (use copies_subset in fastforce)
  then show ?thesis
    using r source_frame [OF assms(4) r(5) cl] assms(1)
    by (intro exI [of _ s'] exI [of _ "l\<lparr>conns := cs'\<rparr>"]) (simp add: handle_event_def)
qed

definition demo_follower :: event_connect where
  "demo_follower = (demo_conn [])\<lparr>has_event := True, event_list := (replicate 1024 False)[3 := True]\<rparr>"

definition demo_listener :: listener where
  "demo_listener = \<lparr>ready = True, connections = [10, 11], conns = [10 \<mapsto> demo_follower, 11 \<mapsto> demo_conn []], threads = 2,
     profile_done = False, profile_ip = [], profile_port = 0\<rparr>"

lemma demo_follower_facts:
  "has_event demo_follower" "event_list demo_follower ! 3" "conn_ok demo_follower" "contents (event_queue demo_follower) = []"
  "\<not> terminated (event_queue demo_follower)" "\<not> apr_queue_full (event_queue demo_follower)" "conn_ok (demo_conn rx)" "\<not> has_event (demo_conn rx)"
proof -
  have "apr_queue_full (apr_queue_create 100000) = False" by (simp add: apr_queue_full_def apr_queue_create_def)
  then show "has_event demo_follower" "event_list demo_follower ! 3" "conn_ok demo_follower" "contents (event_queue demo_follower) = []"
    "\<not> terminated (event_queue demo_follower)" "\<not> apr_queue_full (event_queue demo_follower)" "conn_ok (demo_conn rx)" "\<not> has_event (demo_conn rx)"
    by (simp_all add: demo_follower_def demo_conn_def new_connection_def conn_ok_def queue_create_wf EVENT_ID_LIMIT_def MAX_QUEUE_LEN_def)
qed

lemma demo_source: "source_ok (demo_sys\<lparr>hstore := demo_headers\<rparr>) demo_event [1, 2]"
  using demo_event_ok by (simp add: source_ok_def names_distinct_def demo_names EVENT_ID_LIMIT_def)
    (simp add: demo_headers_def demo_event_def agc_event_create_def demo_names)

theorem eventsocket_delivers_witness:
  "\<exists>s' l'. handle_event demo_event [(20, [5, 6]), (21, [7, 8])] (demo_sys\<lparr>hstore := demo_headers\<rparr>) demo_listener = Some (s', l') \<and>
     copy_at s' demo_event [(''uuid'', Some ''7''), (''code'', Some ''7'')] 20 [5, 6] \<and>
     (\<exists>q. conns l' 10 = Some (demo_follower\<lparr>event_queue := q\<rparr>) \<and> contents q = [20]) \<and> conns l' 11 = conns demo_listener 11"
proof -
  let ?s = "demo_sys\<lparr>hstore := demo_headers\<rparr>" and ?n = "[(20, [5, 6]), (21, [7, 8])] :: (addr \<times> addr list) list"
  have id: "event_id demo_event = 3" by (simp add: demo_event_def agc_event_create_def)
  have c: "conns demo_listener 10 = Some demo_follower" "conns demo_listener 11 = Some (demo_conn [])" "connections demo_listener = [10, 11]"
    "ready demo_listener" by (simp_all add: demo_listener_def)
  have cp: "copies (conns demo_listener) demo_event ?n (connections demo_listener) = [(10, 20, [5, 6])]"
    using demo_follower_facts by (simp add: copies_def wants_def accepts_def c id)
  have "news_ok ?n ?s (length [1::nat, 2])" by (simp add: news_ok_def cells_def demo_headers_def)
  moreover have "\<forall>a \<in> set (connections demo_listener). \<exists>c. conns demo_listener a = Some c \<and> conn_ok c"
    using demo_follower_facts by (simp add: c)
  moreover have "kvs (hstore ?s) [1, 2] = [(''uuid'', Some ''7''), (''code'', Some ''7'')]" by (simp add: kvs_def demo_headers_def)
  ultimately obtain s' l' where
    "handle_event demo_event ?n ?s demo_listener = Some (s', l')"
    "\<forall>(a, e, hs) \<in> set [(10, 20, [5, 6])]. copy_at s' demo_event (kvs (hstore ?s) [1, 2]) e hs \<and>
        (\<exists>c q. conns demo_listener a = Some c \<and> conns l' a = Some (c\<lparr>event_queue := q\<rparr>) \<and> qwf q \<and> contents q = contents (event_queue c) @ [e])"
    "\<forall>a. a \<notin> fst ` set [(10 :: addr, 20 :: addr, [5 :: addr, 6])] \<longrightarrow> conns l' a = conns demo_listener a"
    using eventsocket_delivers [OF c(4) _ _ demo_source, of ?n] c(3) unfolding cp by force
  then show ?thesis using c(1) demo_follower_facts(4) \<open>kvs (hstore ?s) [1, 2] = _\<close>
    by (intro exI [of _ s'] exI [of _ l']) auto
qed

text \<open>
  When a connection finds events in its queue it sends the JSON text of each, in order and behind
  a header with exactly its length, and frees the headers of all of them; the queue is empty then.
\<close>

theorem eventsocket_sends_queue:
  assumes "contents (event_queue c) = map fst qs" "qwf (event_queue c)" "\<not> terminated (event_queue c)"
    and "\<forall>p \<in> set qs. queued_event f s p" "distinct (concat (map (fst \<circ> snd) qs))"
  shows "\<exists>h' q'. send_events f s c = Some (s\<lparr>hstore := h'\<rparr>, c\<lparr>event_queue := q', sock_out := sock_out c @
       concat (map (\<lambda>(e, xs, t). ''Content-Length: '' @ int_str (to_int32 (int (length t))) @ [LF] @
         ''Content-Type: text/event-json'' @ [LF, LF] @ t) qs)\<rparr>) \<and>
     contents q' = [] \<and> qwf q' \<and> hlive h' = hlive (hstore s) - (\<Union>p \<in> set qs. set (fst (snd p)))"
  using send_events_all [OF assms] unfolding frames_def event_header_text append_assoc .

theorem eventsocket_sends_queue_witness:
  "\<exists>s' c' t. send_events demo_fp (demo_sys\<lparr>events := [20 \<mapsto> demo_event], hstore := demo_headers\<rparr>)
       (demo_follower\<lparr>event_queue := (apr_queue_create 2)\<lparr>qdata := [20, 0], qin := 1, qnelts := 1\<rparr>\<rparr>) = Some (s', c') \<and>
     sock_out c' = ''Content-Length: '' @ int_str (to_int32 (int (length t))) @ [LF] @ ''Content-Type: text/event-json'' @ [LF, LF] @ t \<and>
     hlive (hstore s') = {}"
proof -
  let ?q = "(apr_queue_create 2)\<lparr>qdata := [20, 0], qin := 1, qnelts := 1\<rparr>" and ?kv = "[(''uuid'', ''7''), (''code'', ''7'')] :: fields"
  let ?c = "demo_follower\<lparr>event_queue := ?q\<rparr>" and ?s = "demo_sys\<lparr>events := [20 \<mapsto> demo_event], hstore := demo_headers\<rparr>"
  let ?all = "?kv @ id_fields demo_event @ extra_fields (Some ''sig2media'') demo_event @ body_fields demo_event"
  have "text_fields ?all" by (simp add: text_fields_def id_fields_def extra_fields_def body_fields_def demo_event_def agc_event_create_def int_str_text)
  moreover have "fields_fit ?all" by code_simp
  ultimately obtain t where
    t: "cJSON_PrintUnformatted demo_fp (object_of demo_fp ?all) = Val t"
    using print_parse [OF demo_fp_exact object_of_value object_of_fits, of ?all False] unfolding cJSON_PrintUnformatted_def by blast
  have "arr_get (event_templates ?s) (event_id demo_event) = Some (Some ''sig2media'')"
    by (simp add: arr_get_def demo_sys_def init_ids_def demo_event_def agc_event_create_def)
  moreover have "kvs demo_headers [1, 2] = values_of ?kv" by (simp add: kvs_def demo_headers_def)
  ultimately have "queued_event demo_fp ?s (20, [1, 2], t)" using t demo_event_ok
    unfolding queued_event_def prod.case by (intro exI [of _ demo_event] exI [of _ ?kv] exI [of _ "Some ''sig2media''"]) simp
  moreover have "contents ?q = [20]" "qwf ?q" "\<not> terminated ?q"
    by (simp_all add: contents_def qwf_def apr_queue_create_def)
  ultimately obtain s' c' where "send_events demo_fp ?s ?c = Some (s', c')"
    "sock_out c' = sock_out ?c @ concat (map (\<lambda>(e, xs, t). ''Content-Length: '' @ int_str (to_int32 (int (length t))) @ [LF] @
         ''Content-Type: text/event-json'' @ [LF, LF] @ t) [(20 :: addr, [1, 2 :: addr], t)])"
    "hlive (hstore s') = hlive (hstore ?s) - (\<Union>p \<in> set [(20 :: addr, [1, 2 :: addr], t)]. set (fst (snd p)))"
    using eventsocket_sends_queue [of ?c "[(20, [1, 2], t)]" demo_fp ?s] by force
  moreover have "sock_out ?c = []" by (simp add: demo_follower_def)
  moreover have "hlive (hstore ?s) = {1, 2}" by (simp add: demo_headers_def)
  ultimately show ?thesis by (intro exI [of _ s'] exI [of _ c'] exI [of _ t]) simp
qed

end
