(* ===== verification/Agc_Logfile.thy ===== *)
theory Agc_Logfile
  imports Agc_Log Agc_Module
begin

text \<open>
  The log files of \<^verbatim>\<open>src/src/mod/loggers/mod_logfile/mod_logfile.c\<close>: the logger that is bound to the
  log, the writing of a message, the rotation of the files when the current one has grown to its
  limit, and the configuration. The directory is a map from names to contents. Whether the
  \<open>k\<close>-th operation on it succeeds is the parameter \<open>ok\<close>; an operation that fails changes nothing, and
  a write that succeeds writes all of its bytes. \<^const>\<open>None\<close> is a write outside a buffer.
\<close>

section \<open>The directory and the profile\<close>

datatype file_handle = No_file | Open_file | Closed_file

record logdir =
  files :: "string \<rightharpoonup> string"
  fops :: nat
  log_size :: nat
  roll_size :: nat
  max_files :: nat
  log_afd :: file_handle
  lf_level :: nat
  logfile :: string
  log_session :: bool

definition file_exists :: "string \<Rightarrow> logdir \<Rightarrow> bool" where
  "file_exists name s \<longleftrightarrow> files s name \<noteq> None"

definition file_remove :: "(nat \<Rightarrow> bool) \<Rightarrow> string \<Rightarrow> logdir \<Rightarrow> agc_status \<times> logdir" where
  "file_remove ok name s =
     (let t = s\<lparr>fops := fops s + 1\<rparr> in
      if ok (fops s) \<and> file_exists name s then (AGC_STATUS_SUCCESS, t\<lparr>files := (files s)(name := None)\<rparr>) else (AGC_STATUS_GENERR, t))"

definition file_rename :: "(nat \<Rightarrow> bool) \<Rightarrow> string \<Rightarrow> string \<Rightarrow> logdir \<Rightarrow> agc_status \<times> logdir" where
  "file_rename ok from_path to_path s =
     (let t = s\<lparr>fops := fops s + 1\<rparr> in
      if ok (fops s) \<and> file_exists from_path s
      then (AGC_STATUS_SUCCESS, t\<lparr>files := (files s)(from_path := None, to_path := files s from_path)\<rparr>)
      else (AGC_STATUS_GENERR, t))"

definition file_open :: "(nat \<Rightarrow> bool) \<Rightarrow> string \<Rightarrow> logdir \<Rightarrow> agc_status \<times> logdir" where
  "file_open ok name s =
     (let t = s\<lparr>fops := fops s + 1\<rparr> in
      if ok (fops s) then (AGC_STATUS_SUCCESS, t\<lparr>files := (files s)(name \<mapsto> (case files s name of None \<Rightarrow> [] | Some c \<Rightarrow> c))\<rparr>)
      else (AGC_STATUS_GENERR, t))"

text \<open>The open file is the current log file: it is renamed only after it was closed.\<close>

definition file_write :: "(nat \<Rightarrow> bool) \<Rightarrow> string \<Rightarrow> logdir \<Rightarrow> agc_status \<times> nat \<times> logdir" where
  "file_write ok data s =
     (let t = s\<lparr>fops := fops s + 1\<rparr> in
      case files s (logfile s) of
        Some c \<Rightarrow> if ok (fops s) \<and> log_afd s = Open_file
                  then (AGC_STATUS_SUCCESS, length data, t\<lparr>files := (files s)(logfile s \<mapsto> c @ data)\<rparr>)
                  else (AGC_STATUS_GENERR, 0, t)
      | None \<Rightarrow> (AGC_STATUS_GENERR, 0, t))"

definition file_close :: "logdir \<Rightarrow> logdir" where
  "file_close s = s\<lparr>log_afd := Closed_file\<rparr>"

definition file_size :: "logdir \<Rightarrow> nat" where
  "file_size s = (case files s (logfile s) of None \<Rightarrow> 0 | Some c \<Rightarrow> length c)"

section \<open>Rotation\<close>

text \<open>\<^verbatim>\<open>sprintf\<close> into a buffer of 256 bytes.\<close>

definition numbered :: "logdir \<Rightarrow> nat \<Rightarrow> string option" where
  "numbered s i = (let name = logfile s @ ''.'' @ int_str (to_int32 (int i)) in if length name < 256 then Some name else None)"

text \<open>\<^verbatim>\<open>mod_logfile_openlogfile\<close> up to the check of the size.\<close>

definition open_log :: "(nat \<Rightarrow> bool) \<Rightarrow> logdir \<Rightarrow> agc_status \<times> logdir" where
  "open_log ok s = (case file_open ok (logfile s) s of (stat, s) \<Rightarrow>
     if stat \<noteq> AGC_STATUS_SUCCESS then (AGC_STATUS_FALSE, s)
     else (let s = s\<lparr>log_afd := Open_file\<rparr> in (AGC_STATUS_SUCCESS, s\<lparr>log_size := file_size s\<rparr>)))"

definition remove_old :: "(nat \<Rightarrow> bool) \<Rightarrow> string \<Rightarrow> logdir \<Rightarrow> agc_status \<times> logdir" where
  "remove_old ok to s = (if file_exists to s then file_remove ok to s else (AGC_STATUS_SUCCESS, s))"

fun rotate_loop :: "(nat \<Rightarrow> bool) \<Rightarrow> nat \<Rightarrow> logdir \<Rightarrow> (agc_status \<times> nat \<times> logdir) option" where
  "rotate_loop ok 0 s = Some (AGC_STATUS_SUCCESS, 0, s)"
| "rotate_loop ok (Suc i) s =
     (if i = 0 then Some (AGC_STATUS_SUCCESS, Suc i, s)
      else do {
        to \<leftarrow> numbered s (Suc i);
        from \<leftarrow> numbered s i;
        (case remove_old ok to s of (status, s) \<Rightarrow>
           if status \<noteq> AGC_STATUS_SUCCESS then Some (status, Suc i, s)
           else (case (if file_exists from s then file_rename ok from to s else (AGC_STATUS_SUCCESS, s)) of (status, s) \<Rightarrow>
             if status \<noteq> AGC_STATUS_SUCCESS then Some (status, Suc i, s)
             else rotate_loop ok i s))
      })"

definition mod_logfile_rotate :: "(nat \<Rightarrow> bool) \<Rightarrow> logdir \<Rightarrow> (agc_status \<times> logdir) option" where
  "mod_logfile_rotate ok s = do {
     (status, i, s) \<leftarrow> rotate_loop ok (max_files s) s;
     if status \<noteq> AGC_STATUS_SUCCESS then Some (status, s)
     else do {
       to \<leftarrow> numbered s i;
       (case remove_old ok to s of (status, s) \<Rightarrow>
          Some (if status \<noteq> AGC_STATUS_SUCCESS then (status, s)
          else (case file_rename ok (logfile s) to (file_close s) of (status, s) \<Rightarrow>
            if status \<noteq> AGC_STATUS_SUCCESS then (status, s) else open_log ok s)))
     }
   }"

definition mod_logfile_openlogfile :: "(nat \<Rightarrow> bool) \<Rightarrow> bool \<Rightarrow> logdir \<Rightarrow> (agc_status \<times> logdir) option" where
  "mod_logfile_openlogfile ok check s = (case open_log ok s of (stat, s) \<Rightarrow>
     if stat \<noteq> AGC_STATUS_SUCCESS then Some (stat, s)
     else if check \<and> roll_size s \<noteq> 0 \<and> roll_size s \<le> log_size s
     then do { (_, s) \<leftarrow> mod_logfile_rotate ok s; Some (AGC_STATUS_SUCCESS, s) }
     else Some (AGC_STATUS_SUCCESS, s))"

section \<open>Writing\<close>

definition mod_logfile_raw_write :: "(nat \<Rightarrow> bool) \<Rightarrow> string \<Rightarrow> logdir \<Rightarrow> (agc_status \<times> logdir) option" where
  "mod_logfile_raw_write ok log_data s =
     (if log_data = [] \<or> log_afd s = No_file then Some (AGC_STATUS_FALSE, s)
      else do {
        (status, len, s) \<leftarrow>
          (case file_write ok log_data s of (st, len, s) \<Rightarrow>
             if st = AGC_STATUS_SUCCESS then Some (AGC_STATUS_SUCCESS, len, s)
             else do {
               (status, s) \<leftarrow> mod_logfile_openlogfile ok True (file_close s);
               Some (if status = AGC_STATUS_SUCCESS
                     then (case file_write ok log_data s of (_, len, s) \<Rightarrow> (status, len, s)) else (status, len, s))
             });
        if status = AGC_STATUS_SUCCESS
        then (let s = s\<lparr>log_size := log_size s + len\<rparr> in
              if roll_size s \<noteq> 0 \<and> roll_size s \<le> log_size s
              then do { (_, s) \<leftarrow> mod_logfile_rotate ok s; Some (status, s) }
              else Some (status, s))
        else Some (status, s)
      })"

fun write_lines :: "(nat \<Rightarrow> bool) \<Rightarrow> string \<Rightarrow> string list \<Rightarrow> logdir \<Rightarrow> logdir option" where
  "write_lines ok userdata [] s = Some s"
| "write_lines ok userdata (l # ls) s = do {
     (_, s) \<leftarrow> mod_logfile_raw_write ok (take 2047 (userdata @ '' '' @ l @ [CHR 0x0A])) s;
     write_lines ok userdata ls s
   }"

definition process_node :: "(nat \<Rightarrow> bool) \<Rightarrow> log_node \<Rightarrow> nat \<Rightarrow> logdir \<Rightarrow> (agc_status \<times> logdir) option" where
  "process_node ok nd level s =
     (if level \<le> lf_level s
      then do {
        data \<leftarrow> ndata nd;
        s \<leftarrow> (case nuserdata nd of
               Some u \<Rightarrow> if log_session s \<and> u \<noteq> []
                         then (case agc_separate_string (Some data) (CHR 0x0A) 100 of
                                 Val ls \<Rightarrow> write_lines ok u ls s
                               | _ \<Rightarrow> None)
                         else map_option snd (mod_logfile_raw_write ok data s)
             | None \<Rightarrow> map_option snd (mod_logfile_raw_write ok data s));
        Some (AGC_STATUS_SUCCESS, s)
      }
      else Some (AGC_STATUS_SUCCESS, s))"

section \<open>Configuration\<close>

definition DEFAULT_LIMIT :: nat where "DEFAULT_LIMIT = 10485760"
definition LOGFILE_MAX_FILES :: nat where "LOGFILE_MAX_FILES = 16"
definition AGC_LOG_WARNING :: nat where "AGC_LOG_WARNING = 4"
definition AGC_LOG_UNINIT :: nat where "AGC_LOG_UNINIT = 1000"

datatype logfile_key = LOGFILE_KEY_ROLLSIZE | LOGFILE_KEY_MAXFILES | LOGFILE_KEY_LEVEL | LOGFILE_KEY_FILE | LOGFILE_KEY_UNKOWN

definition key_type :: "string \<Rightarrow> logfile_key" where
  "key_type v = (if v = ''rollsize'' then LOGFILE_KEY_ROLLSIZE else if v = ''maxfiles'' then LOGFILE_KEY_MAXFILES
     else if v = ''level'' then LOGFILE_KEY_LEVEL else if v = ''file'' then LOGFILE_KEY_FILE else LOGFILE_KEY_UNKOWN)"

definition logfile_value :: "logfile_key \<Rightarrow> string \<Rightarrow> logdir \<Rightarrow> logdir" where
  "logfile_value k v s = (case k of
     LOGFILE_KEY_ROLLSIZE \<Rightarrow> s\<lparr>roll_size := unat (agc_atoui v)\<rparr>
   | LOGFILE_KEY_MAXFILES \<Rightarrow> s\<lparr>max_files := unat (agc_atoui v)\<rparr>
   | LOGFILE_KEY_LEVEL \<Rightarrow> s\<lparr>lf_level := agc_log_str2level v\<rparr>
   | LOGFILE_KEY_FILE \<Rightarrow> s\<lparr>logfile := v\<rparr>
   | LOGFILE_KEY_UNKOWN \<Rightarrow> s)"

fun logfile_tokens :: "yaml_token list \<Rightarrow> bool \<Rightarrow> logfile_key \<Rightarrow> logdir \<Rightarrow> logdir" where
  "logfile_tokens [] in_key k s = s"
| "logfile_tokens (t # ts) in_key k s = (case t of
     Key \<Rightarrow> logfile_tokens ts True k s
   | Value \<Rightarrow> logfile_tokens ts False k s
   | Scalar v \<Rightarrow> if in_key then logfile_tokens ts in_key (key_type v) s else logfile_tokens ts in_key k (logfile_value k v s)
   | Stream_end \<Rightarrow> s
   | _ \<Rightarrow> logfile_tokens ts in_key k s)"

definition logfile_defaults :: "string \<Rightarrow> logdir \<Rightarrow> logdir" where
  "logfile_defaults log_dir s =
     (let s = (if roll_size s = 0 then s\<lparr>roll_size := DEFAULT_LIMIT\<rparr> else s);
          s = (if max_files s = 0 then s\<lparr>max_files := LOGFILE_MAX_FILES\<rparr> else s);
          s = (if lf_level s = AGC_LOG_UNINIT then s\<lparr>lf_level := AGC_LOG_WARNING\<rparr> else s)
      in if logfile s = [] then s\<lparr>logfile := take 511 (log_dir @ ''/agc.log'')\<rparr> else s)"

definition load_config :: "(nat \<Rightarrow> bool) \<Rightarrow> string \<Rightarrow> yaml_token list \<Rightarrow> (string \<rightharpoonup> string) \<Rightarrow> (agc_status \<times> logdir) option" where
  "load_config ok log_dir ts fs = do {
     let s = logfile_tokens ts False LOGFILE_KEY_UNKOWN
       \<lparr>files = fs, fops = 0, log_size = 0, roll_size = 0, max_files = 0, log_afd = No_file, lf_level = AGC_LOG_UNINIT, logfile = [], log_session = True\<rparr>;
     (status, s) \<leftarrow> mod_logfile_openlogfile ok True (logfile_defaults log_dir s);
     Some (if status \<noteq> AGC_STATUS_SUCCESS then AGC_STATUS_GENERR else AGC_STATUS_SUCCESS, s)
   }"

section \<open>The module\<close>

text \<open>The parameter \<open>f\<close> names the function that the module binds to the log.\<close>

definition mod_logfile_load ::
  "(nat \<Rightarrow> bool) \<Rightarrow> string \<Rightarrow> yaml_token list \<Rightarrow> (string \<rightharpoonup> string) \<Rightarrow> nat \<Rightarrow> logsys \<Rightarrow> (agc_status \<times> logdir \<times> logsys) option" where
  "mod_logfile_load ok log_dir ts fs f l = do {
     (status, s) \<leftarrow> load_config ok log_dir ts fs;
     Some (if status \<noteq> AGC_STATUS_SUCCESS then (AGC_STATUS_GENERR, s, l)
           else (AGC_STATUS_SUCCESS, s, snd (agc_log_bind_logger f (lf_level s) False l)))
   }"

definition cleanup_profile :: "logdir \<Rightarrow> logdir" where
  "cleanup_profile s = file_close s"

definition mod_logfile_shutdown :: "nat \<Rightarrow> logdir \<Rightarrow> logsys \<Rightarrow> agc_status \<times> logdir \<times> logsys" where
  "mod_logfile_shutdown f s l = (AGC_STATUS_SUCCESS, cleanup_profile s, agc_log_unbind_logger f l)"

end
