(* ===== verification/Agc_Logfile_Laws.thy ===== *)
theory Agc_Logfile_Laws
  imports Agc_Logfile "HOL-Library.Sublist"
begin

text \<open>
  What the rotation of the log files does. The abstract log is the text of the current file and the
  list of the archived texts, the newest first; \<open>dir_rel\<close> relates it to the directory, and writing a
  message refines \<open>spec_write\<close>. From the specification: of everything that was written the files hold
  a suffix, nothing is dropped before \<open>max_files\<close> full files are archived, and no file grows beyond
  the rotation size by more than a message.
\<close>

section \<open>Names\<close>

definition log_name :: "string \<Rightarrow> nat \<Rightarrow> string" where
  "log_name f i = f @ ''.'' @ int_str (to_int32 (int i))"

definition names_fit :: "logdir \<Rightarrow> bool" where
  "names_fit s \<longleftrightarrow> 0 < max_files s \<and> max_files s < 2 ^ 31 \<and> (\<forall>i \<le> max_files s. length (log_name (logfile s) i) < 256)"

lemma to_int32_nat: "k < 2 ^ 31 \<Longrightarrow> to_int32 (int k) = int k"
  unfolding to_int32_def by (rule signed_take_bit_int_eq_self) simp_all

lemma log_name_inj:
  assumes "log_name f i = log_name f j" "i < 2 ^ 31" "j < 2 ^ 31"
  shows "i = j"
proof -
  have "c_atoi (int_str (to_int32 (int k))) = int k" if "k < 2 ^ 31" for k
    using that atoi_int_str [of "int k"] by (simp add: to_int32_nat)
  then show ?thesis using assms by (metis log_name_def append_same_eq same_append_eq of_nat_eq_iff)
qed

lemma log_name_neq [simp]: "log_name f i \<noteq> f" "f \<noteq> log_name f i"
  by (simp_all add: log_name_def)

lemma numbered_name: "names_fit s \<Longrightarrow> i \<le> max_files s \<Longrightarrow> numbered s i = Some (log_name (logfile s) i)"
  by (auto simp: names_fit_def numbered_def log_name_def Let_def)

lemma names_fit_more [simp]:
  "names_fit (s\<lparr>files := f\<rparr>) = names_fit s" "names_fit (s\<lparr>fops := n\<rparr>) = names_fit s"
  "names_fit (s\<lparr>log_size := n\<rparr>) = names_fit s" "names_fit (s\<lparr>log_afd := h\<rparr>) = names_fit s"
  by (simp_all add: names_fit_def)

section \<open>One rotation\<close>

text \<open>The files after the loop has moved the files below \<open>k\<close> up by one.\<close>

definition bump :: "string \<Rightarrow> nat \<Rightarrow> (string \<rightharpoonup> string) \<Rightarrow> string \<rightharpoonup> string" where
  "bump f i fs = fs(log_name f i := None, log_name f (Suc i) := fs (log_name f i))"

fun shift :: "string \<Rightarrow> nat \<Rightarrow> (string \<rightharpoonup> string) \<Rightarrow> string \<rightharpoonup> string" where
  "shift f 0 fs = fs"
| "shift f (Suc i) fs =
     (if i = 0 then fs else shift f i (bump f i fs))"

lemma shift_other: "\<forall>i \<le> k. n \<noteq> log_name f i \<Longrightarrow> shift f k fs n = fs n"
  by (induction f k fs rule: shift.induct) (auto simp: bump_def)

lemma shift_at:
  "k < 2 ^ 31 \<Longrightarrow> j < 2 ^ 31 \<Longrightarrow> shift f k fs (log_name f j) =
     (if 2 \<le> j \<and> j \<le> k then fs (log_name f (j - 1)) else if j = 1 \<and> 2 \<le> k then None else fs (log_name f j))"
proof (induction f k fs rule: shift.induct)
  case (2 f i fs)
  have i: "log_name f a = log_name f b \<longleftrightarrow> a = b" if "a \<le> Suc i \<or> a = j" "b \<le> Suc i \<or> b = j" for a b
    using that 2(2,3) log_name_inj [of f a b] by fastforce
  show ?case
  proof (cases "i = 0")
    case False
    have g: "bump f i fs (log_name f a) = (if a = Suc i then fs (log_name f i) else if a = i then None else fs (log_name f a))"
      if "a \<le> Suc i \<or> a = j" for a
      using that i [of a i] i [of a "Suc i"] by (simp add: bump_def)
    have sh: "shift f (Suc i) fs (log_name f j) = (if 2 \<le> j \<and> j \<le> i then bump f i fs (log_name f (j - 1))
      else if j = 1 \<and> 2 \<le> i then None else bump f i fs (log_name f j))"
      using False 2 by simp
    consider "2 \<le> j" "j \<le> i" | "j = Suc i" | "j = 1" "2 \<le> i" | "j = 1" "i = 1" | "j = 0 \<or> Suc i < j"
      using False by linarith
    then show ?thesis
    proof cases
      case 1
      then have "j - 1 \<noteq> Suc i" "j - 1 \<noteq> i" "j - 1 \<le> Suc i" by auto
      then show ?thesis using sh 1 g [of "j - 1"] by simp
    qed (use sh False g [of j] in auto)
  qed auto
qed simp

lemma remove_old_ok:
  assumes "\<forall>n. ok n"
  shows "\<exists>n. remove_old ok to s = (AGC_STATUS_SUCCESS, s\<lparr>files := (files s)(to := None), fops := n\<rparr>)"
proof (cases "files s to")
  case None
  then have "(files s)(to := None) = files s" by auto
  then show ?thesis using None by (intro exI [of _ "fops s"]) (simp add: remove_old_def file_exists_def)
qed (use assms in \<open>auto simp: remove_old_def file_exists_def file_remove_def Let_def intro: exI [of _ "fops s + 1"]\<close>)

lemma rename_ok:
  assumes "\<forall>n. ok n"
  shows "\<exists>n. (if file_exists fr s then file_rename ok fr to s else (AGC_STATUS_SUCCESS, s)) =
    (AGC_STATUS_SUCCESS, s\<lparr>files := if files s fr = None then files s else (files s)(fr := None, to := files s fr), fops := n\<rparr>)"
  using assms by (auto simp: file_exists_def file_rename_def Let_def intro: exI [of _ "fops s"] exI [of _ "fops s + 1"])

lemma rotate_loop_ok:
  assumes "\<forall>n. ok n"
  shows "names_fit s \<Longrightarrow> k \<le> max_files s \<Longrightarrow>
    \<exists>n. rotate_loop ok k s = Some (AGC_STATUS_SUCCESS, min k 1, s\<lparr>files := shift (logfile s) k (files s), fops := n\<rparr>)"
proof (induction k arbitrary: s)
  case 0
  then show ?case by (intro exI [of _ "fops s"]) simp
next
  case (Suc i)
  show ?case
  proof (cases "i = 0")
    case True
    then show ?thesis by (intro exI [of _ "fops s"]) simp
  next
    case False
    let ?to = "log_name (logfile s) (Suc i)" and ?fr = "log_name (logfile s) i"
    have nm: "numbered s (Suc i) = Some ?to" "numbered s i = Some ?fr" using Suc.prems by (simp_all add: numbered_name)
    have ne: "?fr \<noteq> ?to" using log_name_inj [of "logfile s" i "Suc i"] Suc.prems by (auto simp: names_fit_def)
    obtain n where r: "remove_old ok ?to s = (AGC_STATUS_SUCCESS, s\<lparr>files := (files s)(?to := None), fops := n\<rparr>)"
      using remove_old_ok [OF assms] by blast
    let ?s = "s\<lparr>files := (files s)(?to := None), fops := n\<rparr>"
    obtain m where m: "(if file_exists ?fr ?s then file_rename ok ?fr ?to ?s else (AGC_STATUS_SUCCESS, ?s)) =
      (AGC_STATUS_SUCCESS, ?s\<lparr>files := if files ?s ?fr = None then files ?s else (files ?s)(?fr := None, ?to := files ?s ?fr), fops := m\<rparr>)"
      using rename_ok [OF assms] by blast
    have e: "(if files ?s ?fr = None then files ?s else (files ?s)(?fr := None, ?to := files ?s ?fr)) =
      bump (logfile s) i (files s)" using ne by (auto simp: bump_def fun_eq_iff)
    let ?t = "?s\<lparr>files := bump (logfile s) i (files s), fops := m\<rparr>"
    obtain l where "rotate_loop ok i ?t = Some (AGC_STATUS_SUCCESS, min i 1, ?t\<lparr>files := shift (logfile ?t) i (files ?t), fops := l\<rparr>)"
      using Suc.IH [of ?t] Suc.prems by auto
    moreover have "min i 1 = min (Suc i) 1" using False by simp
    ultimately show ?thesis using False nm r m e by (intro exI [of _ l]) simp
  qed
qed

lemma open_log_ok:
  assumes "\<forall>n. ok n"
  shows "\<exists>n. open_log ok s = (AGC_STATUS_SUCCESS,
    (let c = (case files s (logfile s) of None \<Rightarrow> [] | Some c \<Rightarrow> c) in
     s\<lparr>files := (files s)(logfile s \<mapsto> c), fops := n, log_size := length c, log_afd := Open_file\<rparr>))"
  using assms by (auto simp: open_log_def file_open_def file_size_def Let_def intro!: exI [of _ "fops s + 1"])

text \<open>
  A rotation all of whose operations succeed: the archived files move up by one, the current file
  becomes the first of them and a new file is begun.
\<close>

definition rotated :: "string \<Rightarrow> nat \<Rightarrow> (string \<rightharpoonup> string) \<Rightarrow> string \<rightharpoonup> string" where
  "rotated f k fs = (shift f k fs)(log_name f 1 := fs f, f \<mapsto> [])"

lemma rotate_ok:
  assumes "\<forall>n. ok n" "names_fit s" "files s (logfile s) = Some c"
  shows "\<exists>n. mod_logfile_rotate ok s = Some (AGC_STATUS_SUCCESS,
    s\<lparr>files := rotated (logfile s) (max_files s) (files s), fops := n, log_size := 0, log_afd := Open_file\<rparr>)"
proof -
  let ?f = "logfile s" and ?k = "max_files s" and ?to = "log_name (logfile s) 1"
  have k: "min ?k 1 = 1" "1 \<le> ?k" using assms(2) by (auto simp: names_fit_def)
  obtain n where l: "rotate_loop ok ?k s = Some (AGC_STATUS_SUCCESS, min ?k 1, s\<lparr>files := shift ?f ?k (files s), fops := n\<rparr>)"
    using rotate_loop_ok [OF assms(1,2), of ?k] by auto
  let ?s = "s\<lparr>files := shift ?f ?k (files s), fops := n\<rparr>"
  have nm: "numbered ?s 1 = Some ?to" using numbered_name [of ?s 1] assms(2) k(2) by simp
  obtain m where r: "remove_old ok ?to ?s = (AGC_STATUS_SUCCESS, ?s\<lparr>files := (files ?s)(?to := None), fops := m\<rparr>)"
    using remove_old_ok [OF assms(1)] by blast
  let ?t = "file_close (?s\<lparr>files := (files ?s)(?to := None), fops := m\<rparr>)"
  have c: "shift ?f ?k (files s) ?f = Some c" using assms(3) by (simp add: shift_other)
  let ?u = "?t\<lparr>fops := m + 1, files := (files ?t)(?f := None, ?to := Some c)\<rparr>"
  have u: "file_rename ok ?f ?to ?t = (AGC_STATUS_SUCCESS, ?u)"
    using assms(1) c by (simp add: file_rename_def file_close_def file_exists_def)
  obtain p where o: "open_log ok ?u = (AGC_STATUS_SUCCESS,
    (let c = (case files ?u (logfile ?u) of None \<Rightarrow> [] | Some c \<Rightarrow> c) in
     ?u\<lparr>files := (files ?u)(logfile ?u \<mapsto> c), fops := p, log_size := length c, log_afd := Open_file\<rparr>))"
    using open_log_ok [OF assms(1)] by blast
  have "(files ?u)(?f \<mapsto> []) = rotated ?f ?k (files s)"
    using assms(3) by (auto simp: rotated_def file_close_def fun_eq_iff)
  with o have "open_log ok ?u = (AGC_STATUS_SUCCESS,
    s\<lparr>files := rotated ?f ?k (files s), fops := p, log_size := 0, log_afd := Open_file\<rparr>)"
    by (simp add: file_close_def)
  with l k nm r u show ?thesis by (intro exI [of _ p]) (simp add: mod_logfile_rotate_def file_close_def)
qed

section \<open>The abstract log\<close>

text \<open>The current text and the archived texts, the newest first.\<close>

definition dir_rel :: "logdir \<Rightarrow> string \<Rightarrow> string list \<Rightarrow> bool" where
  "dir_rel s c cs \<longleftrightarrow> names_fit s \<and> log_afd s = Open_file \<and> log_size s = length c \<and> length cs \<le> max_files s \<and>
     files s (logfile s) = Some c \<and>
     (\<forall>i. i < max_files s \<longrightarrow> files s (log_name (logfile s) (Suc i)) = (if i < length cs then Some (cs ! i) else None))"

definition spec_write :: "nat \<Rightarrow> nat \<Rightarrow> string \<Rightarrow> string \<times> string list \<Rightarrow> string \<times> string list" where
  "spec_write roll k m = (\<lambda>(c, cs). if roll \<noteq> 0 \<and> roll \<le> length (c @ m) then ([], take k ((c @ m) # cs)) else (c @ m, cs))"

lemma rotate_rel:
  assumes "\<forall>n. ok n" "dir_rel s c cs"
  shows "\<exists>s'. mod_logfile_rotate ok s = Some (AGC_STATUS_SUCCESS, s') \<and> dir_rel s' [] (take (max_files s) (c # cs)) \<and>
    roll_size s' = roll_size s \<and> max_files s' = max_files s \<and> logfile s' = logfile s"
proof -
  let ?f = "logfile s" and ?k = "max_files s"
  have r: "names_fit s" "files s ?f = Some c" "?k < 2 ^ 31" "0 < ?k"
    "\<And>i. i < ?k \<Longrightarrow> files s (log_name ?f (Suc i)) = (if i < length cs then Some (cs ! i) else None)"
    using assms(2) by (auto simp: dir_rel_def names_fit_def)
  obtain n where n: "mod_logfile_rotate ok s = Some (AGC_STATUS_SUCCESS,
    s\<lparr>files := rotated ?f ?k (files s), fops := n, log_size := 0, log_afd := Open_file\<rparr>)"
    using rotate_ok [OF assms(1) r(1,2)] by blast
  have "rotated ?f ?k (files s) (log_name ?f (Suc i)) =
    (if i < length (take ?k (c # cs)) then Some (take ?k (c # cs) ! i) else None)" if i: "i < ?k" for i
  proof (cases i)
    case 0
    then show ?thesis using r(2,4) by (simp add: rotated_def)
  next
    case (Suc j)
    have "log_name ?f (Suc i) \<noteq> log_name ?f 1" using log_name_inj [of ?f "Suc i" 1] i r(3) Suc by auto
    then have "rotated ?f ?k (files s) (log_name ?f (Suc i)) = files s (log_name ?f (Suc j))"
      using shift_at [of ?k "Suc i" ?f "files s"] i r(3) Suc by (simp add: rotated_def)
    then show ?thesis using r(5) [of j] i Suc by (simp add: min_def)
  qed
  then have "dir_rel (s\<lparr>files := rotated ?f ?k (files s), fops := n, log_size := 0, log_afd := Open_file\<rparr>) [] (take ?k (c # cs))"
    using r(1) by (auto simp: dir_rel_def rotated_def)
  with n show ?thesis by auto
qed

lemma raw_write_rel:
  assumes "\<forall>n. ok n" "dir_rel s c cs" "m \<noteq> []" "spec_write (roll_size s) (max_files s) m (c, cs) = (c', cs')"
  shows "\<exists>s'. mod_logfile_raw_write ok m s = Some (AGC_STATUS_SUCCESS, s') \<and> dir_rel s' c' cs' \<and>
    roll_size s' = roll_size s \<and> max_files s' = max_files s \<and> logfile s' = logfile s"
proof -
  let ?s = "s\<lparr>fops := fops s + 1, files := (files s)(logfile s \<mapsto> c @ m)\<rparr>"
  let ?t = "?s\<lparr>log_size := log_size s + length m\<rparr>"
  have r: "log_afd s = Open_file" "log_size s = length c" "files s (logfile s) = Some c"
    using assms(2) by (auto simp: dir_rel_def)
  have w: "file_write ok m s = (AGC_STATUS_SUCCESS, length m, ?s)"
    using assms(1) r by (simp add: file_write_def)
  have t: "dir_rel ?t (c @ m) cs" using assms(2) by (auto simp: dir_rel_def)
  have e: "mod_logfile_raw_write ok m s =
    (if roll_size s \<noteq> 0 \<and> roll_size s \<le> length (c @ m)
     then do { (_, s) \<leftarrow> mod_logfile_rotate ok ?t; Some (AGC_STATUS_SUCCESS, s) } else Some (AGC_STATUS_SUCCESS, ?t))"
    using assms(3) w r(1,2) by (simp add: mod_logfile_raw_write_def Let_def)
  show ?thesis
  proof (cases "roll_size s \<noteq> 0 \<and> roll_size s \<le> length (c @ m)")
    case True
    then show ?thesis using rotate_rel [OF assms(1) t] e assms(4) by (auto simp: spec_write_def)
  next
    case False
    then have "c' = c @ m" "cs' = cs" using assms(4) by (auto simp: spec_write_def split: if_splits)
    then show ?thesis using t e False by auto
  qed
qed

section \<open>Sequences of writes\<close>

fun write_all :: "(nat \<Rightarrow> bool) \<Rightarrow> string list \<Rightarrow> logdir \<Rightarrow> logdir option" where
  "write_all ok [] s = Some s"
| "write_all ok (m # ms) s = do { (_, s) \<leftarrow> mod_logfile_raw_write ok m s; write_all ok ms s }"

text \<open>What the files hold, the oldest text first.\<close>

definition kept_text :: "string \<Rightarrow> string list \<Rightarrow> string" where
  "kept_text c cs = concat (rev cs) @ c"

text \<open>
  After the text \<open>w\<close> was written in messages of at most \<open>l\<close> characters: the files hold a suffix of it,
  and all of it unless \<open>k\<close> files of at least the rotation size are archived.
\<close>

definition spec_inv :: "nat \<Rightarrow> nat \<Rightarrow> nat \<Rightarrow> string \<Rightarrow> string \<times> string list \<Rightarrow> bool" where
  "spec_inv roll k l w = (\<lambda>(c, cs). suffix (kept_text c cs) w \<and> (kept_text c cs = w \<or> length cs = k) \<and> length c < roll \<and>
     length cs \<le> k \<and> (\<forall>x \<in> set cs. roll \<le> length x \<and> length x < roll + l))"

lemma spec_write_inv:
  assumes "spec_inv roll k l w (c, cs)" "length m \<le> l" "0 < roll" "0 < k"
  shows "spec_inv roll k l (w @ m) (spec_write roll k m (c, cs))"
proof -
  note i = assms(1) [unfolded spec_inv_def prod.case]
  have sm: "suffix (kept_text (c @ m) cs) (w @ m)" "kept_text c cs = w \<Longrightarrow> kept_text (c @ m) cs = w @ m"
    using i by (auto simp: kept_text_def suffix_def)
  show ?thesis
  proof (cases "roll \<le> length (c @ m)")
    case False
    then show ?thesis using i sm assms(3) by (auto simp: spec_inv_def spec_write_def)
  next
    case True
    have l: "length (c @ m) < roll + l" using i assms(2) by simp
    have "suffix (kept_text [] (take k ((c @ m) # cs))) (kept_text (c @ m) cs)"
    proof -
      have "kept_text (c @ m) cs = concat (rev (drop k ((c @ m) # cs))) @ kept_text [] (take k ((c @ m) # cs))"
        unfolding kept_text_def by (subst (1) append_take_drop_id [symmetric, of "cs" "k - 1"])
          (use assms(4) in \<open>cases k; simp del: append_take_drop_id\<close>)
      then show ?thesis by (auto simp: suffix_def)
    qed
    then have "suffix (kept_text [] (take k ((c @ m) # cs))) (w @ m)" using sm(1) by (rule suffix_order.trans)
    moreover have "kept_text [] (take k ((c @ m) # cs)) = w @ m \<or> length (take k ((c @ m) # cs)) = k"
      using i sm(2) assms(4) by (auto simp: kept_text_def min_def not_le)
    moreover have "\<forall>x \<in> set (take k ((c @ m) # cs)). roll \<le> length x \<and> length x < roll + l"
      using i True l set_take_subset [of k "(c @ m) # cs"] by fastforce
    ultimately show ?thesis using True assms(3) by (auto simp: spec_inv_def spec_write_def)
  qed
qed

lemma spec_inv_bound:
  assumes "spec_inv roll k l w (c, cs)" "kept_text c cs \<noteq> w"
  shows "k * roll \<le> length (kept_text c cs)"
proof -
  have "\<forall>x \<in> set cs. roll \<le> length x" "length cs = k" using assms by (auto simp: spec_inv_def)
  then have "k * roll \<le> sum_list (map length cs)"
    by (induction cs arbitrary: k) fastforce+
  then show ?thesis by (simp add: kept_text_def length_concat rev_map [symmetric] sum_list_rev)
qed

lemma write_all_rel:
  assumes "\<forall>n. ok n" "0 < roll_size s" "\<forall>m \<in> set ms. m \<noteq> [] \<and> length m \<le> l"
    "dir_rel s c cs" "spec_inv (roll_size s) (max_files s) l w (c, cs)"
  shows "\<exists>s' c' cs'. write_all ok ms s = Some s' \<and> dir_rel s' c' cs' \<and> roll_size s' = roll_size s \<and> max_files s' = max_files s \<and>
    spec_inv (roll_size s) (max_files s) l (w @ concat ms) (c', cs')"
  using assms(2-)
proof (induction ms arbitrary: s c cs w)
  case (Cons m ms)
  obtain c' cs' where p: "spec_write (roll_size s) (max_files s) m (c, cs) = (c', cs')" by fastforce
  obtain s' where s': "mod_logfile_raw_write ok m s = Some (AGC_STATUS_SUCCESS, s')" "dir_rel s' c' cs'"
    "roll_size s' = roll_size s" "max_files s' = max_files s"
    using raw_write_rel [OF assms(1) Cons.prems(3) _ p] Cons.prems(2) by auto
  have "0 < max_files s" using Cons.prems(3) by (simp add: dir_rel_def names_fit_def)
  then have "spec_inv (roll_size s) (max_files s) l (w @ m) (c', cs')"
    using spec_write_inv [OF Cons.prems(4), of m] p Cons.prems(1,2) by simp
  then show ?case using Cons.IH [of s' c' cs' "w @ m"] Cons.prems(1,2) s' by simp
qed auto

section \<open>Loading\<close>

lemma logfile_tokens_frame:
  "files (logfile_tokens ts b k s) = files s \<and> log_afd (logfile_tokens ts b k s) = log_afd s"
  by (induction ts b k s rule: logfile_tokens.induct) (auto simp: logfile_value_def split: yaml_token.splits logfile_key.splits)

lemma logfile_defaults_frame:
  "files (logfile_defaults d s) = files s" "log_afd (logfile_defaults d s) = log_afd s"
  "0 < roll_size (logfile_defaults d s)" "0 < max_files (logfile_defaults d s)"
  by (simp_all add: logfile_defaults_def Let_def DEFAULT_LIMIT_def LOGFILE_MAX_FILES_def)

lemma load_config_fresh:
  assumes "\<forall>n. ok n" "load_config ok log_dir ts (\<lambda>_. None) = Some (st, s)" "names_fit s"
  shows "st = AGC_STATUS_SUCCESS \<and> dir_rel s [] [] \<and> 0 < roll_size s"
proof -
  define t where "t = logfile_defaults log_dir (logfile_tokens ts False LOGFILE_KEY_UNKOWN
    \<lparr>files = (\<lambda>_. None), fops = 0, log_size = 0, roll_size = 0, max_files = 0, log_afd = No_file, lf_level = AGC_LOG_UNINIT,
      logfile = [], log_session = True\<rparr>)"
  have t: "files t = (\<lambda>_. None)" "0 < roll_size t" "0 < max_files t"
    by (simp_all add: t_def logfile_defaults_frame logfile_tokens_frame)
  obtain n where "open_log ok t = (AGC_STATUS_SUCCESS,
    (let c = (case files t (logfile t) of None \<Rightarrow> [] | Some c \<Rightarrow> c) in
     t\<lparr>files := (files t)(logfile t \<mapsto> c), fops := n, log_size := length c, log_afd := Open_file\<rparr>))"
    using open_log_ok [OF assms(1)] by blast
  with t have "mod_logfile_openlogfile ok True t = Some (AGC_STATUS_SUCCESS,
    t\<lparr>files := [logfile t \<mapsto> []], fops := n, log_size := 0, log_afd := Open_file\<rparr>)"
    by (simp add: mod_logfile_openlogfile_def)
  with assms(2) have "st = AGC_STATUS_SUCCESS" "s = t\<lparr>files := [logfile t \<mapsto> []], fops := n, log_size := 0, log_afd := Open_file\<rparr>"
    by (simp_all add: load_config_def t_def Let_def)
  then show ?thesis using t assms(3) by (auto simp: dir_rel_def)
qed

section \<open>Rotations in which operations fail\<close>

lemma remove_old_cases:
  "remove_old ok to s = (st, s') \<Longrightarrow>
    (\<exists>n. s' = s\<lparr>files := if st = AGC_STATUS_SUCCESS then (files s)(to := None) else files s, fops := n\<rparr>)"
  by (cases "files s to") (auto simp: remove_old_def file_exists_def file_remove_def Let_def fun_upd_idem split: if_splits
    intro: exI [of _ "fops s"] exI [of _ "fops s + 1"])

lemma rename_cases:
  "(if file_exists fr s then file_rename ok fr to s else (AGC_STATUS_SUCCESS, s)) = (st, s') \<Longrightarrow> files s to = None \<Longrightarrow> fr \<noteq> to \<Longrightarrow>
    (\<exists>n. s' = s\<lparr>files := if st = AGC_STATUS_SUCCESS then (files s)(fr := None, to := files s fr) else files s, fops := n\<rparr>)"
  by (cases "files s fr") (auto simp: file_exists_def file_rename_def Let_def fun_upd_idem split: if_splits
    intro: exI [of _ "fops s"] exI [of _ "fops s + 1"])

text \<open>
  What the loop leaves however its operations go: an archived file that is not the last is where it
  was or one place up, and nothing else changes.
\<close>

definition moved :: "string \<Rightarrow> nat \<Rightarrow> (string \<rightharpoonup> string) \<Rightarrow> (string \<rightharpoonup> string) \<Rightarrow> bool" where
  "moved f k fs g \<longleftrightarrow>
     (\<forall>j. 0 < j \<and> j < k \<longrightarrow> g (log_name f j) = fs (log_name f j) \<or> g (log_name f (Suc j)) = fs (log_name f j)) \<and>
     (\<forall>n. (\<forall>i \<le> k. n \<noteq> log_name f i) \<longrightarrow> g n = fs n)"

lemma moved_refl: "moved f k fs fs" "moved f (Suc i) fs (fs(log_name f (Suc i) := None))" if "Suc i < 2 ^ 31"
  using that log_name_inj [of f _ "Suc i"] by (force simp: moved_def)+

lemma moved_bump:
  assumes "moved f i (bump f i fs) g" "Suc i < 2 ^ 31"
  shows "moved f (Suc i) fs g"
proof -
  have ne: "log_name f a \<noteq> log_name f b" if "a \<noteq> b" "a \<le> Suc i" "b \<le> Suc i" for a b
    using that assms(2) log_name_inj [of f a b] by auto
  have "g (log_name f j) = fs (log_name f j) \<or> g (log_name f (Suc j)) = fs (log_name f j)" if j: "0 < j" "j < Suc i" for j
  proof (cases "j = i")
    case True
    have "\<forall>l \<le> i. log_name f (Suc i) \<noteq> log_name f l" using ne [of "Suc i"] by simp
    then have "g (log_name f (Suc i)) = bump f i fs (log_name f (Suc i))" using assms(1) by (simp add: moved_def)
    then show ?thesis using True by (simp add: bump_def)
  next
    case False
    then have "bump f i fs (log_name f j) = fs (log_name f j)" using ne [of j i] ne [of j "Suc i"] j by (simp add: bump_def)
    moreover have "j < i" using False j by simp
    ultimately show ?thesis using assms(1) j(1) by (auto simp: moved_def)
  qed
  moreover have "g n = fs n" if "\<forall>l \<le> Suc i. n \<noteq> log_name f l" for n
  proof -
    have "g n = bump f i fs n" using assms(1) that by (simp add: moved_def)
    then show ?thesis using that by (simp add: bump_def)
  qed
  ultimately show ?thesis by (simp add: moved_def)
qed

lemma rotate_loop_any:
  "names_fit s \<Longrightarrow> k \<le> max_files s \<Longrightarrow> \<exists>st i n g. rotate_loop ok k s = Some (st, i, s\<lparr>files := g, fops := n\<rparr>) \<and>
     moved (logfile s) k (files s) g \<and> (st = AGC_STATUS_SUCCESS \<longrightarrow> i = min k 1 \<and> g = shift (logfile s) k (files s))"
proof (induction k arbitrary: s)
  case 0
  then show ?case by - (rule exI [of _ AGC_STATUS_SUCCESS], rule exI [of _ 0], rule exI [of _ "fops s"], rule exI [of _ "files s"], simp add: moved_def)
next
  case (Suc i)
  let ?f = "logfile s" and ?to = "log_name (logfile s) (Suc i)" and ?fr = "log_name (logfile s) i"
  have b: "Suc i < 2 ^ 31" using Suc.prems by (simp add: names_fit_def)
  show ?case
  proof (cases "i = 0")
    case True
    then show ?thesis using moved_refl(1) [OF b]
      by - (rule exI [of _ AGC_STATUS_SUCCESS], rule exI [of _ "Suc 0"], rule exI [of _ "fops s"], rule exI [of _ "files s"], simp)
  next
    case False
    have nm: "numbered s (Suc i) = Some ?to" "numbered s i = Some ?fr" using Suc.prems by (simp_all add: numbered_name)
    have ne: "?fr \<noteq> ?to" using log_name_inj [of ?f i "Suc i"] b by auto
    obtain st1 n1 where r1: "remove_old ok ?to s =
      (st1, s\<lparr>files := if st1 = AGC_STATUS_SUCCESS then (files s)(?to := None) else files s, fops := n1\<rparr>)"
      using remove_old_cases [of ok ?to s] by (metis prod.exhaust_sel)
    show ?thesis
    proof (cases "st1 = AGC_STATUS_SUCCESS")
      case False
      then show ?thesis using r1 nm \<open>i \<noteq> 0\<close> moved_refl(1) [OF b]
        by - (rule exI [of _ st1], rule exI [of _ "Suc i"], rule exI [of _ n1], rule exI [of _ "files s"], simp)
    next
      case True
      let ?s = "s\<lparr>files := (files s)(?to := None), fops := n1\<rparr>"
      obtain st2 s2 where q: "(if file_exists ?fr ?s then file_rename ok ?fr ?to ?s else (AGC_STATUS_SUCCESS, ?s)) = (st2, s2)"
        by (rule prod.exhaust)
      have "files ?s ?to = None" by simp
      then obtain n2 where r2: "s2 = ?s\<lparr>files := if st2 = AGC_STATUS_SUCCESS then (files ?s)(?fr := None, ?to := files ?s ?fr)
        else files ?s, fops := n2\<rparr>"
        using rename_cases [OF q _ ne] by blast
      show ?thesis
      proof (cases "st2 = AGC_STATUS_SUCCESS")
        case False
        have "rotate_loop ok (Suc i) s = Some (st2, Suc i, s\<lparr>files := (files s)(?to := None), fops := n2\<rparr>)"
          using r1 q r2 True False nm \<open>i \<noteq> 0\<close> by simp
        then show ?thesis using False moved_refl(2) [OF b, of ?f "files s"] by blast
      next
        case st2: True
        have e: "((files s)(?to := None))(?fr := None, ?to := ((files s)(?to := None)) ?fr) = bump ?f i (files s)"
          using ne by (auto simp: bump_def fun_eq_iff)
        let ?t = "s\<lparr>files := bump ?f i (files s), fops := n2\<rparr>"
        obtain st j n g where l: "rotate_loop ok i ?t = Some (st, j, ?t\<lparr>files := g, fops := n\<rparr>)" "moved ?f i (bump ?f i (files s)) g"
          "st = AGC_STATUS_SUCCESS \<longrightarrow> j = min i 1 \<and> g = shift ?f i (bump ?f i (files s))"
          using Suc.IH [of ?t] Suc.prems by auto
        have "min i 1 = min (Suc i) 1" using \<open>i \<noteq> 0\<close> by simp
        then show ?thesis using r1 q r2 True st2 nm \<open>i \<noteq> 0\<close> e l moved_bump [OF l(2) b]
          by - (rule exI [of _ st], rule exI [of _ j], rule exI [of _ n], rule exI [of _ g], simp)
      qed
    qed
  qed
qed

lemma open_log_cases:
  "open_log ok s = (st, s') \<Longrightarrow> (\<forall>n. n \<noteq> logfile s \<longrightarrow> files s' n = files s n)"
  by (auto simp: open_log_def file_open_def Let_def split: if_splits)

lemma rotate_last:
  assumes "files s (logfile s) = Some c" "to \<noteq> logfile s"
    "(case remove_old ok to s of (status, s) \<Rightarrow>
        if status \<noteq> AGC_STATUS_SUCCESS then (status, s)
        else (case file_rename ok (logfile s) to (file_close s) of (status, s) \<Rightarrow>
          if status \<noteq> AGC_STATUS_SUCCESS then (status, s) else open_log ok s)) = (st, s')"
  shows "(files s' (logfile s) = Some c \<or> files s' to = Some c) \<and> (\<forall>n. n \<noteq> to \<and> n \<noteq> logfile s \<longrightarrow> files s' n = files s n)"
proof -
  obtain st1 n1 where r1: "remove_old ok to s =
    (st1, s\<lparr>files := if st1 = AGC_STATUS_SUCCESS then (files s)(to := None) else files s, fops := n1\<rparr>)"
    using remove_old_cases [of ok to s] by (metis prod.exhaust_sel)
  show ?thesis
  proof (cases "st1 = AGC_STATUS_SUCCESS")
    case False
    then show ?thesis using assms r1 by auto
  next
    case True
    let ?s = "s\<lparr>files := (files s)(to := None), fops := n1\<rparr>"
    show ?thesis
    proof (cases "ok n1")
      case False
      then show ?thesis using assms r1 True by (auto simp: file_rename_def file_close_def)
    next
      case ok: True
      let ?t = "file_close ?s\<lparr>fops := n1 + 1, files := (files ?s)(logfile s := None, to := Some c)\<rparr>"
      have "file_rename ok (logfile s) to (file_close ?s) = (AGC_STATUS_SUCCESS, ?t)"
        using ok assms(1,2) by (simp add: file_rename_def file_close_def file_exists_def)
      then have "open_log ok ?t = (st, s')" using assms(3) r1 True by (simp add: file_close_def)
      then show ?thesis using open_log_cases [of ok ?t st s'] assms(2) by (simp add: file_close_def)
    qed
  qed
qed

section \<open>Properties\<close>

text \<open>
  Whatever operation on the directory fails, a rotation returns and loses no text but that of the
  oldest file: the current text is in the current file or in the first archived one, and every other
  archived text is in its file or in the next.
\<close>

theorem logfile_rotate_failures:
  assumes "names_fit s" "files s (logfile s) = Some c"
  shows "\<exists>st s'. mod_logfile_rotate ok s = Some (st, s') \<and>
    (files s' (logfile s) = Some c \<or> files s' (log_name (logfile s) 1) = Some c) \<and>
    (\<forall>j x. 0 < j \<and> j < max_files s \<and> files s (log_name (logfile s) j) = Some x \<longrightarrow>
       files s' (log_name (logfile s) j) = Some x \<or> files s' (log_name (logfile s) (Suc j)) = Some x)"
proof -
  let ?f = "logfile s" and ?k = "max_files s"
  obtain st i n g where l: "rotate_loop ok ?k s = Some (st, i, s\<lparr>files := g, fops := n\<rparr>)" "moved ?f ?k (files s) g"
    "st = AGC_STATUS_SUCCESS \<longrightarrow> i = min ?k 1 \<and> g = shift ?f ?k (files s)"
    using rotate_loop_any [OF assms(1), of ?k ok] by auto
  have g: "g ?f = Some c" using l(2) assms(2) by (auto simp: moved_def)
  show ?thesis
  proof (cases "st = AGC_STATUS_SUCCESS")
    case False
    then have "mod_logfile_rotate ok s = Some (st, s\<lparr>files := g, fops := n\<rparr>)" using l(1) by (simp add: mod_logfile_rotate_def)
    then show ?thesis using l(2) g by (intro exI [of _ st] exI [of _ "s\<lparr>files := g, fops := n\<rparr>"]) (auto simp: moved_def)
  next
    case True
    let ?s = "s\<lparr>files := g, fops := n\<rparr>" and ?to = "log_name ?f 1"
    have k: "0 < ?k" "?k < 2 ^ 31" "i = 1" using assms(1) l(3) True by (auto simp: names_fit_def)
    have nm: "numbered ?s 1 = Some ?to" using numbered_name [of ?s 1] assms(1) k(1) by simp
    obtain st' s' where q: "(case remove_old ok ?to ?s of (status, s) \<Rightarrow>
        if status \<noteq> AGC_STATUS_SUCCESS then (status, s)
        else (case file_rename ok (logfile s) ?to (file_close s) of (status, s) \<Rightarrow>
          if status \<noteq> AGC_STATUS_SUCCESS then (status, s) else open_log ok s)) = (st', s')"
      by (rule prod.exhaust)
    have r: "files s' ?f = Some c \<or> files s' ?to = Some c" "\<And>m. m \<noteq> ?to \<Longrightarrow> m \<noteq> ?f \<Longrightarrow> files s' m = g m"
      using rotate_last [OF _ _ q] g by auto
    have "files s' (log_name ?f (Suc j)) = files s (log_name ?f j)" if "0 < j" "j < ?k" for j
    proof -
      have "log_name ?f (Suc j) \<noteq> ?to" using log_name_inj [of ?f "Suc j" 1] that k by auto
      then have "files s' (log_name ?f (Suc j)) = g (log_name ?f (Suc j))" by (intro r) simp_all
      also have "\<dots> = files s (log_name ?f j)" using l(3) True shift_at [of ?k "Suc j" ?f "files s"] that k by simp
      finally show ?thesis .
    qed
    moreover have "mod_logfile_rotate ok s = Some (st', s')"
      using l(1) True k(3) nm q by (auto simp: mod_logfile_rotate_def split: prod.splits)
    ultimately show ?thesis using r(1) by auto
  qed
qed

text \<open>A directory of a full log with two archived files, of at most three.\<close>

definition demo_dir :: logdir where
  "demo_dir = \<lparr>files = [''log'' \<mapsto> ''cc'', ''log.1'' \<mapsto> ''bb'', ''log.2'' \<mapsto> ''aa''], fops = 0, log_size = 2, roll_size = 2,
     max_files = 3, log_afd = Open_file, lf_level = 4, logfile = ''log'', log_session = True\<rparr>"

lemma small_names:
  "log_name f 0 = f @ ''.0''" "log_name f (Suc 0) = f @ ''.1''" "log_name f 2 = f @ ''.2''" "log_name f 3 = f @ ''.3''"
proof -
  have "int_str 0 = ''0''" "int_str 1 = ''1''" "int_str 2 = ''2''" "int_str 3 = ''3''" by code_simp+
  then show "log_name f 0 = f @ ''.0''" "log_name f (Suc 0) = f @ ''.1''" "log_name f 2 = f @ ''.2''" "log_name f 3 = f @ ''.3''"
    using to_int32_nat [of 0] to_int32_nat [of 1] to_int32_nat [of 2] to_int32_nat [of 3] by (simp_all add: log_name_def)
qed

lemma upto3: "i \<le> (3 :: nat) \<longleftrightarrow> i = 0 \<or> i = Suc 0 \<or> i = 2 \<or> i = 3" "i \<le> (2 :: nat) \<longleftrightarrow> i = 0 \<or> i = Suc 0 \<or> i = 2"
  by auto

lemma demo_dir_fits: "names_fit demo_dir"
  by (auto simp: names_fit_def demo_dir_def small_names upto3)

theorem logfile_rotate_failures_witness:
  "names_fit demo_dir \<and> (\<exists>st s'. mod_logfile_rotate (\<lambda>n. n \<noteq> 1) demo_dir = Some (st, s') \<and>
     (files s' ''log'' = Some ''cc'' \<or> files s' ''log.1'' = Some ''cc'') \<and> (files s' ''log.1'' = Some ''bb'' \<or> files s' ''log.2'' = Some ''bb''))"
proof -
  have n: "log_name ''log'' 1 = ''log.1''" "log_name ''log'' (Suc 1) = ''log.2''" using small_names [of "''log''"] by (simp_all add: numeral_2_eq_2)
  obtain st s' where r: "mod_logfile_rotate (\<lambda>n. n \<noteq> 1) demo_dir = Some (st, s')"
    "files s' ''log'' = Some ''cc'' \<or> files s' ''log.1'' = Some ''cc''"
    "\<forall>j x. 0 < j \<and> j < max_files demo_dir \<and> files demo_dir (log_name ''log'' j) = Some x \<longrightarrow>
       files s' (log_name ''log'' j) = Some x \<or> files s' (log_name ''log'' (Suc j)) = Some x"
    using logfile_rotate_failures [OF demo_dir_fits, of "''cc''" "\<lambda>n. n \<noteq> 1"] n by (auto simp: demo_dir_def)
  have "files s' ''log.1'' = Some ''bb'' \<or> files s' ''log.2'' = Some ''bb''"
    using r(3) [rule_format, of 1 "''bb''"] unfolding n by (simp add: demo_dir_def)
  then show ?thesis using r(1,2) demo_dir_fits by blast
qed

text \<open>
  C25: From an empty directory, when its operations succeed, the logger keeps what was written last:
  after any sequence of messages of at most \<open>l\<close> characters the log files, read from the oldest to the
  newest, hold a suffix of everything written; they hold all of it, or at least \<open>max_files\<close> times the
  rotation size; the current file is below the rotation size and an archived one below that size plus \<open>l\<close>.
\<close>

theorem logfile_keeps_recent:
  assumes "\<forall>n. ok n" "load_config ok log_dir ts (\<lambda>_. None) = Some (st, s)" "names_fit s"
    "\<forall>m \<in> set ms. m \<noteq> [] \<and> length m \<le> l"
  shows "\<exists>s' c cs. write_all ok ms s = Some s' \<and> dir_rel s' c cs \<and> suffix (concat (rev cs) @ c) (concat ms) \<and>
    (concat (rev cs) @ c = concat ms \<or> max_files s * roll_size s \<le> length (concat (rev cs) @ c)) \<and>
    length c < roll_size s \<and> (\<forall>x \<in> set cs. length x < roll_size s + l)"
proof -
  have i: "dir_rel s [] []" "0 < roll_size s" using load_config_fresh [OF assms(1-3)] by auto
  have "spec_inv (roll_size s) (max_files s) l [] ([], [])" using i(2) by (simp add: spec_inv_def kept_text_def)
  from write_all_rel [OF assms(1) i(2) assms(4) i(1) this]
  obtain s' c cs where w: "write_all ok ms s = Some s'" "dir_rel s' c cs"
    "spec_inv (roll_size s) (max_files s) l (concat ms) (c, cs)"
    by auto
  then show ?thesis using spec_inv_bound [OF w(3)] by (auto simp: spec_inv_def kept_text_def)
qed

definition demo_config :: "yaml_token list" where
  "demo_config = [Key, Scalar ''rollsize'', Value, Scalar ''4'', Key, Scalar ''maxfiles'', Value, Scalar ''2'', Key, Scalar ''file'', Value, Scalar ''log'']"

theorem logfile_keeps_recent_witness:
  "\<exists>s s' c cs. load_config (\<lambda>_. True) ''/var'' demo_config (\<lambda>_. None) = Some (AGC_STATUS_SUCCESS, s) \<and>
     write_all (\<lambda>_. True) [''abcd'', ''ef'', ''gh'', ''ijkl'', ''m''] s = Some s' \<and> dir_rel s' c cs \<and>
     suffix (concat (rev cs) @ c) ''abcdefghijklm'' \<and> length c < 4"
proof -
  define s where "s = \<lparr>files = [''log'' \<mapsto> []], fops = 1, log_size = 0, roll_size = 4, max_files = 2, log_afd = Open_file,
    lf_level = 4, logfile = ''log'', log_session = True\<rparr>"
  have l: "load_config (\<lambda>_. True) ''/var'' demo_config (\<lambda>_. None) = Some (AGC_STATUS_SUCCESS, s)"
  proof -
    have "agc_atoui ''4'' = 4" "agc_atoui ''2'' = 2" by code_simp+
    then show ?thesis by (simp add: load_config_def demo_config_def key_type_def logfile_value_def logfile_defaults_def Let_def
      mod_logfile_openlogfile_def open_log_def file_open_def file_size_def AGC_LOG_UNINIT_def AGC_LOG_WARNING_def s_def)
  qed
  have "names_fit s" by (auto simp: names_fit_def s_def small_names upto3)
  from logfile_keeps_recent [OF _ l this, of "[''abcd'', ''ef'', ''gh'', ''ijkl'', ''m'']" 4] l
  show ?thesis by (auto simp: s_def)
qed

end
