(* ===== verification/Agc_Mprintf.thy ===== *)
theory Agc_Mprintf
  imports Agc_Text
begin

text \<open>
  The formatted printing of \<^verbatim>\<open>src/src/agc_mprintf.c\<close>: the interpreter of format strings, the consumer
  that collects its output in a growing block, and the functions that print into memory. The
  interpreter hands its output to the consumer piece by piece and gets nothing back, so it is a
  function to the list of pieces. The arguments are a list of values with their C types; \<^const>\<open>None\<close> is
  an argument of the wrong type or missing, an access outside a buffer, or a length that does not fit into an \<^verbatim>\<open>int\<close>: all
  lengths and sizes of the code are of this type. \<open>mem n\<close> says whether \<^verbatim>\<open>n\<close> bytes can be allocated. The text of a floating point number is the
  parameter \<open>fl\<close>: the conversion computes it in the rounding of \<^verbatim>\<open>long double\<close>.
\<close>

section \<open>Conversions\<close>

datatype et_type = etRADIX | etFLOAT | etEXP | etGENERIC | etSIZE | etSTRING | etDYNSTRING | etPERCENT | etCHARX
  | etSQLESCAPE | etSQLESCAPE2 | etPOINTER | etSQLESCAPE3 | etSQLESCAPE4

record et_info =
  fmttype :: char
  ebase :: nat
  eflags :: nat
  etype :: et_type
  echarset :: nat
  eprefix :: nat

definition FLAG_SIGNED :: "et_info \<Rightarrow> bool" where "FLAG_SIGNED i \<longleftrightarrow> odd (eflags i)"
definition FLAG_INTERN :: "et_info \<Rightarrow> bool" where "FLAG_INTERN i \<longleftrightarrow> odd (eflags i div 2)"
definition FLAG_STRING :: "et_info \<Rightarrow> bool" where "FLAG_STRING i \<longleftrightarrow> odd (eflags i div 4)"

definition aDigits :: string where "aDigits = ''0123456789ABCDEF0123456789abcdef''"

text \<open>The prefixes at the offsets that the table uses.\<close>

definition aPrefix :: "nat \<Rightarrow> string" where
  "aPrefix i = takeWhile (\<lambda>c. c \<noteq> CHR 0x00) (drop i (''-x0'' @ [CHR 0x00] @ ''X0''))"

definition fmtinfo :: "et_info list" where
  "fmtinfo = map (\<lambda>(c, b, f, t, s, p). \<lparr>fmttype = c, ebase = b, eflags = f, etype = t, echarset = s, eprefix = p\<rparr>)
    [(CHR ''d'', 10, 1, etRADIX, 0, 0), (CHR ''s'', 0, 4, etSTRING, 0, 0), (CHR ''g'', 0, 1, etGENERIC, 30, 0),
     (CHR ''z'', 0, 6, etDYNSTRING, 0, 0), (CHR ''q'', 0, 4, etSQLESCAPE, 0, 0), (CHR ''Q'', 0, 4, etSQLESCAPE2, 0, 0),
     (CHR ''w'', 0, 4, etSQLESCAPE3, 0, 0), (CHR ''y'', 0, 4, etSQLESCAPE4, 0, 0), (CHR ''c'', 0, 0, etCHARX, 0, 0),
     (CHR ''o'', 8, 0, etRADIX, 0, 2), (CHR ''u'', 10, 0, etRADIX, 0, 0), (CHR ''x'', 16, 0, etRADIX, 16, 1),
     (CHR ''X'', 16, 0, etRADIX, 0, 4), (CHR ''f'', 0, 1, etFLOAT, 0, 0), (CHR ''e'', 0, 1, etEXP, 30, 0),
     (CHR ''E'', 0, 1, etEXP, 14, 0), (CHR ''G'', 0, 1, etGENERIC, 14, 0), (CHR ''i'', 10, 1, etRADIX, 0, 0),
     (CHR ''n'', 0, 0, etSIZE, 0, 0), (CHR ''%'', 0, 0, etPERCENT, 0, 0), (CHR ''p'', 16, 0, etPOINTER, 0, 1)]"

datatype va_value = Va_int "32 word" | Va_long "64 word" | Va_str "string option" | Va_double "64 word" | Va_ptr

definition etBUFSIZE :: int where "etBUFSIZE = 350"
definition etSPACESIZE :: nat where "etSPACESIZE = 73"

section \<open>The field before the conversion\<close>

record et_flags =
  flag_leftjustify :: bool
  flag_plussign :: bool
  flag_blanksign :: bool
  flag_alternateform :: bool
  flag_altform2 :: bool
  flag_zeropad :: bool

definition no_flags :: et_flags where
  "no_flags = \<lparr>flag_leftjustify = False, flag_plussign = False, flag_blanksign = False, flag_alternateform = False,
     flag_altform2 = False, flag_zeropad = False\<rparr>"

fun get_flags :: "string \<Rightarrow> et_flags \<Rightarrow> et_flags \<times> string" where
  "get_flags [] f = (f, [])"
| "get_flags (c # r) f =
     (if c = CHR ''-'' then get_flags r (f\<lparr>flag_leftjustify := True\<rparr>)
      else if c = CHR ''+'' then get_flags r (f\<lparr>flag_plussign := True\<rparr>)
      else if c = CHR '' '' then get_flags r (f\<lparr>flag_blanksign := True\<rparr>)
      else if c = CHR ''#'' then get_flags r (f\<lparr>flag_alternateform := True\<rparr>)
      else if c = CHR ''!'' then get_flags r (f\<lparr>flag_altform2 := True\<rparr>)
      else if c = CHR ''0'' then get_flags r (f\<lparr>flag_zeropad := True\<rparr>)
      else (f, c # r))"

fun get_number :: "string \<Rightarrow> int \<Rightarrow> (int \<times> string) option" where
  "get_number [] n = Some (n, [])"
| "get_number (c # r) n =
     (if is_digit c
      then (let n' = n * 10 + int (digit_val c) in if n' \<le> INT_MAX then get_number r n' else None)
      else Some (n, c # r))"

text \<open>A number or a star, which takes the next argument.\<close>

definition get_star :: "string \<Rightarrow> va_value list \<Rightarrow> (int \<times> string \<times> va_value list) option" where
  "get_star r args = (case r of
     c # r' \<Rightarrow> if c = CHR ''*''
       then (case args of Va_int w # as \<Rightarrow> if sint w = - INT_MAX - 1 then None else Some (sint w, r', as) | _ \<Rightarrow> None)
       else map_option (\<lambda>(n, r). (n, r, args)) (get_number r 0)
   | [] \<Rightarrow> Some (0, [], args))"

record et_field =
  ff :: et_flags
  width :: int
  precision :: int
  flag_long :: bool
  flag_longlong :: bool

definition begins_with :: "char \<Rightarrow> string \<Rightarrow> bool" where
  "begins_with c r \<longleftrightarrow> r \<noteq> [] \<and> hd r = c"

definition get_long :: "string \<Rightarrow> bool \<times> bool \<times> string" where
  "get_long r =
     (if begins_with (CHR ''l'') r
      then if begins_with (CHR ''l'') (tl r) then (True, True, tl (tl r)) else (True, False, tl r)
      else (False, False, r))"

definition get_precision :: "string \<Rightarrow> va_value list \<Rightarrow> (int \<times> string \<times> va_value list) option" where
  "get_precision r args =
     (if begins_with (CHR ''.'') r then map_option (\<lambda>(p, x). (\<bar>p\<bar>, x)) (get_star (tl r) args) else Some (- 1, r, args))"

definition get_field :: "string \<Rightarrow> va_value list \<Rightarrow> (et_field \<times> string \<times> va_value list) option" where
  "get_field r args = (case get_flags r no_flags of (f, r) \<Rightarrow> do {
     (w, r, args) \<leftarrow> get_star r args;
     let f = (if w < 0 then f\<lparr>flag_leftjustify := True\<rparr> else f);
     let w = min \<bar>w\<bar> (etBUFSIZE - 10);
     (p, r, args) \<leftarrow> get_precision r args;
     (case get_long r of (l, ll, r) \<Rightarrow>
       Some (\<lparr>ff = f, width = w, precision = p, flag_long = l, flag_longlong = ll\<rparr>, r, args))
   })"

section \<open>The conversions\<close>

text \<open>The text of a conversion, the width that is left to it, the remaining arguments and what \<^verbatim>\<open>%n\<close> stores.\<close>

datatype conversion = Conv_fails | Converted string int "va_value list" "int list"

function radix_digits :: "nat \<Rightarrow> nat \<Rightarrow> nat \<Rightarrow> string \<Rightarrow> string" where
  "radix_digits cset b v acc =
     (let acc = aDigits ! (cset + v mod b) # acc in
      if 2 \<le> b \<and> 0 < v div b then radix_digits cset b (v div b) acc else acc)"
  by auto
termination
  by (relation "measure (\<lambda>(_, _, v, _). v)") (auto simp: div_greater_zero_iff intro!: div_less_dividend)

declare radix_digits.simps [simp del]

text \<open>The value that is printed and its sign.\<close>

definition radix_value :: "et_info \<Rightarrow> et_field \<Rightarrow> va_value \<Rightarrow> (nat \<times> char option) option" where
  "radix_value i f a =
     (let long = flag_longlong f \<or> flag_long f in
      if FLAG_SIGNED i
      then do {
        v \<leftarrow> (case a of Va_long w \<Rightarrow> if long then Some (sint w) else None | Va_int w \<Rightarrow> if long then None else Some (sint w) | _ \<Rightarrow> None);
        Some (if v < 0 then (nat (- v), Some (CHR ''-''))
              else (nat v, if flag_plussign (ff f) then Some (CHR ''+'') else if flag_blanksign (ff f) then Some (CHR '' '') else None))
      }
      else do {
        v \<leftarrow> (case a of Va_long w \<Rightarrow> if long then Some (unat w) else None | Va_int w \<Rightarrow> if long then None else Some (unat w) | _ \<Rightarrow> None);
        Some (v, None)
      })"

text \<open>The text is built downwards from the end of a buffer of 350 bytes, the last of which stays free.\<close>

definition radix_text :: "et_info \<Rightarrow> et_field \<Rightarrow> nat \<Rightarrow> char option \<Rightarrow> string option" where
  "radix_text i f v sign =
     (let s = (if sign = None then 0 else 1);
          p = (if flag_zeropad (ff f) \<and> precision f < width f - s then width f - s else precision f);
          d = radix_digits (echarset i) (ebase i) v [];
          d = replicate (nat (p - int (length d))) (CHR ''0'') @ d;
          d = (case sign of None \<Rightarrow> d | Some c \<Rightarrow> c # d);
          pre = aPrefix (eprefix i);
          d = (if flag_alternateform (ff f) \<and> v \<noteq> 0 \<and> eprefix i \<noteq> 0 \<and> hd d \<noteq> hd pre then rev pre @ d else d)
      in if int (length d) \<le> etBUFSIZE - 1 then Some d else None)"

definition escapes :: "et_type \<Rightarrow> char \<Rightarrow> bool" where
  "escapes t c \<longleftrightarrow> c = CHR 0x27 \<or> t = etSQLESCAPE3 \<and> c = CHR 0x5C"

definition escape_char :: "et_type \<Rightarrow> char \<Rightarrow> string" where
  "escape_char t c = (if \<not> escapes t c then [c] else if t = etSQLESCAPE4 then [CHR 0x5C, c] else [c, c])"

text \<open>The escaped text of an argument and the bytes that are allocated for it beside the buffer.\<close>

definition escape_text :: "et_type \<Rightarrow> string option \<Rightarrow> string" where
  "escape_text t a = (let q = (if a \<noteq> None \<and> t = etSQLESCAPE2 then [CHR 0x27] else []);
     s = (case a of Some s \<Rightarrow> s | None \<Rightarrow> if t = etSQLESCAPE2 then ''NULL'' else ''(NULL)'')
   in q @ concat (map (escape_char t) s) @ q)"

definition escape_size :: "et_type \<Rightarrow> string option \<Rightarrow> nat" where
  "escape_size t a = (let s = (case a of Some s \<Rightarrow> s | None \<Rightarrow> if t = etSQLESCAPE2 then ''NULL'' else ''(NULL)'')
   in length (filter (escapes t) s) + length s + 1 + (if a \<noteq> None \<and> t = etSQLESCAPE2 then 2 else 0))"

definition convert_escape :: "(nat \<Rightarrow> bool) \<Rightarrow> et_type \<Rightarrow> int \<Rightarrow> string option \<Rightarrow> va_value list \<Rightarrow> conversion option" where
  "convert_escape mem t w a args =
     (let n = escape_size t a; s = escape_text t a in
      if \<not> fits n then None
      else if etBUFSIZE < int n \<and> \<not> mem n then Some Conv_fails
      else if length s < n then Some (Converted s w args []) else None)"

definition convert_char :: "int \<Rightarrow> int \<Rightarrow> 32 word \<Rightarrow> va_value list \<Rightarrow> conversion option" where
  "convert_char w p v args =
     (if p \<le> etBUFSIZE then Some (Converted (replicate (if 0 \<le> p then nat p else 1) (char_of (unat v))) w args []) else None)"

definition string_text :: "int \<Rightarrow> string option \<Rightarrow> string" where
  "string_text p a = (let s = (case a of None \<Rightarrow> [] | Some s \<Rightarrow> s) in if 0 \<le> p then take (nat p) s else s)"

definition convert_radix :: "et_info \<Rightarrow> et_field \<Rightarrow> va_value \<Rightarrow> va_value list \<Rightarrow> conversion option" where
  "convert_radix i f a args = do {
     (v, s) \<leftarrow> radix_value i f a;
     d \<leftarrow> radix_text i f v s;
     Some (Converted d (width f) args [])
   }"

definition convert_string :: "et_field \<Rightarrow> va_value \<Rightarrow> va_value list \<Rightarrow> conversion option" where
  "convert_string f a args =
     (case a of
        Va_str s \<Rightarrow>
          if fits (case s of None \<Rightarrow> 0 | Some s \<Rightarrow> length s) then Some (Converted (string_text (precision f) s) (width f) args []) else None
      | _ \<Rightarrow> None)"

text \<open>The conversions that take an argument.\<close>

definition convert_arg :: "(et_field \<Rightarrow> et_type \<Rightarrow> 64 word \<Rightarrow> string) \<Rightarrow> (nat \<Rightarrow> bool) \<Rightarrow> et_info \<Rightarrow> et_field \<Rightarrow> va_value \<Rightarrow> va_value list \<Rightarrow> int \<Rightarrow>
    conversion option" where
  "convert_arg fl mem i f a args count =
     (let t = etype i in
      if t = etPOINTER then convert_radix i (f\<lparr>flag_long := True, flag_longlong := True\<rparr>) a args
      else if t = etRADIX then convert_radix i f a args
      else if t = etFLOAT \<or> t = etEXP \<or> t = etGENERIC
      then (case a of Va_double v \<Rightarrow> Some (Converted (fl f t v) (width f) args []) | _ \<Rightarrow> None)
      else if t = etSIZE then (case a of Va_ptr \<Rightarrow> Some (Converted [] 0 args [count]) | _ \<Rightarrow> None)
      else if t = etCHARX then (case a of Va_int v \<Rightarrow> convert_char (width f) (precision f) v args | _ \<Rightarrow> None)
      else if t = etSTRING \<or> t = etDYNSTRING then convert_string f a args
      else (case a of Va_str s \<Rightarrow> convert_escape mem t (width f) s args | _ \<Rightarrow> None))"

definition limit_precision :: "et_info \<Rightarrow> et_field \<Rightarrow> et_field" where
  "limit_precision i f = (if etBUFSIZE - 40 < precision f \<and> \<not> FLAG_STRING i then f\<lparr>precision := etBUFSIZE - 40\<rparr> else f)"

definition convert :: "(et_field \<Rightarrow> et_type \<Rightarrow> 64 word \<Rightarrow> string) \<Rightarrow> (nat \<Rightarrow> bool) \<Rightarrow> et_info \<Rightarrow> et_field \<Rightarrow> va_value list \<Rightarrow> int \<Rightarrow>
    conversion option" where
  "convert fl mem i f args count =
     (let f = limit_precision i f in
      if etype i = etPERCENT then Some (Converted ''%'' (width f) args [])
      else (case args of [] \<Rightarrow> None | a # args \<Rightarrow> convert_arg fl mem i f a args count))"

section \<open>The interpreter\<close>

text \<open>The pieces handed to the consumer, their number of characters, and what \<^verbatim>\<open>%n\<close> stored.\<close>

record vx_out =
  pieces :: "string list"
  count :: int
  stored :: "int list"

definition emit :: "string \<Rightarrow> vx_out \<Rightarrow> vx_out" where
  "emit t out = out\<lparr>pieces := pieces out @ [t], count := count out + int (length t)\<rparr>"

function emit_spaces :: "nat \<Rightarrow> vx_out \<Rightarrow> vx_out" where
  "emit_spaces n out =
     (if etSPACESIZE \<le> n then emit_spaces (n - etSPACESIZE) (emit (replicate etSPACESIZE (CHR '' '')) out)
      else if 0 < n then emit (replicate n (CHR '' '')) out else out)"
  by auto
termination
  by (relation "measure fst") (auto simp: etSPACESIZE_def)

declare emit_spaces.simps [simp del]

definition emit_field :: "bool \<Rightarrow> int \<Rightarrow> string \<Rightarrow> vx_out \<Rightarrow> vx_out" where
  "emit_field left w t out =
     (let n = nat (w - int (length t));
          out = (if left then out else emit_spaces n out);
          out = (if t = [] then out else emit t out)
      in if left then emit_spaces n out else out)"

function vx_loop :: "(et_field \<Rightarrow> et_type \<Rightarrow> 64 word \<Rightarrow> string) \<Rightarrow> (nat \<Rightarrow> bool) \<Rightarrow> bool \<Rightarrow> string \<Rightarrow> va_value list \<Rightarrow> vx_out \<Rightarrow>
    (int \<times> vx_out) option" where
  "vx_loop fl mem ext fmt args out =
     (let lit = takeWhile (\<lambda>c. c \<noteq> CHR ''%'') fmt;
          out = (if lit = [] then out else emit lit out)
      in case dropWhile (\<lambda>c. c \<noteq> CHR ''%'') fmt of
           [] \<Rightarrow> Some (count out, out)
         | _ # r \<Rightarrow>
             if r = [] then Some (- 1, emit ''%'' out)
             else (case get_field r args of
                     None \<Rightarrow> None
                   | Some (f, [], args) \<Rightarrow> Some (- 1, out)
                   | Some (f, c # r', args) \<Rightarrow>
                       (case List.find (\<lambda>i. fmttype i = c) fmtinfo of
                          None \<Rightarrow> Some (- 1, out)
                        | Some i \<Rightarrow>
                            if \<not> ext \<and> FLAG_INTERN i then Some (- 1, out)
                            else (case convert fl mem i f args (count out) of
                                    None \<Rightarrow> None
                                  | Some Conv_fails \<Rightarrow> Some (- 1, out)
                                  | Some (Converted t w args st) \<Rightarrow>
                                      vx_loop fl mem ext r' args
                                        (emit_field (flag_leftjustify (ff f)) w t (out\<lparr>stored := stored out @ st\<rparr>))))))"
  by pat_completeness auto

lemma get_flags_length: "get_flags r f = (f', r') \<Longrightarrow> length r' \<le> length r"
  by (induction r f rule: get_flags.induct) (auto split: if_splits)

lemma get_number_length: "get_number r n = Some (m, r') \<Longrightarrow> length r' \<le> length r"
  by (induction r n rule: get_number.induct) (auto simp: Let_def split: if_splits)

lemma get_star_length: "get_star r args = Some (n, r', args') \<Longrightarrow> length r' \<le> length r"
  by (auto simp: get_star_def simp del: get_number.simps split: list.splits if_splits va_value.splits dest!: get_number_length)

lemma get_long_length: "get_long r = (l, ll, r') \<Longrightarrow> length r' \<le> length r"
  by (auto simp: get_long_def split: if_splits)

lemma get_precision_length: "get_precision r args = Some (n, r', args') \<Longrightarrow> length r' \<le> length r"
  by (auto simp: get_precision_def split: if_splits dest!: get_star_length)

lemma get_field_length: "get_field r args = Some (f, r', args') \<Longrightarrow> length r' \<le> length r"
proof -
  assume a: "get_field r args = Some (f, r', args')"
  obtain g r1 where g: "get_flags r no_flags = (g, r1)" by fastforce
  with a obtain w r2 a2 where w: "get_star r1 args = Some (w, r2, a2)" by (auto simp: get_field_def bind_Some_iff)
  with a g obtain p r3 a3 where p: "get_precision r2 a2 = Some (p, r3, a3)" by (auto simp: get_field_def bind_Some_iff Let_def)
  obtain l ll r4 where l: "get_long r3 = (l, ll, r4)" by (metis prod.exhaust)
  with a g w p have "r' = r4" by (simp add: get_field_def)
  then show ?thesis using get_flags_length [OF g] get_star_length [OF w] get_precision_length [OF p] get_long_length [OF l] by simp
qed

lemma dropWhile_shorter: "dropWhile P xs = y # ys \<Longrightarrow> length ys < length xs"
  using length_dropWhile_le [of P xs] by simp

termination vx_loop
  by (relation "measure (\<lambda>(_, _, _, fmt, _). length fmt)") (auto dest!: get_field_length dropWhile_shorter)

declare vx_loop.simps [simp del]

text \<open>The count only grows, so it has overflowed on the way if and only if it is too large at the end.\<close>

definition vxprintf :: "(et_field \<Rightarrow> et_type \<Rightarrow> 64 word \<Rightarrow> string) \<Rightarrow> (nat \<Rightarrow> bool) \<Rightarrow> bool \<Rightarrow> string \<Rightarrow> va_value list \<Rightarrow>
    (int \<times> vx_out) option" where
  "vxprintf fl mem ext fmt args = do {
     (r, out) \<leftarrow> vx_loop fl mem ext fmt args \<lparr>pieces = [[]], count = 0, stored = []\<rparr>;
     if count out \<le> INT_MAX then Some (r, out) else None
   }"

section \<open>Printing into memory\<close>

text \<open>
  The text collected so far, the size \<open>nAlloc\<close> that the code takes its block to have and the size
  \<open>room\<close> that it has; \<open>on_base\<close> says that the text is still in the initial buffer.
\<close>

record sgMprintf =
  on_base :: bool
  zText :: "string option"
  nChar :: nat
  nTotal :: nat
  nAlloc :: nat
  room :: nat
  xRealloc :: bool

definition mput :: "string \<Rightarrow> sgMprintf \<Rightarrow> sgMprintf option" where
  "mput t m = (case zText m of
     None \<Rightarrow> Some m
   | Some x \<Rightarrow> if nChar m + length t < room m then Some (m\<lparr>zText := Some (x @ t), nChar := nChar m + length t\<rparr>) else None)"

definition mout :: "(nat \<Rightarrow> bool) \<Rightarrow> string \<Rightarrow> sgMprintf \<Rightarrow> sgMprintf option" where
  "mout mem t m =
     (if \<not> fits (nTotal m + length t) \<or> \<not> fits (nChar m + length t + 1) then None
      else let m = m\<lparr>nTotal := nTotal m + length t\<rparr> in
      if nAlloc m < nChar m + length t + 1
      then if \<not> xRealloc m then mput (take (nAlloc m - nChar m - 1) t) m
           else if \<not> fits (nChar m + length t * 2 + 1) then None
           else (let m = m\<lparr>nAlloc := nChar m + length t * 2 + 1\<rparr> in
                 if on_base m
                 then if mem (nAlloc m) then mput t (m\<lparr>on_base := False, room := nAlloc m\<rparr>)
                      else Some (m\<lparr>on_base := False, zText := None\<rparr>)
                 else if mem (nAlloc m)
                 then (case zText m of
                         None \<Rightarrow> if nChar m = 0 then mput t (m\<lparr>zText := Some [], room := nAlloc m\<rparr>) else None
                       | Some x \<Rightarrow> mput t (m\<lparr>room := nAlloc m\<rparr>))
                 else mput t m)
      else mput t m)"

fun mout_all :: "(nat \<Rightarrow> bool) \<Rightarrow> string list \<Rightarrow> sgMprintf \<Rightarrow> sgMprintf option" where
  "mout_all mem [] m = Some m"
| "mout_all mem (t # ts) m = do { m \<leftarrow> mout mem t m; mout_all mem ts m }"

text \<open>The block that is returned: \<^term>\<open>Some None\<close> is a null pointer.\<close>

definition base_vprintf :: "(et_field \<Rightarrow> et_type \<Rightarrow> 64 word \<Rightarrow> string) \<Rightarrow> (nat \<Rightarrow> bool) \<Rightarrow> bool \<Rightarrow> bool \<Rightarrow> nat \<Rightarrow> string \<Rightarrow> va_value list \<Rightarrow>
    string option option" where
  "base_vprintf fl mem realloc useInternal nInitBuf zFormat ap = do {
     (_, out) \<leftarrow> vxprintf fl mem useInternal zFormat ap;
     sM \<leftarrow> mout_all mem (pieces out)
       \<lparr>on_base = True, zText = Some [], nChar = 0, nTotal = 0, nAlloc = nInitBuf, room = nInitBuf, xRealloc = realloc\<rparr>;
     if \<not> realloc then Some (zText sM)
     else if on_base sM then Some (if mem (nChar sM + 1) then zText sM else None)
     else if \<not> fits (nChar sM + 10) then None
     else if nAlloc sM > nChar sM + 10 \<and> zText sM = None \<and> mem (nChar sM + 1) then None
     else Some (zText sM)
   }"

definition SWITCH_PRINT_BUF_SIZE :: nat where "SWITCH_PRINT_BUF_SIZE = 350"

definition agc_vmprintf :: "(et_field \<Rightarrow> et_type \<Rightarrow> 64 word \<Rightarrow> string) \<Rightarrow> (nat \<Rightarrow> bool) \<Rightarrow> string \<Rightarrow> va_value list \<Rightarrow> string option option" where
  "agc_vmprintf fl mem zFormat ap = base_vprintf fl mem True False SWITCH_PRINT_BUF_SIZE zFormat ap"

definition agc_mprintf :: "(et_field \<Rightarrow> et_type \<Rightarrow> 64 word \<Rightarrow> string) \<Rightarrow> (nat \<Rightarrow> bool) \<Rightarrow> string \<Rightarrow> va_value list \<Rightarrow> string option option" where
  "agc_mprintf fl mem zFormat ap = base_vprintf fl mem True False SWITCH_PRINT_BUF_SIZE zFormat ap"

definition agc_snprintfv :: "(et_field \<Rightarrow> et_type \<Rightarrow> 64 word \<Rightarrow> string) \<Rightarrow> (nat \<Rightarrow> bool) \<Rightarrow> nat \<Rightarrow> string \<Rightarrow> va_value list \<Rightarrow> string option option" where
  "agc_snprintfv fl mem n zFormat ap = base_vprintf fl mem False False n zFormat ap"

end
