(* ===== verification/Agc_Mprintf_Laws.thy ===== *)
theory Agc_Mprintf_Laws
  imports Agc_Mprintf
begin

text \<open>
  What formatted printing computes: \<open>vx_text\<close> is the text of a format as a function of the format and
  the arguments alone, and the blocks that the printing functions return hold it or its beginning.
  From it follow the quoting of SQL texts and the printing of numbers.
\<close>

section \<open>The text of a format\<close>

definition otext :: "vx_out \<Rightarrow> string" where
  "otext out = concat (pieces out)"

definition pad :: "bool \<Rightarrow> int \<Rightarrow> string \<Rightarrow> string" where
  "pad left w t = (let sp = replicate (nat (w - int (length t))) (CHR '' '') in if left then t @ sp else sp @ t)"

lemma otext_emit [simp]: "otext (emit t out) = otext out @ t" "otext (out\<lparr>stored := s\<rparr>) = otext out"
  by (simp_all add: otext_def emit_def)

lemma otext_emit_spaces [simp]: "otext (emit_spaces n out) = otext out @ replicate n (CHR '' '')"
proof (induction n out rule: emit_spaces.induct)
  case (1 n out)
  then show ?case
    by (subst emit_spaces.simps) (auto simp: replicate_add [symmetric])
qed

lemma otext_emit_field [simp]: "otext (emit_field left w t out) = otext out @ pad left w t"
  by (simp add: emit_field_def pad_def Let_def)

definition counted :: "vx_out \<Rightarrow> bool" where
  "counted out \<longleftrightarrow> count out = int (length (otext out))"

lemma counted_emit [simp]: "counted out \<Longrightarrow> counted (emit t out)" "counted (out\<lparr>stored := s\<rparr>) = counted out"
  by (simp_all add: counted_def otext_def emit_def)

lemma counted_emit_spaces [simp]: "counted out \<Longrightarrow> counted (emit_spaces n out)"
proof (induction n out rule: emit_spaces.induct)
  case (1 n out)
  then show ?case by (subst emit_spaces.simps) auto
qed

lemma counted_emit_field [simp]: "counted out \<Longrightarrow> counted (emit_field left w t out)"
  by (simp add: emit_field_def Let_def)

text \<open>What one turn of the loop does, apart from the pieces that are put out before it.\<close>

datatype turn = Undefined | Stop bool string | Next string bool int string string "va_value list"

definition scan :: "(et_field \<Rightarrow> et_type \<Rightarrow> 64 word \<Rightarrow> string) \<Rightarrow> (nat \<Rightarrow> bool) \<Rightarrow> bool \<Rightarrow> string \<Rightarrow> va_value list \<Rightarrow> turn" where
  "scan fl mem ext fmt args =
     (let lit = takeWhile (\<lambda>c. c \<noteq> CHR ''%'') fmt in
      case dropWhile (\<lambda>c. c \<noteq> CHR ''%'') fmt of
        [] \<Rightarrow> Stop False lit
      | _ # r \<Rightarrow> if r = [] then Stop True (lit @ ''%'')
        else (case get_field r args of
                None \<Rightarrow> Undefined
              | Some (f, [], args) \<Rightarrow> Stop True lit
              | Some (f, c # r', args) \<Rightarrow>
                  (case List.find (\<lambda>i. fmttype i = c) fmtinfo of
                     None \<Rightarrow> Stop True lit
                   | Some i \<Rightarrow>
                       if \<not> ext \<and> FLAG_INTERN i then Stop True lit
                       else (case convert fl mem i f args 0 of
                               None \<Rightarrow> Undefined
                             | Some Conv_fails \<Rightarrow> Stop True lit
                             | Some (Converted t w args st) \<Rightarrow> Next lit (flag_leftjustify (ff f)) w t r' args))))"

lemma convert_count:
  "convert fl mem i f args n = (case convert fl mem i f args 0 of
     None \<Rightarrow> None | Some Conv_fails \<Rightarrow> Some Conv_fails
   | Some (Converted t w as st) \<Rightarrow> Some (Converted t w as (if etype i = etSIZE then [n] else st)))"
proof (cases "etype i = etSIZE")
  case True
  then show ?thesis by (simp add: convert_def convert_arg_def Let_def split: va_value.split list.split)
next
  case False
  then have "convert fl mem i f args n = convert fl mem i f args 0"
    by (cases args) (simp_all add: convert_def convert_arg_def Let_def)
  then show ?thesis using False by (simp split: option.split conversion.split)
qed

lemma vx_loop_scan:
  "case scan fl mem ext fmt args of
     Undefined \<Rightarrow> vx_loop fl mem ext fmt args out = None
   | Stop e t \<Rightarrow> \<exists>out'. vx_loop fl mem ext fmt args out = Some (if e then - 1 else count out', out') \<and>
       otext out' = otext out @ t \<and> (counted out \<longrightarrow> counted out')
   | Next lit left w t r args' \<Rightarrow> length r < length fmt \<and>
       (\<exists>out'. vx_loop fl mem ext fmt args out = vx_loop fl mem ext r args' out' \<and>
          otext out' = otext out @ lit @ pad left w t \<and> (counted out \<longrightarrow> counted out'))"
proof -
  define lit where "lit = takeWhile (\<lambda>c. c \<noteq> CHR ''%'') fmt"
  define o1 where "o1 = (if lit = [] then out else emit lit out)"
  have o1: "otext o1 = otext out @ lit" "counted out \<longrightarrow> counted o1" by (simp_all add: o1_def)
  note L = vx_loop.simps [of fl mem ext fmt args out, folded lit_def, unfolded Let_def, folded o1_def]
  note S = scan_def [of fl mem ext fmt args, folded lit_def, unfolded Let_def]
  show ?thesis
  proof (cases "dropWhile (\<lambda>c. c \<noteq> CHR ''%'') fmt")
    case Nil
    then show ?thesis using o1 by (simp add: S L Nil)
  next
    case d: (Cons p r)
    show ?thesis
    proof (cases "r = []")
      case True
      then show ?thesis using d o1 by (simp add: S L)
    next
      case r: False
      show ?thesis
      proof (cases "get_field r args")
        case None
        then show ?thesis using d r by (simp add: S L)
      next
        case g: (Some fld)
        obtain f r1 a1 where fld: "fld = (f, r1, a1)" by (rule prod_cases3)
        show ?thesis
        proof (cases r1)
          case Nil
          then show ?thesis using d r g fld o1 by (simp add: S L)
        next
          case r1: (Cons c r')
          show ?thesis
          proof (cases "List.find (\<lambda>i. fmttype i = c) fmtinfo")
            case None
            then show ?thesis using d r g fld r1 o1 by (simp add: S L)
          next
            case i: (Some i)
            have len: "length r' < length fmt"
              using dropWhile_shorter [OF d] get_field_length [of r args f r1 a1] g fld r1 by simp
            have cv: "convert fl mem i f a1 (count o1) = (case convert fl mem i f a1 0 of
                None \<Rightarrow> None | Some Conv_fails \<Rightarrow> Some Conv_fails
              | Some (Converted t w as st) \<Rightarrow> Some (Converted t w as (if etype i = etSIZE then [count o1] else st)))"
              by (rule convert_count)
            have L2: "vx_loop fl mem ext fmt args out = (if \<not> ext \<and> FLAG_INTERN i then Some (- 1, o1)
              else (case convert fl mem i f a1 (count o1) of
                      None \<Rightarrow> None
                    | Some Conv_fails \<Rightarrow> Some (- 1, o1)
                    | Some (Converted t w args st) \<Rightarrow>
                        vx_loop fl mem ext r' args (emit_field (flag_leftjustify (ff f)) w t (o1\<lparr>stored := stored o1 @ st\<rparr>))))"
              using d r g fld r1 i by (simp add: L)
            have S2: "scan fl mem ext fmt args = (if \<not> ext \<and> FLAG_INTERN i then Stop True lit
              else (case convert fl mem i f a1 0 of
                      None \<Rightarrow> Undefined
                    | Some Conv_fails \<Rightarrow> Stop True lit
                    | Some (Converted t w args st) \<Rightarrow> Next lit (flag_leftjustify (ff f)) w t r' args))"
              using d r g fld r1 i by (simp add: S)
            show ?thesis unfolding L2 S2 cv using len o1 by (auto split: option.split conversion.split)
          qed
        qed
      qed
    qed
  qed
qed

text \<open>The text of a format, and whether the interpreter reports an error.\<close>

function vx_text :: "(et_field \<Rightarrow> et_type \<Rightarrow> 64 word \<Rightarrow> string) \<Rightarrow> (nat \<Rightarrow> bool) \<Rightarrow> bool \<Rightarrow> string \<Rightarrow> va_value list \<Rightarrow> (bool \<times> string) option" where
  "vx_text fl mem ext fmt args = (case scan fl mem ext fmt args of
     Undefined \<Rightarrow> None
   | Stop e t \<Rightarrow> Some (e, t)
   | Next lit left w t r args' \<Rightarrow> map_option (\<lambda>(e, u). (e, lit @ pad left w t @ u)) (vx_text fl mem ext r args'))"
  by pat_completeness auto

lemma scan_shorter: "scan fl mem ext fmt args = Next lit left w t r args' \<Longrightarrow> length r < length fmt"
  using vx_loop_scan [of fl mem ext fmt args] by simp

termination vx_text
  by (relation "measure (\<lambda>(_, _, _, fmt, _). length fmt)") (auto dest: scan_shorter)

declare vx_text.simps [simp del]

lemma vx_loop_text:
  "case vx_text fl mem ext fmt args of
     None \<Rightarrow> vx_loop fl mem ext fmt args out = None
   | Some (e, t) \<Rightarrow> \<exists>out'. vx_loop fl mem ext fmt args out = Some (if e then - 1 else count out', out') \<and>
       otext out' = otext out @ t \<and> (counted out \<longrightarrow> counted out')"
proof (induction fl mem ext fmt args arbitrary: out rule: vx_text.induct)
  case (1 fl mem ext fmt args)
  show ?case
  proof (cases "scan fl mem ext fmt args")
    case (Next lit left w t r args')
    obtain out1 where o: "vx_loop fl mem ext fmt args out = vx_loop fl mem ext r args' out1"
      "otext out1 = otext out @ lit @ pad left w t" "counted out \<longrightarrow> counted out1"
      using vx_loop_scan [of fl mem ext fmt args out] Next by auto
    show ?thesis using 1 [OF Next, of out1] o by (subst vx_text.simps) (auto simp: Next split: option.splits)
  qed (use vx_loop_scan [of fl mem ext fmt args out] in \<open>simp_all add: vx_text.simps\<close>)
qed

lemma vxprintf_text:
  "vx_text fl mem ext fmt args = Some (e, t) \<Longrightarrow> fits (length t) \<Longrightarrow>
     \<exists>out. vxprintf fl mem ext fmt args = Some (if e then - 1 else int (length t), out) \<and> concat (pieces out) = t"
  using vx_loop_text [of fl mem ext fmt args "\<lparr>pieces = [[]], count = 0, stored = []\<rparr>"]
  by (auto simp: vxprintf_def counted_def otext_def fits_def)

lemma vxprintf_Some:
  assumes "vxprintf fl mem ext fmt args = Some (r, out)"
  shows "\<exists>e. vx_text fl mem ext fmt args = Some (e, concat (pieces out)) \<and> r = (if e then - 1 else int (length (concat (pieces out))))"
  using assms vx_loop_text [of fl mem ext fmt args "\<lparr>pieces = [[]], count = 0, stored = []\<rparr>"]
  by (auto simp: vxprintf_def counted_def otext_def bind_Some_iff split: if_splits option.splits)

section \<open>The block\<close>

definition holds :: "sgMprintf \<Rightarrow> string \<Rightarrow> bool" where
  "holds m t \<longleftrightarrow> xRealloc m \<and> zText m = Some t \<and> nChar m = length t \<and> nTotal m = length t \<and> room m = nAlloc m \<and> length t < nAlloc m"

text \<open>Texts for which no length overflows, however the block grows.\<close>

definition moderate :: "nat \<Rightarrow> bool" where
  "moderate n \<longleftrightarrow> fits (2 * n + 10)"

lemma moderate_less: "moderate n \<Longrightarrow> k \<le> 2 * n + 10 \<Longrightarrow> fits k"
  by (simp add: moderate_def fits_def)

lemma mout_holds:
  assumes "\<forall>n. mem n" "holds m t"
  shows "mout mem u m = Some m' \<Longrightarrow> holds m' (t @ u)" "moderate (length (t @ u)) \<Longrightarrow> mout mem u m \<noteq> None"
proof -
  show "mout mem u m = Some m' \<Longrightarrow> holds m' (t @ u)"
    using assms by (auto simp: mout_def mput_def holds_def Let_def split: if_splits)
  assume "moderate (length (t @ u))"
  note f = moderate_less [OF this]
  have "fits (length t + length u)" "fits (length t + length u + 1)" "fits (length t + length u * 2 + 1)" by (rule f; simp)+
  then show "mout mem u m \<noteq> None" using assms by (auto simp: mout_def mput_def holds_def Let_def)
qed

lemma mout_all_holds:
  "\<forall>n. mem n \<Longrightarrow> holds m t \<Longrightarrow> mout_all mem us m = Some m' \<Longrightarrow> holds m' (t @ concat us)"
proof (induction us arbitrary: m t)
  case (Cons u us)
  from Cons.prems(3) obtain m1 where m1: "mout mem u m = Some m1" "mout_all mem us m1 = Some m'" by (auto simp: bind_Some_iff)
  from Cons.IH [OF Cons.prems(1) mout_holds(1) [OF Cons.prems(1,2) m1(1)] m1(2)] show ?case by simp
qed simp

lemma mout_all_moderate:
  "\<forall>n. mem n \<Longrightarrow> holds m t \<Longrightarrow> moderate (length (t @ concat us)) \<Longrightarrow> mout_all mem us m \<noteq> None"
proof (induction us arbitrary: m t)
  case (Cons u us)
  have "moderate (length (t @ u))" using Cons.prems(3) by (simp add: moderate_def fits_def)
  then obtain m' where m': "mout mem u m = Some m'" using mout_holds(2) [OF Cons.prems(1,2)] by blast
  from Cons.IH [OF Cons.prems(1) mout_holds(1) [OF Cons.prems(1,2) m']] Cons.prems(3) m' show ?case by simp
qed simp

text \<open>Without reallocation the block keeps the beginning of the text.\<close>

definition clipped :: "nat \<Rightarrow> sgMprintf \<Rightarrow> string \<Rightarrow> bool" where
  "clipped n m t \<longleftrightarrow> \<not> xRealloc m \<and> nTotal m = length t \<and> zText m = Some (take (n - 1) t) \<and> nChar m = length (take (n - 1) t) \<and> room m = n \<and> nAlloc m = n"

lemma mout_clipped:
  assumes "0 < n" "clipped n m t" "fits (length (t @ u) + 1)"
  shows "\<exists>m'. mout mem u m = Some m' \<and> clipped n m' (t @ u)"
proof -
  have f: "fits (nTotal m + length u)" "fits (nChar m + length u + 1)" using assms(2,3) by (auto simp: clipped_def fits_def)
  have "mout mem u m = mput (take (n - 1 - length t) u) (m\<lparr>nTotal := nTotal m + length u\<rparr>)"
    using assms(1,2) f by (auto simp: mout_def clipped_def Let_def min_def split: if_splits)
  also have "\<dots> = Some (m\<lparr>nTotal := nTotal m + length u, zText := Some (take (n - 1) (t @ u)), nChar := length (take (n - 1) (t @ u))\<rparr>)"
    using assms(1,2) by (auto simp: mput_def clipped_def min_def)
  finally show ?thesis using assms(2) by (auto simp: clipped_def)
qed

lemma mout_all_clipped:
  "0 < n \<Longrightarrow> clipped n m t \<Longrightarrow> fits (length (t @ concat us) + 1) \<Longrightarrow> \<exists>m'. mout_all mem us m = Some m' \<and> clipped n m' (t @ concat us)"
proof (induction us arbitrary: m t)
  case (Cons u us)
  have "fits (length (t @ u) + 1)" using Cons.prems(3) by (simp add: fits_def)
  then obtain m' where "mout mem u m = Some m'" "clipped n m' (t @ u)" using mout_clipped [OF Cons.prems(1,2)] by blast
  then show ?case using Cons.IH [OF Cons.prems(1), of m' "t @ u"] Cons.prems(3) by simp
qed simp

lemma start_holds:
  "holds \<lparr>on_base = True, zText = Some [], nChar = 0, nTotal = 0, nAlloc = SWITCH_PRINT_BUF_SIZE,
    room = SWITCH_PRINT_BUF_SIZE, xRealloc = True\<rparr> []"
  by (simp add: holds_def SWITCH_PRINT_BUF_SIZE_def)

lemma agc_mprintf_Some:
  assumes "\<forall>n. mem n" "agc_mprintf fl mem fmt args = Some (Some t)"
  shows "\<exists>e. vx_text fl mem False fmt args = Some (e, t)"
proof -
  let ?m = "\<lparr>on_base = True, zText = Some [], nChar = 0, nTotal = 0, nAlloc = SWITCH_PRINT_BUF_SIZE,
    room = SWITCH_PRINT_BUF_SIZE, xRealloc = True\<rparr>"
  from assms(2) obtain r out m' where o: "vxprintf fl mem False fmt args = Some (r, out)" and m': "mout_all mem (pieces out) ?m = Some m'"
    and z: "zText m' = Some t" using assms(1) by (auto simp: agc_mprintf_def base_vprintf_def bind_Some_iff split: if_splits)
  have "zText m' = Some (concat (pieces out))" using mout_all_holds [OF assms(1) start_holds m'] by (simp add: holds_def)
  with vxprintf_Some [OF o] z show ?thesis by auto
qed

lemma agc_mprintf_text:
  assumes "\<forall>n. mem n" "vx_text fl mem False fmt args = Some (e, t)" "moderate (length t)"
  shows "agc_mprintf fl mem fmt args = Some (Some t)"
proof -
  let ?m = "\<lparr>on_base = True, zText = Some [], nChar = 0, nTotal = 0, nAlloc = SWITCH_PRINT_BUF_SIZE,
    room = SWITCH_PRINT_BUF_SIZE, xRealloc = True\<rparr>"
  have f: "fits (length t)" "fits (length t + 10)" by (rule moderate_less [OF assms(3)]; simp)+
  obtain r out where o: "vxprintf fl mem False fmt args = Some (r, out)" "concat (pieces out) = t"
    using vxprintf_text [OF assms(2) f(1)] by blast
  obtain m' where m': "mout_all mem (pieces out) ?m = Some m'"
    using mout_all_moderate [OF assms(1) start_holds, of "pieces out"] o(2) assms(3) by auto
  have "holds m' t" using mout_all_holds [OF assms(1) start_holds m'] o(2) by simp
  then show ?thesis using o(1) m' f(2) assms(1) by (simp add: agc_mprintf_def base_vprintf_def holds_def)
qed

lemma agc_snprintfv_text:
  assumes "0 < n" "vx_text fl mem False fmt args = Some (e, t)" "moderate (length t)"
  shows "agc_snprintfv fl mem n fmt args = Some (Some (take (n - 1) t))"
proof -
  let ?m = "\<lparr>on_base = True, zText = Some [], nChar = 0, nTotal = 0, nAlloc = n, room = n, xRealloc = False\<rparr>"
  have f: "fits (length t)" "fits (length t + 1)" by (rule moderate_less [OF assms(3)]; simp)+
  obtain r out where o: "vxprintf fl mem False fmt args = Some (r, out)" "concat (pieces out) = t"
    using vxprintf_text [OF assms(2) f(1)] by blast
  obtain m' where "mout_all mem (pieces out) ?m = Some m'" "clipped n m' t"
    using mout_all_clipped [OF assms(1), of ?m "[]" "pieces out" mem] o(2) f(2) by (auto simp: clipped_def)
  then show ?thesis using o(1) by (simp add: agc_snprintfv_def base_vprintf_def clipped_def)
qed

section \<open>Formats\<close>

lemma vx_text_char:
  assumes "c \<noteq> CHR ''%''"
  shows "vx_text fl mem ext (c # fmt) args = map_option (\<lambda>(e, t). (e, c # t)) (vx_text fl mem ext fmt args)"
proof -
  have "scan fl mem ext (c # fmt) args = (case scan fl mem ext fmt args of
      Undefined \<Rightarrow> Undefined | Stop e t \<Rightarrow> Stop e (c # t) | Next lit left w t r as \<Rightarrow> Next (c # lit) left w t r as)"
  proof -
    obtain d l where d: "dropWhile (\<lambda>c. c \<noteq> CHR ''%'') fmt = d" "takeWhile (\<lambda>c. c \<noteq> CHR ''%'') fmt = l" by blast
    then have "dropWhile (\<lambda>c. c \<noteq> CHR ''%'') (c # fmt) = d" "takeWhile (\<lambda>c. c \<noteq> CHR ''%'') (c # fmt) = c # l"
      using assms by simp_all
    then show ?thesis unfolding scan_def d Let_def by (simp split: list.split option.split prod.split conversion.split)
  qed
  then show ?thesis
    by (subst (1 2) vx_text.simps) (simp add: option.map_comp comp_def case_prod_unfold split: turn.split)
qed

lemma vx_text_literal:
  "CHR ''%'' \<notin> set p \<Longrightarrow> vx_text fl mem ext (p @ fmt) args = map_option (\<lambda>(e, t). (e, p @ t)) (vx_text fl mem ext fmt args)"
  by (induction p) (auto simp: vx_text_char option.map_comp comp_def case_prod_unfold option.map_ident)

lemma vx_text_empty [simp]: "vx_text fl mem ext [] args = Some (False, [])"
  by (simp add: vx_text.simps scan_def)

definition plain_field :: et_field where
  "plain_field = \<lparr>ff = no_flags, width = 0, precision = - 1, flag_long = False, flag_longlong = False\<rparr>"

definition plain_char :: "char \<Rightarrow> bool" where
  "plain_char c \<longleftrightarrow> c \<notin> {CHR ''-'', CHR ''+'', CHR '' '', CHR ''#'', CHR ''!'', CHR ''*'', CHR ''.'', CHR ''l''} \<and> \<not> is_digit c"

lemma get_field_plain:
  assumes "plain_char c"
  shows "get_field (c # r) args = Some (plain_field, c # r, args)"
proof -
  have c1: "\<not> is_digit c" using assms unfolding plain_char_def by blast
  have "is_digit (CHR ''0'')" by (simp add: is_digit_def)
  with c1 have c: "\<not> is_digit c" "c \<noteq> CHR ''0''" by blast+
  have "get_flags (c # r) no_flags = (no_flags, c # r)" using assms c(2) by (simp add: plain_char_def)
  moreover have "get_star (c # r) args = Some (0, c # r, args)" using assms c(1) by (simp add: plain_char_def get_star_def)
  moreover have "get_precision (c # r) args = Some (- 1, c # r, args)" using assms by (simp add: plain_char_def get_precision_def begins_with_def)
  moreover have "get_long (c # r) = (False, False, c # r)" using assms by (simp add: plain_char_def get_long_def begins_with_def)
  ultimately show ?thesis by (simp add: get_field_def plain_field_def etBUFSIZE_def del: get_flags.simps)
qed

lemma vx_text_convert:
  assumes "plain_char c" "List.find (\<lambda>i. fmttype i = c) fmtinfo = Some i" "\<not> FLAG_INTERN i"
    "convert fl mem i plain_field args 0 = Some (Converted t 0 args' st)"
  shows "vx_text fl mem ext (CHR ''%'' # c # r) args = map_option (\<lambda>(e, u). (e, t @ u)) (vx_text fl mem ext r args')"
proof -
  have "scan fl mem ext (CHR ''%'' # c # r) args = Next [] False 0 t r args'"
    using assms by (simp add: scan_def get_field_plain plain_field_def no_flags_def)
  then show ?thesis by (subst vx_text.simps) (simp add: pad_def)
qed

lemma escape_size_exact: "t \<in> {etSQLESCAPE, etSQLESCAPE2, etSQLESCAPE3, etSQLESCAPE4} \<Longrightarrow> length (escape_text t a) + 1 = escape_size t a"
proof -
  have "length (concat (map (escape_char t) s)) = length (filter (escapes t) s) + length s" for s
    by (induction s) (auto simp: escape_char_def)
  then show ?thesis by (simp add: escape_text_def escape_size_def Let_def)
qed

lemma find_conversions:
  "List.find (\<lambda>i. fmttype i = CHR ''q'') fmtinfo = Some \<lparr>fmttype = CHR ''q'', ebase = 0, eflags = 4, etype = etSQLESCAPE, echarset = 0, eprefix = 0\<rparr>"
  "List.find (\<lambda>i. fmttype i = CHR ''s'') fmtinfo = Some \<lparr>fmttype = CHR ''s'', ebase = 0, eflags = 4, etype = etSTRING, echarset = 0, eprefix = 0\<rparr>"
  "List.find (\<lambda>i. fmttype i = CHR ''d'') fmtinfo = Some \<lparr>fmttype = CHR ''d'', ebase = 10, eflags = 1, etype = etRADIX, echarset = 0, eprefix = 0\<rparr>"
  by (simp_all add: fmtinfo_def)

lemma vx_text_q:
  assumes "\<forall>n. mem n" "fits (length (escape_text etSQLESCAPE a) + 1)"
  shows "vx_text fl mem ext (''%q'' @ r) (Va_str a # args) =
    map_option (\<lambda>(e, u). (e, escape_text etSQLESCAPE a @ u)) (vx_text fl mem ext r args)"
proof -
  have "convert fl mem \<lparr>fmttype = CHR ''q'', ebase = 0, eflags = 4, etype = etSQLESCAPE, echarset = 0, eprefix = 0\<rparr> plain_field (Va_str a # args) 0
    = Some (Converted (escape_text etSQLESCAPE a) 0 args [])"
    using assms escape_size_exact [of etSQLESCAPE a]
    by (simp add: convert_def convert_arg_def convert_escape_def limit_precision_def FLAG_STRING_def plain_field_def Let_def)
  then show ?thesis using vx_text_convert [OF _ find_conversions(1)] by (simp add: FLAG_INTERN_def plain_char_def is_digit_def)
qed

lemma convert_s:
  "fits (length x) \<Longrightarrow> convert fl mem \<lparr>fmttype = CHR ''s'', ebase = 0, eflags = 4, etype = etSTRING, echarset = 0, eprefix = 0\<rparr> plain_field (Va_str (Some x) # args) k
    = Some (Converted x 0 args [])"
  by (simp add: convert_def convert_arg_def convert_string_def string_text_def limit_precision_def FLAG_STRING_def plain_field_def Let_def)

section \<open>Quoting\<close>

lemma escape_text_length: "length (escape_text etSQLESCAPE (Some s)) \<le> 2 * length s"
  by (induction s) (auto simp: escape_text_def escape_char_def)

text \<open>The reading of a quoted text in SQL, where a quote inside it is doubled: the text and what follows it.\<close>

fun sql_body :: "string \<Rightarrow> (string \<times> string) option" where
  "sql_body [] = None"
| "sql_body (c # r) =
     (if c \<noteq> CHR 0x27 then map_option (\<lambda>(s, u). (c # s, u)) (sql_body r)
      else (case r of
              [] \<Rightarrow> Some ([], [])
            | d # r' \<Rightarrow> if d = CHR 0x27 then map_option (\<lambda>(s, u). (CHR 0x27 # s, u)) (sql_body r') else Some ([], r)))"

definition sql_literal :: "string \<Rightarrow> (string \<times> string) option" where
  "sql_literal u = (case u of [] \<Rightarrow> None | c # r \<Rightarrow> if c = CHR 0x27 then sql_body r else None)"

lemma sql_body_escaped:
  "u = [] \<or> hd u \<noteq> CHR 0x27 \<Longrightarrow> sql_body (concat (map (escape_char etSQLESCAPE) s) @ CHR 0x27 # u) = Some (s, u)"
  by (induction s) (auto simp: escape_char_def escapes_def split: list.split)

section \<open>Numbers\<close>

text \<open>The value of a list of digits.\<close>

definition digits_value :: "nat \<Rightarrow> nat list \<Rightarrow> nat" where
  "digits_value b ds = foldl (\<lambda>n d. n * b + d) 0 ds"

lemma digits_value_append: "digits_value b (ds @ [d]) = digits_value b ds * b + d"
  by (simp add: digits_value_def)

lemma radix_digits_spec:
  assumes "2 \<le> b"
  shows "v < b ^ Suc k \<Longrightarrow> \<exists>ds. radix_digits cset b v acc = map (\<lambda>d. aDigits ! (cset + d)) ds @ acc \<and> (\<forall>d \<in> set ds. d < b) \<and>
    digits_value b ds = v \<and> ds \<noteq> [] \<and> length ds \<le> Suc k"
proof (induction k arbitrary: v acc)
  case 0
  then have "v div b = 0" "v mod b = v" by simp_all
  then show ?case using assms 0 by (intro exI [of _ "[v]"]) (simp add: radix_digits.simps digits_value_def)
next
  case (Suc k)
  show ?case
  proof (cases "v div b = 0")
    case True
    then have "v mod b = v" using assms by (metis div_mult_mod_eq mult_0 add_0)
    then show ?thesis using assms True by (intro exI [of _ "[v]"]) (auto simp: radix_digits.simps digits_value_def div_eq_0_iff)
  next
    case False
    have "v div b < b ^ Suc k" using Suc.prems by (simp add: less_mult_imp_div_less mult.commute)
    then obtain ds where ds: "radix_digits cset b (v div b) (aDigits ! (cset + v mod b) # acc) =
        map (\<lambda>d. aDigits ! (cset + d)) ds @ aDigits ! (cset + v mod b) # acc" "\<forall>d \<in> set ds. d < b" "digits_value b ds = v div b"
        "ds \<noteq> []" "length ds \<le> Suc k"
      using Suc.IH by blast
    have "radix_digits cset b v acc = radix_digits cset b (v div b) (aDigits ! (cset + v mod b) # acc)"
      using False assms by (subst radix_digits.simps) simp
    then show ?thesis using ds assms by (intro exI [of _ "ds @ [v mod b]"]) (simp add: digits_value_append)
  qed
qed

lemma get_star_nonneg: "get_number r n = Some (m, r') \<Longrightarrow> 0 \<le> n \<Longrightarrow> 0 \<le> m"
  by (induction r n rule: get_number.induct) (auto simp: Let_def split: if_splits)

lemma get_field_bounds:
  assumes "get_field r args = Some (f, r', args')"
  shows "0 \<le> width f" "width f \<le> 340" "- 1 \<le> precision f"
proof -
  obtain g r1 where g: "get_flags r no_flags = (g, r1)" by fastforce
  with assms obtain w r2 a2 where w: "get_star r1 args = Some (w, r2, a2)" by (auto simp: get_field_def bind_Some_iff)
  with assms g obtain p r3 a3 where p: "get_precision r2 a2 = Some (p, r3, a3)" by (auto simp: get_field_def bind_Some_iff Let_def)
  have f: "width f = min \<bar>w\<bar> 340" "precision f = p"
    using assms g w p by (auto simp: get_field_def etBUFSIZE_def Let_def split: prod.splits)
  then show "0 \<le> width f" "width f \<le> 340" by auto
  show "- 1 \<le> precision f" using p f(2) by (auto simp: get_precision_def split: if_splits)
qed

lemma radix_value_bound:
  assumes "radix_value i f a = Some (v, s)"
  shows "v < 2 ^ 64"
proof -
  have w: "unat (w :: 64 word) < 2 ^ 64" "unat (u :: 32 word) < 2 ^ 64" for w u
    using unsigned_less [of w, where 'a = nat] unsigned_less [of u, where 'a = nat] by simp_all
  have i: "\<bar>sint (w :: 64 word)\<bar> < 2 ^ 64" "\<bar>sint (u :: 32 word)\<bar> < 2 ^ 64" for w u
    using sint_range_size [of w] sint_range_size [of u] by (auto simp: word_size)
  have "nat (- sint w) < 2 ^ 64" "nat (sint w) < 2 ^ 64" "nat (- sint u) < 2 ^ 64" "nat (sint u) < 2 ^ 64"
    for w :: "64 word" and u :: "32 word" using i(1) [of w] i(2) [of u] by auto
  with w show ?thesis using assms by (auto simp: radix_value_def Let_def bind_Some_iff split: va_value.splits if_splits)
qed

lemma aPrefix_length: "length (aPrefix k) \<le> 2 \<or> k = 0"
proof -
  have "k = 0 \<or> k = 1 \<or> k = 2 \<or> k = 3 \<or> k = 4 \<or> k = 5 \<or> 6 \<le> k" by linarith
  then show ?thesis by (elim disjE) (simp_all add: aPrefix_def)
qed

lemma radix_text_spec:
  assumes "8 \<le> ebase i" "v < 2 ^ 64" "0 \<le> width f" "width f \<le> 340" "precision f \<le> 310"
  shows "\<exists>pre ds. radix_text i f v s = Some (pre @ map (\<lambda>d. aDigits ! (echarset i + d)) ds) \<and>
    length pre + length ds \<le> 342 \<and> digits_value (ebase i) ds = v \<and> ds \<noteq> [] \<and> (\<forall>d \<in> set ds. d < ebase i) \<and>
    set pre \<subseteq> {CHR ''0''} \<union> set_option s \<union> set (aPrefix (eprefix i))"
proof -
  have "(2 :: nat) ^ 64 \<le> 8 ^ Suc 21" by simp
  also have "\<dots> \<le> ebase i ^ Suc 21" using assms(1) by (intro power_mono) auto
  finally have "v < ebase i ^ Suc 21" using assms(2) by simp
  then obtain ds where ds: "radix_digits (echarset i) (ebase i) v [] = map (\<lambda>d. aDigits ! (echarset i + d)) ds"
      "\<forall>d \<in> set ds. d < ebase i" "digits_value (ebase i) ds = v" "ds \<noteq> []" "length ds \<le> 22"
    using radix_digits_spec [of "ebase i" v 21 "echarset i" "[]"] assms(1) by auto
  define p where "p = (if flag_zeropad (ff f) \<and> precision f < width f - (if s = None then 0 else 1)
    then width f - (if s = None then 0 else 1) else precision f)"
  define z where "z = replicate (nat (p - int (length ds))) (CHR ''0'')"
  define sg where "sg = (case s of None \<Rightarrow> [] | Some c \<Rightarrow> [c])"
  define d1 where "d1 = sg @ z @ map (\<lambda>d. aDigits ! (echarset i + d)) ds"
  define al where "al = (if flag_alternateform (ff f) \<and> v \<noteq> 0 \<and> eprefix i \<noteq> 0 \<and> hd d1 \<noteq> hd (aPrefix (eprefix i))
    then rev (aPrefix (eprefix i)) else [])"
  have al: "length al \<le> 2" using aPrefix_length [of "eprefix i"] by (auto simp: al_def)
  have "length (sg @ z) + length ds \<le> 340" using assms(3-5) ds(5) by (auto simp: sg_def z_def p_def split: option.splits)
  with al have len: "length (al @ sg @ z) + length ds \<le> 342" by simp
  let ?ds = "map (\<lambda>d. aDigits ! (echarset i + d)) ds"
  have e1: "(case s of None \<Rightarrow> z @ ?ds | Some c \<Rightarrow> c # (z @ ?ds)) = d1" by (cases s) (simp_all add: d1_def sg_def)
  have e2: "(if flag_alternateform (ff f) \<and> v \<noteq> 0 \<and> eprefix i \<noteq> 0 \<and> hd d1 \<noteq> hd (aPrefix (eprefix i))
    then rev (aPrefix (eprefix i)) @ d1 else d1) = al @ d1" by (simp add: al_def)
  have "radix_text i f v s = (if int (length (al @ d1)) \<le> etBUFSIZE - 1 then Some (al @ d1) else None)"
    by (rule radix_text_def [of i f v s, unfolded Let_def ds(1) length_map, folded p_def, folded z_def, unfolded e1 e2])
  moreover have "int (length (al @ d1)) \<le> etBUFSIZE - 1" using len by (simp add: d1_def etBUFSIZE_def)
  ultimately have "radix_text i f v s = Some ((al @ sg @ z) @ map (\<lambda>d. aDigits ! (echarset i + d)) ds)" by (simp add: d1_def)
  moreover have "set (al @ sg @ z) \<subseteq> {CHR ''0''} \<union> set_option s \<union> set (aPrefix (eprefix i))"
    by (auto simp: al_def sg_def z_def split: option.splits if_splits)
  ultimately show ?thesis using ds(2-4) len by blast
qed

lemma radix_entry:
  assumes "List.find (\<lambda>i. fmttype i = c) fmtinfo = Some i" "etype i = etRADIX"
  shows "8 \<le> ebase i" "\<not> FLAG_STRING i"
proof -
  have "i \<in> set fmtinfo" using assms(1) by (auto simp: find_Some_iff)
  then show "8 \<le> ebase i" "\<not> FLAG_STRING i" using assms(2) by (auto simp: fmtinfo_def FLAG_STRING_def)
qed

section \<open>Properties\<close>

text \<open>
  The functions that print into memory return what the interpreter puts out: the allocating one all
  of it, however the block had to grow, and the bounded one the characters that fit beside the final
  zero; the interpreter reports an error or the number of characters.
\<close>

theorem agc_mprintf_collects:
  assumes "\<forall>n. mem n" "vxprintf fl mem False fmt args = Some (r, out)" "0 < n" "moderate (length (concat (pieces out)))"
  shows "agc_mprintf fl mem fmt args = Some (Some (concat (pieces out))) \<and>
    agc_snprintfv fl mem n fmt args = Some (Some (take (n - 1) (concat (pieces out)))) \<and>
    (r = - 1 \<or> r = int (length (concat (pieces out))))"
proof -
  obtain e where t: "vx_text fl mem False fmt args = Some (e, concat (pieces out))"
    "r = (if e then - 1 else int (length (concat (pieces out))))" using vxprintf_Some [OF assms(2)] by blast
  then show ?thesis using agc_mprintf_text [OF assms(1) t(1) assms(4)] agc_snprintfv_text [OF assms(3) t(1) assms(4)] by simp
qed

theorem agc_mprintf_collects_witness:
  "\<exists>r out. vxprintf (\<lambda>_ _ _. []) (\<lambda>_. True) False ''%d:%5s|%-4x%%'' [Va_int 42, Va_str (Some ''ab''), Va_int 255] = Some (r, out) \<and>
     concat (pieces out) = ''42:   ab|ff  %'' \<and>
     agc_mprintf (\<lambda>_ _ _. []) (\<lambda>_. True) ''%d:%5s|%-4x%%'' [Va_int 42, Va_str (Some ''ab''), Va_int 255] = Some (Some (concat (pieces out))) \<and>
     agc_snprintfv (\<lambda>_ _ _. []) (\<lambda>_. True) 5 ''%d:%5s|%-4x%%'' [Va_int 42, Va_str (Some ''ab''), Va_int 255] = Some (Some ''42: '')"
proof -
  define run where "run = vxprintf (\<lambda>_ _ _. []) (\<lambda>_. True) False ''%d:%5s|%-4x%%'' [Va_int 42, Va_str (Some ''ab''), Va_int 255]"
  have "map_option (\<lambda>(r, out). concat (pieces out)) run = Some ''42:   ab|ff  %''" unfolding run_def by code_simp
  then obtain r out where o: "run = Some (r, out)" "concat (pieces out) = ''42:   ab|ff  %''" by auto
  have "moderate (length (concat (pieces out)))" by (simp add: o(2) moderate_def fits_def INT_MAX_def)
  then show ?thesis using agc_mprintf_collects [OF _ o(1) [unfolded run_def], of 5] o by (simp add: run_def)
qed

text \<open>
  C26: A text printed with \<^verbatim>\<open>'%q'\<close> stays one SQL text: whatever the argument holds, the literal that
  begins where the quote was printed reads back as the argument, and what follows it is what the
  rest of the format prints, which does not begin with a quote. Memory is available; the printed text has to be shorter than half the range of an \<^verbatim>\<open>int\<close>, in which the code counts.
\<close>

theorem agc_mprintf_quotes:
  assumes "\<forall>n. mem n" "CHR ''%'' \<notin> set p" "agc_mprintf fl mem r args = Some (Some t)" "t = [] \<or> hd t \<noteq> CHR 0x27"
    and "length p + 2 * length s + length t + 10 < 2 ^ 30"
  shows "\<exists>u. agc_mprintf fl mem (p @ [CHR 0x27] @ ''%q'' @ [CHR 0x27] @ r) (Va_str (Some s) # args) = Some (Some (p @ u)) \<and>
    sql_literal u = Some (s, t)"
proof -
  obtain e where t: "vx_text fl mem False r args = Some (e, t)" using agc_mprintf_Some [OF assms(1,3)] by blast
  let ?u = "[CHR 0x27] @ escape_text etSQLESCAPE (Some s) @ [CHR 0x27] @ t"
  have l: "length (escape_text etSQLESCAPE (Some s)) \<le> 2 * length s" by (rule escape_text_length)
  then have m: "moderate (length (p @ ?u))" "fits (length (escape_text etSQLESCAPE (Some s)) + 1)"
    using assms(5) by (simp_all add: moderate_def fits_def INT_MAX_def)
  have "vx_text fl mem False (p @ [CHR 0x27] @ ''%q'' @ [CHR 0x27] @ r) (Va_str (Some s) # args) = Some (e, p @ ?u)"
    using t vx_text_q [OF assms(1) m(2), of fl False "CHR 0x27 # r" args] by (simp add: vx_text_literal [OF assms(2)] vx_text_char)
  then have "agc_mprintf fl mem (p @ [CHR 0x27] @ ''%q'' @ [CHR 0x27] @ r) (Va_str (Some s) # args) = Some (Some (p @ ?u))"
    by (rule agc_mprintf_text [OF assms(1) _ m(1)])
  moreover have "sql_literal ?u = Some (s, t)"
    using sql_body_escaped [OF assms(4), of s] by (simp add: sql_literal_def escape_text_def)
  ultimately show ?thesis by blast
qed

theorem agc_mprintf_quotes_witness:
  "\<exists>u. agc_mprintf (\<lambda>_ _ _. []) (\<lambda>_. True) (''DELETE FROM t WHERE n='' @ [CHR 0x27] @ ''%q'' @ [CHR 0x27] @ '';'')
       [Va_str (Some ([CHR 0x27] @ '' OR 1=1; --''))] = Some (Some (''DELETE FROM t WHERE n='' @ u)) \<and>
     sql_literal u = Some ([CHR 0x27] @ '' OR 1=1; --'', '';'')"
proof -
  have "agc_mprintf (\<lambda>_ _ _. []) (\<lambda>_. True) '';'' [] = Some (Some '';'')" by code_simp
  then show ?thesis by (intro agc_mprintf_quotes) simp_all
qed

text \<open>
  An integer conversion stays inside its buffer of 350 bytes whatever flags, width and precision the
  format asks for, and prints the value: at the end of its text stand digits of the base whose value
  is the argument's, before them only zeros, the sign and the prefix.
\<close>

theorem agc_print_number:
  assumes "get_field r args = Some (f, c # r', a # args')" "List.find (\<lambda>i. fmttype i = c) fmtinfo = Some i" "etype i = etRADIX"
    "radix_value i f a = Some (v, s)"
  shows "\<exists>pre ds. convert fl mem i f (a # args') n = Some (Converted (pre @ map (\<lambda>d. aDigits ! (echarset i + d)) ds) (width f) args' []) \<and>
    length pre + length ds < 350 \<and> digits_value (ebase i) ds = v \<and> ds \<noteq> [] \<and> (\<forall>d \<in> set ds. d < ebase i) \<and>
    set pre \<subseteq> {CHR ''0''} \<union> set_option s \<union> set (aPrefix (eprefix i))"
proof -
  let ?f = "limit_precision i f"
  note b = get_field_bounds [OF assms(1)] and e = radix_entry [OF assms(2,3)]
  have f: "width ?f = width f" "precision ?f \<le> 310" "radix_value i ?f a = radix_value i f a"
    using e(2) by (auto simp: limit_precision_def etBUFSIZE_def radix_value_def)
  obtain pre ds where d: "radix_text i ?f v s = Some (pre @ map (\<lambda>d. aDigits ! (echarset i + d)) ds)" "length pre + length ds \<le> 342"
      "digits_value (ebase i) ds = v" "ds \<noteq> []" "\<forall>d \<in> set ds. d < ebase i"
      "set pre \<subseteq> {CHR ''0''} \<union> set_option s \<union> set (aPrefix (eprefix i))"
    using radix_text_spec [OF e(1) radix_value_bound [OF assms(4)], of ?f s] b f by auto
  have "convert fl mem i f (a # args') n = Some (Converted (pre @ map (\<lambda>d. aDigits ! (echarset i + d)) ds) (width f) args' [])"
    using assms(3,4) f d(1) by (simp add: convert_def convert_arg_def convert_radix_def Let_def)
  then show ?thesis using d by (intro exI [of _ pre] exI [of _ ds]) auto
qed

theorem agc_print_number_witness:
  "\<exists>f i pre ds. get_field ''+08d'' [Va_int (- 42)] = Some (f, ''d'', [Va_int (- 42)]) \<and>
     convert (\<lambda>_ _ _. []) (\<lambda>_. True) i f [Va_int (- 42)] 0 = Some (Converted (pre @ map (\<lambda>d. aDigits ! d) ds) 8 [] []) \<and>
     length pre + length ds < 350 \<and> digits_value 10 ds = 42"
proof -
  let ?f = "\<lparr>ff = no_flags\<lparr>flag_plussign := True, flag_zeropad := True\<rparr>, width = 8, precision = - 1, flag_long = False, flag_longlong = False\<rparr>"
  let ?i = "\<lparr>fmttype = CHR ''d'', ebase = 10, eflags = 1, etype = etRADIX, echarset = 0, eprefix = 0\<rparr>"
  have g: "get_field ''+08d'' [Va_int (- 42)] = Some (?f, ''d'', [Va_int (- 42)])" by code_simp
  have r: "radix_value ?i ?f (Va_int (- 42)) = Some (42, Some (CHR ''-''))" by code_simp
  from agc_print_number [OF g find_conversions(3) _ r, of "\<lambda>_ _ _. []" "\<lambda>_. True" 0] g
  show ?thesis by auto
qed

text \<open>
  When a block cannot be enlarged the collector goes on as if it had been: with the first text in a
  block of twice its length and one byte, a longer second text for which the reallocation fails is
  copied past the end of the block.
\<close>

theorem agc_mprintf_realloc_overflow:
  assumes "350 \<le> length a" "length a < length b" "mem (length a * 2 + 1)" "\<not> mem (length a + length b * 2 + 1)"
    "fits (length a + length b * 2 + 1)"
  shows "agc_mprintf fl mem ''%s%s'' [Va_str (Some a), Va_str (Some b)] = None"
proof -
  have gf: "get_field (CHR ''s'' # r) args = Some (plain_field, CHR ''s'' # r, args)" for r args
    by (rule get_field_plain) (simp add: plain_char_def is_digit_def)
  have ne: "a \<noteq> []" "b \<noteq> []" using assms(1,2) by auto
  have fit: "fits (length a)" "fits (length b)" "fits (length a + length b)" using assms(5) by (simp_all add: fits_def)
  have pf: "\<not> flag_leftjustify (ff plain_field)" by (simp add: plain_field_def no_flags_def)
  have step: "vx_loop fl mem False (CHR ''%'' # CHR ''s'' # r) (Va_str (Some x) # args) out = vx_loop fl mem False r args (emit x out)"
    if "x \<noteq> []" "fits (length x)" for r x args out
    using that pf by (subst vx_loop.simps) (simp add: gf find_conversions(2) convert_s FLAG_INTERN_def emit_field_def emit_spaces.simps Let_def
      etSPACESIZE_def)
  have "vxprintf fl mem False ''%s%s'' [Va_str (Some a), Va_str (Some b)] = Some (int (length a) + int (length b),
    \<lparr>pieces = [[], a, b], count = int (length a) + int (length b), stored = []\<rparr>)"
    using ne fit by (simp add: vxprintf_def step) (simp add: vx_loop.simps emit_def fits_def)
  moreover have "mout_all mem [[], a, b] \<lparr>on_base = True, zText = Some [], nChar = 0, nTotal = 0, nAlloc = SWITCH_PRINT_BUF_SIZE,
      room = SWITCH_PRINT_BUF_SIZE, xRealloc = True\<rparr> = None"
    using assms by (simp add: mout_def mput_def SWITCH_PRINT_BUF_SIZE_def Let_def fits_def)
  ultimately show ?thesis by (simp add: agc_mprintf_def base_vprintf_def)
qed

theorem agc_mprintf_realloc_overflow_witness:
  "agc_mprintf (\<lambda>_ _ _. []) (\<lambda>n. n \<le> 1000) ''%s%s'' [Va_str (Some (replicate 400 (CHR ''a''))), Va_str (Some (replicate 500 (CHR ''b'')))] = None"
  by (rule agc_mprintf_realloc_overflow) (simp_all add: fits_def INT_MAX_def)

end
