(* ===== verification/Agc_Cache.thy ===== *)
theory Agc_Cache
  imports Agc_Prelude
begin

text \<open>
  The cache interface of \<^verbatim>\<open>src/src/agc_cache.c\<close>: a table of functions that a module registers, the
  calls that go through it, and the lists of keys and values. The functions act on a state of type
  \<open>'s\<close>; \<^const>\<open>None\<close> is a crash. A function that is missing from the table is \<^const>\<open>None\<close> there.
\<close>

text \<open>A list of keys, and of keys with values: a missing value is a null pointer.\<close>

type_synonym cache_keys = "string list"
type_synonym cache_keyvalues = "(string \<times> string option \<times> int) list"

text \<open>The value that a function returns through a pointer; the pointer is not written when it is \<^const>\<open>None\<close>.\<close>

type_synonym ('s, 'r) cache_call = "'s \<Rightarrow> (agc_status \<times> 'r option \<times> 's) option"
type_synonym 's cache_do = "'s \<Rightarrow> (agc_status \<times> 's) option"

record 's cache_actions =
  agc_cach_set_func :: "(string \<Rightarrow> string \<Rightarrow> int \<Rightarrow> int \<Rightarrow> 's cache_do) option"
  agc_cache_get_func :: "(string \<Rightarrow> ('s, string option \<times> int) cache_call) option"
  agc_cache_delete_func :: "(string \<Rightarrow> 's cache_do) option"
  agc_cache_set_pipeline_func :: "(cache_keyvalues \<Rightarrow> 's cache_do) option"
  agc_cache_get_pipeline_func :: "(cache_keys \<Rightarrow> ('s, cache_keyvalues) cache_call) option"
  agc_cache_delete_pipeline_func :: "(cache_keys \<Rightarrow> 's cache_do) option"
  agc_cache_expire_func :: "(string \<Rightarrow> int \<Rightarrow> 's cache_do) option"
  agc_cache_incr_func :: "(string \<Rightarrow> ('s, int) cache_call) option"
  agc_cache_decr_func :: "(string \<Rightarrow> ('s, int) cache_call) option"
  agc_cache_hashset_func :: "(string \<Rightarrow> string \<Rightarrow> string \<Rightarrow> 's cache_do) option"
  agc_cache_hashget_func :: "(string \<Rightarrow> string \<Rightarrow> ('s, string option \<times> int) cache_call) option"
  agc_cache_hashmset_func :: "(string \<Rightarrow> cache_keyvalues \<Rightarrow> 's cache_do) option"
  agc_cache_hashmget_func :: "(string \<Rightarrow> cache_keys \<Rightarrow> ('s, cache_keyvalues) cache_call) option"
  agc_cache_hashdel_func :: "(string \<Rightarrow> cache_keys \<Rightarrow> 's cache_do) option"

definition agc_cache_register_impl :: "'s cache_actions option \<Rightarrow> 's cache_actions option \<Rightarrow> 's cache_actions option" where
  "agc_cache_register_impl actions current = (case actions of None \<Rightarrow> current | Some a \<Rightarrow> Some a)"

text \<open>The function at a place of the registered table.\<close>

definition cache_func :: "('s cache_actions \<Rightarrow> 'f option) \<Rightarrow> 's cache_actions option \<Rightarrow> 'f option" where
  "cache_func sel acts = do { a \<leftarrow> acts; sel a }"

definition agc_cache_set :: "'s cache_actions option \<Rightarrow> string \<Rightarrow> string \<Rightarrow> int \<Rightarrow> int \<Rightarrow> 's cache_do" where
  "agc_cache_set acts key value sz expires s =
     (case cache_func agc_cach_set_func acts of None \<Rightarrow> Some (AGC_STATUS_GENERR, s) | Some f \<Rightarrow> f key value sz expires s)"

definition agc_cache_get :: "'s cache_actions option \<Rightarrow> string \<Rightarrow> ('s, string option \<times> int) cache_call" where
  "agc_cache_get acts key s =
     (case cache_func agc_cache_get_func acts of None \<Rightarrow> Some (AGC_STATUS_GENERR, None, s) | Some f \<Rightarrow> f key s)"

definition agc_cache_delete :: "'s cache_actions option \<Rightarrow> string \<Rightarrow> 's cache_do" where
  "agc_cache_delete acts key s =
     (case cache_func agc_cache_delete_func acts of None \<Rightarrow> Some (AGC_STATUS_GENERR, s) | Some f \<Rightarrow> f key s)"

definition agc_cache_set_pipeline :: "'s cache_actions option \<Rightarrow> cache_keyvalues \<Rightarrow> 's cache_do" where
  "agc_cache_set_pipeline acts keyvalues s =
     (case cache_func agc_cache_set_pipeline_func acts of None \<Rightarrow> Some (AGC_STATUS_GENERR, s) | Some f \<Rightarrow> f keyvalues s)"

definition agc_cache_get_pipeline :: "'s cache_actions option \<Rightarrow> cache_keys \<Rightarrow> ('s, cache_keyvalues) cache_call" where
  "agc_cache_get_pipeline acts keys s =
     (case cache_func agc_cache_get_pipeline_func acts of None \<Rightarrow> Some (AGC_STATUS_GENERR, None, s) | Some f \<Rightarrow> f keys s)"

definition agc_cache_delete_pipeline :: "'s cache_actions option \<Rightarrow> cache_keys \<Rightarrow> 's cache_do" where
  "agc_cache_delete_pipeline acts keys s =
     (case cache_func agc_cache_delete_pipeline_func acts of None \<Rightarrow> Some (AGC_STATUS_GENERR, s) | Some f \<Rightarrow> f keys s)"

definition agc_cache_expire :: "'s cache_actions option \<Rightarrow> string \<Rightarrow> int \<Rightarrow> 's cache_do" where
  "agc_cache_expire acts key expires s =
     (case cache_func agc_cache_expire_func acts of None \<Rightarrow> Some (AGC_STATUS_GENERR, s) | Some f \<Rightarrow> f key expires s)"

definition agc_cache_incr :: "'s cache_actions option \<Rightarrow> string \<Rightarrow> ('s, int) cache_call" where
  "agc_cache_incr acts key s =
     (case cache_func agc_cache_incr_func acts of None \<Rightarrow> Some (AGC_STATUS_GENERR, None, s) | Some f \<Rightarrow> f key s)"

definition agc_cache_decr :: "'s cache_actions option \<Rightarrow> string \<Rightarrow> ('s, int) cache_call" where
  "agc_cache_decr acts key s =
     (case cache_func agc_cache_decr_func acts of None \<Rightarrow> Some (AGC_STATUS_GENERR, None, s) | Some f \<Rightarrow> f key s)"

definition agc_cache_hashset :: "'s cache_actions option \<Rightarrow> string \<Rightarrow> string \<Rightarrow> string \<Rightarrow> 's cache_do" where
  "agc_cache_hashset acts tablename key value s =
     (case cache_func agc_cache_hashset_func acts of None \<Rightarrow> Some (AGC_STATUS_GENERR, s) | Some f \<Rightarrow> f tablename key value s)"

definition agc_cache_hashget :: "'s cache_actions option \<Rightarrow> string \<Rightarrow> string \<Rightarrow> ('s, string option \<times> int) cache_call" where
  "agc_cache_hashget acts tablename key s =
     (case cache_func agc_cache_hashget_func acts of None \<Rightarrow> Some (AGC_STATUS_GENERR, None, s) | Some f \<Rightarrow> f tablename key s)"

definition agc_cache_hashmset :: "'s cache_actions option \<Rightarrow> string \<Rightarrow> cache_keyvalues \<Rightarrow> 's cache_do" where
  "agc_cache_hashmset acts tablename keyvalues s =
     (case cache_func agc_cache_hashmset_func acts of None \<Rightarrow> Some (AGC_STATUS_GENERR, s) | Some f \<Rightarrow> f tablename keyvalues s)"

definition agc_cache_hashmget :: "'s cache_actions option \<Rightarrow> string \<Rightarrow> cache_keys \<Rightarrow> ('s, cache_keyvalues) cache_call" where
  "agc_cache_hashmget acts tablename keys s =
     (case cache_func agc_cache_hashmget_func acts of None \<Rightarrow> Some (AGC_STATUS_GENERR, None, s) | Some f \<Rightarrow> f tablename keys s)"

definition agc_cache_hashdel :: "'s cache_actions option \<Rightarrow> string \<Rightarrow> cache_keys \<Rightarrow> 's cache_do" where
  "agc_cache_hashdel acts tablename keys s =
     (case cache_func agc_cache_hashdel_func acts of None \<Rightarrow> Some (AGC_STATUS_GENERR, s) | Some f \<Rightarrow> f tablename keys s)"

end
