(* ===== verification/Agc_Redis.thy ===== *)
theory Agc_Redis
  imports Agc_Cache Agc_Module
begin

text \<open>
  The redis cache of \<^verbatim>\<open>src/src/mod/caches/mod_redis/mod_redis.c\<close>: the pool of connections, the commands
  of the cache interface, and the configuration. The client library is the parameter \<open>lib\<close>: a
  connection to the cluster is a context of type \<open>'c\<close>, the servers are a world of type \<open>'w\<close>, and a
  formatted command is the list of its arguments. The connections are numbered; the queue that holds
  the free ones is the list of their numbers. A call that finds the queue empty waits for a moment; that
  another thread returns a connection meanwhile is not modelled. \<^const>\<open>None\<close> is a crash.
\<close>

section \<open>The library\<close>

datatype redis_reply = Reply_string string | Reply_integer int | Reply_array "redis_reply list" | Reply_nil
  | Reply_status string | Reply_error string

text \<open>
  \<open>connect\<close> returns no context when it cannot be allocated; \<open>append\<close> and \<open>get_reply\<close> return whether they
  succeeded; a reply is missing when it is a null pointer.
\<close>

record ('c, 'w) redis_lib =
  lib_connect :: "string \<Rightarrow> 'w \<Rightarrow> 'c option \<times> 'w"
  lib_command :: "string list \<Rightarrow> 'c \<Rightarrow> 'w \<Rightarrow> redis_reply option \<times> 'c \<times> 'w"
  lib_append :: "string list \<Rightarrow> 'c \<Rightarrow> bool \<times> 'c"
  lib_get_reply :: "'c \<Rightarrow> 'w \<Rightarrow> bool \<times> redis_reply option \<times> 'c \<times> 'w"
  lib_reset :: "'c \<Rightarrow> 'c"
  lib_err :: "'c \<Rightarrow> bool"

section \<open>Connections\<close>

record 'c redis_connection =
  connected :: bool
  cc :: "'c option"
  connect_time :: int

record ('c, 'w) redis =
  rconns :: "nat \<Rightarrow> 'c redis_connection"
  rnext :: nat
  rqueue :: "nat list"
  redis_addrs :: string
  CONNECTION_POOL_SIZE :: nat
  SYSTEM_RUNNING :: bool
  rworld :: 'w
  time_now :: int
  timer_curtime :: int

definition MIN_POOL_CONNECTIONS :: nat where "MIN_POOL_CONNECTIONS = 2"
definition MAX_POOL_CONNECTIONS :: nat where "MAX_POOL_CONNECTIONS = 32"
definition MAX_ADDRS_LEN :: nat where "MAX_ADDRS_LEN = 512"

definition set_conn :: "nat \<Rightarrow> 'c redis_connection \<Rightarrow> ('c, 'w) redis \<Rightarrow> ('c, 'w) redis" where
  "set_conn c r s = s\<lparr>rconns := (rconns s)(c := r)\<rparr>"

text \<open>A push blocks for ever when the queue of twice the largest pool size is full.\<close>

definition queue_push :: "nat \<Rightarrow> ('c, 'w) redis \<Rightarrow> ('c, 'w) redis option" where
  "queue_push c s = (if length (rqueue s) < MAX_POOL_CONNECTIONS * 2 then Some (s\<lparr>rqueue := rqueue s @ [c]\<rparr>) else None)"

definition next_connect_time :: "('c, 'w) redis \<Rightarrow> int" where
  "next_connect_time s = time_now s div 1000 + 10000"

definition create_context :: "('c, 'w) redis_lib \<Rightarrow> nat \<Rightarrow> ('c, 'w) redis \<Rightarrow> agc_status \<times> ('c, 'w) redis" where
  "create_context lib c s =
     (let r = (rconns s c)\<lparr>cc := None\<rparr> in
      case lib_connect lib (redis_addrs s) (rworld s) of
        (None, w) \<Rightarrow> (AGC_STATUS_GENERR, set_conn c r (s\<lparr>rworld := w\<rparr>))
      | (Some x, w) \<Rightarrow>
          if lib_err lib x
          then (AGC_STATUS_GENERR, set_conn c (r\<lparr>connected := False, connect_time := next_connect_time s\<rparr>) (s\<lparr>rworld := w\<rparr>))
          else (AGC_STATUS_SUCCESS, set_conn c (r\<lparr>connected := True, cc := Some x, connect_time := 0\<rparr>) (s\<lparr>rworld := w\<rparr>)))"

definition release_context :: "nat \<Rightarrow> ('c, 'w) redis \<Rightarrow> ('c, 'w) redis" where
  "release_context c s = set_conn c ((rconns s c)\<lparr>cc := None, connected := False, connect_time := next_connect_time s\<rparr>) s"

definition check_connection :: "('c, 'w) redis_lib \<Rightarrow> nat \<Rightarrow> ('c, 'w) redis \<Rightarrow> bool \<times> ('c, 'w) redis" where
  "check_connection lib c s =
     (if connected (rconns s c) then (True, s)
      else if timer_curtime s div 1000 < connect_time (rconns s c)
      then (case create_context lib c s of (st, s) \<Rightarrow> (st = AGC_STATUS_SUCCESS, s))
      else (False, s))"

definition get_connection :: "('c, 'w) redis_lib \<Rightarrow> ('c, 'w) redis \<Rightarrow> (nat option \<times> ('c, 'w) redis) option" where
  "get_connection lib s =
     (if \<not> SYSTEM_RUNNING s then Some (None, s)
      else (case rqueue s of
              [] \<Rightarrow> Some (None, s)
            | c # q \<Rightarrow> (case check_connection lib c (s\<lparr>rqueue := q\<rparr>) of (ok, s) \<Rightarrow>
                if ok then Some (Some c, s) else map_option (\<lambda>s. (None, s)) (queue_push c s))))"

definition free_connection :: "('c, 'w) redis_lib \<Rightarrow> nat \<Rightarrow> ('c, 'w) redis \<Rightarrow> ('c, 'w) redis option" where
  "free_connection lib c s =
     (if \<not> SYSTEM_RUNNING s then Some (release_context c s)
      else (let s = (case cc (rconns s c) of Some x \<Rightarrow> if lib_err lib x then release_context c s else s | None \<Rightarrow> s)
            in queue_push c s))"

definition create_connection :: "('c, 'w) redis_lib \<Rightarrow> ('c, 'w) redis \<Rightarrow> (agc_status \<times> ('c, 'w) redis) option" where
  "create_connection lib s =
     (if \<not> SYSTEM_RUNNING s then Some (AGC_STATUS_SUCCESS, s)
      else (let c = rnext s;
                s = set_conn c \<lparr>connected = False, cc = None, connect_time = 0\<rparr> (s\<lparr>rnext := c + 1\<rparr>)
            in map_option (Pair AGC_STATUS_SUCCESS) (queue_push c (snd (create_context lib c s)))))"

fun create_connections :: "('c, 'w) redis_lib \<Rightarrow> nat \<Rightarrow> ('c, 'w) redis \<Rightarrow> (agc_status \<times> ('c, 'w) redis) option" where
  "create_connections lib 0 s = Some (AGC_STATUS_SUCCESS, s)"
| "create_connections lib (Suc n) s = do {
     (st, s) \<leftarrow> create_connection lib s;
     if st \<noteq> AGC_STATUS_SUCCESS then Some (AGC_STATUS_GENERR, s) else create_connections lib n s
   }"

definition initial_connection_pool :: "('c, 'w) redis_lib \<Rightarrow> ('c, 'w) redis \<Rightarrow> (agc_status \<times> ('c, 'w) redis) option" where
  "initial_connection_pool lib s = create_connections lib (CONNECTION_POOL_SIZE s) (s\<lparr>rqueue := []\<rparr>)"

text \<open>The loop that empties the pool; the number of turns is bounded by the connections in the queue.\<close>

fun pool_destroy_loop :: "('c, 'w) redis_lib \<Rightarrow> nat \<Rightarrow> ('c, 'w) redis \<Rightarrow> ('c, 'w) redis option" where
  "pool_destroy_loop lib 0 s = None"
| "pool_destroy_loop lib (Suc n) s = do {
     (c, s) \<leftarrow> get_connection lib s;
     (case c of None \<Rightarrow> Some s | Some c \<Rightarrow> pool_destroy_loop lib n (release_context c s))
   }"

definition destroy_connection_pool :: "('c, 'w) redis_lib \<Rightarrow> ('c, 'w) redis \<Rightarrow> ('c, 'w) redis option" where
  "destroy_connection_pool lib s = pool_destroy_loop lib (length (rqueue s) + 1) s"

section \<open>Commands\<close>

definition run_command :: "('c, 'w) redis_lib \<Rightarrow> nat \<Rightarrow> string list \<Rightarrow> ('c, 'w) redis \<Rightarrow> (redis_reply option \<times> ('c, 'w) redis) option" where
  "run_command lib c args s = do {
     x \<leftarrow> cc (rconns s c);
     (case lib_command lib args x (rworld s) of (r, x, w) \<Rightarrow>
       Some (r, set_conn c ((rconns s c)\<lparr>cc := Some x\<rparr>) (s\<lparr>rworld := w\<rparr>)))
   }"

definition append_command :: "('c, 'w) redis_lib \<Rightarrow> nat \<Rightarrow> string list \<Rightarrow> ('c, 'w) redis \<Rightarrow> (bool \<times> ('c, 'w) redis) option" where
  "append_command lib c args s = do {
     x \<leftarrow> cc (rconns s c);
     (case lib_append lib args x of (ok, x) \<Rightarrow> Some (ok, set_conn c ((rconns s c)\<lparr>cc := Some x\<rparr>) s))
   }"

definition get_reply :: "('c, 'w) redis_lib \<Rightarrow> nat \<Rightarrow> ('c, 'w) redis \<Rightarrow> (bool \<times> redis_reply option \<times> ('c, 'w) redis) option" where
  "get_reply lib c s = do {
     x \<leftarrow> cc (rconns s c);
     (case lib_get_reply lib x (rworld s) of (ok, r, x, w) \<Rightarrow>
       Some (ok, r, set_conn c ((rconns s c)\<lparr>cc := Some x\<rparr>) (s\<lparr>rworld := w\<rparr>)))
   }"

definition reset_context :: "('c, 'w) redis_lib \<Rightarrow> nat \<Rightarrow> ('c, 'w) redis \<Rightarrow> ('c, 'w) redis" where
  "reset_context lib c s = (case cc (rconns s c) of
     None \<Rightarrow> s | Some x \<Rightarrow> set_conn c ((rconns s c)\<lparr>cc := Some (lib_reset lib x)\<rparr>) s)"

definition is_error :: "redis_reply option \<Rightarrow> bool" where
  "is_error r \<longleftrightarrow> (case r of None \<Rightarrow> True | Some (Reply_error _) \<Rightarrow> True | _ \<Rightarrow> False)"

definition strndup :: "string \<Rightarrow> string" where
  "strndup s = takeWhile (\<lambda>c. c \<noteq> CHR 0x00) s"

definition get_strvalue :: "redis_reply option \<Rightarrow> (string option \<times> int) option" where
  "get_strvalue r = (case r of None \<Rightarrow> None
     | Some (Reply_string t) \<Rightarrow> Some (Some (strndup t), int (length t)) | Some _ \<Rightarrow> Some (None, 0))"

definition get_intvalue :: "redis_reply option \<Rightarrow> int option" where
  "get_intvalue r = (case r of Some (Reply_integer i) \<Rightarrow> Some (to_int32 i) | _ \<Rightarrow> None)"

text \<open>
  The replies to a number of commands. When the library reports a failure the code passes an integer
  where the format of its message wants a string.
\<close>

fun multi_loop :: "('c, 'w) redis_lib \<Rightarrow> nat \<Rightarrow> nat \<Rightarrow> ('c, 'w) redis \<Rightarrow> (agc_status \<times> ('c, 'w) redis) option" where
  "multi_loop lib c 0 s = Some (AGC_STATUS_SUCCESS, s)"
| "multi_loop lib c (Suc n) s = do {
     (ok, r, s) \<leftarrow> get_reply lib c s;
     if \<not> ok then None
     else if is_error r then Some (AGC_STATUS_GENERR, s)
     else multi_loop lib c n s
   }"

definition agc_redis_multireplies :: "('c, 'w) redis_lib \<Rightarrow> nat \<Rightarrow> nat \<Rightarrow> ('c, 'w) redis \<Rightarrow> (agc_status \<times> ('c, 'w) redis) option" where
  "agc_redis_multireplies lib c replies s = do {
     (st, s) \<leftarrow> multi_loop lib c replies s;
     Some (st, reset_context lib c s)
   }"

text \<open>The argument vector of a command on a table, of keys or of keys and values.\<close>

definition hash_args :: "string \<Rightarrow> string \<Rightarrow> cache_keys \<Rightarrow> cache_keyvalues \<Rightarrow> string list option" where
  "hash_args cmd tablename keys keyvalues =
     (if keys \<noteq> [] then Some (cmd # tablename # keys)
      else if \<forall>(k, v, n) \<in> set keyvalues. v \<noteq> None
      then Some (cmd # tablename # concat (map (\<lambda>(k, v, n). [k, the v]) keyvalues)) else None)"

definition agc_redis_hashargv :: "('c, 'w) redis_lib \<Rightarrow> nat \<Rightarrow> string \<Rightarrow> string \<Rightarrow> cache_keys \<Rightarrow> cache_keyvalues \<Rightarrow> ('c, 'w) redis \<Rightarrow>
    (redis_reply option \<times> ('c, 'w) redis) option" where
  "agc_redis_hashargv lib c cmd tablename keys keyvalues s =
     (if keys = [] \<and> keyvalues = [] \<or> keys \<noteq> [] \<and> keyvalues \<noteq> [] then Some (None, s)
      else do { args \<leftarrow> hash_args cmd tablename keys keyvalues; run_command lib c args s })"

section \<open>The operations of the cache\<close>

text \<open>What is returned for the reply of a single command.\<close>

definition reply_status :: "redis_reply option \<Rightarrow> agc_status" where
  "reply_status r = (if is_error r then AGC_STATUS_GENERR else AGC_STATUS_SUCCESS)"

text \<open>
  The operations take a connection, run their commands on it and give it back. Without a connection they
  fail before they do anything: the result is then \<^const>\<open>None\<close>.
\<close>

definition with_connection :: "('c, 'w) redis_lib \<Rightarrow> (nat \<Rightarrow> ('c, 'w) redis \<Rightarrow> ('r \<times> ('c, 'w) redis) option) \<Rightarrow> ('c, 'w) redis \<Rightarrow>
    ('r option \<times> ('c, 'w) redis) option" where
  "with_connection lib commands s = do {
     (c, s) \<leftarrow> get_connection lib s;
     (case c of
        None \<Rightarrow> Some (None, s)
      | Some c \<Rightarrow> do {
          (r, s) \<leftarrow> commands c s;
          s \<leftarrow> free_connection lib c s;
          Some (Some r, s)
        })
   }"

definition status_of :: "(agc_status option \<times> 's) option \<Rightarrow> (agc_status \<times> 's) option" where
  "status_of = map_option (\<lambda>(st, s). (case st of None \<Rightarrow> AGC_STATUS_GENERR | Some st \<Rightarrow> st, s))"

definition one_command :: "('c, 'w) redis_lib \<Rightarrow> string list \<Rightarrow> ('c, 'w) redis \<Rightarrow> (redis_reply option option \<times> ('c, 'w) redis) option" where
  "one_command lib args s = with_connection lib (\<lambda>c. run_command lib c args) s"

text \<open>The commands of \<^verbatim>\<open>agc_cache_redis_set\<close>: when the first cannot be sent, a reply is waited for all the same.\<close>

definition set_and_expire :: "('c, 'w) redis_lib \<Rightarrow> string \<Rightarrow> string \<Rightarrow> int \<Rightarrow> nat \<Rightarrow> ('c, 'w) redis \<Rightarrow> (agc_status \<times> ('c, 'w) redis) option" where
  "set_and_expire lib key value expires c s = do {
     (ok, s) \<leftarrow> append_command lib c [''SET'', key, value] s;
     if ok \<and> 0 < expires
     then do {
       (_, s) \<leftarrow> append_command lib c [''EXPIRE'', key, int_str expires] s;
       agc_redis_multireplies lib c 2 s
     }
     else agc_redis_multireplies lib c 1 s
   }"

definition agc_cache_redis_set :: "('c, 'w) redis_lib \<Rightarrow> string \<Rightarrow> string \<Rightarrow> int \<Rightarrow> int \<Rightarrow> ('c, 'w) redis \<Rightarrow> (agc_status \<times> ('c, 'w) redis) option" where
  "agc_cache_redis_set lib key value sz expires s = status_of (with_connection lib (set_and_expire lib key value expires) s)"

definition agc_cache_redis_get :: "('c, 'w) redis_lib \<Rightarrow> string \<Rightarrow> ('c, 'w) redis \<Rightarrow> (agc_status \<times> (string option \<times> int) option \<times> ('c, 'w) redis) option" where
  "agc_cache_redis_get lib key s = do {
     (r, s) \<leftarrow> one_command lib [''GET'', key] s;
     Some (case r of None \<Rightarrow> (AGC_STATUS_GENERR, None, s)
           | Some r \<Rightarrow> (reply_status r, if is_error r then None else get_strvalue r, s))
   }"

definition agc_cache_redis_delete :: "('c, 'w) redis_lib \<Rightarrow> string \<Rightarrow> ('c, 'w) redis \<Rightarrow> (agc_status \<times> ('c, 'w) redis) option" where
  "agc_cache_redis_delete lib key s = do {
     (r, s) \<leftarrow> one_command lib [''DEL'', key] s;
     Some (case r of None \<Rightarrow> (AGC_STATUS_GENERR, s) | Some r \<Rightarrow> (reply_status r, s))
   }"

fun append_commands :: "('c, 'w) redis_lib \<Rightarrow> nat \<Rightarrow> string list list \<Rightarrow> ('c, 'w) redis \<Rightarrow> ('c, 'w) redis option" where
  "append_commands lib c [] s = Some s"
| "append_commands lib c (a # as) s = do { (_, s) \<leftarrow> append_command lib c a s; append_commands lib c as s }"

text \<open>The values of a list of keys are printed with \<^verbatim>\<open>%s\<close>: a null pointer among them is a crash.\<close>

definition set_commands :: "cache_keyvalues \<Rightarrow> string list list option" where
  "set_commands keyvalues = (if \<forall>(k, v, n) \<in> set keyvalues. v \<noteq> None
     then Some (map (\<lambda>(k, v, n). [''SET'', k, the v]) keyvalues) else None)"

definition agc_cache_redis_set_pipeline :: "('c, 'w) redis_lib \<Rightarrow> cache_keyvalues \<Rightarrow> ('c, 'w) redis \<Rightarrow> (agc_status \<times> ('c, 'w) redis) option" where
  "agc_cache_redis_set_pipeline lib keyvalues s = status_of (with_connection lib (\<lambda>c s. do {
     cmds \<leftarrow> set_commands keyvalues;
     s \<leftarrow> append_commands lib c cmds s;
     agc_redis_multireplies lib c (length keyvalues) s
   }) s)"

text \<open>
  The replies to the keys, up to the first failure. Here the result of fetching a reply is not
  looked at: what counts is the pointer, which the library clears first.
\<close>

fun get_loop :: "('c, 'w) redis_lib \<Rightarrow> nat \<Rightarrow> cache_keys \<Rightarrow> ('c, 'w) redis \<Rightarrow> (agc_status \<times> cache_keyvalues \<times> ('c, 'w) redis) option" where
  "get_loop lib c [] s = Some (AGC_STATUS_SUCCESS, [], s)"
| "get_loop lib c (k # ks) s = do {
     (_, r, s) \<leftarrow> get_reply lib c s;
     if is_error r then Some (AGC_STATUS_GENERR, [], s)
     else do {
       (v, n) \<leftarrow> get_strvalue r;
       (st, kvs, s) \<leftarrow> get_loop lib c ks s;
       Some (st, (k, v, n) # kvs, s)
     }
   }"

definition agc_cache_redis_get_pipeline :: "('c, 'w) redis_lib \<Rightarrow> cache_keys \<Rightarrow> ('c, 'w) redis \<Rightarrow> (agc_status \<times> cache_keyvalues option \<times> ('c, 'w) redis) option" where
  "agc_cache_redis_get_pipeline lib keys s =
     (if keys = [] then Some (AGC_STATUS_GENERR, None, s)
      else do {
        (r, s) \<leftarrow> with_connection lib (\<lambda>c s. do {
          s \<leftarrow> append_commands lib c (map (\<lambda>k. [''GET'', k]) keys) s;
          (st, kvs, s) \<leftarrow> get_loop lib c keys s;
          Some ((st, kvs), reset_context lib c s)
        }) s;
        Some (case r of None \<Rightarrow> (AGC_STATUS_GENERR, None, s) | Some (st, kvs) \<Rightarrow> (st, Some kvs, s))
      })"

definition agc_cache_redis_delete_pipeline :: "('c, 'w) redis_lib \<Rightarrow> cache_keys \<Rightarrow> ('c, 'w) redis \<Rightarrow> (agc_status \<times> ('c, 'w) redis) option" where
  "agc_cache_redis_delete_pipeline lib keys s =
     (if keys = [] then Some (AGC_STATUS_GENERR, s)
      else status_of (with_connection lib (\<lambda>c s. do {
        s \<leftarrow> append_commands lib c (map (\<lambda>k. [''DEL'', k]) keys) s;
        agc_redis_multireplies lib c (length keys) s
      }) s))"

definition agc_cache_redis_expire :: "('c, 'w) redis_lib \<Rightarrow> string \<Rightarrow> int \<Rightarrow> ('c, 'w) redis \<Rightarrow> (agc_status \<times> ('c, 'w) redis) option" where
  "agc_cache_redis_expire lib key expires s =
     (if expires \<le> 0 then Some (AGC_STATUS_GENERR, s)
      else do {
        (r, s) \<leftarrow> one_command lib [''EXPIRE'', key, int_str expires] s;
        Some (case r of None \<Rightarrow> (AGC_STATUS_GENERR, s) | Some r \<Rightarrow> (reply_status r, s))
      })"

definition agc_cache_redis_incr :: "('c, 'w) redis_lib \<Rightarrow> string \<Rightarrow> ('c, 'w) redis \<Rightarrow> (agc_status \<times> int option \<times> ('c, 'w) redis) option" where
  "agc_cache_redis_incr lib key s = do {
     (r, s) \<leftarrow> one_command lib [''INCR'', key] s;
     Some (case r of None \<Rightarrow> (AGC_STATUS_GENERR, None, s)
           | Some r \<Rightarrow> (reply_status r, if is_error r then None else get_intvalue r, s))
   }"

definition agc_cache_redis_decr :: "('c, 'w) redis_lib \<Rightarrow> string \<Rightarrow> ('c, 'w) redis \<Rightarrow> (agc_status \<times> int option \<times> ('c, 'w) redis) option" where
  "agc_cache_redis_decr lib key s = do {
     (r, s) \<leftarrow> one_command lib [''DECR'', key] s;
     Some (case r of None \<Rightarrow> (AGC_STATUS_GENERR, None, s)
           | Some r \<Rightarrow> (reply_status r, if is_error r then None else get_intvalue r, s))
   }"

definition agc_cache_redis_hashset :: "('c, 'w) redis_lib \<Rightarrow> string \<Rightarrow> string \<Rightarrow> string \<Rightarrow> ('c, 'w) redis \<Rightarrow> (agc_status \<times> ('c, 'w) redis) option" where
  "agc_cache_redis_hashset lib tablename key value s = do {
     (r, s) \<leftarrow> one_command lib [''HSET'', tablename, key, value] s;
     Some (case r of None \<Rightarrow> (AGC_STATUS_GENERR, s) | Some r \<Rightarrow> (reply_status r, s))
   }"

definition agc_cache_redis_hashget :: "('c, 'w) redis_lib \<Rightarrow> string \<Rightarrow> string \<Rightarrow> ('c, 'w) redis \<Rightarrow>
    (agc_status \<times> (string option \<times> int) option \<times> ('c, 'w) redis) option" where
  "agc_cache_redis_hashget lib tablename key s = do {
     (r, s) \<leftarrow> one_command lib [''HGET'', tablename, key] s;
     Some (case r of None \<Rightarrow> (AGC_STATUS_GENERR, None, s)
           | Some r \<Rightarrow> (reply_status r, if is_error r then None else get_strvalue r, s))
   }"

text \<open>The operations on a table with many keys: a connection, the command of the argument vector, its reply.\<close>

definition hash_command :: "('c, 'w) redis_lib \<Rightarrow> string \<Rightarrow> string \<Rightarrow> cache_keys \<Rightarrow> cache_keyvalues \<Rightarrow> ('c, 'w) redis \<Rightarrow>
    (redis_reply option option \<times> ('c, 'w) redis) option" where
  "hash_command lib cmd tablename keys keyvalues s = with_connection lib (\<lambda>c. agc_redis_hashargv lib c cmd tablename keys keyvalues) s"

definition agc_cache_redis_hashmset :: "('c, 'w) redis_lib \<Rightarrow> string \<Rightarrow> cache_keyvalues \<Rightarrow> ('c, 'w) redis \<Rightarrow> (agc_status \<times> ('c, 'w) redis) option" where
  "agc_cache_redis_hashmset lib tablename keyvalues s =
     (if keyvalues = [] then Some (AGC_STATUS_GENERR, s)
      else do {
        (r, s) \<leftarrow> hash_command lib ''HMSET'' tablename [] keyvalues s;
        Some (case r of None \<Rightarrow> (AGC_STATUS_GENERR, s) | Some r \<Rightarrow> (reply_status r, s))
      })"

text \<open>
  The elements of the reply to the keys. An element that is not a string has no text: copying it is a
  crash, as is an element beyond the end.
\<close>

fun element_values :: "cache_keys \<Rightarrow> redis_reply list \<Rightarrow> cache_keyvalues option" where
  "element_values [] es = Some []"
| "element_values (k # ks) (Reply_string t # es) =
     map_option (\<lambda>kvs. (k, Some (strndup t), int (length t)) # kvs) (element_values ks es)"
| "element_values _ _ = None"

text \<open>After a reply that is an error the code frees it and then reads it; a missing reply is not freed.\<close>

definition agc_cache_redis_hashmget :: "('c, 'w) redis_lib \<Rightarrow> string \<Rightarrow> cache_keys \<Rightarrow> ('c, 'w) redis \<Rightarrow>
    (agc_status \<times> cache_keyvalues option \<times> ('c, 'w) redis) option" where
  "agc_cache_redis_hashmget lib tablename keys s =
     (if keys = [] then Some (AGC_STATUS_GENERR, None, s)
      else do {
        (r, s) \<leftarrow> hash_command lib ''HMGET'' tablename keys [] s;
        (case r of
           None \<Rightarrow> Some (AGC_STATUS_GENERR, None, s)
         | Some None \<Rightarrow> Some (AGC_STATUS_GENERR, None, s)
         | Some (Some (Reply_array es)) \<Rightarrow> do { kvs \<leftarrow> element_values keys es; Some (AGC_STATUS_SUCCESS, Some kvs, s) }
         | Some (Some _) \<Rightarrow> None)
      })"

definition agc_cache_redis_hashdel :: "('c, 'w) redis_lib \<Rightarrow> string \<Rightarrow> cache_keys \<Rightarrow> ('c, 'w) redis \<Rightarrow> (agc_status \<times> ('c, 'w) redis) option" where
  "agc_cache_redis_hashdel lib tablename keys s =
     (if keys = [] then Some (AGC_STATUS_GENERR, s)
      else do {
        (r, s) \<leftarrow> hash_command lib ''HDEL'' tablename keys [] s;
        Some (case r of None \<Rightarrow> (AGC_STATUS_GENERR, s) | Some r \<Rightarrow> (reply_status r, s))
      })"

definition agc_cache_routine :: "('c, 'w) redis_lib \<Rightarrow> ('c, 'w) redis cache_actions" where
  "agc_cache_routine lib = \<lparr>agc_cach_set_func = Some (agc_cache_redis_set lib), agc_cache_get_func = Some (agc_cache_redis_get lib),
     agc_cache_delete_func = Some (agc_cache_redis_delete lib), agc_cache_set_pipeline_func = Some (agc_cache_redis_set_pipeline lib),
     agc_cache_get_pipeline_func = Some (agc_cache_redis_get_pipeline lib),
     agc_cache_delete_pipeline_func = Some (agc_cache_redis_delete_pipeline lib),
     agc_cache_expire_func = Some (agc_cache_redis_expire lib), agc_cache_incr_func = Some (agc_cache_redis_incr lib),
     agc_cache_decr_func = Some (agc_cache_redis_decr lib), agc_cache_hashset_func = Some (agc_cache_redis_hashset lib),
     agc_cache_hashget_func = Some (agc_cache_redis_hashget lib), agc_cache_hashmset_func = Some (agc_cache_redis_hashmset lib),
     agc_cache_hashmget_func = Some (agc_cache_redis_hashmget lib), agc_cache_hashdel_func = Some (agc_cache_redis_hashdel lib)\<rparr>"

section \<open>Configuration\<close>

datatype redis_key = KEYTYPE_POOLSIZE | KEYTYPE_ADDR | KEYTYPE_UNKOWN

definition redis_keytype :: "string \<Rightarrow> redis_key" where
  "redis_keytype v = (if v = ''poolsize'' then KEYTYPE_POOLSIZE else if v = ''addr'' then KEYTYPE_ADDR else KEYTYPE_UNKOWN)"

definition pool_size :: "nat \<Rightarrow> nat" where
  "pool_size n = (let n = (if MAX_POOL_CONNECTIONS < n then MAX_POOL_CONNECTIONS else n)
     in if n < MIN_POOL_CONNECTIONS then MIN_POOL_CONNECTIONS else n)"

text \<open>The addresses are written one after the other, each with a comma, into a buffer of 512 bytes.\<close>

definition add_address :: "string \<Rightarrow> string \<Rightarrow> string option" where
  "add_address v addrs = (if length addrs + length v < MAX_ADDRS_LEN then Some (addrs @ v @ '','') else None)"

fun redis_tokens :: "yaml_token list \<Rightarrow> bool \<Rightarrow> redis_key \<Rightarrow> string \<times> nat \<Rightarrow> (string \<times> nat) option" where
  "redis_tokens [] in_key k (addrs, n) = Some (addrs, n)"
| "redis_tokens (t # ts) in_key k (addrs, n) = (case t of
     Key \<Rightarrow> redis_tokens ts True k (addrs, n)
   | Value \<Rightarrow> redis_tokens ts False k (addrs, n)
   | Scalar v \<Rightarrow>
       if in_key then redis_tokens ts in_key (redis_keytype v) (addrs, n)
       else (case k of
               KEYTYPE_ADDR \<Rightarrow> do { addrs \<leftarrow> add_address v addrs; redis_tokens ts in_key k (addrs, n) }
             | KEYTYPE_POOLSIZE \<Rightarrow> redis_tokens ts in_key k (addrs, pool_size (unat (agc_atoui v)))
             | KEYTYPE_UNKOWN \<Rightarrow> redis_tokens ts in_key k (addrs, n))
   | Stream_end \<Rightarrow> Some (addrs, n)
   | _ \<Rightarrow> redis_tokens ts in_key k (addrs, n))"

text \<open>Without an address the code looks at the byte before its buffer.\<close>

definition redis_load_configuration :: "yaml_token list \<Rightarrow> ('c, 'w) redis \<Rightarrow> (agc_status \<times> ('c, 'w) redis) option" where
  "redis_load_configuration ts s = do {
     (addrs, n) \<leftarrow> redis_tokens ts False KEYTYPE_UNKOWN ([], CONNECTION_POOL_SIZE s);
     if addrs = [] then None
     else Some (AGC_STATUS_SUCCESS, s\<lparr>redis_addrs := butlast addrs, CONNECTION_POOL_SIZE := n\<rparr>)
   }"

definition mod_redis_load :: "('c, 'w) redis_lib \<Rightarrow> yaml_token list \<Rightarrow> ('c, 'w) redis cache_actions option \<Rightarrow> ('c, 'w) redis \<Rightarrow>
    (agc_status \<times> ('c, 'w) redis cache_actions option \<times> ('c, 'w) redis) option" where
  "mod_redis_load lib ts acts s = do {
     (st, s) \<leftarrow> redis_load_configuration ts s;
     (_, s) \<leftarrow> initial_connection_pool lib (s\<lparr>SYSTEM_RUNNING := True\<rparr>);
     Some (AGC_STATUS_SUCCESS, agc_cache_register_impl (Some (agc_cache_routine lib)) acts, s)
   }"

definition mod_redis_shutdown :: "('c, 'w) redis_lib \<Rightarrow> ('c, 'w) redis \<Rightarrow> (agc_status \<times> ('c, 'w) redis) option" where
  "mod_redis_shutdown lib s = do {
     s \<leftarrow> destroy_connection_pool lib (s\<lparr>SYSTEM_RUNNING := False\<rparr>);
     Some (AGC_STATUS_SUCCESS, s)
   }"

end
