(* ===== verification/Agc_Redis_Laws.thy ===== *)
theory Agc_Redis_Laws
  imports Agc_Redis "HOL-Library.Multiset"
begin

text \<open>
  What the redis cache keeps and computes: every call of the cache interface gives the connection that it
  takes back to the pool, on every path; and with a library that behaves as documented what is stored is
  what is read. A connection that has failed is reopened only while its time of waiting runs.
\<close>

section \<open>Calls\<close>

datatype cache_op = Op_set string string int int | Op_get string | Op_delete string | Op_set_pipeline cache_keyvalues
  | Op_get_pipeline cache_keys | Op_delete_pipeline cache_keys | Op_expire string int | Op_incr string | Op_decr string
  | Op_hashset string string string | Op_hashget string string | Op_hashmset string cache_keyvalues
  | Op_hashmget string cache_keys | Op_hashdel string cache_keys

definition outcome :: "(agc_status \<times> 'r \<times> 's) option \<Rightarrow> (agc_status \<times> 's) option" where
  "outcome = map_option (\<lambda>(st, r, s). (st, s))"

definition run_op :: "'s cache_actions option \<Rightarrow> cache_op \<Rightarrow> 's \<Rightarrow> (agc_status \<times> 's) option" where
  "run_op acts op s = (case op of
     Op_set k v n e \<Rightarrow> agc_cache_set acts k v n e s
   | Op_get k \<Rightarrow> outcome (agc_cache_get acts k s)
   | Op_delete k \<Rightarrow> agc_cache_delete acts k s
   | Op_set_pipeline kvs \<Rightarrow> agc_cache_set_pipeline acts kvs s
   | Op_get_pipeline ks \<Rightarrow> outcome (agc_cache_get_pipeline acts ks s)
   | Op_delete_pipeline ks \<Rightarrow> agc_cache_delete_pipeline acts ks s
   | Op_expire k e \<Rightarrow> agc_cache_expire acts k e s
   | Op_incr k \<Rightarrow> outcome (agc_cache_incr acts k s)
   | Op_decr k \<Rightarrow> outcome (agc_cache_decr acts k s)
   | Op_hashset t k v \<Rightarrow> agc_cache_hashset acts t k v s
   | Op_hashget t k \<Rightarrow> outcome (agc_cache_hashget acts t k s)
   | Op_hashmset t kvs \<Rightarrow> agc_cache_hashmset acts t kvs s
   | Op_hashmget t ks \<Rightarrow> outcome (agc_cache_hashmget acts t ks s)
   | Op_hashdel t ks \<Rightarrow> agc_cache_hashdel acts t ks s)"

lemmas cache_calls = agc_cache_set_def agc_cache_get_def agc_cache_delete_def agc_cache_set_pipeline_def agc_cache_get_pipeline_def
  agc_cache_delete_pipeline_def agc_cache_expire_def agc_cache_incr_def agc_cache_decr_def agc_cache_hashset_def
  agc_cache_hashget_def agc_cache_hashmset_def agc_cache_hashmget_def agc_cache_hashdel_def cache_func_def agc_cache_routine_def

section \<open>The pool\<close>

text \<open>A connection that counts as connected has a context.\<close>

definition sound :: "('c, 'w) redis \<Rightarrow> nat \<Rightarrow> bool" where
  "sound s c \<longleftrightarrow> (connected (rconns s c) \<longrightarrow> cc (rconns s c) \<noteq> None)"

definition pool_ok :: "('c, 'w) redis \<Rightarrow> bool" where
  "pool_ok s \<longleftrightarrow> SYSTEM_RUNNING s \<and> distinct (rqueue s) \<and> length (rqueue s) \<le> MAX_POOL_CONNECTIONS \<and> (\<forall>c \<in> set (rqueue s). sound s c)"

text \<open>What a call may change while it holds the connection \<open>c\<close>.\<close>

definition holding :: "nat \<Rightarrow> ('c, 'w) redis \<Rightarrow> ('c, 'w) redis \<Rightarrow> bool" where
  "holding c s s' \<longleftrightarrow> rqueue s' = rqueue s \<and> SYSTEM_RUNNING s' = SYSTEM_RUNNING s \<and> time_now s' = time_now s \<and>
     timer_curtime s' = timer_curtime s \<and> (\<forall>d. d \<noteq> c \<longrightarrow> rconns s' d = rconns s d) \<and> (cc (rconns s c) \<noteq> None \<longrightarrow> cc (rconns s' c) \<noteq> None)"

named_theorems holds_lib

lemma holding_refl [holds_lib]: "holding c s s"
  by (simp add: holding_def)

lemma holding_trans: "holding c s t \<Longrightarrow> holding c t u \<Longrightarrow> holding c s u"
  by (auto simp: holding_def)

lemma holding_set [holds_lib]:
  "holding c s (set_conn c ((rconns s c)\<lparr>cc := Some x\<rparr>) s)" "holding c s (set_conn c ((rconns s c)\<lparr>cc := Some x\<rparr>) (s\<lparr>rworld := w\<rparr>))"
  by (auto simp: holding_def set_conn_def)

lemma run_command_holding: "run_command lib c args s = Some (r, s') \<Longrightarrow> holding c s s'"
  by (auto simp: run_command_def bind_Some_iff case_prod_unfold holds_lib)

lemma append_command_holding: "append_command lib c args s = Some (r, s') \<Longrightarrow> holding c s s'"
  by (auto simp: append_command_def bind_Some_iff case_prod_unfold holds_lib)

lemma get_reply_holding: "get_reply lib c s = Some (ok, r, s') \<Longrightarrow> holding c s s'"
  by (auto simp: get_reply_def bind_Some_iff case_prod_unfold holds_lib)

lemma reset_context_holding: "holding c s (reset_context lib c s)"
  by (auto simp: reset_context_def holds_lib split: option.splits)

lemma append_commands_holding: "append_commands lib c cmds s = Some s' \<Longrightarrow> holding c s s'"
  by (induction lib c cmds s rule: append_commands.induct)
    (auto simp: bind_Some_iff holds_lib intro: holding_trans [OF append_command_holding])

lemma multi_loop_holding: "multi_loop lib c n s = Some (st, s') \<Longrightarrow> holding c s s'"
  by (induction lib c n s rule: multi_loop.induct)
    (auto simp: bind_Some_iff holds_lib split: if_splits intro: get_reply_holding holding_trans [OF get_reply_holding])

lemma multireplies_holding: "agc_redis_multireplies lib c n s = Some (st, s') \<Longrightarrow> holding c s s'"
  by (auto simp: agc_redis_multireplies_def bind_Some_iff dest!: multi_loop_holding intro: holding_trans reset_context_holding)

lemma get_loop_holding: "get_loop lib c ks s = Some (st, kvs, s') \<Longrightarrow> holding c s s'"
  by (induction lib c ks s arbitrary: st kvs s' rule: get_loop.induct)
    (auto simp: bind_Some_iff holds_lib split: if_splits intro: get_reply_holding holding_trans [OF get_reply_holding])

lemma hashargv_holding: "agc_redis_hashargv lib c cmd t ks kvs s = Some (r, s') \<Longrightarrow> holding c s s'"
  by (auto simp: agc_redis_hashargv_def bind_Some_iff holds_lib split: if_splits dest!: run_command_holding)

text \<open>After a call the pool holds the same connections.\<close>

definition pool_kept :: "('c, 'w) redis \<Rightarrow> ('c, 'w) redis \<Rightarrow> bool" where
  "pool_kept s s' \<longleftrightarrow> pool_ok s' \<and> mset (rqueue s') = mset (rqueue s)"

lemma create_context_frame:
  assumes "create_context lib c s = (st, s')"
  shows "rqueue s' = rqueue s" "SYSTEM_RUNNING s' = SYSTEM_RUNNING s" "\<And>d. d \<noteq> c \<Longrightarrow> rconns s' d = rconns s d"
    "st = AGC_STATUS_SUCCESS \<Longrightarrow> cc (rconns s' c) \<noteq> None" "\<not> connected (rconns s c) \<Longrightarrow> sound s' c"
  using assms by (auto simp: create_context_def Let_def set_conn_def sound_def split: prod.splits option.splits if_splits)

lemma queue_push_ok: "length (rqueue s) < MAX_POOL_CONNECTIONS * 2 \<Longrightarrow> queue_push c s = Some (s\<lparr>rqueue := rqueue s @ [c]\<rparr>)"
  by (simp add: queue_push_def)

lemma sound_update [simp]: "sound (s\<lparr>rqueue := q\<rparr>) = sound s"
  by (simp add: sound_def fun_eq_iff)

lemma get_connection_total:
  assumes "pool_ok s"
  obtains s1 where "get_connection lib s = Some (None, s1)" "pool_kept s s1"
  | c s1 where "get_connection lib s = Some (Some c, s1)" "rqueue s = c # rqueue s1" "SYSTEM_RUNNING s1" "cc (rconns s1 c) \<noteq> None"
    "\<forall>d \<in> set (rqueue s1). sound s1 d"
proof (cases "rqueue s")
  case Nil
  then have "get_connection lib s = Some (None, s)" by (simp add: get_connection_def)
  then show thesis using that(1) assms by (auto simp: pool_kept_def)
next
  case (Cons c q)
  note a = assms [unfolded pool_ok_def Cons]
  obtain ok s1 where k: "check_connection lib c (s\<lparr>rqueue := q\<rparr>) = (ok, s1)" by fastforce
  have g: "get_connection lib s = (if ok then Some (Some c, s1) else map_option (Pair None) (queue_push c s1))"
    using a Cons k by (simp add: get_connection_def)
  have f: "rqueue s1 = q" "SYSTEM_RUNNING s1" "\<And>d. d \<noteq> c \<Longrightarrow> rconns s1 d = rconns s d" "sound s1 c" "ok \<Longrightarrow> cc (rconns s1 c) \<noteq> None"
  proof -
    have "rqueue s1 = q \<and> SYSTEM_RUNNING s1 \<and> (\<forall>d. d \<noteq> c \<longrightarrow> rconns s1 d = rconns s d) \<and> sound s1 c \<and> (ok \<longrightarrow> cc (rconns s1 c) \<noteq> None)"
    proof (cases "connected (rconns s c) \<or> connect_time (rconns s c) \<le> timer_curtime s div 1000")
      case True
      then show ?thesis using k a by (auto simp: check_connection_def sound_def split: if_splits)
    next
      case False
      then obtain st where "create_context lib c (s\<lparr>rqueue := q\<rparr>) = (st, s1)" "ok = (st = AGC_STATUS_SUCCESS)"
        using k by (auto simp: check_connection_def split: prod.splits)
      then show ?thesis using create_context_frame [of lib c "s\<lparr>rqueue := q\<rparr>" st s1] False a by auto
    qed
    then show "rqueue s1 = q" "SYSTEM_RUNNING s1" "\<And>d. d \<noteq> c \<Longrightarrow> rconns s1 d = rconns s d" "sound s1 c" "ok \<Longrightarrow> cc (rconns s1 c) \<noteq> None"
      by auto
  qed
  have o: "\<forall>d \<in> set q. sound s1 d" using a f(3) by (fastforce simp: sound_def)
  show thesis
  proof (cases ok)
    case True
    then show thesis using that(2) [of c s1] g f o Cons by simp
  next
    case False
    have "queue_push c s1 = Some (s1\<lparr>rqueue := q @ [c]\<rparr>)"
      using a f(1) queue_push_ok [of s1 c] by simp
    then have "get_connection lib s = Some (None, s1\<lparr>rqueue := q @ [c]\<rparr>)" using g False by simp
    then show thesis using that(1) f(2,4) o a Cons by (auto simp: pool_kept_def pool_ok_def)
  qed
qed

lemma free_connection_ok:
  assumes "SYSTEM_RUNNING s" "distinct (c # rqueue s)" "length (rqueue s) < MAX_POOL_CONNECTIONS" "\<forall>d \<in> set (rqueue s). sound s d"
    "cc (rconns s c) \<noteq> None"
  shows "\<exists>s'. free_connection lib c s = Some s' \<and> rqueue s' = rqueue s @ [c] \<and> pool_ok s'"
proof -
  obtain x where x: "cc (rconns s c) = Some x" using assms(5) by blast
  let ?t = "if lib_err lib x then release_context c s else s"
  have t: "rqueue ?t = rqueue s" "SYSTEM_RUNNING ?t" "sound ?t c" "\<And>d. d \<noteq> c \<Longrightarrow> rconns ?t d = rconns s d"
    using assms(1,5) by (auto simp: release_context_def set_conn_def sound_def)
  have "free_connection lib c s = Some (?t\<lparr>rqueue := rqueue s @ [c]\<rparr>)"
    using assms(1,3) x t(1) queue_push_ok [of ?t c] by (simp add: free_connection_def Let_def)
  moreover have "\<forall>d \<in> set (rqueue s). sound ?t d" using assms(2,4) t(4) by (fastforce simp: sound_def)
  ultimately show ?thesis using assms(2,3) t by (auto simp: pool_ok_def)
qed

text \<open>A call that took a connection, used it and gave it back.\<close>

lemma session_kept:
  assumes "pool_ok s" "rqueue s = c # rqueue s1" "SYSTEM_RUNNING s1" "cc (rconns s1 c) \<noteq> None" "\<forall>d \<in> set (rqueue s1). sound s1 d"
    "holding c s1 s2"
  shows "\<exists>s3. free_connection lib c s2 = Some s3 \<and> pool_kept s s3"
proof -
  note h = assms(6) [unfolded holding_def]
  have d: "distinct (c # rqueue s2)" "length (rqueue s2) < MAX_POOL_CONNECTIONS" using assms(1,2) h by (auto simp: pool_ok_def)
  have "\<forall>d \<in> set (rqueue s2). sound s2 d" using assms(5) h d(1) by (fastforce simp: sound_def)
  then show ?thesis using free_connection_ok [OF _ d, of lib] h assms(2,3,4) by (auto simp: pool_kept_def)
qed

lemma session_kept_eq:
  assumes "pool_ok s" "get_connection lib s = Some (Some c, s1)" "holding c s1 s2" "free_connection lib c s2 = Some s3"
  shows "pool_kept s s3"
proof (rule get_connection_total [OF assms(1), of lib])
  fix d t
  assume "get_connection lib s = Some (Some d, t)" "rqueue s = d # rqueue t" "SYSTEM_RUNNING t" "cc (rconns t d) \<noteq> None"
    "\<forall>d \<in> set (rqueue t). sound t d"
  then show ?thesis using session_kept [OF assms(1) _ _ _ _ assms(3), of lib] assms(2,4) by simp
qed (use assms(2) in simp)

lemma no_connection_kept: "pool_ok s \<Longrightarrow> get_connection lib s = Some (None, s1) \<Longrightarrow> pool_kept s s1"
  by (rule get_connection_total [of s lib]) auto

lemma pool_kept_refl: "pool_ok s \<Longrightarrow> pool_kept s s"
  by (simp add: pool_kept_def)

lemma with_connection_kept:
  assumes "pool_ok s" "with_connection lib commands s = Some (r, s')"
    "\<And>c s1 x s2. commands c s1 = Some (x, s2) \<Longrightarrow> holding c s1 s2"
  shows "pool_kept s s'"
proof -
  obtain c s1 where g: "get_connection lib s = Some (c, s1)" using assms(2) by (auto simp: with_connection_def bind_Some_iff)
  show ?thesis
  proof (cases c)
    case None
    then show ?thesis using assms(2) g no_connection_kept [OF assms(1)] by (simp add: with_connection_def)
  next
    case (Some d)
    with assms(2) g obtain x s2 where "commands d s1 = Some (x, s2)" "free_connection lib d s2 = Some s'"
      by (auto simp: with_connection_def bind_Some_iff)
    then show ?thesis using session_kept_eq [OF assms(1) g [unfolded Some]] assms(3) by blast
  qed
qed

lemma pipeline_holding: "append_commands lib c cmds s = Some t \<Longrightarrow> agc_redis_multireplies lib c n t = Some (st, u) \<Longrightarrow> holding c s u"
  by (metis append_commands_holding multireplies_holding holding_trans)

lemma get_pipeline_holding:
  "append_commands lib c cmds s = Some t \<Longrightarrow> get_loop lib c ks t = Some (st, kvs, u) \<Longrightarrow> holding c s (reset_context lib c u)"
  by (metis append_commands_holding get_loop_holding reset_context_holding holding_trans)

lemma expire_holding:
  "append_command lib c a s = Some (b, t) \<Longrightarrow> append_command lib c a' t = Some (b', t') \<Longrightarrow> agc_redis_multireplies lib c n t' = Some (st, u) \<Longrightarrow>
   holding c s u"
  by (metis append_command_holding multireplies_holding holding_trans)

lemma set_and_expire_holding: "set_and_expire lib k v e c s = Some (st, s') \<Longrightarrow> holding c s s'"
  by (auto simp: set_and_expire_def bind_Some_iff split: if_splits
    intro: expire_holding holding_trans [OF append_command_holding multireplies_holding])

lemma one_command_kept: "pool_ok s \<Longrightarrow> one_command lib args s = Some (r, s') \<Longrightarrow> pool_kept s s'"
  unfolding one_command_def by (erule with_connection_kept) (auto dest: run_command_holding)

lemma hash_command_kept: "pool_ok s \<Longrightarrow> hash_command lib cmd t ks kvs s = Some (r, s') \<Longrightarrow> pool_kept s s'"
  unfolding hash_command_def by (erule with_connection_kept) (auto dest: hashargv_holding)

lemma status_of_Some: "status_of m = Some (st, s) \<longleftrightarrow> (\<exists>r. m = Some (r, s) \<and> st = (case r of None \<Rightarrow> AGC_STATUS_GENERR | Some st \<Rightarrow> st))"
  by (auto simp: status_of_def)

lemma set_kept: "pool_ok s \<Longrightarrow> agc_cache_redis_set lib k v n e s = Some (st, s') \<Longrightarrow> pool_kept s s'"
  by (auto simp: agc_cache_redis_set_def status_of_Some intro: with_connection_kept set_and_expire_holding)

lemma set_pipeline_kept: "pool_ok s \<Longrightarrow> agc_cache_redis_set_pipeline lib kvs s = Some (st, s') \<Longrightarrow> pool_kept s s'"
  by (auto simp: agc_cache_redis_set_pipeline_def status_of_Some bind_Some_iff
    elim!: with_connection_kept intro: pipeline_holding)

lemma delete_pipeline_kept: "pool_ok s \<Longrightarrow> agc_cache_redis_delete_pipeline lib ks s = Some (st, s') \<Longrightarrow> pool_kept s s'"
  by (auto simp: agc_cache_redis_delete_pipeline_def status_of_Some bind_Some_iff pool_kept_refl split: if_splits
    elim!: with_connection_kept intro: pipeline_holding)

lemma get_pipeline_kept: "pool_ok s \<Longrightarrow> agc_cache_redis_get_pipeline lib ks s = Some (st, r, s') \<Longrightarrow> pool_kept s s'"
  by (auto simp: agc_cache_redis_get_pipeline_def bind_Some_iff pool_kept_refl split: if_splits option.splits
    elim!: with_connection_kept intro: get_pipeline_holding)

lemma hashmget_kept:
  assumes "pool_ok s" "agc_cache_redis_hashmget lib t ks s = Some (st, x, s')"
  shows "pool_kept s s'"
proof (cases "ks = []")
  case True
  then show ?thesis using assms by (simp add: agc_cache_redis_hashmget_def pool_kept_refl)
next
  case False
  with assms(2) obtain r s1 where r: "hash_command lib ''HMGET'' t ks [] s = Some (r, s1)"
    by (auto simp: agc_cache_redis_hashmget_def bind_Some_iff)
  have "s' = s1"
  proof (cases r)
    case None
    then show ?thesis using assms(2) False r by (simp add: agc_cache_redis_hashmget_def)
  next
    case (Some rr)
    then show ?thesis using assms(2) False r
      by (cases rr) (auto simp: agc_cache_redis_hashmget_def bind_Some_iff split: redis_reply.splits)
  qed
  then show ?thesis using hash_command_kept [OF assms(1) r] by simp
qed

lemmas op_kept = set_kept set_pipeline_kept get_pipeline_kept delete_pipeline_kept hashmget_kept one_command_kept hash_command_kept

lemmas redis_single = agc_cache_redis_get_def agc_cache_redis_delete_def agc_cache_redis_expire_def agc_cache_redis_incr_def
  agc_cache_redis_decr_def agc_cache_redis_hashset_def agc_cache_redis_hashget_def agc_cache_redis_hashmset_def agc_cache_redis_hashdel_def

lemma run_op_kept:
  assumes "pool_ok s" "run_op (Some (agc_cache_routine lib)) op s = Some (st, s')"
  shows "pool_kept s s'"
  using assms
  by (cases op) (auto simp: run_op_def cache_calls outcome_def redis_single bind_Some_iff pool_kept_refl
    split: if_splits option.splits dest: op_kept)

fun run_ops :: "'s cache_actions option \<Rightarrow> cache_op list \<Rightarrow> 's \<Rightarrow> 's option" where
  "run_ops acts [] s = Some s"
| "run_ops acts (op # ops) s = do { (_, s) \<leftarrow> run_op acts op s; run_ops acts ops s }"

lemma pool_kept_trans: "pool_kept s t \<Longrightarrow> pool_kept t u \<Longrightarrow> pool_kept s u"
  by (simp add: pool_kept_def)

lemma run_ops_kept: "pool_ok s \<Longrightarrow> run_ops (Some (agc_cache_routine lib)) ops s = Some s' \<Longrightarrow> pool_kept s s'"
proof (induction ops arbitrary: s)
  case (Cons op ops)
  then obtain st t where t: "run_op (Some (agc_cache_routine lib)) op s = Some (st, t)" "run_ops (Some (agc_cache_routine lib)) ops t = Some s'"
    by (auto simp: bind_Some_iff)
  have "pool_kept s t" using run_op_kept [OF Cons.prems(1) t(1)] .
  then show ?case using Cons.IH [OF _ t(2)] pool_kept_trans by (auto simp: pool_kept_def)
qed (simp add: pool_kept_refl)

section \<open>Loading\<close>

lemma pool_size_bounds: "MIN_POOL_CONNECTIONS \<le> pool_size n" "pool_size n \<le> MAX_POOL_CONNECTIONS"
  by (simp_all add: pool_size_def MIN_POOL_CONNECTIONS_def MAX_POOL_CONNECTIONS_def Let_def)

lemma redis_tokens_size:
  "redis_tokens ts b k (a, n) = Some (a', n') \<Longrightarrow> n \<le> MAX_POOL_CONNECTIONS \<Longrightarrow> n' \<le> MAX_POOL_CONNECTIONS"
proof (induction ts b k "(a, n)" arbitrary: a n rule: redis_tokens.induct)
  case (2 t ts b k a n)
  then show ?case by (cases t) (auto simp: bind_Some_iff pool_size_bounds split: if_splits redis_key.splits)
qed simp

text \<open>The first connections of a pool that is being built.\<close>

definition built :: "nat \<Rightarrow> ('c, 'w) redis \<Rightarrow> bool" where
  "built n s \<longleftrightarrow> SYSTEM_RUNNING s \<and> distinct (rqueue s) \<and> length (rqueue s) = n \<and> (\<forall>c \<in> set (rqueue s). c < rnext s \<and> sound s c)"

lemma create_connection_built:
  assumes "built n s" "n < MAX_POOL_CONNECTIONS"
  shows "\<exists>s'. create_connection lib s = Some (AGC_STATUS_SUCCESS, s') \<and> built (Suc n) s' \<and> CONNECTION_POOL_SIZE s' = CONNECTION_POOL_SIZE s"
proof -
  note b = assms(1) [unfolded built_def]
  let ?c = "rnext s"
  let ?t = "set_conn ?c \<lparr>connected = False, cc = None, connect_time = 0\<rparr> (s\<lparr>rnext := ?c + 1\<rparr>)"
  obtain st t where t: "create_context lib ?c ?t = (st, t)" by fastforce
  have "rnext t = ?c + 1" "CONNECTION_POOL_SIZE t = CONNECTION_POOL_SIZE s"
    using t by (auto simp: create_context_def set_conn_def Let_def split: prod.splits option.splits if_splits)
  moreover have f: "rqueue t = rqueue s" "SYSTEM_RUNNING t" "\<And>d. d \<noteq> ?c \<Longrightarrow> rconns t d = rconns s d" "sound t ?c"
    using create_context_frame [OF t] b by (auto simp: set_conn_def)
  moreover have "queue_push ?c t = Some (t\<lparr>rqueue := rqueue s @ [?c]\<rparr>)"
    using queue_push_ok [of t ?c] f(1) b assms(2) by simp
  ultimately show ?thesis using b t by (auto simp: create_connection_def built_def sound_def Let_def)
qed

lemma create_connections_built:
  "built n s \<Longrightarrow> n + k \<le> MAX_POOL_CONNECTIONS \<Longrightarrow>
     \<exists>s'. create_connections lib k s = Some (AGC_STATUS_SUCCESS, s') \<and> built (n + k) s' \<and> CONNECTION_POOL_SIZE s' = CONNECTION_POOL_SIZE s"
proof (induction k arbitrary: n s)
  case (Suc k)
  obtain t where "create_connection lib s = Some (AGC_STATUS_SUCCESS, t)" "built (Suc n) t" "CONNECTION_POOL_SIZE t = CONNECTION_POOL_SIZE s"
    using create_connection_built [of n s lib] Suc.prems by auto
  then show ?case using Suc.IH [of "Suc n" t] Suc.prems(2) by auto
qed auto

lemma load_pool:
  assumes "mod_redis_load lib ts acts s = Some (st, acts', s')" "CONNECTION_POOL_SIZE s \<le> MAX_POOL_CONNECTIONS"
  shows "acts' = Some (agc_cache_routine lib) \<and> pool_ok s' \<and> length (rqueue s') = CONNECTION_POOL_SIZE s'"
proof -
  obtain a n where n: "redis_tokens ts False KEYTYPE_UNKOWN ([], CONNECTION_POOL_SIZE s) = Some (a, n)"
    and l: "redis_load_configuration ts s = Some (AGC_STATUS_SUCCESS, s\<lparr>redis_addrs := butlast a, CONNECTION_POOL_SIZE := n\<rparr>)"
    using assms(1) by (auto simp: mod_redis_load_def redis_load_configuration_def bind_Some_iff split: if_splits)
  let ?s = "s\<lparr>redis_addrs := butlast a, CONNECTION_POOL_SIZE := n, SYSTEM_RUNNING := True\<rparr>"
  have "n \<le> MAX_POOL_CONNECTIONS" using redis_tokens_size [OF n assms(2)] .
  moreover have "built 0 (?s\<lparr>rqueue := []\<rparr>)" by (simp add: built_def)
  ultimately obtain t where t: "initial_connection_pool lib ?s = Some (AGC_STATUS_SUCCESS, t)" "built n t" "CONNECTION_POOL_SIZE t = n"
    using create_connections_built [of 0 "?s\<lparr>rqueue := []\<rparr>" n lib] by (auto simp: initial_connection_pool_def)
  have "s' = t" "acts' = Some (agc_cache_routine lib)"
    using assms(1) l t(1) by (auto simp: mod_redis_load_def agc_cache_register_impl_def)
  then show ?thesis using t(2,3) \<open>n \<le> MAX_POOL_CONNECTIONS\<close> by (auto simp: built_def pool_ok_def)
qed

section \<open>Connections that have failed\<close>

definition expired :: "('c, 'w) redis \<Rightarrow> bool" where
  "expired s \<longleftrightarrow> SYSTEM_RUNNING s \<and> length (rqueue s) \<le> MAX_POOL_CONNECTIONS \<and>
     (\<forall>c \<in> set (rqueue s). \<not> connected (rconns s c) \<and> connect_time (rconns s c) \<le> timer_curtime s div 1000)"

lemma get_connection_expired:
  "expired s \<Longrightarrow> get_connection lib s = Some (None, s\<lparr>rqueue := rotate1 (rqueue s)\<rparr>)"
  by (cases "rqueue s") (auto simp: get_connection_def expired_def check_connection_def queue_push_def)

lemma expired_rotate: "expired s \<Longrightarrow> expired (s\<lparr>rqueue := rotate1 (rqueue s)\<rparr>)"
  by (auto simp: expired_def)

lemma with_connection_expired: "expired s \<Longrightarrow> with_connection lib f s = Some (None, s\<lparr>rqueue := rotate1 (rqueue s)\<rparr>)"
  by (simp add: with_connection_def get_connection_expired)

lemmas redis_ops = redis_single agc_cache_redis_set_def agc_cache_redis_set_pipeline_def agc_cache_redis_get_pipeline_def
  agc_cache_redis_delete_pipeline_def agc_cache_redis_hashmget_def one_command_def hash_command_def

lemma run_op_expired:
  assumes "expired s"
  shows "\<exists>s'. run_op (Some (agc_cache_routine lib)) op s = Some (AGC_STATUS_GENERR, s') \<and> expired s' \<and> timer_curtime s' = timer_curtime s"
proof -
  note e = with_connection_expired [OF assms] and r = expired_rotate [OF assms]
  show ?thesis using assms r
    by (cases op) (simp_all add: run_op_def cache_calls outcome_def redis_ops e status_of_def)
qed

text \<open>Calls, each followed by some time.\<close>

fun run_timed :: "('c, 'w) redis cache_actions option \<Rightarrow> (cache_op \<times> nat) list \<Rightarrow> ('c, 'w) redis \<Rightarrow> (agc_status list \<times> ('c, 'w) redis) option" where
  "run_timed acts [] s = Some ([], s)"
| "run_timed acts ((op, dt) # ops) s = do {
     (st, s) \<leftarrow> run_op acts op s;
     (sts, s) \<leftarrow> run_timed acts ops (s\<lparr>timer_curtime := timer_curtime s + int dt\<rparr>);
     Some (st # sts, s)
   }"

lemma expired_later: "expired s \<Longrightarrow> expired (s\<lparr>timer_curtime := timer_curtime s + int dt\<rparr>)"
  by (fastforce simp: expired_def intro: order_trans zdiv_mono1)

lemma run_timed_expired:
  "expired s \<Longrightarrow> \<exists>s'. run_timed (Some (agc_cache_routine lib)) ops s = Some (replicate (length ops) AGC_STATUS_GENERR, s')"
proof (induction ops arbitrary: s)
  case (Cons p ops)
  obtain op dt where p: "p = (op, dt)" by fastforce
  obtain t where t: "run_op (Some (agc_cache_routine lib)) op s = Some (AGC_STATUS_GENERR, t)" "expired t"
    using run_op_expired [OF Cons.prems] by blast
  then show ?case using Cons.IH [OF expired_later [OF t(2)], of dt] p by auto
qed simp

section \<open>A library that behaves as documented\<close>

text \<open>
  The reply to a command and the servers after it: \<open>db\<close> reads the strings that a state of the servers
  holds.
\<close>

definition answers :: "('w \<Rightarrow> string \<rightharpoonup> string) \<Rightarrow> string list \<Rightarrow> 'w \<Rightarrow> redis_reply option \<Rightarrow> 'w \<Rightarrow> bool" where
  "answers db args w r w' \<longleftrightarrow>
     (\<forall>k v. args = [''SET'', k, v] \<longrightarrow> r = Some (Reply_status ''OK'') \<and> db w' = (db w)(k \<mapsto> v)) \<and>
     (\<forall>k. args = [''GET'', k] \<longrightarrow> r = Some (case db w k of None \<Rightarrow> Reply_nil | Some v \<Rightarrow> Reply_string v) \<and> db w' = db w)"

text \<open>Commands are executed at once or collected; the replies to the collected ones come in their order.\<close>

definition redis_laws :: "('c, 'w) redis_lib \<Rightarrow> ('w \<Rightarrow> string \<rightharpoonup> string) \<Rightarrow> ('c \<Rightarrow> string list list) \<Rightarrow> bool" where
  "redis_laws lib db pending \<longleftrightarrow>
     (\<forall>args x w r x' w'. pending x = [] \<and> \<not> lib_err lib x \<and> lib_command lib args x w = (r, x', w') \<longrightarrow>
        answers db args w r w' \<and> pending x' = [] \<and> \<not> lib_err lib x') \<and>
     (\<forall>args x ok x'. \<not> lib_err lib x \<and> lib_append lib args x = (ok, x') \<longrightarrow> ok \<and> pending x' = pending x @ [args] \<and> \<not> lib_err lib x') \<and>
     (\<forall>x w a as ok r x' w'. pending x = a # as \<and> \<not> lib_err lib x \<and> lib_get_reply lib x w = (ok, r, x', w') \<longrightarrow>
        ok \<and> answers db a w r w' \<and> pending x' = as \<and> \<not> lib_err lib x') \<and>
     (\<forall>x. \<not> lib_err lib x \<longrightarrow> pending (lib_reset lib x) = [] \<and> \<not> lib_err lib (lib_reset lib x))"

definition ready :: "('c, 'w) redis_lib \<Rightarrow> ('c \<Rightarrow> string list list) \<Rightarrow> ('c, 'w) redis \<Rightarrow> nat \<Rightarrow> bool" where
  "ready lib pending s c \<longleftrightarrow> connected (rconns s c) \<and> (\<exists>x. cc (rconns s c) = Some x \<and> pending x = [] \<and> \<not> lib_err lib x)"

definition all_ready :: "('c, 'w) redis_lib \<Rightarrow> ('c \<Rightarrow> string list list) \<Rightarrow> ('c, 'w) redis \<Rightarrow> bool" where
  "all_ready lib pending s \<longleftrightarrow> SYSTEM_RUNNING s \<and> rqueue s \<noteq> [] \<and> distinct (rqueue s) \<and> length (rqueue s) \<le> MAX_POOL_CONNECTIONS \<and>
     (\<forall>c \<in> set (rqueue s). ready lib pending s c)"

text \<open>The state in which the connection \<open>c\<close> has the context \<open>x\<close> and the servers are in the state \<open>w\<close>.\<close>

definition now_at :: "nat \<Rightarrow> 'c \<Rightarrow> 'w \<Rightarrow> ('c, 'w) redis \<Rightarrow> ('c, 'w) redis" where
  "now_at c x w s = set_conn c ((rconns s c)\<lparr>cc := Some x\<rparr>) (s\<lparr>rworld := w\<rparr>)"

lemma now_at_simps [simp]:
  "cc (rconns (now_at c x w s) c) = Some x" "rworld (now_at c x w s) = w" "now_at c x' w' (now_at c x w s) = now_at c x' w' s"
  "connected (rconns (now_at c x w s) c) = connected (rconns s c)" "rqueue (now_at c x w s) = rqueue s"
  "SYSTEM_RUNNING (now_at c x w s) = SYSTEM_RUNNING s"
  by (simp_all add: now_at_def set_conn_def)

lemma append_commands_pending:
  assumes "redis_laws lib db pending"
  shows "\<not> lib_err lib x \<Longrightarrow> \<exists>x'. append_commands lib c cmds (now_at c x w s) = Some (now_at c x' w s) \<and>
    pending x' = pending x @ cmds \<and> \<not> lib_err lib x'"
proof (induction cmds arbitrary: x)
  case (Cons a as)
  obtain ok y where y: "lib_append lib a x = (ok, y)" by fastforce
  have l: "pending y = pending x @ [a]" "\<not> lib_err lib y" using assms Cons.prems y unfolding redis_laws_def by blast+
  have "append_command lib c a (now_at c x w s) = Some (ok, now_at c y w s)"
    using y by (simp add: append_command_def) (simp add: now_at_def set_conn_def)
  then show ?case using Cons.IH [OF l(2)] l(1) by auto
qed auto

lemma get_reply_pending:
  assumes "redis_laws lib db pending" "pending x = a # as" "\<not> lib_err lib x"
  shows "\<exists>r x' w'. get_reply lib c (now_at c x w s) = Some (True, r, now_at c x' w' s) \<and> answers db a w r w' \<and> pending x' = as \<and> \<not> lib_err lib x'"
proof -
  obtain ok r x' w' where g: "lib_get_reply lib x w = (ok, r, x', w')" by (rule prod_cases4)
  have l: "ok \<and> answers db a w r w' \<and> pending x' = as \<and> \<not> lib_err lib x'" using assms g unfolding redis_laws_def by blast
  have "get_reply lib c (now_at c x w s) = Some (ok, r, now_at c x' w' s)"
    using g by (simp add: get_reply_def) (simp add: now_at_def set_conn_def)
  with l show ?thesis by auto
qed

definition store :: "(string \<rightharpoonup> string) \<Rightarrow> (string \<times> string) list \<Rightarrow> string \<rightharpoonup> string" where
  "store m kvs = foldl (\<lambda>m (k, v). m(k \<mapsto> v)) m kvs"

lemma multi_loop_sets:
  assumes "redis_laws lib db pending"
  shows "pending x = map (\<lambda>(k, v). [''SET'', k, v]) kvs \<Longrightarrow> \<not> lib_err lib x \<Longrightarrow>
    \<exists>x' w'. multi_loop lib c (length kvs) (now_at c x w s) = Some (AGC_STATUS_SUCCESS, now_at c x' w' s) \<and> pending x' = [] \<and>
      \<not> lib_err lib x' \<and> db w' = store (db w) kvs"
proof (induction kvs arbitrary: x w)
  case Nil
  then show ?case by (intro exI [of _ x] exI [of _ w]) (simp add: store_def)
next
  case (Cons p kvs)
  obtain k v where p: "p = (k, v)" by fastforce
  obtain r y u where r: "get_reply lib c (now_at c x w s) = Some (True, r, now_at c y u s)" "answers db [''SET'', k, v] w r u"
    "pending y = map (\<lambda>(k, v). [''SET'', k, v]) kvs" "\<not> lib_err lib y"
    using get_reply_pending [OF assms, of x "[''SET'', k, v]" "map (\<lambda>(k, v). [''SET'', k, v]) kvs" c w s] Cons.prems p by auto
  then have e: "\<not> is_error r" "db u = (db w)(k \<mapsto> v)" by (simp_all add: answers_def is_error_def)
  obtain x' w' where "multi_loop lib c (length kvs) (now_at c y u s) = Some (AGC_STATUS_SUCCESS, now_at c x' w' s)" "pending x' = []"
      "\<not> lib_err lib x'" "db w' = store (db u) kvs"
    using Cons.IH [OF r(3,4), of u] by blast
  then show ?case using r(1) p e by (intro exI [of _ x'] exI [of _ w']) (simp add: store_def)
qed

text \<open>The entry of a key in the list that is returned.\<close>

definition entry :: "(string \<rightharpoonup> string) \<Rightarrow> string \<Rightarrow> string \<times> string option \<times> int" where
  "entry m k = (k, map_option strndup (m k), case m k of None \<Rightarrow> 0 | Some v \<Rightarrow> int (length v))"

lemma get_loop_gets:
  assumes "redis_laws lib db pending"
  shows "pending x = map (\<lambda>k. [''GET'', k]) ks \<Longrightarrow> \<not> lib_err lib x \<Longrightarrow>
    \<exists>x' w'. get_loop lib c ks (now_at c x w s) = Some (AGC_STATUS_SUCCESS, map (entry (db w)) ks, now_at c x' w' s) \<and> pending x' = [] \<and>
      \<not> lib_err lib x' \<and> db w' = db w"
proof (induction ks arbitrary: x w)
  case Nil
  then show ?case by (intro exI [of _ x] exI [of _ w]) simp
next
  case (Cons k ks)
  obtain r y u where r: "get_reply lib c (now_at c x w s) = Some (True, r, now_at c y u s)" "answers db [''GET'', k] w r u"
    "pending y = map (\<lambda>k. [''GET'', k]) ks" "\<not> lib_err lib y"
    using get_reply_pending [OF assms, of x "[''GET'', k]" "map (\<lambda>k. [''GET'', k]) ks" c w s] Cons.prems by auto
  then have a: "\<not> is_error r" "db u = db w" "get_strvalue r = Some (snd (entry (db w) k))"
    by (auto simp: answers_def is_error_def get_strvalue_def entry_def split: option.splits)
  obtain x' w' where "get_loop lib c ks (now_at c y u s) = Some (AGC_STATUS_SUCCESS, map (entry (db u)) ks, now_at c x' w' s)" "pending x' = []"
      "\<not> lib_err lib x'" "db w' = db u"
    using Cons.IH [OF r(3,4), of u] by blast
  then show ?case using r(1) a by (intro exI [of _ x'] exI [of _ w']) (simp add: entry_def case_prod_unfold)
qed

lemma with_connection_ready:
  assumes "redis_laws lib db pending" "all_ready lib pending s"
    "\<And>c x. pending x = [] \<Longrightarrow> \<not> lib_err lib x \<Longrightarrow> \<exists>x' w' r. f c (now_at c x (rworld s) (s\<lparr>rqueue := tl (rqueue s)\<rparr>)) =
       Some (r, now_at c x' w' (s\<lparr>rqueue := tl (rqueue s)\<rparr>)) \<and> pending x' = [] \<and> \<not> lib_err lib x' \<and> P r w'"
  shows "\<exists>r s'. with_connection lib f s = Some (Some r, s') \<and> all_ready lib pending s' \<and> P r (rworld s')"
proof -
  note a = assms(2) [unfolded all_ready_def]
  obtain c q where q: "rqueue s = c # q" using a by (cases "rqueue s") auto
  then obtain x where x: "cc (rconns s c) = Some x" "pending x = []" "\<not> lib_err lib x" "connected (rconns s c)"
    using a by (auto simp: ready_def)
  let ?s = "s\<lparr>rqueue := q\<rparr>"
  have n: "now_at c x (rworld s) ?s = ?s" using x(1) by (auto simp: now_at_def set_conn_def fun_upd_idem)
  obtain x' w' r where f: "f c ?s = Some (r, now_at c x' w' ?s)" "pending x' = []" "\<not> lib_err lib x'" "P r w'"
    using assms(3) [OF x(2,3), of c] n q by auto
  let ?t = "now_at c x' w' ?s"
  have "get_connection lib s = Some (Some c, ?s)" using a q x(4) by (simp add: get_connection_def check_connection_def)
  moreover have "free_connection lib c ?t = Some (?t\<lparr>rqueue := q @ [c]\<rparr>)"
    using a q f(3) by (simp add: free_connection_def queue_push_def Let_def)
  ultimately have w: "with_connection lib f s = Some (Some r, ?t\<lparr>rqueue := q @ [c]\<rparr>)" using f(1) by (simp add: with_connection_def)
  have o: "rconns ?t d = rconns s d" if "d \<noteq> c" for d using that by (simp add: now_at_def set_conn_def)
  have "\<forall>d \<in> set (q @ [c]). ready lib pending ?t d"
  proof
    fix d assume d: "d \<in> set (q @ [c])"
    show "ready lib pending ?t d"
    proof (cases "d = c")
      case True
      then show ?thesis using x(4) f(2,3) by (simp add: ready_def)
    next
      case False
      then show ?thesis using o [OF False] a q d by (simp add: ready_def)
    qed
  qed
  then have "all_ready lib pending (?t\<lparr>rqueue := q @ [c]\<rparr>)" using a q by (simp add: all_ready_def ready_def)
  with w f(4) show ?thesis by auto
qed

lemma set_pipeline_stores:
  assumes "redis_laws lib db pending" "all_ready lib pending s"
  shows "\<exists>s'. agc_cache_redis_set_pipeline lib (map (\<lambda>(k, v). (k, Some v, n k)) kvs) s = Some (AGC_STATUS_SUCCESS, s') \<and>
    all_ready lib pending s' \<and> db (rworld s') = store (db (rworld s)) kvs"
proof -
  let ?l = "map (\<lambda>(k, v). (k, Some v, n k)) kvs" and ?cmds = "map (\<lambda>(k, v). [''SET'', k, v]) kvs"
  let ?f = "\<lambda>c s. do { cmds \<leftarrow> set_commands ?l; s \<leftarrow> append_commands lib c cmds s; agc_redis_multireplies lib c (length ?l) s }"
  have c: "set_commands ?l = Some ?cmds" by (auto simp: set_commands_def)
  have "\<exists>r s'. with_connection lib ?f s = Some (Some r, s') \<and> all_ready lib pending s' \<and>
    r = AGC_STATUS_SUCCESS \<and> db (rworld s') = store (db (rworld s)) kvs"
  proof (rule with_connection_ready [OF assms])
    fix c x
    let ?s = "s\<lparr>rqueue := tl (rqueue s)\<rparr>"
    assume x: "pending x = []" "\<not> lib_err lib x"
    obtain y where y: "append_commands lib c ?cmds (now_at c x (rworld s) ?s) = Some (now_at c y (rworld s) ?s)" "pending y = ?cmds"
        "\<not> lib_err lib y"
      using append_commands_pending [OF assms(1) x(2), of c ?cmds "rworld s" ?s] x(1) by auto
    obtain z w where z: "multi_loop lib c (length kvs) (now_at c y (rworld s) ?s) = Some (AGC_STATUS_SUCCESS, now_at c z w ?s)"
        "\<not> lib_err lib z" "db w = store (db (rworld s)) kvs"
      using multi_loop_sets [OF assms(1) y(2,3), of c "rworld s" ?s] by blast
    have "reset_context lib c (now_at c z w ?s) = now_at c (lib_reset lib z) w ?s"
      by (simp add: reset_context_def) (simp add: now_at_def set_conn_def)
    then have "?f c (now_at c x (rworld s) ?s) = Some (AGC_STATUS_SUCCESS, now_at c (lib_reset lib z) w ?s)"
      using c y(1) z(1) by (simp add: agc_redis_multireplies_def)
    moreover have "pending (lib_reset lib z) = []" "\<not> lib_err lib (lib_reset lib z)"
      using assms(1) z(2) unfolding redis_laws_def by blast+
    ultimately show "\<exists>x' w' r. ?f c (now_at c x (rworld s) ?s) = Some (r, now_at c x' w' ?s) \<and> pending x' = [] \<and> \<not> lib_err lib x' \<and>
        (r = AGC_STATUS_SUCCESS \<and> db w' = store (db (rworld s)) kvs)" using z(3) by blast
  qed
  then show ?thesis by (auto simp: agc_cache_redis_set_pipeline_def status_of_def)
qed

lemma get_pipeline_reads:
  assumes "redis_laws lib db pending" "all_ready lib pending s" "ks \<noteq> []"
  shows "\<exists>s'. agc_cache_redis_get_pipeline lib ks s = Some (AGC_STATUS_SUCCESS, Some (map (entry (db (rworld s))) ks), s') \<and>
    all_ready lib pending s' \<and> db (rworld s') = db (rworld s)"
proof -
  let ?f = "\<lambda>c s. do {
      s \<leftarrow> append_commands lib c (map (\<lambda>k. [''GET'', k]) ks) s;
      (st, kvs, s) \<leftarrow> get_loop lib c ks s;
      Some ((st, kvs), reset_context lib c s)
    }"
  have "\<exists>r s'. with_connection lib ?f s = Some (Some r, s') \<and> all_ready lib pending s' \<and>
    r = (AGC_STATUS_SUCCESS, map (entry (db (rworld s))) ks) \<and> db (rworld s') = db (rworld s)"
  proof (rule with_connection_ready [OF assms(1,2)])
    fix c x
    let ?s = "s\<lparr>rqueue := tl (rqueue s)\<rparr>" and ?cmds = "map (\<lambda>k. [''GET'', k]) ks"
    assume x: "pending x = []" "\<not> lib_err lib x"
    obtain y where y: "append_commands lib c ?cmds (now_at c x (rworld s) ?s) = Some (now_at c y (rworld s) ?s)" "pending y = ?cmds"
        "\<not> lib_err lib y"
      using append_commands_pending [OF assms(1) x(2), of c ?cmds "rworld s" ?s] x(1) by auto
    obtain z w where z: "get_loop lib c ks (now_at c y (rworld s) ?s) = Some (AGC_STATUS_SUCCESS, map (entry (db (rworld s))) ks, now_at c z w ?s)"
        "\<not> lib_err lib z" "db w = db (rworld s)"
      using get_loop_gets [OF assms(1) y(2,3), of c "rworld s" ?s] by blast
    have "reset_context lib c (now_at c z w ?s) = now_at c (lib_reset lib z) w ?s"
      by (simp add: reset_context_def) (simp add: now_at_def set_conn_def)
    then have "?f c (now_at c x (rworld s) ?s) = Some ((AGC_STATUS_SUCCESS, map (entry (db (rworld s))) ks), now_at c (lib_reset lib z) w ?s)"
      using y(1) z(1) by simp
    moreover have "pending (lib_reset lib z) = []" "\<not> lib_err lib (lib_reset lib z)"
      using assms(1) z(2) unfolding redis_laws_def by blast+
    ultimately show "\<exists>x' w' r. ?f c (now_at c x (rworld s) ?s) = Some (r, now_at c x' w' ?s) \<and> pending x' = [] \<and> \<not> lib_err lib x' \<and>
        (r = (AGC_STATUS_SUCCESS, map (entry (db (rworld s))) ks) \<and> db w' = db (rworld s))" using z(3) by blast
  qed
  then show ?thesis using assms(3) by (auto simp: agc_cache_redis_get_pipeline_def)
qed

section \<open>Properties\<close>

text \<open>A library over a map: a context is the list of collected commands.\<close>

definition demo_exec :: "string list \<Rightarrow> (string \<rightharpoonup> string) \<Rightarrow> redis_reply option \<times> (string \<rightharpoonup> string)" where
  "demo_exec args m =
     (if length args = 3 \<and> hd args = ''SET'' then (Some (Reply_status ''OK''), m(args ! 1 \<mapsto> args ! 2))
      else if length args = 2 \<and> hd args = ''GET''
      then (Some (case m (args ! 1) of None \<Rightarrow> Reply_nil | Some v \<Rightarrow> Reply_string v), m)
      else (Some (Reply_error ''ERR''), m))"

definition demo_lib :: "(string list list, string \<rightharpoonup> string) redis_lib" where
  "demo_lib = \<lparr>lib_connect = (\<lambda>_ w. (Some [], w)),
     lib_command = (\<lambda>args x w. case demo_exec args w of (r, w) \<Rightarrow> (r, x, w)),
     lib_append = (\<lambda>args x. (True, x @ [args])),
     lib_get_reply = (\<lambda>x w. case x of [] \<Rightarrow> (True, None, [], w) | a # as \<Rightarrow> (case demo_exec a w of (r, w) \<Rightarrow> (True, r, as, w))),
     lib_reset = (\<lambda>_. []), lib_err = (\<lambda>_. False)\<rparr>"

lemma demo_laws: "redis_laws demo_lib (\<lambda>w. w) (\<lambda>x. x)"
  unfolding redis_laws_def by (auto simp: demo_lib_def answers_def demo_exec_def split: prod.splits if_splits)

definition demo_start :: "(string list list, string \<rightharpoonup> string) redis" where
  "demo_start = \<lparr>rconns = (\<lambda>_. \<lparr>connected = False, cc = None, connect_time = 0\<rparr>), rnext = 0, rqueue = [], redis_addrs = [],
     CONNECTION_POOL_SIZE = 0, SYSTEM_RUNNING = False, rworld = (\<lambda>_. None), time_now = 0, timer_curtime = 0\<rparr>"

definition demo_tokens :: "yaml_token list" where
  "demo_tokens = [Key, Scalar ''poolsize'', Value, Scalar ''2'', Key, Scalar ''addr'', Value, Scalar ''127.0.0.1:7000'', Stream_end]"

definition demo_loaded :: "(string list list, string \<rightharpoonup> string) redis" where
  "demo_loaded = demo_start\<lparr>rconns := (rconns demo_start)(0 := \<lparr>connected = True, cc = Some [], connect_time = 0\<rparr>,
     1 := \<lparr>connected = True, cc = Some [], connect_time = 0\<rparr>), rnext := 2, rqueue := [0, 1], redis_addrs := ''127.0.0.1:7000'',
     CONNECTION_POOL_SIZE := 2, SYSTEM_RUNNING := True\<rparr>"

lemma demo_load: "mod_redis_load demo_lib demo_tokens None demo_start = Some (AGC_STATUS_SUCCESS, Some (agc_cache_routine demo_lib), demo_loaded)"
proof -
  have "redis_tokens demo_tokens False KEYTYPE_UNKOWN ([], 0) = Some (''127.0.0.1:7000,'', 2)" by code_simp
  then have "redis_load_configuration demo_tokens demo_start =
    Some (AGC_STATUS_SUCCESS, demo_start\<lparr>redis_addrs := ''127.0.0.1:7000'', CONNECTION_POOL_SIZE := 2\<rparr>)"
    by (simp add: redis_load_configuration_def demo_start_def)
  moreover have "initial_connection_pool demo_lib
      (demo_start\<lparr>redis_addrs := ''127.0.0.1:7000'', CONNECTION_POOL_SIZE := 2, SYSTEM_RUNNING := True\<rparr>) = Some (AGC_STATUS_SUCCESS, demo_loaded)"
    by (simp add: initial_connection_pool_def create_connection_def create_context_def set_conn_def queue_push_def demo_start_def
      demo_loaded_def demo_lib_def MAX_POOL_CONNECTIONS_def numeral_2_eq_2 Let_def)
  ultimately show ?thesis by (simp add: mod_redis_load_def agc_cache_register_impl_def)
qed

text \<open>
  C23: The pool never loses or shares a connection: after the module is loaded and any calls of the cache
  interface were made, whatever the servers answered, the queue holds each of the connections that were
  created, once, and every connection that counts as connected has a context.
\<close>

theorem redis_pool_invariant:
  assumes "mod_redis_load lib ts acts s0 = Some (st, acts', s)" "CONNECTION_POOL_SIZE s0 = 0" "run_ops acts' ops s = Some s'"
  shows "distinct (rqueue s') \<and> set (rqueue s') = set (rqueue s) \<and> length (rqueue s') = CONNECTION_POOL_SIZE s \<and>
    (\<forall>c \<in> set (rqueue s'). connected (rconns s' c) \<longrightarrow> cc (rconns s' c) \<noteq> None)"
proof -
  have l: "acts' = Some (agc_cache_routine lib)" "pool_ok s" "length (rqueue s) = CONNECTION_POOL_SIZE s"
    using load_pool [OF assms(1)] assms(2) by auto
  then have "pool_kept s s'" using run_ops_kept [OF l(2)] assms(3) by simp
  then show ?thesis using l(3) by (auto simp: pool_kept_def pool_ok_def sound_def dest: mset_eq_setD mset_eq_length)
qed

theorem redis_pool_invariant_witness:
  "\<exists>s'. run_ops (Some (agc_cache_routine demo_lib)) [Op_set ''k'' ''v'' 1 0, Op_get ''k'', Op_incr ''n''] demo_loaded = Some s' \<and>
     distinct (rqueue s') \<and> set (rqueue s') = {0, 1}"
proof -
  have "run_ops (Some (agc_cache_routine demo_lib)) [Op_set ''k'' ''v'' 1 0, Op_get ''k'', Op_incr ''n''] demo_loaded \<noteq> None"
    by (simp add: run_op_def cache_calls outcome_def redis_ops with_connection_def get_connection_def check_connection_def free_connection_def
      set_and_expire_def append_command_def agc_redis_multireplies_def get_reply_def reset_context_def run_command_def status_of_def
      queue_push_def set_conn_def demo_loaded_def demo_start_def demo_lib_def demo_exec_def is_error_def MAX_POOL_CONNECTIONS_def Let_def)
  then obtain s' where r: "run_ops (Some (agc_cache_routine demo_lib)) [Op_set ''k'' ''v'' 1 0, Op_get ''k'', Op_incr ''n''] demo_loaded = Some s'"
    by blast
  from redis_pool_invariant [OF demo_load _ r] r show ?thesis by (auto simp: demo_start_def demo_loaded_def)
qed

text \<open>
  C24: What is stored is what is read, in the order of the keys: with a library that behaves as documented
  and connections that are open, storing a list of keys and values and then reading a list of keys
  gives for each key the last value stored for it, with its length.
\<close>

theorem redis_pipeline_roundtrip:
  assumes "redis_laws lib db pending" "all_ready lib pending s" "ks \<noteq> []" "\<forall>(k, v) \<in> set kvs. CHR 0x00 \<notin> set v" "set ks \<subseteq> fst ` set kvs"
  shows "\<exists>s1 s2. agc_cache_set_pipeline (Some (agc_cache_routine lib)) (map (\<lambda>(k, v). (k, Some v, 0)) kvs) s = Some (AGC_STATUS_SUCCESS, s1) \<and>
    agc_cache_get_pipeline (Some (agc_cache_routine lib)) ks s1 = Some (AGC_STATUS_SUCCESS,
      Some (map (\<lambda>k. (k, map_of (rev kvs) k, int (length (the (map_of (rev kvs) k))))) ks), s2)"
proof -
  obtain s1 where s1: "agc_cache_redis_set_pipeline lib (map (\<lambda>(k, v). (k, Some v, 0)) kvs) s = Some (AGC_STATUS_SUCCESS, s1)"
      "all_ready lib pending s1" "db (rworld s1) = store (db (rworld s)) kvs"
    using set_pipeline_stores [OF assms(1,2), of "\<lambda>_. 0" kvs] by blast
  obtain s2 where s2: "agc_cache_redis_get_pipeline lib ks s1 = Some (AGC_STATUS_SUCCESS, Some (map (entry (db (rworld s1))) ks), s2)"
    using get_pipeline_reads [OF assms(1) s1(2) assms(3)] by blast
  have st: "store m kvs = m ++ map_of (rev kvs)" for m
    unfolding store_def
  proof (induction kvs rule: rev_induct)
    case (snoc p kvs)
    then show ?case by (cases p) (simp del: fun_upd_apply)
  qed simp
  have "entry (db (rworld s1)) k = (k, map_of (rev kvs) k, int (length (the (map_of (rev kvs) k))))" if "k \<in> set ks" for k
  proof -
    have "k \<in> fst ` set (rev kvs)" using that assms(5) by auto
    then have "map_of (rev kvs) k \<noteq> None" by (simp add: map_of_eq_None_iff)
    then obtain v where v: "map_of (rev kvs) k = Some v" by blast
    then have "strndup v = v" using assms(4) by (auto dest!: map_of_SomeD simp: strndup_def takeWhile_eq_all_conv)
    then show ?thesis using v by (simp add: entry_def s1(3) st)
  qed
  then show ?thesis using s1(1) s2 by (auto simp: cache_calls)
qed

theorem redis_pipeline_roundtrip_witness:
  "\<exists>s1 s2. agc_cache_set_pipeline (Some (agc_cache_routine demo_lib)) [(''a'', Some ''1'', 0), (''b'', Some ''22'', 0), (''a'', Some ''333'', 0)] demo_loaded
       = Some (AGC_STATUS_SUCCESS, s1) \<and>
     agc_cache_get_pipeline (Some (agc_cache_routine demo_lib)) [''b'', ''a''] s1 =
       Some (AGC_STATUS_SUCCESS, Some [(''b'', Some ''22'', 2), (''a'', Some ''333'', 3)], s2)"
proof -
  have "all_ready demo_lib (\<lambda>x. x) demo_loaded" by (simp add: all_ready_def ready_def demo_loaded_def demo_lib_def MAX_POOL_CONNECTIONS_def)
  from redis_pipeline_roundtrip [OF demo_laws this, of "[''b'', ''a'']" "[(''a'', ''1''), (''b'', ''22''), (''a'', ''333'')]"]
  show ?thesis by simp
qed

text \<open>
  C27: A connection is reopened only while its time of waiting runs: when that time is over for every
  connection of the pool and none is open, every call fails, at every later time and whatever the
  servers do.
\<close>

theorem redis_no_reconnect:
  assumes "SYSTEM_RUNNING s" "length (rqueue s) \<le> MAX_POOL_CONNECTIONS"
    "\<forall>c \<in> set (rqueue s). \<not> connected (rconns s c) \<and> connect_time (rconns s c) \<le> timer_curtime s div 1000"
  shows "\<exists>s'. run_timed (Some (agc_cache_routine lib)) ops s = Some (replicate (length ops) AGC_STATUS_GENERR, s')"
  using assms by (intro run_timed_expired) (simp add: expired_def)

theorem redis_no_reconnect_witness:
  "\<exists>s'. run_timed (Some (agc_cache_routine demo_lib)) [(Op_get ''k'', 60000000), (Op_set ''k'' ''v'' 1 0, 60000000)]
     ((release_context 0 (release_context 1 demo_loaded))\<lparr>timer_curtime := 10000000\<rparr>) = Some ([AGC_STATUS_GENERR, AGC_STATUS_GENERR], s')"
  using redis_no_reconnect [of "(release_context 0 (release_context 1 demo_loaded))\<lparr>timer_curtime := 10000000\<rparr>" demo_lib
      "[(Op_get ''k'', 60000000), (Op_set ''k'' ''v'' 1 0, 60000000)]"]
  by (simp add: release_context_def set_conn_def demo_loaded_def demo_start_def next_connect_time_def MAX_POOL_CONNECTIONS_def numeral_2_eq_2)

text \<open>The flag is cleared before the pool is emptied, and no connection is taken from a stopped pool: nothing is closed.\<close>

lemma redis_shutdown_closes_nothing: "mod_redis_shutdown lib s = Some (AGC_STATUS_SUCCESS, s\<lparr>SYSTEM_RUNNING := False\<rparr>)"
  by (simp add: mod_redis_shutdown_def destroy_connection_pool_def get_connection_def)

text \<open>A field that is missing from the table has no text to copy.\<close>

lemma hashmget_missing_field:
  assumes "keys \<noteq> []" "hash_command lib ''HMGET'' t keys [] s = Some (Some (Some (Reply_array (Reply_nil # es))), s')"
  shows "agc_cache_redis_hashmget lib t keys s = None"
  using assms by (cases keys) (simp_all add: agc_cache_redis_hashmget_def)

end
