(* ===== verification/Agc_Rabbitmq.thy ===== *)
theory Agc_Rabbitmq
  imports Agc_Eventsocket
begin

text \<open>
  The module \<^verbatim>\<open>src/src/mod/mqs/mod_rabbitmq\<close>: producers, which publish the events they subscribed to, and
  consumers, which run the commands and fire the events they receive. The client library is the
  parameter \<open>lib\<close>, over a world of type \<open>'w\<close> (the network and the brokers); its connections are
  numbered, and the numbers of the connections that were destroyed are kept, since \<^const>\<open>None\<close> is a use
  of one of them, or of \<^verbatim>\<open>NULL\<close>. The messages are in a store from which they are freed. The files of
  profiles are the tokens of the YAML scanner.
\<close>

section \<open>The library\<close>

datatype amqp_status = AMQP_STATUS_UNEXPECTED_STATE | AMQP_STATUS_SOCKET_ERROR | AMQP_STATUS_CONNECTION_CLOSED | AMQP_STATUS_TCP_ERROR
  | AMQP_STATUS_OTHER int

datatype amqp_rpc_reply = AMQP_RESPONSE_NONE | AMQP_RESPONSE_NORMAL | AMQP_RESPONSE_LIBRARY_EXCEPTION amqp_status
  | AMQP_RESPONSE_SERVER_EXCEPTION nat | AMQP_RESPONSE_OTHER int

record amqp_properties =
  content_type :: "string option"
  delivery_mode_prop :: "u8 option"
  timestamps :: "(u64 \<times> u64) option"

text \<open>
  Of a message that arrives, the texts at the pointers of its content type and its body, up to the first
  NUL that follows in memory, and the length of the body.
\<close>

record amqp_envelope =
  env_content_type :: "string option"
  env_body :: string
  env_body_len :: nat

record 'w amqp_lib =
  amqp_tcp_socket_new :: "nat \<Rightarrow> 'w \<Rightarrow> bool \<times> 'w"
  amqp_socket_open :: "nat \<Rightarrow> string option \<Rightarrow> u32 \<Rightarrow> 'w \<Rightarrow> int \<times> 'w"
  amqp_login :: "nat \<Rightarrow> string option \<Rightarrow> string option \<Rightarrow> string option \<Rightarrow> 'w \<Rightarrow> amqp_rpc_reply \<times> 'w"
  amqp_channel_open :: "nat \<Rightarrow> 'w \<Rightarrow> 'w"
  amqp_channel_close :: "nat \<Rightarrow> 'w \<Rightarrow> amqp_rpc_reply \<times> 'w"
  amqp_connection_close :: "nat \<Rightarrow> 'w \<Rightarrow> amqp_rpc_reply \<times> 'w"
  amqp_destroy_connection :: "nat \<Rightarrow> 'w \<Rightarrow> int \<times> 'w"
  amqp_exchange_declare :: "nat \<Rightarrow> string \<Rightarrow> string \<Rightarrow> 'w \<Rightarrow> 'w"
  amqp_get_rpc_reply :: "nat \<Rightarrow> 'w \<Rightarrow> amqp_rpc_reply \<times> 'w"
  amqp_queue_declare :: "nat \<Rightarrow> string \<Rightarrow> 'w \<Rightarrow> string option \<times> 'w"
  amqp_queue_bind :: "nat \<Rightarrow> string \<Rightarrow> string \<Rightarrow> string \<Rightarrow> 'w \<Rightarrow> 'w"
  amqp_basic_consume :: "nat \<Rightarrow> string option \<Rightarrow> 'w \<Rightarrow> 'w"
  amqp_consume_message :: "nat \<Rightarrow> 'w \<Rightarrow> amqp_rpc_reply \<times> amqp_envelope \<times> 'w"
  amqp_simple_wait_frame :: "nat \<Rightarrow> 'w \<Rightarrow> 'w"
  amqp_basic_publish :: "nat \<Rightarrow> string \<Rightarrow> string \<Rightarrow> amqp_properties \<Rightarrow> string \<Rightarrow> 'w \<Rightarrow> int \<times> 'w"

record 'w amqp =
  aworld :: 'w
  anext :: nat
  adead :: "nat set"

text \<open>A call of the library on a connection that is neither missing nor destroyed.\<close>

definition on_conn :: "nat option \<Rightarrow> 'w amqp \<Rightarrow> (nat \<Rightarrow> 'w \<Rightarrow> 'r \<times> 'w) \<Rightarrow> ('r \<times> 'w amqp) option" where
  "on_conn c m f = (case c of
     None \<Rightarrow> None
   | Some c \<Rightarrow> if c \<in> adead m then None else (case f c (aworld m) of (r, w) \<Rightarrow> Some (r, m\<lparr>aworld := w\<rparr>)))"

definition amqp_new_connection :: "'w amqp \<Rightarrow> nat \<times> 'w amqp" where
  "amqp_new_connection m = (anext m, m\<lparr>anext := anext m + 1\<rparr>)"

definition destroy_connection :: "'w amqp_lib \<Rightarrow> nat option \<Rightarrow> 'w amqp \<Rightarrow> (int \<times> 'w amqp) option" where
  "destroy_connection lib c m = do {
     (r, m) \<leftarrow> on_conn c m (amqp_destroy_connection lib);
     Some (r, m\<lparr>adead := adead m \<union> set_option c\<rparr>)
   }"

section \<open>Profiles\<close>

record agcmq_connection_info =
  hostname :: "string option"
  virtualhost :: "string option"
  username :: "string option"
  password :: "string option"
  port :: u32
  heartbeat :: u32

record agcmq_conn_parameter =
  ex_name :: "string option"
  ex_type :: "string option"
  bind_key :: "string option"
  queuename :: "string option"
  reconnect_interval_ms :: u32
  circuit_breaker_ms :: u32
  queue_size :: u32
  event_filter :: "string option"
  delivery_mode :: u32
  delivery_timestamp :: u32

datatype mq_block = BLOCK_CONNECTION | BLOCK_PARAMETER | BLOCK_UNKOWN
datatype mq_keytype = KEY_STR | KEY_INT | KEY_UNKOWN

text \<open>
  Where \<^verbatim>\<open>strvalue\<close> and \<^verbatim>\<open>intvalue\<close> point: into the connection that was the last one when the key was read,
  if there was one, or into the parameters.
\<close>

datatype str_target = Profile_name | Profile_type | Hostname "nat option" | Virtualhost "nat option" | Username "nat option"
  | Password "nat option" | Ex_name | Ex_type | Queuename | Event_filter | Bind_key

datatype int_target = Port "nat option" | Heartbeat "nat option" | Circuit_breaker_ms | Reconnect_interval_ms | Queue_size
  | Delivery_mode | Delivery_timestamp

record mq_config =
  mc_iskey :: bool
  mc_blocktype :: mq_block
  mc_keytype :: mq_keytype
  strvalue :: "str_target option"
  intvalue :: "int_target option"
  conn_list :: "agcmq_connection_info list"
  mc_para :: agcmq_conn_parameter
  profile_name :: "string option"
  profile_type :: "string option"

definition new_info :: agcmq_connection_info where
  "new_info = \<lparr>hostname = None, virtualhost = None, username = None, password = None, port = 0, heartbeat = 0\<rparr>"

definition new_parameter :: agcmq_conn_parameter where
  "new_parameter = \<lparr>ex_name = None, ex_type = None, bind_key = None, queuename = None, reconnect_interval_ms = 0,
     circuit_breaker_ms = 0, queue_size = 0, event_filter = None, delivery_mode = 0, delivery_timestamp = 1\<rparr>"

definition mq_config_start :: mq_config where
  "mq_config_start = \<lparr>mc_iskey = False, mc_blocktype = BLOCK_UNKOWN, mc_keytype = KEY_UNKOWN, strvalue = None, intvalue = None,
     conn_list = [], mc_para = new_parameter, profile_name = None, profile_type = None\<rparr>"

definition cur_conn :: "mq_config \<Rightarrow> nat option" where
  "cur_conn c = (if conn_list c = [] then None else Some (length (conn_list c) - 1))"

definition str_key :: "str_target \<Rightarrow> mq_config \<Rightarrow> mq_config" where
  "str_key t c = c\<lparr>mc_keytype := KEY_STR, strvalue := Some t\<rparr>"

definition int_key :: "int_target \<Rightarrow> mq_config \<Rightarrow> mq_config" where
  "int_key t c = c\<lparr>mc_keytype := KEY_INT, intvalue := Some t\<rparr>"

definition profile_key :: "string \<Rightarrow> mq_config \<Rightarrow> mq_config" where
  "profile_key k c =
     (if k = ''connections'' then c\<lparr>mc_blocktype := BLOCK_CONNECTION, mc_keytype := KEY_UNKOWN\<rparr>
      else if k = ''parameters'' then c\<lparr>mc_blocktype := BLOCK_PARAMETER, mc_keytype := KEY_UNKOWN\<rparr>
      else if k = ''name'' then str_key Profile_name (c\<lparr>mc_blocktype := BLOCK_UNKOWN\<rparr>)
      else if k = ''type'' then str_key Profile_type (c\<lparr>mc_blocktype := BLOCK_UNKOWN\<rparr>)
      else if k = ''hostname'' then str_key (Hostname (cur_conn c)) c
      else if k = ''virtualhost'' then str_key (Virtualhost (cur_conn c)) c
      else if k = ''username'' then str_key (Username (cur_conn c)) c
      else if k = ''password'' then str_key (Password (cur_conn c)) c
      else if k = ''port'' then int_key (Port (cur_conn c)) c
      else if k = ''heartbeat'' then int_key (Heartbeat (cur_conn c)) c
      else if k = ''exname'' then str_key Ex_name c
      else if k = ''extype'' then str_key Ex_type c
      else if k = ''queuename'' then str_key Queuename c
      else if k = ''circuit_breaker_ms'' then int_key Circuit_breaker_ms c
      else if k = ''reconnect_interval_ms'' then int_key Reconnect_interval_ms c
      else if k = ''queue_size'' then int_key Queue_size c
      else if k = ''event_filter'' then str_key Event_filter c
      else if k = ''binding_key'' then str_key Bind_key c
      else if k = ''delivery_mode'' then int_key Delivery_mode c
      else if k = ''delivery_timestamp'' then int_key Delivery_timestamp c
      else c\<lparr>mc_keytype := KEY_UNKOWN\<rparr>)"

definition upd_conn :: "nat option \<Rightarrow> (agcmq_connection_info \<Rightarrow> agcmq_connection_info) \<Rightarrow> mq_config \<Rightarrow> mq_config option" where
  "upd_conn i f c = (case i of None \<Rightarrow> None | Some i \<Rightarrow> Some (c\<lparr>conn_list := (conn_list c)[i := f (conn_list c ! i)]\<rparr>))"

definition upd_para :: "(agcmq_conn_parameter \<Rightarrow> agcmq_conn_parameter) \<Rightarrow> mq_config \<Rightarrow> mq_config option" where
  "upd_para f c = Some (c\<lparr>mc_para := f (mc_para c)\<rparr>)"

definition write_str :: "str_target \<Rightarrow> string \<Rightarrow> mq_config \<Rightarrow> mq_config option" where
  "write_str t v c = (case t of
     Profile_name \<Rightarrow> Some (c\<lparr>profile_name := Some v\<rparr>)
   | Profile_type \<Rightarrow> Some (c\<lparr>profile_type := Some v\<rparr>)
   | Hostname i \<Rightarrow> upd_conn i (\<lambda>n. n\<lparr>hostname := Some v\<rparr>) c
   | Virtualhost i \<Rightarrow> upd_conn i (\<lambda>n. n\<lparr>virtualhost := Some v\<rparr>) c
   | Username i \<Rightarrow> upd_conn i (\<lambda>n. n\<lparr>username := Some v\<rparr>) c
   | Password i \<Rightarrow> upd_conn i (\<lambda>n. n\<lparr>password := Some v\<rparr>) c
   | Ex_name \<Rightarrow> upd_para (\<lambda>p. p\<lparr>ex_name := Some v\<rparr>) c
   | Ex_type \<Rightarrow> upd_para (\<lambda>p. p\<lparr>ex_type := Some v\<rparr>) c
   | Queuename \<Rightarrow> upd_para (\<lambda>p. p\<lparr>queuename := Some v\<rparr>) c
   | Event_filter \<Rightarrow> upd_para (\<lambda>p. p\<lparr>event_filter := Some v\<rparr>) c
   | Bind_key \<Rightarrow> upd_para (\<lambda>p. p\<lparr>bind_key := Some v\<rparr>) c)"

definition write_int :: "int_target \<Rightarrow> u32 \<Rightarrow> mq_config \<Rightarrow> mq_config option" where
  "write_int t v c = (case t of
     Port i \<Rightarrow> upd_conn i (\<lambda>n. n\<lparr>port := v\<rparr>) c
   | Heartbeat i \<Rightarrow> upd_conn i (\<lambda>n. n\<lparr>heartbeat := v\<rparr>) c
   | Circuit_breaker_ms \<Rightarrow> upd_para (\<lambda>p. p\<lparr>circuit_breaker_ms := v\<rparr>) c
   | Reconnect_interval_ms \<Rightarrow> upd_para (\<lambda>p. p\<lparr>reconnect_interval_ms := v\<rparr>) c
   | Queue_size \<Rightarrow> upd_para (\<lambda>p. p\<lparr>queue_size := v\<rparr>) c
   | Delivery_mode \<Rightarrow> upd_para (\<lambda>p. p\<lparr>delivery_mode := v\<rparr>) c
   | Delivery_timestamp \<Rightarrow> upd_para (\<lambda>p. p\<lparr>delivery_timestamp := v\<rparr>) c)"

definition profile_value :: "string \<Rightarrow> mq_config \<Rightarrow> mq_config option" where
  "profile_value v c = (case mc_keytype c of
     KEY_STR \<Rightarrow> Option.bind (strvalue c) (\<lambda>t. write_str t v c)
   | KEY_INT \<Rightarrow> Option.bind (intvalue c) (\<lambda>t. write_int t (agc_atoui v) c)
   | KEY_UNKOWN \<Rightarrow> Some c)"

definition profile_token :: "yaml_token \<Rightarrow> mq_config \<Rightarrow> mq_config option" where
  "profile_token t c = (case t of
     Key \<Rightarrow> Some (c\<lparr>mc_iskey := True\<rparr>)
   | Value \<Rightarrow> Some (c\<lparr>mc_iskey := False\<rparr>)
   | Scalar v \<Rightarrow> if mc_iskey c then Some (profile_key v c) else profile_value v c
   | Block_entry \<Rightarrow> Some (if mc_blocktype c = BLOCK_CONNECTION then c\<lparr>conn_list := conn_list c @ [new_info]\<rparr> else c)
   | _ \<Rightarrow> Some c)"

text \<open>An error of the scanner ends the loop as the end of the stream does; \<^verbatim>\<open>error\<close> is set and never read.\<close>

fun profile_tokens :: "yaml_token list \<Rightarrow> mq_config \<Rightarrow> mq_config option" where
  "profile_tokens [] c = Some c"
| "profile_tokens (t # ts) c = do {
     c \<leftarrow> profile_token t c;
     if t = Stream_end then Some c else profile_tokens ts c
   }"

definition agcmq_load_profile ::
  "yaml_token list \<Rightarrow> (string option \<times> string option \<times> agcmq_connection_info list \<times> agcmq_conn_parameter) option" where
  "agcmq_load_profile ts = do {
     c \<leftarrow> profile_tokens ts mq_config_start;
     let para = (if reconnect_interval_ms (mc_para c) = 0 then (mc_para c)\<lparr>reconnect_interval_ms := 1000\<rparr> else mc_para c);
     Some (profile_name c, profile_type c, conn_list c, para)
   }"

section \<open>Connections\<close>

record agcmq_connection =
  conn_active :: bool
  conn_state :: "nat option"

definition agcmq_parse_amqp_reply :: "amqp_rpc_reply \<Rightarrow> int" where
  "agcmq_parse_amqp_reply x = (if x = AMQP_RESPONSE_NORMAL then 0 else - 1)"

text \<open>\<^verbatim>\<open>agcmq_connection_close\<close> leaves the pointer to the connection that it destroys.\<close>

definition agcmq_connection_close :: "'w amqp_lib \<Rightarrow> agcmq_connection \<Rightarrow> 'w amqp \<Rightarrow> (agcmq_connection \<times> 'w amqp) option" where
  "agcmq_connection_close lib conn m = do {
     (_, m) \<leftarrow> on_conn (conn_state conn) m (amqp_channel_close lib);
     (_, m) \<leftarrow> on_conn (conn_state conn) m (amqp_connection_close lib);
     (_, m) \<leftarrow> destroy_connection lib (conn_state conn) m;
     Some (conn\<lparr>conn_active := False\<rparr>, m)
   }"

fun open_socket :: "'w amqp_lib \<Rightarrow> nat \<Rightarrow> agcmq_connection_info list \<Rightarrow> 'w \<Rightarrow> agcmq_connection_info option \<times> 'w" where
  "open_socket lib n [] w = (None, w)"
| "open_socket lib n (info # infos) w = (case amqp_socket_open lib n (hostname info) (port info) w of
     (r, w) \<Rightarrow> if r = 0 then (Some info, w) else open_socket lib n infos w)"

text \<open>
  After a refused login the function closes the connection of \<^verbatim>\<open>conn\<close> and not the one it opened. The answer
  to the opening of the channel is not fetched; the answer to the login is tested twice.
\<close>

definition agcmq_login :: "'w amqp_lib \<Rightarrow> nat \<Rightarrow> agcmq_connection_info \<Rightarrow> agcmq_connection \<Rightarrow> 'w amqp \<Rightarrow>
    (agc_status \<times> agcmq_connection \<times> 'w amqp) option" where
  "agcmq_login lib n info conn m =
     (let (reply, w) = amqp_login lib n (virtualhost info) (username info) (password info) (aworld m);
          m = m\<lparr>aworld := w\<rparr>
      in if agcmq_parse_amqp_reply reply \<noteq> 0
         then do { (conn, m) \<leftarrow> agcmq_connection_close lib conn m; Some (AGC_STATUS_GENERR, conn, m) }
         else (let m = m\<lparr>aworld := amqp_channel_open lib n (aworld m)\<rparr>
               in if agcmq_parse_amqp_reply reply \<noteq> 0 then Some (AGC_STATUS_GENERR, conn, m)
                  else (let new = \<lparr>conn_active = True, conn_state = Some n\<rparr>
                        in if conn_state conn = None then Some (AGC_STATUS_SUCCESS, new, m)
                           else do { (_, m) \<leftarrow> destroy_connection lib (conn_state conn) m; Some (AGC_STATUS_SUCCESS, new, m) })))"

definition agcmq_connection_open :: "'w amqp_lib \<Rightarrow> agcmq_connection_info list \<Rightarrow> agcmq_connection \<Rightarrow> 'w amqp \<Rightarrow>
    (agc_status \<times> agcmq_connection \<times> 'w amqp) option" where
  "agcmq_connection_open lib infos conn m =
     (let (n, m) = amqp_new_connection m in
      if infos = [] then Some (AGC_STATUS_GENERR, conn, m)
      else (let (ok, w) = amqp_tcp_socket_new lib n (aworld m) in
            if \<not> ok then Some (AGC_STATUS_GENERR, conn, m\<lparr>aworld := w\<rparr>)
            else (case open_socket lib n infos w of
                    (None, w) \<Rightarrow> Some (AGC_STATUS_GENERR, conn, m\<lparr>aworld := w\<rparr>)
                  | (Some info, w) \<Rightarrow> agcmq_login lib n info conn (m\<lparr>aworld := w\<rparr>))))"

text \<open>A request on the channel and its answer; \<^verbatim>\<open>amqp_cstring_bytes\<close> takes the length of its argument.\<close>

definition amqp_request :: "'w amqp_lib \<Rightarrow> nat option \<Rightarrow> (nat \<Rightarrow> 'w \<Rightarrow> 'w) \<Rightarrow> 'w amqp \<Rightarrow> (bool \<times> 'w amqp) option" where
  "amqp_request lib c f m = do {
     (_, m) \<leftarrow> on_conn c m (\<lambda>c w. ((), f c w));
     (reply, m) \<leftarrow> on_conn c m (amqp_get_rpc_reply lib);
     Some (agcmq_parse_amqp_reply reply = 0, m)
   }"

definition declare_exchange :: "'w amqp_lib \<Rightarrow> nat option \<Rightarrow> string option \<Rightarrow> string option \<Rightarrow> 'w amqp \<Rightarrow> (bool \<times> 'w amqp) option" where
  "declare_exchange lib c name kind m = do {
     name \<leftarrow> name;
     kind \<leftarrow> kind;
     amqp_request lib c (\<lambda>c. amqp_exchange_declare lib c name kind) m
   }"

section \<open>Producers\<close>

record agcmq_message =
  routing_key :: string
  pjson :: "string option"

record agcmq_producer =
  producer_name :: string
  producer_para :: agcmq_conn_parameter
  producer_infos :: "agcmq_connection_info list"
  producer_conn :: agcmq_connection
  producer_running :: bool
  reset_time :: int
  send_queue :: apr_queue
  subscribed :: "bool list"
  sending :: addr

record agcmq_consumer =
  consumer_name :: string
  consumer_para :: agcmq_conn_parameter
  consumer_infos :: "agcmq_connection_info list"
  consumer_conn :: agcmq_connection
  consumer_running :: bool
  queue_name :: "string option"
  consuming :: bool
  thread_ended :: bool

text \<open>
  The state of the module, with the store of the messages; \<open>sending\<close> is the variable \<^verbatim>\<open>msg\<close> of the thread
  of the producer. Of the thread of a consumer, \<open>queue_name\<close> is the variable \<^verbatim>\<open>queueName\<close>, \<open>consuming\<close> says that it
  is in the inner loop, and \<open>thread_ended\<close> that it has left the outer one.
\<close>

record 'w agcmq =
  producers :: "agcmq_producer list"
  consumers :: "agcmq_consumer list"
  messages :: "addr \<Rightarrow> agcmq_message option"
  mnext :: addr
  mamqp :: "'w amqp"

definition MQ_EVENT_LIMIT :: u32 where "MQ_EVENT_LIMIT = 10000"
definition MAX_MQ_ROUTING_KEY_LENGTH :: nat where "MAX_MQ_ROUTING_KEY_LENGTH = 255"
definition MQ_DEFAULT_CONTENT_TYPE :: string where "MQ_DEFAULT_CONTENT_TYPE = ''text/json''"
definition EVENT_HEADER_ROUTING :: string where "EVENT_HEADER_ROUTING = ''_routingkey''"

definition agcmq_producer_msg_destroy :: "addr \<Rightarrow> (addr \<Rightarrow> agcmq_message option) \<Rightarrow> (addr \<Rightarrow> agcmq_message option) option" where
  "agcmq_producer_msg_destroy a ms =
     (if a = NULL then Some ms else if ms a = None then None else Some (ms(a := None)))"

fun subscribe_names :: "evsys \<Rightarrow> string list \<Rightarrow> bool list \<Rightarrow> bool list option" where
  "subscribe_names e [] l = Some l"
| "subscribe_names e (v # vs) l = (case agc_event_get_id e (Some v) of
     (AGC_STATUS_SUCCESS, Some i) \<Rightarrow>
       if i = EVENT_ID_ALL then subscribe_names e vs (replicate 1024 True)
       else do { l \<leftarrow> arr_set l i True; subscribe_names e vs l }
   | _ \<Rightarrow> subscribe_names e vs l)"

definition message_properties :: "agcmq_conn_parameter \<Rightarrow> u64 \<Rightarrow> u64 \<Rightarrow> amqp_properties" where
  "message_properties para secs usecs = \<lparr>content_type = Some MQ_DEFAULT_CONTENT_TYPE,
     delivery_mode_prop = (if 0 < delivery_mode para then Some (ucast (delivery_mode para)) else None),
     timestamps = (if delivery_timestamp para \<noteq> 0 then Some (secs, usecs) else None)\<rparr>"

definition agcmq_producer_send :: "'w amqp_lib \<Rightarrow> u64 \<Rightarrow> u64 \<Rightarrow> agcmq_producer \<Rightarrow> agcmq_message \<Rightarrow> 'w amqp \<Rightarrow>
    (agc_status \<times> agcmq_producer \<times> 'w amqp) option" where
  "agcmq_producer_send lib secs usecs p msg m =
     (if \<not> conn_active (producer_conn p) then Some (AGC_STATUS_NOT_INITALIZED, p, m)
      else do {
        ex \<leftarrow> ex_name (producer_para p);
        json \<leftarrow> pjson msg;
        (status, m) \<leftarrow> on_conn (conn_state (producer_conn p)) m
          (\<lambda>c. amqp_basic_publish lib c ex (routing_key msg) (message_properties (producer_para p) secs usecs) json);
        if status < 0 then do {
          (conn, m) \<leftarrow> agcmq_connection_close lib (producer_conn p) m;
          Some (AGC_STATUS_SOCKERR, p\<lparr>producer_conn := conn\<rparr>, m)
        } else Some (AGC_STATUS_SUCCESS, p, m)
      })"

text \<open>
  The loop of the thread: \<open>producer_reconnect\<close> is the block for a connection that is not active, and says
  whether the loop goes on with the next turn; \<open>producer_take\<close> fetches a message, unless one is held, and
  \<open>producer_turn\<close> is a whole turn, with the message that was published in it. The broker and \<open>handle_event\<close>
  run between the turns.
\<close>

definition producer_reconnect :: "'w amqp_lib \<Rightarrow> agcmq_producer \<Rightarrow> 'w amqp \<Rightarrow> (bool \<times> agcmq_producer \<times> 'w amqp) option" where
  "producer_reconnect lib p m =
     (if conn_active (producer_conn p) then Some (False, p, m)
      else do {
        (status, conn, m) \<leftarrow> agcmq_connection_open lib (producer_infos p) (producer_conn p) m;
        let p = p\<lparr>producer_conn := conn\<rparr>;
        if status \<noteq> AGC_STATUS_SUCCESS then Some (False, p, m)
        else do {
          (_, m) \<leftarrow> declare_exchange lib (conn_state conn) (ex_name (producer_para p)) (ex_type (producer_para p)) m;
          Some (True, p, m)
        }
      })"

definition producer_take :: "agcmq_producer \<Rightarrow> (bool \<times> agcmq_producer) option" where
  "producer_take p =
     (if sending p \<noteq> NULL then Some (True, p)
      else do {
        (status, a, q) \<leftarrow> apr_queue_trypop (send_queue p);
        Some (status = APR_SUCCESS, p\<lparr>send_queue := q, sending := (case a of None \<Rightarrow> NULL | Some a \<Rightarrow> a)\<rparr>)
      })"

definition producer_deliver :: "'w amqp_lib \<Rightarrow> u64 \<Rightarrow> u64 \<Rightarrow> agcmq_producer \<Rightarrow> (addr \<Rightarrow> agcmq_message option) \<Rightarrow> 'w amqp \<Rightarrow>
    (agcmq_message option \<times> agcmq_producer \<times> (addr \<Rightarrow> agcmq_message option) \<times> 'w amqp) option" where
  "producer_deliver lib secs usecs p ms m =
     (if sending p = NULL then Some (None, p, ms, m)
      else do {
        msg \<leftarrow> ms (sending p);
        (status, p, m) \<leftarrow> agcmq_producer_send lib secs usecs p msg m;
        if status = AGC_STATUS_SUCCESS then do {
          ms \<leftarrow> agcmq_producer_msg_destroy (sending p) ms;
          Some (Some msg, p\<lparr>sending := NULL\<rparr>, ms, m)
        } else Some (None, p, ms, m)
      })"

definition producer_turn :: "'w amqp_lib \<Rightarrow> u64 \<Rightarrow> u64 \<Rightarrow> agcmq_producer \<Rightarrow> (addr \<Rightarrow> agcmq_message option) \<Rightarrow> 'w amqp \<Rightarrow>
    (agcmq_message option \<times> agcmq_producer \<times> (addr \<Rightarrow> agcmq_message option) \<times> 'w amqp) option" where
  "producer_turn lib secs usecs p ms m = do {
     (again, p, m) \<leftarrow> producer_reconnect lib p m;
     if again then Some (None, p, ms, m)
     else do {
       (got, p) \<leftarrow> producer_take p;
       if got then producer_deliver lib secs usecs p ms m else Some (None, p, ms, m)
     }
   }"

definition agcmq_producer_thread :: "'w amqp_lib \<Rightarrow> u64 \<Rightarrow> u64 \<Rightarrow> nat \<Rightarrow> 'w agcmq \<Rightarrow> (agcmq_message option \<times> 'w agcmq) option" where
  "agcmq_producer_thread lib secs usecs i s =
     (if length (producers s) \<le> i \<or> \<not> producer_running (producers s ! i) then Some (None, s)
      else do {
        (sent, p, ms, m) \<leftarrow> producer_turn lib secs usecs (producers s ! i) (messages s) (mamqp s);
        Some (sent, s\<lparr>producers := (producers s)[i := p], messages := ms, mamqp := m\<rparr>)
      })"

text \<open>
  The surroundings of the module: the name of the host, which threads can be started, which messages can
  be allocated, and which names of queues can be copied.
\<close>

record mq_env =
  env_hostname :: string
  env_thread :: "string \<Rightarrow> bool"
  env_alloc :: "addr \<Rightarrow> bool"
  env_dup :: "string \<Rightarrow> bool"

definition fits_key :: "string \<Rightarrow> string option" where
  "fits_key k = (if length k < MAX_MQ_ROUTING_KEY_LENGTH then Some k else None)"

definition make_routingkey :: "mq_env \<Rightarrow> evsys \<Rightarrow> agc_event \<Rightarrow> string option" where
  "make_routingkey env e ev = do {
     name \<leftarrow> agc_event_get_name e (event_id ev);
     fits_key (env_hostname env @ ''.'' @ (case name of None \<Rightarrow> [] | Some n \<Rightarrow> n))
   }"

definition routing_key_of :: "mq_env \<Rightarrow> evsys \<Rightarrow> agc_event \<Rightarrow> string option" where
  "routing_key_of env e ev = do {
     r \<leftarrow> agc_event_get_header (hstore e) ev (Some EVENT_HEADER_ROUTING);
     (case r of Some k \<Rightarrow> fits_key k | None \<Rightarrow> make_routingkey env e ev)
   }"

definition event_message :: "'d fp \<Rightarrow> mq_env \<Rightarrow> evsys \<Rightarrow> agc_event \<Rightarrow> agcmq_message option" where
  "event_message f env e ev = do {
     (_, json) \<leftarrow> agc_event_serialize_json f (event_templates e) (hstore e) ev;
     key \<leftarrow> routing_key_of env e ev;
     Some \<lparr>routing_key = key, pjson = json\<rparr>
   }"

text \<open>
  A turn of the loop of \<^verbatim>\<open>handle_event\<close>, for one producer, with the message that was put into its queue; when a
  message cannot be allocated the function returns. The product of milliseconds is computed in 32 bits.
\<close>

datatype offer = Next "agcmq_message option" | Return

definition offer_event :: "'d fp \<Rightarrow> mq_env \<Rightarrow> int \<Rightarrow> evsys \<Rightarrow> agc_event \<Rightarrow> agcmq_producer \<Rightarrow> (addr \<Rightarrow> agcmq_message option) \<Rightarrow> addr \<Rightarrow>
    (offer \<times> agcmq_producer \<times> (addr \<Rightarrow> agcmq_message option) \<times> addr) option" where
  "offer_event f env now e ev p ms n =
     (if \<not> producer_running p \<or> now < reset_time p then Some (Next None, p, ms, n)
      else do {
        wanted \<leftarrow> arr_get (subscribed p) (event_id ev);
        if \<not> wanted then Some (Next None, p, ms, n)
        else if \<not> env_alloc env n then Some (Return, p, ms, n)
        else do {
          msg \<leftarrow> event_message f env e ev;
          let ms = ms(n \<mapsto> msg);
          (status, q) \<leftarrow> apr_queue_trypush (send_queue p) n;
          if status = APR_SUCCESS then Some (Next (Some msg), p\<lparr>send_queue := q\<rparr>, ms, n + 1)
          else do {
            ms \<leftarrow> agcmq_producer_msg_destroy n ms;
            Some (Next None, p\<lparr>reset_time := now + int (unat (circuit_breaker_ms (producer_para p) * 1000))\<rparr>, ms, n + 1)
          }
        }
      })"

fun offer_events :: "'d fp \<Rightarrow> mq_env \<Rightarrow> int \<Rightarrow> evsys \<Rightarrow> agc_event \<Rightarrow> agcmq_producer list \<Rightarrow> (addr \<Rightarrow> agcmq_message option) \<Rightarrow> addr \<Rightarrow>
    (agcmq_message option list \<times> agcmq_producer list \<times> (addr \<Rightarrow> agcmq_message option) \<times> addr) option" where
  "offer_events f env now e ev [] ms n = Some ([], [], ms, n)"
| "offer_events f env now e ev (p # ps) ms n = do {
     (r, p, ms, n) \<leftarrow> offer_event f env now e ev p ms n;
     (case r of
        Return \<Rightarrow> Some (None # map (\<lambda>_. None) ps, p # ps, ms, n)
      | Next msg \<Rightarrow> do {
          (msgs, ps, ms, n) \<leftarrow> offer_events f env now e ev ps ms n;
          Some (msg # msgs, p # ps, ms, n)
        })
   }"

definition agcmq_handle_event :: "'d fp \<Rightarrow> mq_env \<Rightarrow> int \<Rightarrow> evsys \<Rightarrow> agc_event option \<Rightarrow> 'w agcmq \<Rightarrow> (agcmq_message option list \<times> 'w agcmq) option" where
  "agcmq_handle_event f env now e ev s = (case ev of
     None \<Rightarrow> Some (map (\<lambda>_. None) (producers s), s)
   | Some ev \<Rightarrow> do {
       (msgs, ps, ms, n) \<leftarrow> offer_events f env now e ev (producers s) (messages s) (mnext s);
       Some (msgs, s\<lparr>producers := ps, messages := ms, mnext := n\<rparr>)
     })"

section \<open>Creation and destruction of producers\<close>

definition close_active :: "'w amqp_lib \<Rightarrow> agcmq_connection \<Rightarrow> 'w amqp \<Rightarrow> (agcmq_connection \<times> 'w amqp) option" where
  "close_active lib conn m = (if conn_active conn then agcmq_connection_close lib conn m else Some (conn, m))"

definition new_connection_state :: agcmq_connection where
  "new_connection_state = \<lparr>conn_active = False, conn_state = None\<rparr>"

text \<open>
  A thread that could not be started is joined all the same, through the handle that \<^verbatim>\<open>apr_thread_create\<close>
  leaves behind: a fault.
\<close>

definition agcmq_producer_create :: "'w amqp_lib \<Rightarrow> mq_env \<Rightarrow> evsys \<Rightarrow> string option \<Rightarrow> agcmq_connection_info list \<Rightarrow> agcmq_conn_parameter \<Rightarrow>
    'w agcmq \<Rightarrow> (agc_status \<times> 'w agcmq) option" where
  "agcmq_producer_create lib env e name infos para s = (case name of
     None \<Rightarrow> Some (AGC_STATUS_GENERR, s)
   | Some name \<Rightarrow>
       if infos = [] then Some (AGC_STATUS_GENERR, s)
       else do {
         names \<leftarrow> (case agc_separate_string (event_filter para) (CHR '','') 1024 of Val v \<Rightarrow> Some v | _ \<Rightarrow> None);
         l \<leftarrow> subscribe_names e names (replicate 1024 False);
         (status, conn, m) \<leftarrow> agcmq_connection_open lib infos new_connection_state (mamqp s);
         if status \<noteq> AGC_STATUS_SUCCESS then do {
           (_, m) \<leftarrow> close_active lib conn m;
           Some (AGC_STATUS_GENERR, s\<lparr>mamqp := m\<rparr>)
         } else do {
           (ok, m) \<leftarrow> declare_exchange lib (conn_state conn) (ex_name para) (ex_type para) m;
           if \<not> ok then do {
             (_, m) \<leftarrow> close_active lib conn m;
             Some (AGC_STATUS_GENERR, s\<lparr>mamqp := m\<rparr>)
           } else if \<not> env_thread env name then None
           else Some (AGC_STATUS_SUCCESS, s\<lparr>mamqp := m, producers := producers s @
             [\<lparr>producer_name = name, producer_para = para, producer_infos = infos, producer_conn = conn, producer_running = True,
               reset_time = 0, send_queue = apr_queue_create MQ_EVENT_LIMIT, subscribed = l, sending = NULL\<rparr>]\<rparr>)
         }
       })"

partial_function (option) drain_queue :: "apr_queue \<Rightarrow> (addr \<Rightarrow> agcmq_message option) \<Rightarrow> (apr_queue \<times> (addr \<Rightarrow> agcmq_message option)) option" where
  "drain_queue q ms = do {
     (status, a, q) \<leftarrow> apr_queue_trypop q;
     if status = APR_SUCCESS then do {
       ms \<leftarrow> agcmq_producer_msg_destroy (case a of None \<Rightarrow> NULL | Some a \<Rightarrow> a) ms;
       drain_queue q ms
     } else Some (q, ms)
   }"

text \<open>Joining the thread lets it free the message that it holds.\<close>

definition agcmq_producer_destroy :: "'w amqp_lib \<Rightarrow> agcmq_producer \<Rightarrow> (addr \<Rightarrow> agcmq_message option) \<Rightarrow> 'w amqp \<Rightarrow>
    ((addr \<Rightarrow> agcmq_message option) \<times> 'w amqp) option" where
  "agcmq_producer_destroy lib p ms m = do {
     ms \<leftarrow> agcmq_producer_msg_destroy (sending p) ms;
     (_, m) \<leftarrow> close_active lib (producer_conn p) m;
     (_, ms) \<leftarrow> drain_queue (send_queue p) ms;
     Some (ms, m)
   }"

fun destroy_producers :: "'w amqp_lib \<Rightarrow> agcmq_producer list \<Rightarrow> (addr \<Rightarrow> agcmq_message option) \<Rightarrow> 'w amqp \<Rightarrow>
    ((addr \<Rightarrow> agcmq_message option) \<times> 'w amqp) option" where
  "destroy_producers lib [] ms m = Some (ms, m)"
| "destroy_producers lib (p # ps) ms m = do {
     (ms, m) \<leftarrow> agcmq_producer_destroy lib p ms m;
     destroy_producers lib ps ms m
   }"

section \<open>Consumers\<close>

definition agcmq_consumer_create :: "mq_env \<Rightarrow> string option \<Rightarrow> agcmq_connection_info list \<Rightarrow> agcmq_conn_parameter \<Rightarrow> 'w agcmq \<Rightarrow>
    (agc_status \<times> 'w agcmq) option" where
  "agcmq_consumer_create env name infos para s = (case name of
     None \<Rightarrow> Some (AGC_STATUS_GENERR, s)
   | Some name \<Rightarrow>
       if infos = [] then Some (AGC_STATUS_GENERR, s)
       else if \<not> env_thread env name then None
       else Some (AGC_STATUS_SUCCESS, s\<lparr>consumers := consumers s @
         [\<lparr>consumer_name = name, consumer_para = para, consumer_infos = infos, consumer_conn = new_connection_state, consumer_running = True,
           queue_name = None, consuming = False, thread_ended = False\<rparr>]\<rparr>))"

definition consumer_close :: "'w amqp_lib \<Rightarrow> agcmq_consumer \<Rightarrow> 'w amqp \<Rightarrow> (agcmq_consumer \<times> 'w amqp) option" where
  "consumer_close lib c m = do {
     (conn, m) \<leftarrow> agcmq_connection_close lib (consumer_conn c) m;
     Some (c\<lparr>consumer_conn := conn\<rparr>, m)
   }"

definition consumer_queue :: "'w amqp_lib \<Rightarrow> mq_env \<Rightarrow> agcmq_consumer \<Rightarrow> 'w amqp \<Rightarrow> (agcmq_consumer \<times> 'w amqp) option" where
  "consumer_queue lib env c m = do {
     let para = consumer_para c; let st = conn_state (consumer_conn c);
     qname \<leftarrow> queuename para;
     (recv_queue, m) \<leftarrow> on_conn st m (\<lambda>c. amqp_queue_declare lib c qname);
     (reply, m) \<leftarrow> on_conn st m (amqp_get_rpc_reply lib);
     if agcmq_parse_amqp_reply reply \<noteq> 0 then consumer_close lib c m
     else do {
       qname \<leftarrow> recv_queue;
       if \<not> env_dup env qname then Some (c\<lparr>queue_name := None, thread_ended := True\<rparr>, m)
       else do {
         ex \<leftarrow> ex_name para;
         key \<leftarrow> bind_key para;
         (ok, m) \<leftarrow> amqp_request lib st (\<lambda>c. amqp_queue_bind lib c qname ex key) m;
         let c = c\<lparr>queue_name := Some qname\<rparr>;
         if ok then Some (c, m) else consumer_close lib c m
       }
     }
   }"

definition consumer_connect :: "'w amqp_lib \<Rightarrow> mq_env \<Rightarrow> agcmq_consumer \<Rightarrow> 'w amqp \<Rightarrow> (agcmq_consumer \<times> 'w amqp) option" where
  "consumer_connect lib env c m = do {
     (status, conn, m) \<leftarrow> agcmq_connection_open lib (consumer_infos c) (consumer_conn c) m;
     let c = c\<lparr>consumer_conn := conn\<rparr>;
     if status \<noteq> AGC_STATUS_SUCCESS then Some (c, m)
     else do {
       (ok, m) \<leftarrow> declare_exchange lib (conn_state conn) (ex_name (consumer_para c)) (Some ''topic'') m;
       if ok then consumer_queue lib env c m else consumer_close lib c m
     }
   }"

definition consumer_begin :: "'w amqp_lib \<Rightarrow> agcmq_consumer \<Rightarrow> 'w amqp \<Rightarrow> (agcmq_consumer \<times> 'w amqp) option" where
  "consumer_begin lib c m = do {
     (ok, m) \<leftarrow> amqp_request lib (conn_state (consumer_conn c)) (\<lambda>n. amqp_basic_consume lib n (queue_name c)) m;
     if ok then Some (c\<lparr>consuming := True\<rparr>, m) else consumer_close lib c m
   }"

definition consumer_leave :: "'w amqp_lib \<Rightarrow> agcmq_consumer \<Rightarrow> 'w amqp \<Rightarrow> (agcmq_consumer \<times> 'w amqp) option" where
  "consumer_leave lib c m = consumer_close lib (c\<lparr>queue_name := None, consuming := False\<rparr>) m"

datatype command_format = COMMAND_FORMAT_UNKNOWN | COMMAND_FORMAT_PLAINTEXT | COMMAND_FORMAT_JSONTEXT

definition message_format :: "amqp_envelope \<Rightarrow> command_format" where
  "message_format envelope = (case env_content_type envelope of
     None \<Rightarrow> COMMAND_FORMAT_PLAINTEXT
   | Some t \<Rightarrow>
       if strncasecmp_eq ''text/plain'' t 10 then COMMAND_FORMAT_PLAINTEXT
       else if strncasecmp_eq MQ_DEFAULT_CONTENT_TYPE t 9 then COMMAND_FORMAT_JSONTEXT
       else COMMAND_FORMAT_UNKNOWN)"

text \<open>
  What is done with a message: \<open>a\<close> is the address of the event that is made of a text, \<open>as\<close> are those of its
  headers and \<open>rnd\<close> the random number of \<^verbatim>\<open>agc_event_fire\<close>. The flag says that the thread waits in a full
  dispatch queue.
\<close>

definition fire_json :: "'d fp \<Rightarrow> addr \<Rightarrow> addr list \<Rightarrow> nat \<Rightarrow> string \<Rightarrow> evsys \<times> 'x \<Rightarrow> (bool \<times> evsys \<times> 'x) option" where
  "fire_json f a as rnd json st = do {
     (status, h, ev) \<leftarrow> agc_event_create_json f (hstore (fst st)) as json;
     let e = (fst st)\<lparr>hstore := h\<rparr>;
     (case (status = AGC_STATUS_SUCCESS, ev) of
        (True, Some ev) \<Rightarrow> do {
          (r, e, _) \<leftarrow> agc_event_fire (e\<lparr>events := (events e)(a \<mapsto> ev)\<rparr>) a rnd;
          Some (r = Blocked, e, snd st)
        }
      | _ \<Rightarrow> Some (False, e, snd st))
   }"

definition consumer_dispatch ::
  "'d fp \<Rightarrow> alloc_env \<Rightarrow> (evsys \<times> 'x) agc_api list \<Rightarrow> addr \<Rightarrow> addr list \<Rightarrow> nat \<Rightarrow> amqp_envelope \<Rightarrow> evsys \<times> 'x \<Rightarrow> (bool \<times> evsys \<times> 'x) option" where
  "consumer_dispatch f aenv apis a as rnd envelope st = (case message_format envelope of
     COMMAND_FORMAT_PLAINTEXT \<Rightarrow> do {
       st \<leftarrow> agc_parse_execute aenv apis (Some (c_snprintf 1024 (take (env_body_len envelope) (env_body envelope)))) st;
       Some (False, st)
     }
   | COMMAND_FORMAT_JSONTEXT \<Rightarrow> fire_json f a as rnd (env_body envelope) st
   | COMMAND_FORMAT_UNKNOWN \<Rightarrow> Some (False, st))"

text \<open>A turn of the inner loop: what to do next, and the message to handle.\<close>

datatype received = Again | Leave | Message amqp_envelope

definition consumer_receive :: "'w amqp_lib \<Rightarrow> agcmq_consumer \<Rightarrow> 'w amqp \<Rightarrow> (received \<times> 'w amqp) option" where
  "consumer_receive lib c m = do {
     ((res, envelope), m) \<leftarrow> on_conn (conn_state (consumer_conn c)) m
       (\<lambda>n w. case amqp_consume_message lib n w of (r, en, w) \<Rightarrow> ((r, en), w));
     (case res of
        AMQP_RESPONSE_NORMAL \<Rightarrow> Some (Message envelope, m)
      | AMQP_RESPONSE_LIBRARY_EXCEPTION er \<Rightarrow>
          if er = AMQP_STATUS_UNEXPECTED_STATE then do {
            (_, m) \<leftarrow> on_conn (conn_state (consumer_conn c)) m (\<lambda>n w. ((), amqp_simple_wait_frame lib n w));
            Some (Again, m)
          } else if er = AMQP_STATUS_SOCKET_ERROR \<or> er = AMQP_STATUS_CONNECTION_CLOSED \<or> er = AMQP_STATUS_TCP_ERROR then Some (Leave, m)
          else Some (Again, m)
      | _ \<Rightarrow> Some (Leave, m))
   }"

definition consumer_turn :: "'w amqp_lib \<Rightarrow> mq_env \<Rightarrow> agcmq_consumer \<Rightarrow> 'w amqp \<Rightarrow> (amqp_envelope option \<times> agcmq_consumer \<times> 'w amqp) option" where
  "consumer_turn lib env c m =
     (if consuming c then
        (if \<not> consumer_running c \<or> \<not> conn_active (consumer_conn c) then map_option (Pair None) (consumer_leave lib c m)
         else do {
           (r, m) \<leftarrow> consumer_receive lib c m;
           (case r of
              Again \<Rightarrow> Some (None, c, m)
            | Leave \<Rightarrow> map_option (Pair None) (consumer_leave lib c m)
            | Message en \<Rightarrow> Some (Some en, c, m))
         })
      else if \<not> consumer_running c then Some (None, c\<lparr>thread_ended := True\<rparr>, m)
      else map_option (Pair None) (if conn_active (consumer_conn c) then consumer_begin lib c m else consumer_connect lib env c m))"

definition agcmq_consumer_thread ::
  "'d fp \<Rightarrow> 'w amqp_lib \<Rightarrow> mq_env \<Rightarrow> alloc_env \<Rightarrow> (evsys \<times> 'x) agc_api list \<Rightarrow> addr \<Rightarrow> addr list \<Rightarrow> nat \<Rightarrow> nat \<Rightarrow> 'w agcmq \<Rightarrow> evsys \<times> 'x \<Rightarrow>
     (bool \<times> 'w agcmq \<times> evsys \<times> 'x) option" where
  "agcmq_consumer_thread f lib env aenv apis a as rnd i s st =
     (if length (consumers s) \<le> i \<or> thread_ended (consumers s ! i) then Some (False, s, st)
      else do {
        (en, c, m) \<leftarrow> consumer_turn lib env (consumers s ! i) (mamqp s);
        let s = s\<lparr>consumers := (consumers s)[i := c], mamqp := m\<rparr>;
        (case en of
           None \<Rightarrow> Some (False, s, st)
         | Some en \<Rightarrow> do { (b, st) \<leftarrow> consumer_dispatch f aenv apis a as rnd en st; Some (b, s, st) })
      })"

text \<open>Joining the thread runs it to its end: out of the inner loop, if it is there.\<close>

definition agcmq_consumer_destroy :: "'w amqp_lib \<Rightarrow> agcmq_consumer \<Rightarrow> 'w amqp \<Rightarrow> 'w amqp option" where
  "agcmq_consumer_destroy lib c m = do {
     (c, m) \<leftarrow> (if consuming c then consumer_leave lib c m else Some (c, m));
     (_, m) \<leftarrow> close_active lib (consumer_conn c) m;
     Some m
   }"

fun destroy_consumers :: "'w amqp_lib \<Rightarrow> agcmq_consumer list \<Rightarrow> 'w amqp \<Rightarrow> 'w amqp option" where
  "destroy_consumers lib [] m = Some m"
| "destroy_consumers lib (c # cs) m = do { m \<leftarrow> agcmq_consumer_destroy lib c m; destroy_consumers lib cs m }"

section \<open>The module\<close>

text \<open>The files of the directory, each with the tokens that the scanner finds in it if it can be opened.\<close>

definition is_yml :: "string \<Rightarrow> bool" where
  "is_yml fname \<longleftrightarrow> CHR ''.'' \<in> set fname \<and> rev (takeWhile (\<lambda>c. c \<noteq> CHR ''.'') (rev fname)) = ''yml''"

definition load_file :: "'w amqp_lib \<Rightarrow> mq_env \<Rightarrow> evsys \<Rightarrow> string \<Rightarrow> yaml_token list option \<Rightarrow> 'w agcmq \<Rightarrow> 'w agcmq option" where
  "load_file lib env e fname tokens s =
     (if \<not> is_yml fname then Some s
      else do {
        ts \<leftarrow> tokens;
        (pname, ptype, conn, para) \<leftarrow> agcmq_load_profile ts;
        if pname = None \<or> ptype = None \<or> conn = [] then Some s
        else if ptype = Some ''producer'' then map_option snd (agcmq_producer_create lib env e pname conn para s)
        else if ptype = Some ''consumer'' then map_option snd (agcmq_consumer_create env pname conn para s)
        else Some s
      })"

fun load_files :: "'w amqp_lib \<Rightarrow> mq_env \<Rightarrow> evsys \<Rightarrow> (string \<times> yaml_token list option) list \<Rightarrow> 'w agcmq \<Rightarrow> 'w agcmq option" where
  "load_files lib env e [] s = Some s"
| "load_files lib env e ((fname, ts) # fs) s = do { s \<leftarrow> load_file lib env e fname ts s; load_files lib env e fs s }"

text \<open>A directory that cannot be opened is missing. The command \<^verbatim>\<open>agcmq\<close> runs \<open>agcmq_load_config\<close> once more.\<close>

definition agcmq_load_config :: "'w amqp_lib \<Rightarrow> mq_env \<Rightarrow> evsys \<Rightarrow> (string \<times> yaml_token list option) list option \<Rightarrow> 'w agcmq \<Rightarrow>
    (agc_status \<times> 'w agcmq) option" where
  "agcmq_load_config lib env e dir s = (case dir of
     None \<Rightarrow> Some (AGC_STATUS_GENERR, s)
   | Some fs \<Rightarrow> map_option (Pair AGC_STATUS_SUCCESS) (load_files lib env e fs s))"

definition mod_rabbitmq_load :: "'w amqp_lib \<Rightarrow> mq_env \<Rightarrow> (string \<times> yaml_token list option) list option \<Rightarrow> 's api_func \<Rightarrow> addr \<Rightarrow> addr \<Rightarrow>
    'w amqp \<Rightarrow> 's agc_api list \<Rightarrow> evsys \<Rightarrow> (agc_status \<times> 'w agcmq \<times> 's agc_api list \<times> evsys) option" where
  "mod_rabbitmq_load lib env dir agcmq_load handler a m apis e = do {
     (status, s) \<leftarrow> agcmq_load_config lib env e dir \<lparr>producers = [], consumers = [], messages = (\<lambda>_. None), mnext = 1, mamqp = m\<rparr>;
     if status \<noteq> AGC_STATUS_SUCCESS then Some (AGC_STATUS_GENERR, s, apis, e)
     else do {
       let (_, apis) = agc_api_register apis (Some ''agcmq'') (Some ''agcmq API'') (Some ''syntax'') (Some agcmq_load);
       (status, e) \<leftarrow> agc_event_bind_removable e ''agcmq'' EVENT_ID_ALL handler a;
       Some (if status \<noteq> AGC_STATUS_SUCCESS then AGC_STATUS_GENERR else AGC_STATUS_SUCCESS, s, apis, e)
     }
   }"

definition mod_rabbitmq_shutdown :: "'w amqp_lib \<Rightarrow> ev_node option \<Rightarrow> 'w agcmq \<Rightarrow> evsys \<Rightarrow> (agc_status \<times> 'w agcmq \<times> evsys) option" where
  "mod_rabbitmq_shutdown lib mq_subscribe s e = do {
     (_, e) \<leftarrow> agc_event_unbind e mq_subscribe;
     (ms, m) \<leftarrow> destroy_producers lib (producers s) (messages s) (mamqp s);
     m \<leftarrow> destroy_consumers lib (consumers s) m;
     Some (AGC_STATUS_SUCCESS, s\<lparr>producers := [], consumers := [], messages := ms, mamqp := m\<rparr>, e)
   }"

end
