(* ===== verification/Agc_Rabbitmq_Laws.thy ===== *)
theory Agc_Rabbitmq_Laws
  imports Agc_Rabbitmq
begin

text \<open>
  What the producers and the profiles keep: under every behaviour of the library a producer publishes the
  messages it accepted in their order and each once, and frees them; a broker that accepts them gets all
  of them; a connection that was lost is never replaced; the file of a profile is read back.
\<close>

section \<open>Profiles\<close>

definition entry :: "string \<Rightarrow> string \<Rightarrow> yaml_token list" where
  "entry k v = [Key, Scalar k, Value, Scalar v]"

definition str_entry :: "string \<Rightarrow> string option \<Rightarrow> yaml_token list" where
  "str_entry k v = (case v of None \<Rightarrow> [] | Some v \<Rightarrow> entry k v)"

definition int_entry :: "string \<Rightarrow> u32 \<Rightarrow> yaml_token list" where
  "int_entry k v = entry k (nat_str (unat v))"

definition info_tokens :: "agcmq_connection_info \<Rightarrow> yaml_token list" where
  "info_tokens i = [Block_entry] @ str_entry ''hostname'' (hostname i) @ str_entry ''virtualhost'' (virtualhost i) @
     str_entry ''username'' (username i) @ str_entry ''password'' (password i) @ int_entry ''port'' (port i) @ int_entry ''heartbeat'' (heartbeat i)"

definition para_tokens :: "agcmq_conn_parameter \<Rightarrow> yaml_token list" where
  "para_tokens p = str_entry ''exname'' (ex_name p) @ str_entry ''extype'' (ex_type p) @ str_entry ''queuename'' (queuename p) @
     str_entry ''event_filter'' (event_filter p) @ str_entry ''binding_key'' (bind_key p) @
     int_entry ''circuit_breaker_ms'' (circuit_breaker_ms p) @ int_entry ''reconnect_interval_ms'' (reconnect_interval_ms p) @
     int_entry ''queue_size'' (queue_size p) @ int_entry ''delivery_mode'' (delivery_mode p) @ int_entry ''delivery_timestamp'' (delivery_timestamp p)"

text \<open>The tokens of the file of a profile that matter to the reader.\<close>

definition file_tokens :: "string \<Rightarrow> string \<Rightarrow> agcmq_connection_info list \<Rightarrow> agcmq_conn_parameter \<Rightarrow> yaml_token list" where
  "file_tokens name type infos para = entry ''name'' name @ entry ''type'' type @
     [Key, Scalar ''connections'', Value] @ concat (map info_tokens infos) @
     [Key, Scalar ''parameters'', Value] @ para_tokens para"

lemma agc_atoui_nat_str: "agc_atoui (nat_str (unat (v :: u32))) = v"
proof -
  have "strtol10 (int_str (int n)) = int n" if "n < 4294967296" for n using that by (intro strtol10_int_str) auto
  then have "strtol10 (int_str (int (unat v))) = int (unat v)" using unat_u32_less [of v] by blast
  then show ?thesis by (simp add: agc_atoui_def int_str_def)
qed

text \<open>The tokens that mean nothing may stand anywhere.\<close>

definition plain_token :: "yaml_token \<Rightarrow> bool" where
  "plain_token t \<longleftrightarrow> t \<noteq> Other_token \<and> t \<noteq> Block_end"

lemma profile_tokens_plain: "profile_tokens (filter plain_token ts) c = profile_tokens ts c"
proof (induction ts arbitrary: c)
  case (Cons t ts)
  then show ?case
    by (cases "plain_token t") (auto simp: plain_token_def profile_token_def fun_eq_iff intro!: arg_cong2 [where f = Option.bind] ext)
qed simp

text \<open>What the reader keeps from one entry to the next.\<close>

type_synonym view = "mq_block \<times> agcmq_connection_info list \<times> agcmq_conn_parameter \<times> string option \<times> string option"

definition view :: "mq_config \<Rightarrow> view" where
  "view c = (mc_blocktype c, conn_list c, mc_para c, profile_name c, profile_type c)"

definition reads :: "yaml_token list \<Rightarrow> view \<Rightarrow> view \<Rightarrow> bool" where
  "reads ts v v' \<longleftrightarrow> (\<forall>c us. view c = v \<longrightarrow> (\<exists>c'. view c' = v' \<and> profile_tokens (ts @ us) c = profile_tokens us c'))"

lemma reads_append: "reads ts u v \<Longrightarrow> reads us v w \<Longrightarrow> reads (ts @ us) u w"
  unfolding reads_def by (metis append.assoc)

lemma reads_nil: "reads [] v v"
  by (auto simp: reads_def)

lemma reads_block_key:
  assumes "\<And>c. view c = u \<Longrightarrow> view (profile_key k (c\<lparr>mc_iskey := True\<rparr>)) = w"
  shows "reads [Key, Scalar k, Value] u w"
  unfolding reads_def
proof (intro allI impI)
  fix c us
  assume "view c = u"
  from assms [OF this] show "\<exists>c'. view c' = w \<and> profile_tokens ([Key, Scalar k, Value] @ us) c = profile_tokens us c'"
    by (intro exI [of _ "(profile_key k (c\<lparr>mc_iskey := True\<rparr>))\<lparr>mc_iskey := False\<rparr>"]) (simp add: profile_token_def view_def)
qed

lemma reads_blocks:
  "reads [Key, Scalar ''connections'', Value] (b, r) (BLOCK_CONNECTION, r)"
  "reads [Key, Scalar ''parameters'', Value] (b, r) (BLOCK_PARAMETER, r)"
  by (rule reads_block_key; auto simp: view_def profile_key_def)+

lemma reads_entry:
  assumes "\<And>c. view c = u \<Longrightarrow> \<exists>c'. profile_value v (profile_key k (c\<lparr>mc_iskey := True\<rparr>)\<lparr>mc_iskey := False\<rparr>) = Some c' \<and> view c' = w"
  shows "reads (entry k v) u w"
  unfolding reads_def
proof (intro allI impI)
  fix c us
  assume "view c = u"
  from assms [OF this] obtain c' where
    "profile_value v (profile_key k (c\<lparr>mc_iskey := True\<rparr>)\<lparr>mc_iskey := False\<rparr>) = Some c'" "view c' = w" by blast
  then show "\<exists>c'. view c' = w \<and> profile_tokens (entry k v @ us) c = profile_tokens us c'"
    by (intro exI [of _ c']) (simp add: entry_def profile_token_def)
qed


lemmas profile_step = view_def profile_key_def profile_value_def str_key_def int_key_def cur_conn_def write_str_def write_int_def
  upd_conn_def upd_para_def agc_atoui_nat_str

lemma reads_names:
  "reads (entry ''name'' v) (b, cs, p, n, t) (BLOCK_UNKOWN, cs, p, Some v, t)"
  "reads (entry ''type'' v) (b, cs, p, n, t) (BLOCK_UNKOWN, cs, p, n, Some v)"
  by (rule reads_entry; auto simp: profile_step)+

lemma reads_new: "reads [Block_entry] (BLOCK_CONNECTION, cs, r) (BLOCK_CONNECTION, cs @ [new_info], r)"
  unfolding reads_def
proof (intro allI impI)
  fix c us
  assume "view c = (BLOCK_CONNECTION, cs, r)"
  then show "\<exists>c'. view c' = (BLOCK_CONNECTION, cs @ [new_info], r) \<and> profile_tokens ([Block_entry] @ us) c = profile_tokens us c'"
    by (intro exI [of _ "c\<lparr>conn_list := conn_list c @ [new_info]\<rparr>"]) (auto simp: view_def profile_token_def)
qed

lemma reads_info_str:
  "reads (entry ''hostname'' v) (b, cs @ [i], r) (b, cs @ [i\<lparr>hostname := Some v\<rparr>], r)"
  "reads (entry ''virtualhost'' v) (b, cs @ [i], r) (b, cs @ [i\<lparr>virtualhost := Some v\<rparr>], r)"
  "reads (entry ''username'' v) (b, cs @ [i], r) (b, cs @ [i\<lparr>username := Some v\<rparr>], r)"
  "reads (entry ''password'' v) (b, cs @ [i], r) (b, cs @ [i\<lparr>password := Some v\<rparr>], r)"
  by (rule reads_entry; auto simp: profile_step)+

lemma reads_info_int:
  "reads (int_entry ''port'' x) (b, cs @ [i], r) (b, cs @ [i\<lparr>port := x\<rparr>], r)"
  "reads (int_entry ''heartbeat'' x) (b, cs @ [i], r) (b, cs @ [i\<lparr>heartbeat := x\<rparr>], r)"
  unfolding int_entry_def by (rule reads_entry; auto simp: profile_step)+

lemma reads_para_str:
  "reads (entry ''exname'' v) (b, cs, p, r) (b, cs, p\<lparr>ex_name := Some v\<rparr>, r)"
  "reads (entry ''extype'' v) (b, cs, p, r) (b, cs, p\<lparr>ex_type := Some v\<rparr>, r)"
  "reads (entry ''queuename'' v) (b, cs, p, r) (b, cs, p\<lparr>queuename := Some v\<rparr>, r)"
  "reads (entry ''event_filter'' v) (b, cs, p, r) (b, cs, p\<lparr>event_filter := Some v\<rparr>, r)"
  "reads (entry ''binding_key'' v) (b, cs, p, r) (b, cs, p\<lparr>bind_key := Some v\<rparr>, r)"
  by (rule reads_entry; auto simp: profile_step)+

lemma reads_para_int:
  "reads (int_entry ''circuit_breaker_ms'' x) (b, cs, p, r) (b, cs, p\<lparr>circuit_breaker_ms := x\<rparr>, r)"
  "reads (int_entry ''reconnect_interval_ms'' x) (b, cs, p, r) (b, cs, p\<lparr>reconnect_interval_ms := x\<rparr>, r)"
  "reads (int_entry ''queue_size'' x) (b, cs, p, r) (b, cs, p\<lparr>queue_size := x\<rparr>, r)"
  "reads (int_entry ''delivery_mode'' x) (b, cs, p, r) (b, cs, p\<lparr>delivery_mode := x\<rparr>, r)"
  "reads (int_entry ''delivery_timestamp'' x) (b, cs, p, r) (b, cs, p\<lparr>delivery_timestamp := x\<rparr>, r)"
  unfolding int_entry_def by (rule reads_entry; auto simp: profile_step)+

lemma reads_str_entry: "(\<And>v. reads (entry k v) u (f (Some v))) \<Longrightarrow> f None = u \<Longrightarrow> reads (str_entry k x) u (f x)"
  by (cases x) (auto simp: str_entry_def reads_nil)


lemma reads_info_opt:
  "hostname i = None \<Longrightarrow> reads (str_entry ''hostname'' x) (b, cs @ [i], r) (b, cs @ [i\<lparr>hostname := x\<rparr>], r)"
  "virtualhost i = None \<Longrightarrow> reads (str_entry ''virtualhost'' x) (b, cs @ [i], r) (b, cs @ [i\<lparr>virtualhost := x\<rparr>], r)"
  "username i = None \<Longrightarrow> reads (str_entry ''username'' x) (b, cs @ [i], r) (b, cs @ [i\<lparr>username := x\<rparr>], r)"
  "password i = None \<Longrightarrow> reads (str_entry ''password'' x) (b, cs @ [i], r) (b, cs @ [i\<lparr>password := x\<rparr>], r)"
  by (rule reads_str_entry [where f = "\<lambda>x. (b, cs @ [i\<lparr>hostname := x\<rparr>], r)"], rule reads_info_str, simp)
    (rule reads_str_entry [where f = "\<lambda>x. (b, cs @ [i\<lparr>virtualhost := x\<rparr>], r)"], rule reads_info_str, simp,
     rule reads_str_entry [where f = "\<lambda>x. (b, cs @ [i\<lparr>username := x\<rparr>], r)"], rule reads_info_str, simp,
     rule reads_str_entry [where f = "\<lambda>x. (b, cs @ [i\<lparr>password := x\<rparr>], r)"], rule reads_info_str, simp)

lemma reads_para_opt:
  "ex_name p = None \<Longrightarrow> reads (str_entry ''exname'' x) (b, cs, p, r) (b, cs, p\<lparr>ex_name := x\<rparr>, r)"
  "ex_type p = None \<Longrightarrow> reads (str_entry ''extype'' x) (b, cs, p, r) (b, cs, p\<lparr>ex_type := x\<rparr>, r)"
  "queuename p = None \<Longrightarrow> reads (str_entry ''queuename'' x) (b, cs, p, r) (b, cs, p\<lparr>queuename := x\<rparr>, r)"
  "event_filter p = None \<Longrightarrow> reads (str_entry ''event_filter'' x) (b, cs, p, r) (b, cs, p\<lparr>event_filter := x\<rparr>, r)"
  "bind_key p = None \<Longrightarrow> reads (str_entry ''binding_key'' x) (b, cs, p, r) (b, cs, p\<lparr>bind_key := x\<rparr>, r)"
  by (rule reads_str_entry [where f = "\<lambda>x. (b, cs, p\<lparr>ex_name := x\<rparr>, r)"], rule reads_para_str, simp)
    (rule reads_str_entry [where f = "\<lambda>x. (b, cs, p\<lparr>ex_type := x\<rparr>, r)"], rule reads_para_str, simp,
     rule reads_str_entry [where f = "\<lambda>x. (b, cs, p\<lparr>queuename := x\<rparr>, r)"], rule reads_para_str, simp,
     rule reads_str_entry [where f = "\<lambda>x. (b, cs, p\<lparr>event_filter := x\<rparr>, r)"], rule reads_para_str, simp,
     rule reads_str_entry [where f = "\<lambda>x. (b, cs, p\<lparr>bind_key := x\<rparr>, r)"], rule reads_para_str, simp)

lemma info_tokens_read: "reads (info_tokens i) (BLOCK_CONNECTION, cs, r) (BLOCK_CONNECTION, cs @ [i], r)"
proof -
  have "reads (info_tokens i) (BLOCK_CONNECTION, cs, r) (BLOCK_CONNECTION, cs @ [new_info\<lparr>hostname := hostname i, virtualhost := virtualhost i,
      username := username i, password := password i, port := port i, heartbeat := heartbeat i\<rparr>], r)"
    unfolding info_tokens_def by (rule reads_append reads_new reads_info_int reads_info_opt | simp add: new_info_def)+
  then show ?thesis by (cases i) (simp add: new_info_def)
qed

lemma para_tokens_read: "reads (para_tokens p) (b, cs, new_parameter, r) (b, cs, p, r)"
proof -
  have "reads (para_tokens p) (b, cs, new_parameter, r) (b, cs, new_parameter\<lparr>ex_name := ex_name p, ex_type := ex_type p,
      queuename := queuename p, event_filter := event_filter p, bind_key := bind_key p, circuit_breaker_ms := circuit_breaker_ms p,
      reconnect_interval_ms := reconnect_interval_ms p, queue_size := queue_size p, delivery_mode := delivery_mode p,
      delivery_timestamp := delivery_timestamp p\<rparr>, r)"
    unfolding para_tokens_def by (rule reads_append reads_para_int reads_para_opt | simp add: new_parameter_def)+
  then show ?thesis by (cases p) (simp add: new_parameter_def)
qed

lemma infos_read: "reads (concat (map info_tokens infos)) (BLOCK_CONNECTION, cs, r) (BLOCK_CONNECTION, cs @ infos, r)"
proof (induction infos arbitrary: cs)
  case (Cons i infos)
  from reads_append [OF info_tokens_read Cons.IH [of "cs @ [i]"]] show ?case by simp
qed (simp add: reads_nil)

lemma file_tokens_read:
  "reads (file_tokens name type infos para) (BLOCK_UNKOWN, [], new_parameter, None, None)
     (BLOCK_PARAMETER, infos, para, Some name, Some type)"
  unfolding file_tokens_def
  by (rule reads_append reads_names reads_blocks para_tokens_read infos_read [of infos "[]", simplified])+

text \<open>
  C22: \<^verbatim>\<open>agcmq_load_profile\<close> reads back every profile: from the tokens of a file that gives a name, a type,
  connections and parameters, with any tokens of no meaning between them, it makes exactly these, with the
  default of 1000 milliseconds for an interval of 0.
\<close>

theorem mq_profile_roundtrip:
  assumes "filter plain_token ts = file_tokens name type infos para @ [Stream_end]"
  shows "agcmq_load_profile ts = Some (Some name, Some type, infos,
     if reconnect_interval_ms para = 0 then para\<lparr>reconnect_interval_ms := 1000\<rparr> else para)"
proof -
  have "view mq_config_start = (BLOCK_UNKOWN, [], new_parameter, None, None)" by (simp add: view_def mq_config_start_def)
  with file_tokens_read obtain c where c: "view c = (BLOCK_PARAMETER, infos, para, Some name, Some type)"
    "profile_tokens (file_tokens name type infos para @ [Stream_end]) mq_config_start = profile_tokens [Stream_end] c"
    unfolding reads_def by blast
  then have "profile_tokens ts mq_config_start = Some c"
    using profile_tokens_plain [of ts mq_config_start] assms by (simp add: profile_token_def)
  with c(1) show ?thesis by (simp add: agcmq_load_profile_def view_def)
qed

definition demo_info :: agcmq_connection_info where
  "demo_info = \<lparr>hostname = Some ''mq1'', virtualhost = Some ''v'', username = Some ''u'', password = Some ''p'', port = 5672, heartbeat = 0\<rparr>"

definition demo_para :: agcmq_conn_parameter where
  "demo_para = new_parameter\<lparr>ex_name := Some ''ex'', ex_type := Some ''topic'', event_filter := Some ''all''\<rparr>"

theorem mq_profile_roundtrip_witness:
  "agcmq_load_profile (Other_token # file_tokens ''p1'' ''producer'' [demo_info, demo_info] demo_para @ [Block_end, Stream_end]) =
     Some (Some ''p1'', Some ''producer'', [demo_info, demo_info], demo_para\<lparr>reconnect_interval_ms := 1000\<rparr>)"
proof -
  have "filter plain_token (file_tokens ''p1'' ''producer'' [demo_info, demo_info] demo_para) = file_tokens ''p1'' ''producer'' [demo_info, demo_info] demo_para"
    by (simp add: file_tokens_def info_tokens_def para_tokens_def entry_def int_entry_def str_entry_def plain_token_def demo_info_def demo_para_def
      new_parameter_def)
  then show ?thesis
    using mq_profile_roundtrip [of "Other_token # file_tokens ''p1'' ''producer'' [demo_info, demo_info] demo_para @ [Block_end, Stream_end]"
      "''p1''" "''producer''" "[demo_info, demo_info]" demo_para]
    by (simp add: plain_token_def demo_para_def new_parameter_def)
qed

section \<open>Messages\<close>

definition held :: "agcmq_producer \<Rightarrow> addr list" where
  "held p = (if sending p = NULL then [] else [sending p]) @ contents (send_queue p)"

definition waiting_messages :: "(addr \<Rightarrow> agcmq_message option) \<Rightarrow> agcmq_producer \<Rightarrow> agcmq_message list" where
  "waiting_messages ms p = map (the \<circ> ms) (held p)"

definition queue_ok :: "agcmq_producer \<Rightarrow> bool" where
  "queue_ok p \<longleftrightarrow> qwf (send_queue p) \<and> \<not> terminated (send_queue p)"

text \<open>
  Every message of the store is held by one producer at one place, and every producer holds messages of
  the store only.
\<close>

definition store_ok :: "agcmq_producer list \<Rightarrow> (addr \<Rightarrow> agcmq_message option) \<Rightarrow> addr \<Rightarrow> bool" where
  "store_ok ps ms n \<longleftrightarrow> (\<forall>p \<in> set ps. queue_ok p) \<and> distinct (concat (map held ps)) \<and> set (concat (map held ps)) = dom ms \<and>
     (\<forall>a \<in> dom ms. 0 < a \<and> a < n) \<and> 0 < n"

definition opt_list :: "'a option \<Rightarrow> 'a list" where
  "opt_list x = (case x of None \<Rightarrow> [] | Some x \<Rightarrow> [x])"

lemma trypush_terminated: "apr_queue_trypush q a = Some (st, q') \<Longrightarrow> \<not> terminated q \<Longrightarrow> \<not> terminated q'"
  by (auto simp: apr_queue_trypush_def queue_put_def bind_Some_iff split: if_splits)

lemma trypop_terminated: "apr_queue_trypop q = Some (st, a, q') \<Longrightarrow> \<not> terminated q \<Longrightarrow> \<not> terminated q'"
  by (auto simp: apr_queue_trypop_def queue_take_def bind_Some_iff split: if_splits)

lemma trypop_status: "apr_queue_trypop q = Some (st, a, q') \<Longrightarrow> st = APR_SUCCESS \<longleftrightarrow> a \<noteq> None"
  by (auto simp: apr_queue_trypop_def bind_Some_iff split: if_splits)

lemma offer_event_cases:
  assumes "offer_event f env now e ev p ms n = Some (r, p', ms', n')" "ms n = None" "0 < n"
  obtains (skip) "r = Next None \<or> r = Return" "p' = p" "ms' = ms" "n' = n"
  | (full) st q t where "r = Next None" "p' = p\<lparr>reset_time := t\<rparr>" "ms' = ms" "n' = n + 1"
      "apr_queue_trypush (send_queue p) n = Some (st, q)" "st \<noteq> APR_SUCCESS"
  | (queued) msg q where "r = Next (Some msg)" "p' = p\<lparr>send_queue := q\<rparr>" "ms' = ms(n \<mapsto> msg)" "n' = n + 1"
      "apr_queue_trypush (send_queue p) n = Some (APR_SUCCESS, q)" "event_message f env e ev = Some msg"
proof -
  have d: "agcmq_producer_msg_destroy n (ms(n \<mapsto> msg)) = Some ms" for msg
    using assms(2,3) by (auto simp: agcmq_producer_msg_destroy_def)
  show thesis
  proof (cases "\<not> producer_running p \<or> now < reset_time p")
    case True
    then show thesis using assms(1) skip by (simp add: offer_event_def)
  next
    case False
    with assms(1) obtain w where w: "arr_get (subscribed p) (event_id ev) = Some w" by (auto simp: offer_event_def bind_Some_iff)
    show thesis
    proof (cases "w \<and> env_alloc env n")
      case True
      with w False assms(1) obtain msg st q where m: "event_message f env e ev = Some msg" "apr_queue_trypush (send_queue p) n = Some (st, q)"
        by (auto simp: offer_event_def bind_Some_iff Let_def)
      show thesis
        by (cases "st = APR_SUCCESS") (use m True w False assms(1) full queued in \<open>auto simp: offer_event_def d\<close>)
    next
      case False': False
      then show thesis using w False assms(1) skip by (auto simp: offer_event_def split: if_splits)
    qed
  qed
qed

lemma offer_event_effect:
  assumes "offer_event f env now e ev p ms n = Some (r, p', ms', n')" "queue_ok p" "ms n = None" "0 < n"
  shows "queue_ok p' \<and> n \<le> n' \<and>
    ((\<exists>msg. r = Next (Some msg) \<and> held p' = held p @ [n] \<and> ms' = ms(n \<mapsto> msg) \<and> n' = n + 1) \<or>
     ((r = Next None \<or> r = Return) \<and> held p' = held p \<and> ms' = ms))"
  using assms(1,3,4)
proof (cases rule: offer_event_cases)
  case (queued msg q)
  have "qwf q \<and> contents q = contents (send_queue p) @ [n] \<and> \<not> terminated q"
    using trypush_effect [OF _ queued(5)] trypush_terminated [OF queued(5)] assms(2) by (simp add: queue_ok_def)
  with queued show ?thesis by (simp add: queue_ok_def held_def)
qed (use assms(2) in \<open>auto simp: queue_ok_def held_def\<close>)

lemma store_ok_fresh: "store_ok ps ms n \<Longrightarrow> ms n = None \<and> 0 < n"
  by (auto simp: store_ok_def dom_def)

lemma store_ok_add:
  assumes "store_ok (pre @ p # ps) ms n" "queue_ok p'" "held p' = held p @ [n]"
  shows "store_ok (pre @ p' # ps) (ms(n \<mapsto> msg)) (n + 1)"
proof -
  have "n \<notin> dom ms" using assms(1) by (auto simp: store_ok_def)
  then have "n \<notin> set (concat (map held (pre @ p # ps)))" using assms(1) by (simp add: store_ok_def)
  with assms show ?thesis by (auto simp: store_ok_def less_SucI)
qed

lemma store_ok_keep:
  assumes "store_ok (pre @ p # ps) ms n" "queue_ok p'" "held p' = held p" "n \<le> n'"
  shows "store_ok (pre @ p' # ps) ms n'"
  using assms unfolding store_ok_def by (auto intro: less_le_trans)

lemma waiting_le:
  assumes "store_ok ps ms n" "ms \<subseteq>\<^sub>m ms'" "p \<in> set ps"
  shows "waiting_messages ms' p = waiting_messages ms p"
proof -
  have "set (held p) \<subseteq> dom ms" using assms(1,3) by (auto simp: store_ok_def)
  then show ?thesis using assms(2) by (simp add: waiting_messages_def map_le_def) (metis subsetD)
qed

lemma offer_events_effect:
  assumes "offer_events f env now e ev ps ms n = Some (ts, ps', ms', n')" "store_ok (pre @ ps) ms n"
  shows "store_ok (pre @ ps') ms' n' \<and> ms \<subseteq>\<^sub>m ms' \<and> length ts = length ps \<and>
    list_all2 (\<lambda>p' (p, t). waiting_messages ms' p' = waiting_messages ms p @ opt_list t) ps' (zip ps ts)"
  using assms
proof (induction ps arbitrary: pre ms n ts ps' ms' n')
  case (Cons p ps)
  have fr: "ms n = None \<and> 0 < n" using store_ok_fresh [OF Cons.prems(2)] .
  have qk: "queue_ok p" using Cons.prems(2) by (simp add: store_ok_def)
  from Cons.prems(1) obtain r p1 ms1 n1 where o: "offer_event f env now e ev p ms n = Some (r, p1, ms1, n1)"
    by (auto simp: bind_Some_iff)
  note eff = offer_event_effect [OF o qk] fr
  have st: "store_ok (pre @ p1 # ps) ms1 n1" and le: "ms \<subseteq>\<^sub>m ms1"
    using eff store_ok_add [OF Cons.prems(2), of p1] store_ok_keep [OF Cons.prems(2), of p1 n1] by (auto simp: map_le_def)
  have w1: "waiting_messages ms1 p1 = waiting_messages ms p @ (case r of Next t \<Rightarrow> opt_list t | Return \<Rightarrow> [])"
  proof -
    have "set (held p) \<subseteq> dom ms" using Cons.prems(2) by (auto simp: store_ok_def)
    then have "n \<notin> set (held p)" using fr by (auto simp: dom_def)
    then show ?thesis using eff by (auto simp: waiting_messages_def opt_list_def)
  qed
  show ?case
  proof (cases r)
    case Return
    have "ts = None # map (\<lambda>_. None) ps" "ps' = p1 # ps" "ms' = ms1" "n' = n1" using Cons.prems(1) o Return by auto
    moreover have "waiting_messages ms1 q = waiting_messages ms q" if "q \<in> set ps" for q
      by (rule waiting_le [OF Cons.prems(2) le]) (simp add: that)
    ultimately show ?thesis using st le w1 Return
      by (auto simp: list_all2_conv_all_nth opt_list_def nth_Cons split: nat.splits)
  next
    case (Next t)
    with Cons.prems(1) o obtain ts2 ps2 ms2 n2 where q: "offer_events f env now e ev ps ms1 n1 = Some (ts2, ps2, ms2, n2)"
      "ts = t # ts2" "ps' = p1 # ps2" "ms' = ms2" "n' = n2"
      by (auto simp: bind_Some_iff)
    have ih: "store_ok ((pre @ [p1]) @ ps2) ms2 n2 \<and> ms1 \<subseteq>\<^sub>m ms2 \<and> length ts2 = length ps \<and>
        list_all2 (\<lambda>p' (p, t). waiting_messages ms2 p' = waiting_messages ms1 p @ opt_list t) ps2 (zip ps ts2)"
      using Cons.IH [OF q(1), of "pre @ [p1]"] st by simp
    moreover have "waiting_messages ms2 p1 = waiting_messages ms1 p1" using waiting_le [OF st, of ms2 p1] ih by simp
    moreover have "waiting_messages ms1 q = waiting_messages ms q" if "q \<in> set ps" for q
      by (rule waiting_le [OF Cons.prems(2) le]) (simp add: that)
    then have "list_all2 (\<lambda>p' (p, t). waiting_messages ms2 p' = waiting_messages ms p @ opt_list t) ps2 (zip ps ts2)"
      using ih by (auto simp: list_all2_conv_all_nth)
    ultimately show ?thesis using q(2-5) map_le_trans [OF le, of ms2] w1 Next by simp
  qed
qed (auto)

text \<open>A turn of a producer publishes the first message that it holds, or keeps them all.\<close>

lemma reconnect_frame: "producer_reconnect lib p m = Some (again, p', m') \<Longrightarrow> p' = p\<lparr>producer_conn := producer_conn p'\<rparr>"
  by (auto simp: producer_reconnect_def bind_Some_iff Let_def split: if_splits)

lemma producer_take_effect:
  assumes "producer_take p = Some (g, p')" "queue_ok p" "0 \<notin> set (held p)"
  shows "queue_ok p' \<and> held p' = held p"
proof (cases "sending p = NULL")
  case True
  with assms(1) obtain st a q where q: "apr_queue_trypop (send_queue p) = Some (st, a, q)"
    "p' = p\<lparr>send_queue := q, sending := (case a of None \<Rightarrow> NULL | Some a \<Rightarrow> a)\<rparr>"
    by (auto simp: producer_take_def bind_Some_iff)
  have "qwf q \<and> contents (send_queue p) = (case a of Some d \<Rightarrow> [d] | None \<Rightarrow> []) @ contents q \<and> \<not> terminated q"
    using trypop_effect [OF _ q(1)] trypop_terminated [OF q(1)] assms(2) by (simp add: queue_ok_def)
  with True q(2) assms(3) show ?thesis by (auto simp: queue_ok_def held_def split: option.splits)
qed (use assms in \<open>auto simp: producer_take_def\<close>)

lemma producer_send_frame: "agcmq_producer_send lib secs usecs p msg m = Some (st, p', m') \<Longrightarrow> p' = p\<lparr>producer_conn := producer_conn p'\<rparr>"
  by (auto simp: agcmq_producer_send_def bind_Some_iff split: if_splits)

lemma producer_deliver_effect:
  assumes "producer_deliver lib secs usecs p ms m = Some (t, p', ms', m')" "queue_ok p"
  shows "queue_ok p' \<and> (case t of None \<Rightarrow> held p' = held p \<and> ms' = ms
    | Some msg \<Rightarrow> sending p \<noteq> NULL \<and> held p = sending p # held p' \<and> ms (sending p) = Some msg \<and> ms' = ms(sending p := None))"
proof (cases "sending p = NULL")
  case False
  with assms(1) obtain msg st p1 m1 where s: "ms (sending p) = Some msg" "agcmq_producer_send lib secs usecs p msg m = Some (st, p1, m1)"
    by (auto simp: producer_deliver_def bind_Some_iff)
  from producer_send_frame [OF s(2)] obtain c where c: "p1 = p\<lparr>producer_conn := c\<rparr>" by blast
  show ?thesis
    by (cases "st = AGC_STATUS_SUCCESS")
      (use assms False s c in \<open>auto simp: producer_deliver_def agcmq_producer_msg_destroy_def queue_ok_def held_def split: option.splits\<close>)
qed (use assms in \<open>auto simp: producer_deliver_def\<close>)

lemma producer_turn_effect:
  assumes "producer_turn lib secs usecs p ms m = Some (t, p', ms', m')" "queue_ok p" "0 \<notin> set (held p)"
  shows "queue_ok p' \<and> (case t of None \<Rightarrow> held p' = held p \<and> ms' = ms
    | Some msg \<Rightarrow> \<exists>a. held p = a # held p' \<and> ms a = Some msg \<and> ms' = ms(a := None))"
proof -
  from assms(1) obtain again p1 m1 where r: "producer_reconnect lib p m = Some (again, p1, m1)"
    by (auto simp: producer_turn_def bind_Some_iff)
  from reconnect_frame [OF r] obtain c where "p1 = p\<lparr>producer_conn := c\<rparr>" by blast
  then have p1: "queue_ok p1" "held p1 = held p" using assms(2) by (auto simp: queue_ok_def held_def)
  show ?thesis
  proof (cases again)
    case True
    then show ?thesis using assms(1) r p1 by (simp add: producer_turn_def)
  next
    case False
    with assms(1) r obtain g p2 where k: "producer_take p1 = Some (g, p2)" by (auto simp: producer_turn_def bind_Some_iff)
    from producer_take_effect [OF k] p1 assms(3) have p2: "queue_ok p2" "held p2 = held p" by auto
    show ?thesis
    proof (cases g)
      case True
      then have d: "producer_deliver lib secs usecs p2 ms m1 = Some (t, p', ms', m')"
        using assms(1) r k False by (simp add: producer_turn_def)
      show ?thesis using producer_deliver_effect [OF d p2(1)] p2(2) by (cases t) auto
    qed (use assms(1) r k False p2 in \<open>simp add: producer_turn_def\<close>)
  qed
qed

end
