(* ===== verification/Agc_Rabbitmq_Runs.thy ===== *)
theory Agc_Rabbitmq_Runs
  imports Agc_Rabbitmq_Laws
begin

text \<open>
  The module under every interleaving of events, of turns of the threads of producers and consumers and of
  further loading of profiles, and every behaviour of the library.
\<close>

section \<open>Runs\<close>

text \<open>\<open>ins i\<close> are the messages that producer \<open>i\<close> took into its queue so far, \<open>outs i\<close> those it published.\<close>

inductive mq_run :: "'d fp \<Rightarrow> 'w amqp_lib \<Rightarrow> mq_env \<Rightarrow> alloc_env \<Rightarrow> (evsys \<times> 'x) agc_api list \<Rightarrow> 'w agcmq \<Rightarrow>
    (nat \<Rightarrow> agcmq_message list) \<Rightarrow> (nat \<Rightarrow> agcmq_message list) \<Rightarrow> 'w agcmq \<Rightarrow> bool" for f lib env aenv apis s0 where
  start: "mq_run f lib env aenv apis s0 (\<lambda>_. []) (\<lambda>_. []) s0"
| event: "mq_run f lib env aenv apis s0 ins outs s \<Longrightarrow> agcmq_handle_event f env now e ev s = Some (ts, s') \<Longrightarrow>
    mq_run f lib env aenv apis s0 (\<lambda>i. ins i @ (if i < length ts then opt_list (ts ! i) else [])) outs s'"
| producer: "mq_run f lib env aenv apis s0 ins outs s \<Longrightarrow> agcmq_producer_thread lib secs usecs i s = Some (t, s') \<Longrightarrow>
    mq_run f lib env aenv apis s0 ins (outs(i := outs i @ opt_list t)) s'"
| consumer: "mq_run f lib env aenv apis s0 ins outs s \<Longrightarrow> agcmq_consumer_thread f lib env aenv apis a as rnd i s st = Some (b, s', st') \<Longrightarrow>
    mq_run f lib env aenv apis s0 ins outs s'"
| load: "mq_run f lib env aenv apis s0 ins outs s \<Longrightarrow> agcmq_load_config lib env e dir s = Some (status, s') \<Longrightarrow>
    mq_run f lib env aenv apis s0 ins outs s'"

section \<open>Every message is published once, in order\<close>

definition mq_ok :: "'w agcmq \<Rightarrow> bool" where
  "mq_ok s \<longleftrightarrow> store_ok (producers s) (messages s) (mnext s)"

definition waiting_at :: "'w agcmq \<Rightarrow> nat \<Rightarrow> agcmq_message list" where
  "waiting_at s i = (if i < length (producers s) then waiting_messages (messages s) (producers s ! i) else [])"

lemma handle_event_effect:
  assumes "agcmq_handle_event f env now e ev s = Some (ts, s')" "mq_ok s"
  shows "mq_ok s' \<and> length ts = length (producers s) \<and> length (producers s') = length (producers s) \<and>
    (\<forall>i < length ts. waiting_messages (messages s') (producers s' ! i) = waiting_messages (messages s) (producers s ! i) @ opt_list (ts ! i))"
proof (cases ev)
  case None
  then show ?thesis using assms by (auto simp: agcmq_handle_event_def opt_list_def)
next
  case (Some ev)
  with assms(1) obtain ps ms n where o: "offer_events f env now e ev (producers s) (messages s) (mnext s) = Some (ts, ps, ms, n)"
    "s' = s\<lparr>producers := ps, messages := ms, mnext := n\<rparr>" by (auto simp: agcmq_handle_event_def bind_Some_iff)
  from offer_events_effect [OF o(1), of "[]"] assms(2) o(2) show ?thesis
    by (auto simp: mq_ok_def list_all2_conv_all_nth)
qed

lemma distinct_concat_disjoint:
  "distinct (concat (map h ps)) \<Longrightarrow> i < length ps \<Longrightarrow> j < length ps \<Longrightarrow> i \<noteq> j \<Longrightarrow> set (h (ps ! i)) \<inter> set (h (ps ! j)) = {}"
proof (induction ps arbitrary: i j)
  case (Cons p ps)
  show ?case
  proof (cases i)
    case 0
    then obtain k where "j = Suc k" "k < length ps" using Cons.prems by (cases j) auto
    with Cons.prems(1) 0 show ?thesis by (auto dest: nth_mem)
  next
    case (Suc k)
    with Cons.prems have k: "k < length ps" by simp
    show ?thesis
    proof (cases j)
      case 0
      with Cons.prems(1) Suc k show ?thesis by (auto dest: nth_mem)
    next
      case (Suc l)
      with \<open>i = Suc k\<close> Cons show ?thesis by auto
    qed
  qed
qed simp

lemma store_ok_nth:
  assumes "store_ok ps ms n" "i < length ps"
  shows "queue_ok (ps ! i)" "0 \<notin> set (held (ps ! i))" "set (held (ps ! i)) \<subseteq> dom ms"
    "j < length ps \<Longrightarrow> j \<noteq> i \<Longrightarrow> set (held (ps ! i)) \<inter> set (held (ps ! j)) = {}"
proof -
  have m: "ps ! i \<in> set ps" using assms(2) by simp
  then show q: "queue_ok (ps ! i)" "set (held (ps ! i)) \<subseteq> dom ms" using assms(1) by (auto simp: store_ok_def)
  then show "0 \<notin> set (held (ps ! i))" using assms(1) unfolding store_ok_def by (metis less_numeral_extra(3) subsetD)
  show "j < length ps \<Longrightarrow> j \<noteq> i \<Longrightarrow> set (held (ps ! i)) \<inter> set (held (ps ! j)) = {}"
    using distinct_concat_disjoint [of held ps i j] assms by (simp add: store_ok_def)
qed

lemma store_ok_update:
  assumes "store_ok ps ms n" "i < length ps" "queue_ok p"
  shows "held p = held (ps ! i) \<Longrightarrow> store_ok (ps[i := p]) ms n"
    and "held (ps ! i) = a # held p \<Longrightarrow> store_ok (ps[i := p]) (ms(a := None)) n"
proof -
  have st: "store_ok (take i ps @ ps ! i # drop (Suc i) ps) ms n" using assms(1,2) by (simp add: id_take_nth_drop [symmetric])
  have u: "ps[i := p] = take i ps @ p # drop (Suc i) ps" using assms(2) by (simp add: upd_conv_take_nth_drop)
  show "store_ok (ps[i := p]) ms n" if "held p = held (ps ! i)"
    unfolding u using store_ok_keep [OF st assms(3) that] by simp
  show "store_ok (ps[i := p]) (ms(a := None)) n" if "held (ps ! i) = a # held p"
    unfolding u using st assms(3) that unfolding store_ok_def by auto
qed

lemma producer_thread_effect:
  assumes "agcmq_producer_thread lib secs usecs i s = Some (t, s')" "mq_ok s"
  shows "mq_ok s' \<and> length (producers s') = length (producers s) \<and> (length (producers s) \<le> i \<longrightarrow> t = None) \<and>
    (\<forall>j < length (producers s). waiting_messages (messages s) (producers s ! j) =
       (if j = i then opt_list t else []) @ waiting_messages (messages s') (producers s' ! j))"
proof (cases "length (producers s) \<le> i \<or> \<not> producer_running (producers s ! i)")
  case True
  then show ?thesis using assms by (auto simp: agcmq_producer_thread_def opt_list_def)
next
  case False
  let ?ps = "producers s" and ?ms = "messages s"
  from False have i: "i < length ?ps" by simp
  from False assms(1) obtain p ms m where t: "producer_turn lib secs usecs (?ps ! i) ?ms (mamqp s) = Some (t, p, ms, m)"
    "s' = s\<lparr>producers := ?ps[i := p], messages := ms, mamqp := m\<rparr>" by (auto simp: agcmq_producer_thread_def bind_Some_iff)
  note st = assms(2) [unfolded mq_ok_def]
  note nth = store_ok_nth [OF st]
  have eff: "queue_ok p" "case t of None \<Rightarrow> held p = held (?ps ! i) \<and> ms = ?ms
    | Some msg \<Rightarrow> \<exists>a. held (?ps ! i) = a # held p \<and> ?ms a = Some msg \<and> ms = ?ms(a := None)"
    using producer_turn_effect [OF t(1)] nth(1,2) [OF i] by auto
  show ?thesis
  proof (cases t)
    case None
    with eff store_ok_update(1) [OF st i eff(1)] t(2) i show ?thesis
      by (auto simp: mq_ok_def opt_list_def waiting_messages_def nth_list_update)
  next
    case (Some msg)
    with eff obtain a where a: "held (?ps ! i) = a # held p" "?ms a = Some msg" "ms = ?ms(a := None)" by auto
    have same: "waiting_messages ms q = waiting_messages ?ms q" if "a \<notin> set (held q)" for q
      using that a(3) by (auto simp: waiting_messages_def)
    have other: "waiting_messages ms (?ps ! j) = waiting_messages ?ms (?ps ! j)" if "j < length ?ps" "j \<noteq> i" for j
      using nth(4) [OF i that] a(1) by (intro same) auto
    have "a \<notin> set (held p)"
    proof -
      have "distinct (held (?ps ! i))" using st i by (simp add: store_ok_def distinct_concat_iff)
      then show ?thesis using a(1) by simp
    qed
    then have "waiting_messages ?ms (?ps ! i) = msg # waiting_messages ms p"
      using same [of p] a by (simp add: waiting_messages_def)
    with other store_ok_update(2) [OF st i eff(1) a(1)] Some t(2) a(3) i show ?thesis
      by (auto simp: mq_ok_def opt_list_def nth_list_update)
  qed
qed

lemma consumer_thread_frame:
  "agcmq_consumer_thread f lib env aenv apis a as rnd i s st = Some (b, s', st') \<Longrightarrow>
     producers s' = producers s \<and> messages s' = messages s \<and> mnext s' = mnext s"
  by (auto simp: agcmq_consumer_thread_def bind_Some_iff Let_def split: if_splits option.splits)

text \<open>New producers come behind those there are, with empty queues.\<close>

definition grows :: "'w agcmq \<Rightarrow> 'w agcmq \<Rightarrow> bool" where
  "grows s s' \<longleftrightarrow> (\<exists>new. producers s' = producers s @ new \<and> (\<forall>p \<in> set new. queue_ok p \<and> held p = [])) \<and>
     messages s' = messages s \<and> mnext s' = mnext s"

lemma grows_refl: "producers s' = producers s \<Longrightarrow> messages s' = messages s \<Longrightarrow> mnext s' = mnext s \<Longrightarrow> grows s s'"
  by (simp add: grows_def)

lemma grows_trans: "grows s t \<Longrightarrow> grows t u \<Longrightarrow> grows s u"
  unfolding grows_def by fastforce

lemma new_queue: "\<not> terminated (apr_queue_create n)"
  by (simp add: apr_queue_create_def)

lemma producer_create_grows: "agcmq_producer_create lib env e name infos para s = Some (st, s') \<Longrightarrow> grows s s'"
  by (auto simp: agcmq_producer_create_def bind_Some_iff grows_def queue_ok_def held_def queue_create_wf new_queue
      split: if_splits option.splits)

lemma consumer_create_grows: "agcmq_consumer_create env name infos para s = Some (st, s') \<Longrightarrow> grows s s'"
  by (auto simp: agcmq_consumer_create_def grows_def split: if_splits option.splits)

lemma load_file_grows: "load_file lib env e fname ts s = Some s' \<Longrightarrow> grows s s'"
  by (auto simp: load_file_def bind_Some_iff split: if_splits intro: grows_refl producer_create_grows consumer_create_grows)

lemma load_files_grows: "load_files lib env e fs s = Some s' \<Longrightarrow> grows s s'"
  by (induction lib env e fs s rule: load_files.induct) (auto simp: bind_Some_iff intro: grows_refl grows_trans load_file_grows)

lemma load_config_grows: "agcmq_load_config lib env e dir s = Some (st, s') \<Longrightarrow> grows s s'"
  by (auto simp: agcmq_load_config_def split: option.splits intro: grows_refl load_files_grows)

lemma grows_waiting:
  assumes "grows s s'" "mq_ok s"
  shows "mq_ok s' \<and> waiting_at s' i = waiting_at s i"
proof -
  from assms(1) obtain new where n: "producers s' = producers s @ new" "\<forall>p \<in> set new. queue_ok p \<and> held p = []"
    "messages s' = messages s" "mnext s' = mnext s" by (auto simp: grows_def)
  have e: "concat (map held new) = []" using n(2) by simp
  have "mq_ok s'" using assms(2) n(1,3,4) n(2) unfolding mq_ok_def store_ok_def by (simp add: e) auto
  moreover have "waiting_at s' i = waiting_at s i"
    using n by (auto simp: waiting_at_def waiting_messages_def nth_append)
  ultimately show ?thesis ..
qed

lemma mq_run_accounts:
  assumes "mq_run f lib env aenv apis s0 ins outs s" "mq_ok s0"
  shows "mq_ok s \<and> (\<forall>i. waiting_at s0 i @ ins i = outs i @ waiting_at s i)"
  using assms
proof (induction rule: mq_run.induct)
  case (event ins outs s now e ev ts s')
  note eff = handle_event_effect [OF event.hyps(2) conjunct1 [OF event.IH [OF event.prems]]]
  have "waiting_at s' i = waiting_at s i @ (if i < length ts then opt_list (ts ! i) else [])" for i
    using eff by (auto simp: waiting_at_def)
  then show ?case using eff event.IH [OF event.prems] by (metis append.assoc)
next
  case (producer ins outs s secs usecs i t s')
  note eff = producer_thread_effect [OF producer.hyps(2) conjunct1 [OF producer.IH [OF producer.prems]]]
  have "waiting_at s j = (if j = i then opt_list t else []) @ waiting_at s' j" for j
    using eff by (auto simp: waiting_at_def opt_list_def)
  then show ?case using eff producer.IH [OF producer.prems] by simp
next
  case (consumer ins outs s a as rnd i st b s' st')
  then show ?case using consumer_thread_frame [OF consumer.hyps(2)] by (auto simp: mq_ok_def waiting_at_def)
next
  case (load ins outs s e dir status s')
  then show ?case using grows_waiting [OF load_config_grows [OF load.hyps(2)]] by auto
qed simp

section \<open>An example\<close>

text \<open>A library for which everything succeeds, but for publishing, which answers \<open>k\<close>.\<close>

definition demo_amqp_lib :: "int \<Rightarrow> unit amqp_lib" where
  "demo_amqp_lib k = \<lparr>amqp_tcp_socket_new = (\<lambda>_ w. (True, w)), amqp_socket_open = (\<lambda>_ _ _ w. (0, w)),
     amqp_login = (\<lambda>_ _ _ _ w. (AMQP_RESPONSE_NORMAL, w)), amqp_channel_open = (\<lambda>_ w. w),
     amqp_channel_close = (\<lambda>_ w. (AMQP_RESPONSE_NORMAL, w)), amqp_connection_close = (\<lambda>_ w. (AMQP_RESPONSE_NORMAL, w)),
     amqp_destroy_connection = (\<lambda>_ w. (0, w)), amqp_exchange_declare = (\<lambda>_ _ _ w. w), amqp_get_rpc_reply = (\<lambda>_ w. (AMQP_RESPONSE_NORMAL, w)),
     amqp_queue_declare = (\<lambda>_ q w. (Some q, w)), amqp_queue_bind = (\<lambda>_ _ _ _ w. w), amqp_basic_consume = (\<lambda>_ _ w. w),
     amqp_consume_message = (\<lambda>_ w. (AMQP_RESPONSE_NONE, \<lparr>env_content_type = None, env_body = [], env_body_len = 0\<rparr>, w)),
     amqp_simple_wait_frame = (\<lambda>_ w. w), amqp_basic_publish = (\<lambda>_ _ _ _ _ w. (k, w))\<rparr>"

definition demo_mq_env :: mq_env where
  "demo_mq_env = \<lparr>env_hostname = ''h'', env_thread = (\<lambda>_. True), env_alloc = (\<lambda>_. True), env_dup = (\<lambda>_. True)\<rparr>"

definition demo_producer :: agcmq_producer where
  "demo_producer = \<lparr>producer_name = ''p1'', producer_para = demo_para, producer_infos = [demo_info],
     producer_conn = \<lparr>conn_active = True, conn_state = Some 0\<rparr>, producer_running = True, reset_time = 0,
     send_queue = apr_queue_create 2, subscribed = [False, False, False, True], sending = 0\<rparr>"

definition demo_mq :: "unit agcmq" where
  "demo_mq = \<lparr>producers = [demo_producer], consumers = [], messages = (\<lambda>_. None), mnext = 1, mamqp = \<lparr>aworld = (), anext = 1, adead = {}\<rparr>\<rparr>"

definition demo_mq_events :: evsys where
  "demo_mq_events = \<lparr>running = True, max_dispatcher = 1, thread_count = 0, queue_running = [], event_source_id = 0,
     event_templates = replicate 4 None, event_nodes = [], dispatch_queues = [], fast_queues = [], events = (\<lambda>_. None),
     fast_nodes = (\<lambda>_. None), hstore = demo_headers, calls = []\<rparr>"

lemma demo_message:
  obtains msg where "event_message demo_fp demo_mq_env demo_mq_events (agc_event_create 3 1) = Some msg" "pjson msg \<noteq> None"
proof -
  let ?ev = "agc_event_create 3 1"
  have "event_ok demo_headers ?ev []" by (simp add: event_ok_def agc_event_create_def)
  from serialize_fields [OF this, of "[]" "event_templates demo_mq_events" None demo_fp]
  have o: "agc_event_serialize_json_obj demo_fp (event_templates demo_mq_events) demo_headers ?ev = Some (object_of demo_fp [(''_id'', [digit 3])])"
    by (simp add: kvs_def demo_mq_events_def agc_event_create_def arr_get_def id_fields_def extra_fields_def body_fields_def int_str_def nat_str.simps)
  have "case cJSON_PrintUnformatted demo_fp (object_of demo_fp [(''_id'', [digit 3])]) of Val s \<Rightarrow> True | _ \<Rightarrow> False" by code_simp
  with o obtain t where "agc_event_serialize_json demo_fp (event_templates demo_mq_events) demo_headers ?ev = Some (AGC_STATUS_SUCCESS, Some t)"
    by (auto simp: agc_event_serialize_json_def split: cres.splits)
  moreover have "header_search demo_headers 0 EVENT_HEADER_ROUTING = Some 0" by (subst header_search.simps) simp
  ultimately show thesis
    using that by (simp add: event_message_def routing_key_of_def agc_event_get_header_def agc_event_get_header_ptr_def agc_event_create_def
      make_routingkey_def agc_event_get_name_def arr_get_def demo_mq_events_def fits_key_def demo_mq_env_def MAX_MQ_ROUTING_KEY_LENGTH_def)
qed

lemma demo_handled:
  obtains msg q s where "agcmq_handle_event demo_fp demo_mq_env 0 demo_mq_events (Some (agc_event_create 3 1)) demo_mq = Some ([Some msg], s)"
    "pjson msg \<noteq> None" "producers s = [demo_producer\<lparr>send_queue := q\<rparr>]" "mamqp s = mamqp demo_mq"
proof -
  from demo_message obtain msg where m: "event_message demo_fp demo_mq_env demo_mq_events (agc_event_create 3 1) = Some msg"
    "pjson msg \<noteq> None" .
  have id: "event_id (agc_event_create 3 1) = 3" by (simp add: agc_event_create_def)
  obtain q where q: "apr_queue_trypush (apr_queue_create 2) 1 = Some (APR_SUCCESS, q)"
    by (simp add: apr_queue_trypush_def apr_queue_create_def apr_queue_full_def queue_put_def)
  have "agcmq_handle_event demo_fp demo_mq_env 0 demo_mq_events (Some (agc_event_create 3 1)) demo_mq =
      Some ([Some msg], demo_mq\<lparr>producers := [demo_producer\<lparr>send_queue := q\<rparr>], messages := [1 \<mapsto> msg], mnext := 2\<rparr>)"
    using m(1) id q by (simp add: agcmq_handle_event_def demo_mq_def offer_event_def demo_producer_def arr_get_def Let_def demo_mq_env_def)
  from that [OF this m(2)] show thesis by simp
qed

lemma demo_mq_ok: "mq_ok demo_mq"
  by (simp add: mq_ok_def store_ok_def demo_mq_def demo_producer_def queue_ok_def held_def queue_create_wf new_queue)

text \<open>
  C19: Whatever the library answers, and however events, turns of the threads and the loading of profiles
  follow each other, a producer publishes the messages that it took into its queue in their order and
  each of them once: what it held and took is what it published and still holds. Every message of the
  store is held by one producer, so that none is leaked and none freed while it is held.
\<close>

theorem mq_exactly_once:
  assumes "mq_run f lib env aenv apis s0 ins outs s" "mq_ok s0"
  shows "mq_ok s \<and> (\<forall>i. waiting_at s0 i @ ins i = outs i @ waiting_at s i)"
  using mq_run_accounts [OF assms] .

theorem mq_exactly_once_witness:
  "\<forall>aenv. \<exists>msg s. mq_run demo_fp (demo_amqp_lib 0) demo_mq_env aenv ([] :: (evsys \<times> nat) agc_api list) demo_mq (\<lambda>i. [] @ (if i < length [Some msg] then opt_list ([Some msg] ! i) else []))
     (\<lambda>_. []) s \<and> waiting_at s 0 = [msg]"
proof
  fix aenv
  obtain msg q s where s: "agcmq_handle_event demo_fp demo_mq_env 0 demo_mq_events (Some (agc_event_create 3 1)) demo_mq = Some ([Some msg], s)"
    by (rule demo_handled)
  note run = mq_run.event [OF mq_run.start s, of "demo_amqp_lib 0" aenv "[] :: (evsys \<times> nat) agc_api list"]
  have "waiting_at demo_mq 0 = []" by (simp add: waiting_at_def waiting_messages_def demo_mq_def demo_producer_def held_def queue_create_wf)
  then have "waiting_at s 0 = [msg]" using conjunct2 [OF mq_exactly_once [OF run demo_mq_ok], THEN spec, of 0] by (simp add: opt_list_def)
  with run show "\<exists>msg s. mq_run demo_fp (demo_amqp_lib 0) demo_mq_env aenv ([] :: (evsys \<times> nat) agc_api list) demo_mq
      (\<lambda>i. [] @ (if i < length [Some msg] then opt_list ([Some msg] ! i) else [])) (\<lambda>_. []) s \<and> waiting_at s 0 = [msg]" by blast
qed

section \<open>A broker that accepts messages gets all of them\<close>

definition accepting :: "'w amqp_lib \<Rightarrow> bool" where
  "accepting lib \<longleftrightarrow> (\<forall>c ex key props json w. 0 \<le> fst (amqp_basic_publish lib c ex key props json w))"

definition connected_producer :: "agcmq_producer \<Rightarrow> 'w amqp \<Rightarrow> bool" where
  "connected_producer p m \<longleftrightarrow> producer_running p \<and> conn_active (producer_conn p) \<and> conn_state (producer_conn p) \<noteq> None \<and>
     the (conn_state (producer_conn p)) \<notin> adead m \<and> ex_name (producer_para p) \<noteq> None"

fun producer_turns :: "'w amqp_lib \<Rightarrow> nat \<Rightarrow> (u64 \<times> u64) list \<Rightarrow> 'w agcmq \<Rightarrow> (agcmq_message list \<times> 'w agcmq) option" where
  "producer_turns lib i [] s = Some ([], s)"
| "producer_turns lib i ((secs, usecs) # ts) s = do {
     (t, s) \<leftarrow> agcmq_producer_thread lib secs usecs i s;
     (sent, s) \<leftarrow> producer_turns lib i ts s;
     Some (opt_list t @ sent, s)
   }"

lemma producer_take_first:
  assumes "queue_ok p" "held p = a # r" "0 \<notin> set (held p)"
  shows "\<exists>q. producer_take p = Some (True, p\<lparr>send_queue := q, sending := a\<rparr>)"
proof (cases "sending p = NULL")
  case True
  with assms(2) have c: "contents (send_queue p) = a # r" by (simp add: held_def)
  then have "\<not> apr_queue_empty (send_queue p)" by (simp add: queue_empty_iff)
  from queue_take_ok [OF _ this] assms(1) c obtain q where "queue_take (send_queue p) = Some (a, q)" by (auto simp: queue_ok_def)
  with True assms(1) \<open>\<not> apr_queue_empty (send_queue p)\<close> show ?thesis
    by (auto simp: producer_take_def apr_queue_trypop_def queue_ok_def)
next
  case False
  with assms(2) have "sending p = a" by (simp add: held_def)
  with False show ?thesis by (intro exI [of _ "send_queue p"]) (simp add: producer_take_def)
qed

lemma producer_take_none: "queue_ok p \<Longrightarrow> held p = [] \<Longrightarrow> producer_take p = Some (False, p)"
  by (simp add: producer_take_def held_def apr_queue_trypop_def queue_ok_def queue_empty_iff split: if_splits)

lemma publish_turn:
  assumes "accepting lib" "connected_producer p m" "queue_ok p" "held p = a # r" "0 \<notin> set (held p)" "ms a = Some msg" "pjson msg \<noteq> None"
  shows "\<exists>p' m'. producer_turn lib secs usecs p ms m = Some (Some msg, p', ms(a := None), m') \<and> connected_producer p' m'"
proof -
  from producer_take_first [OF assms(3-5)] obtain q where q: "producer_take p = Some (True, p\<lparr>send_queue := q, sending := a\<rparr>)" ..
  from assms(2) obtain c ex where c: "conn_state (producer_conn p) = Some c" "c \<notin> adead m" "ex_name (producer_para p) = Some ex"
    "conn_active (producer_conn p)" "producer_running p" by (auto simp: connected_producer_def)
  obtain json where j: "pjson msg = Some json" using assms(7) by auto
  obtain st w where st: "amqp_basic_publish lib c ex (routing_key msg) (message_properties (producer_para p) secs usecs) json (aworld m) = (st, w)"
    by fastforce
  have "0 \<le> st" using assms(1) st unfolding accepting_def by (metis fst_conv)
  then have "agcmq_producer_send lib secs usecs (p\<lparr>send_queue := q, sending := a\<rparr>) msg m =
      Some (AGC_STATUS_SUCCESS, p\<lparr>send_queue := q, sending := a\<rparr>, m\<lparr>aworld := w\<rparr>)"
    using c j st by (simp add: agcmq_producer_send_def on_conn_def)
  moreover have "a \<noteq> 0" using assms(4,5) by simp
  ultimately have "producer_turn lib secs usecs p ms m = Some (Some msg, p\<lparr>send_queue := q, sending := NULL\<rparr>, ms(a := None), m\<lparr>aworld := w\<rparr>)"
    using q c(4) assms(6) by (simp add: producer_turn_def producer_reconnect_def producer_deliver_def agcmq_producer_msg_destroy_def)
  moreover have "connected_producer (p\<lparr>send_queue := q, sending := NULL\<rparr>) (m\<lparr>aworld := w\<rparr>)" using c by (simp add: connected_producer_def)
  ultimately show ?thesis by blast
qed

lemma idle_turn:
  assumes "connected_producer p m" "queue_ok p" "held p = []"
  shows "producer_turn lib secs usecs p ms m = Some (None, p, ms, m)"
  using assms producer_take_none [OF assms(2,3)] by (simp add: producer_turn_def producer_reconnect_def connected_producer_def)

lemma publish_step:
  assumes "mq_ok s" "i < length (producers s)" "connected_producer (producers s ! i) (mamqp s)" "accepting lib"
    and "\<forall>msg \<in> set (waiting_at s i). pjson msg \<noteq> None"
  shows "\<exists>t s'. agcmq_producer_thread lib secs usecs i s = Some (t, s') \<and> connected_producer (producers s' ! i) (mamqp s') \<and>
     (waiting_at s i \<noteq> [] \<longrightarrow> t \<noteq> None)"
proof -
  let ?p = "producers s ! i"
  note nth = store_ok_nth [OF assms(1) [unfolded mq_ok_def] assms(2)]
  have r: "producer_running ?p" using assms(3) by (simp add: connected_producer_def)
  show ?thesis
  proof (cases "held ?p")
    case Nil
    then have "waiting_at s i = []" by (simp add: waiting_at_def waiting_messages_def)
    with idle_turn [OF assms(3) nth(1) Nil, of lib secs usecs "messages s"] r assms(2,3) show ?thesis
      by (simp add: agcmq_producer_thread_def)
  next
    case (Cons a l)
    then obtain msg where a: "messages s a = Some msg" using nth(3) by auto
    then have "msg \<in> set (waiting_at s i)" using Cons assms(2) by (simp add: waiting_at_def waiting_messages_def)
    with assms(5) have "pjson msg \<noteq> None" by blast
    from publish_turn [where ms = "messages s", OF assms(4,3) nth(1) Cons nth(2) a this, of secs usecs] r assms(2) show ?thesis
      by (auto simp: agcmq_producer_thread_def)
  qed
qed

text \<open>
  C20: When the broker takes what is published, every message that a connected producer holds is published
  after as many turns of its thread as there are messages, in their order, and then none is held.
\<close>

theorem mq_drains:
  assumes "mq_ok s" "i < length (producers s)" "connected_producer (producers s ! i) (mamqp s)" "accepting lib"
    and "\<forall>msg \<in> set (waiting_at s i). pjson msg \<noteq> None" "length (waiting_at s i) \<le> length clocks"
  shows "\<exists>s'. producer_turns lib i clocks s = Some (waiting_at s i, s') \<and> mq_ok s' \<and> waiting_at s' i = []"
  using assms(1-3,5,6)
proof (induction clocks arbitrary: s)
  case Nil
  then show ?case by simp
next
  case (Cons x clocks)
  obtain secs usecs where x: "x = (secs, usecs)" by fastforce
  from publish_step [OF Cons.prems(1-3) assms(4) Cons.prems(4), of secs usecs] obtain t s1 where
    t: "agcmq_producer_thread lib secs usecs i s = Some (t, s1)" "connected_producer (producers s1 ! i) (mamqp s1)"
      "waiting_at s i \<noteq> [] \<longrightarrow> t \<noteq> None" by blast
  note eff = producer_thread_effect [OF t(1) Cons.prems(1)]
  then have w: "waiting_at s i = opt_list t @ waiting_at s1 i" using Cons.prems(2) by (simp add: waiting_at_def)
  have "length (waiting_at s1 i) \<le> length clocks" using Cons.prems(5) t(3) w by (cases t) (auto simp: opt_list_def)
  then obtain s' where "producer_turns lib i clocks s1 = Some (waiting_at s1 i, s') \<and> mq_ok s' \<and> waiting_at s' i = []"
    using Cons.IH [of s1] eff t(2) Cons.prems(2,4) w by auto
  then show ?case using t(1) x w by simp
qed

theorem mq_drains_witness:
  "\<exists>msg s s'. agcmq_handle_event demo_fp demo_mq_env 0 demo_mq_events (Some (agc_event_create 3 1)) demo_mq = Some ([Some msg], s) \<and>
     producer_turns (demo_amqp_lib 0) 0 [(1, 1), (2, 2)] s = Some ([msg], s') \<and> waiting_at s' 0 = []"
proof -
  obtain msg q s where s: "agcmq_handle_event demo_fp demo_mq_env 0 demo_mq_events (Some (agc_event_create 3 1)) demo_mq = Some ([Some msg], s)"
    "pjson msg \<noteq> None" "producers s = [demo_producer\<lparr>send_queue := q\<rparr>]" "mamqp s = mamqp demo_mq" by (rule demo_handled)
  have "waiting_at demo_mq 0 = []" by (simp add: waiting_at_def waiting_messages_def demo_mq_def demo_producer_def held_def queue_create_wf)
  then have w: "waiting_at s 0 = [msg]" "mq_ok s"
    using handle_event_effect [OF s(1) demo_mq_ok] s(3) by (auto simp: waiting_at_def opt_list_def demo_mq_def)
  have "connected_producer (producers s ! 0) (mamqp s)"
    using s by (simp add: connected_producer_def demo_producer_def demo_mq_def demo_para_def)
  moreover have "accepting (demo_amqp_lib 0)" by (simp add: accepting_def demo_amqp_lib_def)
  ultimately show ?thesis using mq_drains [of s 0 "demo_amqp_lib 0" "[(1, 1), (2, 2)]"] w s by auto
qed

section \<open>A connection that was lost\<close>

named_theorems dead_mono \<open>calls of the library never bring a destroyed connection back\<close>

definition dead_le :: "'w amqp \<Rightarrow> 'w amqp \<Rightarrow> bool" where
  "dead_le m m' \<longleftrightarrow> adead m \<subseteq> adead m'"

lemma dead_le_refl [dead_mono]: "adead m' = adead m \<Longrightarrow> dead_le m m'"
  by (simp add: dead_le_def)

lemma dead_le_trans: "dead_le m m' \<Longrightarrow> dead_le m' m'' \<Longrightarrow> dead_le m m''"
  by (auto simp: dead_le_def)

lemma on_conn_dead: "on_conn c m f = Some (r, m') \<Longrightarrow> adead m' = adead m"
  by (auto simp: on_conn_def split: option.splits if_splits prod.splits)

lemma destroy_dead: "destroy_connection lib c m = Some (r, m') \<Longrightarrow> adead m' = adead m \<union> set_option c"
  by (auto simp: destroy_connection_def bind_Some_iff dest: on_conn_dead)

lemma close_dead [dead_mono]: "agcmq_connection_close lib conn m = Some (conn', m') \<Longrightarrow> dead_le m m'"
  by (auto simp: agcmq_connection_close_def bind_Some_iff dead_le_def dest!: on_conn_dead destroy_dead)

lemma close_effect:
  "agcmq_connection_close lib conn m = Some (conn', m') \<Longrightarrow>
     \<not> conn_active conn' \<and> conn_state conn' = conn_state conn \<and> (\<exists>c. conn_state conn = Some c \<and> c \<notin> adead m \<and> c \<in> adead m')"
  by (auto simp: agcmq_connection_close_def bind_Some_iff on_conn_def dest!: destroy_dead split: option.splits if_splits prod.splits)

lemma login_dead:
  assumes "agcmq_login lib n info conn m = Some (st, conn', m')"
  shows "dead_le m m'"
proof -
  obtain reply w where r: "amqp_login lib n (virtualhost info) (username info) (password info) (aworld m) = (reply, w)" by fastforce
  show ?thesis
  proof (cases "agcmq_parse_amqp_reply reply = 0")
    case True
    with assms r show ?thesis
      by (auto simp: agcmq_login_def Let_def bind_Some_iff dead_le_def split: if_splits dest: destroy_dead)
  next
    case False
    with assms r obtain c where "agcmq_connection_close lib conn (m\<lparr>aworld := w\<rparr>) = Some (c, m')"
      by (auto simp: agcmq_login_def Let_def bind_Some_iff)
    from close_dead [OF this] show ?thesis by (simp add: dead_le_def)
  qed
qed

lemma open_cases:
  assumes "agcmq_connection_open lib infos conn m = Some (st, conn', m')"
  obtains w where "st = AGC_STATUS_GENERR" "conn' = conn" "m' = m\<lparr>anext := anext m + 1, aworld := w\<rparr>"
  | n info w where "agcmq_login lib n info conn (m\<lparr>anext := anext m + 1, aworld := w\<rparr>) = Some (st, conn', m')"
proof -
  note d = agcmq_connection_open_def amqp_new_connection_def Let_def
  obtain ok w where k: "amqp_tcp_socket_new lib (anext m) (aworld m) = (ok, w)" by fastforce
  obtain info v where o: "open_socket lib (anext m) infos w = (info, v)" by fastforce
  show thesis
  proof (cases "infos = [] \<or> \<not> ok")
    case True
    with assms k have "st = AGC_STATUS_GENERR \<and> conn' = conn \<and> (\<exists>w. m' = m\<lparr>anext := anext m + 1, aworld := w\<rparr>)"
      by (cases "infos = []") (auto simp: d intro: exI [of _ "aworld m"])
    then show thesis using that(1) by blast
  next
    case False
    then show thesis using assms k o that by (cases info) (auto simp: d)
  qed
qed

lemma open_dead [dead_mono]:
  assumes "agcmq_connection_open lib infos conn m = Some (st, conn', m')"
  shows "dead_le m m'"
  using assms by (cases rule: open_cases) (auto simp: dead_le_def dest!: login_dead)

lemma amqp_request_dead [dead_mono]: "amqp_request lib c f m = Some (r, m') \<Longrightarrow> dead_le m m'"
  by (auto simp: amqp_request_def bind_Some_iff dead_le_def dest!: on_conn_dead)

lemma declare_dead [dead_mono]: "declare_exchange lib c name kind m = Some (r, m') \<Longrightarrow> dead_le m m'"
  by (auto simp: declare_exchange_def bind_Some_iff intro: dead_mono)

lemma close_active_dead [dead_mono]: "close_active lib conn m = Some (conn', m') \<Longrightarrow> dead_le m m'"
  by (auto simp: close_active_def split: if_splits intro: dead_mono)

lemma send_dead [dead_mono]:
  assumes "agcmq_producer_send lib secs usecs p msg m = Some (st, p', m')"
  shows "dead_le m m'"
  using assms by (auto simp: agcmq_producer_send_def bind_Some_iff dead_le_refl split: if_splits
      intro: dead_le_refl [OF on_conn_dead] dead_le_trans [OF dead_le_refl [OF on_conn_dead] close_dead])

lemma reconnect_dead [dead_mono]: "producer_reconnect lib p m = Some (b, p', m') \<Longrightarrow> dead_le m m'"
  by (auto simp: producer_reconnect_def bind_Some_iff Let_def dead_le_refl split: if_splits
      intro: open_dead dead_le_trans [OF open_dead declare_dead])

lemma deliver_dead [dead_mono]: "producer_deliver lib secs usecs p ms m = Some (t, p', ms', m') \<Longrightarrow> dead_le m m'"
  by (auto simp: producer_deliver_def bind_Some_iff dead_le_refl split: if_splits intro: send_dead)

lemma turn_dead [dead_mono]: "producer_turn lib secs usecs p ms m = Some (t, p', ms', m') \<Longrightarrow> dead_le m m'"
  by (auto simp: producer_turn_def bind_Some_iff split: if_splits intro: reconnect_dead dead_le_trans [OF reconnect_dead deliver_dead])

lemma producer_create_dead [dead_mono]: "agcmq_producer_create lib env e name infos para s = Some (st, s') \<Longrightarrow> dead_le (mamqp s) (mamqp s')"
  by (auto simp: agcmq_producer_create_def bind_Some_iff dead_le_refl split: if_splits option.splits
      intro: dead_le_trans [OF open_dead declare_dead] dead_le_trans [OF open_dead close_active_dead]
        dead_le_trans [OF dead_le_trans [OF open_dead declare_dead] close_active_dead])

lemma consumer_close_dead [dead_mono]: "consumer_close lib c m = Some (c', m') \<Longrightarrow> dead_le m m'"
  by (auto simp: consumer_close_def bind_Some_iff intro: close_dead)

lemma consumer_queue_dead [dead_mono]: "consumer_queue lib env c m = Some (c', m') \<Longrightarrow> dead_le m m'"
  by (auto simp: consumer_queue_def bind_Some_iff Let_def dead_le_def split: if_splits
      dest!: on_conn_dead amqp_request_dead [unfolded dead_le_def] consumer_close_dead [unfolded dead_le_def])

lemma consumer_connect_dead [dead_mono]: "consumer_connect lib env c m = Some (c', m') \<Longrightarrow> dead_le m m'"
  by (auto simp: consumer_connect_def bind_Some_iff Let_def split: if_splits
      intro: open_dead dead_le_trans [OF dead_le_trans [OF open_dead declare_dead] consumer_queue_dead]
        dead_le_trans [OF dead_le_trans [OF open_dead declare_dead] consumer_close_dead])

lemma consumer_begin_dead [dead_mono]: "consumer_begin lib c m = Some (c', m') \<Longrightarrow> dead_le m m'"
  by (auto simp: consumer_begin_def bind_Some_iff split: if_splits intro: amqp_request_dead dead_le_trans [OF amqp_request_dead consumer_close_dead])

lemma consumer_leave_dead [dead_mono]: "consumer_leave lib c m = Some (c', m') \<Longrightarrow> dead_le m m'"
  by (auto simp: consumer_leave_def intro: consumer_close_dead)

lemma consumer_receive_dead [dead_mono]:
  assumes "consumer_receive lib c m = Some (r, m')"
  shows "dead_le m m'"
proof -
  let ?f = "\<lambda>n w. case amqp_consume_message lib n w of (r, en, w) \<Rightarrow> ((r, en), w)"
  from assms obtain res en m1 where o: "on_conn (conn_state (consumer_conn c)) m ?f = Some ((res, en), m1)"
    by (auto simp: consumer_receive_def bind_Some_iff)
  show ?thesis
    by (cases res) (use assms o on_conn_dead [OF o] in
      \<open>auto simp: consumer_receive_def dead_le_def bind_Some_iff split: if_splits dest: on_conn_dead\<close>)
qed

lemma consumer_turn_dead [dead_mono]:
  assumes "consumer_turn lib env c m = Some (en, c', m')"
  shows "dead_le m m'"
proof (cases "consuming c \<and> consumer_running c \<and> conn_active (consumer_conn c)")
  case True
  with assms obtain r m1 where r: "consumer_receive lib c m = Some (r, m1)" by (auto simp: consumer_turn_def bind_Some_iff)
  show ?thesis
    by (cases r) (use assms True r consumer_receive_dead [OF r] in \<open>auto simp: consumer_turn_def intro: dead_le_trans dest: consumer_leave_dead\<close>)
next
  case False
  with assms show ?thesis
    by (auto simp: consumer_turn_def dead_le_refl split: if_splits dest: consumer_leave_dead consumer_begin_dead consumer_connect_dead)
qed

lemma consumer_thread_dead [dead_mono]:
  assumes "agcmq_consumer_thread f lib env aenv apis a as rnd i s st = Some (b, s', st')"
  shows "dead_le (mamqp s) (mamqp s')"
proof (cases "length (consumers s) \<le> i \<or> thread_ended (consumers s ! i)")
  case False
  with assms obtain en c m where t: "consumer_turn lib env (consumers s ! i) (mamqp s) = Some (en, c, m)"
    by (auto simp: agcmq_consumer_thread_def bind_Some_iff)
  then have "mamqp s' = m" using assms False by (cases en) (auto simp: agcmq_consumer_thread_def Let_def bind_Some_iff)
  with consumer_turn_dead [OF t] show ?thesis by simp
qed (use assms in \<open>auto simp: agcmq_consumer_thread_def dead_le_refl\<close>)

lemma load_file_dead [dead_mono]: "load_file lib env e fname ts s = Some s' \<Longrightarrow> dead_le (mamqp s) (mamqp s')"
  by (auto simp: load_file_def bind_Some_iff agcmq_consumer_create_def dead_le_refl split: if_splits option.splits intro: producer_create_dead)

lemma load_files_dead: "load_files lib env e fs s = Some s' \<Longrightarrow> dead_le (mamqp s) (mamqp s')"
  by (induction lib env e fs s rule: load_files.induct) (auto simp: bind_Some_iff dead_le_refl intro: dead_le_trans load_file_dead)

lemma load_config_dead [dead_mono]: "agcmq_load_config lib env e dir s = Some (st, s') \<Longrightarrow> dead_le (mamqp s) (mamqp s')"
  by (auto simp: agcmq_load_config_def dead_le_refl split: option.splits intro: load_files_dead)

text \<open>A connection is lost when it is not active and points to one that was destroyed.\<close>

definition lost :: "agcmq_connection \<Rightarrow> 'w amqp \<Rightarrow> bool" where
  "lost conn m \<longleftrightarrow> \<not> conn_active conn \<and> conn_state conn \<noteq> None \<and> the (conn_state conn) \<in> adead m"

lemma lost_mono: "lost conn m \<Longrightarrow> dead_le m m' \<Longrightarrow> lost conn m'"
  by (auto simp: lost_def dead_le_def)

lemma close_lost: "agcmq_connection_close lib conn m = Some (conn', m') \<Longrightarrow> lost conn' m'"
  by (auto simp: lost_def dest!: close_effect)

lemma lost_close_crash: "lost conn m \<Longrightarrow> agcmq_connection_close lib conn m = None"
  by (auto simp: lost_def agcmq_connection_close_def on_conn_def)

lemma lost_login:
  assumes "agcmq_login lib n info conn m = Some (st, conn', m')" "lost conn m"
  shows False
proof -
  obtain reply w where r: "amqp_login lib n (virtualhost info) (username info) (password info) (aworld m) = (reply, w)" by fastforce
  have d: "destroy_connection lib (conn_state conn) (m\<lparr>aworld := v\<rparr>) = None" "conn_state conn \<noteq> None" for v
    using assms(2) by (auto simp: lost_def destroy_connection_def on_conn_def)
  have "lost conn (m\<lparr>aworld := w\<rparr>)" using assms(2) by (simp add: lost_def)
  then show False using assms(1) r d lost_close_crash [of conn "m\<lparr>aworld := w\<rparr>" lib]
    by (auto simp: agcmq_login_def Let_def split: if_splits)
qed

lemma lost_open:
  assumes "agcmq_connection_open lib infos conn m = Some (st, conn', m')" "lost conn m"
  shows "st = AGC_STATUS_GENERR \<and> conn' = conn"
  using assms(1)
proof (cases rule: open_cases)
  case (2 n info w)
  then show ?thesis using lost_login [OF 2] assms(2) by (simp add: lost_def)
qed simp

lemma lost_turn:
  assumes "producer_turn lib secs usecs p ms m = Some (t, p', ms', m')" "lost (producer_conn p) m"
  shows "t = None \<and> lost (producer_conn p') m'"
proof -
  have na: "\<not> conn_active (producer_conn p)" using assms(2) by (simp add: lost_def)
  from assms(1) obtain again p1 m1 where r: "producer_reconnect lib p m = Some (again, p1, m1)"
    by (auto simp: producer_turn_def bind_Some_iff)
  with na obtain st c m2 where o: "agcmq_connection_open lib (producer_infos p) (producer_conn p) m = Some (st, c, m2)"
    by (auto simp: producer_reconnect_def bind_Some_iff)
  from lost_open [OF o assms(2)] r na o have "\<not> again" "producer_conn p1 = producer_conn p"
    by (auto simp: producer_reconnect_def)
  then have l1: "lost (producer_conn p1) m1" "\<not> again" using lost_mono [OF assms(2) reconnect_dead [OF r]] by simp_all
  from assms(1) r l1(2) obtain g p2 where k: "producer_take p1 = Some (g, p2)" by (auto simp: producer_turn_def bind_Some_iff)
  then have "producer_conn p2 = producer_conn p1" by (auto simp: producer_take_def bind_Some_iff split: if_splits)
  with l1 have l2: "lost (producer_conn p2) m1" by simp
  then have "\<not> conn_active (producer_conn p2)" by (simp add: lost_def)
  then have "producer_deliver lib secs usecs p2 ms m1 = Some (t, p', ms', m') \<Longrightarrow> t = None \<and> p' = p2 \<and> m' = m1"
    by (auto simp: producer_deliver_def agcmq_producer_send_def bind_Some_iff split: if_splits)
  with assms(1) r l1(2) k l2 show ?thesis by (auto simp: producer_turn_def split: if_splits)
qed

definition lost_at :: "'w agcmq \<Rightarrow> nat \<Rightarrow> bool" where
  "lost_at s i \<longleftrightarrow> i < length (producers s) \<and> lost (producer_conn (producers s ! i)) (mamqp s)"

lemma offer_conn: "offer_event f env now e ev p ms n = Some (r, p', ms', n') \<Longrightarrow> producer_conn p' = producer_conn p"
  by (auto simp: offer_event_def bind_Some_iff Let_def split: if_splits)

lemma offers_conn: "offer_events f env now e ev ps ms n = Some (ts, ps', ms', n') \<Longrightarrow> map producer_conn ps' = map producer_conn ps"
proof (induction ps arbitrary: ms n ts ps' ms' n')
  case (Cons p ps)
  then obtain r p1 ms1 n1 where o: "offer_event f env now e ev p ms n = Some (r, p1, ms1, n1)" by (auto simp: bind_Some_iff)
  show ?case by (cases r) (use Cons o offer_conn [OF o] in \<open>auto simp: bind_Some_iff\<close>)
qed simp

lemma handle_event_lost:
  assumes "agcmq_handle_event f env now e ev s = Some (ts, s')" "lost_at s i"
  shows "lost_at s' i"
proof -
  have c: "map producer_conn (producers s') = map producer_conn (producers s)" "mamqp s' = mamqp s"
    using assms(1) by (auto simp: agcmq_handle_event_def bind_Some_iff dest: offers_conn split: option.splits)
  then have "length (producers s') = length (producers s)" by (metis length_map)
  with c assms(2) show ?thesis unfolding lost_at_def by (metis nth_map)
qed

lemma thread_lost:
  assumes "agcmq_producer_thread lib secs usecs j s = Some (t, s')" "lost_at s i"
  shows "lost_at s' i \<and> (j = i \<longrightarrow> t = None)"
proof (cases "length (producers s) \<le> j \<or> \<not> producer_running (producers s ! j)")
  case True
  then show ?thesis using assms by (auto simp: agcmq_producer_thread_def)
next
  case False
  with assms(1) obtain p ms m where t: "producer_turn lib secs usecs (producers s ! j) (messages s) (mamqp s) = Some (t, p, ms, m)"
    "s' = s\<lparr>producers := (producers s)[j := p], messages := ms, mamqp := m\<rparr>" by (auto simp: agcmq_producer_thread_def bind_Some_iff)
  show ?thesis
    using assms(2) t(2) lost_turn [OF t(1)] lost_mono [OF _ turn_dead [OF t(1)]] by (cases "j = i") (auto simp: lost_at_def)
qed

lemma run_lost:
  assumes "mq_run f lib env aenv apis s0 ins outs s" "lost_at s0 i"
  shows "lost_at s i \<and> outs i = []"
  using assms
proof (induction rule: mq_run.induct)
  case (event ins outs s now e ev ts s')
  then show ?case by (auto intro: handle_event_lost)
next
  case (producer ins outs s secs usecs j t s')
  then show ?case using thread_lost [OF producer.hyps(2), of i] by (auto simp: opt_list_def)
next
  case (consumer ins outs s a as rnd j st b s' st')
  then show ?case using consumer_thread_frame [OF consumer.hyps(2)] consumer_thread_dead [OF consumer.hyps(2)]
    by (auto simp: lost_at_def intro: lost_mono)
next
  case (load ins outs s e dir status s')
  then show ?case using load_config_grows [OF load.hyps(2)] load_config_dead [OF load.hyps(2)]
    by (auto simp: lost_at_def grows_def nth_append intro: lost_mono)
qed simp

text \<open>
  C21: Once a message could not be published, the producer publishes nothing any more, in any run and with any
  library: the function that closes the connection leaves the pointer to it, and each attempt to connect again
  that gets through to a broker uses or frees the connection that was freed.
\<close>

theorem mq_no_reconnect:
  assumes "agcmq_producer_send lib secs usecs (producers s ! i) msg (mamqp s) = Some (AGC_STATUS_SOCKERR, p, m)" "i < length (producers s)"
    and "mq_run f lib env aenv apis (s\<lparr>producers := (producers s)[i := p], mamqp := m\<rparr>) ins outs s'"
  shows "outs i = [] \<and> (\<forall>infos st conn m'. agcmq_connection_open lib infos (producer_conn (producers s' ! i)) (mamqp s') = Some (st, conn, m') \<longrightarrow>
     st \<noteq> AGC_STATUS_SUCCESS)"
proof -
  have "lost (producer_conn p) m" using assms(1) by (auto simp: agcmq_producer_send_def bind_Some_iff split: if_splits intro: close_lost)
  then have "lost_at (s\<lparr>producers := (producers s)[i := p], mamqp := m\<rparr>) i" using assms(2) by (simp add: lost_at_def)
  from run_lost [OF assms(3) this] show ?thesis by (auto simp: lost_at_def dest: lost_open)
qed

theorem mq_no_reconnect_witness:
  "\<exists>p m. agcmq_producer_send (demo_amqp_lib (- 1)) 1 1 demo_producer \<lparr>routing_key = ''k'', pjson = Some ''{}''\<rparr> (mamqp demo_mq) = Some (AGC_STATUS_SOCKERR, p, m) \<and>
     (\<forall>infos st conn m'. agcmq_connection_open (demo_amqp_lib (- 1)) infos (producer_conn p) m = Some (st, conn, m') \<longrightarrow> st \<noteq> AGC_STATUS_SUCCESS)"
proof -
  let ?l = "demo_amqp_lib (- 1)" and ?msg = "\<lparr>routing_key = ''k'', pjson = Some ''{}''\<rparr>"
  obtain p m where s: "agcmq_producer_send ?l 1 1 (producers demo_mq ! 0) ?msg (mamqp demo_mq) = Some (AGC_STATUS_SOCKERR, p, m)"
    by (simp add: agcmq_producer_send_def demo_producer_def demo_mq_def demo_para_def demo_amqp_lib_def on_conn_def agcmq_connection_close_def
        destroy_connection_def)
  have "0 < length (producers demo_mq)" by (simp add: demo_mq_def)
  from mq_no_reconnect [OF s this mq_run.start] this s show ?thesis by (auto simp: demo_mq_def)
qed

text \<open>A first login that is refused closes a connection that there is not.\<close>

theorem mq_login_refused:
  assumes "agcmq_parse_amqp_reply (fst (amqp_login lib n (virtualhost info) (username info) (password info) (aworld m))) \<noteq> 0"
  shows "agcmq_login lib n info new_connection_state m = None"
  using assms by (simp add: agcmq_login_def new_connection_state_def agcmq_connection_close_def on_conn_def case_prod_unfold Let_def)

end
