(* ===== verification/Agc_Esl_Buffer.thy ===== *)
theory Agc_Esl_Buffer
  imports Agc_Eventsocket
begin

text \<open>
  The byte buffer of the client library (\<^verbatim>\<open>src/libs/esl/src/esl_buffer.c\<close>), in which a client of the event socket
  collects what it receives. The block is a list of bytes, \<open>bhead\<close> the offset of \<^verbatim>\<open>head\<close> in it. \<^const>\<open>None\<close> is
  an access outside of the block or a failed assertion. A buffer without an upper limit is a queue of
  bytes; the limit is not kept, and with it bytes are lost.
\<close>

section \<open>Operations\<close>

record esl_buffer =
  bdata :: "char list"
  bhead :: nat
  bused :: nat
  bactual :: nat
  bdatalen :: nat
  bmax_len :: nat
  bblocksize :: nat
  bloops :: int

text \<open>Subtraction of sizes, in 64 bits.\<close>

definition size_sub :: "nat \<Rightarrow> nat \<Rightarrow> nat" where
  "size_sub m n = (if n \<le> m then m - n else 2 ^ 64 + m - n)"

definition esl_buffer_create :: "alloc_env \<Rightarrow> nat \<Rightarrow> nat \<Rightarrow> nat \<Rightarrow> esl_buffer option" where
  "esl_buffer_create env blocksize start_len max_len =
     (if start_len \<noteq> 0 \<and> \<not> alloc_ok env start_len then None
      else Some \<lparr>bdata = replicate start_len NUL, bhead = 0, bused = 0, bactual = 0, bdatalen = start_len, bmax_len = max_len,
        bblocksize = blocksize, bloops = 0\<rparr>)"

definition esl_buffer_len :: "esl_buffer \<Rightarrow> nat" where
  "esl_buffer_len b = bdatalen b"

definition esl_buffer_freespace :: "esl_buffer \<Rightarrow> nat" where
  "esl_buffer_freespace b = (if bmax_len b \<noteq> 0 then size_sub (bmax_len b) (bused b) else 1000000)"

definition esl_buffer_inuse :: "esl_buffer \<Rightarrow> nat" where
  "esl_buffer_inuse b = bused b"

definition esl_buffer_seek :: "esl_buffer \<Rightarrow> nat \<Rightarrow> nat \<times> esl_buffer" where
  "esl_buffer_seek b n =
     (if bused b < 1 then (0, b\<lparr>bused := 0\<rparr>)
      else (let reading = (if bused b \<ge> n then n else bused b)
            in (reading, b\<lparr>bused := bactual b - reading, bhead := reading\<rparr>)))"

definition esl_buffer_toss :: "esl_buffer \<Rightarrow> nat \<Rightarrow> nat \<times> esl_buffer" where
  "esl_buffer_toss b n =
     (if bused b < 1 then (0, b\<lparr>bused := 0\<rparr>)
      else (let reading = (if bused b \<ge> n then n else bused b)
            in (bused b - reading, b\<lparr>bused := bused b - reading, bhead := bhead b + reading\<rparr>)))"

definition esl_buffer_set_loops :: "esl_buffer \<Rightarrow> int \<Rightarrow> esl_buffer" where
  "esl_buffer_set_loops b l = b\<lparr>bloops := l\<rparr>"

definition esl_buffer_read :: "esl_buffer \<Rightarrow> nat \<Rightarrow> (string \<times> esl_buffer) option" where
  "esl_buffer_read b n =
     (if bused b < 1 then Some ([], b\<lparr>bused := 0\<rparr>)
      else (let reading = (if bused b \<ge> n then n else bused b)
            in if bhead b + reading > length (bdata b) then None
               else Some (take reading (drop (bhead b) (bdata b)), b\<lparr>bused := bused b - reading, bhead := bhead b + reading\<rparr>)))"

text \<open>The second reading of \<^verbatim>\<open>esl_buffer_read_loop\<close> starts again at the front; its length alone is returned.\<close>

definition esl_buffer_read_loop :: "esl_buffer \<Rightarrow> nat \<Rightarrow> (nat \<times> string \<times> esl_buffer) option" where
  "esl_buffer_read_loop b n = do {
     (bs, b) \<leftarrow> esl_buffer_read b n;
     if length bs < n then
       (if bloops b = 0 then Some (length bs, bs, b)
        else do {
          (cs, b) \<leftarrow> esl_buffer_read (b\<lparr>bhead := 0, bused := bactual b\<rparr>) (n - length bs);
          Some (length cs, bs @ cs, b\<lparr>bloops := bloops b - 1\<rparr>)
        })
     else Some (length bs, bs, b)
   }"

definition peek :: "char list \<Rightarrow> nat \<Rightarrow> char option" where
  "peek d i = (if i < length d then Some (d ! i) else None)"

text \<open>
  The scan for an empty line: the byte at \<open>i\<close> is read before \<open>i\<close> is compared with the end \<open>e\<close>, and the byte
  at \<open>e\<close> may end a packet.
\<close>

definition packet_end :: "char list \<Rightarrow> nat \<Rightarrow> nat \<Rightarrow> nat option option" where
  "packet_end d e i = do {
     c \<leftarrow> peek d (i + 1);
     let pe = (if c = CR then i + 2 else i + 1);
     if pe \<le> e then do { c \<leftarrow> peek d pe; Some (if c = LF then Some pe else None) } else Some None
   }"

function packet_scan :: "char list \<Rightarrow> nat \<Rightarrow> nat \<Rightarrow> nat option option" where
  "packet_scan d e i =
     (if i \<ge> length d then None
      else if d ! i = NUL \<or> e \<le> i then Some None
      else if d ! i = LF then
        (case packet_end d e i of
           None \<Rightarrow> None
         | Some (Some pe) \<Rightarrow> Some (Some pe)
         | Some None \<Rightarrow> packet_scan d e (i + 1))
      else packet_scan d e (i + 1))"
  by pat_completeness auto
termination by (relation "measure (\<lambda>(d, e, i). length d - i)") auto

declare packet_scan.simps [simp del]

lemma packet_end_later: "packet_end d e i = Some (Some pe) \<Longrightarrow> i < pe"
  by (auto simp: packet_end_def peek_def bind_Some_iff Let_def split: if_splits)

lemma packet_scan_later: "packet_scan d e i = Some (Some pe) \<Longrightarrow> i < pe \<and> i < length d"
  by (induction d e i rule: packet_scan.induct)
    (subst (asm) (3) packet_scan.simps, force split: if_splits option.splits dest: packet_end_later)

function packet_count :: "char list \<Rightarrow> nat \<Rightarrow> nat \<Rightarrow> nat option" where
  "packet_count d e i = (case packet_scan d e i of
     None \<Rightarrow> None
   | Some None \<Rightarrow> Some 0
   | Some (Some pe) \<Rightarrow> map_option Suc (packet_count d e (pe + 1)))"
  by pat_completeness auto
termination by (relation "measure (\<lambda>(d, e, i). length d - i)") (auto dest: packet_scan_later)

definition esl_buffer_packet_count :: "esl_buffer \<Rightarrow> nat option" where
  "esl_buffer_packet_count b = packet_count (bdata b) (bhead b + bused b) (bhead b)"

definition esl_buffer_read_packet :: "esl_buffer \<Rightarrow> nat \<Rightarrow> (string \<times> esl_buffer) option" where
  "esl_buffer_read_packet b maxlen = do {
     r \<leftarrow> packet_scan (bdata b) (bhead b + bused b) (bhead b);
     esl_buffer_read b (case r of None \<Rightarrow> 0 | Some pe \<Rightarrow> min (pe + 1 - bhead b) maxlen)
   }"

text \<open>\<^verbatim>\<open>memmove\<close> of the bytes in use to the front of the block.\<close>

definition buffer_compact :: "esl_buffer \<Rightarrow> esl_buffer option" where
  "buffer_compact b =
     (if bhead b + bused b > length (bdata b) then None
      else Some (b\<lparr>bdata := take (bused b) (drop (bhead b) (bdata b)) @ drop (bused b) (bdata b), bhead := 0, bactual := bused b\<rparr>))"

definition buffer_grow :: "alloc_env \<Rightarrow> esl_buffer \<Rightarrow> nat \<Rightarrow> bool \<times> esl_buffer" where
  "buffer_grow env b n =
     (let new_size = max (bdatalen b + n) (bdatalen b + bblocksize b) in
      case c_realloc env (bdata b) new_size of
        None \<Rightarrow> (False, b\<lparr>bhead := 0\<rparr>)
      | Some d \<Rightarrow> (True, b\<lparr>bdata := d, bhead := 0, bdatalen := new_size\<rparr>))"

definition esl_buffer_write :: "alloc_env \<Rightarrow> esl_buffer \<Rightarrow> string \<Rightarrow> (nat \<times> esl_buffer) option" where
  "esl_buffer_write env b bs =
     (if bdata b = [] then None
      else if bs = [] then Some (bused b, b)
      else do {
        let n = length bs;
        b \<leftarrow> (if size_sub (bdatalen b) (bactual b) < n \<and> (bmax_len b = 0 \<or> bused b + n \<le> bmax_len b) then buffer_compact b else Some b);
        let (ok, b) = (if size_sub (bdatalen b) (bused b) < n then buffer_grow env b n else (True, b));
        if \<not> ok \<or> size_sub (bdatalen b) (bused b) < n then Some (0, b)
        else do {
          d \<leftarrow> put_bytes (bdata b) (bhead b + bused b) bs;
          Some (bused b + n, b\<lparr>bdata := d, bused := bused b + n, bactual := bactual b + n\<rparr>)
        }
      })"

definition esl_buffer_zero :: "esl_buffer \<Rightarrow> esl_buffer option" where
  "esl_buffer_zero b = (if bdata b = [] then None else Some (b\<lparr>bused := 0, bactual := 0, bhead := 0\<rparr>))"

definition esl_buffer_zwrite :: "alloc_env \<Rightarrow> esl_buffer \<Rightarrow> string \<Rightarrow> (nat \<times> esl_buffer) option" where
  "esl_buffer_zwrite env b bs = do {
     (w, b) \<leftarrow> esl_buffer_write env b bs;
     if w = 0 then do { b \<leftarrow> esl_buffer_zero b; esl_buffer_write env b bs } else Some (w, b)
   }"

section \<open>The queue of bytes\<close>

definition buffer_ok :: "esl_buffer \<Rightarrow> bool" where
  "buffer_ok b \<longleftrightarrow> bdata b \<noteq> [] \<and> length (bdata b) = bdatalen b \<and> bhead b + bused b = bactual b \<and> bactual b \<le> bdatalen b \<and> bmax_len b = 0"

definition held_bytes :: "esl_buffer \<Rightarrow> string" where
  "held_bytes b = take (bused b) (drop (bhead b) (bdata b))"

lemma held_bytes_length: "buffer_ok b \<Longrightarrow> length (held_bytes b) = bused b"
  by (auto simp: buffer_ok_def held_bytes_def)

lemma held_bytes_nth: "buffer_ok b \<Longrightarrow> i < bused b \<Longrightarrow> held_bytes b ! i = bdata b ! (bhead b + i)"
  by (simp add: buffer_ok_def held_bytes_def)

lemma create_ok:
  assumes "esl_buffer_create env blocksize start_len 0 = Some b" "start_len \<noteq> 0"
  shows "buffer_ok b \<and> held_bytes b = []"
  using assms by (auto simp: esl_buffer_create_def buffer_ok_def held_bytes_def split: if_splits)

lemma buffer_compact_ok:
  assumes "buffer_ok b"
  shows "\<exists>b'. buffer_compact b = Some b' \<and> buffer_ok b' \<and> held_bytes b' = held_bytes b \<and> bhead b' = 0 \<and> bused b' = bused b \<and>
     bdatalen b' = bdatalen b \<and> bblocksize b' = bblocksize b"
proof -
  have l: "bhead b + bused b \<le> length (bdata b)" using assms by (simp add: buffer_ok_def)
  then have "length (take (bused b) (drop (bhead b) (bdata b))) = bused b" by simp
  then have "length (take (bused b) (drop (bhead b) (bdata b)) @ drop (bused b) (bdata b)) = bdatalen b"
    using assms l by (auto simp: buffer_ok_def)
  moreover have "bdatalen b \<noteq> 0" using assms by (metis buffer_ok_def length_0_conv)
  ultimately show ?thesis using assms l by (auto simp: buffer_compact_def buffer_ok_def held_bytes_def)
qed

lemma buffer_grow_ok:
  assumes "buffer_ok b" "bhead b = 0" "0 < n"
  shows "\<exists>ok b'. buffer_grow env b n = (ok, b') \<and> buffer_ok b' \<and> held_bytes b' = held_bytes b \<and> bhead b' = 0 \<and> bused b' = bused b \<and>
     (ok \<longrightarrow> bused b + n \<le> bdatalen b') \<and> ((\<forall>k. alloc_ok env k) \<longrightarrow> ok)"
proof (cases "alloc_ok env (max (bdatalen b + n) (bdatalen b + bblocksize b))")
  case True
  let ?n = "max (bdatalen b + n) (bdatalen b + bblocksize b)"
  let ?d = "take ?n (bdata b) @ map (alloc_junk env) [length (bdata b) ..< ?n]"
  have l: "bused b \<le> length (bdata b)" "length (bdata b) = bdatalen b" "bactual b = bused b" "bdata b \<noteq> []" "bmax_len b = 0"
    using assms(1,2) by (auto simp: buffer_ok_def)
  have g: "buffer_grow env b n = (True, b\<lparr>bdata := ?d, bhead := 0, bdatalen := ?n\<rparr>)"
    using True by (simp add: buffer_grow_def c_realloc_def Let_def)
  have d: "?d = bdata b @ map (alloc_junk env) [length (bdata b) ..< ?n]" using l(2) by simp
  have "length ?d = ?n" unfolding d using l(2) by simp
  then have "buffer_ok (b\<lparr>bdata := ?d, bhead := 0, bdatalen := ?n\<rparr>)"
    using l by (simp add: buffer_ok_def)
  moreover have "held_bytes (b\<lparr>bdata := ?d, bhead := 0, bdatalen := ?n\<rparr>) = held_bytes b"
    unfolding d using l assms(2) by (simp add: held_bytes_def)
  moreover have "bused b + n \<le> ?n" using l by simp
  ultimately show ?thesis using g by (intro exI [of _ True] exI [of _ "b\<lparr>bdata := ?d, bhead := 0, bdatalen := ?n\<rparr>"]) simp
next
  case False
  have "b\<lparr>bhead := 0\<rparr> = b" using assms(2) by simp
  then have "buffer_grow env b n = (False, b)" using False by (simp add: buffer_grow_def c_realloc_def Let_def)
  with assms False show ?thesis by (intro exI [of _ False] exI [of _ b]) auto
qed

lemma put_held:
  assumes "buffer_ok b" "bactual b + length bs \<le> bdatalen b"
  shows "\<exists>d. put_bytes (bdata b) (bhead b + bused b) bs = Some d \<and>
     buffer_ok (b\<lparr>bdata := d, bused := bused b + length bs, bactual := bactual b + length bs\<rparr>) \<and>
     held_bytes (b\<lparr>bdata := d, bused := bused b + length bs, bactual := bactual b + length bs\<rparr>) = held_bytes b @ bs"
proof -
  have l: "bhead b + bused b + length bs \<le> length (bdata b)" using assms by (simp add: buffer_ok_def)
  let ?d = "take (bhead b + bused b) (bdata b) @ bs @ drop (bhead b + bused b + length bs) (bdata b)"
  have "drop (bhead b) (take (bhead b + bused b) (bdata b)) = held_bytes b"
    by (simp add: held_bytes_def drop_take)
  then have "take (bused b + length bs) (drop (bhead b) ?d) = held_bytes b @ bs"
    using l held_bytes_length [OF assms(1)] by simp
  moreover have "length ?d = bdatalen b" using l assms(1) by (simp add: buffer_ok_def)
  ultimately show ?thesis using l assms by (auto simp: put_bytes_def buffer_ok_def held_bytes_def simp flip: add.assoc)
qed

text \<open>What a write does, whether or not memory can be had.\<close>

lemma write_effect:
  assumes "buffer_ok b"
  shows "\<exists>w b'. esl_buffer_write env b bs = Some (w, b') \<and> buffer_ok b' \<and>
     (held_bytes b' = held_bytes b @ bs \<and> w = length (held_bytes b') \<or> w = 0 \<and> held_bytes b' = held_bytes b) \<and>
     ((\<forall>k. alloc_ok env k) \<longrightarrow> held_bytes b' = held_bytes b @ bs)"
proof (cases "bs = []")
  case True
  then show ?thesis using assms by (auto simp: esl_buffer_write_def buffer_ok_def held_bytes_length)
next
  case False
  let ?n = "length bs"
  have n: "0 < ?n" using False by simp
  have ne: "bdata b \<noteq> []" "bmax_len b = 0" "bactual b \<le> bdatalen b" using assms by (auto simp: buffer_ok_def)
  have s: "size_sub (bdatalen c) (bactual c) = bdatalen c - bactual c" "size_sub (bdatalen c) (bused c) = bdatalen c - bused c" if "buffer_ok c" for c
    using that by (auto simp: buffer_ok_def size_sub_def)
  have "\<exists>b1. (if size_sub (bdatalen b) (bactual b) < ?n \<and> (bmax_len b = 0 \<or> bused b + ?n \<le> bmax_len b) then buffer_compact b else Some b) = Some b1 \<and>
     buffer_ok b1 \<and> held_bytes b1 = held_bytes b \<and> (bhead b1 = 0 \<or> bactual b1 + ?n \<le> bdatalen b1)"
    using buffer_compact_ok [OF assms] s(1) [OF assms] ne assms by (auto simp: not_less)
  then obtain b1 where b1: "(if size_sub (bdatalen b) (bactual b) < ?n \<and> (bmax_len b = 0 \<or> bused b + ?n \<le> bmax_len b) then buffer_compact b else Some b) = Some b1"
    "buffer_ok b1" "held_bytes b1 = held_bytes b" "bhead b1 = 0 \<or> bactual b1 + ?n \<le> bdatalen b1" by blast
  have "\<exists>ok b2. (if size_sub (bdatalen b1) (bused b1) < ?n then buffer_grow env b1 ?n else (True, b1)) = (ok, b2) \<and> buffer_ok b2 \<and>
     held_bytes b2 = held_bytes b \<and> (ok \<longrightarrow> bactual b2 + ?n \<le> bdatalen b2) \<and> ((\<forall>k. alloc_ok env k) \<longrightarrow> ok)"
  proof (cases "bdatalen b1 - bused b1 < ?n")
    case True
    then have "bhead b1 = 0" using b1(2,4) by (auto simp: buffer_ok_def)
    from buffer_grow_ok [OF b1(2) this n, of env] obtain ok b2 where g: "buffer_grow env b1 ?n = (ok, b2)" "buffer_ok b2" "held_bytes b2 = held_bytes b1"
      "bhead b2 = 0" "bused b2 = bused b1" "ok \<longrightarrow> bused b1 + ?n \<le> bdatalen b2" "(\<forall>k. alloc_ok env k) \<longrightarrow> ok" by blast
    then have "bactual b2 = bused b1" by (auto simp: buffer_ok_def)
    with True g b1(3) s(2) [OF b1(2)] show ?thesis by auto
  next
    case False
    then have "bactual b1 + ?n \<le> bdatalen b1" using b1(2,4) n by (auto simp: buffer_ok_def)
    with False b1 s(2) [OF b1(2)] show ?thesis by auto
  qed
  then obtain ok b2 where b2: "(if size_sub (bdatalen b1) (bused b1) < ?n then buffer_grow env b1 ?n else (True, b1)) = (ok, b2)" "buffer_ok b2"
     "held_bytes b2 = held_bytes b" "ok \<longrightarrow> bactual b2 + ?n \<le> bdatalen b2" "(\<forall>k. alloc_ok env k) \<longrightarrow> ok" by blast
  have w: "esl_buffer_write env b bs =
     (if \<not> ok \<or> size_sub (bdatalen b2) (bused b2) < ?n then Some (0, b2)
      else do { d \<leftarrow> put_bytes (bdata b2) (bhead b2 + bused b2) bs; Some (bused b2 + ?n, b2\<lparr>bdata := d, bused := bused b2 + ?n, bactual := bactual b2 + ?n\<rparr>) })"
    using ne(1) False b1(1) b2(1) by (simp add: esl_buffer_write_def Let_def)
  show ?thesis
  proof (cases ok)
    case True
    with b2 have r: "bactual b2 + ?n \<le> bdatalen b2" by blast
    then have "\<not> size_sub (bdatalen b2) (bused b2) < ?n" using s(2) [OF b2(2)] b2(2) by (auto simp: buffer_ok_def)
    with put_held [OF b2(2) r] w True b2(3) show ?thesis
      using held_bytes_length by fastforce
  qed (use w b2 in auto)
qed

lemma read_effect:
  assumes "buffer_ok b"
  shows "\<exists>b'. esl_buffer_read b n = Some (take n (held_bytes b), b') \<and> buffer_ok b' \<and> held_bytes b' = drop n (held_bytes b)"
proof (cases "bused b < 1")
  case True
  then show ?thesis using assms by (auto simp: esl_buffer_read_def buffer_ok_def held_bytes_def)
next
  case False
  let ?r = "min n (bused b)"
  have l: "bhead b + bused b \<le> length (bdata b)" using assms by (auto simp: buffer_ok_def)
  have "esl_buffer_read b n = Some (take ?r (drop (bhead b) (bdata b)), b\<lparr>bused := bused b - ?r, bhead := bhead b + ?r\<rparr>)"
    using False l by (auto simp: esl_buffer_read_def min_def Let_def)
  moreover have "take ?r (drop (bhead b) (bdata b)) = take n (held_bytes b)" by (simp add: held_bytes_def min.commute)
  moreover have "held_bytes (b\<lparr>bused := bused b - ?r, bhead := bhead b + ?r\<rparr>) = drop n (held_bytes b)"
    using l by (auto simp: held_bytes_def drop_take min_def add.commute)
  ultimately show ?thesis using assms by (auto simp: buffer_ok_def)
qed

text \<open>
  The contract of a queue of bytes: a write appends all or nothing, a read takes from the front. Whatever
  the writes and reads, the bytes that were read and those that are held are the bytes that were accepted.
\<close>

datatype buffer_op = Put string | Get nat

text \<open>The bytes accepted and the bytes read by a sequence of operations.\<close>

fun run_ops :: "('b \<Rightarrow> string \<Rightarrow> (nat \<times> 'b) option) \<Rightarrow> ('b \<Rightarrow> nat \<Rightarrow> (string \<times> 'b) option) \<Rightarrow> buffer_op list \<Rightarrow> 'b \<Rightarrow>
    (string \<times> string \<times> 'b) option" where
  "run_ops put get [] b = Some ([], [], b)"
| "run_ops put get (Put bs # ops) b = do {
     (w, b) \<leftarrow> put b bs;
     (i, o', b) \<leftarrow> run_ops put get ops b;
     Some ((if w = 0 then [] else bs) @ i, o', b)
   }"
| "run_ops put get (Get n # ops) b = do {
     (r, b) \<leftarrow> get b n;
     (i, o', b) \<leftarrow> run_ops put get ops b;
     Some (i, r @ o', b)
   }"

fun offered :: "buffer_op list \<Rightarrow> string" where
  "offered [] = []"
| "offered (Put bs # ops) = bs @ offered ops"
| "offered (Get n # ops) = offered ops"

locale byte_queue =
  fixes ok :: "'b \<Rightarrow> bool" and bytes :: "'b \<Rightarrow> string"
    and put :: "'b \<Rightarrow> string \<Rightarrow> (nat \<times> 'b) option" and get :: "'b \<Rightarrow> nat \<Rightarrow> (string \<times> 'b) option"
  assumes put_law: "ok b \<Longrightarrow> \<exists>w b'. put b bs = Some (w, b') \<and> ok b' \<and>
      (bytes b' = bytes b @ bs \<and> w = length (bytes b') \<or> w = 0 \<and> bytes b' = bytes b)"
    and get_law: "ok b \<Longrightarrow> \<exists>b'. get b n = Some (take n (bytes b), b') \<and> ok b' \<and> bytes b' = drop n (bytes b)"
begin

lemma run_ops_fifo: "ok b \<Longrightarrow> \<exists>i o' b'. run_ops put get ops b = Some (i, o', b') \<and> ok b' \<and> bytes b @ i = o' @ bytes b'"
proof (induction ops arbitrary: b)
  case (Cons x ops)
  show ?case
  proof (cases x)
    case (Put bs)
    from put_law [OF Cons.prems, of bs] obtain w b1 where p: "put b bs = Some (w, b1)" "ok b1"
      "bytes b1 = bytes b @ bs \<and> w = length (bytes b1) \<or> w = 0 \<and> bytes b1 = bytes b" by blast
    from Cons.IH [OF p(2)] obtain i o' b2 where r: "run_ops put get ops b1 = Some (i, o', b2)" "ok b2" "bytes b1 @ i = o' @ bytes b2" by blast
    have "bytes b1 = bytes b @ (if w = 0 then [] else bs)" using p(3) by auto
    with p r Put show ?thesis by auto
  next
    case (Get n)
    from get_law [OF Cons.prems, of n] obtain b1 where g: "get b n = Some (take n (bytes b), b1)" "ok b1" "bytes b1 = drop n (bytes b)" by blast
    from Cons.IH [OF g(2)] obtain i o' b2 where r: "run_ops put get ops b1 = Some (i, o', b2)" "ok b2" "bytes b1 @ i = o' @ bytes b2" by blast
    then have "bytes b @ i = (take n (bytes b) @ o') @ bytes b2" using g(3) by (metis append.assoc append_take_drop_id)
    with g r Get show ?thesis by auto
  qed
qed simp

end

text \<open>A queue that always has room accepts everything.\<close>

locale byte_queue_room = byte_queue +
  assumes room_law: "ok b \<Longrightarrow> \<exists>w b'. put b bs = Some (w, b') \<and> bytes b' = bytes b @ bs"
begin

lemma run_ops_offered: "ok b \<Longrightarrow> run_ops put get ops b = Some (i, o', b') \<Longrightarrow> i = offered ops"
proof (induction ops arbitrary: b i o' b')
  case (Cons x ops)
  show ?case
  proof (cases x)
    case (Put bs)
    from put_law [OF Cons.prems(1), of bs] room_law [OF Cons.prems(1), of bs] obtain w b1 where
      p: "put b bs = Some (w, b1)" "ok b1" "bytes b1 = bytes b @ bs" "bytes b1 = bytes b @ bs \<and> w = length (bytes b1) \<or> w = 0 \<and> bytes b1 = bytes b" by auto
    from Cons.prems(2) p(1) Put obtain j where j: "run_ops put get ops b1 = Some (j, o', b')" "i = (if w = 0 then [] else bs) @ j"
      by (auto simp: bind_Some_iff split: if_splits)
    have "(if w = 0 then [] else bs) = bs" using p(3,4) by auto
    then show ?thesis using Cons.IH [OF p(2) j(1)] j(2) Put by simp
  next
    case (Get n)
    from get_law [OF Cons.prems(1), of n] obtain b1 where g: "get b n = Some (take n (bytes b), b1)" "ok b1" by blast
    from Cons.prems(2) g(1) Get obtain p where "run_ops put get ops b1 = Some (i, p, b')" by (auto simp: bind_Some_iff)
    with Cons.IH [OF g(2)] Get show ?thesis by auto
  qed
qed simp

end

interpretation esl_bytes: byte_queue buffer_ok held_bytes "esl_buffer_write env" esl_buffer_read for env
  by unfold_locales (use write_effect read_effect in blast)+

interpretation esl_bytes_plenty: byte_queue_room buffer_ok held_bytes
  "esl_buffer_write \<lparr>alloc_ok = \<lambda>_. True, alloc_junk = junk\<rparr>" esl_buffer_read for junk
proof unfold_locales
  fix b bs assume "buffer_ok b"
  from write_effect [OF this, of "\<lparr>alloc_ok = \<lambda>_. True, alloc_junk = junk\<rparr>" bs]
  show "\<exists>w b'. esl_buffer_write \<lparr>alloc_ok = \<lambda>_. True, alloc_junk = junk\<rparr> b bs = Some (w, b') \<and> held_bytes b' = held_bytes b @ bs" by auto
qed

section \<open>Packets\<close>

text \<open>A packet ends with the first empty line: the length of the first packet of a text.\<close>

fun packet_len :: "string \<Rightarrow> nat option" where
  "packet_len (c # d # r) =
     (if c = LF \<and> d = LF then Some 2
      else if c = LF \<and> d = CR \<and> r \<noteq> [] \<and> hd r = LF then Some 3
      else map_option Suc (packet_len (d # r)))"
| "packet_len _ = None"

lemma packet_len_bound: "packet_len s = Some n \<Longrightarrow> 0 < n \<and> n \<le> length s"
proof (induction s arbitrary: n rule: packet_len.induct)
  case (1 c d r)
  then show ?case by (cases r) (auto split: if_splits)
qed auto

lemma packet_len_more: "packet_len s = Some n \<Longrightarrow> packet_len (s @ t) = Some n"
proof (induction s arbitrary: n rule: packet_len.induct)
  case (1 c d r)
  then show ?case by (cases r) (auto split: if_splits)
qed auto

lemma packet_len_single: "packet_len [c] = None"
  by simp

text \<open>The scan finds that packet when the byte behind the bytes in use is none that it looks for.\<close>

lemma packet_end_spec:
  assumes "e < length d" "d ! e = NUL" "Suc i = e \<and> r = [] \<or> Suc i < e \<and> r \<noteq> []" "r = take (e - Suc i) (drop (Suc i) d)"
  shows "packet_end d e i = Some (if r \<noteq> [] \<and> hd r = LF then Some (i + 1)
     else if r \<noteq> [] \<and> hd r = CR \<and> tl r \<noteq> [] \<and> hd (tl r) = LF then Some (i + 2) else None)"
proof -
  have "(LF :: char) \<noteq> CR" by simp
  consider "Suc i = e" | "Suc (Suc i) = e" | "Suc (Suc i) < e" using assms(3) by linarith
  then show ?thesis
  proof cases
    case 1
    then show ?thesis using assms by (simp add: packet_end_def peek_def)
  next
    case 2
    then have "drop (Suc i) d = d ! Suc i # drop e d" using assms(1) by (metis Cons_nth_drop_Suc Suc_lessD)
    then have "r = [d ! Suc i]" using 2 assms(4) by auto
    then show ?thesis using 2 assms(1,2) by (auto simp: packet_end_def peek_def)
  next
    case 3
    then obtain k where k: "e = Suc (Suc (Suc i)) + k" by (metis Suc_leI le_Suc_ex)
    have "drop (Suc i) d = d ! Suc i # d ! Suc (Suc i) # drop (Suc (Suc (Suc i))) d"
      using assms(1) 3 by (metis Cons_nth_drop_Suc Suc_lessD less_trans)
    then have "r = d ! Suc i # d ! Suc (Suc i) # take k (drop (Suc (Suc (Suc i))) d)" using k assms(4) by simp
    then show ?thesis using 3 assms(1) by (auto simp: packet_end_def peek_def)
  qed
qed

lemma packet_len_Cons:
  "packet_len (c # r) =
     (if c = LF \<and> r \<noteq> [] \<and> hd r = LF then Some 2
      else if c = LF \<and> r \<noteq> [] \<and> hd r = CR \<and> tl r \<noteq> [] \<and> hd (tl r) = LF then Some 3
      else map_option Suc (packet_len r))"
  by (cases r) auto

lemma packet_scan_spec:
  assumes "i \<le> e" "e < length d" "d ! e = NUL" "NUL \<notin> set (take (e - i) (drop i d))"
  shows "packet_scan d e i = Some (map_option (\<lambda>n. i + n - 1) (packet_len (take (e - i) (drop i d))))"
  using assms
proof (induction "e - i" arbitrary: i)
  case 0
  then show ?case by (subst packet_scan.simps) simp
next
  case (Suc k)
  have i: "i < e" "i < length d" using Suc by auto
  define r where "r = take (e - Suc i) (drop (Suc i) d)"
  have t: "take (e - i) (drop i d) = d ! i # r"
    using i unfolding r_def by (metis Cons_nth_drop_Suc Suc_diff_Suc take_Suc_Cons)
  have n: "d ! i \<noteq> NUL" "NUL \<notin> set r" using Suc.prems(4) unfolding t by auto
  have IH: "packet_scan d e (i + 1) = Some (map_option (\<lambda>n. Suc i + n - 1) (packet_len r))"
    using Suc.hyps(1) [of "Suc i"] Suc n(2) i unfolding r_def by auto
  have e: "packet_end d e i = Some (if r \<noteq> [] \<and> hd r = LF then Some (i + 1)
     else if r \<noteq> [] \<and> hd r = CR \<and> tl r \<noteq> [] \<and> hd (tl r) = LF then Some (i + 2) else None)"
    by (rule packet_end_spec [OF assms(2,3) _ r_def]) (use i assms(2) in \<open>auto simp: r_def\<close>)
  have m: "map_option (\<lambda>n. Suc i + n - 1) (packet_len r) = map_option (\<lambda>n. i + n - 1) (map_option Suc (packet_len r))"
    by (simp add: option.map_comp comp_def)
  have "packet_scan d e i = (if d ! i = LF then (case packet_end d e i of None \<Rightarrow> None | Some (Some pe) \<Rightarrow> Some (Some pe)
      | Some None \<Rightarrow> packet_scan d e (i + 1)) else packet_scan d e (i + 1))"
    using i n(1) by (subst packet_scan.simps) simp
  then show ?case unfolding t packet_len_Cons e IH m by (cases "d ! i = LF") simp_all
qed

text \<open>
  The bytes behind the used part of the block are 0 until the block is reused: a buffer has them from
  its creation on, and reads and writes at the end of the block keep them.
\<close>

definition fresh :: "esl_buffer \<Rightarrow> bool" where
  "fresh b \<longleftrightarrow> buffer_ok b \<and> bactual b < bdatalen b \<and> (\<forall>k. bactual b \<le> k \<and> k < bdatalen b \<longrightarrow> bdata b ! k = NUL)"

definition room :: "esl_buffer \<Rightarrow> nat" where
  "room b = bdatalen b - bactual b"

lemma create_fresh:
  "esl_buffer_create env bs start 0 = Some b \<Longrightarrow> 0 < start \<Longrightarrow> fresh b \<and> held_bytes b = [] \<and> room b = start"
  using create_ok [of env bs start b] by (auto simp: esl_buffer_create_def fresh_def room_def split: if_splits)

lemma read_fresh:
  assumes "fresh b"
  shows "\<exists>b'. esl_buffer_read b n = Some (take n (held_bytes b), b') \<and> fresh b' \<and> held_bytes b' = drop n (held_bytes b) \<and> room b' = room b"
proof -
  from assms have "buffer_ok b" by (simp add: fresh_def)
  from read_effect [OF this, of n] obtain b' where b': "esl_buffer_read b n = Some (take n (held_bytes b), b')" "buffer_ok b'"
    "held_bytes b' = drop n (held_bytes b)" by blast
  then have "bdata b' = bdata b" "bactual b' = bactual b" "bdatalen b' = bdatalen b"
    by (auto simp: esl_buffer_read_def Let_def split: if_splits)
  with assms b' show ?thesis by (auto simp: fresh_def room_def)
qed

lemma write_fresh:
  assumes "fresh b" "length bs < room b"
  shows "\<exists>w b'. esl_buffer_write env b bs = Some (w, b') \<and> fresh b' \<and> held_bytes b' = held_bytes b @ bs \<and> room b' = room b - length bs"
proof (cases "bs = []")
  case True
  with assms show ?thesis by (auto simp: esl_buffer_write_def fresh_def buffer_ok_def room_def held_bytes_def)
next
  case False
  let ?n = "length bs"
  have ok: "buffer_ok b" "bactual b + ?n < bdatalen b" using assms by (auto simp: fresh_def room_def)
  then have l: "bhead b + bused b = bactual b" "length (bdata b) = bdatalen b" "bdata b \<noteq> []" by (auto simp: buffer_ok_def)
  have s: "\<not> size_sub (bdatalen b) (bactual b) < ?n" "\<not> size_sub (bdatalen b) (bused b) < ?n"
    using ok l by (auto simp: size_sub_def)
  from put_held [OF ok(1), of bs] ok(2) obtain d where d: "put_bytes (bdata b) (bhead b + bused b) bs = Some d"
    "buffer_ok (b\<lparr>bdata := d, bused := bused b + ?n, bactual := bactual b + ?n\<rparr>)"
    "held_bytes (b\<lparr>bdata := d, bused := bused b + ?n, bactual := bactual b + ?n\<rparr>) = held_bytes b @ bs" by auto
  have dk: "d ! k = bdata b ! k" if "bactual b + ?n \<le> k" "k < bdatalen b" for k
    using d(1) that l by (auto simp: put_bytes_def nth_append min_def split: if_splits)
  have "esl_buffer_write env b bs = Some (bused b + ?n, b\<lparr>bdata := d, bused := bused b + ?n, bactual := bactual b + ?n\<rparr>)"
    using False l(3) s d(1) by (simp add: esl_buffer_write_def Let_def)
  moreover have "fresh (b\<lparr>bdata := d, bused := bused b + ?n, bactual := bactual b + ?n\<rparr>)"
    using assms(1) ok(2) d(2) dk by (simp add: fresh_def)
  ultimately show ?thesis using d(3) by (simp add: room_def)
qed

lemma read_packet_fresh:
  assumes "fresh b" "NUL \<notin> set (held_bytes b)"
  shows "\<exists>b'. esl_buffer_read_packet b maxlen = Some (take (case packet_len (held_bytes b) of None \<Rightarrow> 0 | Some n \<Rightarrow> min n maxlen) (held_bytes b), b') \<and>
     fresh b' \<and> held_bytes b' = drop (case packet_len (held_bytes b) of None \<Rightarrow> 0 | Some n \<Rightarrow> min n maxlen) (held_bytes b) \<and> room b' = room b"
proof -
  let ?k = "case packet_len (held_bytes b) of None \<Rightarrow> 0 | Some n \<Rightarrow> min n maxlen"
  have "packet_scan (bdata b) (bhead b + bused b) (bhead b) = Some (map_option (\<lambda>n. bhead b + n - 1) (packet_len (held_bytes b)))"
    using packet_scan_spec [of "bhead b" "bhead b + bused b" "bdata b"] assms by (auto simp: fresh_def buffer_ok_def held_bytes_def)
  then have "esl_buffer_read_packet b maxlen = esl_buffer_read b ?k"
    using packet_len_bound [of "held_bytes b"] by (auto simp: esl_buffer_read_packet_def split: option.split)
  with read_fresh [OF assms(1), of ?k] show ?thesis by simp
qed

section \<open>Properties\<close>

text \<open>
  C16: the buffer of the client library, made without an upper limit, is a queue of bytes: after any writes and
  reads the bytes accepted are those that were read followed by those that are held, whatever
  memory can be had, and with memory for every request nothing is refused.
\<close>

theorem esl_buffer_fifo:
  assumes "esl_buffer_create env blocksize start 0 = Some b" "start \<noteq> 0"
  shows "\<exists>i o' b'. run_ops (esl_buffer_write env) esl_buffer_read ops b = Some (i, o', b') \<and> i = o' @ held_bytes b' \<and>
     esl_buffer_inuse b' = length i - length o' \<and> (alloc_ok env = (\<lambda>_. True) \<longrightarrow> i = offered ops)"
proof -
  have b: "buffer_ok b" "held_bytes b = []" using create_ok [OF assms] by auto
  from esl_bytes.run_ops_fifo [OF b(1), of env ops] b(2) obtain i o' b' where
    r: "run_ops (esl_buffer_write env) esl_buffer_read ops b = Some (i, o', b')" "buffer_ok b'" "i = o' @ held_bytes b'" by auto
  have "i = offered ops" if "alloc_ok env = (\<lambda>_. True)"
  proof -
    have "env = \<lparr>alloc_ok = \<lambda>_. True, alloc_junk = alloc_junk env\<rparr>" using that by simp
    then show ?thesis using esl_bytes_plenty.run_ops_offered [OF b(1), of "alloc_junk env" ops i o' b'] r(1) by metis
  qed
  with r held_bytes_length [OF r(2)] show ?thesis by (auto simp: esl_buffer_inuse_def)
qed

theorem esl_buffer_fifo_witness:
  "\<exists>i o' b'. run_ops (esl_buffer_write \<lparr>alloc_ok = \<lambda>_. True, alloc_junk = \<lambda>_. CHR ''?''\<rparr>) esl_buffer_read
       [Put ''abcdef'', Get 4, Put ''ghijkl'', Get 3]
       \<lparr>bdata = replicate 4 NUL, bhead = 0, bused = 0, bactual = 0, bdatalen = 4, bmax_len = 0, bblocksize = 4, bloops = 0\<rparr> = Some (i, o', b') \<and>
     i = ''abcdefghijkl'' \<and> i = o' @ held_bytes b'"
proof -
  let ?env = "\<lparr>alloc_ok = \<lambda>_. True, alloc_junk = \<lambda>_. CHR ''?''\<rparr>"
  have "esl_buffer_create ?env 4 4 0 =
     Some \<lparr>bdata = replicate 4 NUL, bhead = 0, bused = 0, bactual = 0, bdatalen = 4, bmax_len = 0, bblocksize = 4, bloops = 0\<rparr>"
    by (simp add: esl_buffer_create_def)
  from esl_buffer_fifo [OF this, of "[Put ''abcdef'', Get 4, Put ''ghijkl'', Get 3]"] show ?thesis by auto
qed

lemma packet_end_inside:
  assumes "i < e" "e < length d"
  shows "packet_end d e i \<noteq> None" "packet_end d e i = Some (Some pe) \<Longrightarrow> pe \<le> e"
  using assms by (auto simp: packet_end_def peek_def Let_def split: if_splits)

lemma packet_scan_inside:
  "e < length d \<Longrightarrow> i < length d \<Longrightarrow> packet_scan d e i \<noteq> None \<and> (\<forall>pe. packet_scan d e i = Some (Some pe) \<longrightarrow> pe \<le> e)"
proof (induction d e i rule: packet_scan.induct)
  case (1 d e i)
  show ?case
  proof (cases "d ! i = NUL \<or> e \<le> i")
    case True
    then show ?thesis using 1(4) by (subst (1 2) packet_scan.simps) auto
  next
    case False
    with 1(3) have i: "i < e" "i + 1 < length d" by auto
    note p = packet_end_inside [OF i(1) 1(3)]
    show ?thesis
    proof (cases "d ! i = LF")
      case True
      then show ?thesis using False 1(1,3,4) i p by (subst (1 2) packet_scan.simps) (auto split: option.splits)
    next
      case no: False
      then show ?thesis using False 1(2-4) i by (subst (1 2) packet_scan.simps) auto
    qed
  qed
qed

lemma packet_count_inside: "e + 1 < length d \<Longrightarrow> i < length d \<Longrightarrow> packet_count d e i \<noteq> None"
proof (induction d e i rule: packet_count.induct)
  case (1 d e i)
  then have "e < length d" by simp
  from packet_scan_inside [OF this 1(3)] obtain r where r: "packet_scan d e i = Some r" "\<forall>pe. r = Some pe \<longrightarrow> pe \<le> e" by blast
  show ?case
  proof (cases r)
    case None
    with r(1) show ?thesis by (subst packet_count.simps) (simp del: packet_count.simps)
  next
    case (Some pe)
    then have "pe + 1 < length d" using r(2) 1(2) by auto
    with 1(1) [OF r(1) Some 1(2)] r(1) Some show ?thesis by (subst packet_count.simps) (simp del: packet_count.simps)
  qed
qed

text \<open>
  C17: on a well-formed buffer without a limit the operations that write, read, empty, move and drop stay inside of its block, whatever memory can be
  had, and leave a well-formed buffer: no more bytes are in use than there are in the block. The two operations that look for
  packets read behind the bytes that are held: taking a packet stays inside if one byte of the block is free behind them, and
  counting packets if two are.
\<close>

theorem esl_buffer_operations_ok:
  assumes "buffer_ok b"
  shows "(\<exists>w b'. esl_buffer_write env b bs = Some (w, b') \<and> buffer_ok b') \<and> (\<exists>w b'. esl_buffer_zwrite env b bs = Some (w, b') \<and> buffer_ok b') \<and>
     (\<exists>r b'. esl_buffer_read b n = Some (r, b') \<and> buffer_ok b') \<and> (\<exists>k r b'. esl_buffer_read_loop b n = Some (k, r, b') \<and> buffer_ok b') \<and>
     (\<exists>b'. esl_buffer_zero b = Some b' \<and> buffer_ok b') \<and> buffer_ok (snd (esl_buffer_seek b n)) \<and> buffer_ok (snd (esl_buffer_toss b n)) \<and>
     esl_buffer_inuse b \<le> esl_buffer_len b \<and>
     (bactual b < bdatalen b \<longrightarrow> (\<exists>r b'. esl_buffer_read_packet b n = Some (r, b') \<and> buffer_ok b')) \<and>
     (bactual b + 1 < bdatalen b \<longrightarrow> esl_buffer_packet_count b \<noteq> None)"
proof -
  have w: "\<exists>w b'. esl_buffer_write env c bs = Some (w, b') \<and> buffer_ok b'" if "buffer_ok c" for c
    using write_effect [OF that, of env bs] by blast
  have z: "\<exists>b'. esl_buffer_zero c = Some b' \<and> buffer_ok b'" if "buffer_ok c" for c
    using that by (auto simp: esl_buffer_zero_def buffer_ok_def)
  obtain k b1 where b1: "esl_buffer_write env b bs = Some (k, b1)" "buffer_ok b1" using w [OF assms] by blast
  obtain b2 where b2: "esl_buffer_zero b1 = Some b2" "buffer_ok b2" using z [OF b1(2)] by blast
  have zw: "\<exists>w b'. esl_buffer_zwrite env b bs = Some (w, b') \<and> buffer_ok b'"
    using b1 b2 w [OF b2(2)] by (cases "k = 0") (auto simp: esl_buffer_zwrite_def)
  obtain b3 where b3: "esl_buffer_read b n = Some (take n (held_bytes b), b3)" "buffer_ok b3" using read_effect [OF assms, of n] by blast
  have b4: "buffer_ok (b3\<lparr>bhead := 0, bused := bactual b3\<rparr>)" using b3(2) by (simp add: buffer_ok_def)
  have l: "buffer_ok (c\<lparr>bloops := x\<rparr>) \<longleftrightarrow> buffer_ok c" for c x by (simp add: buffer_ok_def)
  have rl: "\<exists>k r b'. esl_buffer_read_loop b n = Some (k, r, b') \<and> buffer_ok b'"
    using b3 read_effect [OF b4, of "n - length (take n (held_bytes b))"] l by (fastforce simp: esl_buffer_read_loop_def)
  have "buffer_ok (snd (esl_buffer_seek b n))" "buffer_ok (snd (esl_buffer_toss b n))" "esl_buffer_inuse b \<le> esl_buffer_len b"
    using assms by (auto simp: buffer_ok_def esl_buffer_seek_def esl_buffer_toss_def esl_buffer_inuse_def esl_buffer_len_def Let_def)
  moreover have "\<exists>r b'. esl_buffer_read_packet b n = Some (r, b') \<and> buffer_ok b'" if "bactual b < bdatalen b"
  proof -
    have "bhead b + bused b < length (bdata b)" "bhead b < length (bdata b)" using assms that by (auto simp: buffer_ok_def)
    from packet_scan_inside [OF this] obtain r where "packet_scan (bdata b) (bhead b + bused b) (bhead b) = Some r" by blast
    then show ?thesis using read_effect [OF assms, of "case r of None \<Rightarrow> 0 | Some pe \<Rightarrow> min (pe + 1 - bhead b) n"]
      by (auto simp: esl_buffer_read_packet_def)
  qed
  moreover have "esl_buffer_packet_count b \<noteq> None" if "bactual b + 1 < bdatalen b"
    using packet_count_inside [of "bhead b + bused b" "bdata b" "bhead b"] assms that by (auto simp: esl_buffer_packet_count_def buffer_ok_def simp del: packet_count.simps)
  ultimately show ?thesis using w [OF assms] zw b3 rl z [OF assms] by blast
qed

theorem esl_buffer_operations_ok_witness:
  "\<exists>w b'. esl_buffer_zwrite \<lparr>alloc_ok = \<lambda>n. n < 9, alloc_junk = \<lambda>_. CHR ''?''\<rparr>
     \<lparr>bdata = ''abcd'', bhead = 1, bused = 3, bactual = 4, bdatalen = 4, bmax_len = 0, bblocksize = 4, bloops = 0\<rparr> ''efghij'' = Some (w, b') \<and> buffer_ok b'"
proof -
  let ?b = "\<lparr>bdata = ''abcd'', bhead = 1, bused = 3, bactual = 4, bdatalen = 4, bmax_len = 0, bblocksize = 4, bloops = 0\<rparr>"
  have "buffer_ok ?b" by (simp add: buffer_ok_def)
  from esl_buffer_operations_ok [OF this, of "\<lparr>alloc_ok = \<lambda>n. n < 9, alloc_junk = \<lambda>_. CHR ''?''\<rparr>" "''efghij''"] show ?thesis by blast
qed

text \<open>
  An upper limit is not kept, and bytes that are held can be lost: the buffer of four bytes grows, and what is
  read is not what was written.
\<close>

lemma buffer_limit_loses:
  "map_option (\<lambda>(i, o', b). (i, o', held_bytes b))
     (do { b \<leftarrow> esl_buffer_create \<lparr>alloc_ok = \<lambda>_. True, alloc_junk = \<lambda>_. NUL\<rparr> 4 4 4;
           run_ops (esl_buffer_write \<lparr>alloc_ok = \<lambda>_. True, alloc_junk = \<lambda>_. NUL\<rparr>) esl_buffer_read [Put ''abcd'', Get 2, Put ''efg'', Get 5] b }) =
   Some (''abcdefg'', ''ababefg'', [])"
  by code_simp

text \<open>
  Once the block is reused, the byte behind the bytes in use may be an old line end: a packet is taken
  for complete before its empty line has arrived.
\<close>

lemma stale_newline:
  "do { b \<leftarrow> esl_buffer_create \<lparr>alloc_ok = \<lambda>_. True, alloc_junk = \<lambda>_. NUL\<rparr> 8 9 0;
        (_, b) \<leftarrow> esl_buffer_write \<lparr>alloc_ok = \<lambda>_. True, alloc_junk = \<lambda>_. NUL\<rparr> b (''xx'' @ [LF, LF] @ ''ab'' @ [LF, LF]);
        (p, b) \<leftarrow> esl_buffer_read_packet b 100;
        (q, b) \<leftarrow> esl_buffer_read_packet b 100;
        (_, b) \<leftarrow> esl_buffer_write \<lparr>alloc_ok = \<lambda>_. True, alloc_junk = \<lambda>_. NUL\<rparr> b (''k'' @ [LF]);
        (r, b) \<leftarrow> esl_buffer_read_packet b 100;
        Some (p, q, r) } = Some (''xx'' @ [LF, LF], ''ab'' @ [LF, LF], ''k'' @ [LF])"
  by code_simp

end
