(* ===== verification/Agc_Esl_Event.thy ===== *)
theory Agc_Esl_Event
  imports Agc_Esl_Buffer
begin

text \<open>
  Events of the client library (\<^verbatim>\<open>src/libs/esl/src/esl_event.c\<close>) and its encoding of texts for URLs
  (\<^verbatim>\<open>src/libs/esl/src/esl.c\<close>). The linked list of headers is a list; the values of \<^verbatim>\<open>esl_stack_t\<close> are the numbers the
  enumeration gives them, since the code tests their bits. The reader and the writer of JSON are those
  of the framework: \<^verbatim>\<open>esl_json.c\<close> is a copy of \<^verbatim>\<open>agc_json.c\<close>.
\<close>

unbundle bit_operations_syntax

section \<open>Names\<close>

definition EVENT_NAMES :: "string list" where
  "EVENT_NAMES = [''CUSTOM'', ''CLONE'', ''CHANNEL_CREATE'', ''CHANNEL_DESTROY'', ''CHANNEL_STATE'', ''CHANNEL_CALLSTATE'', ''CHANNEL_ANSWER'',
     ''CHANNEL_HANGUP'', ''CHANNEL_HANGUP_COMPLETE'', ''CHANNEL_EXECUTE'', ''CHANNEL_EXECUTE_COMPLETE'', ''CHANNEL_HOLD'', ''CHANNEL_UNHOLD'',
     ''CHANNEL_BRIDGE'', ''CHANNEL_UNBRIDGE'', ''CHANNEL_PROGRESS'', ''CHANNEL_PROGRESS_MEDIA'', ''CHANNEL_OUTGOING'', ''CHANNEL_PARK'',
     ''CHANNEL_UNPARK'', ''CHANNEL_APPLICATION'', ''CHANNEL_ORIGINATE'', ''CHANNEL_UUID'', ''API'', ''LOG'', ''INBOUND_CHAN'', ''OUTBOUND_CHAN'',
     ''STARTUP'', ''SHUTDOWN'', ''PUBLISH'', ''UNPUBLISH'', ''TALK'', ''NOTALK'', ''SESSION_CRASH'', ''MODULE_LOAD'', ''MODULE_UNLOAD'', ''DTMF'',
     ''MESSAGE'', ''PRESENCE_IN'', ''NOTIFY_IN'', ''PRESENCE_OUT'', ''PRESENCE_PROBE'', ''MESSAGE_WAITING'', ''MESSAGE_QUERY'', ''ROSTER'', ''CODEC'',
     ''BACKGROUND_JOB'', ''DETECTED_SPEECH'', ''DETECTED_TONE'', ''PRIVATE_COMMAND'', ''HEARTBEAT'', ''TRAP'', ''ADD_SCHEDULE'', ''DEL_SCHEDULE'',
     ''EXE_SCHEDULE'', ''RE_SCHEDULE'', ''RELOADXML'', ''NOTIFY'', ''PHONE_FEATURE'', ''PHONE_FEATURE_SUBSCRIBE'', ''SEND_MESSAGE'', ''RECV_MESSAGE'',
     ''REQUEST_PARAMS'', ''CHANNEL_DATA'', ''GENERAL'', ''COMMAND'', ''SESSION_HEARTBEAT'', ''CLIENT_DISCONNECTED'', ''SERVER_DISCONNECTED'',
     ''SEND_INFO'', ''RECV_INFO'', ''RECV_RTCP_MESSAGE'', ''CALL_SECURE'', ''NAT'', ''RECORD_START'', ''RECORD_STOP'', ''PLAYBACK_START'',
     ''PLAYBACK_STOP'', ''CALL_UPDATE'', ''FAILURE'', ''SOCKET_DATA'', ''MEDIA_BUG_START'', ''MEDIA_BUG_STOP'', ''CONFERENCE_DATA_QUERY'',
     ''CONFERENCE_DATA'', ''CALL_SETUP_REQ'', ''CALL_SETUP_RESULT'', ''CALL_DETAIL'', ''DEVICE_STATE'', ''ALL'']"

definition ESL_EVENT_CUSTOM :: nat where "ESL_EVENT_CUSTOM = 0"
definition ESL_EVENT_CLONE :: nat where "ESL_EVENT_CLONE = 1"
definition ESL_EVENT_SOCKET_DATA :: nat where "ESL_EVENT_SOCKET_DATA = 80"

definition esl_event_name :: "nat \<Rightarrow> string option" where
  "esl_event_name x = (if x < length EVENT_NAMES then Some (EVENT_NAMES ! x) else None)"

fun name_search :: "string \<Rightarrow> string list \<Rightarrow> nat \<Rightarrow> nat option" where
  "name_search name [] x = None"
| "name_search name (n # ns) x =
     (if length name > 13 \<and> strcasecmp_eq (drop 13 name) n \<or> strcasecmp_eq name n then Some x else name_search name ns (x + 1))"

definition esl_name_event :: "string \<Rightarrow> nat option" where
  "esl_name_event name = name_search name EVENT_NAMES 0"

datatype esl_priority = ESL_PRIORITY_NORMAL | ESL_PRIORITY_LOW | ESL_PRIORITY_HIGH

definition esl_priority_name :: "esl_priority \<Rightarrow> string" where
  "esl_priority_name p = (case p of ESL_PRIORITY_NORMAL \<Rightarrow> ''NORMAL'' | ESL_PRIORITY_LOW \<Rightarrow> ''LOW'' | ESL_PRIORITY_HIGH \<Rightarrow> ''HIGH'')"

section \<open>Headers\<close>

record esl_header =
  ename :: string
  evalue :: "string option"
  earray :: "string list"
  ehash :: u32

record esl_event =
  eid :: nat
  epriority :: esl_priority
  esubclass :: "string option"
  eheaders :: "esl_header list"
  ebody :: "string option"
  uniq_headers :: bool

definition ESL_STACK_BOTTOM :: nat where "ESL_STACK_BOTTOM = 0"
definition ESL_STACK_TOP :: nat where "ESL_STACK_TOP = 1"
definition ESL_STACK_PUSH :: nat where "ESL_STACK_PUSH = 2"
definition ESL_STACK_UNSHIFT :: nat where "ESL_STACK_UNSHIFT = 3"

definition stack_has :: "nat \<Rightarrow> nat \<Rightarrow> bool" where
  "stack_has s f \<longleftrightarrow> s AND f \<noteq> 0"

fun esl_hash :: "u32 \<Rightarrow> string \<Rightarrow> u32" where
  "esl_hash h [] = h"
| "esl_hash h (c # cs) = esl_hash (h * 33 + of_nat (of_char (c_tolower c))) cs"

definition esl_ci_hashfunc_default :: "string \<Rightarrow> u32" where
  "esl_ci_hashfunc_default key = esl_hash 0 key"

definition header_matches :: "string \<Rightarrow> esl_header \<Rightarrow> bool" where
  "header_matches name h \<longleftrightarrow> (ehash h = 0 \<or> esl_ci_hashfunc_default name = ehash h) \<and> strcasecmp_eq (ename h) name"

fun header_index :: "string \<Rightarrow> esl_header list \<Rightarrow> nat option" where
  "header_index name [] = None"
| "header_index name (h # hs) = (if header_matches name h then Some 0 else map_option Suc (header_index name hs))"

definition esl_event_get_header_ptr :: "esl_event \<Rightarrow> string \<Rightarrow> esl_header option" where
  "esl_event_get_header_ptr ev name = map_option ((!) (eheaders ev)) (header_index name (eheaders ev))"

definition esl_event_get_header_idx :: "esl_event \<Rightarrow> string \<Rightarrow> int \<Rightarrow> string option" where
  "esl_event_get_header_idx ev name idx = (case esl_event_get_header_ptr ev name of
     Some h \<Rightarrow> if idx > - 1 then (if idx < int (length (earray h)) then Some (earray h ! nat idx) else None) else evalue h
   | None \<Rightarrow> if name = ''_body'' then ebody ev else None)"

definition esl_event_get_header :: "esl_event \<Rightarrow> string \<Rightarrow> string option" where
  "esl_event_get_header ev name = esl_event_get_header_idx ev name (- 1)"

definition esl_event_get_body :: "esl_event option \<Rightarrow> string option" where
  "esl_event_get_body ev = (case ev of None \<Rightarrow> None | Some ev \<Rightarrow> ebody ev)"

text \<open>All headers of the name and, if one is given, of the value are removed; the list has less than a million headers.\<close>

definition esl_event_del_header_val :: "esl_event \<Rightarrow> string \<Rightarrow> string option \<Rightarrow> bool \<times> esl_event" where
  "esl_event_del_header_val ev name val =
     (let gone = (\<lambda>h. header_matches name h \<and> (case val of None \<Rightarrow> True | Some v \<Rightarrow> v = [] \<or> evalue h = Some v))
      in (\<exists>h \<in> set (eheaders ev). gone h, ev\<lparr>eheaders := filter (\<lambda>h. \<not> gone h) (eheaders ev)\<rparr>))"

definition esl_event_del_header :: "esl_event \<Rightarrow> string \<Rightarrow> esl_event" where
  "esl_event_del_header ev name = snd (esl_event_del_header_val ev name None)"

definition esl_new_header :: "string \<Rightarrow> esl_header" where
  "esl_new_header name = \<lparr>ename = name, evalue = None, earray = [], ehash = 0\<rparr>"

definition esl_event_set_body :: "esl_event \<Rightarrow> string option \<Rightarrow> esl_event" where
  "esl_event_set_body ev b = ev\<lparr>ebody := b\<rparr>"

section \<open>Arrays\<close>

text \<open>\<^verbatim>\<open>esl_separate_string_string\<close> with the separator of two characters.\<close>

fun split_bar :: "string \<Rightarrow> string list" where
  "split_bar [] = [[]]"
| "split_bar [c] = [[c]]"
| "split_bar (c # d # r) =
     (if c = CHR ''|'' \<and> d = CHR '':'' then [] # split_bar r
      else (case split_bar (d # r) of [] \<Rightarrow> [[c]] | x # xs \<Rightarrow> (c # x) # xs))"

fun join_bar :: "string list \<Rightarrow> string" where
  "join_bar [] = []"
| "join_bar [x] = x"
| "join_bar (x # y # ys) = x @ ''|:'' @ join_bar (y # ys)"

text \<open>\<open>redraw\<close>: the text of the array becomes the value.\<close>

definition redraw :: "esl_header \<Rightarrow> esl_header" where
  "redraw h = (if earray h = [] then h
     else h\<lparr>evalue := Some ((if length (earray h) > 1 then ''ARRAY::'' else []) @ join_bar (earray h))\<rparr>)"

definition put_header :: "nat \<Rightarrow> esl_header \<Rightarrow> esl_event \<Rightarrow> esl_event" where
  "put_header i h ev = ev\<lparr>eheaders := (eheaders ev)[i := h]\<rparr>"

definition link_new :: "nat \<Rightarrow> esl_header \<Rightarrow> esl_event \<Rightarrow> esl_event" where
  "link_new stack h ev =
     (let h = h\<lparr>ehash := esl_ci_hashfunc_default (ename h)\<rparr>
      in ev\<lparr>eheaders := (if stack_has stack ESL_STACK_TOP then h # eheaders ev else eheaders ev @ [h])\<rparr>)"

text \<open>The value of a header: an element of the array for the bits of \<^verbatim>\<open>PUSH\<close> and \<^verbatim>\<open>UNSHIFT\<close>, the text itself otherwise.\<close>

definition set_value :: "nat \<Rightarrow> string \<Rightarrow> esl_header \<Rightarrow> esl_header" where
  "set_value stack data h =
     (if stack_has stack ESL_STACK_PUSH \<or> stack_has stack ESL_STACK_UNSHIFT
      then (let arr = (case evalue h of Some v \<Rightarrow> if earray h = [] then [v] else earray h | None \<Rightarrow> earray h);
                h = (if evalue h \<noteq> None \<and> earray h = [] then h\<lparr>evalue := None\<rparr> else h)
            in redraw (h\<lparr>earray := (if stack_has stack ESL_STACK_PUSH then arr @ [data] else data # arr)\<rparr>))
      else h\<lparr>evalue := Some data\<rparr>)"

text \<open>A name with an index: the element of the array is set; a value is redrawn only when the array grows.\<close>

definition add_indexed :: "nat \<Rightarrow> string \<Rightarrow> int \<Rightarrow> string \<Rightarrow> esl_event \<Rightarrow> esl_event" where
  "add_indexed stack name index data ev =
     (let i = header_index name (eheaders ev);
          h = (case i of None \<Rightarrow> esl_new_header name | Some i \<Rightarrow> eheaders ev ! i)
      in if index < 0 \<or> index > 4000 then ev
         else if nat index < length (earray h)
         then (case i of None \<Rightarrow> ev | Some i \<Rightarrow> put_header i (h\<lparr>earray := (earray h)[nat index := data]\<rparr>) ev)
         else (let h = redraw (h\<lparr>earray := earray h @ replicate (nat index - length (earray h)) [] @ [data]\<rparr>)
               in case i of None \<Rightarrow> link_new stack h ev | Some i \<Rightarrow> put_header i h ev))"

fun has_sub :: "string \<Rightarrow> string \<Rightarrow> bool" where
  "has_sub p [] \<longleftrightarrow> p = []"
| "has_sub p (c # cs) \<longleftrightarrow> take (length p) (c # cs) = p \<or> has_sub p cs"

lemma split_bar_size: "sum_list (map (\<lambda>e. 2 * length e + 2) (split_bar s)) \<le> 2 * length s + 2"
  by (induction s rule: split_bar.induct) (auto split: list.splits)

text \<open>
  \<^verbatim>\<open>esl_event_base_add_header\<close> with the loop of \<^verbatim>\<open>esl_event_add_array\<close>. An enumeration value with the
  bits of \<^verbatim>\<open>TOP\<close> and \<^verbatim>\<open>BOTTOM\<close> cleared is the value of the other.
\<close>

function esl_event_base_add_header :: "nat \<Rightarrow> string \<Rightarrow> string \<Rightarrow> esl_event \<Rightarrow> esl_event"
  and add_elements :: "string \<Rightarrow> string list \<Rightarrow> esl_event \<Rightarrow> esl_event" where
  "esl_event_base_add_header stack name data ev =
     (let ev = (if name = ''_body'' then esl_event_set_body ev (Some data) else ev) in
      if CHR ''['' \<in> set name then
        add_indexed stack (takeWhile (\<lambda>c. c \<noteq> CHR ''['') name) (c_atoi (tl (dropWhile (\<lambda>c. c \<noteq> CHR ''['') name))) data ev
      else if (stack_has stack ESL_STACK_PUSH \<or> stack_has stack ESL_STACK_UNSHIFT) \<and> header_index name (eheaders ev) \<noteq> None
      then (let i = the (header_index name (eheaders ev)); stack = stack AND 2
            in put_header i (set_value stack data (eheaders ev ! i)) ev)
      else if data = [] then esl_event_del_header ev name
      else (let ev = (if uniq_headers ev then esl_event_del_header ev name else ev) in
            if has_sub ''ARRAY::'' data
            then (if length data < 8 then ev else add_elements name (split_bar (drop 7 data)) ev)
            else link_new stack (set_value stack data (esl_new_header name)) ev))"
| "add_elements name [] ev = ev"
| "add_elements name (e # es) ev = add_elements name es (esl_event_base_add_header ESL_STACK_PUSH name e ev)"
  by pat_completeness auto
termination
proof (relation "measure (case_sum (\<lambda>(s, n, d, e). 2 * length d + 1) (\<lambda>(n, es, e). sum_list (map (\<lambda>x. 2 * length x + 2) es)))", goal_cases)
  case (2 stack name data ev x xa)
  then show ?case using split_bar_size [of "drop 7 data"] by auto
qed auto

declare esl_event_base_add_header.simps [simp del]

definition esl_event_add_header_string :: "esl_event \<Rightarrow> nat \<Rightarrow> string \<Rightarrow> string option \<Rightarrow> bool \<times> esl_event" where
  "esl_event_add_header_string ev stack name data = (case data of
     None \<Rightarrow> (False, ev)
   | Some d \<Rightarrow> (True, esl_event_base_add_header stack name d ev))"

definition esl_event_add_array :: "esl_event \<Rightarrow> string \<Rightarrow> string \<Rightarrow> int \<times> esl_event" where
  "esl_event_add_array ev var val =
     (if length val < 8 then (- 1, ev) else (0, add_elements var (split_bar (drop 7 val)) ev))"

section \<open>Events\<close>

definition esl_event_create_subclass :: "nat \<Rightarrow> string option \<Rightarrow> (bool \<times> esl_event option) option" where
  "esl_event_create_subclass etype subclass_name =
     (if etype \<noteq> ESL_EVENT_CLONE \<and> etype \<noteq> ESL_EVENT_CUSTOM \<and> subclass_name \<noteq> None then Some (False, None)
      else do {
        let ev = \<lparr>eid = 0, epriority = ESL_PRIORITY_NORMAL, esubclass = None, eheaders = [], ebody = None, uniq_headers = False\<rparr>;
        ev \<leftarrow> (if etype = ESL_EVENT_CLONE then Some ev
               else do {
                 n \<leftarrow> esl_event_name etype;
                 Some (snd (esl_event_add_header_string (ev\<lparr>eid := etype\<rparr>) ESL_STACK_BOTTOM ''Event-Name'' (Some n)))
               });
        Some (True, Some (case subclass_name of
           None \<Rightarrow> ev
         | Some n \<Rightarrow> snd (esl_event_add_header_string (ev\<lparr>esubclass := Some n\<rparr>) ESL_STACK_BOTTOM ''Event-Subclass'' (Some n))))
      })"

definition clone_event :: esl_event where
  "clone_event = \<lparr>eid = 0, epriority = ESL_PRIORITY_NORMAL, esubclass = None, eheaders = [], ebody = None, uniq_headers = False\<rparr>"

lemma create_clone: "esl_event_create_subclass ESL_EVENT_CLONE None = Some (True, Some clone_event)"
  by (simp add: esl_event_create_subclass_def clone_event_def)

definition esl_event_set_priority :: "esl_event \<Rightarrow> esl_priority \<Rightarrow> esl_event" where
  "esl_event_set_priority ev p = snd (esl_event_add_header_string (ev\<lparr>epriority := p\<rparr>) ESL_STACK_TOP ''priority'' (Some (esl_priority_name p)))"

definition copy_header :: "esl_header \<Rightarrow> esl_event \<Rightarrow> esl_event" where
  "copy_header h ev =
     (if earray h \<noteq> [] then foldl (\<lambda>ev e. snd (esl_event_add_header_string ev ESL_STACK_PUSH (ename h) (Some e))) ev (earray h)
      else snd (esl_event_add_header_string ev ESL_STACK_BOTTOM (ename h) (evalue h)))"

definition esl_event_merge :: "esl_event \<Rightarrow> esl_event \<Rightarrow> esl_event" where
  "esl_event_merge ev tomerge = foldl (\<lambda>ev h. copy_header h ev) ev (eheaders tomerge)"

definition esl_event_dup :: "esl_event \<Rightarrow> esl_event option" where
  "esl_event_dup todup = do {
     (_, ev) \<leftarrow> esl_event_create_subclass ESL_EVENT_CLONE (esubclass todup);
     ev \<leftarrow> ev;
     let ev = ev\<lparr>eid := eid todup, uniq_headers := uniq_headers todup\<rparr>;
     let hs = filter (\<lambda>h. \<not> (esubclass todup \<noteq> None \<and> ename h = ''Event-Subclass'')) (eheaders todup);
     let ev = foldl (\<lambda>ev h. copy_header h ev) ev hs;
     Some (case ebody todup of None \<Rightarrow> ev | Some b \<Rightarrow> ev\<lparr>ebody := Some b\<rparr>)
   }"

section \<open>Texts\<close>

definition urlunsafe :: string where
  "urlunsafe = [CHR 0x0D, CHR 0x0A] @ '' '' @ [CHR 0x22] @ ''#%&+:;<=>?@['' @ [CHR 0x5C] @ '']^`{|}''"

definition hex_upper :: "nat \<Rightarrow> char" where
  "hex_upper n = ''0123456789ABCDEF'' ! n"

text \<open>
  The plain \<^verbatim>\<open>char\<close> is signed: for a byte of 128 or more the table of digits is read in front of its beginning.
  \<open>x\<close> counts the bytes written.
\<close>

definition url_keep :: "char \<Rightarrow> bool" where
  "url_keep c \<longleftrightarrow> 32 \<le> (of_char c :: nat) \<and> (of_char c :: nat) \<le> 126 \<and> c \<notin> set urlunsafe"

fun url_encode_loop :: "nat \<Rightarrow> nat \<Rightarrow> string \<Rightarrow> string option" where
  "url_encode_loop len x [] = Some []"
| "url_encode_loop len x (c # cs) =
     (if x \<ge> len then Some []
      else if \<not> url_keep c then
        (if x + 3 \<ge> len then Some []
         else if (of_char c :: nat) \<ge> 128 then None
         else map_option (\<lambda>r. CHR ''%'' # hex_upper ((of_char c :: nat) div 16) # hex_upper ((of_char c :: nat) mod 16) # r) (url_encode_loop len (x + 3) cs))
      else map_option ((#) c) (url_encode_loop len (x + 1) cs))"

definition esl_url_encode :: "string \<Rightarrow> nat \<Rightarrow> string option" where
  "esl_url_encode url len = url_encode_loop (size_sub len 1) 0 url"

definition hexdigit_val :: "char \<Rightarrow> nat option" where
  "hexdigit_val c = (let n = (of_char c :: nat) in
     if 48 \<le> n \<and> n \<le> 57 then Some (n - 48) else if 65 \<le> n \<and> n \<le> 70 then Some (n - 55)
     else if 97 \<le> n \<and> n \<le> 102 then Some (n - 87) else None)"

text \<open>
  \<^verbatim>\<open>sscanf\<close> with \<^verbatim>\<open>%2x\<close>: blanks, then at most two characters of a sign and of digits; a lone \<^verbatim>\<open>0x\<close> is no number. The
  result is the byte that is stored.
\<close>

definition scan_hex2 :: "string \<Rightarrow> char option" where
  "scan_hex2 s =
     (case take 2 (dropWhile is_space s) of
        [] \<Rightarrow> None
      | [c] \<Rightarrow> map_option (\<lambda>v. char_of v) (hexdigit_val c)
      | c # d # _ \<Rightarrow>
          if c = CHR ''+'' then map_option (\<lambda>v. char_of v) (hexdigit_val d)
          else if c = CHR ''-'' then map_option (\<lambda>v. char_of (256 - v)) (hexdigit_val d)
          else if c = CHR ''0'' \<and> (d = CHR ''x'' \<or> d = CHR ''X'') then None
          else (case (hexdigit_val c, hexdigit_val d) of
                  (None, _) \<Rightarrow> None
                | (Some v, None) \<Rightarrow> Some (char_of v)
                | (Some v, Some w) \<Rightarrow> Some (char_of (16 * v + w))))"

fun url_decode_loop :: "string \<Rightarrow> string" where
  "url_decode_loop [] = []"
| "url_decode_loop (c # cs) =
     (if c = CHR ''%'' \<and> length cs \<ge> 2 \<and> scan_hex2 cs \<noteq> None then the (scan_hex2 cs) # url_decode_loop (drop 2 cs)
      else c # url_decode_loop cs)"

text \<open>A byte 0 ends the text that the program sees.\<close>

definition esl_url_decode :: "string \<Rightarrow> string" where
  "esl_url_decode s = c_str (url_decode_loop s)"

text \<open>
  \<^verbatim>\<open>esl_event_serialize\<close>; \<open>n\<close> is the size of the block for an encoded value, which never shrinks. A header without a
  value is a fault.
\<close>

definition encode_need :: "esl_header \<Rightarrow> string \<Rightarrow> nat" where
  "encode_need h v = (if earray h \<noteq> [] then sum_list (map (\<lambda>e. 3 * length e + 1) (earray h)) else 3 * length v + 1)"

fun serialize_headers :: "bool \<Rightarrow> nat \<Rightarrow> esl_header list \<Rightarrow> string option" where
  "serialize_headers enc n [] = Some []"
| "serialize_headers enc n (h # hs) = do {
     v \<leftarrow> evalue h;
     let n = max n (encode_need h v);
     t \<leftarrow> (if enc then esl_url_encode v n else Some (c_snprintf n v));
     r \<leftarrow> serialize_headers enc n hs;
     Some (ename h @ '': '' @ (if t = [] then ''_undef_'' else t) @ [LF] @ r)
   }"

definition esl_event_serialize :: "esl_event \<Rightarrow> bool \<Rightarrow> string option" where
  "esl_event_serialize ev enc = do {
     t \<leftarrow> serialize_headers enc 1536 (eheaders ev);
     Some (t @ (case ebody ev of
        None \<Rightarrow> [LF]
      | Some b \<Rightarrow> if b = [] then [LF] else ''Content-Length: '' @ int_str (to_int32 (int (length b))) @ [LF, LF] @ b))
   }"

text \<open>
  \<^verbatim>\<open>esl_event_create_json\<close>: a body is handed to \<^verbatim>\<open>esl_event_add_body\<close> as a format; \<open>fmt\<close> is what the formatting makes of a
  text that contains conversions.
\<close>

definition format_body :: "(string \<Rightarrow> string option) \<Rightarrow> string \<Rightarrow> string option" where
  "format_body fmt b = (if CHR ''%'' \<in> set b then fmt b else Some b)"

definition is_cjson_string :: "'d cjson \<Rightarrow> bool" where
  "is_cjson_string c \<longleftrightarrow> jtype (node c) = cJSON_String \<and> valuestring (node c) \<noteq> None"

definition json_member :: "(string \<Rightarrow> string option) \<Rightarrow> 'd cjson \<Rightarrow> esl_event \<Rightarrow> esl_event option" where
  "json_member fmt c ev = (case (jname (node c), valuestring (node c)) of
     (Some name, Some value) \<Rightarrow>
       if strcasecmp_eq name ''_body'' then do { b \<leftarrow> format_body fmt value; Some (ev\<lparr>ebody := Some b\<rparr>) }
       else (let ev = (if strcasecmp_eq name ''event-name''
                       then (let ev = esl_event_del_header ev ''event-name''
                             in case esl_name_event value of None \<Rightarrow> ev | Some i \<Rightarrow> ev\<lparr>eid := i\<rparr>)
                       else ev)
             in Some (snd (esl_event_add_header_string ev ESL_STACK_BOTTOM name (Some value))))
   | (Some name, None) \<Rightarrow>
       if jtype (node c) = cJSON_Array
       then Some (foldl (\<lambda>ev i. snd (esl_event_add_header_string ev ESL_STACK_PUSH name (valuestring (node i)))) ev (filter is_cjson_string (child c)))
       else Some ev
   | _ \<Rightarrow> Some ev)"

fun json_members :: "(string \<Rightarrow> string option) \<Rightarrow> 'd cjson list \<Rightarrow> esl_event \<Rightarrow> esl_event option" where
  "json_members fmt [] ev = Some ev"
| "json_members fmt (c # cs) ev = do { ev \<leftarrow> json_member fmt c ev; json_members fmt cs ev }"

definition esl_event_create_json :: "'d fp \<Rightarrow> (string \<Rightarrow> string option) \<Rightarrow> string \<Rightarrow> esl_event option option" where
  "esl_event_create_json f fmt json = (case cJSON_Parse f json of
     Fault \<Rightarrow> None
   | Unfinished \<Rightarrow> None
   | Zero \<Rightarrow> Some None
   | Val cj \<Rightarrow> map_option Some (json_members fmt (child cj) clone_event))"

definition json_header :: "'d fp \<Rightarrow> 'd cjson \<Rightarrow> esl_header \<Rightarrow> 'd cjson" where
  "json_header f cj h = cJSON_AddItemToObject cj (Some (ename h)) (Some
     (if earray h \<noteq> [] then foldl (\<lambda>a e. cJSON_AddItemToArray a (Some (cJSON_CreateString f (Some e)))) (cJSON_CreateArray f) (earray h)
      else cJSON_CreateString f (evalue h)))"

definition esl_event_serialize_json :: "'d fp \<Rightarrow> esl_event \<Rightarrow> string cres" where
  "esl_event_serialize_json f ev =
     (let cj = foldl (json_header f) (cJSON_CreateObject f) (eheaders ev);
          cj = (case ebody ev of
                  None \<Rightarrow> cj
                | Some b \<Rightarrow> cJSON_AddItemToObject
                    (cJSON_AddItemToObject cj (Some ''Content-Length'') (Some (cJSON_CreateString f (Some (int_str (to_int32 (int (length b))))))))
                    (Some ''_body'') (Some (cJSON_CreateString f (Some b))))
      in cJSON_Print f cj)"

end
