(* ===== verification/Agc_Esl.thy ===== *)
theory Agc_Esl
  imports Agc_Esl_Event
begin

text \<open>
  The handle of the client library (\<^verbatim>\<open>src/libs/esl/src/esl.c\<close>) with which a program talks to the event socket: receiving of packets
  and of the events in them, sending of commands and waiting for their replies.

  What arrives on the socket is the list of segments of the model of the event socket; a failing \<^verbatim>\<open>poll\<close> or \<^verbatim>\<open>recv\<close>
  is the end of that list. \<open>hsends\<close> holds the answers of \<^verbatim>\<open>send\<close>, the number of bytes that it takes. \<^const>\<open>None\<close> is an access
  outside of a block, a failed assertion or, for \<^verbatim>\<open>esl_send_recv_timed\<close>, a wait without end. The parameters are
  what memory can be had, the floating-point functions of the JSON reader, and \<open>fmt\<close>, what formatting makes of a
  text with conversions. A handle has its mutex, which is recursive; the operations are the ones of the thread that holds it.
\<close>

section \<open>The handle\<close>

datatype esl_status = ESL_SUCCESS | ESL_FAIL | ESL_BREAK

definition ESL_SOCK_INVALID :: int where "ESL_SOCK_INVALID = - 1"
definition BUF_CHUNK :: nat where "BUF_CHUNK = 65536 * 50"
definition BUF_START :: nat where "BUF_START = 65536 * 100"
definition SOCKET_BUF :: nat where "SOCKET_BUF = 65536"

record esl_handle =
  hsock :: int
  hsock_in :: "rx list"
  hsock_out :: string
  hsends :: "nat list"
  packet_buf :: "esl_buffer option"
  last_reply :: string
  last_sr_reply :: string
  last_event :: "esl_event option"
  last_sr_event :: "esl_event option"
  race_event :: "esl_event list"
  last_ievent :: "esl_event option"
  info_event :: "esl_event option"
  hconnected :: bool
  async_execute :: bool
  event_lock :: bool
  destroyed :: bool

definition usable :: "esl_handle \<Rightarrow> bool" where
  "usable h \<longleftrightarrow> hconnected h \<and> hsock h \<noteq> ESL_SOCK_INVALID"

section \<open>Receiving\<close>

definition handle_recv :: "esl_handle \<Rightarrow> rx_answer \<times> esl_handle" where
  "handle_recv h = (if hconnected h then (case sock_recv (hsock_in h) (SOCKET_BUF - 1) of (a, rx) \<Rightarrow> (a, h\<lparr>hsock_in := rx\<rparr>)) else (Gone, h))"

lemma handle_recv_size: "handle_recv h = (a, h') \<Longrightarrow> a \<noteq> Gone \<Longrightarrow> rx_size (hsock_in h') < rx_size (hsock_in h)"
  by (auto simp: handle_recv_def SOCKET_BUF_def split: if_splits prod.splits dest: sock_recv_size)

definition buffer_add :: "alloc_env \<Rightarrow> string \<Rightarrow> esl_handle \<Rightarrow> esl_handle option" where
  "buffer_add env bs h = do { b \<leftarrow> packet_buf h; (_, b) \<leftarrow> esl_buffer_write env b bs; Some (h\<lparr>packet_buf := Some b\<rparr>) }"

lemma buffer_add_frame: "buffer_add env bs h = Some h' \<Longrightarrow> hsock_in h' = hsock_in h"
  by (auto simp: buffer_add_def bind_Some_iff)

text \<open>The loop that waits for a packet; no packet: the connection is gone.\<close>

function recv_packet :: "alloc_env \<Rightarrow> esl_handle \<Rightarrow> (string option \<times> esl_handle) option" where
  "recv_packet env h = (case packet_buf h of
     None \<Rightarrow> None
   | Some b \<Rightarrow> (case esl_buffer_read_packet b (SOCKET_BUF - 1) of
       None \<Rightarrow> None
     | Some (p, b) \<Rightarrow>
         if p \<noteq> [] then Some (Some p, h\<lparr>packet_buf := Some b\<rparr>)
         else (case handle_recv (h\<lparr>packet_buf := Some b\<rparr>) of
             (Gone, h) \<Rightarrow> Some (None, h)
           | (Break, h) \<Rightarrow> recv_packet env h
           | (Bytes bs, h) \<Rightarrow> (case buffer_add env bs h of None \<Rightarrow> None | Some h \<Rightarrow> recv_packet env h))))"
  by pat_completeness auto
termination
  by (relation "measure (\<lambda>(env, h). rx_size (hsock_in h))")
    (auto dest!: handle_recv_size [OF sym] buffer_add_frame)

declare recv_packet.simps [simp del]

text \<open>The lines of a packet. The colon is looked for in all of the rest, and so is the end of the line.\<close>

definition add_line :: "string \<Rightarrow> string \<Rightarrow> esl_event \<Rightarrow> esl_event" where
  "add_line name v ev =
     (if take 7 v = ''ARRAY::'' then snd (esl_event_add_array ev name v)
      else snd (esl_event_add_header_string ev ESL_STACK_BOTTOM name (Some v)))"

definition line_value :: "string \<Rightarrow> string" where
  "line_value p = dropWhile (\<lambda>c. c = CHR '' '' \<or> c = CHR 0x09) (tl (dropWhile (\<lambda>c. c \<noteq> CHR '':'') p))"

lemma line_value_shorter: "CHR '':'' \<in> set p \<Longrightarrow> length (line_value p) < length p"
proof -
  assume "CHR '':'' \<in> set p"
  then have "dropWhile (\<lambda>c. c \<noteq> CHR '':'') p \<noteq> []" by (simp add: dropWhile_eq_Nil_conv)
  then have "length (tl (dropWhile (\<lambda>c. c \<noteq> CHR '':'') p)) < length (dropWhile (\<lambda>c. c \<noteq> CHR '':'') p)" by simp
  also have "\<dots> \<le> length p" by (rule length_dropWhile_le)
  finally show ?thesis unfolding line_value_def using length_dropWhile_le le_less_trans by blast
qed

function packet_lines :: "string \<Rightarrow> esl_event \<Rightarrow> esl_event" where
  "packet_lines p ev =
     (if CHR '':'' \<in> set p \<and> LF \<in> set (line_value p)
      then packet_lines (dropWhile (\<lambda>c. c = LF \<or> c = CR) (dropWhile (\<lambda>c. c \<noteq> LF) (line_value p)))
             (add_line (takeWhile (\<lambda>c. c \<noteq> CHR '':'') p) (esl_url_decode (takeWhile (\<lambda>c. c \<noteq> LF) (line_value p))) ev)
      else ev)"
  by pat_completeness auto
termination
proof (relation "measure (length \<circ> fst)")
  fix p :: string and ev :: esl_event
  let ?r = "dropWhile (\<lambda>c. c = LF \<or> c = CR) (dropWhile (\<lambda>c. c \<noteq> LF) (line_value p))"
  assume "CHR '':'' \<in> set p \<and> LF \<in> set (line_value p)"
  then have "length (line_value p) < length p" by (simp add: line_value_shorter)
  moreover have "length ?r \<le> length (line_value p)"
    by (meson length_dropWhile_le order_trans)
  ultimately show "((?r, add_line (takeWhile (\<lambda>c. c \<noteq> CHR '':'') p) (esl_url_decode (takeWhile (\<lambda>c. c \<noteq> LF) (line_value p))) ev), p, ev)
      \<in> measure (length \<circ> fst)" by simp
qed simp

declare packet_lines.simps [simp del]

definition packet_event :: "string \<Rightarrow> esl_event" where
  "packet_event p = packet_lines (c_str p)
     (snd (esl_event_add_header_string (clone_event\<lparr>eid := ESL_EVENT_SOCKET_DATA\<rparr>) ESL_STACK_BOTTOM ''Event-Name'' (Some ''SOCKET_DATA'')))"

text \<open>The loop that waits for \<open>len\<close> bytes of a body.\<close>

function recv_body :: "alloc_env \<Rightarrow> nat \<Rightarrow> esl_handle \<Rightarrow> (string option \<times> esl_handle) option" where
  "recv_body env len h = (case packet_buf h of
     None \<Rightarrow> None
   | Some b \<Rightarrow>
       if len \<le> esl_buffer_inuse b
       then map_option (\<lambda>(bs, b). (Some (c_str bs), h\<lparr>packet_buf := Some b\<rparr>)) (esl_buffer_read b len)
       else (case handle_recv h of
           (Gone, h) \<Rightarrow> Some (None, h)
         | (Break, h) \<Rightarrow> recv_body env len h
         | (Bytes bs, h) \<Rightarrow> (case buffer_add env bs h of None \<Rightarrow> None | Some h \<Rightarrow> recv_body env len h)))"
  by pat_completeness auto
termination
  by (relation "measure (\<lambda>(env, len, h). rx_size (hsock_in h))")
    (auto dest!: handle_recv_size [OF sym] buffer_add_frame)

declare recv_body.simps [simp del]

text \<open>\<^verbatim>\<open>atol\<close> of the length; for a negative one the program writes in front of the block of the body.\<close>

definition recv_content :: "alloc_env \<Rightarrow> esl_event \<Rightarrow> esl_handle \<Rightarrow> (esl_event option \<times> esl_handle) option" where
  "recv_content env ev h = (case esl_event_get_header ev ''content-length'' of
     None \<Rightarrow> Some (Some ev, h)
   | Some cl \<Rightarrow>
       if strtol10 cl < 0 \<or> \<not> alloc_ok env (nat (strtol10 cl) + 1) then None
       else do {
         (b, h) \<leftarrow> recv_body env (nat (strtol10 cl)) h;
         Some (map_option (\<lambda>b. ev\<lparr>ebody := Some b\<rparr>) b, h)
       })"

text \<open>
  The lines of an event inside of a packet. The colon may be one of a later line: then the rest of the text
  is the value, and the loop goes on with what is in front of the colon.
\<close>

definition inner_line :: "string \<Rightarrow> string \<Rightarrow> esl_event \<Rightarrow> esl_event" where
  "inner_line name v ev =
     add_line name v
       (if strcasecmp_eq name ''event-name''
        then (let ev = esl_event_del_header ev ''event-name'' in case esl_name_event v of None \<Rightarrow> ev | Some i \<Rightarrow> ev\<lparr>eid := i\<rparr>)
        else ev)"

definition skip_spaces :: "string \<Rightarrow> string" where
  "skip_spaces s = dropWhile (\<lambda>c. c = CHR '' '') s"

function inner_lines :: "string \<Rightarrow> esl_event \<Rightarrow> esl_event \<times> string" where
  "inner_lines beg ev =
     (if LF \<notin> set beg then (ev, beg)
      else (let line = takeWhile (\<lambda>c. c \<noteq> LF) beg; rest = tl (dropWhile (\<lambda>c. c \<noteq> LF) beg);
                (ev, rest) =
                  (if CHR '':'' \<in> set line
                   then (inner_line (takeWhile (\<lambda>c. c \<noteq> CHR '':'') line)
                           (esl_url_decode (skip_spaces (tl (dropWhile (\<lambda>c. c \<noteq> CHR '':'') line)))) ev, rest)
                   else if CHR '':'' \<in> set rest
                   then (inner_line line (esl_url_decode (skip_spaces (tl (dropWhile (\<lambda>c. c \<noteq> CHR '':'') rest)))) ev, takeWhile (\<lambda>c. c \<noteq> CHR '':'') rest)
                   else (ev, rest))
            in if take 1 rest = [LF] then (ev, tl rest) else inner_lines rest ev))"
  by pat_completeness auto
termination
proof (relation "measure (length \<circ> fst)", simp, goal_cases)
  case (1 beg ev line rest p ev' rest')
  then have "dropWhile (\<lambda>c. c \<noteq> LF) beg \<noteq> []" by (simp add: dropWhile_eq_Nil_conv)
  then have "length rest < length (dropWhile (\<lambda>c. c \<noteq> LF) beg)" using 1 by simp
  then have "length rest < length beg" using length_dropWhile_le le_less_trans less_le_trans by blast
  moreover have "length rest' \<le> length rest" using 1 length_takeWhile_le [of "\<lambda>c. c \<noteq> CHR '':''" rest] by (auto split: if_splits)
  ultimately show ?case by simp
qed

declare inner_lines.simps [simp del]

definition plain_event :: "string \<Rightarrow> esl_event" where
  "plain_event b = (case inner_lines b clone_event of
     (ev, beg) \<Rightarrow> if esl_event_get_header ev ''content-length'' \<noteq> None then ev\<lparr>ebody := Some beg\<rparr> else ev)"

definition content_is :: "string option \<Rightarrow> string \<Rightarrow> bool" where
  "content_is hval s \<longleftrightarrow> (case hval of None \<Rightarrow> False | Some v \<Rightarrow> strcasecmp_eq v s)"

text \<open>What is done with an event that is not handed to the caller. The answer \<^const>\<open>False\<close> is the jump to \<^verbatim>\<open>fail\<close>.\<close>

definition parse_event :: "'d fp \<Rightarrow> (string \<Rightarrow> string option) \<Rightarrow> esl_event \<Rightarrow> esl_handle \<Rightarrow> (bool \<times> esl_handle) option" where
  "parse_event f fmt ev h = do {
     let h = h\<lparr>last_event := Some ev\<rparr>;
     let h = (case esl_event_get_header ev ''reply-text'' of None \<Rightarrow> h | Some v \<Rightarrow> if v = [] then h else h\<lparr>last_reply := take 1024 v\<rparr>);
     let hval = esl_event_get_header ev ''content-type'';
     let dval = esl_event_get_header ev ''content-disposition'';
     case ebody ev of
       None \<Rightarrow> Some (True, h)
     | Some b \<Rightarrow>
         if content_is hval ''text/disconnect-notice'' \<and> \<not> content_is dval ''linger'' then Some (False, h)
         else if content_is hval ''text/event-plain'' then Some (True, h\<lparr>last_ievent := Some (plain_event b)\<rparr>)
         else if content_is hval ''text/event-json'' then do { iev \<leftarrow> esl_event_create_json f fmt b; Some (True, h\<lparr>last_ievent := iev\<rparr>) }
         else Some (True, h)
   }"

definition finish_event ::
  "'d fp \<Rightarrow> (string \<Rightarrow> string option) \<Rightarrow> bool \<Rightarrow> esl_event \<Rightarrow> esl_handle \<Rightarrow> (esl_status \<times> esl_event option \<times> esl_handle) option" where
  "finish_event f fmt save ev h =
     (if save then Some (ESL_SUCCESS, Some ev, h)
      else do {
        (ok, h) \<leftarrow> parse_event f fmt ev h;
        Some (if ok then (ESL_SUCCESS, None, h) else (ESL_FAIL, None, h\<lparr>hconnected := False\<rparr>))
      })"

text \<open>With \<open>save\<close> the event is stored through \<^verbatim>\<open>save_event\<close>: it is the second component of the answer.\<close>

definition esl_recv_event ::
  "alloc_env \<Rightarrow> 'd fp \<Rightarrow> (string \<Rightarrow> string option) \<Rightarrow> bool \<Rightarrow> bool \<Rightarrow> esl_handle \<Rightarrow> (esl_status \<times> esl_event option \<times> esl_handle) option" where
  "esl_recv_event env f fmt check_q save h =
     (if \<not> usable h then Some (ESL_FAIL, None, h)
      else (let h = h\<lparr>last_ievent := None\<rparr> in
        case (check_q, race_event h) of
          (True, ev # evs) \<Rightarrow> finish_event f fmt save ev (h\<lparr>race_event := evs\<rparr>)
        | _ \<Rightarrow> do {
            (p, h) \<leftarrow> recv_packet env h;
            case p of
              None \<Rightarrow> Some (ESL_FAIL, None, h\<lparr>hconnected := False\<rparr>)
            | Some p \<Rightarrow> do {
                (ev, h) \<leftarrow> recv_content env (packet_event p) h;
                case ev of
                  None \<Rightarrow> Some (ESL_FAIL, None, h\<lparr>hconnected := False\<rparr>)
                | Some ev \<Rightarrow> finish_event f fmt save ev h
              }
          }))"

text \<open>\<^verbatim>\<open>esl_wait_sock\<close> for reading: a socket that is closed can be read.\<close>

definition wait_read :: "esl_handle \<Rightarrow> bool \<times> esl_handle" where
  "wait_read h = (case hsock_in h of Idle # r \<Rightarrow> (False, h\<lparr>hsock_in := r\<rparr>) | _ \<Rightarrow> (True, h))"

definition esl_recv_event_timed ::
  "alloc_env \<Rightarrow> 'd fp \<Rightarrow> (string \<Rightarrow> string option) \<Rightarrow> nat \<Rightarrow> bool \<Rightarrow> bool \<Rightarrow> esl_handle \<Rightarrow> (esl_status \<times> esl_event option \<times> esl_handle) option" where
  "esl_recv_event_timed env f fmt ms check_q save h =
     (if ms = 0 then esl_recv_event env f fmt check_q save h
      else if \<not> usable h then Some (ESL_FAIL, None, h)
      else do {
        ready \<leftarrow> (if \<not> check_q then Some False
                  else if race_event h \<noteq> [] then Some True
                  else do { b \<leftarrow> packet_buf h; n \<leftarrow> esl_buffer_packet_count b; Some (n \<noteq> 0) });
        if ready then esl_recv_event env f fmt check_q save h
        else (let held = (case packet_buf h of None \<Rightarrow> 0 | Some b \<Rightarrow> esl_buffer_inuse b);
                  (activity, h) = (if held \<noteq> 0 then (True, h) else wait_read h)
              in if activity then esl_recv_event env f fmt check_q save h else Some (ESL_BREAK, None, h))
      })"

section \<open>Sending\<close>

definition sock_write :: "string \<Rightarrow> esl_handle \<Rightarrow> bool \<times> esl_handle" where
  "sock_write bs h = (case hsends h of
     [] \<Rightarrow> (True, h\<lparr>hsock_out := hsock_out h @ bs\<rparr>)
   | n # ns \<Rightarrow> (n \<ge> length bs, h\<lparr>hsends := ns, hsock_out := hsock_out h @ take n bs\<rparr>))"

text \<open>The last two characters of the command are read, whether or not it has two.\<close>

definition ends_blank :: "string \<Rightarrow> bool option" where
  "ends_blank cmd =
     (if cmd = [] then None
      else if last cmd \<noteq> LF then Some False
      else if length cmd = 1 then None
      else Some (cmd ! (length cmd - 2) = LF))"

definition esl_send :: "esl_handle \<Rightarrow> string \<Rightarrow> (esl_status \<times> esl_handle) option" where
  "esl_send h cmd =
     (if \<not> usable h then Some (ESL_FAIL, h)
      else (case sock_write cmd h of
          (False, h) \<Rightarrow> Some (ESL_FAIL, h\<lparr>hconnected := False\<rparr>)
        | (True, h) \<Rightarrow> do {
            blank \<leftarrow> ends_blank cmd;
            if blank then Some (ESL_SUCCESS, h)
            else (case sock_write [LF, LF] h of
                (False, h) \<Rightarrow> Some (ESL_FAIL, h\<lparr>hconnected := False\<rparr>)
              | (True, h) \<Rightarrow> Some (ESL_SUCCESS, h))
          }))"

definition is_reply :: "esl_event \<Rightarrow> bool" where
  "is_reply ev \<longleftrightarrow> (case esl_event_get_header ev ''content-type'' of
     None \<Rightarrow> True | Some ct \<Rightarrow> strcasecmp_eq ct ''api/response'' \<or> strcasecmp_eq ct ''command/reply'')"

text \<open>The loop at the label \<^verbatim>\<open>recv\<close>: what is not a reply is kept for later.\<close>

partial_function (option) reply_loop ::
  "alloc_env \<Rightarrow> 'd fp \<Rightarrow> (string \<Rightarrow> string option) \<Rightarrow> nat \<Rightarrow> esl_handle \<Rightarrow> (esl_status \<times> esl_handle) option" where
  "reply_loop env f fmt ms h =
     Option.bind (esl_recv_event_timed env f fmt ms False True (h\<lparr>last_sr_event := None, last_sr_reply := []\<rparr>)) (\<lambda>r.
       case r of (st, ev, h) \<Rightarrow>
         (case ev of
            None \<Rightarrow> Some (st, h)
          | Some ev \<Rightarrow>
              if \<not> is_reply ev then
                (let h = h\<lparr>race_event := race_event h @ [ev]\<rparr>
                 in if \<not> usable h then Some (ESL_FAIL, h\<lparr>hconnected := False\<rparr>) else reply_loop env f fmt ms h)
              else Some (st, h\<lparr>last_sr_event := Some ev, last_sr_reply :=
                (case esl_event_get_header ev ''reply-text'' of None \<Rightarrow> [] | Some v \<Rightarrow> take 1024 v)\<rparr>)))"

definition esl_send_recv_timed ::
  "alloc_env \<Rightarrow> 'd fp \<Rightarrow> (string \<Rightarrow> string option) \<Rightarrow> nat \<Rightarrow> esl_handle \<Rightarrow> string \<Rightarrow> (esl_status \<times> esl_handle) option" where
  "esl_send_recv_timed env f fmt ms h cmd =
     (if \<not> usable h then Some (ESL_FAIL, h)
      else do {
        (st, h) \<leftarrow> esl_send (h\<lparr>last_sr_event := None, last_sr_reply := []\<rparr>) cmd;
        if st \<noteq> ESL_SUCCESS then Some (st, h) else reply_loop env f fmt ms h
      })"

definition esl_send_recv ::
  "alloc_env \<Rightarrow> 'd fp \<Rightarrow> (string \<Rightarrow> string option) \<Rightarrow> esl_handle \<Rightarrow> string \<Rightarrow> (esl_status \<times> esl_handle) option" where
  "esl_send_recv env f fmt h cmd = esl_send_recv_timed env f fmt 0 h cmd"

section \<open>Commands\<close>

text \<open>All of the handle is set to 0 in the end, the socket too.\<close>

definition esl_disconnect :: "esl_handle \<Rightarrow> esl_status \<times> esl_handle" where
  "esl_disconnect h =
     (if destroyed h then (ESL_FAIL, h)
      else (if hsock h \<noteq> ESL_SOCK_INVALID then ESL_SUCCESS else ESL_FAIL,
        h\<lparr>hsock := 0, packet_buf := None, last_reply := [], last_sr_reply := [], last_event := None, last_sr_event := None, race_event := [],
          last_ievent := None, info_event := None, hconnected := False, async_execute := False, event_lock := False, destroyed := True\<rparr>))"

definition esl_attach_handle ::
  "alloc_env \<Rightarrow> 'd fp \<Rightarrow> (string \<Rightarrow> string option) \<Rightarrow> esl_handle \<Rightarrow> int \<Rightarrow> (esl_status \<times> esl_handle) option" where
  "esl_attach_handle env f fmt h socket =
     (if socket = ESL_SOCK_INVALID then Some (ESL_FAIL, h)
      else do {
        let h = h\<lparr>hsock := socket\<rparr>;
        let h = (if packet_buf h = None then h\<lparr>packet_buf := esl_buffer_create env BUF_CHUNK BUF_START 0\<rparr> else h);
        (_, h) \<leftarrow> esl_send_recv env f fmt (h\<lparr>hconnected := True\<rparr>) (''connect'' @ [LF, LF]);
        case last_sr_event h of
          Some ev \<Rightarrow> Some (ESL_SUCCESS, h\<lparr>info_event := Some ev, last_sr_event := None\<rparr>)
        | None \<Rightarrow> Some (ESL_FAIL, snd (esl_disconnect h))
      })"

definition esl_sendevent ::
  "alloc_env \<Rightarrow> 'd fp \<Rightarrow> (string \<Rightarrow> string option) \<Rightarrow> esl_handle \<Rightarrow> esl_event option \<Rightarrow> (esl_status \<times> esl_handle) option" where
  "esl_sendevent env f fmt h ev = (case ev of
     None \<Rightarrow> Some (ESL_FAIL, h)
   | Some ev \<Rightarrow>
       if \<not> hconnected h then Some (ESL_FAIL, h)
       else do {
         txt \<leftarrow> esl_event_serialize ev False;
         name \<leftarrow> esl_event_name (eid ev);
         esl_send_recv env f fmt h (c_snprintf (length txt + 100) (''sendevent '' @ name @ [LF] @ txt))
       })"

definition esl_execute ::
  "alloc_env \<Rightarrow> 'd fp \<Rightarrow> (string \<Rightarrow> string option) \<Rightarrow> esl_handle \<Rightarrow> string option \<Rightarrow> string option \<Rightarrow> string option \<Rightarrow> (esl_status \<times> esl_handle) option" where
  "esl_execute env f fmt h app arg uuid =
     (if \<not> usable h then Some (ESL_FAIL, h)
      else (let
        cmd_buf = (case uuid of None \<Rightarrow> ''sendmsg'' | Some u \<Rightarrow> c_snprintf 128 (''sendmsg '' @ u));
        app_buf = (case app of None \<Rightarrow> [] | Some a \<Rightarrow> c_snprintf 512 (''execute-app-name: '' @ a @ [LF]));
        arg_buf = (case arg of None \<Rightarrow> [] | Some a \<Rightarrow> c_snprintf 4096 (''execute-app-arg: '' @ a @ [LF]))
      in esl_send_recv env f fmt h (c_snprintf 5120 (cmd_buf @ [LF] @ ''call-command: execute'' @ [LF] @ app_buf @ arg_buf @
           (if event_lock h then ''event-lock: true'' @ [LF] else []) @ (if async_execute h then ''async: true'' @ [LF] else []) @ [LF]))))"

definition esl_sendmsg ::
  "alloc_env \<Rightarrow> 'd fp \<Rightarrow> (string \<Rightarrow> string option) \<Rightarrow> esl_handle \<Rightarrow> esl_event \<Rightarrow> string option \<Rightarrow> (esl_status \<times> esl_handle) option" where
  "esl_sendmsg env f fmt h ev uuid =
     (if \<not> usable h then Some (ESL_FAIL, h)
      else do {
        txt \<leftarrow> esl_event_serialize ev False;
        esl_send_recv env f fmt h (c_snprintf (length txt + 100)
          (case uuid of None \<Rightarrow> ''sendmsg'' @ [LF] @ txt | Some u \<Rightarrow> ''sendmsg '' @ u @ [LF] @ txt))
      })"

definition esl_filter ::
  "alloc_env \<Rightarrow> 'd fp \<Rightarrow> (string \<Rightarrow> string option) \<Rightarrow> esl_handle \<Rightarrow> string \<Rightarrow> string \<Rightarrow> (esl_status \<times> esl_handle) option" where
  "esl_filter env f fmt h header value =
     (if \<not> usable h then Some (ESL_FAIL, h)
      else esl_send_recv env f fmt h (c_snprintf 1024 (''filter '' @ header @ '' '' @ value @ [LF, LF])))"

datatype esl_event_type = ESL_EVENT_TYPE_PLAIN | ESL_EVENT_TYPE_XML | ESL_EVENT_TYPE_JSON

definition type_name :: "esl_event_type \<Rightarrow> string" where
  "type_name t = (case t of ESL_EVENT_TYPE_XML \<Rightarrow> ''xml'' | ESL_EVENT_TYPE_JSON \<Rightarrow> ''json'' | _ \<Rightarrow> ''plain'')"

definition esl_events ::
  "alloc_env \<Rightarrow> 'd fp \<Rightarrow> (string \<Rightarrow> string option) \<Rightarrow> esl_handle \<Rightarrow> esl_event_type \<Rightarrow> string \<Rightarrow> (esl_status \<times> esl_handle) option" where
  "esl_events env f fmt h etype value =
     (if \<not> usable h then Some (ESL_FAIL, h)
      else esl_send_recv env f fmt h (c_snprintf 1024 (''event '' @ type_name etype @ '' '' @ value @ [LF, LF])))"

end
