(* ===== verification/Agc_Esl_Event_Laws.thy ===== *)
theory Agc_Esl_Event_Laws
  imports Agc_Esl_Event Agc_Event_Json
begin

text \<open>
  Laws of the events of the client library: the encoding of texts for URLs can be undone, names that differ in case only
  have the same hash, and an event is made of the members of a JSON object one by one.
\<close>

section \<open>Texts\<close>

definition ascii :: "string \<Rightarrow> bool" where
  "ascii s \<longleftrightarrow> (\<forall>c \<in> set s. 0 < (of_char c :: nat) \<and> (of_char c :: nat) < 128)"

lemma hex_upper_val: "n < 16 \<Longrightarrow> hexdigit_val (hex_upper n) = Some n \<and> \<not> is_space (hex_upper n) \<and> hex_upper n \<notin> {CHR ''+'', CHR ''-'', CHR ''x'', CHR ''X''}"
proof -
  have "\<forall>n \<in> set [0..<16]. hexdigit_val (hex_upper n) = Some n \<and> \<not> is_space (hex_upper n) \<and> hex_upper n \<notin> {CHR ''+'', CHR ''-'', CHR ''x'', CHR ''X''}"
    by code_simp
  then show "n < 16 \<Longrightarrow> ?thesis" by simp
qed

lemma scan_hex_pair:
  assumes "n < 256"
  shows "scan_hex2 (hex_upper (n div 16) # hex_upper (n mod 16) # r) = Some (char_of n)"
proof -
  have h: "n div 16 < 16" "n mod 16 < 16" using assms by auto
  note hex_upper_val [OF h(1)] hex_upper_val [OF h(2)]
  moreover have "16 * (n div 16) + n mod 16 = n" by simp
  ultimately show ?thesis by (auto simp: scan_hex2_def)
qed

lemma hex_upper_keep: "n < 16 \<Longrightarrow> url_keep (hex_upper n)"
proof -
  have "\<forall>n \<in> set [0..<16]. url_keep (hex_upper n)" by code_simp
  then show "n < 16 \<Longrightarrow> ?thesis" by simp
qed

lemma url_round:
  assumes "ascii s" "x + 3 * length s < len"
  shows "\<exists>t. url_encode_loop len x s = Some t \<and> url_decode_loop t = s \<and> (\<forall>c \<in> set t. c = CHR ''%'' \<or> url_keep c)"
  using assms
proof (induction s arbitrary: x)
  case (Cons c s)
  let ?n = "of_char c :: nat"
  have n: "0 < ?n" "?n < 128" "ascii s" using Cons.prems(1) by (auto simp: ascii_def)
  show ?case
  proof (cases "url_keep c")
    case True
    then have "c \<noteq> CHR ''%''" by (auto simp: url_keep_def urlunsafe_def)
    moreover from Cons.IH [OF n(3), of "x + 1"] Cons.prems(2) obtain t where
      "url_encode_loop len (x + 1) s = Some t" "url_decode_loop t = s" "\<forall>c \<in> set t. c = CHR ''%'' \<or> url_keep c" by auto
    ultimately show ?thesis using True Cons.prems(2) by simp
  next
    case False
    from Cons.IH [OF n(3), of "x + 3"] Cons.prems(2) obtain t where
      t: "url_encode_loop len (x + 3) s = Some t" "url_decode_loop t = s" "\<forall>c \<in> set t. c = CHR ''%'' \<or> url_keep c" by auto
    have "url_decode_loop (CHR ''%'' # hex_upper (?n div 16) # hex_upper (?n mod 16) # t) = c # s"
      using scan_hex_pair [of ?n t] n t(2) by simp
    moreover have "url_keep (hex_upper (?n div 16))" "url_keep (hex_upper (?n mod 16))" using n(2) by (auto intro!: hex_upper_keep)
    ultimately show ?thesis using False n Cons.prems(2) t(1,3) by simp
  qed
qed simp

section \<open>Headers\<close>

definition header_of :: "string \<Rightarrow> string \<Rightarrow> esl_header" where
  "header_of k v = \<lparr>ename = k, evalue = Some v, earray = [], ehash = esl_ci_hashfunc_default k\<rparr>"

lemma hash_ci: "map c_tolower s = map c_tolower t \<Longrightarrow> esl_hash h s = esl_hash h t"
proof (induction s arbitrary: h t)
  case (Cons c s)
  then obtain d t' where "t = d # t'" "c_tolower c = c_tolower d" "map c_tolower s = map c_tolower t'" by (cases t) auto
  with Cons.IH show ?case by simp
qed simp

lemma header_of_matches: "header_matches name (header_of k v) \<longleftrightarrow> strcasecmp_eq k name"
  using hash_ci [of name k 0] by (auto simp: header_matches_def header_of_def esl_ci_hashfunc_default_def strcasecmp_eq_def)

text \<open>The first header of a name.\<close>

lemma get_header_first:
  assumes "eheaders ev = map (\<lambda>(k, v). header_of k v) kv" "name \<noteq> ''_body''"
  shows "esl_event_get_header ev name = map_option snd (find (\<lambda>(k, v). strcasecmp_eq k name) kv)"
proof -
  have "map_option ((!) (map (\<lambda>(k, v). header_of k v) kv)) (header_index name (map (\<lambda>(k, v). header_of k v) kv)) =
      map_option (\<lambda>(k, v). header_of k v) (find (\<lambda>(k, v). strcasecmp_eq k name) kv)"
    by (induction kv) (auto simp: header_of_matches option.map_comp comp_def)
  then show ?thesis using assms
    by (auto simp: esl_event_get_header_def esl_event_get_header_idx_def esl_event_get_header_ptr_def header_of_def split: option.splits prod.splits)
qed

text \<open>Names and values that the client stores as they are.\<close>

definition plain_header :: "string \<Rightarrow> string \<Rightarrow> bool" where
  "plain_header k v \<longleftrightarrow> CHR ''['' \<notin> set k \<and> \<not> strcasecmp_eq k ''_body'' \<and> \<not> strcasecmp_eq k ''event-name'' \<and> v \<noteq> [] \<and> \<not> has_sub ''ARRAY::'' v"

lemma stack_bits: "\<not> stack_has ESL_STACK_BOTTOM f"
  by (simp add: stack_has_def ESL_STACK_BOTTOM_def)

lemma add_plain:
  assumes "CHR ''['' \<notin> set k" "k \<noteq> ''_body''" "v \<noteq> []" "\<not> has_sub ''ARRAY::'' v" "\<not> uniq_headers ev"
  shows "esl_event_base_add_header ESL_STACK_BOTTOM k v ev = ev\<lparr>eheaders := eheaders ev @ [header_of k v]\<rparr>"
  using assms by (simp add: esl_event_base_add_header.simps stack_bits link_new_def set_value_def esl_new_header_def header_of_def)

lemma add_header_plain:
  assumes "plain_header k v" "\<not> uniq_headers ev"
  shows "esl_event_add_header_string ev ESL_STACK_BOTTOM k (Some v) = (True, ev\<lparr>eheaders := eheaders ev @ [header_of k v]\<rparr>)"
proof -
  have "k \<noteq> ''_body''" using assms(1) by (auto simp: plain_header_def)
  with assms add_plain [of k v ev] show ?thesis by (simp add: esl_event_add_header_string_def plain_header_def)
qed

section \<open>JSON\<close>

lemma json_members_plain:
  "string_members cs kv \<Longrightarrow> \<forall>(k, v) \<in> set kv. plain_header k v \<Longrightarrow> \<not> uniq_headers ev \<Longrightarrow>
   json_members fmt (cs @ ds) ev = json_members fmt ds (ev\<lparr>eheaders := eheaders ev @ map (\<lambda>(k, v). header_of k v) kv\<rparr>)"
proof (induction cs arbitrary: kv ev)
  case Nil
  then show ?case by (simp add: string_members_def)
next
  case (Cons c cs)
  from Cons.prems(1) obtain k v kv' where c: "kv = (k, v) # kv'" "jname (node c) = Some k" "valuestring (node c) = Some v" "string_members cs kv'"
    by (auto simp: string_members_Cons)
  have p: "plain_header k v" "\<forall>(k, v) \<in> set kv'. plain_header k v" using Cons.prems(2) c(1) by auto
  have "json_member fmt c ev = Some (ev\<lparr>eheaders := eheaders ev @ [header_of k v]\<rparr>)"
    using c(2,3) p(1) add_header_plain [OF p(1) Cons.prems(3)] by (simp add: json_member_def plain_header_def)
  moreover have "\<not> uniq_headers (ev\<lparr>eheaders := eheaders ev @ [header_of k v]\<rparr>)" using Cons.prems(3) by simp
  ultimately show ?case using Cons.IH [OF c(4) p(2)] c(1) by simp
qed

text \<open>What the client makes of the fields of an event of the framework.\<close>

definition client_event :: "fields \<Rightarrow> string option \<Rightarrow> esl_event" where
  "client_event kv b = clone_event\<lparr>eheaders := map (\<lambda>(k, v). header_of k v) kv, ebody := b\<rparr>"

definition body_plain :: "string option \<Rightarrow> bool" where
  "body_plain b \<longleftrightarrow> (case b of None \<Rightarrow> True | Some t \<Rightarrow> CHR ''%'' \<notin> set t)"

lemma json_members_event:
  assumes "string_members cs (kv @ body_fields ev)" "\<forall>(k, v) \<in> set kv. plain_header k v" "body_plain (body ev)"
  shows "json_members fmt cs clone_event = Some (client_event kv (body ev))"
proof -
  from string_members_append [OF assms(1)] obtain as bs where c: "cs = as @ bs" "string_members as kv" "string_members bs (body_fields ev)" by blast
  have u: "\<not> uniq_headers clone_event" "eheaders clone_event = []" "ebody clone_event = None" by (simp_all add: clone_event_def)
  have "json_members fmt bs e = Some (e\<lparr>ebody := (case body ev of None \<Rightarrow> ebody e | Some b \<Rightarrow> Some b)\<rparr>)" for e
  proof (cases "body ev")
    case None
    then have "bs = []" using c(3) by (simp add: body_fields_def string_members_def)
    with None show ?thesis by simp
  next
    case (Some b)
    then obtain d where "bs = [d]" "jname (node d) = Some ''_body''" "valuestring (node d) = Some b"
      using c(3) by (cases bs) (auto simp: body_fields_def string_members_def)
    with Some assms(3) show ?thesis by (simp add: json_member_def format_body_def body_plain_def)
  qed
  with json_members_plain [OF c(2) assms(2) u(1)] c(1) u show ?thesis
    by (cases "body ev") (simp_all add: client_event_def)
qed

lemma print_char_text: "CHR 0x00 \<notin> set (print_char c)"
proof -
  have h: "hex_digit n \<noteq> CHR 0x00" if "n < 16" for n
  proof -
    have "(of_char (hex_digit n) :: nat) = (if n < 10 then 48 + n else 87 + n)" using that by (simp add: hex_digit_def)
    then show ?thesis by (auto split: if_splits)
  qed
  have "31 < (of_char c :: nat) \<Longrightarrow> c \<noteq> CHR 0x00" by auto
  moreover have "(of_char c :: nat) \<le> 31 \<Longrightarrow> CHR 0x00 \<noteq> hex_digit (of_char c div 16) \<and> CHR 0x00 \<noteq> hex_digit (of_char c mod 16)"
    using h [of "of_char c div 16"] h [of "of_char c mod 16"] div_le_dividend [of "of_char c :: nat" 16] by fastforce
  ultimately show ?thesis by (auto simp: print_char_def not_less)
qed

lemma object_text:
  assumes "cJSON_PrintUnformatted f (object_of f kv) = Val t" "fields_fit kv"
  shows "CHR 0x00 \<notin> set t"
proof -
  let ?q = "\<lambda>s. CHR 0x22 # concat (map print_char s) @ [CHR 0x22]"
  let ?ms = "map (\<lambda>(k, v). CJ ((node (cJSON_CreateString f (Some v)))\<lparr>jname := Some k\<rparr>) []) kv"
  have "\<forall>(k, v) \<in> set kv. string_fits (Some k) \<and> string_fits (Some v)" using assms(2) by (simp add: fields_fit_def)
  then have m: "print_members f ?ms d False = Val (map (\<lambda>(k, v). (?q k, ?q v)) kv)" for d
    by (induction kv) (auto simp: cJSON_CreateString_def json_types print_string_Val cJSON_strdup_def)
  have c: "CHR 0x00 \<notin> set (compose_object False d (map (\<lambda>(k, v). (?q k, ?q v)) kv))" for d
    by (induction kv) (auto simp: tabs_def newline_def print_char_text split: if_splits)
  show ?thesis using assms(1) c
    by (auto split: if_splits simp: cJSON_PrintUnformatted_def object_of_children m cJSON_CreateObject_def create_typed_def json_types finish_object_Val newline_def tabs_def)
qed

lemma client_reads_event:
  assumes "fp_exact f" "text_fields (kv @ body_fields ev)" "\<forall>(k, v) \<in> set kv. plain_header k v" "body_plain (body ev)"
    "fields_fit (kv @ body_fields ev)"
  shows "\<exists>t. cJSON_PrintUnformatted f (object_of f (kv @ body_fields ev)) = Val t \<and> CHR 0x00 \<notin> set t \<and>
     esl_event_create_json f fmt t = Some (Some (client_event kv (body ev)))"
proof -
  let ?all = "kv @ body_fields ev"
  from print_parse [OF assms(1) object_of_value [OF assms(2)] object_of_fits [OF assms(5)], of False] obtain t c' where
    t: "cJSON_PrintUnformatted f (object_of f ?all) = Val t" "cJSON_Parse f t = Val c'"
    "jval_of f c' = Some (JObj (map (\<lambda>(k, v). (k, JStr v)) ?all))" unfolding cJSON_PrintUnformatted_def by blast
  obtain it cs where c': "c' = CJ it cs" by (cases c')
  from t(3) have "jmembers_of f cs = Some (map (\<lambda>(k, v). (k, JStr v)) ?all)" by (auto simp: c' split: if_splits option.splits)
  then have "string_members cs ?all" by (rule jmembers_strings)
  from json_members_event [OF this assms(3,4), of fmt] t(1,2) object_text [OF t(1) assms(5)] c' show ?thesis
    by (simp add: esl_event_create_json_def)
qed

section \<open>Properties\<close>

text \<open>
  A text of ASCII characters that is encoded for a URL into a buffer of at least three bytes for each character and
  two more is decoded to itself, and the encoded text holds only the percent sign and characters that are safe
  in a line of a packet.
\<close>

theorem esl_url_roundtrip:
  assumes "ascii s" "3 * length s + 2 \<le> n"
  shows "\<exists>t. esl_url_encode s n = Some t \<and> esl_url_decode t = s \<and> (\<forall>c \<in> set t. c = CHR ''%'' \<or> url_keep c)"
proof -
  have "0 + 3 * length s < size_sub n 1" using assms(2) by (simp add: size_sub_def)
  from url_round [OF assms(1) this] obtain t where
    t: "url_encode_loop (size_sub n 1) 0 s = Some t" "url_decode_loop t = s" "\<forall>c \<in> set t. c = CHR ''%'' \<or> url_keep c" by blast
  have "CHR 0x00 \<notin> set s" using assms(1) by (auto simp: ascii_def)
  then have "c_str s = s" by (auto simp: c_str_def takeWhile_eq_all_conv)
  with t show ?thesis by (auto simp: esl_url_encode_def esl_url_decode_def)
qed

theorem esl_url_roundtrip_witness:
  "\<exists>t. esl_url_encode (''50% of a'' @ [LF, CR] @ ''b:c'') 100 = Some t \<and> esl_url_decode t = ''50% of a'' @ [LF, CR] @ ''b:c'' \<and>
     (\<forall>c \<in> set t. c = CHR ''%'' \<or> url_keep c)"
proof -
  have "ascii (''50% of a'' @ [LF, CR] @ ''b:c'')" by code_simp
  from esl_url_roundtrip [OF this, of 100] show ?thesis by simp
qed

text \<open>
  The buffer the caller provides has three bytes for each character and one more: the last character is lost if all
  of them need the encoding.
\<close>

lemma url_last_lost: "esl_url_encode ''&&'' 7 = Some ''%26''"
  by code_simp

text \<open>
  The values of \<^verbatim>\<open>esl_stack_t\<close> are used as bits: an element that is to go in front of an array is put behind, and a
  header that is to go in front of the others replaces the value of one with the same name.
\<close>

lemma unshift_pushes:
  "map (\<lambda>h. (ename h, earray h)) (eheaders (esl_event_base_add_header ESL_STACK_UNSHIFT ''a'' ''2''
     (esl_event_base_add_header ESL_STACK_PUSH ''a'' ''1'' clone_event))) = [(''a'', [''1'', ''2''])]"
  by code_simp

lemma top_replaces:
  "map (\<lambda>h. (ename h, evalue h)) (eheaders (esl_event_base_add_header ESL_STACK_TOP ''a'' ''2''
     (esl_event_base_add_header ESL_STACK_BOTTOM ''a'' ''1'' clone_event))) = [(''a'', Some ''2'')]"
  by code_simp

end
