(* ===== verification/Agc_Esl_Laws.thy ===== *)
theory Agc_Esl_Laws
  imports Agc_Esl Agc_Esl_Event_Laws Agc_Eventsocket_Delivery
begin

text \<open>
  Laws of the client's handle. The bytes that are held and those that are still to arrive are one text, from which
  packets and bodies are taken in order, however it is cut into segments. On that rests the composition with the
  event socket: a client receives exactly the events that were put into the queue of its connection. The text is
  shorter than the block of the buffer, so that the block is not reused.
\<close>

section \<open>Packets and bodies\<close>

definition stream :: "esl_handle \<Rightarrow> string" where
  "stream h = (case packet_buf h of None \<Rightarrow> [] | Some b \<Rightarrow> held_bytes b) @ bytes (hsock_in h)"

definition client_ok :: "esl_handle \<Rightarrow> bool" where
  "client_ok h \<longleftrightarrow> usable h \<and> (\<exists>b. packet_buf h = Some b \<and> fresh b \<and> length (bytes (hsock_in h)) < room b) \<and> NUL \<notin> set (stream h)"

text \<open>Receiving changes nothing but the buffer and the socket.\<close>

definition advanced :: "nat \<Rightarrow> esl_handle \<Rightarrow> esl_handle \<Rightarrow> bool" where
  "advanced n h h' \<longleftrightarrow> client_ok h' \<and> stream h' = drop n (stream h) \<and> (\<exists>b rx. h' = h\<lparr>packet_buf := b, hsock_in := rx\<rparr>)"

lemma advancedI: "client_ok h' \<Longrightarrow> stream h' = drop n (stream h) \<Longrightarrow> h' = h\<lparr>packet_buf := b, hsock_in := rx\<rparr> \<Longrightarrow> advanced n h h'"
  unfolding advanced_def by blast

lemma recv_step:
  assumes "client_ok h" "handle_recv h = (a, h1)"
  shows "case a of
      Gone \<Rightarrow> bytes (hsock_in h) = []
    | Break \<Rightarrow> advanced 0 h h1
    | Bytes bs \<Rightarrow> (\<exists>h2. buffer_add env bs h1 = Some h2 \<and> advanced 0 h h2)"
proof -
  from assms(1) obtain b where b: "hconnected h" "packet_buf h = Some b" "fresh b" "length (bytes (hsock_in h)) < room b" "NUL \<notin> set (stream h)"
    by (auto simp: client_ok_def usable_def)
  from assms(2) b(1) obtain rx where rx: "sock_recv (hsock_in h) (SOCKET_BUF - 1) = (a, rx)" "h1 = h\<lparr>hsock_in := rx\<rparr>"
    by (auto simp: handle_recv_def split: prod.splits)
  show ?thesis
  proof (cases a)
    case Gone
    with recv_gone rx(1) show ?thesis by auto
  next
    case Break
    with recv_break rx(1) have "bytes rx = bytes (hsock_in h)" by auto
    then have "advanced 0 h h1"
      by (intro advancedI [where b = "Some b" and rx = rx]) (use rx(2) b assms(1) in \<open>auto simp: client_ok_def stream_def usable_def\<close>)
    with Break show ?thesis by simp
  next
    case (Bytes bs)
    with recv_bytes [of "hsock_in h" "SOCKET_BUF - 1" bs rx] rx(1) have r: "bytes (hsock_in h) = bs @ bytes rx" by (simp add: SOCKET_BUF_def)
    with b(4) have "length bs < room b" by simp
    from write_fresh [OF b(3) this, of env] obtain w b' where
      w: "esl_buffer_write env b bs = Some (w, b')" "fresh b'" "held_bytes b' = held_bytes b @ bs" "room b' = room b - length bs" by blast
    have "buffer_add env bs h1 = Some (h1\<lparr>packet_buf := Some b'\<rparr>)" using rx(2) b(2) w(1) by (simp add: buffer_add_def)
    moreover have "advanced 0 h (h1\<lparr>packet_buf := Some b'\<rparr>)"
      by (rule advancedI [where b = "Some b'" and rx = rx]) (use rx(2) b assms(1) w(2-4) r in \<open>auto simp: client_ok_def stream_def usable_def\<close>)
    ultimately show ?thesis using Bytes by auto
  qed
qed

lemma advanced_trans:
  assumes "advanced m h h1" "advanced n h1 h2"
  shows "advanced (m + n) h h2"
proof -
  from assms obtain b rx b' rx' where "h1 = h\<lparr>packet_buf := b, hsock_in := rx\<rparr>" "h2 = h1\<lparr>packet_buf := b', hsock_in := rx'\<rparr>"
    by (auto simp: advanced_def)
  then have "h2 = h\<lparr>packet_buf := b', hsock_in := rx'\<rparr>" by simp
  then show ?thesis using assms by (intro advancedI) (auto simp: advanced_def add.commute)
qed

lemma advanced_0: "advanced 0 h h1 \<Longrightarrow> client_ok h1 \<and> stream h1 = stream h"
  by (simp add: advanced_def)

lemma recv_packet_stream:
  "client_ok h \<Longrightarrow> packet_len (stream h) = Some n \<Longrightarrow> n < SOCKET_BUF \<Longrightarrow>
   \<exists>h'. recv_packet env h = Some (Some (take n (stream h)), h') \<and> advanced n h h'"
proof (induction env h rule: recv_packet.induct)
  case (1 env h)
  from 1(3) obtain b where b: "usable h" "packet_buf h = Some b" "fresh b" "length (bytes (hsock_in h)) < room b" "NUL \<notin> set (stream h)"
    by (auto simp: client_ok_def)
  then have nul: "NUL \<notin> set (held_bytes b)" by (simp add: stream_def)
  let ?k = "case packet_len (held_bytes b) of None \<Rightarrow> 0 | Some n \<Rightarrow> min n (SOCKET_BUF - 1)"
  from read_packet_fresh [OF b(3) nul, of "SOCKET_BUF - 1"] obtain b' where
    r: "esl_buffer_read_packet b (SOCKET_BUF - 1) = Some (take ?k (held_bytes b), b')" "fresh b'" "held_bytes b' = drop ?k (held_bytes b)" "room b' = room b" by blast
  let ?h = "h\<lparr>packet_buf := Some b'\<rparr>"
  show ?case
  proof (cases "packet_len (held_bytes b)")
    case (Some m)
    from packet_len_more [OF Some] 1(4) b(2) have m: "m = n" by (simp add: stream_def)
    from packet_len_bound [OF Some] have l: "0 < n" "n \<le> length (held_bytes b)" using m by auto
    have k: "?k = n" using Some m 1(5) by simp
    have "advanced n h ?h"
      by (rule advancedI [where b = "Some b'" and rx = "hsock_in h"])
        (use b r(2-4) k l set_drop_subset [of n "held_bytes b"] in \<open>auto simp: client_ok_def stream_def usable_def\<close>)
    moreover have "recv_packet env h = Some (Some (take n (held_bytes b)), ?h)"
      using b(2) r(1) k l by (subst recv_packet.simps) auto
    ultimately show ?thesis using b(2) l(2) by (auto simp: stream_def)
  next
    case None
    then have e: "esl_buffer_read_packet b (SOCKET_BUF - 1) = Some ([], b')" "held_bytes b' = held_bytes b" using r(1,3) by auto
    have t0: "advanced 0 h ?h"
      by (rule advancedI [where b = "Some b'" and rx = "hsock_in h"]) (use b r(2,4) e(2) in \<open>auto simp: client_ok_def stream_def usable_def\<close>)
    obtain a h1 where a: "handle_recv ?h = (a, h1)" by (cases "handle_recv ?h")
    note step = recv_step [OF conjunct1 [OF advanced_0 [OF t0]] a, of env]
    show ?thesis
    proof (cases a)
      case Gone
      with step have "bytes (hsock_in h) = []" by simp
      then have "stream h = held_bytes b" using b(2) by (simp add: stream_def)
      with None 1(4) show ?thesis by simp
    next
      case Break
      with step have t: "advanced 0 h h1" using advanced_trans [OF t0] by fastforce
      have "recv_packet env h = recv_packet env h1" using b(2) e(1) a Break by (subst recv_packet.simps) simp
      with 1(2) [OF b(2) e(1) refl _ a [symmetric] Break] advanced_0 [OF t] 1(4,5) advanced_trans [OF t] show ?thesis by auto
    next
      case (Bytes bs)
      with step obtain h2 where h2: "buffer_add env bs h1 = Some h2" "advanced 0 h h2" using advanced_trans [OF t0] by fastforce
      have "recv_packet env h = recv_packet env h2" using b(2) e(1) a Bytes h2(1) by (subst recv_packet.simps) simp
      with 1(1) [OF b(2) e(1) refl _ a [symmetric] Bytes h2(1)] advanced_0 [OF h2(2)] 1(4,5) advanced_trans [OF h2(2)] show ?thesis by auto
    qed
  qed
qed

lemma recv_body_stream:
  "client_ok h \<Longrightarrow> n \<le> length (stream h) \<Longrightarrow>
   \<exists>h'. recv_body env n h = Some (Some (take n (stream h)), h') \<and> advanced n h h'"
proof (induction env n h rule: recv_body.induct)
  case (1 env n h)
  from 1(3) obtain b where b: "usable h" "packet_buf h = Some b" "fresh b" "length (bytes (hsock_in h)) < room b" "NUL \<notin> set (stream h)"
    by (auto simp: client_ok_def)
  have u: "length (held_bytes b) = bused b" using b(3) by (simp add: fresh_def held_bytes_length)
  show ?case
  proof (cases "n \<le> esl_buffer_inuse b")
    case True
    from read_fresh [OF b(3), of n] obtain b' where
      r: "esl_buffer_read b n = Some (take n (held_bytes b), b')" "fresh b'" "held_bytes b' = drop n (held_bytes b)" "room b' = room b" by blast
    have l: "n \<le> length (held_bytes b)" using True u by (simp add: esl_buffer_inuse_def)
    have "NUL \<notin> set (take n (held_bytes b))" using b(2,5) set_take_subset [of n "held_bytes b"] by (auto simp: stream_def)
    then have c: "c_str (take n (held_bytes b)) = take n (held_bytes b)" by (auto simp: c_str_def takeWhile_eq_all_conv)
    have "advanced n h (h\<lparr>packet_buf := Some b'\<rparr>)"
      by (rule advancedI [where b = "Some b'" and rx = "hsock_in h"])
        (use b r(2-4) l set_drop_subset [of n "held_bytes b"] in \<open>auto simp: client_ok_def stream_def usable_def\<close>)
    moreover have "recv_body env n h = Some (Some (take n (held_bytes b)), h\<lparr>packet_buf := Some b'\<rparr>)"
      using b(2) True r(1) c by (subst recv_body.simps) simp
    ultimately show ?thesis using b(2) l by (auto simp: stream_def)
  next
    case False
    obtain a h1 where a: "handle_recv h = (a, h1)" by (cases "handle_recv h")
    note step = recv_step [OF 1(3) a, of env]
    show ?thesis
    proof (cases a)
      case Gone
      with step have "bytes (hsock_in h) = []" by simp
      then show ?thesis using 1(4) False b(2) u by (simp add: stream_def esl_buffer_inuse_def)
    next
      case Break
      with step have t: "advanced 0 h h1" by simp
      have "recv_body env n h = recv_body env n h1" using b(2) False a Break by (subst recv_body.simps) simp
      with 1(2) [OF b(2) False a [symmetric] Break] advanced_0 [OF t] 1(4) advanced_trans [OF t] show ?thesis by auto
    next
      case (Bytes bs)
      with step obtain h2 where h2: "buffer_add env bs h1 = Some h2" "advanced 0 h h2" by auto
      have "recv_body env n h = recv_body env n h2" using b(2) False a Bytes h2(1) by (subst recv_body.simps) simp
      with 1(1) [OF b(2) False a [symmetric] Bytes h2(1)] advanced_0 [OF h2(2)] 1(4) advanced_trans [OF h2(2)] show ?thesis by auto
    qed
  qed
qed

section \<open>The lines of a packet\<close>

definition rendered :: "fields \<Rightarrow> string" where
  "rendered kv = concat (map (\<lambda>(k, v). k @ '': '' @ v @ [LF]) kv)"

text \<open>Lines that are read as they are written.\<close>

definition plain_line :: "string \<Rightarrow> string \<Rightarrow> bool" where
  "plain_line k v \<longleftrightarrow> k \<noteq> [] \<and> v \<noteq> [] \<and> set k \<inter> {CHR '':'', LF, CR, CHR ''[''} = {} \<and> set v \<inter> {LF, CHR ''%'', NUL} = {} \<and>
     hd v \<noteq> CHR '' '' \<and> hd v \<noteq> CHR 0x09 \<and> \<not> has_sub ''ARRAY::'' v \<and> k \<noteq> ''_body''"

lemma rendered_Cons: "rendered ((k, v) # kv) = k @ CHR '':'' # CHR '' '' # v @ LF # rendered kv"
  by (simp add: rendered_def)

lemma plain_decode: "set v \<inter> {LF, CHR ''%'', NUL} = {} \<Longrightarrow> esl_url_decode v = v"
proof -
  assume v: "set v \<inter> {LF, CHR ''%'', NUL} = {}"
  then have "url_decode_loop v = v" by (induction v) auto
  moreover have "c_str v = v" using v by (auto simp: c_str_def takeWhile_eq_all_conv)
  ultimately show ?thesis by (simp add: esl_url_decode_def)
qed

lemma has_sub_prefix: "take (length p) s = p \<Longrightarrow> has_sub p s"
  by (cases s) auto

lemma has_sub_set: "has_sub p s \<Longrightarrow> set p \<subseteq> set s"
proof (induction s)
  case (Cons a s)
  have "take (length p) (a # s) = p \<Longrightarrow> set p \<subseteq> set (a # s)" by (metis set_take_subset)
  with Cons show ?case by auto
qed simp

lemma add_line_plain:
  assumes "plain_line k v" "\<not> uniq_headers ev"
  shows "add_line k v ev = ev\<lparr>eheaders := eheaders ev @ [header_of k v]\<rparr>"
proof -
  have "take 7 v = ''ARRAY::'' \<Longrightarrow> has_sub ''ARRAY::'' v" using has_sub_prefix [of "''ARRAY::''" v] by (simp add: numeral_eq_Suc)
  then have "take 7 v \<noteq> ''ARRAY::''" using assms(1) by (auto simp: plain_line_def)
  moreover have "CHR ''['' \<notin> set k" "k \<noteq> ''_body''" "v \<noteq> []" "\<not> has_sub ''ARRAY::'' v" using assms(1) by (auto simp: plain_line_def)
  ultimately show ?thesis using add_plain assms(2) by (simp add: add_line_def esl_event_add_header_string_def)
qed

lemma starts_line:
  assumes "\<forall>(k, v) \<in> set kv. plain_line k v" "tail = [] \<or> tail = [LF]"
  shows "dropWhile (\<lambda>c. c = LF \<or> c = CR) (rendered kv @ tail) = (if kv = [] then [] else rendered kv @ tail)"
proof (cases kv)
  case Nil
  then show ?thesis using assms(2) by (auto simp: rendered_def)
next
  case (Cons p kv')
  then obtain k v where p: "p = (k, v)" "plain_line k v" using assms(1) by (cases p) auto
  then obtain c k' where "k = c # k'" "c \<noteq> LF" "c \<noteq> CR" by (cases k) (auto simp: plain_line_def)
  with Cons p show ?thesis by (simp add: rendered_Cons)
qed

lemma cut_at: "x \<notin> set k \<Longrightarrow> takeWhile (\<lambda>c. c \<noteq> x) (k @ x # r) = k \<and> dropWhile (\<lambda>c. c \<noteq> x) (k @ x # r) = x # r"
  by (induction k) auto

lemma packet_lines_plain:
  "\<forall>(k, v) \<in> set kv. plain_line k v \<Longrightarrow> \<not> uniq_headers ev \<Longrightarrow> tail = [] \<or> tail = [LF] \<Longrightarrow>
   packet_lines (rendered kv @ tail) ev = ev\<lparr>eheaders := eheaders ev @ map (\<lambda>(k, v). header_of k v) kv\<rparr>"
proof (induction kv arbitrary: ev tail)
  case Nil
  then show ?case by (subst packet_lines.simps) (auto simp: rendered_def)
next
  case (Cons p kv)
  obtain k v where p: "p = (k, v)" by (cases p)
  with Cons.prems have l: "plain_line k v" "\<forall>(k, v) \<in> set kv. plain_line k v" by auto
  let ?p = "rendered (p # kv) @ tail"
  have c: "CHR '':'' \<notin> set k" "LF \<notin> set v" "set v \<inter> {LF, CHR ''%'', NUL} = {}" "v \<noteq> []" "hd v \<noteq> CHR '' ''" "hd v \<noteq> CHR 0x09"
    using l(1) by (auto simp: plain_line_def)
  have n: "takeWhile (\<lambda>c. c \<noteq> CHR '':'') ?p = k" "tl (dropWhile (\<lambda>c. c \<noteq> CHR '':'') ?p) = CHR '' '' # v @ LF # rendered kv @ tail"
    using cut_at [OF c(1)] by (simp_all add: p rendered_Cons)
  have lv: "line_value ?p = v @ LF # rendered kv @ tail"
    using c(4-6) unfolding line_value_def n(2) by (cases v) auto
  have t: "takeWhile (\<lambda>c. c \<noteq> LF) (v @ LF # rendered kv @ tail) = v" "dropWhile (\<lambda>c. c \<noteq> LF) (v @ LF # rendered kv @ tail) = LF # rendered kv @ tail"
    using cut_at [OF c(2)] by simp_all
  let ?ev = "ev\<lparr>eheaders := eheaders ev @ [header_of k v]\<rparr>"
  have "packet_lines ?p ev = packet_lines (if kv = [] then [] else rendered kv @ tail) ?ev"
    using starts_line [OF l(2) Cons.prems(3)] add_line_plain [OF l(1) Cons.prems(2)] plain_decode [OF c(3)]
    by (subst packet_lines.simps) (simp add: lv n t, simp add: p rendered_Cons)
  also have "\<dots> = packet_lines (rendered kv @ (if kv = [] then [] else tail)) ?ev" by (simp add: rendered_def)
  also have "\<dots> = ?ev\<lparr>eheaders := eheaders ?ev @ map (\<lambda>(k, v). header_of k v) kv\<rparr>"
    by (rule Cons.IH [OF l(2)]) (use Cons.prems(2,3) in auto)
  finally show ?case by (simp add: p)
qed

lemma packet_len_other: "c \<noteq> LF \<Longrightarrow> packet_len (c # r) = map_option Suc (packet_len r)"
  by (simp add: packet_len_Cons)

lemma packet_len_line: "LF \<notin> set l \<Longrightarrow> packet_len (l @ LF # r) = map_option (\<lambda>n. length l + n) (packet_len (LF # r))"
proof (induction l)
  case (Cons c l)
  have "packet_len ((c # l) @ LF # r) = map_option Suc (packet_len (l @ LF # r))"
    unfolding append_Cons by (rule packet_len_other) (use Cons.prems in auto)
  also have "\<dots> = map_option Suc (map_option (\<lambda>n. length l + n) (packet_len (LF # r)))" using Cons by (metis list.set_intros(2))
  finally show ?case by (simp add: option.map_comp comp_def del: packet_len.simps)
qed (simp add: option.map_ident_strong)

lemma packet_len_next: "c \<noteq> LF \<Longrightarrow> c \<noteq> CR \<Longrightarrow> packet_len (LF # c # s) = map_option Suc (packet_len (c # s))"
  by simp

lemma packet_len_lines:
  "\<forall>(k, v) \<in> set kv. plain_line k v \<Longrightarrow> packet_len (LF # rendered kv @ LF # r) = Some (Suc (length (rendered kv @ [LF])))"
proof (induction kv)
  case Nil
  then show ?case by (simp add: rendered_def)
next
  case (Cons p kv)
  obtain k v where p: "p = (k, v)" by (cases p)
  with Cons.prems have l: "plain_line k v" "\<forall>(k, v) \<in> set kv. plain_line k v" by auto
  let ?l = "k @ CHR '':'' # CHR '' '' # v"
  have lf: "LF \<notin> set ?l" using l(1) by (auto simp: plain_line_def)
  obtain c k' where k: "k = c # k'" "c \<noteq> LF" "c \<noteq> CR" using l(1) by (cases k) (auto simp: plain_line_def)
  have "packet_len (LF # ?l @ LF # rendered kv @ LF # r) = map_option Suc (packet_len (?l @ LF # rendered kv @ LF # r))"
    unfolding k(1) append_Cons by (rule packet_len_next [OF k(2,3)])
  also have "\<dots> = Some (Suc (length ?l + Suc (length (rendered kv @ [LF]))))"
    unfolding packet_len_line [OF lf] using Cons.IH [OF l(2)] by simp
  finally show ?case by (simp add: p rendered_Cons)
qed

lemma packet_len_packet:
  assumes "\<forall>(k, v) \<in> set kv. plain_line k v" "kv \<noteq> []"
  shows "packet_len (rendered kv @ LF # r) = Some (length (rendered kv @ [LF]))"
proof -
  obtain k v kv' where kv: "kv = (k, v) # kv'" using assms(2) by (cases kv) auto
  then obtain c k' where "k = c # k'" "c \<noteq> LF" using assms(1) by (cases k) (auto simp: plain_line_def)
  then have "\<exists>s. rendered kv @ LF # r = c # s" by (simp add: kv rendered_Cons)
  then obtain s where s: "rendered kv @ LF # r = c # s" by blast
  have "c \<noteq> CR" using assms(1) \<open>k = c # k'\<close> by (auto simp: kv plain_line_def)
  from packet_len_next [OF \<open>c \<noteq> LF\<close> this, of s] packet_len_lines [OF assms(1), of r] show ?thesis unfolding s by auto
qed

section \<open>Messages\<close>

text \<open>A message on the wire: the lines, an empty line and, if a length is given, that many bytes.\<close>

type_synonym message = "fields \<times> string option"

fun wire :: "message \<Rightarrow> string" where
  "wire (kv, b) = rendered kv @ LF # (case b of None \<Rightarrow> [] | Some t \<Rightarrow> t)"

definition field :: "fields \<Rightarrow> string \<Rightarrow> string option" where
  "field kv name = map_option snd (find (\<lambda>(k, v). strcasecmp_eq k name) kv)"

fun message_ok :: "message \<Rightarrow> bool" where
  "message_ok (kv, b) \<longleftrightarrow> kv \<noteq> [] \<and> (\<forall>(k, v) \<in> set kv. plain_line k v) \<and> length (rendered kv) + 1 < SOCKET_BUF \<and>
     (case b of None \<Rightarrow> field kv ''content-length'' = None
      | Some t \<Rightarrow> map_option strtol10 (field kv ''content-length'') = Some (int (length t)))"

text \<open>The event the client makes of it.\<close>

fun message_event :: "message \<Rightarrow> esl_event" where
  "message_event (kv, b) = clone_event\<lparr>eid := ESL_EVENT_SOCKET_DATA,
     eheaders := map (\<lambda>(k, v). header_of k v) ((''Event-Name'', ''SOCKET_DATA'') # kv), ebody := b\<rparr>"

lemma message_header:
  "name \<noteq> ''_body'' \<Longrightarrow> \<not> strcasecmp_eq ''Event-Name'' name \<Longrightarrow> esl_event_get_header (message_event (kv, b)) name = field kv name"
  using get_header_first [of "message_event (kv, b)" "(''Event-Name'', ''SOCKET_DATA'') # kv" name] by (simp add: field_def)

lemma wire_headers:
  "\<not> strcasecmp_eq ''Event-Name'' ''content-length''" "\<not> strcasecmp_eq ''Event-Name'' ''content-type''"
  "\<not> strcasecmp_eq ''Event-Name'' ''content-disposition''" "\<not> strcasecmp_eq ''Event-Name'' ''reply-text''"
  by code_simp+

lemma message_headers:
  "esl_event_get_header (message_event (kv, b)) ''content-length'' = field kv ''content-length''"
  "esl_event_get_header (message_event (kv, b)) ''content-type'' = field kv ''content-type''"
  "esl_event_get_header (message_event (kv, b)) ''content-disposition'' = field kv ''content-disposition''"
  "esl_event_get_header (message_event (kv, b)) ''reply-text'' = field kv ''reply-text''"
  by (simp_all add: message_header wire_headers del: message_event.simps)

lemma packet_event_plain:
  assumes "\<forall>(k, v) \<in> set kv. plain_line k v" "NUL \<notin> set (rendered kv)"
  shows "packet_event (rendered kv @ [LF]) = message_event (kv, None)"
proof -
  have "c_str (rendered kv @ [LF]) = rendered kv @ [LF]" using assms(2) by (auto simp: c_str_def takeWhile_eq_all_conv)
  moreover have "esl_event_add_header_string (clone_event\<lparr>eid := ESL_EVENT_SOCKET_DATA\<rparr>) ESL_STACK_BOTTOM ''Event-Name'' (Some ''SOCKET_DATA'') =
      (True, clone_event\<lparr>eid := ESL_EVENT_SOCKET_DATA, eheaders := [header_of ''Event-Name'' ''SOCKET_DATA'']\<rparr>)"
    using add_plain [of "''Event-Name''" "''SOCKET_DATA''"] by (simp add: esl_event_add_header_string_def clone_event_def)
  ultimately show ?thesis using packet_lines_plain [OF assms(1), of _ "[LF]"]
    by (simp add: packet_event_def) (simp add: clone_event_def)
qed

lemma recv_message:
  assumes "client_ok h" "stream h = wire (kv, b) @ rest" "message_ok (kv, b)" "\<forall>n. alloc_ok env n"
  shows "\<exists>p h1 h2. recv_packet env h = Some (Some p, h1) \<and> recv_content env (packet_event p) h1 = Some (Some (message_event (kv, b)), h2) \<and>
     advanced (length (wire (kv, b))) h h2"
proof -
  let ?p = "rendered kv @ [LF]" and ?t = "case b of None \<Rightarrow> [] | Some t \<Rightarrow> t"
  have pl: "\<forall>(k, v) \<in> set kv. plain_line k v" "kv \<noteq> []" "length ?p < SOCKET_BUF" using assms(3) by auto
  have st: "stream h = rendered kv @ LF # (?t @ rest)" using assms(2) by simp
  from packet_len_packet [OF pl(1,2)] have "packet_len (stream h) = Some (length ?p)" unfolding st by blast
  from recv_packet_stream [OF assms(1) this pl(3), of env] obtain h1 where
    h1: "recv_packet env h = Some (Some (take (length ?p) (stream h)), h1)" "advanced (length ?p) h h1" by blast
  have p: "take (length ?p) (stream h) = ?p" "drop (length ?p) (stream h) = ?t @ rest" using st by simp_all
  have "NUL \<notin> set (rendered kv)" using assms(1) st by (auto simp: client_ok_def)
  then have ev: "packet_event ?p = message_event (kv, None)" by (rule packet_event_plain [OF pl(1)])
  have s1: "client_ok h1" "stream h1 = ?t @ rest" using h1(2) p(2) by (auto simp: advanced_def)
  show ?thesis
  proof (cases b)
    case None
    then have "field kv ''content-length'' = None" using assms(3) by simp
    then have "recv_content env (packet_event ?p) h1 = Some (Some (message_event (kv, b)), h1)"
      using None by (simp only: ev) (simp add: recv_content_def message_headers del: message_event.simps)
    then show ?thesis using h1 p(1) None by auto
  next
    case (Some t)
    then obtain v where v: "field kv ''content-length'' = Some v" "strtol10 v = int (length t)" using assms(3) by auto
    from recv_body_stream [OF s1(1), of "length t" env] s1(2) Some obtain h2 where
      h2: "recv_body env (length t) h1 = Some (Some t, h2)" "advanced (length t) h1 h2" by auto
    have "recv_content env (packet_event ?p) h1 = Some (Some ((message_event (kv, None))\<lparr>ebody := Some t\<rparr>), h2)"
      using v h2(1) assms(4) by (simp only: ev) (simp add: recv_content_def message_headers del: message_event.simps)
    then show ?thesis using h1(1) p(1) Some advanced_trans [OF h1(2) h2(2)] by auto
  qed
qed

lemma recv_event_message:
  assumes "client_ok h" "stream h = wire m @ rest" "message_ok m" "\<forall>n. alloc_ok env n"
  shows "\<exists>h'. esl_recv_event env f fmt False save h = finish_event f fmt save (message_event m) h' \<and>
     advanced (length (wire m)) (h\<lparr>last_ievent := None\<rparr>) h' \<and> stream h' = rest"
proof -
  obtain kv b where m: "m = (kv, b)" by (cases m)
  let ?h = "h\<lparr>last_ievent := None\<rparr>"
  have s: "stream ?h = stream h" by (simp add: stream_def)
  then have "client_ok ?h" using assms(1) by (simp add: client_ok_def usable_def)
  from recv_message [OF this _ assms(3) [unfolded m] assms(4), of rest] s assms(2) m obtain p h1 h2 where
    r: "recv_packet env ?h = Some (Some p, h1)" "recv_content env (packet_event p) h1 = Some (Some (message_event m), h2)"
    "advanced (length (wire m)) ?h h2" by auto
  have "usable h" using assms(1) by (simp add: client_ok_def)
  then have "esl_recv_event env f fmt False save h = finish_event f fmt save (message_event m) h2"
    using r(1,2) by (simp add: esl_recv_event_def)
  moreover have "stream h2 = rest" using r(3) assms(2) s by (simp add: advanced_def)
  ultimately show ?thesis using r(3) by blast
qed

end
