(* ===== verification/Agc_Esl_Session.thy ===== *)
theory Agc_Esl_Session
  imports Agc_Esl_Laws
begin

text \<open>
  The client and the event socket together: a client receives the events of its connection's queue, and a command waits
  for its reply while the events that come in between are kept in order.
\<close>

section \<open>Events of the server\<close>

text \<open>An event in the queue of a connection: its address, its cells, the event, its headers and the name of its id.\<close>

type_synonym sent_event = "addr \<times> addr list \<times> agc_event \<times> fields \<times> string option"

definition event_fields :: "agc_event \<Rightarrow> fields \<Rightarrow> string option \<Rightarrow> fields" where
  "event_fields ev kv name = kv @ id_fields ev @ extra_fields name ev"

text \<open>Its headers and its body are texts that the client stores as they are.\<close>

definition sendable :: "evsys \<Rightarrow> sent_event \<Rightarrow> bool" where
  "sendable s d \<longleftrightarrow> (case d of (e, xs, ev, kv, name) \<Rightarrow>
     events s e = Some ev \<and> event_ok (hstore s) ev xs \<and> kvs (hstore s) xs = values_of kv \<and>
     arr_get (event_templates s) (event_id ev) = Some name \<and> text_fields (kv @ extra_fields name ev @ body_fields ev) \<and>
     (\<forall>(k, v) \<in> set (kv @ extra_fields name ev). plain_header k v) \<and> body_plain (body ev) \<and>
     fields_fit (event_fields ev kv name @ body_fields ev))"

definition text_of :: "'d fp \<Rightarrow> sent_event \<Rightarrow> string" where
  "text_of f d = (case d of (e, xs, ev, kv, name) \<Rightarrow>
     case cJSON_PrintUnformatted f (object_of f (event_fields ev kv name @ body_fields ev)) of Val t \<Rightarrow> t | _ \<Rightarrow> [])"

definition seen_event :: "sent_event \<Rightarrow> esl_event" where
  "seen_event d = (case d of (e, xs, ev, kv, name) \<Rightarrow> client_event (event_fields ev kv name) (body ev))"

lemma int_str_chars: "set (int_str i) \<subseteq> insert (CHR 0x2D) {c. is_digit c}"
  using nat_str_digits by (auto simp: int_str_def)

lemma int_str_plain: "int_str i \<noteq> []" "\<not> has_sub ''ARRAY::'' (int_str i)"
proof -
  show "int_str i \<noteq> []" using int_str_start [of i] by auto
  have "CHR ''A'' \<notin> set (int_str i)" using int_str_chars [of i] by (auto simp: is_digit_def)
  then show "\<not> has_sub ''ARRAY::'' (int_str i)" using has_sub_set by fastforce
qed

lemma id_plain: "\<forall>(k, v) \<in> set (id_fields ev). plain_header k v"
proof -
  have "\<not> strcasecmp_eq ''_id'' ''event-name''" by code_simp
  then show ?thesis by (simp add: id_fields_def plain_header_def int_str_plain reserved_names)
qed

lemma text_of_sent:
  assumes "fp_exact f" "sendable s d" "d = (e, xs, ev, kv, name)"
  shows "cJSON_PrintUnformatted f (object_of f (event_fields ev kv name @ body_fields ev)) = Val (text_of f d)"
    "NUL \<notin> set (text_of f d)" "esl_event_create_json f fmt (text_of f d) = Some (Some (seen_event d))"
    "queued_event f s (e, xs, text_of f d)"
proof -
  have t: "text_fields (event_fields ev kv name @ body_fields ev)"
    using assms(2,3) int_str_text by (auto simp: sendable_def text_fields_def event_fields_def id_fields_def)
  have p: "\<forall>(k, v) \<in> set (event_fields ev kv name). plain_header k v" "body_plain (body ev)" "fields_fit (event_fields ev kv name @ body_fields ev)"
    using assms(2,3) id_plain [of ev] by (auto simp: sendable_def event_fields_def)
  from client_reads_event [OF assms(1) t p, of fmt] obtain u where
    u: "cJSON_PrintUnformatted f (object_of f (event_fields ev kv name @ body_fields ev)) = Val u" "NUL \<notin> set u"
    "esl_event_create_json f fmt u = Some (Some (client_event (event_fields ev kv name) (body ev)))" by blast
  then have "text_of f d = u" using assms(3) by (simp add: text_of_def)
  then show "cJSON_PrintUnformatted f (object_of f (event_fields ev kv name @ body_fields ev)) = Val (text_of f d)"
    "NUL \<notin> set (text_of f d)" "esl_event_create_json f fmt (text_of f d) = Some (Some (seen_event d))"
    using u assms(3) by (simp_all add: seen_event_def)
  with assms(2,3) show "queued_event f s (e, xs, text_of f d)"
    by (auto simp: queued_event_def sendable_def event_fields_def)
qed

section \<open>Frames\<close>

definition frame_message :: "string \<Rightarrow> message" where
  "frame_message t = ([(''Content-Length'', int_str (int (length t))), (''Content-Type'', ''text/event-json'')], Some t)"

lemma frame_wire: "length t < 2 ^ 31 \<Longrightarrow> event_header (length t) @ t = wire (frame_message t)"
proof -
  assume "length t < 2 ^ 31"
  then have "to_int32 (int (length t)) = int (length t)" unfolding to_int32_def by (intro signed_take_bit_int_eq_self) auto
  then show ?thesis by (simp add: event_header_text frame_message_def rendered_def)
qed

lemma frame_fields:
  "field (fst (frame_message t)) ''content-length'' = Some (int_str (int (length t)))"
  "field (fst (frame_message t)) ''content-type'' = Some ''text/event-json''"
  "field (fst (frame_message t)) ''reply-text'' = None"
proof -
  have "strcasecmp_eq ''Content-Length'' ''content-length''" "\<not> strcasecmp_eq ''Content-Length'' ''content-type''"
    "strcasecmp_eq ''Content-Type'' ''content-type''" "\<not> strcasecmp_eq ''Content-Length'' ''reply-text''"
    "\<not> strcasecmp_eq ''Content-Type'' ''reply-text''" by code_simp+
  then show "field (fst (frame_message t)) ''content-length'' = Some (int_str (int (length t)))"
    "field (fst (frame_message t)) ''content-type'' = Some ''text/event-json''"
    "field (fst (frame_message t)) ''reply-text'' = None" by (simp_all add: field_def frame_message_def)
qed

lemma int_str_line: "plain_line ''Content-Length'' (int_str (int n))"
proof -
  let ?v = "int_str (int n)"
  have c: "c \<notin> set ?v" if "c \<in> {LF, CHR ''%'', NUL, CHR '' '', CHR 0x09}" for c
    using int_str_chars [of "int n"] that by (auto simp: is_digit_def)
  then have v: "set ?v \<inter> {LF, CHR ''%'', NUL} = {}" by blast
  have "hd ?v \<in> set ?v" using int_str_plain(1) by (rule hd_in_set)
  then have "hd ?v \<noteq> CHR '' ''" "hd ?v \<noteq> CHR 0x09" using c [of "CHR '' ''"] c [of "CHR 0x09"] by auto
  then show ?thesis unfolding plain_line_def using v int_str_plain [of "int n"] by simp
qed

lemma frame_ok:
  assumes "length t < 2 ^ 31"
  shows "message_ok (frame_message t)"
proof -
  have "plain_line ''Content-Type'' ''text/event-json''" by code_simp
  moreover have "length (int_str (int (length t))) \<le> 11" using assms by (intro int_str_length) auto
  moreover have "strtol10 (int_str (int (length t))) = int (length t)" using assms by (intro strtol10_int_str) auto
  ultimately show ?thesis using frame_fields(1) [of t] int_str_line
    by (simp add: frame_message_def rendered_def SOCKET_BUF_def)
qed

section \<open>Receiving the events\<close>

text \<open>A program that receives \<open>n\<close> times, with the status and the inner event after each.\<close>

fun recv_all :: "alloc_env \<Rightarrow> 'd fp \<Rightarrow> (string \<Rightarrow> string option) \<Rightarrow> nat \<Rightarrow> esl_handle \<Rightarrow> ((esl_status \<times> esl_event option) list \<times> esl_handle) option" where
  "recv_all env f fmt 0 h = Some ([], h)"
| "recv_all env f fmt (Suc n) h = do {
     (st, _, h) \<leftarrow> esl_recv_event env f fmt False False h;
     (rs, h') \<leftarrow> recv_all env f fmt n h;
     Some ((st, last_ievent h) # rs, h')
   }"

lemma finish_frame:
  assumes "esl_event_create_json f fmt t = Some (Some iev)"
  shows "finish_event f fmt False (message_event (frame_message t)) h =
     Some (ESL_SUCCESS, None, h\<lparr>last_event := Some (message_event (frame_message t)), last_ievent := Some iev\<rparr>)"
proof -
  obtain kv where m: "frame_message t = (kv, Some t)" by (simp add: frame_message_def)
  have h: "esl_event_get_header (message_event (frame_message t)) ''content-type'' = Some ''text/event-json''"
    "esl_event_get_header (message_event (frame_message t)) ''reply-text'' = None" "ebody (message_event (frame_message t)) = Some t"
    using frame_fields(2,3) [of t] unfolding m by (simp_all add: message_headers del: message_event.simps) simp
  have "\<not> strcasecmp_eq ''text/event-json'' ''text/disconnect-notice''" "\<not> strcasecmp_eq ''text/event-json'' ''text/event-plain''"
    by code_simp+
  then show ?thesis using assms h by (simp add: finish_event_def parse_event_def content_is_def Let_def)
qed

lemma recv_frame:
  assumes "client_ok h" "stream h = wire (frame_message t) @ rest" "length t < 2 ^ 31" "\<forall>n. alloc_ok env n"
    and "esl_event_create_json f fmt t = Some (Some iev)"
  shows "\<exists>h'. esl_recv_event env f fmt False False h = Some (ESL_SUCCESS, None, h') \<and> last_ievent h' = Some iev \<and> client_ok h' \<and> stream h' = rest"
proof -
  from recv_event_message [OF assms(1,2) frame_ok [OF assms(3)] assms(4), of f fmt False] obtain h1 where
    h1: "esl_recv_event env f fmt False False h = finish_event f fmt False (message_event (frame_message t)) h1" "client_ok h1" "stream h1 = rest"
    by (auto simp: advanced_def)
  let ?h = "h1\<lparr>last_event := Some (message_event (frame_message t)), last_ievent := Some iev\<rparr>"
  have s: "stream ?h = rest" using h1(3) by (simp add: stream_def)
  then have "client_ok ?h" using h1(2,3) by (simp add: client_ok_def usable_def)
  with s show ?thesis unfolding h1(1) finish_frame [OF assms(5)] by auto
qed

lemma recv_frames:
  assumes "fp_exact f" "\<forall>n. alloc_ok env n"
  shows "client_ok h \<Longrightarrow> stream h = concat (map (\<lambda>d. wire (frame_message (text_of f d))) ds) @ rest \<Longrightarrow>
     \<forall>d \<in> set ds. sendable s d \<and> length (text_of f d) < 2 ^ 31 \<Longrightarrow>
     \<exists>h'. recv_all env f fmt (length ds) h = Some (map (\<lambda>d. (ESL_SUCCESS, Some (seen_event d))) ds, h') \<and> client_ok h' \<and> stream h' = rest"
proof (induction ds arbitrary: h)
  case (Cons d ds)
  obtain e xs ev kv name where d: "d = (e, xs, ev, kv, name)" by (cases d)
  have sd: "sendable s d" "length (text_of f d) < 2 ^ 31" using Cons.prems(3) by auto
  have st: "stream h = wire (frame_message (text_of f d)) @ (concat (map (\<lambda>d. wire (frame_message (text_of f d))) ds) @ rest)"
    using Cons.prems(2) by simp
  from recv_frame [OF Cons.prems(1) st sd(2) assms(2) text_of_sent(3) [OF assms(1) sd(1) d]] obtain h1 where
    h1: "esl_recv_event env f fmt False False h = Some (ESL_SUCCESS, None, h1)" "last_ievent h1 = Some (seen_event d)" "client_ok h1"
      "stream h1 = concat (map (\<lambda>d. wire (frame_message (text_of f d))) ds) @ rest" by blast
  from Cons.IH [OF h1(3,4)] Cons.prems(3) h1(1,2) show ?case by auto
qed simp

lemma frames_text:
  "\<forall>d \<in> set ds. length (text_of f d) < 2 ^ 31 \<Longrightarrow>
   frames (map (\<lambda>d. (fst d, fst (snd d), text_of f d)) ds) = concat (map (\<lambda>d. wire (frame_message (text_of f d))) ds)"
  by (induction ds) (auto simp: frames_def frame_wire)

lemma frames_text_nul:
  assumes "\<forall>t \<in> set ts. NUL \<notin> set t"
  shows "NUL \<notin> set (concat (map (\<lambda>t. event_header (length t) @ t) ts))"
proof -
  have "NUL \<notin> set (event_header n)" for n using int_str_text by (simp add: event_header_text)
  with assms show ?thesis by auto
qed

text \<open>A handle whose buffer is new, with what is still to arrive.\<close>

lemma new_client:
  assumes "usable cl" "packet_buf cl = esl_buffer_create env BUF_CHUNK BUF_START 0" "alloc_ok env BUF_START"
    and "length (bytes (hsock_in cl)) < BUF_START" "NUL \<notin> set (bytes (hsock_in cl))"
  shows "client_ok cl \<and> stream cl = bytes (hsock_in cl)"
proof -
  obtain b where b: "esl_buffer_create env BUF_CHUNK BUF_START 0 = Some b" using assms(3) by (simp add: esl_buffer_create_def)
  from create_fresh [OF this] have "fresh b" "held_bytes b = []" "room b = BUF_START" by (auto simp: BUF_START_def)
  with assms b show ?thesis by (simp add: client_ok_def stream_def)
qed

section \<open>Commands and replies\<close>

definition reply_text :: "message \<Rightarrow> string" where
  "reply_text m = (case field (fst m) ''reply-text'' of None \<Rightarrow> [] | Some v \<Rightarrow> take 1024 v)"

lemma recv_saved_message:
  assumes "client_ok h" "stream h = wire m @ rest" "message_ok m" "\<forall>n. alloc_ok env n"
  shows "\<exists>b rx. esl_recv_event env f fmt False True h = Some (ESL_SUCCESS, Some (message_event m), h\<lparr>last_ievent := None, packet_buf := b, hsock_in := rx\<rparr>) \<and>
     client_ok (h\<lparr>last_ievent := None, packet_buf := b, hsock_in := rx\<rparr>) \<and> stream (h\<lparr>last_ievent := None, packet_buf := b, hsock_in := rx\<rparr>) = rest"
proof -
  from recv_event_message [OF assms, of f fmt True] obtain h1 where
    h1: "esl_recv_event env f fmt False True h = Some (ESL_SUCCESS, Some (message_event m), h1)"
    "advanced (length (wire m)) (h\<lparr>last_ievent := None\<rparr>) h1" "stream h1 = rest" by (auto simp: finish_event_def)
  then obtain b rx where "h1 = h\<lparr>last_ievent := None, packet_buf := b, hsock_in := rx\<rparr>" "client_ok h1" by (auto simp: advanced_def)
  with h1 show ?thesis by blast
qed

text \<open>Other fields do not matter for receiving.\<close>

lemma client_ok_frame:
  "client_ok (h\<lparr>last_sr_event := x, last_sr_reply := y\<rparr>) \<longleftrightarrow> client_ok h" "stream (h\<lparr>last_sr_event := x, last_sr_reply := y\<rparr>) = stream h"
  "client_ok (h\<lparr>race_event := z\<rparr>) \<longleftrightarrow> client_ok h" "stream (h\<lparr>race_event := z\<rparr>) = stream h"
  "client_ok (h\<lparr>hsock_out := t\<rparr>) \<longleftrightarrow> client_ok h" "stream (h\<lparr>hsock_out := t\<rparr>) = stream h"
  by (simp_all add: client_ok_def stream_def usable_def)

lemma reply_loop_messages:
  assumes "\<forall>n. alloc_ok env n" "message_ok r" "is_reply (message_event r)"
  shows "client_ok h \<Longrightarrow> stream h = concat (map wire ms) @ wire r @ rest \<Longrightarrow>
     \<forall>m \<in> set ms. message_ok m \<and> \<not> is_reply (message_event m) \<Longrightarrow>
     \<exists>h'. reply_loop env f fmt 0 h = Some (ESL_SUCCESS, h') \<and> race_event h' = race_event h @ map message_event ms \<and>
       last_sr_event h' = Some (message_event r) \<and> last_sr_reply h' = reply_text r \<and> hsock_out h' = hsock_out h \<and> client_ok h' \<and> stream h' = rest"
proof (induction ms arbitrary: h)
  case Nil
  let ?h = "h\<lparr>last_sr_event := None, last_sr_reply := []\<rparr>"
  have "client_ok ?h" "stream ?h = wire r @ rest" using Nil by (simp_all add: client_ok_frame)
  from recv_saved_message [OF this assms(2,1), of f fmt] obtain b rx where
    r: "esl_recv_event env f fmt False True ?h = Some (ESL_SUCCESS, Some (message_event r), ?h\<lparr>last_ievent := None, packet_buf := b, hsock_in := rx\<rparr>)"
    "client_ok (?h\<lparr>last_ievent := None, packet_buf := b, hsock_in := rx\<rparr>)" "stream (?h\<lparr>last_ievent := None, packet_buf := b, hsock_in := rx\<rparr>) = rest" by blast
  let ?g = "?h\<lparr>last_ievent := None, packet_buf := b, hsock_in := rx\<rparr>"
  have t: "(case esl_event_get_header (message_event r) ''reply-text'' of None \<Rightarrow> [] | Some v \<Rightarrow> take 1024 v) = reply_text r"
    by (cases r) (simp add: message_headers reply_text_def del: message_event.simps)
  have "reply_loop env f fmt 0 h = Some (ESL_SUCCESS, ?g\<lparr>last_sr_event := Some (message_event r), last_sr_reply := reply_text r\<rparr>)"
    using r(1) assms(3) by (subst reply_loop.simps) (simp add: esl_recv_event_timed_def t)
  moreover have "client_ok (?g\<lparr>last_sr_event := Some (message_event r), last_sr_reply := reply_text r\<rparr>)"
    "stream (?g\<lparr>last_sr_event := Some (message_event r), last_sr_reply := reply_text r\<rparr>) = rest" using r(2,3) unfolding client_ok_frame by blast+
  ultimately show ?case by simp
next
  case (Cons m ms)
  let ?h = "h\<lparr>last_sr_event := None, last_sr_reply := []\<rparr>"
  have m: "message_ok m" "\<not> is_reply (message_event m)" using Cons.prems(3) by auto
  have "client_ok ?h" "stream ?h = wire m @ (concat (map wire ms) @ wire r @ rest)" using Cons.prems by (simp_all add: client_ok_frame)
  from recv_saved_message [OF this m(1) assms(1), of f fmt] obtain b rx where
    r: "esl_recv_event env f fmt False True ?h = Some (ESL_SUCCESS, Some (message_event m), ?h\<lparr>last_ievent := None, packet_buf := b, hsock_in := rx\<rparr>)"
    "client_ok (?h\<lparr>last_ievent := None, packet_buf := b, hsock_in := rx\<rparr>)"
    "stream (?h\<lparr>last_ievent := None, packet_buf := b, hsock_in := rx\<rparr>) = concat (map wire ms) @ wire r @ rest" by blast
  let ?g = "?h\<lparr>last_ievent := None, packet_buf := b, hsock_in := rx\<rparr>"
  let ?k = "?g\<lparr>race_event := race_event ?g @ [message_event m]\<rparr>"
  have k: "client_ok ?k" "stream ?k = concat (map wire ms) @ wire r @ rest" using r(2,3) unfolding client_ok_frame by blast+
  then have "usable ?k" by (simp add: client_ok_def)
  then have "reply_loop env f fmt 0 h = reply_loop env f fmt 0 ?k"
    using r(1) m(2) by (subst reply_loop.simps) (simp add: esl_recv_event_timed_def Let_def)
  with Cons.IH [OF k] Cons.prems(3) show ?case by simp
qed

text \<open>The events that are kept, handed out one by one.\<close>

fun recv_kept :: "alloc_env \<Rightarrow> 'd fp \<Rightarrow> (string \<Rightarrow> string option) \<Rightarrow> nat \<Rightarrow> esl_handle \<Rightarrow> (esl_event list \<times> esl_handle) option" where
  "recv_kept env f fmt 0 h = Some ([], h)"
| "recv_kept env f fmt (Suc n) h = do {
     (_, ev, h) \<leftarrow> esl_recv_event env f fmt True True h;
     (evs, h) \<leftarrow> recv_kept env f fmt n h;
     Some ((case ev of None \<Rightarrow> [] | Some ev \<Rightarrow> [ev]) @ evs, h)
   }"

lemma recv_kept_all:
  "usable h \<Longrightarrow> race_event h = evs @ evs' \<Longrightarrow> \<exists>h'. recv_kept env f fmt (length evs) h = Some (evs, h') \<and> race_event h' = evs' \<and> stream h' = stream h"
proof (induction evs arbitrary: h)
  case (Cons ev evs)
  let ?h = "h\<lparr>last_ievent := None, race_event := evs @ evs'\<rparr>"
  have "esl_recv_event env f fmt True True h = Some (ESL_SUCCESS, Some ev, ?h)"
    using Cons.prems by (simp add: esl_recv_event_def finish_event_def)
  moreover have "usable ?h" "stream ?h = stream h" using Cons.prems(1) by (simp_all add: usable_def stream_def)
  ultimately show ?case using Cons.IH [of ?h] by auto
qed simp

lemma send_all:
  assumes "usable h" "hsends h = []" "ends_blank cmd = Some e"
  shows "esl_send h cmd = Some (ESL_SUCCESS, h\<lparr>hsock_out := hsock_out h @ cmd @ (if e then [] else [LF, LF])\<rparr>)"
  using assms by (simp add: esl_send_def sock_write_def)

section \<open>Connections that end\<close>

definition same_rest :: "esl_handle \<Rightarrow> esl_handle \<Rightarrow> bool" where
  "same_rest h h' \<longleftrightarrow> (\<exists>b rx. h' = h\<lparr>packet_buf := b, hsock_in := rx\<rparr>)"

lemma same_rest_trans: "same_rest h h1 \<Longrightarrow> same_rest h1 h2 \<Longrightarrow> same_rest h h2"
  by (fastforce simp: same_rest_def)

lemma advanced_same: "advanced n h h' \<Longrightarrow> same_rest h h'"
  by (simp add: advanced_def same_rest_def)

lemma recv_gone_same: "handle_recv h = (Gone, h1) \<Longrightarrow> same_rest h h1"
proof -
  have "h\<lparr>packet_buf := packet_buf h, hsock_in := hsock_in h1\<rparr> = h\<lparr>hsock_in := hsock_in h1\<rparr>" by simp
  then show "handle_recv h = (Gone, h1) \<Longrightarrow> ?thesis" unfolding same_rest_def
    by (intro exI [of _ "packet_buf h"] exI [of _ "hsock_in h1"]) (auto simp: handle_recv_def split: if_splits prod.splits)
qed

lemma recv_packet_gone:
  "client_ok h \<Longrightarrow> packet_len (stream h) = None \<Longrightarrow> \<exists>h'. recv_packet env h = Some (None, h') \<and> same_rest h h'"
proof (induction env h rule: recv_packet.induct)
  case (1 env h)
  from 1(3) obtain b where b: "usable h" "packet_buf h = Some b" "fresh b" "length (bytes (hsock_in h)) < room b" "NUL \<notin> set (stream h)"
    by (auto simp: client_ok_def)
  then have nul: "NUL \<notin> set (held_bytes b)" by (simp add: stream_def)
  have none: "packet_len (held_bytes b) = None"
    using 1(4) b(2) packet_len_more [of "held_bytes b" _ "bytes (hsock_in h)"] by (cases "packet_len (held_bytes b)") (auto simp: stream_def)
  from read_packet_fresh [OF b(3) nul, of "SOCKET_BUF - 1"] none obtain b' where
    e: "esl_buffer_read_packet b (SOCKET_BUF - 1) = Some ([], b')" "fresh b'" "held_bytes b' = held_bytes b" "room b' = room b" by auto
  let ?h = "h\<lparr>packet_buf := Some b'\<rparr>"
  have t0: "advanced 0 h ?h"
    by (rule advancedI [where b = "Some b'" and rx = "hsock_in h"]) (use b e(2-4) in \<open>auto simp: client_ok_def stream_def usable_def\<close>)
  obtain a h1 where a: "handle_recv ?h = (a, h1)" by (cases "handle_recv ?h")
  note step = recv_step [OF conjunct1 [OF advanced_0 [OF t0]] a, of env]
  show ?case
  proof (cases a)
    case Gone
    then have "recv_packet env h = Some (None, h1)" using b(2) e(1) a by (subst recv_packet.simps) simp
    with same_rest_trans [OF advanced_same [OF t0] recv_gone_same] a Gone show ?thesis by auto
  next
    case Break
    with step have t: "advanced 0 h h1" using advanced_trans [OF t0] by fastforce
    have "recv_packet env h = recv_packet env h1" using b(2) e(1) a Break by (subst recv_packet.simps) simp
    with 1(2) [OF b(2) e(1) refl _ a [symmetric] Break] advanced_0 [OF t] 1(4) same_rest_trans [OF advanced_same [OF t]] show ?thesis by auto
  next
    case (Bytes bs)
    with step obtain h2 where h2: "buffer_add env bs h1 = Some h2" "advanced 0 h h2" using advanced_trans [OF t0] by fastforce
    have "recv_packet env h = recv_packet env h2" using b(2) e(1) a Bytes h2(1) by (subst recv_packet.simps) simp
    with 1(1) [OF b(2) e(1) refl _ a [symmetric] Bytes h2(1)] advanced_0 [OF h2(2)] 1(4) same_rest_trans [OF advanced_same [OF h2(2)]] show ?thesis by auto
  qed
qed

lemma recv_body_gone:
  "client_ok h \<Longrightarrow> length (stream h) < n \<Longrightarrow> \<exists>h'. recv_body env n h = Some (None, h') \<and> same_rest h h'"
proof (induction env n h rule: recv_body.induct)
  case (1 env n h)
  from 1(3) obtain b where b: "packet_buf h = Some b" "fresh b" by (auto simp: client_ok_def)
  have u: "length (held_bytes b) = bused b" using b(2) by (simp add: fresh_def held_bytes_length)
  have f: "\<not> n \<le> esl_buffer_inuse b" using 1(4) b(1) u by (simp add: stream_def esl_buffer_inuse_def)
  obtain a h1 where a: "handle_recv h = (a, h1)" by (cases "handle_recv h")
  note step = recv_step [OF 1(3) a, of env]
  show ?case
  proof (cases a)
    case Gone
    then have "recv_body env n h = Some (None, h1)" using b(1) f a by (subst recv_body.simps) simp
    with recv_gone_same a Gone show ?thesis by auto
  next
    case Break
    with step have t: "advanced 0 h h1" by simp
    have "recv_body env n h = recv_body env n h1" using b(1) f a Break by (subst recv_body.simps) simp
    with 1(2) [OF b(1) f a [symmetric] Break] advanced_0 [OF t] 1(4) same_rest_trans [OF advanced_same [OF t]] show ?thesis by auto
  next
    case (Bytes bs)
    with step obtain h2 where h2: "buffer_add env bs h1 = Some h2" "advanced 0 h h2" by auto
    have "recv_body env n h = recv_body env n h2" using b(1) f a Bytes h2(1) by (subst recv_body.simps) simp
    with 1(1) [OF b(1) f a [symmetric] Bytes h2(1)] advanced_0 [OF h2(2)] 1(4) same_rest_trans [OF advanced_same [OF h2(2)]] show ?thesis by auto
  qed
qed

lemma recv_content_gone:
  assumes "client_ok h" "message_ok (kv, Some t)" "length (stream h) < length t" "\<forall>n. alloc_ok env n"
  shows "\<exists>h'. recv_content env (message_event (kv, None)) h = Some (None, h') \<and> same_rest h h'"
proof -
  obtain v where v: "field kv ''content-length'' = Some v" "strtol10 v = int (length t)" using assms(2) by auto
  from recv_body_gone [OF assms(1,3), of env] v assms(4) show ?thesis
    by (auto simp: recv_content_def message_headers simp del: message_event.simps)
qed

section \<open>Properties\<close>

text \<open>
  C13: the event socket and its client together: a connection that finds events in its queue sends them, and a client
  that receives these bytes, cut into segments in any way, gets with each call the next event with its
  headers, behind them those that the text adds for its id, the name of its id and the length of its body, and with its body, until nothing is left. The client has just connected and has memory; the values of the headers
  are not empty and hold no array mark, their names hold no bracket and are not the reserved ones, bodies hold no percent sign, all texts are without
  zero bytes, and together they are shorter than the buffer the client begins with.
\<close>

theorem esl_receives_events:
  assumes "contents (event_queue c) = map fst ds" "qwf (event_queue c)" "\<not> terminated (event_queue c)"
    and "\<forall>d \<in> set ds. sendable s d" "distinct (concat (map (fst \<circ> snd) ds))" "fp_exact f" "\<forall>n. alloc_ok env n"
  shows "\<exists>h' q' out. send_events f s c = Some (s\<lparr>hstore := h'\<rparr>, c\<lparr>event_queue := q', sock_out := sock_out c @ out\<rparr>) \<and>
     (\<forall>cl. usable cl \<and> packet_buf cl = esl_buffer_create env BUF_CHUNK BUF_START 0 \<and> bytes (hsock_in cl) = out \<and> length out < BUF_START \<longrightarrow>
        (\<exists>cl'. recv_all env f fmt (length ds) cl = Some (map (\<lambda>d. (ESL_SUCCESS, Some (seen_event d))) ds, cl') \<and> usable cl' \<and> stream cl' = []))"
proof -
  let ?qs = "map (\<lambda>d. (fst d, fst (snd d), text_of f d)) ds"
  have t: "queued_event f s (fst d, fst (snd d), text_of f d)" "NUL \<notin> set (text_of f d)" if "d \<in> set ds" for d
    using that assms(4) text_of_sent [OF assms(6)] by (metis prod.collapse)+
  have "\<exists>h' q'. send_events f s c = Some (s\<lparr>hstore := h'\<rparr>, c\<lparr>event_queue := q', sock_out := sock_out c @ frames ?qs\<rparr>)"
    using send_events_all [of c ?qs f s] assms(1-3,5) t(1) by (auto simp: comp_def)
  moreover have "\<exists>cl'. recv_all env f fmt (length ds) cl = Some (map (\<lambda>d. (ESL_SUCCESS, Some (seen_event d))) ds, cl') \<and> usable cl' \<and> stream cl' = []"
    if cl: "usable cl" "packet_buf cl = esl_buffer_create env BUF_CHUNK BUF_START 0" "bytes (hsock_in cl) = frames ?qs" "length (frames ?qs) < BUF_START" for cl
  proof -
    have f: "frames ?qs = concat (map (\<lambda>t. event_header (length t) @ t) (map (text_of f) ds))" by (simp add: frames_def comp_def)
    have "length (text_of f d) < 2 ^ 31" if "d \<in> set ds" for d
    proof -
      have "length (event_header (length (text_of f d)) @ text_of f d) \<in> set (map length (map (\<lambda>t. event_header (length t) @ t) (map (text_of f) ds)))"
        using that by simp
      then have "length (event_header (length (text_of f d)) @ text_of f d) \<le> length (frames ?qs)"
        unfolding f length_concat by (rule member_le_sum_list) (rule le0)
      then show ?thesis using cl(4) by (simp add: BUF_START_def)
    qed
    then have sm: "\<forall>d \<in> set ds. sendable s d \<and> length (text_of f d) < 2 ^ 31" using assms(4) by blast
    have "NUL \<notin> set (frames ?qs)" unfolding f by (rule frames_text_nul) (use t(2) in auto)
    with new_client [OF cl(1,2)] cl(3,4) assms(7) have "client_ok cl" "stream cl = frames ?qs" by auto
    moreover have "frames ?qs = concat (map (\<lambda>d. wire (frame_message (text_of f d))) ds) @ []" using frames_text [of ds f] sm by simp
    ultimately have "stream cl = concat (map (\<lambda>d. wire (frame_message (text_of f d))) ds) @ []" by simp
    from recv_frames [OF assms(6,7) \<open>client_ok cl\<close> this sm, of fmt] show ?thesis by (auto simp: client_ok_def)
  qed
  ultimately show ?thesis by blast
qed

definition demo_client :: "string \<Rightarrow> esl_handle" where
  "demo_client t = \<lparr>hsock = 5, hsock_in = [Idle, Arrive (take 7 t), Idle, Arrive (drop 7 t)], hsock_out = [], hsends = [],
     packet_buf = esl_buffer_create \<lparr>alloc_ok = \<lambda>_. True, alloc_junk = \<lambda>_. NUL\<rparr> BUF_CHUNK BUF_START 0, last_reply = [], last_sr_reply = [],
     last_event = None, last_sr_event = None, race_event = [], last_ievent = None, info_event = None, hconnected = True,
     async_execute = False, event_lock = False, destroyed = False\<rparr>"

lemma demo_client_facts:
  "usable (demo_client t)" "bytes (hsock_in (demo_client t)) = t"
  "packet_buf (demo_client t) = esl_buffer_create \<lparr>alloc_ok = \<lambda>_. True, alloc_junk = \<lambda>_. NUL\<rparr> BUF_CHUNK BUF_START 0"
  by (simp_all add: demo_client_def usable_def ESL_SOCK_INVALID_def)

definition demo_sent :: sent_event where
  "demo_sent = (20, [1, 2], demo_event, [(''uuid'', ''7''), (''code'', ''7'')], Some ''sig2media'')"

lemma demo_sent_text: "length (text_of demo_fp demo_sent) = 53"
  by code_simp

theorem esl_receives_events_witness:
  "\<exists>s' c' cl'. send_events demo_fp (demo_sys\<lparr>events := [20 \<mapsto> demo_event], hstore := demo_headers\<rparr>)
       (demo_follower\<lparr>event_queue := (apr_queue_create 2)\<lparr>qdata := [20, 0], qin := 1, qnelts := 1\<rparr>\<rparr>) = Some (s', c') \<and>
     recv_all \<lparr>alloc_ok = \<lambda>_. True, alloc_junk = \<lambda>_. NUL\<rparr> demo_fp Some 1 (demo_client (sock_out c')) =
       Some ([(ESL_SUCCESS, Some (client_event [(''uuid'', ''7''), (''code'', ''7''), (''_id'', ''3''), (''_name'', ''sig2media'')] None))], cl')"
proof -
  let ?q = "(apr_queue_create 2)\<lparr>qdata := [20, 0], qin := 1, qnelts := 1\<rparr>" and ?kv = "[(''uuid'', ''7''), (''code'', ''7'')] :: fields"
  let ?c = "demo_follower\<lparr>event_queue := ?q\<rparr>" and ?s = "demo_sys\<lparr>events := [20 \<mapsto> demo_event], hstore := demo_headers\<rparr>"
  let ?env = "\<lparr>alloc_ok = \<lambda>_. True, alloc_junk = \<lambda>_. NUL\<rparr>"
  have q: "contents ?q = [20]" "qwf ?q" "\<not> terminated ?q" by (simp_all add: contents_def qwf_def apr_queue_create_def)
  have a: "arr_get (event_templates ?s) (event_id demo_event) = Some (Some ''sig2media'')"
    by (simp add: arr_get_def demo_sys_def init_ids_def demo_event_def agc_event_create_def)
  have kv: "kvs demo_headers [1, 2] = values_of ?kv" by (simp add: kvs_def demo_headers_def)
  have fl: "text_fields (?kv @ extra_fields (Some ''sig2media'') demo_event @ body_fields demo_event)"
    "\<forall>(k, v) \<in> set (?kv @ extra_fields (Some ''sig2media'') demo_event). plain_header k v" "body_plain (body demo_event)"
    "fields_fit (event_fields demo_event ?kv (Some ''sig2media'') @ body_fields demo_event)"
    "seen_event demo_sent = client_event [(''uuid'', ''7''), (''code'', ''7''), (''_id'', ''3''), (''_name'', ''sig2media'')] None"
    by code_simp+
  have sd: "sendable ?s demo_sent" using a kv fl(1-4) demo_event_ok unfolding sendable_def demo_sent_def prod.case by simp
  have len: "length (text_of demo_fp demo_sent) < 2 ^ 31" using demo_sent_text by simp
  have c: "contents (event_queue ?c) = map fst [demo_sent]" "qwf (event_queue ?c)" "\<not> terminated (event_queue ?c)"
    "\<forall>d \<in> set [demo_sent]. sendable ?s d" "distinct (concat (map (fst \<circ> snd) [demo_sent]))" "\<forall>n. alloc_ok ?env n"
    using q sd by (simp_all add: demo_sent_def)
  obtain h' q' out where
    r: "send_events demo_fp ?s ?c = Some (?s\<lparr>hstore := h'\<rparr>, ?c\<lparr>event_queue := q', sock_out := sock_out ?c @ out\<rparr>)"
    "\<forall>cl. usable cl \<and> packet_buf cl = esl_buffer_create ?env BUF_CHUNK BUF_START 0 \<and> bytes (hsock_in cl) = out \<and> length out < BUF_START \<longrightarrow>
        (\<exists>cl'. recv_all ?env demo_fp Some (length [demo_sent]) cl = Some (map (\<lambda>d. (ESL_SUCCESS, Some (seen_event d))) [demo_sent], cl') \<and>
           usable cl' \<and> stream cl' = [])"
    using esl_receives_events [OF c(1-5) demo_fp_exact c(6), of Some] by (elim exE conjE) (rule that)
  let ?l = "[(20, [1, 2], text_of demo_fp demo_sent)] :: (addr \<times> addr list \<times> string) list"
  have l: "contents (event_queue ?c) = map fst ?l" "\<forall>p \<in> set ?l. queued_event demo_fp ?s p" "distinct (concat (map (fst \<circ> snd) ?l))"
    using q text_of_sent(4) [OF demo_fp_exact sd demo_sent_def] by simp_all
  obtain h2 q2 where e: "send_events demo_fp ?s ?c = Some (?s\<lparr>hstore := h2\<rparr>, ?c\<lparr>event_queue := q2, sock_out := sock_out ?c @ frames ?l\<rparr>)"
    using send_events_all [OF l(1) c(2,3) l(2,3)] by (elim exE conjE) (rule that)
  from trans [OF r(1) [symmetric] e] have "?c\<lparr>event_queue := q', sock_out := sock_out ?c @ out\<rparr> = ?c\<lparr>event_queue := q2, sock_out := sock_out ?c @ frames ?l\<rparr>"
    by (simp only: option.inject prod.inject)
  from arg_cong [OF this, of sock_out] have "out = frames ?l" by simp
  then have "length out < BUF_START" using demo_sent_text by (simp add: frames_def event_header_def c_snprintf_def BUF_START_def)
  then have "\<exists>cl'. recv_all ?env demo_fp Some 1 (demo_client out) = Some ([(ESL_SUCCESS, Some (seen_event demo_sent))], cl')"
    using r(2) [rule_format, of "demo_client out"] demo_client_facts [of out] by auto
  moreover have "sock_out ?c = []" by (simp add: demo_follower_def)
  ultimately show ?thesis using r(1) fl(5) by auto
qed

text \<open>
  C14: a command that is sent while events arrive: the call returns with the first reply, whatever events are in front of
  it; these are kept behind the ones kept before, and the following calls hand out exactly them in order. The socket takes the command, and what arrives,
  messages of plain lines and bodies without zero bytes, fits into the part of the first block of the client's buffer that was not yet used.
\<close>

theorem esl_send_recv_keeps:
  assumes "client_ok h" "hsends h = []" "ends_blank cmd = Some e" "\<forall>n. alloc_ok env n"
    and "stream h = concat (map wire ms) @ wire r @ rest" "\<forall>m \<in> set ms. message_ok m \<and> \<not> is_reply (message_event m)"
    and "message_ok r" "is_reply (message_event r)"
  shows "\<exists>h' h''. esl_send_recv env f fmt h cmd = Some (ESL_SUCCESS, h') \<and>
     hsock_out h' = hsock_out h @ cmd @ (if e then [] else [LF, LF]) \<and>
     last_sr_event h' = Some (message_event r) \<and> last_sr_reply h' = reply_text r \<and> stream h' = rest \<and>
     recv_kept env f fmt (length (race_event h) + length ms) h' = Some (race_event h @ map message_event ms, h'') \<and>
     race_event h'' = [] \<and> stream h'' = rest"
proof -
  let ?h = "h\<lparr>last_sr_event := None, last_sr_reply := []\<rparr>"
  let ?o = "?h\<lparr>hsock_out := hsock_out ?h @ cmd @ (if e then [] else [LF, LF])\<rparr>"
  have u: "usable h" "usable ?h" "hsends ?h = []" using assms(1,2) by (simp_all add: client_ok_def usable_def)
  have o: "client_ok ?o" "stream ?o = concat (map wire ms) @ wire r @ rest" using assms(1,5) unfolding client_ok_frame by blast+
  from reply_loop_messages [OF assms(4,7,8) o assms(6), of f fmt] obtain h' where
    h': "reply_loop env f fmt 0 ?o = Some (ESL_SUCCESS, h')" "race_event h' = race_event ?o @ map message_event ms"
      "last_sr_event h' = Some (message_event r)" "last_sr_reply h' = reply_text r" "hsock_out h' = hsock_out ?o" "client_ok h'" "stream h' = rest" by blast
  have "esl_send_recv env f fmt h cmd = Some (ESL_SUCCESS, h')"
    using u send_all [OF u(2,3) assms(3)] h'(1) by (simp add: esl_send_recv_def esl_send_recv_timed_def)
  moreover have "usable h'" using h'(6) by (simp add: client_ok_def)
  moreover from recv_kept_all [OF this, of "race_event h @ map message_event ms" "[]" env f fmt] h'(2,7) obtain h'' where
    "recv_kept env f fmt (length (race_event h) + length ms) h' = Some (race_event h @ map message_event ms, h'')" "race_event h'' = []" "stream h'' = rest"
    by auto
  ultimately show ?thesis using h' by auto
qed

definition demo_messages :: "message list" where
  "demo_messages = [frame_message ''{}'', ([(''Content-Type'', ''command/reply''), (''Reply-Text'', ''+OK'')], None)]"

lemma demo_messages_ok: "message_ok (demo_messages ! 0)" "message_ok (demo_messages ! 1)"
proof -
  show "message_ok (demo_messages ! 0)" using frame_ok [of "''{}''"] by (simp add: demo_messages_def)
  have "plain_line ''Content-Type'' ''command/reply''" "plain_line ''Reply-Text'' ''+OK''"
    "field [(''Content-Type'', ''command/reply''), (''Reply-Text'', ''+OK'')] ''content-length'' = None" by code_simp+
  then show "message_ok (demo_messages ! 1)" by (simp add: demo_messages_def rendered_def SOCKET_BUF_def)
qed

lemma demo_messages_wire:
  "wire (demo_messages ! 0) = ''Content-Length: 2'' @ [LF] @ ''Content-Type: text/event-json'' @ [LF, LF] @ ''{}''"
  "wire (demo_messages ! 1) = ''Content-Type: command/reply'' @ [LF] @ ''Reply-Text: +OK'' @ [LF, LF]"
  by code_simp+

lemma demo_client_ok:
  "length t < BUF_START \<Longrightarrow> NUL \<notin> set t \<Longrightarrow> client_ok (demo_client t) \<and> stream (demo_client t) = t"
  using new_client [OF demo_client_facts(1,3), of t] demo_client_facts(2) [of t] by simp

theorem esl_send_recv_keeps_witness:
  "\<exists>h' h''. esl_send_recv \<lparr>alloc_ok = \<lambda>_. True, alloc_junk = \<lambda>_. NUL\<rparr> demo_fp Some
       (demo_client (wire (demo_messages ! 0) @ wire (demo_messages ! 1))) ''exit'' = Some (ESL_SUCCESS, h') \<and>
     hsock_out h' = ''exit'' @ [LF, LF] \<and> last_sr_event h' = Some (message_event (demo_messages ! 1)) \<and> last_sr_reply h' = ''+OK'' \<and>
     recv_kept \<lparr>alloc_ok = \<lambda>_. True, alloc_junk = \<lambda>_. NUL\<rparr> demo_fp Some 1 h' = Some ([message_event (demo_messages ! 0)], h'')"
proof -
  let ?m = "demo_messages ! 0" and ?r = "demo_messages ! 1" and ?env = "\<lparr>alloc_ok = \<lambda>_. True, alloc_junk = \<lambda>_. NUL\<rparr>"
  let ?h = "demo_client (wire ?m @ wire ?r)"
  have l: "length (wire ?m @ wire ?r) < BUF_START" "NUL \<notin> set (wire ?m @ wire ?r)"
    unfolding demo_messages_wire by (simp_all add: BUF_START_def)
  have c: "client_ok ?h" "stream ?h = concat (map wire [?m]) @ wire ?r @ []" using demo_client_ok [OF l] by simp_all
  have "\<not> is_reply (message_event ?m)" by code_simp
  then have m: "\<forall>m \<in> set [?m]. message_ok m \<and> \<not> is_reply (message_event m)" using demo_messages_ok(1) by simp
  have r: "is_reply (message_event ?r)" "reply_text ?r = ''+OK''" "ends_blank ''exit'' = Some False" by code_simp+
  have d: "hsends ?h = []" "hsock_out ?h = []" "race_event ?h = []" by (simp_all add: demo_client_def)
  from esl_send_recv_keeps [OF c(1) d(1) r(3) _ c(2) m demo_messages_ok(2) r(1), of ?env demo_fp Some] r(2) d(2,3) show ?thesis by auto
qed

text \<open>
  C15: a connection that ends inside of a message, in its lines or in its body: the call does not hand out a part of
  the message but fails, the handle is not connected any more, and all later calls fail at once. Beside the buffer, the socket and
  that flag only the last inner event changes, which every call drops first; the last event and the events that are kept stay as they are.
\<close>

theorem esl_recv_event_cut:
  assumes "client_ok h" "message_ok m" "stream h @ lost = wire m" "lost \<noteq> []" "\<forall>n. alloc_ok env n"
  shows "\<exists>h' b rx. esl_recv_event env f fmt False save h = Some (ESL_FAIL, None, h') \<and> \<not> hconnected h' \<and>
     last_event h' = last_event h \<and> race_event h' = race_event h \<and> h' = h\<lparr>last_ievent := None, packet_buf := b, hsock_in := rx, hconnected := False\<rparr> \<and>
     (\<forall>q v. esl_recv_event env f fmt q v h' = Some (ESL_FAIL, None, h'))"
proof -
  obtain kv b where m: "m = (kv, b)" by (cases m)
  let ?h = "h\<lparr>last_ievent := None\<rparr>" and ?p = "rendered kv @ [LF]"
  have s: "stream ?h = stream h" by (simp add: stream_def)
  then have ok: "usable h" "client_ok ?h" using assms(1) by (simp_all add: client_ok_def usable_def)
  have pl: "\<forall>(k, v) \<in> set kv. plain_line k v" "kv \<noteq> []" "length ?p < SOCKET_BUF" using assms(2) m by auto
  have "\<exists>h1. same_rest ?h h1 \<and> esl_recv_event env f fmt False save h = Some (ESL_FAIL, None, h1\<lparr>hconnected := False\<rparr>)"
  proof (cases "packet_len (stream h)")
    case None
    with recv_packet_gone [OF ok(2), of env] s ok(1) show ?thesis by (auto simp: esl_recv_event_def)
  next
    case (Some n)
    have w: "wire m = rendered kv @ LF # (case b of None \<Rightarrow> [] | Some t \<Rightarrow> t)" by (simp add: m)
    from packet_len_more [OF Some, of lost] packet_len_packet [OF pl(1,2), of "case b of None \<Rightarrow> [] | Some t \<Rightarrow> t"]
    have n: "n = length ?p" unfolding assms(3) w by simp
    with packet_len_bound [OF Some] have "take n (stream h) = take n (wire m)" by (metis assms(3) take_append diff_is_0_eq take_0 append_Nil2)
    then have p: "take n (stream h) = ?p" using n w by simp
    from recv_packet_stream [OF ok(2), of n env] s Some n pl(3) p obtain h1 where
      h1: "recv_packet env ?h = Some (Some ?p, h1)" "advanced n ?h h1" by auto
    have nul: "NUL \<notin> set (rendered kv)" using assms(1) p by (metis client_ok_def in_set_takeD Un_iff set_append)
    have len: "length (stream h) < length (wire m)" using assms(3,4) by (metis length_append length_greater_0_conv less_add_same_cancel1)
    with packet_len_bound [OF Some] n m obtain t where t: "b = Some t" by (cases b) auto
    have "length (stream h1) < length t" using h1(2) s len n m t packet_len_bound [OF Some] by (simp add: advanced_def)
    from recv_content_gone [OF _ _ this assms(5)] h1(2) assms(2) m t obtain h2 where
      "recv_content env (message_event (kv, None)) h1 = Some (None, h2)" "same_rest h1 h2" by (auto simp: advanced_def)
    with h1 ok(1) packet_event_plain [OF pl(1) nul] same_rest_trans [OF advanced_same [OF h1(2)]] show ?thesis
      by (auto simp: esl_recv_event_def simp del: message_event.simps)
  qed
  then obtain b' rx where
    "esl_recv_event env f fmt False save h = Some (ESL_FAIL, None, ?h\<lparr>packet_buf := b', hsock_in := rx, hconnected := False\<rparr>)" (is "_ = Some (_, _, ?g)")
    by (auto simp: same_rest_def)
  moreover have "esl_recv_event env f fmt q v ?g = Some (ESL_FAIL, None, ?g)" for q v by (simp add: esl_recv_event_def usable_def)
  ultimately show ?thesis by (intro exI [of _ ?g] exI [of _ b'] exI [of _ rx]) simp
qed

theorem esl_recv_event_cut_witness:
  "\<exists>h'. esl_recv_event \<lparr>alloc_ok = \<lambda>_. True, alloc_junk = \<lambda>_. NUL\<rparr> demo_fp Some False False (demo_client (butlast (wire (demo_messages ! 0)))) =
     Some (ESL_FAIL, None, h') \<and> \<not> hconnected h' \<and> last_event h' = None"
proof -
  let ?t = "butlast (wire (demo_messages ! 0))" and ?env = "\<lparr>alloc_ok = \<lambda>_. True, alloc_junk = \<lambda>_. NUL\<rparr>"
  have l: "length ?t < BUF_START" "NUL \<notin> set ?t" "?t @ ''}'' = wire (demo_messages ! 0)"
    by (simp_all add: demo_messages_wire BUF_START_def)
  have c: "client_ok (demo_client ?t)" "stream (demo_client ?t) @ ''}'' = wire (demo_messages ! 0)" using demo_client_ok [OF l(1,2)] l(3) by simp_all
  have "last_event (demo_client ?t) = None" by (simp add: demo_client_def)
  with esl_recv_event_cut [OF c(1) demo_messages_ok(1) c(2), of ?env demo_fp Some False] show ?thesis by auto
qed

end
