(* ===== verification/Agc_Esl_Plain.thy ===== *)
theory Agc_Esl_Plain
  imports Agc_Esl_Laws
begin

text \<open>
  The plain form of events: what \<^verbatim>\<open>esl_event_serialize\<close> writes with encoded values, the handle reads back from a
  message of type \<^verbatim>\<open>text/event-plain\<close>.
\<close>

section \<open>Writing\<close>

text \<open>Names and values that are kept: values are of at most 511 ASCII characters, for which the block of the writer has room.\<close>

definition kept_header :: "string \<Rightarrow> string \<Rightarrow> bool" where
  "kept_header k v \<longleftrightarrow> k \<noteq> [] \<and> set k \<inter> {CHR '':'', LF, CHR ''[''} = {} \<and> k \<noteq> ''_body'' \<and> v \<noteq> [] \<and> ascii v \<and> length v \<le> 511 \<and> \<not> has_sub ''ARRAY::'' v"

definition encoded :: "string \<Rightarrow> string" where
  "encoded v = the (esl_url_encode v 1536)"

lemma safe_char: "c = CHR ''%'' \<or> url_keep c \<Longrightarrow> c \<noteq> LF \<and> c \<noteq> CHR '' '' \<and> c \<noteq> CHR '':''"
  by (auto simp: url_keep_def urlunsafe_def)

lemma encoded_back:
  assumes "ascii v" "length v \<le> 511" "v \<noteq> []"
  shows "esl_url_encode v 1536 = Some (encoded v)" "esl_url_decode (encoded v) = v" "encoded v \<noteq> []"
    "\<forall>c \<in> set (encoded v). c \<noteq> LF \<and> c \<noteq> CHR '' '' \<and> c \<noteq> CHR '':''"
proof -
  have "0 + 3 * length v < size_sub 1536 1" using assms(2) by (simp add: size_sub_def)
  from url_round [OF assms(1) this] obtain t where
    t: "esl_url_encode v 1536 = Some t" "url_decode_loop t = v" "\<forall>c \<in> set t. c = CHR ''%'' \<or> url_keep c" by (auto simp: esl_url_encode_def)
  then have e: "encoded v = t" by (simp add: encoded_def)
  have "CHR 0x00 \<notin> set v" using assms(1) by (auto simp: ascii_def)
  then have "c_str v = v" by (auto simp: c_str_def takeWhile_eq_all_conv)
  then show "esl_url_encode v 1536 = Some (encoded v)" "esl_url_decode (encoded v) = v"
    using t e by (simp_all add: esl_url_decode_def)
  show "encoded v \<noteq> []" using t(2) e assms(3) by auto
  show "\<forall>c \<in> set (encoded v). c \<noteq> LF \<and> c \<noteq> CHR '' '' \<and> c \<noteq> CHR '':''" using t(3) e safe_char by blast
qed

lemma serialize_kept:
  "\<forall>(k, v) \<in> set kv. kept_header k v \<Longrightarrow>
   serialize_headers True 1536 (map (\<lambda>(k, v). header_of k v) kv) = Some (rendered (map (\<lambda>(k, v). (k, encoded v)) kv))"
proof (induction kv)
  case Nil
  then show ?case by (simp add: rendered_def)
next
  case (Cons p kv)
  obtain k v where p: "p = (k, v)" by (cases p)
  with Cons.prems have v: "ascii v" "length v \<le> 511" "v \<noteq> []" by (auto simp: kept_header_def)
  have n: "max 1536 (encode_need (header_of k v) v) = 1536" "evalue (header_of k v) = Some v" "ename (header_of k v) = k"
    using v(2) by (simp_all add: encode_need_def header_of_def)
  have IH: "serialize_headers True 1536 (map (\<lambda>(k, v). header_of k v) kv) = Some (rendered (map (\<lambda>(k, v). (k, encoded v)) kv))"
    using Cons by auto
  then show ?case using encoded_back [OF v] by (simp add: p n rendered_Cons)
qed

section \<open>Reading\<close>

lemma inner_lines_step:
  assumes "k \<noteq> []" "CHR '':'' \<notin> set k" "LF \<notin> set k" "u \<noteq> []" "\<forall>c \<in> set u. c \<noteq> LF \<and> c \<noteq> CHR '' '' \<and> c \<noteq> CHR '':''"
  shows "inner_lines (k @ CHR '':'' # CHR '' '' # u @ LF # rest) ev =
     (let ev = inner_line k (esl_url_decode u) ev in if take 1 rest = [LF] then (ev, tl rest) else inner_lines rest ev)"
proof -
  let ?l = "k @ CHR '':'' # CHR '' '' # u"
  have lf: "LF \<notin> set ?l" using assms(3,5) by auto
  have b: "k @ CHR '':'' # CHR '' '' # u @ LF # rest = ?l @ LF # rest" by simp
  have s: "skip_spaces (CHR '' '' # u) = u" using assms(4,5) by (cases u) (auto simp: skip_spaces_def)
  show ?thesis unfolding b using cut_at [OF lf, of rest] cut_at [OF assms(2), of "CHR '' '' # u"] s
    by (subst inner_lines.simps) (simp add: Let_def del: append_assoc)
qed

lemma inner_line_plain:
  assumes "kept_header k v" "\<not> strcasecmp_eq k ''event-name''" "\<not> uniq_headers ev"
  shows "inner_line k v ev = ev\<lparr>eheaders := eheaders ev @ [header_of k v]\<rparr>"
proof -
  have "take 7 v = ''ARRAY::'' \<Longrightarrow> has_sub ''ARRAY::'' v" using has_sub_prefix [of "''ARRAY::''" v] by (simp add: numeral_eq_Suc)
  then have "take 7 v \<noteq> ''ARRAY::''" using assms(1) by (auto simp: kept_header_def)
  then show ?thesis using assms add_plain [of k v ev]
    by (auto simp: inner_line_def add_line_def esl_event_add_header_string_def kept_header_def)
qed

lemma inner_lines_kept:
  "\<forall>(k, v) \<in> set kv. kept_header k v \<and> \<not> strcasecmp_eq k ''event-name'' \<Longrightarrow> kv \<noteq> [] \<Longrightarrow> \<not> uniq_headers ev \<Longrightarrow>
   inner_lines (rendered (map (\<lambda>(k, v). (k, encoded v)) kv) @ LF # rest) ev =
     (ev\<lparr>eheaders := eheaders ev @ map (\<lambda>(k, v). header_of k v) kv\<rparr>, rest)"
proof (induction kv arbitrary: ev)
  case (Cons p kv)
  obtain k v where p: "p = (k, v)" by (cases p)
  with Cons.prems have k: "kept_header k v" "\<not> strcasecmp_eq k ''event-name''" by auto
  then have v: "ascii v" "length v \<le> 511" "v \<noteq> []" and n: "k \<noteq> []" "CHR '':'' \<notin> set k" "LF \<notin> set k" by (auto simp: kept_header_def)
  note e = encoded_back [OF v]
  let ?r = "rendered (map (\<lambda>(k, v). (k, encoded v)) kv) @ LF # rest" and ?ev = "ev\<lparr>eheaders := eheaders ev @ [header_of k v]\<rparr>"
  have step: "inner_lines (rendered (map (\<lambda>(k, v). (k, encoded v)) (p # kv)) @ LF # rest) ev =
     (if take 1 ?r = [LF] then (?ev, tl ?r) else inner_lines ?r ?ev)"
    using inner_lines_step [OF n e(3,4), of ?r ev] inner_line_plain [OF k Cons.prems(3)] e(2) by (simp add: p rendered_Cons Let_def)
  show ?case
  proof (cases "kv = []")
    case True
    then show ?thesis using step p by (simp add: rendered_def)
  next
    case False
    then obtain k' v' kv' where kv: "kv = (k', v') # kv'" by (cases kv) auto
    then have "kept_header k' v'" using Cons.prems(1) by auto
    then obtain c s where "k' = c # s" "c \<noteq> LF" by (cases k') (auto simp: kept_header_def)
    then have "take 1 ?r \<noteq> [LF]" by (simp add: kv rendered_Cons)
    then show ?thesis using step Cons.IH [of ?ev] Cons.prems False p by simp
  qed
qed simp

lemma inner_line_name:
  assumes "kept_header k n" "strcasecmp_eq k ''event-name''" "eheaders ev = []" "\<not> uniq_headers ev"
  shows "inner_line k n ev = ev\<lparr>eid := (case esl_name_event n of None \<Rightarrow> eid ev | Some i \<Rightarrow> i), eheaders := [header_of k n]\<rparr>"
proof -
  have d: "esl_event_del_header ev ''event-name'' = ev" using assms(3) by (simp add: esl_event_del_header_def esl_event_del_header_val_def Let_def)
  have "take 7 n = ''ARRAY::'' \<Longrightarrow> has_sub ''ARRAY::'' n" using has_sub_prefix [of "''ARRAY::''" n] by (simp add: numeral_eq_Suc)
  then have "take 7 n \<noteq> ''ARRAY::''" using assms(1) by (auto simp: kept_header_def)
  then show ?thesis using assms d add_plain [of k n ev] add_plain [of k n "ev\<lparr>eid := the (esl_name_event n)\<rparr>"]
    by (cases "esl_name_event n") (auto simp: inner_line_def add_line_def esl_event_add_header_string_def kept_header_def)
qed

lemma inner_lines_event:
  assumes "kept_header ''Event-Name'' n" "\<forall>(k, v) \<in> set kv. kept_header k v \<and> \<not> strcasecmp_eq k ''event-name''"
  shows "inner_lines (rendered (map (\<lambda>(k, v). (k, encoded v)) ((''Event-Name'', n) # kv)) @ LF # rest) clone_event =
     (clone_event\<lparr>eid := (case esl_name_event n of None \<Rightarrow> 0 | Some i \<Rightarrow> i),
        eheaders := map (\<lambda>(k, v). header_of k v) ((''Event-Name'', n) # kv)\<rparr>, rest)"
proof -
  have v: "ascii n" "length n \<le> 511" "n \<noteq> []" using assms(1) by (auto simp: kept_header_def)
  have k: "''Event-Name'' \<noteq> []" "CHR '':'' \<notin> set ''Event-Name''" "LF \<notin> set ''Event-Name''" by auto
  note e = encoded_back [OF v]
  have c: "eheaders clone_event = []" "\<not> uniq_headers clone_event" "eid clone_event = 0" by (simp_all add: clone_event_def)
  have "strcasecmp_eq ''Event-Name'' ''event-name''" by code_simp
  note il = inner_line_name [OF assms(1) this c(1,2), unfolded c(3)]
  let ?ev = "clone_event\<lparr>eid := (case esl_name_event n of None \<Rightarrow> 0 | Some i \<Rightarrow> i), eheaders := [header_of ''Event-Name'' n]\<rparr>"
  let ?r = "rendered (map (\<lambda>(k, v). (k, encoded v)) kv) @ LF # rest"
  have step: "inner_lines (rendered (map (\<lambda>(k, v). (k, encoded v)) ((''Event-Name'', n) # kv)) @ LF # rest) clone_event =
     (if take 1 ?r = [LF] then (?ev, tl ?r) else inner_lines ?r ?ev)"
    using inner_lines_step [OF k e(3,4), of ?r clone_event] il e(2) by (simp add: rendered_Cons Let_def)
  show ?thesis
  proof (cases "kv = []")
    case True
    then show ?thesis using step by (simp add: rendered_def)
  next
    case False
    then obtain k' v' kv' where kv: "kv = (k', v') # kv'" by (cases kv) auto
    then have "kept_header k' v'" using assms(2) by auto
    then obtain d s where "k' = d # s" "d \<noteq> LF" by (cases k') (auto simp: kept_header_def)
    then have "take 1 ?r \<noteq> [LF]" by (simp add: kv rendered_Cons)
    moreover have "inner_lines ?r ?ev = (?ev\<lparr>eheaders := eheaders ?ev @ map (\<lambda>(k, v). header_of k v) kv\<rparr>, rest)"
      by (rule inner_lines_kept [OF assms(2) False]) (simp add: clone_event_def)
    ultimately show ?thesis using step by simp
  qed
qed

section \<open>The length of a body\<close>

lemma encode_keep: "\<forall>c \<in> set s. url_keep c \<Longrightarrow> x + length s \<le> len \<Longrightarrow> url_encode_loop len x s = Some s"
  by (induction s arbitrary: x) auto

lemma digits_keep: "is_digit c \<Longrightarrow> url_keep c \<and> 0 < (of_char c :: nat) \<and> (of_char c :: nat) < 128"
proof -
  assume d: "is_digit c"
  then have n: "48 \<le> (of_char c :: nat)" "(of_char c :: nat) \<le> 57" by (auto simp: is_digit_def)
  have "\<forall>u \<in> set urlunsafe. \<not> is_digit u" by code_simp
  with d n show ?thesis by (auto simp: url_keep_def)
qed

lemma length_kept:
  assumes "m < 2 ^ 31"
  shows "kept_header ''Content-Length'' (int_str (int m))" "encoded (int_str (int m)) = int_str (int m)"
proof -
  let ?v = "int_str (int m)"
  have s: "?v = nat_str m" by (simp add: int_str_def)
  have d: "\<forall>c \<in> set ?v. is_digit c" unfolding s by (rule nat_str_digits)
  have l: "length ?v \<le> 11" using assms by (intro int_str_length) auto
  have "CHR ''A'' \<notin> set ?v" using d by (auto simp: is_digit_def)
  then have a: "\<not> has_sub ''ARRAY::'' ?v" using has_sub_set by fastforce
  have "ascii ?v" using d digits_keep by (auto simp: ascii_def)
  then show "kept_header ''Content-Length'' ?v" using l a nat_str_ne [of m] by (simp add: kept_header_def s)
  have "url_encode_loop (size_sub 1536 1) 0 ?v = Some ?v"
    by (rule encode_keep) (use d digits_keep l in \<open>auto simp: size_sub_def\<close>)
  then show "encoded ?v = ?v" by (simp add: encoded_def esl_url_encode_def)
qed

section \<open>Properties\<close>

text \<open>
  C18: an event written in its plain form with encoded values and read back by a client has the same name, the id that belongs to this name,
  the same headers in the same order and the same body, and behind them a header with the length of the body if there
  is one. The name is the first header; names hold no colon, bracket or line feed, values are ASCII texts of one to 511 characters without the mark of an
  array, and no header has the reserved name of the body or a second name or length.
\<close>

theorem esl_event_plain_roundtrip:
  assumes "eheaders ev = map (\<lambda>(k, v). header_of k v) ((''Event-Name'', n) # kv)" "kept_header ''Event-Name'' n"
    and "\<forall>(k, v) \<in> set kv. kept_header k v \<and> \<not> strcasecmp_eq k ''event-name'' \<and> \<not> strcasecmp_eq k ''content-length''"
    and "case ebody ev of None \<Rightarrow> True | Some b \<Rightarrow> b \<noteq> [] \<and> length b < 2 ^ 31"
  shows "\<exists>t. esl_event_serialize ev True = Some t \<and>
     plain_event t = clone_event\<lparr>eid := (case esl_name_event n of None \<Rightarrow> 0 | Some i \<Rightarrow> i), ebody := ebody ev,
       eheaders := eheaders ev @ (case ebody ev of None \<Rightarrow> [] | Some b \<Rightarrow> [header_of ''Content-Length'' (int_str (int (length b)))])\<rparr>"
proof -
  let ?enc = "\<lambda>kv. rendered (map (\<lambda>(k, v). (k, encoded v)) kv)" and ?all = "(''Event-Name'', n) # kv"
  let ?id = "case esl_name_event n of None \<Rightarrow> 0 | Some i \<Rightarrow> i"
  have ser: "serialize_headers True 1536 (eheaders ev) = Some (?enc ?all)"
    unfolding assms(1) by (rule serialize_kept) (use assms(2,3) in auto)
  have no: "\<not> strcasecmp_eq ''Event-Name'' ''content-length''" "strcasecmp_eq ''Content-Length'' ''content-length''"
    "\<not> strcasecmp_eq ''Content-Length'' ''event-name''" by code_simp+
  have fnd: "find (\<lambda>(k, v). strcasecmp_eq k ''content-length'') kv = None" using assms(3) by (auto simp: find_None_iff)
  have fnd': "find (\<lambda>(k, v). strcasecmp_eq k ''content-length'') (kv @ [(''Content-Length'', x)]) = Some (''Content-Length'', x)" for x
    using fnd no(2) by (induction kv) (auto split: if_splits)
  show ?thesis
  proof (cases "ebody ev")
    case None
    then have t: "esl_event_serialize ev True = Some (?enc ?all @ [LF])" using ser by (simp add: esl_event_serialize_def)
    have i: "inner_lines (?enc ?all @ [LF]) clone_event = (clone_event\<lparr>eid := ?id, eheaders := eheaders ev\<rparr>, [])"
      unfolding assms(1) by (rule inner_lines_event [OF assms(2)]) (use assms(3) in auto)
    have "esl_event_get_header (clone_event\<lparr>eid := ?id, eheaders := eheaders ev\<rparr>) ''content-length'' = None"
      using get_header_first [of "clone_event\<lparr>eid := ?id, eheaders := eheaders ev\<rparr>" ?all "''content-length''"] assms(1) no fnd by simp
    then have "plain_event (?enc ?all @ [LF]) = clone_event\<lparr>eid := ?id, eheaders := eheaders ev\<rparr>" unfolding plain_event_def i by simp
    with t None show ?thesis by (intro exI [of _ "?enc ?all @ [LF]"]) (simp add: clone_event_def)
  next
    case (Some b)
    let ?l = "int_str (int (length b))" and ?kv = "kv @ [(''Content-Length'', int_str (int (length b)))]"
    have b: "b \<noteq> []" "length b < 2 ^ 31" using assms(4) Some by auto
    have "to_int32 (int (length b)) = int (length b)" using b(2) unfolding to_int32_def by (intro signed_take_bit_int_eq_self) auto
    moreover have "?enc ((''Event-Name'', n) # ?kv) @ LF # b = ?enc ?all @ ''Content-Length: '' @ ?l @ [LF, LF] @ b"
      using length_kept(2) [OF b(2)] by (simp add: rendered_def)
    ultimately have t: "esl_event_serialize ev True = Some (?enc ((''Event-Name'', n) # ?kv) @ LF # b)"
      using ser Some b(1) by (simp add: esl_event_serialize_def)
    let ?ev = "clone_event\<lparr>eid := ?id, eheaders := map (\<lambda>(k, v). header_of k v) ((''Event-Name'', n) # ?kv)\<rparr>"
    have i: "inner_lines (?enc ((''Event-Name'', n) # ?kv) @ LF # b) clone_event = (?ev, b)"
      by (rule inner_lines_event [OF assms(2)]) (use assms(3) length_kept(1) [OF b(2)] no(3) in auto)
    have "esl_event_get_header ?ev ''content-length'' = Some ?l"
      using get_header_first [of ?ev "(''Event-Name'', n) # ?kv" "''content-length''"] no(1) fnd' by simp
    then have "plain_event (?enc ((''Event-Name'', n) # ?kv) @ LF # b) = ?ev\<lparr>ebody := Some b\<rparr>" unfolding plain_event_def i by simp
    with t Some assms(1) show ?thesis by (intro exI [of _ "?enc ((''Event-Name'', n) # ?kv) @ LF # b"]) simp
  qed
qed

theorem esl_event_plain_roundtrip_witness:
  "\<exists>t. esl_event_serialize (clone_event\<lparr>eid := 0, eheaders := [header_of ''Event-Name'' ''CUSTOM'', header_of ''Caller'' (''a b: 5%'' @ [LF])], ebody := Some ''x: 1''\<rparr>) True = Some t \<and>
     plain_event t = clone_event\<lparr>eid := 0, ebody := Some ''x: 1'',
       eheaders := [header_of ''Event-Name'' ''CUSTOM'', header_of ''Caller'' (''a b: 5%'' @ [LF]), header_of ''Content-Length'' ''4'']\<rparr>"
proof -
  let ?kv = "[(''Caller'', ''a b: 5%'' @ [LF])]"
  let ?ev = "clone_event\<lparr>eid := 0, eheaders := [header_of ''Event-Name'' ''CUSTOM'', header_of ''Caller'' (''a b: 5%'' @ [LF])], ebody := Some ''x: 1''\<rparr>"
  have h: "eheaders ?ev = map (\<lambda>(k, v). header_of k v) ((''Event-Name'', ''CUSTOM'') # ?kv)" "kept_header ''Event-Name'' ''CUSTOM''"
    "\<forall>(k, v) \<in> set ?kv. kept_header k v \<and> \<not> strcasecmp_eq k ''event-name'' \<and> \<not> strcasecmp_eq k ''content-length''"
    by (simp, code_simp+)
  have n: "esl_name_event ''CUSTOM'' = Some 0" by (simp add: esl_name_event_def EVENT_NAMES_def)
  have l: "int_str 4 = ''4''" by code_simp
  have b: "case ebody ?ev of None \<Rightarrow> True | Some b \<Rightarrow> b \<noteq> [] \<and> length b < 2 ^ 31" by simp
  from esl_event_plain_roundtrip [OF h(1-3) b] n l show ?thesis by simp
qed

end
