(* ===== verification/Agc_Memory.thy ===== *)
theory Agc_Memory
  imports Agc_Queue_Threads
begin

text \<open>
  Memory pools (\<^verbatim>\<open>src/src/agc_core_memory.c\<close>): a pool that is not needed any more is handed to a thread, which destroys it a
  second later. The pools of APR are addresses; destroying one that does not exist is \<^const>\<open>None\<close>. Steps are the locked
  sections of the queue, whose unlocked test for the end is taken together with the section that follows:
  nothing ends this queue. The program passes each pool once, since its pointer is cleared. Of \<^verbatim>\<open>memory_manager\<close> the pool of the
  process, which is never destroyed, and the queue for reuse, which nothing uses, are left out; \<open>pools\<close> and \<open>freed\<close> record what APR does. That
  \<^verbatim>\<open>agc_core_memory_init\<close> waits for its thread is not used: callers may also come before the thread runs.
\<close>

section \<open>Operations\<close>

record memory_manager =
  pool_queue :: apr_queue
  pool_thread_running :: bool
  pools :: "addr set"
  freed :: "addr list"

definition POOL_QUEUE_LEN :: u32 where "POOL_QUEUE_LEN = 50000"

definition agc_core_memory_init :: memory_manager where
  "agc_core_memory_init = \<lparr>pool_queue = apr_queue_create POOL_QUEUE_LEN, pool_thread_running = False, pools = {}, freed = []\<rparr>"

definition apr_pool_destroy :: "addr \<Rightarrow> memory_manager \<Rightarrow> memory_manager option" where
  "apr_pool_destroy p m = (if p \<in> pools m then Some (m\<lparr>pools := pools m - {p}, freed := freed m @ [p]\<rparr>) else None)"

definition agc_memory_create_pool :: "addr \<Rightarrow> memory_manager \<Rightarrow> memory_manager" where
  "agc_memory_create_pool p m = m\<lparr>pools := insert p (pools m)\<rparr>"

text \<open>
  \<^verbatim>\<open>agc_memory_destroy_pool\<close>: up to the push, the push with the loop of \<^verbatim>\<open>agc_queue_push\<close> around it, and its wait.
\<close>

datatype destroy_call = Outside | Pushing addr | Waiting addr

definition destroy_start :: "addr \<Rightarrow> memory_manager \<Rightarrow> (destroy_call \<times> memory_manager) option" where
  "destroy_start p m =
     (if p = NULL then Some (Outside, m)
      else if \<not> pool_thread_running m then map_option (Pair Outside) (apr_pool_destroy p m)
      else Some (Pushing p, m))"

definition push_result :: "addr \<Rightarrow> apr_status \<Rightarrow> memory_manager \<Rightarrow> (destroy_call \<times> memory_manager) option" where
  "push_result p r m =
     (if r = APR_EINTR then Some (Pushing p, m)
      else if r = APR_SUCCESS then Some (Outside, m)
      else map_option (Pair Outside) (apr_pool_destroy p m))"

fun destroy_go :: "destroy_call \<Rightarrow> memory_manager \<Rightarrow> (destroy_call \<times> memory_manager) option" where
  "destroy_go Outside m = Some (Outside, m)"
| "destroy_go (Pushing p) m =
     (if terminated (pool_queue m) then push_result p APR_EOF m
      else do {
        (r, q) \<leftarrow> apr_queue_push_enter (pool_queue m) p;
        case r of
          Blocked \<Rightarrow> Some (Waiting p, m\<lparr>pool_queue := q\<rparr>)
        | Ret r \<Rightarrow> push_result p r (m\<lparr>pool_queue := q\<rparr>)
      })"
| "destroy_go (Waiting p) m = do {
     (r, q) \<leftarrow> apr_queue_push_wake (pool_queue m) p;
     push_result p r (m\<lparr>pool_queue := q\<rparr>)
   }"

text \<open>\<^verbatim>\<open>pool_thread\<close>: the start, the test of the length, the inner loop with \<open>x\<close> pools to go, and the last loop.\<close>

datatype pool_pc = Begin | Round | Popping nat | PopWaiting nat | Last | Ended

definition popped :: "apr_status \<times> addr option \<Rightarrow> nat \<Rightarrow> memory_manager \<Rightarrow> (pool_pc \<times> memory_manager) option" where
  "popped r x m = (case r of
     (APR_SUCCESS, Some p) \<Rightarrow> if p = NULL then Some (Last, m) else map_option (Pair (Popping x)) (apr_pool_destroy p m)
   | _ \<Rightarrow> Some (Last, m))"

fun pool_thread :: "pool_pc \<Rightarrow> memory_manager \<Rightarrow> (pool_pc \<times> memory_manager) option" where
  "pool_thread Begin m = Some (Round, m\<lparr>pool_thread_running := True\<rparr>)"
| "pool_thread Round m =
     (if \<not> pool_thread_running m then Some (Last, m)
      else (let len = unat (apr_queue_size (pool_queue m)) in Some (if len \<noteq> 0 then Popping len else Round, m)))"
| "pool_thread (Popping 0) m = Some (Round, m)"
| "pool_thread (Popping (Suc x)) m =
     (if terminated (pool_queue m) then Some (Last, m)
      else do {
        (r, q) \<leftarrow> apr_queue_pop_enter (pool_queue m);
        case r of
          Blocked \<Rightarrow> Some (PopWaiting x, m\<lparr>pool_queue := q\<rparr>)
        | Ret r \<Rightarrow> popped r x (m\<lparr>pool_queue := q\<rparr>)
      })"
| "pool_thread (PopWaiting x) m = do {
     (r, q) \<leftarrow> apr_queue_pop_wake (pool_queue m);
     popped r x (m\<lparr>pool_queue := q\<rparr>)
   }"
| "pool_thread Last m = do {
     (r, d, q) \<leftarrow> apr_queue_trypop (pool_queue m);
     (case (r, d) of
        (APR_SUCCESS, Some p) \<Rightarrow>
          if p = NULL then Some (Ended, m\<lparr>pool_queue := q, pool_thread_running := False\<rparr>)
          else map_option (Pair Last) (apr_pool_destroy p (m\<lparr>pool_queue := q\<rparr>))
      | _ \<Rightarrow> Some (Ended, m\<lparr>pool_queue := q, pool_thread_running := False\<rparr>))
   }"
| "pool_thread Ended m = Some (Ended, m)"

section \<open>All interleavings\<close>

text \<open>\<open>owned\<close> are the pools that the program still uses, \<open>calls\<close> what its threads do.\<close>

record memsys =
  mem :: memory_manager
  calls :: "nat \<Rightarrow> destroy_call"
  tpc :: pool_pc
  owned :: "addr set"

inductive mstep :: "memsys \<Rightarrow> memsys \<Rightarrow> bool" where
  create: "p \<notin> pools (mem s) \<Longrightarrow> p \<noteq> NULL \<Longrightarrow> mstep s (s\<lparr>mem := agc_memory_create_pool p (mem s), owned := insert p (owned s)\<rparr>)"
| destroy: "calls s t = Outside \<Longrightarrow> p \<in> owned s \<Longrightarrow> destroy_start p (mem s) = Some (c, m) \<Longrightarrow>
    mstep s (s\<lparr>mem := m, calls := (calls s)(t := c), owned := owned s - {p}\<rparr>)"
| go: "destroy_go (calls s t) (mem s) = Some (c, m) \<Longrightarrow> mstep s (s\<lparr>mem := m, calls := (calls s)(t := c)\<rparr>)"
| thread: "pool_thread (tpc s) (mem s) = Some (pc, m) \<Longrightarrow> mstep s (s\<lparr>mem := m, tpc := pc\<rparr>)"

definition minit :: memsys where
  "minit = \<lparr>mem = agc_core_memory_init, calls = \<lambda>_. Outside, tpc = Begin, owned = {}\<rparr>"

definition mreach :: "memsys \<Rightarrow> bool" where
  "mreach s \<longleftrightarrow> mstep\<^sup>*\<^sup>* minit s"

definition in_call :: "destroy_call \<Rightarrow> addr \<Rightarrow> bool" where
  "in_call c p \<longleftrightarrow> c = Pushing p \<or> c = Waiting p"

definition passed :: "memsys \<Rightarrow> addr set" where
  "passed s = {p. \<exists>t. in_call (calls s t) p}"

section \<open>The invariant\<close>

definition thread_ok :: "pool_pc \<Rightarrow> memory_manager \<Rightarrow> bool" where
  "thread_ok pc m = (case pc of
     Begin \<Rightarrow> \<not> pool_thread_running m
   | Round \<Rightarrow> pool_thread_running m
   | Popping x \<Rightarrow> pool_thread_running m \<and> x \<le> length (contents (pool_queue m))
   | _ \<Rightarrow> False)"

definition single_calls :: "(nat \<Rightarrow> destroy_call) \<Rightarrow> bool" where
  "single_calls cs \<longleftrightarrow> (\<forall>t t' p. in_call (cs t) p \<and> in_call (cs t') p \<longrightarrow> t = t')"

text \<open>Every pool that exists is used, in the queue, or on its way into it, and only one of these.\<close>

definition minv :: "memsys \<Rightarrow> bool" where
  "minv s \<longleftrightarrow> (let m = mem s; ds = contents (pool_queue m) in
     qwf (pool_queue m) \<and> \<not> terminated (pool_queue m) \<and> NULL \<notin> pools m \<and> distinct ds \<and>
     single_calls (calls s) \<and>
     pools m = owned s \<union> set ds \<union> passed s \<and> owned s \<inter> set ds = {} \<and> owned s \<inter> passed s = {} \<and> set ds \<inter> passed s = {} \<and>
     thread_ok (tpc s) m)"

lemma in_call_simps [simp]:
  "in_call Outside p \<longleftrightarrow> False" "in_call (Pushing x) p \<longleftrightarrow> x = p" "in_call (Waiting x) p \<longleftrightarrow> x = p"
  by (auto simp: in_call_def)

lemma push_ret:
  assumes "qwf q" "\<not> terminated q"
  shows "(\<exists>q'. apr_queue_push_enter q p = Some (Ret APR_SUCCESS, q') \<and> qwf q' \<and> \<not> terminated q' \<and> contents q' = contents q @ [p]) \<or>
     (\<exists>q'. apr_queue_push_enter q p = Some (Blocked, q') \<and> qwf q' \<and> \<not> terminated q' \<and> contents q' = contents q)"
proof (cases "apr_queue_full q")
  case True
  then show ?thesis using assms by (simp add: apr_queue_push_enter_def)
next
  case False
  then show ?thesis using queue_put_ok [OF assms(1) False, of p] assms(2) by (auto simp: apr_queue_push_enter_def)
qed

lemma wake_ret:
  assumes "qwf q" "\<not> terminated q"
  shows "(\<exists>q'. apr_queue_push_wake q p = Some (APR_SUCCESS, q') \<and> qwf q' \<and> \<not> terminated q' \<and> contents q' = contents q @ [p]) \<or>
     (\<exists>q'. apr_queue_push_wake q p = Some (APR_EINTR, q') \<and> qwf q' \<and> \<not> terminated q' \<and> contents q' = contents q)"
proof -
  let ?q = "q\<lparr>full_waiters := full_waiters q - 1\<rparr>"
  have w: "qwf ?q" "\<not> terminated ?q" "contents ?q = contents q" using assms by (simp_all add: qwf_def contents_def)
  show ?thesis
  proof (cases "apr_queue_full ?q")
    case True
    then show ?thesis using w by (simp add: apr_queue_push_wake_def)
  next
    case False
    then show ?thesis using queue_put_ok [OF w(1) False, of p] w by (auto simp: apr_queue_push_wake_def)
  qed
qed

text \<open>A call in progress goes on: it has put its pool into the queue, or it still has to.\<close>

lemma destroy_go_ok:
  assumes "qwf (pool_queue m)" "\<not> terminated (pool_queue m)" "in_call c p"
  shows "\<exists>c' q. destroy_go c m = Some (c', m\<lparr>pool_queue := q\<rparr>) \<and> qwf q \<and> \<not> terminated q \<and>
     (c' = Outside \<and> contents q = contents (pool_queue m) @ [p] \<or> in_call c' p \<and> contents q = contents (pool_queue m))"
proof (cases c)
  case (Pushing x)
  then show ?thesis using assms push_ret [OF assms(1,2), of p] by (auto simp: push_result_def)
next
  case (Waiting x)
  then show ?thesis using assms wake_ret [OF assms(1,2), of p] by (auto simp: push_result_def)
qed (use assms(3) in simp)

lemma pool_pop_ok:
  assumes "qwf (pool_queue m)" "\<not> terminated (pool_queue m)" "contents (pool_queue m) = p # ps" "p \<in> pools m" "p \<noteq> NULL"
  shows "\<exists>q. pool_thread (Popping (Suc x)) m = Some (Popping x, m\<lparr>pool_queue := q, pools := pools m - {p}, freed := freed m @ [p]\<rparr>) \<and>
     qwf q \<and> \<not> terminated q \<and> contents q = ps"
proof -
  have "\<not> apr_queue_empty (pool_queue m)" using assms(3) by (simp add: queue_empty_iff)
  from queue_take_ok [OF assms(1) this] assms(2,3) obtain q where
    "queue_take (pool_queue m) = Some (p, q)" "qwf q" "contents q = ps" "\<not> terminated q" by auto
  with \<open>\<not> apr_queue_empty (pool_queue m)\<close> show ?thesis using assms(2,4,5)
    by (auto simp: apr_queue_pop_enter_def popped_def apr_pool_destroy_def)
qed

lemma passed_upd:
  assumes "single_calls (calls s)"
  shows "passed (s\<lparr>mem := m, calls := (calls s)(t := c)\<rparr>) = (passed s - {p. in_call (calls s t) p}) \<union> {p. in_call c p}"
proof (intro set_eqI iffI)
  fix x assume "x \<in> passed (s\<lparr>mem := m, calls := (calls s)(t := c)\<rparr>)"
  then obtain t' where "in_call (((calls s)(t := c)) t') x" by (auto simp: passed_def)
  then show "x \<in> (passed s - {p. in_call (calls s t) p}) \<union> {p. in_call c p}"
    using assms by (cases "t' = t") (auto simp: passed_def single_calls_def)
next
  fix x assume "x \<in> (passed s - {p. in_call (calls s t) p}) \<union> {p. in_call c p}"
  then consider "in_call c x" | t' where "in_call (calls s t') x" "\<not> in_call (calls s t) x" by (auto simp: passed_def)
  then show "x \<in> passed (s\<lparr>mem := m, calls := (calls s)(t := c)\<rparr>)"
  proof cases
    case 1
    then have "in_call (((calls s)(t := c)) t) x" by simp
    then show ?thesis unfolding passed_def by (intro CollectI exI [of _ t]) simp
  next
    case 2
    then have "in_call (((calls s)(t := c)) t') x" by auto
    then show ?thesis unfolding passed_def by (intro CollectI exI [of _ t']) simp
  qed
qed

lemma passed_mem [simp]:
  "passed (s\<lparr>mem := m\<rparr>) = passed s" "passed (s\<lparr>tpc := pc\<rparr>) = passed s" "passed (s\<lparr>owned := A\<rparr>) = passed s"
  by (simp_all add: passed_def)

lemma minvD:
  assumes "minv s"
  shows "qwf (pool_queue (mem s))" "\<not> terminated (pool_queue (mem s))" "NULL \<notin> pools (mem s)" "distinct (contents (pool_queue (mem s)))"
    "single_calls (calls s)"
    "pools (mem s) = owned s \<union> set (contents (pool_queue (mem s))) \<union> passed s" "owned s \<inter> set (contents (pool_queue (mem s))) = {}"
    "owned s \<inter> passed s = {}" "set (contents (pool_queue (mem s))) \<inter> passed s = {}" "thread_ok (tpc s) (mem s)"
  using assms unfolding minv_def Let_def by blast+

lemma minvI:
  assumes "qwf (pool_queue (mem s))" "\<not> terminated (pool_queue (mem s))" "NULL \<notin> pools (mem s)" "distinct (contents (pool_queue (mem s)))"
    "single_calls (calls s)"
    "pools (mem s) = owned s \<union> set (contents (pool_queue (mem s))) \<union> passed s" "owned s \<inter> set (contents (pool_queue (mem s))) = {}"
    "owned s \<inter> passed s = {}" "set (contents (pool_queue (mem s))) \<inter> passed s = {}" "thread_ok (tpc s) (mem s)"
  shows "minv s"
  using assms unfolding minv_def Let_def by blast

lemma minv_create:
  assumes "minv s" "p \<notin> pools (mem s)" "p \<noteq> NULL"
  shows "minv (s\<lparr>mem := agc_memory_create_pool p (mem s), owned := insert p (owned s)\<rparr>)"
  using minvD [OF assms(1)] assms(2,3)
  by (auto simp: minv_def Let_def agc_memory_create_pool_def thread_ok_def split: pool_pc.splits)

lemma minv_destroy:
  assumes "minv s" "calls s t = Outside" "p \<in> owned s" "destroy_start p (mem s) = Some (c, m)"
  shows "minv (s\<lparr>mem := m, calls := (calls s)(t := c), owned := owned s - {p}\<rparr>)"
proof -
  note i = minvD [OF assms(1)]
  let ?s = "s\<lparr>mem := m, calls := (calls s)(t := c)\<rparr>"
  have p: "p \<noteq> NULL" "p \<in> pools (mem s)" "p \<notin> passed s" "p \<notin> set (contents (pool_queue (mem s)))" using i assms(3) by auto
  have pa: "passed ?s = passed s \<union> {p. in_call c p}" using passed_upd [OF i(5), where m = m and t = t and c = c] assms(2) by simp
  show ?thesis
  proof (cases "pool_thread_running (mem s)")
    case True
    then have c: "c = Pushing p" "m = mem s" using assms(4) p(1) by (auto simp: destroy_start_def)
    have inj: "single_calls ((calls s)(t := c))"
      using i(5) p(3) c(1) by (auto simp: passed_def single_calls_def)
    have "passed ?s = insert p (passed s)" using pa c(1) by auto
    then show ?thesis using i p inj c(2) by (intro minvI) auto
  next
    case False
    then have c: "c = Outside" "m = (mem s)\<lparr>pools := pools (mem s) - {p}, freed := freed (mem s) @ [p]\<rparr>"
      using assms(4) p(1,2) by (auto simp: destroy_start_def apr_pool_destroy_def)
    have inj: "single_calls ((calls s)(t := c))"
      using i(5) c(1) by (auto simp: single_calls_def)
    have "thread_ok (tpc s) m" using i(10) c(2) by (auto simp: thread_ok_def split: pool_pc.splits)
    moreover have "passed ?s = passed s" using pa c(1) by auto
    ultimately show ?thesis using i p inj c(2) by (intro minvI) auto
  qed
qed

lemma minv_go:
  assumes "minv s" "destroy_go (calls s t) (mem s) = Some (c, m)"
  shows "minv (s\<lparr>mem := m, calls := (calls s)(t := c)\<rparr>)"
proof -
  note i = minvD [OF assms(1)]
  show ?thesis
  proof (cases "calls s t = Outside")
    case True
    then have "c = Outside" "m = mem s" using assms(2) by auto
    then have "s\<lparr>mem := m, calls := (calls s)(t := c)\<rparr> = s" using True by (simp add: fun_upd_idem)
    with assms(1) show ?thesis by simp
  next
    case False
    then obtain p where p: "in_call (calls s t) p" by (cases "calls s t") auto
    have only: "{x. in_call (calls s t) x} = {p}" using p by (cases "calls s t") auto
    have pin: "p \<in> passed s" using p by (auto simp: passed_def)
    from destroy_go_ok [OF i(1,2) p] assms(2) obtain q where
      q: "m = (mem s)\<lparr>pool_queue := q\<rparr>" "qwf q" "\<not> terminated q"
      "c = Outside \<and> contents q = contents (pool_queue (mem s)) @ [p] \<or> in_call c p \<and> contents q = contents (pool_queue (mem s))" by auto
    have cp: "in_call c x \<Longrightarrow> x = p" for x using q(4) by (cases c) auto
    have pa: "passed (s\<lparr>mem := m, calls := (calls s)(t := c)\<rparr>) = (passed s - {p}) \<union> {x. in_call c x}"
      using passed_upd [OF i(5), where m = m and t = t and c = c] only by simp
    have inj: "single_calls ((calls s)(t := c))"
      using i(5) cp p unfolding single_calls_def by (metis fun_upd_apply)
    have th: "thread_ok (tpc s) m" using i(10) q(1,4) by (auto simp: thread_ok_def split: pool_pc.splits)
    have pn: "p \<notin> set (contents (pool_queue (mem s)))" "p \<notin> owned s" using i(8,9) pin by auto
    let ?s = "s\<lparr>mem := m, calls := (calls s)(t := c)\<rparr>" and ?ds = "contents (pool_queue (mem s))"
    have m: "pool_queue m = q" "pools m = pools (mem s)" using q(1) by simp_all
    from q(4) show ?thesis
    proof
      assume c: "c = Outside \<and> contents q = ?ds @ [p]"
      then have "passed ?s = passed s - {p}" using pa by auto
      moreover have "pools m = owned s \<union> set (?ds @ [p]) \<union> (passed s - {p})" using i(6) pin m(2) by auto
      moreover have "distinct (?ds @ [p])" using i(4) pn(1) by simp
      moreover have "owned s \<inter> set (?ds @ [p]) = {}" "owned s \<inter> (passed s - {p}) = {}" "set (?ds @ [p]) \<inter> (passed s - {p}) = {}"
        using i(7-9) pn(2) by auto
      ultimately show ?thesis using i(3) inj th q(2,3) m c by (intro minvI) auto
    next
      assume c: "in_call c p \<and> contents q = ?ds"
      then have "{x. in_call c x} = {p}" using cp by auto
      then have "passed ?s = passed s" using pa pin by auto
      then show ?thesis using i(3,4,6-9) inj th q(2,3) m c by (intro minvI) simp_all
    qed
  qed
qed

lemma minv_thread:
  assumes "minv s" "pool_thread (tpc s) (mem s) = Some (pc, m)"
  shows "minv (s\<lparr>mem := m, tpc := pc\<rparr>)"
proof -
  note i = minvD [OF assms(1)]
  consider "tpc s = Begin" | "tpc s = Round" | "tpc s = Popping 0" | x where "tpc s = Popping (Suc x)"
    using i(10) by (cases "tpc s") (auto simp: thread_ok_def, metis not0_implies_Suc)
  then show ?thesis
  proof cases
    case 1
    with assms i show ?thesis by (auto simp: minv_def Let_def thread_ok_def)
  next
    case 2
    with assms i show ?thesis
      by (auto simp: minv_def Let_def thread_ok_def apr_queue_size_def contents_length split: if_splits)
  next
    case 3
    with assms i show ?thesis by (auto simp: minv_def Let_def thread_ok_def)
  next
    case (4 x)
    then have x: "Suc x \<le> length (contents (pool_queue (mem s)))" "pool_thread_running (mem s)" using i(10) by (simp_all add: thread_ok_def)
    then obtain p ps where c: "contents (pool_queue (mem s)) = p # ps" by (cases "contents (pool_queue (mem s))") auto
    have p: "p \<in> pools (mem s)" "p \<noteq> NULL" using i(3,6) c by auto
    from pool_pop_ok [OF i(1,2) c p, of x] 4 assms(2) obtain q where
      q: "pc = Popping x" "m = (mem s)\<lparr>pool_queue := q, pools := pools (mem s) - {p}, freed := freed (mem s) @ [p]\<rparr>"
        "qwf q" "\<not> terminated q" "contents q = ps" by auto
    with x c have "thread_ok pc m" by (simp add: thread_ok_def)
    then show ?thesis using i q c by (auto simp: minv_def Let_def)
  qed
qed

lemma mreach_minv:
  assumes "mreach s"
  shows "minv s"
proof -
  have init: "minv minit" by (simp add: minv_def minit_def agc_core_memory_init_def queue_create_wf passed_def thread_ok_def single_calls_def Let_def)
  have step: "mstep s s' \<Longrightarrow> minv s \<Longrightarrow> minv s'" for s s'
    by (erule mstep.cases) (auto intro: minv_create minv_destroy minv_go minv_thread)
  from assms have "mstep\<^sup>*\<^sup>* minit s" by (simp add: mreach_def)
  then show ?thesis by (induction rule: rtranclp_induct) (use init step in auto)
qed

text \<open>The thread alone, \<open>n\<close> steps.\<close>

fun thread_runs :: "nat \<Rightarrow> pool_pc \<times> memory_manager \<Rightarrow> (pool_pc \<times> memory_manager) option" where
  "thread_runs 0 x = Some x"
| "thread_runs (Suc n) (pc, m) = do { x \<leftarrow> pool_thread pc m; thread_runs n x }"

lemma thread_pops:
  "qwf (pool_queue m) \<Longrightarrow> \<not> terminated (pool_queue m) \<Longrightarrow> contents (pool_queue m) = ps @ qs \<Longrightarrow> distinct (ps @ qs) \<Longrightarrow> set ps \<subseteq> pools m \<Longrightarrow> NULL \<notin> set ps \<Longrightarrow>
   \<exists>q. thread_runs (length ps) (Popping (length ps), m) = Some (Popping 0, m\<lparr>pool_queue := q, pools := pools m - set ps, freed := freed m @ ps\<rparr>) \<and>
     contents q = qs"
proof (induction ps arbitrary: m)
  case Nil
  have "m = m\<lparr>pool_queue := pool_queue m, pools := pools m - {}, freed := freed m @ []\<rparr>" by simp
  with Nil show ?case by (intro exI [of _ "pool_queue m"]) auto
next
  case (Cons p ps)
  from pool_pop_ok [OF Cons.prems(1,2), of p "ps @ qs" "length ps"] Cons.prems(3,5,6) obtain q where
    q: "pool_thread (Popping (Suc (length ps))) m = Some (Popping (length ps), m\<lparr>pool_queue := q, pools := pools m - {p}, freed := freed m @ [p]\<rparr>)"
      "qwf q" "\<not> terminated q" "contents q = ps @ qs" by auto
  let ?m = "m\<lparr>pool_queue := q, pools := pools m - {p}, freed := freed m @ [p]\<rparr>"
  have "distinct (ps @ qs)" "set ps \<subseteq> pools ?m" "NULL \<notin> set ps" using Cons.prems(4-6) by auto
  with Cons.IH [of ?m] q(2-4) obtain q' where
    q': "thread_runs (length ps) (Popping (length ps), ?m) = Some (Popping 0, ?m\<lparr>pool_queue := q', pools := pools ?m - set ps, freed := freed ?m @ ps\<rparr>)"
    "contents q' = qs" by auto
  have "pools m - {p} - set ps = pools m - set (p # ps)" by auto
  then show ?case using q(1) q' by auto
qed

section \<open>Properties\<close>

text \<open>
  C8: however the threads interleave, no pool is destroyed twice and none is lost: a pool that exists is used by the program, in the
  queue or on its way into it, and only one of these; the thread never leaves its loop, every step of it and of every call is
  defined, and whenever it finds pools in the queue it destroys just these, in order, in as many steps and one more.
\<close>

theorem pools_destroyed_once:
  assumes "mreach s"
  shows "pools (mem s) = owned s \<union> set (contents (pool_queue (mem s))) \<union> passed s \<and> distinct (contents (pool_queue (mem s))) \<and>
     owned s \<inter> set (contents (pool_queue (mem s))) = {} \<and> owned s \<inter> passed s = {} \<and> set (contents (pool_queue (mem s))) \<inter> passed s = {} \<and>
     tpc s \<notin> {Last, Ended} \<and> pool_thread (tpc s) (mem s) \<noteq> None \<and> destroy_go (calls s t) (mem s) \<noteq> None \<and>
     (p \<in> owned s \<longrightarrow> destroy_start p (mem s) \<noteq> None) \<and>
     (tpc s = Round \<and> contents (pool_queue (mem s)) \<noteq> [] \<longrightarrow>
        (\<exists>m. thread_runs (Suc (length (contents (pool_queue (mem s))))) (tpc s, mem s) = Some (Popping 0, m) \<and>
           freed m = freed (mem s) @ contents (pool_queue (mem s)) \<and> contents (pool_queue m) = []))"
proof -
  note i = minvD [OF mreach_minv [OF assms]]
  let ?ds = "contents (pool_queue (mem s))"
  have "tpc s \<notin> {Last, Ended}" using i(10) by (auto simp: thread_ok_def split: pool_pc.splits)
  moreover have "destroy_go (calls s t) (mem s) \<noteq> None"
    using destroy_go_ok [OF i(1,2), of "calls s t"] by (cases "calls s t") (auto simp del: destroy_go.simps(2,3))
  moreover have "p \<in> owned s \<longrightarrow> destroy_start p (mem s) \<noteq> None" using i(6) by (auto simp: destroy_start_def apr_pool_destroy_def)
  moreover have "pool_thread (tpc s) (mem s) \<noteq> None"
  proof (cases "tpc s")
    case (Popping x)
    show ?thesis
    proof (cases x)
      case (Suc y)
      with i(10) Popping obtain a as where c: "?ds = a # as" by (cases ?ds) (auto simp: thread_ok_def)
      with i(3,6) have "a \<in> pools (mem s)" "a \<noteq> NULL" by auto
      from pool_pop_ok [OF i(1,2) c this, of y] Popping Suc show ?thesis by (auto simp del: pool_thread.simps)
    qed (use Popping in simp)
  qed (use i(10) in \<open>auto simp: thread_ok_def Let_def\<close>)
  moreover have "\<exists>m. thread_runs (Suc (length ?ds)) (tpc s, mem s) = Some (Popping 0, m) \<and> freed m = freed (mem s) @ ?ds \<and> contents (pool_queue m) = []"
    if r: "tpc s = Round" "?ds \<noteq> []"
  proof -
    have "0 < unat (qnelts (pool_queue (mem s)))" using r(2) contents_length [of "pool_queue (mem s)"] by (metis length_greater_0_conv)
    then have "pool_thread Round (mem s) = Some (Popping (length ?ds), mem s)"
      using i(10) r by (simp add: thread_ok_def apr_queue_size_def contents_length Let_def)
    moreover have "distinct (?ds @ [])" "set ?ds \<subseteq> pools (mem s)" "NULL \<notin> set ?ds" using i(3,4,6) by auto
    ultimately show ?thesis using thread_pops [OF i(1,2), of ?ds "[]"] r(1) by (auto simp del: pool_thread.simps)
  qed
  ultimately show ?thesis using i(4,6-9) by blast
qed

definition demo_passed :: memsys where
  "demo_passed = minit\<lparr>mem := agc_core_memory_init\<lparr>pool_thread_running := True, pools := {5}\<rparr>, calls := (\<lambda>_. Outside)(0 := Pushing 5), tpc := Round\<rparr>"

lemma demo_passed_reach: "mreach demo_passed"
proof -
  let ?s1 = "minit\<lparr>mem := agc_core_memory_init\<lparr>pool_thread_running := True\<rparr>, tpc := Round\<rparr>"
  let ?s2 = "?s1\<lparr>mem := agc_memory_create_pool 5 (mem ?s1), owned := insert 5 (owned ?s1)\<rparr>"
  have "mstep minit ?s1" by (rule mstep.thread) (simp add: minit_def)
  moreover have "mstep ?s1 ?s2" by (rule mstep.create) (simp_all add: agc_core_memory_init_def)
  moreover have "destroy_start 5 (mem ?s2) = Some (Pushing 5, mem ?s2)"
    by (simp add: destroy_start_def agc_memory_create_pool_def)
  then have "mstep ?s2 (?s2\<lparr>mem := mem ?s2, calls := (calls ?s2)(0 := Pushing 5), owned := owned ?s2 - {5}\<rparr>)"
    by (intro mstep.destroy) (simp_all add: minit_def)
  moreover have "?s2\<lparr>mem := mem ?s2, calls := (calls ?s2)(0 := Pushing 5), owned := owned ?s2 - {5}\<rparr> = demo_passed"
    by (simp add: demo_passed_def minit_def agc_memory_create_pool_def agc_core_memory_init_def)
  ultimately show ?thesis unfolding mreach_def by (metis rtranclp.simps)
qed

theorem pools_destroyed_once_witness:
  "mreach demo_passed \<and> pools (mem demo_passed) = set (contents (pool_queue (mem demo_passed))) \<union> passed demo_passed \<and>
     destroy_go (calls demo_passed 0) (mem demo_passed) \<noteq> None"
proof -
  have "owned demo_passed = {}" by (simp add: demo_passed_def minit_def)
  with pools_destroyed_once [OF demo_passed_reach, of 0 5] demo_passed_reach show ?thesis by simp
qed

end
