(* ===== verification/Spec2Isabelle.thy ===== *)
theory Spec2Isabelle
  imports Agc_Timer Agc_Event_Json Agc_Sql_Laws Agc_Log_Laws Agc_Module_Laws Agc_Connection Agc_Eventsocket_Delivery
    Agc_Logfile_Laws Agc_Mprintf_Laws Agc_Redis_Laws Agc_Rabbitmq_Runs Agc_Esl_Session Agc_Esl_Plain Agc_Memory
begin

text \<open>
  A verification library for the core of the 5gframework, the C sources under
  \<^verbatim>\<open>src/src\<close>, the bounded queue of \<^verbatim>\<open>src/libs/apr-util/misc/apr_queue.c\<close> they run on, and the client
  library under \<^verbatim>\<open>src/libs/esl/src\<close>.

  \<^bold>\<open>The program.\<close> The framework is a process that loads modules and lets them talk through
  events. An event (\<^verbatim>\<open>agc_event.c\<close>) carries an id, a source, headers and a body. Firing an
  event puts it into one of the bounded dispatch queues; a dispatch thread takes it out and calls
  the subscribers of its id. The timer thread (\<^verbatim>\<open>agc_timer.c\<close>) keeps events in a red-black tree
  (\<^verbatim>\<open>agc_rbtree.c\<close>) ordered by deadline and fires those that are due. Events are written and
  read as JSON (\<^verbatim>\<open>agc_json.c\<close>). Modules (\<^verbatim>\<open>agc_module.c\<close>, \<^verbatim>\<open>agc_dso.c\<close>) register commands
  (\<^verbatim>\<open>agc_api.c\<close>), loggers (\<^verbatim>\<open>agc_log.c\<close>) and a driver (\<^verbatim>\<open>agc_driver.c\<close>) for connections
  (\<^verbatim>\<open>agc_connection.c\<close>), and use a pool of database handles (\<^verbatim>\<open>agc_sql.c\<close>) and a cache
  (\<^verbatim>\<open>agc_cache.c\<close>). Texts are formatted by \<^verbatim>\<open>agc_mprintf.c\<close>. The modules that come with it serve clients
  over TCP, write log files, keep a cache in redis and exchange events with RabbitMQ. A client uses
  the library \<^verbatim>\<open>esl\<close> to send commands and to receive events.

  \<^bold>\<open>Conventions\<close> (\<open>Agc_Prelude\<close>, \<open>Agc_Text\<close>). Machine integers keep their width, as words or as
  \<^verbatim>\<open>int\<close> with the wrap written out. C strings are char lists without the terminator. A
  definition that returns \<^typ>\<open>'a option\<close> gives \<^const>\<open>None\<close> where the code reads or writes outside an
  object, through \<^verbatim>\<open>NULL\<close> or through a freed pointer, or where an assertion fails; so is a size of type
  \<^verbatim>\<open>int\<close> that overflows in the formatter, and in the JSON library it is the value \<open>Fault\<close>. The status
  codes of \<^verbatim>\<open>agc_status_t\<close> are values. Where pointers matter (tree nodes, headers, fast events)
  the store is explicit and maps addresses to nodes. Threads are steps of an inductive relation,
  one step for every locked section; an unlocked test of \<^verbatim>\<open>terminated\<close> in front of one is a step of
  its own in the waiting operations of the queue and is joined to the section in those that do not wait. Loops that need not end are \<^verbatim>\<open>partial_function (option)\<close>, so
  that not returning is \<^const>\<open>None\<close>, and the theorems about them show that they return. The JSON
  reader recurses on fuel of twice the length of the text plus two, which \<open>cJSON_Parse_total\<close> shows
  to be enough for every text: the value \<open>Unfinished\<close> of exhausted fuel never occurs. Allocation is taken to succeed where the code asserts that it
  does, and is an environment argument where the code tests it.

  \<^bold>\<open>Theories.\<close>

  \<^item> \<open>Agc_Rbtree\<close> has the operations of \<^verbatim>\<open>agc_rbtree.c\<close> on a store of nodes with parent pointers
    and a sentinel. \<open>_Shape\<close>, \<open>_Color\<close>, \<open>_Rotate\<close> relate a store to a tree and a context and prove
    the rotations; \<open>_Insert\<close>, \<open>_Unlink\<close>, \<open>_Remove\<close>, \<open>_Delete\<close> the loops; \<open>_Frame\<close>
    what deletion leaves in the node it removes; \<open>_Order\<close> the two
    insertion orders, with the locale of key orders; \<open>_Walk\<close> minimum and successor; \<open>_Spec\<close> states
    the contract as a locale over sequences, interpreted on both trees of the code, and that the walks
    down a tree are logarithmic.
  \<^item> \<open>Agc_Queue\<close> is the ring buffer; \<open>Agc_Queue_Threads\<close> its waiting operations under all
    interleavings, as a refinement of a list.
  \<^item> \<open>Agc_Event_Headers\<close> has events, header lists and bodies on a store, \<open>Agc_Event_Header_Laws\<close>
    what the operations do to the list; \<open>Agc_Event\<close> has names, sources, subscribers, firing,
    delivery, start and stop, with laws in \<open>Agc_Event_Registry\<close> and, for the queues under all
    interleavings, in \<open>Agc_Event_Dispatch\<close>; \<open>Agc_Event_Fast\<close> has the pools of preallocated events.
  \<^item> \<open>Agc_Timer\<close> joins the tree and the events.
  \<^item> \<open>Agc_Json\<close> is the reader, the writer and the items, \<open>Agc_Json_Laws\<close> and \<open>Agc_Json_Roundtrip\<close>
    totality, memory safety and the round trip; \<open>Agc_Event_Json\<close> the texts of events. Floating
    point arithmetic is a parameter, with its exactness on the numbers at hand as hypothesis.
  \<^item> \<open>Agc_Utils\<close>, \<open>Agc_Utils_Laws\<close>: the string helpers, the splitter and the case conversions on
    whole words.
  \<^item> \<open>Agc_Api\<close>, \<open>Agc_Api_Laws\<close>: the registry of commands, output streams with their growing
    buffer as a refinement of appending to a text, command lines.
  \<^item> \<open>Agc_Sql\<close>, \<open>Agc_Sql_Laws\<close>: the pool of database handles under all interleavings, and the cutting
    of long SQL texts. The database is a parameter.
  \<^item> \<open>Agc_Log\<close>, \<open>Agc_Log_Laws\<close>: levels, the prefix of a line, the queue of messages, the loggers.
  \<^item> \<open>Agc_Module\<close>, \<open>Agc_Module_Laws\<close>: the file of modules as YAML tokens, loading, the table and
    the threads of modules. The scanner and the dynamic linker are parameters.
  \<^item> \<open>Agc_Memory\<close>: memory pools, which a thread destroys after a while, under all interleavings.
  \<^item> \<open>Agc_Connection\<close>: connections, their ids and the calls of the registered driver.
  \<^item> \<open>Agc_Eventsocket\<close>: the module \<^verbatim>\<open>mod_eventsocket\<close> through which clients follow events and run
    commands over TCP, on the events, their JSON texts, the commands and the queue. The sockets are
    lists of segments in and a text out, which takes all that is sent. \<open>_Laws\<close> has the framing, \<open>_Packets\<close> the texts of requests,
    \<open>_Session\<close> requests and their replies, \<open>_Delivery\<close> the way of an event to the sockets.
  \<^item> \<open>Agc_Logfile\<close>, \<open>Agc_Logfile_Laws\<close>: the module \<^verbatim>\<open>mod_logfile\<close>. The directory is a map from names to
    texts and every operation on it may fail (the parameter \<open>ok\<close>); writing and rotating refine a list of
    the most recent texts.
  \<^item> \<open>Agc_Mprintf\<close>, \<open>Agc_Mprintf_Laws\<close>: the interpreter of formats of \<^verbatim>\<open>agc_mprintf.c\<close> and the blocks its
    output is collected in. The texts of floating point numbers and the results of allocations are
    parameters (\<open>fl\<close>, \<open>mem\<close>).
  \<^item> \<open>Agc_Cache\<close>, \<open>Agc_Redis\<close>, \<open>Agc_Redis_Laws\<close>: the cache interface and the redis client behind it, with
    its pool of connections. The client library is a record of functions over a world; what the round
    trip needs of it is the hypothesis \<open>redis_laws\<close>, which a small store satisfies.
  \<^item> \<open>Agc_Rabbitmq\<close>: the module \<^verbatim>\<open>mod_rabbitmq\<close>, its profiles, producers and consumers, again over a
    library as a parameter, with numbered connections so that the use of a destroyed one is visible.
    \<open>_Laws\<close> has the reading of profiles and the store of messages, \<open>_Runs\<close> the module under all
    interleavings: each message is published once and in order, a broker that accepts gets all of them,
    a lost connection is never replaced.
  \<^item> \<open>Agc_Esl_Buffer\<close> (\<^verbatim>\<open>esl_buffer.c\<close>), \<open>Agc_Esl_Event\<close> (\<^verbatim>\<open>esl_event.c\<close>) and \<open>Agc_Esl\<close> (\<^verbatim>\<open>esl.c\<close>): the client
    library with its buffer, its events and its handle. The buffer refines a queue of bytes; \<open>_Event_Laws\<close>
    has the encoding for URLs and the reading of JSON, \<open>Agc_Esl_Laws\<close> the framing of messages in
    whatever segments they arrive, \<open>Agc_Esl_Plain\<close> the plain form of events. \<open>Agc_Esl_Session\<close> composes it with \<^verbatim>\<open>mod_eventsocket\<close>: the events of a
    connection's queue arrive at the client in order, replies are told from events, a message that is cut off
    is not handed out. These theorems hold for the first 6553600 bytes, while the block of the buffer is not
    reused; after that a packet may be cut at a stale line end, as \<open>stale_newline\<close> shows.

  \<^bold>\<open>Not modelled.\<close> Wrappers of system calls and of third-party libraries: SCTP and epoll
  (\<^verbatim>\<open>agc_sctp.c\<close>, \<^verbatim>\<open>mod_epoll\<close>), ODBC and SQLite (\<^verbatim>\<open>agc_odbc.c\<close>, \<^verbatim>\<open>agc_db.c\<close>), most of \<^verbatim>\<open>agc_apr.c\<close>; the start of the process (\<^verbatim>\<open>agc.c\<close>, \<^verbatim>\<open>agc_core.c\<close>);
  tests; of the client library connecting, listening, threads and configuration, and the command line
  client \<^verbatim>\<open>agc_cli.c\<close>; APR itself except for its queue.
\<close>

end
